(* ===== verification/Pincaster_Prelude.thy ===== *)
theory Pincaster_Prelude
  imports Main "HOL-Library.Word" "HOL-Library.Monad_Syntax"
begin

text \<open>
  Shared vocabulary of the development. Bytes are 8-bit words and C strings are byte
  lists. An operation that may hit a failed assertion, an access outside its buffer or a
  loop that does not end has an option result: \<open>None\<close> stands for the fault,
  \<open>Some\<close> for an ordinary return, whose value carries the C return code. Allocation is an
  explicit argument: \<open>None\<close> when the allocator returns NULL, \<open>Some b\<close> when it
  succeeds and the new bytes happen to hold \<open>b\<close>.
\<close>

type_synonym byte = "8 word"
type_synonym bytes = "byte list"
type_synonym alloc = "byte option"

text \<open>A string literal as the bytes of its characters.\<close>

definition bytes_of :: "string \<Rightarrow> bytes" where
  "bytes_of s = map of_char s"

text \<open>A C assertion: execution goes on only when the condition holds.\<close>

definition c_assert :: "bool \<Rightarrow> unit option" where
  "c_assert b = (if b then Some () else None)"

lemma c_assert_True [simp]: "c_assert True = Some ()"
  by (simp add: c_assert_def)

lemma c_assert_False [simp]: "c_assert False = None"
  by (simp add: c_assert_def)

lemma c_assert_Some [simp]: "c_assert b = Some u \<longleftrightarrow> b"
  by (simp add: c_assert_def)

lemma bytes_of_length [simp]: "length (bytes_of s) = length s"
  by (simp add: bytes_of_def)

text \<open>The largest size_t.\<close>

definition SIZE_MAX :: nat where
  "SIZE_MAX = 2 ^ 64 - 1"

text \<open>Writing a run of bytes into a buffer at an offset (memcpy and memmove).\<close>

definition write_at :: "'a list \<Rightarrow> nat \<Rightarrow> 'a list \<Rightarrow> 'a list" where
  "write_at m p xs = take p m @ xs @ drop (p + length xs) m"

lemma write_at_append [simp]:
  "length ys = length xs \<Longrightarrow> write_at (pre @ ys @ post) (length pre) xs = pre @ xs @ post"
  by (simp add: write_at_def)

lemma write_at_length:
  "p + length xs \<le> length m \<Longrightarrow> length (write_at m p xs) = length m"
  by (simp add: write_at_def)

lemma take_drop_append [simp]: "take n xs @ drop n xs @ ys = xs @ ys"
  by (simp add: append_assoc [symmetric] del: append_assoc)

lemma replicate_numeral: "replicate (numeral n) x = x # replicate (pred_numeral n) x"
  by (simp add: numeral_eq_Suc)

lemma option_eqI: "(\<And>y. a = Some y \<longleftrightarrow> b = Some y) \<Longrightarrow> a = b"
  by (cases a; cases b) auto

lemma find_mem: "List.find P xs = Some x \<Longrightarrow> x \<in> set xs \<and> P x"
  by (auto simp: find_Some_iff)

end
