(* ===== verification/Cqueue.thy ===== *)
theory Cqueue
  imports Pincaster_Prelude
begin

text \<open>
  The bounded ring buffer of pending operations (src/cqueue.c, src/cqueue.h). The buffer
  is a list of cells, one per element of element_size bytes; the C pointers into it are
  cell indices, NULL is \<open>None\<close>, and cqueue_end is the index of the last cell. The
  theory holds the four operations, the interface of a bounded first-in first-out queue
  as a locale, its interpretation on the ring buffer, and the order in which operations
  come out again.
\<close>

section \<open>State and operations\<close>

record 'a cqueue =
  cells :: "'a option list"
  cqueue_end :: nat
  first_element :: "nat option"
  last_element :: "nat option"

text \<open>The left result is the C return code -1.\<close>

definition init_cqueue :: "bool \<Rightarrow> nat \<Rightarrow> nat \<Rightarrow> int + 'a cqueue" where
  "init_cqueue malloc_ok nb_elements element_size =
     (if nb_elements < 2 \<or> SIZE_MAX div nb_elements < element_size then Inl (- 1)
      else if \<not> malloc_ok then Inl (- 1)
      else Inr \<lparr>cells = replicate nb_elements None, cqueue_end = nb_elements - 1,
                first_element = None, last_element = None\<rparr>)"

text \<open>
  The index that receives a pushed element; \<open>None\<close> when the queue is full.
\<close>

definition push_index :: "'a cqueue \<Rightarrow> nat option" where
  "push_index q =
     (case last_element q of
        None \<Rightarrow> Some 0
      | Some l \<Rightarrow>
          (let new_element = (if l \<noteq> cqueue_end q then l + 1 else 0)
           in if Some new_element = first_element q then None else Some new_element))"

definition push_cqueue :: "'a cqueue \<Rightarrow> 'a \<Rightarrow> (int \<times> 'a cqueue) option" where
  "push_cqueue q x =
     do {
       c_assert (last_element q = None \<longrightarrow> first_element q = None);
       (case push_index q of
          None \<Rightarrow> Some (- 1, q)
        | Some i \<Rightarrow>
            Some (0, q\<lparr>cells := (cells q)[i := Some x],
                       first_element :=
                         (if last_element q = None then Some 0 else first_element q),
                       last_element := Some i\<rparr>))
     }"

text \<open>The worker copies the element out before it releases the mutex, so the result is
  the cell's content. An element that was never written is a fault.\<close>

definition shift_cqueue :: "'a cqueue \<Rightarrow> ('a option \<times> 'a cqueue) option" where
  "shift_cqueue q =
     (case first_element q of
        None \<Rightarrow> Some (None, q)
      | Some f \<Rightarrow>
          do {
            x \<leftarrow> (if f < length (cells q) then cells q ! f else None);
            Some (Some x,
              (if first_element q = last_element q
               then q\<lparr>last_element := None, first_element := None\<rparr>
               else q\<lparr>first_element :=
                        Some (if f \<noteq> cqueue_end q then f + 1 else 0)\<rparr>))
          })"

section \<open>Abstraction and invariant\<close>

definition cq_size :: "'a cqueue \<Rightarrow> nat" where
  "cq_size q =
     (case (first_element q, last_element q) of
        (Some f, Some l) \<Rightarrow>
          (if f \<le> l then l - f + 1 else l + (cqueue_end q + 1) - f + 1)
      | _ \<Rightarrow> 0)"

definition cq_list :: "'a cqueue \<Rightarrow> 'a list" where
  "cq_list q =
     (case first_element q of
        None \<Rightarrow> []
      | Some f \<Rightarrow>
          map (\<lambda>i. the (cells q ! ((f + i) mod (cqueue_end q + 1)))) [0..<cq_size q])"

definition cq_inv :: "'a cqueue \<Rightarrow> bool" where
  "cq_inv q \<longleftrightarrow>
     length (cells q) = cqueue_end q + 1 \<and> 1 \<le> cqueue_end q \<and>
     (first_element q = None \<longleftrightarrow> last_element q = None) \<and>
     (\<forall>f. first_element q = Some f \<longrightarrow> f \<le> cqueue_end q) \<and>
     (\<forall>l. last_element q = Some l \<longrightarrow> l \<le> cqueue_end q) \<and>
     (\<forall>f. first_element q = Some f \<longrightarrow>
        (\<forall>i < cq_size q. cells q ! ((f + i) mod (cqueue_end q + 1)) \<noteq> None))"

definition cq_capacity :: "'a cqueue \<Rightarrow> nat" where
  "cq_capacity q = cqueue_end q + 1"

lemma cq_length [simp]: "cq_inv q \<Longrightarrow> length (cq_list q) = cq_size q"
  by (auto simp: cq_list_def cq_inv_def cq_size_def split: option.splits)

lemma cq_size_le: "cq_inv q \<Longrightarrow> cq_size q \<le> cq_capacity q"
  by (auto simp: cq_inv_def cq_size_def cq_capacity_def split: option.splits)

text \<open>The cell after the last one is the one at distance \<open>cq_size\<close> from the first.\<close>

lemma cq_next_index:
  assumes "cq_inv q" "first_element q = Some f" "last_element q = Some l"
  shows "(if l \<noteq> cqueue_end q then l + 1 else 0) = (f + cq_size q) mod (cqueue_end q + 1)"
proof -
  have b: "f \<le> cqueue_end q" "l \<le> cqueue_end q"
    using assms by (auto simp: cq_inv_def)
  have "f + cq_size q = (if f \<le> l then l + 1 else l + 1 + (cqueue_end q + 1))"
    using assms b by (auto simp: cq_size_def)
  then have "(f + cq_size q) mod (cqueue_end q + 1) = (l + 1) mod (cqueue_end q + 1)"
    by (metis mod_add_self2)
  then show ?thesis using b by (auto simp: mod_if)
qed

lemma cq_full_iff:
  assumes "cq_inv q" "first_element q = Some f" "last_element q = Some l"
  shows "(if l \<noteq> cqueue_end q then l + 1 else 0) = f \<longleftrightarrow> cq_size q = cq_capacity q"
  using assms by (auto simp: cq_inv_def cq_size_def cq_capacity_def)

lemma cq_mod_inj:
  assumes "i < j" "j < n"
  shows "(f + i) mod n \<noteq> (f + j) mod (n::nat)"
proof
  assume "(f + i) mod n = (f + j) mod n"
  then have "n dvd (f + j) - (f + i)"
    using assms by (metis add_le_cancel_left less_imp_le_nat mod_eq_dvd_iff_nat)
  then show False using assms by (auto dest: dvd_imp_le)
qed

text \<open>Pushing: the queue grows at the back while it has room.\<close>

lemma push_cqueue_room:
  assumes inv: "cq_inv q" and room: "cq_size q < cq_capacity q"
  shows "\<exists>q'. push_cqueue q x = Some (0, q') \<and> cq_inv q' \<and>
              cq_list q' = cq_list q @ [x] \<and> cq_capacity q' = cq_capacity q"
proof (cases "last_element q")
  case None
  with inv have "first_element q = None" by (simp add: cq_inv_def)
  with None inv show ?thesis
    by (auto simp: push_cqueue_def push_index_def cq_inv_def cq_list_def cq_size_def
        cq_capacity_def)
next
  case (Some l)
  with inv obtain f where f: "first_element q = Some f" by (auto simp: cq_inv_def)
  define n where "n = cqueue_end q + 1"
  define i where "i = (f + cq_size q) mod n"
  have next_i: "(if l \<noteq> cqueue_end q then l + 1 else 0) = i"
    using cq_next_index [OF inv f Some] by (simp add: i_def n_def)
  have nf: "i \<noteq> f"
    using cq_full_iff [OF inv f Some] room next_i by simp
  define q' where "q' = q\<lparr>cells := (cells q)[i := Some x], last_element := Some i\<rparr>"
  have push: "push_cqueue q x = Some (0, q')"
    using Some f next_i nf by (auto simp: push_cqueue_def push_index_def q'_def Let_def)
  have lens: "length (cells q) = n" "i < n" "f < n" "l < n"
    using inv f Some by (auto simp: cq_inv_def n_def i_def less_Suc_eq_le)
  have size: "cq_size q' = cq_size q + 1"
    using next_i nf f Some inv lens by (auto simp: cq_size_def q'_def n_def cq_inv_def split: if_splits)
  have old: "cells q' ! ((f + j) mod n) = cells q ! ((f + j) mod n)" if "j < cq_size q" for j
    using cq_mod_inj [of j "cq_size q" n f] that room lens
    by (auto simp: q'_def i_def cq_capacity_def n_def nth_list_update)
  have new: "cells q' ! ((f + cq_size q) mod n) = Some x"
    using lens by (simp add: q'_def i_def)
  have "cq_inv q'"
    using inv f Some lens old new size unfolding cq_inv_def
    by (auto simp: q'_def n_def less_Suc_eq)
  moreover have "cq_list q' = cq_list q @ [x]"
    using f size old new by (simp add: cq_list_def q'_def n_def)
  ultimately show ?thesis using push by (simp add: cq_capacity_def q'_def)
qed

lemma push_cqueue_full:
  assumes inv: "cq_inv q" and full: "cq_size q = cq_capacity q"
  shows "push_cqueue q x = Some (- 1, q)"
proof -
  from full obtain f l where fl: "first_element q = Some f" "last_element q = Some l"
    by (auto simp: cq_size_def cq_capacity_def split: option.splits)
  then show ?thesis
    using cq_full_iff [OF inv fl] full by (auto simp: push_cqueue_def push_index_def Let_def)
qed

text \<open>Shifting: the front element leaves.\<close>

lemma shift_cqueue_empty:
  assumes "cq_inv q" "cq_list q = []"
  shows "shift_cqueue q = Some (None, q)"
proof -
  have "cq_size q = 0" using assms by (metis cq_length list.size(3))
  with assms(1) have "first_element q = None"
    by (auto simp: cq_size_def cq_inv_def split: option.splits if_splits)
  then show ?thesis by (simp add: shift_cqueue_def)
qed

lemma shift_cqueue_cons:
  assumes inv: "cq_inv q" and list: "cq_list q = x # xs"
  shows "\<exists>q'. shift_cqueue q = Some (Some x, q') \<and> cq_inv q' \<and> cq_list q' = xs \<and>
              cq_capacity q' = cq_capacity q"
proof -
  from list obtain f where f: "first_element q = Some f"
    by (auto simp: cq_list_def split: option.splits)
  with inv obtain l where l: "last_element q = Some l" by (auto simp: cq_inv_def)
  define n where "n = cqueue_end q + 1"
  have b: "f < n" "l < n" "length (cells q) = n"
    using inv f l by (auto simp: cq_inv_def n_def less_Suc_eq_le)
  have sz: "0 < cq_size q" using list cq_length [OF inv] by simp
  have head: "cells q ! f = Some x"
  proof -
    have "cells q ! ((f + 0) mod n) \<noteq> None"
      using inv f sz by (auto simp: cq_inv_def n_def)
    moreover have "x = the (cells q ! ((f + 0) mod n))"
      using list f sz by (simp add: cq_list_def n_def upt_conv_Cons)
    ultimately show ?thesis using b by auto
  qed
  show ?thesis
  proof (cases "f = l")
    case True
    with f l have "cq_size q = 1" by (simp add: cq_size_def)
    with list inv have "xs = []" using cq_length [OF inv] by simp
    with True f l head b inv show ?thesis
      by (auto simp: shift_cqueue_def cq_inv_def cq_list_def cq_capacity_def)
  next
    case False
    define f' where "f' = (if f \<noteq> cqueue_end q then f + 1 else 0)"
    define q' where "q' = q\<lparr>first_element := Some f'\<rparr>"
    have f'_mod: "f' = (f + 1) mod n"
      using b by (auto simp: f'_def n_def mod_if)
    have size: "cq_size q = cq_size q' + 1"
      using False f l b by (auto simp: cq_size_def q'_def f'_def n_def)
    have idx: "(f' + j) mod n = (f + (j + 1)) mod n" for j
      by (simp add: f'_mod mod_simps ac_simps)
    have "\<forall>j < cq_size q'. cells q ! ((f' + j) mod n) \<noteq> None"
      using inv f size unfolding idx by (auto simp: cq_inv_def n_def)
    then have "cq_inv q'"
      using inv f l b False by (auto simp: cq_inv_def q'_def n_def f'_def)
    moreover have "cq_list q' = xs"
    proof -
      have "cq_list q = map (\<lambda>i. the (cells q ! ((f + i) mod n))) [0..<cq_size q' + 1]"
        using f size by (simp add: cq_list_def n_def)
      also have "\<dots> = the (cells q ! (f mod n)) #
          map (\<lambda>j. the (cells q ! ((f + (j + 1)) mod n))) [0..<cq_size q']"
        by (simp add: upt_conv_Cons map_Suc_upt [symmetric] comp_def del: upt_Suc)
      finally have "xs = map (\<lambda>j. the (cells q ! ((f' + j) mod n))) [0..<cq_size q']"
        using list by (simp add: idx)
      then show ?thesis by (simp add: cq_list_def q'_def n_def)
    qed
    moreover have "shift_cqueue q = Some (Some x, q')"
      using f l False head b by (simp add: shift_cqueue_def q'_def f'_def)
    ultimately show ?thesis by (auto simp: cq_capacity_def q'_def)
  qed
qed

lemma init_cqueue_inv:
  assumes "init_cqueue ok nb es = Inr q"
  shows "cq_inv q" "cq_list q = []" "cq_capacity q = nb"
  using assms
  by (auto simp: init_cqueue_def cq_inv_def cq_list_def cq_capacity_def split: if_splits)

section \<open>The interface: a bounded first-in first-out queue\<close>

text \<open>
  What the HTTP threads and the workers rely on: an accepted push appends, a push into a
  full queue returns -1 and changes nothing, a shift removes the oldest element.
\<close>

locale bounded_fifo =
  fixes push :: "'q \<Rightarrow> 'a \<Rightarrow> (int \<times> 'q) option"
    and shift :: "'q \<Rightarrow> ('a option \<times> 'q) option"
    and contents :: "'q \<Rightarrow> 'a list"
    and inv :: "'q \<Rightarrow> bool"
    and capacity :: "'q \<Rightarrow> nat"
  assumes bounded: "inv q \<Longrightarrow> length (contents q) \<le> capacity q"
    and push_room: "inv q \<Longrightarrow> length (contents q) < capacity q \<Longrightarrow>
      \<exists>q'. push q x = Some (0, q') \<and> inv q' \<and> contents q' = contents q @ [x] \<and>
           capacity q' = capacity q"
    and push_full: "inv q \<Longrightarrow> length (contents q) = capacity q \<Longrightarrow> push q x = Some (- 1, q)"
    and shift_empty: "inv q \<Longrightarrow> contents q = [] \<Longrightarrow> shift q = Some (None, q)"
    and shift_cons: "inv q \<Longrightarrow> contents q = x # xs \<Longrightarrow>
      \<exists>q'. shift q = Some (Some x, q') \<and> inv q' \<and> contents q' = xs \<and>
           capacity q' = capacity q"

text \<open>
  A run of pushes (by the event loop) and shifts (by the workers): the return code of every push, the result of
  every shift, and the queue that is left.
\<close>

datatype 'a queue_cmd = Push 'a | Shift

fun fifo_run ::
  "('q \<Rightarrow> 'a \<Rightarrow> (int \<times> 'q) option) \<Rightarrow> ('q \<Rightarrow> ('a option \<times> 'q) option) \<Rightarrow>
   'q \<Rightarrow> 'a queue_cmd list \<Rightarrow> (int list \<times> 'a option list \<times> 'q) option" where
  "fifo_run push shift q [] = Some ([], [], q)"
| "fifo_run push shift q (Push x # cs) =
     do {
       (r, q') \<leftarrow> push q x;
       (rs, ys, q'') \<leftarrow> fifo_run push shift q' cs;
       Some (r # rs, ys, q'')
     }"
| "fifo_run push shift q (Shift # cs) =
     do {
       (y, q') \<leftarrow> shift q;
       (rs, ys, q'') \<leftarrow> fifo_run push shift q' cs;
       Some (rs, y # ys, q'')
     }"

text \<open>The same commands on a list of at most n elements, oldest first: a push is refused exactly when it is full.\<close>

fun list_fifo :: "nat \<Rightarrow> 'a list \<Rightarrow> 'a queue_cmd list \<Rightarrow> int list \<times> 'a option list \<times> 'a list" where
  "list_fifo n l [] = ([], [], l)"
| "list_fifo n l (Push x # cs) =
     (if length l < n then apfst (Cons 0) (list_fifo n (l @ [x]) cs)
      else apfst (Cons (- 1)) (list_fifo n l cs))"
| "list_fifo n l (Shift # cs) =
     (case l of
        [] \<Rightarrow> apsnd (apfst (Cons None)) (list_fifo n [] cs)
      | x # l' \<Rightarrow> apsnd (apfst (Cons (Some x))) (list_fifo n l' cs))"

context bounded_fifo
begin

lemma push_cases:
  assumes "inv q"
  obtains (room) q' where "push q x = Some (0, q')" "inv q'" "contents q' = contents q @ [x]"
      "capacity q' = capacity q"
    | (full) "push q x = Some (- 1, q)"
  using assms bounded push_room push_full by (metis order_le_imp_less_or_eq)

lemma shift_cases:
  assumes "inv q"
  obtains (empty) "shift q = Some (None, q)" "contents q = []"
    | (cons) x xs q' where "shift q = Some (Some x, q')" "inv q'" "contents q = x # xs"
        "contents q' = xs" "capacity q' = capacity q"
proof (cases "contents q")
  case Nil
  with assms shift_empty empty show thesis by blast
next
  case (Cons x xs)
  with assms shift_cons cons show thesis by blast
qed

lemma run_is_list_run:
  "inv q \<Longrightarrow> \<exists>rs ys q'. fifo_run push shift q cs = Some (rs, ys, q') \<and> inv q' \<and>
     list_fifo (capacity q) (contents q) cs = (rs, ys, contents q')"
proof (induction cs arbitrary: q)
  case Nil
  then show ?case by simp
next
  case (Cons c cs)
  note bound = bounded [OF Cons.prems]
  show ?case
  proof (cases c)
    case (Push x)
    show ?thesis
    proof (cases "length (contents q) < capacity q")
      case True
      from push_room [OF Cons.prems this, of x] obtain q' where
        "push q x = Some (0, q')" "inv q'" "contents q' = contents q @ [x]" "capacity q' = capacity q" by blast
      with Cons.IH [of q'] True show ?thesis by (auto simp: Push)
    next
      case False
      then have "push q x = Some (- 1, q)" using push_full [OF Cons.prems] bound by simp
      with Cons.IH [OF Cons.prems] False show ?thesis by (auto simp: Push)
    qed
  next
    case Shift
    show ?thesis
    proof (rule shift_cases [OF Cons.prems])
      assume "shift q = Some (None, q)" "contents q = []"
      with Cons.IH [OF Cons.prems] show ?thesis by (auto simp: Shift)
    next
      fix x xs q' assume "shift q = Some (Some x, q')" "inv q'" "contents q = x # xs"
        "contents q' = xs" "capacity q' = capacity q"
      with Cons.IH [of q'] show ?thesis by (auto simp: Shift)
    qed
  qed
qed

end

interpretation cq: bounded_fifo push_cqueue shift_cqueue cq_list cq_inv cq_capacity
  by unfold_locales
    (auto simp: cq_size_le push_cqueue_room push_cqueue_full shift_cqueue_empty
      shift_cqueue_cons)

section \<open>Properties\<close>

text \<open>
  C29: the queue of operations is a bounded first-in first-out list. For every sequence of pushes and shifts on a freshly
  initialised queue of n cells, no operation faults, and every return code of a push, every result of a shift and the
  final contents are those of a list of at most n elements: a push is accepted exactly when fewer than n operations are
  queued and appends at the back, otherwise it returns -1 and changes nothing; a shift takes the oldest operation, and
  gives NULL exactly when the queue is empty.
\<close>

theorem cqueue_fifo:
  assumes "init_cqueue malloc_ok nb_elements element_size = Inr q"
  shows "\<exists>rs ys q'. fifo_run push_cqueue shift_cqueue q cs = Some (rs, ys, q') \<and>
           list_fifo nb_elements [] cs = (rs, ys, cq_list q')"
  using cq.run_is_list_run [OF init_cqueue_inv(1) [OF assms], of cs] init_cqueue_inv(2,3) [OF assms] by auto

theorem cqueue_fifo_witness:
  "\<exists>q. init_cqueue True 2 8 = Inr q \<and>
     (\<exists>q'. fifo_run push_cqueue shift_cqueue q [Push (10::nat), Push 11, Push 12, Shift, Push 13, Shift, Shift, Shift] =
        Some ([0, 0, - 1, 0], [Some 10, Some 11, Some 13, None], q') \<and> cq_list q' = [])"
proof -
  have i: "init_cqueue True 2 8 = Inr \<lparr>cells = [None, None], cqueue_end = 1,
      first_element = None, last_element = (None :: nat option)\<rparr>"
    by (simp add: init_cqueue_def SIZE_MAX_def replicate_numeral)
  show ?thesis
    using i cqueue_fifo [OF i, of "[Push (10::nat), Push 11, Push 12, Shift, Push 13, Shift, Shift, Shift]"] by (auto simp del: fifo_run.simps)
qed

end
