(* ===== verification/Pnt_Stack.thy ===== *)
theory Pnt_Stack
  imports Pincaster_Prelude
begin

text \<open>
  The byte stack used for tree traversals and link traversal (src/stack.c, src/stack.h).
  Elements are runs of element_size bytes in a growing buffer; the model keeps the buffer
  as a byte list of the allocated length, so that a write beyond the allocation is a
  fault. size_t arithmetic is written out modulo 2^64. The theory holds the operations,
  the last-in first-out interface as a locale, its interpretation for element sizes that
  divide the 4096-byte chunk, and what happens for the other element sizes.
\<close>

section \<open>State and operations\<close>

definition STACK_CHUNK_SIZE :: nat where
  "STACK_CHUNK_SIZE = 4096"

definition STACK_SHRINK_AFTER_LOW_DEPTH_COUNT :: nat where
  "STACK_SHRINK_AFTER_LOW_DEPTH_COUNT = 100"

record pnt_stack =
  stack :: bytes
  stack_size :: nat
  element_size :: nat
  depth :: nat
  low_depth :: nat
  low_depth_unreached_count :: nat

text \<open>
  Rounding up to a chunk: \<open>(x + 4095) & ~4095\<close> on size_t, so the addition wraps.
\<close>

definition round_to_chunk :: "nat \<Rightarrow> nat" where
  "round_to_chunk x =
     ((x + (STACK_CHUNK_SIZE - 1)) mod 2 ^ 64) div STACK_CHUNK_SIZE * STACK_CHUNK_SIZE"

definition init_pnt_stack :: "alloc \<Rightarrow> nat \<Rightarrow> nat \<Rightarrow> pnt_stack option" where
  "init_pnt_stack a initial_nb_elements es =
     (if SIZE_MAX div initial_nb_elements < es then None
      else
        (let sz = round_to_chunk (initial_nb_elements * es)
         in case a of
              None \<Rightarrow> None
            | Some junk \<Rightarrow>
                Some \<lparr>stack = replicate sz junk, stack_size = sz, element_size = es,
                      depth = 0, low_depth = sz div 2, low_depth_unreached_count = 0\<rparr>))"

text \<open>The result \<open>None\<close> is the NULL pointer.\<close>

definition new_pnt_stack :: "alloc \<Rightarrow> nat \<Rightarrow> nat \<Rightarrow> pnt_stack option" where
  "new_pnt_stack a initial_nb_elements es =
     (if es = 0 then None
      else if initial_nb_elements = 0 then
        (if STACK_CHUNK_SIZE div es = 0 then None
         else init_pnt_stack a (STACK_CHUNK_SIZE div es) es)
      else init_pnt_stack a initial_nb_elements es)"

text \<open>memcpy of one element to the top of the stack; outside the allocation it faults.\<close>

definition put_element :: "pnt_stack \<Rightarrow> bytes \<Rightarrow> pnt_stack option" where
  "put_element s x =
     (if length x = element_size s \<and> depth s + element_size s \<le> length (stack s)
      then Some (s\<lparr>stack := write_at (stack s) (depth s) x,
                   depth := depth s + element_size s\<rparr>)
      else None)"

text \<open>realloc to a new size; the bytes that are added hold whatever they hold.\<close>

definition realloc_stack :: "alloc \<Rightarrow> nat \<Rightarrow> pnt_stack \<Rightarrow> bytes option" where
  "realloc_stack a n s =
     map_option (\<lambda>junk. take n (stack s) @ replicate (n - length (stack s)) junk) a"

text \<open>The part of a push that may give half of the buffer back.\<close>

definition shrink_after_push :: "alloc \<Rightarrow> pnt_stack \<Rightarrow> pnt_stack" where
  "shrink_after_push a s =
     (if stack_size s \<le> STACK_CHUNK_SIZE \<or> stack_size s \<le> element_size s then s
      else if depth s > low_depth s then s\<lparr>low_depth_unreached_count := 0\<rparr>
      else if low_depth_unreached_count s + 1 < STACK_SHRINK_AFTER_LOW_DEPTH_COUNT then
        s\<lparr>low_depth_unreached_count := low_depth_unreached_count s + 1\<rparr>
      else
        (let s1 = s\<lparr>stack_size := low_depth s, low_depth := low_depth s div 2,
                    low_depth_unreached_count := 0\<rparr>
         in case realloc_stack a (stack_size s1) s of
              None \<Rightarrow> s1
            | Some new_stack \<Rightarrow> s1\<lparr>stack := new_stack\<rparr>))"

definition push_pnt_stack :: "alloc \<Rightarrow> pnt_stack \<Rightarrow> bytes \<Rightarrow> (int \<times> pnt_stack) option" where
  "push_pnt_stack a s x =
     (if depth s < stack_size s then
        do {
          s1 \<leftarrow> put_element s x;
          c_assert (depth s1 \<le> stack_size s1);
          Some (0, shrink_after_push a s1)
        }
      else if stack_size s > SIZE_MAX div 2 then Some (- 1, s)
      else
        (let new_stack_size = (stack_size s * 2) mod 2 ^ 64
         in if new_stack_size \<le> stack_size s then Some (- 1, s)
            else case realloc_stack a new_stack_size s of
                   None \<Rightarrow> Some (- 1, s)
                 | Some new_stack \<Rightarrow>
                     do {
                       s1 \<leftarrow> put_element
                         (s\<lparr>low_depth := stack_size s, stack_size := new_stack_size,
                            low_depth_unreached_count := 0, stack := new_stack\<rparr>) x;
                       Some (0, s1)
                     }))"

text \<open>The popped pointer is read by the caller before the next push: its bytes are returned.\<close>

definition pop_pnt_stack :: "pnt_stack \<Rightarrow> (bytes option \<times> pnt_stack) option" where
  "pop_pnt_stack s =
     (if depth s = 0 then Some (None, s)
      else
        do {
          c_assert (depth s \<ge> element_size s);
          (let d = depth s - element_size s
           in Some (Some (take (element_size s) (drop d (stack s))), s\<lparr>depth := d\<rparr>))
        })"

text \<open>
  pnt_stack_foreach: the callback gets its context, the stack and the offset of the
  element; it may push, so the bound is read again in every round.
\<close>

partial_function (option) foreach_from ::
  "('c \<Rightarrow> pnt_stack \<Rightarrow> nat \<Rightarrow> (int \<times> 'c \<times> pnt_stack) option) \<Rightarrow>
   nat \<Rightarrow> 'c \<Rightarrow> pnt_stack \<Rightarrow> ('c \<times> pnt_stack) option" where
  "foreach_from cb d c s =
     (if d < depth s then
        do {
          (r, c', s') \<leftarrow> cb c s d;
          (if r \<noteq> 0 then Some (c', s') else foreach_from cb (d + element_size s') c' s')
        }
      else Some (c, s))"

definition pnt_stack_foreach ::
  "('c \<Rightarrow> pnt_stack \<Rightarrow> nat \<Rightarrow> (int \<times> 'c \<times> pnt_stack) option) \<Rightarrow>
   'c \<Rightarrow> pnt_stack \<Rightarrow> ('c \<times> pnt_stack) option" where
  "pnt_stack_foreach cb c s = foreach_from cb 0 c s"

definition pnt_stack_exists_from :: "pnt_stack \<Rightarrow> bytes \<Rightarrow> nat \<Rightarrow> bool" where
  "pnt_stack_exists_from s x n \<longleftrightarrow>
     (\<exists>i \<in> set [0..<n]. take (element_size s) (drop (i * element_size s) (stack s)) = x)"

definition pnt_stack_exists :: "pnt_stack \<Rightarrow> bytes \<Rightarrow> bool" where
  "pnt_stack_exists s x =
     pnt_stack_exists_from s x ((depth s + element_size s - 1) div element_size s)"

text \<open>The two iterators: the plain one ends with NULL and rewinds, the cyclic one wraps.\<close>

definition pnt_stack_iterator_next :: "pnt_stack \<Rightarrow> nat \<Rightarrow> bytes option \<times> nat" where
  "pnt_stack_iterator_next s d =
     (if d \<ge> depth s then (None, 0)
      else (Some (take (element_size s) (drop d (stack s))), d + element_size s))"

definition pnt_stack_cyterator_next :: "pnt_stack \<Rightarrow> nat \<Rightarrow> bytes \<times> nat" where
  "pnt_stack_cyterator_next s d =
     (take (element_size s) (drop d (stack s)),
      (if d + element_size s \<ge> depth s then 0 else d + element_size s))"

section \<open>Abstraction: the elements from bottom to top\<close>

definition element_at :: "pnt_stack \<Rightarrow> nat \<Rightarrow> bytes" where
  "element_at s i = take (element_size s) (drop (i * element_size s) (stack s))"

definition elements :: "pnt_stack \<Rightarrow> bytes list" where
  "elements s = map (element_at s) [0..<depth s div element_size s]"

text \<open>
  A stack that starts with at most one chunk has a size that is a chunk times a
  power of two, of at most 2^63 bytes, and low_depth is half of it.
\<close>

definition stack_inv :: "pnt_stack \<Rightarrow> bool" where
  "stack_inv s \<longleftrightarrow>
     0 < element_size s \<and> element_size s dvd STACK_CHUNK_SIZE \<and>
     element_size s dvd depth s \<and> depth s \<le> stack_size s \<and>
     stack_size s \<le> length (stack s) \<and>
     (\<exists>j \<le> 51. stack_size s = 4096 * 2 ^ j \<and> low_depth s = 2048 * 2 ^ j)"

lemma stack_inv_dvd: "stack_inv s \<Longrightarrow> element_size s dvd stack_size s"
  by (auto simp: stack_inv_def STACK_CHUNK_SIZE_def intro: dvd_mult2)

lemma stack_inv_fits:
  assumes "stack_inv s" "depth s < stack_size s"
  shows "depth s + element_size s \<le> stack_size s"
proof -
  obtain a b where "depth s = element_size s * a" "stack_size s = element_size s * b"
    using assms stack_inv_dvd [OF assms(1)] by (auto simp: stack_inv_def elim!: dvdE)
  moreover from this assms have "a < b" by auto
  ultimately show ?thesis by (metis Suc_leI mult_Suc_right mult_le_mono2 add.commute)
qed

lemma element_at_write:
  assumes "(i + 1) * element_size s \<le> depth s" "depth s + length x \<le> length (stack s)"
  shows "take (element_size s) (drop (i * element_size s) (write_at (stack s) (depth s) x)) =
         element_at s i"
  using assms by (simp add: write_at_def element_at_def drop_take algebra_simps)

lemma elements_put:
  assumes "put_element s x = Some s'" "0 < element_size s" "element_size s dvd depth s"
  shows "elements s' = elements s @ [x]"
proof -
  let ?e = "element_size s" and ?n = "depth s div element_size s"
  have x: "length x = ?e" "depth s + ?e \<le> length (stack s)"
    and s': "s' = s\<lparr>stack := write_at (stack s) (depth s) x, depth := depth s + ?e\<rparr>"
    using assms(1) by (auto simp: put_element_def split: if_splits)
  have n: "?n * ?e = depth s" using assms(3) by simp
  have old: "element_at s' i = element_at s i" if "i < ?n" for i
  proof -
    have "(i + 1) * ?e \<le> ?n * ?e" using that by (intro mult_le_mono1) simp
    then have "(i + 1) * ?e \<le> depth s" using n by simp
    then show ?thesis using element_at_write [of i s x] x by (simp add: s' element_at_def)
  qed
  have new: "element_at s' ?n = x"
    using x n by (simp add: s' element_at_def write_at_def)
  have d: "depth s' div element_size s' = Suc ?n"
    using assms(2) by (simp add: s' div_add_self2)
  have "elements s' = map (element_at s') ([0..<?n] @ [?n])"
    unfolding elements_def d by simp
  then show ?thesis using old new by (simp add: elements_def)
qed

lemma elements_cong:
  assumes "element_size s' = element_size s" "depth s' = depth s"
    and "take (depth s) (stack s') = take (depth s) (stack s)"
  shows "elements s' = elements s"
proof -
  have "element_at s' i = element_at s i" if "i < depth s div element_size s" for i
  proof -
    have le: "(i + 1) * element_size s \<le> depth s"
      using that by (metis Suc_eq_plus1 Suc_leI div_times_less_eq_dividend le_trans mult_le_mono1)
    have "take (element_size s) (drop (i * element_size s) (take (depth s) (stack s''))) =
          take (element_size s) (drop (i * element_size s) (stack s''))" for s'' :: pnt_stack
      using le by (simp add: drop_take min_def)
    then show ?thesis using assms by (metis element_at_def)
  qed
  then show ?thesis using assms by (simp add: elements_def)
qed

lemma shrink_after_push:
  assumes "stack_inv s"
  shows "stack_inv (shrink_after_push a s) \<and> elements (shrink_after_push a s) = elements s \<and>
         element_size (shrink_after_push a s) = element_size s"
proof -
  define s1 where "s1 = s\<lparr>stack_size := low_depth s, low_depth := low_depth s div 2,
                    low_depth_unreached_count := 0\<rparr>"
  have half: "\<exists>j \<le> 51. low_depth s = 4096 * 2 ^ j \<and> low_depth s div 2 = 2048 * 2 ^ j \<and>
       low_depth s \<le> stack_size s" if "4096 < stack_size s"
  proof -
    from assms obtain j where j: "j \<le> 51" "stack_size s = 4096 * 2 ^ j" "low_depth s = 2048 * 2 ^ j"
      by (auto simp: stack_inv_def)
    with that obtain k where "j = Suc k" by (cases j) auto
    with j show ?thesis by (intro exI [of _ k]) simp
  qed
  show ?thesis
    using assms half unfolding shrink_after_push_def
    by (auto simp: stack_inv_def STACK_CHUNK_SIZE_def realloc_stack_def Let_def
        split: option.splits intro!: elements_cong)
qed

lemma stack_inv_put:
  assumes "stack_inv s" "depth s + element_size s \<le> stack_size s" "length x = element_size s"
  obtains s' where "put_element s x = Some s'" "stack_inv s'" "elements s' = elements s @ [x]"
    "element_size s' = element_size s" "stack_size s' = stack_size s"
proof -
  let ?s' = "s\<lparr>stack := write_at (stack s) (depth s) x, depth := depth s + element_size s\<rparr>"
  have p: "put_element s x = Some ?s'"
    using assms by (auto simp: put_element_def stack_inv_def)
  have len: "length (write_at (stack s) (depth s) x) = length (stack s)"
    using assms by (intro write_at_length) (auto simp: stack_inv_def)
  have "stack_inv ?s'"
    using assms len by (auto simp: stack_inv_def)
  moreover have "elements ?s' = elements s @ [x]"
    using elements_put [OF p] assms by (auto simp: stack_inv_def)
  ultimately show thesis using that [OF p] by simp
qed

text \<open>
  How many bytes fit: with an allocator that refuses those of the first chunk, otherwise 2^63, since the size is doubled as
  long as that is no more than half of SIZE_MAX.
\<close>

definition stack_limit :: "alloc \<Rightarrow> nat" where
  "stack_limit a = (case a of None \<Rightarrow> 4096 | Some _ \<Rightarrow> 2 ^ 63)"

definition stack_ok :: "alloc \<Rightarrow> pnt_stack \<Rightarrow> bool" where
  "stack_ok a s = (stack_inv s \<and> stack_size s \<le> stack_limit a)"

lemma stack_size_cases:
  assumes "stack_inv s"
  shows "stack_size s = 2 ^ 63 \<or> stack_size s \<le> SIZE_MAX div 2 \<and> (\<exists>k \<le> 51. stack_size s * 2 = 4096 * 2 ^ k \<and> stack_size s = 2048 * 2 ^ k)"
proof -
  from assms obtain j where j: "j \<le> 51" "stack_size s = 4096 * 2 ^ j" by (auto simp: stack_inv_def)
  show ?thesis
  proof (cases "j = 51")
    case False
    then have "Suc j \<le> 51" using j(1) by simp
    moreover have "(2::nat) ^ j \<le> 2 ^ 50" using False j(1) by (intro power_increasing) auto
    then have "stack_size s \<le> SIZE_MAX div 2" by (simp add: j(2) SIZE_MAX_def)
    ultimately show ?thesis using j(2) by (intro disjI2 conjI exI [of _ "Suc j"]) simp_all
  qed (simp add: j(2))
qed

text \<open>A push below the limit appends; any other push changes nothing.\<close>

lemma push_pnt_stack_cases:
  assumes ok: "stack_ok a s" and len: "length x = element_size s"
  shows "\<exists>r s'. push_pnt_stack a s x = Some (r, s') \<and> stack_ok a s' \<and> element_size s' = element_size s \<and>
     (if depth s < stack_limit a then r = 0 \<and> elements s' = elements s @ [x] else r = - 1 \<and> s' = s)"
proof -
  have inv: "stack_inv s" and small: "stack_size s \<le> stack_limit a" using ok by (simp_all add: stack_ok_def)
  show ?thesis
  proof (cases "depth s < stack_size s")
    case True
    obtain s1 where s1: "put_element s x = Some s1" "stack_inv s1" "elements s1 = elements s @ [x]"
        "element_size s1 = element_size s" "stack_size s1 = stack_size s"
      using stack_inv_put [OF inv stack_inv_fits [OF inv True] len] .
    moreover have "depth s1 \<le> stack_size s1" using s1(2) by (simp add: stack_inv_def)
    moreover have "stack_size (shrink_after_push a s1) \<le> stack_size s1"
      using s1(2) by (auto simp: shrink_after_push_def stack_inv_def Let_def split: option.split)
    ultimately show ?thesis
      using True small shrink_after_push [OF s1(2), of a] by (simp add: push_pnt_stack_def stack_ok_def)
  next
    case False
    then have full: "depth s = stack_size s" using inv by (simp add: stack_inv_def)
    show ?thesis
    proof (cases "depth s < stack_limit a")
      case limit: False
      have "a = None \<or> stack_size s > SIZE_MAX div 2"
        using limit small full by (auto simp: stack_limit_def SIZE_MAX_def split: option.splits)
      then have "push_pnt_stack a s x = Some (- 1, s)"
        using False by (auto simp: push_pnt_stack_def realloc_stack_def Let_def)
      then show ?thesis using limit ok by simp
    next
      case room: True
      have "4096 \<le> stack_size s" using inv by (auto simp: stack_inv_def)
      then obtain junk where a: "a = Some junk" using room full by (auto simp: stack_limit_def split: option.splits)
      let ?n = "stack_size s * 2"
      have grow: "stack_size s \<le> SIZE_MAX div 2" "\<exists>k \<le> 51. ?n = 4096 * 2 ^ k \<and> stack_size s = 2048 * 2 ^ k"
        using stack_size_cases [OF inv] room full a by (auto simp: stack_limit_def)
      have n: "?n mod 2 ^ 64 = ?n" using grow(1) by (auto simp: SIZE_MAX_def)
      have top: "?n \<le> stack_limit a"
      proof -
        obtain k where "k \<le> 51" "?n = 4096 * 2 ^ k" using grow(2) by blast
        moreover from this(1) have "(2::nat) ^ k \<le> 2 ^ 51" by (intro power_increasing) auto
        ultimately show ?thesis by (simp add: stack_limit_def a)
      qed
      define s0 where "s0 = s\<lparr>low_depth := stack_size s, stack_size := ?n,
          low_depth_unreached_count := 0,
          stack := take ?n (stack s) @ replicate (?n - length (stack s)) junk\<rparr>"
      have pos: "0 < stack_size s" using inv by (auto simp: stack_inv_def)
      have inv0: "stack_inv s0" using inv grow(2) by (auto simp: stack_inv_def s0_def)
      have el: "elements s0 = elements s"
        using inv by (intro elements_cong) (auto simp: s0_def stack_inv_def)
      have "depth s0 < stack_size s0" using pos full by (simp add: s0_def)
      then have fits: "depth s0 + element_size s0 \<le> stack_size s0"
        by (rule stack_inv_fits [OF inv0])
      have "length x = element_size s0" using len by (simp add: s0_def)
      from stack_inv_put [OF inv0 fits this] obtain s1 where
        s1: "put_element s0 x = Some s1" "stack_inv s1" "elements s1 = elements s @ [x]"
          "element_size s1 = element_size s" "stack_size s1 = ?n"
        using el by (auto simp: s0_def)
      have "push_pnt_stack a s x = Some (0, s1)"
        using False grow(1) s1(1) n pos by (simp add: push_pnt_stack_def a realloc_stack_def s0_def)
      then show ?thesis using s1 top room by (simp add: stack_ok_def)
    qed
  qed
qed

lemma pop_pnt_stack_empty: "elements s = [] \<Longrightarrow> stack_inv s \<Longrightarrow> pop_pnt_stack s = Some (None, s)"
  by (auto simp: elements_def stack_inv_def pop_pnt_stack_def dvd_div_eq_0_iff)

lemma pop_pnt_stack_snoc:
  assumes inv: "stack_inv s" and el: "elements s = xs @ [x]"
  shows "\<exists>s'. pop_pnt_stack s = Some (Some x, s') \<and> stack_inv s' \<and> elements s' = xs \<and>
              element_size s' = element_size s"
proof -
  let ?e = "element_size s" and ?n = "depth s div element_size s"
  have n: "?n * ?e = depth s" "0 < ?e" using inv by (auto simp: stack_inv_def)
  have len: "?n = length xs + 1"
    using arg_cong [OF el, of length] by (simp add: elements_def)
  define s' where "s' = s\<lparr>depth := depth s - ?e\<rparr>"
  have d: "depth s - ?e = length xs * ?e" "?e \<le> depth s" "0 < depth s"
    using n len by (metis add_diff_cancel_right' add_mult_distrib mult_1 diff_is_0_eq
        mult_eq_0_iff le_add2, metis len le_add2 mult_le_mono1 mult_1, metis len n add_gr_0
        nat_0_less_mult_iff zero_less_one)
  have els: "elements s = map (element_at s) [0..<length xs] @ [element_at s (length xs)]"
    using len by (simp add: elements_def)
  have "elements s' = map (element_at s) [0..<length xs]"
    using d n by (simp add: elements_def s'_def element_at_def)
  then have "elements s' = xs" using els el by simp
  moreover have "pop_pnt_stack s = Some (Some x, s')"
    using d els el by (simp add: pop_pnt_stack_def s'_def element_at_def Let_def)
  moreover have "stack_inv s'"
    using inv d(2) by (auto simp: stack_inv_def s'_def)
  ultimately show ?thesis by (simp add: s'_def)
qed

section \<open>The interface: a bounded last-in first-out stack\<close>

locale bounded_lifo =
  fixes push :: "'s \<Rightarrow> 'a \<Rightarrow> (int \<times> 's) option"
    and pop :: "'s \<Rightarrow> ('a option \<times> 's) option"
    and contents :: "'s \<Rightarrow> 'a list"
    and inv :: "'s \<Rightarrow> bool"
    and valid :: "'s \<Rightarrow> 'a \<Rightarrow> bool"
    and capacity :: "'s \<Rightarrow> nat"
  assumes push_room: "inv s \<Longrightarrow> valid s x \<Longrightarrow> length (contents s) < capacity s \<Longrightarrow>
      \<exists>s'. push s x = Some (0, s') \<and> inv s' \<and> valid s' = valid s \<and> capacity s' = capacity s \<and> contents s' = contents s @ [x]"
    and push_full: "inv s \<Longrightarrow> valid s x \<Longrightarrow> \<not> length (contents s) < capacity s \<Longrightarrow> push s x = Some (- 1, s)"
    and pop_empty: "inv s \<Longrightarrow> contents s = [] \<Longrightarrow> pop s = Some (None, s)"
    and pop_snoc: "inv s \<Longrightarrow> contents s = xs @ [x] \<Longrightarrow>
      \<exists>s'. pop s = Some (Some x, s') \<and> inv s' \<and> valid s' = valid s \<and> capacity s' = capacity s \<and> contents s' = xs"

datatype 'a stack_cmd = PushS 'a | PopS

text \<open>A run records the return code of every push and the result of every pop.\<close>

fun lifo_run ::
  "('s \<Rightarrow> 'a \<Rightarrow> (int \<times> 's) option) \<Rightarrow> ('s \<Rightarrow> ('a option \<times> 's) option) \<Rightarrow>
   's \<Rightarrow> 'a stack_cmd list \<Rightarrow> (int list \<times> 'a option list \<times> 's) option" where
  "lifo_run push pop s [] = Some ([], [], s)"
| "lifo_run push pop s (PushS x # cs) =
     do {
       (r, s') \<leftarrow> push s x;
       (rs, ys, s'') \<leftarrow> lifo_run push pop s' cs;
       Some (r # rs, ys, s'')
     }"
| "lifo_run push pop s (PopS # cs) =
     do {
       (y, s') \<leftarrow> pop s;
       (rs, ys, s'') \<leftarrow> lifo_run push pop s' cs;
       Some (rs, y # ys, s'')
     }"

text \<open>The same commands on a list of at most n elements whose last element is the top.\<close>

fun list_lifo :: "nat \<Rightarrow> 'a list \<Rightarrow> 'a stack_cmd list \<Rightarrow> int list \<times> 'a option list \<times> 'a list" where
  "list_lifo n l [] = ([], [], l)"
| "list_lifo n l (PushS x # cs) =
     (if length l < n then apfst (Cons 0) (list_lifo n (l @ [x]) cs)
      else apfst (Cons (- 1)) (list_lifo n l cs))"
| "list_lifo n l (PopS # cs) =
     (if l = [] then apsnd (apfst (Cons None)) (list_lifo n [] cs)
      else apsnd (apfst (Cons (Some (last l)))) (list_lifo n (butlast l) cs))"

context bounded_lifo
begin

lemma run_is_list_run:
  "inv s \<Longrightarrow> \<forall>x. PushS x \<in> set cs \<longrightarrow> valid s x \<Longrightarrow>
   \<exists>rs ys s'. lifo_run push pop s cs = Some (rs, ys, s') \<and> inv s' \<and>
     list_lifo (capacity s) (contents s) cs = (rs, ys, contents s')"
proof (induction cs arbitrary: s)
  case Nil
  then show ?case by simp
next
  case (Cons c cs)
  show ?case
  proof (cases c)
    case (PushS x)
    with Cons.prems have v: "valid s x" by simp
    show ?thesis
    proof (cases "length (contents s) < capacity s")
      case True
      from push_room [OF Cons.prems(1) v True] obtain s' where
        p: "push s x = Some (0, s')" "inv s'" "valid s' = valid s" "capacity s' = capacity s" "contents s' = contents s @ [x]" by blast
      from Cons.IH [OF p(2)] Cons.prems(2) p(3) obtain rs ys s'' where
        "lifo_run push pop s' cs = Some (rs, ys, s'')" "inv s''"
        "list_lifo (capacity s) (contents s @ [x]) cs = (rs, ys, contents s'')"
        using p(4,5) by auto
      with p(1) True PushS show ?thesis by simp
    next
      case False
      from Cons.IH [OF Cons.prems(1)] Cons.prems(2) obtain rs ys s'' where
        "lifo_run push pop s cs = Some (rs, ys, s'')" "inv s''" "list_lifo (capacity s) (contents s) cs = (rs, ys, contents s'')"
        by auto
      with push_full [OF Cons.prems(1) v False] False PushS show ?thesis by simp
    qed
  next
    case PopS
    show ?thesis
    proof (cases "contents s = []")
      case True
      with pop_empty [OF Cons.prems(1)] Cons.IH [of s] Cons.prems PopS show ?thesis by auto
    next
      case False
      then have "contents s = butlast (contents s) @ [last (contents s)]" by simp
      from pop_snoc [OF Cons.prems(1) this] obtain s' where
        p: "pop s = Some (Some (last (contents s)), s')" "inv s'" "valid s' = valid s" "capacity s' = capacity s"
          "contents s' = butlast (contents s)" by blast
      from Cons.IH [OF p(2)] Cons.prems p(3) obtain rs ys s'' where
        "lifo_run push pop s' cs = Some (rs, ys, s'')" "inv s''"
        "list_lifo (capacity s) (butlast (contents s)) cs = (rs, ys, contents s'')"
        using p(4,5) by auto
      with p False PopS show ?thesis by auto
    qed
  qed
qed

end

lemma below_limit:
  assumes "stack_inv s"
  shows "length (elements s) < stack_limit a div element_size s \<longleftrightarrow> depth s < stack_limit a"
proof -
  let ?e = "element_size s" and ?n = "depth s div element_size s"
  have e: "0 < ?e" "?e dvd 4096" "?n * ?e = depth s" using assms by (auto simp: stack_inv_def STACK_CHUNK_SIZE_def)
  have "4096 dvd stack_limit a" by (simp add: stack_limit_def split: option.split)
  then obtain m where "stack_limit a = m * ?e" using e(2) by (metis dvd_def dvd_trans mult.commute)
  moreover have "?n < m \<longleftrightarrow> ?n * ?e < m * ?e" using e(1) by simp
  ultimately show ?thesis using e(1,3) by (simp add: elements_def)
qed

interpretation st: bounded_lifo "push_pnt_stack a" pop_pnt_stack elements "stack_ok a"
  "\<lambda>s x. length x = element_size s" "\<lambda>s. stack_limit a div element_size s"
proof (unfold_locales, goal_cases)
  case (1 s x)
  then have "depth s < stack_limit a" using below_limit by (simp add: stack_ok_def)
  then show ?case using push_pnt_stack_cases [OF 1(1,2)] by fastforce
next
  case (2 s x)
  then have "\<not> depth s < stack_limit a" using below_limit by (simp add: stack_ok_def)
  then show ?case using push_pnt_stack_cases [OF 2(1,2)] by auto
next
  case (3 s)
  then show ?case by (simp add: pop_pnt_stack_empty stack_ok_def)
next
  case (4 s xs x)
  have "stack_size s' = stack_size s" if "pop_pnt_stack s = Some (y, s')" for y s'
    using that by (auto simp: pop_pnt_stack_def bind_eq_Some_conv Let_def split: if_splits)
  then show ?case using pop_pnt_stack_snoc [of s xs x] 4 by (fastforce simp: stack_ok_def)
qed

lemma new_pnt_stack_chunk:
  assumes "new_pnt_stack a n es = Some s" "0 < n" "n * es \<le> 4096"
  shows "0 < es \<and> element_size s = es \<and> depth s = 0 \<and> stack_size s = 4096 \<and>
    low_depth s = 2048 \<and> length (stack s) = 4096"
proof -
  have e: "0 < es" using assms(1) by (auto simp: new_pnt_stack_def split: if_splits)
  with assms have i: "init_pnt_stack a n es = Some s" by (simp add: new_pnt_stack_def)
  have "0 < n * es" using e assms(2) by simp
  then have "(n * es + 4095) div 4096 = 1" using assms(3) by linarith
  then have "round_to_chunk (n * es) = 4096"
    using assms(3) by (simp add: round_to_chunk_def STACK_CHUNK_SIZE_def)
  with i e show ?thesis
    by (auto simp: init_pnt_stack_def Let_def split: if_splits option.splits)
qed

lemma new_pnt_stack_ok:
  assumes "new_pnt_stack j n es = Some s" "0 < n" "n * es \<le> 4096" "es dvd 4096"
  shows "stack_ok a s" "elements s = []" "element_size s = es"
  using new_pnt_stack_chunk [OF assms(1-3)] assms(4)
  by (auto simp: stack_ok_def stack_inv_def stack_limit_def elements_def STACK_CHUNK_SIZE_def intro: exI [of _ 0] split: option.split)

section \<open>Properties\<close>

text \<open>
  C30: a stack is a bounded last-in first-out list. For an element size that divides 4096 and a start with at most one chunk (as in
  free_pan_db and the traversal of links), and for every sequence of pushes and pops, through every growth and
  every shrink, no write leaves the buffer, and every return code of a push, every result of a pop and the final
  contents are those of a list: a push is accepted exactly while fewer than 2^63 bytes are stacked, or fewer than the first chunk of
  4096 when the allocator refuses to grow the buffer, and otherwise returns -1 and changes nothing; a pop takes the last element, and
  gives NULL exactly when the stack is empty.
\<close>

theorem stack_lifo:
  assumes "new_pnt_stack (Some j) n es = Some s" and "0 < n" and "n * es \<le> 4096"
    and "es dvd 4096" and "\<forall>x. PushS x \<in> set cs \<longrightarrow> length x = es"
  shows "\<exists>rs ys s'. lifo_run (push_pnt_stack a) pop_pnt_stack s cs = Some (rs, ys, s') \<and>
           list_lifo ((case a of None \<Rightarrow> 4096 | Some _ \<Rightarrow> 2 ^ 63) div es) [] cs = (rs, ys, elements s')"
proof -
  note ok = new_pnt_stack_ok(1) [OF assms(1-4), of a] and new = new_pnt_stack_ok(2,3) [OF assms(1-4)]
  have "\<forall>x. PushS x \<in> set cs \<longrightarrow> length x = element_size s" using assms(5) new(2) by simp
  from st.run_is_list_run [OF ok this] new show ?thesis by (auto simp: stack_limit_def)
qed

theorem stack_lifo_witness:
  "\<exists>s. new_pnt_stack (Some 0) 1 2048 = Some s \<and>
     (\<exists>s'. lifo_run (push_pnt_stack None) pop_pnt_stack s
          [PushS (replicate 2048 1), PushS (replicate 2048 2), PushS (replicate 2048 3), PopS, PopS, PopS] =
        Some ([0, 0, - 1], [Some (replicate 2048 2), Some (replicate 2048 1), None], s') \<and> elements s' = [])"
proof -
  have "\<exists>s. new_pnt_stack (Some 0) 1 2048 = Some s"
    by (simp add: new_pnt_stack_def init_pnt_stack_def SIZE_MAX_def Let_def)
  then obtain s where s: "new_pnt_stack (Some 0) 1 2048 = Some s" ..
  let ?cs = "[PushS (replicate 2048 1), PushS (replicate 2048 2), PushS (replicate 2048 3), PopS, PopS, PopS] :: bytes stack_cmd list"
  have "list_lifo 2 [] ?cs = ([0, 0, - 1], [Some (replicate 2048 2), Some (replicate 2048 1), None], [])"
    by (simp del: replicate_numeral)
  moreover have "\<exists>rs ys s'. lifo_run (push_pnt_stack (None :: alloc)) pop_pnt_stack s ?cs = Some (rs, ys, s') \<and>
      list_lifo ((case (None :: alloc) of None \<Rightarrow> 4096 | Some _ \<Rightarrow> 2 ^ 63) div 2048) [] ?cs = (rs, ys, elements s')"
    by (rule stack_lifo [OF s]) (auto simp del: replicate_numeral)
  ultimately show ?thesis using s by auto
qed

text \<open>Pushing a list of elements one after the other, whatever the return codes.\<close>

fun push_all :: "alloc \<Rightarrow> pnt_stack \<Rightarrow> bytes list \<Rightarrow> pnt_stack option" where
  "push_all a s [] = Some s"
| "push_all a s (x # xs) =
     do {
       (r, s') \<leftarrow> push_pnt_stack a s x;
       push_all a s' xs
     }"

lemma push_in_first_chunk:
  assumes "stack_size s = 4096" "length (stack s) = 4096" "depth s + element_size s \<le> 4096"
    "0 < element_size s" "length x = element_size s" "element_size s dvd depth s"
  shows "\<exists>s'. push_pnt_stack a s x = Some (0, s') \<and> stack_size s' = 4096 \<and>
    length (stack s') = 4096 \<and> depth s' = depth s + element_size s \<and>
    element_size s' = element_size s \<and> elements s' = elements s @ [x]"
proof -
  let ?s' = "s\<lparr>stack := write_at (stack s) (depth s) x, depth := depth s + element_size s\<rparr>"
  have p: "put_element s x = Some ?s'" using assms by (simp add: put_element_def)
  have "length (write_at (stack s) (depth s) x) = 4096"
    using assms by (simp add: write_at_length)
  then show ?thesis
    using assms p elements_put [OF p] by (simp add: push_pnt_stack_def shrink_after_push_def STACK_CHUNK_SIZE_def)
qed

lemma push_all_in_first_chunk:
  assumes "stack_size s = 4096" "length (stack s) = 4096"
    "depth s + length xs * element_size s \<le> 4096" "0 < element_size s"
    "\<forall>x \<in> set xs. length x = element_size s" "element_size s dvd depth s"
  shows "\<exists>s'. push_all a s xs = Some s' \<and> stack_size s' = 4096 \<and> length (stack s') = 4096 \<and>
    depth s' = depth s + length xs * element_size s \<and>
    element_size s' = element_size s \<and> elements s' = elements s @ xs"
  using assms
proof (induction xs arbitrary: s)
  case Nil
  then show ?case by simp
next
  case (Cons x xs)
  from push_in_first_chunk [of s x a] Cons.prems obtain s' where
    s': "push_pnt_stack a s x = Some (0, s')" "stack_size s' = 4096" "length (stack s') = 4096"
      "depth s' = depth s + element_size s" "element_size s' = element_size s"
      "elements s' = elements s @ [x]" by auto
  with Cons.IH [of s'] Cons.prems show ?case by (auto simp: algebra_simps)
qed

text \<open>
  When the element size does not divide 4096 (the 24-byte QuadNodeWithBounds elements
  of the tree searches), the pushes that fill the first chunk are accepted, and the next
  one writes past the end of the buffer: the guard of push compares depth with stack_size
  and not the room that is left with the element size.
\<close>

theorem stack_odd_element_size_overflows:
  assumes "new_pnt_stack (Some j) n es = Some s" and "0 < n" and "n * es \<le> 4096"
    and "\<not> es dvd 4096" and "\<forall>x \<in> set xs. length x = es" and "length xs = 4096 div es"
  shows "\<exists>s'. push_all a s xs = Some s' \<and> elements s' = xs \<and>
           (\<forall>y. push_pnt_stack a s' y = None)"
proof -
  note s = new_pnt_stack_chunk [OF assms(1-3)]
  have le: "length xs * es \<le> 4096" using assms(6) by simp
  have "length xs * es \<noteq> 4096" using assms(4) by (metis dvd_triv_right)
  with le have lt: "length xs * es < 4096" by simp
  have "4096 < length xs * es + es"
    using assms(6) s by (metis div_mult_mod_eq mod_less_divisor nat_add_left_cancel_less)
  moreover obtain s' where s': "push_all a s xs = Some s'" "stack_size s' = 4096"
      "length (stack s') = 4096" "depth s' = length xs * es" "element_size s' = es"
      "elements s' = xs"
    using push_all_in_first_chunk [of s xs a] s le assms(5) by (auto simp: elements_def)
  ultimately have "push_pnt_stack a s' y = None" for y
    using lt by (simp add: push_pnt_stack_def put_element_def)
  with s' show ?thesis by blast
qed

theorem stack_odd_element_size_overflows_witness:
  "\<exists>s. new_pnt_stack (Some 0) 8 24 = Some s \<and>
     (\<exists>s'. push_all (Some 0) s (replicate 170 (replicate 24 1)) = Some s' \<and>
        elements s' = replicate 170 (replicate 24 1) \<and>
        (\<forall>y. push_pnt_stack (Some 0) s' y = None))"
proof -
  have "\<exists>s. new_pnt_stack (Some 0) 8 24 = Some s"
    by (simp add: new_pnt_stack_def init_pnt_stack_def SIZE_MAX_def Let_def)
  then obtain s where s: "new_pnt_stack (Some 0) 8 24 = Some s" ..
  show ?thesis
    using s stack_odd_element_size_overflows [OF s, of "replicate 170 (replicate 24 1)" "Some 0"]
    by simp
qed

end
