(* ===== verification/Slip_Map.thy ===== *)
theory Slip_Map
  imports Pincaster_Prelude
begin

text \<open>
  The packed property map of a record (src/slipmap.c, src/slipmap.h): one buffer of
  sizeof_map bytes holding slots, each a header of three big-endian 16-bit numbers (free
  bytes after the slot, key length, value length), the key, the value and the free bytes.
  The model is the byte buffer itself, every read and write is checked against its end, and
  the assertions (which configure.ac keeps in every build) are checks whose failure is a
  fault. The theory holds the operations on bytes, the view of a well-formed buffer as a
  list of slots, what each operation does to that list, and the map that it represents.
\<close>

section \<open>The operations on bytes\<close>

type_synonym slip_map = bytes

text \<open>A 16-bit number, high byte first, as the code writes it and as it reads it.\<close>

definition h16 :: "nat \<Rightarrow> bytes" where
  "h16 n = [word_of_nat (n div 256), word_of_nat (n mod 256)]"

definition rd16 :: "bytes \<Rightarrow> nat \<Rightarrow> nat option" where
  "rd16 m p = (if p + 1 < length m then Some (unat (m ! p) * 256 + unat (m ! (p + 1))) else None)"

definition read_header :: "bytes \<Rightarrow> nat \<Rightarrow> (nat \<times> nat \<times> nat) option" where
  "read_header m p =
     do {
       slot_free \<leftarrow> rd16 m p;
       key_len \<leftarrow> rd16 m (p + 2);
       value_len \<leftarrow> rd16 m (p + 4);
       Some (slot_free, key_len, value_len)
     }"

text \<open>memcpy and memmove into the map; outside the map they fault.\<close>

definition store :: "bytes \<Rightarrow> nat \<Rightarrow> bytes \<Rightarrow> bytes option" where
  "store m p xs = (if p + length xs \<le> length m then Some (write_at m p xs) else None)"

text \<open>memcmp of the bytes at an offset with a key; outside the map it faults.\<close>

definition bytes_equal_at :: "bytes \<Rightarrow> nat \<Rightarrow> bytes \<Rightarrow> bool option" where
  "bytes_equal_at m p k =
     (if p + length k \<le> length m then Some (take (length k) (drop p m) = k) else None)"

definition init_slip_map :: "slip_map \<Rightarrow> slip_map option" where
  "init_slip_map m =
     do {
       c_assert (6 \<le> length m);
       store m 0 (h16 (length m - 6) @ [0, 0, 0, 0])
     }"

text \<open>The size of the SlipMap header: one size_t.\<close>

definition sizeof_slip_map :: nat where
  "sizeof_slip_map = 8"

text \<open>The outer \<open>None\<close> is a fault, the inner one the NULL pointer.\<close>

definition new_slip_map :: "alloc \<Rightarrow> nat \<Rightarrow> slip_map option option" where
  "new_slip_map a buffer_size =
     (let bs = (if buffer_size < sizeof_slip_map + 6 then sizeof_slip_map + 6 else buffer_size);
          sizeof_map = bs - sizeof_slip_map
      in if sizeof_map > 65535 + 6 then Some None
         else case a of
                None \<Rightarrow> Some None
              | Some junk \<Rightarrow>
                  do {
                    m \<leftarrow> init_slip_map (replicate sizeof_map junk);
                    Some (Some m)
                  })"

definition update_map_slot :: "slip_map \<Rightarrow> nat \<Rightarrow> nat \<Rightarrow> bytes \<Rightarrow> bytes \<Rightarrow> slip_map option" where
  "update_map_slot m p new_slot_free key val =
     store m p (h16 new_slot_free @ h16 (length key) @ h16 (length val) @ key @ val)"

text \<open>
  The scan of add_entry_to_slip_map, one round per slot, together with the growth step and
  the jump back to the scan. \<open>sfp\<close> is slot_free_pnt, \<open>fr\<close> and \<open>kl\<close> are slot_free
  and scanned_key_len as the previous round left them.
\<close>

partial_function (option) add_scan ::
  "alloc \<Rightarrow> bytes \<Rightarrow> bytes \<Rightarrow> slip_map \<Rightarrow> nat \<Rightarrow> nat \<Rightarrow> nat option \<Rightarrow> nat \<Rightarrow> nat \<Rightarrow>
   (int \<times> slip_map) option" where
  "add_scan a key val m pnt required_space sfp fr kl =
     (if pnt < length m then
        do {
          (slot_free, key_len, value_len) \<leftarrow> read_header m pnt;
          c_assert (key_len = 0 \<longrightarrow> required_space \<ge> 6 \<and> value_len = 0);
          (let req = (if key_len = 0 then required_space - 6 else required_space)
           in if key_len = 0 \<and> slot_free \<ge> req then
                do {
                  c_assert (slot_free \<ge> length key + length val);
                  m' \<leftarrow> update_map_slot m pnt (slot_free - length key - length val) key val;
                  Some (0, m')
                }
              else
                (let pnt' = pnt + 6 + key_len + value_len
                 in if slot_free \<ge> req then
                      do {
                        m1 \<leftarrow> store m pnt [0, 0];
                        m2 \<leftarrow> update_map_slot m1 pnt' (slot_free - req) key val;
                        Some (0, m2)
                      }
                    else add_scan a key val m (pnt' + slot_free) req (Some pnt) slot_free key_len))
        }
      else
        (let req = (if kl = 0 then required_space + 6 else required_space)
         in do {
              c_assert (sfp \<noteq> None);
              c_assert (fr < req);
              (let sizeof_new_map = length m + req - fr
               in if sizeof_new_map > 65535 then Some (- 1, m)
                  else case a of
                         None \<Rightarrow> Some (- 1, m)
                       | Some junk \<Rightarrow>
                           (let new_map = m @ replicate (sizeof_new_map - length m) junk;
                                p = (if kl = 0 then 0 else the sfp)
                            in do {
                                 m1 \<leftarrow> store new_map p (h16 req);
                                 c_assert (p < length m1);
                                 add_scan a key val m1 p req None fr kl
                               }))
            }))"

definition add_entry_to_slip_map ::
  "alloc \<Rightarrow> slip_map \<Rightarrow> bytes \<Rightarrow> bytes \<Rightarrow> (int \<times> slip_map) option" where
  "add_entry_to_slip_map a m key val =
     do {
       c_assert (length key > 0);
       c_assert (length key \<le> 65535);
       c_assert (length val \<le> 65535);
       add_scan a key val m 0 (6 + length key + length val) None 0 0
     }"

text \<open>
  remove_entry_from_slip_map: \<open>prev\<close> is previous_slot. Shrinking the buffer with realloc
  may fail, which changes neither sizeof_map nor its bytes.
\<close>

partial_function (option) remove_scan ::
  "bytes \<Rightarrow> slip_map \<Rightarrow> nat \<Rightarrow> nat option \<Rightarrow> (int \<times> slip_map) option" where
  "remove_scan key m pnt prev =
     (if pnt < length m then
        do {
          (slot_free, key_len, value_len) \<leftarrow> read_header m pnt;
          c_assert (key_len = 0 \<longrightarrow> value_len = 0);
          eq \<leftarrow> (if key_len = length key then bytes_equal_at m (pnt + 6) key else Some False);
          (let next_pnt = pnt + 6 + key_len + value_len + slot_free
           in if eq then
                (case prev of
                   None \<Rightarrow>
                     (if next_pnt = length m then
                        do {
                          m' \<leftarrow> init_slip_map m;
                          Some (1, m')
                        }
                      else
                        do {
                          c_assert (next_pnt \<le> length m);
                          Some (1, drop next_pnt m)
                        })
                 | Some p \<Rightarrow>
                     do {
                       previous_slot_free \<leftarrow> rd16 m p;
                       m1 \<leftarrow> store m p
                         (h16 (previous_slot_free + 6 + key_len + value_len + slot_free));
                       m2 \<leftarrow> store m1 pnt [0, 0, 0, 0, 0, 0];
                       Some (1, m2)
                     })
              else remove_scan key m next_pnt (Some pnt))
        }
      else Some (0, m))"

definition remove_entry_from_slip_map :: "slip_map \<Rightarrow> bytes \<Rightarrow> (int \<times> slip_map) option" where
  "remove_entry_from_slip_map m key =
     do {
       c_assert (length key > 0);
       c_assert (length key \<le> 65535);
       remove_scan key m 0 None
     }"

text \<open>replace_entry_in_slip_map: in place when the slot has room, else remove and add.\<close>

partial_function (option) replace_scan ::
  "alloc \<Rightarrow> bytes \<Rightarrow> bytes \<Rightarrow> slip_map \<Rightarrow> nat \<Rightarrow> (int \<times> slip_map) option" where
  "replace_scan a key val m pnt =
     (if pnt < length m then
        do {
          (slot_free, key_len, value_len) \<leftarrow> read_header m pnt;
          c_assert (key_len = 0 \<longrightarrow> value_len = 0);
          eq \<leftarrow> (if key_len = length key then bytes_equal_at m (pnt + 6) key else Some False);
          (if eq then
             (let required_space = 6 + length key + length val
              in if required_space > 6 + key_len + value_len + slot_free then
                   do {
                     (r, m1) \<leftarrow> remove_entry_from_slip_map m key;
                     (if r < 0 then Some (- 1, m1) else add_entry_to_slip_map a m1 key val)
                   }
                 else
                   do {
                     m1 \<leftarrow> store m (pnt + 6 + key_len) val;
                     m2 \<leftarrow> store m1 pnt
                       (h16 (6 + key_len + value_len + slot_free - required_space));
                     m3 \<leftarrow> store m2 (pnt + 4) (h16 (length val));
                     Some (0, m3)
                   })
           else replace_scan a key val m (pnt + 6 + key_len + value_len + slot_free))
        }
      else add_entry_to_slip_map a m key val)"

definition replace_entry_in_slip_map ::
  "alloc \<Rightarrow> slip_map \<Rightarrow> bytes \<Rightarrow> bytes \<Rightarrow> (int \<times> slip_map) option" where
  "replace_entry_in_slip_map a m key val =
     do {
       c_assert (length key > 0);
       c_assert (length key \<le> 65535);
       c_assert (length val \<le> 65535);
       replace_scan a key val m 0
     }"

text \<open>
  slip_map_foreach: the callback gets its context, the key and the value, and a non-zero
  result stops the loop. The callback itself may fault.
\<close>

partial_function (option) foreach_scan ::
  "('c \<Rightarrow> bytes \<Rightarrow> bytes \<Rightarrow> (int \<times> 'c) option) \<Rightarrow> slip_map \<Rightarrow> nat \<Rightarrow> 'c \<Rightarrow> 'c option" where
  "foreach_scan cb m pnt c =
     (if pnt < length m then
        do {
          (slot_free, key_len, value_len) \<leftarrow> read_header m pnt;
          c_assert (key_len = 0 \<longrightarrow> value_len = 0);
          (let next_pnt = pnt + 6 + key_len + value_len + slot_free
           in if key_len = 0 then foreach_scan cb m next_pnt c
              else
                do {
                  c_assert (pnt + 6 + key_len + value_len \<le> length m);
                  (r, c') \<leftarrow> cb c (take key_len (drop (pnt + 6) m))
                                (take value_len (drop (pnt + 6 + key_len) m));
                  (if r \<noteq> 0 then Some c' else foreach_scan cb m next_pnt c')
                })
        }
      else Some c)"

definition slip_map_foreach ::
  "('c \<Rightarrow> bytes \<Rightarrow> bytes \<Rightarrow> (int \<times> 'c) option) \<Rightarrow> slip_map option \<Rightarrow> 'c \<Rightarrow> 'c option" where
  "slip_map_foreach cb mo c = (case mo of None \<Rightarrow> Some c | Some m \<Rightarrow> foreach_scan cb m 0 c)"

definition find_in_slip_map_cb ::
  "bytes \<Rightarrow> bytes option \<Rightarrow> bytes \<Rightarrow> bytes \<Rightarrow> (int \<times> bytes option) option" where
  "find_in_slip_map_cb key found k v =
     (if length k = length key \<and> k = key then Some (1, Some v) else Some (0, found))"

definition find_in_slip_map :: "slip_map option \<Rightarrow> bytes \<Rightarrow> bytes option option" where
  "find_in_slip_map mo key = slip_map_foreach (find_in_slip_map_cb key) mo None"

section \<open>The view of a buffer as a list of slots\<close>

text \<open>A slot: its key, its value and the free bytes that follow.\<close>

type_synonym slot = "bytes \<times> bytes \<times> bytes"

fun enc_slot :: "slot \<Rightarrow> bytes" where
  "enc_slot (k, v, g) = h16 (length g) @ h16 (length k) @ h16 (length v) @ k @ v @ g"

definition render :: "slot list \<Rightarrow> bytes" where
  "render ss = concat (map enc_slot ss)"

fun small_slot :: "slot \<Rightarrow> bool" where
  "small_slot (k, v, g) \<longleftrightarrow> length k < 65536 \<and> length v < 65536 \<and> length g < 65536"

fun key_of :: "slot \<Rightarrow> bytes" where
  "key_of (k, v, g) = k"

fun entry_of :: "slot \<Rightarrow> bytes \<times> bytes" where
  "entry_of (k, v, g) = (k, v)"

text \<open>
  A buffer is well formed when it is the rendering of one empty slot, or of one or more
  slots with distinct non-empty keys, and it is small enough for its numbers.
\<close>

definition wf_slots :: "slot list \<Rightarrow> bool" where
  "wf_slots ss \<longleftrightarrow>
     (\<forall>s \<in> set ss. small_slot s) \<and> length (render ss) \<le> 65541 \<and>
     ((\<exists>g. ss = [([], [], g)]) \<or>
      ss \<noteq> [] \<and> (\<forall>s \<in> set ss. key_of s \<noteq> []) \<and> distinct (map key_of ss))"

definition slip_map_inv :: "slip_map \<Rightarrow> bool" where
  "slip_map_inv m \<longleftrightarrow> (\<exists>ss. wf_slots ss \<and> m = render ss)"

definition entries_of :: "slot list \<Rightarrow> (bytes \<times> bytes) list" where
  "entries_of ss = filter (\<lambda>(k, v). k \<noteq> []) (map entry_of ss)"

lemma h16_length [simp]: "length (h16 n) = 2"
  by (simp add: h16_def)

lemma rd16_h16:
  assumes "n < 65536" "p = length pre"
  shows "rd16 (pre @ h16 n @ post) p = Some n"
proof -
  have "unat (word_of_nat (n div 256) :: byte) = n div 256"
    using assms by (simp add: unat_of_nat div_less_iff_less_mult)
  moreover have "unat (word_of_nat (n mod 256) :: byte) = n mod 256"
    by (simp add: unat_of_nat)
  ultimately show ?thesis using assms by (simp add: rd16_def h16_def nth_append)
qed

lemma rd16_byte: "p + 1 < length m \<Longrightarrow> rd16 m p = Some (unat (m ! p) * 256 + unat (m ! (p + 1)))"
  by (simp add: rd16_def)

lemma store_mid:
  "length ys = length xs \<Longrightarrow> p = length pre \<Longrightarrow> store (pre @ ys @ post) p xs = Some (pre @ xs @ post)"
  by (simp add: store_def)

lemma render_simps [simp]:
  "render [] = []"
  "render (s # ss) = enc_slot s @ render ss"
  "render (ss @ ts) = render ss @ render ts"
  by (simp_all add: render_def)

lemma enc_slot_length [simp]:
  "length (enc_slot (k, v, g)) = 6 + length k + length v + length g"
  by simp

lemma enc_slot_nonempty [simp]: "enc_slot s \<noteq> []"
  by (cases s) (simp add: h16_def)

declare enc_slot.simps [simp del]

lemma read_header_slot:
  assumes "small_slot (k, v, g)" "p = length pre"
  shows "read_header (pre @ enc_slot (k, v, g) @ post) p = Some (length g, length k, length v)"
proof -
  let ?m = "pre @ enc_slot (k, v, g) @ post"
  note enc_slot.simps [simp]
  have "rd16 ?m p = Some (length g)"
    using rd16_h16 [of "length g" p pre "h16 (length k) @ h16 (length v) @ k @ v @ g @ post"] assms
    by simp
  moreover have "rd16 ?m (p + 2) = Some (length k)"
    using rd16_h16 [of "length k" "p + 2" "pre @ h16 (length g)" "h16 (length v) @ k @ v @ g @ post"]
      assms by simp
  moreover have "rd16 ?m (p + 4) = Some (length v)"
    using rd16_h16 [of "length v" "p + 4" "pre @ h16 (length g) @ h16 (length k)" "k @ v @ g @ post"]
      assms by simp
  ultimately show ?thesis by (simp add: read_header_def)
qed

lemma slot_pos_less [simp]: "length pre < length (pre @ enc_slot s @ post)"
  by (cases s) simp

section \<open>Adding an entry\<close>

lemma update_map_slot_mid:
  assumes "length ys = 6 + length k + length v" "p = length pre"
  shows "update_map_slot (pre @ ys @ post) p f k v =
    Some (pre @ (h16 f @ h16 (length k) @ h16 (length v) @ k @ v) @ post)"
  unfolding update_map_slot_def using assms by (intro store_mid) auto

lemma add_scan_slot:
  assumes k': "k' \<noteq> []" "small_slot (k', v', g)"
    and m: "m = pre @ enc_slot (k', v', g) @ post" and R: "R = 6 + length k + length v"
  shows "add_scan a k v m (length pre) R sfp fr kl =
    (if length g \<ge> R
     then Some (0, pre @ enc_slot (k', v', []) @ enc_slot (k, v, drop R g) @ post)
     else add_scan a k v m (length pre + length (enc_slot (k', v', g))) R
       (Some (length pre)) (length g) (length k'))"
proof -
  have hd: "read_header m (length pre) = Some (length g, length k', length v')"
    unfolding m by (rule read_header_slot [OF k'(2) refl])
  have lt: "length pre < length m" unfolding m by simp
  have fit: "do {
        m1 \<leftarrow> store m (length pre) [0, 0];
        m2 \<leftarrow> update_map_slot m1 (length pre + 6 + length k' + length v') (length g - R) k v;
        Some (0 :: int, m2)
      } = Some (0, pre @ enc_slot (k', v', []) @ enc_slot (k, v, drop R g) @ post)"
    if "R \<le> length g"
  proof -
    note enc_slot.simps [simp]
    let ?rest = "h16 (length k') @ h16 (length v') @ k' @ v' @ g @ post"
    have s1: "store m (length pre) [0, 0] = Some (pre @ [0, 0] @ ?rest)"
      using store_mid [of "h16 (length g)" "[0, 0]" "length pre" pre ?rest] m by simp
    have g: "g = take R g @ drop R g" by simp
    let ?pre2 = "pre @ [0, 0] @ h16 (length k') @ h16 (length v') @ k' @ v'"
    have "update_map_slot (?pre2 @ take R g @ (drop R g @ post))
        (length pre + 6 + length k' + length v') (length g - R) k v =
      Some (?pre2 @ (h16 (length g - R) @ h16 (length k) @ h16 (length v) @ k @ v) @ drop R g @ post)"
      using that R by (intro update_map_slot_mid) auto
    moreover have "pre @ [0, 0] @ ?rest = ?pre2 @ take R g @ (drop R g @ post)"
      by (simp add: append_assoc [symmetric] del: append_assoc)
    moreover have "h16 0 = [0, 0]" by (simp add: h16_def)
    ultimately show ?thesis using s1 by simp
  qed
  show ?thesis
  proof (cases "R \<le> length g")
    case True
    then show ?thesis using fit lt hd k'(1) by (subst add_scan.simps) (simp add: Let_def)
  next
    case False
    then show ?thesis
      using lt hd k'(1) by (subst add_scan.simps) (simp add: Let_def add.assoc)
  qed
qed

text \<open>Where the new entry goes when a slot has room for it, on the list of slots.\<close>

fun add_slots :: "bytes \<Rightarrow> bytes \<Rightarrow> slot list \<Rightarrow> slot list option" where
  "add_slots k v [] = None"
| "add_slots k v ((k', v', g) # ss) =
     (if length g \<ge> 6 + length k + length v
      then Some ((k', v', []) # (k, v, drop (6 + length k + length v) g) # ss)
      else map_option (Cons (k', v', g)) (add_slots k v ss))"

text \<open>Where it goes after the buffer has grown: right after the last slot.\<close>

definition grow_slots :: "bytes \<Rightarrow> bytes \<Rightarrow> slot list \<Rightarrow> slot list" where
  "grow_slots k v ss =
     (case last ss of (k', v', g) \<Rightarrow> butlast ss @ [(k', v', []), (k, v, [])])"

lemma add_scan_fits:
  assumes "add_slots k v ss = Some ss'" "\<forall>s \<in> set ss. key_of s \<noteq> [] \<and> small_slot s"
  shows "add_scan a k v (pre @ render ss) (length pre) (6 + length k + length v) sfp fr kl =
    Some (0, pre @ render ss')"
  using assms
proof (induction ss arbitrary: pre ss' sfp fr kl)
  case Nil
  then show ?case by simp
next
  case (Cons s ss)
  obtain k' v' g where s: "s = (k', v', g)" by (cases s)
  have step: "add_scan a k v (pre @ render (s # ss)) (length pre) (6 + length k + length v) sfp fr kl =
    (if length g \<ge> 6 + length k + length v
     then Some (0, pre @ enc_slot (k', v', []) @ enc_slot (k, v, drop (6 + length k + length v) g)
       @ render ss)
     else add_scan a k v (pre @ render (s # ss)) (length pre + length (enc_slot (k', v', g)))
       (6 + length k + length v) (Some (length pre)) (length g) (length k'))"
    using Cons.prems s by (intro add_scan_slot [where post = "render ss"]) auto
  show ?case
  proof (cases "length g \<ge> 6 + length k + length v")
    case True
    with step Cons.prems s show ?thesis by auto
  next
    case False
    with Cons.prems s obtain tt where tt: "add_slots k v ss = Some tt" "ss' = (k', v', g) # tt"
      by auto
    have "add_scan a k v ((pre @ enc_slot s) @ render ss) (length (pre @ enc_slot s))
        (6 + length k + length v) (Some (length pre)) (length g) (length k') =
        Some (0, (pre @ enc_slot s) @ render tt)"
      using Cons.prems by (intro Cons.IH tt) auto
    with step False s tt show ?thesis by simp
  qed
qed

lemma add_scan_no_room:
  assumes "add_slots k v ss = None" "\<forall>s \<in> set ss. key_of s \<noteq> [] \<and> small_slot s"
    and "ss = tt @ [(k', v', g)]"
  shows "add_scan a k v (pre @ render ss) (length pre) (6 + length k + length v) sfp fr kl =
    add_scan a k v (pre @ render ss) (length (pre @ render ss)) (6 + length k + length v)
      (Some (length (pre @ render tt))) (length g) (length k')"
  using assms
proof (induction ss arbitrary: pre sfp fr kl tt)
  case Nil
  then show ?case by simp
next
  case (Cons s ss)
  obtain k1 v1 g1 where s: "s = (k1, v1, g1)" by (cases s)
  have step: "add_scan a k v (pre @ render (s # ss)) (length pre) (6 + length k + length v) sfp fr kl =
    add_scan a k v (pre @ render (s # ss)) (length pre + length (enc_slot (k1, v1, g1)))
       (6 + length k + length v) (Some (length pre)) (length g1) (length k1)"
    using Cons.prems(1,2) s
    by (subst add_scan_slot [where k' = k1 and v' = v1 and g = g1 and post = "render ss"])
      (auto split: if_splits)
  show ?case
  proof (cases ss)
    case Nil
    with Cons.prems s have "tt = []" "k1 = k'" "g1 = g" by (auto simp: Cons_eq_append_conv)
    with step Nil s show ?thesis by simp
  next
    case (Cons s2 ss2)
    with Cons.prems obtain tt' where tt: "tt = s # tt'" "ss = tt' @ [(k', v', g)]"
      by (auto simp: Cons_eq_append_conv)
    have "add_scan a k v ((pre @ enc_slot s) @ render ss) (length (pre @ enc_slot s))
        (6 + length k + length v) (Some (length pre)) (length g1) (length k1) =
      add_scan a k v ((pre @ enc_slot s) @ render ss) (length ((pre @ enc_slot s) @ render ss))
        (6 + length k + length v) (Some (length ((pre @ enc_slot s) @ render tt'))) (length g) (length k')"
      using Cons.prems s tt by (intro Cons.IH) (auto split: if_splits)
    with step s tt show ?thesis by simp
  qed
qed

lemma add_slots_room:
  "add_slots k v ss = None \<Longrightarrow> s \<in> set ss \<Longrightarrow>
   length (snd (snd s)) < 6 + length k + length v"
  by (induction k v ss rule: add_slots.induct) (auto split: if_splits)

text \<open>The growth step, for a buffer whose slots all have keys.\<close>

lemma add_scan_grow:
  assumes full: "add_slots k v ss = None" and ok: "\<forall>s \<in> set ss. key_of s \<noteq> [] \<and> small_slot s"
    and ss: "ss = tt @ [(k', v', g)]"
  shows "add_scan a k v (render ss) (length (render ss)) (6 + length k + length v)
      (Some (length (render tt))) (length g) (length k') =
    (if length (render ss) + (6 + length k + length v) - length g > 65535 \<or> a = None
     then Some (- 1, render ss) else Some (0, render (grow_slots k v ss)))"
proof -
  let ?R = "6 + length k + length v" and ?m = "render ss"
  have fr: "length g < ?R" using add_slots_room [OF full, of "(k', v', g)"] ss by simp
  have k': "k' \<noteq> []" "length k' < 65536" "length v' < 65536" using ok ss by auto
  have again: "do {
      m1 \<leftarrow> store (?m @ replicate (?R - length g) junk) (length (render tt)) (h16 ?R);
      c_assert (length (render tt) < length m1);
      add_scan a k v m1 (length (render tt)) ?R None (length g) (length k')
    } = Some (0, render (grow_slots k v ss))"
    if "length ?m + ?R - length g \<le> 65535" for junk
  proof -
    let ?g' = "g @ replicate (?R - length g) junk"
    have R: "?R < 65536" "length ?g' = ?R" using that ss fr by auto
    have "store (render tt @ h16 (length g) @ (h16 (length k') @ h16 (length v') @ k' @ v' @ ?g'))
        (length (render tt)) (h16 ?R) =
      Some (render tt @ h16 ?R @ (h16 (length k') @ h16 (length v') @ k' @ v' @ ?g'))"
      by (intro store_mid) auto
    then have st: "store (?m @ replicate (?R - length g) junk) (length (render tt)) (h16 ?R) =
        Some (render tt @ render [(k', v', ?g')])"
      using R by (simp add: ss enc_slot.simps)
    have "add_slots k v [(k', v', ?g')] = Some [(k', v', []), (k, v, [])]"
      using R by simp
    from add_scan_fits [OF this, of a "render tt" None "length g" "length k'"]
    have "add_scan a k v (render tt @ render [(k', v', ?g')]) (length (render tt)) ?R None
        (length g) (length k') = Some (0, render tt @ render [(k', v', []), (k, v, [])])"
      using k' R by simp
    then show ?thesis using st by (simp add: ss grow_slots_def)
  qed
  obtain R where R: "R = ?R" by simp
  have sz: "length ?m + R - length g - length ?m = R - length g"
    using fr R by simp
  show ?thesis
  proof (cases "length ?m + R - length g > 65535 \<or> a = None")
    case True
    then show ?thesis
      using fr k' unfolding R [symmetric]
      by (subst add_scan.simps) (auto simp: Let_def split: option.splits)
  next
    case False
    then obtain junk where "a = Some junk" by auto
    then show ?thesis
      using again [of junk] fr k' False unfolding R [symmetric]
      by (subst add_scan.simps) (simp add: Let_def sz)
  qed
qed

lemma add_entry_slots:
  assumes ok: "\<forall>s \<in> set ss. key_of s \<noteq> [] \<and> small_slot s" "ss \<noteq> []"
    and kv: "k \<noteq> []" "length k \<le> 65535" "length v \<le> 65535"
  shows "add_entry_to_slip_map a (render ss) k v =
    (case add_slots k v ss of
       Some ss' \<Rightarrow> Some (0, render ss')
     | None \<Rightarrow>
        (if length (render ss) + (6 + length k + length v) - length (snd (snd (last ss))) > 65535
            \<or> a = None
         then Some (- 1, render ss) else Some (0, render (grow_slots k v ss))))"
proof (cases "add_slots k v ss")
  case None
  obtain tt k' v' g where ss: "ss = tt @ [(k', v', g)]"
    using ok(2) by (metis append_butlast_last_id prod_cases3)
  have last: "last ss = (k', v', g)" by (simp add: ss)
  show ?thesis
    using kv add_scan_no_room [OF None ok(1) ss, of a "[]" None 0 0]
      add_scan_grow [OF None ok(1) ss, of a]
    by (simp add: add_entry_to_slip_map_def None last)
next
  case (Some ss')
  show ?thesis
    using kv add_scan_fits [OF Some ok(1), of a "[]" None 0 0]
    by (simp add: add_entry_to_slip_map_def Some)
qed

text \<open>The empty buffer: its single slot takes the entry, after growing if need be.\<close>

lemma add_scan_empty_fits:
  assumes "length g < 65536" "length k + length v \<le> length g"
  shows "add_scan a k v (render [([], [], g)]) 0 (6 + length k + length v) sfp fr kl =
    Some (0, render [(k, v, drop (length k + length v) g)])"
proof -
  let ?n = "length k + length v"
  have hd: "read_header (render [([], [], g)]) 0 = Some (length g, 0, 0)"
    using read_header_slot [of "[]" "[]" g 0 "[]" "[]"] assms by simp
  have "update_map_slot ([] @ (h16 (length g) @ h16 0 @ h16 0 @ take ?n g) @ drop ?n g) 0
      (length g - ?n) k v =
    Some ([] @ (h16 (length g - ?n) @ h16 (length k) @ h16 (length v) @ k @ v) @ drop ?n g)"
    using assms by (intro update_map_slot_mid) auto
  then have "update_map_slot (render [([], [], g)]) 0 (length g - length k - length v) k v =
      Some (render [(k, v, drop ?n g)])"
    by (simp add: enc_slot.simps diff_diff_left)
  then show ?thesis
    using hd assms by (subst add_scan.simps) (simp add: Let_def)
qed

lemma add_entry_empty:
  assumes g: "length g < 65536" and kv: "k \<noteq> []" "length k \<le> 65535" "length v \<le> 65535"
  shows "\<exists>p. length p =
      (if length g \<ge> length k + length v then length g - (length k + length v) else 6) \<and>
    add_entry_to_slip_map a (render [([], [], g)]) k v =
    (if length g \<ge> length k + length v then Some (0, render [(k, v, p)])
     else if 12 + length k + length v > 65535 \<or> a = None then Some (- 1, render [([], [], g)])
     else Some (0, render [(k, v, p)]))"
proof (cases "length k + length v \<le> length g")
  case True
  then show ?thesis
    using kv add_scan_empty_fits [OF g True, of a None 0 0]
    by (intro exI [of _ "drop (length k + length v) g"])
      (auto simp: add_entry_to_slip_map_def)
next
  case False
  let ?R = "6 + length k + length v" and ?m = "render [([], [], g)]"
  have hd: "read_header ?m 0 = Some (length g, 0, 0)"
    using read_header_slot [of "[]" "[]" g 0 "[]" "[]"] g by simp
  have "add_scan a k v ?m 0 ?R None 0 0 =
      add_scan a k v ?m (length ?m) (length k + length v) (Some 0) (length g) 0"
    using hd False by (subst add_scan.simps) (simp add: Let_def)
  also have "\<dots> = (if 12 + length k + length v > 65535 \<or> a = None then Some (- 1, ?m)
      else do {
        m1 \<leftarrow> store (?m @ replicate (?R - length g) (the a)) 0 (h16 ?R);
        c_assert (0 < length m1);
        add_scan a k v m1 0 ?R None (length g) 0
      })"
    using False by (subst add_scan.simps) (auto simp: Let_def ac_simps split: option.splits)
  finally have scan: "add_scan a k v ?m 0 ?R None 0 0 = \<dots>" .
  show ?thesis
  proof (cases "12 + length k + length v > 65535 \<or> a = None")
    case True
    then show ?thesis using scan kv False by (intro exI [of _ "replicate 6 0"]) (auto simp: add_entry_to_slip_map_def)
  next
    case small: False
    let ?g' = "g @ replicate (?R - length g) (the a)"
    have R: "?R < 65536" "length ?g' = ?R" using small False by auto
    have "store ([] @ h16 (length g) @ (h16 0 @ h16 0 @ ?g')) 0 (h16 ?R) =
        Some ([] @ h16 ?R @ (h16 0 @ h16 0 @ ?g'))"
      by (intro store_mid) auto
    then have st: "store (?m @ replicate (?R - length g) (the a)) 0 (h16 ?R) =
        Some (render [([], [], ?g')])"
      using R by (simp add: enc_slot.simps)
    have "add_scan a k v (render [([], [], ?g')]) 0 ?R None (length g) 0 =
        Some (0, render [(k, v, drop (length k + length v) ?g')])"
      using R by (intro add_scan_empty_fits) auto
    then have "add_entry_to_slip_map a ?m k v =
        Some (0, render [(k, v, drop (length k + length v) ?g')])"
      using kv scan small st by (simp add: add_entry_to_slip_map_def)
    moreover have "length (drop (length k + length v) ?g') = 6" using R by simp
    ultimately show ?thesis using False small
      by (intro exI [of _ "drop (length k + length v) ?g'"]) (auto simp del: length_drop)
  qed
qed

section \<open>Walking the slots\<close>

lemma take_drop_slot:
  assumes "m = pre @ enc_slot (k, v, g) @ post"
  shows "take (length k) (drop (length pre + 6) m) = k"
    and "take (length v) (drop (length pre + 6 + length k) m) = v"
    and "length pre + 6 + length k + length v + length g \<le> length m"
  using assms by (simp_all add: enc_slot.simps)

lemma bytes_equal_at_slot:
  assumes "m = pre @ enc_slot (k, v, g) @ post" "length k = length key"
  shows "bytes_equal_at m (length pre + 6) key = Some (k = key)"
  using take_drop_slot [OF assms(1)] assms(2) by (simp add: bytes_equal_at_def)

fun foreach_list ::
  "('c \<Rightarrow> bytes \<Rightarrow> bytes \<Rightarrow> (int \<times> 'c) option) \<Rightarrow> (bytes \<times> bytes) list \<Rightarrow> 'c \<Rightarrow> 'c option" where
  "foreach_list cb [] c = Some c"
| "foreach_list cb ((k, v) # es) c =
     do {
       (r, c') \<leftarrow> cb c k v;
       (if r \<noteq> 0 then Some c' else foreach_list cb es c')
     }"

definition slot_ok :: "slot \<Rightarrow> bool" where
  "slot_ok s \<longleftrightarrow> small_slot s \<and> (key_of s = [] \<longrightarrow> fst (snd s) = [])"

lemma foreach_scan_slots:
  assumes "\<forall>s \<in> set ss. slot_ok s"
  shows "foreach_scan cb (pre @ render ss) (length pre) c = foreach_list cb (entries_of ss) c"
  using assms
proof (induction ss arbitrary: pre c)
  case Nil
  then show ?case by (subst foreach_scan.simps) (simp add: entries_of_def)
next
  case (Cons s ss)
  obtain k v g where s: "s = (k, v, g)" by (cases s)
  obtain m where m_eq: "m = pre @ render (s # ss)" by simp
  then have m: "m = pre @ enc_slot (k, v, g) @ render ss" by (simp add: s)
  have hd: "read_header m (length pre) = Some (length g, length k, length v)"
    unfolding m using Cons.prems s by (intro read_header_slot) (auto simp: slot_ok_def)
  have lt: "length pre < length m" by (simp add: m)
  have IH: "foreach_scan cb m (length pre + 6 + length k + length v + length g) c' =
      foreach_list cb (entries_of ss) c'" for c'
    using Cons.IH [of "pre @ enc_slot s" c'] Cons.prems by (simp add: s m add.assoc)
  have kv: "take (length k) (drop (length pre + 6) m) = k"
    "take (length v) (drop (length pre + 6 + length k) m) = v"
    "length pre + 6 + length k + length v \<le> length m"
    using take_drop_slot [OF m] by simp_all
  have v: "k = [] \<longrightarrow> v = []" using Cons.prems s by (auto simp: slot_ok_def)
  have IH0: "foreach_scan cb m (length pre + 6 + length g) c = foreach_list cb (entries_of ss) c"
    if "k = []" using IH [of c] v that by simp
  have ent: "entries_of (s # ss) = (if k = [] then entries_of ss else (k, v) # entries_of ss)"
    by (simp add: entries_of_def s)
  show ?case
    unfolding m_eq [symmetric] foreach_scan.simps [of cb m "length pre" c] ent using v
    by (simp add: lt hd kv IH IH0 Let_def cong: prod.case_cong if_cong)
qed

lemma wf_slots_ok: "wf_slots ss \<Longrightarrow> \<forall>s \<in> set ss. slot_ok s"
  by (auto simp: wf_slots_def slot_ok_def)

lemma slip_map_foreach_render:
  "wf_slots ss \<Longrightarrow> slip_map_foreach cb (Some (render ss)) c = foreach_list cb (entries_of ss) c"
  using foreach_scan_slots [OF wf_slots_ok, of ss cb "[]" c] by (simp add: slip_map_foreach_def)

lemma foreach_list_find:
  "foreach_list (find_in_slip_map_cb key) es c =
     Some (case map_of es key of None \<Rightarrow> c | Some v \<Rightarrow> Some v)"
  by (induction es arbitrary: c) (auto simp: find_in_slip_map_cb_def)

lemma find_render:
  "wf_slots ss \<Longrightarrow> find_in_slip_map (Some (render ss)) key = Some (map_of (entries_of ss) key)"
  by (auto simp: find_in_slip_map_def slip_map_foreach_render foreach_list_find split: option.splits)

section \<open>Removing an entry\<close>

fun remove_slots :: "bytes \<Rightarrow> slot list \<Rightarrow> slot list \<Rightarrow> slot list option" where
  "remove_slots key pre [] = None"
| "remove_slots key pre ((k, v, g) # ss) =
     (if k = key then
        Some (if pre = [] then (if ss = [] then [([], [], k @ v @ g)] else ss)
              else (case last pre of (k0, v0, g0) \<Rightarrow>
                      butlast pre @ (k0, v0, g0 @ replicate 6 0 @ k @ v @ g) # ss))
      else remove_slots key (pre @ [(k, v, g)]) ss)"

lemma init_slip_map_slot:
  assumes "length (k @ v @ g) < 65536"
  shows "init_slip_map (enc_slot (k, v, g)) = Some (enc_slot ([], [], k @ v @ g))"
proof -
  let ?h = "h16 (length g) @ h16 (length k) @ h16 (length v)"
  have "store ([] @ ?h @ (k @ v @ g)) 0 (h16 (length (k @ v @ g)) @ [0, 0, 0, 0]) =
      Some ([] @ (h16 (length (k @ v @ g)) @ [0, 0, 0, 0]) @ (k @ v @ g))"
    by (intro store_mid) auto
  moreover have "h16 0 = [0, 0]" by (simp add: h16_def)
  ultimately show ?thesis
    by (simp add: init_slip_map_def enc_slot.simps)
qed

text \<open>Giving a removed slot's space to the slot before it.\<close>

lemma merge_slot_bytes:
  assumes p: "p = length a" and q: "q = length a + length (enc_slot (k0, v0, g0))"
    and small: "small_slot (k0, v0, g0)"
    and free: "length g0 + 6 + length k + length v + length g < 65536"
  shows "do {
       previous_slot_free \<leftarrow> rd16 (a @ enc_slot (k0, v0, g0) @ enc_slot (k, v, g) @ b) p;
       m1 \<leftarrow> store (a @ enc_slot (k0, v0, g0) @ enc_slot (k, v, g) @ b) p
         (h16 (previous_slot_free + 6 + length k + length v + length g));
       m2 \<leftarrow> store m1 q [0, 0, 0, 0, 0, 0];
       Some (1 :: int, m2)
     } = Some (1, a @ enc_slot (k0, v0, g0 @ replicate 6 0 @ k @ v @ g) @ b)"
proof -
  let ?n = "length g0 + 6 + length k + length v + length g"
  let ?t = "h16 (length k0) @ h16 (length v0) @ k0 @ v0 @ g0"
  let ?h = "h16 (length g) @ h16 (length k) @ h16 (length v)"
  have "rd16 (a @ h16 (length g0) @ (?t @ enc_slot (k, v, g) @ b)) p = Some (length g0)"
    using small p by (intro rd16_h16) auto
  moreover have "store (a @ h16 (length g0) @ (?t @ enc_slot (k, v, g) @ b)) p (h16 ?n) =
      Some (a @ h16 ?n @ (?t @ enc_slot (k, v, g) @ b))"
    using p by (intro store_mid) auto
  moreover have "store ((a @ h16 ?n @ ?t) @ ?h @ (k @ v @ g @ b)) q [0, 0, 0, 0, 0, 0] =
      Some ((a @ h16 ?n @ ?t) @ [0, 0, 0, 0, 0, 0] @ (k @ v @ g @ b))"
    using q by (intro store_mid) auto
  moreover have "[0, 0, 0, 0, 0, 0 :: byte] = replicate 6 0"
    by (simp add: replicate_numeral)
  ultimately show ?thesis
    by (simp add: enc_slot.simps add.assoc)
qed

lemma remove_scan_slots:
  assumes "\<forall>s \<in> set (pre @ ss). small_slot s" "key \<noteq> []" "\<forall>s \<in> set (pre @ ss). slot_ok s"
    and "length (render (pre @ ss)) \<le> 65541"
  shows "remove_scan key (render (pre @ ss)) (length (render pre))
      (if pre = [] then None else Some (length (render (butlast pre)))) =
    Some (case remove_slots key pre ss of
        None \<Rightarrow> (0, render (pre @ ss)) | Some ss' \<Rightarrow> (1, render ss'))"
  using assms
proof (induction ss arbitrary: pre)
  case Nil
  then show ?case by (subst remove_scan.simps) simp
next
  case (Cons s ss)
  obtain k v g where s: "s = (k, v, g)" by (cases s)
  let ?m = "render (pre @ s # ss)" and ?p = "length (render pre)"
  have m: "?m = render pre @ enc_slot (k, v, g) @ render ss" by (simp add: s)
  have hd: "read_header ?m ?p = Some (length g, length k, length v)"
    unfolding m using Cons.prems s by (intro read_header_slot) (auto simp: slot_ok_def)
  have lt: "?p < length ?m" by simp
  have v: "length k = 0 \<longrightarrow> length v = 0" using Cons.prems s by (auto simp: slot_ok_def)
  have eq: "(if length k = length key then bytes_equal_at ?m (?p + 6) key else Some False) =
      Some (k = key)"
    using bytes_equal_at_slot [OF m] by auto
  have len: "?p + 6 + length k + length v + length g + length (render ss) = length ?m"
    by (simp add: s)
  show ?case
  proof (cases "k = key")
    case False
    have "remove_scan key ?m (length (render (pre @ [s]))) (Some ?p) =
        Some (case remove_slots key (pre @ [s]) ss of
          None \<Rightarrow> (0, ?m) | Some ss' \<Rightarrow> (1, render ss'))"
      using Cons.IH [of "pre @ [s]"] Cons.prems by (simp cong: option.case_cong)
    moreover have "length (render (pre @ [s])) = ?p + 6 + length k + length v + length g"
      by (simp add: s)
    moreover have "remove_slots key pre (s # ss) = remove_slots key (pre @ [s]) ss"
      using False by (simp add: s)
    ultimately show ?thesis
      unfolding remove_scan.simps [of key ?m ?p] using False
      by (simp add: lt hd v eq Let_def s [symmetric] del: render_simps)
  next
    case True
    show ?thesis
    proof (cases "pre = []")
      case first: True
      show ?thesis
      proof (cases "ss = []")
        case empty: True
        have "length (k @ v @ g) < 65536" using Cons.prems first empty s by simp
        with init_slip_map_slot [of k v g] show ?thesis
          unfolding remove_scan.simps [of key ?m ?p] using True first empty lt hd v eq len
          by (simp add: Let_def s)
      next
        case False
        then have "render ss \<noteq> []" by (cases ss) auto
        then have "?p + 6 + length k + length v + length g \<noteq> length ?m" using len by auto
        moreover have "drop (6 + length k + length v + length g) ?m = render ss"
          using first by (simp add: s)
        ultimately show ?thesis
          unfolding remove_scan.simps [of key ?m ?p] using True False first lt hd v eq len
          by (simp add: Let_def s del: render_simps(2,3))
      qed
    next
      case False
      then obtain pre' k0 v0 g0 where pre: "pre = pre' @ [(k0, v0, g0)]"
        by (metis append_butlast_last_id prod_cases3)
      have free: "length g0 + 6 + length k + length v + length g < 65536"
        using Cons.prems(4) by (simp add: pre s)
      have small0: "small_slot (k0, v0, g0)" using Cons.prems(1) by (simp add: pre)
      have m': "?m = render pre' @ enc_slot (k0, v0, g0) @ enc_slot (k, v, g) @ render ss"
        by (simp add: s pre)
      have p': "?p = length (render pre') + length (enc_slot (k0, v0, g0))" by (simp add: pre)
      show ?thesis
        unfolding remove_scan.simps [of key ?m ?p] using True lt hd v eq
          merge_slot_bytes [OF refl p' small0 free, of "render ss"] unfolding m' [symmetric]
        by (simp add: Let_def s pre)
    qed
  qed
qed

section \<open>What the operations do to the represented map\<close>

text \<open>The map a list of slots stands for.\<close>

definition map_of_slots :: "slot list \<Rightarrow> bytes \<Rightarrow> bytes option" where
  "map_of_slots ss = map_of (entries_of ss)"

lemma entries_of_keys:
  "\<forall>s \<in> set ss. key_of s \<noteq> [] \<Longrightarrow> entries_of ss = map entry_of ss"
  by (induction ss) (auto simp: entries_of_def)

lemma map_of_slots_keys:
  "\<forall>s \<in> set ss. key_of s \<noteq> [] \<Longrightarrow> map_of_slots ss = map_of (map entry_of ss)"
  by (simp add: map_of_slots_def entries_of_keys)

lemma map_of_slots_empty [simp]: "map_of_slots [([], [], g)] = Map.empty"
  by (simp add: map_of_slots_def entries_of_def)

lemma fst_entry_of [simp]: "fst (entry_of s) = key_of s"
  by (cases s) simp

lemma dom_map_entry: "dom (map_of (map entry_of ss)) = key_of ` set ss"
  by (auto simp: dom_map_of_conv_image_fst image_image)

text \<open>The two shapes of a well-formed list of slots.\<close>

lemma wf_slots_cases:
  assumes "wf_slots ss"
  obtains (empty) g where "ss = [([], [], g)]" "length g < 65536"
    | (keys) "ss \<noteq> []" "\<forall>s \<in> set ss. key_of s \<noteq> [] \<and> small_slot s" "distinct (map key_of ss)"
  using assms by (auto simp: wf_slots_def)

lemma add_slots_length:
  "add_slots k v ss = Some ss' \<Longrightarrow> length (render ss') = length (render ss)"
  by (induction k v ss arbitrary: ss' rule: add_slots.induct) (auto split: if_splits)

lemma add_slots_key_set:
  "add_slots k v ss = Some ss' \<Longrightarrow> key_of ` set ss' = insert k (key_of ` set ss)"
proof (induction k v ss arbitrary: ss' rule: add_slots.induct)
  case (2 k v k' v' g ss)
  show ?case
  proof (cases "length g \<ge> 6 + length k + length v")
    case True
    with "2.prems" have "ss' = (k', v', []) # (k, v, drop (6 + length k + length v) g) # ss" by simp
    then show ?thesis by (simp add: insert_commute)
  next
    case False
    with "2.prems" obtain tt where "add_slots k v ss = Some tt" "ss' = (k', v', g) # tt" by auto
    with "2.IH" [OF False] show ?thesis by (simp add: insert_commute)
  qed
qed simp

lemma add_slots_small:
  "add_slots k v ss = Some ss' \<Longrightarrow> length k < 65536 \<Longrightarrow> length v < 65536 \<Longrightarrow>
   \<forall>s \<in> set ss. small_slot s \<Longrightarrow> \<forall>s \<in> set ss'. small_slot s"
  by (induction k v ss arbitrary: ss' rule: add_slots.induct) (fastforce split: if_splits)+

lemma add_slots_distinct:
  "add_slots k v ss = Some ss' \<Longrightarrow> distinct (map key_of ss) \<Longrightarrow> k \<notin> key_of ` set ss \<Longrightarrow>
   distinct (map key_of ss')"
proof (induction k v ss arbitrary: ss' rule: add_slots.induct)
  case (2 k v k' v' g ss)
  then show ?case using add_slots_key_set [of k v ss] by (auto split: if_splits)
qed simp

lemma add_slots_map:
  "add_slots k v ss = Some ss' \<Longrightarrow> k \<notin> key_of ` set ss \<Longrightarrow>
   map_of (map entry_of ss') = (map_of (map entry_of ss))(k \<mapsto> v)"
  by (induction k v ss arbitrary: ss' rule: add_slots.induct)
    (auto split: if_splits simp: fun_upd_twist)

lemma grow_slots_props:
  assumes "ss \<noteq> []" "distinct (map key_of ss)" "k \<notin> key_of ` set ss"
  shows "length (render (grow_slots k v ss)) =
      length (render ss) + (6 + length k + length v) - length (snd (snd (last ss)))"
    and "key_of ` set (grow_slots k v ss) = insert k (key_of ` set ss)"
    and "distinct (map key_of (grow_slots k v ss))"
    and "map_of (map entry_of (grow_slots k v ss)) = (map_of (map entry_of ss))(k \<mapsto> v)"
    and "length k < 65536 \<Longrightarrow> length v < 65536 \<Longrightarrow> \<forall>s \<in> set ss. small_slot s \<Longrightarrow>
      \<forall>s \<in> set (grow_slots k v ss). small_slot s"
proof -
  obtain tt k' v' g where ss: "ss = tt @ [(k', v', g)]"
    using assms(1) by (metis append_butlast_last_id prod_cases3)
  have gs: "grow_slots k v ss = tt @ [(k', v', []), (k, v, [])]"
    by (simp add: ss grow_slots_def)
  have "map_of (map entry_of tt @ [(k', v'), (k, v)]) =
      (map_of (map entry_of tt @ [(k', v')]))(k \<mapsto> v)"
    using assms(2,3) dom_map_entry [of tt] unfolding ss
    by (auto simp: map_add_def fun_eq_iff domIff split: option.splits)
  then show "map_of (map entry_of (grow_slots k v ss)) = (map_of (map entry_of ss))(k \<mapsto> v)"
    unfolding gs by (simp add: ss)
  show "length (render (grow_slots k v ss)) =
      length (render ss) + (6 + length k + length v) - length (snd (snd (last ss)))"
    unfolding gs by (simp add: ss)
  show "key_of ` set (grow_slots k v ss) = insert k (key_of ` set ss)"
    unfolding gs by (simp add: ss insert_commute)
  show "distinct (map key_of (grow_slots k v ss))"
    using assms(2,3) unfolding gs by (auto simp: ss)
  show "\<forall>s \<in> set (grow_slots k v ss). small_slot s"
    if "length k < 65536" "length v < 65536" "\<forall>s \<in> set ss. small_slot s"
    using that unfolding gs by (auto simp: ss simp del: split_paired_All)
qed

lemma wf_slotsI:
  "ss \<noteq> [] \<Longrightarrow> \<forall>s \<in> set ss. small_slot s \<Longrightarrow> [] \<notin> key_of ` set ss \<Longrightarrow>
   distinct (map key_of ss) \<Longrightarrow> length (render ss) \<le> 65541 \<Longrightarrow> wf_slots ss"
  unfolding wf_slots_def by (metis imageI)

text \<open>
  An added entry is in the map afterwards, with everything that was there before; or the
  buffer is untouched, because it would outgrow 65535 bytes or the allocator refused.
\<close>

lemma add_entry_spec:
  assumes wf: "wf_slots ss" and kv: "k \<noteq> []" "length k \<le> 65535" "length v \<le> 65535"
    and new: "map_of_slots ss k = None"
  shows "(\<exists>ss'. add_entry_to_slip_map a (render ss) k v = Some (0, render ss') \<and> wf_slots ss' \<and>
      map_of_slots ss' = (map_of_slots ss)(k \<mapsto> v) \<and>
      length (render ss') \<le> max (length (render ss)) 65535) \<or>
    add_entry_to_slip_map a (render ss) k v = Some (- 1, render ss) \<and>
      (a = None \<or> length (render ss) + 6 + length k + length v > 65535)"
  using wf
proof (cases rule: wf_slots_cases)
  case (empty g)
  obtain p where p: "length p =
      (if length g \<ge> length k + length v then length g - (length k + length v) else 6)"
    "add_entry_to_slip_map a (render [([], [], g)]) k v =
    (if length g \<ge> length k + length v then Some (0, render [(k, v, p)])
     else if 12 + length k + length v > 65535 \<or> a = None then Some (- 1, render [([], [], g)])
     else Some (0, render [(k, v, p)]))"
    using add_entry_empty [OF empty(2) kv, of a] by blast
  have wf1: "wf_slots [(k, v, p)]" if "length g \<ge> length k + length v \<or> 12 + length k + length v \<le> 65535"
    using that p(1) kv empty(2) by (intro wf_slotsI) (auto split: if_splits)
  have map1: "map_of_slots [(k, v, p)] = [k \<mapsto> v]"
    using kv by (simp add: map_of_slots_keys)
  show ?thesis
  proof (cases "length g \<ge> length k + length v \<or> 12 + length k + length v \<le> 65535 \<and> a \<noteq> None")
    case True
    then show ?thesis
      using p kv wf1 map1
      by (intro disjI1 exI [of _ "[(k, v, p)]"]) (auto simp: empty(1))
  next
    case False
    then show ?thesis using p by (intro disjI2) (auto simp: empty(1))
  qed
next
  case keys
  then have keys': "\<forall>s \<in> set ss. key_of s \<noteq> []" "\<forall>s \<in> set ss. small_slot s"
    "[] \<notin> key_of ` set ss" by auto
  have map: "map_of_slots ss = map_of (map entry_of ss)"
    using keys' by (simp add: map_of_slots_keys)
  have k: "k \<notin> key_of ` set ss"
    using new dom_map_entry [of ss] by (auto simp: map)
  have map': "map_of_slots ss' = map_of (map entry_of ss')"
    if "key_of ` set ss' = insert k (key_of ` set ss)" for ss'
    using that keys'(3) kv(1) by (intro map_of_slots_keys) (metis imageI insertE)
  note add = add_entry_slots [OF keys(2,1) kv, of a]
  have len: "length (render ss) \<le> 65541" using wf by (simp add: wf_slots_def)
  show ?thesis
  proof (cases "add_slots k v ss")
    case (Some ss')
    note p = add_slots_key_set [OF Some] add_slots_length [OF Some] add_slots_map [OF Some k]
      add_slots_distinct [OF Some keys(3) k]
    have "wf_slots ss'"
      using p keys' kv len add_slots_small [OF Some]
      by (intro wf_slotsI) (auto simp del: split_paired_All)
    then show ?thesis using p add Some map map' [OF p(1)] by auto
  next
    case None
    note g = grow_slots_props [OF keys(1,3) k, of v]
    show ?thesis
    proof (cases "length (render ss) + (6 + length k + length v) - length (snd (snd (last ss))) > 65535
        \<or> a = None")
      case True
      then show ?thesis using add None by auto
    next
      case False
      have ne: "grow_slots k v ss \<noteq> []" using g(2) by auto
      have "wf_slots (grow_slots k v ss)"
        using ne g(1,2,3) g(5) kv keys' False by (intro wf_slotsI) auto
      then show ?thesis
        using add None False g(1,4) map map' [OF g(2)] by auto
    qed
  qed
qed

lemma remove_slots_None: "key \<notin> key_of ` set ss \<Longrightarrow> remove_slots key pre ss = None"
  by (induction key pre ss rule: remove_slots.induct) auto

lemma remove_slots_Some:
  "key \<in> key_of ` set ss \<Longrightarrow>
   \<exists>ps v g qs. ss = ps @ (key, v, g) # qs \<and>
     remove_slots key pre ss =
       Some (if pre @ ps = [] then (if qs = [] then [([], [], key @ v @ g)] else qs)
             else (case last (pre @ ps) of (k0, v0, g0) \<Rightarrow>
                     butlast (pre @ ps) @ (k0, v0, g0 @ replicate 6 0 @ key @ v @ g) # qs))"
proof (induction ss arbitrary: pre)
  case Nil
  then show ?case by simp
next
  case (Cons s ss)
  obtain k v g where s: "s = (k, v, g)" by (cases s)
  show ?case
  proof (cases "k = key")
    case True
    then show ?thesis by (intro exI [of _ "[]"] exI [of _ v] exI [of _ g] exI [of _ ss]) (simp add: s)
  next
    case False
    with Cons.prems s have "key \<in> key_of ` set ss" by auto
    from Cons.IH [OF this, of "pre @ [s]"] obtain ps v1 g1 qs where
      "ss = ps @ (key, v1, g1) # qs"
      "remove_slots key (pre @ [s]) ss =
       Some (if (pre @ [s]) @ ps = [] then (if qs = [] then [([], [], key @ v1 @ g1)] else qs)
             else (case last ((pre @ [s]) @ ps) of (k0, v0, g0) \<Rightarrow>
                     butlast ((pre @ [s]) @ ps) @
                       (k0, v0, g0 @ replicate 6 0 @ key @ v1 @ g1) # qs))" by blast
    then show ?thesis using False s
      by (intro exI [of _ "s # ps"] exI [of _ v1] exI [of _ g1] exI [of _ qs]) simp
  qed
qed

lemma map_of_delete_mid:
  "distinct (map fst (xs @ (k, v) # ys)) \<Longrightarrow>
   map_of (xs @ ys) = (map_of (xs @ (k, v) # ys))(k := None)"
  by (induction xs) (auto simp: fun_eq_iff map_of_eq_None_iff)

text \<open>
  Removing a key that is present reports 1 and leaves every other key alone; removing one
  that is absent reports 0 and leaves the buffer alone.
\<close>

lemma remove_entry_spec:
  assumes wf: "wf_slots ss" and key: "key \<noteq> []" "length key \<le> 65535"
  shows "(if map_of_slots ss key = None
     then remove_entry_from_slip_map (render ss) key = Some (0, render ss)
     else \<exists>ss'. remove_entry_from_slip_map (render ss) key = Some (1, render ss') \<and> wf_slots ss' \<and>
       map_of_slots ss' = (map_of_slots ss)(key := None) \<and>
       length (render ss') \<le> length (render ss))"
proof -
  have rm: "remove_entry_from_slip_map (render ss) key =
    Some (case remove_slots key [] ss of None \<Rightarrow> (0, render ss) | Some ss' \<Rightarrow> (1, render ss'))"
    using remove_scan_slots [of "[]" ss key] wf key wf_slots_ok [OF wf]
    by (auto simp: remove_entry_from_slip_map_def wf_slots_def cong: option.case_cong)
  from wf show ?thesis
  proof (cases rule: wf_slots_cases)
    case (empty g)
    then show ?thesis using rm key by simp
  next
    case keys
    then have map: "map_of_slots ss = map_of (map entry_of ss)"
      by (intro map_of_slots_keys) auto
    show ?thesis
    proof (cases "key \<in> key_of ` set ss")
      case False
      then show ?thesis using rm dom_map_entry [of ss] map by (auto simp: remove_slots_None)
    next
      case True
      from remove_slots_Some [OF this, of "[]"] obtain ps v g qs where
        split: "ss = ps @ (key, v, g) # qs" and
        rs: "remove_slots key [] ss =
         Some (if ps = [] then (if qs = [] then [([], [], key @ v @ g)] else qs)
             else (case last ps of (k0, v0, g0) \<Rightarrow>
                     butlast ps @ (k0, v0, g0 @ replicate 6 0 @ key @ v @ g) # qs))"
        by auto
      have del: "map_of (map entry_of (ps @ qs)) = (map_of_slots ss)(key := None)"
        using map_of_delete_mid [of "map entry_of ps" key v "map entry_of qs"] keys(3)
        unfolding map by (simp add: split comp_def)
      have some: "map_of_slots ss key \<noteq> None"
        using True dom_map_entry [of ss] by (auto simp: map)
      have len: "length (render ss) \<le> 65541" using wf by (simp add: wf_slots_def)
      show ?thesis
      proof (cases "ps = []")
        case first: True
        show ?thesis
        proof (cases "qs = []")
          case True
          have "wf_slots [([], [], key @ v @ g)]"
            using len first True by (simp add: wf_slots_def split)
          moreover have "map_of_slots [([], [], key @ v @ g)] = (map_of_slots ss)(key := None)"
            using del first True by simp
          moreover have "remove_entry_from_slip_map (render ss) key =
              Some (1, render [([], [], key @ v @ g)])"
            using rm rs first True by simp
          moreover have "length (render [([], [], key @ v @ g)]) \<le> length (render ss)"
            by (simp add: split first True)
          ultimately show ?thesis using some by metis
        next
          case False
          have "wf_slots qs"
            using keys False len first by (intro wf_slotsI) (auto simp: split)
          moreover have "map_of_slots qs = map_of (map entry_of qs)"
            using keys by (intro map_of_slots_keys) (auto simp: split)
          ultimately show ?thesis
            using rm rs first False some del by (auto simp: split)
        qed
      next
        case False
        then obtain ps' k0 v0 g0 where ps: "ps = ps' @ [(k0, v0, g0)]"
          by (metis append_butlast_last_id prod_cases3)
        let ?ss' = "ps' @ (k0, v0, g0 @ replicate 6 0 @ key @ v @ g) # qs"
        have ents: "map entry_of ?ss' = map entry_of (ps @ qs)" by (simp add: ps)
        have "[] \<notin> key_of ` set ss" using keys(2) by (metis imageE)
        then have nonempty1: "[] \<notin> key_of ` set ?ss'"
          unfolding split ps by (simp add: image_Un)
        then have nonempty: "[] \<notin> key_of ` set ?ss'" "\<forall>s \<in> set ?ss'. key_of s \<noteq> []"
          by (blast, metis imageI)
        have small: "\<forall>s \<in> set ?ss'. small_slot s"
          using keys(2) len unfolding split ps by (simp add: ball_Un)
        have wf': "wf_slots ?ss'"
          using keys(3) len nonempty small by (intro wf_slotsI) (auto simp: split ps)
        have "map_of_slots ?ss' = map_of (map entry_of ?ss')"
          using nonempty(2) by (intro map_of_slots_keys)
        then have "map_of_slots ?ss' = (map_of_slots ss)(key := None)"
          by (simp only: ents del)
        moreover have "length (render ?ss') = length (render ss)" by (simp add: split ps)
        moreover have "remove_entry_from_slip_map (render ss) key = Some (1, render ?ss')"
          using rm rs ps False by simp
        ultimately show ?thesis
          using some wf' by (metis order_refl)
      qed
    qed
  qed
qed

section \<open>Replacing an entry\<close>

text \<open>The in-place case, on the list of slots.\<close>

fun replace_slots :: "bytes \<Rightarrow> bytes \<Rightarrow> slot list \<Rightarrow> slot list option" where
  "replace_slots key val [] = None"
| "replace_slots key val ((k, v, g) # ss) =
     (if k = key then
        (if length val \<le> length v + length g
         then Some ((k, val, drop (length val) (v @ g)) # ss) else None)
      else map_option (Cons (k, v, g)) (replace_slots key val ss))"

lemma replace_slot_bytes:
  assumes "length val \<le> length v + length g" "p = length a"
  shows "do {
      m1 \<leftarrow> store (a @ enc_slot (k, v, g) @ b) (p + 6 + length k) val;
      m2 \<leftarrow> store m1 p (h16 (6 + length k + length v + length g - (6 + length k + length val)));
      m3 \<leftarrow> store m2 (p + 4) (h16 (length val));
      Some (0 :: int, m3)
    } = Some (0, a @ enc_slot (k, val, drop (length val) (v @ g)) @ b)"
proof -
  obtain w where w: "w = v @ g" by simp
  let ?w = "v @ g" and ?n = "length val"
  let ?f = "6 + length k + length v + length g - (6 + length k + length val)"
  have f: "?f = length (drop ?n ?w)" by simp
  have "store ((a @ h16 (length g) @ h16 (length k) @ h16 (length v) @ k) @ take ?n ?w @ (drop ?n ?w @ b))
      (p + 6 + length k) val =
    Some ((a @ h16 (length g) @ h16 (length k) @ h16 (length v) @ k) @ val @ (drop ?n ?w @ b))"
    using assms by (intro store_mid) auto
  then have 1: "store (a @ enc_slot (k, v, g) @ b) (p + 6 + length k) val =
    Some (a @ h16 (length g) @ (h16 (length k) @ h16 (length v) @ k @ val @ drop ?n ?w @ b))"
    by (simp add: enc_slot.simps del: drop_append take_append)
  have 2: "store (a @ h16 (length g) @ (h16 (length k) @ h16 (length v) @ k @ val @ drop ?n ?w @ b))
      p (h16 ?f) =
    Some (a @ h16 ?f @ (h16 (length k) @ h16 (length v) @ k @ val @ drop ?n ?w @ b))"
    using assms(2) by (intro store_mid) auto
  have 3: "store ((a @ h16 ?f @ h16 (length k)) @ h16 (length v) @ (k @ val @ drop ?n ?w @ b))
      (p + 4) (h16 ?n) =
    Some ((a @ h16 ?f @ h16 (length k)) @ h16 ?n @ (k @ val @ drop ?n ?w @ b))"
    using assms(2) by (intro store_mid) auto
  show ?thesis
    using 1 2 3 f by (simp add: enc_slot.simps del: drop_append length_drop)
qed

lemma replace_scan_slots:
  assumes "\<forall>s \<in> set ss. slot_ok s" "key \<noteq> []"
  shows "replace_scan a key val (pre @ render ss) (length pre) =
    (case replace_slots key val ss of
       Some ss' \<Rightarrow> Some (0, pre @ render ss')
     | None \<Rightarrow>
        (if key \<in> key_of ` set ss then
           do {
             (r, m1) \<leftarrow> remove_entry_from_slip_map (pre @ render ss) key;
             (if r < 0 then Some (- 1, m1) else add_entry_to_slip_map a m1 key val)
           }
         else add_entry_to_slip_map a (pre @ render ss) key val))"
  using assms
proof (induction ss arbitrary: pre)
  case Nil
  then show ?case by (subst replace_scan.simps) simp
next
  case (Cons s ss)
  obtain k v g where s: "s = (k, v, g)" by (cases s)
  obtain m where m_eq: "m = pre @ render (s # ss)" by simp
  then have m: "m = pre @ enc_slot (k, v, g) @ render ss" by (simp add: s)
  have hd: "read_header m (length pre) = Some (length g, length k, length v)"
    unfolding m using Cons.prems s by (intro read_header_slot) (auto simp: slot_ok_def)
  have lt: "length pre < length m" by (simp add: m)
  have v: "k = [] \<longrightarrow> v = []" using Cons.prems s by (auto simp: slot_ok_def)
  have eq: "(if length k = length key then bytes_equal_at m (length pre + 6) key else Some False) =
      Some (k = key)"
    using bytes_equal_at_slot [OF m] by auto
  show ?case
  proof (cases "k = key")
    case True
    have rs: "replace_slots key val (s # ss) =
      (if length val \<le> length v + length g
       then Some ((k, val, drop (length val) (v @ g)) # ss) else None)"
      using True by (simp add: s)
    have mem: "key \<in> key_of ` set (s # ss)" using True by (simp add: s)
    have k: "k \<noteq> []" using True Cons.prems by simp
    have bytes: "do {
        m1 \<leftarrow> store m (length pre + 6 + length k) val;
        m2 \<leftarrow> store m1 (length pre)
          (h16 (6 + length k + length v + length g - (6 + length k + length val)));
        m3 \<leftarrow> store m2 (length pre + 4) (h16 (length val));
        Some (0 :: int, m3)
      } = Some (0, pre @ enc_slot (k, val, drop (length val) (v @ g)) @ render ss)"
      if "length val \<le> length v + length g"
      unfolding m using that by (intro replace_slot_bytes) auto
    show ?thesis
    proof (cases "length val \<le> length v + length g")
      case fits: True
      then show ?thesis
        unfolding m_eq [symmetric]
        using rs bytes [OF fits] True eq k
        by (subst replace_scan.simps) (simp add: lt hd Let_def)
    next
      case small: False
      then show ?thesis
        unfolding m_eq [symmetric]
        using rs mem True eq k
        by (subst replace_scan.simps) (simp add: lt hd Let_def)
    qed
  next
    case False
    have "replace_scan a key val m (length pre) =
        replace_scan a key val m (length (pre @ enc_slot s))"
      using False v eq
      by (subst replace_scan.simps) (simp add: lt hd Let_def s add.assoc)
    also have "\<dots> = (case replace_slots key val ss of
       Some ss' \<Rightarrow> Some (0, (pre @ enc_slot s) @ render ss')
     | None \<Rightarrow>
        (if key \<in> key_of ` set ss then
           do {
             (r, m1) \<leftarrow> remove_entry_from_slip_map m key;
             (if r < 0 then Some (- 1, m1) else add_entry_to_slip_map a m1 key val)
           }
         else add_entry_to_slip_map a m key val))"
      using Cons.IH [of "pre @ enc_slot s"] Cons.prems m_eq
      by (simp cong: option.case_cong)
    finally show ?thesis
      unfolding m_eq [symmetric] using False by (auto simp: s split: option.splits)
  qed
qed

lemma replace_slots_None:
  "key \<notin> key_of ` set ss \<Longrightarrow> replace_slots key val ss = None"
  by (induction key val ss rule: replace_slots.induct) auto

lemma replace_slots_Some:
  assumes "replace_slots key val ss = Some ss'"
  shows "map key_of ss' = map key_of ss \<and> length (render ss') = length (render ss) \<and>
    (distinct (map key_of ss) \<longrightarrow>
       map_of (map entry_of ss') = (map_of (map entry_of ss))(key \<mapsto> val)) \<and>
    key \<in> key_of ` set ss"
  using assms
proof (induction key val ss arbitrary: ss' rule: replace_slots.induct)
  case (2 key val k v g ss)
  show ?case
  proof (cases "k = key")
    case True
    then show ?thesis using "2.prems" by (auto split: if_splits)
  next
    case False
    with "2.prems" obtain tt where tt: "replace_slots key val ss = Some tt" "ss' = (k, v, g) # tt"
      by auto
    then show ?thesis using "2.IH" [OF False tt(1)] False by (auto simp: fun_eq_iff)
  qed
qed simp

lemma slot_le_render: "(k, v, g) \<in> set ss \<Longrightarrow> 6 + length k + length v + length g \<le> length (render ss)"
  by (induction ss) (auto simp: render_def)

lemma render_big_slot:
  "\<forall>s \<in> set ss. length (key_of s) \<noteq> 0 \<Longrightarrow> length (render ss) \<le> 65541 \<Longrightarrow> \<forall>s \<in> set ss. small_slot s"
  using slot_le_render [of _ _ _ ss] by (fastforce simp: Suc_le_eq)

lemma wf_slots_absent:
  "wf_slots ss \<Longrightarrow> key \<notin> key_of ` set ss \<Longrightarrow> map_of_slots ss key = None"
  using dom_map_entry [of ss] by (auto simp: wf_slots_def map_of_slots_keys)

text \<open>
  Replacing an entry, present or not, either leaves the map with the new value for its key and
  nothing else changed, or fails. When it fails the buffer could not grow, and what is lost is
  at most the entry itself: the old value is removed before the new one is found not to fit.
\<close>

lemma replace_entry_spec:
  assumes wf: "wf_slots ss" and kv: "key \<noteq> []" "length key \<le> 65535" "length val \<le> 65535"
  shows "(\<exists>ss'. replace_entry_in_slip_map a (render ss) key val = Some (0, render ss') \<and> wf_slots ss' \<and>
      map_of_slots ss' = (map_of_slots ss)(key \<mapsto> val)) \<or>
    (\<exists>ss'. replace_entry_in_slip_map a (render ss) key val = Some (- 1, render ss') \<and> wf_slots ss' \<and>
      map_of_slots ss' = (map_of_slots ss)(key := None) \<and>
      (a = None \<or> length (render ss') + 6 + length key + length val > 65535))"
proof -
  note rep = replace_scan_slots [OF wf_slots_ok [OF wf] kv(1), of a val "[]"]
  have rp: "replace_entry_in_slip_map a (render ss) key val = replace_scan a key val (render ss) 0"
    using kv by (simp add: replace_entry_in_slip_map_def)
  show ?thesis
  proof (cases "key \<in> key_of ` set ss")
    case absent: False
    then have none: "map_of_slots ss key = None"
      using wf_slots_absent [OF wf] by simp
    then have "(map_of_slots ss)(key := None) = map_of_slots ss" by auto
    then show ?thesis
      using add_entry_spec [OF wf kv none, of a] rep absent wf
      by (auto simp: rp replace_slots_None)
  next
    case present: True
    with wf kv(1) have keys: "ss \<noteq> []" "\<forall>s \<in> set ss. key_of s \<noteq> []" "distinct (map key_of ss)"
      by (auto simp: wf_slots_def)
    have map: "map_of_slots ss = map_of (map entry_of ss)"
      using keys by (simp add: map_of_slots_keys)
    have len: "length (render ss) \<le> 65541" using wf by (simp add: wf_slots_def)
    show ?thesis
    proof (cases "replace_slots key val ss")
      case (Some ss')
      note p = replace_slots_Some [OF Some]
      then have "key_of ` set ss' = key_of ` set ss" by (metis set_map)
      moreover have "[] \<notin> key_of ` set ss" using keys(2) by (metis imageE)
      ultimately have none: "[] \<notin> key_of ` set ss'" by simp
      then have keys': "\<forall>s \<in> set ss'. key_of s \<noteq> []" by (metis imageI)
      have ne: "ss' \<noteq> []" using p keys(1) by auto
      have "\<forall>s \<in> set ss'. small_slot s"
        using keys' p len by (intro render_big_slot) (auto simp del: split_paired_All)
      then have "wf_slots ss'"
        using p keys none ne len by (intro wf_slotsI) simp_all
      moreover have "map_of_slots ss' = (map_of_slots ss)(key \<mapsto> val)"
        using p keys(3) keys' map by (simp add: map_of_slots_keys)
      ultimately show ?thesis using rep rp Some by auto
    next
      case None
      have some: "map_of_slots ss key \<noteq> None"
        using present dom_map_entry [of ss] by (auto simp: map)
      then obtain tt where tt: "remove_entry_from_slip_map (render ss) key = Some (1, render tt)"
        "wf_slots tt" "map_of_slots tt = (map_of_slots ss)(key := None)"
        using remove_entry_spec [OF wf kv(1,2)] by auto
      have "replace_entry_in_slip_map a (render ss) key val =
          add_entry_to_slip_map a (render tt) key val"
        using rep rp None present tt(1) by simp
      then show ?thesis
        using add_entry_spec [OF tt(2) kv, of a] tt by auto
    qed
  qed
qed

section \<open>The interface: a map from property names to values\<close>

text \<open>
  What the record operations rely on: lookups never fault, a stored value is found again, an
  operation on one key leaves the others alone, and a store that is refused leaves its own
  key unbound. The allocator's answer is an argument of the store.
\<close>

locale property_map =
  fixes find :: "'m \<Rightarrow> 'k \<Rightarrow> 'v option option"
    and put :: "'a \<Rightarrow> 'm \<Rightarrow> 'k \<Rightarrow> 'v \<Rightarrow> (int \<times> 'm) option"
    and del :: "'m \<Rightarrow> 'k \<Rightarrow> (int \<times> 'm) option"
    and inv :: "'m \<Rightarrow> bool"
    and ok_key :: "'k \<Rightarrow> bool"
    and ok_val :: "'v \<Rightarrow> bool"
  assumes find_total: "inv m \<Longrightarrow> \<exists>r. find m k = Some r"
    and put_law: "inv m \<Longrightarrow> ok_key k \<Longrightarrow> ok_val v \<Longrightarrow>
      \<exists>r m'. put a m k v = Some (r, m') \<and> inv m' \<and> r \<in> {0, - 1} \<and>
        (\<forall>k'. find m' k' = (if k' = k then Some (if r = 0 then Some v else None) else find m k'))"
    and del_law: "inv m \<Longrightarrow> ok_key k \<Longrightarrow>
      \<exists>r m'. del m k = Some (r, m') \<and> inv m' \<and>
        r = (if find m k = Some None then 0 else 1) \<and>
        (\<forall>k'. find m' k' = (if k' = k then Some None else find m k'))"

text \<open>
  A run of stores and deletions, with the return code of each; the reference is a function
  from keys to values, driven by these codes.
\<close>

datatype ('a, 'k, 'v) map_cmd = Map_Put 'a 'k 'v | Map_Del 'k

fun map_run ::
  "('a \<Rightarrow> 'm \<Rightarrow> 'k \<Rightarrow> 'v \<Rightarrow> (int \<times> 'm) option) \<Rightarrow> ('m \<Rightarrow> 'k \<Rightarrow> (int \<times> 'm) option) \<Rightarrow>
   'm \<Rightarrow> ('a, 'k, 'v) map_cmd list \<Rightarrow> (int list \<times> 'm) option" where
  "map_run put del m [] = Some ([], m)"
| "map_run put del m (c # cs) =
     do {
       (r, m') \<leftarrow> (case c of Map_Put a k v \<Rightarrow> put a m k v | Map_Del k \<Rightarrow> del m k);
       (rs, m'') \<leftarrow> map_run put del m' cs;
       Some (r # rs, m'')
     }"

fun map_spec ::
  "('k \<Rightarrow> 'v option) \<Rightarrow> ('a, 'k, 'v) map_cmd list \<Rightarrow> int list \<Rightarrow> ('k \<Rightarrow> 'v option)" where
  "map_spec f (Map_Put a k v # cs) (r # rs) =
     map_spec (f(k := (if r = 0 then Some v else None))) cs rs"
| "map_spec f (Map_Del k # cs) (r # rs) = map_spec (f(k := None)) cs rs"
| "map_spec f cs rs = f"

definition cmd_ok :: "('k \<Rightarrow> bool) \<Rightarrow> ('v \<Rightarrow> bool) \<Rightarrow> ('a, 'k, 'v) map_cmd \<Rightarrow> bool" where
  "cmd_ok ok_key ok_val c =
     (case c of Map_Put a k v \<Rightarrow> ok_key k \<and> ok_val v | Map_Del k \<Rightarrow> ok_key k)"

context property_map
begin

lemma run_spec:
  assumes "inv m" "\<forall>c \<in> set cs. cmd_ok ok_key ok_val c" "\<forall>k. find m k = Some (f k)"
  shows "\<exists>rs m'. map_run put del m cs = Some (rs, m') \<and> length rs = length cs \<and> inv m' \<and>
    (\<forall>k. find m' k = Some (map_spec f cs rs k))"
  using assms
proof (induction cs arbitrary: m f)
  case Nil
  then show ?case by simp
next
  case (Cons c cs)
  show ?case
  proof (cases c)
    case (Map_Put a k v)
    then have "ok_key k" "ok_val v" using Cons.prems(2) by (simp_all add: cmd_ok_def)
    then obtain r m' where p: "put a m k v = Some (r, m')" "inv m'"
      "\<forall>k'. find m' k' = Some ((f(k := (if r = 0 then Some v else None))) k')"
      using put_law [OF Cons.prems(1), of k v a] Cons.prems(3) by auto
    have "\<forall>c \<in> set cs. cmd_ok ok_key ok_val c" using Cons.prems(2) by simp
    from Cons.IH [OF p(2) this p(3)] obtain rs m'' where r: "map_run put del m' cs = Some (rs, m'')"
      "length rs = length cs" "inv m''"
      "\<forall>k'. find m'' k' = Some (map_spec (f(k := (if r = 0 then Some v else None))) cs rs k')"
      by blast
    show ?thesis
      by (rule exI [of _ "r # rs"], rule exI [of _ m'']) (use p(1) r Map_Put in simp)
  next
    case (Map_Del k)
    then have "ok_key k" using Cons.prems(2) by (simp add: cmd_ok_def)
    then obtain r m' where p: "del m k = Some (r, m')" "inv m'"
      "\<forall>k'. find m' k' = Some ((f(k := None)) k')"
      using del_law [OF Cons.prems(1), of k] Cons.prems(3) by auto
    have "\<forall>c \<in> set cs. cmd_ok ok_key ok_val c" using Cons.prems(2) by simp
    from Cons.IH [OF p(2) this p(3)] obtain rs m'' where r: "map_run put del m' cs = Some (rs, m'')"
      "length rs = length cs" "inv m''"
      "\<forall>k'. find m'' k' = Some (map_spec (f(k := None)) cs rs k')"
      by blast
    show ?thesis
      by (rule exI [of _ "r # rs"], rule exI [of _ m'']) (use p(1) r Map_Del in simp)
  qed
qed

end

text \<open>The lengths the code asserts: a key has between 1 and 65535 bytes, a value at most 65535.\<close>

definition slip_key :: "bytes \<Rightarrow> bool" where
  "slip_key k \<longleftrightarrow> k \<noteq> [] \<and> length k \<le> 65535"

definition slip_val :: "bytes \<Rightarrow> bool" where
  "slip_val v \<longleftrightarrow> length v \<le> 65535"

lemma find_slots: "wf_slots ss \<Longrightarrow> find_in_slip_map (Some (render ss)) k = Some (map_of_slots ss k)"
  by (simp add: find_render map_of_slots_def)

lemma slip_map_invI: "wf_slots ss \<Longrightarrow> slip_map_inv (render ss)"
  by (auto simp: slip_map_inv_def)

lemma slip_replace_law:
  assumes "slip_map_inv m" "slip_key k" "slip_val v"
  shows "\<exists>r m'. replace_entry_in_slip_map a m k v = Some (r, m') \<and> slip_map_inv m' \<and> r \<in> {0, - 1} \<and>
    (\<forall>k'. find_in_slip_map (Some m') k' =
       (if k' = k then Some (if r = 0 then Some v else None) else find_in_slip_map (Some m) k')) \<and>
    (r = - 1 \<longrightarrow> a = None \<or> length m' + 6 + length k + length v > 65535)"
proof -
  obtain ss where ss: "wf_slots ss" "m = render ss"
    using assms(1) by (auto simp: slip_map_inv_def)
  have kv: "k \<noteq> []" "length k \<le> 65535" "length v \<le> 65535"
    using assms(2,3) by (simp_all add: slip_key_def slip_val_def)
  from replace_entry_spec [OF ss(1) kv, of a] consider
    (stored) ss' where "replace_entry_in_slip_map a (render ss) k v = Some (0, render ss')"
      "wf_slots ss'" "map_of_slots ss' = (map_of_slots ss)(k \<mapsto> v)"
    | (refused) ss' where "replace_entry_in_slip_map a (render ss) k v = Some (- 1, render ss')"
      "wf_slots ss'" "map_of_slots ss' = (map_of_slots ss)(k := None)"
      "a = None \<or> length (render ss') + 6 + length k + length v > 65535"
    by blast
  then show ?thesis
  proof cases
    case stored
    then show ?thesis using ss
      by (intro exI [of _ 0] exI [of _ "render ss'"]) (auto simp: find_slots slip_map_invI)
  next
    case refused
    then show ?thesis using ss
      by (intro exI [of _ "- 1"] exI [of _ "render ss'"]) (simp add: find_slots slip_map_invI)
  qed
qed

lemma slip_remove_law:
  assumes "slip_map_inv m" "slip_key k"
  shows "\<exists>r m'. remove_entry_from_slip_map m k = Some (r, m') \<and> slip_map_inv m' \<and>
    r = (if find_in_slip_map (Some m) k = Some None then 0 else 1) \<and>
    (\<forall>k'. find_in_slip_map (Some m') k' =
       (if k' = k then Some None else find_in_slip_map (Some m) k'))"
proof -
  obtain ss where ss: "wf_slots ss" "m = render ss"
    using assms(1) by (auto simp: slip_map_inv_def)
  have k: "k \<noteq> []" "length k \<le> 65535" using assms(2) by (simp_all add: slip_key_def)
  show ?thesis
    using remove_entry_spec [OF ss(1) k] ss
    by (cases "map_of_slots ss k") (auto simp: find_slots slip_map_invI)
qed

interpretation sm: property_map "\<lambda>m. find_in_slip_map (Some m)" replace_entry_in_slip_map
    remove_entry_from_slip_map slip_map_inv slip_key slip_val
proof unfold_locales
  show "\<exists>r. find_in_slip_map (Some m) k = Some r" if "slip_map_inv m" for m k
    using that by (auto simp: slip_map_inv_def find_slots)
next
  show "\<exists>r m'. replace_entry_in_slip_map a m k v = Some (r, m') \<and> slip_map_inv m' \<and> r \<in> {0, - 1} \<and>
    (\<forall>k'. find_in_slip_map (Some m') k' =
       (if k' = k then Some (if r = 0 then Some v else None) else find_in_slip_map (Some m) k'))"
    if "slip_map_inv m" "slip_key k" "slip_val v" for a m k v
    using slip_replace_law [OF that, of a] by blast
qed (rule slip_remove_law)

lemma new_slip_map_wf:
  assumes "new_slip_map a buffer_size = Some (Some m)"
  shows "slip_map_inv m" "find_in_slip_map (Some m) k = Some None"
proof -
  define n where "n = (if buffer_size < 14 then 14 else buffer_size) - 8"
  have "6 \<le> n" by (auto simp: n_def)
  moreover have "n \<le> 65541"
    using assms by (simp add: new_slip_map_def Let_def sizeof_slip_map_def n_def split: if_splits)
  moreover obtain junk where "a = Some junk"
    using assms by (cases a) (auto simp: new_slip_map_def Let_def split: if_splits)
  moreover from this have "init_slip_map (replicate n junk) = Some m"
    using assms
    by (simp add: new_slip_map_def Let_def sizeof_slip_map_def n_def bind_eq_Some_conv split: if_splits)
  ultimately have n: "6 \<le> n" "n \<le> 65541" "init_slip_map (replicate n junk) = Some m" by auto
  have "store (replicate 6 junk @ replicate (n - 6) junk) 0 (h16 (n - 6) @ [0, 0, 0, 0]) =
      Some ((h16 (n - 6) @ [0, 0, 0, 0]) @ replicate (n - 6) junk)"
    using store_mid [of "replicate 6 junk" "h16 (n - 6) @ [0, 0, 0, 0]" 0 "[]"] by simp
  moreover have "replicate 6 junk @ replicate (n - 6) junk = replicate n junk"
    using n(1) by (simp add: replicate_add [symmetric])
  ultimately have m: "m = render [([], [], replicate (n - 6) junk)]"
    using n by (simp add: init_slip_map_def enc_slot.simps h16_def)
  have wf: "wf_slots [([], [], replicate (n - 6) junk)]"
    using n by (simp add: wf_slots_def)
  show "slip_map_inv m" using slip_map_invI [OF wf] m by simp
  show "find_in_slip_map (Some m) k = Some None" using find_slots [OF wf] m by simp
qed

section \<open>Properties\<close>

text \<open>
  C25: whatever sequence of stores and deletions is applied to a new property map, with keys
  and values of legal length and whatever the allocator answers, no operation faults, and a
  lookup afterwards finds for every key the last value stored for it, nothing if it was
  deleted since or never stored, and nothing if the last store was refused.
\<close>

theorem slip_map_refines_map:
  assumes "new_slip_map a buffer_size = Some (Some m)" "\<forall>c \<in> set cs. cmd_ok slip_key slip_val c"
  shows "\<exists>rs m'. map_run replace_entry_in_slip_map remove_entry_from_slip_map m cs = Some (rs, m') \<and>
    length rs = length cs \<and> (\<forall>k. find_in_slip_map (Some m') k = Some (map_spec Map.empty cs rs k))"
  using sm.run_spec [OF _ assms(2), of m Map.empty] new_slip_map_wf [OF assms(1)] by blast

text \<open>
  C40: a store is refused only for lack of memory, or when the buffer without the old
  entry and the new entry together would exceed 65535 bytes; and then the value that the
  key had before is lost: it is removed before the new one is found not to fit.
\<close>

theorem slip_map_refused_store_loses_old:
  assumes "slip_map_inv m" "slip_key k" "slip_val v"
    and "replace_entry_in_slip_map a m k v = Some (- 1, m')"
  shows "find_in_slip_map (Some m') k = Some None \<and>
    (a = None \<or> length m' + 6 + length k + length v > 65535)"
  using slip_replace_law [OF assms(1-3), of a] assms(4) by auto

text \<open>
  Enumerating a property map hands every entry to the callback exactly once, in the order
  of the buffer, until the callback asks to stop; the entries are those that lookups find.
\<close>

theorem slip_map_foreach_enumerates:
  assumes "slip_map_inv m"
  shows "\<exists>es. distinct (map fst es) \<and> (\<forall>k. find_in_slip_map (Some m) k = Some (map_of es k)) \<and>
    (\<forall>cb (c :: 'c). slip_map_foreach cb (Some m) c = foreach_list cb es c)"
proof -
  obtain ss where ss: "wf_slots ss" "m = render ss"
    using assms by (auto simp: slip_map_inv_def)
  have "distinct (map fst (entries_of ss))"
    using ss(1)
    by (cases rule: wf_slots_cases) (auto simp: entries_of_def comp_def distinct_map_filter)
  then show ?thesis using ss
    by (intro exI [of _ "entries_of ss"]) (auto simp: find_slots map_of_slots_def slip_map_foreach_render)
qed

section \<open>Witnesses\<close>

definition sample_map :: slip_map where
  "sample_map = render [(bytes_of ''a'', bytes_of ''1'', [])]"

lemma sample_map_wf: "wf_slots [(bytes_of ''a'', bytes_of ''1'', [])]"
  by (simp add: wf_slots_def bytes_of_def)

lemmas sample_eval = enc_slot.simps h16_def read_header_def rd16_def bytes_equal_at_def store_def
  write_at_def init_slip_map_def bytes_of_def Let_def nth_Cons'

theorem slip_map_refines_map_witness:
  "\<exists>m. new_slip_map (Some 7) 30 = Some (Some m) \<and>
     (\<exists>rs m'. map_run replace_entry_in_slip_map remove_entry_from_slip_map m
        [Map_Put None (bytes_of ''a'') (bytes_of ''1''), Map_Put (Some (0 :: byte)) (bytes_of ''b'') (bytes_of ''2''),
         Map_Del (bytes_of ''a'')] = Some (rs, m') \<and> length rs = 3 \<and>
      (\<forall>k. find_in_slip_map (Some m') k = Some (map_spec Map.empty
        [Map_Put None (bytes_of ''a'') (bytes_of ''1''), Map_Put (Some (0 :: byte)) (bytes_of ''b'') (bytes_of ''2''),
         Map_Del (bytes_of ''a'')] rs k)))"
proof -
  have n: "new_slip_map (Some 7) 30 = Some (Some ([0, 16, 0, 0, 0, 0] @ replicate 16 7))"
    by (simp add: new_slip_map_def sizeof_slip_map_def init_slip_map_def store_def h16_def
        write_at_def replicate_numeral)
  let ?cs = "[Map_Put None (bytes_of ''a'') (bytes_of ''1''),
    Map_Put (Some (0 :: byte)) (bytes_of ''b'') (bytes_of ''2''), Map_Del (bytes_of ''a'')]"
  have "\<forall>c \<in> set ?cs. cmd_ok slip_key slip_val c"
    by (simp add: cmd_ok_def slip_key_def slip_val_def bytes_of_def)
  from slip_map_refines_map [OF n this] obtain rs m' where
    r: "map_run replace_entry_in_slip_map remove_entry_from_slip_map
        ([0, 16, 0, 0, 0, 0] @ replicate 16 7) ?cs = Some (rs, m')"
      "length rs = length ?cs" "\<forall>k. find_in_slip_map (Some m') k = Some (map_spec Map.empty ?cs rs k)"
    by (elim exE conjE) (rule that)
  have l: "length rs = 3" using r(2) by simp
  show ?thesis by (rule exI, rule conjI, rule n, intro exI conjI, rule r(1), rule l, rule r(3))
qed

theorem slip_map_refused_store_loses_old_witness:
  "find_in_slip_map (Some sample_map) (bytes_of ''a'') = Some (Some (bytes_of ''1'')) \<and>
   (\<exists>m'. replace_entry_in_slip_map None sample_map (bytes_of ''a'') (bytes_of ''xyz'') = Some (- 1, m') \<and>
     find_in_slip_map (Some m') (bytes_of ''a'') = Some None)"
proof -
  have "find_in_slip_map (Some sample_map) (bytes_of ''a'') = Some (Some (bytes_of ''1''))"
    unfolding sample_map_def find_slots [OF sample_map_wf]
    by (simp add: map_of_slots_def entries_of_def bytes_of_def)
  moreover have r: "replace_entry_in_slip_map None sample_map (bytes_of ''a'') (bytes_of ''xyz'') =
      Some (- 1, [0, 2, 0, 0, 0, 0, 97, 49])"
    unfolding sample_map_def replace_entry_in_slip_map_def
    by (subst replace_scan.simps, simp add: sample_eval remove_entry_from_slip_map_def,
        subst remove_scan.simps, simp add: sample_eval add_entry_to_slip_map_def,
        subst add_scan.simps, simp add: sample_eval,
        subst add_scan.simps, simp add: sample_eval)
  moreover have "slip_map_inv sample_map"
    unfolding sample_map_def by (rule slip_map_invI [OF sample_map_wf])
  ultimately show ?thesis
    using slip_map_refused_store_loses_old [OF _ _ _ r]
    by (simp add: slip_key_def slip_val_def bytes_of_def)
qed

theorem slip_map_foreach_enumerates_witness:
  "\<exists>es. distinct (map fst es) \<and> (\<forall>k. find_in_slip_map (Some sample_map) k = Some (map_of es k)) \<and>
    (\<forall>cb (c :: nat). slip_map_foreach cb (Some sample_map) c = foreach_list cb es c)"
  using slip_map_foreach_enumerates [of sample_map] slip_map_invI [OF sample_map_wf]
  by (simp add: sample_map_def)

end
