(* ===== verification/C_Strings.thy ===== *)
theory C_Strings
  imports Pincaster_Prelude
begin

text \<open>
  What the program uses of the C library's strings: character classes, strtol and strtoul
  with their end pointer, printf of integers, and comparison without regard to case, all on
  byte lists. A C string is the list of its bytes up to the terminating zero; the number
  parsers get the bytes from the parsing point on.
\<close>

section \<open>Characters\<close>

abbreviation chr :: "char \<Rightarrow> byte" where
  "chr c \<equiv> of_char c"

text \<open>isspace in the C locale: space, and the bytes 9 to 13.\<close>

definition isspace :: "byte \<Rightarrow> bool" where
  "isspace c \<longleftrightarrow> c = 32 \<or> (9 \<le> c \<and> c \<le> 13)"

definition tolower :: "byte \<Rightarrow> byte" where
  "tolower c = (if 65 \<le> c \<and> c \<le> 90 then c + 32 else c)"

text \<open>The value of a character as a digit, in bases up to 36.\<close>

definition digit_val :: "byte \<Rightarrow> nat option" where
  "digit_val c =
     (if 48 \<le> c \<and> c \<le> 57 then Some (unat c - 48)
      else if 97 \<le> c \<and> c \<le> 122 then Some (unat c - 87)
      else if 65 \<le> c \<and> c \<le> 90 then Some (unat c - 55)
      else None)"

text \<open>utils.h, BINVAL_IS_EQUAL_TO_CONST_STRING: same length, and strncasecmp agrees.\<close>

definition binval_is_equal_to :: "bytes \<Rightarrow> string \<Rightarrow> bool" where
  "binval_is_equal_to bv s \<longleftrightarrow>
     length bv = length s \<and> map tolower bv = map tolower (bytes_of s)"

section \<open>Reading integers\<close>

fun parse_digits :: "nat \<Rightarrow> nat \<Rightarrow> bytes \<Rightarrow> nat \<times> bytes" where
  "parse_digits base acc [] = (acc, [])"
| "parse_digits base acc (c # cs) =
     (case digit_val c of
        None \<Rightarrow> (acc, c # cs)
      | Some d \<Rightarrow> if d < base then parse_digits base (acc * base + d) cs else (acc, c # cs))"

definition is_digit :: "nat \<Rightarrow> bytes \<Rightarrow> bool" where
  "is_digit base s =
     (case s of [] \<Rightarrow> False | c # cs \<Rightarrow> (case digit_val c of None \<Rightarrow> False | Some d \<Rightarrow> d < base))"

text \<open>
  The common part of strtol and strtoul: white space, a sign, an optional 0x when the base
  is 16, and the digits. \<open>None\<close> when there is no digit, which the C functions show by
  an end pointer equal to the start.
\<close>

definition scan_integer :: "nat \<Rightarrow> bytes \<Rightarrow> (bool \<times> nat \<times> bytes) option" where
  "scan_integer base s =
     (let s1 = dropWhile isspace s;
          (neg, s2) = (case s1 of
             [] \<Rightarrow> (False, s1)
           | c # cs \<Rightarrow> if c = chr CHR ''-'' then (True, cs)
                       else if c = chr CHR ''+'' then (False, cs) else (False, s1));
          s3 = (case s2 of
             z # x # cs \<Rightarrow>
               if base = 16 \<and> z = chr CHR ''0'' \<and> tolower x = chr CHR ''x'' \<and> is_digit 16 cs
               then cs else s2
           | _ \<Rightarrow> s2)
      in if is_digit base s3
         then (let (n, rest) = parse_digits base 0 s3 in Some (neg, n, rest))
         else None)"

definition LONG_MAX :: int where
  "LONG_MAX = 2 ^ 63 - 1"

text \<open>strtol and strtoul clamp on overflow; strtoul negates modulo the word size.\<close>

definition strtol :: "nat \<Rightarrow> bytes \<Rightarrow> int" where
  "strtol base s =
     (case scan_integer base s of
        None \<Rightarrow> 0
      | Some (neg, n, rest) \<Rightarrow>
          (if neg then max (- int n) (- LONG_MAX - 1) else min (int n) LONG_MAX))"

definition strtoul :: "nat \<Rightarrow> bytes \<Rightarrow> nat" where
  "strtoul base s =
     (case scan_integer base s of
        None \<Rightarrow> 0
      | Some (neg, n, rest) \<Rightarrow>
          (if n > SIZE_MAX then SIZE_MAX
           else if neg then (SIZE_MAX + 1 - n) mod (SIZE_MAX + 1) else n))"

text \<open>The end pointer differs from the start exactly when a number was read.\<close>

definition has_number :: "nat \<Rightarrow> bytes \<Rightarrow> bool" where
  "has_number base s \<longleftrightarrow> scan_integer base s \<noteq> None"

section \<open>Printing integers\<close>

definition digit_char :: "nat \<Rightarrow> byte" where
  "digit_char d = (if d < 10 then word_of_nat (48 + d) else word_of_nat (87 + d))"

text \<open>printf with %x, %zx, %lx, %lu and %u: digits in lower case, no leading zero.\<close>

function digits_of :: "nat \<Rightarrow> nat \<Rightarrow> bytes" where
  "digits_of b n =
     (if n < b \<or> b < 2 then [digit_char n] else digits_of b (n div b) @ [digit_char (n mod b)])"
  by pat_completeness auto

termination
  by (relation "measure snd") auto

declare digits_of.simps [simp del]

abbreviation hex_of :: "nat \<Rightarrow> bytes" where
  "hex_of \<equiv> digits_of 16"

abbreviation dec_of :: "nat \<Rightarrow> bytes" where
  "dec_of \<equiv> digits_of 10"

lemma digit_chars:
  "\<forall>d \<in> set [0..<36]. digit_val (digit_char d) = Some d \<and> \<not> isspace (digit_char d) \<and>
     digit_char d \<noteq> chr CHR ''-'' \<and> digit_char d \<noteq> chr CHR ''+'' \<and>
     (d < 33 \<longrightarrow> tolower (digit_char d) \<noteq> chr CHR ''x'')"
  by code_simp

lemma digit_val_char [simp]: "d < 36 \<Longrightarrow> digit_val (digit_char d) = Some d"
  and digit_char_not_space [simp]: "d < 36 \<Longrightarrow> \<not> isspace (digit_char d)"
  and digit_char_not_sign:
    "d < 36 \<Longrightarrow> digit_char d \<noteq> chr CHR ''-'' \<and> digit_char d \<noteq> chr CHR ''+''"
  and digit_char_not_x: "d < 33 \<Longrightarrow> tolower (digit_char d) \<noteq> chr CHR ''x''"
  using digit_chars by simp_all

lemma digits_of_nonempty [simp]: "digits_of b n \<noteq> []"
  by (subst digits_of.simps) simp

lemma digits_of_hd:
  assumes "2 \<le> b" "b \<le> 36"
  shows "\<exists>d < b. \<exists>ds. digits_of b n = digit_char d # ds"
  using assms
proof (induction b n rule: digits_of.induct)
  case (1 b n)
  show ?case
  proof (cases "n < b")
    case True
    then show ?thesis by (subst digits_of.simps) auto
  next
    case False
    with "1.IH" "1.prems" obtain d ds where "d < b" "digits_of b (n div b) = digit_char d # ds"
      by auto
    then show ?thesis using False "1.prems" by (subst digits_of.simps) auto
  qed
qed

lemma digits_of_digits:
  assumes "2 \<le> b" "b \<le> 36" "c \<in> set (digits_of b n)"
  shows "\<exists>d < b. c = digit_char d"
  using assms
proof (induction b n rule: digits_of.induct)
  case (1 b n)
  show ?case
  proof (cases "n < b")
    case True
    then have "digits_of b n = [digit_char n]" by (subst digits_of.simps) simp
    then show ?thesis using "1.prems" True by auto
  next
    case False
    then have eq: "digits_of b n = digits_of b (n div b) @ [digit_char (n mod b)]"
      using "1.prems" by (subst digits_of.simps) simp
    have m: "n mod b < b" using "1.prems" by simp
    show ?thesis
    proof (cases "c \<in> set (digits_of b (n div b))")
      case True
      then show ?thesis using "1.IH" False "1.prems" by auto
    next
      case False
      then have "c = digit_char (n mod b)" using "1.prems" unfolding eq by simp
      then show ?thesis using m by blast
    qed
  qed
qed

lemma parse_digits_of:
  assumes "2 \<le> b" "b \<le> 36"
  shows "parse_digits b acc (digits_of b n @ rest) =
    parse_digits b (acc * b ^ length (digits_of b n) + n) rest"
  using assms
proof (induction b n arbitrary: acc rest rule: digits_of.induct)
  case (1 b n)
  show ?case
  proof (cases "n < b")
    case True
    then have "digits_of b n = [digit_char n]" by (subst digits_of.simps) simp
    then show ?thesis using True "1.prems" by simp
  next
    case False
    then have eq: "digits_of b n = digits_of b (n div b) @ [digit_char (n mod b)]"
      using "1.prems" by (subst digits_of.simps) simp
    have "n mod b < b" using "1.prems" by simp
    then have m: "n mod b < b" "n mod b < 36" using "1.prems" by linarith+
    let ?k = "length (digits_of b (n div b))"
    have "(acc * b ^ ?k + n div b) * b + n mod b = acc * b ^ length (digits_of b n) + n"
      by (simp add: eq add_mult_distrib mult.assoc)
    then show ?thesis
      using "1.IH" [of acc "digit_char (n mod b) # rest"] False "1.prems" m
      unfolding eq append_assoc by simp
  qed
qed

text \<open>What ends a printed number: the end of the string or a character that is no digit.\<close>

definition ends_number :: "nat \<Rightarrow> bytes \<Rightarrow> bool" where
  "ends_number base s \<longleftrightarrow> \<not> is_digit base s \<and> (case s of [] \<Rightarrow> True | c # cs \<Rightarrow> tolower c \<noteq> chr CHR ''x'')"

lemma parse_digits_end: "ends_number base s \<Longrightarrow> parse_digits base acc s = (acc, s)"
  by (cases s) (auto simp: ends_number_def is_digit_def split: option.splits)

lemma scan_digits_of:
  assumes b: "2 \<le> b" "b \<le> 16" and e: "ends_number b rest"
  shows "scan_integer b (digits_of b n @ rest) = Some (False, n, rest)"
proof -
  let ?s = "digits_of b n @ rest"
  obtain d ds where d: "d < b" "digits_of b n = digit_char d # ds"
    using digits_of_hd [of b n] b by auto
  have s1: "dropWhile isspace ?s = ?s" using d b by simp
  have sign: "digit_char d \<noteq> chr CHR ''-''" "digit_char d \<noteq> chr CHR ''+''"
    using digit_char_not_sign [of d] d b by auto
  have prefix: "tolower x \<noteq> chr CHR ''x''" if "?s = z # x # cs" for z x cs
  proof (cases ds)
    case Nil
    then show ?thesis using that d e by (auto simp: ends_number_def)
  next
    case (Cons y ys)
    then obtain i where i: "i < b" "y = digit_char i"
      using digits_of_digits [of b y n] d b by auto
    have "x = y" using that d Cons by simp
    then show ?thesis using i b digit_char_not_x [of i] by simp
  qed
  have dig: "is_digit b ?s" using d b by (simp add: is_digit_def)
  have s3: "(case ?s of z # x # cs \<Rightarrow>
      if b = 16 \<and> z = chr CHR ''0'' \<and> tolower x = chr CHR ''x'' \<and> is_digit 16 cs then cs else ?s
      | _ \<Rightarrow> ?s) = ?s"
    using prefix by (auto split: list.splits)
  have pd: "parse_digits b 0 ?s = (n, rest)"
    using parse_digits_of [of b 0 n rest] parse_digits_end [OF e] b by simp
  have sgn: "(case ?s of [] \<Rightarrow> (False, ?s)
      | c # cs \<Rightarrow> if c = chr CHR ''-'' then (True, cs)
                  else if c = chr CHR ''+'' then (False, cs) else (False, ?s)) = (False, ?s)"
    using d sign by simp
  show ?thesis
    unfolding scan_integer_def Let_def s1 sgn prod.case s3 using dig pd by simp
qed

lemma digits_of_length: "2 \<le> b \<Longrightarrow> n < b ^ k \<Longrightarrow> 0 < k \<Longrightarrow> length (digits_of b n) \<le> k"
proof (induction b n arbitrary: k rule: digits_of.induct)
  case (1 b n)
  show ?case
  proof (cases "n < b")
    case True
    then show ?thesis using "1.prems" by (subst digits_of.simps) simp
  next
    case False
    then obtain j where k: "k = Suc j" "0 < j" using "1.prems" by (cases k; cases "k - 1") auto
    have "n div b < b ^ j" using "1.prems" k by (simp add: less_mult_imp_div_less mult.commute)
    with "1.IH" [of j] False "1.prems" k have "length (digits_of b (n div b)) \<le> j" by auto
    then show ?thesis using False "1.prems" k by (subst digits_of.simps) simp
  qed
qed

lemma strtol_digits_of:
  "2 \<le> b \<Longrightarrow> b \<le> 16 \<Longrightarrow> ends_number b rest \<Longrightarrow> int n \<le> LONG_MAX \<Longrightarrow>
   strtol b (digits_of b n @ rest) = int n"
  by (simp add: strtol_def scan_digits_of)

lemma strtoul_digits_of:
  "2 \<le> b \<Longrightarrow> b \<le> 16 \<Longrightarrow> ends_number b rest \<Longrightarrow> n \<le> SIZE_MAX \<Longrightarrow>
   strtoul b (digits_of b n @ rest) = n"
  by (simp add: strtoul_def scan_digits_of)

lemma has_number_digits_of:
  "2 \<le> b \<Longrightarrow> b \<le> 16 \<Longrightarrow> ends_number b rest \<Longrightarrow> has_number b (digits_of b n @ rest)"
  by (simp add: has_number_def scan_digits_of)

end
