(* ===== verification/Utils.thy ===== *)
theory Utils
  imports C_Strings
begin

text \<open>
  src/utils.c without its geometry: growing byte buffers (BinVal), skipping white space,
  reads and writes that survive interruptions, the journal's buffered reader and the
  pseudo-random generator. The system calls and the event library's buffers are arguments:
  a list of the answers the calls give, or a function that says how many bytes one call
  moves.
\<close>

unbundle bit_operations_syntax

section \<open>Machine sizes\<close>

text \<open>Arithmetic on size_t, and the cast of a size_t to a signed 64-bit number.\<close>

definition size_add :: "nat \<Rightarrow> nat \<Rightarrow> nat" where
  "size_add m n = (m + n) mod (SIZE_MAX + 1)"

definition size_sub :: "nat \<Rightarrow> nat \<Rightarrow> nat" where
  "size_sub m n = (if n \<le> m then m - n else m + (SIZE_MAX + 1) - n)"

definition off_of :: "nat \<Rightarrow> int" where
  "off_of n = (if int n \<le> LONG_MAX then int n else int n - (int SIZE_MAX + 1))"

lemma size_add_small [simp]: "m + n \<le> SIZE_MAX \<Longrightarrow> size_add m n = m + n"
  by (simp add: size_add_def)

lemma size_sub_le [simp]: "n \<le> m \<Longrightarrow> size_sub m n = m - n"
  by (simp add: size_sub_def)

lemma off_of_small [simp]: "int n \<le> LONG_MAX \<Longrightarrow> off_of n = int n"
  by (simp add: off_of_def)

section \<open>Skipping white space\<close>

fun skip_spaces :: "bytes \<Rightarrow> bytes" where
  "skip_spaces [] = []"
| "skip_spaces (c # cs) = (if isspace c then skip_spaces cs else c # cs)"

lemma skip_spaces_dropWhile: "skip_spaces s = dropWhile isspace s"
  by (induction s) auto

section \<open>Growing buffers\<close>

text \<open>
  A BinVal: the allocated buffer (\<open>None\<close> for NULL), the bytes in use, and max_size, which
  is one less than what was asked from the allocator.
\<close>

record binval =
  bv_val :: "bytes option"
  bv_size :: nat
  bv_max_size :: nat

definition init_binval :: binval where
  "init_binval = \<lparr>bv_val = None, bv_size = 0, bv_max_size = 0\<rparr>"

definition bv_bytes :: "binval \<Rightarrow> bytes" where
  "bv_bytes b = (case bv_val b of None \<Rightarrow> [] | Some v \<Rightarrow> take (bv_size b) v)"

definition realloc_bytes :: "byte \<Rightarrow> bytes option \<Rightarrow> nat \<Rightarrow> bytes" where
  "realloc_bytes junk old n =
     (let v = (case old of None \<Rightarrow> [] | Some v \<Rightarrow> v)
      in take n v @ replicate (n - length v) junk)"

text \<open>The copy at the end of append_to_binval, once there is room.\<close>

definition copy_to_binval :: "binval \<Rightarrow> bytes \<Rightarrow> (int \<times> binval) option" where
  "copy_to_binval b str =
     (let new_size = size_add (bv_size b) (length str)
      in do {
           c_assert (new_size \<le> bv_max_size b);
           v \<leftarrow> bv_val b;
           c_assert (bv_size b + length str < length v);
           Some (0, b\<lparr>bv_val := Some (write_at (write_at v (bv_size b) str) new_size [0]),
                      bv_size := new_size\<rparr>)
         })"

definition append_to_binval :: "alloc \<Rightarrow> binval \<Rightarrow> bytes \<Rightarrow> (int \<times> binval) option" where
  "append_to_binval a b str =
     (let size = length str;
          wanted_max_size = size_add (bv_size b) size
      in if size_sub (bv_max_size b) (bv_size b) < size then
           (if wanted_max_size < bv_size b \<or> wanted_max_size < size then Some (- 1, b)
            else case a of
                   None \<Rightarrow> Some (- 1, b)
                 | Some junk \<Rightarrow>
                     copy_to_binval
                       (b\<lparr>bv_val := Some (realloc_bytes junk (bv_val b) (size_add wanted_max_size 1)),
                          bv_max_size := wanted_max_size\<rparr>) str)
         else copy_to_binval b str)"

text \<open>The state of a buffer between operations.\<close>

definition bv_ok :: "binval \<Rightarrow> bool" where
  "bv_ok b \<longleftrightarrow> bv_size b \<le> bv_max_size b \<and> bv_max_size b < SIZE_MAX \<and>
     (case bv_val b of None \<Rightarrow> bv_max_size b = 0 | Some v \<Rightarrow> bv_max_size b < length v)"

lemma init_binval_ok: "bv_ok init_binval" "bv_bytes init_binval = []"
  by (simp_all add: bv_ok_def init_binval_def bv_bytes_def SIZE_MAX_def)

lemma write_at_take: "p + length xs \<le> length m \<Longrightarrow> take (p + length xs) (write_at m p xs) = take p m @ xs"
  by (simp add: write_at_def)

lemma take_write_at: "n \<le> p \<Longrightarrow> p \<le> length m \<Longrightarrow> take n (write_at m p xs) = take n m"
  by (simp add: write_at_def min_def)

text \<open>
  An append either adds the bytes at the end or, when the allocator refuses, returns -1 and
  changes nothing. Appending nothing to a NULL buffer would write through the null pointer.
\<close>

lemma append_to_binval_spec:
  assumes ok: "bv_ok b" and str: "str \<noteq> [] \<or> bv_val b \<noteq> None"
    and size: "bv_size b + length str < SIZE_MAX"
  shows "(\<exists>b'. append_to_binval a b str = Some (0, b') \<and> bv_ok b' \<and>
      bv_bytes b' = bv_bytes b @ str \<and> bv_val b' \<noteq> None \<and> bv_size b' = bv_size b + length str) \<or>
    append_to_binval a b str = Some (- 1, b) \<and> a = None"
proof -
  let ?s = "length str" and ?w = "bv_size b + length str"
  have w: "size_add (bv_size b) ?s = ?w" using size by simp
  have fin: "\<exists>c'. copy_to_binval c str = Some (0, c') \<and> bv_ok c' \<and>
      bv_bytes c' = bv_bytes b @ str \<and> bv_val c' \<noteq> None \<and> bv_size c' = ?w"
    if c: "bv_val c = Some v" "bv_size c = bv_size b" "?w \<le> bv_max_size c" "bv_max_size c < length v"
      "bv_max_size c < SIZE_MAX" "take (bv_size b) v = bv_bytes b" for c v
  proof -
    have "length (write_at (write_at v (bv_size b) str) ?w [0]) = length v"
      using c by (simp add: write_at_length)
    moreover have "take ?w (write_at (write_at v (bv_size b) str) ?w [0]) = bv_bytes b @ str"
      using c by (simp add: take_write_at write_at_length write_at_take)
    ultimately show ?thesis
      using c w by (simp add: bv_ok_def bv_bytes_def copy_to_binval_def Let_def)
  qed
  show ?thesis
  proof (cases "bv_max_size b - bv_size b < ?s")
    case grow: True
    show ?thesis
    proof (cases a)
      case None
      then show ?thesis using ok grow size by (simp add: append_to_binval_def bv_ok_def)
    next
      case (Some junk)
      define v where "v = realloc_bytes junk (bv_val b) (?w + 1)"
      have v: "length v = ?w + 1" "take (bv_size b) v = bv_bytes b"
        using ok unfolding v_def
        by (auto simp: realloc_bytes_def bv_bytes_def bv_ok_def Let_def split: option.splits)
      define c where "c = b\<lparr>bv_val := Some v, bv_max_size := ?w\<rparr>"
      have "append_to_binval a b str = copy_to_binval c str"
        using ok grow size Some by (simp add: append_to_binval_def bv_ok_def c_def v_def Let_def)
      moreover have "bv_val c = Some v" "bv_size c = bv_size b" "bv_max_size c = ?w"
        by (simp_all add: c_def)
      ultimately show ?thesis using fin [of c v] v size by simp
    qed
  next
    case fits: False
    have "bv_size b \<le> bv_max_size b" using ok by (simp add: bv_ok_def)
    with fits have le: "?w \<le> bv_max_size b" by linarith
    with ok str obtain v where v: "bv_val b = Some v" "bv_max_size b < length v"
      by (auto simp: bv_ok_def split: option.splits)
    have "append_to_binval a b str = copy_to_binval b str"
      using ok fits by (simp add: append_to_binval_def bv_ok_def Let_def)
    then show ?thesis using fin [OF v(1) refl le v(2)] ok v by (simp add: bv_ok_def bv_bytes_def)
  qed
qed

section \<open>Reads and writes that survive interruptions\<close>

datatype errno = EINTR | EAGAIN | EOTHER

text \<open>
  safe_write against the answers of the system: what each write returns, errno after it, and
  whether the poll that may follow sees the descriptor ready in time. \<open>None\<close> when the answers
  run out, that is while the call still waits. The second component is what was written.
\<close>

fun safe_write :: "(int \<times> errno \<times> bool) list \<Rightarrow> bytes \<Rightarrow> bytes \<Rightarrow> (int \<times> bytes) option" where
  "safe_write as [] out = Some (0, out)"
| "safe_write [] (c # cs) out = None"
| "safe_write ((written, errno, ready) # as) (c # cs) out =
     (if written \<le> 0 then
        (if errno = EAGAIN then
           (if \<not> ready then Some (- 1, out) else safe_write as (c # cs) out)
         else if errno \<noteq> EINTR then Some (- 1, out)
         else safe_write as (c # cs) out)
      else safe_write as (drop (nat written) (c # cs)) (out @ take (nat written) (c # cs)))"

lemma safe_write_prefix:
  "safe_write as buf out = Some (r, out') \<Longrightarrow>
   (\<exists>rest. out @ buf = out' @ rest \<and> (r = 0 \<and> rest = [] \<or> r = - 1 \<and> rest \<noteq> []))"
proof (induction as buf out rule: safe_write.induct)
  case (3 written errno ready as c cs out)
  then show ?case by (fastforce split: if_splits)
qed auto

text \<open>safe_read: every answer is what read returns, with errno, and the bytes it delivers.\<close>

fun safe_read :: "(int \<times> errno \<times> bytes) list \<Rightarrow> nat \<Rightarrow> bytes \<Rightarrow> (int \<times> bytes) option" where
  "safe_read [] count buf = None"
| "safe_read ((readnb, errno, data) # as) count buf =
     (if readnb < 0 \<and> errno = EINTR then safe_read as count buf
      else if readnb < 0 then Some (readnb, buf)
      else if readnb = 0 then Some (int (length buf), buf)
      else (let count' = count - nat readnb; buf' = buf @ take (nat readnb) data
            in if count' > 0 then safe_read as count' buf' else Some (int (length buf'), buf')))"

section \<open>The buffered reader of the journal\<close>

text \<open>
  A BufferedReadContext. The file is given by the bytes from the descriptor's position on.
  The event library's evbuffer_read is the argument \<open>ev_read\<close>: how many bytes one call
  moves, given how many are asked for (as an int) and how many the file still has.
\<close>

record buffered_read_context =
  br_buf :: bytes
  br_file :: bytes
  br_offset :: int
  br_total_size :: int
  br_buffer_size :: nat

definition DEFAULT_BUFFERED_READ_BUFFER_SIZE :: nat where
  "DEFAULT_BUFFERED_READ_BUFFER_SIZE = 65536"

definition init_buffered_read :: "bytes \<Rightarrow> buffered_read_context" where
  "init_buffered_read contents =
     \<lparr>br_buf = [], br_file = contents, br_offset = 0, br_total_size = int (length contents),
      br_buffer_size = DEFAULT_BUFFERED_READ_BUFFER_SIZE\<rparr>"

text \<open>
  The result is the returned size, the bytes that were really copied to out_buf, and the
  context. Note the casts: to_read and length are size_t, the comparisons are on off_t.
\<close>

definition br_remove :: "buffered_read_context \<Rightarrow> nat \<Rightarrow> (int \<times> bytes \<times> buffered_read_context) option" where
  "br_remove ctx len =
     (if br_buf ctx = [] \<or> len = 0 then Some (- 1, [], ctx)
      else Some (off_of len, take len (br_buf ctx), ctx\<lparr>br_buf := drop len (br_buf ctx)\<rparr>))"

definition buffered_read ::
  "(int \<Rightarrow> nat \<Rightarrow> int) \<Rightarrow> buffered_read_context \<Rightarrow> nat \<Rightarrow> (int \<times> bytes \<times> buffered_read_context) option" where
  "buffered_read ev_read ctx len =
     (let available_in_buf = length (br_buf ctx)
      in if available_in_buf < len then
           (if br_offset ctx \<ge> br_total_size ctx then Some (0, [], ctx)
            else
              (let to_read = len - available_in_buf;
                   remaining = br_total_size ctx - br_offset ctx
               in if off_of to_read > remaining then Some (0, [], ctx)
                  else
                    (let to_read' =
                       (if remaining - off_of to_read \<ge> int (br_buffer_size ctx)
                        then size_add to_read (br_buffer_size ctx) else to_read);
                         readnb = ev_read (off_of to_read') (length (br_file ctx))
                     in if readnb \<le> 0 then Some (readnb, [], ctx)
                        else
                          (let ctx' = ctx\<lparr>br_buf := br_buf ctx @ take (nat readnb) (br_file ctx),
                                          br_file := drop (nat readnb) (br_file ctx),
                                          br_offset := br_offset ctx + readnb\<rparr>
                           in do {
                                c_assert (br_offset ctx' \<le> br_total_size ctx');
                                br_remove ctx' len
                              }))))
         else br_remove ctx len)"

text \<open>
  What the documentation of evbuffer_read promises: it moves at most what is asked for and
  what there is, and at least one byte when both are positive; a limit \<open>R\<close> per call is
  what it moves when more is asked for (4096 in the version the program links with).
\<close>

definition reads_up_to :: "nat \<Rightarrow> (int \<Rightarrow> nat \<Rightarrow> int) \<Rightarrow> bool" where
  "reads_up_to R ev_read \<longleftrightarrow>
     (\<forall>n avail. n > 0 \<longrightarrow>
        ev_read n avail \<le> n \<and> ev_read n avail \<le> int avail \<and>
        ev_read n avail \<ge> min (min n (int R)) (int avail))"

text \<open>The bytes that a reader still has to deliver.\<close>

definition br_rest :: "buffered_read_context \<Rightarrow> bytes" where
  "br_rest ctx = br_buf ctx @ br_file ctx"

definition br_ok :: "buffered_read_context \<Rightarrow> bool" where
  "br_ok ctx \<longleftrightarrow> br_total_size ctx - br_offset ctx = int (length (br_file ctx)) \<and>
     br_total_size ctx \<le> LONG_MAX - 65536 \<and> 0 \<le> br_offset ctx \<and> br_buffer_size ctx = 65536"

lemma br_ok_init: "int (length f) \<le> LONG_MAX - 65536 \<Longrightarrow> br_ok (init_buffered_read f)"
  by (simp add: br_ok_def init_buffered_read_def DEFAULT_BUFFERED_READ_BUFFER_SIZE_def)

lemma br_rest_init [simp]: "br_rest (init_buffered_read f) = f"
  by (simp add: br_rest_def init_buffered_read_def)

lemma LONG_MAX_SIZE: "int n \<le> LONG_MAX \<Longrightarrow> n \<le> SIZE_MAX"
  by (simp add: LONG_MAX_def SIZE_MAX_def)

lemma buffered_read_full:
  assumes ev: "reads_up_to R ev_read" and ok: "br_ok ctx" and n: "0 < n" "n \<le> R" "n \<le> length (br_rest ctx)"
    and nmax: "int n \<le> LONG_MAX - 65536"
  shows "\<exists>ctx'. buffered_read ev_read ctx n = Some (int n, take n (br_rest ctx), ctx') \<and>
    br_ok ctx' \<and> br_rest ctx' = drop n (br_rest ctx)"
proof (cases "length (br_buf ctx) < n")
  case False
  then show ?thesis using n ok nmax
    by (auto simp: buffered_read_def Let_def br_rest_def br_ok_def br_remove_def)
next
  case True
  let ?t = "n - length (br_buf ctx)"
  have avail: "?t \<le> length (br_file ctx)" "br_file ctx \<noteq> []"
    using True n by (auto simp: br_rest_def)
  have t: "off_of ?t = int ?t" using nmax by (simp add: LONG_MAX_def off_of_def)
  define t' where "t' = (if int (length (br_file ctx)) - int ?t \<ge> 65536 then size_add ?t 65536 else ?t)"
  have sz: "size_add ?t 65536 = ?t + 65536"
    using nmax by (intro size_add_small LONG_MAX_SIZE) simp
  have t': "off_of t' = int t'" "?t \<le> t'" "0 < t'" "t' \<le> length (br_file ctx)"
    using nmax True avail sz by (auto simp: t'_def off_of_def LONG_MAX_def)
  let ?r = "ev_read (int t') (length (br_file ctx))"
  have r: "?r \<le> int (length (br_file ctx))" "int ?t \<le> ?r" "0 < ?r"
  proof -
    have "?r \<ge> min (min (int t') (int R)) (int (length (br_file ctx)))"
      "?r \<le> int (length (br_file ctx))"
      using ev t'(3) unfolding reads_up_to_def by (metis of_nat_0_less_iff)+
    moreover have "int ?t \<le> min (min (int t') (int R)) (int (length (br_file ctx)))"
      using t' n avail by auto
    moreover have "0 < int ?t" using True by simp
    ultimately show "?r \<le> int (length (br_file ctx))" "int ?t \<le> ?r" "0 < ?r" by linarith+
  qed
  define c where "c = ctx\<lparr>br_buf := br_buf ctx @ take (nat ?r) (br_file ctx),
    br_file := drop (nat ?r) (br_file ctx), br_offset := br_offset ctx + ?r\<rparr>"
  have c: "br_ok c" "br_rest c = br_rest ctx" "n \<le> length (br_buf c)" "br_offset c \<le> br_total_size c"
    using ok r True avail by (auto simp: br_ok_def c_def br_rest_def)
  have rem: "br_total_size ctx - br_offset ctx = int (length (br_file ctx))"
    using ok by (simp add: br_ok_def)
  moreover have "0 < int (length (br_file ctx))" using avail by simp
  ultimately have pos: "br_offset ctx < br_total_size ctx" by linarith
  have le: "\<not> off_of ?t > br_total_size ctx - br_offset ctx" using t avail rem by simp
  have t'_eq: "(if br_total_size ctx - br_offset ctx - off_of ?t \<ge> int (br_buffer_size ctx)
      then size_add ?t (br_buffer_size ctx) else ?t) = t'"
    using t rem ok by (simp add: t'_def br_ok_def)
  have "buffered_read ev_read ctx n = br_remove c n"
    using True pos le r(3) c(4) t'(1)
    unfolding buffered_read_def Let_def t'_eq t'(1) c_def by simp
  moreover have "br_buf c \<noteq> []" using c(3) n by auto
  ultimately have "buffered_read ev_read ctx n =
      Some (int n, take n (br_buf c), c\<lparr>br_buf := drop n (br_buf c)\<rparr>)"
    using n nmax by (simp add: br_remove_def)
  moreover have "take n (br_buf c) = take n (br_rest ctx)" "drop n (br_buf c) @ br_file c = drop n (br_rest ctx)"
    unfolding c(2) [symmetric] using c(3) by (simp_all add: br_rest_def)
  ultimately show ?thesis using c nmax by (auto simp: br_ok_def br_rest_def)
qed

lemma buffered_read_eof:
  "br_ok ctx \<Longrightarrow> br_rest ctx = [] \<Longrightarrow> 0 < n \<Longrightarrow> buffered_read ev_read ctx n = Some (0, [], ctx)"
  by (simp add: buffered_read_def br_rest_def br_ok_def)

section \<open>The pseudo-random generator\<close>

definition pm_rand :: "32 word \<Rightarrow> 32 word" where
  "pm_rand seed =
     (let lo = 16807 * (seed AND 0xffff);
          hi = 16807 * drop_bit 16 seed;
          lo1 = lo + push_bit 16 (hi AND 0x7fff);
          lo2 = lo1 + drop_bit 15 hi
      in if lo2 > 0x7fffffff then lo2 - 0x7fffffff else lo2)"

lemma unat_and_mask:
  "unat (x AND 0xffff) = unat x mod 65536" "unat (x AND 0x7fff) = unat x mod 32768" for x :: "32 word"
proof -
  have "x AND mask 16 = take_bit 16 x" "x AND mask 15 = take_bit 15 x"
    by (simp_all add: take_bit_eq_mask)
  then show "unat (x AND 0xffff) = unat x mod 65536" "unat (x AND 0x7fff) = unat x mod 32768"
    by (simp_all add: mask_eq_exp_minus_1 unsigned_take_bit_eq take_bit_nat_def)
qed

text \<open>The sum of the shifted parts, in natural numbers, and that nothing wraps around.\<close>

lemma pm_rand_unat:
  assumes "unat seed \<le> 2147483647"
  defines "s \<equiv> unat seed"
  defines "S \<equiv> 16807 * (s mod 65536) + (16807 * (s div 65536)) mod 32768 * 65536 +
    (16807 * (s div 65536)) div 32768"
  shows "unat (pm_rand seed) = (if S > 2147483647 then S - 2147483647 else S)"
proof -
  have l: "s mod 65536 < 65536" and h: "s div 65536 < 32768" using assms by simp_all
  have lo: "unat (16807 * (seed AND 0xffff)) = 16807 * (s mod 65536)"
    using l by (simp add: unat_mult_lem [THEN iffD1] unat_and_mask s_def [symmetric])
  have d: "unat (drop_bit 16 seed) = s div 65536" by (simp add: unat_drop_bit_eq drop_bit_nat_def s_def)
  have hi: "unat (16807 * drop_bit 16 seed) = 16807 * (s div 65536)"
    using h by (simp add: unat_mult_lem [THEN iffD1] d)
  define H where "H = 16807 * drop_bit 16 seed"
  have pb: "unat (push_bit 16 (H AND 0x7fff)) = unat H mod 32768 * 65536"
  proof -
    have "unat (H AND 0x7fff) < 32768" by (simp add: unat_and_mask)
    then show ?thesis
      by (simp add: push_bit_eq_mult unat_mult_lem [THEN iffD1] unat_and_mask)
  qed
  have db: "unat (drop_bit 15 H) = unat H div 32768" by (simp add: unat_drop_bit_eq drop_bit_nat_def)
  have Hb: "unat H \<le> 16807 * 32767" using hi h by (simp add: H_def)
  have S: "S = 16807 * (s mod 65536) + unat H mod 32768 * 65536 + unat H div 32768"
    using hi by (simp add: S_def H_def)
  have b: "unat H mod 32768 * 65536 \<le> 32767 * 65536" "unat H div 32768 \<le> 16806"
    "16807 * (s mod 65536) \<le> 16807 * 65535"
    using Hb l by (simp_all add: less_Suc_eq_le [symmetric])
  have s1: "unat (16807 * (seed AND 0xffff) + push_bit 16 (H AND 0x7fff)) =
      16807 * (s mod 65536) + unat H mod 32768 * 65536"
    using b lo pb by (subst unat_add_lem [THEN iffD1]) simp_all
  have s2: "unat (16807 * (seed AND 0xffff) + push_bit 16 (H AND 0x7fff) + drop_bit 15 H) = S"
    using b s1 db S by (subst unat_add_lem [THEN iffD1]) simp_all
  show ?thesis
    using s2 by (simp add: pm_rand_def Let_def H_def [symmetric] word_less_nat_alt unat_sub word_le_nat_alt)
qed

section \<open>Properties\<close>

text \<open>
  The journal reader trusts the number of bytes it asked for. When one call of evbuffer_read
  moves at most R bytes, asking for more than R bytes of a longer file returns the full length
  as if all had been read, but only R bytes reach the caller's buffer.
\<close>

theorem buffered_read_reports_short_reads_as_complete:
  assumes "0 < R" "R < n" "n + 65536 \<le> length contents" "length contents < 2 ^ 62"
    and "\<forall>n avail. ev_read n avail = min n (int (min R avail))"
  shows "\<exists>ctx'. buffered_read ev_read (init_buffered_read contents) n =
    Some (int n, take R contents, ctx')"
proof -
  have "size_add n 65536 = n + 65536" using assms by (intro size_add_small) (simp add: SIZE_MAX_def)
  moreover have "contents \<noteq> []" using assms(3) by auto
  ultimately show ?thesis
    using assms
    by (simp add: buffered_read_def init_buffered_read_def Let_def off_of_def LONG_MAX_def
        DEFAULT_BUFFERED_READ_BUFFER_SIZE_def br_remove_def)
qed

theorem buffered_read_reports_short_reads_as_complete_witness:
  "\<exists>ctx'. buffered_read (\<lambda>n avail. min n (int (min 4096 avail)))
      (init_buffered_read (replicate 70000 7)) 4100 = Some (4100, take 4096 (replicate 70000 7), ctx')"
  using buffered_read_reports_short_reads_as_complete
    [of 4096 4100 "replicate 70000 7" "\<lambda>n avail. min n (int (min 4096 avail))"] by simp

text \<open>
  The generator computes the multiplicative congruential sequence 16807 * seed modulo
  2^31 - 1 without any 32-bit intermediate wrapping around, and never leaves the range from 1 to
  2^31 - 2, so it never gets stuck at zero.
\<close>

theorem pm_rand_is_lehmer:
  assumes "0 < unat seed" "unat seed < 2147483647"
  shows "unat (pm_rand seed) = 16807 * unat seed mod 2147483647 \<and>
    0 < unat (pm_rand seed) \<and> unat (pm_rand seed) < 2147483647"
proof -
  define s where "s = unat seed"
  define H where "H = 16807 * (s div 65536)"
  define S where "S = 16807 * (s mod 65536) + H mod 32768 * 65536 + H div 32768"
  have "16807 * s = 16807 * (s mod 65536) + H * 65536"
    unfolding H_def using div_mult_mod_eq [of s 65536] by linarith
  then have eq: "16807 * s = S + 2147483647 * (H div 32768)"
    unfolding S_def using div_mult_mod_eq [of H 32768] by linarith
  then have mod: "16807 * s mod 2147483647 = S mod 2147483647" by simp
  have "H \<le> 16807 * 32767" using assms by (simp add: H_def s_def)
  then have b: "S < 2 * 2147483647"
  proof -
    have "H div 32768 \<le> 16807 * 32767 div 32768" using \<open>H \<le> _\<close> by (rule div_le_mono)
    moreover have "H mod 32768 \<le> 32767" "s mod 65536 \<le> 65535"
      by (simp_all add: less_Suc_eq_le [symmetric])
    ultimately show ?thesis unfolding S_def by simp
  qed
  have "coprime (2147483647 :: nat) 16807"
    by (simp add: coprime_iff_gcd_eq_1 gcd_non_0_nat)
  moreover have "\<not> 2147483647 dvd s" using assms by (auto simp: s_def dest: dvd_imp_le)
  ultimately have nz: "\<not> 2147483647 dvd 16807 * s"
    by (simp add: coprime_dvd_mult_right_iff)
  then have "S mod 2147483647 \<noteq> 0" using mod by (simp add: dvd_eq_mod_eq_0)
  moreover have "S mod 2147483647 = (if S > 2147483647 then S - 2147483647 else S)"
    using b calculation by (cases "S = 2147483647") (auto simp: le_mod_geq)
  moreover have "unat (pm_rand seed) = (if S > 2147483647 then S - 2147483647 else S)"
    using pm_rand_unat [of seed] assms by (simp add: S_def H_def s_def)
  ultimately show ?thesis using mod by (simp add: s_def)
qed

theorem pm_rand_is_lehmer_witness:
  "unat (pm_rand 42) = 705894 \<and> 0 < unat (pm_rand 42) \<and> unat (pm_rand 42) < 2147483647"
  using pm_rand_is_lehmer [of 42] by simp

text \<open>
  Whatever the system answers to the writes, safe_write never reorders, repeats or skips
  a byte: what went out is a prefix of the buffer, all of it exactly when the result is 0.
\<close>

theorem safe_write_all_or_error:
  assumes "safe_write as buf [] = Some (r, out)"
  shows "\<exists>rest. buf = out @ rest \<and> (r = 0 \<and> rest = [] \<or> r = - 1 \<and> rest \<noteq> [])"
  using safe_write_prefix [OF assms] by simp

theorem safe_write_all_or_error_witness:
  "\<exists>rest. [1, 2, 3 :: byte] = [1, 2] @ rest \<and> (-1 = (0 :: int) \<and> rest = [] \<or> - 1 = (- 1 :: int) \<and> rest \<noteq> [])"
  by (rule safe_write_all_or_error [of "[(-1, EINTR, True), (2, EOTHER, True), (-1, EAGAIN, False)]"]) simp

end
