(* ===== verification/Query_Parser.thy ===== *)
theory Query_Parser
  imports Utils
begin

text \<open>
  src/query_parser.c: decoding of the application/x-www-form-urlencoded bodies of PUT
  requests, and the percent encoding used when the journal is rebuilt. A C string is the
  list of its bytes without the terminating zero, so reading the zero is reaching the end
  of the list.
\<close>

section \<open>Decoding\<close>

text \<open>
  query_decode: \<open>n\<close> bytes have been produced so far. The two bytes after a % go through
  strtol in base 16, with everything strtol accepts (blanks, a sign), and the result is cut
  to a char. A % with fewer than two bytes after it ends the decoding.
\<close>

fun decode_scan :: "nat \<Rightarrow> nat \<Rightarrow> bytes \<Rightarrow> bytes" where
  "decode_scan max_decoded_size n [] = []"
| "decode_scan max_decoded_size n (c # cs) =
     (if n \<ge> max_decoded_size then []
      else if c = chr CHR ''+'' then chr CHR '' '' # decode_scan max_decoded_size (n + 1) cs
      else if c = chr CHR ''%'' then
        (case cs of
           a # b # cs' \<Rightarrow> word_of_int (strtol 16 [a, b]) # decode_scan max_decoded_size (n + 1) cs'
         | _ \<Rightarrow> [])
      else c # decode_scan max_decoded_size (n + 1) cs)"

definition query_decode :: "bytes \<Rightarrow> nat \<Rightarrow> bytes option" where
  "query_decode encoded max_decoded_size =
     do {
       c_assert (max_decoded_size \<ge> length encoded);
       Some (decode_scan max_decoded_size 0 encoded)
     }"

text \<open>
  The two halves of query_parse_part that fill the key and the value: the buffer grows when
  max_size is not larger than the encoded text (\<open>None\<close> inside: realloc failed), the
  decoded bytes are written to its start and a zero after them.
\<close>

definition grow_binval :: "alloc \<Rightarrow> binval \<Rightarrow> nat \<Rightarrow> binval option" where
  "grow_binval a b esize =
     (if bv_max_size b \<le> esize then
        (case a of
           None \<Rightarrow> None
         | Some junk \<Rightarrow>
             Some (b\<lparr>bv_val := Some (realloc_bytes junk (bv_val b) (size_add esize 1)),
                     bv_max_size := size_add esize 1\<rparr>))
      else Some b)"

definition decode_into :: "binval \<Rightarrow> bytes \<Rightarrow> binval option" where
  "decode_into b encoded =
     do {
       decoded \<leftarrow> query_decode encoded (bv_max_size b);
       v \<leftarrow> bv_val b;
       c_assert (length decoded < length v);
       Some (b\<lparr>bv_val := Some (write_at (write_at v 0 decoded) (length decoded) [0]),
               bv_size := length decoded\<rparr>)
     }"

definition until :: "(byte \<Rightarrow> bool) \<Rightarrow> bytes \<Rightarrow> bytes" where
  "until P = takeWhile (\<lambda>c. \<not> P c)"

abbreviation eq_sign :: byte where "eq_sign \<equiv> chr CHR ''=''"
abbreviation ampersand :: byte where "ampersand \<equiv> chr CHR ''&''"

text \<open>
  query_parse_part: the return code, the key, the value and what follows the part
  (\<open>None\<close> for NULL). \<open>a1\<close> and \<open>a2\<close> are the allocator's answers for the two buffers.
\<close>

definition query_parse_part ::
  "alloc \<Rightarrow> alloc \<Rightarrow> bytes \<Rightarrow> binval \<Rightarrow> binval \<Rightarrow> (int \<times> binval \<times> binval \<times> bytes option) option" where
  "query_parse_part a1 a2 part key val =
     (if eq_sign \<notin> set part then Some (- 1, key, val, None)
      else
        (let ekey = until (\<lambda>c. c = eq_sign) part;
             pnt = drop (length ekey + 1) part;
             evalue = until (\<lambda>c. c = ampersand) pnt;
             pnt' = drop (length evalue) pnt
         in case grow_binval a1 key (length ekey) of
              None \<Rightarrow> Some (- 1, key, val, None)
            | Some key1 \<Rightarrow>
                (if ekey = [] \<or> hd ekey = ampersand then Some (- 1, key1, val, None)
                 else
                   do {
                     key2 \<leftarrow> decode_into key1 ekey;
                     (case grow_binval a2 val (length evalue) of
                        None \<Rightarrow> Some (- 1, key2, val, None)
                      | Some val1 \<Rightarrow>
                          do {
                            val2 \<leftarrow> decode_into val1 evalue;
                            Some (0, key2, val2, (case pnt' of [] \<Rightarrow> None | c # cs \<Rightarrow> Some cs))
                          })
                   })))"

text \<open>
  query_parse: the callback gets the decoded key and value, and a non-zero result stops the
  loop with code 1. \<open>al\<close> gives the allocator's answers, part by part.
\<close>

lemma drop_Cons_shorter: "drop n xs = c # ys \<Longrightarrow> length ys < length xs"
  by (metis Suc_le_lessD diff_le_self length_Cons length_drop)

lemma query_parse_part_shorter:
  "query_parse_part a1 a2 part key val = Some (r, k, v, Some nxt) \<Longrightarrow> length nxt < length part"
  by (auto simp: query_parse_part_def Let_def bind_eq_Some_conv dest: drop_Cons_shorter
      split: if_splits option.splits list.splits)

function query_parse_loop ::
  "(nat \<Rightarrow> alloc \<times> alloc) \<Rightarrow> ('c \<Rightarrow> bytes \<Rightarrow> bytes \<Rightarrow> (int \<times> 'c) option) option \<Rightarrow>
   nat \<Rightarrow> bytes \<Rightarrow> binval \<Rightarrow> binval \<Rightarrow> 'c \<Rightarrow> (int \<times> 'c) option" where
  "query_parse_loop al cb i part key val c =
     (case query_parse_part (fst (al i)) (snd (al i)) part key val of
        None \<Rightarrow> None
      | Some (r, key', val', nxt) \<Rightarrow>
          (if r \<noteq> 0 then Some (- 1, c)
           else
             (case (case cb of None \<Rightarrow> Some (0, c) | Some f \<Rightarrow> f c (bv_bytes key') (bv_bytes val')) of
                None \<Rightarrow> None
              | Some (r', c') \<Rightarrow>
                  (if r' \<noteq> 0 then Some (1, c')
                   else case nxt of
                          None \<Rightarrow> Some (0, c')
                        | Some part' \<Rightarrow> query_parse_loop al cb (i + 1) part' key' val' c'))))"
  by pat_completeness auto

termination
  by (relation "measure (\<lambda>(al, cb, i, part, key, val, c). length part)")
    (auto dest: query_parse_part_shorter)

declare query_parse_loop.simps [simp del]

definition query_parse ::
  "(nat \<Rightarrow> alloc \<times> alloc) \<Rightarrow> ('c \<Rightarrow> bytes \<Rightarrow> bytes \<Rightarrow> (int \<times> 'c) option) option \<Rightarrow>
   bytes \<Rightarrow> 'c \<Rightarrow> (int \<times> 'c) option" where
  "query_parse al cb query c =
     (if query = [] then Some (0, c)
      else query_parse_loop al cb 0 query init_binval init_binval c)"

section \<open>Encoding\<close>

text \<open>The table of the characters that need no escape, row by row of sixteen.\<close>

definition uri_chars :: "nat list" where
  "uri_chars =
     [0, 0, 0, 0, 0, 0, 0, 0, 0, 0, 0, 0, 0, 0, 0, 0,
      0, 0, 0, 0, 0, 0, 0, 0, 0, 0, 0, 0, 0, 0, 0, 0,
      0, 1, 0, 0, 1, 0, 0, 1, 1, 1, 1, 1, 1, 1, 1, 1,
      1, 1, 1, 1, 1, 1, 1, 1, 1, 1, 1, 0, 0, 1, 0, 0,
      1, 1, 1, 1, 1, 1, 1, 1, 1, 1, 1, 1, 1, 1, 1, 1,
      1, 1, 1, 1, 1, 1, 1, 1, 1, 1, 1, 0, 0, 0, 0, 1,
      0, 1, 1, 1, 1, 1, 1, 1, 1, 1, 1, 1, 1, 1, 1, 1,
      1, 1, 1, 1, 1, 1, 1, 1, 1, 1, 1, 0, 0, 0, 1, 0]
     @ replicate 128 0"

text \<open>snprintf with %%%02x.\<close>

definition hexbuf :: "byte \<Rightarrow> bytes" where
  "hexbuf c = [chr CHR ''%'', digit_char (unat c div 16), digit_char (unat c mod 16)]"

definition encode_char :: "byte \<Rightarrow> bytes" where
  "encode_char c = (if uri_chars ! unat c \<noteq> 0 then [c] else hexbuf c)"

text \<open>
  The loop of uri_encode_binval ignores the result of append_to_binval: a character for which
  the buffer cannot grow is left out. \<open>al i\<close> is the allocator's answer at the i-th character.
\<close>

fun encode_loop :: "(nat \<Rightarrow> alloc) \<Rightarrow> nat \<Rightarrow> bytes \<Rightarrow> binval \<Rightarrow> binval option" where
  "encode_loop al i [] e = Some e"
| "encode_loop al i (c # cs) e =
     do {
       (r, e') \<leftarrow> append_to_binval (al i) e (encode_char c);
       encode_loop al (i + 1) cs e'
     }"

definition uri_encode_binval :: "alloc \<Rightarrow> (nat \<Rightarrow> alloc) \<Rightarrow> binval \<Rightarrow> bytes \<Rightarrow> (int \<times> binval) option" where
  "uri_encode_binval a al evalue val =
     (let e0 = evalue\<lparr>bv_size := 0\<rparr>
      in if length val > bv_max_size e0 \<or> bv_val e0 = None then
           (let wanted_max_size = (length val * 3 mod (SIZE_MAX + 1)) div 2
            in do {
                 c_assert (wanted_max_size \<ge> length val);
                 c_assert (wanted_max_size > 0);
                 (case a of
                    None \<Rightarrow> Some (- 1, e0)
                  | Some junk \<Rightarrow>
                      do {
                        e \<leftarrow> encode_loop al 0 val
                          (e0\<lparr>bv_val := Some (realloc_bytes junk (bv_val e0) (size_add wanted_max_size 1)),
                              bv_max_size := wanted_max_size\<rparr>);
                        Some (0, e)
                      })
               })
         else
           do {
             e \<leftarrow> encode_loop al 0 val e0;
             Some (0, e)
           })"

section \<open>A reference parser\<close>

text \<open>
  The same parser as functions on lists: the decoding without a capacity, the list of the pairs
  before the first malformed part and whether the whole query was well formed, and the
  callback run over these pairs.
\<close>

fun url_decode :: "bytes \<Rightarrow> bytes" where
  "url_decode [] = []"
| "url_decode (c # cs) =
     (if c = chr CHR ''+'' then chr CHR '' '' # url_decode cs
      else if c = chr CHR ''%'' then
        (case cs of
           a # b # cs' \<Rightarrow> word_of_int (strtol 16 [a, b]) # url_decode cs'
         | _ \<Rightarrow> [])
      else c # url_decode cs)"

function ref_parse :: "bytes \<Rightarrow> (bytes \<times> bytes) list \<times> bool" where
  "ref_parse part =
     (if eq_sign \<notin> set part then ([], False)
      else
        (let ekey = until (\<lambda>c. c = eq_sign) part;
             pnt = drop (length ekey + 1) part;
             evalue = until (\<lambda>c. c = ampersand) pnt
         in if ekey = [] \<or> hd ekey = ampersand then ([], False)
            else (case drop (length evalue) pnt of
                    [] \<Rightarrow> ([(url_decode ekey, url_decode evalue)], True)
                  | c # cs \<Rightarrow> apfst (Cons (url_decode ekey, url_decode evalue)) (ref_parse cs))))"
  by pat_completeness auto

termination
  by (relation "measure length") (auto dest: drop_Cons_shorter)

declare ref_parse.simps [simp del]

fun run_pairs ::
  "('c \<Rightarrow> bytes \<Rightarrow> bytes \<Rightarrow> (int \<times> 'c) option) option \<Rightarrow> bool \<Rightarrow> (bytes \<times> bytes) list \<Rightarrow> 'c \<Rightarrow>
   (int \<times> 'c) option" where
  "run_pairs cb ok [] c = Some (if ok then 0 else - 1, c)"
| "run_pairs cb ok ((k, v) # ps) c =
     (case (case cb of None \<Rightarrow> Some (0, c) | Some f \<Rightarrow> f c k v) of
        None \<Rightarrow> None
      | Some (r, c') \<Rightarrow> if r \<noteq> 0 then Some (1, c') else run_pairs cb ok ps c')"

lemma url_decode_length: "length (url_decode s) \<le> length s"
proof (induction s rule: url_decode.induct)
  case (2 c cs)
  show ?case
  proof (cases "c = chr CHR ''%''")
    case True
    show ?thesis
    proof (cases "\<exists>a b cs'. cs = a # b # cs'")
      case pair: True
      then obtain a b cs' where cs: "cs = a # b # cs'" by blast
      have "length (url_decode cs') \<le> length cs'" using "2.IH"(2) True cs by simp
      then show ?thesis using True cs by simp
    qed (use True in \<open>auto split: list.splits\<close>)
  qed (use "2.IH" in auto)
qed simp

lemma decode_scan_url_decode: "n + length s \<le> M \<Longrightarrow> decode_scan M n s = url_decode s"
  by (induction M n s rule: decode_scan.induct) (auto split: list.splits)

text \<open>What a buffer of the parser satisfies between parts.\<close>

definition qb_ok :: "binval \<Rightarrow> bool" where
  "qb_ok b \<longleftrightarrow> (case bv_val b of None \<Rightarrow> bv_max_size b = 0 | Some v \<Rightarrow> bv_max_size b \<le> length v)"

lemma qb_ok_init: "qb_ok init_binval"
  by (simp add: qb_ok_def init_binval_def)

lemma grow_decode:
  assumes "qb_ok b" "a \<noteq> None" "length enc < SIZE_MAX"
  shows "\<exists>b1 b2. grow_binval a b (length enc) = Some b1 \<and> decode_into b1 enc = Some b2 \<and>
    qb_ok b2 \<and> bv_bytes b2 = url_decode enc"
proof -
  obtain b1 v where b1: "grow_binval a b (length enc) = Some b1" "bv_val b1 = Some v"
    "length enc < bv_max_size b1" "bv_max_size b1 \<le> length v"
  proof (cases "bv_max_size b \<le> length enc")
    case True
    obtain junk where "a = Some junk" using assms(2) by auto
    moreover have "length (realloc_bytes junk (bv_val b) (length enc + 1)) = length enc + 1"
      by (auto simp: realloc_bytes_def Let_def)
    ultimately show ?thesis
      using that True assms(3) by (auto simp: grow_binval_def)
  next
    case False
    then show ?thesis
      using that [of b "the (bv_val b)"] assms(1)
      by (auto simp: grow_binval_def qb_ok_def split: option.splits)
  qed
  have dec: "query_decode enc (bv_max_size b1) = Some (url_decode enc)"
    using b1 by (simp add: query_decode_def decode_scan_url_decode)
  let ?d = "url_decode enc"
  have len: "length ?d < length v" using b1 url_decode_length [of enc] by linarith
  have "take (length ?d) (write_at (write_at v 0 ?d) (length ?d) [0]) = ?d"
    using len write_at_take [of 0 ?d v] by (simp add: take_write_at write_at_length)
  moreover have "length (write_at (write_at v 0 ?d) (length ?d) [0]) = length v"
    using len by (simp add: write_at_length)
  moreover have "decode_into b1 enc =
      Some (b1\<lparr>bv_val := Some (write_at (write_at v 0 ?d) (length ?d) [0]), bv_size := length ?d\<rparr>)"
    using dec b1 len by (simp add: decode_into_def)
  ultimately show ?thesis using b1 by (simp add: qb_ok_def bv_bytes_def)
qed

lemma query_parse_part_ref:
  assumes "qb_ok key" "qb_ok val" "a1 \<noteq> None" "a2 \<noteq> None" "length part < SIZE_MAX"
  defines "ekey \<equiv> until (\<lambda>c. c = eq_sign) part"
  defines "pnt \<equiv> drop (length ekey + 1) part"
  defines "evalue \<equiv> until (\<lambda>c. c = ampersand) pnt"
  shows "\<exists>key' val'. query_parse_part a1 a2 part key val =
    (if eq_sign \<notin> set part \<or> ekey = [] \<or> hd ekey = ampersand then Some (- 1, key', val', None)
     else Some (0, key', val', (case drop (length evalue) pnt of [] \<Rightarrow> None | c # cs \<Rightarrow> Some cs))) \<and>
    (eq_sign \<in> set part \<and> ekey \<noteq> [] \<and> hd ekey \<noteq> ampersand \<longrightarrow>
     qb_ok key' \<and> qb_ok val' \<and> bv_bytes key' = url_decode ekey \<and> bv_bytes val' = url_decode evalue)"
proof -
  have le: "length ekey < SIZE_MAX" "length evalue < SIZE_MAX"
    using assms(5) length_takeWhile_le [of "\<lambda>c. c \<noteq> eq_sign" part]
      length_takeWhile_le [of "\<lambda>c. c \<noteq> ampersand" pnt]
    by (auto simp: ekey_def evalue_def pnt_def until_def)
  obtain k1 k2 where k: "grow_binval a1 key (length ekey) = Some k1" "decode_into k1 ekey = Some k2"
    "qb_ok k2" "bv_bytes k2 = url_decode ekey"
    using grow_decode [OF assms(1,3) le(1)] by blast
  obtain v1 v2 where v: "grow_binval a2 val (length evalue) = Some v1" "decode_into v1 evalue = Some v2"
    "qb_ok v2" "bv_bytes v2 = url_decode evalue"
    using grow_decode [OF assms(2,4) le(2)] by blast
  show ?thesis
  proof (cases "eq_sign \<notin> set part \<or> ekey = [] \<or> hd ekey = ampersand")
    case True
    then show ?thesis
      unfolding query_parse_part_def Let_def ekey_def [symmetric]
      using k(1) by (cases "eq_sign \<in> set part") auto
  next
    case False
    then show ?thesis
      unfolding query_parse_part_def Let_def ekey_def [symmetric] pnt_def [symmetric]
        evalue_def [symmetric]
      using k v by simp
  qed
qed

lemma query_parse_loop_ref:
  assumes "\<forall>i. fst (al i) \<noteq> None \<and> snd (al i) \<noteq> None"
    and "qb_ok key" "qb_ok val" "length part < SIZE_MAX"
  shows "query_parse_loop al cb i part key val c =
    run_pairs cb (snd (ref_parse part)) (fst (ref_parse part)) c"
  using assms(2-4)
proof (induction part arbitrary: i key val c rule: ref_parse.induct)
  case (1 part)
  let ?ekey = "until (\<lambda>c. c = eq_sign) part"
  let ?pnt = "drop (length ?ekey + 1) part"
  let ?evalue = "until (\<lambda>c. c = ampersand) ?pnt"
  have al: "fst (al i) \<noteq> None" "snd (al i) \<noteq> None" using assms(1) by auto
  obtain key' val' where q: "query_parse_part (fst (al i)) (snd (al i)) part key val =
    (if eq_sign \<notin> set part \<or> ?ekey = [] \<or> hd ?ekey = ampersand then Some (- 1, key', val', None)
     else Some (0, key', val', (case drop (length ?evalue) ?pnt of [] \<Rightarrow> None | c # cs \<Rightarrow> Some cs)))"
    and ok: "eq_sign \<in> set part \<and> ?ekey \<noteq> [] \<and> hd ?ekey \<noteq> ampersand \<longrightarrow>
     qb_ok key' \<and> qb_ok val' \<and> bv_bytes key' = url_decode ?ekey \<and> bv_bytes val' = url_decode ?evalue"
    using query_parse_part_ref [OF "1.prems"(1,2) al "1.prems"(3)] by blast
  show ?case
  proof (cases "eq_sign \<notin> set part \<or> ?ekey = [] \<or> hd ?ekey = ampersand")
    case True
    have "ref_parse part = ([], False)"
      using True by (subst ref_parse.simps) (auto simp: Let_def)
    then show ?thesis using True q by (subst query_parse_loop.simps) simp
  next
    case False
    then have ok': "qb_ok key'" "qb_ok val'" "bv_bytes key' = url_decode ?ekey"
      "bv_bytes val' = url_decode ?evalue" using ok by auto
    show ?thesis
    proof (cases "drop (length ?evalue) ?pnt")
      case Nil
      then have "ref_parse part = ([(url_decode ?ekey, url_decode ?evalue)], True)"
        using False by (subst ref_parse.simps) (simp add: Let_def)
      then show ?thesis using False q ok' Nil
        by (subst query_parse_loop.simps) (simp split: option.splits)
    next
      case (Cons a rest)
      have r: "ref_parse part = apfst (Cons (url_decode ?ekey, url_decode ?evalue)) (ref_parse rest)"
        using False Cons by (subst ref_parse.simps) (simp add: Let_def)
      have short: "length rest < SIZE_MAX"
        using "1.prems"(3) drop_Cons_shorter [of "length ?evalue + (length ?ekey + 1)" part a rest] Cons
        by (simp add: add.commute)
      have IH: "query_parse_loop al cb (i + 1) rest key' val' c' =
          run_pairs cb (snd (ref_parse rest)) (fst (ref_parse rest)) c'" for c'
        using False Cons ok' short by (intro "1.IH") auto
      show ?thesis using False q ok' Cons r IH
        by (subst query_parse_loop.simps) (simp split: option.splits prod.splits)
    qed
  qed
qed

section \<open>The round trip\<close>

definition encode_str :: "bytes \<Rightarrow> bytes" where
  "encode_str s = concat (map encode_char s)"

text \<open>The body that the rebuilt journal holds for a list of properties.\<close>

fun encode_pairs :: "(bytes \<times> bytes) list \<Rightarrow> bytes" where
  "encode_pairs [] = []"
| "encode_pairs [(k, v)] = encode_str k @ [eq_sign] @ encode_str v"
| "encode_pairs ((k, v) # ps) = encode_str k @ [eq_sign] @ encode_str v @ [ampersand] @ encode_pairs ps"

definition plus_to_space :: "bytes \<Rightarrow> bytes" where
  "plus_to_space s = map (\<lambda>c. if c = chr CHR ''+'' then chr CHR '' '' else c) s"

lemma strtol_hex_pair:
  "h < 16 \<Longrightarrow> l < 16 \<Longrightarrow> strtol 16 [digit_char h, digit_char l] = int (h * 16 + l)"
  using digit_char_not_sign [of h]
  by (simp add: strtol_def scan_integer_def Let_def is_digit_def LONG_MAX_def)

lemma hex_digit_plain:
  "\<forall>d \<in> set [0..<16]. digit_char d \<noteq> ampersand \<and> digit_char d \<noteq> eq_sign"
  by code_simp

lemma uri_char_plain: "uri_chars ! unat c \<noteq> 0 \<Longrightarrow> c \<noteq> chr CHR ''%'' \<and> c \<noteq> ampersand"
  by (auto simp: uri_chars_def)

lemma unat_div_16: "unat (c :: byte) div 16 < 16"
proof -
  have "unat c < 256" using unsigned_less [of c, where 'a = nat] by simp
  then show ?thesis by simp
qed

lemma encode_char_plain:
  "ampersand \<notin> set (encode_char c)"
  "c \<noteq> eq_sign \<Longrightarrow> eq_sign \<notin> set (encode_char c)"
proof -
  have "unat c div 16 < 16" by (rule unat_div_16)
  then have h: "digit_char (unat c div 16) \<noteq> ampersand" "digit_char (unat c div 16) \<noteq> eq_sign"
    "digit_char (unat c mod 16) \<noteq> ampersand" "digit_char (unat c mod 16) \<noteq> eq_sign"
    using hex_digit_plain by simp_all
  show "ampersand \<notin> set (encode_char c)" "c \<noteq> eq_sign \<Longrightarrow> eq_sign \<notin> set (encode_char c)"
    using uri_char_plain [of c] h [symmetric] by (auto simp: encode_char_def hexbuf_def)
qed

lemma url_decode_encode_char:
  "url_decode (encode_char c @ s) = (if c = chr CHR ''+'' then chr CHR '' '' else c) # url_decode s"
proof (cases "uri_chars ! unat c \<noteq> 0")
  case True
  then show ?thesis using uri_char_plain [of c] by (simp add: encode_char_def)
next
  case False
  then have "c \<noteq> chr CHR ''+''" by (auto simp: uri_chars_def)
  moreover have "unat c div 16 < 16" by (rule unat_div_16)
  then have "strtol 16 [digit_char (unat c div 16), digit_char (unat c mod 16)] = int (unat c)"
    by (simp add: strtol_hex_pair)
  ultimately show ?thesis using False by (simp add: encode_char_def hexbuf_def)
qed

lemma url_decode_encode_str: "url_decode (encode_str s) = plus_to_space s"
proof (induction s)
  case (Cons c s)
  then show ?case
    using url_decode_encode_char [of c "encode_str s"] by (simp add: encode_str_def plus_to_space_def)
qed (simp add: encode_str_def plus_to_space_def)

lemma encode_str_plain:
  "ampersand \<notin> set (encode_str s)"
  "eq_sign \<notin> set s \<Longrightarrow> eq_sign \<notin> set (encode_str s)"
  "s \<noteq> [] \<Longrightarrow> encode_str s \<noteq> []"
proof -
  show "ampersand \<notin> set (encode_str s)" using encode_char_plain(1) by (simp add: encode_str_def)
  show "eq_sign \<notin> set s \<Longrightarrow> eq_sign \<notin> set (encode_str s)"
  proof -
    assume "eq_sign \<notin> set s"
    then have "\<forall>c \<in> set s. eq_sign \<notin> set (encode_char c)" using encode_char_plain(2) by metis
    then show ?thesis by (simp add: encode_str_def)
  qed
  show "s \<noteq> [] \<Longrightarrow> encode_str s \<noteq> []"
    by (cases s) (simp_all add: encode_str_def encode_char_def hexbuf_def)
qed

lemma until_app: "x \<notin> set xs \<Longrightarrow> until (\<lambda>c. c = x) (xs @ x # ys) = xs"
  by (induction xs) (auto simp: until_def)

lemma until_all: "x \<notin> set xs \<Longrightarrow> until (\<lambda>c. c = x) xs = xs"
  by (induction xs) (auto simp: until_def)

lemma ref_parse_pair:
  assumes "k \<noteq> []" "eq_sign \<notin> set k" "rest = [] \<or> rest = ampersand # follow"
  shows "ref_parse (encode_str k @ eq_sign # encode_str v @ rest) =
    (case rest of [] \<Rightarrow> ([(plus_to_space k, plus_to_space v)], True)
     | c # cs \<Rightarrow> apfst (Cons (plus_to_space k, plus_to_space v)) (ref_parse cs))"
proof -
  let ?s = "encode_str k @ eq_sign # encode_str v @ rest"
  have ek: "until (\<lambda>c. c = eq_sign) ?s = encode_str k"
    using assms encode_str_plain(2) by (intro until_app) auto
  have pnt: "drop (length (encode_str k) + 1) ?s = encode_str v @ rest" by simp
  have ev: "until (\<lambda>c. c = ampersand) (encode_str v @ rest) = encode_str v"
    using assms(3) until_app [OF encode_str_plain(1)] until_all [OF encode_str_plain(1)] by auto
  have "hd (encode_str k) \<noteq> ampersand"
    using encode_str_plain(1,3) assms(1) by (metis list.set_sel(1))
  moreover have "drop (length (encode_str v)) (encode_str v @ rest) = rest" by simp
  ultimately show ?thesis
    using assms(1) encode_str_plain(3) [of k]
    unfolding ref_parse.simps [of ?s] Let_def ek pnt ev url_decode_encode_str by auto
qed

lemma ref_parse_encode_pairs:
  assumes "ps \<noteq> []" "\<forall>(k, v) \<in> set ps. k \<noteq> [] \<and> eq_sign \<notin> set k"
  shows "ref_parse (encode_pairs ps) = (map (map_prod plus_to_space plus_to_space) ps, True)"
  using assms
proof (induction ps rule: encode_pairs.induct)
  case (2 k v)
  then show ?case using ref_parse_pair [of k "[]" "[]" v] by simp
next
  case (3 k v p ps)
  then show ?case
    using ref_parse_pair [of k "ampersand # encode_pairs (p # ps)" "encode_pairs (p # ps)" v]
    by (simp split: prod.splits)
qed simp

text \<open>The encoder itself produces these bytes.\<close>

lemma encode_char_length: "length (encode_char c) \<le> 3" "encode_char c \<noteq> []"
  by (auto simp: encode_char_def hexbuf_def)

lemma encode_loop_spec:
  assumes "\<forall>i. al i \<noteq> None" "bv_ok e" "bv_val e \<noteq> None" "bv_size e + 3 * length s < SIZE_MAX"
  shows "\<exists>e'. encode_loop al i s e = Some e' \<and> bv_ok e' \<and> bv_val e' \<noteq> None \<and>
    bv_bytes e' = bv_bytes e @ encode_str s"
  using assms(2-)
proof (induction s arbitrary: i e)
  case Nil
  then show ?case by (simp add: encode_str_def)
next
  case (Cons c s)
  have "bv_size e + length (encode_char c) < SIZE_MAX"
    using Cons.prems(3) encode_char_length(1) [of c] by simp
  then obtain e' where e': "append_to_binval (al i) e (encode_char c) = Some (0, e')" "bv_ok e'"
    "bv_bytes e' = bv_bytes e @ encode_char c" "bv_val e' \<noteq> None"
    "bv_size e' = bv_size e + length (encode_char c)"
    using append_to_binval_spec [of e "encode_char c" "al i"] Cons.prems assms(1)
      encode_char_length(2) [of c] by auto
  have "bv_size e' + 3 * length s < SIZE_MAX"
    using Cons.prems(3) encode_char_length(1) [of c] e'(5) by simp
  from Cons.IH [OF e'(2,4) this, of "i + 1"] e' show ?case
    by (auto simp: encode_str_def)
qed

lemma uri_encode_binval_spec:
  assumes "a \<noteq> None" "\<forall>i. al i \<noteq> None" "bv_ok evalue" "3 * length val + 3 < SIZE_MAX"
    and "val \<noteq> [] \<or> bv_val evalue \<noteq> None"
  shows "\<exists>e. uri_encode_binval a al evalue val = Some (0, e) \<and> bv_ok e \<and> bv_val e \<noteq> None \<and>
    bv_bytes e = encode_str val"
proof -
  let ?e0 = "evalue\<lparr>bv_size := 0\<rparr>"
  have e0: "bv_ok ?e0" "bv_bytes ?e0 = []"
    using assms(3) by (auto simp: bv_ok_def bv_bytes_def split: option.splits)
  show ?thesis
  proof (cases "length val > bv_max_size ?e0 \<or> bv_val ?e0 = None")
    case True
    let ?w = "(length val * 3 mod (SIZE_MAX + 1)) div 2"
    have w: "?w = length val * 3 div 2" using assms(4) by simp
    have ne: "val \<noteq> []" using True assms(5) by auto
    then have "0 < length val" by simp
    then have wl: "length val \<le> ?w" "0 < ?w" unfolding w by linarith+
    obtain junk where junk: "a = Some junk" using assms(1) by auto
    have sz: "size_add ?w 1 = ?w + 1" using assms(4) unfolding w by (intro size_add_small) simp
    let ?e1 = "?e0\<lparr>bv_val := Some (realloc_bytes junk (bv_val ?e0) (size_add ?w 1)), bv_max_size := ?w\<rparr>"
    have "length (realloc_bytes junk (bv_val ?e0) (size_add ?w 1)) = ?w + 1"
      unfolding sz by (auto simp: realloc_bytes_def Let_def)
    then have "bv_ok ?e1" "bv_bytes ?e1 = []"
      using assms(4) unfolding w by (auto simp: bv_ok_def bv_bytes_def)
    with encode_loop_spec [OF assms(2), of ?e1 val 0] assms(4)
    obtain e where "encode_loop al 0 val ?e1 = Some e" "bv_ok e" "bv_val e \<noteq> None"
      "bv_bytes e = encode_str val" by auto
    then show ?thesis using True wl junk by (auto simp: uri_encode_binval_def Let_def)
  next
    case False
    then show ?thesis
      using encode_loop_spec [OF assms(2), of ?e0 val 0] assms(4) e0
      by (auto simp: uri_encode_binval_def Let_def)
  qed
qed

section \<open>Properties\<close>

definition collect_pairs ::
  "(bytes \<times> bytes) list \<Rightarrow> bytes \<Rightarrow> bytes \<Rightarrow> (int \<times> (bytes \<times> bytes) list) option" where
  "collect_pairs c k v = Some (0, c @ [(k, v)])"

lemma run_pairs_collect: "run_pairs (Some collect_pairs) ok ps c = Some (if ok then 0 else - 1, c @ ps)"
  by (induction ps arbitrary: c) (auto simp: collect_pairs_def)

text \<open>
  C26: on every body that fits in memory the parser, with its reused and growing buffers, its
  casts and its assertions, behaves as the reference parser on lists: it never writes outside a
  buffer and never aborts, whatever the percent escapes look like, it hands the decoded pairs to
  the callback in order until the callback stops it, and it reports a malformed part with -1.
\<close>

theorem query_parse_refines_reference:
  assumes "\<forall>i. fst (al i) \<noteq> None \<and> snd (al i) \<noteq> None" "length query < SIZE_MAX"
  shows "query_parse al cb query c =
    (if query = [] then Some (0, c)
     else run_pairs cb (snd (ref_parse query)) (fst (ref_parse query)) c)"
  using query_parse_loop_ref [OF assms(1) qb_ok_init qb_ok_init assms(2), of cb 0 c]
  by (simp add: query_parse_def)

theorem query_parse_refines_reference_witness:
  "query_parse (\<lambda>i. (Some 0, Some 0)) (Some collect_pairs) (bytes_of ''a=%4a+&b'') [] =
     run_pairs (Some collect_pairs) False [(bytes_of ''a'', bytes_of ''J '')] []"
proof -
  have "strtol 16 [52, 97] = 74"
    using strtol_hex_pair [of 4 10] by (simp add: digit_char_def)
  moreover have "ref_parse [98] = ([], False)" by (subst ref_parse.simps) simp
  ultimately have "ref_parse (bytes_of ''a=%4a+&b'') = ([(bytes_of ''a'', bytes_of ''J '')], False)"
    by (subst ref_parse.simps) (simp add: bytes_of_def until_def)
  then show ?thesis
    using query_parse_refines_reference [of "\<lambda>i. (Some 0, Some 0)" "bytes_of ''a=%4a+&b''"
        "Some collect_pairs" "[]"]
    by (simp add: SIZE_MAX_def bytes_of_def)
qed

text \<open>
  C27: a body written by the encoder is read back as the same pairs, byte by byte and zero bytes
  included, as long as the keys are not empty and hold no equals sign, which the encoder leaves as
  it is; and except that every plus sign, left as it is too, comes back as a space.
\<close>

theorem query_parse_encode_pairs:
  assumes "\<forall>i. fst (al i) \<noteq> None \<and> snd (al i) \<noteq> None" "length (encode_pairs ps) < SIZE_MAX"
    and "\<forall>(k, v) \<in> set ps. k \<noteq> [] \<and> eq_sign \<notin> set k"
  shows "query_parse al (Some collect_pairs) (encode_pairs ps) [] =
    Some (0, map (map_prod plus_to_space plus_to_space) ps)"
proof (cases "ps = []")
  case True
  then show ?thesis by (simp add: query_parse_def)
next
  case False
  note r = ref_parse_encode_pairs [OF False assms(3)]
  moreover have "encode_pairs ps \<noteq> []"
  proof
    assume "encode_pairs ps = []"
    then have "ref_parse (encode_pairs ps) = ([], False)" by (subst ref_parse.simps) simp
    with r False show False by simp
  qed
  ultimately show ?thesis
    using query_parse_loop_ref [OF assms(1) qb_ok_init qb_ok_init assms(2),
        of "Some collect_pairs" 0 "[]"]
    by (simp add: query_parse_def run_pairs_collect)
qed

theorem query_parse_encode_pairs_witness:
  "query_parse (\<lambda>i. (Some 0, Some 0)) (Some collect_pairs)
     (encode_pairs [(bytes_of ''k&'', bytes_of ''1+1=2''), ([0], [])]) [] =
   Some (0, [(bytes_of ''k&'', bytes_of ''1 1=2''), ([0], [])])"
proof -
  have "length (encode_pairs [(bytes_of ''k&'', bytes_of ''1+1=2''), ([0], [])]) < SIZE_MAX"
    by (simp add: SIZE_MAX_def encode_str_def encode_char_def hexbuf_def bytes_of_def uri_chars_def)
  from query_parse_encode_pairs [OF _ this, of "\<lambda>i. (Some 0, Some 0)"] show ?thesis
    by (simp add: bytes_of_def plus_to_space_def)
qed

text \<open>
  The encoder writes exactly the escaped text of any string into its buffer, whatever the
  buffer held before, growing it when three bytes for an escaped character do not fit.
\<close>

theorem uri_encode_binval_encodes:
  assumes "a \<noteq> None" "\<forall>i. al i \<noteq> None" "bv_ok evalue" "3 * length val + 3 < SIZE_MAX"
    and "val \<noteq> [] \<or> bv_val evalue \<noteq> None"
  shows "\<exists>e. uri_encode_binval a al evalue val = Some (0, e) \<and> bv_bytes e = encode_str val"
  using uri_encode_binval_spec [OF assms] by blast

theorem uri_encode_binval_encodes_witness:
  "\<exists>e. uri_encode_binval (Some 7) (\<lambda>i. Some 9) init_binval (bytes_of ''a b'') = Some (0, e) \<and>
     bv_bytes e = bytes_of ''a%20b''"
proof -
  have "encode_str (bytes_of ''a b'') = bytes_of ''a%20b''"
    by (simp add: encode_str_def encode_char_def hexbuf_def bytes_of_def uri_chars_def digit_char_def)
  then show ?thesis
    using uri_encode_binval_encodes [of "Some 7" "\<lambda>i. Some 9" init_binval "bytes_of ''a b''"]
      init_binval_ok(1) by (simp add: SIZE_MAX_def bytes_of_def)
qed

end
