(* ===== verification/Db_Log.thy ===== *)
theory Db_Log
  imports Utils
begin

text \<open>
  The journal (src/db_log.c, src/db_log.h): how accepted requests are appended to the log
  buffer and flushed to the file, and how the file is replayed at start-up. The journal file
  is the list of the bytes written to it. The answers of the write calls are a list, each
  what evbuffer_write returns with errno; the request handler that replay calls is an
  argument, a function on its own state.
\<close>

section \<open>Writing\<close>

record db_log =
  dl_open :: bool
  dl_log_buffer :: bytes
  dl_file :: bytes
  dl_journal_buffer_size :: nat
  dl_fsync_period :: int
  dl_last_ts :: int

definition DB_LOG_MAX_URI_LEN :: nat where "DB_LOG_MAX_URI_LEN = 10000"
definition DB_LOG_MAX_BODY_LEN :: nat where "DB_LOG_MAX_BODY_LEN = 100000"
definition DB_LOG_TIMESTAMP_GRANULARITY :: int where "DB_LOG_TIMESTAMP_GRANULARITY = 60"

text \<open>ts minus its remainder; the remainder of C has the sign of ts.\<close>

definition start_of_minute :: "int \<Rightarrow> int" where
  "start_of_minute ts = ts - sgn ts * (\<bar>ts\<bar> mod DB_LOG_TIMESTAMP_GRANULARITY)"

definition cookie_head :: bytes where "cookie_head = bytes_of ''-<''"
definition cookie_tail :: bytes where "cookie_tail = [62, 10]"
abbreviation mark_char :: byte where "mark_char \<equiv> chr CHR ''@''"
abbreviation timestamp_char :: byte where "timestamp_char \<equiv> chr CHR ''T''"
abbreviation space :: byte where "space \<equiv> chr CHR '' ''"
abbreviation colon :: byte where "colon \<equiv> chr CHR '':''"

text \<open>
  flush_db_log. Without \<open>sync\<close> the amount to write is set to zero, so nothing is written.
  A write that would block is tried again. \<open>None\<close>: the list of answers ran out.
\<close>

type_synonym write_answers = "(int \<times> errno) list"

fun flush_loop :: "write_answers \<Rightarrow> int \<Rightarrow> int \<Rightarrow> db_log \<Rightarrow> (int \<times> db_log \<times> write_answers) option" where
  "flush_loop as to_write total_written db =
     (if total_written < to_write then
        (case as of
           [] \<Rightarrow> None
         | (written, errno) # as' \<Rightarrow>
             (if written < 0 then
                (if errno = EINTR \<or> errno = EAGAIN then flush_loop as' to_write total_written db
                 else Some (- 1, db, as'))
              else
                (let n = nat written;
                     db' = db\<lparr>dl_log_buffer := drop n (dl_log_buffer db),
                              dl_file := dl_file db @ take n (dl_log_buffer db)\<rparr>
                 in if written = 0 \<and> dl_log_buffer db' = [] then Some (0, db', as')
                    else flush_loop as' to_write (total_written + written) db')))
      else Some (0, db, as))"

declare flush_loop.simps [simp del]

definition flush_db_log :: "write_answers \<Rightarrow> bool \<Rightarrow> db_log \<Rightarrow> (int \<times> db_log \<times> write_answers) option" where
  "flush_db_log as sync db =
     (if \<not> dl_open db then Some (0, db, as)
      else if dl_log_buffer db = [] then Some (0, db, as)
      else flush_loop as (if sync then int (length (dl_log_buffer db)) else 0) 0 db)"

definition add_ts_to_ev_log_buffer :: "bytes \<Rightarrow> int \<Rightarrow> bytes" where
  "add_ts_to_ev_log_buffer buf ts =
     buf @ (cookie_head @ [mark_char]) @ hex_of (nat ts) @ ([space, timestamp_char] @ cookie_tail)"

text \<open>
  What add_to_db_log sees of the server context: the time, and the number of active slaves
  when there is a replication master (\<open>None\<close> when there is none).
\<close>

record log_context =
  lc_now :: int
  lc_active_slaves :: "nat option"

text \<open>The bytes of one record; \<open>body\<close> is \<open>None\<close> when the C pointer is NULL.\<close>

definition log_record :: "nat \<Rightarrow> bytes \<Rightarrow> bytes option \<Rightarrow> nat \<Rightarrow> bytes" where
  "log_record verb uri body body_len =
     cookie_head @ hex_of verb @ [space] @ hex_of (length uri) @ [colon] @ uri @ [space] @
     hex_of body_len @ [colon] @ (case body of None \<Rightarrow> [] | Some b \<Rightarrow> take body_len b) @ cookie_tail"

text \<open>The end of add_to_db_log: the flush, whose result is ignored.\<close>

definition flush_if_needed ::
  "write_answers \<Rightarrow> db_log \<Rightarrow> bytes list \<Rightarrow> (int \<times> db_log \<times> bytes list \<times> write_answers) option" where
  "flush_if_needed as db sent =
     (if dl_fsync_period db = 0 then
        do {
          (r, db', as') \<leftarrow> flush_db_log as True db;
          Some (0, db', sent, as')
        }
      else if length (dl_log_buffer db) > dl_journal_buffer_size db then
        do {
          (r, db', as') \<leftarrow> flush_db_log as False db;
          Some (0, db', sent, as')
        }
      else Some (0, db, sent, as))"

text \<open>
  add_to_db_log. \<open>body_pullup\<close> and \<open>new_buffer\<close> tell whether evbuffer_pullup and
  evbuffer_new succeed. The result has what was sent to the slaves.
\<close>

definition add_to_db_log ::
  "write_answers \<Rightarrow> bool \<Rightarrow> bool \<Rightarrow> log_context \<Rightarrow> nat \<Rightarrow> bytes \<Rightarrow> bytes \<Rightarrow> bool \<Rightarrow> db_log \<Rightarrow>
   (int \<times> db_log \<times> bytes list \<times> write_answers) option" where
  "add_to_db_log as body_pullup new_buffer ctx verb uri input_buffer send_to_slaves db =
     (if \<not> dl_open db then Some (0, db, [], as)
      else if length uri > DB_LOG_MAX_URI_LEN \<or> length input_buffer > DB_LOG_MAX_BODY_LEN
        then Some (- 1, db, [], as)
      else
        (let ts = start_of_minute (lc_now ctx);
             db1 = (if ts > dl_last_ts db
                    then db\<lparr>dl_last_ts := ts,
                            dl_log_buffer := add_ts_to_ev_log_buffer (dl_log_buffer db) ts\<rparr>
                    else db);
             body = (if input_buffer \<noteq> [] \<and> body_pullup then Some input_buffer else None);
             body_len = (if body \<noteq> None \<and> last input_buffer = 0
                         then length input_buffer - 1 else length input_buffer);
             send = (send_to_slaves \<and>
               (case lc_active_slaves ctx of None \<Rightarrow> False | Some n \<Rightarrow> n > 0));
             rec = log_record verb uri body body_len
         in if send \<and> \<not> new_buffer then Some (- 1, db1, [], as)
            else flush_if_needed as (db1\<lparr>dl_log_buffer := dl_log_buffer db1 @ rec\<rparr>)
              (if send then [rec] else [])))"

section \<open>Replaying\<close>

text \<open>
  The digits of a number are read one byte at a time into a buffer of 50 bytes, up to a
  stop character. The inner \<open>None\<close> is the early return of -1.
\<close>

function read_until ::
  "(int \<Rightarrow> nat \<Rightarrow> int) \<Rightarrow> byte \<Rightarrow> buffered_read_context \<Rightarrow> bytes \<Rightarrow> nat \<Rightarrow>
   (bytes option \<times> buffered_read_context) option" where
  "read_until ev_read stop brc buf p =
     (case buffered_read ev_read brc 1 of
        None \<Rightarrow> None
      | Some (readnb, d, brc') \<Rightarrow>
          (if readnb \<noteq> 1 then Some (None, brc')
           else
             (let buf' = write_at buf p d
              in if buf' ! p = stop then Some (Some buf', brc')
                 else if p + 1 \<ge> 50 then Some (None, brc')
                 else read_until ev_read stop brc' buf' (p + 1))))"
  by pat_completeness auto

termination
  by (relation "measure (\<lambda>(ev, stop, brc, buf, p). 50 - p)") auto

declare read_until.simps [simp del]

text \<open>
  Reading a block into a buffer of \<open>len + 1\<close> bytes from malloc and terminating it; the
  inner \<open>None\<close> is a short count.
\<close>

definition read_block ::
  "(int \<Rightarrow> nat \<Rightarrow> int) \<Rightarrow> byte \<Rightarrow> nat \<Rightarrow> buffered_read_context \<Rightarrow>
   (bytes option \<times> buffered_read_context) option" where
  "read_block ev_read junk len brc =
     (let cap = size_add len 1
      in do {
           (readnb, d, brc') \<leftarrow> buffered_read ev_read brc len;
           c_assert (length d \<le> cap);
           (if readnb \<noteq> off_of len then Some (None, brc')
            else do {
              c_assert (len < cap);
              Some (Some (write_at (write_at (replicate cap junk) 0 d) len [0]), brc')
            })
         })"

text \<open>The cast of a long to an int.\<close>

definition int_of_long :: "int \<Rightarrow> int" where
  "int_of_long x = (x + 2 ^ 31) mod 2 ^ 32 - 2 ^ 31"

definition c_string :: "bytes \<Rightarrow> bytes" where
  "c_string b = takeWhile (\<lambda>c. c \<noteq> 0) b"

text \<open>The end of replay_log_record: the tail cookie, and the request handed over.\<close>

definition read_tail ::
  "(int \<Rightarrow> nat \<Rightarrow> int) \<Rightarrow> byte \<Rightarrow> buffered_read_context \<Rightarrow> (bool \<times> buffered_read_context) option" where
  "read_tail ev_read junk brc =
     do {
       (readnb, d, brc') \<leftarrow> buffered_read ev_read brc (length cookie_tail);
       Some (readnb = int (length cookie_tail) \<and>
             write_at (replicate (length cookie_tail) junk) 0 d = cookie_tail, brc')
     }"

text \<open>
  replay_log_record. The result: the return code, the reader, the handler's state, and the
  length to which the file is truncated when the head cookie is not there. \<open>junk\<close> is what
  fresh memory holds; a failed malloc ends the process and is not modelled.
\<close>

type_synonym 's handler = "'s \<Rightarrow> int \<Rightarrow> bytes \<Rightarrow> bytes \<Rightarrow> 's"

definition replay_body ::
  "(int \<Rightarrow> nat \<Rightarrow> int) \<Rightarrow> 's handler \<Rightarrow> byte \<Rightarrow> int \<Rightarrow> bytes \<Rightarrow> nat \<Rightarrow> buffered_read_context \<Rightarrow> 's \<Rightarrow>
   (int \<times> buffered_read_context \<times> 's \<times> int option) option" where
  "replay_body ev_read fake_request junk verb uri body_len brc s =
     do {
       (body, brc1) \<leftarrow>
         (if body_len > 0 then read_block ev_read junk body_len brc else Some (Some [], brc));
       (case body of
          None \<Rightarrow> Some (- 1, brc1, s, None)
        | Some body \<Rightarrow> do {
            (ok, brc2) \<leftarrow> read_tail ev_read junk brc1;
            (if ok
             then Some (0, brc2, fake_request s verb (c_string uri) (take body_len body), None)
             else Some (- 1, brc2, s, None))
          })
     }"

definition replay_request ::
  "(int \<Rightarrow> nat \<Rightarrow> int) \<Rightarrow> 's handler \<Rightarrow> byte \<Rightarrow> bytes \<Rightarrow> buffered_read_context \<Rightarrow> 's \<Rightarrow>
   (int \<times> buffered_read_context \<times> 's \<times> int option) option" where
  "replay_request ev_read fake_request junk buf brc s =
     (if \<not> has_number 16 buf then Some (- 1, brc, s, None)
      else
        (let verb = int_of_long (strtol 16 buf)
         in do {
           (uri_buf, brc1) \<leftarrow> read_until ev_read colon brc buf 0;
           (case uri_buf of
              None \<Rightarrow> Some (- 1, brc1, s, None)
            | Some buf1 \<Rightarrow>
                (let uri_len = strtoul 16 buf1
                 in if \<not> has_number 16 buf1 \<or> uri_len = 0 then Some (- 1, brc1, s, None)
                    else do {
                      (uri, brc2) \<leftarrow> read_block ev_read junk uri_len brc1;
                      (case uri of
                         None \<Rightarrow> Some (- 1, brc2, s, None)
                       | Some uri \<Rightarrow> do {
                           (readnb, d, brc3) \<leftarrow> buffered_read ev_read brc2 1;
                           (if readnb \<noteq> 1 \<or> write_at buf1 0 d ! 0 \<noteq> space
                            then Some (- 1, brc3, s, None)
                            else do {
                              (body_buf, brc4) \<leftarrow> read_until ev_read colon brc3 (write_at buf1 0 d) 0;
                              (case body_buf of
                                 None \<Rightarrow> Some (- 1, brc4, s, None)
                               | Some buf2 \<Rightarrow>
                                   (if \<not> has_number 16 buf2 then Some (- 1, brc4, s, None)
                                    else replay_body ev_read fake_request junk verb uri
                                      (strtoul 16 buf2) brc4 s))
                            })
                         })
                    }))
         }))"

definition replay_timestamp ::
  "(int \<Rightarrow> nat \<Rightarrow> int) \<Rightarrow> byte \<Rightarrow> bytes \<Rightarrow> buffered_read_context \<Rightarrow> 's \<Rightarrow>
   (int \<times> buffered_read_context \<times> 's \<times> int option) option" where
  "replay_timestamp ev_read junk buf brc s =
     (if \<not> has_number 16 (drop 1 buf) \<or> strtol 16 (drop 1 buf) \<le> 0 then Some (- 1, brc, s, None)
      else do {
        (readnb, d, brc1) \<leftarrow> buffered_read ev_read brc 1;
        (if readnb \<noteq> 1 \<or> d \<noteq> [timestamp_char] then Some (- 1, brc1, s, None)
         else do {
           (ok, brc2) \<leftarrow> read_tail ev_read junk brc1;
           (if ok then Some (0, brc2, s, None) else Some (- 1, brc2, s, None))
         })
      })"

definition replay_log_record ::
  "(int \<Rightarrow> nat \<Rightarrow> int) \<Rightarrow> 's handler \<Rightarrow> byte \<Rightarrow> bool \<Rightarrow> buffered_read_context \<Rightarrow> 's \<Rightarrow>
   (int \<times> buffered_read_context \<times> 's \<times> int option) option" where
  "replay_log_record ev_read fake_request junk is_open brc s =
     (if \<not> is_open then Some (1, brc, s, None)
      else do {
        (readnb, d, brc1) \<leftarrow> buffered_read ev_read brc (length cookie_head);
        (if readnb = 0 then Some (1, brc1, s, None)
         else if readnb \<noteq> int (length cookie_head) \<or>
             write_at (replicate (length cookie_head) junk) 0 d \<noteq> cookie_head
           then Some (- 1, brc1, s, Some (br_offset brc))
         else do {
           (buf, brc2) \<leftarrow> read_until ev_read space brc1 (replicate 50 junk) 0;
           (case buf of
              None \<Rightarrow> Some (- 1, brc2, s, None)
            | Some buf \<Rightarrow>
                (if buf ! 0 = mark_char then replay_timestamp ev_read junk buf brc2 s
                 else replay_request ev_read fake_request junk buf brc2 s))
         })
      })"

text \<open>The loop of replay_log: how many records were replayed, and the last code.\<close>

partial_function (option) replay_loop ::
  "(int \<Rightarrow> nat \<Rightarrow> int) \<Rightarrow> 's handler \<Rightarrow> byte \<Rightarrow> nat \<Rightarrow> buffered_read_context \<Rightarrow> 's \<Rightarrow>
   (int \<times> nat \<times> 's) option" where
  "replay_loop ev_read fake_request junk counter brc s =
     do {
       (res, brc', s', trunc) \<leftarrow> replay_log_record ev_read fake_request junk True brc s;
       (if res = 0 then replay_loop ev_read fake_request junk (counter + 1) brc' s'
        else Some (res, counter, s'))
     }"

definition replay_log ::
  "(int \<Rightarrow> nat \<Rightarrow> int) \<Rightarrow> 's handler \<Rightarrow> byte \<Rightarrow> bytes option \<Rightarrow> 's \<Rightarrow> (int \<times> nat \<times> 's) option" where
  "replay_log ev_read fake_request junk journal s =
     (case journal of
        None \<Rightarrow> Some (0, 0, s)
      | Some contents \<Rightarrow>
          do {
            (res, counter, s') \<leftarrow>
              replay_loop ev_read fake_request junk 0 (init_buffered_read contents) s;
            Some (if res < 0 then - 1 else 0, counter, s')
          })"

section \<open>The journal as a list of items\<close>

text \<open>What a journal holds: time stamps and requests.\<close>

datatype item = Stamp nat | Request nat bytes bytes

fun enc_item :: "item \<Rightarrow> bytes" where
  "enc_item (Stamp ts) = cookie_head @ [mark_char] @ hex_of ts @ [space, timestamp_char] @ cookie_tail"
| "enc_item (Request verb uri body) =
     cookie_head @ hex_of verb @ [space] @ hex_of (length uri) @ [colon] @ uri @ [space] @
     hex_of (length body) @ [colon] @ body @ cookie_tail"

definition enc_items :: "item list \<Rightarrow> bytes" where
  "enc_items is = concat (map enc_item is)"

text \<open>
  The items that replay can read when evbuffer_read moves up to R bytes at a time: sizes
  within R, a URI that is not empty and has no zero byte, a positive time stamp.
\<close>

fun item_ok :: "nat \<Rightarrow> item \<Rightarrow> bool" where
  "item_ok R (Stamp ts) \<longleftrightarrow> 0 < ts \<and> int ts \<le> LONG_MAX"
| "item_ok R (Request verb uri body) \<longleftrightarrow> verb < 2 ^ 31 \<and> uri \<noteq> [] \<and> 0 \<notin> set uri \<and>
     length uri \<le> R \<and> length body \<le> R \<and> length uri \<le> 100000 \<and> length body \<le> 100000"

fun apply_item :: "'s handler \<Rightarrow> item \<Rightarrow> 's \<Rightarrow> 's" where
  "apply_item h (Stamp ts) s = s"
| "apply_item h (Request verb uri body) s = h s (int verb) uri body"

lemma hex_digit_other:
  "\<forall>d < 16. digit_char d \<noteq> space \<and> digit_char d \<noteq> colon \<and> digit_char d \<noteq> mark_char"
proof -
  have "\<forall>d \<in> set [0..<16]. digit_char d \<noteq> space \<and> digit_char d \<noteq> colon \<and> digit_char d \<noteq> mark_char"
    by code_simp
  then show ?thesis by simp
qed

lemma hex_of_plain:
  "space \<notin> set (hex_of n)" "colon \<notin> set (hex_of n)" "mark_char \<notin> set (hex_of n)"
proof -
  have "\<exists>d < 16. c = digit_char d" if "c \<in> set (hex_of n)" for c
    using digits_of_digits [OF _ _ that] by simp
  then show "space \<notin> set (hex_of n)" "colon \<notin> set (hex_of n)" "mark_char \<notin> set (hex_of n)"
    using hex_digit_other by metis+
qed

text \<open>
  What the replay needs from a reader: it is at some text, gives the next bytes of it exactly,
  up to R at a time, and says 0 at its end.
\<close>

locale journal_reader =
  fixes R :: nat and ev_read :: "int \<Rightarrow> nat \<Rightarrow> int"
    and at_text :: "buffered_read_context \<Rightarrow> bytes \<Rightarrow> bool"
  assumes R: "2 \<le> R"
    and read_text: "at_text brc (xs @ ys) \<Longrightarrow> xs \<noteq> [] \<Longrightarrow> length xs \<le> R \<Longrightarrow> length xs \<le> 100000 \<Longrightarrow>
      \<exists>brc'. buffered_read ev_read brc (length xs) = Some (int (length xs), xs, brc') \<and> at_text brc' ys"
    and read_end: "at_text brc [] \<Longrightarrow> 0 < n \<Longrightarrow> buffered_read ev_read brc n = Some (0, [], brc)"
begin

lemma read_byte:
  assumes "at_text brc (c # ys)"
  shows "\<exists>brc'. buffered_read ev_read brc 1 = Some (1, [c], brc') \<and> at_text brc' ys"
  using read_text [of brc "[c]" ys] assms R by simp

lemma read_until_text:
  assumes "at_text brc (ds @ stop # rest)" "stop \<notin> set ds" "p + length ds < 50" "length buf = 50"
  shows "\<exists>buf' brc'. read_until ev_read stop brc buf p = Some (Some buf', brc') \<and> at_text brc' rest \<and>
    length buf' = 50 \<and> take (p + length ds + 1) buf' = take p buf @ ds @ [stop]"
  using assms
proof (induction ds arbitrary: brc buf p)
  case Nil
  then obtain brc' where r: "buffered_read ev_read brc 1 = Some (1, [stop], brc')" "at_text brc' rest"
    using read_byte [of brc stop rest] by auto
  have "take (p + 1) (write_at buf p [stop]) = take p buf @ [stop]"
    using write_at_take [of p "[stop]" buf] Nil.prems by simp
  moreover have "length (write_at buf p [stop]) = 50" using Nil.prems by (simp add: write_at_length)
  moreover have "write_at buf p [stop] ! p = stop" using Nil.prems by (simp add: write_at_def nth_append)
  ultimately show ?case using r by (subst read_until.simps) simp
next
  case (Cons d ds)
  then obtain brc' where r: "buffered_read ev_read brc 1 = Some (1, [d], brc')"
    "at_text brc' (ds @ stop # rest)"
    using read_byte [of brc d "ds @ stop # rest"] by auto
  let ?b = "write_at buf p [d]"
  have b: "length ?b = 50" "?b ! p = d" "take (p + 1) ?b = take p buf @ [d]"
    using Cons.prems write_at_take [of p "[d]" buf]
    by (simp_all add: write_at_length) (simp add: write_at_def nth_append)
  have "\<exists>buf' brc''. read_until ev_read stop brc' ?b (p + 1) = Some (Some buf', brc'') \<and> at_text brc'' rest \<and>
    length buf' = 50 \<and> take (p + 1 + length ds + 1) buf' = take (p + 1) ?b @ ds @ [stop]"
    using Cons.prems r b by (intro Cons.IH) auto
  then show ?case using r b Cons.prems by (subst read_until.simps) auto
qed

lemma read_number:
  assumes "at_text brc (ds @ stop # rest)" "stop \<notin> set ds" "length ds < 50" "length buf = 50"
  shows "\<exists>junk brc'. read_until ev_read stop brc buf 0 = Some (Some (ds @ stop # junk), brc') \<and>
    at_text brc' rest \<and> length (ds @ stop # junk) = 50"
proof -
  obtain buf' brc' where b: "read_until ev_read stop brc buf 0 = Some (Some buf', brc')" "at_text brc' rest"
    "length buf' = 50" "take (length ds + 1) buf' = ds @ [stop]"
    using read_until_text [OF assms(1,2) _ assms(4), of 0] assms(3) by auto
  have "buf' = ds @ stop # drop (length ds + 1) buf'"
    using append_take_drop_id [of "length ds + 1" buf'] unfolding b(4) by simp
  then show ?thesis using b by metis
qed

lemma read_block_text:
  assumes "at_text brc (xs @ ys)" "xs \<noteq> []" "length xs \<le> R" "length xs \<le> 100000"
  shows "\<exists>brc'. read_block ev_read junk (length xs) brc = Some (Some (xs @ [0]), brc') \<and> at_text brc' ys"
proof -
  obtain brc' where r: "buffered_read ev_read brc (length xs) = Some (int (length xs), xs, brc')"
    "at_text brc' ys"
    using read_text [OF assms] by blast
  have sz: "size_add (length xs) 1 = length xs + 1" "off_of (length xs) = int (length xs)"
    using assms(4) by (auto intro!: size_add_small off_of_small simp: SIZE_MAX_def LONG_MAX_def)
  have "write_at (write_at (replicate (length xs + 1) junk) 0 xs) (length xs) [0] = xs @ [0]"
    by (simp add: write_at_def)
  then show ?thesis using r sz by (simp add: read_block_def)
qed

lemma read_tail_text:
  assumes "at_text brc (cookie_tail @ ys)"
  shows "\<exists>brc'. read_tail ev_read junk brc = Some (True, brc') \<and> at_text brc' ys"
  using read_text [OF assms] R by (auto simp: read_tail_def cookie_tail_def write_at_def)

lemma replay_timestamp_text:
  assumes "at_text brc ([timestamp_char] @ cookie_tail @ rest)" "0 < ts" "int ts \<le> LONG_MAX"
  shows "\<exists>brc'. replay_timestamp ev_read junk (mark_char # hex_of ts @ space # jk) brc s =
    Some (0, brc', s, None) \<and> at_text brc' rest"
proof -
  obtain brc1 where r1: "buffered_read ev_read brc 1 = Some (1, [timestamp_char], brc1)"
    "at_text brc1 (cookie_tail @ rest)"
    using read_byte [of brc timestamp_char "cookie_tail @ rest"] assms(1) by auto
  obtain brc2 where r2: "read_tail ev_read junk brc1 = Some (True, brc2)" "at_text brc2 rest"
    using read_tail_text [OF r1(2)] by blast
  have e: "ends_number 16 (space # jk)"
    by (simp add: ends_number_def is_digit_def digit_val_def tolower_def)
  then have "has_number 16 (hex_of ts @ space # jk)" "strtol 16 (hex_of ts @ space # jk) = int ts"
    using assms(3) by (simp_all add: has_number_digits_of strtol_digits_of)
  then show ?thesis using r1 r2 assms(2) by (simp add: replay_timestamp_def)
qed

lemma replay_request_to_body:
  assumes atx: "at_text brc (hex_of (length uri) @ colon # uri @ space # hex_of n @ colon # rest)"
    and uri: "verb < 2 ^ 31" "uri \<noteq> []" "0 \<notin> set uri" "length uri \<le> R" "length uri \<le> 100000"
    and n: "n \<le> 100000" and buf: "length (hex_of verb @ space # jk) = 50"
  shows "\<exists>brc' uri'. replay_request ev_read h junk (hex_of verb @ space # jk) brc s =
    replay_body ev_read h junk (int verb) uri' n brc' s \<and> c_string uri' = uri \<and> at_text brc' rest"
proof -
  have lens: "length (hex_of n) < 50" if "n \<le> 100000" for n
    using digits_of_length [of 16 n 5] that by simp
  have e: "ends_number 16 (space # ys)" "ends_number 16 (colon # ys)" for ys
    by (simp_all add: ends_number_def is_digit_def digit_val_def tolower_def)
  have verb: "has_number 16 (hex_of verb @ space # jk)" "strtol 16 (hex_of verb @ space # jk) = int verb"
    using uri(1) e by (simp_all add: has_number_digits_of strtol_digits_of LONG_MAX_def)
  have verb': "int_of_long (int verb) = int verb" using uri(1) by (simp add: int_of_long_def)
  have num: "strtoul 16 (hex_of n @ colon # ys) = n" "has_number 16 (hex_of n @ colon # ys)"
    if "n \<le> 100000" for n ys
    using that e by (simp_all add: has_number_digits_of strtoul_digits_of SIZE_MAX_def)
  obtain j1 brc1 where r1: "read_until ev_read colon brc (hex_of verb @ space # jk) 0 =
      Some (Some (hex_of (length uri) @ colon # j1), brc1)"
    "at_text brc1 (uri @ space # hex_of n @ colon # rest)"
    "length (hex_of (length uri) @ colon # j1) = 50"
    using read_number [OF atx hex_of_plain(2) _ buf] lens uri by auto
  obtain brc2 where r2: "read_block ev_read junk (length uri) brc1 = Some (Some (uri @ [0]), brc2)"
    "at_text brc2 (space # hex_of n @ colon # rest)"
    using read_block_text [OF r1(2)] uri by auto
  obtain brc3 where r3: "buffered_read ev_read brc2 1 = Some (1, [space], brc3)"
    "at_text brc3 (hex_of n @ colon # rest)"
    using read_byte [OF r2(2)] by blast
  define buf3 where "buf3 = write_at (hex_of (length uri) @ colon # j1) 0 [space]"
  have buf3: "length buf3 = 50" "buf3 ! 0 = space"
    using r1(3) by (simp_all add: buf3_def write_at_length) (simp add: write_at_def)
  obtain j2 brc4 where r4: "read_until ev_read colon brc3 buf3 0 =
      Some (Some (hex_of n @ colon # j2), brc4)" "at_text brc4 rest"
    using read_number [OF r3(2) hex_of_plain(2) _ buf3(1)] lens n by auto
  have "\<And>c. c \<in> set uri \<Longrightarrow> c \<noteq> 0" using uri(3) by auto
  then have cs: "c_string (uri @ [0]) = uri" by (simp add: c_string_def takeWhile_append2)
  have "strtoul 16 (hex_of (length uri) @ colon # j1) = length uri"
    "has_number 16 (hex_of (length uri) @ colon # j1)"
    "strtoul 16 (hex_of n @ colon # j2) = n" "has_number 16 (hex_of n @ colon # j2)"
    using num uri(5) n by auto
  then have "replay_request ev_read h junk (hex_of verb @ space # jk) brc s =
      replay_body ev_read h junk (int verb) (uri @ [0]) n brc4 s"
    unfolding replay_request_def
    using verb verb' r1 r2 r3 buf3 r4 uri(2) buf3_def [symmetric]
    by (simp add: Let_def)
  then show ?thesis using cs r4(2) by blast
qed

lemma replay_body_text:
  assumes atx: "at_text brc (body @ cookie_tail @ rest)"
    and body: "length body \<le> R" "length body \<le> 100000"
  shows "\<exists>brc'. replay_body ev_read h junk verb uri (length body) brc s =
    Some (0, brc', h s verb (c_string uri) body, None) \<and> at_text brc' rest"
proof (cases "body = []")
  case True
  then obtain brc' where "read_tail ev_read junk brc = Some (True, brc')" "at_text brc' rest"
    using read_tail_text [of brc rest junk] atx by auto
  then show ?thesis using True by (simp add: replay_body_def)
next
  case False
  then obtain brc1 where r: "read_block ev_read junk (length body) brc = Some (Some (body @ [0]), brc1)"
    "at_text brc1 (cookie_tail @ rest)"
    using read_block_text [OF atx] body by blast
  obtain brc' where "read_tail ev_read junk brc1 = Some (True, brc')" "at_text brc' rest"
    using read_tail_text [OF r(2), of junk] by blast
  then show ?thesis using False r(1) by (simp add: replay_body_def)
qed

lemma replay_head:
  assumes atx: "at_text brc (cookie_head @ ds @ space # rest)"
    and ds: "space \<notin> set ds" "length ds < 50" "ds \<noteq> []"
  shows "\<exists>jk brc'. at_text brc' rest \<and> length (ds @ space # jk) = 50 \<and>
    replay_log_record ev_read h junk True brc s =
      (if hd ds = mark_char then replay_timestamp ev_read junk (ds @ space # jk) brc' s
       else replay_request ev_read h junk (ds @ space # jk) brc' s)"
proof -
  obtain brc1 where r1: "buffered_read ev_read brc (length cookie_head) =
      Some (int (length cookie_head), cookie_head, brc1)" "at_text brc1 (ds @ space # rest)"
    using read_text [OF atx] R by (auto simp: cookie_head_def bytes_of_def)
  obtain jk brc2 where r2: "read_until ev_read space brc1 (replicate 50 junk) 0 =
      Some (Some (ds @ space # jk), brc2)" "at_text brc2 rest" "length (ds @ space # jk) = 50"
    using read_number [OF r1(2) ds(1,2), of "replicate 50 junk"] by auto
  have head: "write_at (replicate (length cookie_head) junk) 0 cookie_head = cookie_head"
    "length cookie_head \<noteq> 0"
    by (simp_all add: write_at_def cookie_head_def)
  have "(ds @ space # jk) ! 0 = hd ds" using ds(3) by (cases ds) auto
  then have "replay_log_record ev_read h junk True brc s =
      (if hd ds = mark_char then replay_timestamp ev_read junk (ds @ space # jk) brc2 s
       else replay_request ev_read h junk (ds @ space # jk) brc2 s)"
    using r1 r2 head by (simp add: replay_log_record_def)
  then show ?thesis using r2 by blast
qed

lemma replay_item:
  assumes atx: "at_text brc (enc_item i @ rest)" and ok: "item_ok R i"
  shows "\<exists>brc'. replay_log_record ev_read h junk True brc s = Some (0, brc', apply_item h i s, None) \<and>
    at_text brc' rest"
proof (cases i)
  case (Stamp ts)
  have "length (hex_of ts) \<le> 16"
    using ok Stamp by (intro digits_of_length) (simp_all add: LONG_MAX_def)
  moreover have "at_text brc (cookie_head @ (mark_char # hex_of ts) @ space #
      ([timestamp_char] @ cookie_tail @ rest))"
    using atx Stamp by simp
  ultimately obtain jk brc2 where r: "at_text brc2 ([timestamp_char] @ cookie_tail @ rest)"
    "replay_log_record ev_read h junk True brc s =
      replay_timestamp ev_read junk ((mark_char # hex_of ts) @ space # jk) brc2 s"
    using replay_head [of brc "mark_char # hex_of ts" "[timestamp_char] @ cookie_tail @ rest" h junk s] hex_of_plain(1) [of ts] by auto
  then show ?thesis
    using replay_timestamp_text [OF r(1), of ts junk jk s] ok Stamp by simp
next
  case (Request verb uri body)
  let ?more = "hex_of (length uri) @ colon # uri @ space # hex_of (length body) @ colon #
      body @ cookie_tail @ rest"
  have "length (hex_of verb) \<le> 8"
    using ok Request by (intro digits_of_length) simp_all
  moreover have "hd (hex_of verb) \<noteq> mark_char"
    using hex_of_plain(3) [of verb] hd_in_set [of "hex_of verb"] by fastforce
  moreover have "at_text brc (cookie_head @ hex_of verb @ space # ?more)"
    using atx Request by simp
  ultimately obtain jk brc2 where r: "at_text brc2 ?more" "length (hex_of verb @ space # jk) = 50"
    "replay_log_record ev_read h junk True brc s =
      replay_request ev_read h junk (hex_of verb @ space # jk) brc2 s"
    using replay_head [of brc "hex_of verb" ?more h junk s] hex_of_plain(1) [of verb] by auto
  obtain brc3 uri' where q: "replay_request ev_read h junk (hex_of verb @ space # jk) brc2 s =
      replay_body ev_read h junk (int verb) uri' (length body) brc3 s" "c_string uri' = uri"
    "at_text brc3 (body @ cookie_tail @ rest)"
    using replay_request_to_body [OF r(1) _ _ _ _ _ _ r(2), of h junk s] ok Request by auto
  show ?thesis
    using replay_body_text [OF q(3), of h junk "int verb" uri' s] r(3) q(1,2) ok Request by simp
qed

lemma replay_items:
  assumes "at_text brc (enc_items is)" "\<forall>i \<in> set is. item_ok R i"
  shows "replay_loop ev_read h junk n brc s = Some (1, n + length is, fold (apply_item h) is s)"
  using assms
proof (induction "is" arbitrary: brc n s)
  case Nil
  then have "buffered_read ev_read brc (length cookie_head) = Some (0, [], brc)"
    by (intro read_end) (simp_all add: enc_items_def cookie_head_def bytes_of_def)
  then show ?case by (subst replay_loop.simps) (simp add: replay_log_record_def)
next
  case (Cons i "is")
  obtain brc' where "replay_log_record ev_read h junk True brc s = Some (0, brc', apply_item h i s, None)"
    "at_text brc' (enc_items is)"
    using replay_item [of brc i "enc_items is" h junk s] Cons.prems by (auto simp: enc_items_def)
  then show ?case
    using Cons.IH [of brc' "n + 1" "apply_item h i s"] Cons.prems
    by (subst replay_loop.simps) simp
qed

end

text \<open>The reader over a file, when evbuffer_read moves up to R bytes per call.\<close>

definition at_text :: "buffered_read_context \<Rightarrow> bytes \<Rightarrow> bool" where
  "at_text brc s \<longleftrightarrow> br_ok brc \<and> br_rest brc = s"

lemma journal_reader_file:
  assumes "2 \<le> R" "reads_up_to R ev_read"
  shows "journal_reader R ev_read at_text"
proof
  show "\<exists>brc'. buffered_read ev_read brc (length xs) = Some (int (length xs), xs, brc') \<and> at_text brc' ys"
    if "at_text brc (xs @ ys)" "xs \<noteq> []" "length xs \<le> R" "length xs \<le> 100000" for brc xs ys
    using buffered_read_full [OF assms(2), of brc "length xs"] that
    by (auto simp: at_text_def LONG_MAX_def)
qed (use assms in \<open>auto simp: at_text_def intro: buffered_read_eof\<close>)

text \<open>
  evbuffer_read of the bundled event library on a regular file: the amount is cut to what
  FIONREAD reports, and to max_read, 4096 unless it is set, which the program never does.
\<close>

definition evbuffer_read :: "nat \<Rightarrow> int \<Rightarrow> nat \<Rightarrow> int" where
  "evbuffer_read max_read howmuch avail =
     (let n = (if avail = 0 \<or> avail > max_read then int max_read else int avail);
          howmuch' = (if howmuch < 0 \<or> howmuch > n then n else howmuch)
      in min howmuch' (int avail))"

lemma evbuffer_read_reads: "reads_up_to R (evbuffer_read R)"
  by (auto simp: reads_up_to_def evbuffer_read_def Let_def)

text \<open>
  The same over a small file, up to the read-ahead size: nothing is read ahead, so the buffer
  is empty between reads.
\<close>

definition at_small :: "buffered_read_context \<Rightarrow> bytes \<Rightarrow> bool" where
  "at_small brc s \<longleftrightarrow> br_ok brc \<and> br_buf brc = [] \<and> br_file brc = s \<and> length s \<le> 65536"

lemma buffered_read_small:
  assumes "at_small brc s" "0 < n" "n \<le> length s" "0 < R"
  shows "\<exists>brc'. buffered_read (evbuffer_read R) brc n = Some (int n, take (min n R) s, brc') \<and>
    at_small brc' (drop (min n R) s)"
proof -
  have b: "br_buf brc = []" "br_file brc = s" "length s \<le> 65536" "s \<noteq> []"
    "br_total_size brc - br_offset brc = int (length s)" "br_buffer_size brc = 65536"
    "br_offset brc < br_total_size brc"
    using assms by (auto simp: at_small_def br_ok_def)
  have n: "off_of n = int n" using assms b by (simp add: off_of_def LONG_MAX_def)
  have "evbuffer_read R (int n) (length s) = int (min n R)"
    using assms by (auto simp: evbuffer_read_def Let_def)
  moreover have "br_offset brc + int (min n R) \<le> br_total_size brc"
    using assms(3) b(5) by (simp add: min_def)
  moreover have "min n R \<le> length s" using assms(3) by simp
  ultimately show ?thesis
    using b n assms
    by (auto simp: buffered_read_def Let_def br_remove_def at_small_def br_ok_def)
qed

lemma journal_reader_small:
  assumes "2 \<le> R"
  shows "journal_reader R (evbuffer_read R) at_small"
proof
  show "\<exists>brc'. buffered_read (evbuffer_read R) brc (length xs) = Some (int (length xs), xs, brc') \<and>
      at_small brc' ys"
    if "at_small brc (xs @ ys)" "xs \<noteq> []" "length xs \<le> R" "length xs \<le> 100000" for brc xs ys
    using buffered_read_small [OF that(1), of "length xs" R] that by (auto simp: min_def)
  show "buffered_read (evbuffer_read R) brc n = Some (0, [], brc)" if "at_small brc []" "0 < n" for brc n
    using that by (intro buffered_read_eof) (auto simp: at_small_def br_rest_def)
qed (use assms in simp)

interpretation file_reader: journal_reader 4096 "evbuffer_read 4096" at_text
  by (rule journal_reader_file) (simp_all add: evbuffer_read_reads)

interpretation small_reader: journal_reader 4096 "evbuffer_read 4096" at_small
  by (rule journal_reader_small) simp

section \<open>What the journal holds after a run\<close>

text \<open>
  A run of requests: for each the server context, the verb, the URI, the body, and whether it
  is for the slaves too. Allocation succeeds.
\<close>

type_synonym log_call = "log_context \<times> nat \<times> bytes \<times> bytes \<times> bool"

fun log_run :: "write_answers \<Rightarrow> db_log \<Rightarrow> log_call list \<Rightarrow> (db_log \<times> write_answers) option" where
  "log_run as db [] = Some (db, as)"
| "log_run as db ((ctx, verb, uri, body, send) # cs) =
     do {
       (r, db', sent, as') \<leftarrow> add_to_db_log as True True ctx verb uri body send db;
       log_run as' db' cs
     }"

definition strip_nul :: "bytes \<Rightarrow> bytes" where
  "strip_nul body = (if body \<noteq> [] \<and> last body = 0 then butlast body else body)"

fun logged_items :: "int \<Rightarrow> log_call list \<Rightarrow> item list" where
  "logged_items last_ts [] = []"
| "logged_items last_ts ((ctx, verb, uri, body, send) # cs) =
     (if length uri > 10000 \<or> length body > 100000 then logged_items last_ts cs
      else
        (let ts = start_of_minute (lc_now ctx)
         in (if ts > last_ts then [Stamp (nat ts)] else []) @ Request verb uri (strip_nul body) #
            logged_items (max ts last_ts) cs))"

lemma flush_loop_keeps:
  "flush_loop as n t db = Some (r, db', as') \<Longrightarrow>
   dl_file db' @ dl_log_buffer db' = dl_file db @ dl_log_buffer db \<and> dl_open db' = dl_open db \<and>
   dl_last_ts db' = dl_last_ts db \<and>
   dl_fsync_period db' = dl_fsync_period db \<and> dl_journal_buffer_size db' = dl_journal_buffer_size db \<and>
   (r = 0 \<longrightarrow> n = t + int (length (dl_log_buffer db)) \<longrightarrow> dl_log_buffer db' = [])"
proof (induction as n t db rule: flush_loop.induct)
  case (1 as n t db)
  show ?case
  proof (cases "t < n")
    case False
    then show ?thesis using "1.prems" by (subst (asm) flush_loop.simps) auto
  next
    case lt: True
    then obtain w e as1 where as: "as = (w, e) # as1"
      using "1.prems" by (subst (asm) flush_loop.simps) (auto split: list.splits)
    show ?thesis
    proof (cases "w < 0")
      case True
      then show ?thesis
        using "1.IH"(1) [OF lt as refl True] "1.prems" lt as
        by (subst (asm) (2) flush_loop.simps) (auto split: if_splits)
    next
      case False
      let ?db = "db\<lparr>dl_log_buffer := drop (nat w) (dl_log_buffer db),
        dl_file := dl_file db @ take (nat w) (dl_log_buffer db)\<rparr>"
      show ?thesis
      proof (cases "w = 0 \<and> dl_log_buffer ?db = []")
        case True
        then show ?thesis using "1.prems" lt as False by (subst (asm) flush_loop.simps) auto
      next
        case go: False
        then have "flush_loop as1 n (t + w) ?db = Some (r, db', as')"
          using "1.prems" lt as False by (subst (asm) flush_loop.simps) (simp add: Let_def split: if_splits)
        note ih = "1.IH"(2) [OF lt as refl False refl refl go this]
        show ?thesis
        proof (cases "nat w \<le> length (dl_log_buffer db)")
          case True
          then show ?thesis using ih False by auto
        next
          case big: False
          have "dl_log_buffer db' = []" if "n = t + int (length (dl_log_buffer db))"
          proof -
            have "\<not> t + w < n" using that big by linarith
            then have "flush_loop as1 n (t + w) ?db = Some (0, ?db, as1)"
              by (subst flush_loop.simps) simp
            then have "db' = ?db"
              using \<open>flush_loop as1 n (t + w) ?db = Some (r, db', as')\<close> by simp
            then show ?thesis using big by simp
          qed
          then show ?thesis using ih big by auto
        qed
      qed
    qed
  qed
qed

lemma flush_db_log_keeps:
  "flush_db_log as sync db = Some (r, db', as') \<Longrightarrow>
   dl_file db' @ dl_log_buffer db' = dl_file db @ dl_log_buffer db \<and> dl_open db' = dl_open db \<and>
   dl_last_ts db' = dl_last_ts db \<and>
   (r = 0 \<longrightarrow> sync \<longrightarrow> dl_open db \<longrightarrow> dl_log_buffer db' = [])"
  by (auto simp: flush_db_log_def split: if_splits dest!: flush_loop_keeps)

lemma enc_items_simps [simp]:
  "enc_items [] = []" "enc_items (i # is) = enc_item i @ enc_items is"
  "enc_items (is @ js) = enc_items is @ enc_items js"
  by (simp_all add: enc_items_def)

lemma flush_if_needed_cases:
  "flush_if_needed as db sent = Some (r, db', sent', as') \<Longrightarrow>
   db' = db \<or> (\<exists>r' sync. flush_db_log as sync db = Some (r', db', as'))"
  by (auto simp: flush_if_needed_def bind_eq_Some_conv split: if_splits)

lemma add_to_db_log_items:
  assumes "add_to_db_log as True True ctx verb uri body send db = Some (r, db', sent, as')" "dl_open db"
  shows "dl_open db' \<and> dl_file db' @ dl_log_buffer db' = dl_file db @ dl_log_buffer db @
      enc_items (logged_items (dl_last_ts db) [(ctx, verb, uri, body, send)]) \<and>
    dl_last_ts db' = (if length uri > 10000 \<or> length body > 100000 then dl_last_ts db
      else max (start_of_minute (lc_now ctx)) (dl_last_ts db))"
proof (cases "length uri > 10000 \<or> length body > 100000")
  case True
  then show ?thesis using assms
    by (auto simp: add_to_db_log_def DB_LOG_MAX_URI_LEN_def DB_LOG_MAX_BODY_LEN_def)
next
  case False
  let ?ts = "start_of_minute (lc_now ctx)"
  define db1 where "db1 = (if ?ts > dl_last_ts db
    then db\<lparr>dl_last_ts := ?ts, dl_log_buffer := add_ts_to_ev_log_buffer (dl_log_buffer db) ?ts\<rparr> else db)"
  let ?rec = "enc_item (Request verb uri (strip_nul body))"
  define db2 where "db2 = db1\<lparr>dl_log_buffer := dl_log_buffer db1 @ ?rec\<rparr>"
  have strip: "strip_nul body = take (if body \<noteq> [] \<and> last body = 0 then length body - 1 else length body) body"
    by (simp add: strip_nul_def butlast_conv_take)
  have len: "length (strip_nul body) = (if body \<noteq> [] \<and> last body = 0 then length body - 1 else length body)"
    by (simp add: strip_nul_def)
  have rec: "log_record verb uri (if body \<noteq> [] \<and> True then Some body else None)
      (if (if body \<noteq> [] \<and> True then Some body else None) \<noteq> None \<and> last body = 0
       then length body - 1 else length body) = ?rec"
    unfolding enc_item.simps strip len log_record_def by (cases "body = []") simp_all
  have db1: "dl_file db1 @ dl_log_buffer db1 = dl_file db @ dl_log_buffer db @
      enc_items (if ?ts > dl_last_ts db then [Stamp (nat ?ts)] else [])"
    "dl_last_ts db1 = max ?ts (dl_last_ts db)" "dl_open db1"
    using assms(2) by (auto simp: db1_def add_ts_to_ev_log_buffer_def)
  have db2: "dl_file db2 @ dl_log_buffer db2 = dl_file db @ dl_log_buffer db @
      enc_items (logged_items (dl_last_ts db) [(ctx, verb, uri, body, send)])"
    "dl_last_ts db2 = max ?ts (dl_last_ts db)" "dl_open db2"
    using db1 False by (auto simp: db2_def Let_def)
  have eq: "add_to_db_log as True True ctx verb uri body send db =
      flush_if_needed as db2 (if send \<and> (case lc_active_slaves ctx of None \<Rightarrow> False | Some n \<Rightarrow> n > 0)
        then [?rec] else [])"
    using assms(2) False
    unfolding add_to_db_log_def Let_def db1_def [symmetric] rec
      db2_def [symmetric] DB_LOG_MAX_URI_LEN_def DB_LOG_MAX_BODY_LEN_def by simp
  have "db' = db2 \<or> (\<exists>r' sync. flush_db_log as sync db2 = Some (r', db', as'))"
    by (rule flush_if_needed_cases [OF trans [OF eq [symmetric] assms(1)]])
  then show ?thesis using db2 flush_db_log_keeps [of as _ db2 _ db' as'] False by auto
qed

lemma log_run_items:
  assumes "log_run as db cs = Some (db', as')" "dl_open db"
  shows "dl_open db' \<and> dl_file db' @ dl_log_buffer db' = dl_file db @ dl_log_buffer db @
    enc_items (logged_items (dl_last_ts db) cs)"
  using assms
proof (induction as db cs rule: log_run.induct)
  case (2 as db ctx verb uri body send cs)
  then obtain r db1 sent as1 where a:
    "add_to_db_log as True True ctx verb uri body send db = Some (r, db1, sent, as1)"
    "log_run as1 db1 cs = Some (db', as')"
    by (auto simp: bind_eq_Some_conv)
  note step = add_to_db_log_items [OF a(1) "2.prems"(2)]
  then have "dl_open db' \<and> dl_file db' @ dl_log_buffer db' = dl_file db1 @ dl_log_buffer db1 @
      enc_items (logged_items (dl_last_ts db1) cs)"
    using "2.IH" [OF a(1) refl refl refl] a(2) by auto
  then show ?case using step by (auto simp: Let_def)
qed simp

section \<open>Properties\<close>

definition fresh_log :: "int \<Rightarrow> nat \<Rightarrow> db_log" where
  "fresh_log fsync_period journal_buffer_size =
     \<lparr>dl_open = True, dl_log_buffer = [], dl_file = [], dl_journal_buffer_size = journal_buffer_size,
      dl_fsync_period = fsync_period, dl_last_ts = - 1\<rparr>"

text \<open>
  C6: the journal round trip. Whatever the partial and interrupted writes, once the log buffer
  of a new journal has been flushed, the file holds every accepted request with the time stamps,
  and replaying it hands the same requests, verb, URI and body, to the handler, each once and in
  the order in which they were logged, provided that every URI and body is no longer than what one
  call of evbuffer_read moves. Only the final zero byte of a body is not kept.
\<close>

theorem journal_round_trip:
  assumes run: "log_run as (fresh_log fsync_period buffer_size) calls = Some (db1, as1)"
    and flush: "flush_db_log as1 True db1 = Some (0, db2, as2)"
    and items: "\<forall>i \<in> set (logged_items (- 1) calls). item_ok R i"
    and reader: "2 \<le> R" "reads_up_to R ev_read" "length (dl_file db2) < 2 ^ 62"
  shows "dl_file db2 = enc_items (logged_items (- 1) calls) \<and>
    replay_log ev_read fake_request junk (Some (dl_file db2)) s =
      Some (0, length (logged_items (- 1) calls), fold (apply_item fake_request) (logged_items (- 1) calls) s)"
proof -
  let ?is = "logged_items (- 1) calls"
  have l: "dl_open db1" "dl_file db1 @ dl_log_buffer db1 = enc_items ?is"
    using log_run_items [OF run] by (simp_all add: fresh_log_def)
  then have f: "dl_file db2 = enc_items ?is"
    using flush_db_log_keeps [OF flush] by auto
  have "at_text (init_buffered_read (dl_file db2)) (enc_items ?is)"
    using reader(3) f by (auto simp: at_text_def intro!: br_ok_init) (simp add: LONG_MAX_def)
  then have "replay_loop ev_read fake_request junk 0 (init_buffered_read (dl_file db2)) s =
      Some (1, 0 + length ?is, fold (apply_item fake_request) ?is s)"
    by (rule journal_reader.replay_items [OF journal_reader_file [OF reader(1,2)] _ items])
  then show ?thesis using f by (simp add: replay_log_def)
qed

text \<open>
  A journalled body that is longer than what one call of evbuffer_read moves, 4096 bytes with
  the bundled library, cannot be replayed: the reader takes the first R bytes for the whole
  body, the tail cookie is not found behind them, the request is lost, the replay stops there and
  reports a corrupted journal, although the record was written correctly.
\<close>

theorem journal_long_body_is_lost:
  assumes "2 \<le> R" "R < length body" "length body \<le> 100000" "verb < 2 ^ 31"
    and "uri \<noteq> []" "0 \<notin> set uri" "length uri \<le> R" "length uri \<le> 100000"
    and "take 2 (drop R (body @ cookie_tail)) \<noteq> cookie_tail"
    and "length (enc_item (Request verb uri body)) \<le> 65536"
  shows "replay_log (evbuffer_read R) fake_request junk (Some (enc_item (Request verb uri body))) s =
    Some (- 1, 0, s)"
proof -
  let ?ev = "evbuffer_read R" and ?text = "body @ cookie_tail"
  let ?more = "hex_of (length uri) @ colon # uri @ space # hex_of (length body) @ colon # ?text"
  note jr = journal_reader_small [OF assms(1)]
  have at0: "at_small (init_buffered_read (enc_item (Request verb uri body)))
      (cookie_head @ hex_of verb @ space # ?more)"
    using assms(10) by (simp add: at_small_def init_buffered_read_def br_ok_def LONG_MAX_def
        DEFAULT_BUFFERED_READ_BUFFER_SIZE_def)
  have "length (hex_of verb) \<le> 8" using assms(4) by (intro digits_of_length) simp_all
  then have len: "length (hex_of verb) < 50" by simp
  have hd: "hd (hex_of verb) \<noteq> mark_char"
    using hex_of_plain(3) [of verb] hd_in_set [of "hex_of verb"] by fastforce
  obtain jk brc2 where r: "at_small brc2 ?more" "length (hex_of verb @ space # jk) = 50"
    "replay_log_record ?ev fake_request junk True (init_buffered_read (enc_item (Request verb uri body))) s =
      replay_request ?ev fake_request junk (hex_of verb @ space # jk) brc2 s"
    using journal_reader.replay_head [OF jr at0 hex_of_plain(1) len digits_of_nonempty,
        of fake_request junk s] hd by auto
  obtain brc3 uri' where q: "replay_request ?ev fake_request junk (hex_of verb @ space # jk) brc2 s =
      replay_body ?ev fake_request junk (int verb) uri' (length body) brc3 s" "at_small brc3 ?text"
    using journal_reader.replay_request_to_body [OF jr r(1) assms(4-8,3) r(2), of fake_request junk s]
    by blast
  obtain brc4 where b: "buffered_read ?ev brc3 (length body) =
      Some (int (length body), take R ?text, brc4)" "at_small brc4 (drop R ?text)"
  proof -
    have "0 < length body" using assms(2) by linarith
    then show ?thesis
      using that buffered_read_small [OF q(2), of "length body" R] assms(1,2) by auto
  qed
  have "length cookie_tail = 2" by (simp add: cookie_tail_def)
  then obtain brc5 where t: "buffered_read ?ev brc4 2 = Some (2, take 2 (drop R ?text), brc5)"
    using buffered_read_small [OF b(2), of 2 R] assms(1,2) by auto
  have "write_at (replicate 2 junk) 0 (take 2 (drop R ?text)) = take 2 (drop R ?text)"
    using assms(2) \<open>length cookie_tail = 2\<close> by (simp add: write_at_def)
  then have tail: "read_tail ?ev junk brc4 = Some (False, brc5)"
    using t assms(9) \<open>length cookie_tail = 2\<close> by (simp add: read_tail_def)
  have sz: "size_add (length body) 1 = length body + 1" "off_of (length body) = int (length body)"
    using assms(3) by (auto intro!: size_add_small off_of_small simp: SIZE_MAX_def LONG_MAX_def)
  obtain bd where "read_block ?ev junk (length body) brc3 = Some (Some bd, brc4)"
    using b(1) sz assms(2) by (simp add: read_block_def)
  then have "replay_body ?ev fake_request junk (int verb) uri' (length body) brc3 s =
      Some (- 1, brc5, s, None)"
    using tail assms(2) by (auto simp: replay_body_def)
  then show ?thesis
    using r(3) q(1) by (subst replay_log_def, subst replay_loop.simps) simp
qed

text \<open>
  Flushing without the sync flag writes nothing at all, so the journal_buffer_size setting
  has no effect: only a flush with the flag, with an fsync period of 0, from the periodic timer or
  at the end, moves bytes to the file.
\<close>

theorem flush_without_sync_writes_nothing:
  "flush_db_log as False db = Some (0, db, as)"
  by (simp add: flush_db_log_def flush_loop.simps)

section \<open>Witnesses\<close>

definition sample_calls :: "log_call list" where
  "sample_calls =
     [(\<lparr>lc_now = 125, lc_active_slaves = None\<rparr>, 8, bytes_of ''/k'', bytes_of ''a=b'' @ [0], True),
      (\<lparr>lc_now = 130, lc_active_slaves = Some 1\<rparr>, 16, bytes_of ''/k'', [], True)]"

lemma sample_items:
  "logged_items (- 1) sample_calls =
     [Stamp 120, Request 8 (bytes_of ''/k'') (bytes_of ''a=b''),
      Request 16 (bytes_of ''/k'') []]"
  by (simp add: sample_calls_def start_of_minute_def DB_LOG_TIMESTAMP_GRANULARITY_def strip_nul_def)

definition sample_text :: bytes where
  "sample_text = enc_items [Stamp 120, Request 8 (bytes_of ''/k'') (bytes_of ''a=b''),
     Request 16 (bytes_of ''/k'') []]"

definition sample_log :: db_log where
  "sample_log = (fresh_log 5 1000000)\<lparr>dl_log_buffer := sample_text, dl_last_ts := 120\<rparr>"

lemmas sample_eval = sample_calls_def add_to_db_log_def fresh_log_def flush_if_needed_def log_record_def
  DB_LOG_MAX_URI_LEN_def DB_LOG_MAX_BODY_LEN_def DB_LOG_TIMESTAMP_GRANULARITY_def start_of_minute_def sample_log_def
  add_ts_to_ev_log_buffer_def Let_def sample_text_def bytes_of_def cookie_head_def cookie_tail_def
  digits_of.simps digit_char_def

lemma sample_run: "log_run as (fresh_log 5 1000000) sample_calls = Some (sample_log, as)"
  by (simp add: sample_eval)

lemma sample_flush:
  "flush_db_log [(10, EOTHER), (- 1, EINTR), (29, EOTHER)] True sample_log =
     Some (0, sample_log\<lparr>dl_log_buffer := [], dl_file := sample_text\<rparr>, [])"
proof -
  have len: "length sample_text = 39" "sample_text \<noteq> []" by (simp_all add: sample_eval)
  show ?thesis
    unfolding flush_db_log_def
    using len by (simp add: sample_log_def fresh_log_def flush_loop.simps)
qed

theorem journal_round_trip_witness:
  "dl_file (sample_log\<lparr>dl_log_buffer := [], dl_file := sample_text\<rparr>) = enc_items (logged_items (- 1) sample_calls) \<and>
   replay_log (evbuffer_read 4096) (\<lambda>s verb uri body. s @ [(verb, uri, body)]) 0 (Some sample_text) [] =
     Some (0, 3, [(8, bytes_of ''/k'', bytes_of ''a=b''), (16, bytes_of ''/k'', [])])"
proof -
  have items: "\<forall>i \<in> set (logged_items (- 1) sample_calls). item_ok 4096 i"
    unfolding sample_items by (simp add: LONG_MAX_def bytes_of_def)
  have len: "length (dl_file (sample_log\<lparr>dl_log_buffer := [], dl_file := sample_text\<rparr>)) < 2 ^ 62"
    by (simp add: sample_eval)
  show ?thesis
    using journal_round_trip [OF sample_run sample_flush items _ evbuffer_read_reads len,
        of "\<lambda>s verb uri body. s @ [(verb, uri, body)]" 0 "[]"]
    by (simp add: sample_items)
qed

theorem journal_long_body_is_lost_witness:
  "replay_log (evbuffer_read 4096) (\<lambda>n verb uri body. n + 1) 0
     (Some (enc_item (Request 8 (bytes_of ''/k'') (replicate 5000 120)))) (0 :: nat) = Some (- 1, 0, 0)"
proof -
  have body: "drop 4096 (replicate 5000 120 @ cookie_tail) = replicate 904 120 @ cookie_tail" by simp
  have hex: "hex_of 5000 = bytes_of ''1388''" "hex_of 8 = bytes_of ''8''" "hex_of (Suc (Suc 0)) = bytes_of ''2''"
    by (simp_all add: digits_of.simps digit_char_def bytes_of_def)
  have "replicate 2 (120 :: byte) = [120, 120]" by (simp add: replicate_numeral)
  then have "take 2 (drop 4096 (replicate 5000 120 @ cookie_tail)) \<noteq> cookie_tail"
    unfolding body by (simp add: cookie_tail_def)
  then show ?thesis
    by (intro journal_long_body_is_lost)
      (simp_all add: hex bytes_of_def cookie_tail_def cookie_head_def)
qed

end
