(* ===== verification/Slab.thy ===== *)
theory Slab
  imports Pincaster_Prelude
begin

text \<open>
  The slab allocator (src/slab.c, src/slab.h, src/slab_p.h): chunks of 64 slots with a
  bitmap of the free ones, on doubly linked lists of partially used and of full chunks.
  The heap maps chunk addresses to chunks, an entry is addressed by its chunk and its slot
  number, and an access to a chunk that is not allocated is a fault. The memory layout
  inside a chunk (alignment gaps, slot size) is not modelled. The theory ends with the
  allocator's interface as a locale.
\<close>

unbundle bit_operations_syntax

section \<open>Chunks and lists\<close>

record 'a chunk =
  bitmap :: "64 word"
  chunk_next :: "nat option"
  chunk_previous :: "nat option"
  slot_data :: "nat \<Rightarrow> 'a option"
  slot_chunk :: "nat \<Rightarrow> nat option"

record 'a slab =
  chunks :: "nat \<Rightarrow> 'a chunk option"
  first_partial_chunk :: "nat option"
  first_full_chunk :: "nat option"

type_synonym slab_entry = "nat \<times> nat"

definition nb_slots_per_chunk :: nat where
  "nb_slots_per_chunk = 64"

definition init_slab :: "'a slab" where
  "init_slab = \<lparr>chunks = (\<lambda>_. None), first_partial_chunk = None, first_full_chunk = None\<rparr>"

text \<open>ffsl: one plus the number of the lowest bit that is set, 0 if there is none.\<close>

definition ffsl :: "64 word \<Rightarrow> nat" where
  "ffsl w = (case filter (bit w) [0..<64] of [] \<Rightarrow> 0 | i # is \<Rightarrow> i + 1)"

definition new_slab_chunk :: "'a chunk" where
  "new_slab_chunk =
     \<lparr>bitmap = - 1, chunk_next = None, chunk_previous = None, slot_data = (\<lambda>_. None),
      slot_chunk = (\<lambda>_. None)\<rparr>"

text \<open>Writing to a chunk through a pointer.\<close>

definition upd_chunk ::
  "(nat \<Rightarrow> 'a chunk option) \<Rightarrow> nat \<Rightarrow> ('a chunk \<Rightarrow> 'a chunk) \<Rightarrow> (nat \<Rightarrow> 'a chunk option) option" where
  "upd_chunk h c f = (case h c of None \<Rightarrow> None | Some ch \<Rightarrow> Some (h(c \<mapsto> f ch)))"

text \<open>The two writes that take a chunk out of its list.\<close>

definition unlink_chunk ::
  "(nat \<Rightarrow> 'a chunk option) \<Rightarrow> nat \<Rightarrow> (nat \<Rightarrow> 'a chunk option) option" where
  "unlink_chunk h c =
     do {
       ch \<leftarrow> h c;
       h1 \<leftarrow> (case chunk_previous ch of
                None \<Rightarrow> Some h
              | Some p \<Rightarrow> upd_chunk h p (\<lambda>x. x\<lparr>chunk_next := chunk_next ch\<rparr>));
       (case chunk_next ch of
          None \<Rightarrow> Some h1
        | Some n \<Rightarrow> upd_chunk h1 n (\<lambda>x. x\<lparr>chunk_previous := chunk_previous ch\<rparr>))
     }"

text \<open>The writes that put a chunk at the front of a list.\<close>

definition push_chunk ::
  "(nat \<Rightarrow> 'a chunk option) \<Rightarrow> nat \<Rightarrow> nat option \<Rightarrow> (nat \<Rightarrow> 'a chunk option) option" where
  "push_chunk h c first =
     do {
       h1 \<leftarrow> upd_chunk h c (\<lambda>x. x\<lparr>chunk_next := first, chunk_previous := None\<rparr>);
       (case first of
          None \<Rightarrow> Some h1
        | Some n \<Rightarrow> upd_chunk h1 n (\<lambda>x. x\<lparr>chunk_previous := Some c\<rparr>))
     }"

section \<open>Operations\<close>

text \<open>Taking and giving back a slot: its data, its slab_chunk pointer and its bit.\<close>

definition fill_slot :: "nat \<Rightarrow> nat \<Rightarrow> 'a \<Rightarrow> 'a chunk \<Rightarrow> 'a chunk" where
  "fill_slot c b entry ch =
     ch\<lparr>slot_data := (slot_data ch)(b \<mapsto> entry), slot_chunk := (slot_chunk ch)(b \<mapsto> c),
        bitmap := bitmap ch AND NOT (push_bit b 1)\<rparr>"

definition clear_slot :: "nat \<Rightarrow> 'a chunk \<Rightarrow> 'a chunk" where
  "clear_slot b ch =
     ch\<lparr>slot_chunk := (slot_chunk ch)(b := None), bitmap := bitmap ch OR push_bit b 1\<rparr>"

text \<open>
  add_entry_to_slab. \<open>new\<close> is the address that malloc gives if a chunk is needed. The
  result is the entry's address, or NULL. When the last free slot of the first partial
  chunk is taken, first_partial_chunk becomes NULL, as in the source.
\<close>

definition add_entry_to_slab :: "nat option \<Rightarrow> 'a \<Rightarrow> 'a slab \<Rightarrow> (slab_entry option \<times> 'a slab) option" where
  "add_entry_to_slab new entry s =
     (case (case first_partial_chunk s of
              Some c \<Rightarrow> Some (Some (c, s))
            | None \<Rightarrow>
                (case new of
                   None \<Rightarrow> Some None
                 | Some c \<Rightarrow>
                     (if chunks s c \<noteq> None then None
                      else Some (Some (c, s\<lparr>chunks := (chunks s)(c \<mapsto> new_slab_chunk),
                                           first_partial_chunk := Some c\<rparr>))))) of
        None \<Rightarrow> None
      | Some None \<Rightarrow> Some (None, s)
      | Some (Some (c, s1)) \<Rightarrow>
          do {
            ch \<leftarrow> chunks s1 c;
            c_assert (ffsl (bitmap ch) > 0);
            (let b = ffsl (bitmap ch) - 1;
                 ch' = fill_slot c b entry ch;
                 h1 = (chunks s1)(c \<mapsto> ch')
             in if bitmap ch' = 0 then
                  do {
                    h2 \<leftarrow> unlink_chunk h1 c;
                    c_assert (first_partial_chunk s1 = Some c \<longrightarrow> chunk_previous ch' = None);
                    h3 \<leftarrow> push_chunk h2 c (first_full_chunk s1);
                    Some (Some (c, b),
                      s1\<lparr>chunks := h3,
                         first_partial_chunk :=
                           (if first_partial_chunk s1 = Some c then None else first_partial_chunk s1),
                         first_full_chunk := Some c\<rparr>)
                  }
                else Some (Some (c, b), s1\<lparr>chunks := h1\<rparr>))
          })"

text \<open>
  remove_entry_from_slab: the slot's slab_chunk pointer names the chunk, in which the slot is
  searched; -1 when it is not there.
\<close>

definition remove_entry_from_slab :: "slab_entry \<Rightarrow> 'a slab \<Rightarrow> (int \<times> 'a slab) option" where
  "remove_entry_from_slab entry s =
     (let (c, b) = entry
      in do {
           ch \<leftarrow> chunks s c;
           c_assert (slot_chunk ch b \<noteq> None);
           (if slot_chunk ch b \<noteq> Some c \<or> b \<ge> nb_slots_per_chunk then Some (- 1, s)
            else
              (let was_full = (bitmap ch = 0);
                   ch1 = clear_slot b ch;
                   s1 = s\<lparr>chunks := (chunks s)(c \<mapsto> ch1)\<rparr>
               in do {
                 s2 \<leftarrow> (if was_full then
                           do {
                             h1 \<leftarrow> unlink_chunk (chunks s1) c;
                             c_assert (first_full_chunk s1 = Some c \<longrightarrow> chunk_previous ch1 = None);
                             h2 \<leftarrow> push_chunk h1 c (first_partial_chunk s1);
                             Some (s1\<lparr>chunks := h2,
                                      first_full_chunk :=
                                        (if first_full_chunk s1 = Some c then chunk_next ch1
                                         else first_full_chunk s1),
                                      first_partial_chunk := Some c\<rparr>)
                           }
                         else Some s1);
                 ch2 \<leftarrow> chunks s2 c;
                 (if bitmap ch2 = - 1 then
                    do {
                      c_assert (\<not> was_full);
                      h1 \<leftarrow> unlink_chunk (chunks s2) c;
                      Some (0, s2\<lparr>chunks := h1(c := None),
                                  first_partial_chunk :=
                                    (if first_partial_chunk s2 = Some c then chunk_next ch2
                                     else first_partial_chunk s2)\<rparr>)
                    }
                  else Some (0, s2))
               }))
         })"

text \<open>
  slab_foreach: the used slots of every chunk on the two lists, the partial ones first. The
  callback gets the entry's address and its data; a non-zero result stops the walk.
\<close>

fun foreach_slots ::
  "('c \<Rightarrow> slab_entry \<Rightarrow> 'a \<Rightarrow> (int \<times> 'c) option) \<Rightarrow> nat \<Rightarrow> 'a chunk \<Rightarrow> nat list \<Rightarrow> 'c \<Rightarrow>
   (int \<times> 'c) option" where
  "foreach_slots cb c ch [] ctx = Some (0, ctx)"
| "foreach_slots cb c ch (b # bs) ctx =
     (if bit (bitmap ch) b then foreach_slots cb c ch bs ctx
      else
        do {
          e \<leftarrow> slot_data ch b;
          (ret, ctx') \<leftarrow> cb ctx (c, b) e;
          (if ret \<noteq> 0 then Some (ret, ctx') else foreach_slots cb c ch bs ctx')
        })"

partial_function (option) foreach_chunks ::
  "('c \<Rightarrow> slab_entry \<Rightarrow> 'a \<Rightarrow> (int \<times> 'c) option) \<Rightarrow> (nat \<Rightarrow> 'a chunk option) \<Rightarrow> nat option \<Rightarrow> 'c \<Rightarrow>
   (int \<times> 'c) option" where
  "foreach_chunks cb h chunk ctx =
     (case chunk of
        None \<Rightarrow> Some (0, ctx)
      | Some c \<Rightarrow>
          do {
            ch \<leftarrow> h c;
            (ret, ctx') \<leftarrow> foreach_slots cb c ch [0..<nb_slots_per_chunk] ctx;
            (if ret \<noteq> 0 then Some (ret, ctx') else foreach_chunks cb h (chunk_next ch) ctx')
          })"

definition slab_foreach ::
  "('c \<Rightarrow> slab_entry \<Rightarrow> 'a \<Rightarrow> (int \<times> 'c) option) \<Rightarrow> 'a slab \<Rightarrow> 'c \<Rightarrow> (int \<times> 'c) option" where
  "slab_foreach cb s ctx =
     do {
       (ret, ctx') \<leftarrow> foreach_chunks cb (chunks s) (first_partial_chunk s) ctx;
       (if ret \<noteq> 0 then Some (ret, ctx')
        else foreach_chunks cb (chunks s) (first_full_chunk s) ctx')
     }"

text \<open>free_slab, after the callback has run over the entries: the chunks of the two lists are freed.\<close>

partial_function (option) free_chunks ::
  "(nat \<Rightarrow> 'a chunk option) \<Rightarrow> nat option \<Rightarrow> (nat \<Rightarrow> 'a chunk option) option" where
  "free_chunks h chunk =
     (case chunk of
        None \<Rightarrow> Some h
      | Some c \<Rightarrow>
          do {
            ch \<leftarrow> h c;
            free_chunks (h(c := None)) (chunk_next ch)
          })"

definition free_slab :: "'a slab \<Rightarrow> 'a slab option" where
  "free_slab s =
     do {
       h1 \<leftarrow> free_chunks (chunks s) (first_partial_chunk s);
       h2 \<leftarrow> free_chunks h1 (first_full_chunk s);
       Some (s\<lparr>chunks := h2, first_partial_chunk := None, first_full_chunk := None\<rparr>)
     }"

section \<open>List segments\<close>

text \<open>
  A doubly linked segment: from the pointer \<open>f\<close>, whose chunk has \<open>p\<close> as previous, over the
  chunks \<open>xs\<close>, to the last one \<open>l\<close>, whose next pointer is \<open>q\<close>.
\<close>

fun lseg ::
  "(nat \<Rightarrow> 'a chunk option) \<Rightarrow> nat option \<Rightarrow> nat option \<Rightarrow> nat list \<Rightarrow> nat option \<Rightarrow> nat option \<Rightarrow> bool" where
  "lseg h p f [] l q \<longleftrightarrow> f = q \<and> l = p"
| "lseg h p f (c # cs) l q \<longleftrightarrow>
     f = Some c \<and> (\<exists>ch. h c = Some ch \<and> chunk_previous ch = p \<and> lseg h (Some c) (chunk_next ch) cs l q)"

definition chunk_list :: "(nat \<Rightarrow> 'a chunk option) \<Rightarrow> nat option \<Rightarrow> nat list \<Rightarrow> bool" where
  "chunk_list h f xs \<longleftrightarrow> distinct xs \<and> (\<exists>l. lseg h None f xs l None)"

lemma lseg_append:
  "lseg h p f (xs @ ys) l q \<longleftrightarrow> (\<exists>m n. lseg h p f xs m n \<and> lseg h m n ys l q)"
  by (induction xs arbitrary: p f) auto

definition same_links :: "(nat \<Rightarrow> 'a chunk option) \<Rightarrow> (nat \<Rightarrow> 'a chunk option) \<Rightarrow> nat \<Rightarrow> bool" where
  "same_links h h' c \<longleftrightarrow>
     map_option (\<lambda>ch. (chunk_next ch, chunk_previous ch)) (h' c) =
     map_option (\<lambda>ch. (chunk_next ch, chunk_previous ch)) (h c)"

lemma lseg_cong:
  "\<forall>c \<in> set xs. same_links h h' c \<Longrightarrow> lseg h p f xs l q \<Longrightarrow> lseg h' p f xs l q"
  by (induction xs arbitrary: p f) (auto simp: same_links_def)

lemma lseg_dom: "lseg h p f xs l q \<Longrightarrow> c \<in> set xs \<Longrightarrow> h c \<noteq> None"
  by (induction xs arbitrary: p f) auto

lemma lseg_last: "lseg h p f xs l q \<Longrightarrow> l = (if xs = [] then p else Some (last xs))"
  by (induction xs arbitrary: p f) auto

lemma lseg_first: "lseg h p f xs l q \<Longrightarrow> f = (if xs = [] then q else Some (hd xs))"
  by (cases xs) auto

lemma lseg_set_next:
  assumes "lseg h p f (xs @ [x]) l q" "x \<notin> set xs"
  shows "\<exists>ch. h x = Some ch \<and> lseg (h(x \<mapsto> ch\<lparr>chunk_next := q'\<rparr>)) p f (xs @ [x]) l q'"
proof -
  obtain m ch where x: "lseg h p f xs m (Some x)" "h x = Some ch" "chunk_previous ch = m" "l = Some x"
    using assms(1) by (auto simp: lseg_append)
  have "lseg (h(x \<mapsto> ch\<lparr>chunk_next := q'\<rparr>)) p f xs m (Some x)"
    using assms(2) by (intro lseg_cong [OF _ x(1)]) (auto simp: same_links_def)
  then show ?thesis using x by (auto simp: lseg_append)
qed

lemma lseg_set_previous:
  assumes "lseg h p f (x # xs) l q" "x \<notin> set xs"
  shows "\<exists>ch. h x = Some ch \<and> lseg (h(x \<mapsto> ch\<lparr>chunk_previous := p'\<rparr>)) p' f (x # xs) l q"
proof -
  obtain ch where x: "f = Some x" "h x = Some ch" "lseg h (Some x) (chunk_next ch) xs l q"
    using assms(1) by auto
  have "lseg (h(x \<mapsto> ch\<lparr>chunk_previous := p'\<rparr>)) (Some x) (chunk_next ch) xs l q"
    using assms(2) by (intro lseg_cong [OF _ x(3)]) (auto simp: same_links_def)
  then show ?thesis using x by auto
qed

text \<open>What list operations never change: a chunk's bitmap and slots.\<close>

definition same_slots :: "(nat \<Rightarrow> 'a chunk option) \<Rightarrow> (nat \<Rightarrow> 'a chunk option) \<Rightarrow> bool" where
  "same_slots h h' \<longleftrightarrow>
     (\<forall>c. map_option (\<lambda>ch. (bitmap ch, slot_data ch, slot_chunk ch)) (h' c) =
          map_option (\<lambda>ch. (bitmap ch, slot_data ch, slot_chunk ch)) (h c))"

lemma same_slots_refl [simp]: "same_slots h h"
  by (simp add: same_slots_def)

lemma same_slots_trans: "same_slots h1 h2 \<Longrightarrow> same_slots h2 h3 \<Longrightarrow> same_slots h1 h3"
  by (simp add: same_slots_def)

lemma same_slots_links:
  "h c = Some ch \<Longrightarrow> same_slots h (h(c \<mapsto> ch\<lparr>chunk_next := n\<rparr>))"
  "h c = Some ch \<Longrightarrow> same_slots h (h(c \<mapsto> ch\<lparr>chunk_previous := p\<rparr>))"
  "h c = Some ch \<Longrightarrow> same_slots h (h(c \<mapsto> ch\<lparr>chunk_next := n, chunk_previous := p\<rparr>))"
  by (auto simp: same_slots_def)

text \<open>Taking a chunk out of its list.\<close>

lemma unlink_chunk_list:
  assumes "chunk_list h f (xs @ c # ys)"
  shows "\<exists>h' ch. h c = Some ch \<and> unlink_chunk h c = Some h' \<and> h' c = Some ch \<and>
    chunk_list h' (if f = Some c then chunk_next ch else f) (xs @ ys) \<and>
    (f = Some c \<longrightarrow> chunk_previous ch = None) \<and>
    same_slots h h' \<and> (\<forall>d. d \<notin> set xs \<union> set ys \<longrightarrow> h' d = h d)"
proof -
  obtain l m where l: "lseg h None f xs m (Some c)" "lseg h m (Some c) (c # ys) l None"
    and d: "distinct (xs @ c # ys)"
    using assms by (auto simp: chunk_list_def lseg_append)
  obtain ch where ch: "h c = Some ch" "chunk_previous ch = m" "lseg h (Some c) (chunk_next ch) ys l None"
    using l(2) by auto
  define h1 where "h1 = (case m of None \<Rightarrow> h
    | Some p \<Rightarrow> h(p \<mapsto> (the (h p))\<lparr>chunk_next := chunk_next ch\<rparr>))"
  define h2 where "h2 = (case chunk_next ch of None \<Rightarrow> h1
    | Some n \<Rightarrow> h1(n \<mapsto> (the (h1 n))\<lparr>chunk_previous := m\<rparr>))"
  let ?f = "if f = Some c then chunk_next ch else f"
  have m: "m = (if xs = [] then None else Some (last xs))" using lseg_last [OF l(1)] by simp
  have n: "chunk_next ch = (if ys = [] then None else Some (hd ys))" using lseg_first [OF ch(3)] by simp
  have f: "f = (if xs = [] then Some c else Some (hd xs))" using lseg_first [OF l(1)] by simp
  then have fc: "f = Some c \<longleftrightarrow> xs = []" using d by (cases xs) auto
  have s1: "lseg h1 None ?f xs m (chunk_next ch) \<and> same_slots h h1 \<and> (\<forall>d. d \<notin> set xs \<longrightarrow> h1 d = h d) \<and>
      (m \<noteq> None \<longrightarrow> upd_chunk h (the m) (\<lambda>x. x\<lparr>chunk_next := chunk_next ch\<rparr>) = Some h1)"
  proof (cases xs rule: rev_cases)
    case Nil
    then show ?thesis using m fc by (simp add: h1_def)
  next
    case (snoc zs z)
    obtain chz where z: "h z = Some chz"
      "lseg (h(z \<mapsto> chz\<lparr>chunk_next := chunk_next ch\<rparr>)) None f (zs @ [z]) m (chunk_next ch)"
      using lseg_set_next [of h None f zs z m "Some c" "chunk_next ch"] l(1) d snoc by auto
    then show ?thesis using m fc snoc
      by (auto simp: h1_def upd_chunk_def intro: same_slots_links)
  qed
  have ys1: "lseg h1 (Some c) (chunk_next ch) ys l None"
    using s1 d by (intro lseg_cong [OF _ ch(3)]) (auto simp: same_links_def)
  have s2: "lseg h2 m (chunk_next ch) ys (if ys = [] then m else l) None \<and> same_slots h1 h2 \<and>
      (\<forall>d. d \<notin> set ys \<longrightarrow> h2 d = h1 d) \<and>
      (chunk_next ch \<noteq> None \<longrightarrow> upd_chunk h1 (the (chunk_next ch)) (\<lambda>x. x\<lparr>chunk_previous := m\<rparr>) = Some h2)"
  proof (cases ys)
    case Nil
    then show ?thesis using n by (simp add: h2_def)
  next
    case (Cons z zs)
    obtain chz where z: "h1 z = Some chz"
      "lseg (h1(z \<mapsto> chz\<lparr>chunk_previous := m\<rparr>)) m (chunk_next ch) (z # zs) l None"
      using lseg_set_previous [of h1 "Some c" "chunk_next ch" z zs l None m] ys1 d Cons by auto
    then show ?thesis using n Cons
      by (auto simp: h2_def upd_chunk_def intro: same_slots_links)
  qed
  have xs2: "lseg h2 None ?f xs m (chunk_next ch)"
    using s1 s2 d by (intro lseg_cong [of xs h1 h2]) (auto simp: same_links_def)
  have "unlink_chunk h c = Some h2"
    using ch(1,2) s1 s2
    by (cases m; cases "chunk_next ch") (auto simp: unlink_chunk_def h1_def h2_def)
  moreover have "h2 c = Some ch" using s1 s2 d ch(1) by auto
  moreover have "chunk_list h2 ?f (xs @ ys)"
    using xs2 s2 d by (auto simp: chunk_list_def lseg_append)
  moreover have "same_slots h h2" using s1 s2 same_slots_trans by blast
  moreover have "\<forall>d. d \<notin> set xs \<union> set ys \<longrightarrow> h2 d = h d" using s1 s2 by auto
  moreover have "f = Some c \<longrightarrow> chunk_previous ch = None" using ch(2) m fc by auto
  ultimately show ?thesis using ch(1) by blast
qed

text \<open>Putting a chunk at the front of a list.\<close>

lemma push_chunk_list:
  assumes "chunk_list h f xs" "h c = Some ch" "c \<notin> set xs"
  shows "\<exists>h'. push_chunk h c f = Some h' \<and> chunk_list h' (Some c) (c # xs) \<and>
    same_slots h h' \<and> (\<forall>d. d \<notin> set (c # xs) \<longrightarrow> h' d = h d)"
proof -
  let ?h1 = "h(c \<mapsto> ch\<lparr>chunk_next := f, chunk_previous := None\<rparr>)"
  obtain l where l: "lseg h None f xs l None" and d: "distinct xs"
    using assms(1) by (auto simp: chunk_list_def)
  have l1: "lseg ?h1 None f xs l None"
    using assms(3) by (intro lseg_cong [OF _ l]) (auto simp: same_links_def)
  have s1: "same_slots h ?h1" using assms(2) by (intro same_slots_links)
  show ?thesis
  proof (cases xs)
    case Nil
    then show ?thesis using l1 assms(2) s1
      by (auto simp: push_chunk_def upd_chunk_def chunk_list_def)
  next
    case (Cons z zs)
    obtain chz where z: "?h1 z = Some chz"
      "lseg (?h1(z \<mapsto> chz\<lparr>chunk_previous := Some c\<rparr>)) (Some c) f (z # zs) l None"
      using lseg_set_previous [of ?h1 None f z zs l None "Some c"] l1 d Cons by auto
    have "same_slots ?h1 (?h1(z \<mapsto> chz\<lparr>chunk_previous := Some c\<rparr>))"
      using z(1) by (intro same_slots_links)
    then have "same_slots h (?h1(z \<mapsto> chz\<lparr>chunk_previous := Some c\<rparr>))"
      using s1 same_slots_trans by blast
    moreover have "z \<noteq> c" "f = Some z" using assms(3) Cons l by auto
    ultimately show ?thesis using z assms(2,3) Cons d
      by (auto simp: push_chunk_def upd_chunk_def chunk_list_def)
  qed
qed

section \<open>Contents and invariant\<close>

definition entry_at :: "(nat \<Rightarrow> 'a chunk option) \<Rightarrow> slab_entry \<Rightarrow> 'a option" where
  "entry_at h a =
     (case h (fst a) of
        None \<Rightarrow> None
      | Some ch \<Rightarrow> if snd a < 64 \<and> \<not> bit (bitmap ch) (snd a) then slot_data ch (snd a) else None)"

abbreviation slab_contents :: "'a slab \<Rightarrow> slab_entry \<Rightarrow> 'a option" where
  "slab_contents s \<equiv> entry_at (chunks s)"

text \<open>Used slots know their chunk and hold data.\<close>

definition owned :: "(nat \<Rightarrow> 'a chunk option) \<Rightarrow> bool" where
  "owned h \<longleftrightarrow> (\<forall>c ch b. h c = Some ch \<longrightarrow> b < 64 \<longrightarrow> \<not> bit (bitmap ch) b \<longrightarrow>
     slot_chunk ch b = Some c \<and> slot_data ch b \<noteq> None)"

definition bitmap_at :: "(nat \<Rightarrow> 'a chunk option) \<Rightarrow> nat \<Rightarrow> 64 word" where
  "bitmap_at h c = (case h c of None \<Rightarrow> 0 | Some ch \<Rightarrow> bitmap ch)"

text \<open>
  The chunks are partitioned into the partial list, the full list, and lists that hang from
  no pointer of the slab.
\<close>

definition slab_lists :: "'a slab \<Rightarrow> nat list \<Rightarrow> nat list \<Rightarrow> nat list list \<Rightarrow> bool" where
  "slab_lists s ps fs ds \<longleftrightarrow>
     chunk_list (chunks s) (first_partial_chunk s) ps \<and>
     chunk_list (chunks s) (first_full_chunk s) fs \<and>
     (\<forall>d \<in> set ds. d \<noteq> [] \<and> chunk_list (chunks s) (Some (hd d)) d) \<and>
     distinct (ps @ fs @ concat ds) \<and> dom (chunks s) = set (ps @ fs @ concat ds) \<and>
     (\<forall>c \<in> set fs. bitmap_at (chunks s) c = 0) \<and>
     (\<forall>c \<in> set ps \<union> set (concat ds). bitmap_at (chunks s) c \<noteq> 0) \<and> owned (chunks s)"

definition slab_inv :: "'a slab \<Rightarrow> bool" where
  "slab_inv s \<longleftrightarrow> (\<exists>ps fs ds. slab_lists s ps fs ds)"

lemma same_slots_cases:
  assumes "same_slots h h'"
  obtains (none) "h c = None" "h' c = None"
    | (some) ch ch' where "h c = Some ch" "h' c = Some ch'" "bitmap ch' = bitmap ch"
        "slot_data ch' = slot_data ch" "slot_chunk ch' = slot_chunk ch"
proof -
  have "map_option (\<lambda>ch. (bitmap ch, slot_data ch, slot_chunk ch)) (h' c) =
      map_option (\<lambda>ch. (bitmap ch, slot_data ch, slot_chunk ch)) (h c)"
    using assms unfolding same_slots_def by blast
  then show thesis using none some by (cases "h c"; cases "h' c") auto
qed

lemma entry_at_same:
  assumes "same_slots h h'"
  shows "entry_at h' = entry_at h"
proof
  fix a :: slab_entry
  show "entry_at h' a = entry_at h a"
    by (rule same_slots_cases [OF assms, of "fst a"]) (auto simp: entry_at_def)
qed

lemma bitmap_at_same:
  assumes "same_slots h h'"
  shows "bitmap_at h' c = bitmap_at h c"
  by (rule same_slots_cases [OF assms, of c]) (auto simp: bitmap_at_def)

lemma dom_same:
  assumes "same_slots h h'"
  shows "dom h' = dom h"
proof -
  have "c \<in> dom h' \<longleftrightarrow> c \<in> dom h" for c
    by (rule same_slots_cases [OF assms, of c]) auto
  then show ?thesis by blast
qed

lemma owned_same:
  assumes "same_slots h h'" "owned h"
  shows "owned h'"
  unfolding owned_def
proof (intro allI impI)
  fix c ch' b assume a: "h' c = Some ch'" "b < 64" "\<not> bit (bitmap ch') b"
  show "slot_chunk ch' b = Some c \<and> slot_data ch' b \<noteq> None"
    using assms(2) a by (cases rule: same_slots_cases [OF assms(1), of c]) (auto simp: owned_def)
qed

lemma chunk_list_cong:
  "\<forall>c \<in> set xs. same_links h h' c \<Longrightarrow> chunk_list h f xs \<Longrightarrow> chunk_list h' f xs"
  unfolding chunk_list_def using lseg_cong by blast

lemma chunk_list_other:
  "chunk_list h f xs \<Longrightarrow> \<forall>d. d \<notin> A \<longrightarrow> h' d = h d \<Longrightarrow> set xs \<inter> A = {} \<Longrightarrow> chunk_list h' f xs"
  by (rule chunk_list_cong [of _ h]) (auto simp: same_links_def)

lemma chunk_lists_other:
  "\<forall>d \<in> set ds. d \<noteq> [] \<and> chunk_list h (Some (hd d)) d \<Longrightarrow> \<forall>d. d \<notin> A \<longrightarrow> h' d = h d \<Longrightarrow>
   set (concat ds) \<inter> A = {} \<Longrightarrow> \<forall>d \<in> set ds. d \<noteq> [] \<and> chunk_list h' (Some (hd d)) d"
  using chunk_list_other [of h _ _ A h'] by fastforce

lemma chunk_list_first: "chunk_list h f xs \<Longrightarrow> f = (if xs = [] then None else Some (hd xs))"
  by (auto simp: chunk_list_def dest: lseg_first)

lemma chunk_list_Nil [simp]: "chunk_list h f [] \<longleftrightarrow> f = None"
  by (auto simp: chunk_list_def)

text \<open>Bits.\<close>

lemma bit_clear: "b < 64 \<Longrightarrow> bit (w AND NOT (2 ^ b)) i \<longleftrightarrow> bit w i \<and> i \<noteq> b" for w :: "64 word"
  using bit_imp_le_length [of w i] by (auto simp: bit_simps)

lemma bit_set: "b < 64 \<Longrightarrow> bit (w OR 2 ^ b) i \<longleftrightarrow> bit w i \<or> i = b" for w :: "64 word"
  by (auto simp: bit_simps)

lemma word_zero_bits: "w = 0 \<longleftrightarrow> (\<forall>i < 64. \<not> bit w i)" for w :: "64 word"
  by (auto intro: bit_word_eqI)

lemma ffsl_bit:
  assumes "w \<noteq> 0"
  shows "0 < ffsl w" "ffsl w - 1 < 64" "bit w (ffsl w - 1)"
proof -
  obtain i where "i < 64" "bit w i" using assms word_zero_bits by blast
  then obtain j js where f: "filter (bit w) [0..<64] = j # js"
    by (cases "filter (bit w) [0..<64]") (auto simp: filter_empty_conv)
  then have "j \<in> set (filter (bit w) [0..<64])" by simp
  then have "j < 64" "bit w j" by auto
  then show "0 < ffsl w" "ffsl w - 1 < 64" "bit w (ffsl w - 1)" by (simp_all add: ffsl_def f)
qed

section \<open>Adding\<close>

lemma fill_slot_links [simp]:
  "chunk_next (fill_slot c b e ch) = chunk_next ch"
  "chunk_previous (fill_slot c b e ch) = chunk_previous ch"
  "bitmap (fill_slot c b e ch) = bitmap ch AND NOT (push_bit b 1)"
  by (simp_all add: fill_slot_def)

lemma entry_at_fill:
  "b < 64 \<Longrightarrow> h c = Some ch \<Longrightarrow> entry_at (h(c \<mapsto> fill_slot c b e ch)) = (entry_at h)((c, b) \<mapsto> e)"
  by (auto simp: entry_at_def fun_eq_iff fill_slot_def bit_clear)

lemma owned_fill:
  "b < 64 \<Longrightarrow> h c = Some ch \<Longrightarrow> owned h \<Longrightarrow> owned (h(c \<mapsto> fill_slot c b e ch))"
  unfolding owned_def by (auto simp: fill_slot_def bit_clear)

lemma bitmap_at_upd [simp]: "bitmap_at (h(c \<mapsto> ch)) d = (if d = c then bitmap ch else bitmap_at h d)"
  by (simp add: bitmap_at_def)

text \<open>Where the chunks are after an addition into the chunk c, the first partial one.\<close>

definition lists_after_add ::
  "bool \<Rightarrow> nat \<Rightarrow> nat list \<Rightarrow> nat list \<Rightarrow> nat list list \<Rightarrow> nat list \<times> nat list \<times> nat list list" where
  "lists_after_add full c ps fs ds =
     (if full then ([], c # fs, (if ps = [] then ds else ps # ds)) else (c # ps, fs, ds))"

lemma slab_listsD:
  assumes "slab_lists s ps fs ds"
  shows "chunk_list (chunks s) (first_partial_chunk s) ps"
    and "chunk_list (chunks s) (first_full_chunk s) fs"
    and "\<forall>d \<in> set ds. d \<noteq> [] \<and> chunk_list (chunks s) (Some (hd d)) d"
    and "distinct (ps @ fs @ concat ds)" and "dom (chunks s) = set (ps @ fs @ concat ds)"
    and "\<forall>c \<in> set fs. bitmap_at (chunks s) c = 0"
    and "\<forall>c \<in> set ps \<union> set (concat ds). bitmap_at (chunks s) c \<noteq> 0" and "owned (chunks s)"
  using assms unfolding slab_lists_def by blast+

lemma slab_listsI:
  assumes "chunk_list (chunks s) (first_partial_chunk s) ps" "chunk_list (chunks s) (first_full_chunk s) fs"
    and "\<forall>d \<in> set ds. d \<noteq> [] \<and> chunk_list (chunks s) (Some (hd d)) d"
    and "distinct (ps @ fs @ concat ds)" "dom (chunks s) = set (ps @ fs @ concat ds)"
    and "\<forall>c \<in> set fs. bitmap_at (chunks s) c = 0"
    and "\<forall>c \<in> set ps \<union> set (concat ds). bitmap_at (chunks s) c \<noteq> 0" and "owned (chunks s)"
  shows "slab_lists s ps fs ds"
  unfolding slab_lists_def using assms by - (intro conjI; assumption)

lemma add_into_partial:
  assumes l: "slab_lists s (c # ps) fs ds" and ch: "chunks s c = Some ch"
  defines "b \<equiv> ffsl (bitmap ch) - 1"
  shows "\<exists>s'. add_entry_to_slab new e s = Some (Some (c, b), s') \<and> entry_at (chunks s) (c, b) = None \<and>
    slab_contents s' = (slab_contents s)((c, b) \<mapsto> e) \<and>
    (case lists_after_add (bitmap ch AND NOT (push_bit b 1) = 0) c ps fs ds of
       (ps', fs', ds') \<Rightarrow> slab_lists s' ps' fs' ds')"
proof -
  have fp: "first_partial_chunk s = Some c"
    using chunk_list_first [OF slab_listsD(1) [OF l]] by simp
  have nz: "bitmap ch \<noteq> 0" using slab_listsD(7) [OF l] ch by (simp add: bitmap_at_def)
  have b: "0 < ffsl (bitmap ch)" "b < 64" "bit (bitmap ch) b"
    using ffsl_bit [OF nz] by (simp_all add: b_def)
  define ch' where "ch' = fill_slot c b e ch"
  define h1 where "h1 = (chunks s)(c \<mapsto> ch')"
  have links: "same_links (chunks s) h1 d" for d
    using ch by (auto simp: same_links_def h1_def ch'_def)
  have "owned (chunks s)" using l by (simp add: slab_lists_def)
  then have h1: "entry_at h1 = (entry_at (chunks s))((c, b) \<mapsto> e)" "owned h1"
    using entry_at_fill [OF b(2), of "chunks s", OF ch] owned_fill [OF b(2), of "chunks s", OF ch]
    unfolding h1_def ch'_def by simp_all
  have free: "entry_at (chunks s) (c, b) = None" using ch b by (simp add: entry_at_def)
  have cl: "chunk_list h1 (first_partial_chunk s) (c # ps)" "chunk_list h1 (first_full_chunk s) fs"
    "\<forall>d \<in> set ds. d \<noteq> [] \<and> chunk_list h1 (Some (hd d)) d"
  proof -
    have go: "chunk_list h1 f xs" if "chunk_list (chunks s) f xs" for f xs
      using links by (intro chunk_list_cong [OF _ that]) simp
    show "chunk_list h1 (first_partial_chunk s) (c # ps)" "chunk_list h1 (first_full_chunk s) fs"
      using go slab_listsD(1,2) [OF l] by simp_all
    show "\<forall>d \<in> set ds. d \<noteq> [] \<and> chunk_list h1 (Some (hd d)) d"
      using go slab_listsD(3) [OF l] by simp
  qed
  have bm: "bitmap_at h1 d = (if d = c then bitmap ch' else bitmap_at (chunks s) d)" for d
    by (simp add: h1_def)
  have dom: "dom h1 = set (c # ps @ fs @ concat ds)" "distinct (c # ps @ fs @ concat ds)"
    using slab_listsD(4,5) [OF l] by (auto simp: h1_def)
  have add: "add_entry_to_slab new e s =
      (if bitmap ch' = 0 then
         do {
           h2 \<leftarrow> unlink_chunk h1 c;
           c_assert (first_partial_chunk s = Some c \<longrightarrow> chunk_previous ch' = None);
           h3 \<leftarrow> push_chunk h2 c (first_full_chunk s);
           Some (Some (c, b),
             s\<lparr>chunks := h3,
               first_partial_chunk := (if first_partial_chunk s = Some c then None else first_partial_chunk s),
               first_full_chunk := Some c\<rparr>)
         }
       else Some (Some (c, b), s\<lparr>chunks := h1\<rparr>))"
    using fp ch b(1) unfolding add_entry_to_slab_def Let_def b_def h1_def ch'_def by simp
  show ?thesis
  proof (cases "bitmap ch' = 0")
    case False
    have "slab_lists (s\<lparr>chunks := h1\<rparr>) (c # ps) fs ds"
    proof (rule slab_listsI)
      show "\<forall>d \<in> set fs. bitmap_at (chunks (s\<lparr>chunks := h1\<rparr>)) d = 0"
        using bm dom(2) slab_listsD(6) [OF l] by auto
    qed (use cl h1(2) dom bm False slab_listsD(7) [OF l] in simp_all)
    then show ?thesis using add False free h1(1) by (auto simp: lists_after_add_def ch'_def)
  next
    case True
    obtain h2 chx where u: "h1 c = Some chx" "unlink_chunk h1 c = Some h2" "h2 c = Some chx"
      "chunk_list h2 (chunk_next chx) ps" "chunk_previous chx = None" "same_slots h1 h2"
      "\<forall>d. d \<notin> set ps \<longrightarrow> h2 d = h1 d"
      using unlink_chunk_list [of h1 "first_partial_chunk s" "[]" c ps] cl(1) fp by auto
    have chx: "chx = ch'" using u(1) by (simp add: h1_def)
    have fs2: "chunk_list h2 (first_full_chunk s) fs"
      using dom(2) by (intro chunk_list_other [OF cl(2) u(7)]) auto
    have ds2: "\<forall>d \<in> set ds. d \<noteq> [] \<and> chunk_list h2 (Some (hd d)) d"
      using dom(2) by (intro chunk_lists_other [OF cl(3) u(7)]) auto
    obtain h3 where v: "push_chunk h2 c (first_full_chunk s) = Some h3" "chunk_list h3 (Some c) (c # fs)"
      "same_slots h2 h3" "\<forall>d. d \<notin> set (c # fs) \<longrightarrow> h3 d = h2 d"
      using push_chunk_list [OF fs2 u(3)] dom(2) by auto
    have ps3: "chunk_list h3 (chunk_next chx) ps"
      using dom(2) by (intro chunk_list_other [OF u(4) v(4)]) auto
    have ds3: "\<forall>d \<in> set ds. d \<noteq> [] \<and> chunk_list h3 (Some (hd d)) d"
      using dom(2) by (intro chunk_lists_other [OF ds2 v(4)]) auto
    have s13: "same_slots h1 h3" using u(6) v(3) same_slots_trans by blast
    let ?s = "s\<lparr>chunks := h3, first_partial_chunk := None, first_full_chunk := Some c\<rparr>"
    let ?ds = "if ps = [] then ds else ps # ds"
    have cds: "concat ?ds = ps @ concat ds" by simp
    have "slab_lists ?s [] (c # fs) ?ds"
    proof (rule slab_listsI)
      show "\<forall>d \<in> set ?ds. d \<noteq> [] \<and> chunk_list (chunks ?s) (Some (hd d)) d"
        using ps3 ds3 chunk_list_first [OF ps3] by (cases "ps = []") simp_all
      show "distinct ([] @ (c # fs) @ concat ?ds)" using dom(2) unfolding cds by auto
      show "dom (chunks ?s) = set ([] @ (c # fs) @ concat ?ds)"
        using dom(1) dom_same [OF s13] unfolding cds by auto
      show "\<forall>d \<in> set (c # fs). bitmap_at (chunks ?s) d = 0"
        using bitmap_at_same [OF s13] bm True slab_listsD(6) [OF l] by simp
      show "\<forall>d \<in> set [] \<union> set (concat ?ds). bitmap_at (chunks ?s) d \<noteq> 0"
        using bitmap_at_same [OF s13] bm dom(2) slab_listsD(7) [OF l] unfolding cds by simp
    qed (use v(2) owned_same [OF s13 h1(2)] in simp_all)
    moreover have "slab_contents ?s = (slab_contents s)((c, b) \<mapsto> e)"
      using entry_at_same [OF s13] h1(1) by simp
    moreover have "add_entry_to_slab new e s = Some (Some (c, b), ?s)"
      unfolding add using True fp u v chx by simp
    ultimately show ?thesis using free True by (auto simp: lists_after_add_def ch'_def)
  qed
qed

lemma slab_lists_chunk:
  "slab_lists s ps fs ds \<Longrightarrow> c \<in> set ps \<union> set fs \<union> set (concat ds) \<Longrightarrow> \<exists>ch. chunks s c = Some ch"
  unfolding slab_lists_def by (metis Un_assoc domD set_append)

lemma slab_lists_inv: "slab_lists s ps fs ds \<Longrightarrow> slab_inv s"
  by (auto simp: slab_inv_def)

lemma add_into_partial_inv:
  assumes "slab_lists s (c # ps) fs ds" "chunks s c = Some ch"
  shows "\<exists>a s'. add_entry_to_slab new e s = Some (Some a, s') \<and> slab_inv s' \<and>
    slab_contents s a = None \<and> slab_contents s' = (slab_contents s)(a \<mapsto> e)"
proof -
  obtain ps' fs' ds' where "lists_after_add
      (bitmap ch AND NOT (push_bit (ffsl (bitmap ch) - 1) 1) = 0) c ps fs ds = (ps', fs', ds')"
    by (metis prod_cases3)
  with add_into_partial [OF assms, of new e] obtain s' where
    "add_entry_to_slab new e s = Some (Some (c, ffsl (bitmap ch) - 1), s')"
    "entry_at (chunks s) (c, ffsl (bitmap ch) - 1) = None"
    "slab_contents s' = (slab_contents s)((c, ffsl (bitmap ch) - 1) \<mapsto> e)" "slab_lists s' ps' fs' ds'"
    by (simp only: prod.case) blast
  then show ?thesis using slab_lists_inv by blast
qed

lemma new_chunk_lists:
  assumes l: "slab_lists s [] fs ds" and fresh: "chunks s c = None"
  defines "s1 \<equiv> s\<lparr>chunks := (chunks s)(c \<mapsto> new_slab_chunk), first_partial_chunk := Some c\<rparr>"
  shows "slab_lists s1 [c] fs ds" "slab_contents s1 = slab_contents s"
    "add_entry_to_slab (Some c) e s = add_entry_to_slab new e s1" "chunks s1 c = Some new_slab_chunk"
proof -
  have none: "first_partial_chunk s = None" using chunk_list_first [OF slab_listsD(1) [OF l]] by simp
  have out: "c \<notin> set (fs @ concat ds)" using slab_lists_chunk [OF l, of c] fresh by fastforce
  have keep: "\<forall>d. d \<notin> {c} \<longrightarrow> ((chunks s)(c \<mapsto> new_slab_chunk)) d = chunks s d" by simp
  have bits: "bit (- 1 :: 64 word) b" if "b < 64" for b using that by (simp add: bit_simps)
  have "chunk_list ((chunks s)(c \<mapsto> new_slab_chunk)) (first_full_chunk s) fs"
    using slab_listsD(2) [OF l] out by (intro chunk_list_other [OF _ keep]) auto
  moreover have "\<forall>d \<in> set ds. d \<noteq> [] \<and> chunk_list ((chunks s)(c \<mapsto> new_slab_chunk)) (Some (hd d)) d"
    using slab_listsD(3) [OF l] out by (intro chunk_lists_other [OF _ keep]) auto
  moreover have "owned ((chunks s)(c \<mapsto> new_slab_chunk))"
    using slab_listsD(8) [OF l] bits by (auto simp: owned_def new_slab_chunk_def)
  moreover have "\<forall>d \<in> set fs. bitmap_at (chunks s1) d = 0"
    using slab_listsD(6) [OF l] out by (auto simp: s1_def)
  moreover have "\<forall>d \<in> set [c] \<union> set (concat ds). bitmap_at (chunks s1) d \<noteq> 0"
    using slab_listsD(7) [OF l] by (auto simp: s1_def new_slab_chunk_def)
  ultimately show "slab_lists s1 [c] fs ds"
    using slab_listsD(4,5) [OF l] out
    by (intro slab_listsI) (simp_all add: s1_def chunk_list_def new_slab_chunk_def)
  show "slab_contents s1 = slab_contents s"
    using fresh bits by (auto simp: fun_eq_iff entry_at_def new_slab_chunk_def s1_def)
  show "add_entry_to_slab (Some c) e s = add_entry_to_slab new e s1"
    using none fresh by (simp add: add_entry_to_slab_def s1_def)
  show "chunks s1 c = Some new_slab_chunk" by (simp add: s1_def)
qed

lemma add_entry_law:
  assumes "slab_inv s" "\<forall>c. first_partial_chunk s = None \<longrightarrow> new = Some c \<longrightarrow> chunks s c = None"
  shows "\<exists>r s'. add_entry_to_slab new e s = Some (r, s') \<and> slab_inv s' \<and>
    (case r of
       None \<Rightarrow> new = None \<and> s' = s
     | Some a \<Rightarrow> slab_contents s a = None \<and> slab_contents s' = (slab_contents s)(a \<mapsto> e))"
proof -
  obtain ps fs ds where l: "slab_lists s ps fs ds" using assms(1) by (auto simp: slab_inv_def)
  have fp: "first_partial_chunk s = (if ps = [] then None else Some (hd ps))"
    using l chunk_list_first [of "chunks s" "first_partial_chunk s" ps] by (simp add: slab_lists_def)
  show ?thesis
  proof (cases ps)
    case (Cons c ps')
    then obtain ch where "chunks s c = Some ch" using slab_lists_chunk [OF l, of c] by auto
    from add_into_partial_inv [OF l [unfolded Cons] this, of new e] show ?thesis by auto
  next
    case Nil
    then have none: "first_partial_chunk s = None" using fp by simp
    show ?thesis
    proof (cases new)
      case None
      then show ?thesis using assms(1) none by (simp add: add_entry_to_slab_def)
    next
      case (Some c)
      let ?s1 = "s\<lparr>chunks := (chunks s)(c \<mapsto> new_slab_chunk), first_partial_chunk := Some c\<rparr>"
      have fresh: "chunks s c = None" using assms(2) none Some by simp
      note l1 = new_chunk_lists(1) [OF l [unfolded Nil] fresh]
        and same = new_chunk_lists(2) [OF l [unfolded Nil] fresh]
      have "add_entry_to_slab new e s = add_entry_to_slab new e ?s1"
        using new_chunk_lists(3) [OF l [unfolded Nil] fresh] Some by simp
      moreover obtain r s' where "add_entry_to_slab new e ?s1 = Some (Some r, s')" "slab_inv s'"
        "entry_at (chunks ?s1) r = None" "slab_contents s' = (slab_contents ?s1)(r \<mapsto> e)"
        using add_into_partial_inv [OF l1, of new_slab_chunk new e] by auto
      ultimately show ?thesis using same by auto
    qed
  qed
qed

section \<open>Removing\<close>

lemma clear_slot_links [simp]:
  "chunk_next (clear_slot b ch) = chunk_next ch"
  "chunk_previous (clear_slot b ch) = chunk_previous ch"
  "bitmap (clear_slot b ch) = bitmap ch OR 2 ^ b"
  by (simp_all add: clear_slot_def)

lemma entry_at_clear:
  "b < 64 \<Longrightarrow> h c = Some ch \<Longrightarrow> entry_at (h(c \<mapsto> clear_slot b ch)) = (entry_at h)((c, b) := None)"
  by (auto simp: entry_at_def fun_eq_iff clear_slot_def bit_set)

lemma owned_clear:
  "b < 64 \<Longrightarrow> h c = Some ch \<Longrightarrow> owned h \<Longrightarrow> owned (h(c \<mapsto> clear_slot b ch))"
  unfolding owned_def by (auto simp: clear_slot_def bit_set)

lemma or_nonzero: "b < 64 \<Longrightarrow> w OR 2 ^ b \<noteq> 0" for w :: "64 word"
  using bit_set [of b w b] by auto

lemma one_bit_not_all: "b < 64 \<Longrightarrow> (0 :: 64 word) OR 2 ^ b \<noteq> - 1"
proof
  assume b: "b < 64" "(0 :: 64 word) OR 2 ^ b = - 1"
  define i where "i = (if b = 0 then 1 else 0 :: nat)"
  have "bit ((0 :: 64 word) OR 2 ^ b) i \<longleftrightarrow> i = b" using bit_set [OF b(1), of 0 i] by simp
  moreover have "bit (- 1 :: 64 word) i" by (simp add: bit_simps i_def)
  ultimately show False using b(2) by (auto simp: i_def split: if_splits)
qed

lemma all_free_entries:
  assumes "h c = Some ch" "bitmap ch = - 1"
  shows "entry_at (h(c := None)) = entry_at h"
  using assms by (auto simp: fun_eq_iff entry_at_def bit_simps)

lemma remove_full:
  assumes l: "slab_lists s ps (xs @ c # ys) ds" and ch: "chunks s c = Some ch" and b: "b < 64"
    and owner: "slot_chunk ch b = Some c"
  shows "\<exists>s'. remove_entry_from_slab (c, b) s = Some (0, s') \<and> slab_lists s' (c # ps) (xs @ ys) ds \<and>
    slab_contents s' = (slab_contents s)((c, b) := None)"
proof -
  define ch1 where "ch1 = clear_slot b ch"
  define h1 where "h1 = (chunks s)(c \<mapsto> ch1)"
  have full: "bitmap ch = 0" using l ch by (auto simp: slab_lists_def bitmap_at_def)
  have links: "same_links (chunks s) h1 d" for d
    using ch by (auto simp: same_links_def h1_def ch1_def)
  have "owned (chunks s)" using l by (simp add: slab_lists_def)
  then have h1: "entry_at h1 = (entry_at (chunks s))((c, b) := None)" "owned h1"
    using entry_at_clear [OF b, of "chunks s", OF ch] owned_clear [OF b, of "chunks s", OF ch]
    unfolding h1_def ch1_def by simp_all
  have cl: "chunk_list h1 (first_partial_chunk s) ps" "chunk_list h1 (first_full_chunk s) (xs @ c # ys)"
    "\<forall>d \<in> set ds. d \<noteq> [] \<and> chunk_list h1 (Some (hd d)) d"
    using l links unfolding slab_lists_def by (auto intro: chunk_list_cong)
  have dom: "dom h1 = set (ps @ (xs @ c # ys) @ concat ds)" "distinct (ps @ (xs @ c # ys) @ concat ds)"
    using l ch by (auto simp: slab_lists_def h1_def)
  obtain h2 where u: "unlink_chunk h1 c = Some h2" "h2 c = Some ch1"
    "chunk_list h2 (if first_full_chunk s = Some c then chunk_next ch1 else first_full_chunk s) (xs @ ys)"
    "first_full_chunk s = Some c \<longrightarrow> chunk_previous ch1 = None" "same_slots h1 h2"
    "\<forall>d. d \<notin> set xs \<union> set ys \<longrightarrow> h2 d = h1 d"
    using unlink_chunk_list [OF cl(2)] by (auto simp: h1_def)
  have ps2: "chunk_list h2 (first_partial_chunk s) ps"
    using dom(2) by (intro chunk_list_other [OF cl(1) u(6)]) auto
  have ds2: "\<forall>d \<in> set ds. d \<noteq> [] \<and> chunk_list h2 (Some (hd d)) d"
    using dom(2) by (intro chunk_lists_other [OF cl(3) u(6)]) auto
  obtain h3 where v: "push_chunk h2 c (first_partial_chunk s) = Some h3" "chunk_list h3 (Some c) (c # ps)"
    "same_slots h2 h3" "\<forall>d. d \<notin> set (c # ps) \<longrightarrow> h3 d = h2 d"
    using push_chunk_list [OF ps2 u(2)] dom(2) by auto
  have fs3: "chunk_list h3 (if first_full_chunk s = Some c then chunk_next ch1 else first_full_chunk s) (xs @ ys)"
    using dom(2) by (intro chunk_list_other [OF u(3) v(4)]) auto
  have ds3: "\<forall>d \<in> set ds. d \<noteq> [] \<and> chunk_list h3 (Some (hd d)) d"
    using dom(2) by (intro chunk_lists_other [OF ds2 v(4)]) auto
  have s13: "same_slots h1 h3" using u(5) v(3) same_slots_trans by blast
  let ?s = "s\<lparr>chunks := h3, first_partial_chunk := Some c, first_full_chunk :=
    (if first_full_chunk s = Some c then chunk_next ch1 else first_full_chunk s)\<rparr>"
  have bm: "bitmap_at h3 d = (if d = c then bitmap ch1 else bitmap_at (chunks s) d)" for d
    using bitmap_at_same [OF s13] by (simp add: h1_def)
  have nz: "bitmap ch1 \<noteq> 0" using or_nonzero [OF b] by (simp add: ch1_def)
  have lists: "slab_lists ?s (c # ps) (xs @ ys) ds"
    unfolding slab_lists_def
    using v(2) fs3 ds3 dom dom_same [OF s13] owned_same [OF s13 h1(2)] bm nz l
    by (auto simp: slab_lists_def)
  have cont: "slab_contents ?s = (slab_contents s)((c, b) := None)"
    using entry_at_same [OF s13] h1(1) by simp
  obtain ch3 where "h3 c = Some ch3" "bitmap ch3 = bitmap ch1"
    using same_slots_cases [OF v(3), of c] u(2) by auto
  moreover have "bitmap ch1 \<noteq> - 1" using one_bit_not_all [OF b] full by (simp add: ch1_def)
  ultimately have "remove_entry_from_slab (c, b) s = Some (0, ?s)"
    using ch owner b full u(1,4) v(1)
    unfolding remove_entry_from_slab_def nb_slots_per_chunk_def Let_def prod.case ch1_def [symmetric]
    by (simp add: h1_def [symmetric] ch1_def [symmetric])
  then show ?thesis using lists cont by blast
qed

text \<open>Removing from a chunk that is not full, on the partial list or on a lost one.\<close>

lemma owned_free: "owned h \<Longrightarrow> owned (h(c := None))"
  by (auto simp: owned_def)

lemma unlink_in_partial:
  assumes "slab_lists s (xs @ c # ys) fs ds"
  shows "\<exists>h ch. unlink_chunk (chunks s) c = Some h \<and> chunks s c = Some ch \<and> h c = Some ch \<and>
    same_slots (chunks s) h \<and>
    slab_lists (s\<lparr>chunks := h(c := None), first_partial_chunk :=
      (if first_partial_chunk s = Some c then chunk_next ch else first_partial_chunk s)\<rparr>) (xs @ ys) fs ds"
proof -
  note cl = slab_listsD(1-3) [OF assms] and dom = slab_listsD(5,4) [OF assms]
    and bm = slab_listsD(6,7) [OF assms] and ow = slab_listsD(8) [OF assms]
  let ?f = "\<lambda>ch. if first_partial_chunk s = Some c then chunk_next ch else first_partial_chunk s"
  obtain h ch where u: "chunks s c = Some ch" "unlink_chunk (chunks s) c = Some h" "h c = Some ch"
    "chunk_list h (?f ch) (xs @ ys)" "same_slots (chunks s) h"
    "\<forall>d. d \<notin> set xs \<union> set ys \<longrightarrow> h d = chunks s d"
    using unlink_chunk_list [OF cl(1)] by blast
  have keep: "\<forall>d. d \<notin> {c} \<longrightarrow> (h(c := None)) d = h d" by simp
  have ps: "chunk_list (h(c := None)) (?f ch) (xs @ ys)"
    using dom(2) by (intro chunk_list_other [OF u(4) keep]) auto
  have fs1: "chunk_list h (first_full_chunk s) fs"
    using dom(2) by (intro chunk_list_other [OF cl(2) u(6)]) auto
  have ds1: "\<forall>d \<in> set ds. d \<noteq> [] \<and> chunk_list h (Some (hd d)) d"
    using dom(2) by (intro chunk_lists_other [OF cl(3) u(6)]) auto
  have fs: "chunk_list (h(c := None)) (first_full_chunk s) fs"
    using dom(2) by (intro chunk_list_other [OF fs1 keep]) auto
  have ds: "\<forall>d \<in> set ds. d \<noteq> [] \<and> chunk_list (h(c := None)) (Some (hd d)) d"
    using dom(2) by (intro chunk_lists_other [OF ds1 keep]) auto
  have bmh: "bitmap_at (h(c := None)) d = (if d = c then 0 else bitmap_at (chunks s) d)" for d
    using bitmap_at_same [OF u(5), of d] by (simp add: bitmap_at_def)
  have "dom (h(c := None)) = set ((xs @ ys) @ fs @ concat ds)"
    using dom dom_same [OF u(5)] by auto
  moreover have "distinct ((xs @ ys) @ fs @ concat ds)" using dom(2) by simp
  moreover have "\<forall>d \<in> set fs. bitmap_at (h(c := None)) d = 0"
    using bm(1) bmh by simp
  moreover have "\<forall>d \<in> set (xs @ ys) \<union> set (concat ds). bitmap_at (h(c := None)) d \<noteq> 0"
    using bm(2) bmh dom(2) by auto
  moreover have "owned (h(c := None))" using owned_free owned_same [OF u(5) ow] by blast
  ultimately have "slab_lists (s\<lparr>chunks := h(c := None), first_partial_chunk := ?f ch\<rparr>) (xs @ ys) fs ds"
    using ps fs ds unfolding slab_lists_def by simp
  then show ?thesis using u by blast
qed

text \<open>A lost list is treated as if it were the partial one.\<close>

lemma swap_lists:
  fixes ps d fs :: "nat list"
  assumes "distinct (ps @ fs @ concat (d1 @ (if d = [] then [] else [d]) @ d2))"
  shows "distinct (d @ fs @ concat (d1 @ (if ps = [] then [] else [ps]) @ d2))"
    and "set (d @ fs @ concat (d1 @ (if ps = [] then [] else [ps]) @ d2)) =
      set (ps @ fs @ concat (d1 @ (if d = [] then [] else [d]) @ d2))"
    and "set d \<union> set (concat (d1 @ (if ps = [] then [] else [ps]) @ d2)) =
      set ps \<union> set (concat (d1 @ (if d = [] then [] else [d]) @ d2))"
proof -
  have c: "concat (d1 @ (if x = [] then [] else [x]) @ d2) = concat d1 @ x @ concat d2" for x :: "nat list"
    by simp
  show "distinct (d @ fs @ concat (d1 @ (if ps = [] then [] else [ps]) @ d2))"
    using assms unfolding c by (simp only: distinct_append set_append) blast
  show "set (d @ fs @ concat (d1 @ (if ps = [] then [] else [ps]) @ d2)) =
      set (ps @ fs @ concat (d1 @ (if d = [] then [] else [d]) @ d2))"
    "set d \<union> set (concat (d1 @ (if ps = [] then [] else [ps]) @ d2)) =
      set ps \<union> set (concat (d1 @ (if d = [] then [] else [d]) @ d2))"
    unfolding c by (simp_all only: set_append) blast+
qed

lemma slab_lists_swap:
  assumes "slab_lists s ps fs (d1 @ (if d = [] then [] else [d]) @ d2)"
    and "f = (if d = [] then None else Some (hd d))"
  shows "slab_lists (s\<lparr>first_partial_chunk := f\<rparr>) d fs (d1 @ (if ps = [] then [] else [ps]) @ d2)"
proof -
  note a = slab_listsD(1-3) [OF assms(1)] and dist = slab_listsD(4) [OF assms(1)]
    and r = slab_listsD(5-8) [OF assms(1)]
  have fp: "first_partial_chunk s = (if ps = [] then None else Some (hd ps))"
    using chunk_list_first [OF a(1)] .
  have d12: "\<forall>x \<in> set d1. x \<noteq> [] \<and> chunk_list (chunks s) (Some (hd x)) x"
    "\<forall>x \<in> set d2. x \<noteq> [] \<and> chunk_list (chunks s) (Some (hd x)) x"
    and d: "d \<noteq> [] \<Longrightarrow> chunk_list (chunks s) (Some (hd d)) d"
    using a(3) unfolding set_append ball_Un by (blast, blast, metis list.set_intros(1))
  have "\<forall>x \<in> set (if ps = [] then [] else [ps]). x \<noteq> [] \<and> chunk_list (chunks s) (Some (hd x)) x"
    using a(1) fp by (cases "ps = []") simp_all
  with d12 have "\<forall>x \<in> set (d1 @ (if ps = [] then [] else [ps]) @ d2).
      x \<noteq> [] \<and> chunk_list (chunks s) (Some (hd x)) x"
    unfolding set_append ball_Un by blast
  moreover have "chunk_list (chunks s) f d"
    using d assms(2) by (cases "d = []") simp_all
  moreover have "dom (chunks s) = set (d @ fs @ concat (d1 @ (if ps = [] then [] else [ps]) @ d2))"
    using r(1) swap_lists(2) [OF dist] by metis
  moreover have "\<forall>c \<in> set d \<union> set (concat (d1 @ (if ps = [] then [] else [ps]) @ d2)).
      bitmap_at (chunks s) c \<noteq> 0"
    unfolding swap_lists(3) [OF dist] by (rule r(3))
  moreover have sel: "chunks (s\<lparr>first_partial_chunk := f\<rparr>) = chunks s"
    "first_full_chunk (s\<lparr>first_partial_chunk := f\<rparr>) = first_full_chunk s"
    "first_partial_chunk (s\<lparr>first_partial_chunk := f\<rparr>) = f"
    by simp_all
  ultimately show ?thesis
    using a(2) r(2,4) swap_lists(1) [OF dist] unfolding slab_lists_def sel
    by - (intro conjI; assumption)
qed

lemma unlink_not_full:
  assumes l: "slab_lists s ps fs ds" and c: "c \<in> set ps \<union> set (concat ds)"
  shows "\<exists>h ch. unlink_chunk (chunks s) c = Some h \<and> chunks s c = Some ch \<and> h c = Some ch \<and>
    same_slots (chunks s) h \<and>
    slab_inv (s\<lparr>chunks := h(c := None), first_partial_chunk :=
      (if first_partial_chunk s = Some c then chunk_next ch else first_partial_chunk s)\<rparr>) \<and>
    (c \<in> set ps \<longrightarrow> (\<exists>ps'. length ps' \<le> length ps \<and> slab_lists (s\<lparr>chunks := h(c := None), first_partial_chunk :=
      (if first_partial_chunk s = Some c then chunk_next ch else first_partial_chunk s)\<rparr>) ps' fs ds))"
proof (cases "c \<in> set ps")
  case True
  then obtain xs ys where ps: "ps = xs @ c # ys" by (meson split_list)
  then have le: "length (xs @ ys) \<le> length ps" by simp
  show ?thesis using unlink_in_partial [of s xs c ys fs ds] l ps le slab_lists_inv by blast
next
  case False
  then obtain d1 d d2 where ds: "ds = d1 @ d # d2" "c \<in> set d" using c by (auto dest: split_list)
  then obtain xs ys where d: "d = xs @ c # ys" by (meson split_list)
  let ?s = "s\<lparr>first_partial_chunk := Some (hd d)\<rparr>" and ?ds = "d1 @ (if ps = [] then [] else [ps]) @ d2"
  have fp: "first_partial_chunk s = (if ps = [] then None else Some (hd ps))"
    using l chunk_list_first [of "chunks s" "first_partial_chunk s" ps] by (simp add: slab_lists_def)
  have "slab_lists ?s (xs @ c # ys) fs ?ds"
    using slab_lists_swap [of s ps fs d1 d d2] l ds(1) d by simp
  then obtain h ch where u: "unlink_chunk (chunks s) c = Some h" "chunks s c = Some ch" "h c = Some ch"
    "same_slots (chunks s) h"
    "slab_lists (?s\<lparr>chunks := h(c := None), first_partial_chunk :=
      (if first_partial_chunk ?s = Some c then chunk_next ch else first_partial_chunk ?s)\<rparr>) (xs @ ys) fs ?ds"
    using unlink_in_partial [of ?s xs c ys fs ?ds] by auto
  have ne: "first_partial_chunk s \<noteq> Some c" using fp False by (cases ps) auto
  have "slab_inv (s\<lparr>chunks := h(c := None), first_partial_chunk := first_partial_chunk s\<rparr>)"
    using slab_lists_swap [OF u(5) fp] slab_lists_inv by fastforce
  then show ?thesis using u ne False by auto
qed

lemma remove_not_full:
  assumes l: "slab_lists s ps fs ds" and c: "c \<in> set ps \<union> set (concat ds)"
    and ch: "chunks s c = Some ch" and b: "b < 64" and owner: "slot_chunk ch b = Some c"
  shows "\<exists>s'. remove_entry_from_slab (c, b) s = Some (0, s') \<and> slab_inv s' \<and>
    slab_contents s' = (slab_contents s)((c, b) := None) \<and>
    (c \<in> set ps \<longrightarrow> (\<exists>ps'. length ps' \<le> length ps \<and> slab_lists s' ps' fs ds))"
proof -
  define ch1 where "ch1 = clear_slot b ch"
  define s1 where "s1 = s\<lparr>chunks := (chunks s)(c \<mapsto> ch1)\<rparr>"
  have links: "same_links (chunks s) (chunks s1) d" for d
    using ch by (auto simp: same_links_def s1_def ch1_def)
  have "bitmap_at (chunks s) c \<noteq> 0" using l c unfolding slab_lists_def by blast
  then have nz: "bitmap ch \<noteq> 0" using ch by (simp add: bitmap_at_def)
  have "owned (chunks s)" using l by (simp add: slab_lists_def)
  then have h1: "slab_contents s1 = (slab_contents s)((c, b) := None)" "owned (chunks s1)"
    using entry_at_clear [OF b, of "chunks s", OF ch] owned_clear [OF b, of "chunks s", OF ch]
    unfolding s1_def ch1_def by simp_all
  have cl: "chunk_list (chunks s1) (first_partial_chunk s1) ps" "chunk_list (chunks s1) (first_full_chunk s1) fs"
    "\<forall>d \<in> set ds. d \<noteq> [] \<and> chunk_list (chunks s1) (Some (hd d)) d"
    using l links unfolding slab_lists_def by (auto intro: chunk_list_cong simp: s1_def)
  have "\<forall>d \<in> set fs. bitmap_at (chunks s1) d = 0"
    using l c unfolding slab_lists_def by (auto simp: s1_def)
  moreover have "\<forall>d \<in> set ps \<union> set (concat ds). bitmap_at (chunks s1) d \<noteq> 0"
    using l or_nonzero [OF b] unfolding slab_lists_def by (auto simp: s1_def ch1_def)
  moreover have "dom (chunks s1) = dom (chunks s)" using ch by (auto simp: s1_def)
  ultimately have l1: "slab_lists s1 ps fs ds"
    using l cl h1(2) unfolding slab_lists_def by metis
  have rm: "remove_entry_from_slab (c, b) s =
      (if bitmap ch1 = - 1 then
         do {
           h1 \<leftarrow> unlink_chunk (chunks s1) c;
           Some (0, s1\<lparr>chunks := h1(c := None),
                      first_partial_chunk :=
                        (if first_partial_chunk s1 = Some c then chunk_next ch1 else first_partial_chunk s1)\<rparr>)
         }
       else Some (0, s1))"
    using ch owner b nz
    unfolding remove_entry_from_slab_def nb_slots_per_chunk_def Let_def prod.case
    by (simp add: s1_def ch1_def)
  show ?thesis
  proof (cases "bitmap ch1 = - 1")
    case False
    then show ?thesis using rm slab_lists_inv [OF l1] h1(1) l1 by auto
  next
    case True
    obtain h where u: "unlink_chunk (chunks s1) c = Some h" "h c = Some ch1" "same_slots (chunks s1) h"
      "slab_inv (s1\<lparr>chunks := h(c := None), first_partial_chunk :=
        (if first_partial_chunk s1 = Some c then chunk_next ch1 else first_partial_chunk s1)\<rparr>)"
      "c \<in> set ps \<longrightarrow> (\<exists>ps'. length ps' \<le> length ps \<and> slab_lists (s1\<lparr>chunks := h(c := None), first_partial_chunk :=
        (if first_partial_chunk s1 = Some c then chunk_next ch1 else first_partial_chunk s1)\<rparr>) ps' fs ds)"
      using unlink_not_full [OF l1 c] by (auto simp: s1_def)
    have "entry_at (h(c := None)) = slab_contents s1"
      using all_free_entries [of h c ch1] u(2) True entry_at_same [OF u(3)] by simp
    then show ?thesis using rm True u h1(1) by simp
  qed
qed

lemma remove_entry_law:
  assumes "slab_inv s" "slab_contents s a \<noteq> None"
  shows "\<exists>s'. remove_entry_from_slab a s = Some (0, s') \<and> slab_inv s' \<and>
    slab_contents s' = (slab_contents s)(a := None)"
proof -
  obtain ps fs ds where l: "slab_lists s ps fs ds" using assms(1) by (auto simp: slab_inv_def)
  obtain c b where a: "a = (c, b)" by (cases a)
  obtain ch where ch: "chunks s c = Some ch" "b < 64" "\<not> bit (bitmap ch) b"
    using assms(2) by (auto simp: a entry_at_def split: option.splits if_splits)
  then have owner: "slot_chunk ch b = Some c" using l by (auto simp: slab_lists_def owned_def)
  have "c \<in> set (ps @ fs @ concat ds)"
    using l ch(1) unfolding slab_lists_def by blast
  then consider "c \<in> set ps \<union> set (concat ds)" | xs ys where "fs = xs @ c # ys"
    by (auto dest: split_list)
  then show ?thesis
  proof cases
    case 1
    then show ?thesis using remove_not_full [OF l _ ch(1,2) owner] a by blast
  next
    case 2
    then show ?thesis
      using remove_full [of s ps xs c ys ds] l ch(1,2) owner a slab_lists_inv by blast
  qed
qed

section \<open>Walking\<close>

fun foreach_entries ::
  "('c \<Rightarrow> 'p \<Rightarrow> 'a \<Rightarrow> (int \<times> 'c) option) \<Rightarrow> ('p \<times> 'a) list \<Rightarrow> 'c \<Rightarrow> (int \<times> 'c) option" where
  "foreach_entries cb [] ctx = Some (0, ctx)"
| "foreach_entries cb ((a, e) # es) ctx =
     do {
       (ret, ctx') \<leftarrow> cb ctx a e;
       (if ret \<noteq> 0 then Some (ret, ctx') else foreach_entries cb es ctx')
     }"

lemma foreach_entries_append:
  "foreach_entries cb (es @ es') ctx =
     do {
       (ret, ctx') \<leftarrow> foreach_entries cb es ctx;
       (if ret \<noteq> 0 then Some (ret, ctx') else foreach_entries cb es' ctx')
     }"
  by (induction cb es ctx rule: foreach_entries.induct)
    (auto simp: Option.bind_assoc split_def intro!: Option.bind_cong)

definition chunk_entries :: "(nat \<Rightarrow> 'a chunk option) \<Rightarrow> nat \<Rightarrow> (slab_entry \<times> 'a) list" where
  "chunk_entries h c =
     (case h c of
        None \<Rightarrow> []
      | Some ch \<Rightarrow> map (\<lambda>b. ((c, b), the (slot_data ch b)))
                    (filter (\<lambda>b. \<not> bit (bitmap ch) b) [0..<64]))"

definition list_entries :: "(nat \<Rightarrow> 'a chunk option) \<Rightarrow> nat list \<Rightarrow> (slab_entry \<times> 'a) list" where
  "list_entries h cs = concat (map (chunk_entries h) cs)"

lemma foreach_slots_entries:
  "\<forall>b \<in> set bs. \<not> bit (bitmap ch) b \<longrightarrow> slot_data ch b \<noteq> None \<Longrightarrow>
   foreach_slots cb c ch bs ctx =
     foreach_entries cb (map (\<lambda>b. ((c, b), the (slot_data ch b))) (filter (\<lambda>b. \<not> bit (bitmap ch) b) bs)) ctx"
  by (induction cb c ch bs ctx rule: foreach_slots.induct) (auto intro!: Option.bind_cong)

lemma foreach_chunks_entries:
  assumes "lseg h p f cs l None" "owned h"
  shows "foreach_chunks cb h f ctx = foreach_entries cb (list_entries h cs) ctx"
  using assms(1)
proof (induction cs arbitrary: p f ctx)
  case Nil
  then show ?case by (simp add: foreach_chunks.simps list_entries_def)
next
  case (Cons c cs)
  then obtain ch where ch: "f = Some c" "h c = Some ch" "lseg h (Some c) (chunk_next ch) cs l None"
    by auto
  have "foreach_slots cb c ch [0..<nb_slots_per_chunk] ctx = foreach_entries cb (chunk_entries h c) ctx"
    using assms(2) ch(2) foreach_slots_entries [of "[0..<64]" ch cb c ctx]
    by (simp add: owned_def chunk_entries_def nb_slots_per_chunk_def)
  then show ?case
    using ch Cons.IH [OF ch(3)]
    by (subst foreach_chunks.simps) (simp add: list_entries_def foreach_entries_append cong: if_cong)
qed

lemma slab_foreach_entries:
  assumes "slab_lists s ps fs ds"
  shows "slab_foreach cb s ctx = foreach_entries cb (list_entries (chunks s) (ps @ fs)) ctx"
proof -
  obtain l l' where "lseg (chunks s) None (first_partial_chunk s) ps l None"
    "lseg (chunks s) None (first_full_chunk s) fs l' None"
    using slab_listsD(1,2) [OF assms] by (auto simp: chunk_list_def)
  note f = foreach_chunks_entries [OF this(1) slab_listsD(8) [OF assms]]
    foreach_chunks_entries [OF this(2) slab_listsD(8) [OF assms]]
  show ?thesis
    unfolding slab_foreach_def f by (simp add: list_entries_def foreach_entries_append cong: if_cong)
qed

lemma chunk_entries_live:
  "owned h \<Longrightarrow> ((c', b), e) \<in> set (chunk_entries h c) \<longleftrightarrow> c' = c \<and> entry_at h (c, b) = Some e"
  by (auto simp: chunk_entries_def entry_at_def owned_def split: option.splits)

lemma list_entries_live:
  "owned h \<Longrightarrow> (a, e) \<in> set (list_entries h cs) \<longleftrightarrow> fst a \<in> set cs \<and> entry_at h a = Some e"
  using chunk_entries_live [of h "fst a" "snd a" e] by (auto simp: list_entries_def)

lemma list_entries_distinct:
  assumes "distinct cs"
  shows "distinct (map fst (list_entries h cs))"
proof -
  have "fst ` set (chunk_entries h c) \<subseteq> {c} \<times> UNIV" for c
    by (auto simp: chunk_entries_def split: option.splits)
  moreover have "distinct (map fst (chunk_entries h c))" for c
    by (auto simp: chunk_entries_def comp_def distinct_map inj_on_def split: option.splits)
  ultimately show ?thesis using assms
  proof (induction cs)
    case (Cons c cs)
    then have "fst ` set (list_entries h cs) \<subseteq> set cs \<times> UNIV"
      unfolding list_entries_def by fastforce
    then show ?case using Cons by (fastforce simp: list_entries_def)
  qed (simp add: list_entries_def)
qed

section \<open>The interface: a pool of entries with stable addresses\<close>

text \<open>
  What the layers, the expirables, the buckets and the replication clients rely on: an added
  entry gets an address that is not in use and stays where it is, removing an entry that is
  there succeeds and touches no other. \<open>ok n s\<close> says that the memory \<open>n\<close> the
  system may hand out is not in use in \<open>s\<close>.
\<close>

locale pool =
  fixes add :: "'n \<Rightarrow> 'a \<Rightarrow> 's \<Rightarrow> ('p option \<times> 's) option"
    and del :: "'p \<Rightarrow> 's \<Rightarrow> (int \<times> 's) option"
    and contents :: "'s \<Rightarrow> 'p \<Rightarrow> 'a option"
    and inv :: "'s \<Rightarrow> bool"
    and ok :: "'n \<Rightarrow> 's \<Rightarrow> bool"
    and empty :: 's
  assumes empty: "inv empty" "contents empty = Map.empty"
    and add_law: "inv s \<Longrightarrow> ok n s \<Longrightarrow>
      \<exists>r s'. add n e s = Some (r, s') \<and> inv s' \<and>
        (case r of None \<Rightarrow> s' = s | Some p \<Rightarrow> contents s p = None \<and> contents s' = (contents s)(p \<mapsto> e))"
    and del_law: "inv s \<Longrightarrow> contents s p \<noteq> None \<Longrightarrow>
      \<exists>s'. del p s = Some (0, s') \<and> inv s' \<and> contents s' = (contents s)(p := None)"

text \<open>The states that a pool can reach, with the entries that the client holds in each.\<close>

inductive pool_reach ::
  "('n \<Rightarrow> 'a \<Rightarrow> 's \<Rightarrow> ('p option \<times> 's) option) \<Rightarrow> ('p \<Rightarrow> 's \<Rightarrow> (int \<times> 's) option) \<Rightarrow>
   ('n \<Rightarrow> 's \<Rightarrow> bool) \<Rightarrow> 's \<Rightarrow> 's \<Rightarrow> ('p \<Rightarrow> 'a option) \<Rightarrow> bool"
  for add del ok empty where
    reach_empty: "pool_reach add del ok empty empty Map.empty"
  | reach_refused: "pool_reach add del ok empty s m \<Longrightarrow> ok n s \<Longrightarrow> add n e s = Some (None, s') \<Longrightarrow>
      pool_reach add del ok empty s' m"
  | reach_add: "pool_reach add del ok empty s m \<Longrightarrow> ok n s \<Longrightarrow> add n e s = Some (Some p, s') \<Longrightarrow>
      pool_reach add del ok empty s' (m(p \<mapsto> e))"
  | reach_del: "pool_reach add del ok empty s m \<Longrightarrow> m p \<noteq> None \<Longrightarrow> del p s = Some (r, s') \<Longrightarrow>
      pool_reach add del ok empty s' (m(p := None))"

context pool
begin

lemma reach_inv: "pool_reach add del ok empty s m \<Longrightarrow> inv s \<and> contents s = m"
proof (induction rule: pool_reach.induct)
  case reach_empty
  show ?case using empty by simp
next
  case (reach_refused s m n e s')
  then show ?case using add_law [of s n e] by auto
next
  case (reach_add s m n e p s')
  then show ?case using add_law [of s n e] by auto
next
  case (reach_del s m p r s')
  then show ?case using del_law [of s p] by auto
qed

lemma reach_safe:
  assumes "pool_reach add del ok empty s m"
  shows "contents s = m \<and>
    (\<forall>n e. ok n s \<longrightarrow> (\<exists>r s'. add n e s = Some (r, s') \<and> (\<forall>p. r = Some p \<longrightarrow> m p = None))) \<and>
    (\<forall>p. m p \<noteq> None \<longrightarrow> (\<exists>s'. del p s = Some (0, s')))"
proof -
  have i: "inv s" "contents s = m" using reach_inv [OF assms] by auto
  have "\<exists>r s'. add n e s = Some (r, s') \<and> (\<forall>p. r = Some p \<longrightarrow> m p = None)" if "ok n s" for n e
    using add_law [OF i(1) that, of e] i(2) by (auto split: option.splits)
  moreover have "\<exists>s'. del p s = Some (0, s')" if "m p \<noteq> None" for p
    using del_law [of s p] i that by auto
  ultimately show ?thesis using i(2) by blast
qed

end

text \<open>malloc gives an address at which no chunk is allocated.\<close>

definition fresh_chunk :: "nat option \<Rightarrow> 'a slab \<Rightarrow> bool" where
  "fresh_chunk new s \<longleftrightarrow> (case new of None \<Rightarrow> True | Some c \<Rightarrow> chunks s c = None)"

lemma init_slab_lists: "slab_lists init_slab [] [] []"
  by (simp add: slab_lists_def init_slab_def owned_def)

interpretation sl: pool add_entry_to_slab remove_entry_from_slab slab_contents slab_inv fresh_chunk
    init_slab
proof unfold_locales
  show "slab_inv init_slab" using init_slab_lists slab_lists_inv by blast
  show "slab_contents init_slab = Map.empty" by (simp add: fun_eq_iff entry_at_def init_slab_def)
  show "\<exists>r s'. add_entry_to_slab n e s = Some (r, s') \<and> slab_inv s' \<and>
      (case r of None \<Rightarrow> s' = s
       | Some p \<Rightarrow> slab_contents s p = None \<and> slab_contents s' = (slab_contents s)(p \<mapsto> e))"
    if "slab_inv s" "fresh_chunk n s" for s :: "'a slab" and n e
    using add_entry_law [OF that(1), of n e] that(2) by (fastforce simp: fresh_chunk_def split: option.splits)
qed (rule remove_entry_law)

text \<open>The reachable states of a slab.\<close>

abbreviation slab_reach :: "'a slab \<Rightarrow> (slab_entry \<Rightarrow> 'a option) \<Rightarrow> bool" where
  "slab_reach \<equiv> pool_reach add_entry_to_slab remove_entry_from_slab fresh_chunk init_slab"

section \<open>Properties\<close>

text \<open>
  C28: in every state that a slab reaches, its slots hold exactly the entries that were added and
  not removed, at the addresses that were returned; a further addition never faults and never
  returns an address that is in use; removing any entry that is there succeeds. The linked
  lists, the bitmaps and the freeing of empty chunks never get in the way of this.
\<close>

theorem slab_reach_safe:
  assumes "slab_reach s m"
  shows "slab_contents s = m \<and>
    (\<forall>new e. fresh_chunk new s \<longrightarrow>
       (\<exists>r s'. add_entry_to_slab new e s = Some (r, s') \<and> (\<forall>a. r = Some a \<longrightarrow> m a = None))) \<and>
    (\<forall>a. m a \<noteq> None \<longrightarrow> (\<exists>s'. remove_entry_from_slab a s = Some (0, s')))"
  by (rule sl.reach_safe [OF assms])

text \<open>
  Walking a slab calls the callback once for every entry in a chunk of the two lists, the
  partial chunks before the full ones, in the order of the slots, and stops when it asks to; when no chunk
  has been lost these are all the entries of the slab.
\<close>

theorem slab_foreach_visits:
  assumes "slab_lists s ps fs ds"
  defines "es \<equiv> list_entries (chunks s) (ps @ fs)"
  shows "slab_foreach cb s ctx = foreach_entries cb es ctx \<and> distinct (map fst es) \<and>
    (ds = [] \<longrightarrow> map_of es = slab_contents s)"
proof -
  have ow: "owned (chunks s)" and dist: "distinct (ps @ fs)" using slab_listsD(4,8) [OF assms(1)] by auto
  have d: "distinct (map fst es)" unfolding es_def by (rule list_entries_distinct [OF dist])
  have "map_of es a = slab_contents s a" if "ds = []" for a
  proof (cases "slab_contents s a")
    case None
    then have "a \<notin> fst ` set es" using list_entries_live [OF ow] unfolding es_def by fastforce
    then show ?thesis using None by (simp add: map_of_eq_None_iff)
  next
    case (Some e)
    then have "fst a \<in> dom (chunks s)" by (auto simp: entry_at_def split: option.splits)
    then have "(a, e) \<in> set es"
      using slab_listsD(5) [OF assms(1)] that Some list_entries_live [OF ow] unfolding es_def by simp
    then show ?thesis using d Some by simp
  qed
  then show ?thesis using slab_foreach_entries [OF assms(1)] d by (auto simp: es_def)
qed

text \<open>How a chunk gets lost: three lemmas towards a state with an entry that no walk finds.\<close>

lemma reach_fill:
  fixes s :: "'a slab"
  assumes "slab_reach s m" "slab_lists s [c] fs []"
  shows "\<exists>(s' :: 'a slab) m'. slab_reach s' m' \<and> slab_lists s' [] (c # fs) []"
  using assms
proof (induction "card {b. b < 64 \<and> m (c, b) = None}" arbitrary: s m rule: less_induct)
  case less
  obtain ch where ch: "chunks s c = Some ch" using slab_lists_chunk [OF less.prems(2), of c] by auto
  have m: "slab_contents s = m" using sl.reach_inv [OF less.prems(1)] by simp
  define b where "b = ffsl (bitmap ch) - 1"
  have b: "b < 64"
    using slab_listsD(7) [OF less.prems(2)] ch ffsl_bit(2) by (simp add: b_def bitmap_at_def)
  obtain s' where s': "add_entry_to_slab None undefined s = Some (Some (c, b), s')" "m (c, b) = None"
    "case lists_after_add (bitmap ch AND NOT (push_bit b 1) = 0) c [] fs [] of
       (ps', fs', ds') \<Rightarrow> slab_lists s' ps' fs' ds'"
    using add_into_partial [OF less.prems(2) ch, of None undefined, folded b_def, unfolded m]
    by (elim exE conjE) (rule that)
  have r: "slab_reach s' (m((c, b) \<mapsto> undefined))"
    using reach_add [OF less.prems(1) _ s'(1)] by (simp add: fresh_chunk_def)
  show ?case
  proof (cases "bitmap ch AND NOT (push_bit b 1) = 0")
    case True
    then have "slab_lists s' [] (c # fs) []"
      using s'(3) by (simp only: lists_after_add_def simp_thms if_True prod.case)
    then show ?thesis using r by blast
  next
    case False
    have "{i. i < 64 \<and> (m((c, b) \<mapsto> undefined)) (c, i) = None} =
        {i. i < 64 \<and> m (c, i) = None} - {b}" by auto
    then have "card {i. i < 64 \<and> (m((c, b) \<mapsto> undefined)) (c, i) = None} <
        card {i. i < 64 \<and> m (c, i) = None}"
      using b s'(2) by (simp only:) (rule card_Diff1_less, simp_all)
    moreover have "slab_lists s' [c] fs []"
      using False s'(3) by (simp only: lists_after_add_def if_False prod.case)
    ultimately show ?thesis using less.hyps r by blast
  qed
qed

lemma new_chunk_slot: "ffsl (bitmap new_slab_chunk) - 1 = 0"
  by (simp add: ffsl_def new_slab_chunk_def upt_rec)

lemma new_chunk_after_add:
  "lists_after_add (bitmap (new_slab_chunk :: 'a chunk) AND NOT (push_bit 0 1) = 0) c [] fs [] =
     ([c], fs, [])"
proof -
  have "bit (bitmap (new_slab_chunk :: 'a chunk) AND NOT (2 ^ 0)) 1"
    by (subst bit_clear) (simp_all add: new_slab_chunk_def bit_simps)
  then have "bitmap (new_slab_chunk :: 'a chunk) AND NOT (push_bit 0 1) \<noteq> 0" by auto
  then show ?thesis by (simp only: lists_after_add_def if_False)
qed

lemma reach_new_chunk:
  assumes "slab_reach s m" "slab_lists s [] fs []" "chunks s c = None"
  shows "\<exists>s'. slab_reach s' (m((c, 0) \<mapsto> e)) \<and> slab_lists s' [c] fs [] \<and>
    slab_contents s' = m((c, 0) \<mapsto> e) \<and> add_entry_to_slab (Some c) e s = Some (Some (c, 0), s')"
proof -
  note n = new_chunk_lists [OF assms(2,3)]
  have m: "slab_contents s = m" using sl.reach_inv [OF assms(1)] by simp
  obtain s' where "add_entry_to_slab (Some c) e s = Some (Some (c, 0), s')"
    "slab_contents s' = m((c, 0) \<mapsto> e)" "slab_lists s' [c] fs []"
    using add_into_partial [OF n(1,4), of None e]
    unfolding new_chunk_slot new_chunk_after_add prod.case n(2) m n(3) [of e None] by blast
  moreover from this have "slab_reach s' (m((c, 0) \<mapsto> e))"
    using reach_add [OF assms(1), of "Some c"] assms(3) by (simp add: fresh_chunk_def)
  ultimately show ?thesis by blast
qed

lemma reach_first_chunk:
  "\<exists>s. slab_reach s (Map.empty((c, 0) \<mapsto> e)) \<and> slab_lists s [c] [] []"
proof -
  have "chunks (init_slab :: 'a slab) c = None" by (simp add: init_slab_def)
  then show ?thesis using reach_new_chunk [OF reach_empty init_slab_lists, of c e] by blast
qed

text \<open>
  C39: a slab can lose track of a chunk. When the first partial chunk becomes full,
  first_partial_chunk is set to NULL even if more partial chunks follow it: a state is reachable
  in which an entry is held by the client, removable and counted, but no walk visits it.
\<close>

theorem slab_foreach_can_miss_entries:
  "\<exists>(s :: 'a slab) m a e es. slab_reach s m \<and> m a = Some e \<and> a \<notin> set (map fst es) \<and>
     (\<forall>cb (ctx :: 'c). slab_foreach cb s ctx = foreach_entries cb es ctx)"
proof -
  fix e :: 'a
  obtain s0 :: "'a slab" and m0 where 0: "slab_reach s0 m0" "slab_lists s0 [0] [] []"
    using reach_first_chunk [of 0 e] by blast
  obtain s1 :: "'a slab" and m1 where 1: "slab_reach s1 m1" "slab_lists s1 [] [0] []"
    using reach_fill [OF 0] by blast
  have "chunks s1 1 = None" using slab_listsD(5) [OF 1(2)] by (auto simp: dom_def)
  then obtain s2 :: "'a slab" where 2: "slab_reach s2 (m1((1, 0) \<mapsto> e))" "slab_lists s2 [1] [0] []"
    "slab_contents s2 = m1((1, 0) \<mapsto> e)"
    using reach_new_chunk [OF 1] by blast
  obtain ch where ch: "chunks s2 0 = Some ch" using slab_lists_chunk [OF 2(2), of 0] by auto
  have full: "bitmap ch = 0" using slab_listsD(6) [OF 2(2)] ch by (simp add: bitmap_at_def)
  then have live: "slot_chunk ch b = Some 0" "slot_data ch b \<noteq> None" if "b < 64" for b
    using slab_listsD(8) [OF 2(2)] ch that by (auto simp: owned_def)
  then obtain s3 where 3: "remove_entry_from_slab (0, 0) s2 = Some (0, s3)" "slab_lists s3 [0, 1] [] []"
    "slab_contents s3 = (m1((1, 0) \<mapsto> e))((0, 0) := None)"
    using remove_full [of s2 "[1]" "[]" 0 "[]" "[]" ch 0] 2(2,3) ch by auto
  have "(m1((1, 0) \<mapsto> e)) (0, 0) \<noteq> None"
    using live [of 0] ch full unfolding 2(3) [symmetric] by (simp add: entry_at_def)
  from reach_del [OF 2(1) this 3(1)] have r3: "slab_reach s3 ((m1((1, 0) \<mapsto> e))((0, 0) := None))" .
  obtain ch3 where ch3: "chunks s3 0 = Some ch3" using slab_lists_chunk [OF 3(2), of 0] by auto
  have bits: "\<not> bit (bitmap ch3) i" if "0 < i" "i < 64" for i
  proof -
    have "slab_contents s3 (0, i) = slab_contents s2 (0, i)" using 3(3) 2(3) that by simp
    also have "\<dots> \<noteq> None" using live [OF that(2)] ch full that by (simp add: entry_at_def)
    finally show ?thesis using ch3 by (auto simp: entry_at_def split: if_splits)
  qed
  have nz: "bitmap ch3 \<noteq> 0" using slab_listsD(7) [OF 3(2)] ch3 by (simp add: bitmap_at_def)
  have b0: "ffsl (bitmap ch3) - 1 = 0" using ffsl_bit(2,3) [OF nz] bits by (metis gr0I)
  have "bitmap ch3 AND NOT (2 ^ 0) = 0"
    unfolding word_zero_bits using bits bit_clear [of 0 "bitmap ch3"] by (metis gr0I zero_less_numeral)
  then have all: "(bitmap ch3 AND NOT (push_bit 0 1) = 0) = True" by simp
  obtain s4 where 4: "add_entry_to_slab None e s3 = Some (Some (0, 0), s4)"
    "slab_contents s4 = (slab_contents s3)((0, 0) \<mapsto> e)" "slab_lists s4 [] [0] [[1]]"
    using add_into_partial [OF 3(2) ch3, of None e] all
    unfolding b0 all lists_after_add_def by (simp only: if_True prod.case) auto
  let ?m = "((m1((1, 0) \<mapsto> e))((0, 0) := None))((0, 0) \<mapsto> e)"
  have "slab_reach s4 ?m" using reach_add [OF r3 _ 4(1)] by (simp add: fresh_chunk_def)
  moreover have "?m (1, 0) = Some e" by simp
  moreover have "(1, 0) \<notin> set (map fst (list_entries (chunks s4) [0]))"
    using list_entries_live [OF slab_listsD(8) [OF 4(3)], of _ _ "[0]"] by fastforce
  moreover have "slab_foreach cb s4 ctx = foreach_entries cb (list_entries (chunks s4) [0]) ctx"
    for cb and ctx :: 'c
    using slab_foreach_entries [OF 4(3)] by simp
  ultimately show ?thesis by blast
qed

section \<open>Witnesses\<close>

theorem slab_reach_safe_witness:
  "\<exists>(s :: nat slab) m. slab_reach s m \<and> m (7, 0) = Some 42 \<and> slab_contents s = m \<and>
     (\<exists>s'. remove_entry_from_slab (7, 0) s = Some (0, s'))"
proof -
  obtain s :: "nat slab" where s: "slab_reach s (Map.empty((7, 0) \<mapsto> 42))"
    using reach_first_chunk [of 7 "42 :: nat"] by blast
  from slab_reach_safe [OF s] have "slab_contents s = Map.empty((7, 0) \<mapsto> 42)"
    "\<exists>s'. remove_entry_from_slab (7, 0) s = Some (0, s')" by auto
  then show ?thesis using s by (intro exI [of _ s] exI [of _ "Map.empty((7, 0) \<mapsto> 42)"]) simp
qed

theorem slab_foreach_visits_witness:
  "\<exists>(s :: nat slab). slab_lists s [7] [] [] \<and>
     (\<forall>cb (ctx :: nat). slab_foreach cb s ctx = foreach_entries cb (list_entries (chunks s) [7]) ctx)"
proof -
  obtain s :: "nat slab" where s: "slab_lists s [7] [] []"
    using reach_first_chunk [of 7 "42 :: nat"] by blast
  show ?thesis
  proof (intro exI conjI allI)
    show "slab_lists s [7] [] []" by (rule s)
    show "slab_foreach cb s ctx = foreach_entries cb (list_entries (chunks s) [7]) ctx"
      for cb and ctx :: nat
      using slab_foreach_visits [OF s, of cb ctx] by simp
  qed
qed

end
