(* ===== verification/Dimension.thy ===== *)
theory Dimension
  imports Pincaster_Prelude "HOL-Library.Log_Nat"
begin

text \<open>
  The numbers of the geographical index. \<open>pandb.h\<close> declares Dimension, Dimension2 and Meters
  as float, and the expressions of \<open>pandb.c\<close> and \<open>utils.c\<close> mix float and double
  operands. A value here is a finite rational, an infinity or a NaN; an operation computes exactly
  and rounds to binary32 or binary64, to nearest with ties to even, with gradual underflow and
  with overflow to infinity. The sign of a zero is not kept: no comparison, sum or product can
  see it, and a division by zero takes the zero as positive, which is the case for the two
  divisors of the sources that can be zero, both results of fabs or of cosf.
  The lemmas give what the index needs of rounding: it is monotone and it does not change a
  number that is representable.
\<close>

section \<open>Rounding\<close>

text \<open>The exponent of a positive rational: 2 powi ilog2 x is the largest power of two below x.\<close>

definition ilog2 :: "rat \<Rightarrow> int" where
  "ilog2 x =
     (let (n, d) = quotient_of x;
          k = bitlen n - bitlen d
      in if 2 powi k \<le> x then k else k - 1)"

definition round_even :: "rat \<Rightarrow> int" where
  "round_even q =
     (let f = \<lfloor>q\<rfloor>;
          r = q - of_int f
      in if r < 1 / 2 then f else if r > 1 / 2 then f + 1 else if even f then f else f + 1)"

text \<open>
  Rounding to p bits of precision, with least exponent e. The unit in the last place of x comes
  first.
\<close>

definition ulp :: "nat \<Rightarrow> int \<Rightarrow> rat \<Rightarrow> rat" where
  "ulp p e x = 2 powi max e (ilog2 \<bar>x\<bar> - int p + 1)"

definition rnd :: "nat \<Rightarrow> int \<Rightarrow> rat \<Rightarrow> rat" where
  "rnd p e x = (if x = 0 then 0 else of_int (round_even (x / ulp p e x)) * ulp p e x)"

section \<open>Values and operations\<close>

datatype dimension = Fin rat | PInf | MInf | NaN

definition f32 :: "rat \<Rightarrow> dimension" where
  "f32 x = (let r = rnd 24 (- 149) x
            in if r \<ge> 2 ^ 128 then PInf else if r \<le> - (2 ^ 128) then MInf else Fin r)"

definition f64 :: "rat \<Rightarrow> dimension" where
  "f64 x = (let r = rnd 53 (- 1074) x
            in if r \<ge> 2 ^ 1024 then PInf else if r \<le> - (2 ^ 1024) then MInf else Fin r)"

text \<open>The conversion from double to float, and the four operations in a given format.\<close>

fun to_float :: "dimension \<Rightarrow> dimension" where
  "to_float (Fin x) = f32 x"
| "to_float x = x"

fun fneg :: "dimension \<Rightarrow> dimension" where
  "fneg (Fin x) = Fin (- x)"
| "fneg PInf = MInf"
| "fneg MInf = PInf"
| "fneg NaN = NaN"

fun fabs :: "dimension \<Rightarrow> dimension" where
  "fabs (Fin x) = Fin \<bar>x\<bar>"
| "fabs NaN = NaN"
| "fabs _ = PInf"

fun fadd :: "(rat \<Rightarrow> dimension) \<Rightarrow> dimension \<Rightarrow> dimension \<Rightarrow> dimension" where
  "fadd fmt (Fin x) (Fin y) = fmt (x + y)"
| "fadd fmt NaN _ = NaN"
| "fadd fmt _ NaN = NaN"
| "fadd fmt PInf MInf = NaN"
| "fadd fmt MInf PInf = NaN"
| "fadd fmt PInf _ = PInf"
| "fadd fmt _ PInf = PInf"
| "fadd fmt MInf _ = MInf"
| "fadd fmt _ MInf = MInf"

definition fsub :: "(rat \<Rightarrow> dimension) \<Rightarrow> dimension \<Rightarrow> dimension \<Rightarrow> dimension" where
  "fsub fmt x y = fadd fmt x (fneg y)"

definition inf_of :: "rat \<Rightarrow> dimension" where
  "inf_of s = (if s > 0 then PInf else if s < 0 then MInf else NaN)"

fun sign_of :: "dimension \<Rightarrow> rat" where
  "sign_of (Fin x) = sgn x"
| "sign_of PInf = 1"
| "sign_of MInf = - 1"
| "sign_of NaN = 0"

fun fmul :: "(rat \<Rightarrow> dimension) \<Rightarrow> dimension \<Rightarrow> dimension \<Rightarrow> dimension" where
  "fmul fmt (Fin x) (Fin y) = fmt (x * y)"
| "fmul fmt x y = inf_of (sign_of x * sign_of y)"

fun fdiv :: "(rat \<Rightarrow> dimension) \<Rightarrow> dimension \<Rightarrow> dimension \<Rightarrow> dimension" where
  "fdiv fmt (Fin x) (Fin y) = (if y = 0 then inf_of x else fmt (x / y))"
| "fdiv fmt NaN _ = NaN"
| "fdiv fmt _ NaN = NaN"
| "fdiv fmt (Fin x) _ = Fin 0"
| "fdiv fmt x (Fin y) = inf_of (sign_of x * (if y < 0 then - 1 else 1))"
| "fdiv fmt _ _ = NaN"

text \<open>The comparisons are false on a NaN.\<close>

fun flt :: "dimension \<Rightarrow> dimension \<Rightarrow> bool" where
  "flt (Fin x) (Fin y) = (x < y)"
| "flt NaN _ = False"
| "flt _ NaN = False"
| "flt MInf y = (y \<noteq> MInf)"
| "flt _ MInf = False"
| "flt PInf _ = False"
| "flt _ PInf = True"

fun fle :: "dimension \<Rightarrow> dimension \<Rightarrow> bool" where
  "fle (Fin x) (Fin y) = (x \<le> y)"
| "fle NaN _ = False"
| "fle _ NaN = False"
| "fle MInf _ = True"
| "fle _ PInf = True"
| "fle _ MInf = False"
| "fle PInf _ = False"

definition feq :: "dimension \<Rightarrow> dimension \<Rightarrow> bool" where
  "feq x y = (x = y \<and> x \<noteq> NaN)"

section \<open>The exponent\<close>

lemma two_powi_mono: "i \<le> j \<Longrightarrow> (2 :: rat) powi i \<le> 2 powi j"
  by (rule power_int_increasing) simp_all

lemma two_powi_pos [simp]: "0 < (2 :: rat) powi i"
  by (simp add: zero_less_power_int)

lemma two_powi_add: "(2 :: rat) powi (i + j) = 2 powi i * 2 powi j"
  by (simp add: power_int_add)

lemma ilog2_bounds:
  assumes "0 < x"
  shows "2 powi ilog2 x \<le> x" "x < 2 powi (ilog2 x + 1)"
proof -
  obtain n d where q: "quotient_of x = (n, d)" by (cases "quotient_of x")
  have d: "d > 0" and x: "x = of_int n / of_int d"
    using quotient_of_denom_pos [OF q] quotient_of_div [OF q] by auto
  with assms have n: "n > 0" by (auto simp: zero_less_divide_iff)
  define a where "a = nat (bitlen n - 1)"
  define b where "b = nat (bitlen d - 1)"
  have a: "bitlen n = int a + 1" and b: "bitlen d = int b + 1"
    using n d bitlen_bounds [of n] bitlen_bounds [of d] bitlen_nonneg [of n] bitlen_nonneg [of d]
      bitlen_eq_zero_iff [of n] bitlen_eq_zero_iff [of d] by (auto simp: a_def b_def)
  have n2: "2 ^ a \<le> n" "n < 2 ^ (a + 1)" and d2: "2 ^ b \<le> d" "d < 2 ^ (b + 1)"
    using bitlen_bounds [OF n] bitlen_bounds [OF d] a b by (simp_all add: nat_add_distrib)
  have n3: "(2 :: rat) ^ a \<le> of_int n" "of_int n < (2 :: rat) ^ (a + 1)"
    using n2 by (metis of_int_le_iff of_int_numeral of_int_power)
      (use n2 in \<open>metis of_int_less_iff of_int_numeral of_int_power\<close>)
  have d3: "(2 :: rat) ^ b \<le> of_int d" "of_int d < (2 :: rat) ^ (b + 1)"
    using d2 by (metis of_int_le_iff of_int_numeral of_int_power)
      (use d2 in \<open>metis of_int_less_iff of_int_numeral of_int_power\<close>)
  have k: "(2 :: rat) powi (int a - int b) = 2 ^ a / 2 ^ b"
    by (simp add: power_int_diff)
  have up: "x < 2 powi (int a - int b + 1)"
  proof -
    have "x \<le> of_int n / 2 ^ b" unfolding x using d3(1) d n by (intro divide_left_mono) auto
    also have "\<dots> < 2 ^ (a + 1) / 2 ^ b" using n3(2) by (intro divide_strict_right_mono) auto
    finally show ?thesis by (simp add: k power_int_add mult.commute)
  qed
  have low: "2 powi (int a - int b - 1) < x"
  proof -
    have "2 ^ a / 2 ^ (b + 1) < (2 :: rat) ^ a / of_int d"
      using d3(2) d by (intro divide_strict_left_mono) auto
    also have "\<dots> \<le> x" unfolding x using n3(1) d by (intro divide_right_mono) auto
    finally show ?thesis by (simp add: k power_int_diff)
  qed
  have l: "ilog2 x = (if 2 powi (int a - int b) \<le> x then int a - int b else int a - int b - 1)"
    by (simp add: ilog2_def q a b)
  show "2 powi ilog2 x \<le> x" "x < 2 powi (ilog2 x + 1)" using l up low by (auto split: if_splits)
qed

lemma ilog2_mono:
  assumes "0 < x" "x \<le> y"
  shows "ilog2 x \<le> ilog2 y"
proof (rule ccontr)
  assume "\<not> ilog2 x \<le> ilog2 y"
  then have "(2 :: rat) powi (ilog2 y + 1) \<le> 2 powi ilog2 x" by (intro two_powi_mono) simp
  then show False using ilog2_bounds [OF assms(1)] ilog2_bounds [of y] assms by simp
qed

lemma ilog2_less: "0 < x \<Longrightarrow> x < 2 powi k \<Longrightarrow> ilog2 x < k"
  by (metis ilog2_bounds(1) linorder_not_less order.trans two_powi_mono leD)

section \<open>Rounding to an integer\<close>

lemma round_even_of_int [simp]: "round_even (of_int z) = z"
  by (simp add: round_even_def)

lemma round_even_mono:
  assumes "q \<le> r"
  shows "round_even q \<le> round_even r"
proof (cases "\<lfloor>q\<rfloor> = \<lfloor>r\<rfloor>")
  case True
  then show ?thesis using assms by (auto simp: round_even_def Let_def)
next
  case False
  then have "\<lfloor>q\<rfloor> + 1 \<le> \<lfloor>r\<rfloor>" using floor_mono [OF assms] by linarith
  moreover have "round_even q \<le> \<lfloor>q\<rfloor> + 1" "\<lfloor>r\<rfloor> \<le> round_even r"
    by (auto simp: round_even_def Let_def)
  ultimately show ?thesis by linarith
qed

lemma round_even_minus: "round_even (- q) = - round_even q"
proof (cases "q = of_int \<lfloor>q\<rfloor>")
  case True
  then show ?thesis by (metis of_int_minus round_even_of_int)
next
  case False
  then have f: "\<lfloor>- q\<rfloor> = - \<lfloor>q\<rfloor> - 1"
    by (metis (no_types) ceiling_altdef ceiling_def diff_minus_eq_add minus_diff_eq uminus_add_conv_diff minus_equation_iff add.commute)
  show ?thesis by (auto simp: round_even_def Let_def f)
qed

section \<open>Rounding is monotone and keeps representable numbers\<close>

lemma ulp_pos [simp]: "0 < ulp p e x"
  by (simp add: ulp_def)

lemma rnd_0 [simp]: "rnd p e 0 = 0"
  by (simp add: rnd_def)

lemma rnd_minus: "rnd p e (- x) = - rnd p e x"
  by (simp add: rnd_def ulp_def round_even_minus)

lemma rnd_nonneg: "0 \<le> x \<Longrightarrow> 0 \<le> rnd p e x"
  using round_even_mono [of 0 "x / ulp p e x"] round_even_of_int [of 0]
  by (simp add: rnd_def ulp_pos less_imp_le)

definition representable :: "nat \<Rightarrow> int \<Rightarrow> rat \<Rightarrow> bool" where
  "representable p e x = (\<exists>m k. x = of_int m * 2 powi k \<and> \<bar>m\<bar> \<le> 2 ^ p \<and> e \<le> k)"

lemma rnd_integral:
  assumes "x = of_int m * 2 powi max e (ilog2 \<bar>x\<bar> - int p + 1)"
  shows "rnd p e x = x"
proof -
  have "x / ulp p e x = of_int m"
    unfolding ulp_def by (subst assms) simp
  then show ?thesis using assms by (simp add: rnd_def ulp_def)
qed

lemma rnd_small_mantissa:
  assumes x: "x = of_int m * 2 powi k" and m: "\<bar>m\<bar> < 2 ^ p" and e: "e \<le> k"
  shows "rnd p e x = x"
proof (cases "x = 0")
  case False
  then have "0 < \<bar>x\<bar>" by simp
  moreover have "\<bar>x\<bar> < 2 powi (int p + k)"
  proof -
    have "\<bar>x\<bar> = of_int \<bar>m\<bar> * 2 powi k" by (simp add: x abs_mult power_int_abs)
    also have "\<dots> < 2 ^ p * 2 powi k"
      using m by (intro mult_strict_right_mono) (simp_all flip: of_int_less_iff [where 'a = rat])
    finally show ?thesis by (simp add: two_powi_add)
  qed
  ultimately have "ilog2 \<bar>x\<bar> < int p + k" by (rule ilog2_less)
  then have le: "max e (ilog2 \<bar>x\<bar> - int p + 1) \<le> k" (is "?u \<le> k") using e by simp
  then have "(2 :: rat) powi k = 2 ^ nat (k - ?u) * 2 powi ?u"
    by (metis add.commute diff_add_cancel diff_ge_0_iff_ge power_int_nonneg_exp two_powi_add)
  then have "x = of_int (m * 2 ^ nat (k - ?u)) * 2 powi ?u" by (simp add: x mult.assoc)
  then show ?thesis by (rule rnd_integral)
qed simp

lemma rnd_representable:
  assumes "representable p e x" "0 < p"
  shows "rnd p e x = x"
proof -
  from assms obtain m k where x: "x = of_int m * 2 powi k" "\<bar>m\<bar> \<le> 2 ^ p" "e \<le> k"
    by (auto simp: representable_def)
  show ?thesis
  proof (cases "\<bar>m\<bar> < 2 ^ p")
    case True
    then show ?thesis using rnd_small_mantissa x by blast
  next
    case False
    obtain q where q: "p = Suc q" using assms(2) by (cases p) auto
    from False have "\<bar>m\<bar> = 2 ^ q * 2" using x(2) q by simp
    then have "sgn m * 2 ^ q * 2 = m" using sgn_mult_abs [of m] by (simp add: mult.assoc)
    then have "of_int (sgn m * 2 ^ q) * 2 = (of_int m :: rat)" by (metis of_int_mult of_int_numeral)
    then have "x = of_int (sgn m * 2 ^ q) * 2 powi (k + 1)"
      unfolding x(1) two_powi_add by (simp add: mult_ac)
    moreover have "\<bar>sgn m * 2 ^ q\<bar> < 2 ^ p" using q by (simp add: abs_mult abs_sgn_eq)
    ultimately show ?thesis using rnd_small_mantissa x(3) by (metis add_increasing2 zero_le_one)
  qed
qed

lemma rnd_is_representable: "representable p e (rnd p e x)"
proof (cases "x = 0")
  case True
  have "(0 :: rat) = of_int 0 * 2 powi e" by simp
  then show ?thesis unfolding True rnd_0 representable_def by (metis abs_zero order_refl zero_le_numeral zero_le_power)
next
  case False
  define k where "k = max e (ilog2 \<bar>x\<bar> - int p + 1)"
  have "\<bar>x\<bar> < 2 powi (ilog2 \<bar>x\<bar> + 1)" using ilog2_bounds False by simp
  also have "\<dots> \<le> 2 powi (int p + k)" by (intro two_powi_mono) (simp add: k_def)
  finally have "\<bar>x\<bar> / 2 powi k \<le> 2 ^ p" by (simp add: two_powi_add divide_le_eq)
  then have "\<bar>x / 2 powi k\<bar> \<le> 2 ^ p" by (simp add: abs_divide power_int_abs)
  then have "x / 2 powi k \<le> of_int (2 ^ p)" "of_int (- (2 ^ p)) \<le> x / 2 powi k"
    unfolding abs_le_iff by (simp_all add: minus_le_iff)
  from round_even_mono [OF this(1)] round_even_mono [OF this(2)]
  have "\<bar>round_even (x / 2 powi k)\<bar> \<le> 2 ^ p" unfolding round_even_of_int by linarith
  then show ?thesis
    using False by (auto simp: representable_def rnd_def ulp_def k_def [symmetric])
       (metis k_def max.cobounded1)
qed

lemma rnd_mono_pos:
  assumes "0 < x" "x \<le> y" "0 < p"
  shows "rnd p e x \<le> rnd p e y"
proof (cases "ulp p e x = ulp p e y")
  case True
  have "x / ulp p e y \<le> y / ulp p e y" using assms by (intro divide_right_mono) (auto simp: less_imp_le)
  then show ?thesis using assms True by (simp add: rnd_def round_even_mono less_imp_le)
next
  case False
  define kx ky where "kx = max e (ilog2 x - int p + 1)" and "ky = max e (ilog2 y - int p + 1)"
  have "kx \<noteq> ky" using False assms by (auto simp: ulp_def kx_def ky_def)
  then have ky: "kx < ky" "ky = ilog2 y - int p + 1"
    using ilog2_mono [OF assms(1,2)] by (auto simp: kx_def ky_def)
  have "ilog2 x + 1 \<le> int p + kx" by (simp add: kx_def)
  then have "x \<le> 2 powi (int p + kx)"
    using ilog2_bounds(2) [OF assms(1)] two_powi_mono [of "ilog2 x + 1" "int p + kx"] by simp
  then have "x / 2 powi kx \<le> of_int (2 ^ p)" by (simp add: two_powi_add divide_le_eq)
  then have "round_even (x / 2 powi kx) \<le> 2 ^ p" using round_even_mono round_even_of_int by metis
  then have "(of_int (round_even (x / 2 powi kx)) :: rat) \<le> of_int (2 ^ p)" by (simp only: of_int_le_iff)
  then have "rnd p e x \<le> of_int (2 ^ p) * 2 powi kx"
    using assms by (auto simp: rnd_def ulp_def kx_def [symmetric])
  also have "\<dots> = 2 powi (int p + kx)" by (simp add: two_powi_add)
  also have "\<dots> \<le> 2 powi (int (p - 1) + ky)" using ky assms(3) by (intro two_powi_mono) simp
  also have "\<dots> = of_int (2 ^ (p - 1)) * 2 powi ky" by (simp add: two_powi_add)
  also have "\<dots> \<le> rnd p e y"
  proof -
    have "int (p - 1) + ky = ilog2 y" using ky assms(3) by simp
    then have "2 powi (int (p - 1) + ky) \<le> y" using ilog2_bounds(1) [of y] assms by simp
    then have "of_int (2 ^ (p - 1)) \<le> y / 2 powi ky" by (simp add: two_powi_add le_divide_eq)
    then have "2 ^ (p - 1) \<le> round_even (y / 2 powi ky)" using round_even_mono round_even_of_int by metis
    then have "(of_int (2 ^ (p - 1)) :: rat) \<le> of_int (round_even (y / 2 powi ky))" by (simp only: of_int_le_iff)
    then show ?thesis using assms by (auto simp: rnd_def ulp_def ky_def [symmetric])
  qed
  finally show ?thesis .
qed

lemma rnd_mono:
  assumes "x \<le> y" "0 < p"
  shows "rnd p e x \<le> rnd p e y"
proof (cases "0 < x")
  case True
  then show ?thesis using rnd_mono_pos assms by blast
next
  case x: False
  show ?thesis
  proof (cases "y < 0")
    case True
    then have "rnd p e (- y) \<le> rnd p e (- x)" using rnd_mono_pos assms by simp
    then show ?thesis by (simp add: rnd_minus)
  next
    case False
    have "rnd p e (- x) \<ge> 0" "rnd p e y \<ge> 0" using x False by (simp_all add: rnd_nonneg)
    then show ?thesis by (simp add: rnd_minus)
  qed
qed

section \<open>What the index needs of a rounding\<close>

locale rounding =
  fixes round_to :: "rat \<Rightarrow> rat" and keeps :: "rat \<Rightarrow> bool"
  assumes round_to_mono: "x \<le> y \<Longrightarrow> round_to x \<le> round_to y"
    and round_to_keeps: "keeps x \<Longrightarrow> round_to x = x"
    and keeps_round_to: "keeps (round_to x)"
begin

lemma between:
  assumes "keeps a" "keeps b" "a \<le> x" "x \<le> b"
  shows "a \<le> round_to x" "round_to x \<le> b"
  using round_to_mono [OF assms(3)] round_to_mono [OF assms(4)] assms(1,2) by (simp_all add: round_to_keeps)

end

interpretation single: rounding "rnd 24 (- 149)" "representable 24 (- 149)"
  by unfold_locales (simp_all add: rnd_mono rnd_representable rnd_is_representable)

interpretation double: rounding "rnd 53 (- 1074)" "representable 53 (- 1074)"
  by unfold_locales (simp_all add: rnd_mono rnd_representable rnd_is_representable)

text \<open>Numbers of type float, and a bound under which the median of two of them is exact enough.\<close>

definition is_float :: "rat \<Rightarrow> bool" where
  "is_float x = representable 24 (- 149) x"

definition bounded :: "rat \<Rightarrow> bool" where
  "bounded x = (\<bar>x\<bar> \<le> 2 ^ 100)"

lemma representable_weaken:
  assumes "representable p e x" "p \<le> q" "f \<le> e"
  shows "representable q f x"
proof -
  obtain m k where "x = of_int m * 2 powi k" "\<bar>m\<bar> \<le> 2 ^ p" "e \<le> k"
    using assms(1) by (auto simp: representable_def)
  moreover from assms(2) have "(2 :: int) ^ p \<le> 2 ^ q" by (rule power_increasing) simp
  ultimately have "\<bar>m\<bar> \<le> 2 ^ q" "x = of_int m * 2 powi k" "f \<le> k"
    using assms(3) order_trans by blast+
  then show ?thesis unfolding representable_def by blast
qed

lemma representable_double:
  assumes "representable p e x"
  shows "representable p e (x + x)"
proof -
  obtain m k where x: "x = of_int m * 2 powi k" "\<bar>m\<bar> \<le> 2 ^ p" "e \<le> k"
    using assms by (auto simp: representable_def)
  then have "x + x = of_int m * 2 powi (k + 1)" by (simp add: two_powi_add)
  then show ?thesis using x(2,3) unfolding representable_def by (metis add_increasing2 zero_le_one)
qed

lemma is_float_double: "is_float x \<Longrightarrow> representable 53 (- 1074) x"
  unfolding is_float_def by (erule representable_weaken) simp_all

lemma is_float_of_int: "\<bar>m\<bar> \<le> 2 ^ 24 \<Longrightarrow> is_float (of_int m)"
  unfolding is_float_def representable_def by (intro exI [of _ m] exI [of _ 0]) simp

lemma f32_between:
  assumes "is_float a" "is_float b" "a \<le> x" "x \<le> b" "- (2 ^ 128) < a" "b < 2 ^ 128"
  shows "\<exists>y. f32 x = Fin y \<and> a \<le> y \<and> y \<le> b \<and> is_float y"
  using single.between [OF assms(1,2) [unfolded is_float_def] assms(3,4)] assms(5,6)
    single.keeps_round_to [of x]
  by (auto simp: f32_def Let_def is_float_def)

lemma f64_between:
  assumes "is_float a" "is_float b" "a \<le> x" "x \<le> b" "- (2 ^ 128) < a" "b < 2 ^ 128"
  shows "\<exists>y. f64 x = Fin y \<and> a \<le> y \<and> y \<le> b"
proof -
  have "(2 :: rat) ^ 128 \<le> 2 ^ 1024" by (rule power_increasing) simp_all
  then show ?thesis
    using double.between [OF is_float_double [OF assms(1)] is_float_double [OF assms(2)] assms(3,4)] assms(5,6)
    by (simp add: f64_def Let_def)
qed

text \<open>(x + y) / 2.0, computed in float and double and converted to float.\<close>

definition median :: "dimension \<Rightarrow> dimension \<Rightarrow> dimension" where
  "median x y = to_float (fdiv f64 (fadd f32 x y) (Fin 2))"

lemma median_between:
  assumes "is_float a" "is_float b" "bounded a" "bounded b" "a \<le> b"
  shows "\<exists>m. median (Fin a) (Fin b) = Fin m \<and> a \<le> m \<and> m \<le> b \<and> is_float m"
proof -
  have big: "(2 :: rat) ^ 100 + 2 ^ 100 < 2 ^ 128" by simp
  have d: "is_float (a + a)" "is_float (b + b)"
    using assms(1,2) unfolding is_float_def by (blast intro: representable_double)+
  have ab: "- (2 ^ 128) < a" "- (2 ^ 128) < a + a" "b < 2 ^ 128" "b + b < 2 ^ 128"
    using assms(3,4) unfolding bounded_def abs_le_iff by simp_all
  obtain s where s: "f32 (a + b) = Fin s" "a + a \<le> s" "s \<le> b + b"
    using f32_between [OF d, of "a + b"] assms(5) ab by auto
  then have "a \<le> s / 2" "s / 2 \<le> b" by simp_all
  then obtain h where h: "f64 (s / 2) = Fin h" "a \<le> h" "h \<le> b"
    using f64_between [OF assms(1,2)] ab by blast
  then show ?thesis
    using f32_between [OF assms(1,2) h(2,3)] ab by (simp add: median_def s(1))
qed

lemma fle_trans: "fle x y \<Longrightarrow> fle y z \<Longrightarrow> fle x z"
  by (cases x; cases y; cases z) auto

lemma flt_fle_trans: "flt x y \<Longrightarrow> fle y z \<Longrightarrow> flt x z"
  by (cases x; cases y; cases z) auto

lemma fle_flt_trans: "fle x y \<Longrightarrow> flt y z \<Longrightarrow> flt x z"
  by (cases x; cases y; cases z) auto

lemma flt_not_fle: "flt x y \<Longrightarrow> \<not> fle y x"
  by (cases x; cases y) auto

lemma fle_total: "x \<noteq> NaN \<Longrightarrow> y \<noteq> NaN \<Longrightarrow> \<not> fle y x \<Longrightarrow> flt x y"
  by (cases x; cases y) auto

end
