(* ===== verification/Geometry.thy ===== *)
theory Geometry
  imports Dimension
begin

text \<open>
  The rectangles of the geographical index (\<open>pandb.h\<close>, \<open>pandb.c\<close>): how a rectangle is cut
  into four, which of the four a position belongs to, when two rectangles touch, and how a query
  rectangle that leaves the bounds is cut into at most four zones. The main facts are that the
  four quadrants of a rectangle partition it exactly, whatever the rounding of the medians, so
  that a position inside the bounds always has exactly one bucket, and that the zones of a
  query are disjoint.
\<close>

section \<open>Positions and rectangles\<close>

record position2d =
  latitude :: dimension
  longitude :: dimension

record rectangle2d =
  edge0 :: position2d
  edge1 :: position2d

abbreviation pos :: "dimension \<Rightarrow> dimension \<Rightarrow> position2d" where
  "pos la lo \<equiv> \<lparr>latitude = la, longitude = lo\<rparr>"

abbreviation rect :: "position2d \<Rightarrow> position2d \<Rightarrow> rectangle2d" where
  "rect a b \<equiv> \<lparr>edge0 = a, edge1 = b\<rparr>"

definition get_qrects_from_qbounds :: "rectangle2d \<Rightarrow> rectangle2d list" where
  "get_qrects_from_qbounds q =
     (let median_latitude = median (latitude (edge0 q)) (latitude (edge1 q));
          median_longitude = median (longitude (edge0 q)) (longitude (edge1 q))
      in [rect (pos (latitude (edge0 q)) median_longitude) (pos median_latitude (longitude (edge1 q))),
          rect (pos median_latitude median_longitude) (edge1 q),
          rect (edge0 q) (pos median_latitude median_longitude),
          rect (pos median_latitude (longitude (edge0 q))) (pos (latitude (edge1 q)) median_longitude)])"

definition position_is_in_rect :: "position2d \<Rightarrow> rectangle2d \<Rightarrow> bool" where
  "position_is_in_rect p r =
     (fle (latitude (edge0 r)) (latitude p) \<and> fle (longitude (edge0 r)) (longitude p) \<and>
      flt (latitude p) (latitude (edge1 r)) \<and> flt (longitude p) (longitude (edge1 r)))"

text \<open>
  find_node_for_position: the quadrants are tried from 3 down to 0; the result is the number of
  the first one that holds the position and its rectangle. None is the failed assertion.
\<close>

fun find_quadrant :: "rectangle2d list \<Rightarrow> position2d \<Rightarrow> nat \<Rightarrow> (nat \<times> rectangle2d) option" where
  "find_quadrant qrects p 0 = None"
| "find_quadrant qrects p (Suc t) =
     (if position_is_in_rect p (qrects ! t) then Some (t, qrects ! t)
      else find_quadrant qrects p t)"

definition find_node_for_position :: "rectangle2d list \<Rightarrow> position2d \<Rightarrow> (nat \<times> rectangle2d) option" where
  "find_node_for_position qrects p = find_quadrant qrects p 4"

definition rectangle2d_intersect :: "rectangle2d \<Rightarrow> rectangle2d \<Rightarrow> bool" where
  "rectangle2d_intersect r1 r2 =
     (\<not> (flt (longitude (edge1 r2)) (longitude (edge0 r1)) \<or>
         flt (longitude (edge1 r1)) (longitude (edge0 r2)) \<or>
         flt (latitude (edge1 r2)) (latitude (edge0 r1)) \<or>
         flt (latitude (edge1 r1)) (latitude (edge0 r2))))"

section \<open>Zones\<close>

definition dimension_min :: "dimension \<Rightarrow> dimension \<Rightarrow> dimension" where
  "dimension_min d1 d2 = (if flt d1 d2 then d1 else d2)"

definition dimension_max :: "dimension \<Rightarrow> dimension \<Rightarrow> dimension" where
  "dimension_max d1 d2 = (if flt d2 d1 then d1 else d2)"

text \<open>x * 2.0 in double, converted to float by the call; and x - y + z in float.\<close>

definition twice :: "dimension \<Rightarrow> dimension" where
  "twice x = to_float (fmul f64 x (Fin 2))"

definition shifted :: "dimension \<Rightarrow> dimension \<Rightarrow> dimension \<Rightarrow> dimension" where
  "shifted x y z = fadd f32 (fsub f32 x y) z"

definition shifted_back :: "dimension \<Rightarrow> dimension \<Rightarrow> dimension \<Rightarrow> dimension" where
  "shifted_back x y z = fsub f32 (fadd f32 x y) z"

definition find_zones :: "rectangle2d \<Rightarrow> rectangle2d \<Rightarrow> rectangle2d list" where
  "find_zones qb orect =
     (let qlat0 = latitude (edge0 qb); qlon0 = longitude (edge0 qb);
          qlat1 = latitude (edge1 qb); qlon1 = longitude (edge1 qb);
          lat0 = dimension_max (twice qlat0) (latitude (edge0 orect));
          lon0 = dimension_max (twice qlon0) (longitude (edge0 orect));
          lat1 = dimension_min (twice qlat1) (latitude (edge1 orect));
          lon1 = dimension_min (twice qlon1) (longitude (edge1 orect));
          blat0 = dimension_max qlat0 lat0; blon0 = dimension_max qlon0 lon0;
          blat1 = dimension_min qlat1 lat1; blon1 = dimension_min qlon1 lon1;
          zones = [rect (pos blat0 blon0) (pos blat1 blon1)] @
            (if flt lat0 qlat0
             then [rect (pos (dimension_max blat1 (shifted lat0 qlat0 qlat1)) blon0) (pos qlat1 blon1)]
             else []) @
            (if flt lon0 qlon0
             then [rect (pos blat0 (dimension_max blon1 (shifted lon0 qlon0 qlon1))) (pos blat1 qlon1)]
             else []) @
            (if flt qlat1 lat1
             then [rect (pos qlat0 blon0) (pos (dimension_min blat0 (shifted_back lat1 qlat0 qlat1)) blon1)]
             else [])
      in if flt qlon1 lon1
         then (if length zones \<ge> 4 then take 1 zones
               else zones @
                 [rect (pos blat0 qlon0) (pos blat1 (dimension_min blon0 (shifted_back lon1 qlon0 qlon1)))])
         else zones)"

section \<open>Quadrants partition their rectangle\<close>

text \<open>Rectangles whose edges are finite numbers of type float, in order and not too large.\<close>

fun span_ok :: "dimension \<Rightarrow> dimension \<Rightarrow> bool" where
  "span_ok (Fin a) (Fin b) = (is_float a \<and> is_float b \<and> bounded a \<and> bounded b \<and> a \<le> b)"
| "span_ok _ _ = False"

definition rect_ok :: "rectangle2d \<Rightarrow> bool" where
  "rect_ok r = (span_ok (latitude (edge0 r)) (latitude (edge1 r)) \<and>
     span_ok (longitude (edge0 r)) (longitude (edge1 r)))"

lemma span_median:
  assumes "span_ok a b"
  shows "span_ok a (median a b)" "span_ok (median a b) b"
proof -
  obtain x y where xy: "a = Fin x" "b = Fin y" using assms by (cases a; cases b) auto
  then obtain m where "median a b = Fin m" "x \<le> m" "m \<le> y" "is_float m"
    using median_between [of x y] assms by auto
  moreover have "bounded m" using calculation assms xy by (auto simp: bounded_def)
  ultimately show "span_ok a (median a b)" "span_ok (median a b) b" using assms xy by auto
qed

lemma in_span_cases:
  assumes "span_ok a b"
  shows "fle a x \<and> flt x b \<longleftrightarrow>
    (fle a x \<and> flt x (median a b)) \<noteq> (fle (median a b) x \<and> flt x b)"
proof -
  obtain u v m where "a = Fin u" "b = Fin v" "median a b = Fin m" "u \<le> m" "m \<le> v"
    using span_median [OF assms] assms by (cases a; cases b; cases "median a b") auto
  then show ?thesis by (cases x) auto
qed

lemma length_qrects [simp]: "length (get_qrects_from_qbounds q) = 4"
  by (simp add: get_qrects_from_qbounds_def Let_def)

lemma less_4_cases: "t < (4 :: nat) \<longleftrightarrow> t = 0 \<or> t = 1 \<or> t = 2 \<or> t = 3"
  by auto

text \<open>The quadrants by number, with the median latitude m and longitude n.\<close>

lemma qrects_nth:
  fixes q :: rectangle2d
  defines "m \<equiv> median (latitude (edge0 q)) (latitude (edge1 q))"
    and "n \<equiv> median (longitude (edge0 q)) (longitude (edge1 q))"
  shows "get_qrects_from_qbounds q ! 0 = rect (pos (latitude (edge0 q)) n) (pos m (longitude (edge1 q)))"
    and "get_qrects_from_qbounds q ! 1 = rect (pos m n) (edge1 q)"
    and "get_qrects_from_qbounds q ! 2 = rect (edge0 q) (pos m n)"
    and "get_qrects_from_qbounds q ! 3 = rect (pos m (longitude (edge0 q))) (pos (latitude (edge1 q)) n)"
  by (simp_all add: get_qrects_from_qbounds_def Let_def m_def n_def numeral_2_eq_2 numeral_3_eq_3)

lemma qrects_ok:
  assumes "rect_ok q" "t < 4"
  shows "rect_ok (get_qrects_from_qbounds q ! t)"
proof -
  have la: "span_ok (latitude (edge0 q)) (latitude (edge1 q))"
    and lo: "span_ok (longitude (edge0 q)) (longitude (edge1 q))"
    using assms(1) by (auto simp: rect_ok_def)
  from assms(2) consider "t = 0" | "t = 1" | "t = 2" | "t = 3" unfolding less_4_cases by blast
  then show ?thesis
    by cases (simp_all only: qrects_nth rect_ok_def rectangle2d.select_convs position2d.select_convs
        la lo span_median [OF la] span_median [OF lo] simp_thms)
qed

lemma ex1_less_4:
  "(\<exists>!t. t < (4 :: nat) \<and> P t) \<longleftrightarrow>
     P 0 \<and> \<not> P 1 \<and> \<not> P 2 \<and> \<not> P 3 \<or> \<not> P 0 \<and> P 1 \<and> \<not> P 2 \<and> \<not> P 3 \<or>
     \<not> P 0 \<and> \<not> P 1 \<and> P 2 \<and> \<not> P 3 \<or> \<not> P 0 \<and> \<not> P 1 \<and> \<not> P 2 \<and> P 3"
  (is "?l = ?r")
proof
  assume ?l
  then obtain t where t: "t < 4" "P t" and u: "\<And>s. s < 4 \<Longrightarrow> P s \<Longrightarrow> s = t" by auto
  have n: "\<not> P s" if "s < 4" "s \<noteq> t" for s using u that by blast
  from t(1) consider "t = 0" | "t = 1" | "t = 2" | "t = 3" unfolding less_4_cases by blast
  then show ?r using t(2) n [of 0] n [of 1] n [of 2] n [of 3] by cases simp_all
next
  have one: ?l if "t < 4" "P t" "\<forall>s < 4. s \<noteq> t \<longrightarrow> \<not> P s" for t
    using that by (intro ex1I [of _ t] conjI) auto
  have all: "\<forall>s < 4. s \<noteq> t \<longrightarrow> \<not> P s" if "\<And>s. s = 0 \<or> s = 1 \<or> s = 2 \<or> s = 3 \<Longrightarrow> s \<noteq> t \<Longrightarrow> \<not> P s" for t
    using that unfolding less_4_cases by blast
  assume ?r
  then consider "P 0 \<and> \<not> P 1 \<and> \<not> P 2 \<and> \<not> P 3" | "\<not> P 0 \<and> P 1 \<and> \<not> P 2 \<and> \<not> P 3" |
    "\<not> P 0 \<and> \<not> P 1 \<and> P 2 \<and> \<not> P 3" | "\<not> P 0 \<and> \<not> P 1 \<and> \<not> P 2 \<and> P 3" by argo
  then show ?l
  proof cases
    case 1 then show ?thesis by (intro one [of 0] all) auto
  next
    case 2 then show ?thesis by (intro one [of 1] all) auto
  next
    case 3 then show ?thesis by (intro one [of 2] all) auto
  next
    case 4 then show ?thesis by (intro one [of 3] all) auto
  qed
qed

lemma quadrants_partition_iff:
  assumes "rect_ok q"
  shows "position_is_in_rect p q \<longleftrightarrow> (\<exists>!t. t < 4 \<and> position_is_in_rect p (get_qrects_from_qbounds q ! t))"
proof -
  have la: "span_ok (latitude (edge0 q)) (latitude (edge1 q))"
    and lo: "span_ok (longitude (edge0 q)) (longitude (edge1 q))"
    using assms by (auto simp: rect_ok_def)
  show ?thesis
    unfolding ex1_less_4
    by (simp only: qrects_nth position_is_in_rect_def rectangle2d.select_convs position2d.select_convs)
      (use in_span_cases [OF la, of "latitude p"] in_span_cases [OF lo, of "longitude p"] in argo)
qed

lemma quadrant_inside:
  assumes "rect_ok q" "t < 4" "position_is_in_rect p (get_qrects_from_qbounds q ! t)"
  shows "position_is_in_rect p q"
proof -
  have la: "span_ok (latitude (edge0 q)) (latitude (edge1 q))"
    and lo: "span_ok (longitude (edge0 q)) (longitude (edge1 q))"
    using assms(1) by (auto simp: rect_ok_def)
  from assms(2) consider "t = 0" | "t = 1" | "t = 2" | "t = 3" unfolding less_4_cases by blast
  then show ?thesis
    using assms(3) in_span_cases [OF la, of "latitude p"] in_span_cases [OF lo, of "longitude p"]
    by cases (simp_all only: qrects_nth position_is_in_rect_def rectangle2d.select_convs position2d.select_convs, argo+)
qed

lemma find_quadrant_finds:
  assumes "s < n" "position_is_in_rect p (rs ! s)"
  shows "\<exists>t. find_quadrant rs p n = Some (t, rs ! t) \<and> t < n \<and> position_is_in_rect p (rs ! t)"
  using assms
proof (induction n)
  case (Suc n)
  show ?case
  proof (cases "position_is_in_rect p (rs ! n)")
    case False
    with Suc.prems have "s < n" by (cases "s = n") auto
    from Suc.IH [OF this Suc.prems(2)] obtain t where
      "find_quadrant rs p n = Some (t, rs ! t)" "t < n" "position_is_in_rect p (rs ! t)" by blast
    then show ?thesis using False by (intro exI [of _ t]) simp
  qed simp
qed simp

lemma find_node_in_qrects:
  assumes "rect_ok q" "position_is_in_rect p q"
  shows "\<exists>t. find_node_for_position (get_qrects_from_qbounds q) p =
      Some (t, get_qrects_from_qbounds q ! t) \<and> t < 4 \<and>
      position_is_in_rect p (get_qrects_from_qbounds q ! t)"
proof -
  obtain s where "s < 4" "position_is_in_rect p (get_qrects_from_qbounds q ! s)"
    using ex1_implies_ex [OF quadrants_partition_iff [OF assms(1), THEN iffD1, OF assms(2)]] by auto
  from find_quadrant_finds [OF this] show ?thesis unfolding find_node_for_position_def .
qed

lemma intersect_if_common:
  assumes "position_is_in_rect p r1" "position_is_in_rect p r2"
  shows "rectangle2d_intersect r1 r2"
proof -
  have "\<not> flt d c" if "fle a x" "flt x b" "fle c x" "flt x d" for a b c d x
    using that by (cases x; cases c; cases d) auto
  moreover have "\<not> flt d c" if "flt x d" "fle c x" for c d x
    using that by (cases x; cases c; cases d) auto
  ultimately show ?thesis
    using assms unfolding rectangle2d_intersect_def position_is_in_rect_def by blast
qed

section \<open>Zones\<close>

lemma below_max: "fle (dimension_max a b) x \<Longrightarrow> flt x a \<Longrightarrow> False"
  by (cases a; cases b; cases x) (auto simp: dimension_max_def split: if_splits)

lemma above_min: "flt x (dimension_min a b) \<Longrightarrow> fle a x \<Longrightarrow> False"
  by (cases a; cases b; cases x) (auto simp: dimension_min_def split: if_splits)

lemma both_wraps:
  assumes "fle q0 q1" "flt l0 q0" "flt q1 l1"
    and "fle (dimension_max (dimension_min q1 l1) s) x" "flt x (dimension_min (dimension_max q0 l0) t)"
  shows False
proof -
  have "dimension_min q1 l1 = q1" "dimension_max q0 l0 = q0"
    using assms(2,3) by (simp_all add: dimension_min_def dimension_max_def)
  then have "\<not> flt x q1" "\<not> fle q0 x" using assms(4,5) below_max above_min by metis+
  moreover have "x \<noteq> NaN" using assms(5) by (auto simp: dimension_min_def split: if_splits)
  ultimately show False using assms(1) by (cases q0; cases q1; cases x) auto
qed

text \<open>The zones are disjoint: a position is in at most one of them.\<close>

definition zones_disjoint :: "rectangle2d list \<Rightarrow> bool" where
  "zones_disjoint zs =
     (\<forall>i < length zs. \<forall>j < i. \<forall>p. \<not> (position_is_in_rect p (zs ! i) \<and> position_is_in_rect p (zs ! j)))"

definition separate :: "rectangle2d \<Rightarrow> rectangle2d \<Rightarrow> bool" where
  "separate a b = (\<forall>p. \<not> (position_is_in_rect p a \<and> position_is_in_rect p b))"

lemma sorted_wrt_separate:
  assumes "sorted_wrt separate zs"
  shows "zones_disjoint zs"
  using assms unfolding zones_disjoint_def
  by (auto simp: sorted_wrt_iff_nth_less separate_def)

lemma separate_latitude:
  assumes "\<And>x. fle (latitude (edge0 a)) x \<Longrightarrow> flt x (latitude (edge1 a)) \<Longrightarrow>
      fle (latitude (edge0 b)) x \<Longrightarrow> flt x (latitude (edge1 b)) \<Longrightarrow> False"
  shows "separate a b"
  using assms unfolding separate_def position_is_in_rect_def by blast

lemma separate_longitude:
  assumes "\<And>x. fle (longitude (edge0 a)) x \<Longrightarrow> flt x (longitude (edge1 a)) \<Longrightarrow>
      fle (longitude (edge0 b)) x \<Longrightarrow> flt x (longitude (edge1 b)) \<Longrightarrow> False"
  shows "separate a b"
  using assms unfolding separate_def position_is_in_rect_def by blast

lemma find_zones_separate:
  assumes "fle (latitude (edge0 qb)) (latitude (edge1 qb))" "fle (longitude (edge0 qb)) (longitude (edge1 qb))"
  shows "sorted_wrt separate (find_zones qb r)"
proof -
  define qlat0 qlon0 qlat1 qlon1 where q: "qlat0 = latitude (edge0 qb)" "qlon0 = longitude (edge0 qb)"
    "qlat1 = latitude (edge1 qb)" "qlon1 = longitude (edge1 qb)"
  define lat0 lon0 lat1 lon1 where l: "lat0 = dimension_max (twice qlat0) (latitude (edge0 r))"
    "lon0 = dimension_max (twice qlon0) (longitude (edge0 r))"
    "lat1 = dimension_min (twice qlat1) (latitude (edge1 r))"
    "lon1 = dimension_min (twice qlon1) (longitude (edge1 r))"
  define blat0 blon0 blat1 blon1 where b: "blat0 = dimension_max qlat0 lat0" "blon0 = dimension_max qlon0 lon0"
    "blat1 = dimension_min qlat1 lat1" "blon1 = dimension_min qlon1 lon1"
  define z where "z = rect (pos blat0 blon0) (pos blat1 blon1)"
  define s where "s = rect (pos (dimension_max blat1 (shifted lat0 qlat0 qlat1)) blon0) (pos qlat1 blon1)"
  define w where "w = rect (pos blat0 (dimension_max blon1 (shifted lon0 qlon0 qlon1))) (pos blat1 qlon1)"
  define n where "n = rect (pos qlat0 blon0) (pos (dimension_min blat0 (shifted_back lat1 qlat0 qlat1)) blon1)"
  define e where "e = rect (pos blat0 qlon0) (pos blat1 (dimension_min blon0 (shifted_back lon1 qlon0 qlon1)))"
  have zs: "separate z s" and sw: "separate s w" and se: "separate s e"
    unfolding z_def s_def w_def e_def by (rule separate_latitude; simp; erule below_max; assumption)+
  have zn: "separate z n" and wn: "separate w n" and ne: "separate n e"
    unfolding z_def n_def w_def e_def by (rule separate_latitude; simp; erule (1) above_min)+
  have zw: "separate z w" unfolding z_def w_def
    by (rule separate_longitude; simp; erule below_max; assumption)
  have ze: "separate z e" unfolding z_def e_def
    by (rule separate_longitude; simp; erule (1) above_min)
  have qq: "fle qlat0 qlat1" "fle qlon0 qlon1" using assms by (simp_all only: q)
  have sn: "separate s n" if "flt lat0 qlat0" "flt qlat1 lat1"
    using both_wraps [OF qq(1) that]
    by (intro separate_latitude) (simp only: s_def n_def b rectangle2d.select_convs position2d.select_convs)
  have we: "separate w e" if "flt lon0 qlon0" "flt qlon1 lon1"
    using both_wraps [OF qq(2) that]
    by (intro separate_longitude) (simp only: w_def e_def b rectangle2d.select_convs position2d.select_convs)
  show ?thesis
    unfolding find_zones_def Let_def q [symmetric] l [symmetric] b [symmetric]
      z_def [symmetric] s_def [symmetric] w_def [symmetric] n_def [symmetric] e_def [symmetric]
    using zs sw se zn wn ne zw ze sn we
    by (cases "flt lat0 qlat0"; cases "flt lon0 qlon0"; cases "flt qlat1 lat1"; cases "flt qlon1 lon1") simp_all
qed

text \<open>
  C33: the four quadrants of a rectangle partition it exactly, in spite of the rounding of the
  medians: a position belongs to the rectangle if and only if it belongs to exactly one quadrant,
  the search for it finds that one, and the assertion behind the search cannot fail. A position
  with a NaN, or outside the rectangle, is in no quadrant.
\<close>

theorem quadrants_partition:
  assumes "rect_ok q"
  defines "qrects \<equiv> get_qrects_from_qbounds q"
  shows "(position_is_in_rect p q \<longleftrightarrow> (\<exists>!t. t < 4 \<and> position_is_in_rect p (qrects ! t))) \<and>
    (position_is_in_rect p q \<longrightarrow> (\<exists>t. find_node_for_position qrects p = Some (t, qrects ! t) \<and> t < 4 \<and>
       position_is_in_rect p (qrects ! t))) \<and>
    (\<forall>t < 4. rect_ok (qrects ! t))"
  using quadrants_partition_iff [OF assms(1)] find_node_in_qrects [OF assms(1)] qrects_ok [OF assms(1)]
  unfolding qrects_def by blast

text \<open>
  Whatever the query rectangle, NaN and infinite edges included, find_zones writes at least one
  and never more than the four rectangles its callers have room for, and the rectangles are
  disjoint, so that a record is in the result of a search by rectangle at most once.
\<close>

theorem find_zones_fit_and_are_disjoint:
  assumes "fle (latitude (edge0 qb)) (latitude (edge1 qb))" "fle (longitude (edge0 qb)) (longitude (edge1 qb))"
  shows "1 \<le> length (find_zones qb r) \<and> length (find_zones qb r) \<le> 4 \<and> zones_disjoint (find_zones qb r)"
proof -
  have "1 \<le> length (find_zones qb r) \<and> length (find_zones qb r) \<le> 4"
    by (simp add: find_zones_def Let_def)
  then show ?thesis using sorted_wrt_separate [OF find_zones_separate [OF assms]] by blast
qed

section \<open>Witnesses\<close>

definition world :: rectangle2d where
  "world = rect (pos (Fin (- 90)) (Fin (- 180))) (pos (Fin 90) (Fin 180))"

lemma world_ok: "rect_ok world"
  using is_float_of_int [of 90] is_float_of_int [of 180] is_float_of_int [of "- 90"] is_float_of_int [of "- 180"]
  by (simp add: rect_ok_def world_def bounded_def)

theorem quadrants_partition_witness:
  "\<exists>t. find_node_for_position (get_qrects_from_qbounds world) (pos (Fin (97 / 2)) (Fin (9 / 4))) =
     Some (t, get_qrects_from_qbounds world ! t) \<and> t < 4"
proof -
  have "position_is_in_rect (pos (Fin (97 / 2)) (Fin (9 / 4))) world"
    by (simp add: position_is_in_rect_def world_def)
  then show ?thesis using quadrants_partition [OF world_ok] by blast
qed

theorem find_zones_fit_and_are_disjoint_witness:
  "zones_disjoint (find_zones world (rect (pos (Fin 80) (Fin 170)) (pos (Fin 95) (Fin 190))))"
  using find_zones_fit_and_are_disjoint [of world] by (simp add: world_def)

end
