(* ===== verification/Keys.thy ===== *)
theory Keys
  imports Pincaster_Prelude "HOL-Library.Multiset"
begin

text \<open>
  Reference-counted keys (\<open>keys.c\<close>): layer names, record keys and search patterns. A key is an
  object of the heap; the requests, the queued operations and the key nodes hold references to it.
  ref_count is an unsigned int. Releasing a key that was freed, or freeing one that is still
  counted, is a fault. The theorem follows a whole run of creations, retains and releases: the
  count of every key is the number of references that are held, and a key is freed exactly when
  the last one is given up.
\<close>

section \<open>Operations\<close>

record key =
  key_len :: nat
  ref_count :: nat
  key_val :: bytes

type_synonym key_heap = "nat \<Rightarrow> key option"

definition UINT_MAX :: nat where
  "UINT_MAX = 2 ^ 32 - 1"

definition sizeof_key :: nat where
  "sizeof_key = 16"

definition init_key :: "key \<Rightarrow> key" where
  "init_key k = k\<lparr>key_len := 0, ref_count := 1\<rparr>"

definition free_key :: "nat \<Rightarrow> key_heap \<Rightarrow> key_heap option" where
  "free_key a h =
     do {
       k \<leftarrow> h a;
       c_assert (ref_count k = 0);
       Some (h(a := None))
     }"

definition retain_key :: "nat \<Rightarrow> key_heap \<Rightarrow> (int \<times> key_heap) option" where
  "retain_key a h =
     do {
       k \<leftarrow> h a;
       c_assert (ref_count k > 0);
       c_assert (ref_count k < UINT_MAX);
       Some (0, h(a \<mapsto> k\<lparr>ref_count := ref_count k + 1\<rparr>))
     }"

text \<open>release_key; \<open>None\<close> for the pointer is NULL.\<close>

definition release_key :: "nat option \<Rightarrow> key_heap \<Rightarrow> key_heap option" where
  "release_key pnt h =
     (case pnt of
        None \<Rightarrow> Some h
      | Some a \<Rightarrow>
          do {
            k \<leftarrow> h a;
            c_assert (ref_count k > 0);
            (let k' = k\<lparr>ref_count := ref_count k - 1\<rparr>;
                 h' = h(a \<mapsto> k')
             in if ref_count k' = 0 then free_key a h' else Some h')
          })"

text \<open>
  new_key. \<open>mem\<close> is what malloc returns: \<open>None\<close> when it fails, else an address that
  is not in use.
\<close>

definition alloc_key :: "nat option \<Rightarrow> bytes \<Rightarrow> key_heap \<Rightarrow> (nat option \<times> key_heap) option" where
  "alloc_key mem val h =
     (case mem of
        None \<Rightarrow> Some (None, h)
      | Some a \<Rightarrow>
          (if h a \<noteq> None then None
           else Some (Some a, h(a \<mapsto> (init_key \<lparr>key_len = 0, ref_count = 0, key_val = val\<rparr>)\<lparr>key_len := length val\<rparr>))))"

definition new_key :: "nat option \<Rightarrow> bytes \<Rightarrow> key_heap \<Rightarrow> (nat option \<times> key_heap) option" where
  "new_key mem val h =
     (if length val < 1 then Some (None, h)
      else if SIZE_MAX - sizeof_key < length val then Some (None, h)
      else alloc_key mem val h)"

text \<open>The keys made from a C string keep its final zero byte. \<open>ckey\<close> has no zero byte itself.\<close>

definition new_key_from_c_string :: "nat option \<Rightarrow> bytes \<Rightarrow> key_heap \<Rightarrow> (nat option \<times> key_heap) option" where
  "new_key_from_c_string mem ckey h =
     do {
       c_assert (length ckey > 0);
       new_key mem (ckey @ [0]) h
     }"

text \<open>
  evhttp_decode_uri is libevent's: \<open>decode\<close> stands for it, with \<open>None\<close> for NULL. A string
  that decodes to nothing fails the second assertion.
\<close>

definition new_key_from_uri_encoded_c_string ::
  "(bytes \<Rightarrow> bytes option) \<Rightarrow> nat option \<Rightarrow> bytes \<Rightarrow> key_heap \<Rightarrow> (nat option \<times> key_heap) option" where
  "new_key_from_uri_encoded_c_string decode mem uckey h =
     do {
       c_assert (uckey \<noteq> []);
       (case decode uckey of
          None \<Rightarrow> Some (None, h)
        | Some decoded_uri \<Rightarrow>
            do {
              c_assert (length decoded_uri > 0);
              new_key mem (decoded_uri @ [0]) h
            })
     }"

definition new_key_with_leading_zero :: "nat option \<Rightarrow> bytes \<Rightarrow> key_heap \<Rightarrow> (nat option \<times> key_heap) option" where
  "new_key_with_leading_zero mem val h =
     (if length val \<ge> SIZE_MAX then Some (None, h)
      else if SIZE_MAX - sizeof_key < length val + 1 then Some (None, h)
      else alloc_key mem (val @ [0]) h)"

section \<open>Runs\<close>

text \<open>
  What holders do with keys: create one, pass on another reference to one they hold, give one
  up. The state of a run is the heap and the references that are held; \<open>created\<close> remembers the
  contents that each live key was made with.
\<close>

datatype key_cmd = New_Key "nat option" bytes | Retain nat | Release nat

record key_run =
  heap :: key_heap
  held :: "nat multiset"
  created :: "nat \<Rightarrow> bytes option"

definition empty_run :: key_run where
  "empty_run = \<lparr>heap = Map.empty, held = {#}, created = Map.empty\<rparr>"

fun key_step :: "key_cmd \<Rightarrow> key_run \<Rightarrow> key_run option" where
  "key_step (New_Key mem val) s =
     do {
       (r, h) \<leftarrow> new_key mem val (heap s);
       Some (case r of
               None \<Rightarrow> s\<lparr>heap := h\<rparr>
             | Some a \<Rightarrow> \<lparr>heap = h, held = add_mset a (held s), created = (created s)(a \<mapsto> val)\<rparr>)
     }"
| "key_step (Retain a) s =
     do {
       (r, h) \<leftarrow> retain_key a (heap s);
       Some (s\<lparr>heap := h, held := add_mset a (held s)\<rparr>)
     }"
| "key_step (Release a) s =
     do {
       h \<leftarrow> release_key (Some a) (heap s);
       Some (s\<lparr>heap := h, held := held s - {#a#},
               created := (if h a = None then (created s)(a := None) else created s)\<rparr>)
     }"

text \<open>A command is legal if malloc behaves and if the reference it uses is held.\<close>

fun key_legal :: "key_cmd \<Rightarrow> key_run \<Rightarrow> bool" where
  "key_legal (New_Key mem val) s = (case mem of None \<Rightarrow> True | Some a \<Rightarrow> heap s a = None)"
| "key_legal (Retain a) s = (a \<in># held s \<and> count (held s) a < UINT_MAX)"
| "key_legal (Release a) s = (a \<in># held s)"

inductive key_reach :: "key_run \<Rightarrow> bool" where
  key_reach_empty: "key_reach empty_run"
| key_reach_step: "key_reach s \<Longrightarrow> key_legal c s \<Longrightarrow> key_step c s = Some s' \<Longrightarrow> key_reach s'"

definition key_at :: "key_run \<Rightarrow> nat \<Rightarrow> bool" where
  "key_at s a =
     (case heap s a of
        None \<Rightarrow> a \<notin># held s \<and> created s a = None
      | Some k \<Rightarrow> a \<in># held s \<and> ref_count k = count (held s) a \<and> created s a = Some (key_val k) \<and>
                  key_len k = length (key_val k))"

definition key_inv :: "key_run \<Rightarrow> bool" where
  "key_inv s = (\<forall>a. key_at s a)"

lemma key_invD:
  assumes "key_inv s"
  shows "heap s a = None \<Longrightarrow> a \<notin># held s \<and> created s a = None"
    and "heap s a = Some k \<Longrightarrow> a \<in># held s \<and> ref_count k = count (held s) a \<and> created s a = Some (key_val k) \<and>
      key_len k = length (key_val k)"
  using assms unfolding key_inv_def key_at_def by (auto dest!: spec [of _ a])

lemma key_inv_held:
  assumes "key_inv s" "a \<in># held s"
  shows "\<exists>k. heap s a = Some k \<and> ref_count k = count (held s) a \<and> 0 < ref_count k"
  using key_invD [OF assms(1), of a] assms(2) by (cases "heap s a") auto

lemma key_step_new:
  assumes "key_inv s" "key_legal (New_Key mem val) s" "key_step (New_Key mem val) s = Some s'"
  shows "key_inv s'"
proof (cases "mem = None \<or> val = [] \<or> SIZE_MAX - sizeof_key < length val")
  case True
  then have "s' = s"
    using assms(3) by (cases "length val < 1"; cases "SIZE_MAX - sizeof_key < length val") (auto simp: new_key_def alloc_key_def)
  then show ?thesis using assms(1) by simp
next
  case False
  then obtain a where mem: "mem = Some a" by auto
  with assms(2) have free: "heap s a = None" by simp
  with mem False assms(3) have s': "s' = \<lparr>heap = (heap s)(a \<mapsto> \<lparr>key_len = length val, ref_count = 1, key_val = val\<rparr>),
      held = add_mset a (held s), created = (created s)(a \<mapsto> val)\<rparr>"
    by (cases val) (auto simp: new_key_def alloc_key_def init_key_def)
  have "key_at s' b" for b
    using assms(1) key_invD(1) [OF assms(1) free] unfolding key_inv_def s'
    by (cases "b = a") (auto simp: key_at_def not_in_iff dest!: spec [of _ b] split: option.splits)
  then show ?thesis by (simp add: key_inv_def)
qed

lemma key_step_retain:
  assumes "key_inv s" "key_legal (Retain a) s" "key_step (Retain a) s = Some s'"
  shows "key_inv s'"
proof -
  obtain k where k: "heap s a = Some k" using key_inv_held [OF assms(1)] assms(2) by auto
  with assms(3) have s': "s' = s\<lparr>heap := (heap s)(a \<mapsto> k\<lparr>ref_count := ref_count k + 1\<rparr>),
      held := add_mset a (held s)\<rparr>"
    by (auto simp: retain_key_def bind_eq_Some_conv)
  have "key_at s' b" for b
    using assms(1) key_invD(2) [OF assms(1) k] unfolding key_inv_def s'
    by (cases "b = a") (auto simp: key_at_def dest!: spec [of _ b] split: option.splits)
  then show ?thesis by (simp add: key_inv_def)
qed

lemma key_step_release:
  assumes "key_inv s" "key_legal (Release a) s" "key_step (Release a) s = Some s'"
  shows "key_inv s'"
proof -
  obtain k where k: "heap s a = Some k" and r: "ref_count k = count (held s) a" "0 < ref_count k"
    using key_inv_held [OF assms(1)] assms(2) by auto
  show ?thesis
  proof (cases "ref_count k = 1")
    case True
    with k assms(3) have s': "s' = \<lparr>heap = (heap s)(a := None), held = held s - {#a#}, created = (created s)(a := None)\<rparr>"
      by (auto simp: release_key_def free_key_def bind_eq_Some_conv)
    have "a \<notin># held s - {#a#}" using r True by (simp add: not_in_iff)
    moreover have "b \<in># held s - {#a#} \<longleftrightarrow> b \<in># held s" if "b \<noteq> a" for b
      using that by (metis in_diff_count count_single diff_zero not_in_iff count_diff)
    ultimately have "key_at s' b" for b
      using assms(1) unfolding key_inv_def s'
      by (cases "b = a") (auto simp: key_at_def dest!: spec [of _ b] split: option.splits)
    then show ?thesis by (simp add: key_inv_def)
  next
    case False
    with r(2) have big: "1 < ref_count k" by linarith
    then have "ref_count k - 1 \<noteq> 0" by simp
    with k assms(3) have s': "s' = s\<lparr>heap := (heap s)(a \<mapsto> k\<lparr>ref_count := ref_count k - 1\<rparr>), held := held s - {#a#}\<rparr>"
      by (auto simp: release_key_def Let_def bind_eq_Some_conv split: if_splits)
    have "b \<in># held s - {#a#} \<longleftrightarrow> b \<in># held s" for b
      using r(1) big by (cases "b = a") (auto simp: in_diff_count intro!: count_inI)
    then have "key_at s' b" for b
      using assms(1) key_invD(2) [OF assms(1) k] r unfolding key_inv_def s'
      by (cases "b = a") (auto simp: key_at_def dest!: spec [of _ b] split: option.splits)
    then show ?thesis by (simp add: key_inv_def)
  qed
qed

lemma key_reach_inv: "key_reach s \<Longrightarrow> key_inv s"
proof (induction rule: key_reach.induct)
  case key_reach_empty
  show ?case by (simp add: key_inv_def key_at_def empty_run_def)
next
  case (key_reach_step s c s')
  then show ?case
    by (cases c) (auto intro: key_step_new key_step_retain key_step_release simp del: key_legal.simps key_step.simps)
qed

lemma key_step_runs:
  assumes "key_inv s" "key_legal c s"
  shows "key_step c s \<noteq> None"
proof (cases c)
  case (New_Key mem val)
  then show ?thesis using assms(2) by (auto simp: new_key_def alloc_key_def split: option.splits)
next
  case (Retain a)
  then show ?thesis using assms key_inv_held [OF assms(1), of a] by (auto simp: retain_key_def)
next
  case (Release a)
  then show ?thesis using assms key_inv_held [OF assms(1), of a]
    by (auto simp: release_key_def free_key_def Let_def)
qed

text \<open>
  C32: reference counting. However the holders of keys interleave creations, retains and
  releases, as long as they only use references they hold, nothing faults; a key is in memory
  exactly as long as someone holds a reference to it, its count is the number of references that
  are held, and its contents are those it was created with.
\<close>

theorem key_references_counted:
  assumes "key_reach s"
  shows "(\<forall>c. key_legal c s \<longrightarrow> key_step c s \<noteq> None) \<and>
    (\<forall>a. a \<in># held s \<longleftrightarrow> heap s a \<noteq> None) \<and>
    (\<forall>a k. heap s a = Some k \<longrightarrow> ref_count k = count (held s) a \<and> created s a = Some (key_val k))"
proof -
  note inv = key_reach_inv [OF assms]
  have "a \<in># held s \<longleftrightarrow> heap s a \<noteq> None" for a
    using key_invD [OF inv, of a] by (cases "heap s a") auto
  then show ?thesis using key_step_runs [OF inv] key_invD(2) [OF inv] by blast
qed

theorem key_references_counted_witness:
  "\<exists>s. key_reach s \<and> held s = {#5, 5#} \<and> (\<forall>k. heap s 5 = Some k \<longrightarrow> ref_count k = 2) \<and> heap s 5 \<noteq> None"
proof -
  define s1 where "s1 = \<lparr>heap = [5 \<mapsto> \<lparr>key_len = 1, ref_count = 1, key_val = [65]\<rparr>], held = {#5#}, created = [5 \<mapsto> [65]]\<rparr>"
  define s2 where "s2 = s1\<lparr>heap := [5 \<mapsto> \<lparr>key_len = 1, ref_count = 2, key_val = [65]\<rparr>], held := {#5, 5#}\<rparr>"
  have "key_reach s1"
    by (rule key_reach_step [OF key_reach_empty, of "New_Key (Some 5) [65]"])
      (auto simp: empty_run_def s1_def new_key_def alloc_key_def init_key_def SIZE_MAX_def sizeof_key_def)
  then have r: "key_reach s2"
    by (rule key_reach_step [of _ "Retain 5"])
      (auto simp: s1_def s2_def retain_key_def UINT_MAX_def)
  from key_references_counted [OF r] have "heap s2 5 \<noteq> None" "\<forall>k. heap s2 5 = Some k \<longrightarrow> ref_count k = 2"
    by (auto simp: s2_def)
  with r show ?thesis by (intro exI [of _ s2]) (auto simp: s2_def)
qed

end
