(* ===== verification/Ordered_Tree.thy ===== *)
theory Ordered_Tree
  imports Pincaster_Prelude
begin

text \<open>
  The search trees of the program. \<open>ext/tree.h\<close>, a BSD header, gives the key nodes and the
  expirables the macros RB_INSERT, RB_FIND, RB_NFIND, RB_REMOVE, RB_MIN and RB_NEXT over a
  comparison function. A tree is modelled by its nodes in order, and a search by the signs of the
  comparison with the nodes it meets; balancing, which cannot be observed, is left out. The
  locale states what the comparison must be for this to behave as a map; it is interpreted where
  the two comparisons of the program are modelled.
\<close>

section \<open>Operations\<close>

text \<open>\<open>c y\<close> is the comparison of what is looked for with the node y.\<close>

fun rb_find :: "('a \<Rightarrow> int) \<Rightarrow> 'a list \<Rightarrow> 'a option" where
  "rb_find c [] = None"
| "rb_find c (y # ys) = (if c y = 0 then Some y else if c y < 0 then None else rb_find c ys)"

text \<open>RB_NFIND: the first node that is not before what is looked for.\<close>

fun rb_nfind :: "('a \<Rightarrow> int) \<Rightarrow> 'a list \<Rightarrow> 'a list" where
  "rb_nfind c [] = []"
| "rb_nfind c (y # ys) = (if c y \<le> 0 then y # ys else rb_nfind c ys)"

text \<open>RB_INSERT: the node that is in the way, or NULL, and the tree.\<close>

fun rb_insert :: "('a \<Rightarrow> int) \<Rightarrow> 'a \<Rightarrow> 'a list \<Rightarrow> 'a option \<times> 'a list" where
  "rb_insert c x [] = (None, [x])"
| "rb_insert c x (y # ys) =
     (if c y = 0 then (Some y, y # ys)
      else if c y < 0 then (None, x # y # ys)
      else (let (r, zs) = rb_insert c x ys in (r, y # zs)))"

text \<open>RB_REMOVE takes the node itself out, without comparing.\<close>

definition rb_remove :: "'a \<Rightarrow> 'a list \<Rightarrow> 'a list" where
  "rb_remove x xs = remove1 x xs"

section \<open>What the comparison must be\<close>

locale ordering =
  fixes cmp :: "'k \<Rightarrow> 'k \<Rightarrow> int"
  assumes cmp_eq: "cmp x y = 0 \<longleftrightarrow> x = y"
    and cmp_sym: "cmp x y < 0 \<longleftrightarrow> cmp y x > 0"
    and cmp_trans: "cmp x y < 0 \<Longrightarrow> cmp y z < 0 \<Longrightarrow> cmp x z < 0"
begin

definition sorted :: "'k list \<Rightarrow> bool" where
  "sorted xs = sorted_wrt (\<lambda>x y. cmp x y < 0) xs"

lemma sorted_Nil [simp]: "sorted []"
  by (simp add: sorted_def)

lemma sorted_Cons: "sorted (x # xs) \<longleftrightarrow> (\<forall>y \<in> set xs. cmp x y < 0) \<and> sorted xs"
  by (simp add: sorted_def)

lemma cmp_irrefl [simp]: "\<not> cmp x x < 0"
  using cmp_eq [of x x] by simp

lemma sorted_distinct: "sorted xs \<Longrightarrow> distinct xs"
  by (induction xs) (auto simp: sorted_Cons)

lemma find_sorted:
  "sorted (map key xs) \<Longrightarrow> rb_find (\<lambda>y. cmp k (key y)) xs = List.find (\<lambda>y. key y = k) xs"
proof (induction xs)
  case (Cons y ys)
  have "List.find (\<lambda>y. key y = k) ys = None" if "cmp k (key y) < 0"
    using Cons.prems cmp_trans [OF that] cmp_irrefl [of k] by (fastforce simp: find_None_iff sorted_Cons)
  then show ?case using Cons cmp_eq [of k "key y"] by (auto simp: sorted_Cons)
qed simp

lemma insert_sorted:
  assumes "sorted (map key xs)"
  shows "key x \<in> key ` set xs \<Longrightarrow>
      \<exists>y \<in> set xs. key y = key x \<and> rb_insert (\<lambda>y. cmp (key x) (key y)) x xs = (Some y, xs)"
    and "key x \<notin> key ` set xs \<Longrightarrow>
      \<exists>ys. rb_insert (\<lambda>y. cmp (key x) (key y)) x xs = (None, ys) \<and> set ys = insert x (set xs) \<and>
        sorted (map key ys)"
  using assms
proof (induction xs)
  case (Cons y ys)
  {
    case 1
    then show ?case
    proof (cases "key y = key x")
      case True
      then show ?thesis using cmp_eq by auto
    next
      case False
      with 1 Cons.IH(1) obtain z where z: "z \<in> set ys" "key z = key x"
        "rb_insert (\<lambda>y. cmp (key x) (key y)) x ys = (Some z, ys)" by (auto simp: sorted_Cons)
      then have "cmp (key y) (key x) < 0" using 1 by (auto simp: sorted_Cons)
      then have "\<not> cmp (key x) (key y) < 0" "cmp (key x) (key y) \<noteq> 0"
        using cmp_sym [of "key y" "key x"] by auto
      then show ?thesis using z by auto
    qed
  next
    case 2
    then obtain zs where zs: "rb_insert (\<lambda>y. cmp (key x) (key y)) x ys = (None, zs)"
      "set zs = insert x (set ys)" "sorted (map key zs)" using Cons.IH(2) by (auto simp: sorted_Cons)
    have ne: "cmp (key x) (key y) \<noteq> 0" using 2 cmp_eq by auto
    show ?case
    proof (cases "cmp (key x) (key y) < 0")
      case True
      then show ?thesis using 2 ne cmp_trans [OF True] by (auto simp: sorted_Cons)
    next
      case False
      then have "cmp (key y) (key x) < 0" using ne cmp_sym [of "key y" "key x"] by linarith
      then show ?thesis using 2 False ne zs by (auto simp: sorted_Cons)
    qed
  }
qed (auto simp: sorted_def)

lemma remove_sorted:
  assumes "sorted (map key xs)"
  shows "sorted (map key (rb_remove x xs))" "x \<in> set xs \<Longrightarrow> set (rb_remove x xs) = set xs - {x}"
proof -
  have "distinct xs" using sorted_distinct [OF assms] by (simp add: distinct_map)
  then show "x \<in> set xs \<Longrightarrow> set (rb_remove x xs) = set xs - {x}" by (simp add: rb_remove_def)
  show "sorted (map key (rb_remove x xs))"
    using assms unfolding rb_remove_def
  proof (induction xs)
    case (Cons y ys)
    then show ?case by (auto simp: sorted_Cons dest: subsetD [OF set_remove1_subset])
  qed simp
qed

end

end
