(* ===== verification/Key_Nodes.thy ===== *)
theory Key_Nodes
  imports Ordered_Tree Slip_Map Slab
begin

text \<open>
  Key nodes (\<open>key_nodes.c\<close>, the structures of \<open>pandb.h\<close>): one node for each record of a layer,
  in a search tree that is ordered by key_node_cmp. A node is an object of the heap, its address
  a number: slots and expirables point to it. Its slot points into the geographical index: the
  path from the root to a bucket, and the address in the bucket's slab.
  A Key never changes once it is made, so a node holds its bytes; the counting of
  references to keys is modelled in the theory Keys.
  The theorems: the comparison is a total order, the lexicographic one, and finding and creating
  nodes makes the tree a finite map from keys to nodes.
\<close>

section \<open>State\<close>

type_synonym path = "nat list"
type_synonym slot_ptr = "path \<times> slab_entry"

record key_node =
  kn_key :: bytes
  kn_slot :: "slot_ptr option"
  kn_properties :: "slip_map option"
  kn_expirable :: "slab_entry option"

record key_store =
  kn_heap :: "nat \<Rightarrow> key_node option"
  kn_tree :: "nat list"

definition init_key_store :: key_store where
  "init_key_store = \<lparr>kn_heap = Map.empty, kn_tree = []\<rparr>"

section \<open>The comparison\<close>

text \<open>memcmp of the first n bytes. Only the sign of the result is used.\<close>

fun memcmp :: "bytes \<Rightarrow> bytes \<Rightarrow> nat \<Rightarrow> int" where
  "memcmp (a # as) (b # bs) (Suc n) = (if a = b then memcmp as bs n else uint a - uint b)"
| "memcmp _ _ _ = 0"

definition key_node_cmp :: "bytes \<Rightarrow> bytes \<Rightarrow> int" where
  "key_node_cmp k1 k2 =
     (if length k1 = length k2 then memcmp k1 k2 (length k1)
      else if length k1 < length k2 then
        (let ret = memcmp k1 k2 (length k1) in if ret = 0 then - 1 else ret)
      else
        (let ret = memcmp k1 k2 (length k2) in if ret = 0 then 1 else ret))"

text \<open>The lexicographic order of byte strings, a prefix first.\<close>

fun bytes_less :: "bytes \<Rightarrow> bytes \<Rightarrow> bool" where
  "bytes_less _ [] = False"
| "bytes_less [] (b # bs) = True"
| "bytes_less (a # as) (b # bs) = (a < b \<or> a = b \<and> bytes_less as bs)"

lemma key_node_cmp_Nil [simp]:
  "key_node_cmp [] [] = 0" "key_node_cmp [] (b # bs) = - 1" "key_node_cmp (a # as) [] = 1"
  by (simp_all add: key_node_cmp_def)

lemma key_node_cmp_Cons [simp]:
  "key_node_cmp (a # as) (b # bs) = (if a = b then key_node_cmp as bs else uint a - uint b)"
  by (simp add: key_node_cmp_def Let_def flip: word_uint_eq_iff)

lemma key_node_cmp_eq: "key_node_cmp k1 k2 = 0 \<longleftrightarrow> k1 = k2"
proof (induction k1 k2 rule: bytes_less.induct)
  case (1 k)
  then show ?case by (cases k) simp_all
qed (simp_all flip: word_uint_eq_iff)

lemma key_node_cmp_less: "key_node_cmp k1 k2 < 0 \<longleftrightarrow> bytes_less k1 k2"
proof (induction k1 k2 rule: bytes_less.induct)
  case (1 k)
  then show ?case by (cases k) simp_all
qed (simp_all add: word_less_def)

lemma key_node_cmp_greater: "key_node_cmp k1 k2 > 0 \<longleftrightarrow> bytes_less k2 k1"
proof (induction k1 k2 rule: bytes_less.induct)
  case (1 k)
  then show ?case by (cases k) simp_all
next
  case (3 a as b bs)
  then show ?case by (auto simp: word_less_def)
qed simp

lemma bytes_less_trans: "bytes_less x y \<Longrightarrow> bytes_less y z \<Longrightarrow> bytes_less x z"
proof (induction x y arbitrary: z rule: bytes_less.induct)
  case (2 b bs)
  then show ?case by (cases z) auto
next
  case (3 a as b bs)
  then show ?case by (cases z) auto
qed simp

interpretation kc: ordering key_node_cmp
proof unfold_locales
  show "key_node_cmp x y < 0 \<longleftrightarrow> key_node_cmp y x > 0" for x y
    by (simp add: key_node_cmp_less key_node_cmp_greater)
  show "key_node_cmp x y < 0 \<Longrightarrow> key_node_cmp y z < 0 \<Longrightarrow> key_node_cmp x z < 0" for x y z
    unfolding key_node_cmp_less by (rule bytes_less_trans)
qed (rule key_node_cmp_eq)

section \<open>Operations\<close>

definition key_at :: "key_store \<Rightarrow> nat \<Rightarrow> bytes" where
  "key_at s a = (case kn_heap s a of None \<Rightarrow> [] | Some n \<Rightarrow> kn_key n)"

definition empty_key_node :: "bytes \<Rightarrow> key_node" where
  "empty_key_node key = \<lparr>kn_key = key, kn_slot = None, kn_properties = None, kn_expirable = None\<rparr>"

text \<open>
  get_key_node_from_key: 1 and the node if there is one, 2 and a new node, 0 or -1 without a node.
  \<open>mem\<close> is the address malloc returns, not in use, or \<open>None\<close> when it fails.
\<close>

definition get_key_node_from_key ::
  "nat option \<Rightarrow> bytes \<Rightarrow> bool \<Rightarrow> key_store \<Rightarrow> (int \<times> nat option \<times> key_store) option" where
  "get_key_node_from_key mem key create s =
     (case rb_find (\<lambda>y. key_node_cmp key (key_at s y)) (kn_tree s) of
        Some found \<Rightarrow> Some (1, Some found, s)
      | None \<Rightarrow>
          (if \<not> create then Some (0, None, s)
           else
             (case mem of
                None \<Rightarrow> Some (- 1, None, s)
              | Some a \<Rightarrow>
                  (if kn_heap s a \<noteq> None then None
                   else
                     (let s1 = s\<lparr>kn_heap := (kn_heap s)(a \<mapsto> empty_key_node key)\<rparr>
                      in case rb_insert (\<lambda>y. key_node_cmp key (key_at s1 y)) a (kn_tree s) of
                           (None, tree) \<Rightarrow> Some (2, Some a, s1\<lparr>kn_tree := tree\<rparr>)
                         | (Some _, _) \<Rightarrow> Some (- 1, None, s))))))"

text \<open>RB_REMOVE of a key node from the tree of its layer.\<close>

definition remove_key_node_from_tree :: "nat \<Rightarrow> key_store \<Rightarrow> key_store" where
  "remove_key_node_from_tree a s = s\<lparr>kn_tree := rb_remove a (kn_tree s)\<rparr>"

definition count_key_nodes :: "key_store \<Rightarrow> nat" where
  "count_key_nodes s = foldl (\<lambda>count _. count + 1) 0 (kn_tree s)"

text \<open>key_nodes_foreach over the nodes that are left to visit.\<close>

fun key_nodes_walk :: "('c \<Rightarrow> nat \<Rightarrow> (int \<times> 'c) option) \<Rightarrow> nat list \<Rightarrow> 'c \<Rightarrow> (int \<times> 'c) option" where
  "key_nodes_walk cb [] c = Some (0, c)"
| "key_nodes_walk cb (a # as) c =
     do {
       (ret, c') \<leftarrow> cb c a;
       (if ret \<noteq> 0 then Some (ret, c') else key_nodes_walk cb as c')
     }"

definition key_nodes_foreach :: "('c \<Rightarrow> nat \<Rightarrow> (int \<times> 'c) option) \<Rightarrow> key_store \<Rightarrow> 'c \<Rightarrow> (int \<times> 'c) option" where
  "key_nodes_foreach cb s c = key_nodes_walk cb (kn_tree s) c"

section \<open>Invariant\<close>

text \<open>The tree is sorted by key and its nodes are allocated.\<close>

definition store_inv :: "key_store \<Rightarrow> bool" where
  "store_inv s = (kc.sorted (map (key_at s) (kn_tree s)) \<and> (\<forall>a \<in> set (kn_tree s). kn_heap s a \<noteq> None))"

definition fresh_node :: "nat option \<Rightarrow> key_store \<Rightarrow> bool" where
  "fresh_node mem s = (case mem of None \<Rightarrow> True | Some a \<Rightarrow> kn_heap s a = None)"

definition node_of_key :: "key_store \<Rightarrow> bytes \<Rightarrow> nat option" where
  "node_of_key s key = List.find (\<lambda>a. key_at s a = key) (kn_tree s)"

lemma store_inv_distinct: "store_inv s \<Longrightarrow> distinct (map (key_at s) (kn_tree s)) \<and> distinct (kn_tree s)"
  using kc.sorted_distinct unfolding store_inv_def by (metis distinct_map)

lemma find_node: "store_inv s \<Longrightarrow> rb_find (\<lambda>y. key_node_cmp key (key_at s y)) (kn_tree s) = node_of_key s key"
  unfolding store_inv_def node_of_key_def by (simp add: kc.find_sorted)

lemma node_of_key_Some:
  assumes "store_inv s"
  shows "node_of_key s key = Some a \<longleftrightarrow> a \<in> set (kn_tree s) \<and> key_at s a = key"
proof
  assume "node_of_key s key = Some a"
  then show "a \<in> set (kn_tree s) \<and> key_at s a = key"
    by (auto simp: node_of_key_def find_Some_iff)
next
  assume a: "a \<in> set (kn_tree s) \<and> key_at s a = key"
  then obtain b where b: "node_of_key s key = Some b"
    by (cases "node_of_key s key") (auto simp: node_of_key_def find_None_iff)
  then have "b \<in> set (kn_tree s) \<and> key_at s b = key" by (auto simp: node_of_key_def find_Some_iff)
  then have "b = a" using a store_inv_distinct [OF assms] by (auto simp: distinct_map inj_on_def)
  then show "node_of_key s key = Some a" using b by simp
qed

lemma node_of_key_None: "node_of_key s key = None \<longleftrightarrow> (\<forall>a \<in> set (kn_tree s). key_at s a \<noteq> key)"
  by (auto simp: node_of_key_def find_None_iff)

lemma init_key_store_inv: "store_inv init_key_store"
  by (simp add: store_inv_def init_key_store_def)

lemma key_at_other:
  assumes "kn_heap s a = None" "store_inv s" "y \<in> set (kn_tree s)"
  shows "y \<noteq> a" "key_at (s\<lparr>kn_heap := (kn_heap s)(a \<mapsto> n)\<rparr>) y = key_at s y"
  using assms by (auto simp: store_inv_def key_at_def)

lemma get_existing:
  assumes "store_inv s" "node_of_key s key = Some a"
  shows "get_key_node_from_key mem key create s = Some (1, Some a, s)"
  using assms by (simp add: get_key_node_from_key_def find_node)

lemma get_missing:
  assumes "store_inv s" "node_of_key s key = None"
  shows "get_key_node_from_key mem key False s = Some (0, None, s)"
    and "get_key_node_from_key None key True s = Some (- 1, None, s)"
  using assms by (simp_all add: get_key_node_from_key_def find_node)

lemma get_created:
  assumes inv: "store_inv s" and none: "node_of_key s key = None" and fresh: "kn_heap s a = None"
  defines "n \<equiv> empty_key_node key"
  shows "\<exists>s'. get_key_node_from_key (Some a) key True s = Some (2, Some a, s') \<and> store_inv s' \<and>
    kn_heap s' = (kn_heap s)(a \<mapsto> n) \<and> set (kn_tree s') = insert a (set (kn_tree s)) \<and>
    (\<forall>k. node_of_key s' k = (if k = key then Some a else node_of_key s k))"
proof -
  define s1 where "s1 = s\<lparr>kn_heap := (kn_heap s)(a \<mapsto> n)\<rparr>"
  have other: "y \<noteq> a" "key_at s1 y = key_at s y" if "y \<in> set (kn_tree s)" for y
    using key_at_other [OF fresh inv that] by (simp_all add: s1_def)
  have ka: "key_at s1 a = key" by (simp add: s1_def key_at_def n_def empty_key_node_def)
  have map: "map (key_at s1) (kn_tree s) = map (key_at s) (kn_tree s)" using other by simp
  have "key_at s1 a \<notin> key_at s1 ` set (kn_tree s)"
    using none other ka by (auto simp: node_of_key_None)
  then obtain tree where tree: "rb_insert (\<lambda>y. key_node_cmp key (key_at s1 y)) a (kn_tree s) = (None, tree)"
    "set tree = insert a (set (kn_tree s))" "kc.sorted (map (key_at s1) tree)"
    using kc.insert_sorted(2) [of "key_at s1" "kn_tree s" a] inv unfolding ka map store_inv_def by auto
  define s' where "s' = s1\<lparr>kn_tree := tree\<rparr>"
  have "get_key_node_from_key (Some a) key True s = Some (2, Some a, s')"
    using none tree(1) fresh
    by (simp add: get_key_node_from_key_def find_node [OF inv] s1_def n_def s'_def)
  moreover have k': "key_at s' = key_at s1" by (simp add: fun_eq_iff s'_def key_at_def)
  moreover have inv': "store_inv s'"
    using tree(2,3) inv unfolding store_inv_def k' by (auto simp: s'_def s1_def)
  moreover have "node_of_key s' k = (if k = key then Some a else node_of_key s k)" for k
  proof -
    have "node_of_key s' k = Some b \<longleftrightarrow> (if k = key then b = a else node_of_key s k = Some b)" for b
      unfolding node_of_key_Some [OF inv'] node_of_key_Some [OF inv] k'
      using other ka none tree(2) by (auto simp: s'_def node_of_key_None)
    then have "node_of_key s' k = Some b \<longleftrightarrow> (if k = key then Some a else node_of_key s k) = Some b" for b
      by auto
    then show ?thesis by (metis option.exhaust)
  qed
  ultimately show ?thesis using tree(2) by (intro exI [of _ s']) (simp add: s'_def s1_def)
qed

lemma remove_node:
  assumes inv: "store_inv s" and a: "a \<in> set (kn_tree s)"
  shows "store_inv (remove_key_node_from_tree a s)"
    and "node_of_key (remove_key_node_from_tree a s) k = (if k = key_at s a then None else node_of_key s k)"
    and "set (kn_tree (remove_key_node_from_tree a s)) = set (kn_tree s) - {a}"
proof -
  let ?s = "remove_key_node_from_tree a s"
  have k: "key_at ?s = key_at s" by (simp add: fun_eq_iff remove_key_node_from_tree_def key_at_def)
  show tree: "set (kn_tree ?s) = set (kn_tree s) - {a}"
    using kc.remove_sorted(2) [OF _ a] inv by (auto simp: remove_key_node_from_tree_def store_inv_def)
  show inv': "store_inv ?s"
    using kc.remove_sorted(1) [of "key_at s" "kn_tree s" a] inv tree unfolding store_inv_def k
    by (auto simp: remove_key_node_from_tree_def)
  have "node_of_key ?s k = Some b \<longleftrightarrow> (if k = key_at s a then False else node_of_key s k = Some b)" for b
    unfolding node_of_key_Some [OF inv'] node_of_key_Some [OF inv] \<open>key_at ?s = key_at s\<close> tree
    using store_inv_distinct [OF inv] a by (auto simp: distinct_map inj_on_def)
  then have "node_of_key ?s k = Some b \<longleftrightarrow> (if k = key_at s a then None else node_of_key s k) = Some b" for b
    by simp
  then show "node_of_key ?s k = (if k = key_at s a then None else node_of_key s k)"
    by (metis option.exhaust)
qed

lemma count_is_length: "count_key_nodes s = length (kn_tree s)"
proof -
  have "foldl (\<lambda>count _. count + 1) n xs = n + length xs" for n :: nat and xs :: "nat list"
    by (induction xs arbitrary: n) auto
  then show ?thesis by (simp add: count_key_nodes_def)
qed

lemma bytes_less_lexordp: "bytes_less k1 k2 \<longleftrightarrow> ord_class.lexordp k1 k2"
  by (induction k1 k2 rule: bytes_less.induct) auto

text \<open>
  Key_node_cmp, which compares the common length with memcmp and then the lengths, is the
  lexicographic order of the byte strings: a total order, so that the search tree is well defined
  and its in-order walks are sorted, with every key directly followed by the keys it is a prefix of.
\<close>

theorem key_node_cmp_is_lexicographic:
  "(key_node_cmp k1 k2 = 0 \<longleftrightarrow> k1 = k2) \<and> (key_node_cmp k1 k2 < 0 \<longleftrightarrow> ord_class.lexordp k1 k2) \<and>
   (key_node_cmp k1 k2 > 0 \<longleftrightarrow> ord_class.lexordp k2 k1)"
  by (simp add: key_node_cmp_eq key_node_cmp_less key_node_cmp_greater bytes_less_lexordp)

text \<open>
  C31: looking a key up gives the node of that key if the tree has one; if not, and if asked to, it
  adds one new empty node, under that key only, and keeps the tree sorted; without memory,
  or when not asked to create, it changes nothing.
\<close>

theorem get_key_node_from_key_is_map:
  assumes "store_inv s" "fresh_node mem s"
  shows "case (node_of_key s key, create, mem) of
      (Some b, _, _) \<Rightarrow> get_key_node_from_key mem key create s = Some (1, Some b, s)
    | (None, False, _) \<Rightarrow> get_key_node_from_key mem key create s = Some (0, None, s)
    | (None, True, None) \<Rightarrow> get_key_node_from_key mem key create s = Some (- 1, None, s)
    | (None, True, Some a) \<Rightarrow>
        \<exists>s'. get_key_node_from_key mem key create s = Some (2, Some a, s') \<and> store_inv s' \<and>
          node_of_key s' = (node_of_key s)(key \<mapsto> a) \<and> kn_heap s' = (kn_heap s)(a \<mapsto> empty_key_node key)"
proof (cases "node_of_key s key")
  case (Some b)
  then show ?thesis using get_existing [OF assms(1) Some] by simp
next
  case None
  note missing = get_missing [OF assms(1) None]
  show ?thesis
  proof (cases "create")
    case True
    show ?thesis
    proof (cases mem)
      case (Some a)
      then have "kn_heap s a = None" using assms(2) by (simp add: fresh_node_def)
      from get_created [OF assms(1) None this] show ?thesis
        using True None Some by (auto simp: fun_eq_iff)
    qed (use True None missing in simp)
  qed (use None missing in simp)
qed

theorem get_key_node_from_key_is_map_witness:
  "\<exists>s'. get_key_node_from_key (Some 3) [65, 0] True init_key_store = Some (2, Some 3, s') \<and>
     node_of_key s' = [[65, 0] \<mapsto> 3]"
proof -
  have "node_of_key init_key_store = Map.empty" by (simp add: fun_eq_iff node_of_key_def init_key_store_def)
  then show ?thesis
    using get_key_node_from_key_is_map [OF init_key_store_inv, of "Some 3" "[65, 0]" True]
    by (auto simp: fresh_node_def init_key_store_def)
qed

end
