(* ===== verification/Slab_Tidy.thy ===== *)
theory Slab_Tidy
  imports Slab
begin

text \<open>
  Slabs that have lost nothing. A slab is tidy when no chunk has dropped out of its two lists and
  at most one chunk is partially used. A tidy slab stays tidy under additions, and under removals
  as long as it holds at most 64 entries, one chunk; then its walks see every entry. The buckets of
  the geographical index and the layers rest on these lemmas.
\<close>

definition tidy :: "'a slab \<Rightarrow> bool" where
  "tidy s = (\<exists>ps fs. slab_lists s ps fs [] \<and> length ps \<le> 1)"

lemma tidyI: "slab_lists s ps fs [] \<Longrightarrow> length ps \<le> 1 \<Longrightarrow> tidy s"
  by (auto simp: tidy_def)

text \<open>malloc, asked for a chunk of a slab, gives an address that is not in use.\<close>

definition good_malloc :: "('a slab \<Rightarrow> nat option) \<Rightarrow> bool" where
  "good_malloc al = (\<forall>s. finite (dom (chunks s)) \<longrightarrow> (\<exists>c. al s = Some c \<and> chunks s c = None))"

text \<open>Such an allocator: the first address from c on that is free.\<close>

partial_function (option) free_from :: "nat \<Rightarrow> 'a slab \<Rightarrow> nat option" where
  "free_from c s = (if chunks s c = None then Some c else free_from (c + 1) s)"

lemma free_from_reaches:
  assumes "chunks s (c + n) = None"
  shows "\<exists>d. free_from c s = Some d \<and> chunks s d = None"
  using assms
proof (induction n arbitrary: c)
  case (Suc n)
  then have "\<exists>d. free_from (c + 1) s = Some d \<and> chunks s d = None" using Suc.IH [of "c + 1"] by simp
  then show ?case by (subst free_from.simps) auto
qed (auto simp: free_from.simps)

lemma free_from_good: "good_malloc (free_from c)"
  unfolding good_malloc_def
proof (intro allI impI)
  fix s :: "'a slab" assume fin: "finite (dom (chunks s))"
  have "infinite {c..}" by (rule infinite_Ici)
  then obtain d where "d \<ge> c" "d \<notin> dom (chunks s)" using finite_subset [OF _ fin, of "{c..}"] by auto
  then have "chunks s (c + (d - c)) = None" by (simp add: domIff)
  then show "\<exists>d. free_from c s = Some d \<and> chunks s d = None" by (rule free_from_reaches)
qed

lemma tidy_inv: "tidy s \<Longrightarrow> slab_inv s"
  by (auto simp: tidy_def slab_inv_def)

lemma tidy_finite: "tidy s \<Longrightarrow> finite (dom (chunks s))"
  by (auto simp: tidy_def dest!: slab_listsD(5))

lemma tidy_init [simp]: "tidy init_slab"
  using init_slab_lists by (auto simp: tidy_def)

lemma contents_init [simp]: "slab_contents init_slab = Map.empty"
  by (simp add: fun_eq_iff entry_at_def init_slab_def)

lemma contents_finite:
  assumes "finite (dom (chunks s))"
  shows "finite (dom (slab_contents s))"
proof (rule finite_subset)
  show "dom (slab_contents s) \<subseteq> dom (chunks s) \<times> {..<64}"
    by (auto simp: entry_at_def split: option.splits if_splits)
qed (use assms in simp)

lemma tidy_add:
  assumes "tidy s" "new = Some c" "chunks s c = None"
  shows "\<exists>a s'. add_entry_to_slab new e s = Some (Some a, s') \<and> tidy s' \<and> slab_contents s a = None \<and>
    slab_contents s' = (slab_contents s)(a \<mapsto> e)"
proof -
  have into: "\<exists>a s'. add_entry_to_slab n e t = Some (Some a, s') \<and> tidy s' \<and> slab_contents t a = None \<and>
      slab_contents s' = (slab_contents t)(a \<mapsto> e)"
    if l: "slab_lists t [d] fs []" for t :: "'a slab" and d fs n
  proof -
    obtain ch where "chunks t d = Some ch" using slab_lists_chunk [OF l, of d] by auto
    from add_into_partial [OF l this, of n e] show ?thesis
      by (auto simp: lists_after_add_def split: if_splits dest!: tidyI)
  qed
  obtain ps fs where l: "slab_lists s ps fs []" "length ps \<le> 1" using assms(1) by (auto simp: tidy_def)
  show ?thesis
  proof (cases ps)
    case Nil
    note n = new_chunk_lists [OF l(1) [unfolded Nil] assms(3)]
    show ?thesis using into [OF n(1), of new] n(2,3) assms(2) by auto
  next
    case (Cons d ds)
    then have "ps = [d]" using l(2) by simp
    then show ?thesis using into [of s d fs new] l(1) by simp
  qed
qed

text \<open>A chunk on the full list holds 64 entries.\<close>

lemma full_chunk_entries:
  assumes "slab_lists s ps (c # fs) ds"
  shows "(\<lambda>b. (c, b)) ` {..<64} \<subseteq> dom (slab_contents s)"
proof
  fix a assume "a \<in> (\<lambda>b. (c, b)) ` {..<64 :: nat}"
  then obtain b where b: "a = (c, b)" "b < 64" by auto
  obtain ch where ch: "chunks s c = Some ch" using slab_lists_chunk [OF assms, of c] by auto
  then have "bitmap ch = 0" using slab_listsD(6) [OF assms] by (simp add: bitmap_at_def)
  then show "a \<in> dom (slab_contents s)"
    using slab_listsD(8) [OF assms] ch b by (auto simp: entry_at_def owned_def)
qed

lemma few_no_full:
  assumes "slab_lists s ps fs ds" "finite (dom (chunks s))" "card (dom (slab_contents s)) < 64"
  shows "fs = []"
proof (cases fs)
  case (Cons c cs)
  have "card ((\<lambda>b. (c, b)) ` {..<64 :: nat}) = 64" by (simp add: card_image inj_on_def)
  then show ?thesis
    using card_mono [OF contents_finite [OF assms(2)] full_chunk_entries] assms(1,3) Cons by fastforce
qed

lemma tidy_remove:
  assumes t: "tidy s" and a: "slab_contents s a \<noteq> None" and few: "card (dom (slab_contents s)) < 64"
  shows "\<exists>s'. remove_entry_from_slab a s = Some (0, s') \<and> tidy s' \<and>
    slab_contents s' = (slab_contents s)(a := None)"
proof -
  obtain ps fs where l: "slab_lists s ps fs []" "length ps \<le> 1" using t by (auto simp: tidy_def)
  note fs = few_no_full [OF l(1) tidy_finite [OF t] few]
  obtain c b where cb: "a = (c, b)" by (cases a)
  obtain ch where ch: "chunks s c = Some ch" "b < 64" "\<not> bit (bitmap ch) b"
    using a by (auto simp: cb entry_at_def split: option.splits if_splits)
  have owner: "slot_chunk ch b = Some c" using slab_listsD(8) [OF l(1)] ch by (auto simp: owned_def)
  have c: "c \<in> set ps" using slab_listsD(5) [OF l(1)] ch(1) fs by auto
  obtain s' ps' where "remove_entry_from_slab (c, b) s = Some (0, s')"
    "slab_contents s' = (slab_contents s)((c, b) := None)" "length ps' \<le> length ps" "slab_lists s' ps' fs []"
    using remove_not_full [OF l(1) _ ch(1,2) owner] c by auto
  moreover from this(3,4) l(2) have "tidy s'" by (intro tidyI [of s' ps' fs]) simp_all
  ultimately show ?thesis using cb by auto
qed

text \<open>A walk over a tidy slab gives all its entries, each once.\<close>

definition slab_entries :: "'a slab \<Rightarrow> (slab_entry \<times> 'a) list \<Rightarrow> bool" where
  "slab_entries s es =
     (distinct (map fst es) \<and> map_of es = slab_contents s \<and>
      (\<forall>a e. (a, e) \<in> set es \<longleftrightarrow> slab_contents s a = Some e))"

text \<open>The entries in the order of slab_foreach.\<close>

definition slab_list :: "'e slab \<Rightarrow> (slab_entry \<times> 'e) list" where
  "slab_list s = (case slab_foreach (\<lambda>es a e. Some (0, es @ [(a, e)])) s [] of None \<Rightarrow> [] | Some (_, es) \<Rightarrow> es)"

lemma foreach_collect: "foreach_entries (\<lambda>es a e. Some (0, es @ [(a, e)])) l es = Some (0, es @ l)"
  by (induction l arbitrary: es) auto

lemma tidy_list:
  assumes "tidy s"
  shows "slab_entries s (slab_list s)" "slab_foreach cb s ctx = foreach_entries cb (slab_list s) ctx"
proof -
  obtain ps fs where l: "slab_lists s ps fs []" using assms by (auto simp: tidy_def)
  define es where "es = list_entries (chunks s) (ps @ fs)"
  have list: "slab_list s = es"
    unfolding slab_list_def slab_foreach_entries [OF l] by (simp add: foreach_collect es_def)
  have ow: "owned (chunks s)" and d: "distinct (ps @ fs)" using slab_listsD(4,8) [OF l] by auto
  have mem: "(a, e) \<in> set es \<longleftrightarrow> slab_contents s a = Some e" for a e
    using slab_listsD(5) [OF l] unfolding es_def list_entries_live [OF ow]
    by (auto simp: entry_at_def split: option.splits)
  have dis: "distinct (map fst es)" unfolding es_def by (rule list_entries_distinct [OF d])
  have "map_of es a = slab_contents s a" for a
    using mem map_of_eq_Some_iff [OF dis] by (metis option.exhaust)
  then show "slab_entries s (slab_list s)" using dis mem by (auto simp: list slab_entries_def fun_eq_iff)
  show "slab_foreach cb s ctx = foreach_entries cb (slab_list s) ctx"
    unfolding list es_def by (rule slab_foreach_entries [OF l])
qed

lemma tidy_foreach:
  assumes "tidy s"
  shows "\<exists>es. slab_entries s es \<and> (\<forall>cb (ctx :: 'c). slab_foreach cb s ctx = foreach_entries cb es ctx)"
  using tidy_list [OF assms] by blast

lemma slab_entries_length: "slab_entries s es \<Longrightarrow> length es = card (dom (slab_contents s))"
  unfolding slab_entries_def using distinct_card [of "map fst es"] dom_map_of_conv_image_fst [of es] by simp

text \<open>Freeing a tidy slab: every chunk is released, once.\<close>

lemma free_chunks_list:
  assumes "lseg h p f cs l None" "distinct cs"
  shows "free_chunks h f = Some (\<lambda>c. if c \<in> set cs then None else h c)"
  using assms
proof (induction cs arbitrary: h p f)
  case Nil
  then show ?case by (simp add: free_chunks.simps)
next
  case (Cons c cs)
  then obtain ch where ch: "f = Some c" "h c = Some ch" "lseg h (Some c) (chunk_next ch) cs l None" by auto
  have "lseg (h(c := None)) (Some c) (chunk_next ch) cs l None"
    using Cons.prems(2) by (intro lseg_cong [OF _ ch(3)]) (auto simp: same_links_def)
  then have "free_chunks (h(c := None)) (chunk_next ch) = Some (\<lambda>a. if a \<in> set cs then None else (h(c := None)) a)"
    using Cons.prems(2) by (elim Cons.IH) simp
  also have "(\<lambda>a. if a \<in> set cs then None else (h(c := None)) a) = (\<lambda>a. if a \<in> set (c # cs) then None else h a)"
    by auto
  finally show ?case using ch by (subst free_chunks.simps) (simp add: fun_upd_def)
qed

lemma free_slab_tidy:
  assumes "tidy s"
  shows "free_slab s = Some init_slab"
proof -
  obtain ps fs where l: "slab_lists s ps fs []" using assms by (auto simp: tidy_def)
  obtain l1 l2 where c: "lseg (chunks s) None (first_partial_chunk s) ps l1 None"
      "lseg (chunks s) None (first_full_chunk s) fs l2 None" "distinct ps" "distinct fs" "set ps \<inter> set fs = {}"
    using slab_listsD(1,2,4) [OF l] by (auto simp: chunk_list_def)
  let ?h = "\<lambda>c. if c \<in> set ps then None else chunks s c"
  have "lseg ?h None (first_full_chunk s) fs l2 None"
    using c(5) by (intro lseg_cong [OF _ c(2)]) (auto simp: same_links_def)
  from free_chunks_list [OF c(1,3)] free_chunks_list [OF this c(4)]
  have "free_slab s = Some (s\<lparr>chunks := (\<lambda>c. if c \<in> set fs then None else ?h c),
      first_partial_chunk := None, first_full_chunk := None\<rparr>)"
    by (simp add: free_slab_def)
  moreover have "(\<lambda>c. if c \<in> set fs then None else ?h c) = Map.empty"
    using slab_listsD(5) [OF l] by (auto simp: fun_eq_iff)
  ultimately show ?thesis by (simp add: init_slab_def)
qed

end
