(* ===== verification/Index_Add.thy ===== *)
theory Index_Add
  imports Pan_Db
begin

text \<open>
  Adding to the geographical index is right: a record goes to the one bucket its position belongs to,
  a bucket that is full is split and its slots redistributed, and the invariant of the tree,
  the counters and the pointers between slots and key nodes are kept. A walk over a bucket that
  hands its slots to a target, in a split as in a merge, is treated once by foreach_moves.
\<close>

section \<open>Moving the slots of a bucket\<close>

text \<open>What a walk meets: slots with distinct key nodes that exist, inside the rectangle.\<close>

definition movable :: "rectangle2d \<Rightarrow> node_heap \<Rightarrow> (slab_entry \<times> slot) list \<Rightarrow> bool" where
  "movable r h es =
     (distinct (map (\<lambda>(a, s). slot_key_node s) es) \<and>
      (\<forall>(a, s) \<in> set es. position_is_in_rect (position s) r \<and>
         (\<exists>k. slot_key_node s = Some k \<and> h k \<noteq> None)))"

definition moved :: "(slab_entry \<times> slot) list \<Rightarrow> (nat \<times> position2d) set" where
  "moved es = {(k, x). \<exists>s \<in> snd ` set es. slot_key_node s = Some k \<and> position s = x}"

text \<open>
  A target that takes one slot at a time: ok is what is kept, P the records it holds,
  H its view of the key nodes, N the number of slots it holds.
\<close>

lemma foreach_moves:
  fixes cb :: "'c \<Rightarrow> slab_entry \<Rightarrow> slot \<Rightarrow> (int \<times> 'c) option"
  assumes step: "\<And>c a s k. ok c \<Longrightarrow> slot_key_node s = Some k \<Longrightarrow> position_is_in_rect (position s) r \<Longrightarrow>
      k \<notin> fst ` P c \<Longrightarrow> H c k \<noteq> None \<Longrightarrow>
      \<exists>c'. cb c a s = Some (0, c') \<and> ok c' \<and> P c' = insert (k, position s) (P c) \<and>
        same_nodes {k} (H c) (H c') \<and> N c' = N c + (1 :: nat)"
    and "ok c" "movable r (H c) es" "fst ` moved es \<inter> fst ` P c = {}"
  shows "\<exists>c'. foreach_entries cb es c = Some (0, c') \<and> ok c' \<and> P c' = P c \<union> moved es \<and>
    same_nodes (fst ` moved es) (H c) (H c') \<and> N c' = N c + length es"
  using assms(2-)
proof (induction es arbitrary: c)
  case Nil
  then show ?case by (simp add: moved_def)
next
  case (Cons e es)
  obtain a s where e: "e = (a, s)" by (cases e)
  with Cons.prems(2) obtain k where k: "slot_key_node s = Some k" "position_is_in_rect (position s) r" "H c k \<noteq> None"
    by (auto simp: movable_def)
  have m: "moved (e # es) = insert (k, position s) (moved es)" using k(1) by (auto simp: moved_def e)
  have new: "k \<notin> fst ` moved es"
    using Cons.prems(2) k(1) by (force simp: movable_def moved_def e)
  have "k \<notin> fst ` P c" using Cons.prems(3) unfolding m by auto
  from step [OF Cons.prems(1) k(1,2) this k(3), of a] obtain c1 where
    c1: "cb c a s = Some (0, c1)" "ok c1" "P c1 = insert (k, position s) (P c)" "same_nodes {k} (H c) (H c1)"
      "N c1 = N c + 1" by blast
  have "H c1 j \<noteq> None \<longleftrightarrow> H c j \<noteq> None" for j using same_nodes_dom [OF c1(4)] by simp
  then have "movable r (H c1) es" using Cons.prems(2) by (auto simp: movable_def)
  moreover have "fst ` moved es \<inter> fst ` P c1 = {}" using Cons.prems(3) new unfolding m c1(3) by auto
  ultimately obtain c' where c': "foreach_entries cb es c1 = Some (0, c')" "ok c'" "P c' = P c1 \<union> moved es"
      "same_nodes (fst ` moved es) (H c1) (H c')" "N c' = N c1 + length es"
    using Cons.IH [OF c1(2)] by blast
  have "same_nodes (fst ` moved (e # es)) (H c) (H c')"
    using same_nodes_trans [OF c1(4) c'(4)] unfolding m by simp
  then show ?case using c1 c' by (simp add: e m [unfolded e])
qed

text \<open>The slots of a bucket that satisfies the invariant can be moved.\<close>

lemma bucket_entries:
  assumes inv: "bucket_inv p r b" and l: "links h p (Bucket_Node b)"
  obtains es where "slab_entries (bslab b) es" "movable r h es" "moved es = placed (Bucket_Node b)"
    "length es = busy_slots b"
    "\<And>cb (ctx :: 'c). slab_foreach cb (bslab b) ctx = foreach_entries cb es ctx"
proof -
  have t: "tidy (bslab b)" using inv by (simp add: bucket_inv_def)
  obtain es where es: "slab_entries (bslab b) es"
    "\<forall>cb (ctx :: 'c). slab_foreach cb (bslab b) ctx = foreach_entries cb es ctx"
    using tidy_foreach [OF t] by blast
  have mem: "(a, s) \<in> set es \<longleftrightarrow> slab_contents (bslab b) a = Some s" for a s
    using es(1) unfolding slab_entries_def by blast
  have link: "\<exists>k kn. slot_key_node s = Some k \<and> h k = Some kn \<and> kn_slot kn = Some (p, a)" if "(a, s) \<in> set es" for a s
    using l that unfolding links_Bucket mem by blast
  have "distinct (map (\<lambda>(a, s). slot_key_node s) es)"
  proof -
    have "inj_on (\<lambda>(a, s). slot_key_node s) (set es)"
    proof (rule inj_onI, clarify)
      fix c b s c' b' s' assume i: "((c, b), s) \<in> set es" "((c', b'), s') \<in> set es" "slot_key_node s = slot_key_node s'"
      then have "(c, b) = (c', b')" using link [OF i(1)] link [OF i(2)] by auto
      then show "((c, b) = (c', b')) \<and> s = s'" using i(1,2) unfolding mem by auto
    qed
    moreover have "distinct es" using es(1) by (auto simp: slab_entries_def distinct_map)
    ultimately show ?thesis by (simp add: distinct_map)
  qed
  moreover have "position_is_in_rect (position s) r \<and> (\<exists>k. slot_key_node s = Some k \<and> h k \<noteq> None)"
    if "(a, s) \<in> set es" for a s
    using inv link [OF that] that unfolding mem bucket_inv_def by fastforce
  ultimately have "movable r h es" by (auto simp: movable_def)
  moreover have "s \<in> snd ` set es \<longleftrightarrow> (\<exists>a. slab_contents (bslab b) a = Some s)" for s
    unfolding mem [symmetric] by force
  then have "moved es = placed (Bucket_Node b)"
    by (simp only: moved_def placed_Bucket Bex_def) blast
  moreover have "length es = busy_slots b" using slab_entries_length [OF es(1)] inv by (simp add: bucket_inv_def)
  ultimately show thesis using es that by blast
qed

lemma free_bucket_ok:
  assumes "bucket_inv p r b"
  shows "free_bucket b = Some ()"
proof -
  have t: "tidy (bslab b)" using assms by (simp add: bucket_inv_def)
  obtain es where es: "slab_entries (bslab b) es"
    "\<forall>cb (ctx :: unit). slab_foreach cb (bslab b) ctx = foreach_entries cb es ctx"
    using tidy_foreach [OF t] by blast
  have "\<forall>(a, s) \<in> set es. slot_key_node s \<noteq> None \<and> slot_bucket s \<noteq> None"
    using assms es(1) by (auto simp: bucket_inv_def slab_entries_def)
  then have "foreach_entries free_bucket_cb es () = Some (0, ())"
    by (induction es) (auto simp: free_bucket_cb_def free_slot_def)
  then show ?thesis using es(2) free_slab_tidy [OF t] by (simp add: free_bucket_def)
qed

section \<open>Splitting a bucket\<close>

lemma init_bucket_inv: "bucket_inv p r init_bucket"
  by (simp add: bucket_inv_def init_bucket_def)

lemma placed_init [simp]: "placed (Bucket_Node init_bucket) = {}"
  by (simp add: placed_Bucket init_bucket_def)

text \<open>The new quad node during and after the walk: all its children are buckets.\<close>

definition spread :: "path \<Rightarrow> rectangle2d \<Rightarrow> split_context \<Rightarrow> bool" where
  "spread p r ctx =
     (case ctx of (sub_slots, nodes, h) \<Rightarrow>
        node_inv (Quad_Node sub_slots nodes) p r \<and> links h p (Quad_Node sub_slots nodes) \<and>
        (\<forall>t < 4. \<exists>b. nodes t = Bucket_Node b))"

lemma spread_new: "spread p r (0, \<lambda>_. Bucket_Node init_bucket, h)"
proof -
  have "links h q (Bucket_Node init_bucket)" for q by (simp add: links_Bucket init_bucket_def)
  then show ?thesis
    by (simp add: spread_def init_bucket_inv links_Quad) (simp add: init_bucket_def)
qed

text \<open>One slot put into the child its position belongs to.\<close>

lemma spread_put:
  assumes sp: "spread p r (sub_slots, nodes, h)" and r: "rect_ok r" and al: "good_malloc al"
    and slot: "slot_key_node slot = Some k" "position_is_in_rect (position slot) r"
    and k: "k \<notin> keys (Quad_Node sub_slots nodes)" "h k \<noteq> None"
  shows "\<exists>t b a b' h'. find_node_for_position (get_qrects_from_qbounds r) (position slot) =
      Some (t, get_qrects_from_qbounds r ! t) \<and> t < 4 \<and> nodes t = Bucket_Node b \<and>
    add_slot_to_bucket al (p @ [t]) slot b = Some (Some (p @ [t], a), b') \<and>
    set_kn_slot (slot_key_node slot) (Some (p @ [t], a)) h = Some h' \<and>
    spread p r (sub_slots + 1, nodes(t := Bucket_Node b'), h') \<and>
    placed (Quad_Node (sub_slots + 1) (nodes(t := Bucket_Node b'))) =
      insert (k, position slot) (placed (Quad_Node sub_slots nodes)) \<and>
    same_nodes {k} h h'"
proof -
  note d = sp [unfolded spread_def prod.case]
  obtain t where t: "find_node_for_position (get_qrects_from_qbounds r) (position slot) =
      Some (t, get_qrects_from_qbounds r ! t)" "t < 4" "position_is_in_rect (position slot) (get_qrects_from_qbounds r ! t)"
    using find_node_in_qrects [OF r slot(2)] by blast
  obtain b where b: "nodes t = Bucket_Node b" using d t(2) by blast
  have bi: "bucket_inv (p @ [t]) (get_qrects_from_qbounds r ! t) b"
    using d t(2) b by (metis node_inv.simps)
  have bl: "links h (p @ [t]) (Bucket_Node b)" using d t(2) b unfolding links_Quad by metis
  have kb: "k \<notin> keys (Bucket_Node b)" using k(1) t(2) b unfolding keys_Quad by (metis UN_I lessThan_iff)
  obtain a b' h' where put: "add_slot_to_bucket al (p @ [t]) slot b = Some (Some (p @ [t], a), b')"
    "set_kn_slot (slot_key_node slot) (Some (p @ [t], a)) h = Some h'" "bucket_inv (p @ [t]) (get_qrects_from_qbounds r ! t) b'"
    "busy_slots b' = busy_slots b + 1" "links h' (p @ [t]) (Bucket_Node b')" "same_nodes {k} h h'"
    "placed (Bucket_Node b') = insert (k, position slot) (placed (Bucket_Node b))"
    using bucket_put [OF bi bl al slot(1) t(3) kb k(2)] by blast
  have same: "same_nodes (insert k (keys (nodes t))) h h'" by (rule same_nodes_mono [OF put(6)]) simp
  have "node_inv (Bucket_Node b') (p @ [t]) (get_qrects_from_qbounds r ! t)" using put(3) by simp
  moreover have "nslots (Bucket_Node b') = nslots (nodes t) + 1"
    "placed (Bucket_Node b') = insert (k, position slot) (placed (nodes t))" using put(4,7) b by simp_all
  ultimately have q: "node_inv (Quad_Node (sub_slots + 1) (nodes(t := Bucket_Node b'))) p r"
    "links h' p (Quad_Node (sub_slots + 1) (nodes(t := Bucket_Node b')))"
    "placed (Quad_Node (sub_slots + 1) (nodes(t := Bucket_Node b'))) =
      insert (k, position slot) (placed (Quad_Node sub_slots nodes))"
    using quad_put [OF _ _ t(2) _ put(5) k(1) same] d by blast+
  then have "spread p r (sub_slots + 1, nodes(t := Bucket_Node b'), h')"
    using d by (simp add: spread_def)
  then show ?thesis using t(1,2) b put(1,2,6) q(3) by (intro exI [of _ t] exI [of _ b] exI [of _ a] exI [of _ b'] exI [of _ h'] conjI)
qed

lemma rebalance_step:
  assumes sp: "spread p r ctx" and r: "rect_ok r" and al: "good_malloc al"
    and slot: "slot_key_node slot = Some k" "position_is_in_rect (position slot) r"
    and k: "k \<notin> fst ` (case ctx of (sub_slots, nodes, h) \<Rightarrow> placed (Quad_Node sub_slots nodes))"
      "snd (snd ctx) k \<noteq> None"
  shows "\<exists>ctx'. rebalance_bucket_cb al p (get_qrects_from_qbounds r) ctx a slot = Some (0, ctx') \<and>
    spread p r ctx' \<and>
    (case ctx' of (sub_slots, nodes, h) \<Rightarrow> placed (Quad_Node sub_slots nodes)) =
      insert (k, position slot) (case ctx of (sub_slots, nodes, h) \<Rightarrow> placed (Quad_Node sub_slots nodes)) \<and>
    same_nodes {k} (snd (snd ctx)) (snd (snd ctx')) \<and> fst ctx' = fst ctx + 1"
proof -
  obtain sub_slots nodes h where c: "ctx = (sub_slots, nodes, h)" by (cases ctx)
  have k': "k \<notin> keys (Quad_Node sub_slots nodes)" "h k \<noteq> None" using k by (simp_all add: c keys_def)
  obtain t b a1 b' h' where s: "find_node_for_position (get_qrects_from_qbounds r) (position slot) =
      Some (t, get_qrects_from_qbounds r ! t)" "nodes t = Bucket_Node b"
    "add_slot_to_bucket al (p @ [t]) slot b = Some (Some (p @ [t], a1), b')"
    "set_kn_slot (slot_key_node slot) (Some (p @ [t], a1)) h = Some h'"
    "spread p r (sub_slots + 1, nodes(t := Bucket_Node b'), h')"
    "placed (Quad_Node (sub_slots + 1) (nodes(t := Bucket_Node b'))) =
      insert (k, position slot) (placed (Quad_Node sub_slots nodes))" "same_nodes {k} h h'"
    using spread_put [OF sp [unfolded c] r al slot k'] by blast
  have "rebalance_bucket_cb al p (get_qrects_from_qbounds r) ctx a slot =
      Some (0, (sub_slots + 1, nodes(t := Bucket_Node b'), h'))"
    by (simp add: rebalance_bucket_cb_def c s(1-4) count_new_def)
  then show ?thesis using s(5-7) by (simp add: c)
qed

lemma set_kn_slot_at:
  "set_kn_slot (Some k) ptr h = Some h' \<Longrightarrow> map_option kn_slot (h' k) = Some ptr"
  by (auto simp: set_kn_slot_def split: bind_splits)

lemma split_bucket_ok:
  assumes inv: "bucket_inv p r b" and l: "links h p (Bucket_Node b)" and r: "rect_ok r" and al: "good_malloc al"
    and slot: "slot_key_node slot = Some k" "position_is_in_rect (position slot) r"
    and k: "k \<notin> keys (Bucket_Node b)" "h k \<noteq> None"
  shows "\<exists>q a n' h'. split_bucket al True slot p r b h = Some (Some (p @ q, a), n', h') \<and>
    node_inv n' p r \<and> nslots n' = busy_slots b + 1 \<and> links h' p n' \<and>
    placed n' = insert (k, position slot) (placed (Bucket_Node b)) \<and>
    same_nodes (insert k (keys (Bucket_Node b))) h h' \<and> map_option kn_slot (h' k) = Some (Some (p @ q, a)) \<and>
    (\<exists>sub_slots nodes. n' = Quad_Node sub_slots nodes \<and> (\<forall>t < 4. \<exists>b. nodes t = Bucket_Node b))"
proof -
  let ?P = "\<lambda>ctx :: split_context. case ctx of (sub_slots, nodes, h) \<Rightarrow> placed (Quad_Node sub_slots nodes)"
  let ?new = "(0, \<lambda>_. Bucket_Node init_bucket, h) :: split_context"
  obtain es where es: "movable r h es" "moved es = placed (Bucket_Node b)" "length es = busy_slots b"
    "\<And>cb (ctx :: split_context). slab_foreach cb (bslab b) ctx = foreach_entries cb es ctx"
    by (rule bucket_entries [OF inv l, where 'c = split_context]) blast
  have none: "?P ?new = {}" by (simp add: placed_Quad)
  have "\<exists>c'. foreach_entries (rebalance_bucket_cb al p (get_qrects_from_qbounds r)) es ?new = Some (0, c') \<and>
      spread p r c' \<and> ?P c' = ?P ?new \<union> moved es \<and> same_nodes (fst ` moved es) (snd (snd ?new)) (snd (snd c')) \<and>
      fst c' = fst ?new + length es"
  proof (rule foreach_moves [where ok = "spread p r" and P = ?P and H = "\<lambda>c. snd (snd c)" and N = fst and r = r])
    show "fst ` moved es \<inter> fst ` ?P ?new = {}" unfolding none by simp
  qed (use rebalance_step [OF _ r al] spread_new es(1) in auto)
  then obtain sub nodes h1 where w: "slab_foreach (rebalance_bucket_cb al p (get_qrects_from_qbounds r)) (bslab b) ?new =
      Some (0, (sub, nodes, h1))" "spread p r (sub, nodes, h1)"
    "placed (Quad_Node sub nodes) = placed (Bucket_Node b)" "same_nodes (keys (Bucket_Node b)) h h1" "sub = busy_slots b"
    unfolding none es(2-4) keys_def by auto
  have k': "k \<notin> keys (Quad_Node sub nodes)" "h1 k \<noteq> None"
    using k w(3) same_nodes_dom [OF w(4), of k] by (simp_all add: keys_def)
  obtain t b2 a b' h' where s: "find_node_for_position (get_qrects_from_qbounds r) (position slot) =
      Some (t, get_qrects_from_qbounds r ! t)" "nodes t = Bucket_Node b2"
    "add_slot_to_bucket al (p @ [t]) slot b2 = Some (Some (p @ [t], a), b')"
    "set_kn_slot (slot_key_node slot) (Some (p @ [t], a)) h1 = Some h'"
    "spread p r (sub + 1, nodes(t := Bucket_Node b'), h')"
    "placed (Quad_Node (sub + 1) (nodes(t := Bucket_Node b'))) =
      insert (k, position slot) (placed (Quad_Node sub nodes))" "same_nodes {k} h1 h'"
    using spread_put [OF w(2) r al slot k'] by blast
  have run: "split_bucket al True slot p r b h =
      Some (Some (p @ [t], a), Quad_Node (sub + 1) (nodes(t := Bucket_Node b')), h')"
    by (simp add: split_bucket_def new_quad_node_def w(1) free_bucket_ok [OF inv] s(1-4) count_new_def)
  have "same_nodes (insert k (keys (Bucket_Node b))) h h'"
    using same_nodes_trans [OF w(4) s(7)] by simp
  moreover have "node_inv (Quad_Node (sub + 1) (nodes(t := Bucket_Node b'))) p r"
    "links h' p (Quad_Node (sub + 1) (nodes(t := Bucket_Node b')))"
    using s(5) unfolding spread_def by blast+
  moreover have "nslots (Quad_Node (sub + 1) (nodes(t := Bucket_Node b'))) = busy_slots b + 1"
    using w(5) by simp
  moreover have "\<exists>sub_slots nodes1. Quad_Node (sub + 1) (nodes(t := Bucket_Node b')) = Quad_Node sub_slots nodes1 \<and>
      (\<forall>t < 4. \<exists>b. nodes1 t = Bucket_Node b)"
    using s(5) unfolding spread_def prod.case by blast
  moreover have "map_option kn_slot (h' k) = Some (Some (p @ [t], a))"
    using set_kn_slot_at s(4) slot(1) by simp
  ultimately show ?thesis using run s(6) w(3) by metis
qed

section \<open>The walk down the tree\<close>

lemma add_slot_below_ok:
  assumes al: "good_malloc al" and slot: "slot_key_node slot = Some k" and hk: "h k \<noteq> None"
  shows "rect_ok r \<Longrightarrow> node_inv n p r \<Longrightarrow> links h p n \<Longrightarrow> position_is_in_rect (position slot) r \<Longrightarrow> k \<notin> keys n \<Longrightarrow>
    \<exists>q a n' h'. add_slot_below al True la lo slot n p r h = Some (Some (p @ q, a), n', h') \<and>
      node_inv n' p r \<and> nslots n' = nslots n + 1 \<and> links h' p n' \<and>
      placed n' = insert (k, position slot) (placed n) \<and> same_nodes (insert k (keys n)) h h' \<and>
      map_option kn_slot (h' k) = Some (Some (p @ q, a))"
proof (induction n arbitrary: p r)
  case (Bucket_Node b)
  have inv: "bucket_inv p r b" using Bucket_Node.prems(2) by simp
  then have size: "bucket_size b > 0" by (simp add: bucket_inv_def BUCKET_SIZE_def)
  show ?case
  proof (cases "busy_slots b < bucket_size b \<or> too_small la lo r")
    case True
    obtain a b' h' where put: "add_slot_to_bucket al p slot b = Some (Some (p, a), b')"
      "set_kn_slot (slot_key_node slot) (Some (p, a)) h = Some h'" "bucket_inv p r b'"
      "busy_slots b' = busy_slots b + 1" "links h' p (Bucket_Node b')" "same_nodes {k} h h'"
      "placed (Bucket_Node b') = insert (k, position slot) (placed (Bucket_Node b))"
      using bucket_put [OF inv Bucket_Node.prems(3) al slot Bucket_Node.prems(4,5) hk] by blast
    have "add_slot_below al True la lo slot (Bucket_Node b) p r h = Some (Some (p @ [], a), Bucket_Node b', h')"
      using True size put(1,2) by simp
    moreover have "same_nodes (insert k (keys (Bucket_Node b))) h h'" by (rule same_nodes_mono [OF put(6)]) simp
    moreover have "node_inv (Bucket_Node b') p r" "nslots (Bucket_Node b') = nslots (Bucket_Node b) + 1"
      using put(3,4) by simp_all
    moreover have "map_option kn_slot (h' k) = Some (Some (p @ [], a))"
      using set_kn_slot_at put(2) slot by simp
    ultimately show ?thesis using put(5,7) by blast
  next
    case False
    then have "add_slot_below al True la lo slot (Bucket_Node b) p r h = split_bucket al True slot p r b h"
      using size by simp
    then show ?thesis
      using split_bucket_ok [OF inv Bucket_Node.prems(3,1) al slot Bucket_Node.prems(4,5) hk]
      unfolding nslots.simps by metis
  qed
next
  case (Quad_Node sub_slots nodes)
  obtain t where t: "find_node_for_position (get_qrects_from_qbounds r) (position slot) =
      Some (t, get_qrects_from_qbounds r ! t)" "t < 4" "position_is_in_rect (position slot) (get_qrects_from_qbounds r ! t)"
    using find_node_in_qrects [OF Quad_Node.prems(1,4)] by blast
  have c: "node_inv (nodes t) (p @ [t]) (get_qrects_from_qbounds r ! t)" "links h (p @ [t]) (nodes t)" "k \<notin> keys (nodes t)"
    using Quad_Node.prems(2,3,5) t(2) by (simp_all add: links_Quad keys_Quad)
  obtain q a n' h' where s: "add_slot_below al True la lo slot (nodes t) (p @ [t]) (get_qrects_from_qbounds r ! t) h =
      Some (Some ((p @ [t]) @ q, a), n', h')" "node_inv n' (p @ [t]) (get_qrects_from_qbounds r ! t)"
    "nslots n' = nslots (nodes t) + 1" "links h' (p @ [t]) n'" "placed n' = insert (k, position slot) (placed (nodes t))"
    "same_nodes (insert k (keys (nodes t))) h h'" "map_option kn_slot (h' k) = Some (Some ((p @ [t]) @ q, a))"
    using Quad_Node.IH [OF _ qrects_ok [OF Quad_Node.prems(1) t(2)] c(1,2) t(3) c(3)] by blast
  have run: "add_slot_below al True la lo slot (Quad_Node sub_slots nodes) p r h =
      Some (Some (p @ (t # q), a), Quad_Node (sub_slots + 1) (nodes(t := n')), h')"
    using t(1) s(1) by (simp add: count_new_def)
  have "insert k (keys (nodes t)) \<subseteq> insert k (keys (Quad_Node sub_slots nodes))"
    using t(2) by (auto simp: keys_Quad)
  note same_nodes_mono [OF s(6) this]
  moreover have "map_option kn_slot (h' k) = Some (Some (p @ (t # q), a))" using s(7) by simp
  moreover have "nslots (Quad_Node (sub_slots + 1) (nodes(t := n'))) = nslots (Quad_Node sub_slots nodes) + 1" by simp
  ultimately show ?case
    using run quad_put [OF Quad_Node.prems(2,3) t(2) s(2,4) Quad_Node.prems(5) s(6,3,5)] by blast
qed

end
