(* ===== verification/Index_Remove.thy ===== *)
theory Index_Remove
  imports Index_Add
begin

text \<open>
  Removing from the geographical index is right: the record goes, all others stay where a search
  finds them, the counters on the path go down by one, and four buckets that have become nearly empty are
  merged into their parent. The lemmas ask that the record's bucket holds fewer than 64 slots:
  beyond that the slab of the bucket can lose whole chunks (theory Slab), which only buckets
  that are too small to be split can reach.
\<close>

section \<open>Removing from a bucket\<close>

primrec bucket_at :: "node \<Rightarrow> path \<Rightarrow> bucket option" where
  "bucket_at (Bucket_Node b) = (\<lambda>q. if q = [] then Some b else None)"
| "bucket_at (Quad_Node sub_slots nodes) = (\<lambda>q.
     (case q of [] \<Rightarrow> None | t # q' \<Rightarrow> if t < 4 then bucket_at (nodes t) q' else None))"

lemma bucket_take:
  assumes inv: "bucket_inv p r b" and l: "links h p (Bucket_Node b)"
    and s: "slab_contents (bslab b) a = Some s" "slot_key_node s = Some k" and few: "busy_slots b < 64"
  shows "\<exists>b'. remove_slot_from_bucket a b = Some b' \<and> bucket_inv p r b' \<and> busy_slots b' + 1 = busy_slots b \<and>
    links h p (Bucket_Node b') \<and> placed (Bucket_Node b') = placed (Bucket_Node b) - {(k, position s)}"
proof -
  have t: "tidy (bslab b)" and busy: "busy_slots b = card (dom (slab_contents (bslab b)))"
    using inv by (simp_all add: bucket_inv_def)
  have "slab_contents (bslab b) a \<noteq> None" using s(1) by simp
  from tidy_remove [OF t this few [unfolded busy]] obtain sl where
    sl: "remove_entry_from_slab a (bslab b) = Some (0, sl)" "tidy sl" "slab_contents sl = (slab_contents (bslab b))(a := None)"
    by blast
  have fin: "finite (dom (slab_contents (bslab b)))" by (rule contents_finite [OF tidy_finite [OF t]])
  have a: "a \<in> dom (slab_contents (bslab b))" using s(1) by blast
  have card: "card (dom (slab_contents sl)) + 1 = busy_slots b"
    unfolding sl(3) busy dom_fun_upd using card.remove [OF fin a] by simp
  define b' where "b' = b\<lparr>bslab := sl, busy_slots := busy_slots b - 1\<rparr>"
  have bs: "slab_contents (bslab b') c = (if c = a then None else slab_contents (bslab b) c)" for c
    by (simp add: b'_def sl(3))
  have "remove_slot_from_bucket a b = Some b'"
  proof -
    have "slot_bucket s = Some p" using inv s(1) unfolding bucket_inv_def by blast
    then show ?thesis using s sl(1) card by (simp add: remove_slot_from_bucket_def free_slot_def b'_def)
  qed
  moreover have "bucket_inv p r b'"
  proof -
    have "tidy (bslab b')" "bucket_size b' = bucket_size b" "busy_slots b' = card (dom (slab_contents (bslab b')))"
      using sl(2) card by (simp_all add: b'_def)
    moreover have "\<forall>c u. slab_contents (bslab b') c = Some u \<longrightarrow> slab_contents (bslab b) c = Some u"
      by (simp add: bs)
    ultimately show ?thesis using inv unfolding bucket_inv_def by metis
  qed
  moreover have "busy_slots b' + 1 = busy_slots b" using card by (simp add: b'_def)
  moreover have "links h p (Bucket_Node b')" using l unfolding links_Bucket bs by (auto split: if_splits)
  moreover have "placed (Bucket_Node b') = placed (Bucket_Node b) - {(k, position s)}"
  proof -
    have only: "c = a" if "slab_contents (bslab b) c = Some u" "slot_key_node u = Some k" for c u
      using l that s unfolding links_Bucket by (metis option.inject prod.inject)
    have "(j, x) \<in> placed (Bucket_Node b') \<longleftrightarrow> (j, x) \<in> placed (Bucket_Node b) - {(k, position s)}" for j x
    proof
      assume "(j, x) \<in> placed (Bucket_Node b')"
      then obtain c u where c: "c \<noteq> a" "slab_contents (bslab b) c = Some u" "slot_key_node u = Some j" "position u = x"
        unfolding placed_Bucket bs by (auto split: if_splits)
      then have "j \<noteq> k" using only by blast
      then show "(j, x) \<in> placed (Bucket_Node b) - {(k, position s)}" using c unfolding placed_Bucket by blast
    next
      assume m: "(j, x) \<in> placed (Bucket_Node b) - {(k, position s)}"
      then obtain c u where c: "slab_contents (bslab b) c = Some u" "slot_key_node u = Some j" "position u = x"
        unfolding placed_Bucket by blast
      then have "c \<noteq> a" using m s by auto
      then show "(j, x) \<in> placed (Bucket_Node b')"
        using c unfolding placed_Bucket bs by (intro CollectI case_prodI exI [of _ c] exI [of _ u]) simp
    qed
    then show ?thesis by auto
  qed
  ultimately show ?thesis by blast
qed

section \<open>Merging buckets\<close>

lemma pack_step:
  assumes ok: "bucket_inv p r (fst c) \<and> links (snd c) p (Bucket_Node (fst c))" and al: "good_malloc al"
    and slot: "slot_key_node s = Some k" "position_is_in_rect (position s) r"
    and k: "k \<notin> fst ` placed (Bucket_Node (fst c))" "snd c k \<noteq> None"
  shows "\<exists>c'. pack_old_child_node_cb al p c a s = Some (0, c') \<and>
    (bucket_inv p r (fst c') \<and> links (snd c') p (Bucket_Node (fst c'))) \<and>
    placed (Bucket_Node (fst c')) = insert (k, position s) (placed (Bucket_Node (fst c))) \<and>
    same_nodes {k} (snd c) (snd c') \<and> busy_slots (fst c') = busy_slots (fst c) + 1"
proof -
  obtain b h where c: "c = (b, h)" by (cases c)
  have k': "k \<notin> keys (Bucket_Node b)" "h k \<noteq> None" using k by (simp_all add: c keys_def)
  have ok': "bucket_inv p r b" "links h p (Bucket_Node b)" using ok by (simp_all add: c)
  obtain a1 b' h' where put: "add_slot_to_bucket al p s b = Some (Some (p, a1), b')"
    "set_kn_slot (slot_key_node s) (Some (p, a1)) h = Some h'" "bucket_inv p r b'"
    "busy_slots b' = busy_slots b + 1" "links h' p (Bucket_Node b')" "same_nodes {k} h h'"
    "placed (Bucket_Node b') = insert (k, position s) (placed (Bucket_Node b))"
    using bucket_put [OF ok' al slot k'] by blast
  have "pack_old_child_node_cb al p c a s = Some (0, (b', h'))"
    by (simp add: pack_old_child_node_cb_def c put(1,2))
  then show ?thesis using put(3-7) by (simp add: c)
qed

text \<open>The buckets that are merged: they are disjoint, and inside the rectangle of the new bucket.\<close>

definition mergeable :: "rectangle2d \<Rightarrow> node_heap \<Rightarrow> bucket list \<Rightarrow> bool" where
  "mergeable r h bs =
     (sorted_wrt (\<lambda>b c. keys (Bucket_Node b) \<inter> keys (Bucket_Node c) = {}) bs \<and>
      (\<forall>b \<in> set bs. \<exists>q r'. bucket_inv q r' b \<and> links h q (Bucket_Node b) \<and>
         (\<forall>x. position_is_in_rect x r' \<longrightarrow> position_is_in_rect x r)))"

lemma movable_mono:
  assumes "movable r' h0 es" "\<forall>x. position_is_in_rect x r' \<longrightarrow> position_is_in_rect x r"
    "\<forall>k. h k = None \<longleftrightarrow> h0 k = None"
  shows "movable r h es"
proof -
  have "case e of (a, s) \<Rightarrow> position_is_in_rect (position s) r \<and> (\<exists>k. slot_key_node s = Some k \<and> h k \<noteq> None)"
    if "e \<in> set es" for e
    using assms that by (cases e) (fastforce simp: movable_def)
  then show ?thesis using assms(1) unfolding movable_def by blast
qed

lemma pack_buckets_ok:
  assumes al: "good_malloc al"
  shows "mergeable r h0 bs \<Longrightarrow> \<forall>k. h k = None \<longleftrightarrow> h0 k = None \<Longrightarrow> bucket_inv p r new \<Longrightarrow>
    links h p (Bucket_Node new) \<Longrightarrow> (\<forall>b \<in> set bs. keys (Bucket_Node b) \<inter> keys (Bucket_Node new) = {}) \<Longrightarrow>
    \<exists>new' h'. pack_buckets al p bs (new, h) = Some (new', h') \<and> bucket_inv p r new' \<and>
      links h' p (Bucket_Node new') \<and>
      placed (Bucket_Node new') = placed (Bucket_Node new) \<union> (\<Union>b \<in> set bs. placed (Bucket_Node b)) \<and>
      busy_slots new' = busy_slots new + sum_list (map busy_slots bs) \<and>
      same_nodes (\<Union>b \<in> set bs. keys (Bucket_Node b)) h h'"
proof (induction bs arbitrary: new h)
  case (Cons b bs)
  let ?ok = "\<lambda>c. bucket_inv p r (fst c) \<and> links (snd c) p (Bucket_Node (fst c))"
  let ?P = "\<lambda>c :: bucket \<times> node_heap. placed (Bucket_Node (fst c))"
  obtain q r' where b: "bucket_inv q r' b" "links h0 q (Bucket_Node b)"
    "\<forall>x. position_is_in_rect x r' \<longrightarrow> position_is_in_rect x r" and rest: "mergeable r h0 bs"
    "\<forall>c \<in> set bs. keys (Bucket_Node b) \<inter> keys (Bucket_Node c) = {}"
    using Cons.prems(1) by (auto simp: mergeable_def)
  obtain es where es: "movable r' h0 es" "moved es = placed (Bucket_Node b)" "length es = busy_slots b"
    "\<And>cb (ctx :: bucket \<times> node_heap). slab_foreach cb (bslab b) ctx = foreach_entries cb es ctx"
    by (rule bucket_entries [OF b(1,2), where 'c = "bucket \<times> node_heap"]) blast
  have m: "movable r h es" by (rule movable_mono [OF es(1) b(3) Cons.prems(2)])
  have "\<exists>c'. foreach_entries (pack_old_child_node_cb al p) es (new, h) = Some (0, c') \<and>
      ?ok c' \<and> ?P c' = ?P (new, h) \<union> moved es \<and> same_nodes (fst ` moved es) (snd (new, h)) (snd c') \<and>
      busy_slots (fst c') = busy_slots (fst (new, h)) + length es"
  proof (rule foreach_moves [where ok = ?ok and P = ?P and H = snd and N = "\<lambda>c. busy_slots (fst c)" and r = r])
    show "fst ` moved es \<inter> fst ` ?P (new, h) = {}"
      using Cons.prems(5) by (simp add: es(2) keys_def)
  qed (use pack_step [OF _ al] m Cons.prems(3,4) in auto)
  then obtain new1 h1 where w: "slab_foreach (pack_old_child_node_cb al p) (bslab b) (new, h) = Some (0, (new1, h1))"
    "bucket_inv p r new1" "links h1 p (Bucket_Node new1)"
    "placed (Bucket_Node new1) = placed (Bucket_Node new) \<union> placed (Bucket_Node b)"
    "same_nodes (keys (Bucket_Node b)) h h1" "busy_slots new1 = busy_slots new + busy_slots b"
    unfolding es(2-4) keys_def by auto
  have dom: "\<forall>k. h1 k = None \<longleftrightarrow> h0 k = None" using same_nodes_dom [OF w(5)] Cons.prems(2) by blast
  have "keys (Bucket_Node new1) = keys (Bucket_Node new) \<union> keys (Bucket_Node b)"
    unfolding keys_def w(4) by (rule image_Un)
  then have disj: "\<forall>c \<in> set bs. keys (Bucket_Node c) \<inter> keys (Bucket_Node new1) = {}"
    using Cons.prems(5) rest(2) by (auto simp: Int_commute)
  obtain new' h' where i: "pack_buckets al p bs (new1, h1) = Some (new', h')" "bucket_inv p r new'"
      "links h' p (Bucket_Node new')"
      "placed (Bucket_Node new') = placed (Bucket_Node new1) \<union> (\<Union>b \<in> set bs. placed (Bucket_Node b))"
      "busy_slots new' = busy_slots new1 + sum_list (map busy_slots bs)"
      "same_nodes (\<Union>b \<in> set bs. keys (Bucket_Node b)) h1 h'"
    using Cons.IH [OF rest(1) dom w(2,3) disj] by blast
  have "pack_buckets al p (b # bs) (new, h) = Some (new', h')" using w(1) i(1) by simp
  moreover have "same_nodes (\<Union>b \<in> set (b # bs). keys (Bucket_Node b)) h h'"
    using same_nodes_trans [OF w(5) i(6)] by simp
  moreover have "placed (Bucket_Node new') = placed (Bucket_Node new) \<union> (\<Union>b \<in> set (b # bs). placed (Bucket_Node b))"
    unfolding i(4) w(4) by auto
  ultimately show ?case using i(2,3,5) w(6) by (intro exI [of _ new'] exI [of _ h']) simp
qed simp

lemma busy_init: "busy_slots init_bucket = 0"
  by (simp add: init_bucket_def)

lemma free_buckets_ok: "\<forall>b \<in> set bs. \<exists>q r'. bucket_inv q r' b \<Longrightarrow> free_buckets bs = Some ()"
proof (induction bs)
  case (Cons b bs)
  then obtain q r' where "bucket_inv q r' b" by auto
  from free_bucket_ok [OF this] Cons show ?case by simp
qed simp

lemma child_buckets_4:
  assumes "child_buckets nodes 4 = Some bs"
  obtains b0 b1 b2 b3 where "bs = [b3, b2, b1, b0]" "nodes 0 = Bucket_Node b0" "nodes 1 = Bucket_Node b1"
    "nodes 2 = Bucket_Node b2" "nodes 3 = Bucket_Node b3"
proof -
  have "child_buckets nodes (Suc (Suc (Suc (Suc 0)))) = Some bs" using assms by (simp add: eval_nat_numeral)
  then show thesis using that
    by (auto simp: eval_nat_numeral split: node.splits)
qed

lemma children_mergeable:
  assumes inv: "node_inv (Quad_Node sub_slots nodes) p r" and l: "links h p (Quad_Node sub_slots nodes)"
    and r: "rect_ok r" and bs: "child_buckets nodes 4 = Some bs"
  shows "mergeable r h bs \<and> sum_list (map busy_slots bs) = sub_slots \<and>
    (\<Union>b \<in> set bs. placed (Bucket_Node b)) = placed (Quad_Node sub_slots nodes)"
proof -
  obtain b0 b1 b2 b3 where b: "bs = [b3, b2, b1, b0]" "nodes 0 = Bucket_Node b0" "nodes 1 = Bucket_Node b1"
    "nodes 2 = Bucket_Node b2" "nodes 3 = Bucket_Node b3" using child_buckets_4 [OF bs] .
  have child: "\<exists>q r'. bucket_inv q r' c \<and> links h q (Bucket_Node c) \<and>
      (\<forall>x. position_is_in_rect x r' \<longrightarrow> position_is_in_rect x r)" if "nodes t = Bucket_Node c" "t < 4" for t c
  proof -
    have "bucket_inv (p @ [t]) (get_qrects_from_qbounds r ! t) c" using inv that by (metis node_inv.simps)
    moreover have "links h (p @ [t]) (Bucket_Node c)" using l that unfolding links_Quad by metis
    moreover have "position_is_in_rect x r" if "position_is_in_rect x (get_qrects_from_qbounds r ! t)" for x
      by (rule quadrant_inside [OF r \<open>t < 4\<close> that])
    ultimately show ?thesis by blast
  qed
  have disj: "keys (nodes t) \<inter> keys (nodes u) = {}" if "t < 4" "u < 4" "t \<noteq> u" for t u
    using links_disjoint [OF l that] by blast
  have four: "{..<4 :: nat} = {0, 1, 2, 3}" by auto
  have "mergeable r h bs"
    unfolding mergeable_def b(1)
    using child [OF b(2)] child [OF b(3)] child [OF b(4)] child [OF b(5)]
      disj [of 3 2] disj [of 3 1] disj [of 3 0] disj [of 2 1] disj [of 2 0] disj [of 1 0] b(2-5) by simp
  moreover have "sum_list (map busy_slots bs) = sub_slots" using inv b(3) [unfolded One_nat_def] by (simp add: b four)
  moreover have "(\<Union>b \<in> set bs. placed (Bucket_Node b)) = placed (Quad_Node sub_slots nodes)"
    unfolding placed_Quad four using b by auto
  ultimately show ?thesis by blast
qed

text \<open>The parent of a bucket that lost a slot, after its counter would have been brought up to date.\<close>

lemma rebalance_parent_ok:
  assumes inv: "node_inv (Quad_Node sub_slots nodes1) p r" and l: "links h p (Quad_Node sub_slots nodes1)"
    and r: "rect_ok r" and al: "good_malloc al" and t: "nodes1 = nodes(t := Bucket_Node b)"
  shows "\<exists>n' h'. rebalance_parent al True p (sub_slots + 1) nodes t b h = Some (n', h') \<and>
    node_inv n' p r \<and> nslots n' = sub_slots \<and> links h' p n' \<and>
    placed n' = placed (Quad_Node sub_slots nodes1) \<and> same_nodes (keys (Quad_Node sub_slots nodes1)) h h'"
proof -
  let ?q = "Quad_Node sub_slots nodes1"
  let ?keep = "rebalance_parent al True p (sub_slots + 1) nodes t b h = Some (?q, h)"
  have ?thesis if ?keep using inv l same_nodes_refl [of "keys ?q" h] that
    by (intro exI [of _ ?q] exI [of _ h]) simp
  moreover have ?thesis
    if bs: "child_buckets nodes1 4 = Some bs" and m: "p \<noteq> []" "busy_slots b \<le> bucket_size b div 2"
      "sum_list (map busy_slots bs) < bucket_size b div 6 * 5" for bs
  proof -
    note c = children_mergeable [OF inv l r bs]
    have "\<exists>new' h'. pack_buckets al p bs (init_bucket, h) = Some (new', h') \<and> bucket_inv p r new' \<and>
      links h' p (Bucket_Node new') \<and>
      placed (Bucket_Node new') = placed (Bucket_Node init_bucket) \<union> (\<Union>b \<in> set bs. placed (Bucket_Node b)) \<and>
      busy_slots new' = busy_slots init_bucket + sum_list (map busy_slots bs) \<and>
      same_nodes (\<Union>b \<in> set bs. keys (Bucket_Node b)) h h'"
    proof (rule pack_buckets_ok [OF al c [THEN conjunct1]])
      show "links h p (Bucket_Node init_bucket)" by (simp add: links_Bucket init_bucket_def)
    qed (simp_all add: init_bucket_inv keys_def)
    then obtain new' h' where w: "pack_buckets al p bs (init_bucket, h) = Some (new', h')" "bucket_inv p r new'"
      "links h' p (Bucket_Node new')" "placed (Bucket_Node new') = placed ?q" "busy_slots new' = sub_slots"
      "same_nodes (\<Union>b \<in> set bs. keys (Bucket_Node b)) h h'"
      using c busy_init by auto
    have "(\<Union>b \<in> set bs. keys (Bucket_Node b)) = keys ?q"
      using c unfolding keys_def by (metis image_UN)
    then have same: "same_nodes (keys ?q) h h'" using w(6) by simp
    have "free_buckets bs = Some ()"
      using c unfolding mergeable_def by (intro free_buckets_ok) blast
    then have "rebalance_parent al True p (sub_slots + 1) nodes t b h = Some (Bucket_Node new', h')"
      using m c w(1,5) bs by (simp add: rebalance_parent_def Let_def new_bucket_node_def flip: t)
    then show ?thesis using w(2-5) same by (intro exI [of _ "Bucket_Node new'"] exI [of _ h']) simp
  qed
  moreover have ?keep if "child_buckets nodes1 4 = None \<or> p = [] \<or> \<not> busy_slots b \<le> bucket_size b div 2 \<or>
      (\<exists>bs. child_buckets nodes1 4 = Some bs \<and> \<not> sum_list (map busy_slots bs) < bucket_size b div 6 * 5)"
    using that by (auto simp: rebalance_parent_def Let_def simp flip: t)
  ultimately show ?thesis by (cases "child_buckets nodes1 4") blast+
qed

section \<open>The walk down and back\<close>

lemma content_bucket_at:
  "content n q a = Some s \<Longrightarrow> \<exists>b. bucket_at n q = Some b \<and> slab_contents (bslab b) a = Some s"
proof (induction n arbitrary: q)
  case (Bucket_Node b)
  then show ?case by (auto split: if_splits)
next
  case (Quad_Node sub_slots nodes)
  then obtain t q' where "q = t # q'" "t < 4" "content (nodes t) q' a = Some s" unfolding content_Quad by blast
  then show ?case using Quad_Node.IH [of "nodes t" q'] by simp
qed

lemma placed_others:
  assumes l: "links h p (Quad_Node sub_slots nodes)" and t: "t < 4" and k: "k \<in> keys (nodes t)"
  shows "placed (nodes t) - {(k, x)} \<union> (\<Union>u \<in> {..<4} - {t}. placed (nodes u)) =
    placed (Quad_Node sub_slots nodes) - {(k, x)}"
proof -
  have "(k, x) \<notin> placed (nodes u)" if "u < 4" "u \<noteq> t" for u
    using links_disjoint [OF l t that(1) that(2) [symmetric] k] unfolding keys_def by force
  then show ?thesis unfolding placed_Quad_remove [OF t] by blast
qed

lemma content_keys: "content n q a = Some s \<Longrightarrow> slot_key_node s = Some k \<Longrightarrow> k \<in> keys n"
proof -
  assume "content n q a = Some s" "slot_key_node s = Some k"
  then have "(k, position s) \<in> placed n" unfolding mem_placed by blast
  then show "k \<in> keys n" unfolding keys_def by force
qed

lemma keys_removed:
  assumes l: "links h p n" and s: "content n q a = Some s" "slot_key_node s = Some k"
    and n': "placed n' = placed n - {(k, position s)}"
  shows "keys n' = keys n - {k}"
proof -
  have "x = position s" if x: "(k, x) \<in> placed n" for x
  proof -
    obtain q' a' s' where c: "content n q' a' = Some s'" "slot_key_node s' = Some k" "position s' = x"
      using x unfolding mem_placed by blast
    then have "(q', a') = (q, a)" using l s unfolding links_def by (metis option.inject prod.inject same_append_eq)
    then show ?thesis using c s by simp
  qed
  then show ?thesis unfolding keys_def n' by force
qed

lemma remove_slot_below_ok:
  assumes al: "good_malloc al" and k: "slot_key_node s = Some k"
  shows "rect_ok r \<Longrightarrow> node_inv n p r \<Longrightarrow> links h p n \<Longrightarrow> content n q a = Some s \<Longrightarrow> q \<noteq> [] \<Longrightarrow>
    bucket_at n q = Some b \<Longrightarrow> busy_slots b < 64 \<Longrightarrow>
    \<exists>n' h'. remove_slot_below al True a n p q h = Some (n', h') \<and> node_inv n' p r \<and> nslots n' + 1 = nslots n \<and>
      links h' p n' \<and> placed n' = placed n - {(k, position s)} \<and> same_nodes (keys n - {k}) h h'"
proof (induction n arbitrary: p q r)
  case (Bucket_Node b)
  then show ?case by (auto split: if_splits)
next
  case (Quad_Node sub_slots nodes)
  obtain t q' where q: "q = t # q'" "t < 4" "content (nodes t) q' a = Some s"
    using Quad_Node.prems(4) unfolding content_Quad by blast
  have c: "node_inv (nodes t) (p @ [t]) (get_qrects_from_qbounds r ! t)" "links h (p @ [t]) (nodes t)"
    using Quad_Node.prems(2,3) q(2) by (simp_all add: links_Quad)
  have bq: "bucket_at (nodes t) q' = Some b" using Quad_Node.prems(6) q by simp
  have kt: "k \<in> keys (nodes t)" by (rule content_keys [OF q(3) k])
  show ?case
  proof (cases "nodes t")
    case (Bucket_Node b0)
    have q': "q' = []" "b0 = b" using bq Bucket_Node by (simp_all split: if_splits)
    then have b: "nodes t = Bucket_Node b" using Bucket_Node by simp
    have s: "slab_contents (bslab b) a = Some s" using q(3) q' b by simp
    have bc: "bucket_inv (p @ [t]) (get_qrects_from_qbounds r ! t) b" "links h (p @ [t]) (Bucket_Node b)"
      using c unfolding b by simp_all
    obtain b' where b': "remove_slot_from_bucket a b = Some b'" "bucket_inv (p @ [t]) (get_qrects_from_qbounds r ! t) b'"
      "busy_slots b' + 1 = busy_slots b" "links h (p @ [t]) (Bucket_Node b')"
      "placed (Bucket_Node b') = placed (Bucket_Node b) - {(k, position s)}"
      using bucket_take [OF bc s k Quad_Node.prems(7)] by blast
    have "sub_slots \<ge> busy_slots b"
      using Quad_Node.prems(2) q(2) b member_le_sum [of t "{..<4}" "\<lambda>u. nslots (nodes u)"] by simp
    then obtain sub' where sub': "sub_slots = sub' + 1" using b'(3) by (cases sub_slots) auto
    have ni: "node_inv (Bucket_Node b') (p @ [t]) (get_qrects_from_qbounds r ! t)" using b'(2) by simp
    have rest: "\<forall>u < 4. u \<noteq> t \<longrightarrow> (\<forall>k \<in> keys (nodes u). h k = h k)" by simp
    have sub: "sub' + nslots (nodes t) = sub_slots + nslots (Bucket_Node b')" using b'(3) sub' b by simp
    note u = quad_update [OF Quad_Node.prems(2,3) q(2) ni b'(4) rest sub]
    have pl: "placed (Quad_Node sub' (nodes(t := Bucket_Node b'))) = placed (Quad_Node sub_slots nodes) - {(k, position s)}"
      unfolding u(3) b'(5) using placed_others [OF Quad_Node.prems(3) q(2) kt, of "position s"] by (simp only: b)
    have ks: "keys (Quad_Node sub' (nodes(t := Bucket_Node b'))) = keys (Quad_Node sub_slots nodes) - {k}"
      by (rule keys_removed [OF Quad_Node.prems(3,4) k pl])
    have "remove_slot_below al True a (Quad_Node sub_slots nodes) p q h =
        rebalance_parent al True p (sub' + 1) nodes t b' h"
      using q(1,2) q' b b'(1) sub' by simp
    moreover obtain n' h' where r: "rebalance_parent al True p (sub' + 1) nodes t b' h = Some (n', h')"
      "node_inv n' p r" "nslots n' = sub'" "links h' p n'"
      "placed n' = placed (Quad_Node sub_slots nodes) - {(k, position s)}"
      "same_nodes (keys (Quad_Node sub_slots nodes) - {k}) h h'"
      using rebalance_parent_ok [OF u(1,2) Quad_Node.prems(1) al refl, unfolded pl ks] by (elim exE conjE) (rule that)
    moreover have "nslots n' + 1 = nslots (Quad_Node sub_slots nodes)" using r(3) sub' by simp
    ultimately show ?thesis by (intro exI [of _ n'] exI [of _ h'] conjI) simp_all
  next
    case (Quad_Node sub2 nodes2)
    then have q': "q' \<noteq> []" using bq by (cases q') simp_all
    obtain n' h' where i: "remove_slot_below al True a (nodes t) (p @ [t]) q' h = Some (n', h')"
      "node_inv n' (p @ [t]) (get_qrects_from_qbounds r ! t)" "nslots n' + 1 = nslots (nodes t)"
      "links h' (p @ [t]) n'" "placed n' = placed (nodes t) - {(k, position s)}"
      "same_nodes (keys (nodes t) - {k}) h h'"
      using Quad_Node.IH [OF _ qrects_ok [OF Quad_Node.prems(1) q(2)] c q(3) q' bq Quad_Node.prems(7)] by blast
    have "sub_slots \<ge> nslots (nodes t)"
      using Quad_Node.prems(2) q(2) member_le_sum [of t "{..<4}" "\<lambda>u. nslots (nodes u)"] by simp
    then obtain sub' where sub': "sub_slots = sub' + 1" using i(3) by (cases sub_slots) auto
    have rest: "\<forall>u < 4. u \<noteq> t \<longrightarrow> (\<forall>j \<in> keys (nodes u). h' j = h j)"
    proof (intro allI impI ballI)
      fix u j assume u: "u < (4 :: nat)" "u \<noteq> t" "j \<in> keys (nodes u)"
      have "j \<notin> keys (nodes t)" by (rule links_disjoint [OF Quad_Node.prems(3) u(1) q(2) u(2,3)])
      then show "h' j = h j" using i(6) by (simp add: same_nodes_def)
    qed
    have sub: "sub' + nslots (nodes t) = sub_slots + nslots n'" using i(3) sub' by simp
    note u = quad_update [OF Quad_Node.prems(2,3) q(2) i(2,4) rest sub]
    have pl: "placed (Quad_Node sub' (nodes(t := n'))) = placed (Quad_Node sub_slots nodes) - {(k, position s)}"
      unfolding u(3) i(5) by (rule placed_others [OF Quad_Node.prems(3) q(2) kt])
    have "keys (nodes t) - {k} \<subseteq> keys (Quad_Node sub_slots nodes) - {k}" using q(2) by (auto simp: keys_Quad)
    note same = same_nodes_mono [OF i(6) this]
    have "remove_slot_below al True a (Quad_Node sub_slots nodes) p q h =
        Some (Quad_Node sub' (nodes(t := n')), h')"
      using q(1,2) q' i(1) sub' by simp
    then show ?thesis using u(1,2) pl same sub'
      by (intro exI [of _ "Quad_Node sub' (nodes(t := n'))"] exI [of _ h'] conjI) (assumption | simp)+
  qed
qed

lemma content_slot_bucket:
  "node_inv n p r \<Longrightarrow> content n q a = Some s \<Longrightarrow> slot_bucket s = Some (p @ q)"
proof (induction n arbitrary: p q r)
  case (Bucket_Node b)
  then have "q = []" "slab_contents (bslab b) a = Some s" "bucket_inv p r b" by (simp_all split: if_splits)
  then have "slot_bucket s = Some p" unfolding bucket_inv_def by blast
  then show ?case using \<open>q = []\<close> by simp
next
  case (Quad_Node sub_slots nodes)
  then obtain t q' where q: "q = t # q'" "t < 4" "content (nodes t) q' a = Some s" unfolding content_Quad by blast
  have "node_inv (nodes t) (p @ [t]) (get_qrects_from_qbounds r ! t)" using Quad_Node.prems(1) q(2) by simp
  from Quad_Node.IH [OF _ this q(3)] show ?case using q(1) by simp
qed

text \<open>The root stays a quad node: buckets are not merged into it.\<close>

lemma remove_slot_below_quad:
  "remove_slot_below al m a n [] q h = Some (n', h') \<Longrightarrow> \<exists>sub_slots nodes. n' = Quad_Node sub_slots nodes"
  by (cases n) (auto simp: rebalance_parent_def Let_def split: list.splits if_splits node.splits bind_splits)

section \<open>What holds of the sizes of all buckets\<close>

primrec each_bucket :: "(path \<Rightarrow> rectangle2d \<Rightarrow> nat \<Rightarrow> bool) \<Rightarrow> node \<Rightarrow> path \<Rightarrow> rectangle2d \<Rightarrow> bool" where
  "each_bucket P (Bucket_Node b) = (\<lambda>p r. P p r (busy_slots b))"
| "each_bucket P (Quad_Node sub_slots nodes) = (\<lambda>p r.
     \<forall>t < 4. each_bucket P (nodes t) (p @ [t]) (get_qrects_from_qbounds r ! t))"

lemma each_bucket_at: "each_bucket P n p r \<Longrightarrow> bucket_at n q = Some b \<Longrightarrow> \<exists>r'. P (p @ q) r' (busy_slots b)"
proof (induction n arbitrary: p q r)
  case (Quad_Node sub_slots nodes)
  then obtain t q' where q: "q = t # q'" "t < 4" "bucket_at (nodes t) q' = Some b" by (auto split: list.splits if_splits)
  have "each_bucket P (nodes t) (p @ [t]) (get_qrects_from_qbounds r ! t)" using Quad_Node.prems(1) q(2) by simp
  from Quad_Node.IH [OF _ this q(3)] show ?case by (simp add: q(1))
qed (auto split: if_splits)

lemma child_le:
  assumes "node_inv (Quad_Node sub_slots nodes) p r" "t < 4"
  shows "nslots (nodes t) \<le> sub_slots"
  using assms member_le_sum [of t "{..<4}" "\<lambda>u. nslots (nodes u)"] by simp

lemma bucket_at_le: "node_inv n p r \<Longrightarrow> bucket_at n q = Some b \<Longrightarrow> busy_slots b \<le> nslots n"
proof (induction n arbitrary: p q r)
  case (Quad_Node sub_slots nodes)
  then obtain t q' where q: "q = t # q'" "t < 4" "bucket_at (nodes t) q' = Some b" by (auto split: list.splits if_splits)
  have "node_inv (nodes t) (p @ [t]) (get_qrects_from_qbounds r ! t)" using Quad_Node.prems(1) q(2) by simp
  from Quad_Node.IH [OF _ this q(3)] child_le [OF Quad_Node.prems(1) q(2)] show ?case by simp
qed (simp split: if_splits)

lemma remove_slot_from_bucket_busy:
  "remove_slot_from_bucket a b = Some b' \<Longrightarrow> busy_slots b' \<le> busy_slots b \<and> bucket_size b' = bucket_size b"
  by (auto simp: remove_slot_from_bucket_def split: bind_splits)

lemma rebalance_each_bucket:
  assumes "\<forall>t < 4. each_bucket P (nodes t) (p @ [t]) (get_qrects_from_qbounds r ! t)" "nodes t = Bucket_Node b0"
    "busy_slots b \<le> busy_slots b0" "bucket_size b = BUCKET_SIZE"
    "rebalance_parent al m p sub_slots nodes t b h = Some (n', h')"
    and P: "\<And>p r m m'. P p r m \<Longrightarrow> m' \<le> m \<Longrightarrow> P p r m'" "\<And>p r m. p \<noteq> [] \<Longrightarrow> m < 40 \<Longrightarrow> P p r m"
  shows "each_bucket P n' p r"
proof -
  have keep: "\<forall>u < 4. each_bucket P ((nodes(t := Bucket_Node b)) u) (p @ [u]) (get_qrects_from_qbounds r ! u)"
  proof (intro allI impI)
    fix u :: nat assume "u < 4"
    then show "each_bucket P ((nodes(t := Bucket_Node b)) u) (p @ [u]) (get_qrects_from_qbounds r ! u)"
      using assms(1-3) P(1) [of "p @ [t]" "get_qrects_from_qbounds r ! t" "busy_slots b0" "busy_slots b"]
      by (cases "u = t") (auto dest!: spec [of _ t])
  qed
  have "(\<exists>s. n' = Quad_Node s (nodes(t := Bucket_Node b))) \<or> (\<exists>c. n' = Bucket_Node c \<and> busy_slots c < 40 \<and> p \<noteq> [])"
    using assms(4,5) unfolding rebalance_parent_def
    by (auto simp: Let_def BUCKET_SIZE_def split: if_splits option.splits bind_splits)
  then show ?thesis using keep P(2) by auto
qed

lemma remove_each_bucket:
  "node_inv n p r \<Longrightarrow> each_bucket P n p r \<Longrightarrow> remove_slot_below al m a n p q h = Some (n', h') \<Longrightarrow>
   (\<And>p r m m'. P p r m \<Longrightarrow> m' \<le> m \<Longrightarrow> P p r m') \<Longrightarrow> (\<And>p r m. p \<noteq> [] \<Longrightarrow> m < 40 \<Longrightarrow> P p r m) \<Longrightarrow>
   each_bucket P n' p r"
proof (induction n arbitrary: p q r n' h')
  case (Quad_Node sub_slots nodes)
  obtain t q' where q: "q = t # q'" "t < 4" using Quad_Node.prems(3) by (auto split: list.splits if_splits)
  have inv: "node_inv (nodes t) (p @ [t]) (get_qrects_from_qbounds r ! t)" using Quad_Node.prems(1) q(2) by simp
  show ?case
  proof (cases "q' = []")
    case True
    then obtain b b' where b: "nodes t = Bucket_Node b" "remove_slot_from_bucket a b = Some b'"
      "rebalance_parent al m p sub_slots nodes t b' h = Some (n', h')"
      using Quad_Node.prems(3) q by (auto split: node.splits bind_splits)
    have "bucket_size b = BUCKET_SIZE" using inv by (simp add: b(1) bucket_inv_def)
    then show ?thesis
      using rebalance_each_bucket [of P nodes p r t b b', OF _ b(1) _ _ b(3) Quad_Node.prems(4,5)]
        remove_slot_from_bucket_busy [OF b(2)] Quad_Node.prems(2) by simp
  next
    case False
    then obtain c h1 where c: "remove_slot_below al m a (nodes t) (p @ [t]) q' h = Some (c, h1)"
      "n' = Quad_Node (sub_slots - 1) (nodes(t := c))"
      using Quad_Node.prems(3) q by (auto split: bind_splits)
    have "each_bucket P (nodes t) (p @ [t]) (get_qrects_from_qbounds r ! t)" using Quad_Node.prems(2) q(2) by simp
    from Quad_Node.IH [OF _ inv this c(1) Quad_Node.prems(4,5)] show ?thesis using Quad_Node.prems(2) by (simp add: c(2))
  qed
qed simp

end
