(* ===== verification/Expirables.thy ===== *)
theory Expirables
  imports Ordered_Tree Slab
begin

text \<open>
  Expiration times (\<open>expirables.c\<close>): an expirable is an entry of a slab that all layers share,
  with a time and a key node; each layer keeps its expirables in a search tree ordered
  by time, then by the address of the key node. The tree is modelled by the addresses of its
  entries in order; the comparison reads the slab. The purge itself is in the theory Purge.
\<close>

section \<open>State and comparison\<close>

record expirable =
  exp_ts :: int
  exp_key_node :: nat

type_synonym expirable_tree = "slab_entry list"

definition expirable_cmp :: "expirable \<Rightarrow> expirable \<Rightarrow> int" where
  "expirable_cmp e1 e2 =
     (if exp_ts e1 < exp_ts e2 then - 1
      else if exp_ts e1 > exp_ts e2 then 1
      else if exp_key_node e1 < exp_key_node e2 then - 1
      else if exp_key_node e1 > exp_key_node e2 then 1
      else 0)"

interpretation ec: ordering expirable_cmp
  by unfold_locales (auto simp: expirable_cmp_def split: if_splits)

definition exp_at :: "expirable slab \<Rightarrow> slab_entry \<Rightarrow> expirable" where
  "exp_at sl e = (case slab_contents sl e of None \<Rightarrow> \<lparr>exp_ts = 0, exp_key_node = 0\<rparr> | Some x \<Rightarrow> x)"

section \<open>Operations\<close>

definition add_expirable_to_tree :: "expirable slab \<Rightarrow> slab_entry \<Rightarrow> expirable_tree \<Rightarrow> (int \<times> expirable_tree) option" where
  "add_expirable_to_tree sl e tree =
     (case rb_insert (\<lambda>y. expirable_cmp (exp_at sl e) (exp_at sl y)) e tree of
        (prev, tree') \<Rightarrow> do { c_assert (prev = None); Some (0, tree') })"

text \<open>RB_REMOVE of an entry that is not in the tree would corrupt it: a fault.\<close>

definition remove_expirable_from_tree :: "slab_entry \<Rightarrow> expirable_tree \<Rightarrow> (int \<times> expirable_tree) option" where
  "remove_expirable_from_tree e tree = (if e \<in> set tree then Some (0, rb_remove e tree) else None)"

text \<open>Writing to an entry of a slab through its address.\<close>

definition write_entry :: "slab_entry \<Rightarrow> ('a \<Rightarrow> 'a) \<Rightarrow> 'a slab \<Rightarrow> 'a slab option" where
  "write_entry a f sl =
     (case (chunks sl (fst a), slab_contents sl a) of
        (Some ch, Some x) \<Rightarrow> Some (sl\<lparr>chunks := (chunks sl)(fst a \<mapsto> ch\<lparr>slot_data := (slot_data ch)(snd a \<mapsto> f x)\<rparr>)\<rparr>)
      | _ \<Rightarrow> None)"

lemma write_entry_lists:
  assumes l: "slab_lists sl ps fs ds" and a: "slab_contents sl a = Some x"
  shows "\<exists>sl'. write_entry a f sl = Some sl' \<and> slab_lists sl' ps fs ds \<and>
    slab_contents sl' = (slab_contents sl)(a \<mapsto> f x)"
proof -
  obtain c b where cb: "a = (c, b)" by (cases a)
  obtain ch where ch: "chunks sl c = Some ch" "b < 64" "\<not> bit (bitmap ch) b" "slot_data ch b = Some x"
    using a by (auto simp: cb entry_at_def split: option.splits if_splits)
  define ch' where "ch' = ch\<lparr>slot_data := (slot_data ch)(b \<mapsto> f x)\<rparr>"
  define sl' where "sl' = sl\<lparr>chunks := (chunks sl)(c \<mapsto> ch')\<rparr>"
  have cs: "chunks sl' = (chunks sl)(c \<mapsto> ch')" by (simp add: sl'_def)
  have run: "write_entry a f sl = Some sl'"
    using ch(1) a by (simp add: write_entry_def cb sl'_def ch'_def)
  have cont: "slab_contents sl' = (slab_contents sl)(a \<mapsto> f x)"
    using ch by (auto simp: fun_eq_iff cs entry_at_def cb ch'_def)
  have links: "\<forall>d \<in> S. same_links (chunks sl) (chunks sl') d" for S
    using ch(1) by (auto simp: same_links_def cs ch'_def)
  note d = slab_listsD [OF l]
  have bits: "bitmap_at (chunks sl') d = bitmap_at (chunks sl) d" for d
    using ch(1) by (simp add: cs bitmap_at_def ch'_def)
  have "slab_lists sl' ps fs ds"
  proof (rule slab_listsI)
    show "chunk_list (chunks sl') (first_partial_chunk sl') ps"
      using chunk_list_cong [OF links d(1)] by (simp add: sl'_def)
    show "chunk_list (chunks sl') (first_full_chunk sl') fs"
      using chunk_list_cong [OF links d(2)] by (simp add: sl'_def)
    show "\<forall>d \<in> set ds. d \<noteq> [] \<and> chunk_list (chunks sl') (Some (hd d)) d"
      using chunk_list_cong [OF links] d(3) by blast
    show "distinct (ps @ fs @ concat ds)" by (rule d(4))
    show "dom (chunks sl') = set (ps @ fs @ concat ds)" using d(5) ch(1) by (auto simp: cs)
    show "\<forall>c \<in> set fs. bitmap_at (chunks sl') c = 0" using d(6) by (simp add: bits)
    show "\<forall>c \<in> set ps \<union> set (concat ds). bitmap_at (chunks sl') c \<noteq> 0" using d(7) by (simp add: bits)
    show "owned (chunks sl')" using d(8) ch(1) by (auto simp: owned_def cs ch'_def)
  qed
  then show ?thesis using run cont by blast
qed

lemma write_entry_law:
  assumes "slab_inv sl" "slab_contents sl a = Some x"
  shows "\<exists>sl'. write_entry a f sl = Some sl' \<and> slab_inv sl' \<and> slab_contents sl' = (slab_contents sl)(a \<mapsto> f x)"
  using assms(1) write_entry_lists [OF _ assms(2), of _ _ _ f] unfolding slab_inv_def by blast

section \<open>The tree\<close>

text \<open>Sorted by time and node; every entry is in the slab.\<close>

definition exp_tree_inv :: "expirable slab \<Rightarrow> expirable_tree \<Rightarrow> bool" where
  "exp_tree_inv sl tree =
     (ec.sorted (map (exp_at sl) tree) \<and> (\<forall>e \<in> set tree. slab_contents sl e \<noteq> None))"

lemma exp_tree_inv_Nil [simp]: "exp_tree_inv sl []"
  by (simp add: exp_tree_inv_def)

lemma exp_tree_distinct: "exp_tree_inv sl tree \<Longrightarrow> distinct (map (exp_at sl) tree) \<and> distinct tree"
  unfolding exp_tree_inv_def using ec.sorted_distinct distinct_map by blast

lemma exp_tree_frame:
  assumes "exp_tree_inv sl tree" "\<forall>e \<in> set tree. slab_contents sl' e = slab_contents sl e"
  shows "exp_tree_inv sl' tree"
proof -
  have "map (exp_at sl') tree = map (exp_at sl) tree" using assms(2) by (simp add: exp_at_def)
  then show ?thesis using assms unfolding exp_tree_inv_def by metis
qed

lemma add_expirable_ok:
  assumes inv: "exp_tree_inv sl tree" and e: "slab_contents sl e \<noteq> None"
    and new: "exp_key_node (exp_at sl e) \<notin> (\<lambda>y. exp_key_node (exp_at sl y)) ` set tree"
  shows "\<exists>tree'. add_expirable_to_tree sl e tree = Some (0, tree') \<and> exp_tree_inv sl tree' \<and>
    set tree' = insert e (set tree)"
proof -
  have "exp_at sl e \<notin> exp_at sl ` set tree" using new by auto
  then obtain tree' where "rb_insert (\<lambda>y. expirable_cmp (exp_at sl e) (exp_at sl y)) e tree = (None, tree')"
    "set tree' = insert e (set tree)" "ec.sorted (map (exp_at sl) tree')"
    using ec.insert_sorted(2) [of "exp_at sl" tree e] inv unfolding exp_tree_inv_def by auto
  then show ?thesis using inv e by (auto simp: add_expirable_to_tree_def exp_tree_inv_def)
qed

lemma remove_expirable_ok:
  assumes inv: "exp_tree_inv sl tree" and e: "e \<in> set tree"
  shows "\<exists>tree'. remove_expirable_from_tree e tree = Some (0, tree') \<and> exp_tree_inv sl tree' \<and>
    set tree' = set tree - {e}"
proof -
  have s: "ec.sorted (map (exp_at sl) tree)" using inv by (simp add: exp_tree_inv_def)
  note r = ec.remove_sorted [OF s, of e]
  have "exp_tree_inv sl (rb_remove e tree)" using inv r e by (auto simp: exp_tree_inv_def)
  then show ?thesis using r(2) [OF e] e by (simp add: remove_expirable_from_tree_def)
qed

end
