(* ===== verification/Layer_Db.thy ===== *)
theory Layer_Db
  imports Index_Remove Expirables
begin

text \<open>
  The database of one layer (PanDB in \<open>pandb.h\<close>; \<open>init_pan_db\<close>, \<open>add_slot\<close>, \<open>remove_entry_from_key_node\<close> and
  \<open>remove_entry\<close> in \<open>pandb.c\<close>, \<open>free_key_node\<close> in \<open>key_nodes.c\<close>): the root of the geographical index, the tree of
  key nodes with their heap, and the tree of expirables. The slab of the expirables belongs to the
  context and is passed along. The lock of a layer is not modelled: its operations run one at a time.
  The invariant ties the three structures together; the operations keep it, and what a record
  is, its position and the time it expires, is read off the state by position_of and expires_of.
\<close>

section \<open>State\<close>

datatype layer_type =
    LAYER_TYPE_NONE | LAYER_TYPE_FLAT | LAYER_TYPE_FLATWRAP | LAYER_TYPE_SPHERICAL | LAYER_TYPE_ELLIPSOIDAL

datatype accuracy =
    ACCURACY_NONE | ACCURACY_VINCENTY | ACCURACY_HS | ACCURACY_GC | ACCURACY_FAST | ACCURACY_RHOMBOID

record pan_db =
  db_root :: node
  key_nodes :: key_store
  qbounds :: rectangle2d
  latitude_accuracy :: dimension
  longitude_accuracy :: dimension
  db_layer_type :: layer_type
  db_accuracy :: accuracy
  expirables :: expirable_tree

text \<open>The defaults of app_context that init_pan_db copies.\<close>

record db_defaults =
  dimension_accuracy :: dimension
  default_layer_type :: layer_type
  default_accuracy :: accuracy

abbreviation nodes_of :: "pan_db \<Rightarrow> node_heap" where
  "nodes_of db \<equiv> kn_heap (key_nodes db)"

definition with_nodes :: "pan_db \<Rightarrow> node_heap \<Rightarrow> pan_db" where
  "with_nodes db h = db\<lparr>key_nodes := (key_nodes db)\<lparr>kn_heap := h\<rparr>\<rparr>"

section \<open>Operations\<close>

text \<open>The result of init_quad_node is not checked; without memory the first use of the layer faults.\<close>

definition init_pan_db :: "db_defaults \<Rightarrow> bool \<Rightarrow> pan_db option" where
  "init_pan_db cfg node_mem =
     do {
       (sub_slots, nodes) \<leftarrow> new_quad_node node_mem;
       Some \<lparr>db_root = Quad_Node sub_slots nodes, key_nodes = init_key_store,
             qbounds = rect (pos (Fin (- 90)) (Fin (- 180))) (pos (Fin 90) (Fin 180)),
             latitude_accuracy = dimension_accuracy cfg, longitude_accuracy = dimension_accuracy cfg,
             db_layer_type = default_layer_type cfg, db_accuracy = default_accuracy cfg, expirables = []\<rparr>
     }"

definition add_slot :: "slab_malloc \<Rightarrow> bool \<Rightarrow> slot \<Rightarrow> pan_db \<Rightarrow> (int \<times> slot_ptr option \<times> pan_db) option" where
  "add_slot al node_mem slot db =
     do {
       c_assert (slot_key_node slot \<noteq> None);
       (new_slot, root, h) \<leftarrow>
         add_slot_below al node_mem (latitude_accuracy db) (longitude_accuracy db) slot (db_root db) [] (qbounds db)
           (nodes_of db);
       Some (0, new_slot, (with_nodes db h)\<lparr>db_root := root\<rparr>)
     }"

text \<open>free_key_node: the node's key and properties are released, its expirable leaves the tree and the slab.\<close>

definition free_key_node :: "nat \<Rightarrow> expirable slab \<Rightarrow> pan_db \<Rightarrow> (expirable slab \<times> pan_db) option" where
  "free_key_node a exps db =
     do {
       n \<leftarrow> nodes_of db a;
       c_assert (kn_slot n = None);
       (exps', tree) \<leftarrow> (case kn_expirable n of
           None \<Rightarrow> Some (exps, expirables db)
         | Some e \<Rightarrow>
             do {
               (_, tree) \<leftarrow> remove_expirable_from_tree e (expirables db);
               (_, exps') \<leftarrow> remove_entry_from_slab e exps;
               Some (exps', tree)
             });
       Some (exps', (with_nodes db ((nodes_of db)(a := None)))\<lparr>expirables := tree\<rparr>)
     }"

definition remove_node_from_tree :: "nat \<Rightarrow> pan_db \<Rightarrow> pan_db" where
  "remove_node_from_tree a db = db\<lparr>key_nodes := remove_key_node_from_tree a (key_nodes db)\<rparr>"

text \<open>key_node->slot = NULL\<close>

definition clear_slot_of :: "nat \<Rightarrow> pan_db \<Rightarrow> pan_db option" where
  "clear_slot_of a db = map_option (with_nodes db) (set_kn_slot (Some a) None (nodes_of db))"

definition remove_entry_from_key_node ::
  "slab_malloc \<Rightarrow> bool \<Rightarrow> nat \<Rightarrow> bool \<Rightarrow> expirable slab \<Rightarrow> pan_db \<Rightarrow> (int \<times> expirable slab \<times> pan_db) option" where
  "remove_entry_from_key_node al node_mem a should_free_key_node exps db =
     do {
       n \<leftarrow> nodes_of db a;
       (p, e) \<leftarrow> kn_slot n;
       (exps1, db1) \<leftarrow>
         (if should_free_key_node then
            do {
              db1 \<leftarrow> clear_slot_of a (remove_node_from_tree a db);
              free_key_node a exps db1
            }
          else Some (exps, db));
       slot \<leftarrow> content (db_root db1) p e;
       bucket_node \<leftarrow> slot_bucket slot;
       (root, h) \<leftarrow> remove_slot_below al node_mem e (db_root db1) [] bucket_node (nodes_of db1);
       Some (0, exps1, (with_nodes db1 h)\<lparr>db_root := root\<rparr>)
     }"

definition remove_entry ::
  "slab_malloc \<Rightarrow> bool \<Rightarrow> bytes \<Rightarrow> expirable slab \<Rightarrow> pan_db \<Rightarrow> (int \<times> expirable slab \<times> pan_db) option" where
  "remove_entry al node_mem key exps db =
     (case rb_find (\<lambda>y. key_node_cmp key (key_at (key_nodes db) y)) (kn_tree (key_nodes db)) of
        None \<Rightarrow> Some (0, exps, db)
      | Some a \<Rightarrow>
          do {
            (_, exps', db') \<leftarrow> remove_entry_from_key_node al node_mem a True exps db;
            Some (1, exps', db')
          })"

section \<open>Invariant\<close>

definition index_inv :: "node_heap \<Rightarrow> node \<Rightarrow> rectangle2d \<Rightarrow> bool" where
  "index_inv h n qb =
     (rect_ok qb \<and> node_inv n [] qb \<and> links h [] n \<and> (\<exists>sub_slots nodes. n = Quad_Node sub_slots nodes))"

text \<open>The expirables of a layer and its key nodes point to each other.\<close>

definition exp_inv :: "expirable slab \<Rightarrow> node_heap \<Rightarrow> expirable_tree \<Rightarrow> bool" where
  "exp_inv exps h tree =
     (slab_inv exps \<and> exp_tree_inv exps tree \<and>
      (\<forall>e \<in> set tree. \<exists>n. h (exp_key_node (exp_at exps e)) = Some n \<and> kn_expirable n = Some e) \<and>
      (\<forall>a n e. h a = Some n \<longrightarrow> kn_expirable n = Some e \<longrightarrow> e \<in> set tree \<and> exp_key_node (exp_at exps e) = a))"

text \<open>All but the slots.\<close>

definition base_inv :: "expirable slab \<Rightarrow> pan_db \<Rightarrow> bool" where
  "base_inv exps db =
     (store_inv (key_nodes db) \<and> dom (nodes_of db) = set (kn_tree (key_nodes db)) \<and>
      (\<forall>a n m. nodes_of db a = Some n \<longrightarrow> kn_properties n = Some m \<longrightarrow> slip_map_inv m) \<and>
      exp_inv exps (nodes_of db) (expirables db))"

text \<open>The nodes of A are those whose slot may be stale, in the middle of an operation.\<close>

definition slots_ok :: "nat set \<Rightarrow> pan_db \<Rightarrow> bool" where
  "slots_ok A db =
     (index_inv (nodes_of db) (db_root db) (qbounds db) \<and>
      (\<forall>a n. nodes_of db a = Some n \<longrightarrow> a \<notin> A \<longrightarrow> kn_slot n \<noteq> None \<longrightarrow> a \<in> keys (db_root db)))"

definition db_inv :: "expirable slab \<Rightarrow> pan_db \<Rightarrow> bool" where
  "db_inv exps db = (base_inv exps db \<and> slots_ok {} db)"

text \<open>What is known of a record.\<close>

definition position_of :: "pan_db \<Rightarrow> nat \<Rightarrow> position2d option" where
  "position_of db a =
     do {
       n \<leftarrow> nodes_of db a;
       (p, e) \<leftarrow> kn_slot n;
       map_option position (content (db_root db) p e)
     }"

definition expires_of :: "expirable slab \<Rightarrow> pan_db \<Rightarrow> nat \<Rightarrow> int option" where
  "expires_of exps db a =
     do {
       n \<leftarrow> nodes_of db a;
       e \<leftarrow> kn_expirable n;
       map_option exp_ts (slab_contents exps e)
     }"

definition properties_of :: "pan_db \<Rightarrow> nat \<Rightarrow> slip_map option" where
  "properties_of db a = do { n \<leftarrow> nodes_of db a; kn_properties n }"

lemma with_nodes_simps [simp]:
  "nodes_of (with_nodes db h) = h" "db_root (with_nodes db h) = db_root db"
  "kn_tree (key_nodes (with_nodes db h)) = kn_tree (key_nodes db)" "qbounds (with_nodes db h) = qbounds db"
  "expirables (with_nodes db h) = expirables db" "latitude_accuracy (with_nodes db h) = latitude_accuracy db"
  "longitude_accuracy (with_nodes db h) = longitude_accuracy db"
  "db_layer_type (with_nodes db h) = db_layer_type db" "db_accuracy (with_nodes db h) = db_accuracy db"
  by (simp_all add: with_nodes_def)

lemma remove_node_simps [simp]:
  "nodes_of (remove_node_from_tree a db) = nodes_of db" "db_root (remove_node_from_tree a db) = db_root db"
  "qbounds (remove_node_from_tree a db) = qbounds db" "expirables (remove_node_from_tree a db) = expirables db"
  "key_nodes (remove_node_from_tree a db) = remove_key_node_from_tree a (key_nodes db)"
  "kn_heap (remove_key_node_from_tree a s) = kn_heap s"
  by (simp_all add: remove_node_from_tree_def remove_key_node_from_tree_def)

lemma db_invD:
  assumes "db_inv exps db"
  shows "base_inv exps db" "store_inv (key_nodes db)" "dom (nodes_of db) = set (kn_tree (key_nodes db))"
    "index_inv (nodes_of db) (db_root db) (qbounds db)"
    "\<And>a n. nodes_of db a = Some n \<Longrightarrow> kn_slot n \<noteq> None \<Longrightarrow> a \<in> keys (db_root db)"
    "\<And>a n m. nodes_of db a = Some n \<Longrightarrow> kn_properties n = Some m \<Longrightarrow> slip_map_inv m"
    "exp_inv exps (nodes_of db) (expirables db)"
  using assms unfolding db_inv_def base_inv_def slots_ok_def by blast+

lemma init_pan_db_inv:
  assumes "init_pan_db cfg node_mem = Some db" "slab_inv exps"
  shows "db_inv exps db"
proof -
  have db: "db_root db = Quad_Node 0 (\<lambda>_. Bucket_Node init_bucket)" "key_nodes db = init_key_store"
    "qbounds db = world" "expirables db = []"
    using assms(1) by (auto simp: init_pan_db_def new_quad_node_def world_def split: if_splits)
  have e: "nodes_of db = Map.empty" by (simp add: db init_key_store_def)
  have "spread [] world (0, \<lambda>_. Bucket_Node init_bucket, Map.empty)" by (rule spread_new)
  then have "index_inv (nodes_of db) (db_root db) (qbounds db)"
    by (simp add: index_inv_def db(1,3) e spread_def world_ok busy_init init_bucket_inv)
  then show ?thesis
    using assms(2) init_key_store_inv unfolding db_inv_def base_inv_def slots_ok_def e exp_inv_def by (simp add: db init_key_store_def)
qed

text \<open>The positions of the records are those of the index.\<close>

lemma position_of_placed:
  assumes "db_inv exps db"
  shows "position_of db a = Some x \<longleftrightarrow> (a, x) \<in> placed (db_root db)"
proof -
  have l: "links (nodes_of db) [] (db_root db)" using db_invD(4) [OF assms] by (simp add: index_inv_def)
  show ?thesis
  proof
    assume "position_of db a = Some x"
    then obtain n p e s where n: "nodes_of db a = Some n" "kn_slot n = Some (p, e)" "content (db_root db) p e = Some s"
      "position s = x" by (auto simp: position_of_def split: bind_splits)
    then have "a \<in> keys (db_root db)" using db_invD(5) [OF assms] by simp
    from links_keys [OF l this] obtain kn q e' s' where "nodes_of db a = Some kn" "kn_slot kn = Some ([] @ q, e')"
      "content (db_root db) q e' = Some s'" "slot_key_node s' = Some a" by blast
    then have "content (db_root db) p e = Some s'" using n(1,2) by simp
    then have "content (db_root db) p e = Some s \<and> slot_key_node s = Some a \<and> position s = x"
      using n(3,4) \<open>slot_key_node s' = Some a\<close> by simp
    then show "(a, x) \<in> placed (db_root db)" unfolding mem_placed by blast
  next
    assume "(a, x) \<in> placed (db_root db)"
    then obtain q e s where s: "content (db_root db) q e = Some s" "slot_key_node s = Some a" "position s = x"
      unfolding mem_placed by blast
    then obtain n where "nodes_of db a = Some n" "kn_slot n = Some ([] @ q, e)"
      using l unfolding links_def by (metis option.inject)
    then show "position_of db a = Some x" using s by (simp add: position_of_def)
  qed
qed

text \<open>Changing slots only.\<close>

lemma same_nodes_node:
  assumes "same_nodes K h h'" "h' a = Some n'"
  obtains n where "h a = Some n" "kn_key n' = kn_key n" "kn_properties n' = kn_properties n"
    "kn_expirable n' = kn_expirable n"
proof -
  have e: "map_option (\<lambda>n. n\<lparr>kn_slot := None\<rparr>) (h a) = Some (n'\<lparr>kn_slot := None\<rparr>)"
    using assms unfolding same_nodes_def by (metis option.simps(9))
  then obtain n where n: "h a = Some n" "n\<lparr>kn_slot := None\<rparr> = n'\<lparr>kn_slot := None\<rparr>" by auto
  have "kn_key n' = kn_key n \<and> kn_properties n' = kn_properties n \<and> kn_expirable n' = kn_expirable n"
    using n(2) by (cases n; cases n') simp
  then show thesis using that n(1) by blast
qed

lemma same_nodes_sym: "same_nodes K h h' \<Longrightarrow> same_nodes K h' h"
  by (simp add: same_nodes_def)

definition same_db :: "pan_db \<Rightarrow> pan_db \<Rightarrow> bool" where
  "same_db db db' =
     (qbounds db' = qbounds db \<and> latitude_accuracy db' = latitude_accuracy db \<and>
      longitude_accuracy db' = longitude_accuracy db \<and> db_layer_type db' = db_layer_type db \<and>
      db_accuracy db' = db_accuracy db)"

lemma same_db_refl [simp]: "same_db db db"
  by (simp add: same_db_def)

lemma same_db_trans: "same_db db db1 \<Longrightarrow> same_db db1 db2 \<Longrightarrow> same_db db db2"
  by (simp add: same_db_def)

lemma slots_frame:
  assumes inv: "base_inv exps db" and same: "same_nodes K (nodes_of db) h"
    and db': "db' = (with_nodes db h)\<lparr>db_root := rt\<rparr>"
  shows "base_inv exps db'" "expires_of exps db' = expires_of exps db" "properties_of db' = properties_of db"
    "node_of_key (key_nodes db') = node_of_key (key_nodes db)" "same_db db db'"
    "expirables db' = expirables db"
proof -
  have h: "nodes_of db' = h" "kn_tree (key_nodes db') = kn_tree (key_nodes db)" "expirables db' = expirables db"
    by (simp_all add: db' with_nodes_def)
  have fwd: "\<exists>n. nodes_of db a = Some n \<and> kn_key n' = kn_key n \<and> kn_properties n' = kn_properties n \<and>
      kn_expirable n' = kn_expirable n" if "h a = Some n'" for a n'
    using same_nodes_node [OF same that] by metis
  have dom: "h a = None \<longleftrightarrow> nodes_of db a = None" for a by (rule same_nodes_dom [OF same])
  have key: "key_at (key_nodes db') a = key_at (key_nodes db) a" for a
    using fwd [of a] dom [of a] unfolding key_at_def h by (cases "h a") (auto split: option.splits)
  then have ka: "key_at (key_nodes db') = key_at (key_nodes db)" by blast
  have bwd: "\<exists>n'. h a = Some n' \<and> kn_expirable n' = kn_expirable n" if "nodes_of db a = Some n" for a n
    using same_nodes_node [OF same_nodes_sym [OF same] that] by metis
  have "exp_inv exps h (expirables db)"
    using inv fwd bwd unfolding base_inv_def exp_inv_def by metis
  moreover have "dom h = dom (nodes_of db)" unfolding dom_def dom ..
  moreover have "store_inv (key_nodes db')"
    using inv dom unfolding base_inv_def store_inv_def ka h by simp
  ultimately show "base_inv exps db'"
    using inv fwd unfolding base_inv_def h by metis
  show "expires_of exps db' = expires_of exps db"
  proof
    fix a show "expires_of exps db' a = expires_of exps db a"
      using fwd [of a] dom [of a] unfolding expires_of_def h by (cases "h a") auto
  qed
  show "properties_of db' = properties_of db"
  proof
    fix a show "properties_of db' a = properties_of db a"
      using fwd [of a] dom [of a] unfolding properties_of_def h by (cases "h a") auto
  qed
  show "node_of_key (key_nodes db') = node_of_key (key_nodes db)"
    unfolding node_of_key_def ka h by simp
  show "same_db db db'" by (simp add: same_db_def db')
  show "expirables db' = expirables db" by (rule h(3))
qed

lemma no_slot_no_key:
  assumes "index_inv h n qb" "h a = Some kn" "kn_slot kn = None"
  shows "a \<notin> keys n"
  using links_keys [of h "[]" n a] assms unfolding index_inv_def by auto

lemma db_inv_positions:
  assumes "db_inv exps db" "db_inv exps' db'" "placed (db_root db') = insert (a, x) (placed (db_root db))"
    "a \<notin> keys (db_root db)"
  shows "position_of db' = (position_of db)(a \<mapsto> x)"
proof
  fix b
  have "position_of db' b = Some y \<longleftrightarrow> ((position_of db)(a \<mapsto> x)) b = Some y" for y
    unfolding position_of_placed [OF assms(2)] assms(3)
    using position_of_placed [OF assms(1), of b y] assms(4) unfolding keys_def by force
  then show "position_of db' b = ((position_of db)(a \<mapsto> x)) b" by (metis option.exhaust)
qed

lemma add_slot_law:
  assumes inv: "db_inv exps db" and al: "good_malloc al" and n: "nodes_of db a = Some n" "kn_slot n = None"
    and slot: "slot_key_node slot = Some a" "position_is_in_rect (position slot) (qbounds db)"
  shows "\<exists>ptr db'. add_slot al True slot db = Some (0, Some ptr, db') \<and> db_inv exps db' \<and>
    position_of db' = (position_of db)(a \<mapsto> position slot) \<and>
    expires_of exps db' = expires_of exps db \<and> properties_of db' = properties_of db \<and>
    node_of_key (key_nodes db') = node_of_key (key_nodes db) \<and> same_db db db' \<and>
    expirables db' = expirables db \<and> map_option kn_slot (nodes_of db' a) = Some (Some ptr)"
proof -
  note i = db_invD(4) [OF inv]
  have ix: "rect_ok (qbounds db)" "node_inv (db_root db) [] (qbounds db)" "links (nodes_of db) [] (db_root db)"
    using i by (simp_all add: index_inv_def)
  have new: "a \<notin> keys (db_root db)" by (rule no_slot_no_key [OF i n])
  have na: "nodes_of db a \<noteq> None" using n(1) by simp
  obtain q e rt h where add: "add_slot_below al True (latitude_accuracy db) (longitude_accuracy db) slot (db_root db) []
      (qbounds db) (nodes_of db) = Some (Some ([] @ q, e), rt, h)" "node_inv rt [] (qbounds db)"
    "links h [] rt" "placed rt = insert (a, position slot) (placed (db_root db))"
    "same_nodes (insert a (keys (db_root db))) (nodes_of db) h" "map_option kn_slot (h a) = Some (Some ([] @ q, e))"
    using add_slot_below_ok [where la = "latitude_accuracy db" and lo = "longitude_accuracy db",
        OF al slot(1) na ix slot(2) new] by blast
  have quad: "\<exists>sub_slots nodes. rt = Quad_Node sub_slots nodes"
    using i add(1) unfolding index_inv_def by (auto split: bind_splits)
  define db' where "db' = (with_nodes db h)\<lparr>db_root := rt\<rparr>"
  have nd: "nodes_of db' = h" "db_root db' = rt" "qbounds db' = qbounds db"
    by (simp_all add: db'_def with_nodes_def)
  have run: "add_slot al True slot db = Some (0, Some (q, e), db')"
    using slot(1) add(1) by (simp add: add_slot_def db'_def)
  note fr = slots_frame [OF db_invD(1) [OF inv] add(5) db'_def]
  have keys: "keys rt = insert a (keys (db_root db))" unfolding keys_def add(4) by simp
  have "index_inv h rt (qbounds db)" using ix(1) add(2,3) quad by (simp add: index_inv_def)
  moreover have "b \<in> keys rt" if "h b = Some m" "kn_slot m \<noteq> None" for b m
  proof (rule ccontr)
    assume b: "b \<notin> keys rt"
    then have "nodes_of db b = Some m" using add(5) that(1) unfolding same_nodes_def keys by simp
    then show False using db_invD(5) [OF inv] that(2) b keys by blast
  qed
  ultimately have inv': "db_inv exps db'"
    using fr(1) unfolding db_inv_def slots_ok_def nd by blast
  have "position_of db' = (position_of db)(a \<mapsto> position slot)"
    by (rule db_inv_positions [OF inv inv' _ new]) (simp add: nd add(4))
  moreover have "map_option kn_slot (nodes_of db' a) = Some (Some (q, e))" using add(6) by (simp add: nd)
  ultimately show ?thesis using run inv' fr(2-6) by blast
qed

section \<open>Removing\<close>

text \<open>The bucket that a record's slot is in is small enough for its slab to keep every chunk in a list.\<close>

definition small_bucket :: "pan_db \<Rightarrow> nat \<Rightarrow> bool" where
  "small_bucket db a =
     (case do { n \<leftarrow> nodes_of db a; (p, e) \<leftarrow> kn_slot n; bucket_at (db_root db) p } of
        None \<Rightarrow> True
      | Some b \<Rightarrow> busy_slots b < 64)"

definition small_buckets :: "pan_db \<Rightarrow> bool" where
  "small_buckets db = each_bucket (\<lambda>_ _ m. m < 64) (db_root db) [] (qbounds db)"

lemma small_bucketsD:
  assumes "small_buckets db"
  shows "small_bucket db a"
proof -
  have "busy_slots b < 64" if "bucket_at (db_root db) p = Some b" for p b
    using each_bucket_at [OF _ that] assms by (auto simp: small_buckets_def)
  then show ?thesis by (auto simp: small_bucket_def split: option.splits bind_splits)
qed

lemma index_slot:
  assumes "index_inv h n qb" "a \<in> keys n"
  obtains kn q e s b where "h a = Some kn" "kn_slot kn = Some (q, e)" "content n q e = Some s"
    "slot_key_node s = Some a" "slot_bucket s = Some q" "bucket_at n q = Some b" "q \<noteq> []"
proof -
  obtain kn q e s where k: "h a = Some kn" "kn_slot kn = Some ([] @ q, e)" "content n q e = Some s" "slot_key_node s = Some a"
    using links_keys [of h "[]" n a] assms unfolding index_inv_def by blast
  obtain b where b: "bucket_at n q = Some b" "slab_contents (bslab b) e = Some s"
    using content_bucket_at [OF k(3)] by blast
  have "slot_bucket s = Some ([] @ q)"
  proof (rule content_slot_bucket)
    show "node_inv n [] qb" using assms(1) by (simp add: index_inv_def)
  qed (rule k(3))
  moreover have "q \<noteq> []" using b(1) assms(1) by (auto simp: index_inv_def)
  ultimately show thesis using that k b(1) by simp
qed

lemma remove_slot_law:
  assumes inv: "db_inv exps db" and al: "good_malloc al" and n: "nodes_of db a = Some n" "kn_slot n \<noteq> None"
    and small: "small_bucket db a"
  shows "\<exists>db'. remove_entry_from_key_node al True a False exps db = Some (0, exps, db') \<and> base_inv exps db' \<and>
    slots_ok {a} db' \<and> a \<notin> keys (db_root db') \<and> nodes_of db' a = Some n \<and>
    placed (db_root db') = {(b, x) \<in> placed (db_root db). b \<noteq> a} \<and>
    expires_of exps db' = expires_of exps db \<and> properties_of db' = properties_of db \<and>
    node_of_key (key_nodes db') = node_of_key (key_nodes db) \<and> same_db db db' \<and>
    expirables db' = expirables db \<and> (small_buckets db \<longrightarrow> small_buckets db')"
proof -
  note i = db_invD(4) [OF inv]
  have ix: "rect_ok (qbounds db)" "node_inv (db_root db) [] (qbounds db)" "links (nodes_of db) [] (db_root db)"
    using i by (simp_all add: index_inv_def)
  have a: "a \<in> keys (db_root db)" using db_invD(5) [OF inv n] .
  obtain q e s b where k: "kn_slot n = Some (q, e)" "content (db_root db) q e = Some s" "slot_key_node s = Some a"
    "slot_bucket s = Some q" "bucket_at (db_root db) q = Some b" "q \<noteq> []"
    using index_slot [OF i a] n(1) by (metis option.inject)
  have few: "busy_slots b < 64" using small n(1) k(1,5) by (simp add: small_bucket_def)
  obtain rt h where r: "remove_slot_below al True e (db_root db) [] q (nodes_of db) = Some (rt, h)"
    "node_inv rt [] (qbounds db)" "links h [] rt" "placed rt = placed (db_root db) - {(a, position s)}"
    "same_nodes (keys (db_root db) - {a}) (nodes_of db) h"
    using remove_slot_below_ok [OF al k(3) ix k(2,6,5) few] by blast
  define db' where "db' = (with_nodes db h)\<lparr>db_root := rt\<rparr>"
  have nd: "nodes_of db' = h" "db_root db' = rt" "qbounds db' = qbounds db"
    by (simp_all add: db'_def with_nodes_def)
  have run: "remove_entry_from_key_node al True a False exps db = Some (0, exps, db')"
    using n(1) k(1,2,4) r(1) by (simp add: remove_entry_from_key_node_def db'_def)
  note fr = slots_frame [OF db_invD(1) [OF inv] r(5) db'_def]
  have keys: "keys rt = keys (db_root db) - {a}" by (rule keys_removed [OF ix(3) k(2,3) r(4)])
  have quad: "\<exists>sub_slots nodes. rt = Quad_Node sub_slots nodes"
    by (rule remove_slot_below_quad [OF r(1)])
  have "index_inv h rt (qbounds db)" using ix(1) r(2,3) quad by (simp add: index_inv_def)
  moreover have "c \<in> keys rt" if "h c = Some m" "c \<notin> {a}" "kn_slot m \<noteq> None" for c m
  proof (rule ccontr)
    assume c: "c \<notin> keys rt"
    then have "nodes_of db c = Some m" using r(5) that(1,2) unfolding same_nodes_def keys by simp
    then show False using db_invD(5) [OF inv] that(2,3) c keys by blast
  qed
  ultimately have "slots_ok {a} db'" unfolding slots_ok_def nd by blast
  moreover have "nodes_of db' a = Some n" using r(5) n(1) by (simp add: nd same_nodes_def)
  moreover have "placed rt = {(b, x) \<in> placed (db_root db). b \<noteq> a}"
  proof -
    have "(c, x) \<in> placed rt \<longleftrightarrow> (c, x) \<in> placed (db_root db) \<and> c \<noteq> a" for c x
    proof -
      have "(c, x) \<in> placed rt \<Longrightarrow> c \<in> keys rt" by (force simp: keys_def)
      then show ?thesis using keys r(4) by blast
    qed
    then show ?thesis by auto
  qed
  moreover have "small_buckets db'" if "small_buckets db"
    unfolding small_buckets_def nd
    by (rule remove_each_bucket [OF ix(2) that [unfolded small_buckets_def] r(1)]) simp_all
  ultimately show ?thesis using run fr keys unfolding nd(2) [symmetric] by blast
qed

lemma clear_slot_law:
  assumes b: "base_inv exps db" and s: "slots_ok {a} db" and n: "nodes_of db a = Some n" and a: "a \<notin> keys (db_root db)"
  shows "\<exists>db'. clear_slot_of a db = Some db' \<and> db_inv exps db' \<and> nodes_of db' = (nodes_of db)(a \<mapsto> n\<lparr>kn_slot := None\<rparr>) \<and>
    db_root db' = db_root db \<and> expires_of exps db' = expires_of exps db \<and> properties_of db' = properties_of db \<and>
    node_of_key (key_nodes db') = node_of_key (key_nodes db) \<and> same_db db db' \<and>
    expirables db' = expirables db \<and> (small_buckets db \<longrightarrow> small_buckets db')"
proof -
  define h where "h = (nodes_of db)(a \<mapsto> n\<lparr>kn_slot := None\<rparr>)"
  define db' where "db' = with_nodes db h"
  have run: "clear_slot_of a db = Some db'" using n by (simp add: clear_slot_of_def set_kn_slot_def db'_def h_def)
  have same: "same_nodes {a} (nodes_of db) h" using set_kn_slot_law(2) [of "nodes_of db" a n None, OF n] by (simp add: h_def)
  have "db' = (with_nodes db h)\<lparr>db_root := db_root db\<rparr>" by (simp add: db'_def with_nodes_def)
  note fr = slots_frame [OF b same this]
  have nd: "nodes_of db' = h" "db_root db' = db_root db" "qbounds db' = qbounds db" by (simp_all add: db'_def)
  have "links h [] (db_root db)"
    by (rule links_frame [of "nodes_of db"]) (use s a in \<open>auto simp: slots_ok_def index_inv_def h_def\<close>)
  then have "index_inv h (db_root db) (qbounds db)" using s by (auto simp: slots_ok_def index_inv_def)
  then have "slots_ok {} db'" using s unfolding slots_ok_def nd by (auto simp: h_def split: if_splits)
  then have "db_inv exps db'" using fr(1) by (simp add: db_inv_def)
  moreover have "small_buckets db'" if "small_buckets db" using that by (simp add: small_buckets_def nd)
  ultimately show ?thesis using run fr(2-6) nd(1,2) unfolding h_def by blast
qed

text \<open>Taking the slot of a record out of the index and clearing the pointer to it, as every caller does.\<close>

lemma remove_and_clear_law:
  assumes inv: "db_inv exps db" and al: "good_malloc al" and n: "nodes_of db a = Some n" "kn_slot n \<noteq> None"
    and small: "small_bucket db a"
  shows "\<exists>db1 db'. remove_entry_from_key_node al True a False exps db = Some (0, exps, db1) \<and>
    nodes_of db1 a = Some n \<and> clear_slot_of a db1 = Some db' \<and> db_inv exps db' \<and>
    nodes_of db' a = Some (n\<lparr>kn_slot := None\<rparr>) \<and> position_of db' = (position_of db)(a := None) \<and>
    expires_of exps db' = expires_of exps db \<and> properties_of db' = properties_of db \<and>
    node_of_key (key_nodes db') = node_of_key (key_nodes db) \<and> same_db db db' \<and>
    expirables db' = expirables db \<and> (small_buckets db \<longrightarrow> small_buckets db')"
proof -
  obtain db1 where r: "remove_entry_from_key_node al True a False exps db = Some (0, exps, db1)" "base_inv exps db1"
    "slots_ok {a} db1" "a \<notin> keys (db_root db1)" "nodes_of db1 a = Some n"
    "placed (db_root db1) = {(b, x) \<in> placed (db_root db). b \<noteq> a}" "expires_of exps db1 = expires_of exps db"
    "properties_of db1 = properties_of db" "node_of_key (key_nodes db1) = node_of_key (key_nodes db)" "same_db db db1"
    "small_buckets db \<longrightarrow> small_buckets db1" "expirables db1 = expirables db"
    using remove_slot_law [OF assms] by blast
  obtain db' where c: "clear_slot_of a db1 = Some db'" "db_inv exps db'"
    "nodes_of db' = (nodes_of db1)(a \<mapsto> n\<lparr>kn_slot := None\<rparr>)"
    "db_root db' = db_root db1" "expires_of exps db' = expires_of exps db1" "properties_of db' = properties_of db1"
    "node_of_key (key_nodes db') = node_of_key (key_nodes db1)" "same_db db1 db'"
    "small_buckets db1 \<longrightarrow> small_buckets db'" "expirables db' = expirables db1"
    using clear_slot_law [OF r(2,3,5,4)] by blast
  have "position_of db' b = Some x \<longleftrightarrow> ((position_of db)(a := None)) b = Some x" for b x
    unfolding position_of_placed [OF c(2)] c(4) r(6) using position_of_placed [OF inv, of b x] by auto
  then have "position_of db' = (position_of db)(a := None)" by (intro ext) (metis option.exhaust)
  moreover have "nodes_of db' a = Some (n\<lparr>kn_slot := None\<rparr>)" using c(3) by simp
  ultimately show ?thesis using r(1,5,7-9,11,12) c(1,2,5-7,9,10) same_db_trans [OF r(10) c(8)] by metis
qed

section \<open>Freeing a key node\<close>

lemma store_forget:
  assumes "store_inv s" "a \<notin> set (kn_tree s)"
  shows "store_inv (s\<lparr>kn_heap := (kn_heap s)(a := None)\<rparr>)"
    "node_of_key (s\<lparr>kn_heap := (kn_heap s)(a := None)\<rparr>) = node_of_key s"
proof -
  let ?s = "s\<lparr>kn_heap := (kn_heap s)(a := None)\<rparr>"
  have k: "key_at ?s b = key_at s b" if "b \<in> set (kn_tree s)" for b
    using that assms(2) by (auto simp: key_at_def)
  then have m: "map (key_at ?s) (kn_tree s) = map (key_at s) (kn_tree s)" by simp
  have t: "kn_tree ?s = kn_tree s" by simp
  show "store_inv ?s" using assms unfolding store_inv_def t m by auto
  show "node_of_key ?s = node_of_key s"
  proof
    fix key
    have "List.find (\<lambda>b. key_at ?s b = key) (kn_tree s) = List.find (\<lambda>b. key_at s b = key) (kn_tree s)"
      using k by (intro find_cong) auto
    then show "node_of_key ?s key = node_of_key s key" unfolding node_of_key_def by simp
  qed
qed

lemma exp_inv_forget:
  assumes x: "exp_inv exps h tree" and n: "h a = Some n"
    and exps': "slab_inv exps'" and tree': "exp_tree_inv exps tree'" "set tree' = set tree - set_option (kn_expirable n)"
    and same: "\<forall>e. kn_expirable n \<noteq> Some e \<longrightarrow> slab_contents exps' e = slab_contents exps e"
  shows "exp_inv exps' (h(a := None)) tree'"
proof -
  have at: "exp_at exps' e = exp_at exps e" if "e \<in> set tree'" for e
  proof -
    have "kn_expirable n \<noteq> Some e" using that tree'(2) by auto
    then have "slab_contents exps' e = slab_contents exps e" using same by blast
    then show ?thesis by (simp add: exp_at_def)
  qed
  have "\<forall>e \<in> set tree'. slab_contents exps' e = slab_contents exps e"
  proof
    fix e assume "e \<in> set tree'"
    then have "kn_expirable n \<noteq> Some e" using tree'(2) by auto
    then show "slab_contents exps' e = slab_contents exps e" using same by blast
  qed
  from exp_tree_frame [OF tree'(1) this] have "exp_tree_inv exps' tree'" .
  moreover have "\<exists>m. (h(a := None)) (exp_key_node (exp_at exps' e)) = Some m \<and> kn_expirable m = Some e"
    if e: "e \<in> set tree'" for e
  proof -
    obtain m where m: "h (exp_key_node (exp_at exps e)) = Some m" "kn_expirable m = Some e"
      using x e tree'(2) unfolding exp_inv_def by blast
    then have "exp_key_node (exp_at exps e) \<noteq> a" using n e tree'(2) by auto
    then show ?thesis using m at [OF e] by simp
  qed
  moreover have "e \<in> set tree' \<and> exp_key_node (exp_at exps' e) = b"
    if m: "(h(a := None)) b = Some m" "kn_expirable m = Some e" for b m e
  proof -
    have b: "b \<noteq> a" "h b = Some m" using m(1) by (auto split: if_splits)
    then have e: "e \<in> set tree" "exp_key_node (exp_at exps e) = b" using x m(2) unfolding exp_inv_def by blast+
    have "kn_expirable n \<noteq> Some e" using x n e(2) b(1) unfolding exp_inv_def by blast
    then have "e \<in> set tree'" using e(1) tree'(2) by auto
    then show ?thesis using at e(2) by simp
  qed
  ultimately show ?thesis using exps' unfolding exp_inv_def by blast
qed

lemma free_key_node_base:
  assumes inv: "base_inv exps db" and n: "nodes_of db a = Some n" "kn_slot n = None"
  shows "\<exists>exps' db'. free_key_node a exps (remove_node_from_tree a db) = Some (exps', db') \<and> base_inv exps' db' \<and>
    nodes_of db' = (nodes_of db)(a := None) \<and> db_root db' = db_root db \<and>
    kn_tree (key_nodes db') = rb_remove a (kn_tree (key_nodes db)) \<and>
    expires_of exps' db' = (expires_of exps db)(a := None) \<and> properties_of db' = (properties_of db)(a := None) \<and>
    node_of_key (key_nodes db') = (node_of_key (key_nodes db))(kn_key n := None) \<and> same_db db db' \<and>
    slab_inv exps' \<and> (\<forall>e. slab_contents exps' e = (if kn_expirable n = Some e then None else slab_contents exps e)) \<and>
    set (expirables db') = set (expirables db) - set_option (kn_expirable n) \<and>
    expirables db' = (case kn_expirable n of None \<Rightarrow> expirables db | Some e \<Rightarrow> rb_remove e (expirables db))"
proof -
  have x: "exp_inv exps (nodes_of db) (expirables db)" and st: "store_inv (key_nodes db)"
    and dm: "dom (nodes_of db) = set (kn_tree (key_nodes db))"
    using inv by (simp_all add: base_inv_def)
  obtain exps' tree where r: "(case kn_expirable n of
           None \<Rightarrow> Some (exps, expirables db)
         | Some e \<Rightarrow>
             do {
               (_, tree) \<leftarrow> remove_expirable_from_tree e (expirables db);
               (_, exps') \<leftarrow> remove_entry_from_slab e exps;
               Some (exps', tree)
             }) = Some (exps', tree)" "slab_inv exps'" "exp_tree_inv exps tree"
      "set tree = set (expirables db) - set_option (kn_expirable n)"
      "\<forall>e. slab_contents exps' e = (if kn_expirable n = Some e then None else slab_contents exps e)"
      "tree = (case kn_expirable n of None \<Rightarrow> expirables db | Some e \<Rightarrow> rb_remove e (expirables db))"
  proof (cases "kn_expirable n")
    case None
    then show ?thesis using x that [of exps "expirables db"] by (simp add: exp_inv_def)
  next
    case (Some e)
    then have e: "e \<in> set (expirables db)" using x n(1) unfolding exp_inv_def by blast
    obtain tree where t: "remove_expirable_from_tree e (expirables db) = Some (0, tree)" "exp_tree_inv exps tree"
      "set tree = set (expirables db) - {e}" using remove_expirable_ok [OF _ e] x unfolding exp_inv_def by blast
    obtain exps' where "remove_entry_from_slab e exps = Some (0, exps')" "slab_inv exps'"
      "slab_contents exps' = (slab_contents exps)(e := None)"
      using remove_entry_law [of exps e] x e unfolding exp_inv_def exp_tree_inv_def by blast
    moreover have "tree = rb_remove e (expirables db)" using t(1) e by (simp add: remove_expirable_from_tree_def)
    ultimately show ?thesis using Some t that [of exps' tree] by simp
  qed
  define db' where "db' = (with_nodes (remove_node_from_tree a db) ((nodes_of db)(a := None)))\<lparr>expirables := tree\<rparr>"
  have run: "free_key_node a exps (remove_node_from_tree a db) = Some (exps', db')"
    using n r(1) by (simp add: free_key_node_def db'_def cong: option.case_cong)
  have nd: "nodes_of db' = (nodes_of db)(a := None)" "db_root db' = db_root db" "qbounds db' = qbounds db" "expirables db' = tree"
    by (simp_all add: db'_def with_nodes_def remove_node_from_tree_def)
  have at: "a \<in> set (kn_tree (key_nodes db))" using dm n(1) by blast
  note rn = remove_node [OF st at]
  have kns: "key_nodes db' = (remove_key_node_from_tree a (key_nodes db))\<lparr>kn_heap := (nodes_of db)(a := None)\<rparr>"
    by (simp add: db'_def with_nodes_def)
  have "a \<notin> set (kn_tree (remove_key_node_from_tree a (key_nodes db)))" using rn(3) by simp
  note sf = store_forget [OF rn(1) this]
  have kns': "key_nodes db' = (remove_key_node_from_tree a (key_nodes db))
      \<lparr>kn_heap := (kn_heap (remove_key_node_from_tree a (key_nodes db)))(a := None)\<rparr>"
    unfolding kns by (simp add: remove_key_node_from_tree_def)
  have dom: "dom (nodes_of db') = set (kn_tree (key_nodes db'))"
    using dm rn(3) unfolding nd kns by auto
  have ex: "exp_inv exps' (nodes_of db') (expirables db')"
    unfolding nd by (rule exp_inv_forget [OF x n(1) r(2-4)]) (use r(5) in \<open>simp del: split_paired_All\<close>)
  have "base_inv exps' db'"
    using sf(1) dom ex inv unfolding base_inv_def kns' [symmetric] by (auto simp: nd split: if_splits)
  moreover have "expires_of exps' db' b = ((expires_of exps db)(a := None)) b" for b
  proof (cases "b = a")
    case False
    have "slab_contents exps' e = slab_contents exps e" if "nodes_of db b = Some m" "kn_expirable m = Some e" for m e
    proof -
      have "exp_key_node (exp_at exps e) = b" using x that unfolding exp_inv_def by blast
      then have "kn_expirable n \<noteq> Some e" using x n(1) False unfolding exp_inv_def by blast
      then show ?thesis using spec [OF r(5), of e] by simp
    qed
    then show ?thesis using False
      by (cases "nodes_of db b") (auto simp: expires_of_def nd split: bind_splits option.splits)
  qed (simp add: expires_of_def nd)
  moreover have "properties_of db' = (properties_of db)(a := None)"
    by (auto simp: fun_eq_iff properties_of_def nd)
  moreover have "node_of_key (key_nodes db') = (node_of_key (key_nodes db))(kn_key n := None)"
    using rn(2) n(1) unfolding kns' sf(2) by (auto simp: fun_eq_iff key_at_def)
  moreover have "same_db db db'" by (simp add: same_db_def db'_def with_nodes_def remove_node_from_tree_def)
  moreover have "kn_tree (key_nodes db') = rb_remove a (kn_tree (key_nodes db))"
    by (simp add: kns remove_key_node_from_tree_def)
  ultimately show ?thesis using run nd r(2,4,5,6) by (intro exI [of _ exps'] exI [of _ db'] conjI) (auto simp: fun_eq_iff)
qed

lemma free_key_node_law:
  assumes inv: "db_inv exps db" and n: "nodes_of db a = Some n" "kn_slot n = None"
  shows "\<exists>exps' db'. free_key_node a exps (remove_node_from_tree a db) = Some (exps', db') \<and> db_inv exps' db' \<and>
    nodes_of db' = (nodes_of db)(a := None) \<and> db_root db' = db_root db \<and> position_of db' = position_of db \<and>
    expires_of exps' db' = (expires_of exps db)(a := None) \<and> properties_of db' = (properties_of db)(a := None) \<and>
    node_of_key (key_nodes db') = (node_of_key (key_nodes db))(kn_key n := None) \<and> same_db db db' \<and>
    slab_inv exps' \<and> (\<forall>e. slab_contents exps' e = (if kn_expirable n = Some e then None else slab_contents exps e)) \<and>
    set (expirables db') = set (expirables db) - set_option (kn_expirable n) \<and>
    expirables db' = (case kn_expirable n of None \<Rightarrow> expirables db | Some e \<Rightarrow> rb_remove e (expirables db))"
proof -
  obtain exps' db' where f: "free_key_node a exps (remove_node_from_tree a db) = Some (exps', db')" "base_inv exps' db'"
    "nodes_of db' = (nodes_of db)(a := None)" "db_root db' = db_root db" "expires_of exps' db' = (expires_of exps db)(a := None)"
    "properties_of db' = (properties_of db)(a := None)"
    "node_of_key (key_nodes db') = (node_of_key (key_nodes db))(kn_key n := None)" "same_db db db'"
    "slab_inv exps'" "\<forall>e. slab_contents exps' e = (if kn_expirable n = Some e then None else slab_contents exps e)"
    "set (expirables db') = set (expirables db) - set_option (kn_expirable n)"
    "expirables db' = (case kn_expirable n of None \<Rightarrow> expirables db | Some e \<Rightarrow> rb_remove e (expirables db))"
    using free_key_node_base [OF db_invD(1) [OF inv] n] by blast
  have q: "qbounds db' = qbounds db" using f(8) by (simp add: same_db_def)
  have "links (nodes_of db') [] (db_root db)"
    by (rule links_frame [of "nodes_of db"])
      (use db_invD(4) [OF inv] no_slot_no_key [OF db_invD(4) [OF inv] n] in \<open>auto simp: index_inv_def f(3)\<close>)
  then have "slots_ok {} db'"
    using db_invD(4,5) [OF inv] unfolding slots_ok_def f(3,4) q index_inv_def by (auto split: if_splits)
  then have inv': "db_inv exps' db'" using f(2) by (simp add: db_inv_def)
  have "position_of db' b = Some y \<longleftrightarrow> position_of db b = Some y" for b y
    unfolding position_of_placed [OF inv'] position_of_placed [OF inv] f(4) ..
  then have p: "position_of db' = position_of db" by (intro ext) (metis option.exhaust)
  show ?thesis using f(1,3-12) inv' p by blast
qed

text \<open>What another layer, with its own expirables, sees of a change to the slab.\<close>

lemma db_inv_frame:
  assumes "db_inv exps db" "slab_inv exps'" "\<forall>e \<in> set (expirables db). slab_contents exps' e = slab_contents exps e"
  shows "db_inv exps' db" "expires_of exps' db = expires_of exps db"
proof -
  have x: "exp_inv exps (nodes_of db) (expirables db)" by (rule db_invD(7) [OF assms(1)])
  have at: "\<forall>e \<in> set (expirables db). exp_at exps' e = exp_at exps e" using assms(3) by (simp add: exp_at_def)
  have "exp_tree_inv exps' (expirables db)" using exp_tree_frame [OF _ assms(3)] x by (simp add: exp_inv_def)
  moreover have "\<forall>e \<in> set (expirables db). \<exists>n. nodes_of db (exp_key_node (exp_at exps' e)) = Some n \<and> kn_expirable n = Some e"
    using x at by (simp add: exp_inv_def)
  moreover have "\<forall>a n e. nodes_of db a = Some n \<longrightarrow> kn_expirable n = Some e \<longrightarrow>
      e \<in> set (expirables db) \<and> exp_key_node (exp_at exps' e) = a"
    using x at unfolding exp_inv_def by auto
  ultimately have "exp_inv exps' (nodes_of db) (expirables db)" using assms(2) unfolding exp_inv_def by blast
  then show "db_inv exps' db" using assms(1) unfolding db_inv_def base_inv_def by blast
  have "slab_contents exps' e = slab_contents exps e" if "nodes_of db b = Some m" "kn_expirable m = Some e" for b m e
    using x assms(3) that unfolding exp_inv_def by blast
  then have "expires_of exps' db b = expires_of exps db b" for b
    unfolding expires_of_def by (cases "nodes_of db b"; cases "kn_expirable (the (nodes_of db b))") simp_all
  then show "expires_of exps' db = expires_of exps db" by blast
qed

text \<open>
  How an operation on a layer may change the slab that all layers share, T and T' being the layer's
  expirables before and after: entries of others stay, and new ones are taken from what is free.
\<close>

definition exps_change :: "expirable slab \<Rightarrow> expirable slab \<Rightarrow> slab_entry set \<Rightarrow> slab_entry set \<Rightarrow> bool" where
  "exps_change exps exps' T T' =
     (slab_inv exps' \<and>
      (\<forall>e. e \<notin> T \<longrightarrow> slab_contents exps e \<noteq> None \<longrightarrow> slab_contents exps' e = slab_contents exps e) \<and>
      (\<forall>e \<in> T'. e \<in> T \<or> slab_contents exps e = None))"

lemma exps_change_refl: "slab_inv exps \<Longrightarrow> exps_change exps exps T T"
  by (simp add: exps_change_def)

lemma exps_changeD:
  assumes "exps_change exps exps' T T'"
  shows "slab_inv exps'" "e \<notin> T \<Longrightarrow> slab_contents exps e \<noteq> None \<Longrightarrow> slab_contents exps' e = slab_contents exps e"
    "e \<in> T' \<Longrightarrow> e \<notin> T \<Longrightarrow> slab_contents exps e = None"
  using assms unfolding exps_change_def by blast+

lemma exps_changeI:
  assumes "slab_inv exps'"
    and "\<And>e. e \<notin> T \<Longrightarrow> slab_contents exps e \<noteq> None \<Longrightarrow> slab_contents exps' e = slab_contents exps e"
    and "\<And>e. e \<in> T' \<Longrightarrow> e \<notin> T \<Longrightarrow> slab_contents exps e = None"
  shows "exps_change exps exps' T T'"
  unfolding exps_change_def
proof (intro conjI allI impI ballI)
  fix e assume "e \<in> T'"
  then show "e \<in> T \<or> slab_contents exps e = None" using assms(3) by (cases "e \<in> T") simp_all
qed (rule assms(1), rule assms(2))

lemma exps_change_trans:
  assumes a: "exps_change exps exps1 T T1" and b: "exps_change exps1 exps2 T1 T2"
  shows "exps_change exps exps2 T T2"
proof (rule exps_changeI)
  show "slab_inv exps2" by (rule exps_changeD(1) [OF b])
next
  fix e assume e: "e \<notin> T" "slab_contents exps e \<noteq> None"
  have "e \<notin> T1" using exps_changeD(3) [OF a _ e(1)] e(2) by blast
  moreover have one: "slab_contents exps1 e = slab_contents exps e" by (rule exps_changeD(2) [OF a e])
  ultimately show "slab_contents exps2 e = slab_contents exps e" using exps_changeD(2) [OF b, of e] e(2) by simp
next
  fix e assume e: "e \<in> T2" "e \<notin> T"
  show "slab_contents exps e = None"
  proof (rule ccontr)
    assume some: "slab_contents exps e \<noteq> None"
    then have "e \<notin> T1" using exps_changeD(3) [OF a _ e(2)] by auto
    then have "slab_contents exps1 e = None" by (rule exps_changeD(3) [OF b e(1)])
    then show False using exps_changeD(2) [OF a e(2) some] some by simp
  qed
qed

lemma free_exps_change:
  assumes "slab_inv exps'" "\<forall>e. slab_contents exps' e = (if k = Some e then None else slab_contents exps e)"
    "T' = T - set_option k" "set_option k \<subseteq> T"
  shows "exps_change exps exps' T T'"
proof -
  have "slab_contents exps' e = slab_contents exps e" if "e \<notin> T" for e
    using spec [OF assms(2), of e] assms(4) that by (cases k) auto
  then show ?thesis using assms(1,3) unfolding exps_change_def by blast
qed

end
