(* ===== verification/Layer_Properties.thy ===== *)
theory Layer_Properties
  imports Layer_Db
begin

text \<open>
  The theorems on the index of a layer: where a record goes, what adding and removing change,
  and how full a bucket can get. The bound on buckets also tells when removing is safe: the slab of a bucket
  loses nothing before it holds 65 slots, and only a cell that is too small to be split gets there.
\<close>

section \<open>How full a bucket gets\<close>

text \<open>
  A split can put all slots of a full bucket into one child, which takes the new slot too: one
  more slot than before for every level. So a bucket at depth d holds at most BUCKET_SIZE + d - 1 slots,
  unless its rectangle is too small to be split.
\<close>

abbreviation not_overfull :: "dimension \<Rightarrow> dimension \<Rightarrow> node \<Rightarrow> path \<Rightarrow> rectangle2d \<Rightarrow> bool" where
  "not_overfull la lo \<equiv> each_bucket (\<lambda>p r m. m < BUCKET_SIZE + length p \<or> too_small la lo r)"

lemma split_not_overfull:
  assumes "node_inv (Quad_Node sub_slots nodes) p r" "sub_slots \<le> BUCKET_SIZE + length p"
    "\<forall>t < 4. \<exists>b. nodes t = Bucket_Node b"
  shows "not_overfull la lo (Quad_Node sub_slots nodes) p r"
proof -
  have "not_overfull la lo (nodes t) (p @ [t]) (get_qrects_from_qbounds r ! t)" if t: "t < 4" for t
  proof -
    obtain b where b: "nodes t = Bucket_Node b" using assms(3) t by blast
    show ?thesis using assms(2) child_le [OF assms(1) t] by (simp add: b)
  qed
  then show ?thesis by simp
qed

lemma add_slot_to_bucket_busy:
  "add_slot_to_bucket al p slot b = Some (ptr, b') \<Longrightarrow> busy_slots b' \<le> busy_slots b + 1"
  by (auto simp: add_slot_to_bucket_def split: bind_splits option.splits)

lemma add_not_overfull:
  assumes al: "good_malloc al" and slot: "slot_key_node slot = Some k" and hk: "h k \<noteq> None"
  shows "rect_ok r \<Longrightarrow> node_inv n p r \<Longrightarrow> links h p n \<Longrightarrow> position_is_in_rect (position slot) r \<Longrightarrow> k \<notin> keys n \<Longrightarrow>
    not_overfull la lo n p r \<Longrightarrow> p \<noteq> [] \<or> (\<exists>s nodes. n = Quad_Node s nodes) \<Longrightarrow>
    add_slot_below al True la lo slot n p r h = Some (ptr, n', h') \<Longrightarrow> not_overfull la lo n' p r"
proof (induction n arbitrary: p r ptr n' h')
  case (Bucket_Node b)
  have inv: "bucket_inv p r b" using Bucket_Node.prems(2) by simp
  then have size: "bucket_size b = BUCKET_SIZE" by (simp add: bucket_inv_def)
  have p: "length p > 0" using Bucket_Node.prems(7) by simp
  show ?case
  proof (cases "busy_slots b < bucket_size b \<or> too_small la lo r")
    case True
    then obtain b' where b': "n' = Bucket_Node b'" "add_slot_to_bucket al p slot b = Some (ptr, b')"
      using Bucket_Node.prems(8) size by (auto simp: BUCKET_SIZE_def split: bind_splits)
    show ?thesis using add_slot_to_bucket_busy [OF b'(2)] True p size
      by (cases p) (auto simp: b'(1))
  next
    case False
    then have run: "split_bucket al True slot p r b h = Some (ptr, n', h')"
      using Bucket_Node.prems(8) size by (simp add: BUCKET_SIZE_def)
    obtain q a n1 h1 where s: "split_bucket al True slot p r b h = Some (Some (p @ q, a), n1, h1)" "node_inv n1 p r"
      "nslots n1 = busy_slots b + 1" "\<exists>sub_slots nodes. n1 = Quad_Node sub_slots nodes \<and> (\<forall>t < 4. \<exists>b. nodes t = Bucket_Node b)"
      using split_bucket_ok [OF inv Bucket_Node.prems(3,1) al slot Bucket_Node.prems(4,5) hk] by blast
    then have "n1 = n'" using run by simp
    then obtain sub_slots nodes where n': "n' = Quad_Node sub_slots nodes" "\<forall>t < 4. \<exists>b. nodes t = Bucket_Node b"
      using s(4) by blast
    have "busy_slots b < BUCKET_SIZE + length p" using Bucket_Node.prems(6) False by simp
    then show ?thesis
      using split_not_overfull [of sub_slots nodes p r] s(2,3) n' \<open>n1 = n'\<close> by simp
  qed
next
  case (Quad_Node sub_slots nodes)
  obtain t where t: "find_node_for_position (get_qrects_from_qbounds r) (position slot) =
      Some (t, get_qrects_from_qbounds r ! t)" "t < 4" "position_is_in_rect (position slot) (get_qrects_from_qbounds r ! t)"
    using find_node_in_qrects [OF Quad_Node.prems(1,4)] by blast
  have c: "node_inv (nodes t) (p @ [t]) (get_qrects_from_qbounds r ! t)" "links h (p @ [t]) (nodes t)" "k \<notin> keys (nodes t)"
    "not_overfull la lo (nodes t) (p @ [t]) (get_qrects_from_qbounds r ! t)"
    using Quad_Node.prems(2,3,5,6) t(2) by (simp_all add: links_Quad keys_Quad)
  obtain ptr1 n1 h1 where i: "add_slot_below al True la lo slot (nodes t) (p @ [t]) (get_qrects_from_qbounds r ! t) h =
      Some (ptr1, n1, h1)" "n' = Quad_Node (sub_slots + count_new ptr1) (nodes(t := n1))"
    using Quad_Node.prems(8) t(1) by (auto split: bind_splits)
  have "not_overfull la lo n1 (p @ [t]) (get_qrects_from_qbounds r ! t)"
    by (rule Quad_Node.IH [OF _ qrects_ok [OF Quad_Node.prems(1) t(2)] c(1,2) t(3) c(3,4) _ i(1)]) simp_all
  then show ?case using Quad_Node.prems(6) by (simp add: i(2))
qed

definition buckets_bounded :: "pan_db \<Rightarrow> bool" where
  "buckets_bounded db = not_overfull (latitude_accuracy db) (longitude_accuracy db) (db_root db) [] (qbounds db)"

lemma bounded_same_root: "db_root db' = db_root db \<Longrightarrow> same_db db db' \<Longrightarrow> buckets_bounded db' = buckets_bounded db"
  by (simp add: buckets_bounded_def same_db_def)

lemma add_slot_bounded:
  assumes inv: "db_inv exps db" and al: "good_malloc al" and b: "buckets_bounded db"
    and a: "nodes_of db a = Some n" "kn_slot n = None" "slot_key_node slot = Some a" "position_is_in_rect (position slot) (qbounds db)"
      "add_slot al True slot db = Some (0, new_slot, db')"
  shows "buckets_bounded db'"
proof -
  have ix: "rect_ok (qbounds db)" "node_inv (db_root db) [] (qbounds db)" "links (nodes_of db) [] (db_root db)"
    and quad: "\<exists>s nodes. db_root db = Quad_Node s nodes"
    using db_invD(4) [OF inv] by (auto simp: index_inv_def)
  obtain ptr rt h where r: "add_slot_below al True (latitude_accuracy db) (longitude_accuracy db) slot (db_root db) []
      (qbounds db) (nodes_of db) = Some (ptr, rt, h)" "db' = (with_nodes db h)\<lparr>db_root := rt\<rparr>"
    using a(5) by (auto simp: add_slot_def split: bind_splits)
  have new: "a \<notin> keys (db_root db)" by (rule no_slot_no_key [OF db_invD(4) [OF inv] a(1,2)])
  have "nodes_of db a \<noteq> None" using a(1) by simp
  from add_not_overfull [OF al a(3) this ix a(4) new b [unfolded buckets_bounded_def] disjI2 [OF quad] r(1)]
  show ?thesis by (simp add: r(2) buckets_bounded_def with_nodes_def)
qed

lemma remove_entry_bounded:
  assumes "db_inv exps db" "buckets_bounded db" "remove_entry_from_key_node al True a False exps db = Some (ret, exps', db')"
  shows "buckets_bounded db'"
proof -
  have ix: "node_inv (db_root db) [] (qbounds db)" using db_invD(4) [OF assms(1)] by (auto simp: index_inv_def)
  obtain e q rt h where r: "remove_slot_below al True e (db_root db) [] q (nodes_of db) = Some (rt, h)"
    "db' = (with_nodes db h)\<lparr>db_root := rt\<rparr>"
    using assms(3) by (auto simp: remove_entry_from_key_node_def split: bind_splits)
  have "not_overfull (latitude_accuracy db) (longitude_accuracy db) rt [] (qbounds db)"
    by (rule remove_each_bucket [OF ix assms(2) [unfolded buckets_bounded_def] r(1)]) (auto simp: BUCKET_SIZE_def)
  then show ?thesis by (simp add: r(2) buckets_bounded_def with_nodes_def)
qed

lemma clear_slot_bounded: "clear_slot_of a db = Some db' \<Longrightarrow> buckets_bounded db' = buckets_bounded db"
  by (auto simp: clear_slot_of_def buckets_bounded_def with_nodes_def split: bind_splits)

section \<open>Counting\<close>

text \<open>The counter of a node is the number of the records below it.\<close>

lemma bucket_card:
  assumes inv: "bucket_inv p r b" and l: "links h p (Bucket_Node b)"
  shows "finite (keys (Bucket_Node b)) \<and> busy_slots b = card (keys (Bucket_Node b))"
proof -
  let ?m = "slab_contents (bslab b)"
  let ?k = "\<lambda>a. the (slot_key_node (the (?m a)))"
  have fin: "finite (dom ?m)" using inv by (auto simp: bucket_inv_def intro!: contents_finite tidy_finite)
  have link: "\<exists>kn. slot_key_node (the (?m a)) = Some (?k a) \<and> h (?k a) = Some kn \<and> kn_slot kn = Some (p, a)"
    if a: "a \<in> dom ?m" for a
  proof -
    obtain s where s: "?m a = Some s" using a by blast
    obtain k kn where "slot_key_node s = Some k" "h k = Some kn" "kn_slot kn = Some (p, a)"
      using l s unfolding links_Bucket by blast
    then show ?thesis using s by simp
  qed
  have "inj_on ?k (dom ?m)"
  proof (rule inj_onI)
    fix a c assume a: "a \<in> dom ?m" "c \<in> dom ?m" "?k a = ?k c"
    then show "a = c" using link [OF a(1)] link [OF a(2)] by (metis option.inject prod.inject)
  qed
  moreover have "keys (Bucket_Node b) = ?k ` dom ?m"
  proof -
    have "k \<in> keys (Bucket_Node b) \<longleftrightarrow> k \<in> ?k ` dom ?m" for k
    proof
      assume "k \<in> keys (Bucket_Node b)"
      then obtain q a s where s: "content (Bucket_Node b) q a = Some s" "slot_key_node s = Some k" by (rule keysE)
      then have "?m a = Some s" by (simp split: if_splits)
      then show "k \<in> ?k ` dom ?m" using s(2) by (intro image_eqI [of _ _ a]) auto
    next
      assume "k \<in> ?k ` dom ?m"
      then obtain a where a: "a \<in> dom ?m" "k = ?k a" by blast
      then obtain s where s: "?m a = Some s" by blast
      then have "content (Bucket_Node b) [] a = Some s" "slot_key_node s = Some k"
        using link [OF a(1)] a(2) by auto
      then show "k \<in> keys (Bucket_Node b)" by (rule content_keys)
    qed
    then show ?thesis by blast
  qed
  ultimately show ?thesis using fin inv by (simp add: card_image bucket_inv_def)
qed

lemma nslots_card:
  "node_inv n p r \<Longrightarrow> links h p n \<Longrightarrow> finite (keys n) \<and> nslots n = card (keys n)"
proof (induction n arbitrary: p r)
  case (Bucket_Node b)
  then show ?case using bucket_card by simp
next
  case (Quad_Node sub_slots nodes)
  have c: "finite (keys (nodes t)) \<and> nslots (nodes t) = card (keys (nodes t))" if "t < 4" for t
    using Quad_Node.IH [of "nodes t"] Quad_Node.prems that by (auto simp: links_Quad)
  have "card (\<Union>t \<in> {..<4}. keys (nodes t)) = (\<Sum>t < 4. card (keys (nodes t)))"
  proof (rule card_UN_disjoint)
    show "\<forall>t \<in> {..<4}. \<forall>u \<in> {..<4}. t \<noteq> u \<longrightarrow> keys (nodes t) \<inter> keys (nodes u) = {}"
      using links_disjoint [OF Quad_Node.prems(2)] by blast
  qed (use c in auto)
  then show ?case using c Quad_Node.prems(1) by (simp add: keys_Quad)
qed

lemma few_records_small:
  assumes "db_inv exps db" "card (keys (db_root db)) < 64"
  shows "small_bucket db a"
proof -
  have i: "node_inv (db_root db) [] (qbounds db)" "links (nodes_of db) [] (db_root db)"
    using db_invD(4) [OF assms(1)] by (simp_all add: index_inv_def)
  have "busy_slots b < 64" if "bucket_at (db_root db) p = Some b" for p b
    using bucket_at_le [OF i(1) that] nslots_card [OF i] assms(2) by simp
  then show ?thesis by (auto simp: small_bucket_def split: option.splits bind_splits)
qed

section \<open>Properties\<close>

text \<open>
  C21: adding a slot for a key node that has none, at a position inside the layer's bounds, returns 0 and the new
  slot: it splits a full bucket if it has to, gives the record its position and leaves every other
  record, key, property and expiration as it was; the whole invariant of the layer is kept, slots, counters and pointers.
\<close>

theorem add_slot_indexes:
  assumes "db_inv exps db" "good_malloc al" "nodes_of db a = Some n" "kn_slot n = None"
    and "slot_key_node slot = Some a" "position_is_in_rect (position slot) (qbounds db)"
  shows "\<exists>ptr db'. add_slot al True slot db = Some (0, Some ptr, db') \<and> db_inv exps db' \<and>
    position_of db' = (position_of db)(a \<mapsto> position slot) \<and>
    expires_of exps db' = expires_of exps db \<and> properties_of db' = properties_of db \<and>
    node_of_key (key_nodes db') = node_of_key (key_nodes db) \<and>
    map_option kn_slot (nodes_of db' a) = Some (Some ptr)"
  using add_slot_law [OF assms] by blast

text \<open>
  C22: taking the slot of a record out of the index, and clearing the key node's pointer as the callers do, removes the
  position of this record and changes nothing else, also when it merges four buckets into one; the
  assertions on the counters hold. The slot's bucket must hold fewer than 64 slots.
\<close>

theorem remove_entry_from_key_node_removes:
  assumes "db_inv exps db" "good_malloc al" "nodes_of db a = Some n" "kn_slot n \<noteq> None" "small_bucket db a"
  shows "\<exists>db1 db'. remove_entry_from_key_node al True a False exps db = Some (0, exps, db1) \<and>
    clear_slot_of a db1 = Some db' \<and> db_inv exps db' \<and> position_of db' = (position_of db)(a := None) \<and>
    expires_of exps db' = expires_of exps db \<and> properties_of db' = properties_of db \<and>
    node_of_key (key_nodes db') = node_of_key (key_nodes db)"
  using remove_and_clear_law [OF assms] by blast

text \<open>
  C23: adding and removing slots keep this bound: a bucket at depth d holds at most 49 + d slots, unless its rectangle is
  smaller than the layer's accuracy. In particular no bucket above depth 15 can reach the 64 slots that
  the slab of a bucket, and so the removal, can cope with.
\<close>

theorem buckets_stay_bounded:
  assumes "db_inv exps db" "good_malloc al" "buckets_bounded db"
  shows "(\<forall>slot a n new_slot db'. nodes_of db a = Some n \<longrightarrow> kn_slot n = None \<longrightarrow> slot_key_node slot = Some a \<longrightarrow>
      position_is_in_rect (position slot) (qbounds db) \<longrightarrow>
      add_slot al True slot db = Some (0, new_slot, db') \<longrightarrow> buckets_bounded db') \<and>
    (\<forall>a exps' db'. remove_entry_from_key_node al True a False exps db = Some (0, exps', db') \<longrightarrow> buckets_bounded db')"
  using add_slot_bounded [OF assms] remove_entry_bounded [OF assms(1,3)] by blast

section \<open>Witnesses\<close>

text \<open>A layer with one record that has no position yet.\<close>

definition sample_key :: bytes where
  "sample_key = bytes_of ''paris'' @ [0]"

definition sample_db :: pan_db where
  "sample_db =
     \<lparr>db_root = Quad_Node 0 (\<lambda>_. Bucket_Node init_bucket),
      key_nodes = \<lparr>kn_heap = [0 \<mapsto> empty_key_node sample_key], kn_tree = [0]\<rparr>, qbounds = world,
      latitude_accuracy = Fin (1 / 1024), longitude_accuracy = Fin (1 / 1024),
      db_layer_type = LAYER_TYPE_ELLIPSOIDAL, db_accuracy = ACCURACY_HS, expirables = []\<rparr>"

definition sample_slot :: slot where
  "sample_slot = \<lparr>position = pos (Fin (195 / 4)) (Fin (9 / 4)), slot_key_node = Some 0, slot_bucket = None\<rparr>"

lemma init_slab_inv: "slab_inv init_slab"
  using init_slab_lists slab_lists_inv by blast

lemma sample_db_inv: "db_inv init_slab sample_db"
proof -
  have nd: "nodes_of sample_db = [0 \<mapsto> empty_key_node sample_key]" "kn_tree (key_nodes sample_db) = [0]"
    "db_root sample_db = Quad_Node 0 (\<lambda>_. Bucket_Node init_bucket)" "qbounds sample_db = world" "expirables sample_db = []"
    by (simp_all add: sample_db_def)
  have "links (nodes_of sample_db) [] (db_root sample_db)" "node_inv (db_root sample_db) [] (qbounds sample_db)"
    using spread_new [of "[]" world "nodes_of sample_db"] unfolding spread_def prod.case nd by blast+
  then have "slots_ok {} sample_db"
    using world_ok unfolding slots_ok_def index_inv_def nd by (auto simp: empty_key_node_def split: if_splits)
  moreover have "base_inv init_slab sample_db"
    unfolding base_inv_def store_inv_def exp_inv_def nd
    by (auto simp: nd kc.sorted_Cons empty_key_node_def init_slab_inv split: if_splits)
  ultimately show ?thesis by (simp add: db_inv_def)
qed

lemma sample_position: "position_is_in_rect (position sample_slot) (qbounds sample_db)"
  by (simp add: position_is_in_rect_def sample_slot_def sample_db_def world_def)

lemma sample_node: "nodes_of sample_db 0 = Some (empty_key_node sample_key)" "kn_slot (empty_key_node sample_key) = None"
  "slot_key_node sample_slot = Some 0"
  by (simp_all add: sample_db_def empty_key_node_def sample_slot_def)

theorem add_slot_indexes_witness:
  "\<exists>ptr db'. add_slot (free_from 0) True sample_slot sample_db = Some (0, Some ptr, db') \<and>
     position_of db' 0 = Some (pos (Fin (195 / 4)) (Fin (9 / 4)))"
  using add_slot_indexes [OF sample_db_inv free_from_good sample_node sample_position, of 0]
  by (auto simp: sample_slot_def)

theorem remove_entry_from_key_node_removes_witness:
  "\<exists>ptr db1 db2 db3. add_slot (free_from 0) True sample_slot sample_db = Some (0, Some ptr, db1) \<and>
     remove_entry_from_key_node (free_from 0) True 0 False init_slab db1 = Some (0, init_slab, db2) \<and>
     clear_slot_of 0 db2 = Some db3 \<and> position_of db1 0 \<noteq> None \<and> position_of db3 0 = None"
proof -
  obtain ptr db1 where a: "add_slot (free_from 0) True sample_slot sample_db = Some (0, Some ptr, db1)"
    "db_inv init_slab db1" "position_of db1 = (position_of sample_db)(0 \<mapsto> position sample_slot)"
    "map_option kn_slot (nodes_of db1 0) = Some (Some ptr)"
    using add_slot_law [OF sample_db_inv free_from_good sample_node sample_position, of 0] by blast
  obtain n where n1: "nodes_of db1 0 = Some n" "kn_slot n = Some ptr" using a(4) by (cases "nodes_of db1 0") auto
  then have n: "nodes_of db1 0 = Some n" "kn_slot n \<noteq> None" by simp_all
  have "keys (db_root db1) \<subseteq> {0}"
  proof
    fix k assume "k \<in> keys (db_root db1)"
    then obtain x where "(k, x) \<in> placed (db_root db1)" by (auto simp: keys_def)
    then have "position_of db1 k = Some x" by (simp add: position_of_placed [OF a(2)])
    then show "k \<in> {0}" unfolding a(3) by (auto simp: position_of_def sample_db_def split: if_splits)
  qed
  then have "card (keys (db_root db1)) < 64" using card_mono [of "{0}" "keys (db_root db1)"] by simp
  from few_records_small [OF a(2) this] obtain db2 db3 where
    "remove_entry_from_key_node (free_from 0) True 0 False init_slab db1 = Some (0, init_slab, db2)"
    "clear_slot_of 0 db2 = Some db3" "position_of db3 = (position_of db1)(0 := None)"
    using remove_entry_from_key_node_removes [OF a(2) free_from_good n, of 0] by blast
  moreover from this(3) have "position_of db1 0 \<noteq> None" "position_of db3 0 = None" by (simp_all add: a(3))
  ultimately show ?thesis using a(1) by blast
qed

theorem buckets_stay_bounded_witness:
  "\<exists>ptr db'. add_slot (free_from 0) True sample_slot sample_db = Some (0, Some ptr, db') \<and> buckets_bounded db'"
proof -
  have "busy_slots init_bucket = 0" by (rule busy_init)
  then have b: "buckets_bounded sample_db" by (simp add: buckets_bounded_def sample_db_def BUCKET_SIZE_def)
  obtain ptr db' where a: "add_slot (free_from 0) True sample_slot sample_db = Some (0, Some ptr, db')"
    using add_slot_law [OF sample_db_inv free_from_good sample_node sample_position, of 0] by blast
  then show ?thesis
    using buckets_stay_bounded [OF sample_db_inv free_from_good b, of 0] sample_node sample_position by blast
qed

end
