(* ===== verification/Replies.thy ===== *)
theory Replies
  imports C_Strings Dimension
begin

text \<open>
  What an operation answers (\<open>http_server.h\<close>, \<open>http_server.c\<close>): a reply with the type and the
  transaction id of the operation, whose JSON document is built by calls of the yajl library. A
  generator is modelled by the calls made on it, in order; what yajl writes for them is not part of
  this program. The replies are queued for the main thread, in order; waiting for room
  in that queue is left out. \<open>mem\<close> tells whether malloc and yajl_gen_alloc have memory.
\<close>

datatype op_type =
    OP_TYPE_NONE | OP_TYPE_ERROR | OP_TYPE_SYSTEM_PING | OP_TYPE_SYSTEM_REWRITE
  | OP_TYPE_LAYERS_CREATE | OP_TYPE_LAYERS_DELETE | OP_TYPE_LAYERS_INDEX
  | OP_TYPE_RECORDS_PUT | OP_TYPE_RECORDS_GET | OP_TYPE_RECORDS_DELETE
  | OP_TYPE_SEARCH_NEARBY | OP_TYPE_SEARCH_IN_RECT | OP_TYPE_SEARCH_IN_KEYS

text \<open>yajl_gen_map_open and so on.\<close>

datatype yajl_call =
    Gen_Map_Open | Gen_Map_Close | Gen_Array_Open | Gen_Array_Close
  | Gen_String bytes | Gen_Number bytes | Gen_Integer int | Gen_Double dimension | Gen_Bool bool

type_synonym yajl_gen = "yajl_call list"

record op_reply =
  reply_type :: op_type
  reply_req :: nat
  reply_tid :: nat
  json_gen :: yajl_gen

text \<open>The part that all operations share. The request is an address, 0 for none.\<close>

record bare_op =
  op_req :: nat
  fake_req :: bool
  op_tid :: nat

definition gen_str :: "string \<Rightarrow> yajl_call" where
  "gen_str s = Gen_String (bytes_of s)"

text \<open>snprintf of the 64-bit transaction id with PRIdFAST64, as a signed number.\<close>

definition print_int :: "int \<Rightarrow> bytes" where
  "print_int i = (if i < 0 then chr CHR ''-'' # dec_of (nat (- i)) else dec_of (nat i))"

definition new_json_gen :: "nat \<Rightarrow> yajl_gen" where
  "new_json_gen tid = [Gen_Map_Open, gen_str ''tid'', Gen_Number (print_int (sint (of_nat tid :: 64 word)))]"

text \<open>HTTP statuses.\<close>

definition HTTP_OK :: int where "HTTP_OK = 200"
definition HTTP_BADREQUEST :: int where "HTTP_BADREQUEST = 400"
definition HTTP_NOTFOUND :: int where "HTTP_NOTFOUND = 404"
definition HTTP_SERVUNAVAIL :: int where "HTTP_SERVUNAVAIL = 503"

text \<open>
  The end of most handlers: a request that is replayed from the journal gets no reply; without memory
  503; otherwise the reply is built and sent. The status is 0 when it was handled.
\<close>

definition reply_op ::
  "bool \<Rightarrow> op_type \<Rightarrow> bare_op \<Rightarrow> yajl_gen \<Rightarrow> op_reply list \<Rightarrow> int \<times> op_reply list" where
  "reply_op reply_mem ty op calls published =
     (if fake_req op then (0, published)
      else if \<not> reply_mem then (HTTP_SERVUNAVAIL, published)
      else (0, published @ [\<lparr>reply_type = ty, reply_req = op_req op, reply_tid = op_tid op,
                              json_gen = new_json_gen (op_tid op) @ calls\<rparr>]))"

end
