(* ===== verification/Layers.thy ===== *)
theory Layers
  imports Layer_Properties Replies
begin

text \<open>
  Layers (\<open>domain_layers.c\<close>, the context of \<open>http_server.h\<close>, \<open>free_pan_db\<close> of \<open>pandb.c\<close>): the layers are entries of a
  slab, found by walking it; creating, finding and deleting them. The lock rwlock_layers,
  under which the workers run these operations one at a time, is not modelled.
  The lemmas make the context a finite map from names to layers, as long as there are fewer than 64 of them:
  with more, the slab can lose sight of layers (theory Slab).
\<close>

section \<open>State\<close>

record layer =
  layer_name :: bytes
  layer_db :: pan_db

record http_context =
  layers_slab :: "layer slab"
  nb_layers :: nat
  expirables_slab :: "expirable slab"
  now :: int
  published :: "op_reply list"

text \<open>
  Where the memory of the structures comes from: addresses for the chunks of the slabs and for
  key nodes, whether there is memory for index nodes, names and keys, stacks and replies, and what realloc gives for property maps.
\<close>

record memory =
  slot_chunks :: slab_malloc
  node_mem :: bool
  layer_chunk :: "layer slab \<Rightarrow> nat option"
  expirable_chunk :: "expirable slab \<Rightarrow> nat option"
  key_node_mem :: "node_heap \<Rightarrow> nat option"
  map_mem :: alloc
  name_mem :: bool
  stack_mem :: bool
  reply_mem :: bool

text \<open>http_server starts with empty slabs.\<close>

definition init_context :: "int \<Rightarrow> http_context" where
  "init_context t =
     \<lparr>layers_slab = init_slab, nb_layers = 0, expirables_slab = init_slab, now = t, published = []\<rparr>"

section \<open>Freeing a database\<close>

text \<open>The key nodes, in order; the next one is read before a node is freed.\<close>

fun free_key_nodes :: "nat list \<Rightarrow> expirable slab \<Rightarrow> pan_db \<Rightarrow> (expirable slab \<times> pan_db) option" where
  "free_key_nodes [] exps db = Some (exps, db)"
| "free_key_nodes (a # as) exps db =
     do {
       db1 \<leftarrow> clear_slot_of a (remove_node_from_tree a db);
       (exps', db') \<leftarrow> free_key_node a exps db1;
       free_key_nodes as exps' db'
     }"

text \<open>
  The children of a quad node: buckets are freed, quad nodes pushed on stack_inspect. A
  push that finds no memory would leak the node; the model has memory for the stack, which is
  a list by the theorem on stacks whose elements divide the chunk size.
\<close>

fun free_children :: "(nat \<Rightarrow> node) \<Rightarrow> nat list \<Rightarrow> node list \<Rightarrow> node list option" where
  "free_children nodes [] stack_inspect = Some stack_inspect"
| "free_children nodes (t # ts) stack_inspect =
     (case nodes t of
        Bucket_Node b \<Rightarrow> do { _ \<leftarrow> free_bucket b; free_children nodes ts stack_inspect }
      | Quad_Node sub_slots children \<Rightarrow> free_children nodes ts (Quad_Node sub_slots children # stack_inspect))"

partial_function (option) free_quad_nodes :: "node \<Rightarrow> node list \<Rightarrow> unit option" where
  "free_quad_nodes scanned_node stack_inspect =
     (case scanned_node of
        Bucket_Node b \<Rightarrow> None
      | Quad_Node sub_slots nodes \<Rightarrow>
          do {
            stack_inspect' \<leftarrow> free_children nodes [0..<4] stack_inspect;
            (case stack_inspect' of
               [] \<Rightarrow> Some ()
             | sqn # rest \<Rightarrow> free_quad_nodes sqn rest)
          })"

definition free_pan_db :: "expirable slab \<Rightarrow> pan_db \<Rightarrow> expirable slab option" where
  "free_pan_db exps db =
     do {
       (exps', db') \<leftarrow> free_key_nodes (kn_tree (key_nodes db)) exps db;
       _ \<leftarrow> free_quad_nodes (db_root db') [];
       Some exps'
     }"

section \<open>Finding, creating and deleting layers\<close>

definition get_layer_by_layer_name_cb :: "bytes \<Rightarrow> slab_entry option \<Rightarrow> slab_entry \<Rightarrow> layer \<Rightarrow> (int \<times> slab_entry option) option" where
  "get_layer_by_layer_name_cb name found a layer =
     (if name \<noteq> layer_name layer then Some (0, found) else Some (1, Some a))"

definition find_layer :: "bytes \<Rightarrow> http_context \<Rightarrow> slab_entry option option" where
  "find_layer name ctx =
     do {
       (_, layer) \<leftarrow> slab_foreach (get_layer_by_layer_name_cb name) (layers_slab ctx) None;
       Some layer
     }"

text \<open>The layer is added to the slab by name; its database is initialised in place.\<close>

definition register_new_layer ::
  "memory \<Rightarrow> db_defaults \<Rightarrow> bytes \<Rightarrow> http_context \<Rightarrow> (slab_entry option \<times> http_context) option" where
  "register_new_layer mem cfg name ctx =
     (if name = [] then Some (None, ctx)
      else if \<not> name_mem mem then Some (None, ctx)
      else
        do {
          db \<leftarrow> init_pan_db cfg (node_mem mem);
          (layer, sl) \<leftarrow> add_entry_to_slab (layer_chunk mem (layers_slab ctx))
             \<lparr>layer_name = name, layer_db = db\<rparr> (layers_slab ctx);
          (case layer of
             None \<Rightarrow> Some (None, ctx)
           | Some a \<Rightarrow> Some (Some a, ctx\<lparr>layers_slab := sl, nb_layers := nb_layers ctx + 1\<rparr>))
        })"

definition get_pan_db_by_layer_name ::
  "memory \<Rightarrow> db_defaults \<Rightarrow> bytes \<Rightarrow> bool \<Rightarrow> http_context \<Rightarrow> (int \<times> slab_entry option \<times> http_context) option" where
  "get_pan_db_by_layer_name mem cfg name create ctx =
     do {
       found \<leftarrow> find_layer name ctx;
       (case found of
          Some a \<Rightarrow> Some (0, Some a, ctx)
        | None \<Rightarrow>
            (if \<not> create then Some (- 1, None, ctx)
             else
               do {
                 (layer, ctx') \<leftarrow> register_new_layer mem cfg name ctx;
                 (case layer of
                    None \<Rightarrow> Some (- 2, None, ctx')
                  | Some a \<Rightarrow> Some (1, Some a, ctx'))
               }))
     }"

definition send_reply :: "memory \<Rightarrow> op_type \<Rightarrow> bare_op \<Rightarrow> yajl_gen \<Rightarrow> http_context \<Rightarrow> int \<times> http_context" where
  "send_reply mem ty op calls ctx =
     (let (ret, ps) = reply_op (reply_mem mem) ty op calls (published ctx) in (ret, ctx\<lparr>published := ps\<rparr>))"

definition handle_op_layers_create ::
  "memory \<Rightarrow> db_defaults \<Rightarrow> bare_op \<Rightarrow> bytes \<Rightarrow> http_context \<Rightarrow> (int \<times> http_context) option" where
  "handle_op_layers_create mem cfg op name ctx =
     do {
       (status, db, ctx') \<leftarrow> get_pan_db_by_layer_name mem cfg name True ctx;
       c_assert (db \<noteq> None \<or> status < 0);
       Some (send_reply mem OP_TYPE_LAYERS_CREATE op
         [gen_str ''status'',
          gen_str (if status = 0 then ''existing'' else if status > 0 then ''created'' else ''error'')] ctx')
     }"

definition delete_layer_by_layer_name :: "bytes \<Rightarrow> http_context \<Rightarrow> (int \<times> http_context) option" where
  "delete_layer_by_layer_name name ctx =
     do {
       found \<leftarrow> find_layer name ctx;
       (case found of
          None \<Rightarrow> Some (1, ctx)
        | Some a \<Rightarrow>
            do {
              layer \<leftarrow> slab_contents (layers_slab ctx) a;
              exps \<leftarrow> free_pan_db (expirables_slab ctx) (layer_db layer);
              c_assert (nb_layers ctx > 0);
              (ret, sl) \<leftarrow> remove_entry_from_slab a (layers_slab ctx);
              Some (if ret \<noteq> 0 then - 1 else 0,
                    ctx\<lparr>layers_slab := sl, nb_layers := nb_layers ctx - 1, expirables_slab := exps\<rparr>)
            })
     }"

definition handle_op_layers_delete ::
  "memory \<Rightarrow> bare_op \<Rightarrow> bytes \<Rightarrow> http_context \<Rightarrow> (int \<times> http_context) option" where
  "handle_op_layers_delete mem op name ctx =
     do {
       (status, ctx') \<leftarrow> delete_layer_by_layer_name name ctx;
       (if status > 0 then Some (HTTP_NOTFOUND, ctx')
        else if status < 0 then Some (HTTP_SERVUNAVAIL, ctx')
        else Some (send_reply mem OP_TYPE_LAYERS_DELETE op [gen_str ''status'', gen_str ''deleted''] ctx'))
     }"

section \<open>Listing layers\<close>

definition type_name :: "layer_type \<Rightarrow> string" where
  "type_name t =
     (case t of
        LAYER_TYPE_FLAT \<Rightarrow> ''flat''
      | LAYER_TYPE_FLATWRAP \<Rightarrow> ''flatwrap''
      | LAYER_TYPE_SPHERICAL \<Rightarrow> ''spherical''
      | LAYER_TYPE_ELLIPSOIDAL \<Rightarrow> ''ellipsoidal''
      | LAYER_TYPE_NONE \<Rightarrow> ''unknown'')"

definition accuracy_name :: "layer_type \<Rightarrow> accuracy \<Rightarrow> string" where
  "accuracy_name t a =
     (if t = LAYER_TYPE_SPHERICAL \<or> t = LAYER_TYPE_ELLIPSOIDAL then
        (case a of
           ACCURACY_VINCENTY \<Rightarrow> ''vincenty''
         | ACCURACY_HS \<Rightarrow> ''haversine''
         | ACCURACY_GC \<Rightarrow> ''great_circle''
         | ACCURACY_FAST \<Rightarrow> ''fast''
         | ACCURACY_RHOMBOID \<Rightarrow> ''rhomboid''
         | ACCURACY_NONE \<Rightarrow> ''unknown'')
      else ''euclidean'')"

text \<open>The longitude accuracy is written with the latitude accuracy, as in the source.\<close>

definition add_layer_name_to_json_gen :: "yajl_gen \<Rightarrow> slab_entry \<Rightarrow> layer \<Rightarrow> (int \<times> yajl_gen) option" where
  "add_layer_name_to_json_gen gen a layer =
     (let db = layer_db layer;
          nb_key_nodes = count_key_nodes (key_nodes db);
          sub_slots = nslots (db_root db)
      in do {
           c_assert (nb_key_nodes \<ge> sub_slots);
           Some (0, gen @
             [Gen_Map_Open, gen_str ''name'', Gen_String (layer_name layer),
              gen_str ''records'', Gen_Integer (int nb_key_nodes),
              gen_str ''geo_records'', Gen_Integer (int sub_slots),
              gen_str ''type'', gen_str (type_name (db_layer_type db)),
              gen_str ''distance_accuracy'', gen_str (accuracy_name (db_layer_type db) (db_accuracy db)),
              gen_str ''latitude_accuracy'', Gen_Double (latitude_accuracy db),
              gen_str ''longitude_accuracy'', Gen_Double (latitude_accuracy db),
              gen_str ''bounds'', Gen_Array_Open,
              Gen_Double (latitude (edge0 (qbounds db))), Gen_Double (longitude (edge0 (qbounds db))),
              Gen_Double (latitude (edge1 (qbounds db))), Gen_Double (longitude (edge1 (qbounds db))),
              Gen_Array_Close, Gen_Map_Close])
         })"

definition handle_op_layers_index :: "memory \<Rightarrow> bare_op \<Rightarrow> http_context \<Rightarrow> (int \<times> http_context) option" where
  "handle_op_layers_index mem op ctx =
     (if fake_req op then Some (0, ctx)
      else if \<not> reply_mem mem then Some (HTTP_SERVUNAVAIL, ctx)
      else
        do {
          (_, calls) \<leftarrow> slab_foreach add_layer_name_to_json_gen (layers_slab ctx) [];
          Some (send_reply mem OP_TYPE_LAYERS_INDEX op
            ([gen_str ''layers'', Gen_Array_Open] @ calls @ [Gen_Array_Close]) ctx)
        })"

section \<open>Freeing succeeds\<close>

lemma clear_remove:
  "clear_slot_of a (remove_node_from_tree a db) = map_option (remove_node_from_tree a) (clear_slot_of a db)"
proof -
  have "with_nodes (remove_node_from_tree a db) h = remove_node_from_tree a (with_nodes db h)" for h
    by (simp add: with_nodes_def remove_node_from_tree_def remove_key_node_from_tree_def)
  then have "with_nodes (remove_node_from_tree a db) = (\<lambda>h. remove_node_from_tree a (with_nodes db h))" by blast
  then show ?thesis by (simp add: clear_slot_of_def option.map_comp comp_def)
qed

lemma free_key_nodes_ok:
  "base_inv exps db \<Longrightarrow> as = kn_tree (key_nodes db) \<Longrightarrow>
   \<exists>exps' db'. free_key_nodes as exps db = Some (exps', db') \<and> db_root db' = db_root db \<and> nodes_of db' = Map.empty \<and>
     slab_inv exps' \<and> (\<forall>e. slab_contents exps' e = (if e \<in> set (expirables db) then None else slab_contents exps e))"
proof (induction as arbitrary: exps db)
  case Nil
  then have none: "nodes_of db = Map.empty" by (simp add: base_inv_def)
  then have "expirables db = []" using Nil.prems(1) by (cases "expirables db") (auto simp: base_inv_def exp_inv_def)
  then show ?case using Nil.prems(1) none by (simp add: base_inv_def exp_inv_def)
next
  case (Cons a as)
  have tree: "kn_tree (key_nodes db) = a # as" using Cons.prems(2) by simp
  then have "a \<in> dom (nodes_of db)" using Cons.prems(1) by (simp add: base_inv_def)
  then obtain n where n: "nodes_of db a = Some n" by blast
  define h where "h = (nodes_of db)(a \<mapsto> n\<lparr>kn_slot := None\<rparr>)"
  define db1 where "db1 = with_nodes db h"
  have c: "clear_slot_of a db = Some db1" using n by (simp add: clear_slot_of_def set_kn_slot_def db1_def h_def)
  have same: "same_nodes {a} (nodes_of db) h" using set_kn_slot_law(2) [of "nodes_of db" a n None, OF n] by (simp add: h_def)
  have "db1 = (with_nodes db h)\<lparr>db_root := db_root db\<rparr>" by (simp add: db1_def with_nodes_def)
  note fr = slots_frame [OF Cons.prems(1) same this]
  have n1: "nodes_of db1 a = Some (n\<lparr>kn_slot := None\<rparr>)" "kn_slot (n\<lparr>kn_slot := None\<rparr>) = None"
    by (simp_all add: db1_def h_def)
  obtain exps' db' where f: "free_key_node a exps (remove_node_from_tree a db1) = Some (exps', db')" "base_inv exps' db'"
    "db_root db' = db_root db1" "kn_tree (key_nodes db') = rb_remove a (kn_tree (key_nodes db1))"
    "\<forall>e. slab_contents exps' e = (if kn_expirable n = Some e then None else slab_contents exps e)"
    "set (expirables db') = set (expirables db1) - set_option (kn_expirable n)"
    using free_key_node_base [OF fr(1) n1] by auto
  have tree': "as = kn_tree (key_nodes db')" using f(4) tree by (simp add: db1_def rb_remove_def)
  obtain exps2 db2 where g: "free_key_nodes as exps' db' = Some (exps2, db2)" "db_root db2 = db_root db'"
    "nodes_of db2 = Map.empty" "slab_inv exps2"
    "\<forall>e. slab_contents exps2 e = (if e \<in> set (expirables db') then None else slab_contents exps' e)"
    using Cons.IH [OF f(2) tree'] by blast
  have run: "free_key_nodes (a # as) exps db = Some (exps2, db2)" by (simp add: clear_remove c f(1) g(1))
  have r: "db_root db2 = db_root db" using g(2) f(3) by (simp add: db1_def)
  have "exp_inv exps (nodes_of db) (expirables db)" using Cons.prems(1) by (simp add: base_inv_def)
  then have own: "set_option (kn_expirable n) \<subseteq> set (expirables db)" using n unfolding exp_inv_def by auto
  have "slab_contents exps2 e = (if e \<in> set (expirables db) then None else slab_contents exps e)" for e
    using spec [OF g(5), of e] spec [OF f(5), of e] f(6) own by (auto simp: db1_def)
  then show ?case using run r g(3,4) by blast
qed

text \<open>The walk over the quad nodes ends: this is how many are left.\<close>

primrec quad_count :: "node \<Rightarrow> nat" where
  "quad_count (Bucket_Node b) = 0"
| "quad_count (Quad_Node sub_slots nodes) = 1 + (\<Sum>t < 4. quad_count (nodes t))"

definition freeable :: "node \<Rightarrow> bool" where
  "freeable n = ((\<exists>p r. node_inv n p r) \<and> (\<exists>sub_slots nodes. n = Quad_Node sub_slots nodes))"

lemma free_children_ok:
  assumes "\<forall>t \<in> set ts. \<exists>p r. node_inv (nodes t) p r" "\<forall>n \<in> set st. freeable n"
  shows "\<exists>st'. free_children nodes ts st = Some st' \<and> (\<forall>n \<in> set st'. freeable n) \<and>
    sum_list (map quad_count st') = sum_list (map quad_count st) + sum_list (map (\<lambda>t. quad_count (nodes t)) ts)"
  using assms
proof (induction ts arbitrary: st)
  case (Cons t ts)
  show ?case
  proof (cases "nodes t")
    case (Bucket_Node b)
    then obtain p r where "bucket_inv p r b" using Cons.prems(1) by auto
    from free_bucket_ok [OF this] Cons.IH [of st] Cons.prems Bucket_Node show ?thesis by simp
  next
    case (Quad_Node sub_slots children)
    have "freeable (nodes t)" using Cons.prems(1) Quad_Node by (simp add: freeable_def)
    then obtain st' where "free_children nodes ts (nodes t # st) = Some st'" "\<forall>n \<in> set st'. freeable n"
      "sum_list (map quad_count st') = sum_list (map quad_count (nodes t # st)) + sum_list (map (\<lambda>t. quad_count (nodes t)) ts)"
      using Cons.IH [of "nodes t # st"] Cons.prems by auto
    then show ?thesis using Quad_Node by simp
  qed
qed simp

lemma sum_4: "(\<Sum>t < 4. f t) = sum_list (map f [0..<4])" for f :: "nat \<Rightarrow> nat"
  by (simp add: sum_list_distinct_conv_sum_set atLeast0LessThan)

lemma free_quad_nodes_ok:
  "freeable n \<Longrightarrow> \<forall>m \<in> set st. freeable m \<Longrightarrow> free_quad_nodes n st = Some ()"
proof (induction "quad_count n + sum_list (map quad_count st)" arbitrary: n st rule: less_induct)
  case less
  obtain sub_slots nodes p r where n: "n = Quad_Node sub_slots nodes" "node_inv n p r"
    using less.prems(1) by (auto simp: freeable_def)
  have "node_inv (nodes t) (p @ [t]) (get_qrects_from_qbounds r ! t)" if "t < 4" for t using n that by simp
  then have "\<forall>t \<in> set [0..<4]. \<exists>p r. node_inv (nodes t) p r" unfolding set_upt atLeastLessThan_iff Ball_def by blast
  then obtain st' where st': "free_children nodes [0..<4] st = Some st'" "\<forall>n \<in> set st'. freeable n"
    "sum_list (map quad_count st') = sum_list (map quad_count st) + sum_list (map (\<lambda>t. quad_count (nodes t)) [0..<4])"
    using free_children_ok less.prems(2) by blast
  show ?case
  proof (cases st')
    case Nil
    then show ?thesis using n st'(1) by (subst free_quad_nodes.simps) simp
  next
    case (Cons m rest)
    have "quad_count m + sum_list (map quad_count rest) < quad_count n + sum_list (map quad_count st)"
      using st'(3) Cons n(1) by (simp add: sum_4)
    from less.hyps [OF this] have "free_quad_nodes m rest = Some ()" using st'(2) Cons by simp
    then show ?thesis using n st'(1) Cons by (subst free_quad_nodes.simps) simp
  qed
qed

lemma free_pan_db_ok:
  assumes "db_inv exps db"
  shows "\<exists>exps'. free_pan_db exps db = Some exps' \<and> exps_change exps exps' (set (expirables db)) {} \<and>
    (\<forall>e \<in> set (expirables db). slab_contents exps' e = None)"
proof -
  obtain exps' db' where f: "free_key_nodes (kn_tree (key_nodes db)) exps db = Some (exps', db')" "db_root db' = db_root db"
    "slab_inv exps'" "\<forall>e. slab_contents exps' e = (if e \<in> set (expirables db) then None else slab_contents exps e)"
    using free_key_nodes_ok [OF db_invD(1) [OF assms] refl] by blast
  have "freeable (db_root db)" using db_invD(4) [OF assms] unfolding index_inv_def freeable_def by blast
  then have "free_quad_nodes (db_root db') [] = Some ()" unfolding f(2) by (rule free_quad_nodes_ok) simp
  then have "free_pan_db exps db = Some exps'" using f(1) by (simp add: free_pan_db_def)
  moreover have "exps_change exps exps' (set (expirables db)) {}"
    by (rule exps_changeI [OF f(3)]) (use spec [OF f(4)] in auto)
  ultimately show ?thesis using spec [OF f(4)] by auto
qed

section \<open>The context\<close>

definition ctx_inv :: "http_context \<Rightarrow> bool" where
  "ctx_inv ctx =
     (tidy (layers_slab ctx) \<and> slab_inv (expirables_slab ctx) \<and>
      nb_layers ctx = card (dom (slab_contents (layers_slab ctx))) \<and>
      (\<forall>a l. slab_contents (layers_slab ctx) a = Some l \<longrightarrow> db_inv (expirables_slab ctx) (layer_db l) \<and> layer_name l \<noteq> []) \<and>
      (\<forall>a l b m. slab_contents (layers_slab ctx) a = Some l \<longrightarrow> slab_contents (layers_slab ctx) b = Some m \<longrightarrow> a \<noteq> b \<longrightarrow>
         layer_name l \<noteq> layer_name m \<and> set (expirables (layer_db l)) \<inter> set (expirables (layer_db m)) = {}))"

lemma ctx_invD:
  assumes "ctx_inv ctx"
  shows "tidy (layers_slab ctx)" "slab_inv (expirables_slab ctx)"
    "nb_layers ctx = card (dom (slab_contents (layers_slab ctx)))"
    "\<And>a l. slab_contents (layers_slab ctx) a = Some l \<Longrightarrow> db_inv (expirables_slab ctx) (layer_db l) \<and> layer_name l \<noteq> []"
    "\<And>a l b m. slab_contents (layers_slab ctx) a = Some l \<Longrightarrow> slab_contents (layers_slab ctx) b = Some m \<Longrightarrow> a \<noteq> b \<Longrightarrow>
      layer_name l \<noteq> layer_name m \<and> set (expirables (layer_db l)) \<inter> set (expirables (layer_db m)) = {}"
  using assms unfolding ctx_inv_def by blast+

text \<open>The database of a layer, by its name.\<close>

definition layers :: "http_context \<Rightarrow> bytes \<Rightarrow> pan_db option" where
  "layers ctx name =
     do {
       found \<leftarrow> find_layer name ctx;
       a \<leftarrow> found;
       map_option layer_db (slab_contents (layers_slab ctx) a)
     }"

lemma find_entries:
  "foreach_entries (get_layer_by_layer_name_cb name) es c =
     (case List.find (\<lambda>(a, l). layer_name l = name) es of None \<Rightarrow> Some (0, c) | Some (a, l) \<Rightarrow> Some (1, Some a))"
  by (induction es) (auto simp: get_layer_by_layer_name_cb_def)

lemma layers_index_law:
  assumes "ctx_inv ctx"
  shows "\<exists>r ctx'. handle_op_layers_index mem op ctx = Some (r, ctx') \<and> ctx' = ctx\<lparr>published := published ctx'\<rparr>"
proof -
  obtain es where es: "slab_entries (layers_slab ctx) es"
    "\<forall>cb (c :: yajl_gen). slab_foreach cb (layers_slab ctx) c = foreach_entries cb es c"
    using tidy_foreach [OF ctx_invD(1) [OF assms]] by blast
  have "nslots (db_root (layer_db l)) \<le> count_key_nodes (key_nodes (layer_db l))" if "(a, l) \<in> set es" for a l
  proof -
    have "slab_contents (layers_slab ctx) a = Some l" using that es(1) unfolding slab_entries_def by blast
    then have inv: "db_inv (expirables_slab ctx) (layer_db l)" using ctx_invD(4) [OF assms] by blast
    have ix: "node_inv (db_root (layer_db l)) [] (qbounds (layer_db l))" "links (nodes_of (layer_db l)) [] (db_root (layer_db l))"
      using db_invD(4) [OF inv] by (simp_all add: index_inv_def)
    have "keys (db_root (layer_db l)) \<subseteq> set (kn_tree (key_nodes (layer_db l)))"
      using links_keys [OF ix(2)] db_invD(3) [OF inv] by blast
    then have "card (keys (db_root (layer_db l))) \<le> length (kn_tree (key_nodes (layer_db l)))"
      by (meson List.finite_set card_length card_mono le_trans)
    then show ?thesis using nslots_card [OF ix] by (simp add: count_is_length)
  qed
  then have one: "\<exists>calls. add_layer_name_to_json_gen gen a l = Some (0, calls)" if "(a, l) \<in> set es" for gen a l
    using that by (simp add: add_layer_name_to_json_gen_def Let_def c_assert_def)
  have "\<exists>calls. foreach_entries add_layer_name_to_json_gen fs gen = Some (0, calls)" if "set fs \<subseteq> set es" for fs gen
    using that
  proof (induction fs arbitrary: gen)
    case (Cons f fs)
    obtain a l where f: "f = (a, l)" by (cases f)
    then obtain calls where "add_layer_name_to_json_gen gen a l = Some (0, calls)" using one Cons.prems by fastforce
    then show ?case using Cons f by simp
  qed simp
  then obtain calls where "slab_foreach add_layer_name_to_json_gen (layers_slab ctx) [] = Some (0, calls)" using es(2) order_refl by metis
  then show ?thesis by (auto simp: handle_op_layers_index_def send_reply_def Let_def split: prod.split)
qed

lemma find_layer_law:
  assumes "ctx_inv ctx"
  shows "\<exists>r. find_layer name ctx = Some r \<and>
    (\<forall>a. r = Some a \<longleftrightarrow> (\<exists>l. slab_contents (layers_slab ctx) a = Some l \<and> layer_name l = name))"
proof -
  obtain es where es: "slab_entries (layers_slab ctx) es"
    "\<forall>cb (c :: slab_entry option). slab_foreach cb (layers_slab ctx) c = foreach_entries cb es c"
    using tidy_foreach [OF ctx_invD(1) [OF assms]] by blast
  have mem: "(a, l) \<in> set es \<longleftrightarrow> slab_contents (layers_slab ctx) a = Some l" for a l
    using es(1) unfolding slab_entries_def by blast
  define r where "r = map_option fst (List.find (\<lambda>(a, l). layer_name l = name) es)"
  have "find_layer name ctx = Some r"
    using es(2) by (auto simp: find_layer_def find_entries r_def split: option.splits)
  moreover have "r = Some a \<longleftrightarrow> (\<exists>l. slab_contents (layers_slab ctx) a = Some l \<and> layer_name l = name)" for a
  proof (cases "List.find (\<lambda>(a, l). layer_name l = name) es")
    case None
    have "layer_name l \<noteq> name" if "(a, l) \<in> set es" for l
    proof
      assume "layer_name l = name"
      then have "(case (a, l) of (a, l) \<Rightarrow> layer_name l = name)" by simp
      then show False using None that unfolding find_None_iff by blast
    qed
    then have "\<nexists>l. (a, l) \<in> set es \<and> layer_name l = name" by blast
    then show ?thesis using None unfolding mem by (simp add: r_def)
  next
    case (Some e)
    obtain b m where e: "e = (b, m)" by (cases e)
    have "(b, m) \<in> set es" "layer_name m = name"
      using find_mem [OF Some] by (simp_all add: e)
    then have b: "slab_contents (layers_slab ctx) b = Some m" "layer_name m = name" unfolding mem by simp_all
    have r: "r = Some b" using Some by (simp add: r_def e)
    show ?thesis
    proof
      assume "r = Some a"
      then show "\<exists>l. slab_contents (layers_slab ctx) a = Some l \<and> layer_name l = name" using b r by auto
    next
      assume "\<exists>l. slab_contents (layers_slab ctx) a = Some l \<and> layer_name l = name"
      then obtain l where l: "slab_contents (layers_slab ctx) a = Some l" "layer_name l = name" by blast
      have "a = b"
      proof (rule ccontr)
        assume "a \<noteq> b"
        from ctx_invD(5) [OF assms l(1) b(1) this] show False using l(2) b(2) by simp
      qed
      then show "r = Some a" using r by simp
    qed
  qed
  ultimately show ?thesis by blast
qed

lemma layers_Some:
  assumes "ctx_inv ctx"
  shows "layers ctx name = Some db \<longleftrightarrow>
    (\<exists>a l. slab_contents (layers_slab ctx) a = Some l \<and> layer_name l = name \<and> layer_db l = db)"
proof -
  obtain r where r: "find_layer name ctx = Some r"
    "\<forall>a. r = Some a \<longleftrightarrow> (\<exists>l. slab_contents (layers_slab ctx) a = Some l \<and> layer_name l = name)"
    using find_layer_law [OF assms] by blast
  show ?thesis
  proof
    assume "layers ctx name = Some db"
    then obtain a l where a: "r = Some a" "slab_contents (layers_slab ctx) a = Some l" "layer_db l = db"
      by (auto simp: layers_def r(1) bind_eq_Some_conv)
    then obtain l' where "slab_contents (layers_slab ctx) a = Some l'" "layer_name l' = name" using spec [OF r(2), of a] by blast
    then have "slab_contents (layers_slab ctx) a = Some l \<and> layer_name l = name \<and> layer_db l = db" using a(2,3) by simp
    then show "\<exists>a l. slab_contents (layers_slab ctx) a = Some l \<and> layer_name l = name \<and> layer_db l = db" by blast
  next
    assume "\<exists>a l. slab_contents (layers_slab ctx) a = Some l \<and> layer_name l = name \<and> layer_db l = db"
    then obtain a l where a: "slab_contents (layers_slab ctx) a = Some l" "layer_name l = name" "layer_db l = db" by blast
    then have "r = Some a" using spec [OF r(2), of a] by blast
    then show "layers ctx name = Some db" using a by (simp add: layers_def r(1))
  qed
qed

lemma find_layer_None:
  assumes "ctx_inv ctx" "find_layer name ctx = Some r"
  shows "r = None \<longleftrightarrow> layers ctx name = None"
proof -
  have "layers ctx name \<noteq> None" if "r = Some a" for a
  proof -
    have "\<forall>a. r = Some a \<longleftrightarrow> (\<exists>l. slab_contents (layers_slab ctx) a = Some l \<and> layer_name l = name)"
      using find_layer_law [OF assms(1), of name] assms(2) by (simp del: split_paired_All)
    from iffD1 [OF spec [OF this, of a] that] obtain l where "slab_contents (layers_slab ctx) a = Some l" by blast
    then show ?thesis using assms(2) that by (simp add: layers_def)
  qed
  then show ?thesis using assms(2) by (cases r) (auto simp: layers_def)
qed

lemma layers_eqI:
  assumes "\<And>name db. layers ctx name = Some db \<longleftrightarrow> m name = Some db"
  shows "layers ctx = m"
  using assms by (intro ext option_eqI)

lemma init_context_inv: "ctx_inv (init_context t)" "layers (init_context t) = Map.empty"
proof -
  show i: "ctx_inv (init_context t)" by (simp add: ctx_inv_def init_context_def init_slab_inv)
  show "layers (init_context t) = Map.empty"
    by (rule layers_eqI) (simp add: layers_Some [OF i], simp add: init_context_def)
qed

lemma layers_published [simp]: "layers (ctx\<lparr>published := ps\<rparr>) = layers ctx"
  by (simp add: fun_eq_iff layers_def find_layer_def)

lemma ctx_inv_published [simp]: "ctx_inv (ctx\<lparr>published := ps\<rparr>) = ctx_inv ctx"
  by (simp add: ctx_inv_def)

text \<open>Replacing the database of one layer.\<close>

lemma update_layer_law:
  assumes inv: "ctx_inv ctx" and l: "slab_contents (layers_slab ctx) a = Some l" and db: "db_inv exps db"
    and ch: "exps_change (expirables_slab ctx) exps (set (expirables (layer_db l))) (set (expirables db))"
  shows "\<exists>sl. write_entry a (layer_db_update (\<lambda>_. db)) (layers_slab ctx) = Some sl \<and>
    ctx_inv (ctx\<lparr>layers_slab := sl, expirables_slab := exps\<rparr>) \<and>
    layers (ctx\<lparr>layers_slab := sl, expirables_slab := exps\<rparr>) = (layers ctx)(layer_name l \<mapsto> db) \<and>
    slab_contents sl = (slab_contents (layers_slab ctx))(a \<mapsto> l\<lparr>layer_db := db\<rparr>) \<and>
    (\<forall>b m. b \<noteq> a \<longrightarrow> slab_contents (layers_slab ctx) b = Some m \<longrightarrow>
       expires_of exps (layer_db m) = expires_of (expirables_slab ctx) (layer_db m))"
proof -
  note i = ctx_invD [OF inv]
  obtain ps fs where t: "slab_lists (layers_slab ctx) ps fs []" "length ps \<le> 1" using i(1) by (auto simp: tidy_def)
  obtain sl where w: "write_entry a (layer_db_update (\<lambda>_. db)) (layers_slab ctx) = Some sl" "slab_lists sl ps fs []"
    "slab_contents sl = (slab_contents (layers_slab ctx))(a \<mapsto> l\<lparr>layer_db := db\<rparr>)"
    using write_entry_lists [OF t(1) l, of "layer_db_update (\<lambda>_. db)"] by blast
  define ctx' where "ctx' = ctx\<lparr>layers_slab := sl, expirables_slab := exps\<rparr>"
  have sel: "layers_slab ctx' = sl" "expirables_slab ctx' = exps" "nb_layers ctx' = nb_layers ctx" by (simp_all add: ctx'_def)
  have td: "tidy sl" using w(2) t(2) by (rule tidyI)
  have own: "slab_contents (expirables_slab ctx) e \<noteq> None" if "e \<in> set (expirables (layer_db m))"
    "slab_contents (layers_slab ctx) b = Some m" for e b m
    using i(4) [OF that(2)] that(1) db_invD(7) unfolding exp_inv_def exp_tree_inv_def by blast
  have other: "db_inv exps (layer_db m) \<and> set (expirables db) \<inter> set (expirables (layer_db m)) = {} \<and>
      expires_of exps (layer_db m) = expires_of (expirables_slab ctx) (layer_db m)"
    if m: "slab_contents (layers_slab ctx) b = Some m" "b \<noteq> a" for b m
  proof -
    have d: "e \<notin> set (expirables (layer_db l))" if "e \<in> set (expirables (layer_db m))" for e
      using i(5) [OF m(1) l m(2)] that by blast
    have "slab_contents exps e = slab_contents (expirables_slab ctx) e" if "e \<in> set (expirables (layer_db m))" for e
      by (rule exps_changeD(2) [OF ch d [OF that] own [OF that m(1)]])
    moreover have "e \<notin> set (expirables db)" if "e \<in> set (expirables (layer_db m))" for e
      using exps_changeD(3) [OF ch _ d [OF that]] own [OF that m(1)] by blast
    ultimately show ?thesis using db_inv_frame [of "expirables_slab ctx"] i(4) [OF m(1)] exps_changeD(1) [OF ch] by blast
  qed
  have cases: "(b = a \<and> m = l\<lparr>layer_db := db\<rparr>) \<or> (b \<noteq> a \<and> slab_contents (layers_slab ctx) b = Some m)"
    if "slab_contents sl b = Some m" for b m
    using that unfolding w(3) by (simp split: if_splits)
  have inv': "ctx_inv ctx'"
    unfolding ctx_inv_def sel
  proof (intro conjI allI impI)
    show "tidy sl" by (rule td)
    show "slab_inv exps" by (rule exps_changeD(1) [OF ch])
    have "dom (slab_contents sl) = dom (slab_contents (layers_slab ctx))" using l unfolding w(3) by auto
    then show "nb_layers ctx = card (dom (slab_contents sl))" using i(3) by simp
  next
    fix b m assume b: "slab_contents sl b = Some m"
    from cases [OF b] show "db_inv exps (layer_db m)"
    proof
      assume "b \<noteq> a \<and> slab_contents (layers_slab ctx) b = Some m"
      then show ?thesis using other by blast
    qed (use db in simp)
    from cases [OF b] show "layer_name m \<noteq> []"
    proof
      assume "b \<noteq> a \<and> slab_contents (layers_slab ctx) b = Some m"
      then show ?thesis using i(4) by blast
    qed (use i(4) [OF l] in simp)
  next
    fix b m c k assume a: "slab_contents sl b = Some m" "slab_contents sl c = Some k" "b \<noteq> c"
    have "layer_name m \<noteq> layer_name k \<and> set (expirables (layer_db m)) \<inter> set (expirables (layer_db k)) = {}"
      using cases [OF a(1)]
    proof (elim disjE conjE)
      assume m: "b = a" "m = l\<lparr>layer_db := db\<rparr>"
      then have k: "c \<noteq> a" "slab_contents (layers_slab ctx) c = Some k" using cases [OF a(2)] a(3) by simp_all
      show ?thesis using i(5) [OF l k(2) k(1) [symmetric]] other [OF k(2,1)] m by simp
    next
      assume m: "b \<noteq> a" "slab_contents (layers_slab ctx) b = Some m"
      show ?thesis using cases [OF a(2)]
      proof (elim disjE conjE)
        assume "c = a" "k = l\<lparr>layer_db := db\<rparr>"
        then show ?thesis using i(5) [OF m(2) l m(1)] other [OF m(2,1)] by auto
      next
        assume "slab_contents (layers_slab ctx) c = Some k"
        from i(5) [OF m(2) this a(3)] show ?thesis .
      qed
    qed
    then show "layer_name m \<noteq> layer_name k" "set (expirables (layer_db m)) \<inter> set (expirables (layer_db k)) = {}" by blast+
  qed
  have "layers ctx' n = ((layers ctx)(layer_name l \<mapsto> db)) n" for n
  proof (rule option_eqI)
    fix d
    show "layers ctx' n = Some d \<longleftrightarrow> ((layers ctx)(layer_name l \<mapsto> db)) n = Some d"
    proof
      assume "layers ctx' n = Some d"
      then obtain b m where b: "slab_contents sl b = Some m" "layer_name m = n" "layer_db m = d"
        unfolding layers_Some [OF inv'] sel by blast
      from cases [OF b(1)] show "((layers ctx)(layer_name l \<mapsto> db)) n = Some d"
      proof
        assume o: "b \<noteq> a \<and> slab_contents (layers_slab ctx) b = Some m"
        then have "layer_name m \<noteq> layer_name l" using i(5) [OF _ l] by blast
        moreover have "layers ctx n = Some d" unfolding layers_Some [OF inv] using o b(2,3) by blast
        ultimately show ?thesis using b(2) by simp
      qed (use b in auto)
    next
      assume r: "((layers ctx)(layer_name l \<mapsto> db)) n = Some d"
      show "layers ctx' n = Some d"
      proof (cases "n = layer_name l")
        case True
        then have "slab_contents sl a = Some (l\<lparr>layer_db := db\<rparr>) \<and> layer_name (l\<lparr>layer_db := db\<rparr>) = n \<and>
            layer_db (l\<lparr>layer_db := db\<rparr>) = d" using r by (simp add: w(3))
        then show ?thesis unfolding layers_Some [OF inv'] sel by blast
      next
        case False
        then have "layers ctx n = Some d" using r by simp
        then obtain b m where b: "slab_contents (layers_slab ctx) b = Some m" "layer_name m = n" "layer_db m = d"
          unfolding layers_Some [OF inv] by blast
        then have "b \<noteq> a" using l False by auto
        then have "slab_contents sl b = Some m" using b(1) by (simp add: w(3))
        then show ?thesis unfolding layers_Some [OF inv'] sel using b by blast
      qed
    qed
  qed
  then have "layers ctx' = (layers ctx)(layer_name l \<mapsto> db)" by blast
  moreover have "\<forall>b m. b \<noteq> a \<longrightarrow> slab_contents (layers_slab ctx) b = Some m \<longrightarrow>
      expires_of exps (layer_db m) = expires_of (expirables_slab ctx) (layer_db m)" using other by blast
  ultimately show ?thesis using w(1,3) inv' unfolding ctx'_def by blast
qed

section \<open>Creating and deleting\<close>

lemma register_new_layer_law:
  assumes inv: "ctx_inv ctx" and new: "layers ctx name = None" "name \<noteq> []"
    and mem: "good_malloc (layer_chunk mem)" "node_mem mem" "name_mem mem"
  shows "\<exists>a ctx' db. register_new_layer mem cfg name ctx = Some (Some a, ctx') \<and> init_pan_db cfg True = Some db \<and>
    ctx_inv ctx' \<and> layers ctx' = (layers ctx)(name \<mapsto> db) \<and> expirables_slab ctx' = expirables_slab ctx \<and>
    published ctx' = published ctx"
proof -
  note i = ctx_invD [OF inv]
  obtain db where db: "init_pan_db cfg True = Some db" "expirables db = []"
    by (simp add: init_pan_db_def new_quad_node_def)
  have dbi: "db_inv (expirables_slab ctx) db" by (rule init_pan_db_inv [OF db(1) i(2)])
  obtain c where c: "layer_chunk mem (layers_slab ctx) = Some c" "chunks (layers_slab ctx) c = None"
    using mem(1) tidy_finite [OF i(1)] unfolding good_malloc_def by blast
  let ?l = "\<lparr>layer_name = name, layer_db = db\<rparr>"
  obtain a sl where add: "add_entry_to_slab (layer_chunk mem (layers_slab ctx)) ?l (layers_slab ctx) = Some (Some a, sl)"
    "tidy sl" "slab_contents (layers_slab ctx) a = None" "slab_contents sl = (slab_contents (layers_slab ctx))(a \<mapsto> ?l)"
    using tidy_add [OF i(1) c, of ?l] by blast
  define ctx' where "ctx' = ctx\<lparr>layers_slab := sl, nb_layers := nb_layers ctx + 1\<rparr>"
  have sel: "layers_slab ctx' = sl" "expirables_slab ctx' = expirables_slab ctx" "nb_layers ctx' = nb_layers ctx + 1"
    "published ctx' = published ctx" by (simp_all add: ctx'_def)
  have run: "register_new_layer mem cfg name ctx = Some (Some a, ctx')"
    using new mem db add(1) by (simp add: register_new_layer_def ctx'_def)
  have fresh: "layer_name m \<noteq> name" if "slab_contents (layers_slab ctx) b = Some m" for b m
  proof
    assume "layer_name m = name"
    then have "layers ctx name = Some (layer_db m)" unfolding layers_Some [OF inv] using that by blast
    then show False using new(1) by simp
  qed
  have cases: "(b = a \<and> m = ?l) \<or> (b \<noteq> a \<and> slab_contents (layers_slab ctx) b = Some m)"
    if "slab_contents sl b = Some m" for b m
    using that unfolding add(4) by (simp split: if_splits)
  have back_in: "slab_contents sl b = Some m" if "slab_contents (layers_slab ctx) b = Some m" for b m
    using that add(3) unfolding add(4) by (cases "b = a") simp_all
  have inv': "ctx_inv ctx'"
    unfolding ctx_inv_def sel
  proof (intro conjI allI impI)
    have "finite (dom (slab_contents (layers_slab ctx)))" by (rule contents_finite [OF tidy_finite [OF i(1)]])
    then show "nb_layers ctx + 1 = card (dom (slab_contents sl))"
      using i(3) add(3) unfolding add(4) dom_fun_upd by (simp add: domIff)
  next
    fix b m assume b: "slab_contents sl b = Some m"
    show "db_inv (expirables_slab ctx) (layer_db m)" "layer_name m \<noteq> []"
      using cases [OF b] dbi new(2) i(4) [of b m] by auto
  next
    fix b m c k assume e: "slab_contents sl b = Some m" "slab_contents sl c = Some k" "b \<noteq> c"
    show "layer_name m \<noteq> layer_name k"
      using cases [OF e(1)] cases [OF e(2)] e(3) fresh [of b m] fresh [of c k] i(5) [of b m c k] by auto
    show "set (expirables (layer_db m)) \<inter> set (expirables (layer_db k)) = {}"
      using cases [OF e(1)] cases [OF e(2)] e(3) db(2) i(5) [of b m c k] by auto
  qed (use add(2) i(2) in auto)
  have "layers ctx' n = ((layers ctx)(name \<mapsto> db)) n" for n
  proof (rule option_eqI)
    fix d
    show "layers ctx' n = Some d \<longleftrightarrow> ((layers ctx)(name \<mapsto> db)) n = Some d"
    proof
      assume "layers ctx' n = Some d"
      then obtain b m where b: "slab_contents sl b = Some m" "layer_name m = n" "layer_db m = d"
        unfolding layers_Some [OF inv'] sel by blast
      from cases [OF b(1)] show "((layers ctx)(name \<mapsto> db)) n = Some d"
      proof
        assume o: "b \<noteq> a \<and> slab_contents (layers_slab ctx) b = Some m"
        then have "layers ctx n = Some d" unfolding layers_Some [OF inv] using b(2,3) by blast
        then show ?thesis using b(2) fresh [of b m] o by simp
      qed (use b in auto)
    next
      assume r: "((layers ctx)(name \<mapsto> db)) n = Some d"
      show "layers ctx' n = Some d"
      proof (cases "n = name")
        case True
        then have "slab_contents sl a = Some ?l \<and> layer_name ?l = n \<and> layer_db ?l = d" using r by (simp add: add(4))
        then show ?thesis unfolding layers_Some [OF inv'] sel by blast
      next
        case False
        then have "layers ctx n = Some d" using r by simp
        then show ?thesis unfolding layers_Some [OF inv] layers_Some [OF inv'] sel using back_in by blast
      qed
    qed
  qed
  then have "layers ctx' = (layers ctx)(name \<mapsto> db)" by blast
  then show ?thesis using run db(1) inv' sel(2,4) by blast
qed

lemma get_pan_db_law:
  assumes inv: "ctx_inv ctx" and db: "layers ctx name = Some db"
  shows "\<exists>a l. get_pan_db_by_layer_name mem cfg name create ctx = Some (0, Some a, ctx) \<and>
    slab_contents (layers_slab ctx) a = Some l \<and> layer_name l = name \<and> layer_db l = db"
proof -
  obtain r where r: "find_layer name ctx = Some r"
    "\<forall>a. r = Some a \<longleftrightarrow> (\<exists>l. slab_contents (layers_slab ctx) a = Some l \<and> layer_name l = name)"
    using find_layer_law [OF inv] by blast
  obtain a l where a: "slab_contents (layers_slab ctx) a = Some l" "layer_name l = name" "layer_db l = db"
    using db layers_Some [OF inv] by blast
  then have "r = Some a" using spec [OF r(2), of a] by blast
  then have "get_pan_db_by_layer_name mem cfg name create ctx = Some (0, Some a, ctx)"
    using r(1) by (simp add: get_pan_db_by_layer_name_def)
  then show ?thesis using a by blast
qed

lemma get_pan_db_none:
  assumes inv: "ctx_inv ctx" and db: "layers ctx name = None"
  shows "get_pan_db_by_layer_name mem cfg name False ctx = Some (- 1, None, ctx)"
    "get_pan_db_by_layer_name mem cfg name True ctx =
      do {
        (layer, ctx') \<leftarrow> register_new_layer mem cfg name ctx;
        (case layer of None \<Rightarrow> Some (- 2, None, ctx') | Some a \<Rightarrow> Some (1, Some a, ctx'))
      }"
proof -
  obtain r where r: "find_layer name ctx = Some r" using find_layer_law [OF inv] by blast
  then have "r = None" using find_layer_None [OF inv r] db by blast
  then show "get_pan_db_by_layer_name mem cfg name False ctx = Some (- 1, None, ctx)"
    "get_pan_db_by_layer_name mem cfg name True ctx =
      do {
        (layer, ctx') \<leftarrow> register_new_layer mem cfg name ctx;
        (case layer of None \<Rightarrow> Some (- 2, None, ctx') | Some a \<Rightarrow> Some (1, Some a, ctx'))
      }"
    using r by (simp_all add: get_pan_db_by_layer_name_def)
qed

lemma send_reply_ctx:
  obtains ret ctx' where "send_reply mem ty op calls ctx = (ret, ctx')" "layers ctx' = layers ctx" "ctx_inv ctx' = ctx_inv ctx"
    "expirables_slab ctx' = expirables_slab ctx"
  using that by (cases "reply_op (reply_mem mem) ty op calls (published ctx)") (simp add: send_reply_def)

lemma layers_create_law:
  assumes "ctx_inv ctx" "good_malloc (layer_chunk mem)" "node_mem mem" "name_mem mem"
  shows "\<exists>ret ctx' db. handle_op_layers_create mem cfg op name ctx = Some (ret, ctx') \<and> ctx_inv ctx' \<and>
    init_pan_db cfg True = Some db \<and>
    layers ctx' = (if name \<noteq> [] \<and> layers ctx name = None then (layers ctx)(name \<mapsto> db) else layers ctx)"
proof -
  obtain d where d: "init_pan_db cfg True = Some d" by (simp add: init_pan_db_def new_quad_node_def)
  obtain status pdb ctx1 where g: "get_pan_db_by_layer_name mem cfg name True ctx = Some (status, pdb, ctx1)" "ctx_inv ctx1"
    "pdb \<noteq> None \<or> status < 0"
    "layers ctx1 = (if name \<noteq> [] \<and> layers ctx name = None then (layers ctx)(name \<mapsto> d) else layers ctx)"
  proof (cases "layers ctx name")
    case (Some db)
    from get_pan_db_law [OF assms(1) Some] obtain a where
      "get_pan_db_by_layer_name mem cfg name True ctx = Some (0, Some a, ctx)" by blast
    then show ?thesis using that assms(1) Some by simp
  next
    case None
    note n = get_pan_db_none(2) [OF assms(1) None]
    show ?thesis
    proof (cases "name = []")
      case True
      then have "get_pan_db_by_layer_name mem cfg name True ctx = Some (- 2, None, ctx)"
        using n by (simp add: register_new_layer_def)
      then show ?thesis using that assms(1) True by simp
    next
      case False
      obtain a ctx1 where r: "register_new_layer mem cfg name ctx = Some (Some a, ctx1)" "ctx_inv ctx1"
        "layers ctx1 = (layers ctx)(name \<mapsto> d)"
        using register_new_layer_law [OF assms(1) None False assms(2-4), of cfg] d by auto
      then have "get_pan_db_by_layer_name mem cfg name True ctx = Some (1, Some a, ctx1)" using n by simp
      then show ?thesis using that r(2,3) None False by simp
    qed
  qed
  obtain ret ctx' where s: "send_reply mem OP_TYPE_LAYERS_CREATE op
      [gen_str ''status'',
       gen_str (if status = 0 then ''existing'' else if status > 0 then ''created'' else ''error'')] ctx1 = (ret, ctx')"
    "layers ctx' = layers ctx1" "ctx_inv ctx' = ctx_inv ctx1" by (rule send_reply_ctx)
  have "c_assert (pdb \<noteq> None \<or> status < 0) = Some ()" using g(3) by simp
  then have "handle_op_layers_create mem cfg op name ctx = Some (ret, ctx')"
    by (simp only: handle_op_layers_create_def g(1) s(1) bind.bind_lunit prod.case)
  then show ?thesis using s(2,3) g(2,4) d by auto
qed

text \<open>
  C18: creating a layer. A name that is not in use gets a new, empty layer; an existing layer is kept as it is, and an
  empty name creates nothing; all other layers are untouched. The operation never faults.
\<close>

theorem layers_create_adds:
  assumes "ctx_inv ctx" "good_malloc (layer_chunk mem)" "node_mem mem" "name_mem mem"
  shows "\<exists>ret ctx' db. handle_op_layers_create mem cfg op name ctx = Some (ret, ctx') \<and> ctx_inv ctx' \<and>
    init_pan_db cfg True = Some db \<and>
    layers ctx' = (if name \<noteq> [] \<and> layers ctx name = None then (layers ctx)(name \<mapsto> db) else layers ctx)"
  by (rule layers_create_law [OF assms])

lemma delete_layer_law:
  assumes inv: "ctx_inv ctx" and db: "layers ctx name = Some db" and few: "nb_layers ctx < 64"
  shows "\<exists>ctx'. delete_layer_by_layer_name name ctx = Some (0, ctx') \<and> ctx_inv ctx' \<and>
    layers ctx' = (layers ctx)(name := None) \<and>
    (\<forall>e \<in> set (expirables db). slab_contents (expirables_slab ctx') e = None) \<and>
    (\<forall>n d. n \<noteq> name \<longrightarrow> layers ctx n = Some d \<longrightarrow> expires_of (expirables_slab ctx') d = expires_of (expirables_slab ctx) d)"
proof -
  note i = ctx_invD [OF inv]
  obtain r where r: "find_layer name ctx = Some r"
    "\<forall>a. r = Some a \<longleftrightarrow> (\<exists>l. slab_contents (layers_slab ctx) a = Some l \<and> layer_name l = name)"
    using find_layer_law [OF inv] by blast
  obtain a l where a: "slab_contents (layers_slab ctx) a = Some l" "layer_name l = name" "layer_db l = db"
    using db layers_Some [OF inv] by blast
  then have ra: "r = Some a" using spec [OF r(2), of a] by blast
  have "db_inv (expirables_slab ctx) db" using i(4) [OF a(1)] a(3) by simp
  from free_pan_db_ok [OF this] obtain exps where f: "free_pan_db (expirables_slab ctx) db = Some exps"
    "exps_change (expirables_slab ctx) exps (set (expirables db)) {}"
    "\<forall>e \<in> set (expirables db). slab_contents exps e = None" by blast
  have fin: "finite (dom (slab_contents (layers_slab ctx)))" by (rule contents_finite [OF tidy_finite [OF i(1)]])
  have "a \<in> dom (slab_contents (layers_slab ctx))" using a(1) by blast
  note card = card.remove [OF fin this]
  have "slab_contents (layers_slab ctx) a \<noteq> None" using a(1) by simp
  from tidy_remove [OF i(1) this] obtain sl where s: "remove_entry_from_slab a (layers_slab ctx) = Some (0, sl)" "tidy sl"
    "slab_contents sl = (slab_contents (layers_slab ctx))(a := None)" using few i(3) by auto
  define ctx' where "ctx' = ctx\<lparr>layers_slab := sl, nb_layers := nb_layers ctx - 1, expirables_slab := exps\<rparr>"
  have sel: "layers_slab ctx' = sl" "expirables_slab ctx' = exps" "nb_layers ctx' = nb_layers ctx - 1"
    by (simp_all add: ctx'_def)
  have pos: "nb_layers ctx > 0" using i(3) card by simp
  have run: "delete_layer_by_layer_name name ctx = Some (0, ctx')"
    using r(1) ra a f(1) s(1) pos by (simp add: delete_layer_by_layer_name_def ctx'_def)
  have old: "b \<noteq> a \<and> slab_contents (layers_slab ctx) b = Some m" if "slab_contents sl b = Some m" for b m
    using that unfolding s(3) by (simp split: if_splits)
  have frame: "slab_contents exps e = slab_contents (expirables_slab ctx) e"
    if b: "b \<noteq> a" "slab_contents (layers_slab ctx) b = Some m" and e: "e \<in> set (expirables (layer_db m))" for b m e
  proof (rule exps_changeD(2) [OF f(2)])
    show "e \<notin> set (expirables db)" using i(5) [of b m a l] b a e by auto
    show "slab_contents (expirables_slab ctx) e \<noteq> None"
      using i(4) [of b m] b e db_invD(7) unfolding exp_inv_def exp_tree_inv_def by blast
  qed
  have others: "db_inv exps (layer_db m)" "expires_of exps (layer_db m) = expires_of (expirables_slab ctx) (layer_db m)"
    if b: "b \<noteq> a" "slab_contents (layers_slab ctx) b = Some m" for b m
    using db_inv_frame [of "expirables_slab ctx" "layer_db m" exps] i(4) [of b m] b exps_changeD(1) [OF f(2)] frame [OF b] by blast+
  have inv': "ctx_inv ctx'"
    unfolding ctx_inv_def sel
  proof (intro conjI allI impI)
    show "slab_inv exps" by (rule exps_changeD(1) [OF f(2)])
    show "nb_layers ctx - 1 = card (dom (slab_contents sl))" using i(3) card unfolding s(3) dom_fun_upd by simp
  next
    fix b m assume "slab_contents sl b = Some m"
    note b = old [OF this]
    show "db_inv exps (layer_db m)" using others(1) b by blast
    show "layer_name m \<noteq> []" using i(4) [of b m] b by blast
  next
    fix b m c k assume e: "slab_contents sl b = Some m" "slab_contents sl c = Some k" "b \<noteq> c"
    then show "layer_name m \<noteq> layer_name k" "set (expirables (layer_db m)) \<inter> set (expirables (layer_db k)) = {}"
      using i(5) [of b m c k] old [OF e(1)] old [OF e(2)] by blast+
  qed (use s(2) in auto)
  have "layers ctx' n = ((layers ctx)(name := None)) n" for n
  proof (rule option_eqI)
    fix d
    have "(\<exists>b m. slab_contents sl b = Some m \<and> layer_name m = n \<and> layer_db m = d) \<longleftrightarrow>
        n \<noteq> name \<and> (\<exists>b m. slab_contents (layers_slab ctx) b = Some m \<and> layer_name m = n \<and> layer_db m = d)"
    proof
      assume "\<exists>b m. slab_contents sl b = Some m \<and> layer_name m = n \<and> layer_db m = d"
      then obtain b m where b: "slab_contents sl b = Some m" "layer_name m = n" "layer_db m = d" by blast
      note o = old [OF b(1)]
      have "layer_name m \<noteq> layer_name l" using i(5) [of b m a l] o a(1) by blast
      then show "n \<noteq> name \<and> (\<exists>b m. slab_contents (layers_slab ctx) b = Some m \<and> layer_name m = n \<and> layer_db m = d)"
        using o b(2,3) unfolding b(2) [symmetric] a(2) [symmetric] by blast
    next
      assume n: "n \<noteq> name \<and> (\<exists>b m. slab_contents (layers_slab ctx) b = Some m \<and> layer_name m = n \<and> layer_db m = d)"
      then obtain b m where b: "slab_contents (layers_slab ctx) b = Some m" "layer_name m = n" "layer_db m = d" by blast
      then have "b \<noteq> a" using n a by auto
      then have "slab_contents sl b = Some m" using b(1) by (simp add: s(3))
      then show "\<exists>b m. slab_contents sl b = Some m \<and> layer_name m = n \<and> layer_db m = d" using b by blast
    qed
    then show "layers ctx' n = Some d \<longleftrightarrow> ((layers ctx)(name := None)) n = Some d"
      unfolding layers_Some [OF inv'] sel using layers_Some [OF inv, of n d] by simp
  qed
  then have "layers ctx' = (layers ctx)(name := None)" by blast
  moreover have "expires_of exps d = expires_of (expirables_slab ctx) d" if n: "n \<noteq> name" "layers ctx n = Some d" for n d
  proof -
    obtain b m where m: "slab_contents (layers_slab ctx) b = Some m" "layer_name m = n" "layer_db m = d" using n(2) layers_Some [OF inv] by blast
    then have "b \<noteq> a" using n(1) a by auto
    then show ?thesis using others(2) m by blast
  qed
  ultimately show ?thesis using run inv' f(3) sel(2) by (intro exI [of _ ctx']) simp
qed

lemma layers_delete_law:
  assumes "ctx_inv ctx" "nb_layers ctx < 64"
  shows "\<exists>ret ctx'. handle_op_layers_delete mem op name ctx = Some (ret, ctx') \<and> ctx_inv ctx' \<and>
    layers ctx' = (layers ctx)(name := None) \<and> (layers ctx name = None \<longrightarrow> ret = HTTP_NOTFOUND \<and> ctx' = ctx) \<and>
    (\<forall>db. layers ctx name = Some db \<longrightarrow> (\<forall>e \<in> set (expirables db). slab_contents (expirables_slab ctx') e = None)) \<and>
    (\<forall>n d. n \<noteq> name \<longrightarrow> layers ctx n = Some d \<longrightarrow> expires_of (expirables_slab ctx') d = expires_of (expirables_slab ctx) d)"
proof (cases "layers ctx name")
  case None
  obtain r where r: "find_layer name ctx = Some r" using find_layer_law [OF assms(1)] by blast
  then have "r = None" using find_layer_None [OF assms(1) r] None by blast
  then have "handle_op_layers_delete mem op name ctx = Some (HTTP_NOTFOUND, ctx)"
    using r by (simp add: handle_op_layers_delete_def delete_layer_by_layer_name_def)
  then show ?thesis using assms(1) None by (auto simp: fun_upd_idem)
next
  case (Some db)
  obtain ctx1 where d: "delete_layer_by_layer_name name ctx = Some (0, ctx1)" "ctx_inv ctx1"
    "layers ctx1 = (layers ctx)(name := None)" "\<forall>e \<in> set (expirables db). slab_contents (expirables_slab ctx1) e = None"
    "\<forall>n d. n \<noteq> name \<longrightarrow> layers ctx n = Some d \<longrightarrow> expires_of (expirables_slab ctx1) d = expires_of (expirables_slab ctx) d"
    using delete_layer_law [OF assms(1) Some assms(2)] by blast
  obtain ret ctx' where s: "send_reply mem OP_TYPE_LAYERS_DELETE op [gen_str ''status'', gen_str ''deleted''] ctx1 = (ret, ctx')"
    "layers ctx' = layers ctx1" "ctx_inv ctx' = ctx_inv ctx1" "expirables_slab ctx' = expirables_slab ctx1" by (rule send_reply_ctx)
  have "handle_op_layers_delete mem op name ctx = Some (ret, ctx')"
    using d(1) s(1) by (simp add: handle_op_layers_delete_def)
  then show ?thesis using d s Some by (intro exI [of _ ret] exI [of _ ctx']) simp
qed

text \<open>
  C19: deleting a layer removes this layer and no other, and releases its expirables; a layer that does not exist is answered
  with 404 and nothing changes. The operation never faults. At most 63 layers may exist: beyond that the slab of the layers
  may lose some.
\<close>

theorem layers_delete_removes:
  assumes "ctx_inv ctx" "nb_layers ctx < 64"
  shows "\<exists>ret ctx'. handle_op_layers_delete mem op name ctx = Some (ret, ctx') \<and> ctx_inv ctx' \<and>
    layers ctx' = (layers ctx)(name := None) \<and> (layers ctx name = None \<longrightarrow> ret = HTTP_NOTFOUND \<and> ctx' = ctx) \<and>
    (\<forall>db. layers ctx name = Some db \<longrightarrow> (\<forall>e \<in> set (expirables db). slab_contents (expirables_slab ctx') e = None))"
  using layers_delete_law [OF assms, of mem op name] by (elim exE conjE) (intro exI conjI)

section \<open>Witnesses\<close>

text \<open>The first free address for a key node.\<close>

partial_function (option) free_node_from :: "nat \<Rightarrow> node_heap \<Rightarrow> nat option" where
  "free_node_from a h = (if h a = None then Some a else free_node_from (a + 1) h)"

definition sample_mem :: memory where
  "sample_mem =
     \<lparr>slot_chunks = free_from 0, node_mem = True, layer_chunk = free_from 0, expirable_chunk = free_from 0,
      key_node_mem = free_node_from 0, map_mem = Some 0, name_mem = True, stack_mem = True, reply_mem = True\<rparr>"

definition sample_cfg :: db_defaults where
  "sample_cfg =
     \<lparr>dimension_accuracy = Fin (1 / 1024), default_layer_type = LAYER_TYPE_ELLIPSOIDAL, default_accuracy = ACCURACY_HS\<rparr>"

definition sample_op :: bare_op where
  "sample_op = \<lparr>op_req = 1, fake_req = False, op_tid = 1\<rparr>"

lemma sample_mem_good:
  "good_malloc (layer_chunk sample_mem)" "node_mem sample_mem" "name_mem sample_mem" "good_malloc (slot_chunks sample_mem)"
  "good_malloc (expirable_chunk sample_mem)"
  by (simp_all add: sample_mem_def free_from_good)

theorem layers_create_adds_witness:
  "\<exists>ret ctx'. handle_op_layers_create sample_mem sample_cfg sample_op (bytes_of ''restaurants'') (init_context 0) = Some (ret, ctx') \<and>
     layers ctx' (bytes_of ''restaurants'') \<noteq> None"
  using layers_create_adds [OF init_context_inv(1) [of 0] sample_mem_good(1-3), of sample_cfg sample_op "bytes_of ''restaurants''"]
  by (auto simp: init_context_inv bytes_of_def)

theorem layers_delete_removes_witness:
  "\<exists>a ctx1 ret ctx2. register_new_layer sample_mem sample_cfg (bytes_of ''restaurants'') (init_context 0) = Some (Some a, ctx1) \<and>
     layers ctx1 (bytes_of ''restaurants'') \<noteq> None \<and>
     handle_op_layers_delete sample_mem sample_op (bytes_of ''restaurants'') ctx1 = Some (ret, ctx2) \<and>
     layers ctx2 (bytes_of ''restaurants'') = None"
proof -
  have n: "layers (init_context 0) (bytes_of ''restaurants'') = None" "bytes_of ''restaurants'' \<noteq> []"
    by (simp_all add: init_context_inv bytes_of_def)
  obtain a ctx1 db where r: "register_new_layer sample_mem sample_cfg (bytes_of ''restaurants'') (init_context 0) = Some (Some a, ctx1)"
    "ctx_inv ctx1" "layers ctx1 = (layers (init_context 0))(bytes_of ''restaurants'' \<mapsto> db)"
    using register_new_layer_law [OF init_context_inv(1) n sample_mem_good(1-3), of sample_cfg] by blast
  have "nb_layers ctx1 = 1"
    using r(1) by (auto simp: register_new_layer_def init_context_def split: if_splits bind_splits option.splits)
  then show ?thesis
    using layers_delete_removes [OF r(2), of sample_mem sample_op "bytes_of ''restaurants''"] r(1,3)
    by (intro exI [of _ a] exI [of _ ctx1]) auto
qed

end
