(* ===== verification/Purge.thy ===== *)
theory Purge
  imports Layers
begin

text \<open>
  Expiration (\<open>expirables.c\<close>): has_expired_keys looks at the earliest expirable of every layer, purge_expired_keys
  removes the records whose time has come, from the index, the tree of key nodes, the tree and the
  slab of expirables. The callback walks a layer's tree from its minimum; the next entry is read before a record
  is freed, so the walk follows the tree as it was. SPREAD_EXPIRATION is 0, its default. The theorem: exactly
  the expired records are gone, in every layer, and nothing else changes.
\<close>

section \<open>Operations\<close>

definition has_expired_keys_in_layer ::
  "int \<Rightarrow> expirable slab \<Rightarrow> bool \<Rightarrow> slab_entry \<Rightarrow> layer \<Rightarrow> (int \<times> bool) option" where
  "has_expired_keys_in_layer t exps has_expired a layer =
     (case expirables (layer_db layer) of
        [] \<Rightarrow> Some (0, has_expired)
      | e # _ \<Rightarrow>
          do {
            x \<leftarrow> slab_contents exps e;
            (if t \<ge> exp_ts x then Some (1, True) else Some (0, has_expired))
          })"

definition has_expired_keys :: "http_context \<Rightarrow> bool option" where
  "has_expired_keys ctx =
     do {
       (_, has_expired) \<leftarrow>
         slab_foreach (has_expired_keys_in_layer (now ctx) (expirables_slab ctx)) (layers_slab ctx) False;
       Some has_expired
     }"

text \<open>The record's slot leaves the index, if it has one.\<close>

definition purge_slot :: "memory \<Rightarrow> nat \<Rightarrow> key_node \<Rightarrow> expirable slab \<Rightarrow> pan_db \<Rightarrow> (int \<times> expirable slab \<times> pan_db) option" where
  "purge_slot mem a n exps db =
     (if kn_slot n \<noteq> None then
        do {
          (ret, exps1, db1) \<leftarrow> remove_entry_from_key_node (slot_chunks mem) (node_mem mem) a False exps db;
          (if ret \<noteq> 0 then Some (- 1, exps1, db1)
           else do { db2 \<leftarrow> clear_slot_of a db1; Some (0, exps1, db2) })
        }
      else Some (0, exps, db))"

text \<open>The body of the loop for the record of one expirable.\<close>

definition purge_record ::
  "memory \<Rightarrow> slab_entry \<Rightarrow> expirable \<Rightarrow> expirable slab \<Rightarrow> pan_db \<Rightarrow> (int \<times> expirable slab \<times> pan_db) option" where
  "purge_record mem e x exps db =
     do {
       n \<leftarrow> nodes_of db (exp_key_node x);
       c_assert (kn_expirable n \<noteq> None);
       c_assert (kn_expirable n = Some e);
       (ret, exps1, db1) \<leftarrow> purge_slot mem (exp_key_node x) n exps db;
       (if ret \<noteq> 0 then Some (ret, exps1, db1)
        else
          do {
            (exps', db') \<leftarrow> free_key_node (exp_key_node x) exps1 (remove_node_from_tree (exp_key_node x) db1);
            Some (0, exps', db')
          })
     }"

fun purge_loop ::
  "memory \<Rightarrow> int \<Rightarrow> slab_entry list \<Rightarrow> expirable slab \<Rightarrow> pan_db \<Rightarrow> bool \<Rightarrow> (int \<times> expirable slab \<times> pan_db \<times> bool) option" where
  "purge_loop mem t [] exps db did_purge = Some (0, exps, db, did_purge)"
| "purge_loop mem t (e # es) exps db did_purge =
     do {
       x \<leftarrow> slab_contents exps e;
       (if t < exp_ts x then Some (0, exps, db, did_purge)
        else
          do {
            (ret, exps', db') \<leftarrow> purge_record mem e x exps db;
            (if ret \<noteq> 0 then Some (ret, exps', db', did_purge)
             else purge_loop mem t es exps' db' True)
          })
     }"

text \<open>The callback works on the layer in its slab: its new state is written back.\<close>

definition purge_expired_keys_from_layer ::
  "memory \<Rightarrow> (http_context \<times> bool) \<Rightarrow> slab_entry \<Rightarrow> layer \<Rightarrow> (int \<times> http_context \<times> bool) option" where
  "purge_expired_keys_from_layer mem cb_context a layer =
     (case cb_context of (ctx, did_purge) \<Rightarrow>
        do {
          (ret, exps, db, did) \<leftarrow>
            purge_loop mem (now ctx) (expirables (layer_db layer)) (expirables_slab ctx) (layer_db layer) did_purge;
          sl \<leftarrow> write_entry a (layer_db_update (\<lambda>_. db)) (layers_slab ctx);
          Some (ret, ctx\<lparr>layers_slab := sl, expirables_slab := exps\<rparr>, did)
        })"

definition purge_expired_keys :: "memory \<Rightarrow> http_context \<Rightarrow> (int \<times> http_context) option" where
  "purge_expired_keys mem ctx =
     do {
       expired \<leftarrow> has_expired_keys ctx;
       (if \<not> expired then Some (0, ctx)
        else
          do {
            (_, ctx', did_purge) \<leftarrow> slab_foreach (purge_expired_keys_from_layer mem) (layers_slab ctx) (ctx, False);
            Some (if did_purge then 1 else 0, ctx')
          })
     }"

section \<open>One layer\<close>

definition expired :: "expirable slab \<Rightarrow> pan_db \<Rightarrow> int \<Rightarrow> nat \<Rightarrow> bool" where
  "expired exps db t a = (case expires_of exps db a of None \<Rightarrow> False | Some ts \<Rightarrow> ts \<le> t)"

text \<open>db' is db without the records of K.\<close>

definition without :: "nat set \<Rightarrow> expirable slab \<Rightarrow> pan_db \<Rightarrow> expirable slab \<Rightarrow> pan_db \<Rightarrow> bool" where
  "without K exps db exps' db' =
     (node_of_key (key_nodes db') = (\<lambda>key. case node_of_key (key_nodes db) key of
         None \<Rightarrow> None | Some a \<Rightarrow> if a \<in> K then None else Some a) \<and>
      position_of db' = (\<lambda>a. if a \<in> K then None else position_of db a) \<and>
      expires_of exps' db' = (\<lambda>a. if a \<in> K then None else expires_of exps db a) \<and>
      properties_of db' = (\<lambda>a. if a \<in> K then None else properties_of db a) \<and> same_db db db')"

lemma without_none: "without {} exps db exps db"
  by (auto simp: without_def fun_eq_iff split: option.splits)

lemma without_trans:
  "without K exps db exps1 db1 \<Longrightarrow> without L exps1 db1 exps2 db2 \<Longrightarrow> without (K \<union> L) exps db exps2 db2"
  by (auto simp: without_def fun_eq_iff same_db_def split: option.splits)

lemma purge_slot_ok:
  assumes inv: "db_inv exps db" and n: "nodes_of db a = Some n" and small: "small_bucket db a"
    and mem: "good_malloc (slot_chunks mem)" "node_mem mem"
  shows "\<exists>db1 n1. purge_slot mem a n exps db = Some (0, exps, db1) \<and> db_inv exps db1 \<and> nodes_of db1 a = Some n1 \<and>
    kn_slot n1 = None \<and> kn_expirable n1 = kn_expirable n \<and> kn_key n1 = kn_key n \<and> (small_buckets db \<longrightarrow> small_buckets db1) \<and>
    (buckets_bounded db \<longrightarrow> buckets_bounded db1) \<and> expirables db1 = expirables db \<and> position_of db1 = (position_of db)(a := None) \<and> expires_of exps db1 = expires_of exps db \<and>
    properties_of db1 = properties_of db \<and> node_of_key (key_nodes db1) = node_of_key (key_nodes db) \<and> same_db db db1"
proof (cases "kn_slot n")
  case None
  have "position_of db a = None" using n None by (simp add: position_of_def)
  then have "position_of db = (position_of db)(a := None)" by auto
  then show ?thesis using None n inv by (intro exI [of _ db] exI [of _ n]) (simp add: purge_slot_def)
next
  case (Some ptr)
  then have sl: "kn_slot n \<noteq> None" by simp
  obtain db0 db1 where r: "remove_entry_from_key_node (slot_chunks mem) True a False exps db = Some (0, exps, db0)"
    "clear_slot_of a db0 = Some db1" "db_inv exps db1" "nodes_of db1 a = Some (n\<lparr>kn_slot := None\<rparr>)"
    "position_of db1 = (position_of db)(a := None)" "expires_of exps db1 = expires_of exps db"
    "properties_of db1 = properties_of db" "node_of_key (key_nodes db1) = node_of_key (key_nodes db)" "same_db db db1"
    "expirables db1 = expirables db" "small_buckets db \<longrightarrow> small_buckets db1"
    using remove_and_clear_law [OF inv mem(1) n sl small] by blast
  then have "purge_slot mem a n exps db = Some (0, exps, db1)" using mem(2) Some by (simp add: purge_slot_def)
  moreover have "buckets_bounded db \<longrightarrow> buckets_bounded db1" using remove_entry_bounded [OF inv _ r(1)] clear_slot_bounded [OF r(2)] by blast
  ultimately show ?thesis using r(3-11) by (intro exI [of _ db1] exI [of _ "n\<lparr>kn_slot := None\<rparr>"]) simp
qed

lemma purge_record_ok:
  assumes inv: "db_inv exps db" and small: "small_buckets db" and mem: "good_malloc (slot_chunks mem)" "node_mem mem"
    and e: "expirables db = e # es" "slab_contents exps e = Some x"
  shows "\<exists>exps' db'. purge_record mem e x exps db = Some (0, exps', db') \<and> db_inv exps' db' \<and> small_buckets db' \<and>
    expirables db' = es \<and> without {exp_key_node x} exps db exps' db' \<and>
    exps_change exps exps' (set (expirables db)) (set (expirables db'))"
proof -
  let ?a = "exp_key_node x"
  have xi: "exp_inv exps (nodes_of db) (expirables db)" by (rule db_invD(7) [OF inv])
  have at: "exp_at exps e = x" using e(2) by (simp add: exp_at_def)
  obtain n where n: "nodes_of db ?a = Some n" "kn_expirable n = Some e"
    using xi e(1) at unfolding exp_inv_def by fastforce
  obtain db1 n1 where s: "purge_slot mem ?a n exps db = Some (0, exps, db1)" "db_inv exps db1" "nodes_of db1 ?a = Some n1" "kn_slot n1 = None"
    "kn_expirable n1 = Some e" "kn_key n1 = kn_key n" "small_buckets db1" "expirables db1 = expirables db"
    "position_of db1 = (position_of db)(?a := None)" "expires_of exps db1 = expires_of exps db"
    "properties_of db1 = properties_of db" "node_of_key (key_nodes db1) = node_of_key (key_nodes db)" "same_db db db1"
    using purge_slot_ok [OF inv n(1) small_bucketsD [OF small] mem] n(2) small by auto
  obtain exps' db' where f: "free_key_node ?a exps (remove_node_from_tree ?a db1) = Some (exps', db')" "db_inv exps' db'"
    "db_root db' = db_root db1" "position_of db' = position_of db1" "expires_of exps' db' = (expires_of exps db1)(?a := None)"
    "properties_of db' = (properties_of db1)(?a := None)"
    "node_of_key (key_nodes db') = (node_of_key (key_nodes db1))(kn_key n1 := None)" "same_db db1 db'"
    "slab_inv exps'" "\<forall>e'. slab_contents exps' e' = (if kn_expirable n1 = Some e' then None else slab_contents exps e')"
    "set (expirables db') = set (expirables db1) - set_option (kn_expirable n1)"
    "expirables db' = (case kn_expirable n1 of None \<Rightarrow> expirables db1 | Some e' \<Rightarrow> rb_remove e' (expirables db1))"
    using free_key_node_law [OF s(2-4)] by blast
  have run: "purge_record mem e x exps db = Some (0, exps', db')"
    by (simp add: purge_record_def n s(1) f(1))
  have "expirables db' = es" using f(12) s(5,8) e(1) by (simp add: rb_remove_def)
  moreover have "small_buckets db'" using s(7) f(3,8) by (simp add: small_buckets_def same_db_def)
  moreover have "exps_change exps exps' (set (expirables db)) (set (expirables db'))"
    by (rule free_exps_change [OF f(9,10)]) (use f(11) s(5,8) e(1) in simp_all)
  moreover have "without {?a} exps db exps' db'"
  proof -
    have iff: "node_of_key (key_nodes db) key = Some ?a \<longleftrightarrow> key = kn_key n" for key
      unfolding node_of_key_Some [OF db_invD(2) [OF inv]] using db_invD(3) [OF inv] n(1) by (auto simp: key_at_def)
    have "((node_of_key (key_nodes db))(kn_key n := None)) key =
        (case node_of_key (key_nodes db) key of None \<Rightarrow> None | Some a \<Rightarrow> if a \<in> {?a} then None else Some a)" for key
      using iff [of key] by (cases "node_of_key (key_nodes db) key") auto
    then have k: "(node_of_key (key_nodes db))(kn_key n := None) =
        (\<lambda>key. case node_of_key (key_nodes db) key of None \<Rightarrow> None | Some a \<Rightarrow> if a \<in> {?a} then None else Some a)" by blast
    have upd: "m(?a := None) = (\<lambda>a. if a \<in> {?a} then None else m a)" for m :: "nat \<Rightarrow> 'x option" by auto
    show ?thesis
      unfolding without_def f(4-7) s(6,9-12) k upd using same_db_trans [OF s(13) f(8)] by blast
  qed
  ultimately show ?thesis using run f(2) by blast
qed

text \<open>The tree is sorted by time: when the first entry is not due, none is.\<close>

lemma expired_iff:
  assumes inv: "db_inv exps db"
  shows "expired exps db t a \<longleftrightarrow> (\<exists>e \<in> set (expirables db). exp_key_node (exp_at exps e) = a \<and> exp_ts (exp_at exps e) \<le> t)"
proof -
  have x: "exp_inv exps (nodes_of db) (expirables db)" by (rule db_invD(7) [OF inv])
  show ?thesis
  proof
    assume "expired exps db t a"
    then obtain ts where "expires_of exps db a = Some ts" "ts \<le> t" by (auto simp: expired_def split: option.splits)
    then obtain n e y where n: "nodes_of db a = Some n" "kn_expirable n = Some e" "slab_contents exps e = Some y" "exp_ts y \<le> t"
      by (auto simp: expires_of_def split: bind_splits)
    then have "e \<in> set (expirables db)" "exp_key_node (exp_at exps e) = a" using x unfolding exp_inv_def by blast+
    then show "\<exists>e \<in> set (expirables db). exp_key_node (exp_at exps e) = a \<and> exp_ts (exp_at exps e) \<le> t"
      using n(3,4) by (intro bexI [of _ e]) (simp_all add: exp_at_def)
  next
    assume "\<exists>e \<in> set (expirables db). exp_key_node (exp_at exps e) = a \<and> exp_ts (exp_at exps e) \<le> t"
    then obtain e where e: "e \<in> set (expirables db)" "exp_key_node (exp_at exps e) = a" "exp_ts (exp_at exps e) \<le> t" by blast
    then obtain n y where "nodes_of db a = Some n" "kn_expirable n = Some e" "slab_contents exps e = Some y"
      using x unfolding exp_inv_def exp_tree_inv_def by blast
    then show "expired exps db t a" using e by (simp add: expired_def expires_of_def exp_at_def)
  qed
qed

lemma expirable_cmp_ts: "expirable_cmp x y < 0 \<Longrightarrow> exp_ts x \<le> exp_ts y"
  by (simp add: expirable_cmp_def split: if_splits)

lemma head_not_due:
  assumes inv: "db_inv exps db" and e: "expirables db = e # es" "t < exp_ts (exp_at exps e)"
  shows "\<not> expired exps db t a"
proof -
  have "expirable_cmp (exp_at exps e) (exp_at exps y) < 0" if "y \<in> set es" for y
    using db_invD(7) [OF inv] e(1) that unfolding exp_inv_def exp_tree_inv_def by (simp add: ec.sorted_Cons)
  from expirable_cmp_ts [OF this] have lt: "t < exp_ts (exp_at exps y)" if "y \<in> set es" for y
    using that e(2) by fastforce
  then have "\<not> exp_ts (exp_at exps y) \<le> t" if "y \<in> set (expirables db)" for y
  proof (cases "y = e")
    case True
    then show ?thesis using e(2) by simp
  next
    case False
    then have "y \<in> set es" using that e(1) by simp
    from lt [OF this] show ?thesis by simp
  qed
  then show ?thesis unfolding expired_iff [OF inv] by blast
qed

lemma purge_loop_ok:
  assumes mem: "good_malloc (slot_chunks mem)" "node_mem mem"
  shows "db_inv exps db \<Longrightarrow> small_buckets db \<Longrightarrow> es = expirables db \<Longrightarrow>
    \<exists>exps' db'. purge_loop mem t es exps db did = Some (0, exps', db', did \<or> (\<exists>a. expired exps db t a)) \<and>
      db_inv exps' db' \<and> small_buckets db' \<and> without {a. expired exps db t a} exps db exps' db' \<and>
      exps_change exps exps' (set (expirables db)) (set (expirables db'))"
proof (induction es arbitrary: exps db did)
  case Nil
  then have "\<not> expired exps db t a" for a unfolding expired_iff [OF Nil.prems(1)] by simp
  then show ?case
    using Nil.prems without_none [of exps db] db_invD(7) [OF Nil.prems(1)]
    by (simp add: exps_change_refl exp_inv_def)
next
  case (Cons e es)
  have tree: "expirables db = e # es" using Cons.prems(3) by simp
  have xi: "exp_inv exps (nodes_of db) (expirables db)" by (rule db_invD(7) [OF Cons.prems(1)])
  then obtain x where x: "slab_contents exps e = Some x" using tree unfolding exp_inv_def exp_tree_inv_def by fastforce
  then have at: "exp_at exps e = x" by (simp add: exp_at_def)
  show ?case
  proof (cases "t < exp_ts x")
    case True
    then have "\<not> expired exps db t a" for a using head_not_due [OF Cons.prems(1) tree] at by simp
    then show ?thesis
      using Cons.prems(1,2) x True without_none [of exps db] xi by (simp add: exps_change_refl exp_inv_def)
  next
    case False
    obtain exps1 db1 where r: "purge_record mem e x exps db = Some (0, exps1, db1)" "db_inv exps1 db1" "small_buckets db1"
      "expirables db1 = es" "without {exp_key_node x} exps db exps1 db1"
      "exps_change exps exps1 (set (expirables db)) (set (expirables db1))"
      using purge_record_ok [OF Cons.prems(1,2) mem tree x] by blast
    obtain exps' db' where i: "purge_loop mem t es exps1 db1 True = Some (0, exps', db', True \<or> (\<exists>a. expired exps1 db1 t a))"
      "db_inv exps' db'" "small_buckets db'" "without {a. expired exps1 db1 t a} exps1 db1 exps' db'"
      "exps_change exps1 exps' (set (expirables db1)) (set (expirables db'))"
      using Cons.IH [OF r(2,3) r(4) [symmetric], of True] by blast
    have due: "expired exps db t (exp_key_node x)"
      unfolding expired_iff [OF Cons.prems(1)] using tree at False by (intro bexI [of _ e]) simp_all
    have "expired exps1 db1 t a \<longleftrightarrow> a \<noteq> exp_key_node x \<and> expired exps db t a" for a
      using r(5) by (auto simp: without_def expired_def)
    then have all: "{exp_key_node x} \<union> {a. expired exps1 db1 t a} = {a. expired exps db t a}" using due by auto
    have "purge_loop mem t (e # es) exps db did = Some (0, exps', db', did \<or> (\<exists>a. expired exps db t a))"
      using x False r(1) i(1) due by auto
    then show ?thesis
      using i(2,3) without_trans [OF r(5) i(4)] exps_change_trans [OF r(6) i(5)] unfolding all by blast
  qed
qed

section \<open>All layers\<close>

text \<open>Entries of slabs stay whole in what follows.\<close>

declare split_paired_All [simp del] split_paired_Ex [simp del]

definition layer_due :: "http_context \<Rightarrow> layer \<Rightarrow> bool" where
  "layer_due ctx l = (\<exists>k. expired (expirables_slab ctx) (layer_db l) (now ctx) k)"

lemma has_expired_entries:
  assumes "\<forall>(a, l) \<in> set es. db_inv (expirables_slab ctx) (layer_db l)"
  shows "\<exists>r. foreach_entries (has_expired_keys_in_layer (now ctx) (expirables_slab ctx)) es False =
    Some (r, \<exists>(a, l) \<in> set es. layer_due ctx l)"
  using assms
proof (induction es)
  case (Cons p es)
  obtain a l where p: "p = (a, l)" by (cases p)
  have inv: "db_inv (expirables_slab ctx) (layer_db l)" using Cons.prems by (simp add: p)
  show ?case
  proof (cases "expirables (layer_db l)")
    case Nil
    then have "\<not> layer_due ctx l" by (simp add: layer_due_def expired_iff [OF inv])
    then show ?thesis using Cons Nil by (auto simp: p has_expired_keys_in_layer_def)
  next
    case (Cons e rest)
    then obtain x where x: "slab_contents (expirables_slab ctx) e = Some x" "exp_at (expirables_slab ctx) e = x"
      using db_invD(7) [OF inv] unfolding exp_inv_def exp_tree_inv_def exp_at_def by fastforce
    show ?thesis
    proof (cases "exp_ts x \<le> now ctx")
      case True
      then have "layer_due ctx l"
        unfolding layer_due_def expired_iff [OF inv] using Cons x(2) by (intro exI bexI [of _ e]) auto
      then show ?thesis using Cons x True by (auto simp: p has_expired_keys_in_layer_def)
    next
      case False
      then have "\<not> layer_due ctx l" using head_not_due [OF inv Cons, of "now ctx"] x(2) by (simp add: layer_due_def)
      then show ?thesis using Cons Cons.IH Cons.prems x False by (auto simp: p has_expired_keys_in_layer_def)
    qed
  qed
qed simp

lemma purge_layer_ok:
  assumes inv: "ctx_inv ctx" and l: "slab_contents (layers_slab ctx) a = Some l" and small: "small_buckets (layer_db l)"
    and mem: "good_malloc (slot_chunks mem)" "node_mem mem"
  shows "\<exists>ctx' db'. purge_expired_keys_from_layer mem (ctx, did) a l = Some (0, ctx', did \<or> layer_due ctx l) \<and> ctx_inv ctx' \<and>
    now ctx' = now ctx \<and> slab_contents (layers_slab ctx') = (slab_contents (layers_slab ctx))(a \<mapsto> l\<lparr>layer_db := db'\<rparr>) \<and>
    without {k. expired (expirables_slab ctx) (layer_db l) (now ctx) k} (expirables_slab ctx) (layer_db l) (expirables_slab ctx') db' \<and>
    (\<forall>b m. b \<noteq> a \<longrightarrow> slab_contents (layers_slab ctx) b = Some m \<longrightarrow>
       expires_of (expirables_slab ctx') (layer_db m) = expires_of (expirables_slab ctx) (layer_db m))"
proof -
  have db: "db_inv (expirables_slab ctx) (layer_db l)" using ctx_invD(4) [OF inv l] by blast
  obtain exps db' where p: "purge_loop mem (now ctx) (expirables (layer_db l)) (expirables_slab ctx) (layer_db l) did =
      Some (0, exps, db', did \<or> (\<exists>k. expired (expirables_slab ctx) (layer_db l) (now ctx) k))"
    "db_inv exps db'"
    "without {k. expired (expirables_slab ctx) (layer_db l) (now ctx) k} (expirables_slab ctx) (layer_db l) exps db'"
    "exps_change (expirables_slab ctx) exps (set (expirables (layer_db l))) (set (expirables db'))"
    using purge_loop_ok [OF mem db small refl] by blast
  obtain sl where u: "write_entry a (layer_db_update (\<lambda>_. db')) (layers_slab ctx) = Some sl"
    "ctx_inv (ctx\<lparr>layers_slab := sl, expirables_slab := exps\<rparr>)"
    "slab_contents sl = (slab_contents (layers_slab ctx))(a \<mapsto> l\<lparr>layer_db := db'\<rparr>)"
    "\<forall>b m. b \<noteq> a \<longrightarrow> slab_contents (layers_slab ctx) b = Some m \<longrightarrow>
       expires_of exps (layer_db m) = expires_of (expirables_slab ctx) (layer_db m)"
    using update_layer_law [OF inv l p(2,4)] by blast
  define ctx' where "ctx' = ctx\<lparr>layers_slab := sl, expirables_slab := exps\<rparr>"
  have sel: "layers_slab ctx' = sl" "expirables_slab ctx' = exps" "now ctx' = now ctx" by (simp_all add: ctx'_def)
  have "purge_expired_keys_from_layer mem (ctx, did) a l = Some (0, ctx', did \<or> layer_due ctx l)"
    using p(1) u(1) by (simp add: purge_expired_keys_from_layer_def ctx'_def layer_due_def)
  then show ?thesis using u(2-4) p(3) sel unfolding ctx'_def [symmetric] by (intro exI [of _ ctx'] exI [of _ db']) simp
qed

lemma without_cong:
  assumes "without K exps db exps' db'" "expires_of exps0 db = expires_of exps db" "expires_of exps1 db' = expires_of exps' db'"
  shows "without K exps0 db exps1 db'"
  using assms(1) unfolding without_def assms(2,3) .

lemma purge_walk:
  assumes mem: "good_malloc (slot_chunks mem)" "node_mem mem"
  shows "ctx_inv ctx \<Longrightarrow> distinct (map fst es) \<Longrightarrow>
    \<forall>a l. (a, l) \<in> set es \<longrightarrow> slab_contents (layers_slab ctx) a = Some l \<and> small_buckets (layer_db l) \<Longrightarrow>
    \<exists>ctx'. foreach_entries (purge_expired_keys_from_layer mem) es (ctx, did) =
        Some (0, ctx', did \<or> (\<exists>(a, l) \<in> set es. layer_due ctx l)) \<and> ctx_inv ctx' \<and> now ctx' = now ctx \<and>
      (\<forall>b. b \<notin> fst ` set es \<longrightarrow> slab_contents (layers_slab ctx') b = slab_contents (layers_slab ctx) b) \<and>
      (\<forall>b m. b \<notin> fst ` set es \<longrightarrow> slab_contents (layers_slab ctx) b = Some m \<longrightarrow>
         expires_of (expirables_slab ctx') (layer_db m) = expires_of (expirables_slab ctx) (layer_db m)) \<and>
      (\<forall>a l. (a, l) \<in> set es \<longrightarrow> (\<exists>db'. slab_contents (layers_slab ctx') a = Some (l\<lparr>layer_db := db'\<rparr>) \<and>
         without {k. expired (expirables_slab ctx) (layer_db l) (now ctx) k} (expirables_slab ctx) (layer_db l)
           (expirables_slab ctx') db'))"
proof (induction es arbitrary: ctx did)
  case (Cons p es)
  obtain a l where p: "p = (a, l)" by (cases p)
  have l: "slab_contents (layers_slab ctx) a = Some l" "small_buckets (layer_db l)"
    using spec [OF spec [OF Cons.prems(3), of a], of l] by (simp_all add: p)
  obtain ctx1 db1 where s: "purge_expired_keys_from_layer mem (ctx, did) a l = Some (0, ctx1, did \<or> layer_due ctx l)"
    "ctx_inv ctx1" "now ctx1 = now ctx"
    "slab_contents (layers_slab ctx1) = (slab_contents (layers_slab ctx))(a \<mapsto> l\<lparr>layer_db := db1\<rparr>)"
    "without {k. expired (expirables_slab ctx) (layer_db l) (now ctx) k} (expirables_slab ctx) (layer_db l) (expirables_slab ctx1) db1"
    "\<forall>b m. b \<noteq> a \<longrightarrow> slab_contents (layers_slab ctx) b = Some m \<longrightarrow>
       expires_of (expirables_slab ctx1) (layer_db m) = expires_of (expirables_slab ctx) (layer_db m)"
    using purge_layer_ok [OF Cons.prems(1) l mem] by blast
  have a: "a \<notin> fst ` set es" "distinct (map fst es)" using Cons.prems(2) by (simp_all add: p)
  have other: "b \<noteq> a \<and> slab_contents (layers_slab ctx) b = Some m \<and> small_buckets (layer_db m) \<and>
      expires_of (expirables_slab ctx1) (layer_db m) = expires_of (expirables_slab ctx) (layer_db m)"
    if "(b, m) \<in> set es" for b m
  proof -
    have b: "b \<noteq> a" using a(1) that by force
    have m: "slab_contents (layers_slab ctx) b = Some m" "small_buckets (layer_db m)" using Cons.prems(3) that by simp_all
    show ?thesis using s(6) b m by blast
  qed
  then have rest: "\<forall>b m. (b, m) \<in> set es \<longrightarrow> slab_contents (layers_slab ctx1) b = Some m \<and> small_buckets (layer_db m)"
    unfolding s(4) by simp
  have due: "layer_due ctx1 m \<longleftrightarrow> layer_due ctx m" if "(b, m) \<in> set es" for b m
    using other [OF that] by (simp add: layer_due_def expired_def s(3))
  obtain ctx' where i: "foreach_entries (purge_expired_keys_from_layer mem) es (ctx1, did \<or> layer_due ctx l) =
        Some (0, ctx', (did \<or> layer_due ctx l) \<or> (\<exists>(a, l) \<in> set es. layer_due ctx1 l))" "ctx_inv ctx'" "now ctx' = now ctx1"
    "\<forall>b. b \<notin> fst ` set es \<longrightarrow> slab_contents (layers_slab ctx') b = slab_contents (layers_slab ctx1) b"
    "\<forall>b m. b \<notin> fst ` set es \<longrightarrow> slab_contents (layers_slab ctx1) b = Some m \<longrightarrow>
         expires_of (expirables_slab ctx') (layer_db m) = expires_of (expirables_slab ctx1) (layer_db m)"
    "\<forall>a l. (a, l) \<in> set es \<longrightarrow> (\<exists>db'. slab_contents (layers_slab ctx') a = Some (l\<lparr>layer_db := db'\<rparr>) \<and>
         without {k. expired (expirables_slab ctx1) (layer_db l) (now ctx1) k} (expirables_slab ctx1) (layer_db l)
           (expirables_slab ctx') db')"
    using Cons.IH [OF s(2) a(2) rest] by blast
  have any: "(\<exists>(a, l) \<in> set es. layer_due ctx1 l) \<longleftrightarrow> (\<exists>(a, l) \<in> set es. layer_due ctx l)" using due by blast
  have run: "foreach_entries (purge_expired_keys_from_layer mem) (p # es) (ctx, did) =
      Some (0, ctx', did \<or> (\<exists>(a, l) \<in> set (p # es). layer_due ctx l))"
    using s(1) i(1) any by (simp add: p disj_assoc)
  have keep: "slab_contents (layers_slab ctx') b = slab_contents (layers_slab ctx) b" if "b \<notin> fst ` set (p # es)" for b
    using spec [OF i(4), of b] that unfolding s(4) by (simp add: p)
  have exp: "expires_of (expirables_slab ctx') (layer_db m) = expires_of (expirables_slab ctx) (layer_db m)"
    if b: "b \<notin> fst ` set (p # es)" "slab_contents (layers_slab ctx) b = Some m" for b m
  proof -
    have ba: "b \<noteq> a" "b \<notin> fst ` set es" using b(1) by (simp_all add: p)
    then have "slab_contents (layers_slab ctx1) b = Some m" using b(2) by (simp add: s(4))
    then show ?thesis using i(5) s(6) ba b(2) by metis
  qed
  have "\<exists>db'. slab_contents (layers_slab ctx') c = Some (m\<lparr>layer_db := db'\<rparr>) \<and>
      without {k. expired (expirables_slab ctx) (layer_db m) (now ctx) k} (expirables_slab ctx) (layer_db m) (expirables_slab ctx') db'"
    if c: "(c, m) \<in> set (p # es)" for c m
  proof (cases "(c, m) = p")
    case True
    then have cm: "c = a" "m = l" by (simp_all add: p)
    have c1: "slab_contents (layers_slab ctx1) a = Some (l\<lparr>layer_db := db1\<rparr>)" by (simp add: s(4))
    then have "expires_of (expirables_slab ctx') db1 = expires_of (expirables_slab ctx1) db1"
      using spec [OF spec [OF i(5), of a], of "l\<lparr>layer_db := db1\<rparr>"] a(1) by simp
    from without_cong [OF s(5) refl this] spec [OF i(4), of a] c1 a(1) show ?thesis unfolding cm by auto
  next
    case False
    then have cm: "(c, m) \<in> set es" using c by simp
    note o = other [OF cm]
    obtain db' where d: "slab_contents (layers_slab ctx') c = Some (m\<lparr>layer_db := db'\<rparr>)"
      "without {k. expired (expirables_slab ctx1) (layer_db m) (now ctx1) k} (expirables_slab ctx1) (layer_db m)
           (expirables_slab ctx') db'"
      using i(6) cm by blast
    have "{k. expired (expirables_slab ctx1) (layer_db m) (now ctx1) k} =
        {k. expired (expirables_slab ctx) (layer_db m) (now ctx) k}" using o by (simp add: expired_def s(3))
    with without_cong [OF d(2) _ refl, of "expirables_slab ctx"] o d(1) show ?thesis by auto
  qed
  then show ?case using run keep exp i(2,3) s(3) by (intro exI [of _ ctx']) simp
qed simp

lemma purge_law:
  assumes inv: "ctx_inv ctx" and mem: "good_malloc (slot_chunks mem)" "node_mem mem"
    and small: "\<forall>name db. layers ctx name = Some db \<longrightarrow> small_buckets db"
  shows "\<exists>ret ctx'. purge_expired_keys mem ctx = Some (ret, ctx') \<and> ctx_inv ctx' \<and> dom (layers ctx') = dom (layers ctx) \<and>
    (ret = 1 \<longleftrightarrow> (\<exists>name db a. layers ctx name = Some db \<and> expired (expirables_slab ctx) db (now ctx) a)) \<and>
    (\<forall>name db. layers ctx name = Some db \<longrightarrow> (\<exists>db'. layers ctx' name = Some db' \<and>
       without {a. expired (expirables_slab ctx) db (now ctx) a} (expirables_slab ctx) db (expirables_slab ctx') db'))"
proof -
  note i = ctx_invD [OF inv]
  obtain es where es: "slab_entries (layers_slab ctx) es"
    "\<forall>cb (c :: bool). slab_foreach cb (layers_slab ctx) c = foreach_entries cb es c" using tidy_foreach [OF i(1)] by blast
  obtain fs where fs: "slab_entries (layers_slab ctx) fs"
    "\<forall>cb (c :: http_context \<times> bool). slab_foreach cb (layers_slab ctx) c = foreach_entries cb fs c" using tidy_foreach [OF i(1)] by blast
  have mem_es: "(a, l) \<in> set es \<longleftrightarrow> slab_contents (layers_slab ctx) a = Some l"
    and mem_fs: "(a, l) \<in> set fs \<longleftrightarrow> slab_contents (layers_slab ctx) a = Some l" for a l
    using es(1) fs(1) unfolding slab_entries_def by blast+
  have in_layers: "layers ctx (layer_name l) = Some (layer_db l)" if "slab_contents (layers_slab ctx) a = Some l" for a l
    unfolding layers_Some [OF inv] using that by blast
  let ?due = "\<exists>name db a. layers ctx name = Some db \<and> expired (expirables_slab ctx) db (now ctx) a"
  have any: "(\<exists>(a, l) \<in> set xs. layer_due ctx l) \<longleftrightarrow> ?due"
    if m: "\<And>a l. (a, l) \<in> set xs \<longleftrightarrow> slab_contents (layers_slab ctx) a = Some l" for xs
  proof
    assume "\<exists>(a, l) \<in> set xs. layer_due ctx l"
    then obtain a l k where "slab_contents (layers_slab ctx) a = Some l" "expired (expirables_slab ctx) (layer_db l) (now ctx) k"
      by (auto simp: m layer_due_def)
    then show ?due using in_layers by blast
  next
    assume ?due
    then obtain name db k where d: "layers ctx name = Some db" "expired (expirables_slab ctx) db (now ctx) k" by blast
    then obtain a l where l: "slab_contents (layers_slab ctx) a = Some l" "layer_db l = db"
      unfolding layers_Some [OF inv] by blast
    then have "layer_due ctx l" using d(2) by (auto simp: layer_due_def)
    moreover have "(a, l) \<in> set xs" using l(1) m by simp
    ultimately show "\<exists>(a, l) \<in> set xs. layer_due ctx l" by (intro bexI [of _ "(a, l)"]) simp_all
  qed
  note due = any [of es, OF mem_es] any [of fs, OF mem_fs]
  have "\<forall>(a, l) \<in> set es. db_inv (expirables_slab ctx) (layer_db l)" using i(4) by (auto simp: mem_es)
  from has_expired_entries [OF this] have has: "has_expired_keys ctx = Some ?due"
    using es(2) unfolding has_expired_keys_def due by auto
  show ?thesis
  proof (cases ?due)
    case False
    then have run: "purge_expired_keys mem ctx = Some (0, ctx)" using has by (simp add: purge_expired_keys_def)
    have none: "{a. expired (expirables_slab ctx) db (now ctx) a} = {}" if "layers ctx name = Some db" for name db
      using False that by blast
    have "\<exists>db'. layers ctx name = Some db' \<and>
       without {a. expired (expirables_slab ctx) db (now ctx) a} (expirables_slab ctx) db (expirables_slab ctx) db'"
      if "layers ctx name = Some db" for name db
      using that without_none [of "expirables_slab ctx" db] unfolding none [OF that] by blast
    moreover have "0 = (1 :: int) \<longleftrightarrow> ?due" using False by simp
    ultimately show ?thesis using run inv by blast
  next
    case True
    have "\<forall>a l. (a, l) \<in> set fs \<longrightarrow> slab_contents (layers_slab ctx) a = Some l \<and> small_buckets (layer_db l)"
      using small in_layers unfolding mem_fs by blast
    moreover have "distinct (map fst fs)" using fs(1) by (simp add: slab_entries_def)
    ultimately obtain ctx' where w: "foreach_entries (purge_expired_keys_from_layer mem) fs (ctx, False) =
        Some (0, ctx', False \<or> (\<exists>(a, l) \<in> set fs. layer_due ctx l))" "ctx_inv ctx'"
      "\<forall>b. b \<notin> fst ` set fs \<longrightarrow> slab_contents (layers_slab ctx') b = slab_contents (layers_slab ctx) b"
      "\<forall>a l. (a, l) \<in> set fs \<longrightarrow> (\<exists>db'. slab_contents (layers_slab ctx') a = Some (l\<lparr>layer_db := db'\<rparr>) \<and>
         without {k. expired (expirables_slab ctx) (layer_db l) (now ctx) k} (expirables_slab ctx) (layer_db l)
           (expirables_slab ctx') db')"
      using purge_walk [OF mem inv, of fs False] by blast
    have run: "purge_expired_keys mem ctx = Some (1, ctx')"
      using has True w(1) fs(2) unfolding purge_expired_keys_def due by simp
    have keep: "\<exists>db'. layers ctx' name = Some db' \<and>
       without {a. expired (expirables_slab ctx) db (now ctx) a} (expirables_slab ctx) db (expirables_slab ctx') db'"
      if d: "layers ctx name = Some db" for name db
    proof -
      obtain a l where l: "slab_contents (layers_slab ctx) a = Some l" "layer_name l = name" "layer_db l = db"
        using d unfolding layers_Some [OF inv] by blast
      obtain db' where db': "slab_contents (layers_slab ctx') a = Some (l\<lparr>layer_db := db'\<rparr>)"
        "without {a. expired (expirables_slab ctx) db (now ctx) a} (expirables_slab ctx) db (expirables_slab ctx') db'"
        using w(4) l unfolding mem_fs by blast
      have "layer_name (l\<lparr>layer_db := db'\<rparr>) = name \<and> layer_db (l\<lparr>layer_db := db'\<rparr>) = db'" using l(2) by simp
      then have "layers ctx' name = Some db'" unfolding layers_Some [OF w(2)] using db'(1) by blast
      then show ?thesis using db'(2) by blast
    qed
    have "layers ctx name \<noteq> None" if d: "layers ctx' name = Some db" for name db
    proof -
      obtain a l where l: "slab_contents (layers_slab ctx') a = Some l" "layer_name l = name"
        using d unfolding layers_Some [OF w(2)] by blast
      show ?thesis
      proof (cases "slab_contents (layers_slab ctx) a")
        case None
        then have "a \<notin> fst ` set fs" by (auto simp: mem_fs)
        then show ?thesis using w(3) l(1) None by simp
      next
        case (Some m)
        then obtain db' where "slab_contents (layers_slab ctx') a = Some (m\<lparr>layer_db := db'\<rparr>)" using w(4) unfolding mem_fs by blast
        then have "layer_name m = name" using l by simp
        then show ?thesis using in_layers [OF Some] by simp
      qed
    qed
    then have "dom (layers ctx') = dom (layers ctx)" using keep by (auto simp: dom_def) blast
    moreover have "1 = (1 :: int) \<longleftrightarrow> ?due" using True by simp
    ultimately show ?thesis using run w(2) keep by blast
  qed
qed

text \<open>
  C17: a purge removes exactly the records that have expired, in every layer: their keys are no longer found and they have no
  position, properties or expiration any more; every other record of every layer is as before. It returns 1
  if and only if something was removed. Every bucket of every layer must have fewer than 64 slots: beyond that the slab of a bucket
  may lose slots. Only a bucket whose cell is too small to be split, or more than 14 levels deep, gets that full (buckets_stay_bounded).
\<close>

theorem purge_removes_expired:
  assumes "ctx_inv ctx" "good_malloc (slot_chunks mem)" "node_mem mem"
    and "\<forall>name db. layers ctx name = Some db \<longrightarrow> small_buckets db"
  shows "\<exists>ret ctx'. purge_expired_keys mem ctx = Some (ret, ctx') \<and> ctx_inv ctx' \<and> dom (layers ctx') = dom (layers ctx) \<and>
    (ret = 1 \<longleftrightarrow> (\<exists>name db a. layers ctx name = Some db \<and> expired (expirables_slab ctx) db (now ctx) a)) \<and>
    (\<forall>name db. layers ctx name = Some db \<longrightarrow> (\<exists>db'. layers ctx' name = Some db' \<and>
       without {a. expired (expirables_slab ctx) db (now ctx) a} (expirables_slab ctx) db (expirables_slab ctx') db'))"
  by (rule purge_law [OF assms])

end
