(* ===== verification/Slip_Map_Room.thy ===== *)
theory Slip_Map_Room
  imports Slip_Map
begin

text \<open>
  Property maps as the record operations see them: the finite map of a buffer, and how much room
  a store takes. As long as the buffer with the new entry stays within 65535 bytes and there is
  memory, no store is refused.
\<close>

definition prop_view :: "slip_map option \<Rightarrow> bytes \<Rightarrow> bytes option" where
  "prop_view mo key = (case find_in_slip_map mo key of None \<Rightarrow> None | Some r \<Rightarrow> r)"

definition map_size :: "slip_map option \<Rightarrow> nat" where
  "map_size mo = (case mo of None \<Rightarrow> 24 | Some m \<Rightarrow> length m)"

definition entry_size :: "bytes \<times> bytes \<Rightarrow> nat" where
  "entry_size e = 6 + length (fst e) + length (snd e)"

lemma prop_view_None [simp]: "prop_view None = Map.empty"
  by (simp add: fun_eq_iff prop_view_def find_in_slip_map_def slip_map_foreach_def)

lemma prop_view_find: "slip_map_inv m \<Longrightarrow> find_in_slip_map (Some m) key = Some (prop_view (Some m) key)"
  by (auto simp: prop_view_def slip_map_inv_def find_slots)

lemma find_None: "find_in_slip_map None key = Some None"
  by (simp add: find_in_slip_map_def slip_map_foreach_def)

lemma add_entry_length:
  assumes wf: "wf_slots ss" and kv: "k \<noteq> []" "length k \<le> 65535" "length v \<le> 65535"
    and add: "add_entry_to_slip_map a (render ss) k v = Some (r, m')"
  shows "length m' \<le> length (render ss) + 6 + length k + length v"
  using wf
proof (cases rule: wf_slots_cases)
  case (empty g)
  from add_entry_empty [OF empty(2) kv, of a] add show ?thesis
    unfolding empty(1) by (auto split: if_splits)
next
  case keys
  have "\<forall>s \<in> set ss. key_of s \<noteq> [] \<and> small_slot s" using keys(2) .
  note eq = add_entry_slots [OF this keys(1) kv, of a]
  obtain tt k' v' g where ss: "ss = tt @ [(k', v', g)]"
    using keys(1) by (metis append_butlast_last_id prod_cases3)
  have "length (render (grow_slots k v ss)) \<le> length (render ss) + 6 + length k + length v"
    by (simp add: grow_slots_def ss)
  then show ?thesis using eq add add_slots_length [of k v ss]
    by (auto split: option.splits if_splits)
qed

lemma slip_replace_room:
  assumes inv: "slip_map_inv m" and k: "slip_key k" and v: "slip_val v"
    and rep: "replace_entry_in_slip_map a m k v = Some (r, m')"
  shows "length m' \<le> length m + entry_size (k, v)"
    and "a \<noteq> None \<Longrightarrow> length m + entry_size (k, v) \<le> 65535 \<Longrightarrow> r \<noteq> - 1"
proof -
  obtain ss where ss: "wf_slots ss" "m = render ss" using inv by (auto simp: slip_map_inv_def)
  have kv: "k \<noteq> []" "length k \<le> 65535" "length v \<le> 65535" using k v by (simp_all add: slip_key_def slip_val_def)
  have run: "replace_entry_in_slip_map a m k v =
    (case replace_slots k v ss of
       Some ss' \<Rightarrow> Some (0, render ss')
     | None \<Rightarrow>
        (if k \<in> key_of ` set ss then
           do {
             (r, m1) \<leftarrow> remove_entry_from_slip_map (render ss) k;
             (if r < 0 then Some (- 1, m1) else add_entry_to_slip_map a m1 k v)
           }
         else add_entry_to_slip_map a (render ss) k v))"
    using replace_scan_slots [OF wf_slots_ok [OF ss(1)] kv(1), of a v "[]", unfolded append_Nil list.size] kv
    by (simp add: replace_entry_in_slip_map_def ss(2) cong: option.case_cong)
  have via: "length m' \<le> length m + entry_size (k, v) \<and> (a \<noteq> None \<longrightarrow> length m + entry_size (k, v) \<le> 65535 \<longrightarrow> r \<noteq> - 1)"
    if t: "wf_slots tt" "length (render tt) \<le> length m" "map_of_slots tt k = None"
      "add_entry_to_slip_map a (render tt) k v = Some (r, m')" for tt
    using add_entry_length [OF t(1) kv t(4)] add_entry_spec [OF t(1) kv t(3), of a] t(2,4)
    by (auto simp: entry_size_def)
  have "length m' \<le> length m + entry_size (k, v) \<and> (a \<noteq> None \<longrightarrow> length m + entry_size (k, v) \<le> 65535 \<longrightarrow> r \<noteq> - 1)"
  proof (cases "replace_slots k v ss")
    case (Some ss')
    then show ?thesis using run rep replace_slots_Some [OF Some] ss(2) by auto
  next
    case None
    show ?thesis
    proof (cases "k \<in> key_of ` set ss")
      case True
      then have "\<forall>s \<in> set ss. key_of s \<noteq> []" using ss(1) kv(1) by (auto simp: wf_slots_def)
      then have "dom (map_of_slots ss) = key_of ` set ss" using dom_map_entry map_of_slots_keys by metis
      then have "map_of_slots ss k \<noteq> None" using True by blast
      then obtain tt where "remove_entry_from_slip_map (render ss) k = Some (1, render tt)" "wf_slots tt"
        "map_of_slots tt = (map_of_slots ss)(k := None)" "length (render tt) \<le> length (render ss)"
        using remove_entry_spec [OF ss(1) kv(1,2)] by auto
      then show ?thesis using via [of tt] run rep None True ss(2) by simp
    next
      case False
      then show ?thesis using via [OF ss(1)] run rep None ss wf_slots_absent [OF ss(1) False] by simp
    qed
  qed
  then show "length m' \<le> length m + entry_size (k, v)"
    and "a \<noteq> None \<Longrightarrow> length m + entry_size (k, v) \<le> 65535 \<Longrightarrow> r \<noteq> - 1" by blast+
qed

text \<open>Storing, removing and creating, over the view.\<close>

lemma replace_view:
  assumes "slip_map_inv m" "slip_key k" "slip_val v"
  obtains r m' where "replace_entry_in_slip_map a m k v = Some (r, m')" "slip_map_inv m'"
    "prop_view (Some m') = (prop_view (Some m))(k := if r = 0 then Some v else None)"
    "length m' \<le> length m + entry_size (k, v)"
    "a \<noteq> None \<longrightarrow> length m + entry_size (k, v) \<le> 65535 \<longrightarrow> r = 0"
proof -
  obtain r m' where r: "replace_entry_in_slip_map a m k v = Some (r, m')" "slip_map_inv m'" "r \<in> {0, - 1}"
    "\<forall>k'. find_in_slip_map (Some m') k' =
       (if k' = k then Some (if r = 0 then Some v else None) else find_in_slip_map (Some m) k')"
    using slip_replace_law [OF assms, of a] by blast
  have "prop_view (Some m') = (prop_view (Some m))(k := if r = 0 then Some v else None)"
    using r(4) by (auto simp: fun_eq_iff prop_view_def)
  then show thesis using that r(1-3) slip_replace_room [OF assms r(1)] by blast
qed

lemma remove_view:
  assumes "slip_map_inv m" "slip_key k"
  obtains r m' where "remove_entry_from_slip_map m k = Some (r, m')" "slip_map_inv m'"
    "prop_view (Some m') = (prop_view (Some m))(k := None)" "length m' \<le> length m"
proof -
  obtain r m' where r: "remove_entry_from_slip_map m k = Some (r, m')" "slip_map_inv m'"
    "\<forall>k'. find_in_slip_map (Some m') k' = (if k' = k then Some None else find_in_slip_map (Some m) k')"
    using slip_remove_law [OF assms] by blast
  have "prop_view (Some m') = (prop_view (Some m))(k := None)"
    using r(3) by (auto simp: fun_eq_iff prop_view_def)
  moreover have "length m' \<le> length m"
  proof -
    obtain ss where ss: "wf_slots ss" "m = render ss" using assms(1) by (auto simp: slip_map_inv_def)
    have "k \<noteq> []" "length k \<le> 65535" using assms(2) by (simp_all add: slip_key_def)
    from remove_entry_spec [OF ss(1) this] r(1) show ?thesis by (auto simp: ss(2) split: if_splits)
  qed
  ultimately show thesis using that r(1,2) by blast
qed

lemma new_map_view:
  assumes "a \<noteq> None"
  obtains m where "new_slip_map a 32 = Some (Some m)" "slip_map_inv m" "prop_view (Some m) = Map.empty" "length m = 24"
proof -
  obtain junk where a: "a = Some junk" using assms by blast
  obtain m where m: "new_slip_map a 32 = Some (Some m)" "length m = 24"
    by (auto simp: a new_slip_map_def sizeof_slip_map_def init_slip_map_def store_def h16_def write_at_def)
  have "prop_view (Some m) = Map.empty" using new_slip_map_wf(2) [OF m(1)] by (simp add: fun_eq_iff prop_view_def)
  then show thesis using that m new_slip_map_wf(1) [OF m(1)] by blast
qed

lemma new_map_none [simp]: "new_slip_map None 32 = Some None"
  by (simp add: new_slip_map_def sizeof_slip_map_def)

text \<open>The entries, in the order of the buffer.\<close>

definition map_entries :: "slip_map option \<Rightarrow> (bytes \<times> bytes) list option" where
  "map_entries mo = slip_map_foreach (\<lambda>es k v. Some (0, es @ [(k, v)])) mo []"

lemma map_entries_None [simp]: "map_entries None = Some []"
  by (simp add: map_entries_def slip_map_foreach_def)

lemma foreach_list_collect: "foreach_list (\<lambda>es k v. Some (0, es @ [(k, v)])) xs ys = Some (ys @ xs)"
  by (induction xs arbitrary: ys) auto

lemma foreach_entries_view:
  assumes "slip_map_inv m"
  obtains es where "distinct (map fst es)" "prop_view (Some m) = map_of es"
    "\<And>cb (c :: 'c). slip_map_foreach cb (Some m) c = foreach_list cb es c"
    "\<And>k v. (k, v) \<in> set es \<Longrightarrow> slip_key k \<and> slip_val v" "map_entries (Some m) = Some es"
proof -
  obtain ss where ss: "wf_slots ss" "m = render ss" using assms by (auto simp: slip_map_inv_def)
  have "distinct (map fst (entries_of ss))"
    using ss(1)
    by (cases rule: wf_slots_cases) (auto simp: entries_of_def comp_def distinct_map_filter)
  moreover have "prop_view (Some m) = map_of (entries_of ss)"
    using ss by (auto simp: fun_eq_iff prop_view_def find_render)
  moreover have "slip_key k \<and> slip_val v" if "(k, v) \<in> set (entries_of ss)" for k v
    using that ss(1) by (auto simp: entries_of_def wf_slots_def slip_key_def slip_val_def)
  moreover have "map_entries (Some m) = Some (entries_of ss)"
    using ss by (simp add: map_entries_def slip_map_foreach_render foreach_list_collect)
  ultimately show thesis using that ss by (simp add: slip_map_foreach_render)
qed

end
