(* ===== verification/Record_Properties.thy ===== *)
theory Record_Properties
  imports Slip_Map_Room Replies
begin

text \<open>
  How a PUT changes the properties of a record (\<open>domain_records.c\<close>): the special properties, whose
  names start with an underscore, are applied first (removing a property, removing all of them,
  adding to a number), then the ordinary ones are merged into the record's map, or become its map if
  it has none. The callbacks change the map through the pointer they are given: it is threaded
  through as an optional buffer, \<open>None\<close> for NULL.
\<close>

section \<open>Operations\<close>

definition PROPERTIES_DEFAULT_SLIP_MAP_BUFFER_SIZE :: nat where
  "PROPERTIES_DEFAULT_SLIP_MAP_BUFFER_SIZE = 32"

definition INT_PROPERTY_COMMON_PREFIX :: byte where
  "INT_PROPERTY_COMMON_PREFIX = chr CHR ''_''"

definition INT_PROPERTY_DELETE_PREFIX :: string where
  "INT_PROPERTY_DELETE_PREFIX = ''_delete:''"

definition INT_PROPERTY_DELETE_ALL_PREFIX :: string where
  "INT_PROPERTY_DELETE_ALL_PREFIX = ''_delete_all''"

definition INT_PROPERTY_ADD_INT_PREFIX :: string where
  "INT_PROPERTY_ADD_INT_PREFIX = ''_add_int:''"

text \<open>strncasecmp of the characters of a literal. The size of a literal counts its zero.\<close>

definition prefix_nocase :: "string \<Rightarrow> bytes \<Rightarrow> bool" where
  "prefix_nocase p key = (map tolower (take (length p) key) = map tolower (bytes_of p))"

definition is_delete :: "bytes \<Rightarrow> bool" where
  "is_delete key = (length key \<ge> 9 \<and> prefix_nocase INT_PROPERTY_DELETE_PREFIX key)"

definition is_delete_all :: "bytes \<Rightarrow> bool" where
  "is_delete_all key = (length key = 11 \<and> prefix_nocase INT_PROPERTY_DELETE_ALL_PREFIX key)"

definition is_add_int :: "bytes \<Rightarrow> bool" where
  "is_add_int key = (length key \<ge> 10 \<and> prefix_nocase INT_PROPERTY_ADD_INT_PREFIX key)"

text \<open>value_len is 0 or the value starts with a zero.\<close>

definition empty_value :: "bytes \<Rightarrow> bool" where
  "empty_value val = (val = [] \<or> hd val = 0)"

text \<open>sizeof "-170141183460469231731687303715884105728", above which a number is left alone.\<close>

definition MAX_NUMBER_SIZE :: nat where
  "MAX_NUMBER_SIZE = 41"

text \<open>
  strtoimax of both, their sum, and snprintf with PRIdMAX. The sum of two intmax_t is undefined in C
  when it overflows; it wraps here, as the compiled code does.
\<close>

definition add_int :: "bytes \<Rightarrow> bytes \<Rightarrow> bytes" where
  "add_int num val = print_int (sint (word_of_int (strtol 10 num) + word_of_int (strtol 10 val) :: 64 word))"

definition records_put_apply_special_properties_cb ::
  "alloc \<Rightarrow> slip_map option \<Rightarrow> bytes \<Rightarrow> bytes \<Rightarrow> (int \<times> slip_map option) option" where
  "records_put_apply_special_properties_cb a target key val =
     do {
       c_assert (length key > 0);
       c_assert (hd key = INT_PROPERTY_COMMON_PREFIX);
       (if is_delete key then
          (case target of
             None \<Rightarrow> Some (0, None)
           | Some m \<Rightarrow>
               (if empty_value val then Some (0, Some m)
                else do { (_, m') \<leftarrow> remove_entry_from_slip_map m (drop 8 key); Some (0, Some m') }))
        else if is_delete_all key then
          (if empty_value val \<or> target = None then Some (0, target) else Some (0, None))
        else if is_add_int key then
          (if empty_value val \<or> length val \<ge> MAX_NUMBER_SIZE then Some (0, target)
           else
             do {
               found \<leftarrow> find_in_slip_map target (drop 9 key);
               (let num_value = (case found of None \<Rightarrow> bytes_of ''0'' | Some v \<Rightarrow> v)
                in if length num_value \<ge> MAX_NUMBER_SIZE then Some (0, target)
                   else
                     do {
                       target1 \<leftarrow> (case target of
                           None \<Rightarrow> new_slip_map a PROPERTIES_DEFAULT_SLIP_MAP_BUFFER_SIZE
                         | Some m \<Rightarrow> Some (Some m));
                       (case target1 of
                          None \<Rightarrow> Some (- 1, None)
                        | Some m \<Rightarrow>
                            do {
                              (_, m') \<leftarrow> replace_entry_in_slip_map a m (drop 9 key) (add_int num_value val);
                              Some (0, Some m')
                            })
                     })
             })
        else Some (0, target))
     }"

text \<open>The result of the store is not looked at.\<close>

definition records_put_merge_properties_cb ::
  "alloc \<Rightarrow> slip_map option \<Rightarrow> bytes \<Rightarrow> bytes \<Rightarrow> (int \<times> slip_map option) option" where
  "records_put_merge_properties_cb a target key val =
     do {
       c_assert (length key > 0);
       c_assert (hd key \<noteq> INT_PROPERTY_COMMON_PREFIX);
       m \<leftarrow> target;
       (_, m') \<leftarrow> replace_entry_in_slip_map a m key val;
       Some (0, Some m')
     }"

text \<open>The part of handle_op_records_put that changes the properties of the key node.\<close>

definition put_properties ::
  "alloc \<Rightarrow> slip_map option \<Rightarrow> slip_map option \<Rightarrow> slip_map option \<Rightarrow> slip_map option option" where
  "put_properties a special props target =
     do {
       target1 \<leftarrow> (case special of
           None \<Rightarrow> Some target
         | Some _ \<Rightarrow> slip_map_foreach (records_put_apply_special_properties_cb a) special target);
       (case target1 of
          None \<Rightarrow> Some props
        | Some _ \<Rightarrow> slip_map_foreach (records_put_merge_properties_cb a) props target1)
     }"

section \<open>What they promise\<close>

type_synonym properties = "(bytes \<Rightarrow> bytes option) option"

definition view :: "slip_map option \<Rightarrow> properties" where
  "view mo = map_option (\<lambda>m. prop_view (Some m)) mo"

definition binding :: "properties \<Rightarrow> bytes \<Rightarrow> bytes option" where
  "binding p key = (case p of None \<Rightarrow> None | Some f \<Rightarrow> f key)"

definition number_at :: "properties \<Rightarrow> bytes \<Rightarrow> bytes" where
  "number_at p key = (case binding p key of None \<Rightarrow> bytes_of ''0'' | Some n \<Rightarrow> n)"

definition special_update :: "properties \<Rightarrow> bytes \<times> bytes \<Rightarrow> properties" where
  "special_update p e =
     (case e of (key, val) \<Rightarrow>
        if empty_value val then p
        else if is_delete key then map_option (\<lambda>f. f(drop 8 key := None)) p
        else if is_delete_all key then None
        else if is_add_int key \<and> length val < MAX_NUMBER_SIZE \<and> length (number_at p (drop 9 key)) < MAX_NUMBER_SIZE
        then Some ((case p of None \<Rightarrow> Map.empty | Some f \<Rightarrow> f)(drop 9 key \<mapsto> add_int (number_at p (drop 9 key)) val))
        else p)"

definition maps_inv :: "slip_map option \<Rightarrow> bool" where
  "maps_inv mo = (case mo of None \<Rightarrow> True | Some m \<Rightarrow> slip_map_inv m)"

lemma maps_inv_simps [simp]: "maps_inv None" "maps_inv (Some m) = slip_map_inv m"
  by (simp_all add: maps_inv_def)

lemma view_simps [simp]: "view None = None" "view (Some m) = Some (prop_view (Some m))"
  by (simp_all add: view_def)

lemma map_size_simps [simp]: "map_size None = 24" "map_size (Some m) = length m"
  by (simp_all add: map_size_def)

lemma find_binding: "maps_inv mo \<Longrightarrow> find_in_slip_map mo key = Some (binding (view mo) key)"
  by (cases mo) (simp_all add: binding_def find_None prop_view_find)

subsection \<open>The length of a number\<close>

lemma add_int_length: "length (add_int num val) \<le> 20"
proof -
  define w :: "64 word" where "w = word_of_int (strtol 10 num) + word_of_int (strtol 10 val)"
  have b: "- (2 ^ 63) \<le> sint w" "sint w < 2 ^ 63" using sint_ge [of w] sint_lt [of w] by simp_all
  have "nat (- sint w) < 10 ^ 19" "nat (sint w) < 10 ^ 19" using b by auto
  then have "length (dec_of (nat (- sint w))) \<le> 19" "length (dec_of (nat (sint w))) \<le> 19"
    by (auto intro: digits_of_length)
  then show ?thesis by (simp add: add_int_def print_int_def flip: w_def)
qed

subsection \<open>The special properties\<close>

definition special_size :: "bytes \<times> bytes \<Rightarrow> nat" where
  "special_size e = length (fst e) + 47"

lemma special_cb_law:
  assumes inv: "maps_inv mo" and key: "slip_key key" "hd key = INT_PROPERTY_COMMON_PREFIX"
  shows "\<exists>r mo'. records_put_apply_special_properties_cb a mo key val = Some (r, mo') \<and> maps_inv mo' \<and>
    (a \<noteq> None \<longrightarrow> map_size mo + special_size (key, val) \<le> 65535 \<longrightarrow>
       r = 0 \<and> view mo' = special_update (view mo) (key, val) \<and> map_size mo' \<le> map_size mo + special_size (key, val))"
proof -
  have pos: "length key > 0" using key(1) by (simp add: slip_key_def)
  note cb = records_put_apply_special_properties_cb_def
  consider (del) "is_delete key" | (all) "\<not> is_delete key" "is_delete_all key"
    | (add) "\<not> is_delete key" "\<not> is_delete_all key" "is_add_int key"
    | (none) "\<not> is_delete key" "\<not> is_delete_all key" "\<not> is_add_int key" by blast
  then show ?thesis
  proof cases
    case del
    show ?thesis
    proof (cases mo)
      case None
      then show ?thesis using del pos key(2) by (simp add: cb special_update_def)
    next
      case (Some m)
      have sk: "slip_key (drop 8 key)" using del key(1) by (auto simp: is_delete_def slip_key_def)
      have m: "slip_map_inv m" using inv Some by simp
      show ?thesis
      proof (cases "empty_value val")
        case True
        then show ?thesis using del pos key(2) Some m by (simp add: cb special_update_def)
      next
        case False
        obtain r m' where "remove_entry_from_slip_map m (drop 8 key) = Some (r, m')" "slip_map_inv m'"
          "prop_view (Some m') = (prop_view (Some m))(drop 8 key := None)" "length m' \<le> length m"
          by (rule remove_view [OF m sk])
        then show ?thesis using del pos key(2) Some False by (simp add: cb special_update_def)
      qed
    qed
  next
    case all
    then show ?thesis using pos key(2) inv
      by (cases mo) (auto simp: cb special_update_def special_size_def)
  next
    case add
    have sk: "slip_key (drop 9 key)" using add key(1) by (auto simp: is_add_int_def slip_key_def)
    let ?num = "number_at (view mo) (drop 9 key)"
    have num: "(case binding (view mo) (drop 9 key) of None \<Rightarrow> bytes_of ''0'' | Some v \<Rightarrow> v) = ?num"
      by (simp add: number_at_def)
    show ?thesis
    proof (cases "empty_value val \<or> length val \<ge> MAX_NUMBER_SIZE \<or> length ?num \<ge> MAX_NUMBER_SIZE")
      case True
      then show ?thesis using add pos key(2) inv num
        by (auto simp: cb special_update_def find_binding [OF inv] Let_def)
    next
      case False
      have v: "slip_val (add_int ?num val)" using add_int_length [of ?num val] by (simp add: slip_val_def)
      have len: "length (drop 9 key) + 9 = length key" using add(3) by (simp add: is_add_int_def)
      have size: "entry_size (drop 9 key, add_int ?num val) \<le> special_size (key, val)"
        using add_int_length [of ?num val] len by (simp add: entry_size_def special_size_def)
      have run: "records_put_apply_special_properties_cb a mo key val =
          do {
            target1 \<leftarrow> (case mo of None \<Rightarrow> new_slip_map a 32 | Some m \<Rightarrow> Some (Some m));
            (case target1 of
               None \<Rightarrow> Some (- 1, None)
             | Some m \<Rightarrow>
                 do { (_, m') \<leftarrow> replace_entry_in_slip_map a m (drop 9 key) (add_int ?num val); Some (0, Some m') })
          }"
        using add False pos key(2) find_binding [OF inv, of "drop 9 key"]
        by (cases mo) (simp_all add: cb Let_def number_at_def PROPERTIES_DEFAULT_SLIP_MAP_BUFFER_SIZE_def
            del: length_drop cong: option.case_cong)
      show ?thesis
      proof (cases "mo = None \<and> a = None")
        case True
        then show ?thesis unfolding run by simp
      next
        case some: False
        obtain m where m: "(case mo of None \<Rightarrow> new_slip_map a 32 | Some m \<Rightarrow> Some (Some m)) = Some (Some m)" "slip_map_inv m"
          "prop_view (Some m) = (case view mo of None \<Rightarrow> Map.empty | Some f \<Rightarrow> f)" "length m = map_size mo"
        proof (cases mo)
          case None
          then obtain m where "new_slip_map a 32 = Some (Some m)" "slip_map_inv m" "prop_view (Some m) = Map.empty" "length m = 24"
            using new_map_view [of a] some by blast
          then show ?thesis using that None by simp
        qed (use that inv in simp)
        obtain r m' where r: "replace_entry_in_slip_map a m (drop 9 key) (add_int ?num val) = Some (r, m')" "slip_map_inv m'"
          "prop_view (Some m') = (prop_view (Some m))(drop 9 key := if r = 0 then Some (add_int ?num val) else None)"
          "length m' \<le> length m + entry_size (drop 9 key, add_int ?num val)"
          "a \<noteq> None \<longrightarrow> length m + entry_size (drop 9 key, add_int ?num val) \<le> 65535 \<longrightarrow> r = 0"
          by (rule replace_view [OF m(2) sk v])
        have "records_put_apply_special_properties_cb a mo key val = Some (0, Some m')" by (simp add: run m(1) r(1))
        moreover have "special_update (view mo) (key, val) =
            Some ((case view mo of None \<Rightarrow> Map.empty | Some f \<Rightarrow> f)(drop 9 key \<mapsto> add_int ?num val))"
          using add False by (simp add: special_update_def)
        ultimately show ?thesis using r(2-5) m(3,4) size by auto
      qed
    qed
  next
    case none
    then show ?thesis using pos key(2) inv by (simp add: cb special_update_def)
  qed
qed

lemma specials_law:
  assumes "\<forall>k v. (k, v) \<in> set es \<longrightarrow> slip_key k \<and> hd k = INT_PROPERTY_COMMON_PREFIX" "maps_inv mo"
  shows "\<exists>mo'. foreach_list (records_put_apply_special_properties_cb a) es mo = Some mo' \<and> maps_inv mo' \<and>
    (a \<noteq> None \<longrightarrow> map_size mo + sum_list (map special_size es) \<le> 65535 \<longrightarrow>
       view mo' = foldl special_update (view mo) es \<and> map_size mo' \<le> map_size mo + sum_list (map special_size es))"
  using assms
proof (induction es arbitrary: mo)
  case (Cons e es)
  obtain key val where e: "e = (key, val)" by (cases e)
  have key: "slip_key key" "hd key = INT_PROPERTY_COMMON_PREFIX" using Cons.prems(1) by (auto simp: e)
  obtain r mo1 where r: "records_put_apply_special_properties_cb a mo key val = Some (r, mo1)" "maps_inv mo1"
    "a \<noteq> None \<longrightarrow> map_size mo + special_size (key, val) \<le> 65535 \<longrightarrow>
       r = 0 \<and> view mo1 = special_update (view mo) (key, val) \<and> map_size mo1 \<le> map_size mo + special_size (key, val)"
    using special_cb_law [OF Cons.prems(2) key, where a = a and val = val] by blast
  show ?case
  proof (cases "r = 0")
    case True
    have "\<forall>k v. (k, v) \<in> set es \<longrightarrow> slip_key k \<and> hd k = INT_PROPERTY_COMMON_PREFIX" using Cons.prems(1) by simp
    from Cons.IH [OF this r(2)] obtain mo' where
      "foreach_list (records_put_apply_special_properties_cb a) es mo1 = Some mo'" "maps_inv mo'"
      "a \<noteq> None \<longrightarrow> map_size mo1 + sum_list (map special_size es) \<le> 65535 \<longrightarrow>
         view mo' = foldl special_update (view mo1) es \<and> map_size mo' \<le> map_size mo1 + sum_list (map special_size es)"
      by blast
    then show ?thesis using r True by (intro exI [of _ mo']) (auto simp: e)
  next
    case False
    then show ?thesis using r by (auto simp: e)
  qed
qed simp

subsection \<open>The ordinary properties\<close>

lemma merge_law:
  assumes "\<forall>k v. (k, v) \<in> set es \<longrightarrow> slip_key k \<and> slip_val v \<and> hd k \<noteq> INT_PROPERTY_COMMON_PREFIX" "slip_map_inv m"
    "distinct (map fst es)"
  shows "\<exists>m'. foreach_list (records_put_merge_properties_cb a) es (Some m) = Some (Some m') \<and> slip_map_inv m' \<and>
    (a \<noteq> None \<longrightarrow> length m + sum_list (map entry_size es) \<le> 65535 \<longrightarrow>
       prop_view (Some m') = prop_view (Some m) ++ map_of es)"
  using assms
proof (induction es arbitrary: m)
  case (Cons e es)
  obtain key val where e: "e = (key, val)" by (cases e)
  have key: "slip_key key" "slip_val val" "hd key \<noteq> INT_PROPERTY_COMMON_PREFIX" using Cons.prems(1) by (auto simp: e)
  obtain r m1 where r: "replace_entry_in_slip_map a m key val = Some (r, m1)" "slip_map_inv m1"
    "prop_view (Some m1) = (prop_view (Some m))(key := if r = 0 then Some val else None)"
    "length m1 \<le> length m + entry_size (key, val)"
    "a \<noteq> None \<longrightarrow> length m + entry_size (key, val) \<le> 65535 \<longrightarrow> r = 0"
    by (rule replace_view [OF Cons.prems(2) key(1,2)])
  have cb: "records_put_merge_properties_cb a (Some m) key val = Some (0, Some m1)"
    using key r(1) by (simp add: records_put_merge_properties_cb_def slip_key_def)
  have rest: "\<forall>k v. (k, v) \<in> set es \<longrightarrow> slip_key k \<and> slip_val v \<and> hd k \<noteq> INT_PROPERTY_COMMON_PREFIX" "distinct (map fst es)"
    using Cons.prems(1,3) by simp_all
  obtain m' where m': "foreach_list (records_put_merge_properties_cb a) es (Some m1) = Some (Some m')" "slip_map_inv m'"
    "a \<noteq> None \<longrightarrow> length m1 + sum_list (map entry_size es) \<le> 65535 \<longrightarrow> prop_view (Some m') = prop_view (Some m1) ++ map_of es"
    using Cons.IH [OF rest(1) r(2) rest(2)] by blast
  have "prop_view (Some m') = prop_view (Some m) ++ map_of (e # es)"
    if room: "a \<noteq> None" "length m + sum_list (map entry_size (e # es)) \<le> 65535"
  proof -
    have r0: "r = 0" using r(5) room by (simp add: e)
    have none: "map_of es key = None" using Cons.prems(3) by (simp add: e map_of_eq_None_iff)
    have "prop_view (Some m') = (prop_view (Some m))(key \<mapsto> val) ++ map_of es"
      using m'(3) r(3,4) r0 room by (simp add: e)
    also have "\<dots> = prop_view (Some m) ++ map_of (e # es)"
      using none by (auto simp: e map_add_def fun_eq_iff split: option.splits)
    finally show ?thesis .
  qed
  moreover have "foreach_list (records_put_merge_properties_cb a) (e # es) (Some m) = Some (Some m')"
    using cb m'(1) by (simp add: e)
  ultimately show ?case using m'(2) by blast
qed simp

subsection \<open>The whole update\<close>

definition names_ok :: "(byte \<Rightarrow> bool) \<Rightarrow> slip_map option \<Rightarrow> bool" where
  "names_ok P mo = (maps_inv mo \<and> (\<forall>k v. prop_view mo k = Some v \<longrightarrow> P (hd k)))"

lemma names_okD:
  assumes "names_ok P (Some m)" "prop_view (Some m) = map_of es" "distinct (map fst es)" "(k, v) \<in> set es"
  shows "P (hd k)"
proof -
  have "map_of es k = Some v" using assms(3,4) by simp
  then show ?thesis using assms(1,2) unfolding names_ok_def by metis
qed

definition merge_properties :: "properties \<Rightarrow> properties \<Rightarrow> properties" where
  "merge_properties p new = (case p of None \<Rightarrow> new | Some f \<Rightarrow> Some (case new of None \<Rightarrow> f | Some g \<Rightarrow> f ++ g))"

text \<open>The special properties es, in the order of their buffer, on top of p, and then the ordinary ones.\<close>

definition updated_properties :: "(bytes \<times> bytes) list \<Rightarrow> properties \<Rightarrow> properties \<Rightarrow> properties" where
  "updated_properties es new p = merge_properties (foldl special_update p es) new"

definition lists_entries :: "slip_map option \<Rightarrow> (bytes \<times> bytes) list \<Rightarrow> bool" where
  "lists_entries mo es = (map_entries mo = Some es \<and> distinct (map fst es) \<and> prop_view mo = map_of es)"

definition room_needed :: "(bytes \<times> bytes) list \<Rightarrow> (bytes \<times> bytes) list \<Rightarrow> nat" where
  "room_needed es fs = sum_list (map special_size es) + sum_list (map entry_size fs)"

lemma put_properties_law:
  assumes special: "names_ok (\<lambda>c. c = INT_PROPERTY_COMMON_PREFIX) sp" and new: "names_ok (\<lambda>c. c \<noteq> INT_PROPERTY_COMMON_PREFIX) np"
    and inv: "maps_inv mo"
  shows "\<exists>mo' es fs. put_properties a sp np mo = Some mo' \<and> maps_inv mo' \<and> lists_entries sp es \<and> lists_entries np fs \<and>
    (a \<noteq> None \<longrightarrow> map_size mo + room_needed es fs \<le> 65535 \<longrightarrow> view mo' = updated_properties es (view np) (view mo))"
proof -
  obtain es where es: "lists_entries sp es" "\<forall>k v. (k, v) \<in> set es \<longrightarrow> slip_key k \<and> hd k = INT_PROPERTY_COMMON_PREFIX"
    "(case sp of None \<Rightarrow> Some mo | Some _ \<Rightarrow> slip_map_foreach (records_put_apply_special_properties_cb a) sp mo) =
       foreach_list (records_put_apply_special_properties_cb a) es mo"
  proof (cases sp)
    case None
    then show ?thesis using that [of "[]"] by (simp add: lists_entries_def)
  next
    case (Some m)
    have m: "slip_map_inv m" using special Some by (simp add: names_ok_def)
    obtain es where es: "distinct (map fst es)" "prop_view (Some m) = map_of es"
      "\<And>cb (c :: slip_map option). slip_map_foreach cb (Some m) c = foreach_list cb es c"
      "\<And>k v. (k, v) \<in> set es \<Longrightarrow> slip_key k \<and> slip_val v" "map_entries (Some m) = Some es"
      by (rule foreach_entries_view [OF m]) blast
    have "hd k = INT_PROPERTY_COMMON_PREFIX" if "(k, v) \<in> set es" for k v
      using names_okD [OF special [unfolded Some] es(2,1) that] .
    then have "\<forall>k v. (k, v) \<in> set es \<longrightarrow> slip_key k \<and> hd k = INT_PROPERTY_COMMON_PREFIX" using es(4) by blast
    then show ?thesis using that [of es] es Some by (simp add: lists_entries_def)
  qed
  obtain fs where fs: "lists_entries np fs" "\<forall>k v. (k, v) \<in> set fs \<longrightarrow> slip_key k \<and> slip_val v \<and> hd k \<noteq> INT_PROPERTY_COMMON_PREFIX"
    "\<And>c. slip_map_foreach (records_put_merge_properties_cb a) np c = foreach_list (records_put_merge_properties_cb a) fs c"
  proof (cases np)
    case None
    then show ?thesis using that [of "[]"] by (simp add: lists_entries_def slip_map_foreach_def)
  next
    case (Some m)
    have m: "slip_map_inv m" using new Some by (simp add: names_ok_def)
    obtain fs where fs: "distinct (map fst fs)" "prop_view (Some m) = map_of fs"
      "\<And>cb (c :: slip_map option). slip_map_foreach cb (Some m) c = foreach_list cb fs c"
      "\<And>k v. (k, v) \<in> set fs \<Longrightarrow> slip_key k \<and> slip_val v" "map_entries (Some m) = Some fs"
      by (rule foreach_entries_view [OF m]) blast
    have "hd k \<noteq> INT_PROPERTY_COMMON_PREFIX" if "(k, v) \<in> set fs" for k v
      using names_okD [OF new [unfolded Some] fs(2,1) that] .
    then have "\<forall>k v. (k, v) \<in> set fs \<longrightarrow> slip_key k \<and> slip_val v \<and> hd k \<noteq> INT_PROPERTY_COMMON_PREFIX" using fs(4) by blast
    then show ?thesis using that [of fs] fs Some by (simp add: lists_entries_def)
  qed
  obtain mo1 where s: "foreach_list (records_put_apply_special_properties_cb a) es mo = Some mo1" "maps_inv mo1"
    "a \<noteq> None \<longrightarrow> map_size mo + sum_list (map special_size es) \<le> 65535 \<longrightarrow>
       view mo1 = foldl special_update (view mo) es \<and> map_size mo1 \<le> map_size mo + sum_list (map special_size es)"
    using specials_law [OF es(2) inv, where a = a] by blast
  show ?thesis
  proof (cases mo1)
    case None
    then have "put_properties a sp np mo = Some np" using es(3) s(1) by (simp add: put_properties_def)
    moreover have "maps_inv np" using new by (simp add: names_ok_def)
    ultimately show ?thesis using es(1) fs(1) s(3) None
      by (intro exI [of _ np] exI [of _ es] exI [of _ fs])
        (auto simp: updated_properties_def merge_properties_def room_needed_def)
  next
    case (Some m1)
    have d: "distinct (map fst fs)" using fs(1) by (simp add: lists_entries_def)
    have m1: "slip_map_inv m1" using s(2) Some by simp
    obtain m' where m': "foreach_list (records_put_merge_properties_cb a) fs (Some m1) = Some (Some m')" "slip_map_inv m'"
      "a \<noteq> None \<longrightarrow> length m1 + sum_list (map entry_size fs) \<le> 65535 \<longrightarrow> prop_view (Some m') = prop_view (Some m1) ++ map_of fs"
      using merge_law [OF fs(2) m1 d, where a = a] by blast
    have run: "put_properties a sp np mo = Some (Some m')" using es(3) s(1) Some fs(3) m'(1) by (simp add: put_properties_def)
    have "view (Some m') = updated_properties es (view np) (view mo)"
      if "a \<noteq> None" "map_size mo + room_needed es fs \<le> 65535"
    proof -
      have "view mo1 = foldl special_update (view mo) es" "prop_view (Some m') = prop_view (Some m1) ++ map_of fs"
        using s(3) m'(3) that Some by (auto simp: room_needed_def)
      moreover have "map_of fs = prop_view np" using fs(1) by (simp add: lists_entries_def)
      moreover have "merge_properties (Some f) (view np) = Some (f ++ prop_view np)" for f
        by (cases np) (simp_all add: merge_properties_def)
      ultimately show ?thesis using Some by (simp add: updated_properties_def) metis
    qed
    then show ?thesis using run m'(2) es(1) fs(1) by (intro exI [of _ "Some m'"] exI [of _ es] exI [of _ fs]) simp
  qed
qed

section \<open>Property\<close>

text \<open>
  C10: a PUT updates the properties of a record as follows: the special properties take effect one after the other, in
  the order of their buffer, on the old properties; then the ordinary properties overwrite those of the same name.
  It holds if there is memory and the map of the record stays within 65535 bytes; without, the update still
  does not fault and leaves a well-formed map.
\<close>

theorem put_updates_properties:
  assumes "names_ok (\<lambda>c. c = INT_PROPERTY_COMMON_PREFIX) special" "names_ok (\<lambda>c. c \<noteq> INT_PROPERTY_COMMON_PREFIX) props"
    and "maps_inv target"
  shows "\<exists>target' es fs. put_properties a special props target = Some target' \<and> maps_inv target' \<and>
    map_entries special = Some es \<and> map_entries props = Some fs \<and>
    (a \<noteq> None \<longrightarrow> map_size target + room_needed es fs \<le> 65535 \<longrightarrow>
       view target' = merge_properties (foldl special_update (view target) es) (view props))"
  using put_properties_law [OF assms, where a = a] unfolding lists_entries_def updated_properties_def by blast

text \<open>The request _add_int:a=5 for a record whose property a is 1.\<close>

definition sample_special :: slip_map where
  "sample_special = render [(bytes_of ''_add_int:a'', bytes_of ''5'', [])]"

lemma sample_special_wf: "wf_slots [(bytes_of ''_add_int:a'', bytes_of ''5'', [])]"
  by (simp add: wf_slots_def bytes_of_def)

lemma prop_view_render: "wf_slots ss \<Longrightarrow> prop_view (Some (render ss)) = map_of_slots ss"
  by (simp only: fun_eq_iff prop_view_def find_slots option.case HOL.simp_thms)

lemma sample_special_ok: "names_ok (\<lambda>c. c = INT_PROPERTY_COMMON_PREFIX) (Some sample_special)"
  "map_entries (Some sample_special) = Some [(bytes_of ''_add_int:a'', bytes_of ''5'')]"
proof -
  have "hd k = INT_PROPERTY_COMMON_PREFIX" if "prop_view (Some sample_special) k = Some v" for k v
    using that unfolding sample_special_def prop_view_render [OF sample_special_wf]
    by (auto simp: map_of_slots_def entries_of_def bytes_of_def INT_PROPERTY_COMMON_PREFIX_def split: if_splits)
  then show "names_ok (\<lambda>c. c = INT_PROPERTY_COMMON_PREFIX) (Some sample_special)"
    using slip_map_invI [OF sample_special_wf] by (simp add: names_ok_def sample_special_def)
  show "map_entries (Some sample_special) = Some [(bytes_of ''_add_int:a'', bytes_of ''5'')]"
    unfolding map_entries_def sample_special_def slip_map_foreach_render [OF sample_special_wf] foreach_list_collect
    by (simp add: entries_of_def bytes_of_def)
qed

theorem put_updates_properties_witness:
  "\<exists>target'. put_properties (Some 0) (Some sample_special) None (Some sample_map) = Some target' \<and>
     binding (view target') (bytes_of ''a'') = Some (bytes_of ''6'')"
proof -
  have m: "maps_inv (Some sample_map)" using slip_map_invI [OF sample_map_wf] by (simp add: sample_map_def)
  have none: "names_ok (\<lambda>c. c \<noteq> INT_PROPERTY_COMMON_PREFIX) None" by (simp add: names_ok_def)
  have v: "view (Some sample_map) = Some [bytes_of ''a'' \<mapsto> bytes_of ''1'']"
    unfolding sample_map_def view_simps prop_view_render [OF sample_map_wf] by (auto simp: map_of_slots_def entries_of_def bytes_of_def)
  have room: "map_size (Some sample_map) + room_needed [(bytes_of ''_add_int:a'', bytes_of ''5'')] [] \<le> 65535"
    by (simp add: room_needed_def special_size_def bytes_of_def sample_map_def)
  have d: "drop 9 (bytes_of ''_add_int:a'') = bytes_of ''a''" by code_simp
  have n: "\<not> empty_value (bytes_of ''5'')" "\<not> is_delete (bytes_of ''_add_int:a'')" "\<not> is_delete_all (bytes_of ''_add_int:a'')"
    "is_add_int (bytes_of ''_add_int:a'')" "length (bytes_of ''5'') < MAX_NUMBER_SIZE" "length (bytes_of ''1'') < MAX_NUMBER_SIZE"
    "add_int (bytes_of ''1'') (bytes_of ''5'') = bytes_of ''6''" by code_simp+
  from put_updates_properties [OF sample_special_ok(1) none m, of "Some 0"] sample_special_ok(2) room obtain target' where
    "put_properties (Some 0) (Some sample_special) None (Some sample_map) = Some target'"
    "view target' = merge_properties (special_update (view (Some sample_map)) (bytes_of ''_add_int:a'', bytes_of ''5'')) (view None)"
    by auto
  moreover have "special_update (view (Some sample_map)) (bytes_of ''_add_int:a'', bytes_of ''5'') = Some [bytes_of ''a'' \<mapsto> bytes_of ''6'']"
    unfolding v special_update_def prod.case number_at_def binding_def option.case d using n by (simp add: d)
  ultimately show ?thesis by (auto simp: merge_properties_def binding_def)
qed

end
