(* ===== verification/Records.thy ===== *)
theory Records
  imports Purge Record_Properties
begin

text \<open>
  Storing and deleting records (\<open>domain_records.c\<close>: handle_op_records_put, handle_op_records_delete).
  A PUT creates the key node if there is none, moves it if the position is inside the bounds of the
  layer and differs, updates the properties and sets, changes or removes the expiration. Keys are the
  bytes of the request's Key, with their terminating zero; releasing them is modelled in the theory Keys.
  A database is seen as a map from keys to records, with position, expiration and properties: the
  theorems say that the two handlers change this map at one key of one layer and nothing else.
\<close>

section \<open>Operations\<close>

record records_put_op =
  put_bare :: bare_op
  put_layer_name :: bytes
  put_key :: bytes
  put_position :: position2d
  put_properties_map :: "slip_map option"
  put_special_properties :: "slip_map option"
  put_position_set :: bool
  put_expires_at :: int

record records_delete_op =
  delete_bare :: bare_op
  delete_layer_name :: bytes
  delete_key :: bytes

text \<open>
  The position. It is dropped when it is out of the bounds; a record that already has this
  position stays where it is, otherwise its old slot leaves the index first.
\<close>

definition same_position :: "position2d \<Rightarrow> position2d \<Rightarrow> bool" where
  "same_position p q = (feq (latitude p) (latitude q) \<and> feq (longitude p) (longitude q))"

definition leave_position ::
  "memory \<Rightarrow> position2d \<Rightarrow> nat \<Rightarrow> expirable slab \<Rightarrow> pan_db \<Rightarrow> (bool \<times> pan_db) option" where
  "leave_position mem new_position a exps db =
     do {
       n \<leftarrow> nodes_of db a;
       (case kn_slot n of
          None \<Rightarrow> Some (True, db)
        | Some (p, e) \<Rightarrow>
            do {
              slot \<leftarrow> content (db_root db) p e;
              (if same_position (position slot) new_position then Some (False, db)
               else
                 do {
                   (_, _, db1) \<leftarrow> remove_entry_from_key_node (slot_chunks mem) (node_mem mem) a False exps db;
                   n1 \<leftarrow> nodes_of db1 a;
                   c_assert (kn_slot n1 \<noteq> None);
                   db2 \<leftarrow> clear_slot_of a db1;
                   Some (True, db2)
                 })
            })
     }"

definition put_slot ::
  "memory \<Rightarrow> records_put_op \<Rightarrow> nat \<Rightarrow> expirable slab \<Rightarrow> pan_db \<Rightarrow> (int \<times> expirable slab \<times> pan_db) option" where
  "put_slot mem op a exps db =
     (if \<not> (put_position_set op \<and> position_is_in_rect (put_position op) (qbounds db)) then Some (0, exps, db)
      else
        do {
          (position_set, db1) \<leftarrow> leave_position mem (put_position op) a exps db;
          (if \<not> position_set then Some (0, exps, db1)
           else
             do {
               (ret, new_slot, db2) \<leftarrow> add_slot (slot_chunks mem) (node_mem mem)
                 \<lparr>position = put_position op, slot_key_node = Some a, slot_bucket = None\<rparr> db1;
               (if ret \<noteq> 0 then
                  do {
                    db3 \<leftarrow> clear_slot_of a (remove_node_from_tree a db2);
                    (exps', db4) \<leftarrow> free_key_node a exps db3;
                    Some (HTTP_SERVUNAVAIL, exps', db4)
                  }
                else
                  do {
                    h \<leftarrow> set_kn_slot (Some a) new_slot (nodes_of db2);
                    c_assert (new_slot \<noteq> None);
                    Some (0, exps, with_nodes db2 h)
                  })
             })
        })"

definition update_node :: "nat \<Rightarrow> key_node \<Rightarrow> pan_db \<Rightarrow> pan_db" where
  "update_node a n db = with_nodes db ((nodes_of db)(a \<mapsto> n))"

definition put_node_properties :: "memory \<Rightarrow> records_put_op \<Rightarrow> nat \<Rightarrow> pan_db \<Rightarrow> pan_db option" where
  "put_node_properties mem op a db =
     do {
       n \<leftarrow> nodes_of db a;
       props \<leftarrow> put_properties (map_mem mem) (put_special_properties op) (put_properties_map op) (kn_properties n);
       Some (update_node a (n\<lparr>kn_properties := props\<rparr>) db)
     }"

text \<open>The expiration. The result of add_entry_to_slab is used without a check.\<close>

definition set_expiration :: "memory \<Rightarrow> int \<Rightarrow> nat \<Rightarrow> expirable slab \<Rightarrow> pan_db \<Rightarrow> (expirable slab \<times> pan_db) option" where
  "set_expiration mem expires_at a exps db =
     do {
       n \<leftarrow> nodes_of db a;
       (case kn_expirable n of
          None \<Rightarrow>
            do {
              (expirable, exps1) \<leftarrow>
                add_entry_to_slab (expirable_chunk mem exps) \<lparr>exp_ts = expires_at, exp_key_node = a\<rparr> exps;
              e \<leftarrow> expirable;
              (_, tree) \<leftarrow> add_expirable_to_tree exps1 e (expirables db);
              Some (exps1, (update_node a (n\<lparr>kn_expirable := Some e\<rparr>) db)\<lparr>expirables := tree\<rparr>)
            }
        | Some e \<Rightarrow>
            do {
              x \<leftarrow> slab_contents exps e;
              c_assert (exp_key_node x = a);
              (if exp_ts x \<noteq> expires_at then
                 do {
                   (_, tree1) \<leftarrow> remove_expirable_from_tree e (expirables db);
                   exps1 \<leftarrow> write_entry e (exp_ts_update (\<lambda>_. expires_at)) exps;
                   (_, tree2) \<leftarrow> add_expirable_to_tree exps1 e tree1;
                   Some (exps1, db\<lparr>expirables := tree2\<rparr>)
                 }
               else Some (exps, db))
            })
     }"

definition clear_expiration :: "nat \<Rightarrow> expirable slab \<Rightarrow> pan_db \<Rightarrow> (expirable slab \<times> pan_db) option" where
  "clear_expiration a exps db =
     do {
       n \<leftarrow> nodes_of db a;
       (case kn_expirable n of
          None \<Rightarrow> Some (exps, db)
        | Some e \<Rightarrow>
            do {
              x \<leftarrow> slab_contents exps e;
              c_assert (exp_key_node x = a);
              (_, tree) \<leftarrow> remove_expirable_from_tree e (expirables db);
              (_, exps1) \<leftarrow> remove_entry_from_slab e exps;
              Some (exps1, (update_node a (n\<lparr>kn_expirable := None\<rparr>) db)\<lparr>expirables := tree\<rparr>)
            })
     }"

definition put_expiration :: "memory \<Rightarrow> int \<Rightarrow> nat \<Rightarrow> expirable slab \<Rightarrow> pan_db \<Rightarrow> (expirable slab \<times> pan_db) option" where
  "put_expiration mem expires_at a exps db =
     (if expires_at \<noteq> 0 then set_expiration mem expires_at a exps db else clear_expiration a exps db)"

definition put_record ::
  "memory \<Rightarrow> records_put_op \<Rightarrow> expirable slab \<Rightarrow> pan_db \<Rightarrow> (int \<times> expirable slab \<times> pan_db) option" where
  "put_record mem op exps db =
     do {
       (status, key_node, store) \<leftarrow>
         get_key_node_from_key (key_node_mem mem (nodes_of db)) (put_key op) True (key_nodes db);
       (let db1 = db\<lparr>key_nodes := store\<rparr>
        in case key_node of
             None \<Rightarrow> do { c_assert (status \<le> 0); Some (HTTP_NOTFOUND, exps, db1) }
           | Some a \<Rightarrow>
               do {
                 c_assert (status > 0);
                 (ret, exps2, db2) \<leftarrow> put_slot mem op a exps db1;
                 (if ret \<noteq> 0 then Some (ret, exps2, db2)
                  else
                    do {
                      db3 \<leftarrow> put_node_properties mem op a db2;
                      (exps4, db4) \<leftarrow> put_expiration mem (put_expires_at op) a exps2 db3;
                      Some (0, exps4, db4)
                    })
               })
     }"

definition delete_record ::
  "memory \<Rightarrow> bytes \<Rightarrow> expirable slab \<Rightarrow> pan_db \<Rightarrow> (int \<times> expirable slab \<times> pan_db) option" where
  "delete_record mem key exps db =
     do {
       (status, key_node, _) \<leftarrow> get_key_node_from_key None key False (key_nodes db);
       (case key_node of
          None \<Rightarrow> do { c_assert (status \<le> 0); Some (HTTP_NOTFOUND, exps, db) }
        | Some a \<Rightarrow>
            do {
              c_assert (status > 0);
              n \<leftarrow> nodes_of db a;
              (ret, exps1, db1) \<leftarrow> purge_slot mem a n exps db;
              (if ret \<noteq> 0 then Some (HTTP_SERVUNAVAIL, exps1, db1)
               else
                 do {
                   n1 \<leftarrow> nodes_of db1 a;
                   c_assert (kn_slot n1 = None);
                   (exps2, db2) \<leftarrow> free_key_node a exps1 (remove_node_from_tree a db1);
                   Some (0, exps2, db2)
                 })
            })
     }"

text \<open>An operation on the database of a layer, in the context.\<close>

definition on_layer ::
  "(expirable slab \<Rightarrow> pan_db \<Rightarrow> (int \<times> expirable slab \<times> pan_db) option) \<Rightarrow> slab_entry \<Rightarrow> http_context \<Rightarrow>
   (int \<times> http_context) option" where
  "on_layer f a ctx =
     do {
       layer \<leftarrow> slab_contents (layers_slab ctx) a;
       (ret, exps, db) \<leftarrow> f (expirables_slab ctx) (layer_db layer);
       sl \<leftarrow> write_entry a (layer_db_update (\<lambda>_. db)) (layers_slab ctx);
       Some (ret, ctx\<lparr>layers_slab := sl, expirables_slab := exps\<rparr>)
     }"

text \<open>What put and delete have in common. AUTOMATICALLY_CREATE_LAYERS is 0.\<close>

definition handle_record_op ::
  "memory \<Rightarrow> db_defaults \<Rightarrow> bytes \<Rightarrow> (expirable slab \<Rightarrow> pan_db \<Rightarrow> (int \<times> expirable slab \<times> pan_db) option) \<Rightarrow>
   op_type \<Rightarrow> bare_op \<Rightarrow> string \<Rightarrow> http_context \<Rightarrow> (int \<times> http_context) option" where
  "handle_record_op mem cfg name f ty op done ctx =
     do {
       (status, pdb, ctx1) \<leftarrow> get_pan_db_by_layer_name mem cfg name False ctx;
       (if status < 0 then Some (HTTP_NOTFOUND, ctx1)
        else
          do {
            a \<leftarrow> pdb;
            (ret, ctx2) \<leftarrow> on_layer f a ctx1;
            (if ret \<noteq> 0 then Some (ret, ctx2)
             else Some (send_reply mem ty op [gen_str ''status'', gen_str done] ctx2))
          })
     }"

definition handle_op_records_put ::
  "memory \<Rightarrow> db_defaults \<Rightarrow> records_put_op \<Rightarrow> http_context \<Rightarrow> (int \<times> http_context) option" where
  "handle_op_records_put mem cfg op =
     handle_record_op mem cfg (put_layer_name op) (put_record mem op) OP_TYPE_RECORDS_PUT (put_bare op) ''stored''"

definition handle_op_records_delete ::
  "memory \<Rightarrow> db_defaults \<Rightarrow> records_delete_op \<Rightarrow> http_context \<Rightarrow> (int \<times> http_context) option" where
  "handle_op_records_delete mem cfg op =
     handle_record_op mem cfg (delete_layer_name op) (delete_record mem (delete_key op)) OP_TYPE_RECORDS_DELETE
       (delete_bare op) ''deleted''"

section \<open>Records as seen from outside\<close>

record stored_record =
  rec_position :: "position2d option"
  rec_expires :: "int option"
  rec_properties :: properties

definition record_at :: "expirable slab \<Rightarrow> pan_db \<Rightarrow> nat \<Rightarrow> stored_record" where
  "record_at exps db a =
     \<lparr>rec_position = position_of db a, rec_expires = expires_of exps db a, rec_properties = view (properties_of db a)\<rparr>"

definition record_of :: "expirable slab \<Rightarrow> pan_db \<Rightarrow> bytes \<Rightarrow> stored_record option" where
  "record_of exps db key = map_option (record_at exps db) (node_of_key (key_nodes db) key)"

definition records_of :: "http_context \<Rightarrow> bytes \<Rightarrow> (bytes \<Rightarrow> stored_record option) option" where
  "records_of ctx name = map_option (record_of (expirables_slab ctx)) (layers ctx name)"

definition no_record :: stored_record where
  "no_record = \<lparr>rec_position = None, rec_expires = None, rec_properties = None\<rparr>"

section \<open>Changing a key node\<close>

lemma update_node_law:
  assumes inv: "db_inv exps db" and n: "nodes_of db a = Some n" "kn_key n' = kn_key n" "kn_slot n' = kn_slot n"
    and props: "maps_inv (kn_properties n')" and ex: "exp_inv exps' ((nodes_of db)(a \<mapsto> n')) tree"
  defines "db' \<equiv> (update_node a n' db)\<lparr>expirables := tree\<rparr>"
  shows "db_inv exps' db'" "position_of db' = position_of db" "node_of_key (key_nodes db') = node_of_key (key_nodes db)"
    "properties_of db' = (properties_of db)(a := kn_properties n')" "same_db db db'" "small_buckets db' = small_buckets db"
    "nodes_of db' = (nodes_of db)(a \<mapsto> n')" "expirables db' = tree" "db_root db' = db_root db"
proof -
  have nd: "nodes_of db' = (nodes_of db)(a \<mapsto> n')" "db_root db' = db_root db" "qbounds db' = qbounds db"
    "expirables db' = tree" "kn_tree (key_nodes db') = kn_tree (key_nodes db)"
    by (simp_all add: db'_def update_node_def with_nodes_def)
  then show "nodes_of db' = (nodes_of db)(a \<mapsto> n')" "expirables db' = tree" "db_root db' = db_root db" by simp_all
  have key: "key_at (key_nodes db') = key_at (key_nodes db)"
    using n(1,2) by (auto simp: fun_eq_iff key_at_def nd)
  then show k: "node_of_key (key_nodes db') = node_of_key (key_nodes db)" by (simp add: fun_eq_iff node_of_key_def nd)
  have dom: "dom ((nodes_of db)(a \<mapsto> n')) = dom (nodes_of db)" using n(1) by auto
  have "store_inv (key_nodes db')"
    using db_invD(2) [OF inv] unfolding store_inv_def key nd by auto
  moreover have "slip_map_inv m" if "nodes_of db' b = Some k" "kn_properties k = Some m" for b k m
    using that props db_invD(6) [OF inv] unfolding nd by (cases "b = a") auto
  ultimately have "base_inv exps' db'"
    using db_invD(3) [OF inv] ex dom unfolding base_inv_def nd by blast
  moreover have "links ((nodes_of db)(a \<mapsto> n')) [] (db_root db)"
    unfolding links_def
  proof (intro allI impI)
    fix q e s assume "content (db_root db) q e = Some s"
    then obtain k kn where "slot_key_node s = Some k" "nodes_of db k = Some kn" "kn_slot kn = Some ([] @ q, e)"
      using db_invD(4) [OF inv] unfolding index_inv_def links_def by blast
    then show "\<exists>k kn. slot_key_node s = Some k \<and> ((nodes_of db)(a \<mapsto> n')) k = Some kn \<and> kn_slot kn = Some ([] @ q, e)"
      using n by auto
  qed
  then have "slots_ok {} db'"
    using db_invD(4,5) [OF inv] n unfolding slots_ok_def nd index_inv_def by auto
  ultimately show "db_inv exps' db'" by (simp add: db_inv_def)
  show "position_of db' = position_of db" using n by (auto simp: fun_eq_iff position_of_def nd)
  show "properties_of db' = (properties_of db)(a := kn_properties n')" by (auto simp: fun_eq_iff properties_of_def nd)
  show "same_db db db'" by (simp add: same_db_def db'_def update_node_def with_nodes_def)
  show "small_buckets db' = small_buckets db" by (simp add: small_buckets_def nd)
qed

lemma exp_inv_update:
  assumes "exp_inv exps h tree" "h a = Some n" "kn_expirable n' = kn_expirable n"
  shows "exp_inv exps (h(a \<mapsto> n')) tree"
proof -
  have "\<exists>m. (h(a \<mapsto> n')) (exp_key_node (exp_at exps e)) = Some m \<and> kn_expirable m = Some e" if "e \<in> set tree" for e
  proof -
    obtain m where "h (exp_key_node (exp_at exps e)) = Some m" "kn_expirable m = Some e"
      using assms(1) \<open>e \<in> set tree\<close> unfolding exp_inv_def by blast
    then show ?thesis using assms(2,3) by auto
  qed
  moreover have "e \<in> set tree \<and> exp_key_node (exp_at exps e) = b"
    if m: "(h(a \<mapsto> n')) b = Some m" "kn_expirable m = Some e" for b m e
  proof -
    have "\<exists>m. h b = Some m \<and> kn_expirable m = Some e" using m assms(2,3) by (cases "b = a") auto
    then show ?thesis using assms(1) unfolding exp_inv_def by blast
  qed
  ultimately show ?thesis using assms(1) unfolding exp_inv_def by blast
qed

lemma update_node_same_expirables:
  "(update_node a n db)\<lparr>expirables := expirables db\<rparr> = update_node a n db"
  by (simp add: update_node_def with_nodes_def)

lemma put_node_properties_law:
  assumes inv: "db_inv exps db" and n: "nodes_of db a = Some n"
    and op: "names_ok (\<lambda>c. c = INT_PROPERTY_COMMON_PREFIX) (put_special_properties op)"
      "names_ok (\<lambda>c. c \<noteq> INT_PROPERTY_COMMON_PREFIX) (put_properties_map op)"
  shows "\<exists>db' mo' es fs. put_node_properties mem op a db = Some db' \<and> db_inv exps db' \<and> position_of db' = position_of db \<and>
    expires_of exps db' = expires_of exps db \<and> properties_of db' = (properties_of db)(a := mo') \<and>
    node_of_key (key_nodes db') = node_of_key (key_nodes db) \<and> same_db db db' \<and> db_root db' = db_root db \<and>
    expirables db' = expirables db \<and> nodes_of db' a \<noteq> None \<and>
    lists_entries (put_special_properties op) es \<and> lists_entries (put_properties_map op) fs \<and>
    (map_mem mem \<noteq> None \<longrightarrow> map_size (properties_of db a) + room_needed es fs \<le> 65535 \<longrightarrow>
       view mo' = updated_properties es (view (put_properties_map op)) (view (properties_of db a)))"
proof -
  have pr: "properties_of db a = kn_properties n" using n by (simp add: properties_of_def)
  have mi: "maps_inv (kn_properties n)" using db_invD(6) [OF inv n] by (cases "kn_properties n") auto
  obtain mo' es fs where p: "put_properties (map_mem mem) (put_special_properties op) (put_properties_map op) (kn_properties n) = Some mo'"
    "maps_inv mo'" "lists_entries (put_special_properties op) es" "lists_entries (put_properties_map op) fs"
    "map_mem mem \<noteq> None \<longrightarrow> map_size (kn_properties n) + room_needed es fs \<le> 65535 \<longrightarrow>
       view mo' = updated_properties es (view (put_properties_map op)) (view (kn_properties n))"
    using put_properties_law [OF op mi, where a = "map_mem mem"] by blast
  define n' where "n' = n\<lparr>kn_properties := mo'\<rparr>"
  have n': "kn_key n' = kn_key n" "kn_slot n' = kn_slot n" "maps_inv (kn_properties n')" "kn_expirable n' = kn_expirable n"
    "kn_properties n' = mo'" using p(2) by (simp_all add: n'_def)
  have ex: "exp_inv exps ((nodes_of db)(a \<mapsto> n')) (expirables db)" by (rule exp_inv_update [OF db_invD(7) [OF inv] n n'(4)])
  note u = update_node_law [OF inv n n'(1-3) ex, unfolded update_node_same_expirables]
  have "expires_of exps (update_node a n' db) = expires_of exps db"
    using n n'(4) by (auto simp: fun_eq_iff expires_of_def u(7))
  moreover have "put_node_properties mem op a db = Some (update_node a n' db)"
    using n p(1) by (simp add: put_node_properties_def n'_def)
  moreover have "nodes_of (update_node a n' db) a \<noteq> None" by (simp add: u(7))
  ultimately show ?thesis using u(1-5,8,9) n'(5) p(3-5) pr by (intro exI [of _ "update_node a n' db"] exI [of _ mo'] exI [of _ es] exI [of _ fs]) simp
qed

section \<open>The expiration\<close>

lemma good_malloc_add:
  assumes "slab_inv s" "good_malloc al"
  obtains a s' where "add_entry_to_slab (al s) e s = Some (Some a, s')" "slab_inv s'" "slab_contents s a = None"
    "slab_contents s' = (slab_contents s)(a \<mapsto> e)"
proof -
  obtain ps fs ds where "slab_lists s ps fs ds" using assms(1) by (auto simp: slab_inv_def)
  from slab_listsD(5) [OF this] have "finite (dom (chunks s))" by simp
  then obtain c where c: "al s = Some c" "chunks s c = None" using assms(2) unfolding good_malloc_def by blast
  obtain r s' where r: "add_entry_to_slab (al s) e s = Some (r, s')" "slab_inv s'"
    "case r of None \<Rightarrow> al s = None \<and> s' = s
     | Some a \<Rightarrow> slab_contents s a = None \<and> slab_contents s' = (slab_contents s)(a \<mapsto> e)"
    using add_entry_law [OF assms(1), of "al s" e] c by auto
  show thesis
  proof (cases r)
    case None
    then show ?thesis using r(3) c(1) by simp
  next
    case (Some a)
    then show ?thesis using r by (intro that [of a s']) simp_all
  qed
qed

text \<open>Adding the expirable e of the node a to the tree, new or after a change of its time.\<close>

lemma add_back:
  assumes x: "exp_inv exps h tree" and n: "h a = Some n"
    and own: "kn_expirable n = None \<and> slab_contents exps e = None \<or> kn_expirable n = Some e"
    and exps': "slab_inv exps'" "slab_contents exps' = (slab_contents exps)(e \<mapsto> y)" "exp_key_node y = a"
    and tree1: "exp_tree_inv exps tree1" "set tree1 = set tree - {e}" and n': "kn_expirable n' = Some e"
  shows "\<exists>tree'. add_expirable_to_tree exps' e tree1 = Some (0, tree') \<and> set tree' = insert e (set tree) \<and>
    exp_inv exps' (h(a \<mapsto> n')) tree'"
proof -
  have at_e: "exp_at exps' e = y" by (simp add: exp_at_def exps'(2))
  have at: "exp_at exps' d = exp_at exps d" if "d \<noteq> e" for d using that by (simp add: exp_at_def exps'(2))
  have others: "exp_key_node (exp_at exps d) \<noteq> a" if d: "d \<in> set tree" "d \<noteq> e" for d
  proof
    assume "exp_key_node (exp_at exps d) = a"
    moreover obtain m where "h (exp_key_node (exp_at exps d)) = Some m" "kn_expirable m = Some d"
      using x d(1) unfolding exp_inv_def by blast
    ultimately show False using n own d(2) by auto
  qed
  have "\<forall>d \<in> set tree1. slab_contents exps' d = slab_contents exps d" using tree1(2) by (simp add: exps'(2))
  from exp_tree_frame [OF tree1(1) this] have t: "exp_tree_inv exps' tree1" .
  have "slab_contents exps' e \<noteq> None" by (simp add: exps'(2))
  moreover have "exp_key_node (exp_at exps' e) \<notin> (\<lambda>d. exp_key_node (exp_at exps' d)) ` set tree1"
    using others at tree1(2) by (auto simp: at_e exps'(3))
  ultimately obtain tree' where r: "add_expirable_to_tree exps' e tree1 = Some (0, tree')" "exp_tree_inv exps' tree'"
    "set tree' = insert e (set tree1)" using add_expirable_ok [OF t] by blast
  have set: "set tree' = insert e (set tree)" using r(3) tree1(2) by auto
  have "\<exists>m. (h(a \<mapsto> n')) (exp_key_node (exp_at exps' d)) = Some m \<and> kn_expirable m = Some d" if d: "d \<in> set tree'" for d
  proof (cases "d = e")
    case True
    then show ?thesis using at_e exps'(3) n' by simp
  next
    case False
    then have "d \<in> set tree" using d set by simp
    then have "exp_key_node (exp_at exps d) \<noteq> a"
      "\<exists>m. h (exp_key_node (exp_at exps d)) = Some m \<and> kn_expirable m = Some d"
      using others False x unfolding exp_inv_def by blast+
    then show ?thesis using at [OF False] by simp
  qed
  moreover have "d \<in> set tree' \<and> exp_key_node (exp_at exps' d) = b"
    if m: "(h(a \<mapsto> n')) b = Some m" "kn_expirable m = Some d" for b m d
  proof (cases "b = a")
    case True
    then have "d = e" using m n' by simp
    then show ?thesis using True at_e exps'(3) set by simp
  next
    case False
    then have "h b = Some m" using m(1) by simp
    then have b: "d \<in> set tree" "exp_key_node (exp_at exps d) = b" using x m(2) unfolding exp_inv_def by blast+
    then have "slab_contents exps d \<noteq> None" using x unfolding exp_inv_def exp_tree_inv_def by blast
    moreover have "\<not> kn_expirable n = Some d" using x n b(2) False unfolding exp_inv_def by blast
    ultimately have "d \<noteq> e" using own by auto
    then show ?thesis using b at set by simp
  qed
  ultimately have "exp_inv exps' (h(a \<mapsto> n')) tree'" using exps'(1) r(2) unfolding exp_inv_def by blast
  then show ?thesis using r(1) set by blast
qed

text \<open>What a change of the expiration does, in one statement for setting and clearing.\<close>

definition expiration_put :: "nat \<Rightarrow> int option \<Rightarrow> expirable slab \<Rightarrow> pan_db \<Rightarrow> expirable slab \<Rightarrow> pan_db \<Rightarrow> bool" where
  "expiration_put a t exps db exps' db' =
     (db_inv exps' db' \<and> position_of db' = position_of db \<and> properties_of db' = properties_of db \<and>
      expires_of exps' db' = (expires_of exps db)(a := t) \<and> node_of_key (key_nodes db') = node_of_key (key_nodes db) \<and>
      same_db db db' \<and> db_root db' = db_root db \<and>
      exps_change exps exps' (set (expirables db)) (set (expirables db')))"

lemma expires_other:
  assumes "db_inv exps db" "b \<noteq> a" "nodes_of db a = Some n" "nodes_of db' = (nodes_of db)(a \<mapsto> n')"
    "\<And>d. kn_expirable n \<noteq> Some d \<Longrightarrow> slab_contents exps d \<noteq> None \<Longrightarrow> slab_contents exps' d = slab_contents exps d"
  shows "expires_of exps' db' b = expires_of exps db b"
proof -
  have x: "exp_inv exps (nodes_of db) (expirables db)" by (rule db_invD(7) [OF assms(1)])
  have "slab_contents exps' d = slab_contents exps d" if m: "nodes_of db b = Some m" "kn_expirable m = Some d" for m d
  proof -
    have "d \<in> set (expirables db)" "exp_key_node (exp_at exps d) = b" using x m unfolding exp_inv_def by blast+
    moreover have "kn_expirable n \<noteq> Some d" using x assms(2,3) calculation(2) unfolding exp_inv_def by blast
    ultimately show ?thesis using assms(5) x unfolding exp_inv_def exp_tree_inv_def by blast
  qed
  then show ?thesis using assms(2,4) by (cases "nodes_of db b") (auto simp: expires_of_def split: bind_splits)
qed

lemma set_expiration_law:
  assumes inv: "db_inv exps db" and n: "nodes_of db a = Some n" and al: "good_malloc (expirable_chunk mem)"
  shows "\<exists>exps' db'. set_expiration mem t a exps db = Some (exps', db') \<and> expiration_put a (Some t) exps db exps' db'"
proof -
  have x: "exp_inv exps (nodes_of db) (expirables db)" by (rule db_invD(7) [OF inv])
  have props: "maps_inv (kn_properties n)" using db_invD(6) [OF inv n] by (cases "kn_properties n") auto
  have pr: "(properties_of db)(a := kn_properties n) = properties_of db" using n by (auto simp: properties_of_def)
  show ?thesis
  proof (cases "kn_expirable n")
    case None
    let ?x = "\<lparr>exp_ts = t, exp_key_node = a\<rparr>"
    have "slab_inv exps" using x by (simp add: exp_inv_def)
    from good_malloc_add [OF this al, of ?x] obtain e exps' where
      s: "add_entry_to_slab (expirable_chunk mem exps) ?x exps = Some (Some e, exps')" "slab_inv exps'" "slab_contents exps e = None"
        "slab_contents exps' = (slab_contents exps)(e \<mapsto> ?x)" by metis
    have new: "e \<notin> set (expirables db)" using x s(3) unfolding exp_inv_def exp_tree_inv_def by blast
    define n' where "n' = n\<lparr>kn_expirable := Some e\<rparr>"
    have n': "kn_key n' = kn_key n" "kn_slot n' = kn_slot n" "kn_properties n' = kn_properties n" "kn_expirable n' = Some e"
      by (simp_all add: n'_def)
    have own: "kn_expirable n = None \<and> slab_contents exps e = None \<or> kn_expirable n = Some e" using None s(3) by simp
    have tree: "exp_tree_inv exps (expirables db)" "set (expirables db) = set (expirables db) - {e}"
      using x new by (auto simp: exp_inv_def)
    obtain tree' where t: "add_expirable_to_tree exps' e (expirables db) = Some (0, tree')" "set tree' = insert e (set (expirables db))"
      "exp_inv exps' ((nodes_of db)(a \<mapsto> n')) tree'"
      using add_back [OF x n own s(2,4) _ tree n'(4)] by auto
    define db' where "db' = (update_node a n' db)\<lparr>expirables := tree'\<rparr>"
    note u = update_node_law [OF inv n n'(1,2) _ t(3), unfolded n'(3), OF props, folded db'_def]
    have run: "set_expiration mem t a exps db = Some (exps', db')"
      using n None s(1) t(1) by (simp add: set_expiration_def db'_def n'_def)
    have "expires_of exps' db' b = ((expires_of exps db)(a \<mapsto> t)) b" for b
    proof (cases "b = a")
      case True
      then show ?thesis by (simp add: expires_of_def u(7) n'(4) s(4))
    next
      case False
      have "slab_contents exps' d = slab_contents exps d" if "slab_contents exps d \<noteq> None" for d
        using that s(3,4) by (cases "d = e") simp_all
      then have "expires_of exps' db' b = expires_of exps db b" by (rule expires_other [OF inv False n u(7)])
      then show ?thesis using False by simp
    qed
    moreover have "exps_change exps exps' (set (expirables db)) (set (expirables db'))"
      by (rule exps_changeI [OF s(2)]) (use s(3,4) t(2) u(8) in auto)
    ultimately show ?thesis using run u(1-5,9) pr unfolding expiration_put_def by (intro exI [of _ exps'] exI [of _ db']) auto
  next
    case (Some e)
    have e: "e \<in> set (expirables db)" "exp_key_node (exp_at exps e) = a" using x n Some unfolding exp_inv_def by blast+
    then obtain y where y: "slab_contents exps e = Some y" "exp_at exps e = y"
      using x unfolding exp_inv_def exp_tree_inv_def by (auto simp: exp_at_def)
    have ya: "exp_key_node y = a" using e(2) y(2) by simp
    show ?thesis
    proof (cases "exp_ts y = t")
      case True
      then have "set_expiration mem t a exps db = Some (exps, db)"
        using n Some y(1) ya by (simp add: set_expiration_def)
      moreover have "expires_of exps db a = Some t" using n Some y(1) True by (simp add: expires_of_def)
      then have "(expires_of exps db)(a \<mapsto> t) = expires_of exps db" by auto
      moreover have "exps_change exps exps (set (expirables db)) (set (expirables db))"
        using x by (simp add: exps_change_refl exp_inv_def)
      ultimately show ?thesis using inv unfolding expiration_put_def by (intro exI [of _ exps] exI [of _ db]) simp
    next
      case False
      obtain tree1 where r: "remove_expirable_from_tree e (expirables db) = Some (0, tree1)" "exp_tree_inv exps tree1"
        "set tree1 = set (expirables db) - {e}" using remove_expirable_ok [OF _ e(1)] x unfolding exp_inv_def by blast
      have "slab_inv exps" using x by (simp add: exp_inv_def)
      from write_entry_law [OF this y(1), of "exp_ts_update (\<lambda>_. t)"] obtain exps' where
        w: "write_entry e (exp_ts_update (\<lambda>_. t)) exps = Some exps'" "slab_inv exps'"
          "slab_contents exps' = (slab_contents exps)(e \<mapsto> y\<lparr>exp_ts := t\<rparr>)" by blast
      have k: "exp_key_node (y\<lparr>exp_ts := t\<rparr>) = a" using ya by simp
      have own: "kn_expirable n = None \<and> slab_contents exps e = None \<or> kn_expirable n = Some e" using Some by simp
      obtain tree' where t: "add_expirable_to_tree exps' e tree1 = Some (0, tree')" "set tree' = insert e (set (expirables db))"
        "exp_inv exps' ((nodes_of db)(a \<mapsto> n)) tree'" using add_back [OF x n own w(2,3) k r(2,3) Some] by blast
      define db' where "db' = db\<lparr>expirables := tree'\<rparr>"
      have same: "(nodes_of db)(a \<mapsto> n) = nodes_of db" using n by auto
      have "(update_node a n db)\<lparr>expirables := tree'\<rparr> = db'" by (simp add: update_node_def same db'_def with_nodes_def)
      note u = update_node_law [OF inv n refl refl props t(3), unfolded this]
      have run: "set_expiration mem t a exps db = Some (exps', db')"
        using n Some y(1) ya False r(1) w(1) t(1) by (simp add: set_expiration_def db'_def)
      have "expires_of exps' db' b = ((expires_of exps db)(a \<mapsto> t)) b" for b
      proof (cases "b = a")
        case True
        then show ?thesis using n Some by (simp add: expires_of_def u(7) w(3))
      next
        case False
        then show ?thesis using expires_other [OF inv False n u(7), of exps'] Some w(3) by auto
      qed
      moreover have "exps_change exps exps' (set (expirables db)) (set (expirables db'))"
        by (rule exps_changeI [OF w(2)]) (use w(3) t(2) u(8) e(1) in auto)
      ultimately show ?thesis using run u(1-5,9) pr unfolding expiration_put_def by (intro exI [of _ exps'] exI [of _ db']) auto
    qed
  qed
qed

lemma clear_expiration_law:
  assumes inv: "db_inv exps db" and n: "nodes_of db a = Some n"
  shows "\<exists>exps' db'. clear_expiration a exps db = Some (exps', db') \<and> expiration_put a None exps db exps' db'"
proof -
  have x: "exp_inv exps (nodes_of db) (expirables db)" by (rule db_invD(7) [OF inv])
  have props: "maps_inv (kn_properties n)" using db_invD(6) [OF inv n] by (cases "kn_properties n") auto
  have pr: "(properties_of db)(a := kn_properties n) = properties_of db" using n by (auto simp: properties_of_def)
  show ?thesis
  proof (cases "kn_expirable n")
    case None
    then have "clear_expiration a exps db = Some (exps, db)" using n by (simp add: clear_expiration_def)
    moreover have "expires_of exps db a = None" using n None by (simp add: expires_of_def)
    then have "(expires_of exps db)(a := None) = expires_of exps db" by auto
    moreover have "exps_change exps exps (set (expirables db)) (set (expirables db))"
      using x by (simp add: exps_change_refl exp_inv_def)
    ultimately show ?thesis using inv unfolding expiration_put_def by (intro exI [of _ exps] exI [of _ db]) simp
  next
    case (Some e)
    have e: "e \<in> set (expirables db)" "exp_key_node (exp_at exps e) = a" using x n Some unfolding exp_inv_def by blast+
    then obtain y where y: "slab_contents exps e = Some y" "exp_at exps e = y"
      using x unfolding exp_inv_def exp_tree_inv_def by (auto simp: exp_at_def)
    obtain tree' where r: "remove_expirable_from_tree e (expirables db) = Some (0, tree')" "exp_tree_inv exps tree'"
      "set tree' = set (expirables db) - {e}" using remove_expirable_ok [OF _ e(1)] x unfolding exp_inv_def by blast
    have "slab_inv exps" "slab_contents exps e \<noteq> None" using x y(1) by (simp_all add: exp_inv_def)
    from remove_entry_law [OF this] obtain exps' where s: "remove_entry_from_slab e exps = Some (0, exps')" "slab_inv exps'"
      "slab_contents exps' = (slab_contents exps)(e := None)" by blast
    define n' where "n' = n\<lparr>kn_expirable := None\<rparr>"
    have n': "kn_key n' = kn_key n" "kn_slot n' = kn_slot n" "kn_properties n' = kn_properties n" "kn_expirable n' = None"
      by (simp_all add: n'_def)
    have set: "set tree' = set (expirables db) - set_option (kn_expirable n)" using r(3) Some by simp
    have other: "\<forall>d. kn_expirable n \<noteq> Some d \<longrightarrow> slab_contents exps' d = slab_contents exps d" using s(3) Some by simp
    have f: "exp_inv exps' ((nodes_of db)(a := None)) tree'"
      by (rule exp_inv_forget [OF x n s(2) r(2) set other])
    have "exp_inv exps' ((nodes_of db)(a \<mapsto> n')) tree'"
      unfolding exp_inv_def
    proof (intro conjI ballI allI impI)
      show "slab_inv exps'" "exp_tree_inv exps' tree'" using f by (simp_all add: exp_inv_def)
    next
      fix d assume "d \<in> set tree'"
      then obtain m where "((nodes_of db)(a := None)) (exp_key_node (exp_at exps' d)) = Some m" "kn_expirable m = Some d"
        using f unfolding exp_inv_def by blast
      then show "\<exists>m. ((nodes_of db)(a \<mapsto> n')) (exp_key_node (exp_at exps' d)) = Some m \<and> kn_expirable m = Some d"
        by (auto split: if_splits)
    next
      fix b m d assume "((nodes_of db)(a \<mapsto> n')) b = Some m" "kn_expirable m = Some d"
      then have "((nodes_of db)(a := None)) b = Some m" "kn_expirable m = Some d" using n'(4) by (auto split: if_splits)
      then show "d \<in> set tree'" "exp_key_node (exp_at exps' d) = b" using f unfolding exp_inv_def by blast+
    qed
    note u = update_node_law [OF inv n n'(1,2) _ this, unfolded n'(3), OF props]
    define db' where "db' = (update_node a n' db)\<lparr>expirables := tree'\<rparr>"
    note u = u [folded db'_def]
    have run: "clear_expiration a exps db = Some (exps', db')"
      using n Some y e(2) r(1) s(1) by (simp add: clear_expiration_def db'_def n'_def)
    have "expires_of exps' db' b = ((expires_of exps db)(a := None)) b" for b
    proof (cases "b = a")
      case True
      then show ?thesis by (simp add: expires_of_def u(7) n'(4))
    next
      case False
      then show ?thesis using expires_other [OF inv False n u(7), of exps'] Some s(3) by auto
    qed
    moreover have "exps_change exps exps' (set (expirables db)) (set (expirables db'))"
      by (rule exps_changeI [OF s(2)]) (use s(3) r(3) u(8) e(1) in auto)
    ultimately show ?thesis using run u(1-5,9) pr unfolding expiration_put_def by (intro exI [of _ exps'] exI [of _ db']) auto
  qed
qed

section \<open>The key node and its slot\<close>

definition good_node_mem :: "(node_heap \<Rightarrow> nat option) \<Rightarrow> bool" where
  "good_node_mem f = (\<forall>h. finite (dom h) \<longrightarrow> (\<exists>a. f h = Some a \<and> h a = None))"

definition good_memory :: "memory \<Rightarrow> bool" where
  "good_memory mem =
     (good_malloc (slot_chunks mem) \<and> node_mem mem \<and> good_malloc (layer_chunk mem) \<and> good_malloc (expirable_chunk mem) \<and>
      good_node_mem (key_node_mem mem) \<and> map_mem mem \<noteq> None \<and> name_mem mem \<and> stack_mem mem \<and> reply_mem mem)"

lemma good_memoryD:
  assumes "good_memory mem"
  shows "good_malloc (slot_chunks mem)" "node_mem mem" "good_malloc (layer_chunk mem)" "good_malloc (expirable_chunk mem)"
    "good_node_mem (key_node_mem mem)" "map_mem mem \<noteq> None" "name_mem mem" "reply_mem mem" "stack_mem mem"
  using assms by (simp_all add: good_memory_def)

lemma create_node_law:
  assumes inv: "db_inv exps db" and none: "node_of_key (key_nodes db) key = None" and fresh: "nodes_of db a = None"
  shows "\<exists>s'. get_key_node_from_key (Some a) key True (key_nodes db) = Some (2, Some a, s') \<and>
    db_inv exps (db\<lparr>key_nodes := s'\<rparr>) \<and> nodes_of (db\<lparr>key_nodes := s'\<rparr>) a = Some (empty_key_node key) \<and>
    node_of_key s' = (node_of_key (key_nodes db))(key \<mapsto> a) \<and> position_of (db\<lparr>key_nodes := s'\<rparr>) = position_of db \<and>
    expires_of exps (db\<lparr>key_nodes := s'\<rparr>) = expires_of exps db \<and> properties_of (db\<lparr>key_nodes := s'\<rparr>) = properties_of db"
proof -
  obtain s' where s': "get_key_node_from_key (Some a) key True (key_nodes db) = Some (2, Some a, s')" "store_inv s'"
    "kn_heap s' = (nodes_of db)(a \<mapsto> empty_key_node key)" "set (kn_tree s') = insert a (set (kn_tree (key_nodes db)))"
    "\<forall>k. node_of_key s' k = (if k = key then Some a else node_of_key (key_nodes db) k)"
    using get_created [OF db_invD(2) [OF inv] none fresh] by blast
  let ?db = "db\<lparr>key_nodes := s'\<rparr>"
  have x: "exp_inv exps (nodes_of db) (expirables db)" by (rule db_invD(7) [OF inv])
  have e: "kn_slot (empty_key_node key) = None" "kn_properties (empty_key_node key) = None" "kn_expirable (empty_key_node key) = None"
    by (simp_all add: empty_key_node_def)
  have "exp_inv exps (kn_heap s') (expirables db)"
    unfolding exp_inv_def
  proof (intro conjI ballI allI impI)
    show "slab_inv exps" "exp_tree_inv exps (expirables db)" using x by (simp_all add: exp_inv_def)
  next
    fix d assume "d \<in> set (expirables db)"
    then obtain m where "nodes_of db (exp_key_node (exp_at exps d)) = Some m" "kn_expirable m = Some d"
      using x unfolding exp_inv_def by blast
    then show "\<exists>m. kn_heap s' (exp_key_node (exp_at exps d)) = Some m \<and> kn_expirable m = Some d"
      using fresh by (auto simp: s'(3))
  next
    fix b m d assume m: "kn_heap s' b = Some m" "kn_expirable m = Some d"
    then have "nodes_of db b = Some m" using e(3) by (auto simp: s'(3) split: if_splits)
    then show "d \<in> set (expirables db)" "exp_key_node (exp_at exps d) = b" using x m(2) unfolding exp_inv_def by blast+
  qed
  moreover have "slip_map_inv m" if "kn_heap s' b = Some k" "kn_properties k = Some m" for b k m
    using that e(2) db_invD(6) [OF inv] by (cases "b = a") (auto simp: s'(3))
  moreover have "dom (kn_heap s') = set (kn_tree s')" using db_invD(3) [OF inv] s'(3,4) by auto
  ultimately have "base_inv exps ?db" using s'(2) unfolding base_inv_def by simp
  moreover have l: "links (nodes_of db) [] (db_root db)" using db_invD(4) [OF inv] by (simp add: index_inv_def)
  have "kn_heap s' b = nodes_of db b" if "b \<in> keys (db_root db)" for b
    using links_keys [OF l that] fresh by (auto simp: s'(3))
  then have "links (kn_heap s') [] (db_root db)" by (intro links_frame [OF l]) blast
  then have ix: "index_inv (kn_heap s') (db_root db) (qbounds db)" using db_invD(4) [OF inv] by (simp add: index_inv_def)
  have "b \<in> keys (db_root db)" if "kn_heap s' b = Some m" "kn_slot m \<noteq> None" for b m
    using that e(1) db_invD(5) [OF inv] by (cases "b = a") (simp_all add: s'(3))
  then have "slots_ok {} ?db" using ix by (simp add: slots_ok_def)
  ultimately have "db_inv exps ?db" by (simp add: db_inv_def)
  moreover have "position_of ?db = position_of db" "expires_of exps ?db = expires_of exps db" "properties_of ?db = properties_of db"
    using fresh e by (auto simp: fun_eq_iff position_of_def expires_of_def properties_of_def s'(3))
  moreover have "node_of_key s' = (node_of_key (key_nodes db))(key \<mapsto> a)" using s'(5) by (simp add: fun_eq_iff)
  ultimately show ?thesis using s'(1,3) by (intro exI [of _ s']) simp
qed

lemma no_node_no_record:
  assumes "nodes_of db a = None"
  shows "record_at exps db a = no_record"
  using assms by (simp add: record_at_def no_record_def position_of_def expires_of_def properties_of_def)

lemma same_position_eq: "same_position p q \<Longrightarrow> p = q"
  by (cases p; cases q) (simp add: same_position_def feq_def)

lemma set_same_slot:
  assumes "map_option kn_slot (h a) = Some ptr"
  shows "set_kn_slot (Some a) ptr h = Some h"
proof -
  obtain n where n: "h a = Some n" "kn_slot n = ptr" using assms by auto
  then have "h(a \<mapsto> n\<lparr>kn_slot := ptr\<rparr>) = h" by auto
  then show ?thesis using set_kn_slot_law(1) [of h a n ptr, OF n(1)] by simp
qed

lemma with_nodes_same: "with_nodes db (nodes_of db) = db"
  by (simp add: with_nodes_def)

lemma leave_position_law:
  assumes inv: "db_inv exps db" and n: "nodes_of db a = Some n" and small: "small_bucket db a"
    and mem: "good_malloc (slot_chunks mem)" "node_mem mem"
  shows "\<exists>set db'. leave_position mem p a exps db = Some (set, db') \<and> db_inv exps db' \<and> nodes_of db' a \<noteq> None \<and>
    (if set then (\<exists>n'. nodes_of db' a = Some n' \<and> kn_slot n' = None) \<and> position_of db' = (position_of db)(a := None)
     else db' = db \<and> position_of db a = Some p) \<and>
    expires_of exps db' = expires_of exps db \<and> properties_of db' = properties_of db \<and>
    node_of_key (key_nodes db') = node_of_key (key_nodes db) \<and> same_db db db' \<and> expirables db' = expirables db \<and>
    (buckets_bounded db \<longrightarrow> buckets_bounded db')"
proof (cases "kn_slot n")
  case None
  then have "position_of db a = None" using n by (simp add: position_of_def)
  then have "(position_of db)(a := None) = position_of db" by auto
  then show ?thesis using n None inv by (intro exI [of _ True] exI [of _ db]) (simp add: leave_position_def)
next
  case (Some ptr)
  obtain q e where ptr: "ptr = (q, e)" by (cases ptr)
  have sl: "kn_slot n \<noteq> None" using Some by simp
  have "a \<in> keys (db_root db)" by (rule db_invD(5) [OF inv n sl])
  then obtain s where s: "content (db_root db) q e = Some s"
    using index_slot [OF db_invD(4) [OF inv]] n Some ptr by (metis option.inject prod.inject)
  then have at: "position_of db a = Some (position s)" using n Some ptr by (simp add: position_of_def)
  show ?thesis
  proof (cases "same_position (position s) p")
    case True
    then have "leave_position mem p a exps db = Some (False, db)"
      using n Some ptr s by (simp add: leave_position_def)
    then show ?thesis using inv n at same_position_eq [OF True] by (intro exI [of _ False] exI [of _ db]) simp
  next
    case False
    obtain db1 db' where r: "remove_entry_from_key_node (slot_chunks mem) True a False exps db = Some (0, exps, db1)"
      "nodes_of db1 a = Some n" "clear_slot_of a db1 = Some db'" "db_inv exps db'" "nodes_of db' a = Some (n\<lparr>kn_slot := None\<rparr>)"
      "position_of db' = (position_of db)(a := None)" "expires_of exps db' = expires_of exps db"
      "properties_of db' = properties_of db" "node_of_key (key_nodes db') = node_of_key (key_nodes db)" "same_db db db'"
      "expirables db' = expirables db"
      using remove_and_clear_law [OF inv mem(1) n sl small] by blast
    have "leave_position mem p a exps db = Some (True, db')"
      using n Some ptr s False r(1-3) mem(2) by (simp add: leave_position_def)
    moreover have "buckets_bounded db \<longrightarrow> buckets_bounded db'" using remove_entry_bounded [OF inv _ r(1)] clear_slot_bounded [OF r(3)] by blast
    ultimately show ?thesis using r(4-11) by (intro exI [of _ True] exI [of _ db']) simp
  qed
qed

definition accepted_position :: "records_put_op \<Rightarrow> rectangle2d \<Rightarrow> bool" where
  "accepted_position op qb = (put_position_set op \<and> position_is_in_rect (put_position op) qb)"

lemma put_slot_law:
  assumes inv: "db_inv exps db" and n: "nodes_of db a = Some n" and small: "small_bucket db a"
    and mem: "good_malloc (slot_chunks mem)" "node_mem mem"
  shows "\<exists>db'. put_slot mem op a exps db = Some (0, exps, db') \<and> db_inv exps db' \<and> nodes_of db' a \<noteq> None \<and>
    position_of db' = (if accepted_position op (qbounds db) then (position_of db)(a \<mapsto> put_position op) else position_of db) \<and>
    expires_of exps db' = expires_of exps db \<and> properties_of db' = properties_of db \<and>
    node_of_key (key_nodes db') = node_of_key (key_nodes db) \<and> same_db db db' \<and> expirables db' = expirables db \<and>
    (buckets_bounded db \<longrightarrow> buckets_bounded db')"
proof (cases "accepted_position op (qbounds db)")
  case False
  then have "put_slot mem op a exps db = Some (0, exps, db)" by (auto simp: put_slot_def accepted_position_def)
  then show ?thesis using inv n False by (intro exI [of _ db]) simp
next
  case True
  let ?p = "put_position op"
  obtain set db1 where l: "leave_position mem ?p a exps db = Some (set, db1)" "db_inv exps db1" "nodes_of db1 a \<noteq> None"
    "if set then (\<exists>n'. nodes_of db1 a = Some n' \<and> kn_slot n' = None) \<and> position_of db1 = (position_of db)(a := None)
     else db1 = db \<and> position_of db a = Some ?p"
    "expires_of exps db1 = expires_of exps db" "properties_of db1 = properties_of db"
    "node_of_key (key_nodes db1) = node_of_key (key_nodes db)" "same_db db db1" "expirables db1 = expirables db"
    "buckets_bounded db \<longrightarrow> buckets_bounded db1"
    using leave_position_law [OF inv n small mem] by blast
  have start: "put_slot mem op a exps db =
      (if \<not> set then Some (0, exps, db1)
       else
         do {
           (ret, new_slot, db2) \<leftarrow> add_slot (slot_chunks mem) (node_mem mem)
             \<lparr>position = ?p, slot_key_node = Some a, slot_bucket = None\<rparr> db1;
           (if ret \<noteq> 0 then
              do {
                db3 \<leftarrow> clear_slot_of a (remove_node_from_tree a db2);
                (exps', db4) \<leftarrow> free_key_node a exps db3;
                Some (HTTP_SERVUNAVAIL, exps', db4)
              }
            else
              do {
                h \<leftarrow> set_kn_slot (Some a) new_slot (nodes_of db2);
                c_assert (new_slot \<noteq> None);
                Some (0, exps, with_nodes db2 h)
              })
         })"
    using True l(1) by (simp add: put_slot_def accepted_position_def)
  show ?thesis
  proof (cases set)
    case False
    then have "db1 = db" "position_of db a = Some ?p" using l(4) by simp_all
    then have "(position_of db)(a \<mapsto> ?p) = position_of db" by auto
    then show ?thesis using start False True inv n \<open>db1 = db\<close> by (intro exI [of _ db]) simp
  next
    case moved: True
    then obtain n1 where n1: "nodes_of db1 a = Some n1" "kn_slot n1 = None" and p1: "position_of db1 = (position_of db)(a := None)"
      using l(4) by auto
    let ?s = "\<lparr>position = ?p, slot_key_node = Some a, slot_bucket = None\<rparr>"
    have q: "slot_key_node ?s = Some a" "position_is_in_rect (position ?s) (qbounds db1)"
      using True l(8) by (simp_all add: accepted_position_def same_db_def)
    obtain ptr db2 where s: "add_slot (slot_chunks mem) True ?s db1 = Some (0, Some ptr, db2)" "db_inv exps db2"
      "position_of db2 = (position_of db1)(a \<mapsto> position ?s)" "expires_of exps db2 = expires_of exps db1"
      "properties_of db2 = properties_of db1" "node_of_key (key_nodes db2) = node_of_key (key_nodes db1)" "same_db db1 db2"
      "expirables db2 = expirables db1" "map_option kn_slot (nodes_of db2 a) = Some (Some ptr)"
      using add_slot_law [OF l(2) mem(1) n1 q] by blast
    have "put_slot mem op a exps db = Some (0, exps, db2)"
      using start moved s(1) mem(2) set_same_slot [of "nodes_of db2", OF s(9)] by (cases ptr) (simp add: with_nodes_same)
    moreover have "nodes_of db2 a \<noteq> None" using s(9) by auto
    moreover have "buckets_bounded db \<longrightarrow> buckets_bounded db2" using add_slot_bounded [OF l(2) mem(1) _ n1 q s(1)] l(10) by blast
    ultimately show ?thesis using s(2-8) l(5-9) True p1 same_db_trans [OF l(8) s(7)] by (intro exI [of _ db2]) simp
  qed
qed

section \<open>Storing and deleting in one layer\<close>

definition put_op_ok :: "records_put_op \<Rightarrow> bool" where
  "put_op_ok op =
     (names_ok (\<lambda>c. c = INT_PROPERTY_COMMON_PREFIX) (put_special_properties op) \<and>
      names_ok (\<lambda>c. c \<noteq> INT_PROPERTY_COMMON_PREFIX) (put_properties_map op))"

text \<open>The record that a PUT leaves, from the one that was there; es are its special properties.\<close>

definition put_spec :: "records_put_op \<Rightarrow> rectangle2d \<Rightarrow> (bytes \<times> bytes) list \<Rightarrow> stored_record \<Rightarrow> stored_record" where
  "put_spec op qb es r =
     \<lparr>rec_position = (if accepted_position op qb then Some (put_position op) else rec_position r),
      rec_expires = (if put_expires_at op \<noteq> 0 then Some (put_expires_at op) else None),
      rec_properties = updated_properties es (view (put_properties_map op)) (rec_properties r)\<rparr>"

definition same_place :: "stored_record \<Rightarrow> stored_record \<Rightarrow> bool" where
  "same_place r r' = (rec_position r = rec_position r' \<and> rec_expires r = rec_expires r')"

definition old_record :: "stored_record option \<Rightarrow> stored_record" where
  "old_record r = (case r of None \<Rightarrow> no_record | Some x \<Rightarrow> x)"

text \<open>No property store is refused.\<close>

definition stored_map :: "pan_db \<Rightarrow> bytes \<Rightarrow> slip_map option" where
  "stored_map db key = do { a \<leftarrow> node_of_key (key_nodes db) key; properties_of db a }"

definition put_room :: "records_put_op \<Rightarrow> pan_db \<Rightarrow> bool" where
  "put_room op db =
     (\<forall>es fs. lists_entries (put_special_properties op) es \<longrightarrow> lists_entries (put_properties_map op) fs \<longrightarrow>
        map_size (stored_map db (put_key op)) + room_needed es fs \<le> 65535)"

definition movable :: "pan_db \<Rightarrow> bytes \<Rightarrow> bool" where
  "movable db key = (case node_of_key (key_nodes db) key of None \<Rightarrow> True | Some a \<Rightarrow> small_bucket db a)"

lemma record_of_upd:
  assumes "inj_on (node_of_key (key_nodes db')) (dom (node_of_key (key_nodes db')))"
    and "node_of_key (key_nodes db') = (node_of_key (key_nodes db))(key \<mapsto> a)"
    and "\<And>b. b \<noteq> a \<Longrightarrow> record_at exps' db' b = record_at exps db b"
  shows "record_of exps' db' = (record_of exps db)(key \<mapsto> record_at exps' db' a)"
proof
  fix k
  show "record_of exps' db' k = ((record_of exps db)(key \<mapsto> record_at exps' db' a)) k"
  proof (cases "k = key")
    case True
    then show ?thesis using assms(2) by (simp add: record_of_def)
  next
    case False
    then have same: "node_of_key (key_nodes db') k = node_of_key (key_nodes db) k" using assms(2) by simp
    have "b \<noteq> a" if "node_of_key (key_nodes db) k = Some b" for b
    proof
      assume "b = a"
      then have "node_of_key (key_nodes db') k = node_of_key (key_nodes db') key" using that same assms(2) by simp
      then show False using inj_onD [OF assms(1)] that same assms(2) False by (metis domI fun_upd_same)
    qed
    then show ?thesis using False same assms(3)
      by (cases "node_of_key (key_nodes db) k") (simp_all add: record_of_def)
  qed
qed

lemma node_of_key_inj:
  assumes "db_inv exps db"
  shows "inj_on (node_of_key (key_nodes db)) (dom (node_of_key (key_nodes db)))"
proof (rule inj_onI)
  fix k l assume "k \<in> dom (node_of_key (key_nodes db))" "node_of_key (key_nodes db) k = node_of_key (key_nodes db) l"
  then obtain a where "node_of_key (key_nodes db) k = Some a" "node_of_key (key_nodes db) l = Some a" by (metis domD)
  then show "k = l" unfolding node_of_key_Some [OF db_invD(2) [OF assms]] by simp
qed

lemma node_of_key_node:
  assumes "db_inv exps db" "node_of_key (key_nodes db) key = Some a"
  obtains n where "nodes_of db a = Some n" "kn_key n = key"
proof -
  have "a \<in> set (kn_tree (key_nodes db))" "key_at (key_nodes db) a = key"
    using assms(2) unfolding node_of_key_Some [OF db_invD(2) [OF assms(1)]] by simp_all
  moreover from this have "a \<in> dom (nodes_of db)" using db_invD(3) [OF assms(1)] by simp
  ultimately show thesis using that by (auto simp: key_at_def)
qed

text \<open>The steps after the key node is known.\<close>

lemma put_steps_law:
  assumes inv: "db_inv exps db" and n: "nodes_of db a = Some n" and small: "small_bucket db a" and op: "put_op_ok op"
    and mem: "good_memory mem"
  shows "\<exists>db2 db3 exps4 db4 es fs. put_slot mem op a exps db = Some (0, exps, db2) \<and>
    put_node_properties mem op a db2 = Some db3 \<and> put_expiration mem (put_expires_at op) a exps db3 = Some (exps4, db4) \<and>
    db_inv exps4 db4 \<and> node_of_key (key_nodes db4) = node_of_key (key_nodes db) \<and> same_db db db4 \<and>
    (buckets_bounded db \<longrightarrow> buckets_bounded db4) \<and> exps_change exps exps4 (set (expirables db)) (set (expirables db4)) \<and>
    (\<forall>b. b \<noteq> a \<longrightarrow> record_at exps4 db4 b = record_at exps db b) \<and> lists_entries (put_special_properties op) es \<and>
    lists_entries (put_properties_map op) fs \<and>
    same_place (record_at exps4 db4 a) (put_spec op (qbounds db) es (record_at exps db a)) \<and>
    (map_size (properties_of db a) + room_needed es fs \<le> 65535 \<longrightarrow>
       record_at exps4 db4 a = put_spec op (qbounds db) es (record_at exps db a))"
proof -
  note m = good_memoryD [OF mem]
  obtain db2 where s: "put_slot mem op a exps db = Some (0, exps, db2)" "db_inv exps db2" "nodes_of db2 a \<noteq> None"
    "position_of db2 = (if accepted_position op (qbounds db) then (position_of db)(a \<mapsto> put_position op) else position_of db)"
    "expires_of exps db2 = expires_of exps db" "properties_of db2 = properties_of db"
    "node_of_key (key_nodes db2) = node_of_key (key_nodes db)" "same_db db db2" "expirables db2 = expirables db"
    "buckets_bounded db \<longrightarrow> buckets_bounded db2"
    using put_slot_law [OF inv n small m(1,2)] by blast
  obtain n2 where n2: "nodes_of db2 a = Some n2" using s(3) by blast
  have ok: "names_ok (\<lambda>c. c = INT_PROPERTY_COMMON_PREFIX) (put_special_properties op)"
    "names_ok (\<lambda>c. c \<noteq> INT_PROPERTY_COMMON_PREFIX) (put_properties_map op)" using op by (simp_all add: put_op_ok_def)
  obtain db3 mo es fs where p: "put_node_properties mem op a db2 = Some db3" "db_inv exps db3" "position_of db3 = position_of db2"
    "expires_of exps db3 = expires_of exps db2" "properties_of db3 = (properties_of db2)(a := mo)"
    "node_of_key (key_nodes db3) = node_of_key (key_nodes db2)" "same_db db2 db3" "expirables db3 = expirables db2"
    "nodes_of db3 a \<noteq> None" "lists_entries (put_special_properties op) es" "lists_entries (put_properties_map op) fs"
    "map_mem mem \<noteq> None \<longrightarrow> map_size (properties_of db2 a) + room_needed es fs \<le> 65535 \<longrightarrow>
       view mo = updated_properties es (view (put_properties_map op)) (view (properties_of db2 a))" "db_root db3 = db_root db2"
    using put_node_properties_law [OF s(2) n2 ok, where mem = mem] by blast
  obtain n3 where n3: "nodes_of db3 a = Some n3" using p(9) by blast
  define t where "t = (if put_expires_at op \<noteq> 0 then Some (put_expires_at op) else None)"
  obtain exps4 db4 where e: "put_expiration mem (put_expires_at op) a exps db3 = Some (exps4, db4)"
    "expiration_put a t exps db3 exps4 db4"
    using set_expiration_law [OF p(2) n3 m(4), of "put_expires_at op"] clear_expiration_law [OF p(2) n3]
    unfolding put_expiration_def t_def by (cases "put_expires_at op = 0") auto
  note x = e(2) [unfolded expiration_put_def]
  have other: "record_at exps4 db4 b = record_at exps db b" if "b \<noteq> a" for b
    using x p(3-5) s(4-6) that by (simp add: record_at_def)
  have "record_at exps4 db4 a = put_spec op (qbounds db) es (record_at exps db a)"
    if "map_size (properties_of db a) + room_needed es fs \<le> 65535"
    using x p(3-5,12) s(4-6) m(6) that by (simp add: record_at_def put_spec_def t_def)
  moreover have "same_place (record_at exps4 db4 a) (put_spec op (qbounds db) es (record_at exps db a))"
    using x p(3-5) s(4-6) by (simp add: same_place_def record_at_def put_spec_def t_def)
  moreover have "same_db db db4" using x same_db_trans [OF same_db_trans [OF s(8) p(7)]] by blast
  moreover have "exps_change exps exps4 (set (expirables db)) (set (expirables db4))" using x p(8) s(9) by simp
  moreover have "node_of_key (key_nodes db4) = node_of_key (key_nodes db)" using x p(6) s(7) by simp
  moreover have "buckets_bounded db \<longrightarrow> buckets_bounded db4"
    using s(10) bounded_same_root [OF p(13,7)] bounded_same_root [of db4 db3] x by simp
  ultimately show ?thesis using s(1) p(1,10,11) e(1) x other by blast
qed

lemma put_record_law:
  assumes inv: "db_inv exps db" and small: "movable db (put_key op)" and op: "put_op_ok op" and mem: "good_memory mem"
  shows "\<exists>exps' db' es r. put_record mem op exps db = Some (0, exps', db') \<and> db_inv exps' db' \<and> same_db db db' \<and>
    (buckets_bounded db \<longrightarrow> buckets_bounded db') \<and>
    exps_change exps exps' (set (expirables db)) (set (expirables db')) \<and> lists_entries (put_special_properties op) es \<and>
    record_of exps' db' = (record_of exps db)(put_key op \<mapsto> r) \<and>
    same_place r (put_spec op (qbounds db) es (old_record (record_of exps db (put_key op)))) \<and>
    (put_room op db \<longrightarrow> r = put_spec op (qbounds db) es (old_record (record_of exps db (put_key op))))"
proof -
  obtain a status s n where g: "get_key_node_from_key (key_node_mem mem (nodes_of db)) (put_key op) True (key_nodes db) =
      Some (status, Some a, s)" "status > 0" "db_inv exps (db\<lparr>key_nodes := s\<rparr>)" "nodes_of (db\<lparr>key_nodes := s\<rparr>) a = Some n"
    "small_bucket (db\<lparr>key_nodes := s\<rparr>) a" "node_of_key s = (node_of_key (key_nodes db))(put_key op \<mapsto> a)"
    "record_at exps (db\<lparr>key_nodes := s\<rparr>) = record_at exps db" "stored_map db (put_key op) = properties_of (db\<lparr>key_nodes := s\<rparr>) a"
    "old_record (record_of exps db (put_key op)) = record_at exps db a"
  proof (cases "node_of_key (key_nodes db) (put_key op)")
    case (Some a)
    obtain n where n: "nodes_of db a = Some n" by (rule node_of_key_node [OF inv Some])
    have "(node_of_key (key_nodes db))(put_key op \<mapsto> a) = node_of_key (key_nodes db)" using Some by auto
    then show ?thesis using that [of 1 a "key_nodes db" n] get_existing [OF db_invD(2) [OF inv] Some] inv n small Some
      by (simp add: movable_def stored_map_def old_record_def record_of_def)
  next
    case None
    have "finite (dom (nodes_of db))" using db_invD(3) [OF inv] by simp
    then obtain a where a: "key_node_mem mem (nodes_of db) = Some a" "nodes_of db a = None"
      using good_memoryD(5) [OF mem] unfolding good_node_mem_def by blast
    obtain s where s: "get_key_node_from_key (Some a) (put_key op) True (key_nodes db) = Some (2, Some a, s)"
      "db_inv exps (db\<lparr>key_nodes := s\<rparr>)" "nodes_of (db\<lparr>key_nodes := s\<rparr>) a = Some (empty_key_node (put_key op))"
      "node_of_key s = (node_of_key (key_nodes db))(put_key op \<mapsto> a)" "position_of (db\<lparr>key_nodes := s\<rparr>) = position_of db"
      "expires_of exps (db\<lparr>key_nodes := s\<rparr>) = expires_of exps db" "properties_of (db\<lparr>key_nodes := s\<rparr>) = properties_of db"
      using create_node_law [OF inv None a(2)] by blast
    have "small_bucket (db\<lparr>key_nodes := s\<rparr>) a" using s(3) by (simp add: small_bucket_def empty_key_node_def)
    moreover have "record_at exps (db\<lparr>key_nodes := s\<rparr>) = record_at exps db" using s(5-7) by (simp add: record_at_def fun_eq_iff)
    moreover have "old_record (record_of exps db (put_key op)) = record_at exps db a"
      using None no_node_no_record [OF a(2)] by (simp add: old_record_def record_of_def)
    moreover have "stored_map db (put_key op) = properties_of (db\<lparr>key_nodes := s\<rparr>) a"
      using None a(2) s(7) by (simp add: stored_map_def properties_of_def)
    ultimately show ?thesis using that [of 2 a s] a(1) s(1-4) by simp
  qed
  let ?db = "db\<lparr>key_nodes := s\<rparr>"
  obtain db2 db3 exps4 db4 es fs where p: "put_slot mem op a exps ?db = Some (0, exps, db2)"
    "put_node_properties mem op a db2 = Some db3" "put_expiration mem (put_expires_at op) a exps db3 = Some (exps4, db4)"
    "db_inv exps4 db4" "node_of_key (key_nodes db4) = node_of_key (key_nodes ?db)" "same_db ?db db4"
    "exps_change exps exps4 (set (expirables ?db)) (set (expirables db4))"
    "\<forall>b. b \<noteq> a \<longrightarrow> record_at exps4 db4 b = record_at exps ?db b" "lists_entries (put_special_properties op) es"
    "lists_entries (put_properties_map op) fs"
    "same_place (record_at exps4 db4 a) (put_spec op (qbounds ?db) es (record_at exps ?db a))"
    "map_size (properties_of ?db a) + room_needed es fs \<le> 65535 \<longrightarrow>
       record_at exps4 db4 a = put_spec op (qbounds ?db) es (record_at exps ?db a)"
    "buckets_bounded ?db \<longrightarrow> buckets_bounded db4"
    using put_steps_law [OF g(3-5) op mem] by blast
  have run: "put_record mem op exps db = Some (0, exps4, db4)"
    using g(1,2) p(1-3) by (simp add: put_record_def)
  have at: "put_room op db \<longrightarrow> record_at exps4 db4 a = put_spec op (qbounds db) es (old_record (record_of exps db (put_key op)))"
    "same_place (record_at exps4 db4 a) (put_spec op (qbounds db) es (old_record (record_of exps db (put_key op))))"
    using p(9-12) g(7,8,9) unfolding put_room_def by simp_all
  have node: "node_of_key (key_nodes db4) = (node_of_key (key_nodes db))(put_key op \<mapsto> a)" using p(5) g(6) by simp
  have oth: "record_at exps4 db4 b = record_at exps db b" if "b \<noteq> a" for b using p(8) g(7) that by simp
  have "record_of exps4 db4 = (record_of exps db)(put_key op \<mapsto> record_at exps4 db4 a)"
    by (rule record_of_upd [OF node_of_key_inj [OF p(4)] node oth])
  moreover have "same_db db db4" using p(6) by (simp add: same_db_def)
  moreover have "exps_change exps exps4 (set (expirables db)) (set (expirables db4))" using p(7) by simp
  moreover have "buckets_bounded db \<longrightarrow> buckets_bounded db4" using p(13) by (simp add: buckets_bounded_def)
  ultimately show ?thesis using run p(4,9) at
    by (intro exI [of _ exps4] exI [of _ db4] exI [of _ es] exI [of _ "record_at exps4 db4 a"]) simp
qed

lemma delete_record_law:
  assumes inv: "db_inv exps db" and small: "movable db key" and mem: "good_memory mem"
  shows "\<exists>exps' db'. delete_record mem key exps db = Some (if record_of exps db key = None then HTTP_NOTFOUND else 0, exps', db') \<and>
    db_inv exps' db' \<and> same_db db db' \<and> exps_change exps exps' (set (expirables db)) (set (expirables db')) \<and>
    record_of exps' db' = (record_of exps db)(key := None) \<and> (small_buckets db \<longrightarrow> small_buckets db') \<and>
    (buckets_bounded db \<longrightarrow> buckets_bounded db') \<and> (record_of exps db key = None \<longrightarrow> exps' = exps \<and> db' = db)"
proof (cases "node_of_key (key_nodes db) key")
  case None
  then have r: "record_of exps db key = None" by (simp add: record_of_def)
  then have "(record_of exps db)(key := None) = record_of exps db" by auto
  moreover have "exps_change exps exps (set (expirables db)) (set (expirables db))"
    using db_invD(7) [OF inv] by (simp add: exps_change_refl exp_inv_def)
  ultimately show ?thesis using r get_missing(1) [OF db_invD(2) [OF inv] None] inv
    by (intro exI [of _ exps] exI [of _ db]) (simp add: delete_record_def)
next
  case (Some a)
  note m = good_memoryD [OF mem]
  obtain n where n: "nodes_of db a = Some n" "kn_key n = key" by (rule node_of_key_node [OF inv Some])
  have small_a: "small_bucket db a" using small Some by (simp add: movable_def)
  obtain db1 n1 where s: "purge_slot mem a n exps db = Some (0, exps, db1)" "db_inv exps db1" "nodes_of db1 a = Some n1" "kn_slot n1 = None"
    "kn_key n1 = kn_key n" "expirables db1 = expirables db"
    "position_of db1 = (position_of db)(a := None)" "expires_of exps db1 = expires_of exps db"
    "properties_of db1 = properties_of db" "node_of_key (key_nodes db1) = node_of_key (key_nodes db)" "same_db db db1"
    "small_buckets db \<longrightarrow> small_buckets db1" "buckets_bounded db \<longrightarrow> buckets_bounded db1"
    using purge_slot_ok [OF inv n(1) small_a m(1,2)] by blast
  obtain exps' db' where f: "free_key_node a exps (remove_node_from_tree a db1) = Some (exps', db')" "db_inv exps' db'"
    "db_root db' = db_root db1" "position_of db' = position_of db1" "expires_of exps' db' = (expires_of exps db1)(a := None)"
    "properties_of db' = (properties_of db1)(a := None)"
    "node_of_key (key_nodes db') = (node_of_key (key_nodes db1))(kn_key n1 := None)" "same_db db1 db'"
    "slab_inv exps'" "\<forall>e'. slab_contents exps' e' = (if kn_expirable n1 = Some e' then None else slab_contents exps e')"
    "set (expirables db') = set (expirables db1) - set_option (kn_expirable n1)"
    using free_key_node_law [OF s(2-4)] by blast
  have run: "delete_record mem key exps db = Some (0, exps', db')"
    using get_existing [OF db_invD(2) [OF inv] Some] n(1) s(1,3,4) f(1) by (simp add: delete_record_def)
  have own: "set_option (kn_expirable n1) \<subseteq> set (expirables db)"
    using db_invD(7) [OF s(2)] s(3,6) unfolding exp_inv_def by auto
  have ch: "exps_change exps exps' (set (expirables db)) (set (expirables db'))"
    by (rule free_exps_change [OF f(9,10) _ own]) (use f(11) s(6) in simp)
  have at: "record_at exps' db' b = record_at exps db b" if "b \<noteq> a" for b
    using that f(4-6) s(7-9) by (simp add: record_at_def)
  have "record_of exps' db' k = ((record_of exps db)(key := None)) k" for k
  proof (cases "k = key")
    case True
    then show ?thesis using f(7) s(5) n(2) by (simp add: record_of_def)
  next
    case False
    then have same: "node_of_key (key_nodes db') k = node_of_key (key_nodes db) k" using f(7) s(5,10) n(2) by simp
    have "b \<noteq> a" if "node_of_key (key_nodes db) k = Some b" for b
      using that Some False unfolding node_of_key_Some [OF db_invD(2) [OF inv]] by blast
    then show ?thesis using False same at
      by (cases "node_of_key (key_nodes db) k") (simp_all add: record_of_def)
  qed
  then have "record_of exps' db' = (record_of exps db)(key := None)" by blast
  moreover have "record_of exps db key \<noteq> None" using Some by (simp add: record_of_def)
  moreover have "small_buckets db \<longrightarrow> small_buckets db'" using s(12) f(3,8) by (simp add: small_buckets_def same_db_def)
  moreover have "buckets_bounded db \<longrightarrow> buckets_bounded db'" using s(13) bounded_same_root [OF f(3,8)] by blast
  ultimately show ?thesis using run f(2) ch same_db_trans [OF s(11) f(8)] by (intro exI [of _ exps'] exI [of _ db']) auto
qed

end
