(* ===== verification/Record_Handlers.thy ===== *)
theory Record_Handlers
  imports Records
begin

text \<open>
  Storing and deleting records in the whole database (\<open>domain_records.c\<close>: handle_op_records_put,
  handle_op_records_delete): the operations of the theory Records, found through the name of a layer and
  answered. A database is seen as a map from names of layers to maps from keys to records.
  The theorems ask for fewer than 64 records with a position in the layer: then no bucket of the
  index can have more slots than its slab copes with.
\<close>

section \<open>Few positions\<close>

definition positioned :: "(bytes \<Rightarrow> stored_record option) \<Rightarrow> bytes set" where
  "positioned m = {k. \<exists>r. m k = Some r \<and> rec_position r \<noteq> None}"

definition few_positions :: "(bytes \<Rightarrow> stored_record option) \<Rightarrow> bool" where
  "few_positions m = (card (positioned m) < 64)"

lemma position_has_key:
  assumes inv: "db_inv exps db" and a: "position_of db a \<noteq> None"
  shows "node_of_key (key_nodes db) (key_at (key_nodes db) a) = Some a"
proof -
  have "a \<in> set (kn_tree (key_nodes db))"
    using a db_invD(3) [OF inv] by (auto simp: position_of_def split: bind_splits)
  then show ?thesis unfolding node_of_key_Some [OF db_invD(2) [OF inv]] by simp
qed

lemma card_positioned:
  assumes inv: "db_inv exps db"
  shows "finite (positioned (record_of exps db))" "card (keys (db_root db)) = card (positioned (record_of exps db))"
proof -
  have dom: "keys (db_root db) = dom (position_of db)"
    using position_of_placed [OF inv] by (force simp: keys_def dom_def)
  let ?key = "key_at (key_nodes db)"
  have "inj_on ?key (dom (position_of db))"
  proof (rule inj_onI)
    fix a b assume ab: "a \<in> dom (position_of db)" "b \<in> dom (position_of db)" "?key a = ?key b"
    note k = position_has_key [OF inv ab(1) [unfolded domIff]] position_has_key [OF inv ab(2) [unfolded domIff]]
    from k(1) [unfolded ab(3)] k(2) show "a = b" by simp
  qed
  moreover have "positioned (record_of exps db) = ?key ` dom (position_of db)"
  proof
    show "?key ` dom (position_of db) \<subseteq> positioned (record_of exps db)"
    proof (intro subsetI, elim imageE)
      fix k a assume a: "k = ?key a" "a \<in> dom (position_of db)"
      then have "node_of_key (key_nodes db) k = Some a" using position_has_key [OF inv] by blast
      then show "k \<in> positioned (record_of exps db)" using a(2) by (auto simp: positioned_def record_of_def record_at_def)
    qed
    show "positioned (record_of exps db) \<subseteq> ?key ` dom (position_of db)"
    proof
      fix k assume "k \<in> positioned (record_of exps db)"
      then obtain a where a: "node_of_key (key_nodes db) k = Some a" "position_of db a \<noteq> None"
        by (auto simp: positioned_def record_of_def record_at_def)
      then have "k = ?key a" unfolding node_of_key_Some [OF db_invD(2) [OF inv]] by simp
      then show "k \<in> ?key ` dom (position_of db)" using a(2) by blast
    qed
  qed
  moreover have "node_inv (db_root db) [] (qbounds db)" "links (nodes_of db) [] (db_root db)"
    using db_invD(4) [OF inv] by (simp_all add: index_inv_def)
  then have "finite (keys (db_root db))" using nslots_card by blast
  ultimately show "finite (positioned (record_of exps db))" "card (keys (db_root db)) = card (positioned (record_of exps db))"
    unfolding dom by (simp_all add: card_image)
qed

lemma few_each_bucket: "node_inv n p r \<Longrightarrow> nslots n < 64 \<Longrightarrow> each_bucket (\<lambda>_ _ m. m < 64) n p r"
proof (induction n arbitrary: p r)
  case (Quad_Node sub_slots nodes)
  have "each_bucket (\<lambda>_ _ m. m < 64) (nodes t) (p @ [t]) (get_qrects_from_qbounds r ! t)" if t: "t < 4" for t
  proof -
    have "node_inv (nodes t) (p @ [t]) (get_qrects_from_qbounds r ! t)" using Quad_Node.prems(1) t by simp
    moreover have "nslots (nodes t) < 64" using child_le [OF Quad_Node.prems(1) t] Quad_Node.prems(2) by simp
    ultimately show ?thesis by (intro Quad_Node.IH) simp_all
  qed
  then show ?case by simp
qed simp

lemma few_positions_small:
  assumes "db_inv exps db" "few_positions (record_of exps db)"
  shows "small_buckets db" "movable db key"
proof -
  have "node_inv (db_root db) [] (qbounds db)" "links (nodes_of db) [] (db_root db)"
    using db_invD(4) [OF assms(1)] by (simp_all add: index_inv_def)
  then have "nslots (db_root db) < 64"
    using nslots_card [of "db_root db"] card_positioned(2) [OF assms(1)] assms(2) by (simp add: few_positions_def)
  then show s: "small_buckets db"
    using few_each_bucket \<open>node_inv (db_root db) [] (qbounds db)\<close> unfolding small_buckets_def by blast
  show "movable db key" using small_bucketsD [OF s] by (simp add: movable_def split: option.split)
qed

section \<open>An operation on one layer\<close>

lemma records_of_published [simp]: "records_of (ctx\<lparr>published := ps\<rparr>) = records_of ctx"
  by (simp add: fun_eq_iff records_of_def)

lemma on_layer_law:
  assumes inv: "ctx_inv ctx" and l: "slab_contents (layers_slab ctx) a = Some l"
    and f: "f (expirables_slab ctx) (layer_db l) = Some (ret, exps, db)" "db_inv exps db"
      "exps_change (expirables_slab ctx) exps (set (expirables (layer_db l))) (set (expirables db))"
  shows "\<exists>ctx'. on_layer f a ctx = Some (ret, ctx') \<and> ctx_inv ctx' \<and> expirables_slab ctx' = exps \<and>
    layers ctx' = (layers ctx)(layer_name l \<mapsto> db) \<and> records_of ctx' = (records_of ctx)(layer_name l \<mapsto> record_of exps db) \<and>
    now ctx' = now ctx \<and> published ctx' = published ctx"
proof -
  obtain sl where u: "write_entry a (layer_db_update (\<lambda>_. db)) (layers_slab ctx) = Some sl"
    "ctx_inv (ctx\<lparr>layers_slab := sl, expirables_slab := exps\<rparr>)"
    "layers (ctx\<lparr>layers_slab := sl, expirables_slab := exps\<rparr>) = (layers ctx)(layer_name l \<mapsto> db)"
    "\<forall>b m. b \<noteq> a \<longrightarrow> slab_contents (layers_slab ctx) b = Some m \<longrightarrow>
       expires_of exps (layer_db m) = expires_of (expirables_slab ctx) (layer_db m)"
    using update_layer_law [OF inv l f(2,3)] by blast
  define ctx' where "ctx' = ctx\<lparr>layers_slab := sl, expirables_slab := exps\<rparr>"
  have sel: "expirables_slab ctx' = exps" "now ctx' = now ctx" "published ctx' = published ctx" by (simp_all add: ctx'_def)
  have lay: "layers ctx' = (layers ctx)(layer_name l \<mapsto> db)" using u(3) by (simp add: ctx'_def)
  have "records_of ctx' n = ((records_of ctx)(layer_name l \<mapsto> record_of exps db)) n" for n
  proof (cases "n = layer_name l")
    case True
    then show ?thesis by (simp add: records_of_def lay sel(1))
  next
    case False
    have "record_of exps d = record_of (expirables_slab ctx) d" if d: "layers ctx n = Some d" for d
    proof -
      obtain b m where b: "slab_contents (layers_slab ctx) b = Some m" "layer_name m = n" "layer_db m = d"
        using d unfolding layers_Some [OF inv] by blast
      then have "b \<noteq> a" using False l by auto
      then have "expires_of exps d = expires_of (expirables_slab ctx) d" using u(4) b(1,3) by blast
      then have "record_at exps d = record_at (expirables_slab ctx) d" by (simp add: fun_eq_iff record_at_def)
      then show ?thesis by (intro ext) (simp only: record_of_def)
    qed
    then show ?thesis using False by (cases "layers ctx n") (simp_all add: records_of_def lay sel(1))
  qed
  then have "records_of ctx' = (records_of ctx)(layer_name l \<mapsto> record_of exps db)" by blast
  moreover have "on_layer f a ctx = Some (ret, ctx')" using l f(1) u(1) by (simp add: on_layer_def ctx'_def)
  ultimately show ?thesis using u(2) lay sel unfolding ctx'_def [symmetric] by (intro exI [of _ ctx']) simp
qed

text \<open>What a client is sent, when the operation succeeds.\<close>

definition done_calls :: "string \<Rightarrow> yajl_gen" where
  "done_calls d = [gen_str ''status'', gen_str d]"

definition answered :: "memory \<Rightarrow> op_type \<Rightarrow> bare_op \<Rightarrow> yajl_gen \<Rightarrow> int \<Rightarrow> http_context \<Rightarrow> http_context \<Rightarrow> bool" where
  "answered mem ty op calls status ctx ctx' =
     ((status, published ctx') = reply_op (reply_mem mem) ty op calls (published ctx))"

lemma record_op_law:
  assumes inv: "ctx_inv ctx" and db: "layers ctx name = Some db"
    and f: "f (expirables_slab ctx) db = Some (ret, exps, db')" "db_inv exps db'"
      "exps_change (expirables_slab ctx) exps (set (expirables db)) (set (expirables db'))"
  shows "\<exists>status ctx'. handle_record_op mem cfg name f ty op d ctx = Some (status, ctx') \<and> ctx_inv ctx' \<and>
    layers ctx' = (layers ctx)(name \<mapsto> db') \<and> expirables_slab ctx' = exps \<and>
    records_of ctx' = (records_of ctx)(name \<mapsto> record_of exps db') \<and> now ctx' = now ctx \<and>
    (if ret = 0 then answered mem ty op (done_calls d) status ctx ctx' else status = ret \<and> published ctx' = published ctx)"
proof -
  obtain a l where g: "get_pan_db_by_layer_name mem cfg name False ctx = Some (0, Some a, ctx)"
    "slab_contents (layers_slab ctx) a = Some l" "layer_name l = name" "layer_db l = db"
    using get_pan_db_law [OF inv db] by blast
  obtain ctx2 where o: "on_layer f a ctx = Some (ret, ctx2)" "ctx_inv ctx2" "expirables_slab ctx2 = exps"
    "layers ctx2 = (layers ctx)(name \<mapsto> db')" "records_of ctx2 = (records_of ctx)(name \<mapsto> record_of exps db')"
    "now ctx2 = now ctx" "published ctx2 = published ctx"
    using on_layer_law [OF inv g(2), where f = f and ret = ret and exps = exps and db = db', unfolded g(3,4), OF f] by blast
  show ?thesis
  proof (cases "ret = 0")
    case False
    then have "handle_record_op mem cfg name f ty op d ctx = Some (ret, ctx2)" using g(1) o(1) by (simp add: handle_record_op_def)
    then show ?thesis using False o(2-7) by (intro exI [of _ ret] exI [of _ ctx2]) simp
  next
    case True
    obtain status ps where r: "reply_op (reply_mem mem) ty op (done_calls d) (published ctx) = (status, ps)" by fastforce
    have "handle_record_op mem cfg name f ty op d ctx = Some (status, ctx2\<lparr>published := ps\<rparr>)"
      using True g(1) o(1,7) r by (simp add: handle_record_op_def send_reply_def done_calls_def)
    then show ?thesis using True o(2-7) r
      by (intro exI [of _ status] exI [of _ "ctx2\<lparr>published := ps\<rparr>"]) (simp add: answered_def)
  qed
qed

lemma record_op_no_layer:
  assumes "ctx_inv ctx" "layers ctx name = None"
  shows "handle_record_op mem cfg name f ty op d ctx = Some (HTTP_NOTFOUND, ctx)"
  using get_pan_db_none(1) [OF assms] by (simp add: handle_record_op_def)

lemma records_of_None: "records_of ctx name = None \<longleftrightarrow> layers ctx name = None"
  by (simp add: records_of_def)

text \<open>What a PUT does to the records of a database that has the layer.\<close>

definition put_effect ::
  "records_put_op \<Rightarrow> pan_db \<Rightarrow> http_context \<Rightarrow> http_context \<Rightarrow> bool" where
  "put_effect op db ctx ctx' =
     (\<exists>es r. lists_entries (put_special_properties op) es \<and>
        records_of ctx' = (records_of ctx)(put_layer_name op \<mapsto> (record_of (expirables_slab ctx) db)(put_key op \<mapsto> r)) \<and>
        same_place r (put_spec op (qbounds db) es (old_record (record_of (expirables_slab ctx) db (put_key op)))) \<and>
        (put_room op db \<longrightarrow>
           r = put_spec op (qbounds db) es (old_record (record_of (expirables_slab ctx) db (put_key op)))))"

lemma put_law:
  assumes inv: "ctx_inv ctx" and mem: "good_memory mem" and op: "put_op_ok op" and db: "layers ctx (put_layer_name op) = Some db"
    and small: "movable db (put_key op)"
  shows "\<exists>status ctx'. handle_op_records_put mem cfg op ctx = Some (status, ctx') \<and> ctx_inv ctx' \<and> now ctx' = now ctx \<and>
    answered mem OP_TYPE_RECORDS_PUT (put_bare op) (done_calls ''stored'') status ctx ctx' \<and> put_effect op db ctx ctx' \<and>
    (\<exists>db'. layers ctx' = (layers ctx)(put_layer_name op \<mapsto> db') \<and> same_db db db' \<and> (buckets_bounded db \<longrightarrow> buckets_bounded db'))"
proof -
  have d: "db_inv (expirables_slab ctx) db"
    using db ctx_invD(4) [OF inv] unfolding layers_Some [OF inv] by blast
  obtain exps' db' es r where p: "put_record mem op (expirables_slab ctx) db = Some (0, exps', db')" "db_inv exps' db'"
    "exps_change (expirables_slab ctx) exps' (set (expirables db)) (set (expirables db'))"
    "lists_entries (put_special_properties op) es"
    "record_of exps' db' = (record_of (expirables_slab ctx) db)(put_key op \<mapsto> r)"
    "same_place r (put_spec op (qbounds db) es (old_record (record_of (expirables_slab ctx) db (put_key op))))"
    "put_room op db \<longrightarrow> r = put_spec op (qbounds db) es (old_record (record_of (expirables_slab ctx) db (put_key op)))" "same_db db db'"
    "buckets_bounded db \<longrightarrow> buckets_bounded db'"
    using put_record_law [OF d small op mem] by blast
  obtain status ctx' where o: "handle_record_op mem cfg (put_layer_name op) (put_record mem op) OP_TYPE_RECORDS_PUT
      (put_bare op) ''stored'' ctx = Some (status, ctx')" "ctx_inv ctx'" "layers ctx' = (layers ctx)(put_layer_name op \<mapsto> db')"
    "records_of ctx' = (records_of ctx)(put_layer_name op \<mapsto> record_of exps' db')" "now ctx' = now ctx"
    "answered mem OP_TYPE_RECORDS_PUT (put_bare op) (done_calls ''stored'') status ctx ctx'"
    using record_op_law [where f = "put_record mem op" and mem = mem and cfg = cfg and ty = OP_TYPE_RECORDS_PUT and d = "''stored''"
      and op = "put_bare op", OF inv db p(1-3)] by auto
  have "put_effect op db ctx ctx'"
    using o(4) p(4-7) unfolding put_effect_def by (intro exI [of _ es] exI [of _ r]) simp
  moreover have "\<exists>db'. layers ctx' = (layers ctx)(put_layer_name op \<mapsto> db') \<and> same_db db db' \<and>
    (buckets_bounded db \<longrightarrow> buckets_bounded db')" using o(3) p(8,9) by blast
  ultimately show ?thesis using o unfolding handle_op_records_put_def by blast
qed

lemma delete_law:
  assumes inv: "ctx_inv ctx" and mem: "good_memory mem" and db: "layers ctx (delete_layer_name op) = Some db"
    and small: "movable db (delete_key op)"
  shows "\<exists>status ctx'. handle_op_records_delete mem cfg op ctx = Some (status, ctx') \<and> ctx_inv ctx' \<and> now ctx' = now ctx \<and>
    (if record_of (expirables_slab ctx) db (delete_key op) = None then status = HTTP_NOTFOUND \<and> published ctx' = published ctx
     else answered mem OP_TYPE_RECORDS_DELETE (delete_bare op) (done_calls ''deleted'') status ctx ctx') \<and>
    records_of ctx' = (records_of ctx)(delete_layer_name op \<mapsto> (record_of (expirables_slab ctx) db)(delete_key op := None)) \<and>
    (\<exists>db'. layers ctx' = (layers ctx)(delete_layer_name op \<mapsto> db') \<and> same_db db db' \<and> (buckets_bounded db \<longrightarrow> buckets_bounded db'))"
proof -
  have d: "db_inv (expirables_slab ctx) db"
    using db ctx_invD(4) [OF inv] unfolding layers_Some [OF inv] by blast
  let ?ret = "if record_of (expirables_slab ctx) db (delete_key op) = None then HTTP_NOTFOUND else 0"
  obtain exps' db' where p: "delete_record mem (delete_key op) (expirables_slab ctx) db = Some (?ret, exps', db')" "db_inv exps' db'"
    "exps_change (expirables_slab ctx) exps' (set (expirables db)) (set (expirables db'))"
    "record_of exps' db' = (record_of (expirables_slab ctx) db)(delete_key op := None)" "same_db db db'"
    "buckets_bounded db \<longrightarrow> buckets_bounded db'"
    using delete_record_law [OF d small mem] by blast
  obtain status ctx' where o: "handle_record_op mem cfg (delete_layer_name op) (delete_record mem (delete_key op)) OP_TYPE_RECORDS_DELETE
      (delete_bare op) ''deleted'' ctx = Some (status, ctx')" "ctx_inv ctx'" "layers ctx' = (layers ctx)(delete_layer_name op \<mapsto> db')"
    "records_of ctx' = (records_of ctx)(delete_layer_name op \<mapsto> record_of exps' db')" "now ctx' = now ctx"
    "if ?ret = 0 then answered mem OP_TYPE_RECORDS_DELETE (delete_bare op) (done_calls ''deleted'') status ctx ctx'
     else status = ?ret \<and> published ctx' = published ctx"
    using record_op_law [where f = "delete_record mem (delete_key op)" and mem = mem and cfg = cfg and ty = OP_TYPE_RECORDS_DELETE
      and d = "''deleted''" and op = "delete_bare op", OF inv db p(1-3)] by blast
  have "if record_of (expirables_slab ctx) db (delete_key op) = None then status = HTTP_NOTFOUND \<and> published ctx' = published ctx
     else answered mem OP_TYPE_RECORDS_DELETE (delete_bare op) (done_calls ''deleted'') status ctx ctx'"
    using o(6) by (auto simp: HTTP_NOTFOUND_def split: if_splits)
  moreover have "\<exists>db'. layers ctx' = (layers ctx)(delete_layer_name op \<mapsto> db') \<and> same_db db db' \<and>
    (buckets_bounded db \<longrightarrow> buckets_bounded db')" using o(3) p(5,6) by blast
  ultimately show ?thesis using o(1,2,4,5) p(4) unfolding handle_op_records_delete_def by auto
qed

section \<open>Properties\<close>

text \<open>
  C9: a PUT on an existing layer always succeeds: it creates or updates the record of this key and touches no other record
  and no other layer. The position becomes the one of the request if there is one inside the
  bounds of the layer and is kept otherwise, the expiration becomes that of the request or
  is removed, the special properties are applied in order and the other properties overwrite the old ones, unless the map of
  the properties would exceed 65535 bytes. Then the client is told that it was stored. On a
  layer that does not exist nothing changes and 404 is answered. This holds when the record is new, has no position yet, or its position is in
  a bucket with fewer than 64 slots (movable): beyond that the slab of the bucket may lose slots. A bucket only gets that full in a cell that
  is too small to be split, or more than 14 levels deep (buckets_stay_bounded).
\<close>

theorem records_put_stores:
  assumes "ctx_inv ctx" "good_memory mem" "put_op_ok op"
    and "\<forall>db. layers ctx (put_layer_name op) = Some db \<longrightarrow> movable db (put_key op)"
  shows "\<exists>status ctx'. handle_op_records_put mem cfg op ctx = Some (status, ctx') \<and> ctx_inv ctx' \<and>
    (case layers ctx (put_layer_name op) of
       None \<Rightarrow> status = HTTP_NOTFOUND \<and> ctx' = ctx
     | Some db \<Rightarrow> put_effect op db ctx ctx' \<and>
         answered mem OP_TYPE_RECORDS_PUT (put_bare op) (done_calls ''stored'') status ctx ctx')"
proof (cases "layers ctx (put_layer_name op)")
  case None
  then show ?thesis using record_op_no_layer [OF assms(1) None] assms(1) by (simp add: handle_op_records_put_def)
next
  case (Some db)
  then have "movable db (put_key op)" using assms(4) by blast
  from put_law [OF assms(1-3) Some this, of cfg] show ?thesis unfolding Some option.case by blast
qed

text \<open>
  C12: a DELETE removes the record of this key, with its position, properties and expiration, and nothing else, and the client
  is told so; a key without a record or a layer that does not exist is answered with 404 and no record changes. This holds when the
  record has no position or its bucket has fewer than 64 slots (movable), as for C9.
\<close>

theorem records_delete_removes:
  assumes "ctx_inv ctx" "good_memory mem"
    and "\<forall>db. layers ctx (delete_layer_name op) = Some db \<longrightarrow> movable db (delete_key op)"
  shows "\<exists>status ctx'. handle_op_records_delete mem cfg op ctx = Some (status, ctx') \<and> ctx_inv ctx' \<and>
    (case records_of ctx (delete_layer_name op) of
       None \<Rightarrow> status = HTTP_NOTFOUND \<and> ctx' = ctx
     | Some m \<Rightarrow>
         records_of ctx' = (records_of ctx)(delete_layer_name op \<mapsto> m(delete_key op := None)) \<and>
         (if m (delete_key op) = None then status = HTTP_NOTFOUND
          else answered mem OP_TYPE_RECORDS_DELETE (delete_bare op) (done_calls ''deleted'') status ctx ctx'))"
proof (cases "layers ctx (delete_layer_name op)")
  case None
  then show ?thesis using record_op_no_layer [OF assms(1) None] assms(1) by (simp add: handle_op_records_delete_def records_of_def)
next
  case (Some db)
  then have m: "records_of ctx (delete_layer_name op) = Some (record_of (expirables_slab ctx) db)" by (simp add: records_of_def)
  have small: "movable db (delete_key op)" using assms(3) Some by blast
  from delete_law [OF assms(1,2) Some small, of cfg] obtain status ctx' where
    o: "handle_op_records_delete mem cfg op ctx = Some (status, ctx')" "ctx_inv ctx'"
    "if record_of (expirables_slab ctx) db (delete_key op) = None then status = HTTP_NOTFOUND \<and> published ctx' = published ctx
     else answered mem OP_TYPE_RECORDS_DELETE (delete_bare op) (done_calls ''deleted'') status ctx ctx'"
    "records_of ctx' = (records_of ctx)(delete_layer_name op \<mapsto> (record_of (expirables_slab ctx) db)(delete_key op := None))" by blast
  then show ?thesis unfolding m option.case by (intro exI [of _ status] exI [of _ ctx']) (simp split: if_splits)
qed

section \<open>Witnesses\<close>

lemma free_node_reaches: "h (a + k) = None \<Longrightarrow> \<exists>c. free_node_from a h = Some c \<and> h c = None"
proof (induction k arbitrary: a)
  case (Suc k)
  then show ?case
    using Suc.IH [of "a + 1"] by (subst free_node_from.simps) auto
qed (auto simp: free_node_from.simps)

lemma good_free_node: "good_node_mem (free_node_from 0)"
  unfolding good_node_mem_def
proof (intro allI impI)
  fix h :: node_heap assume "finite (dom h)"
  then obtain c where "c \<notin> dom h" using ex_new_if_finite [OF infinite_UNIV_nat] by blast
  then have "h (0 + c) = None" by (simp add: domIff)
  then show "\<exists>a. free_node_from 0 h = Some a \<and> h a = None" by (rule free_node_reaches)
qed

lemma sample_memory: "good_memory sample_mem"
  using sample_mem_good good_free_node by (simp add: good_memory_def sample_mem_def)

text \<open>A layer, and a record stored in it, with a position, the special property of the theory Record_Properties and an expiration.\<close>

definition sample_layer :: bytes where
  "sample_layer = bytes_of ''restaurants''"

definition sample_put :: records_put_op where
  "sample_put =
     \<lparr>put_bare = sample_op, put_layer_name = sample_layer, put_key = sample_key, put_position = position sample_slot,
      put_properties_map = None, put_special_properties = Some sample_special, put_position_set = True, put_expires_at = 1\<rparr>"

lemma sample_put_ok: "put_op_ok sample_put"
  using sample_special_ok(1) by (simp add: put_op_ok_def sample_put_def names_ok_def)

lemma no_records: "init_pan_db cfg True = Some db \<Longrightarrow> record_of exps db = Map.empty"
  by (auto simp: fun_eq_iff init_pan_db_def new_quad_node_def record_of_def node_of_key_def init_key_store_def)

lemma register_keeps:
  "register_new_layer mem cfg name ctx = Some (r, ctx') \<Longrightarrow> now ctx' = now ctx \<and> published ctx' = published ctx"
  by (auto simp: register_new_layer_def split: if_splits bind_splits option.splits)

lemma sample_context:
  obtains a ctx where "register_new_layer sample_mem sample_cfg sample_layer (init_context t) = Some (Some a, ctx)" "ctx_inv ctx"
    "records_of ctx = [sample_layer \<mapsto> Map.empty]" "now ctx = t"
proof -
  have n: "layers (init_context t) sample_layer = None" "sample_layer \<noteq> []"
    by (simp_all add: init_context_inv sample_layer_def bytes_of_def)
  obtain a ctx db where r: "register_new_layer sample_mem sample_cfg sample_layer (init_context t) = Some (Some a, ctx)"
    "init_pan_db sample_cfg True = Some db" "ctx_inv ctx" "layers ctx = (layers (init_context t))(sample_layer \<mapsto> db)"
    using register_new_layer_law [OF init_context_inv(1) n sample_mem_good(1-3), of sample_cfg] by blast
  have "records_of ctx = [sample_layer \<mapsto> Map.empty]"
    by (auto simp: fun_eq_iff records_of_def r(4) init_context_inv no_records [OF r(2)])
  moreover have "now ctx = t" using register_keeps [OF r(1)] by (simp add: init_context_def)
  ultimately show thesis using that r(1,3) by blast
qed

lemma no_few: "few_positions Map.empty"
  by (simp add: few_positions_def positioned_def)

text \<open>With few positions in a layer no bucket is full.\<close>

lemma few_movable:
  assumes "ctx_inv ctx" "\<forall>m. records_of ctx n = Some m \<longrightarrow> few_positions m"
  shows "\<forall>db. layers ctx n = Some db \<longrightarrow> movable db key"
proof (intro allI impI)
  fix db assume l: "layers ctx n = Some db"
  then have "few_positions (record_of (expirables_slab ctx) db)" using assms(2) by (simp add: records_of_def)
  moreover have "db_inv (expirables_slab ctx) db" using l ctx_invD(4) [OF assms(1)] unfolding layers_Some [OF assms(1)] by blast
  ultimately show "movable db key" by (intro few_positions_small(2))
qed

lemma sample_few: "ctx_inv ctx \<Longrightarrow> records_of ctx = [sample_layer \<mapsto> Map.empty] \<Longrightarrow> \<forall>db. layers ctx n = Some db \<longrightarrow> movable db key"
  by (rule few_movable) (use no_few in auto)

lemma sample_stored:
  obtains a ctx status ctx' es r where
    "register_new_layer sample_mem sample_cfg sample_layer (init_context t) = Some (Some a, ctx)" "ctx_inv ctx" "now ctx = t"
    "records_of ctx = [sample_layer \<mapsto> Map.empty]"
    "handle_op_records_put sample_mem sample_cfg sample_put ctx = Some (status, ctx')" "ctx_inv ctx'" "now ctx' = t"
    "records_of ctx' = [sample_layer \<mapsto> [sample_key \<mapsto> r]]" "rec_expires r = Some 1"
proof -
  obtain a ctx where c: "register_new_layer sample_mem sample_cfg sample_layer (init_context t) = Some (Some a, ctx)" "ctx_inv ctx"
    "records_of ctx = [sample_layer \<mapsto> Map.empty]" "now ctx = t" by (rule sample_context)
  obtain db where db: "layers ctx sample_layer = Some db" "record_of (expirables_slab ctx) db = Map.empty"
    using fun_cong [OF c(3), of sample_layer] by (auto simp: records_of_def)
  have l: "layers ctx (put_layer_name sample_put) = Some db" using db(1) by (simp add: sample_put_def)
  have small: "movable db (put_key sample_put)" using sample_few [OF c(2,3)] db(1) by blast
  from put_law [OF c(2) sample_memory sample_put_ok l small, of sample_cfg] obtain status ctx' where
    p: "handle_op_records_put sample_mem sample_cfg sample_put ctx = Some (status, ctx')" "ctx_inv ctx'" "now ctx' = now ctx"
      "put_effect sample_put db ctx ctx'" by blast
  from p(4) obtain es r where e: "records_of ctx' = (records_of ctx)(sample_layer \<mapsto> [sample_key \<mapsto> r])"
    "same_place r (put_spec sample_put (qbounds db) es (old_record None))"
    unfolding put_effect_def db(2) by (auto simp: sample_put_def)
  have "rec_expires r = Some 1" using e(2) by (simp add: same_place_def put_spec_def sample_put_def)
  moreover have "records_of ctx' = [sample_layer \<mapsto> [sample_key \<mapsto> r]]" using e(1) c(3) by simp
  ultimately show thesis using that c p(1-3) by simp
qed

theorem records_put_stores_witness:
  "\<exists>a ctx status ctx'. register_new_layer sample_mem sample_cfg sample_layer (init_context 0) = Some (Some a, ctx) \<and>
     handle_op_records_put sample_mem sample_cfg sample_put ctx = Some (status, ctx') \<and>
     (\<exists>m. records_of ctx' sample_layer = Some m \<and> m sample_key \<noteq> None)"
proof -
  obtain a ctx where c: "register_new_layer sample_mem sample_cfg sample_layer (init_context 0) = Some (Some a, ctx)" "ctx_inv ctx"
    "records_of ctx = [sample_layer \<mapsto> Map.empty]" by (rule sample_context)
  obtain db where db: "layers ctx (put_layer_name sample_put) = Some db"
    using fun_cong [OF c(3), of sample_layer] by (auto simp: records_of_def sample_put_def)
  have n: "put_layer_name sample_put = sample_layer" "put_key sample_put = sample_key" by (simp_all add: sample_put_def)
  from records_put_stores [OF c(2) sample_memory sample_put_ok sample_few [OF c(2,3)], of sample_cfg] obtain status ctx' where
    p: "handle_op_records_put sample_mem sample_cfg sample_put ctx = Some (status, ctx')" "put_effect sample_put db ctx ctx'"
    unfolding db option.case by blast
  from p(2) have "\<exists>m. records_of ctx' sample_layer = Some m \<and> m sample_key \<noteq> None"
    unfolding put_effect_def n by auto
  then show ?thesis using c(1) p(1) by blast
qed

definition sample_delete :: records_delete_op where
  "sample_delete = \<lparr>delete_bare = sample_op, delete_layer_name = sample_layer, delete_key = sample_key\<rparr>"

lemma one_few: "few_positions [k \<mapsto> r]"
proof -
  have "positioned [k \<mapsto> r] \<subseteq> {k}" by (auto simp: positioned_def split: if_splits)
  from card_mono [OF _ this] show ?thesis by (simp add: few_positions_def)
qed

theorem records_delete_removes_witness:
  "\<exists>ctx status ctx'. handle_op_records_delete sample_mem sample_cfg sample_delete ctx = Some (status, ctx') \<and>
     (\<exists>m. records_of ctx sample_layer = Some m \<and> m sample_key \<noteq> None) \<and> records_of ctx' sample_layer = Some Map.empty"
proof -
  obtain ctx r where c: "ctx_inv ctx" "records_of ctx = [sample_layer \<mapsto> [sample_key \<mapsto> r]]"
    using sample_stored [of 0] by metis
  have n: "delete_layer_name sample_delete = sample_layer" "delete_key sample_delete = sample_key" by (simp_all add: sample_delete_def)
  have m: "records_of ctx sample_layer = Some [sample_key \<mapsto> r]" using c(2) by simp
  have "\<forall>db. layers ctx (delete_layer_name sample_delete) = Some db \<longrightarrow> movable db (delete_key sample_delete)"
    by (rule few_movable [OF c(1)]) (use one_few m in \<open>simp add: n\<close>)
  from records_delete_removes [OF c(1) sample_memory this, of sample_cfg] obtain status ctx' where
    d: "handle_op_records_delete sample_mem sample_cfg sample_delete ctx = Some (status, ctx')"
      "records_of ctx' = (records_of ctx)(sample_layer \<mapsto> [sample_key \<mapsto> r](sample_key := None))"
    unfolding n m option.case by blast
  then show ?thesis using m by (intro exI [of _ ctx] exI [of _ status] exI [of _ ctx']) simp
qed

text \<open>The record expires at second 1; at second 100 it is purged.\<close>

theorem purge_removes_expired_witness:
  "\<exists>ctx ctx'. (\<exists>m. records_of ctx sample_layer = Some m \<and> m sample_key \<noteq> None) \<and>
     purge_expired_keys sample_mem ctx = Some (1, ctx') \<and>
     (\<exists>m. records_of ctx' sample_layer = Some m \<and> m sample_key = None)"
proof -
  obtain ctx r where c: "ctx_inv ctx" "now ctx = 100" "records_of ctx = [sample_layer \<mapsto> [sample_key \<mapsto> r]]" "rec_expires r = Some 1"
    using sample_stored [of 100] by metis
  have small: "\<forall>name db. layers ctx name = Some db \<longrightarrow> small_buckets db"
  proof (intro allI impI)
    fix name db assume l: "layers ctx name = Some db"
    then have "records_of ctx name = Some (record_of (expirables_slab ctx) db)" by (simp add: records_of_def)
    then have "few_positions (record_of (expirables_slab ctx) db)" using c(3) one_few [of sample_key r] by (auto split: if_splits)
    moreover have "db_inv (expirables_slab ctx) db" using l ctx_invD(4) [OF c(1)] unfolding layers_Some [OF c(1)] by blast
    ultimately show "small_buckets db" by (intro few_positions_small(1))
  qed
  obtain db where l: "layers ctx sample_layer = Some db" "record_of (expirables_slab ctx) db = [sample_key \<mapsto> r]"
    using fun_cong [OF c(3), of sample_layer] by (auto simp: records_of_def)
  obtain a where a: "node_of_key (key_nodes db) sample_key = Some a" "record_at (expirables_slab ctx) db a = r"
    using fun_cong [OF l(2), of sample_key] by (auto simp: record_of_def)
  have ex: "expired (expirables_slab ctx) db (now ctx) a" using a(2) c(2,4) by (auto simp: record_at_def expired_def)
  from purge_removes_expired [OF c(1) sample_mem_good(4,2) small] obtain ret ctx' where
    p: "purge_expired_keys sample_mem ctx = Some (ret, ctx')"
      "ret = 1 \<longleftrightarrow> (\<exists>name db a. layers ctx name = Some db \<and> expired (expirables_slab ctx) db (now ctx) a)"
      "\<forall>name db. layers ctx name = Some db \<longrightarrow> (\<exists>db'. layers ctx' name = Some db' \<and>
         without {a. expired (expirables_slab ctx) db (now ctx) a} (expirables_slab ctx) db (expirables_slab ctx') db')" by blast
  have "ret = 1" using p(2) l(1) ex by blast
  obtain db' where d: "layers ctx' sample_layer = Some db'"
    "without {a. expired (expirables_slab ctx) db (now ctx) a} (expirables_slab ctx) db (expirables_slab ctx') db'"
    using p(3) l(1) by blast
  have "node_of_key (key_nodes db') sample_key = None" using d(2) a(1) ex by (simp add: without_def)
  then have "\<exists>m. records_of ctx' sample_layer = Some m \<and> m sample_key = None" using d(1) by (simp add: records_of_def record_of_def)
  moreover have "\<exists>m. records_of ctx sample_layer = Some m \<and> m sample_key \<noteq> None" using c(3) by simp
  ultimately show ?thesis using p(1) \<open>ret = 1\<close> by blast
qed

end
