(* ===== verification/Cells.thy ===== *)
theory Cells
  imports Record_Handlers
begin

text \<open>
  The cells of the index of a layer (\<open>pandb.c\<close>): the rectangle of the quad node or bucket at a path. A bucket that is neither too small to be
  split nor more than 14 levels deep has fewer than 64 slots, so a database whose other cells hold fewer than 64 records each
  has only buckets that the removal of a slot can cope with.
\<close>

section \<open>Cells\<close>

definition cell :: "rectangle2d \<Rightarrow> path \<Rightarrow> rectangle2d" where
  "cell r p = foldl (\<lambda>r t. get_qrects_from_qbounds r ! t) r p"

lemma cell_simps [simp]: "cell r [] = r" "cell r (p @ [t]) = get_qrects_from_qbounds (cell r p) ! t"
  by (simp_all add: cell_def)

text \<open>The cells whose buckets may hold 64 slots.\<close>

definition fine_cell :: "dimension \<Rightarrow> dimension \<Rightarrow> rectangle2d \<Rightarrow> path \<Rightarrow> bool" where
  "fine_cell la lo r p = (set p \<subseteq> {..<4} \<and> (14 < length p \<or> too_small la lo (cell r p)))"

definition in_cell :: "(nat \<Rightarrow> position2d option) \<Rightarrow> rectangle2d \<Rightarrow> nat set" where
  "in_cell posf r = {a. \<exists>x. posf a = Some x \<and> position_is_in_rect x r}"

lemma bucket_in_cell:
  assumes "bucket_inv p r b" "links h p (Bucket_Node b)" "finite (dom posf)"
    and posf: "\<forall>q a s k. content (Bucket_Node b) q a = Some s \<longrightarrow> slot_key_node s = Some k \<longrightarrow> posf k = Some (position s)"
  shows "busy_slots b \<le> card (in_cell posf r)"
proof -
  have "keys (Bucket_Node b) \<subseteq> in_cell posf r"
  proof
    fix k assume "k \<in> keys (Bucket_Node b)"
    then obtain q a s where s: "content (Bucket_Node b) q a = Some s" "slot_key_node s = Some k" by (rule keysE)
    then have "slab_contents (bslab b) a = Some s" by (simp split: if_splits)
    then have "position_is_in_rect (position s) r" using assms(1) unfolding bucket_inv_def by blast
    moreover have "posf k = Some (position s)" using posf s by blast
    ultimately show "k \<in> in_cell posf r" unfolding in_cell_def by blast
  qed
  moreover have "finite (in_cell posf r)" by (rule finite_subset [OF _ assms(3)]) (auto simp: in_cell_def)
  ultimately show ?thesis using bucket_card [OF assms(1,2)] card_mono by metis
qed

lemma uncrowded_buckets:
  assumes fin: "finite (dom posf)" and few: "\<forall>p. fine_cell la lo qb p \<longrightarrow> card (in_cell posf (cell qb p)) < 64"
  shows "node_inv n p (cell qb p) \<Longrightarrow> links h p n \<Longrightarrow>
    \<forall>q a s k. content n q a = Some s \<longrightarrow> slot_key_node s = Some k \<longrightarrow> posf k = Some (position s) \<Longrightarrow>
    not_overfull la lo n p (cell qb p) \<Longrightarrow> set p \<subseteq> {..<4} \<Longrightarrow> each_bucket (\<lambda>_ _ m. m < 64) n p (cell qb p)"
proof (induction n arbitrary: p)
  case (Bucket_Node b)
  show ?case
  proof (cases "fine_cell la lo qb p")
    case True
    have "bucket_inv p (cell qb p) b" using Bucket_Node.prems(1) by simp
    from bucket_in_cell [OF this Bucket_Node.prems(2) fin Bucket_Node.prems(3)] few True show ?thesis by fastforce
  next
    case False
    then show ?thesis using Bucket_Node.prems(4,5) by (auto simp: fine_cell_def BUCKET_SIZE_def)
  qed
next
  case (Quad_Node sub_slots nodes)
  have "each_bucket (\<lambda>_ _ m. m < 64) (nodes t) (p @ [t]) (cell qb (p @ [t]))" if t: "t < 4" for t
  proof (rule Quad_Node.IH)
    show "node_inv (nodes t) (p @ [t]) (cell qb (p @ [t]))" "links h (p @ [t]) (nodes t)"
      "not_overfull la lo (nodes t) (p @ [t]) (cell qb (p @ [t]))" "set (p @ [t]) \<subseteq> {..<4}"
      using Quad_Node.prems t by (simp_all add: links_Quad)
    show "\<forall>q a s k. content (nodes t) q a = Some s \<longrightarrow> slot_key_node s = Some k \<longrightarrow> posf k = Some (position s)"
    proof (intro allI impI)
      fix q a s k assume "content (nodes t) q a = Some s" "slot_key_node s = Some k"
      then have "content (Quad_Node sub_slots nodes) (t # q) a = Some s" using t by (simp add: content_Quad)
      then show "posf k = Some (position s)" using Quad_Node.prems(3) \<open>slot_key_node s = Some k\<close> by blast
    qed
  qed simp
  then show ?case by simp
qed

text \<open>The same for the records of a database.\<close>

definition placed_in :: "(bytes \<Rightarrow> stored_record option) \<Rightarrow> rectangle2d \<Rightarrow> bytes set" where
  "placed_in m r = {k. \<exists>x y. m k = Some x \<and> rec_position x = Some y \<and> position_is_in_rect y r}"

lemma card_placed_in:
  assumes inv: "db_inv exps db"
  shows "card (placed_in (record_of exps db) r) = card (in_cell (position_of db) r)"
proof -
  let ?key = "key_at (key_nodes db)"
  have at: "node_of_key (key_nodes db) (?key a) = Some a" if "a \<in> in_cell (position_of db) r" for a
    using that position_has_key [OF inv, of a] by (auto simp: in_cell_def)
  have "inj_on ?key (in_cell (position_of db) r)"
    by (rule inj_onI) (metis at option.inject)
  moreover have "placed_in (record_of exps db) r = ?key ` in_cell (position_of db) r"
  proof
    show "?key ` in_cell (position_of db) r \<subseteq> placed_in (record_of exps db) r"
      using at by (auto simp: placed_in_def record_of_def record_at_def in_cell_def)
    show "placed_in (record_of exps db) r \<subseteq> ?key ` in_cell (position_of db) r"
    proof
      fix k assume "k \<in> placed_in (record_of exps db) r"
      then obtain a x where a: "node_of_key (key_nodes db) k = Some a" "position_of db a = Some x" "position_is_in_rect x r"
        by (auto simp: placed_in_def record_of_def record_at_def)
      then have "k = ?key a" unfolding node_of_key_Some [OF db_invD(2) [OF inv]] by simp
      then show "k \<in> ?key ` in_cell (position_of db) r" using a by (auto simp: in_cell_def)
    qed
  qed
  ultimately show ?thesis by (simp add: card_image)
qed

lemma uncrowded_small:
  assumes inv: "db_inv exps db" and b: "buckets_bounded db"
    and few: "\<forall>p. fine_cell (latitude_accuracy db) (longitude_accuracy db) (qbounds db) p \<longrightarrow>
      card (placed_in (record_of exps db) (cell (qbounds db) p)) < 64"
  shows "small_buckets db" "movable db key"
proof -
  have ix: "node_inv (db_root db) [] (qbounds db)" "links (nodes_of db) [] (db_root db)"
    using db_invD(4) [OF inv] by (simp_all add: index_inv_def)
  have "dom (position_of db) \<subseteq> dom (nodes_of db)" by (auto simp: position_of_def split: bind_splits)
  moreover have "finite (dom (nodes_of db))" using db_invD(3) [OF inv] by simp
  ultimately have fin: "finite (dom (position_of db))" by (rule finite_subset)
  have at: "position_of db k = Some (position s)" if c: "content (db_root db) q a = Some s" "slot_key_node s = Some k" for q a s k
  proof -
    obtain k' kn where "slot_key_node s = Some k'" "nodes_of db k' = Some kn" "kn_slot kn = Some ([] @ q, a)"
      using ix(2) [unfolded links_def, rule_format, OF c(1)] by blast
    then show ?thesis using c by (cases a) (simp add: position_of_def)
  qed
  have "each_bucket (\<lambda>_ _ m. m < 64) (db_root db) [] (cell (qbounds db) [])"
    by (rule uncrowded_buckets [OF fin few [unfolded card_placed_in [OF inv]]]) (use ix at b in \<open>simp_all add: buckets_bounded_def\<close>)
  then show s: "small_buckets db" by (simp add: small_buckets_def)
  show "movable db key" using small_bucketsD [OF s] by (simp add: movable_def split: option.split)
qed

end
