(* ===== verification/Record_Json.thy ===== *)
theory Record_Json
  imports Record_Handlers
begin

text \<open>
  What is told of a record (\<open>utils.c\<close>: key_node_to_json and its callbacks) and the handler of GET
  requests (\<open>domain_records.c\<close>: handle_op_records_get). With links, the records that are named by
  properties whose name starts with $link: are listed too, and those they name, through a stack of key
  nodes that grows while it is walked. The theorem: the walk ends and each record that can be reached
  through links is listed once, as long as there are no more than 256 of them, from where on the code writes
  to a buffer it has reallocated.
\<close>

section \<open>The traversal stack\<close>

text \<open>
  Elements of 16 bytes, from the bottom to the top, in a buffer that has room for ts_room of them:
  INITIAL_TRAVERSAL_STACK_SIZE is 100, rounded up to a chunk of 4096 bytes. When a push needs more, the buffer is
  doubled and may move. That push_pnt_stack keeps such a list is shown in the theory Pnt_Stack.
\<close>

record traversed_key_node =
  tkn_key_node :: nat
  tkn_traversed :: bool

record traversal_stack =
  ts_elements :: "traversed_key_node list"
  ts_room :: nat

definition new_traversal_stack :: traversal_stack where
  "new_traversal_stack = \<lparr>ts_elements = [], ts_room = 256\<rparr>"

definition push_traversal :: "bool \<Rightarrow> traversed_key_node \<Rightarrow> traversal_stack \<Rightarrow> int \<times> traversal_stack" where
  "push_traversal mem x s =
     (if length (ts_elements s) < ts_room s then (0, s\<lparr>ts_elements := ts_elements s @ [x]\<rparr>)
      else if \<not> mem then (- 1, s)
      else (0, \<lparr>ts_elements = ts_elements s @ [x], ts_room = 2 * ts_room s\<rparr>))"

section \<open>Operations\<close>

definition c_str :: "bytes \<Rightarrow> bytes" where
  "c_str b = takeWhile (\<lambda>c. c \<noteq> 0) b"

definition INT_PROPERTY_LINK :: string where
  "INT_PROPERTY_LINK = ''$link:''"

text \<open>pnt_stack_foreach with traversal_stack_is_duplicate_cb, which stops at the first match.\<close>

fun traversal_stack_is_duplicate :: "pan_db \<Rightarrow> bytes \<Rightarrow> traversed_key_node list \<Rightarrow> bool option" where
  "traversal_stack_is_duplicate db linked_key [] = Some False"
| "traversal_stack_is_duplicate db linked_key (t # ts) =
     do {
       n \<leftarrow> nodes_of db (tkn_key_node t);
       (if c_str linked_key = c_str (kn_key n) then
          do { c_assert (length linked_key = length (kn_key n)); Some True }
        else traversal_stack_is_duplicate db linked_key ts)
     }"

definition is_link :: "bytes \<Rightarrow> bool" where
  "is_link key = (length key > 6 \<and> take 6 key = bytes_of INT_PROPERTY_LINK)"

text \<open>A linked key that cannot be allocated is a null pointer, which get_key_node_from_key follows.\<close>

definition records_get_properties_cb ::
  "memory \<Rightarrow> pan_db \<Rightarrow> (yajl_gen \<times> traversal_stack option) \<Rightarrow> bytes \<Rightarrow> bytes \<Rightarrow>
   (int \<times> (yajl_gen \<times> traversal_stack option)) option" where
  "records_get_properties_cb mem db c key val =
     (let gen = fst c @ [Gen_String key, Gen_String val]
      in case snd c of
           None \<Rightarrow> Some (0, (gen, None))
         | Some s \<Rightarrow>
             (if \<not> is_link key then Some (0, (gen, Some s))
              else if empty_value val then Some (0, (gen, Some s))
              else
                do {
                  c_assert (name_mem mem);
                  (status, linked_key_node, _) \<leftarrow> get_key_node_from_key None (val @ [0]) False (key_nodes db);
                  (if status < 0 then Some (- 1, (gen, Some s))
                   else
                     (case linked_key_node of
                        None \<Rightarrow> Some (0, (gen, Some s))
                      | Some a \<Rightarrow>
                          do {
                            found \<leftarrow> traversal_stack_is_duplicate db (val @ [0]) (ts_elements s);
                            (if found then Some (0, (gen, Some s))
                             else
                               (let (ret, s') = push_traversal (stack_mem mem) \<lparr>tkn_key_node = a, tkn_traversed = False\<rparr> s
                                in Some (if ret \<noteq> 0 then - 1 else 0, (gen, Some s'))))
                          }))
                }))"

definition record_type :: "bool \<Rightarrow> bool \<Rightarrow> string" where
  "record_type has_slot has_properties =
     (if has_slot then (if has_properties then ''point+hash'' else ''point'')
      else if has_properties then ''hash'' else ''void'')"

text \<open>key_node_to_json_ of the source.\<close>

definition key_node_to_json1 ::
  "memory \<Rightarrow> expirable slab \<Rightarrow> pan_db \<Rightarrow> nat \<Rightarrow> bool \<Rightarrow> yajl_gen \<Rightarrow> traversal_stack option \<Rightarrow>
   (int \<times> yajl_gen \<times> traversal_stack option) option" where
  "key_node_to_json1 mem exps db a with_properties gen s =
     do {
       n \<leftarrow> nodes_of db a;
       gen1 \<leftarrow> (case kn_slot n of
           None \<Rightarrow> Some []
         | Some (p, e) \<Rightarrow>
             do {
               slot \<leftarrow> content (db_root db) p e;
               Some [gen_str ''latitude'', Gen_Double (latitude (position slot)),
                     gen_str ''longitude'', Gen_Double (longitude (position slot))]
             });
       (let gen2 = gen @ [gen_str ''key'', Gen_String (c_str (kn_key n)), gen_str ''type'',
                          gen_str (record_type (kn_slot n \<noteq> None) (kn_properties n \<noteq> None))] @ gen1
        in if \<not> with_properties then Some (0, gen2, s)
           else
             do {
               gen3 \<leftarrow> (case kn_expirable n of
                   None \<Rightarrow> Some []
                 | Some e \<Rightarrow>
                     do {
                       x \<leftarrow> slab_contents exps e;
                       c_assert (exp_ts x \<noteq> 0);
                       Some [gen_str ''expires_at'', Gen_Integer (exp_ts x)]
                     });
               (case kn_properties n of
                  None \<Rightarrow> Some (0, gen2 @ gen3, s)
                | Some m \<Rightarrow>
                    do {
                      (gen4, s') \<leftarrow> slip_map_foreach (records_get_properties_cb mem db) (Some m)
                        (gen2 @ gen3 @ [gen_str ''properties'', Gen_Map_Open], s);
                      Some (0, gen4 @ [Gen_Map_Close], s')
                    })
             })
     }"

text \<open>
  The callback on the element at index i. The element is marked through the pointer that was
  passed in: if the buffer has been reallocated meanwhile, that is a write to freed memory, a fault.
\<close>

definition traverse_keys_nodes_foreach_cb ::
  "memory \<Rightarrow> expirable slab \<Rightarrow> pan_db \<Rightarrow> bool \<Rightarrow> nat \<Rightarrow> (yajl_gen \<times> bool) \<Rightarrow> traversal_stack \<Rightarrow>
   (int \<times> (yajl_gen \<times> bool) \<times> traversal_stack) option" where
  "traverse_keys_nodes_foreach_cb mem exps db with_properties i c s =
     (case c of (gen, found_job) \<Rightarrow>
        (let t = ts_elements s ! i
         in if tkn_traversed t then Some (0, c, s)
            else
              do {
                n \<leftarrow> nodes_of db (tkn_key_node t);
                (ret, gen1, s1) \<leftarrow> key_node_to_json1 mem exps db (tkn_key_node t) with_properties
                  (gen @ [Gen_String (butlast (kn_key n)), Gen_Map_Open]) (Some s);
                s1' \<leftarrow> s1;
                c_assert (ts_room s1' = ts_room s);
                Some (ret, (gen1 @ [Gen_Map_Close], True),
                      s1'\<lparr>ts_elements := (ts_elements s1')[i := t\<lparr>tkn_traversed := True\<rparr>]\<rparr>)
              }))"

text \<open>pnt_stack_foreach, from element i on; the stack may grow meanwhile. The loops are not known to end.\<close>

partial_function (option) traverse_from ::
  "memory \<Rightarrow> expirable slab \<Rightarrow> pan_db \<Rightarrow> bool \<Rightarrow> nat \<Rightarrow> (yajl_gen \<times> bool) \<Rightarrow> traversal_stack \<Rightarrow>
   ((yajl_gen \<times> bool) \<times> traversal_stack) option" where
  "traverse_from mem exps db with_properties i c s =
     (if i < length (ts_elements s) then
        do {
          (ret, c', s') \<leftarrow> traverse_keys_nodes_foreach_cb mem exps db with_properties i c s;
          (if ret \<noteq> 0 then Some (c', s') else traverse_from mem exps db with_properties (i + 1) c' s')
        }
      else Some (c, s))"

partial_function (option) traverse_loop ::
  "memory \<Rightarrow> expirable slab \<Rightarrow> pan_db \<Rightarrow> bool \<Rightarrow> yajl_gen \<Rightarrow> traversal_stack \<Rightarrow> yajl_gen option" where
  "traverse_loop mem exps db with_properties gen s =
     do {
       ((gen', found_job), s') \<leftarrow> traverse_from mem exps db with_properties 0 (gen, False) s;
       (if found_job then traverse_loop mem exps db with_properties gen' s' else Some gen')
     }"

definition key_node_to_json ::
  "memory \<Rightarrow> expirable slab \<Rightarrow> pan_db \<Rightarrow> nat \<Rightarrow> bool \<Rightarrow> bool \<Rightarrow> yajl_gen \<Rightarrow> (int \<times> yajl_gen) option" where
  "key_node_to_json mem exps db a with_properties with_links gen =
     (if \<not> with_links then
        do { (ret, gen', _) \<leftarrow> key_node_to_json1 mem exps db a with_properties gen None; Some (ret, gen') }
      else if \<not> stack_mem mem then Some (- 1, gen)
      else
        (case push_traversal (stack_mem mem) \<lparr>tkn_key_node = a, tkn_traversed = True\<rparr> new_traversal_stack of (ret, s) \<Rightarrow>
           if ret \<noteq> 0 then Some (- 1, gen)
           else
             do {
               (ret1, gen1, s1) \<leftarrow> key_node_to_json1 mem exps db a with_properties gen (Some s);
               (if ret1 \<noteq> 0 then Some (- 1, gen1)
                else
                  do {
                    s1' \<leftarrow> s1;
                    gen2 \<leftarrow> traverse_loop mem exps db with_properties (gen1 @ [gen_str ''$links'', Gen_Map_Open]) s1';
                    Some (0, gen2 @ [Gen_Map_Close])
                  })
             }))"

record records_get_op =
  get_bare :: bare_op
  get_layer_name :: bytes
  get_key :: bytes
  get_with_links :: bool

text \<open>The result of key_node_to_json is not looked at; the layer and the record are not changed.\<close>

definition handle_op_records_get ::
  "memory \<Rightarrow> db_defaults \<Rightarrow> records_get_op \<Rightarrow> http_context \<Rightarrow> (int \<times> http_context) option" where
  "handle_op_records_get mem cfg op ctx =
     do {
       (status, pdb, ctx1) \<leftarrow> get_pan_db_by_layer_name mem cfg (get_layer_name op) False ctx;
       (if status < 0 then Some (HTTP_NOTFOUND, ctx1)
        else
          do {
            l \<leftarrow> pdb;
            layer \<leftarrow> slab_contents (layers_slab ctx1) l;
            (status', key_node, _) \<leftarrow> get_key_node_from_key None (get_key op) False (key_nodes (layer_db layer));
            (case key_node of
               None \<Rightarrow> do { c_assert (status' \<le> 0); Some (HTTP_NOTFOUND, ctx1) }
             | Some a \<Rightarrow>
                 do {
                   c_assert (status' > 0);
                   (if fake_req (get_bare op) then Some (0, ctx1)
                    else if \<not> reply_mem mem then Some (HTTP_SERVUNAVAIL, ctx1)
                    else
                      do {
                        (_, calls) \<leftarrow>
                          key_node_to_json mem (expirables_slab ctx1) (layer_db layer) a True (get_with_links op) [];
                        Some (send_reply mem OP_TYPE_RECORDS_GET (get_bare op) calls ctx1)
                      })
                 })
          })
     }"

section \<open>What is told of a record\<close>

definition entries_of_map :: "slip_map option \<Rightarrow> (bytes \<times> bytes) list" where
  "entries_of_map mo = (case map_entries mo of None \<Rightarrow> [] | Some es \<Rightarrow> es)"

definition entry_calls :: "(bytes \<times> bytes) list \<Rightarrow> yajl_gen" where
  "entry_calls es = concat (map (\<lambda>(k, v). [Gen_String k, Gen_String v]) es)"

text \<open>The document of a record with this key, from its abstract form; es lists its properties.\<close>

definition record_calls :: "bytes \<Rightarrow> stored_record \<Rightarrow> (bytes \<times> bytes) list \<Rightarrow> bool \<Rightarrow> yajl_gen" where
  "record_calls key r es with_properties =
     [gen_str ''key'', Gen_String key, gen_str ''type'',
      gen_str (record_type (rec_position r \<noteq> None) (rec_properties r \<noteq> None))] @
     (case rec_position r of
        None \<Rightarrow> []
      | Some p \<Rightarrow> [gen_str ''latitude'', Gen_Double (latitude p), gen_str ''longitude'', Gen_Double (longitude p)]) @
     (if with_properties
      then (case rec_expires r of None \<Rightarrow> [] | Some t \<Rightarrow> [gen_str ''expires_at'', Gen_Integer t]) @
           (if rec_properties r = None then [] else [gen_str ''properties'', Gen_Map_Open] @ entry_calls es @ [Gen_Map_Close])
      else [])"

definition c_key :: "bytes \<Rightarrow> bool" where
  "c_key k = (\<exists>c. k = c @ [0] \<and> 0 \<notin> set c)"

text \<open>All keys are C strings and no expiration is 0, as the handlers keep it.\<close>

definition plain_db :: "expirable slab \<Rightarrow> pan_db \<Rightarrow> bool" where
  "plain_db exps db =
     (db_inv exps db \<and> (\<forall>k. node_of_key (key_nodes db) k \<noteq> None \<longrightarrow> c_key k) \<and> (\<forall>a. expires_of exps db a \<noteq> Some 0))"

definition node_calls :: "expirable slab \<Rightarrow> pan_db \<Rightarrow> bool \<Rightarrow> nat \<Rightarrow> yajl_gen" where
  "node_calls exps db with_properties a =
     record_calls (butlast (key_at (key_nodes db) a)) (record_at exps db a) (entries_of_map (properties_of db a)) with_properties"

text \<open>The record that a property links to, and the records that a record links to.\<close>

definition linked :: "pan_db \<Rightarrow> bytes \<times> bytes \<Rightarrow> nat option" where
  "linked db e = (if is_link (fst e) \<and> \<not> empty_value (snd e) then node_of_key (key_nodes db) (snd e @ [0]) else None)"

definition links_of :: "pan_db \<Rightarrow> bool \<Rightarrow> nat \<Rightarrow> nat set" where
  "links_of db with_properties a =
     (if with_properties then {b. \<exists>e \<in> set (entries_of_map (properties_of db a)). linked db e = Some b} else {})"

lemma plain_dbD:
  assumes "plain_db exps db"
  shows "db_inv exps db" "\<And>k a. node_of_key (key_nodes db) k = Some a \<Longrightarrow> c_key k" "\<And>a. expires_of exps db a \<noteq> Some 0"
  using assms by (auto simp: plain_db_def)

lemma node_key:
  assumes "plain_db exps db" "nodes_of db a = Some n"
  obtains c where "kn_key n = c @ [0]" "0 \<notin> set c" "node_of_key (key_nodes db) (c @ [0]) = Some a"
    "key_at (key_nodes db) a = c @ [0]" "c_str (kn_key n) = c"
proof -
  note inv = plain_dbD(1) [OF assms(1)]
  have "a \<in> set (kn_tree (key_nodes db))" using assms(2) db_invD(3) [OF inv] by auto
  moreover have k: "key_at (key_nodes db) a = kn_key n" using assms(2) by (simp add: key_at_def)
  ultimately have n: "node_of_key (key_nodes db) (kn_key n) = Some a"
    unfolding node_of_key_Some [OF db_invD(2) [OF inv]] by simp
  then obtain c where c: "kn_key n = c @ [0]" "0 \<notin> set c" using plain_dbD(2) [OF assms(1)] by (auto simp: c_key_def)
  have "takeWhile (\<lambda>x. x \<noteq> 0) (c @ [0]) = c" using c(2) by (induction c) auto
  then show thesis using that c k n by (simp add: c_str_def)
qed

lemma c_str_snoc: "0 \<notin> set v \<Longrightarrow> c_str (v @ [0]) = v"
  unfolding c_str_def by (induction v) auto

section \<open>The callback on a property\<close>

definition on_stack :: "traversal_stack \<Rightarrow> nat list" where
  "on_stack s = map tkn_key_node (ts_elements s)"

lemma duplicate_law:
  assumes db: "plain_db exps db" and b: "node_of_key (key_nodes db) (v @ [0]) = Some b"
  shows "tkn_key_node ` set ts \<subseteq> dom (nodes_of db) \<Longrightarrow>
    traversal_stack_is_duplicate db (v @ [0]) ts = Some (b \<in> tkn_key_node ` set ts)"
proof (induction ts)
  case (Cons t ts)
  have v: "0 \<notin> set v" using plain_dbD(2) [OF db b] by (simp add: c_key_def)
  have "tkn_key_node t \<in> dom (nodes_of db)" using Cons.prems by simp
  then obtain n where n: "nodes_of db (tkn_key_node t) = Some n" by blast
  obtain c where c: "kn_key n = c @ [0]" "node_of_key (key_nodes db) (c @ [0]) = Some (tkn_key_node t)" "c_str (kn_key n) = c"
    by (rule node_key [OF db n])
  have key: "key_at (key_nodes db) a = k" if "node_of_key (key_nodes db) k = Some a" for k a
    using that unfolding node_of_key_Some [OF db_invD(2) [OF plain_dbD(1) [OF db]]] by simp
  have eq: "v = c \<longleftrightarrow> b = tkn_key_node t" using b c(2) key [OF b] key [OF c(2)] by auto
  have ih: "traversal_stack_is_duplicate db (v @ [0]) ts = Some (b \<in> tkn_key_node ` set ts)" using Cons by simp
  show ?case
  proof (cases "v = c")
    case True
    then show ?thesis using n c(1,3) v eq by (simp add: c_str_snoc)
  next
    case False
    have "traversal_stack_is_duplicate db (v @ [0]) (t # ts) = traversal_stack_is_duplicate db (v @ [0]) ts"
      using n c(3) v False by (simp add: c_str_snoc)
    then show ?thesis using ih False eq by simp
  qed
qed simp

definition push_link :: "pan_db \<Rightarrow> bytes \<times> bytes \<Rightarrow> nat list \<Rightarrow> nat list" where
  "push_link db e bs =
     (case linked db e of None \<Rightarrow> bs | Some b \<Rightarrow> if b \<in> set bs then bs else bs @ [b])"

definition add_links :: "traversal_stack \<Rightarrow> nat list \<Rightarrow> traversal_stack" where
  "add_links s bs = s\<lparr>ts_elements := ts_elements s @ map (\<lambda>b. \<lparr>tkn_key_node = b, tkn_traversed = False\<rparr>) bs\<rparr>"

lemma on_stack_add [simp]: "on_stack (add_links s bs) = on_stack s @ bs" "ts_room (add_links s bs) = ts_room s"
  "ts_elements (add_links s bs) = ts_elements s @ map (\<lambda>b. \<lparr>tkn_key_node = b, tkn_traversed = False\<rparr>) bs"
  by (simp_all add: on_stack_def add_links_def comp_def)

lemma add_links_Nil [simp]: "add_links s [] = s" by (simp add: add_links_def)

lemma add_links_append: "add_links (add_links s bs) cs = add_links s (bs @ cs)" by (simp add: add_links_def)

lemma get_properties_law:
  assumes db: "plain_db exps db" and mem: "name_mem mem" and nodes: "set (on_stack s) \<subseteq> dom (nodes_of db)"
    and room: "\<And>b. linked db (k, v) = Some b \<Longrightarrow> b \<notin> set (on_stack s) \<Longrightarrow> length (on_stack s) < ts_room s"
  shows "\<exists>bs. records_get_properties_cb mem db (gen, Some s) k v =
      Some (0, (gen @ [Gen_String k, Gen_String v], Some (add_links s bs))) \<and> on_stack s @ bs = push_link db (k, v) (on_stack s)"
proof (cases "is_link k \<and> \<not> empty_value v")
  case False
  then have "linked db (k, v) = None" by (auto simp: linked_def)
  then show ?thesis using False by (intro exI [of _ "[]"]) (auto simp: records_get_properties_cb_def push_link_def Let_def)
next
  case True
  have st: "store_inv (key_nodes db)" using db_invD(2) [OF plain_dbD(1) [OF db]] .
  show ?thesis
  proof (cases "node_of_key (key_nodes db) (v @ [0])")
    case None
    then have "linked db (k, v) = None" by (simp add: linked_def)
    then show ?thesis using True mem get_missing(1) [OF st None, of None]
      by (intro exI [of _ "[]"]) (simp add: records_get_properties_cb_def push_link_def)
  next
    case (Some b)
    then have l: "linked db (k, v) = Some b" using True by (simp add: linked_def)
    have "tkn_key_node ` set (ts_elements s) \<subseteq> dom (nodes_of db)" using nodes by (simp add: on_stack_def)
    from duplicate_law [OF db Some this]
    have d: "traversal_stack_is_duplicate db (v @ [0]) (ts_elements s) = Some (b \<in> set (on_stack s))" by (simp add: on_stack_def)
    show ?thesis
    proof (cases "b \<in> set (on_stack s)")
      case True
      then show ?thesis using \<open>is_link k \<and> \<not> empty_value v\<close> mem l d get_existing [OF st Some, of None False]
        by (intro exI [of _ "[]"]) (simp add: records_get_properties_cb_def push_link_def)
    next
      case False
      then have "length (ts_elements s) < ts_room s" using room [OF l] by (simp add: on_stack_def)
      then show ?thesis using \<open>is_link k \<and> \<not> empty_value v\<close> False mem l d get_existing [OF st Some, of None False]
        by (intro exI [of _ "[b]"]) (simp add: records_get_properties_cb_def push_link_def push_traversal_def add_links_def)
    qed
  qed
qed

lemma node_of_key_dom: "db_inv exps db \<Longrightarrow> node_of_key (key_nodes db) k = Some b \<Longrightarrow> b \<in> dom (nodes_of db)"
  using db_invD(3) unfolding node_of_key_Some [OF db_invD(2)] by blast

lemma linked_dom: "db_inv exps db \<Longrightarrow> linked db e = Some b \<Longrightarrow> b \<in> dom (nodes_of db)"
  by (auto simp: linked_def split: if_splits dest: node_of_key_dom)

text \<open>R holds all the nodes that may come on the stack.\<close>

lemma get_properties_walk:
  assumes db: "plain_db exps db" and mem: "name_mem mem" and R: "finite R" "R \<subseteq> dom (nodes_of db)"
  shows "set (on_stack s) \<subseteq> R \<Longrightarrow> distinct (on_stack s) \<Longrightarrow> card R \<le> ts_room s \<Longrightarrow>
    \<forall>e \<in> set es. \<forall>b. linked db e = Some b \<longrightarrow> b \<in> R \<Longrightarrow>
    \<exists>bs. foreach_list (records_get_properties_cb mem db) es (gen, Some s) = Some (gen @ entry_calls es, Some (add_links s bs)) \<and>
      distinct (on_stack s @ bs) \<and> set (on_stack s @ bs) = set (on_stack s) \<union> {b. \<exists>e \<in> set es. linked db e = Some b}"
proof (induction es arbitrary: s gen)
  case (Cons e es)
  obtain k v where e: "e = (k, v)" by (cases e)
  have "length (on_stack s) < ts_room s" if b: "linked db (k, v) = Some b" "b \<notin> set (on_stack s)" for b
  proof -
    have "insert b (set (on_stack s)) \<subseteq> R" using Cons.prems(1,4) b(1) by (simp add: e)
    from card_mono [OF R(1) this] have "Suc (length (on_stack s)) \<le> card R"
      using Cons.prems(2) b(2) by (simp add: distinct_card)
    then show ?thesis using Cons.prems(3) by simp
  qed
  moreover have "set (on_stack s) \<subseteq> dom (nodes_of db)" using Cons.prems(1) R(2) by blast
  ultimately obtain bs where b: "records_get_properties_cb mem db (gen, Some s) k v =
      Some (0, (gen @ [Gen_String k, Gen_String v], Some (add_links s bs)))" "on_stack s @ bs = push_link db (k, v) (on_stack s)"
    using get_properties_law [OF db mem, where s = s and k = k and v = v] by blast
  let ?s = "add_links s bs"
  have o: "on_stack ?s = push_link db (k, v) (on_stack s)" by (simp add: b(2))
  have d: "distinct (on_stack ?s)" "set (on_stack ?s) = set (on_stack s) \<union> set_option (linked db (k, v))"
    unfolding o using Cons.prems(2) by (auto simp: push_link_def split: option.splits)
  have R': "set (on_stack ?s) \<subseteq> R" "\<forall>e \<in> set es. \<forall>b. linked db e = Some b \<longrightarrow> b \<in> R"
    using d(2) Cons.prems(1,4) by (auto simp: e)
  have room: "card R \<le> ts_room ?s" using Cons.prems(3) by simp
  obtain cs where c: "foreach_list (records_get_properties_cb mem db) es (gen @ [Gen_String k, Gen_String v], Some ?s) =
      Some ((gen @ [Gen_String k, Gen_String v]) @ entry_calls es, Some (add_links ?s cs))" "distinct (on_stack ?s @ cs)"
      "set (on_stack ?s @ cs) = set (on_stack ?s) \<union> {b. \<exists>e \<in> set es. linked db e = Some b}"
    using Cons.IH [OF R'(1) d(1) room R'(2), of "gen @ [Gen_String k, Gen_String v]"] by blast
  have "foreach_list (records_get_properties_cb mem db) (e # es) (gen, Some s) =
      Some (gen @ entry_calls (e # es), Some (add_links s (bs @ cs)))"
    using b(1) c(1) by (simp add: e entry_calls_def add_links_append)
  moreover have "distinct (on_stack s @ bs @ cs)" using c(2) by simp
  moreover have "set (on_stack s @ bs @ cs) = set (on_stack s) \<union> {b. \<exists>e \<in> set (e # es). linked db e = Some b}"
    using c(3) d(2) by (auto simp: e)
  ultimately show ?case by blast
next
  case Nil
  then show ?case by (intro exI [of _ "[]"]) (simp add: entry_calls_def)
qed

lemma get_properties_no_links:
  "foreach_list (records_get_properties_cb mem db) es (gen, None) = Some (gen @ entry_calls es, None)"
  by (induction es arbitrary: gen) (auto simp: records_get_properties_cb_def entry_calls_def)

section \<open>One record\<close>

lemma rec_simps:
  "rec_position (record_at exps db a) = position_of db a" "rec_expires (record_at exps db a) = expires_of exps db a"
  "rec_properties (record_at exps db a) = view (properties_of db a)"
  by (simp_all add: record_at_def)

text \<open>The part of the document before the properties.\<close>

definition head_calls :: "bytes \<Rightarrow> stored_record \<Rightarrow> yajl_gen" where
  "head_calls key r = record_calls key r [] False"

definition expiry_calls :: "stored_record \<Rightarrow> yajl_gen" where
  "expiry_calls r = (case rec_expires r of None \<Rightarrow> [] | Some t \<Rightarrow> [gen_str ''expires_at'', Gen_Integer t])"

lemma record_calls_split:
  "record_calls key r es False = head_calls key r"
  "record_calls key r es True = head_calls key r @ expiry_calls r @
     (if rec_properties r = None then [] else [gen_str ''properties'', Gen_Map_Open] @ entry_calls es @ [Gen_Map_Close])"
  by (simp_all add: head_calls_def expiry_calls_def record_calls_def)

lemma slot_position:
  assumes "db_inv exps db" "nodes_of db a = Some n"
  shows "case kn_slot n of None \<Rightarrow> position_of db a = None
    | Some (p, e) \<Rightarrow> \<exists>slot. content (db_root db) p e = Some slot \<and> position_of db a = Some (position slot)"
proof (cases "kn_slot n")
  case None
  then show ?thesis using assms(2) by (simp add: position_of_def)
next
  case (Some pe)
  obtain p e where pe: "pe = (p, e)" by (cases pe)
  have "kn_slot n \<noteq> None" by (simp add: Some)
  from db_invD(5) [OF assms(1,2) this] have "a \<in> keys (db_root db)" by simp
  then obtain x where "(a, x) \<in> placed (db_root db)" by (auto simp: keys_def)
  then have "position_of db a = Some x" using position_of_placed [OF assms(1)] by blast
  then show ?thesis using assms(2) Some pe by (auto simp: position_of_def)
qed

lemma node_head:
  assumes db: "plain_db exps db" and n: "nodes_of db a = Some n"
  shows "key_node_to_json1 mem exps db a with_properties gen s =
     (let gen2 = gen @ head_calls (butlast (key_at (key_nodes db) a)) (record_at exps db a)
      in if \<not> with_properties then Some (0, gen2, s)
         else (case properties_of db a of
            None \<Rightarrow> Some (0, gen2 @ expiry_calls (record_at exps db a), s)
          | Some m \<Rightarrow> do {
              (gen4, s') \<leftarrow> slip_map_foreach (records_get_properties_cb mem db) (Some m)
                (gen2 @ expiry_calls (record_at exps db a) @ [gen_str ''properties'', Gen_Map_Open], s);
              Some (0, gen4 @ [Gen_Map_Close], s')
            }))"
proof -
  note inv = plain_dbD(1) [OF db]
  obtain c where c: "kn_key n = c @ [0]" "key_at (key_nodes db) a = c @ [0]" "c_str (kn_key n) = c" by (rule node_key [OF db n])
  have pr: "properties_of db a = kn_properties n" using n by (simp add: properties_of_def)
  obtain gen1 where g1: "(case kn_slot n of
           None \<Rightarrow> Some []
         | Some (p, e) \<Rightarrow>
             do {
               slot \<leftarrow> content (db_root db) p e;
               Some [gen_str ''latitude'', Gen_Double (latitude (position slot)),
                     gen_str ''longitude'', Gen_Double (longitude (position slot))]
             }) = Some gen1"
    "head_calls c (record_at exps db a) = [gen_str ''key'', Gen_String c, gen_str ''type'',
                          gen_str (record_type (kn_slot n \<noteq> None) (kn_properties n \<noteq> None))] @ gen1"
    using slot_position [OF inv n] by (auto simp: head_calls_def record_calls_def rec_simps pr view_def split: option.splits)
  have g3: "(case kn_expirable n of
                   None \<Rightarrow> Some []
                 | Some e \<Rightarrow>
                     do {
                       x \<leftarrow> slab_contents exps e;
                       c_assert (exp_ts x \<noteq> 0);
                       Some [gen_str ''expires_at'', Gen_Integer (exp_ts x)]
                     }) = Some (expiry_calls (record_at exps db a))"
  proof (cases "kn_expirable n")
    case None
    then have "expires_of exps db a = None" using n by (simp add: expires_of_def)
    then show ?thesis using None by (simp add: expiry_calls_def rec_simps)
  next
    case (Some e)
    then have "e \<in> set (expirables db)" using db_invD(7) [OF inv] n unfolding exp_inv_def by blast
    then obtain x where x: "slab_contents exps e = Some x" using db_invD(7) [OF inv] unfolding exp_inv_def exp_tree_inv_def by blast
    then have "expires_of exps db a = Some (exp_ts x)" using n Some by (simp add: expires_of_def)
    then show ?thesis using Some x plain_dbD(3) [OF db, of a] by (simp add: expiry_calls_def rec_simps)
  qed
  show ?thesis
    unfolding key_node_to_json1_def n bind.bind_lunit g1(1) g3 c(3) Let_def pr
    using g1(2) c(2) by (cases "kn_properties n") simp_all
qed

lemma entries_of_map_foreach:
  assumes "slip_map_inv m"
  obtains "\<And>cb (c :: 'c). slip_map_foreach cb (Some m) c = foreach_list cb (entries_of_map (Some m)) c"
proof -
  obtain es where es: "\<And>cb (c :: 'c). slip_map_foreach cb (Some m) c = foreach_list cb es c" "map_entries (Some m) = Some es"
    by (rule foreach_entries_view [OF assms]) blast
  then have "entries_of_map (Some m) = es" by (simp add: entries_of_map_def)
  then show thesis using that es(1) by simp
qed

lemma node_map_inv:
  assumes "db_inv exps db" "properties_of db a = Some m"
  shows "slip_map_inv m"
  using assms db_invD(6) [OF assms(1)] by (auto simp: properties_of_def split: bind_splits)

lemma json1_no_links:
  assumes db: "plain_db exps db" and a: "a \<in> dom (nodes_of db)"
  shows "key_node_to_json1 mem exps db a with_properties gen None = Some (0, gen @ node_calls exps db with_properties a, None)"
proof -
  obtain n where n: "nodes_of db a = Some n" using a by blast
  show ?thesis
  proof (cases "properties_of db a")
    case None
    then show ?thesis unfolding node_head [OF db n] node_calls_def
      by (cases with_properties) (simp_all add: record_calls_split rec_simps)
  next
    case (Some m)
    have "slip_map_inv m" using node_map_inv [OF plain_dbD(1) [OF db] Some] .
    then obtain f: "\<And>cb (c :: yajl_gen \<times> traversal_stack option).
        slip_map_foreach cb (Some m) c = foreach_list cb (entries_of_map (Some m)) c"
      by (rule entries_of_map_foreach) blast
    show ?thesis unfolding node_head [OF db n] node_calls_def Some f get_properties_no_links option.case
      by (cases with_properties) (simp_all add: record_calls_split rec_simps Some)
  qed
qed

lemma json1_links:
  assumes db: "plain_db exps db" and a: "a \<in> dom (nodes_of db)" and mem: "name_mem mem"
    and R: "finite R" "R \<subseteq> dom (nodes_of db)" "links_of db with_properties a \<subseteq> R"
    and s: "set (on_stack s) \<subseteq> R" "distinct (on_stack s)" "card R \<le> ts_room s"
  shows "\<exists>bs. key_node_to_json1 mem exps db a with_properties gen (Some s) =
      Some (0, gen @ node_calls exps db with_properties a, Some (add_links s bs)) \<and>
    distinct (on_stack s @ bs) \<and> set (on_stack s @ bs) = set (on_stack s) \<union> links_of db with_properties a"
proof -
  obtain n where n: "nodes_of db a = Some n" using a by blast
  show ?thesis
  proof (cases "with_properties \<and> properties_of db a \<noteq> None")
    case False
    then have "links_of db with_properties a = {}" by (auto simp: links_of_def entries_of_map_def)
    moreover have "key_node_to_json1 mem exps db a with_properties gen (Some s) =
        Some (0, gen @ node_calls exps db with_properties a, Some s)"
      using False unfolding node_head [OF db n] node_calls_def
      by (cases with_properties) (auto simp: record_calls_split rec_simps)
    ultimately show ?thesis using s(2) by (intro exI [of _ "[]"]) simp
  next
    case True
    then obtain m where m: "properties_of db a = Some m" by blast
    have "slip_map_inv m" using node_map_inv [OF plain_dbD(1) [OF db] m] .
    then obtain f: "\<And>cb (c :: yajl_gen \<times> traversal_stack option).
        slip_map_foreach cb (Some m) c = foreach_list cb (entries_of_map (Some m)) c"
      by (rule entries_of_map_foreach) blast
    have "\<forall>e \<in> set (entries_of_map (Some m)). \<forall>b. linked db e = Some b \<longrightarrow> b \<in> R"
      using R(3) True m by (auto simp: links_of_def)
    from get_properties_walk [OF db mem R(1,2) s this] obtain bs where w:
      "foreach_list (records_get_properties_cb mem db) (entries_of_map (Some m))
         (gen @ head_calls (butlast (key_at (key_nodes db) a)) (record_at exps db a) @
            expiry_calls (record_at exps db a) @ [gen_str ''properties'', Gen_Map_Open], Some s) =
       Some ((gen @ head_calls (butlast (key_at (key_nodes db) a)) (record_at exps db a) @
            expiry_calls (record_at exps db a) @ [gen_str ''properties'', Gen_Map_Open]) @ entry_calls (entries_of_map (Some m)),
         Some (add_links s bs))"
      "distinct (on_stack s @ bs)"
      "set (on_stack s @ bs) = set (on_stack s) \<union> {b. \<exists>e \<in> set (entries_of_map (Some m)). linked db e = Some b}"
      by blast
    have "key_node_to_json1 mem exps db a with_properties gen (Some s) =
        Some (0, gen @ node_calls exps db with_properties a, Some (add_links s bs))"
      unfolding node_head [OF db n] node_calls_def m f option.case Let_def append_assoc w(1)
      using True by (simp add: record_calls_split rec_simps m)
    moreover have "links_of db with_properties a = {b. \<exists>e \<in> set (entries_of_map (Some m)). linked db e = Some b}"
      using True m by (simp add: links_of_def)
    ultimately show ?thesis using w(2,3) by (intro exI [of _ bs]) simp
  qed
qed

section \<open>Following the links\<close>

definition link_calls :: "expirable slab \<Rightarrow> pan_db \<Rightarrow> bool \<Rightarrow> nat \<Rightarrow> yajl_gen" where
  "link_calls exps db with_properties b =
     [Gen_String (butlast (key_at (key_nodes db) b)), Gen_Map_Open] @ node_calls exps db with_properties b @ [Gen_Map_Close]"

text \<open>The records that can be reached from a through links, a included.\<close>

definition reachable :: "pan_db \<Rightarrow> bool \<Rightarrow> nat \<Rightarrow> nat set" where
  "reachable db with_properties a = rtrancl {(x, y). y \<in> links_of db with_properties x} `` {a}"

lemma links_dom: "db_inv exps db \<Longrightarrow> links_of db with_properties a \<subseteq> dom (nodes_of db)"
  by (auto simp: links_of_def dest: linked_dom)

lemma reachable_dom:
  assumes "db_inv exps db" "a \<in> dom (nodes_of db)"
  shows "reachable db with_properties a \<subseteq> dom (nodes_of db)"
proof
  fix b assume "b \<in> reachable db with_properties a"
  then have "(a, b) \<in> rtrancl {(x, y). y \<in> links_of db with_properties x}" by (simp add: reachable_def)
  then show "b \<in> dom (nodes_of db)"
    using assms(2) links_dom [OF assms(1)] by (induction rule: rtrancl_induct) blast+
qed

lemma reachable_closed: "b \<in> reachable db with_properties a \<Longrightarrow> links_of db with_properties b \<subseteq> reachable db with_properties a"
  unfolding reachable_def by (auto intro: rtrancl_into_rtrancl)

lemma reachable_least:
  assumes "a \<in> S" "\<And>b. b \<in> S \<Longrightarrow> links_of db with_properties b \<subseteq> S"
  shows "reachable db with_properties a \<subseteq> S"
proof
  fix b assume "b \<in> reachable db with_properties a"
  then have "(a, b) \<in> rtrancl {(x, y). y \<in> links_of db with_properties x}" by (simp add: reachable_def)
  then show "b \<in> S" using assms by (induction rule: rtrancl_induct) blast+
qed

definition marked :: "bool \<Rightarrow> nat list \<Rightarrow> traversed_key_node list" where
  "marked t bs = map (\<lambda>b. \<lparr>tkn_key_node = b, tkn_traversed = t\<rparr>) bs"

lemma marked_simps [simp]:
  "length (marked t bs) = length bs" "marked t (bs @ cs) = marked t bs @ marked t cs" "marked t [] = []"
  "marked t (b # bs) = \<lparr>tkn_key_node = b, tkn_traversed = t\<rparr> # marked t bs" "map tkn_key_node (marked t bs) = bs"
  by (simp_all add: marked_def comp_def)

lemma add_links_marked: "ts_elements (add_links s bs) = ts_elements s @ marked False bs"
  by (simp add: marked_def)

lemma traverse_done: "ts_elements s = marked True bs \<Longrightarrow> traverse_from mem exps db with_properties i c s = Some (c, s)"
proof (induction "length bs - i" arbitrary: i)
  case 0
  then show ?case by (subst traverse_from.simps) simp
next
  case (Suc k)
  then have i: "i < length bs" "k = length bs - (i + 1)" by simp_all
  have "tkn_traversed (ts_elements s ! i)" using i(1) Suc.prems by (simp add: marked_def)
  then have "traverse_keys_nodes_foreach_cb mem exps db with_properties i c s = Some (0, c, s)"
    by (cases c) (simp add: traverse_keys_nodes_foreach_cb_def)
  then show ?case using i Suc.hyps(1) [OF i(2) Suc.prems] Suc.prems by (subst traverse_from.simps) simp
qed

lemma traverse_step:
  assumes plain: "plain_db exps db" and mem: "name_mem mem" and R: "finite R" "R \<subseteq> dom (nodes_of db)"
    and closed: "\<And>b. b \<in> R \<Longrightarrow> links_of db with_properties b \<subseteq> R"
    and s: "ts_elements s = marked True as @ marked False (b # bs)" "distinct (as @ b # bs)" "set (as @ b # bs) \<subseteq> R"
    "card R \<le> ts_room s"
  obtains ds s' where "traverse_keys_nodes_foreach_cb mem exps db with_properties (length as) (gen, found) s =
      Some (0, (gen @ link_calls exps db with_properties b, True), s')" "ts_room s' = ts_room s"
    "ts_elements s' = marked True (as @ [b]) @ marked False (bs @ ds)"
    "distinct (as @ b # bs @ ds)" "set (as @ b # bs @ ds) = set (as @ b # bs) \<union> links_of db with_properties b"
proof -
  have b: "b \<in> R" using s(3) by simp
  then have d: "b \<in> dom (nodes_of db)" using R(2) by blast
  then obtain n where n: "nodes_of db b = Some n" by blast
  have key: "key_at (key_nodes db) b = kn_key n" using n by (simp add: key_at_def)
  have el: "ts_elements s ! length as = \<lparr>tkn_key_node = b, tkn_traversed = False\<rparr>" by (simp add: s(1) nth_append)
  have on: "on_stack s = as @ b # bs" by (simp add: on_stack_def s(1))
  from json1_links [OF plain d mem R closed [OF b], of s] s(2-4) obtain ds where
    j: "key_node_to_json1 mem exps db b with_properties (gen @ [Gen_String (butlast (kn_key n)), Gen_Map_Open]) (Some s) =
        Some (0, (gen @ [Gen_String (butlast (kn_key n)), Gen_Map_Open]) @ node_calls exps db with_properties b, Some (add_links s ds))"
      "distinct (on_stack s @ ds)" "set (on_stack s @ ds) = set (on_stack s) \<union> links_of db with_properties b"
    unfolding on by blast
  define s' where "s' = (add_links s ds)\<lparr>ts_elements := (ts_elements (add_links s ds))[length as := \<lparr>tkn_key_node = b, tkn_traversed = True\<rparr>]\<rparr>"
  have "traverse_keys_nodes_foreach_cb mem exps db with_properties (length as) (gen, found) s =
      Some (0, (gen @ link_calls exps db with_properties b, True), s')"
    using n j(1) el by (simp add: traverse_keys_nodes_foreach_cb_def s'_def link_calls_def key)
  moreover have "ts_elements s' = marked True (as @ [b]) @ marked False (bs @ ds)"
    by (simp add: s'_def s(1) marked_def list_update_append)
  moreover have "ts_room s' = ts_room s" by (simp add: s'_def)
  ultimately show thesis using that j(2,3) unfolding on by simp
qed

lemma traverse_from_law:
  assumes plain: "plain_db exps db" and mem: "name_mem mem" and R: "finite R" "R \<subseteq> dom (nodes_of db)"
    and closed: "\<And>b. b \<in> R \<Longrightarrow> links_of db with_properties b \<subseteq> R"
  shows "ts_elements s = marked True as @ marked False bs \<Longrightarrow> distinct (as @ bs) \<Longrightarrow> set (as @ bs) \<subseteq> R \<Longrightarrow> card R \<le> ts_room s \<Longrightarrow>
   \<forall>b \<in> set as. links_of db with_properties b \<subseteq> set (as @ bs) \<Longrightarrow>
   \<exists>cs s'. traverse_from mem exps db with_properties (length as) (gen, found) s =
       Some ((gen @ concat (map (link_calls exps db with_properties) (bs @ cs)), found \<or> bs @ cs \<noteq> []), s') \<and>
     ts_elements s' = marked True (as @ bs @ cs) \<and> distinct (as @ bs @ cs) \<and> set (as @ bs @ cs) \<subseteq> R \<and>
     (\<forall>b \<in> set (as @ bs @ cs). links_of db with_properties b \<subseteq> set (as @ bs @ cs))"
proof (induction "card R - length as" arbitrary: as bs gen found s rule: less_induct)
  case less
  show ?case
  proof (cases bs)
    case Nil
    then show ?thesis using less.prems by (intro exI [of _ "[]"] exI [of _ s]) (subst traverse_from.simps, simp)
  next
    case (Cons b bs')
    obtain ds s' where t: "traverse_keys_nodes_foreach_cb mem exps db with_properties (length as) (gen, found) s =
        Some (0, (gen @ link_calls exps db with_properties b, True), s')" "ts_room s' = ts_room s"
      "ts_elements s' = marked True (as @ [b]) @ marked False (bs' @ ds)"
      "distinct (as @ b # bs' @ ds)" "set (as @ b # bs' @ ds) = set (as @ b # bs') \<union> links_of db with_properties b"
      by (rule traverse_step [OF plain mem R closed less.prems(1-4) [unfolded Cons], where gen = gen and found = found])
    have "length as < card R"
      using card_mono [OF R(1) less.prems(3)] distinct_card [OF less.prems(2)] by (simp add: Cons)
    then have m: "card R - length (as @ [b]) < card R - length as" by simp
    have "b \<in> R" using less.prems(3) by (simp add: Cons)
    then have p: "distinct ((as @ [b]) @ bs' @ ds)" "set ((as @ [b]) @ bs' @ ds) \<subseteq> R" "card R \<le> ts_room s'"
      "\<forall>c \<in> set (as @ [b]). links_of db with_properties c \<subseteq> set ((as @ [b]) @ bs' @ ds)"
      using t(2,4,5) less.prems(3-5) closed Cons by auto
    from less.hyps [OF m t(3) p, of "gen @ link_calls exps db with_properties b" True] obtain cs s'' where
      r: "traverse_from mem exps db with_properties (length (as @ [b])) (gen @ link_calls exps db with_properties b, True) s' =
          Some (((gen @ link_calls exps db with_properties b) @
             concat (map (link_calls exps db with_properties) ((bs' @ ds) @ cs)), True \<or> (bs' @ ds) @ cs \<noteq> []), s'')"
        "ts_elements s'' = marked True ((as @ [b]) @ (bs' @ ds) @ cs)" "distinct ((as @ [b]) @ (bs' @ ds) @ cs)"
        "set ((as @ [b]) @ (bs' @ ds) @ cs) \<subseteq> R"
        "\<forall>c \<in> set ((as @ [b]) @ (bs' @ ds) @ cs). links_of db with_properties c \<subseteq> set ((as @ [b]) @ (bs' @ ds) @ cs)"
      by blast
    have "traverse_from mem exps db with_properties (length as) (gen, found) s =
        Some ((gen @ concat (map (link_calls exps db with_properties) (bs @ ds @ cs)), found \<or> bs @ ds @ cs \<noteq> []), s'')"
      using t(1) r(1) less.prems(1) by (subst traverse_from.simps) (simp add: Cons)
    then show ?thesis using r(2-5) by (intro exI [of _ "ds @ cs"] exI [of _ s'']) (simp add: Cons)
  qed
qed

lemma json_links_law:
  assumes db: "plain_db exps db" and a: "a \<in> dom (nodes_of db)" and mem: "name_mem mem" "stack_mem mem"
    and few: "card (reachable db with_properties a) \<le> 256"
  shows "\<exists>bs. key_node_to_json mem exps db a with_properties True gen =
      Some (0, gen @ node_calls exps db with_properties a @ [gen_str ''$links'', Gen_Map_Open] @
        concat (map (link_calls exps db with_properties) bs) @ [Gen_Map_Close]) \<and>
    distinct (a # bs) \<and> set (a # bs) = reachable db with_properties a"
proof -
  let ?R = "reachable db with_properties a"
  note inv = plain_dbD(1) [OF db]
  have R: "finite ?R" "?R \<subseteq> dom (nodes_of db)"
    using reachable_dom [OF inv a] finite_subset db_invD(3) [OF inv] by (auto intro: finite_subset)
  have aR: "a \<in> ?R" by (simp add: reachable_def)
  note closed = reachable_closed [of _ db with_properties a]
  define s0 where "s0 = \<lparr>ts_elements = marked True [a], ts_room = 256\<rparr>"
  have push: "push_traversal (stack_mem mem) \<lparr>tkn_key_node = a, tkn_traversed = True\<rparr> new_traversal_stack = (0, s0)"
    by (simp add: push_traversal_def new_traversal_stack_def s0_def)
  have on: "on_stack s0 = [a]" "ts_room s0 = 256" by (simp_all add: on_stack_def s0_def)
  have "set (on_stack s0) \<subseteq> ?R" "distinct (on_stack s0)" "card ?R \<le> ts_room s0" using aR few by (simp_all add: on)
  from json1_links [OF db a mem(1) R closed [OF aR] this, of gen] obtain bs where
    j: "key_node_to_json1 mem exps db a with_properties gen (Some s0) =
        Some (0, gen @ node_calls exps db with_properties a, Some (add_links s0 bs))"
      "distinct (a # bs)" "set (a # bs) = insert a (links_of db with_properties a)"
    unfolding on by auto
  let ?gen = "gen @ node_calls exps db with_properties a @ [gen_str ''$links'', Gen_Map_Open]"
  have el: "ts_elements (add_links s0 bs) = marked True [a] @ marked False bs" by (simp add: add_links_marked s0_def del: on_stack_add(3))
  have d: "distinct ([a] @ bs)" "set ([a] @ bs) \<subseteq> ?R" "card ?R \<le> ts_room (add_links s0 bs)"
    "\<forall>b \<in> set [a]. links_of db with_properties b \<subseteq> set ([a] @ bs)"
    using j(2,3) aR closed [OF aR] few on(2) by auto
  from traverse_from_law [OF db mem(1) R closed el d, of ?gen False] obtain cs s' where
    t: "traverse_from mem exps db with_properties (length [a]) (?gen, False) (add_links s0 bs) =
        Some ((?gen @ concat (map (link_calls exps db with_properties) (bs @ cs)), False \<or> bs @ cs \<noteq> []), s')"
      "ts_elements s' = marked True ([a] @ bs @ cs)" "distinct ([a] @ bs @ cs)" "set ([a] @ bs @ cs) \<subseteq> ?R"
      "\<forall>b \<in> set ([a] @ bs @ cs). links_of db with_properties b \<subseteq> set ([a] @ bs @ cs)" by blast
  have "traverse_from mem exps db with_properties 0 (?gen, False) (add_links s0 bs) =
      traverse_from mem exps db with_properties (length [a]) (?gen, False) (add_links s0 bs)"
    using el by (subst traverse_from.simps) (simp add: traverse_keys_nodes_foreach_cb_def)
  note t1 = this [unfolded t(1)]
  have "traverse_loop mem exps db with_properties ?gen (add_links s0 bs) =
      Some (?gen @ concat (map (link_calls exps db with_properties) (bs @ cs)))"
  proof (cases "bs @ cs = []")
    case True
    then show ?thesis using t1 by (subst traverse_loop.simps) simp
  next
    case False
    have "traverse_loop mem exps db with_properties (?gen @ concat (map (link_calls exps db with_properties) (bs @ cs))) s' =
        Some (?gen @ concat (map (link_calls exps db with_properties) (bs @ cs)))"
      using traverse_done [OF t(2)] by (subst traverse_loop.simps) simp
    then show ?thesis using t1 False by (subst traverse_loop.simps) simp
  qed
  then have run: "key_node_to_json mem exps db a with_properties True gen =
      Some (0, gen @ node_calls exps db with_properties a @ [gen_str ''$links'', Gen_Map_Open] @
        concat (map (link_calls exps db with_properties) (bs @ cs)) @ [Gen_Map_Close])"
    using push j(1) mem(2) by (simp add: key_node_to_json_def)
  have "?R \<subseteq> set ([a] @ bs @ cs)" by (rule reachable_least) (use t(5) in auto)
  then have "set (a # bs @ cs) = ?R" using t(4) by auto
  then show ?thesis using run t(3) by (intro exI [of _ "bs @ cs"]) simp
qed

section \<open>The handler\<close>

lemma get_law:
  assumes inv: "ctx_inv ctx" and db: "layers ctx (get_layer_name op) = Some db"
  shows "handle_op_records_get mem cfg op ctx =
     (case node_of_key (key_nodes db) (get_key op) of
        None \<Rightarrow> Some (HTTP_NOTFOUND, ctx)
      | Some a \<Rightarrow>
          (if fake_req (get_bare op) then Some (0, ctx)
           else if \<not> reply_mem mem then Some (HTTP_SERVUNAVAIL, ctx)
           else do {
             (_, calls) \<leftarrow> key_node_to_json mem (expirables_slab ctx) db a True (get_with_links op) [];
             Some (send_reply mem OP_TYPE_RECORDS_GET (get_bare op) calls ctx)
           }))"
proof -
  obtain l lay where g: "get_pan_db_by_layer_name mem cfg (get_layer_name op) False ctx = Some (0, Some l, ctx)"
    "slab_contents (layers_slab ctx) l = Some lay" "layer_db lay = db"
    using get_pan_db_law [OF inv db] by blast
  have st: "store_inv (key_nodes db)" using g(2,3) ctx_invD(4) [OF inv] db_invD(2) by blast
  show ?thesis
  proof (cases "node_of_key (key_nodes db) (get_key op)")
    case None
    then show ?thesis using g get_missing(1) [OF st None, of None] by (simp add: handle_op_records_get_def)
  next
    case (Some a)
    then show ?thesis using g get_existing [OF st Some, of None False] by (simp add: handle_op_records_get_def)
  qed
qed

lemma answered_send:
  "Some (send_reply mem ty op calls ctx) = Some (status, ctx') \<Longrightarrow> \<not> fake_req op \<Longrightarrow> reply_mem mem \<Longrightarrow>
   answered mem ty op calls status ctx ctx' \<and> ctx' = ctx\<lparr>published := published ctx'\<rparr>"
  by (auto simp: send_reply_def answered_def reply_op_def Let_def)

text \<open>What a GET answers about the record of the node a.\<close>

definition get_answer :: "expirable slab \<Rightarrow> pan_db \<Rightarrow> bool \<Rightarrow> nat \<Rightarrow> yajl_gen \<Rightarrow> bool" where
  "get_answer exps db with_links a calls =
     (if with_links
      then \<exists>bs. calls = node_calls exps db True a @ [gen_str ''$links'', Gen_Map_Open] @
               concat (map (link_calls exps db True) bs) @ [Gen_Map_Close] \<and>
             distinct (a # bs) \<and> set (a # bs) = reachable db True a
      else calls = node_calls exps db True a)"

lemma get_answer_law:
  assumes inv: "ctx_inv ctx" and mem: "good_memory mem" and db: "layers ctx (get_layer_name op) = Some db"
    "plain_db (expirables_slab ctx) db" and a: "node_of_key (key_nodes db) (get_key op) = Some a"
    and few: "get_with_links op \<longrightarrow> card (reachable db True a) \<le> 256"
  shows "\<exists>status ctx' calls. handle_op_records_get mem cfg op ctx = Some (status, ctx') \<and>
    ctx' = ctx\<lparr>published := published ctx'\<rparr> \<and> get_answer (expirables_slab ctx) db (get_with_links op) a calls \<and>
    answered mem OP_TYPE_RECORDS_GET (get_bare op) calls status ctx ctx'"
proof -
  note m = good_memoryD [OF mem]
  have dom: "a \<in> dom (nodes_of db)" by (rule node_of_key_dom [OF plain_dbD(1) [OF db(2)] a])
  obtain calls where c: "key_node_to_json mem (expirables_slab ctx) db a True (get_with_links op) [] = Some (0, calls)"
    "get_answer (expirables_slab ctx) db (get_with_links op) a calls"
  proof (cases "get_with_links op")
    case True
    then have "card (reachable db True a) \<le> 256" using few by simp
    from json_links_law [OF db(2) dom m(7,9) this, of "[]"] True that show ?thesis by (auto simp: get_answer_def)
  next
    case False
    then show ?thesis using json1_no_links [OF db(2) dom, of mem True "[]"] that
      by (simp add: key_node_to_json_def get_answer_def)
  qed
  show ?thesis
  proof (cases "fake_req (get_bare op)")
    case True
    then have "handle_op_records_get mem cfg op ctx = Some (0, ctx)" using get_law [OF inv db(1)] a by simp
    moreover have "answered mem OP_TYPE_RECORDS_GET (get_bare op) calls 0 ctx ctx" using True by (simp add: answered_def reply_op_def)
    ultimately show ?thesis using c(2) by (intro exI [of _ 0] exI [of _ ctx] exI [of _ calls]) simp
  next
    case False
    obtain status ctx' where s: "Some (send_reply mem OP_TYPE_RECORDS_GET (get_bare op) calls ctx) = Some (status, ctx')" by fastforce
    then have "handle_op_records_get mem cfg op ctx = Some (status, ctx')"
      using get_law [OF inv db(1)] a False m(8) c(1) by simp
    then show ?thesis using c(2) answered_send [OF s False m(8)] by blast
  qed
qed

lemma records_get_law:
  assumes "ctx_inv ctx" "good_memory mem"
    and "\<forall>db a. layers ctx (get_layer_name op) = Some db \<longrightarrow> plain_db (expirables_slab ctx) db \<and>
      (node_of_key (key_nodes db) (get_key op) = Some a \<longrightarrow> get_with_links op \<longrightarrow> card (reachable db True a) \<le> 256)"
  shows "\<exists>status ctx'. handle_op_records_get mem cfg op ctx = Some (status, ctx') \<and> ctx' = ctx\<lparr>published := published ctx'\<rparr> \<and>
    (case layers ctx (get_layer_name op) of
       None \<Rightarrow> status = HTTP_NOTFOUND \<and> ctx' = ctx
     | Some db \<Rightarrow>
         (case node_of_key (key_nodes db) (get_key op) of
            None \<Rightarrow> status = HTTP_NOTFOUND \<and> ctx' = ctx
          | Some a \<Rightarrow> \<exists>calls. get_answer (expirables_slab ctx) db (get_with_links op) a calls \<and>
              answered mem OP_TYPE_RECORDS_GET (get_bare op) calls status ctx ctx'))"
proof (cases "layers ctx (get_layer_name op)")
  case None
  then show ?thesis using get_pan_db_none(1) [OF assms(1) None] by (simp add: handle_op_records_get_def)
next
  case (Some db)
  show ?thesis
  proof (cases "node_of_key (key_nodes db) (get_key op)")
    case None
    then show ?thesis using get_law [OF assms(1) Some, of mem cfg] Some by simp
  next
    case node: (Some a)
    have p: "plain_db (expirables_slab ctx) db" "get_with_links op \<longrightarrow> card (reachable db True a) \<le> 256"
      using assms(3) Some node by blast+
    from get_answer_law [OF assms(1,2) Some p(1) node p(2), of cfg] Some node show ?thesis by auto
  qed
qed

section \<open>Properties\<close>

text \<open>
  C24: with links, the walk over the linked records ends, and the document of a record is followed by those of all the records that
  can be reached from it through links, each listed once under its key, however they link to each other and
  back. It holds for at most 256 such records: with more the traversal stack is reallocated while a pointer into it is held.
\<close>

theorem key_node_to_json_lists_reachable:
  assumes "plain_db exps db" "a \<in> dom (nodes_of db)" "name_mem mem" "stack_mem mem"
    and "card (reachable db with_properties a) \<le> 256"
  shows "\<exists>bs. key_node_to_json mem exps db a with_properties True gen =
      Some (0, gen @ node_calls exps db with_properties a @ [gen_str ''$links'', Gen_Map_Open] @
        concat (map (link_calls exps db with_properties) bs) @ [Gen_Map_Close]) \<and>
    distinct (a # bs) \<and> set (a # bs) = reachable db with_properties a"
  by (rule json_links_law [OF assms])

text \<open>
  C11: with enough memory, a GET of a record answers with its key, type, position, expiration and properties as they are stored, with links
  followed by the linked records, and changes nothing but the queue of replies. A key without a record
  and a layer that does not exist are answered with 404. The layer must be one that the handlers of PUT requests make, with keys that are C strings and no
  expiration at 0 (plain_db); with links, at most 256 records may be reachable from the record, since with more the traversal stack is
  reallocated while a pointer into it is held.
\<close>

theorem records_get_answers:
  assumes "ctx_inv ctx" "good_memory mem"
    and "\<forall>db a. layers ctx (get_layer_name op) = Some db \<longrightarrow> plain_db (expirables_slab ctx) db \<and>
      (node_of_key (key_nodes db) (get_key op) = Some a \<longrightarrow> get_with_links op \<longrightarrow> card (reachable db True a) \<le> 256)"
  shows "\<exists>status ctx'. handle_op_records_get mem cfg op ctx = Some (status, ctx') \<and> ctx' = ctx\<lparr>published := published ctx'\<rparr> \<and>
    (case layers ctx (get_layer_name op) of
       None \<Rightarrow> status = HTTP_NOTFOUND \<and> ctx' = ctx
     | Some db \<Rightarrow>
         (case node_of_key (key_nodes db) (get_key op) of
            None \<Rightarrow> status = HTTP_NOTFOUND \<and> ctx' = ctx
          | Some a \<Rightarrow> \<exists>calls. get_answer (expirables_slab ctx) db (get_with_links op) a calls \<and>
              answered mem OP_TYPE_RECORDS_GET (get_bare op) calls status ctx ctx'))"
  by (rule records_get_law [OF assms])

section \<open>Plain databases by their records\<close>

definition plain_records :: "(bytes \<Rightarrow> stored_record option) \<Rightarrow> bool" where
  "plain_records m = (\<forall>k r. m k = Some r \<longrightarrow> c_key k \<and> rec_expires r \<noteq> Some 0)"

lemma expires_has_key:
  assumes inv: "db_inv exps db" and a: "nodes_of db a \<noteq> None"
  shows "node_of_key (key_nodes db) (key_at (key_nodes db) a) = Some a"
proof -
  have "a \<in> set (kn_tree (key_nodes db))" using a db_invD(3) [OF inv] by auto
  then show ?thesis unfolding node_of_key_Some [OF db_invD(2) [OF inv]] by simp
qed

lemma plain_db_iff: "db_inv exps db \<Longrightarrow> plain_db exps db \<longleftrightarrow> plain_records (record_of exps db)"
proof
  assume db: "db_inv exps db" "plain_records (record_of exps db)"
  show "plain_db exps db"
    unfolding plain_db_def
  proof (intro conjI allI impI)
    fix k assume "node_of_key (key_nodes db) k \<noteq> None"
    then show "c_key k" using db(2) by (auto simp: plain_records_def record_of_def)
  next
    fix a
    show "expires_of exps db a \<noteq> Some 0"
    proof (cases "nodes_of db a")
      case None
      then show ?thesis by (simp add: expires_of_def)
    next
      case (Some n)
      then have "record_of exps db (key_at (key_nodes db) a) = Some (record_at exps db a)"
        using expires_has_key [OF db(1), of a] by (simp add: record_of_def)
      then show ?thesis using db(2) unfolding plain_records_def by (metis rec_simps(2))
    qed
  qed (rule db(1))
next
  assume "plain_db exps db"
  then show "plain_records (record_of exps db)"
    by (auto simp: plain_records_def record_of_def plain_db_def rec_simps)
qed

lemma reachable_card:
  assumes db: "db_inv exps db" and a: "a \<in> dom (nodes_of db)"
  shows "card (reachable db with_properties a) \<le> card (dom (record_of exps db))" "finite (dom (record_of exps db))"
proof -
  let ?key = "key_at (key_nodes db)"
  have fin: "finite (dom (nodes_of db))" using db_invD(3) [OF db] by simp
  have inj: "inj_on ?key (dom (nodes_of db))"
  proof (rule inj_onI)
    fix x y assume xy: "x \<in> dom (nodes_of db)" "y \<in> dom (nodes_of db)" "?key x = ?key y"
    note k = expires_has_key [OF db xy(1) [unfolded domIff]] expires_has_key [OF db xy(2) [unfolded domIff]]
    from k(1) [unfolded xy(3)] k(2) show "x = y" by simp
  qed
  have "dom (record_of exps db) = ?key ` dom (nodes_of db)"
  proof
    show "dom (record_of exps db) \<subseteq> ?key ` dom (nodes_of db)"
    proof
      fix k assume "k \<in> dom (record_of exps db)"
      then obtain b where b: "node_of_key (key_nodes db) k = Some b" by (auto simp: record_of_def)
      then have "?key b = k" unfolding node_of_key_Some [OF db_invD(2) [OF db]] by simp
      then show "k \<in> ?key ` dom (nodes_of db)" using node_of_key_dom [OF db b] by blast
    qed
    show "?key ` dom (nodes_of db) \<subseteq> dom (record_of exps db)"
    proof (intro subsetI, elim imageE)
      fix k x assume "k = ?key x" "x \<in> dom (nodes_of db)"
      then show "k \<in> dom (record_of exps db)"
        using expires_has_key [OF db, of x] by (auto simp: record_of_def domIff)
    qed
  qed
  then show "finite (dom (record_of exps db))" "card (reachable db with_properties a) \<le> card (dom (record_of exps db))"
    using fin card_image [OF inj] card_mono [OF fin reachable_dom [OF db a]] by simp_all
qed

section \<open>Witnesses\<close>

text \<open>Two records that link to each other.\<close>

definition linked_node :: "string \<Rightarrow> string \<Rightarrow> key_node" where
  "linked_node key target =
     (empty_key_node (bytes_of key @ [0]))\<lparr>kn_properties := Some (render [(bytes_of ''$link:to'', bytes_of target, [])])\<rparr>"

definition linked_db :: pan_db where
  "linked_db = sample_db\<lparr>key_nodes := \<lparr>kn_heap = [0 \<mapsto> linked_node ''paris'' ''rome'', 2 \<mapsto> linked_node ''rome'' ''paris''],
                                     kn_tree = [0, 2]\<rparr>\<rparr>"

lemma link_wf: "wf_slots [(bytes_of ''$link:to'', bytes_of ''rome'', [])]" "wf_slots [(bytes_of ''$link:to'', bytes_of ''paris'', [])]"
  by (simp_all add: wf_slots_def bytes_of_def)

lemma linked_db_simps:
  "nodes_of linked_db = [0 \<mapsto> linked_node ''paris'' ''rome'', 2 \<mapsto> linked_node ''rome'' ''paris'']"
  "kn_tree (key_nodes linked_db) = [0, 2]"
  "db_root linked_db = Quad_Node 0 (\<lambda>_. Bucket_Node init_bucket)" "qbounds linked_db = world" "expirables linked_db = []"
  by (simp_all add: linked_db_def sample_db_def)

lemma linked_node_simps [simp]:
  "kn_key (linked_node k t) = bytes_of k @ [0]" "kn_slot (linked_node k t) = None" "kn_expirable (linked_node k t) = None"
  by (simp_all add: linked_node_def empty_key_node_def)

lemma linked_db_inv: "db_inv init_slab linked_db"
proof -
  have "links (nodes_of linked_db) [] (db_root linked_db)" "node_inv (db_root linked_db) [] (qbounds linked_db)"
    using spread_new [of "[]" world "nodes_of linked_db"] unfolding spread_def prod.case linked_db_simps by blast+
  then have "slots_ok {} linked_db"
    using world_ok unfolding slots_ok_def index_inv_def linked_db_simps by (auto split: if_splits)
  moreover have "store_inv (key_nodes linked_db)"
    unfolding store_inv_def linked_db_simps by (simp add: kc.sorted_Cons key_at_def linked_db_simps bytes_of_def)
  moreover have "slip_map_inv m" if "nodes_of linked_db a = Some n" "kn_properties n = Some m" for a n m
    using that link_wf [THEN slip_map_invI] unfolding linked_db_simps by (auto simp: linked_node_def split: if_splits)
  ultimately show ?thesis
    unfolding db_inv_def base_inv_def exp_inv_def linked_db_simps by (auto simp: init_slab_inv split: if_splits)
qed

lemma linked_db_nodes:
  "node_of_key (key_nodes linked_db) (bytes_of ''paris'' @ [0]) = Some 0" "node_of_key (key_nodes linked_db) (bytes_of ''rome'' @ [0]) = Some 2"
  "node_of_key (key_nodes linked_db) k \<noteq> None \<Longrightarrow> c_key k"
  by (auto simp: node_of_key_def key_at_def linked_db_simps bytes_of_def c_key_def split: if_splits)

lemma linked_db_plain: "plain_db init_slab linked_db"
  using linked_db_inv linked_db_nodes(3)
  by (auto simp: plain_db_def expires_of_def linked_db_simps split: bind_splits if_splits)

lemma linked_db_entries:
  "entries_of_map (properties_of linked_db 0) = [(bytes_of ''$link:to'', bytes_of ''rome'')]"
  "entries_of_map (properties_of linked_db 2) = [(bytes_of ''$link:to'', bytes_of ''paris'')]"
  unfolding properties_of_def linked_db_simps entries_of_map_def map_entries_def linked_node_def
  by (simp_all add: slip_map_foreach_render [OF link_wf(1)] slip_map_foreach_render [OF link_wf(2)] foreach_list_collect
      del: render_simps) (simp_all add: entries_of_def bytes_of_def)

lemma linked_db_links:
  "links_of linked_db True 0 = {2}" "links_of linked_db True 2 = {0}"
proof -
  have l: "is_link (bytes_of ''$link:to'')" "\<not> empty_value (bytes_of ''rome'')" "\<not> empty_value (bytes_of ''paris'')" by code_simp+
  show "links_of linked_db True 0 = {2}" "links_of linked_db True 2 = {0}"
    by (auto simp: links_of_def linked_db_entries linked_def l linked_db_nodes)
qed

lemma linked_db_reachable: "reachable linked_db True 0 = {0, 2}"
proof
  show "reachable linked_db True 0 \<subseteq> {0, 2}" by (rule reachable_least) (auto simp: linked_db_links)
  have "0 \<in> reachable linked_db True 0" by (simp add: reachable_def)
  then show "{0, 2} \<subseteq> reachable linked_db True 0" using reachable_closed [of 0 linked_db True 0] linked_db_links(1) by auto
qed

theorem key_node_to_json_lists_reachable_witness:
  "key_node_to_json sample_mem init_slab linked_db 0 True True [] =
     Some (0, node_calls init_slab linked_db True 0 @ [gen_str ''$links'', Gen_Map_Open] @
       link_calls init_slab linked_db True 2 @ [Gen_Map_Close])"
proof -
  have c: "0 \<in> dom (nodes_of linked_db)" "name_mem sample_mem" "stack_mem sample_mem"
    "card (reachable linked_db True 0) \<le> 256" by (simp_all add: linked_db_simps sample_mem_def linked_db_reachable)
  from key_node_to_json_lists_reachable [OF linked_db_plain c, of "[]"] obtain bs where
    b: "key_node_to_json sample_mem init_slab linked_db 0 True True [] =
        Some (0, node_calls init_slab linked_db True 0 @ [gen_str ''$links'', Gen_Map_Open] @
          concat (map (link_calls init_slab linked_db True) bs) @ [Gen_Map_Close])" "distinct (0 # bs)" "set (0 # bs) = {0, 2}"
    unfolding linked_db_reachable by auto
  have "set bs = set (0 # bs) - {0}" using b(2) by simp
  then have bs: "set bs = {2}" "distinct bs" using b(2) unfolding b(3) by simp_all
  then have "length bs = 1" using distinct_card [of bs] by simp
  then obtain x where "bs = [x]" by (cases bs) auto
  then have "bs = [2]" using bs(1) by simp
  then show ?thesis using b(1) by simp
qed

definition sample_get :: records_get_op where
  "sample_get = \<lparr>get_bare = sample_op, get_layer_name = sample_layer, get_key = sample_key, get_with_links = True\<rparr>"

theorem records_get_answers_witness:
  "\<exists>ctx status ctx' db a calls. handle_op_records_get sample_mem sample_cfg sample_get ctx = Some (status, ctx') \<and>
     layers ctx sample_layer = Some db \<and> node_of_key (key_nodes db) sample_key = Some a \<and>
     get_answer (expirables_slab ctx) db True a calls \<and> published ctx' =
       published ctx @ [\<lparr>reply_type = OP_TYPE_RECORDS_GET, reply_req = 1, reply_tid = 1, json_gen = new_json_gen 1 @ calls\<rparr>]"
proof -
  obtain ctx r where c: "ctx_inv ctx" "records_of ctx = [sample_layer \<mapsto> [sample_key \<mapsto> r]]" "rec_expires r = Some 1"
    using sample_stored [of 0] by metis
  obtain db where l: "layers ctx sample_layer = Some db" "record_of (expirables_slab ctx) db = [sample_key \<mapsto> r]"
    using fun_cong [OF c(2), of sample_layer] by (auto simp: records_of_def)
  obtain a where a: "node_of_key (key_nodes db) sample_key = Some a"
    using fun_cong [OF l(2), of sample_key] by (auto simp: record_of_def)
  have inv: "db_inv (expirables_slab ctx) db" using l(1) ctx_invD(4) [OF c(1)] unfolding layers_Some [OF c(1)] by blast
  have "c_key sample_key" by (auto simp: c_key_def sample_key_def bytes_of_def)
  then have "plain_records (record_of (expirables_slab ctx) db)"
    unfolding l(2) plain_records_def using c(3) by (auto split: if_splits)
  then have p: "plain_db (expirables_slab ctx) db" using plain_db_iff [OF inv] by simp
  have "card (reachable db True a) \<le> 256" using reachable_card(1) [OF inv node_of_key_dom [OF inv a], of True] by (simp add: l(2))
  then have "\<forall>db a. layers ctx (get_layer_name sample_get) = Some db \<longrightarrow> plain_db (expirables_slab ctx) db \<and>
      (node_of_key (key_nodes db) (get_key sample_get) = Some a \<longrightarrow> get_with_links sample_get \<longrightarrow> card (reachable db True a) \<le> 256)"
    using l(1) a p by (simp add: sample_get_def)
  from records_get_answers [OF c(1) sample_memory this, of sample_cfg] l(1) a obtain status ctx' calls where
    "handle_op_records_get sample_mem sample_cfg sample_get ctx = Some (status, ctx')"
    "get_answer (expirables_slab ctx) db True a calls"
    "answered sample_mem OP_TYPE_RECORDS_GET sample_op calls status ctx ctx'"
    by (auto simp: sample_get_def)
  then show ?thesis using l(1) a
    by (intro exI [of _ ctx] exI [of _ status] exI [of _ ctx'] exI [of _ db] exI [of _ a] exI [of _ calls])
      (simp add: answered_def reply_op_def sample_op_def sample_mem_def)
qed

end
