(* ===== verification/Dimension_Eval.thy ===== *)
theory Dimension_Eval
  imports Dimension
begin

text \<open>
  Computing with floats in proofs: what a rounded number is, from bounds on the number that one checks by arithmetic.
\<close>

lemma ilog2_eq:
  assumes "2 powi k \<le> x" "x < 2 powi (k + 1)"
  shows "ilog2 x = k"
proof -
  have x: "0 < x" using assms(1) two_powi_pos [of k] by linarith
  have "ilog2 x < k + 1" by (rule ilog2_less [OF x assms(2)])
  moreover have "k < ilog2 x + 1"
  proof (rule ccontr)
    assume "\<not> k < ilog2 x + 1"
    then have "(2 :: rat) powi (ilog2 x + 1) \<le> 2 powi k" by (intro two_powi_mono) simp
    then show False using ilog2_bounds [OF x] assms(1) by linarith
  qed
  ultimately show ?thesis by simp
qed

lemma round_even_near: "2 * \<bar>q - of_int m\<bar> < 1 \<Longrightarrow> round_even q = m"
proof -
  assume q: "2 * \<bar>q - of_int m\<bar> < 1"
  show "round_even q = m"
  proof (cases "of_int m \<le> q")
    case True
    then have "\<lfloor>q\<rfloor> = m" using q by (intro floor_unique) (auto simp: abs_if)
    then show ?thesis using q True by (simp add: round_even_def Let_def)
  next
    case False
    then have "\<lfloor>q\<rfloor> = m - 1" using q by (intro floor_unique) (auto simp: abs_if)
    then show ?thesis using q False by (simp add: round_even_def Let_def abs_if)
  qed
qed

lemma rnd_eval:
  assumes "2 powi (j + int p - 1) \<le> x" "x < 2 powi (j + int p)" "e \<le> j" "2 * \<bar>x - of_int m * 2 powi j\<bar> < 2 powi j"
  shows "rnd p e x = of_int m * 2 powi j"
proof -
  have x: "0 < x" using assms(1) two_powi_pos [of "j + int p - 1"] by linarith
  have "ilog2 \<bar>x\<bar> = j + int p - 1" using x by (intro ilog2_eq) (use assms(1,2) in simp_all)
  then have u: "ulp p e x = 2 powi j" using assms(3) by (simp add: ulp_def)
  have "x / 2 powi j - of_int m = (x - of_int m * 2 powi j) / 2 powi j" by (simp add: diff_divide_distrib)
  then have "\<bar>x / 2 powi j - of_int m\<bar> = \<bar>x - of_int m * 2 powi j\<bar> / 2 powi j" by (simp add: abs_divide)
  then have "2 * \<bar>x / 2 powi j - of_int m\<bar> < 1" using assms(4) by (simp add: pos_divide_less_eq)
  from round_even_near [OF this] show ?thesis using x by (simp add: rnd_def u)
qed

lemma rnd_eval_bound:
  fixes x y :: rat
  assumes "2 powi (j + int p - 1) \<le> x" "x < 2 powi (j + int p)" "2 * \<bar>x - y\<bar> < 2 powi j" "j + int p + 1 \<le> k"
  shows "\<bar>y\<bar> < 2 powi k"
proof -
  have "(2 :: rat) powi j \<le> 2 powi (j + int p)" by (rule two_powi_mono) simp
  moreover have "0 < x" using assms(1) two_powi_pos [of "j + int p - 1"] by linarith
  moreover have "x - y < 2 powi j" "y - x < 2 powi j" using assms(3) by (simp_all add: abs_if split: if_splits)
  ultimately have "\<bar>y\<bar> < 2 * 2 powi (j + int p)" using assms(2) unfolding abs_less_iff by linarith
  also have "\<dots> = 2 powi (j + int p + 1)" using two_powi_add [of 1 "j + int p"] by (simp add: add.commute)
  also have "\<dots> \<le> 2 powi k" by (rule two_powi_mono) (rule assms(4))
  finally show ?thesis .
qed

lemma f32_eval:
  assumes "2 powi (j + 23) \<le> x" "x < 2 powi (j + 24)" "- 149 \<le> j" "j + 25 \<le> 128"
    "2 * \<bar>x - of_int m * 2 powi j\<bar> < 2 powi j" "y = of_int m * 2 powi j"
  shows "f32 x = Fin y"
proof -
  have r: "rnd 24 (- 149) x = y"
    unfolding assms(6) by (rule rnd_eval) (use assms in \<open>simp_all add: add.commute\<close>)
  have "\<bar>y\<bar> < 2 powi 128"
    by (rule rnd_eval_bound [of j 24 x]) (use assms in \<open>simp_all add: add.commute\<close>)
  then show ?thesis by (simp add: f32_def r Let_def abs_less_iff)
qed

lemma f64_eval:
  assumes "2 powi (j + 52) \<le> x" "x < 2 powi (j + 53)" "- 1074 \<le> j" "j + 54 \<le> 1024"
    "2 * \<bar>x - of_int m * 2 powi j\<bar> < 2 powi j" "y = of_int m * 2 powi j"
  shows "f64 x = Fin y"
proof -
  have r: "rnd 53 (- 1074) x = y"
    unfolding assms(6) by (rule rnd_eval) (use assms in \<open>simp_all add: add.commute\<close>)
  have "\<bar>y\<bar> < 2 powi 1024"
    by (rule rnd_eval_bound [of j 53 x]) (use assms in \<open>simp_all add: add.commute\<close>)
  then show ?thesis by (simp add: f64_def r Let_def abs_less_iff)
qed

text \<open>Numbers that are exact.\<close>

lemma f32_exact: "is_float x \<Longrightarrow> \<bar>x\<bar> < 2 ^ 128 \<Longrightarrow> f32 x = Fin x"
  using f32_between [of x x x] by (auto simp: abs_less_iff)

lemma f64_exact: "is_float x \<Longrightarrow> \<bar>x\<bar> < 2 ^ 128 \<Longrightarrow> f64 x = Fin x"
  using f64_between [of x x x] by (auto simp: abs_less_iff)

lemma f32_dyadic:
  assumes "x = of_int m * 2 powi k" "\<bar>m\<bar> \<le> 2 ^ 24" "- 149 \<le> k" "\<bar>x\<bar> < 2 ^ 128"
  shows "f32 x = Fin x"
  using assms by (intro f32_exact) (auto simp: is_float_def representable_def)

lemma f_of_int:
  assumes "\<bar>m\<bar> \<le> 2 ^ 24"
  shows "f32 (of_int m) = Fin (of_int m)" "f64 (of_int m) = Fin (of_int m)"
proof -
  have "\<bar>of_int m :: rat\<bar> \<le> of_int (2 ^ 24)" unfolding of_int_abs [symmetric] of_int_le_iff by (rule assms)
  also have "\<dots> < 2 ^ 128" by simp
  finally have "\<bar>of_int m :: rat\<bar> < 2 ^ 128" .
  then show "f32 (of_int m) = Fin (of_int m)" "f64 (of_int m) = Fin (of_int m)"
    using is_float_of_int [OF assms] f32_exact f64_exact by blast+
qed

lemma f_numeral:
  assumes "(numeral n :: int) \<le> 2 ^ 24"
  shows "f32 (numeral n) = Fin (numeral n)" "f64 (numeral n) = Fin (numeral n)"
    "f32 (- numeral n) = Fin (- numeral n)" "f64 (- numeral n) = Fin (- numeral n)"
proof -
  have m: "\<bar>numeral n :: int\<bar> \<le> 2 ^ 24" "\<bar>- numeral n :: int\<bar> \<le> 2 ^ 24" using assms by simp_all
  show "f32 (numeral n) = Fin (numeral n)" "f64 (numeral n) = Fin (numeral n)"
    "f32 (- numeral n) = Fin (- numeral n)" "f64 (- numeral n) = Fin (- numeral n)"
    using f_of_int [OF m(1)] f_of_int [OF m(2)] unfolding of_int_minus of_int_numeral by blast+
qed

lemma f_small [simp]: "f32 0 = Fin 0" "f64 0 = Fin 0" "f32 1 = Fin 1" "f64 1 = Fin 1"
  using f_of_int [of 0] f_of_int [of 1] unfolding of_int_0 of_int_1 by simp_all

end
