(* ===== verification/Distances.thy ===== *)
theory Distances
  imports Layer_Db
begin

text \<open>
  Distances between positions (\<open>utils.c\<close>). Every operation is computed in the format that C gives it: float when both
  operands are floats, double as soon as one is a double, with the conversions written out. The
  functions of libm are a parameter, since their results are not fixed by the C standard; what a
  lemma needs of them is stated with it.
\<close>

section \<open>Operations\<close>

record libm =
  sqrtf :: "dimension \<Rightarrow> dimension"
  cosf :: "dimension \<Rightarrow> dimension"
  sinf :: "dimension \<Rightarrow> dimension"
  acosf :: "dimension \<Rightarrow> dimension"
  atan2f :: "dimension \<Rightarrow> dimension \<Rightarrow> dimension"
  sqrt_d :: "dimension \<Rightarrow> dimension"
  cos_d :: "dimension \<Rightarrow> dimension"
  sin_d :: "dimension \<Rightarrow> dimension"
  tan_d :: "dimension \<Rightarrow> dimension"
  atan_d :: "dimension \<Rightarrow> dimension"
  atan2_d :: "dimension \<Rightarrow> dimension \<Rightarrow> dimension"

text \<open>The operations on floats and on doubles.\<close>

abbreviation addf :: "dimension \<Rightarrow> dimension \<Rightarrow> dimension" where "addf \<equiv> fadd f32"
abbreviation subf :: "dimension \<Rightarrow> dimension \<Rightarrow> dimension" where "subf \<equiv> fsub f32"
abbreviation mulf :: "dimension \<Rightarrow> dimension \<Rightarrow> dimension" where "mulf \<equiv> fmul f32"
abbreviation divf :: "dimension \<Rightarrow> dimension \<Rightarrow> dimension" where "divf \<equiv> fdiv f32"
abbreviation addd :: "dimension \<Rightarrow> dimension \<Rightarrow> dimension" where "addd \<equiv> fadd f64"
abbreviation subd :: "dimension \<Rightarrow> dimension \<Rightarrow> dimension" where "subd \<equiv> fsub f64"
abbreviation muld :: "dimension \<Rightarrow> dimension \<Rightarrow> dimension" where "muld \<equiv> fmul f64"
abbreviation divd :: "dimension \<Rightarrow> dimension \<Rightarrow> dimension" where "divd \<equiv> fdiv f64"

text \<open>M_PI is the double next to pi.\<close>

definition M_PI :: dimension where
  "M_PI = Fin (884279719003555 / 281474976710656)"

definition EARTH_CIRCUMFERENCE :: dimension where
  "EARTH_CIRCUMFERENCE = mulf (Fin 40000) (Fin 1000)"

definition EARTH_RADIUS :: dimension where
  "EARTH_RADIUS = mulf (Fin 6371) (Fin 1000)"

definition DEG_AVG_DISTANCE :: dimension where
  "DEG_AVG_DISTANCE = divf EARTH_CIRCUMFERENCE (Fin 360)"

definition DEG_TO_RAD :: "dimension \<Rightarrow> dimension" where
  "DEG_TO_RAD x = divd (muld x M_PI) (Fin 180)"

definition sin_projection :: "libm \<Rightarrow> position2d \<Rightarrow> position2d" where
  "sin_projection lib p =
     \<lparr>latitude = mulf (latitude p) (cosf lib (to_float (DEG_TO_RAD (longitude p)))), longitude = longitude p\<rparr>"

definition flat_projection :: "libm \<Rightarrow> position2d \<Rightarrow> position2d" where
  "flat_projection lib p =
     \<lparr>latitude = divf (latitude p) (cosf lib (to_float (DEG_TO_RAD (longitude p)))), longitude = longitude p\<rparr>"

definition geoidal_distance_to_meters :: "dimension \<Rightarrow> dimension" where
  "geoidal_distance_to_meters d = mulf d (to_float (divd EARTH_CIRCUMFERENCE (Fin 360)))"

definition meters_to_geoidal_distance :: "dimension \<Rightarrow> dimension" where
  "meters_to_geoidal_distance d = divf d (to_float (divd EARTH_CIRCUMFERENCE (Fin 360)))"

definition unwrapped :: "dimension \<Rightarrow> dimension \<Rightarrow> dimension \<Rightarrow> dimension" where
  "unwrapped d edge_0 edge_1 = (if flt edge_1 d then addf (subf d edge_1) edge_0 else d)"

definition compute_square_distance :: "pan_db \<Rightarrow> position2d \<Rightarrow> position2d \<Rightarrow> dimension option" where
  "compute_square_distance db p1 p2 =
     (let d_latitude = subf (latitude p2) (latitude p1);
          d_longitude = subf (longitude p2) (longitude p1)
      in if db_layer_type db \<noteq> LAYER_TYPE_FLAT then
           do {
             c_assert (db_layer_type db = LAYER_TYPE_FLATWRAP);
             (let d_lat = unwrapped d_latitude (latitude (edge0 (qbounds db))) (latitude (edge1 (qbounds db)));
                  d_lon = unwrapped d_longitude (longitude (edge0 (qbounds db))) (longitude (edge1 (qbounds db)))
              in Some (addf (mulf d_lat d_lat) (mulf d_lon d_lon)))
           }
         else Some (addf (mulf d_latitude d_latitude) (mulf d_longitude d_longitude)))"

definition distance_between_flat_positions :: "libm \<Rightarrow> pan_db \<Rightarrow> position2d \<Rightarrow> position2d \<Rightarrow> dimension option" where
  "distance_between_flat_positions lib db p1 p2 =
     do {
       c_assert (db_layer_type db = LAYER_TYPE_FLAT \<or> db_layer_type db = LAYER_TYPE_FLATWRAP);
       d \<leftarrow> compute_square_distance db p1 p2;
       Some (sqrtf lib d)
     }"

definition hs_distance_between_geoidal_positions :: "libm \<Rightarrow> position2d \<Rightarrow> position2d \<Rightarrow> dimension" where
  "hs_distance_between_geoidal_positions lib p1 p2 =
     (let lat1 = to_float (DEG_TO_RAD (latitude p1));
          lon1 = to_float (DEG_TO_RAD (longitude p1));
          lat2 = to_float (DEG_TO_RAD (latitude p2));
          lon2 = to_float (DEG_TO_RAD (longitude p2));
          dlat = subf lat2 lat1;
          dlon = subf lon2 lon1;
          sin_dlath = sinf lib (divf dlat (Fin 2));
          sin_dlat2 = mulf sin_dlath sin_dlath;
          sin_dlonh = sinf lib (divf dlon (Fin 2));
          sin_dlon2 = mulf sin_dlonh sin_dlonh;
          a = addf sin_dlat2 (mulf (mulf (cosf lib lat1) (cosf lib lat2)) sin_dlon2);
          c = mulf (Fin 2) (atan2f lib (sqrtf lib a) (sqrtf lib (subf (Fin 1) a)))
      in mulf EARTH_RADIUS c)"

definition fast_distance_between_geoidal_positions :: "libm \<Rightarrow> position2d \<Rightarrow> position2d \<Rightarrow> dimension" where
  "fast_distance_between_geoidal_positions lib p1 p2 =
     (let k = cosf lib (to_float (DEG_TO_RAD (latitude p1)));
          dx = mulf k (subf (longitude p1) (longitude p2));
          dy = subf (latitude p1) (latitude p2)
      in mulf DEG_AVG_DISTANCE (sqrtf lib (addf (mulf dx dx) (mulf dy dy))))"

text \<open>fabs computes in double.\<close>

definition rhomboid_distance_between_geoidal_positions :: "libm \<Rightarrow> position2d \<Rightarrow> position2d \<Rightarrow> dimension" where
  "rhomboid_distance_between_geoidal_positions lib p1 p2 =
     (let k = cosf lib (to_float (DEG_TO_RAD (latitude p1)));
          dx = mulf k (subf (longitude p1) (longitude p2));
          dy = subf (latitude p1) (latitude p2)
      in to_float (muld DEG_AVG_DISTANCE (addd (fabs dx) (fabs dy))))"

text \<open>FLT_EPSILON is 2 to the -23.\<close>

definition gc_distance_between_geoidal_positions :: "libm \<Rightarrow> position2d \<Rightarrow> position2d \<Rightarrow> dimension" where
  "gc_distance_between_geoidal_positions lib p1 p2 =
     (let a = to_float (DEG_TO_RAD (latitude p1));
          b = to_float (DEG_TO_RAD (latitude p2));
          x = to_float (DEG_TO_RAD (fneg (longitude p1)));
          y = to_float (DEG_TO_RAD (fneg (longitude p2)));
          cosa = addf (mulf (sinf lib a) (sinf lib b)) (mulf (mulf (cosf lib a) (cosf lib b)) (cosf lib (subf x y)))
      in if flt (Fin 1) cosa then Fin 0
         else
           (let d = mulf (if flt cosa (subf (Fin 1) (Fin (1 / 2 ^ 23))) then acosf lib cosa else Fin 0) EARTH_RADIUS
            in if flt d (Fin 10) then fast_distance_between_geoidal_positions lib p1 p2 else d))"

text \<open>
  The iteration of Vincenty's formula, with at most n rounds. It gives None when the points coincide, otherwise the value of
  iterLimit at its end and the variables the rest of the function uses.
\<close>

record vincenty =
  iterLimit :: nat
  sinSigma :: dimension
  cosSigma :: dimension
  cosSqAlpha :: dimension
  cos2SigmaM :: dimension
  sigma :: dimension

definition VINCENTY_F :: dimension where
  "VINCENTY_F = divd (Fin 1) (f64 (298257223563 / 10 ^ 9))"

definition vincenty_round ::
  "libm \<Rightarrow> dimension \<Rightarrow> dimension \<Rightarrow> dimension \<Rightarrow> dimension \<Rightarrow> dimension \<Rightarrow> dimension \<Rightarrow> (vincenty \<times> dimension) option" where
  "vincenty_round lib L sinU1 cosU1 sinU2 cosU2 lambda =
     (let sinLambda = sin_d lib lambda;
          cosLambda = cos_d lib lambda;
          x = muld cosU2 sinLambda;
          y = subd (muld cosU1 sinU2) (muld (muld sinU1 cosU2) cosLambda);
          sinS = sqrt_d lib (addd (muld x x) (muld y y))
      in if feq sinS (Fin 0) then None
         else
           (let cosS = addd (muld sinU1 sinU2) (muld (muld cosU1 cosU2) cosLambda);
                sig = atan2_d lib sinS cosS;
                sinAlpha = divd (muld (muld cosU1 cosU2) sinLambda) sinS;
                cosSqA = subd (Fin 1) (muld sinAlpha sinAlpha);
                cos2 = subd cosS (divd (muld (muld (Fin 2) sinU1) sinU2) cosSqA);
                cos2S = (if cos2 = NaN then Fin 0 else cos2);
                C = muld (muld (divd VINCENTY_F (Fin 16)) cosSqA)
                      (addd (Fin 4) (muld VINCENTY_F (subd (Fin 4) (muld (Fin 3) cosSqA))));
                lambda' = addd L (muld (muld (muld (subd (Fin 1) C) VINCENTY_F) sinAlpha)
                  (addd sig (muld (muld C sinS)
                    (addd cos2S (muld (muld C cosS) (addd (Fin (- 1)) (muld (muld (Fin 2) cos2S) cos2S)))))))
            in Some (\<lparr>iterLimit = 0, sinSigma = sinS, cosSigma = cosS, cosSqAlpha = cosSqA, cos2SigmaM = cos2S, sigma = sig\<rparr>,
                     lambda')))"

fun vincenty_loop ::
  "libm \<Rightarrow> dimension \<Rightarrow> dimension \<Rightarrow> dimension \<Rightarrow> dimension \<Rightarrow> dimension \<Rightarrow> nat \<Rightarrow> dimension \<Rightarrow> vincenty option" where
  "vincenty_loop lib L sinU1 cosU1 sinU2 cosU2 n lambda =
     (case vincenty_round lib L sinU1 cosU1 sinU2 cosU2 lambda of
        None \<Rightarrow> None
      | Some (v, lambda') \<Rightarrow>
          (if flt (f64 (1 / 10 ^ 12)) (fabs (subd lambda' lambda)) then
             (if n - 1 > 0 then vincenty_loop lib L sinU1 cosU1 sinU2 cosU2 (n - 1) lambda'
              else Some (v\<lparr>iterLimit := 0\<rparr>))
           else Some (v\<lparr>iterLimit := n\<rparr>)))"

declare vincenty_loop.simps [simp del]

definition vincenty_end :: "vincenty \<Rightarrow> dimension" where
  "vincenty_end v =
     (let a = Fin 6378137;
          b = f64 (63567523142 / 10 ^ 4);
          uSq = divd (muld (cosSqAlpha v) (subd (muld a a) (muld b b))) (muld b b);
          A = addd (Fin 1) (muld (divd uSq (Fin 16384))
                (addd (Fin 4096) (muld uSq (addd (Fin (- 768)) (muld uSq (subd (Fin 320) (muld (Fin 175) uSq)))))));
          B = muld (divd uSq (Fin 1024))
                (addd (Fin 256) (muld uSq (addd (Fin (- 128)) (muld uSq (subd (Fin 74) (muld (Fin 47) uSq))))));
          cos2 = cos2SigmaM v;
          deltaSigma = muld (muld B (sinSigma v))
            (addd cos2 (muld (divd B (Fin 4))
              (subd (muld (cosSigma v) (addd (Fin (- 1)) (muld (muld (Fin 2) cos2) cos2)))
                (muld (muld (muld (divd B (Fin 6)) cos2)
                  (addd (Fin (- 3)) (muld (muld (Fin 4) (sinSigma v)) (sinSigma v))))
                  (addd (Fin (- 3)) (muld (muld (Fin 4) cos2) cos2))))))
      in to_float (muld (muld b A) (subd (sigma v) deltaSigma)))"

definition vincenty_distance_between_geoidal_positions :: "libm \<Rightarrow> position2d \<Rightarrow> position2d \<Rightarrow> dimension" where
  "vincenty_distance_between_geoidal_positions lib p1 p2 =
     (let L = DEG_TO_RAD (subf (longitude p2) (longitude p1));
          U1 = atan_d lib (muld (subd (Fin 1) VINCENTY_F) (tan_d lib (DEG_TO_RAD (latitude p1))));
          U2 = atan_d lib (muld (subd (Fin 1) VINCENTY_F) (tan_d lib (DEG_TO_RAD (latitude p2))))
      in case vincenty_loop lib L (sin_d lib U1) (cos_d lib U1) (sin_d lib U2) (cos_d lib U2) 100 L of
           None \<Rightarrow> Fin 0
         | Some v \<Rightarrow>
             (if iterLimit v = 0 then hs_distance_between_geoidal_positions lib p1 p2 else vincenty_end v))"

text \<open>As written: the second assignment to edge0.latitude.\<close>

definition untangle_rect :: "rectangle2d \<Rightarrow> rectangle2d" where
  "untangle_rect r =
     (let r1 = (if flt (latitude (edge1 r)) (latitude (edge0 r))
                then (let tmp = latitude (edge0 r);
                          r' = r\<lparr>edge0 := (edge0 r)\<lparr>latitude := latitude (edge1 r)\<rparr>\<rparr>
                      in r'\<lparr>edge0 := (edge0 r')\<lparr>latitude := tmp\<rparr>\<rparr>)
                else r)
      in if flt (longitude (edge1 r1)) (longitude (edge0 r1))
         then (let tmp = longitude (edge0 r1);
                   r' = r1\<lparr>edge0 := (edge0 r1)\<lparr>longitude := longitude (edge1 r1)\<rparr>\<rparr>
               in r'\<lparr>edge1 := (edge1 r')\<lparr>longitude := tmp\<rparr>\<rparr>)
         else r1)"

text \<open>The distance that find_near compares with the radius, by the type and the accuracy of the layer.\<close>

definition layer_distance :: "libm \<Rightarrow> pan_db \<Rightarrow> position2d \<Rightarrow> position2d \<Rightarrow> dimension option" where
  "layer_distance lib db p q =
     (if db_layer_type db = LAYER_TYPE_SPHERICAL \<or> db_layer_type db = LAYER_TYPE_ELLIPSOIDAL then
        (case db_accuracy db of
           ACCURACY_VINCENTY \<Rightarrow> Some (vincenty_distance_between_geoidal_positions lib p q)
         | ACCURACY_HS \<Rightarrow> Some (hs_distance_between_geoidal_positions lib p q)
         | ACCURACY_GC \<Rightarrow> Some (gc_distance_between_geoidal_positions lib p q)
         | ACCURACY_FAST \<Rightarrow> Some (gc_distance_between_geoidal_positions lib p q)
         | ACCURACY_RHOMBOID \<Rightarrow> Some (rhomboid_distance_between_geoidal_positions lib p q)
         | ACCURACY_NONE \<Rightarrow> None)
      else distance_between_flat_positions lib db p q)"

end
