(* ===== verification/Index_Search.thy ===== *)
theory Index_Search
  imports Distances Layer_Properties
begin

text \<open>
  Searching the geographical index (\<open>pandb.c\<close>: find_near, find_in_rect). Both walk the quad nodes whose
  rectangle meets a zone, buckets at once and quad nodes through a stack, and hand the slots to a
  callback until it stops them or the limit is reached. The two loops of the source are the same but for
  clusters and for the function that is called on a slot, and are written once here.
\<close>

section \<open>The walk\<close>

text \<open>
  QuadNodeWithBounds has 24 bytes, so that the 4096 bytes of the stack have room for 170 of them; pushing one more
  writes past the end and fails the assertion of push_pnt_stack (theory Pnt_Stack). The top comes first.
\<close>

type_synonym quad_stack = "(node \<times> rectangle2d) list"

definition SEARCH_STACK_ROOM :: nat where
  "SEARCH_STACK_ROOM = 170"

definition push_quad :: "node \<times> rectangle2d \<Rightarrow> quad_stack \<Rightarrow> quad_stack option" where
  "push_quad qnb stack_inspect =
     do { c_assert (length stack_inspect < SEARCH_STACK_ROOM); Some (qnb # stack_inspect) }"

text \<open>
  The do loop over the children of a quad node, from child t on. \<open>clustered\<close> tells of a quad node, by its counter and
  its rectangle, whether it is reported as a cluster, which \<open>on_cluster\<close> does; find_near has none.
\<close>

fun scan_children ::
  "(nat \<Rightarrow> rectangle2d \<Rightarrow> bool) \<Rightarrow> (nat \<Rightarrow> rectangle2d \<Rightarrow> 'x \<Rightarrow> (int \<times> 'x) option) \<Rightarrow>
   ('x \<Rightarrow> slab_entry \<Rightarrow> slot \<Rightarrow> (int \<times> 'x) option) \<Rightarrow> rectangle2d \<Rightarrow> (nat \<Rightarrow> node) \<Rightarrow> rectangle2d list \<Rightarrow> nat list \<Rightarrow>
   quad_stack \<Rightarrow> 'x \<Rightarrow> (int \<times> quad_stack \<times> 'x) option" where
  "scan_children clustered on_cluster visit matching_rect nodes rects [] stack_inspect c = Some (0, stack_inspect, c)"
| "scan_children clustered on_cluster visit matching_rect nodes rects (t # ts) stack_inspect c =
     (if \<not> rectangle2d_intersect (rects ! t) matching_rect
      then scan_children clustered on_cluster visit matching_rect nodes rects ts stack_inspect c
      else
        (case nodes t of
           Quad_Node sub_slots children \<Rightarrow>
             (if clustered sub_slots (rects ! t) then
                do {
                  (ret, c') \<leftarrow> on_cluster sub_slots (rects ! t) c;
                  (if ret \<noteq> 0 then Some (ret, stack_inspect, c')
                   else scan_children clustered on_cluster visit matching_rect nodes rects ts stack_inspect c')
                }
              else
                do {
                  stack_inspect' \<leftarrow> push_quad (nodes t, rects ! t) stack_inspect;
                  scan_children clustered on_cluster visit matching_rect nodes rects ts stack_inspect' c
                })
         | Bucket_Node b \<Rightarrow>
             do {
               (ret, c') \<leftarrow> slab_foreach visit (bslab b) c;
               (if ret \<noteq> 0 then Some (ret, stack_inspect, c')
                else scan_children clustered on_cluster visit matching_rect nodes rects ts stack_inspect c')
             }))"

partial_function (option) search_loop ::
  "('x \<Rightarrow> nat \<Rightarrow> rectangle2d \<Rightarrow> bool) \<Rightarrow> (nat \<Rightarrow> rectangle2d \<Rightarrow> 'x \<Rightarrow> (int \<times> 'x) option) \<Rightarrow>
   ('x \<Rightarrow> slab_entry \<Rightarrow> slot \<Rightarrow> (int \<times> 'x) option) \<Rightarrow> rectangle2d \<Rightarrow> node \<Rightarrow> rectangle2d \<Rightarrow> quad_stack \<Rightarrow> 'x \<Rightarrow>
   (int \<times> 'x) option" where
  "search_loop clustered on_cluster visit matching_rect scanned_node scanned_qbounds stack_inspect c =
     (case scanned_node of
        Bucket_Node b \<Rightarrow> None
      | Quad_Node sub_slots nodes \<Rightarrow>
          do {
            (ret, stack_inspect', c') \<leftarrow> scan_children (clustered c) on_cluster visit matching_rect nodes
              (get_qrects_from_qbounds scanned_qbounds) [0..<4] stack_inspect c;
            (if ret \<noteq> 0 then Some (ret, c')
             else
               (case stack_inspect' of
                  [] \<Rightarrow> Some (0, c')
                | (sqn, qrect) # rest \<Rightarrow> search_loop clustered on_cluster visit matching_rect sqn qrect rest c'))
          })"

section \<open>Near a position\<close>

type_synonym 'c slot_cb = "'c \<Rightarrow> slot \<Rightarrow> dimension \<Rightarrow> (int \<times> 'c) option"

text \<open>The context is that of the callback and the limit. The callbacks that the handlers pass are never NULL.\<close>

definition find_near_context_cb ::
  "libm \<Rightarrow> pan_db \<Rightarrow> position2d \<Rightarrow> dimension \<Rightarrow> 'c slot_cb \<Rightarrow> 'c \<times> nat \<Rightarrow> slab_entry \<Rightarrow> slot \<Rightarrow> (int \<times> 'c \<times> nat) option" where
  "find_near_context_cb lib db p distance cb ctx a scanned_slot =
     (case ctx of (c, limit) \<Rightarrow>
        do {
          cd \<leftarrow> layer_distance lib db p (position scanned_slot);
          (if fle cd distance \<and> slot_key_node scanned_slot \<noteq> None then
             do {
               (ret, c') \<leftarrow> cb c scanned_slot cd;
               (if ret \<noteq> 0 then Some (ret, c', limit)
                else if limit \<le> 1 then Some (1, c', limit - 1)
                else Some (0, c', limit - 1))
             }
           else Some (0, c, limit))
        })"

definition find_near_in_zone ::
  "libm \<Rightarrow> pan_db \<Rightarrow> 'c slot_cb \<Rightarrow> position2d \<Rightarrow> dimension \<Rightarrow> nat \<Rightarrow> rectangle2d \<Rightarrow> 'c \<Rightarrow> (int \<times> 'c) option" where
  "find_near_in_zone lib db cb p distance limit matching_rect c =
     do {
       (ret, c', _) \<leftarrow> search_loop (\<lambda>_ _ _. False) (\<lambda>_ _ ctx. Some (0, ctx)) (find_near_context_cb lib db p distance cb)
         matching_rect (db_root db) (qbounds db) [] (c, limit);
       Some (ret, c')
     }"

text \<open>do ... while (ret == 0 && --nb_zones > 0). Each zone starts with an empty stack and the whole limit.\<close>

fun search_zones :: "(rectangle2d \<Rightarrow> 'c \<Rightarrow> (int \<times> 'c) option) \<Rightarrow> rectangle2d list \<Rightarrow> 'c \<Rightarrow> (int \<times> 'c) option" where
  "search_zones f [] c = Some (0, c)"
| "search_zones f (z # zs) c =
     do {
       (ret, c') \<leftarrow> f z c;
       (if ret = 0 then search_zones f zs c' else Some (ret, c'))
     }"

definition near_rect :: "libm \<Rightarrow> position2d \<Rightarrow> dimension \<Rightarrow> rectangle2d" where
  "near_rect lib p distance =
     (let dlat = divf distance DEG_AVG_DISTANCE;
          dlon = to_float (divd distance (fabs (mulf (cosf lib (to_float (DEG_TO_RAD (latitude p)))) DEG_AVG_DISTANCE)))
      in rect (pos (subf (latitude p) dlat) (subf (longitude p) dlon)) (pos (addf (latitude p) dlat) (addf (longitude p) dlon)))"

definition near_zones :: "libm \<Rightarrow> pan_db \<Rightarrow> position2d \<Rightarrow> dimension \<Rightarrow> rectangle2d list" where
  "near_zones lib db p distance =
     (if db_layer_type db = LAYER_TYPE_FLAT then [near_rect lib p distance]
      else find_zones (qbounds db) (near_rect lib p distance))"

definition find_near ::
  "libm \<Rightarrow> bool \<Rightarrow> pan_db \<Rightarrow> 'c slot_cb \<Rightarrow> position2d \<Rightarrow> dimension \<Rightarrow> nat \<Rightarrow> 'c \<Rightarrow> (int \<times> 'c) option" where
  "find_near lib stack_mem db cb p distance limit c =
     (if limit = 0 then Some (0, c)
      else
        (let zones = near_zones lib db p distance
         in do {
              c_assert (length zones \<ge> 1 \<and> length zones \<le> 4);
              (if \<not> stack_mem then Some (- 1, c)
               else search_zones (find_near_in_zone lib db cb p distance limit) zones c)
            }))"

section \<open>In a rectangle\<close>

definition rect_distance :: "libm \<Rightarrow> pan_db \<Rightarrow> position2d \<Rightarrow> position2d \<Rightarrow> dimension option" where
  "rect_distance lib db p q =
     (if db_layer_type db = LAYER_TYPE_SPHERICAL \<or> db_layer_type db = LAYER_TYPE_ELLIPSOIDAL
      then Some (rhomboid_distance_between_geoidal_positions lib p q)
      else distance_between_flat_positions lib db p q)"

definition find_in_rect_context_cb ::
  "libm \<Rightarrow> pan_db \<Rightarrow> position2d \<Rightarrow> rectangle2d \<Rightarrow> 'c slot_cb \<Rightarrow> 'c \<times> nat \<Rightarrow> slab_entry \<Rightarrow> slot \<Rightarrow> (int \<times> 'c \<times> nat) option" where
  "find_in_rect_context_cb lib db p r cb ctx a scanned_slot =
     (case ctx of (c, limit) \<Rightarrow>
        (if \<not> position_is_in_rect (position scanned_slot) r then Some (0, c, limit)
         else
           do {
             cd \<leftarrow> rect_distance lib db p (position scanned_slot);
             (if slot_key_node scanned_slot = None then Some (0, c, limit)
              else if limit = 0 then Some (1, c, limit)
              else do { (ret, c') \<leftarrow> cb c scanned_slot cd; Some (ret, c', limit - 1) })
           }))"

type_synonym 'c cluster_cb = "'c \<Rightarrow> position2d \<Rightarrow> dimension \<Rightarrow> nat \<Rightarrow> (int \<times> 'c) option"

definition cluster_center :: "rectangle2d \<Rightarrow> position2d" where
  "cluster_center r =
     pos (to_float (divd (addf (latitude (edge1 r)) (latitude (edge0 r))) (Fin 2)))
         (to_float (divd (addf (longitude (edge1 r)) (longitude (edge0 r))) (Fin 2)))"

text \<open>The number of children is an unsigned int.\<close>

definition find_in_rect_cluster_context_cb ::
  "pan_db \<Rightarrow> 'c cluster_cb \<Rightarrow> nat \<Rightarrow> rectangle2d \<Rightarrow> 'c \<times> nat \<Rightarrow> (int \<times> 'c \<times> nat) option" where
  "find_in_rect_cluster_context_cb db cluster_cb sub_slots r ctx =
     (case ctx of (c, limit) \<Rightarrow>
        (let center = cluster_center r
         in if \<not> position_is_in_rect center r then Some (0, c, limit)
            else
              (let distance = to_float (divd (addf (fabs (subf (latitude center) (latitude (edge0 r))))
                                (fabs (subf (longitude center) (longitude (edge0 r))))) (Fin 2));
                   radius = (if db_layer_type db = LAYER_TYPE_SPHERICAL \<or> db_layer_type db = LAYER_TYPE_ELLIPSOIDAL
                             then geoidal_distance_to_meters distance else distance)
               in do {
                    (ret, c') \<leftarrow> cluster_cb c center radius (sub_slots mod 2 ^ 32);
                    (if ret \<noteq> 0 then Some (ret, c', limit)
                     else if limit \<le> 1 then Some (1, c', limit - 1)
                     else Some (0, c', limit - 1))
                  })))"

definition is_cluster :: "dimension \<Rightarrow> 'c \<times> nat \<Rightarrow> nat \<Rightarrow> rectangle2d \<Rightarrow> bool" where
  "is_cluster epsilon ctx sub_slots r =
     (flt (Fin 0) epsilon \<and> sub_slots > snd ctx div 4 \<and>
      flt (fabs (subf (latitude (edge1 r)) (latitude (edge0 r)))) epsilon \<and>
      flt (fabs (subf (longitude (edge1 r)) (longitude (edge0 r)))) epsilon)"

definition rect_center :: "rectangle2d \<Rightarrow> position2d" where
  "rect_center r =
     pos (divf (addf (latitude (edge1 r)) (latitude (edge0 r))) (Fin 2))
         (divf (addf (longitude (edge1 r)) (longitude (edge0 r))) (Fin 2))"

definition find_in_rect_in_zone ::
  "libm \<Rightarrow> pan_db \<Rightarrow> 'c slot_cb \<Rightarrow> 'c cluster_cb \<Rightarrow> nat \<Rightarrow> dimension \<Rightarrow> rectangle2d \<Rightarrow> 'c \<Rightarrow> (int \<times> 'c) option" where
  "find_in_rect_in_zone lib db cb cluster_cb limit epsilon matching_rect c =
     do {
       (ret, c', _) \<leftarrow> search_loop (is_cluster epsilon) (find_in_rect_cluster_context_cb db cluster_cb)
         (find_in_rect_context_cb lib db (rect_center matching_rect) matching_rect cb)
         matching_rect (db_root db) (qbounds db) [] (c, limit);
       Some (ret, c')
     }"

definition wrapped_edge :: "dimension \<Rightarrow> dimension \<Rightarrow> dimension \<Rightarrow> dimension \<Rightarrow> dimension" where
  "wrapped_edge e0 e1 q0 q1 = (if flt e1 e0 then addf e1 (subf q1 q0) else e1)"

definition rect_zones :: "pan_db \<Rightarrow> rectangle2d \<Rightarrow> rectangle2d list" where
  "rect_zones db r =
     (if db_layer_type db = LAYER_TYPE_FLAT then [r]
      else
        (let qb = qbounds db;
             orect = rect (edge0 r)
               (pos (wrapped_edge (latitude (edge0 r)) (latitude (edge1 r)) (latitude (edge0 qb)) (latitude (edge1 qb)))
                    (wrapped_edge (longitude (edge0 r)) (longitude (edge1 r)) (longitude (edge0 qb)) (longitude (edge1 qb))))
         in find_zones qb orect))"

definition find_in_rect ::
  "libm \<Rightarrow> bool \<Rightarrow> pan_db \<Rightarrow> 'c slot_cb \<Rightarrow> 'c cluster_cb \<Rightarrow> rectangle2d \<Rightarrow> nat \<Rightarrow> dimension \<Rightarrow> 'c \<Rightarrow> (int \<times> 'c) option" where
  "find_in_rect lib stack_mem db cb cluster_cb r limit epsilon c =
     (if limit = 0 then Some (0, c)
      else
        (let zones = rect_zones db r
         in do {
              c_assert (length zones \<ge> 1 \<and> length zones \<le> 4);
              (if \<not> stack_mem then Some (- 1, c)
               else search_zones (find_in_rect_in_zone lib db cb cluster_cb limit epsilon) zones c)
            }))"

end
