(* ===== verification/Search_Properties.thy ===== *)
theory Search_Properties
  imports Index_Search Dimension_Eval
begin

text \<open>
  Which records a search hands to its callback. Without clusters the loop of a search is a fold over \<open>walk\<close>, the slots of the buckets that a zone
  meets, provided the stack has room; \<open>report\<close> and \<open>report_within\<close> are what the callbacks make of it. The theorems compare
  the hits with the positions that the records of the layer have.
\<close>

section \<open>What a walk visits\<close>

primrec is_quad :: "node \<Rightarrow> bool" where
  "is_quad (Bucket_Node b) = False"
| "is_quad (Quad_Node sub_slots nodes) = True"

definition met :: "rectangle2d \<Rightarrow> (nat \<Rightarrow> node) \<Rightarrow> rectangle2d list \<Rightarrow> bool \<Rightarrow> nat list \<Rightarrow> nat list" where
  "met z nodes rects quad ts = filter (\<lambda>t. rectangle2d_intersect (rects ! t) z \<and> is_quad (nodes t) = quad) ts"

text \<open>The slots of the buckets that a zone meets: the buckets among the children, then the quad nodes from the last.\<close>

primrec walk :: "node \<Rightarrow> rectangle2d \<Rightarrow> rectangle2d \<Rightarrow> (slab_entry \<times> slot) list" where
  "walk (Bucket_Node b) = (\<lambda>z r. slab_list (bslab b))"
| "walk (Quad_Node sub_slots nodes) = (\<lambda>z r.
     concat (map (\<lambda>t. walk (nodes t) z (get_qrects_from_qbounds r ! t))
       (met z nodes (get_qrects_from_qbounds r) False [0..<4] @ rev (met z nodes (get_qrects_from_qbounds r) True [0..<4]))))"

primrec all_tidy :: "node \<Rightarrow> bool" where
  "all_tidy (Bucket_Node b) = tidy (bslab b)"
| "all_tidy (Quad_Node sub_slots nodes) = (\<forall>t < 4. all_tidy (nodes t))"

text \<open>The levels of quad nodes.\<close>

primrec qheight :: "node \<Rightarrow> nat" where
  "qheight (Bucket_Node b) = 0"
| "qheight (Quad_Node sub_slots nodes) = Suc (Max ((\<lambda>t. qheight (nodes t)) ` {..<4}))"

lemma qheight_child: "t < 4 \<Longrightarrow> qheight (nodes t) < qheight (Quad_Node sub_slots nodes)"
  by (simp add: less_Suc_eq_le)

lemma node_inv_all_tidy: "node_inv n p r \<Longrightarrow> all_tidy n"
proof (induction n arbitrary: p r)
  case (Bucket_Node b)
  then show ?case by (simp add: bucket_inv_def)
next
  case (Quad_Node sub_slots nodes)
  then show ?case by (auto intro!: Quad_Node.IH)
qed

lemma met_Nil: "met z nodes rects quad [] = []"
  by (simp add: met_def)

lemma met_Cons:
  "met z nodes rects quad (t # ts) =
     (if rectangle2d_intersect (rects ! t) z \<and> is_quad (nodes t) = quad then [t] else []) @ met z nodes rects quad ts"
  by (simp add: met_def)

lemma scan_children_law:
  assumes "\<And>t. t \<in> set ts \<Longrightarrow> all_tidy (nodes t)" "length st + length (met z nodes rects True ts) \<le> SEARCH_STACK_ROOM"
  shows "case foreach_entries visit (concat (map (\<lambda>t. walk (nodes t) z (rects ! t)) (met z nodes rects False ts))) c of
      None \<Rightarrow> scan_children (\<lambda>_ _. False) oc visit z nodes rects ts st c = None
    | Some (ret, c') \<Rightarrow> \<exists>st'. scan_children (\<lambda>_ _. False) oc visit z nodes rects ts st c = Some (ret, st', c') \<and>
        (ret = 0 \<longrightarrow> st' = rev (map (\<lambda>t. (nodes t, rects ! t)) (met z nodes rects True ts)) @ st)"
  using assms
proof (induction ts arbitrary: st c)
  case Nil
  then show ?case by (simp add: met_Nil)
next
  case (Cons t ts)
  have tidy: "\<And>u. u \<in> set ts \<Longrightarrow> all_tidy (nodes u)" using Cons.prems(1) by simp
  show ?case
  proof (cases "rectangle2d_intersect (rects ! t) z")
    case False
    then show ?thesis using Cons.IH [OF tidy] Cons.prems(2) by (simp add: met_Cons cong: option.case_cong)
  next
    case meets: True
    show ?thesis
    proof (cases "nodes t")
      case (Bucket_Node b)
      have t: "slab_foreach visit (bslab b) c = foreach_entries visit (slab_list (bslab b)) c"
        using Cons.prems(1) [of t] by (intro tidy_list) (simp add: Bucket_Node)
      have room: "length st + length (met z nodes rects True ts) \<le> SEARCH_STACK_ROOM"
        using Cons.prems(2) by (simp add: met_Cons Bucket_Node)
      show ?thesis
      proof (cases "foreach_entries visit (slab_list (bslab b)) c")
        case None
        then show ?thesis using meets by (simp add: met_Cons Bucket_Node t foreach_entries_append)
      next
        case (Some x)
        obtain ret c' where x: "x = (ret, c')" by (cases x)
        show ?thesis using Cons.IH [OF tidy room, of c'] meets Some
          by (cases "ret = 0") (simp_all add: met_Cons Bucket_Node t foreach_entries_append x cong: option.case_cong)
      qed
    next
      case (Quad_Node s ch)
      have room: "length ((nodes t, rects ! t) # st) + length (met z nodes rects True ts) \<le> SEARCH_STACK_ROOM"
        using Cons.prems(2) meets by (simp add: met_Cons Quad_Node)
      then have p: "push_quad (nodes t, rects ! t) st = Some ((nodes t, rects ! t) # st)"
        by (simp add: push_quad_def c_assert_def)
      show ?thesis using Cons.IH [OF tidy room, of c] meets p
        by (simp add: met_Cons Quad_Node cong: option.case_cong)
    qed
  qed
qed

text \<open>What follows when the children of a node have been scanned.\<close>

definition pop_search ::
  "(quad_stack \<Rightarrow> 'x \<Rightarrow> (int \<times> 'x) option) \<Rightarrow> (int \<times> 'x) option \<Rightarrow> quad_stack \<Rightarrow> (int \<times> 'x) option" where
  "pop_search next r st = (case r of None \<Rightarrow> None | Some (ret, c) \<Rightarrow> if ret \<noteq> 0 then Some (ret, c) else next st c)"

abbreviation plain_search ::
  "(nat \<Rightarrow> rectangle2d \<Rightarrow> 'x \<Rightarrow> (int \<times> 'x) option) \<Rightarrow> ('x \<Rightarrow> slab_entry \<Rightarrow> slot \<Rightarrow> (int \<times> 'x) option) \<Rightarrow> rectangle2d \<Rightarrow> node \<Rightarrow> rectangle2d \<Rightarrow> quad_stack \<Rightarrow> 'x \<Rightarrow>
   (int \<times> 'x) option" where
  "plain_search \<equiv> search_loop (\<lambda>_ _ _. False)"

definition resume ::
  "(nat \<Rightarrow> rectangle2d \<Rightarrow> 'x \<Rightarrow> (int \<times> 'x) option) \<Rightarrow> ('x \<Rightarrow> slab_entry \<Rightarrow> slot \<Rightarrow> (int \<times> 'x) option) \<Rightarrow> rectangle2d \<Rightarrow> quad_stack \<Rightarrow> 'x \<Rightarrow> (int \<times> 'x) option" where
  "resume oc visit z st c = (case st of [] \<Rightarrow> Some (0, c) | (n, r) # rest \<Rightarrow> plain_search oc visit z n r rest c)"

lemma pop_search_append:
  "pop_search next (foreach_entries visit (es @ es') c) st =
   pop_search (\<lambda>st c. pop_search next (foreach_entries visit es' c) st) (foreach_entries visit es c) st"
  by (simp add: pop_search_def foreach_entries_append split: option.splits bind_splits)

lemma pop_search_cong: "(\<And>c. f st c = g st c) \<Longrightarrow> pop_search f r st = pop_search g r st"
  by (simp add: pop_search_def split: option.split)

lemma resume_law:
  assumes "\<And>m q st c. (m, q) \<in> set qs \<Longrightarrow> length st \<le> room \<Longrightarrow>
      plain_search oc visit z m q st c = pop_search (resume oc visit z) (foreach_entries visit (walk m z q) c) st"
    and "length qs + length st \<le> Suc room"
  shows "resume oc visit z (qs @ st) c =
    pop_search (resume oc visit z) (foreach_entries visit (concat (map (\<lambda>(m, q). walk m z q) qs)) c) st"
  using assms
proof (induction qs arbitrary: c)
  case Nil
  then show ?case by (simp add: pop_search_def)
next
  case (Cons x qs)
  obtain m q where x: "x = (m, q)" by (cases x)
  have here: "plain_search oc visit z m q (qs @ st) c =
      pop_search (resume oc visit z) (foreach_entries visit (walk m z q) c) (qs @ st)"
    using Cons.prems by (simp add: x)
  have more: "resume oc visit z (qs @ st) c' =
      pop_search (resume oc visit z) (foreach_entries visit (concat (map (\<lambda>(m, q). walk m z q) qs)) c') st" for c'
    using Cons.IH Cons.prems by simp
  have "resume oc visit z ((x # qs) @ st) c = plain_search oc visit z m q (qs @ st) c"
    by (simp add: resume_def x)
  also have "\<dots> = pop_search (\<lambda>st c. pop_search (resume oc visit z)
      (foreach_entries visit (concat (map (\<lambda>(m, q). walk m z q) qs)) c) st) (foreach_entries visit (walk m z q) c) st"
    unfolding here by (simp add: pop_search_def more [unfolded pop_search_def] split: option.split)
  finally show ?case by (simp add: pop_search_append x)
qed

text \<open>A stack that has room for three more quad nodes for every level does not overflow.\<close>

lemma search_loop_law:
  "is_quad n \<Longrightarrow> all_tidy n \<Longrightarrow> length st + 3 * qheight n + 1 \<le> SEARCH_STACK_ROOM \<Longrightarrow>
   plain_search oc visit z n r st c = pop_search (resume oc visit z) (foreach_entries visit (walk n z r) c) st"
proof (induction n arbitrary: r st c)
  case (Bucket_Node b)
  then show ?case by simp
next
  case (Quad_Node s nodes)
  let ?rects = "get_qrects_from_qbounds r"
  let ?quads = "met z nodes ?rects True [0..<4]"
  let ?buckets = "concat (map (\<lambda>t. walk (nodes t) z (?rects ! t)) (met z nodes ?rects False [0..<4]))"
  let ?qs = "rev (map (\<lambda>t. (nodes t, ?rects ! t)) ?quads)"
  let ?visit = "foreach_entries visit"
  have walk: "walk (Quad_Node s nodes) z r = ?buckets @ concat (map (\<lambda>(m, q). walk m z q) ?qs)"
    by (simp add: rev_map comp_def)
  have few: "length ?quads \<le> 4" unfolding met_def by (rule order_trans [OF length_filter_le]) simp
  have child: "\<And>t. t \<in> set [0..<4] \<Longrightarrow> all_tidy (nodes t)" using Quad_Node.prems(2) by simp
  have room: "length st + length ?quads \<le> SEARCH_STACK_ROOM"
    using few Quad_Node.prems(3) by simp
  have after: "resume oc visit z (?qs @ st) c' =
      pop_search (resume oc visit z) (?visit (concat (map (\<lambda>(m, q). walk m z q) ?qs)) c') st" for c'
  proof (rule resume_law [where room = "length st + 3"])
    fix m q c' and st' :: quad_stack assume "(m, q) \<in> set ?qs" and len: "length st' \<le> length st + 3"
    then obtain t where t: "m = nodes t" "t < 4" "is_quad (nodes t)" by (auto simp: met_def)
    have "length st' + 3 * qheight (nodes t) + 1 \<le> SEARCH_STACK_ROOM"
      using qheight_child [OF t(2), of nodes s] len Quad_Node.prems(3) by linarith
    then show "plain_search oc visit z m q st' c' = pop_search (resume oc visit z) (?visit (walk m z q) c') st'"
      using Quad_Node.IH [of "nodes t"] t child [of t] by simp
  qed (use few in simp)
  have scan: "plain_search oc visit z (Quad_Node s nodes) r st c =
      pop_search (\<lambda>st c. resume oc visit z (?qs @ st) c) (?visit ?buckets c) st"
    using scan_children_law [OF child room, where visit = visit and oc = oc and c = c]
    by (subst search_loop.simps) (auto simp: pop_search_def resume_def split: option.splits prod.splits list.splits)
  show ?case unfolding scan walk pop_search_append by (rule pop_search_cong) (rule after)
qed

section \<open>The records that a walk visits\<close>

declare split_paired_All [simp del] split_paired_Ex [simp del]

lemma content_in_rect:
  "rect_ok r \<Longrightarrow> node_inv n p r \<Longrightarrow> content n q a = Some s \<Longrightarrow> position_is_in_rect (position s) r"
proof (induction n arbitrary: p q r)
  case (Bucket_Node b)
  then show ?case by (auto simp: bucket_inv_def split: if_splits)
next
  case (Quad_Node sub_slots nodes)
  obtain t q' where t: "t < 4" "content (nodes t) q' a = Some s" using Quad_Node.prems(3) unfolding content_Quad by blast
  have "position_is_in_rect (position s) (get_qrects_from_qbounds r ! t)"
    by (rule Quad_Node.IH [OF _ qrects_ok [OF Quad_Node.prems(1) t(1)] _ t(2), of "p @ [t]"])
      (use Quad_Node.prems(2) t(1) in simp_all)
  then show ?case by (rule quadrant_inside [OF Quad_Node.prems(1) t(1)])
qed

lemma set_walk_Quad:
  "set (walk (Quad_Node sub_slots nodes) z r) =
     (\<Union>t \<in> {t. t < 4 \<and> rectangle2d_intersect (get_qrects_from_qbounds r ! t) z}. set (walk (nodes t) z (get_qrects_from_qbounds r ! t)))"
proof -
  have "set (met z nodes rects True ts) \<union> set (met z nodes rects False ts) =
      {t \<in> set ts. rectangle2d_intersect (rects ! t) z}" for rects ts
    by (auto simp: met_def)
  then show ?thesis by (auto simp: met_def)
qed

lemma walk_sound:
  "node_inv n p r \<Longrightarrow> (a, s) \<in> set (walk n z r) \<Longrightarrow> \<exists>q. content n q a = Some s"
proof (induction n arbitrary: p r)
  case (Bucket_Node b)
  then have "slab_contents (bslab b) a = Some s"
    using tidy_list(1) [of "bslab b"] by (simp add: slab_entries_def bucket_inv_def)
  then show ?case by (intro exI [of _ "[]"]) simp
next
  case (Quad_Node sub_slots nodes)
  obtain t where t: "t < 4" "(a, s) \<in> set (walk (nodes t) z (get_qrects_from_qbounds r ! t))"
    using Quad_Node.prems(2) unfolding set_walk_Quad by blast
  have "node_inv (nodes t) (p @ [t]) (get_qrects_from_qbounds r ! t)" using Quad_Node.prems(1) t(1) by simp
  from Quad_Node.IH [OF _ this t(2)] obtain q where "content (nodes t) q a = Some s" by blast
  then have "content (Quad_Node sub_slots nodes) (t # q) a = Some s" using t(1) by simp
  then show ?case by blast
qed

lemma walk_complete:
  "rect_ok r \<Longrightarrow> node_inv n p r \<Longrightarrow> content n q a = Some s \<Longrightarrow> position_is_in_rect (position s) z \<Longrightarrow>
   (a, s) \<in> set (walk n z r)"
proof (induction n arbitrary: p q r)
  case (Bucket_Node b)
  then show ?case
    using tidy_list(1) [of "bslab b"] by (simp add: slab_entries_def bucket_inv_def split: if_splits)
next
  case (Quad_Node sub_slots nodes)
  obtain t q' where t: "t < 4" "content (nodes t) q' a = Some s" using Quad_Node.prems(3) unfolding content_Quad by blast
  let ?r = "get_qrects_from_qbounds r ! t"
  have c: "rect_ok ?r" "node_inv (nodes t) (p @ [t]) ?r"
    using qrects_ok [OF Quad_Node.prems(1) t(1)] Quad_Node.prems(2) t(1) by simp_all
  have "rectangle2d_intersect ?r z"
    by (rule intersect_if_common [OF content_in_rect [OF c t(2)] Quad_Node.prems(4)])
  moreover have "(a, s) \<in> set (walk (nodes t) z ?r)"
    by (rule Quad_Node.IH [OF _ c t(2) Quad_Node.prems(4)]) simp
  ultimately show ?case using t(1) unfolding set_walk_Quad by blast
qed

text \<open>No record is visited twice.\<close>

abbreviation entry_keys :: "(slab_entry \<times> slot) list \<Rightarrow> nat option list" where
  "entry_keys es \<equiv> map (\<lambda>(a, s). slot_key_node s) es"

lemma distinct_concat_keys:
  assumes "distinct ts" "\<And>t. t \<in> set ts \<Longrightarrow> distinct (map f (w t))"
    "\<And>t u x y. t \<in> set ts \<Longrightarrow> u \<in> set ts \<Longrightarrow> t \<noteq> u \<Longrightarrow> x \<in> set (w t) \<Longrightarrow> y \<in> set (w u) \<Longrightarrow> f x \<noteq> f y"
  shows "distinct (map f (concat (map w ts)))"
  using assms
proof (induction ts)
  case (Cons t ts)
  have "distinct (map f (concat (map w ts)))"
    by (rule Cons.IH) (use Cons.prems(1,2) in \<open>simp, simp\<close>, use Cons.prems(3) in \<open>meson list.set_intros(2)\<close>)
  moreover have "f x \<noteq> f y" if "x \<in> set (w t)" "u \<in> set ts" "y \<in> set (w u)" for x y u
    using Cons.prems(1) that by (intro Cons.prems(3) [of t u x y]) auto
  ultimately show ?case using Cons.prems(2) [of t] by fastforce
qed simp

lemma walk_keys:
  assumes "node_inv n p r" "links h p n" "(a, s) \<in> set (walk n z r)"
  shows "\<exists>k. slot_key_node s = Some k \<and> k \<in> keys n"
proof -
  obtain q where q: "content n q a = Some s" using walk_sound [OF assms(1,3)] by blast
  then obtain k where "slot_key_node s = Some k" using assms(2) unfolding links_def by blast
  then show ?thesis using content_keys [OF q] by blast
qed

lemma walk_distinct: "node_inv n p r \<Longrightarrow> links h p n \<Longrightarrow> distinct (entry_keys (walk n z r))"
proof (induction n arbitrary: p r)
  case (Bucket_Node b)
  let ?es = "slab_list (bslab b)"
  have es: "distinct (map fst ?es)" "\<And>a s. (a, s) \<in> set ?es \<longleftrightarrow> slab_contents (bslab b) a = Some s"
    using tidy_list(1) [of "bslab b"] Bucket_Node.prems(1) by (auto simp: slab_entries_def bucket_inv_def)
  have "inj_on (\<lambda>(a, s). slot_key_node s) (set ?es)"
  proof (rule inj_onI, clarify)
    fix a s c u assume m: "(a, s) \<in> set ?es" "(c, u) \<in> set ?es" "slot_key_node s = slot_key_node u"
    from m(1,2) have c: "slab_contents (bslab b) a = Some s" "slab_contents (bslab b) c = Some u" by (simp_all add: es(2))
    obtain k kn where k: "slot_key_node s = Some k" "h k = Some kn" "kn_slot kn = Some (p, a)"
      using Bucket_Node.prems(2) c(1) unfolding links_Bucket by blast
    moreover obtain k' kn' where "slot_key_node u = Some k'" "h k' = Some kn'" "kn_slot kn' = Some (p, c)"
      using Bucket_Node.prems(2) c(2) unfolding links_Bucket by blast
    ultimately have "a = c" using m(3) by simp
    then show "a = c \<and> s = u" using c by simp
  qed
  then show ?case using es(1) by (simp add: distinct_map)
next
  case (Quad_Node sub_slots nodes)
  let ?rects = "get_qrects_from_qbounds r"
  let ?ts = "met z nodes ?rects False [0..<4] @ rev (met z nodes ?rects True [0..<4])"
  have ts: "distinct ?ts" "\<And>t. t \<in> set ?ts \<Longrightarrow> t < 4" by (auto simp: met_def)
  have c: "node_inv (nodes t) (p @ [t]) (?rects ! t)" "links h (p @ [t]) (nodes t)" if "t < 4" for t
    using Quad_Node.prems that by (simp_all add: links_Quad)
  have "distinct (entry_keys (concat (map (\<lambda>t. walk (nodes t) z (?rects ! t)) ?ts)))"
  proof (rule distinct_concat_keys [OF ts(1)])
    fix t assume "t \<in> set ?ts"
    then show "distinct (entry_keys (walk (nodes t) z (?rects ! t)))"
      using Quad_Node.IH [OF _ c] ts(2) by blast
  next
    fix t u x y assume t: "t \<in> set ?ts" "u \<in> set ?ts" "t \<noteq> u"
      and m: "x \<in> set (walk (nodes t) z (?rects ! t))" "y \<in> set (walk (nodes u) z (?rects ! u))"
    obtain a s c v where x: "x = (a, s)" "y = (c, v)" by (cases x; cases y)
    obtain k where k: "slot_key_node s = Some k" "k \<in> keys (nodes t)"
      using walk_keys [OF c] m(1) ts(2) [OF t(1)] x(1) by blast
    obtain k' where k': "slot_key_node v = Some k'" "k' \<in> keys (nodes u)"
      using walk_keys [OF c] m(2) ts(2) [OF t(2)] x(2) by blast
    have "k \<notin> keys (nodes u)"
      by (rule links_disjoint [OF Quad_Node.prems(2) ts(2) [OF t(1)] ts(2) [OF t(2)] t(3) k(2)])
    then show "(case x of (a, s) \<Rightarrow> slot_key_node s) \<noteq> (case y of (a, s) \<Rightarrow> slot_key_node s)"
      using k k' x by auto
  qed
  then show ?case by simp
qed

lemma plain_search_walk:
  assumes "index_inv h n qb" "3 * qheight n + 1 \<le> SEARCH_STACK_ROOM"
  shows "plain_search oc visit z n qb [] c = foreach_entries visit (walk n z qb) c"
proof -
  have "is_quad n" "all_tidy n"
    using assms(1) node_inv_all_tidy by (auto simp: index_inv_def)
  from search_loop_law [OF this, where st = "[]" and oc = oc and visit = visit and z = z and r = qb and c = c] assms(2)
  show ?thesis by (auto simp: pop_search_def resume_def split: option.splits prod.splits)
qed

text \<open>The records among them that satisfy Q, as the index holds them.\<close>

lemma walk_records:
  fixes z :: rectangle2d
  assumes "db_inv exps db"
  defines "es \<equiv> walk (db_root db) z (qbounds db)"
  shows "distinct (entry_keys es)"
    "\<And>a s. (a, s) \<in> set es \<Longrightarrow> \<exists>k. slot_key_node s = Some k \<and> position_of db k = Some (position s)"
    "\<And>k x. position_of db k = Some x \<Longrightarrow> position_is_in_rect x z \<Longrightarrow>
      \<exists>a s. (a, s) \<in> set es \<and> slot_key_node s = Some k \<and> position s = x"
proof -
  have ix: "rect_ok (qbounds db)" "node_inv (db_root db) [] (qbounds db)" "links (nodes_of db) [] (db_root db)"
    using db_invD(4) [OF assms(1)] by (auto simp: index_inv_def)
  show "distinct (entry_keys es)" unfolding es_def by (rule walk_distinct [OF ix(2,3)])
  show "\<exists>k. slot_key_node s = Some k \<and> position_of db k = Some (position s)" if m: "(a, s) \<in> set es" for a s
  proof -
    obtain q where q: "content (db_root db) q a = Some s" using walk_sound [OF ix(2) m [unfolded es_def]] by blast
    obtain k where k: "slot_key_node s = Some k" using ix(3) q unfolding links_def by blast
    have "(k, position s) \<in> placed (db_root db)" unfolding mem_placed using q k by blast
    then show ?thesis using k position_of_placed [OF assms(1)] by blast
  qed
  show "\<exists>a s. (a, s) \<in> set es \<and> slot_key_node s = Some k \<and> position s = x"
    if k: "position_of db k = Some x" "position_is_in_rect x z" for k x
  proof -
    have "(k, x) \<in> placed (db_root db)" using k(1) position_of_placed [OF assms(1)] by blast
    then obtain q a s where s: "content (db_root db) q a = Some s" "slot_key_node s = Some k" "position s = x"
      unfolding mem_placed by blast
    have "(a, s) \<in> set es" unfolding es_def by (rule walk_complete [OF ix(1,2) s(1)]) (simp add: s(3) k(2))
    then show ?thesis using s by blast
  qed
qed

section \<open>Reports\<close>

type_synonym hits = "(slot \<times> dimension) list"

definition measured :: "(position2d \<Rightarrow> dimension option) \<Rightarrow> (slot \<Rightarrow> dimension \<Rightarrow> bool) \<Rightarrow> (slab_entry \<times> slot) list \<Rightarrow> hits" where
  "measured metric keep es =
     filter (\<lambda>(s, d). keep s d) (map (\<lambda>(a, s). (s, the (metric (position s)))) es)"

lemma measured_Cons:
  "measured metric keep ((a, s) # es) =
     (if keep s (the (metric (position s))) then [(s, the (metric (position s)))] else []) @ measured metric keep es"
  by (simp add: measured_def)

abbreviation hit_keys :: "hits \<Rightarrow> nat option list" where
  "hit_keys hs \<equiv> map (\<lambda>(s, d). slot_key_node s) hs"

text \<open>
  The records of a layer at the given distance for which Q holds, each once; those of a zone are all there.
\<close>

definition hits_of :: "pan_db \<Rightarrow> (position2d \<Rightarrow> dimension option) \<Rightarrow> (position2d \<Rightarrow> dimension \<Rightarrow> bool) \<Rightarrow> rectangle2d \<Rightarrow> hits \<Rightarrow> bool" where
  "hits_of db metric Q z hs =
     (distinct (hit_keys hs) \<and>
      (\<forall>s d. (s, d) \<in> set hs \<longrightarrow>
         Q (position s) d \<and> metric (position s) = Some d \<and>
         (\<exists>k. slot_key_node s = Some k \<and> position_of db k = Some (position s))) \<and>
      (\<forall>k x d. position_of db k = Some x \<longrightarrow> position_is_in_rect x z \<longrightarrow> metric x = Some d \<longrightarrow> Q x d \<longrightarrow>
         (\<exists>s. (s, d) \<in> set hs \<and> slot_key_node s = Some k \<and> position s = x)))"

lemma measured_hits:
  assumes "db_inv exps db" "\<And>x. metric x \<noteq> None"
  shows "hits_of db metric Q z (measured metric (\<lambda>s d. Q (position s) d) (walk (db_root db) z (qbounds db)))"
proof -
  let ?es = "walk (db_root db) z (qbounds db)"
  note w = walk_records [OF assms(1), where z = z]
  have mem: "(s, d) \<in> set (measured metric (\<lambda>s d. Q (position s) d) ?es) \<longleftrightarrow>
      (\<exists>a. (a, s) \<in> set ?es) \<and> metric (position s) = Some d \<and> Q (position s) d" for s d
    using assms(2) [of "position s"] by (force simp: measured_def image_iff)
  have "distinct (hit_keys (map (\<lambda>(a, s). (s, the (metric (position s)))) ?es))"
    using w(1) by (simp add: comp_def case_prod_unfold)
  then have "distinct (hit_keys (measured metric (\<lambda>s d. Q (position s) d) ?es))"
    unfolding measured_def by (rule distinct_map_filter)
  moreover have "\<exists>k. slot_key_node s = Some k \<and> position_of db k = Some (position s)" if "(a, s) \<in> set ?es" for a s
    by (rule w(2) [OF that])
  moreover have "\<exists>s. ((\<exists>a. (a, s) \<in> set ?es) \<and> metric (position s) = Some d \<and> Q (position s) d) \<and> slot_key_node s = Some k \<and> position s = x"
    if "position_of db k = Some x" "position_is_in_rect x z" "metric x = Some d" "Q x d" for k x d
    using w(3) [OF that(1,2)] that(3,4) by blast
  ultimately show ?thesis unfolding hits_of_def mem by blast
qed

text \<open>
  How the callbacks are called on the hits: until one returns nonzero, or the limit is reached. find_near stops with the last
  record it may report, find_in_rect only when it finds one more.
\<close>

fun report :: "'c slot_cb \<Rightarrow> nat \<Rightarrow> hits \<Rightarrow> 'c \<Rightarrow> (int \<times> 'c) option" where
  "report cb limit [] c = Some (0, c)"
| "report cb limit ((s, d) # hs) c =
     do {
       (ret, c') \<leftarrow> cb c s d;
       (if ret \<noteq> 0 then Some (ret, c') else if limit \<le> 1 then Some (1, c') else report cb (limit - 1) hs c')
     }"

fun report_within :: "'c slot_cb \<Rightarrow> nat \<Rightarrow> hits \<Rightarrow> 'c \<Rightarrow> (int \<times> 'c) option" where
  "report_within cb limit [] c = Some (0, c)"
| "report_within cb limit ((s, d) # hs) c =
     (if limit = 0 then Some (1, c)
      else
        do {
          (ret, c') \<leftarrow> cb c s d;
          (if ret \<noteq> 0 then Some (ret, c') else report_within cb (limit - 1) hs c')
        })"

abbreviation drop_limit :: "(int \<times> 'c \<times> nat) option \<Rightarrow> (int \<times> 'c) option" where
  "drop_limit \<equiv> map_option (\<lambda>(ret, c, limit). (ret, c))"

lemma drop_limit_bind: "Option.bind r (\<lambda>(ret, c, limit). Some (ret, c)) = drop_limit r"
  by (cases r) auto

lemma near_report:
  assumes "\<And>a s. (a, s) \<in> set es \<Longrightarrow> slot_key_node s \<noteq> None" "\<And>x. layer_distance lib db p x \<noteq> None"
  shows "drop_limit (foreach_entries (find_near_context_cb lib db p distance cb) es (c, limit)) =
    report cb limit (measured (layer_distance lib db p) (\<lambda>s d. fle d distance) es) c"
  using assms(1)
proof (induction es arbitrary: c limit)
  case Nil
  then show ?case by (simp add: measured_def)
next
  case (Cons e es)
  obtain a s where e: "e = (a, s)" by (cases e)
  obtain d where d: "layer_distance lib db p (position s) = Some d" using assms(2) by blast
  obtain k where k: "slot_key_node s = Some k" using Cons.prems [of a s] by (auto simp: e)
  have IH: "drop_limit (foreach_entries (find_near_context_cb lib db p distance cb) es (c', l)) =
      report cb l (measured (layer_distance lib db p) (\<lambda>s d. fle d distance) es) c'" for c' l
    by (rule Cons.IH) (use Cons.prems in \<open>meson list.set_intros(2)\<close>)
  show ?case
  proof (cases "fle d distance")
    case True
    then show ?thesis using IH
      by (cases "cb c s d") (auto simp: e d k measured_Cons find_near_context_cb_def [of lib db p distance cb "(c, limit)" a s])
  next
    case False
    then show ?thesis using IH by (simp add: e d k measured_Cons find_near_context_cb_def [of lib db p distance cb "(c, limit)" a s])
  qed
qed

lemma rect_report:
  assumes "\<And>a s. (a, s) \<in> set es \<Longrightarrow> slot_key_node s \<noteq> None" "\<And>x. rect_distance lib db p x \<noteq> None"
  shows "drop_limit (foreach_entries (find_in_rect_context_cb lib db p r cb) es (c, limit)) =
    report_within cb limit (measured (rect_distance lib db p) (\<lambda>s d. position_is_in_rect (position s) r) es) c"
  using assms(1)
proof (induction es arbitrary: c limit)
  case Nil
  then show ?case by (simp add: measured_def)
next
  case (Cons e es)
  obtain a s where e: "e = (a, s)" by (cases e)
  obtain d where d: "rect_distance lib db p (position s) = Some d" using assms(2) by blast
  obtain k where k: "slot_key_node s = Some k" using Cons.prems [of a s] by (auto simp: e)
  have IH: "drop_limit (foreach_entries (find_in_rect_context_cb lib db p r cb) es (c', l)) =
      report_within cb l (measured (rect_distance lib db p) (\<lambda>s d. position_is_in_rect (position s) r) es) c'" for c' l
    by (rule Cons.IH) (use Cons.prems in \<open>meson list.set_intros(2)\<close>)
  show ?case
  proof (cases "position_is_in_rect (position s) r")
    case True
    then show ?thesis using IH
      by (cases "cb c s d") (auto simp: e d k measured_Cons find_in_rect_context_cb_def [of lib db p r cb "(c, limit)" a s])
  next
    case False
    then show ?thesis using IH by (simp add: e d k measured_Cons find_in_rect_context_cb_def [of lib db p r cb "(c, limit)" a s])
  qed
qed

section \<open>Properties\<close>

text \<open>What a layer needs for distances: a type, and an accuracy if it is on the earth.\<close>

definition measurable :: "pan_db \<Rightarrow> bool" where
  "measurable db = (db_layer_type db \<noteq> LAYER_TYPE_NONE \<and> db_accuracy db \<noteq> ACCURACY_NONE)"

lemma measurable_distances:
  assumes "measurable db"
  shows "layer_distance lib db p x \<noteq> None" "rect_distance lib db p x \<noteq> None"
proof -
  have "distance_between_flat_positions lib db p x \<noteq> None"
    if "\<not> (db_layer_type db = LAYER_TYPE_SPHERICAL \<or> db_layer_type db = LAYER_TYPE_ELLIPSOIDAL)"
    using that assms
    by (cases "db_layer_type db") (simp_all add: measurable_def distance_between_flat_positions_def compute_square_distance_def Let_def)
  then show "layer_distance lib db p x \<noteq> None" "rect_distance lib db p x \<noteq> None"
    using assms by (cases "db_accuracy db"; simp add: layer_distance_def rect_distance_def measurable_def)+
qed

lemma search_walks:
  assumes "db_inv exps db" "qheight (db_root db) \<le> 56"
  shows "plain_search oc visit z (db_root db) (qbounds db) [] c = foreach_entries visit (walk (db_root db) z (qbounds db)) c"
    "\<And>a s. (a, s) \<in> set (walk (db_root db) z (qbounds db)) \<Longrightarrow> slot_key_node s \<noteq> None"
proof -
  show "plain_search oc visit z (db_root db) (qbounds db) [] c = foreach_entries visit (walk (db_root db) z (qbounds db)) c"
    by (rule plain_search_walk [OF db_invD(4) [OF assms(1)]]) (use assms(2) in \<open>simp add: SEARCH_STACK_ROOM_def\<close>)
  show "slot_key_node s \<noteq> None" if "(a, s) \<in> set (walk (db_root db) z (qbounds db))" for a s
    using walk_records(2) [OF assms(1) that] by auto
qed

lemma layer_zones:
  assumes "db_inv exps db"
  shows "1 \<le> length (near_zones lib db p distance) \<and> length (near_zones lib db p distance) \<le> 4"
    "1 \<le> length (rect_zones db r) \<and> length (rect_zones db r) \<le> 4 \<and> zones_disjoint (rect_zones db r)"
proof -
  have "rect_ok (qbounds db)" using db_invD(4) [OF assms] by (simp add: index_inv_def)
  then have q: "fle (latitude (edge0 (qbounds db))) (latitude (edge1 (qbounds db)))"
    "fle (longitude (edge0 (qbounds db))) (longitude (edge1 (qbounds db)))"
    unfolding rect_ok_def by (auto elim!: span_ok.elims)
  show "1 \<le> length (near_zones lib db p distance) \<and> length (near_zones lib db p distance) \<le> 4"
    by (simp add: near_zones_def find_zones_def Let_def)
  have "1 \<le> length (find_zones (qbounds db) z) \<and> length (find_zones (qbounds db) z) \<le> 4" for z
    by (simp add: find_zones_def Let_def)
  then show "1 \<le> length (rect_zones db r) \<and> length (rect_zones db r) \<le> 4 \<and> zones_disjoint (rect_zones db r)"
    using sorted_wrt_separate [OF find_zones_separate [OF q]]
    by (simp add: rect_zones_def Let_def zones_disjoint_def)
qed

text \<open>Disjoint zones have disjoint hits.\<close>

lemma disjoint_hits:
  assumes "\<And>z. hits_of db (metric z) (\<lambda>x d. position_is_in_rect x z) z (hits z)" "zones_disjoint zs"
  shows "distinct (hit_keys (concat (map hits zs)))"
proof -
  have "distinct (hit_keys (concat (map (\<lambda>i. hits (zs ! i)) [0..<length zs])))"
  proof (rule distinct_concat_keys)
    show "distinct (hit_keys (hits (zs ! i)))" for i using assms(1) [of "zs ! i"] by (simp add: hits_of_def)
  next
    fix i j x y assume ij: "i \<in> set [0..<length zs]" "j \<in> set [0..<length zs]" "i \<noteq> j"
      and m: "x \<in> set (hits (zs ! i))" "y \<in> set (hits (zs ! j))"
    obtain s d u e where x: "x = (s, d)" "y = (u, e)" by (cases x; cases y)
    obtain k where k: "slot_key_node s = Some k" "position_of db k = Some (position s)" "position_is_in_rect (position s) (zs ! i)"
      using assms(1) [of "zs ! i"] m(1) unfolding x hits_of_def by blast
    obtain l where l: "slot_key_node u = Some l" "position_of db l = Some (position u)" "position_is_in_rect (position u) (zs ! j)"
      using assms(1) [of "zs ! j"] m(2) unfolding x hits_of_def by blast
    have "k \<noteq> l"
    proof
      assume "k = l"
      then have "position s = position u" using k(2) l(2) by simp
      moreover have "i < length zs" "j < length zs" "i < j \<or> j < i" using ij by auto
      ultimately show False
        using assms(2) k(3) l(3) unfolding zones_disjoint_def by metis
    qed
    then show "(case x of (s, d) \<Rightarrow> slot_key_node s) \<noteq> (case y of (s, d) \<Rightarrow> slot_key_node s)" using k l x by simp
  qed simp
  moreover have "map (\<lambda>i. hits (zs ! i)) [0..<length zs] = map hits zs"
    by (rule nth_equalityI) simp_all
  ultimately show ?thesis by simp
qed

definition near_hits :: "libm \<Rightarrow> pan_db \<Rightarrow> position2d \<Rightarrow> dimension \<Rightarrow> rectangle2d \<Rightarrow> hits" where
  "near_hits lib db p distance z =
     measured (layer_distance lib db p) (\<lambda>s d. fle d distance) (walk (db_root db) z (qbounds db))"

lemma find_near_walks:
  assumes "db_inv exps db" "measurable db" "qheight (db_root db) \<le> 56" "limit > 0"
  shows "find_near lib True db cb p distance limit c =
      search_zones (\<lambda>z. report cb limit (near_hits lib db p distance z)) (near_zones lib db p distance) c"
proof -
  have "find_near_in_zone lib db cb p distance limit z c = report cb limit (near_hits lib db p distance z) c" for z c
    unfolding find_near_in_zone_def search_walks(1) [OF assms(1,3)] drop_limit_bind near_hits_def
    by (rule near_report) (rule search_walks(2) [OF assms(1,3)], assumption, rule measurable_distances(1) [OF assms(2)])
  then have "find_near_in_zone lib db cb p distance limit = (\<lambda>z. report cb limit (near_hits lib db p distance z))"
    by (intro ext)
  then show ?thesis
    using layer_zones(1) [OF assms(1), where lib = lib and p = p and distance = distance] assms(4)
    by (simp add: find_near_def c_assert_def)
qed

text \<open>
  Find_near calls the callback on records of the layer that are at most the distance away, with their distance, and in every
  zone on each of them once; no record within the distance that is placed in a zone is left out before the callback stops the search or the
  limit is reached. It ends, fails no assertion and does not overflow its stack if the index has at most 56 levels.
\<close>

theorem find_near_reports:
  assumes "db_inv exps db" "measurable db" "qheight (db_root db) \<le> 56" "limit > 0"
  shows "\<exists>hits. find_near lib True db cb p distance limit c =
      search_zones (\<lambda>z. report cb limit (hits z)) (near_zones lib db p distance) c \<and>
    (\<forall>z. hits_of db (layer_distance lib db p) (\<lambda>x d. fle d distance) z (hits z))"
  using find_near_walks [OF assms] measured_hits [OF assms(1) measurable_distances(1) [OF assms(2)]]
  by (intro exI [of _ "near_hits lib db p distance"] conjI allI) (auto simp: near_hits_def)

definition rect_hits :: "libm \<Rightarrow> pan_db \<Rightarrow> rectangle2d \<Rightarrow> hits" where
  "rect_hits lib db z =
     measured (rect_distance lib db (rect_center z)) (\<lambda>s d. position_is_in_rect (position s) z) (walk (db_root db) z (qbounds db))"

lemma find_in_rect_walks:
  assumes "db_inv exps db" "measurable db" "qheight (db_root db) \<le> 56" "limit > 0" "\<not> flt (Fin 0) epsilon"
  shows "find_in_rect lib True db cb cluster_cb r limit epsilon c =
      search_zones (\<lambda>z. report_within cb limit (rect_hits lib db z)) (rect_zones db r) c"
proof -
  have no: "is_cluster epsilon = (\<lambda>_ _ _. False)" using assms(5) by (simp add: is_cluster_def fun_eq_iff)
  have "find_in_rect_in_zone lib db cb cluster_cb limit epsilon z c = report_within cb limit (rect_hits lib db z) c" for z c
    unfolding find_in_rect_in_zone_def no search_walks(1) [OF assms(1,3)] drop_limit_bind rect_hits_def
    by (rule rect_report) (rule search_walks(2) [OF assms(1,3)], assumption, rule measurable_distances(2) [OF assms(2)])
  then have "find_in_rect_in_zone lib db cb cluster_cb limit epsilon = (\<lambda>z. report_within cb limit (rect_hits lib db z))"
    by (intro ext)
  then show ?thesis
    using layer_zones(2) [OF assms(1), where r = r] assms(4) by (simp add: find_in_rect_def c_assert_def)
qed

lemma rect_hits_of:
  assumes "db_inv exps db" "measurable db"
  shows "hits_of db (rect_distance lib db (rect_center z)) (\<lambda>x d. position_is_in_rect x z) z (rect_hits lib db z)"
  unfolding rect_hits_def by (rule measured_hits [OF assms(1) measurable_distances(2) [OF assms(2)]])

text \<open>
  Without clusters, find_in_rect calls the callback on exactly the records whose positions are in the zones of the
  rectangle, on each of them once in the whole search, until the callback stops it or the limit of a zone is reached.
\<close>

theorem find_in_rect_reports:
  assumes "db_inv exps db" "measurable db" "qheight (db_root db) \<le> 56" "limit > 0" "\<not> flt (Fin 0) epsilon"
  shows "\<exists>hits. find_in_rect lib True db cb cluster_cb r limit epsilon c =
      search_zones (\<lambda>z. report_within cb limit (hits z)) (rect_zones db r) c \<and>
    (\<forall>z. hits_of db (rect_distance lib db (rect_center z)) (\<lambda>x d. position_is_in_rect x z) z (hits z)) \<and>
    distinct (hit_keys (concat (map hits (rect_zones db r))))"
proof (intro exI [of _ "rect_hits lib db"] conjI allI)
  show "find_in_rect lib True db cb cluster_cb r limit epsilon c =
      search_zones (\<lambda>z. report_within cb limit (rect_hits lib db z)) (rect_zones db r) c"
    by (rule find_in_rect_walks [OF assms])
  show "hits_of db (rect_distance lib db (rect_center z)) (\<lambda>x d. position_is_in_rect x z) z (rect_hits lib db z)" for z
    by (rule rect_hits_of [OF assms(1,2)])
  show "distinct (hit_keys (concat (map (rect_hits lib db) (rect_zones db r))))"
    by (rule disjoint_hits [OF rect_hits_of [OF assms(1,2)]]) (use layer_zones(2) [OF assms(1), where r = r] in blast)
qed

text \<open>A bucket that a zone meets is searched as a whole.\<close>

definition unsplit :: "pan_db \<Rightarrow> bool" where
  "unsplit db = (\<exists>n nodes. db_root db = Quad_Node n nodes \<and> (\<forall>t < 4. \<exists>b. nodes t = Bucket_Node b))"

lemma unsplit_walk:
  assumes "db_inv exps db" "unsplit db" "position_of db k = Some x" "t < 4"
    "position_is_in_rect x (get_qrects_from_qbounds (qbounds db) ! t)"
    "rectangle2d_intersect (get_qrects_from_qbounds (qbounds db) ! t) z"
  shows "\<exists>a s. (a, s) \<in> set (walk (db_root db) z (qbounds db)) \<and> slot_key_node s = Some k \<and> position s = x"
proof -
  let ?rects = "get_qrects_from_qbounds (qbounds db)"
  obtain n nodes where root: "db_root db = Quad_Node n nodes" and b: "\<And>u. u < 4 \<Longrightarrow> \<exists>b. nodes u = Bucket_Node b"
    using assms(2) unfolding unsplit_def by blast
  have ix: "rect_ok (qbounds db)" "node_inv (db_root db) [] (qbounds db)"
    using db_invD(4) [OF assms(1)] by (auto simp: index_inv_def)
  have "(k, x) \<in> placed (db_root db)" using assms(3) position_of_placed [OF assms(1)] by blast
  then obtain q a s where s: "content (db_root db) q a = Some s" "slot_key_node s = Some k" "position s = x"
    unfolding mem_placed by blast
  obtain u q' where u: "u < 4" "content (nodes u) q' a = Some s" using s(1) unfolding root content_Quad by blast
  have inv: "node_inv (nodes u) ([] @ [u]) (?rects ! u)" using ix(2) u(1) by (simp add: root)
  have "position_is_in_rect x (?rects ! u)"
    using content_in_rect [OF qrects_ok [OF ix(1) u(1)] inv u(2)] s(3) by simp
  then have ut: "u = t" using quadrants_partition_iff [OF ix(1), of x] quadrant_inside [OF ix(1) u(1)] u(1) assms(4,5) by blast
  obtain c where c: "nodes t = Bucket_Node c" using b [OF assms(4)] by blast
  have "(a, s) \<in> set (walk (nodes t) z (?rects ! t))"
    using tidy_list(1) [of "bslab c"] inv u(2) unfolding ut c
    by (auto simp: slab_entries_def bucket_inv_def split: if_splits)
  then have "(a, s) \<in> set (walk (db_root db) z (qbounds db))"
    using assms(4,6) unfolding root set_walk_Quad by blast
  then show ?thesis using s(2,3) by blast
qed

lemma qheight_unsplit: "unsplit db \<Longrightarrow> qheight (db_root db) = 1"
proof -
  assume "unsplit db"
  then obtain n nodes where "db_root db = Quad_Node n nodes" "\<And>u. u < 4 \<Longrightarrow> \<exists>b. nodes u = Bucket_Node b"
    unfolding unsplit_def by blast
  moreover from this(2) have "qheight (nodes u) = 0" if "u < 4" for u using that by fastforce
  then have "(\<lambda>t. qheight (nodes t)) ` {..<4} = (\<lambda>_. 0) ` {..<4 :: nat}" by (intro image_cong) simp_all
  then have "(\<lambda>t. qheight (nodes t)) ` {..<4} = {0}" by (simp add: image_constant [of 0])
  ultimately show ?thesis by simp
qed

text \<open>
  C37: a search can report a record more than once. find_near does not look whether a position is in the zone, so while the root
  has not been split, a record within the distance is in the hits of every zone that meets its quadrant, and the
  zones of a large radius do.
\<close>

theorem find_near_repeats:
  assumes "db_inv exps db" "measurable db" "unsplit db" "limit > 0" "position_of db k = Some x" "t < 4"
    "position_is_in_rect x (get_qrects_from_qbounds (qbounds db) ! t)"
    "layer_distance lib db p x = Some d" "fle d distance"
  shows "\<exists>hits. find_near lib True db cb p distance limit c =
      search_zones (\<lambda>z. report cb limit (hits z)) (near_zones lib db p distance) c \<and>
    (\<forall>z. rectangle2d_intersect (get_qrects_from_qbounds (qbounds db) ! t) z \<longrightarrow>
       (\<exists>s. (s, d) \<in> set (hits z) \<and> slot_key_node s = Some k \<and> position s = x))"
proof -
  have h: "qheight (db_root db) \<le> 56" using qheight_unsplit [OF assms(3)] by simp
  have "\<exists>s. (s, d) \<in> set (near_hits lib db p distance z) \<and> slot_key_node s = Some k \<and> position s = x"
    if m: "rectangle2d_intersect (get_qrects_from_qbounds (qbounds db) ! t) z" for z
  proof -
    obtain a s where s: "(a, s) \<in> set (walk (db_root db) z (qbounds db))" "slot_key_node s = Some k" "position s = x"
      using unsplit_walk [OF assms(1,3,5,6,7) m] by blast
    then have "(s, d) \<in> set (near_hits lib db p distance z)"
      using assms(8,9) by (force simp: measured_def near_hits_def image_iff)
    then show ?thesis using s by blast
  qed
  then show ?thesis
    by (intro exI [of _ "near_hits lib db p distance"] conjI allI impI find_near_walks [OF assms(1,2) h assms(4)])
qed

section \<open>Witnesses\<close>

lemma find_quadrant_less: "find_quadrant rs p n = Some (t, r) \<Longrightarrow> t < n"
  by (induction n) (auto split: if_splits)

lemma add_keeps_unsplit:
  assumes "unsplit db" "node_inv (db_root db) [] (qbounds db)" "nslots (db_root db) < BUCKET_SIZE"
    "add_slot al True slot db = Some (0, ptr, db')"
  shows "unsplit db'"
proof -
  obtain n nodes where root: "db_root db = Quad_Node n nodes" and b: "\<And>u. u < 4 \<Longrightarrow> \<exists>b. nodes u = Bucket_Node b"
    using assms(1) unfolding unsplit_def by blast
  obtain t r ptr1 child h where f: "find_node_for_position (get_qrects_from_qbounds (qbounds db)) (position slot) = Some (t, r)"
    "add_slot_below al True (latitude_accuracy db) (longitude_accuracy db) slot (nodes t) [t] r (nodes_of db) = Some (ptr1, child, h)"
    "db_root db' = Quad_Node (n + count_new ptr1) (nodes(t := child))"
    using assms(4) by (auto simp: add_slot_def root split: bind_splits)
  have t: "t < 4" by (rule find_quadrant_less [OF f(1) [unfolded find_node_for_position_def]])
  obtain c where c: "nodes t = Bucket_Node c" using b [OF t] by blast
  have "node_inv (nodes t) ([] @ [t]) (get_qrects_from_qbounds (qbounds db) ! t)" using assms(2) t by (simp add: root)
  moreover have "busy_slots c < BUCKET_SIZE"
    using assms(2,3) child_le [of n nodes "[]" "qbounds db" t] t by (simp add: root c)
  ultimately have "bucket_inv [t] (get_qrects_from_qbounds (qbounds db) ! t) c" "busy_slots c < BUCKET_SIZE"
    by (simp_all add: c)
  then have "\<exists>c'. child = Bucket_Node c'"
    using f(2) by (auto simp: c bucket_inv_def split: bind_splits if_splits)
  then show ?thesis using b unfolding unsplit_def f(3) by auto
qed

text \<open>One record at 48.75, 2.25 in a layer that measures distances by the rhomboid formula.\<close>

lemma search_sample:
  "\<exists>db. db_inv init_slab db \<and> measurable db \<and> unsplit db \<and> position_of db 0 = Some (pos (Fin (195 / 4)) (Fin (9 / 4))) \<and>
     qbounds db = world \<and> db_layer_type db = LAYER_TYPE_ELLIPSOIDAL \<and> db_accuracy db = ACCURACY_RHOMBOID \<and>
     node_of_key (key_nodes db) = node_of_key (key_nodes sample_db) \<and> expires_of init_slab db = expires_of init_slab sample_db \<and>
     expirables db = []"
proof -
  define db where "db = sample_db\<lparr>db_accuracy := ACCURACY_RHOMBOID\<rparr>"
  have inv: "db_inv init_slab db"
    using sample_db_inv by (simp add: db_def db_inv_def base_inv_def slots_ok_def)
  have n: "nodes_of db 0 = Some (empty_key_node sample_key)" "position_is_in_rect (position sample_slot) (qbounds db)"
    using sample_node(1) sample_position by (simp_all add: db_def)
  obtain ptr db1 where a: "add_slot (free_from 0) True sample_slot db = Some (0, Some ptr, db1)" "db_inv init_slab db1"
    "position_of db1 = (position_of db)(0 \<mapsto> position sample_slot)" "same_db db db1"
    "node_of_key (key_nodes db1) = node_of_key (key_nodes db)" "expires_of init_slab db1 = expires_of init_slab db"
    "expirables db1 = expirables db"
    using add_slot_law [OF inv free_from_good n(1) sample_node(2,3) n(2), of 0] by blast
  have "unsplit db" by (simp add: unsplit_def db_def sample_db_def)
  moreover have "node_inv (db_root db) [] (qbounds db)" using db_invD(4) [OF inv] by (simp add: index_inv_def)
  moreover have "nslots (db_root db) < BUCKET_SIZE" by (simp add: db_def sample_db_def BUCKET_SIZE_def)
  ultimately have "unsplit db1" using add_keeps_unsplit a(1) by blast
  moreover have "qbounds db1 = world" "db_layer_type db1 = LAYER_TYPE_ELLIPSOIDAL" "db_accuracy db1 = ACCURACY_RHOMBOID"
    using a(4) by (simp_all add: same_db_def db_def sample_db_def)
  moreover from this have "measurable db1" by (simp add: measurable_def)
  moreover have "expires_of init_slab db = expires_of init_slab sample_db" "key_nodes db = key_nodes sample_db" "expirables db = []"
    by (simp_all add: db_def expires_of_def sample_db_def fun_eq_iff)
  ultimately show ?thesis using a(2,3,5-7) by (auto simp: sample_slot_def)
qed

text \<open>A mathematical library for the positions of the examples, on the equator, where the cosine of the latitude is 1.\<close>

definition equator_libm :: libm where
  "equator_libm =
     \<lparr>sqrtf = (\<lambda>x. x), cosf = (\<lambda>_. Fin 1), sinf = (\<lambda>_. Fin 0), acosf = (\<lambda>_. Fin 0), atan2f = (\<lambda>_ _. Fin 0),
      sqrt_d = (\<lambda>x. x), cos_d = (\<lambda>_. Fin 1), sin_d = (\<lambda>_. Fin 0), tan_d = (\<lambda>_. Fin 0), atan_d = (\<lambda>_. Fin 0),
      atan2_d = (\<lambda>_ _. Fin 0)\<rparr>"

definition far_west :: position2d where
  "far_west = pos (Fin 0) (Fin (- 100))"

lemma earth_values:
  "EARTH_CIRCUMFERENCE = Fin 40000000" "DEG_AVG_DISTANCE = Fin (7111111 / 64)"
proof -
  show e: "EARTH_CIRCUMFERENCE = Fin 40000000"
    unfolding EARTH_CIRCUMFERENCE_def fmul.simps by (rule f32_eval [where j = 2 and m = 10000000]) simp_all
  show "DEG_AVG_DISTANCE = Fin (7111111 / 64)"
    unfolding DEG_AVG_DISTANCE_def e fdiv.simps by (simp, rule f32_eval [where j = "- 7" and m = 14222222]) simp_all
qed

lemma far_west_rect:
  "near_rect equator_libm far_west (Fin 17000000) = rect (pos (Fin (- 153)) (Fin (- 253))) (pos (Fin 153) (Fin 53))"
proof -
  have f: "f32 (1088000000 / 7111111) = Fin 153"
    by (rule f32_eval [where j = "- 16" and m = "153 * 2 ^ 16"]) simp_all
  have d: "f32 (7111111 / 64) = Fin (7111111 / 64)"
    by (rule f32_eval [where j = "- 7" and m = "14222222"]) simp_all
  have g: "f64 (1088000000 / 7111111) = Fin (5383209013703937 / 35184372088832)"
    by (rule f64_eval [where j = "- 45" and m = "5383209013703937"]) simp_all
  have h: "f32 (5383209013703937 / 35184372088832) = Fin 153"
    by (rule f32_eval [where j = "- 16" and m = "153 * 2 ^ 16"]) simp_all
  have "DEG_TO_RAD (Fin 0) = Fin 0" by (simp add: DEG_TO_RAD_def M_PI_def)
  then show ?thesis
    unfolding near_rect_def far_west_def position2d.simps earth_values Let_def
    by (simp add: equator_libm_def f_numeral f d g h fsub_def)
qed

lemma far_west_zones:
  assumes "qbounds db = world" "db_layer_type db = LAYER_TYPE_ELLIPSOIDAL"
  shows "near_zones equator_libm db far_west (Fin 17000000) =
    [rect (pos (Fin (- 90)) (Fin (- 180))) (pos (Fin 90) (Fin 53)),
     rect (pos (Fin 90) (Fin (- 180))) (pos (Fin 90) (Fin 53)),
     rect (pos (Fin (- 90)) (Fin 107)) (pos (Fin 90) (Fin 180)),
     rect (pos (Fin (- 90)) (Fin (- 180))) (pos (Fin (- 90)) (Fin 53))]"
  by (simp add: near_zones_def assms far_west_rect f_numeral fsub_def world_def find_zones_def twice_def
      dimension_min_def dimension_max_def shifted_def shifted_back_def Let_def)

lemma far_west_distance:
  assumes "db_layer_type db = LAYER_TYPE_ELLIPSOIDAL" "db_accuracy db = ACCURACY_RHOMBOID"
  shows "layer_distance equator_libm db far_west (pos (Fin (195 / 4)) (Fin (9 / 4))) = Some (Fin 16777778)"
proof -
  have f: "f32 (- (195 / 4)) = Fin (- (195 / 4))" "f32 (- (409 / 4)) = Fin (- (409 / 4))"
    by (rule f32_dyadic [where m = "- 195" and k = "- 2"]; simp) (rule f32_dyadic [where m = "- 409" and k = "- 2"]; simp)
  have g: "f64 (1073777761 / 64) = Fin (1073777761 / 64)"
    by (rule f64_eval [where j = "- 28" and m = "1073777761 * 2 ^ 22"]) simp_all
  have h: "f32 (1073777761 / 64) = Fin 16777778"
    by (rule f32_eval [where j = 1 and m = 8388889]) simp_all
  have "DEG_TO_RAD (Fin 0) = Fin 0" by (simp add: DEG_TO_RAD_def M_PI_def)
  then show ?thesis
    unfolding layer_distance_def assms far_west_def rhomboid_distance_between_geoidal_positions_def earth_values Let_def
    by (simp add: equator_libm_def f_numeral f g h fsub_def)
qed

text \<open>Three of the four zones meet the quadrant of the record, and it is reported three times.\<close>

lemma world_quadrant:
  "get_qrects_from_qbounds world ! 1 = rect (pos (Fin 0) (Fin 0)) (pos (Fin 90) (Fin 180))"
  by (simp add: get_qrects_from_qbounds_def world_def median_def f_numeral Let_def)

abbreviation collect_keys :: "nat option list slot_cb" where
  "collect_keys ks s d \<equiv> Some (0, ks @ [slot_key_node s])"

theorem find_near_repeats_witness:
  "\<exists>db hits. position_of db 0 = Some (pos (Fin (195 / 4)) (Fin (9 / 4))) \<and>
     find_near equator_libm True db collect_keys far_west (Fin 17000000) 10 [] =
       search_zones (\<lambda>z. report collect_keys 10 (hits z)) (near_zones equator_libm db far_west (Fin 17000000)) [] \<and>
     Some 0 \<in> set (hit_keys (hits (near_zones equator_libm db far_west (Fin 17000000) ! 0))) \<and>
     Some 0 \<in> set (hit_keys (hits (near_zones equator_libm db far_west (Fin 17000000) ! 2)))"
proof -
  let ?p = "pos (Fin (195 / 4)) (Fin (9 / 4))"
  obtain db where db: "db_inv init_slab db" "measurable db" "unsplit db" "position_of db 0 = Some ?p"
    "qbounds db = world" "db_layer_type db = LAYER_TYPE_ELLIPSOIDAL" "db_accuracy db = ACCURACY_RHOMBOID"
    using search_sample by blast
  let ?zs = "near_zones equator_libm db far_west (Fin 17000000)"
  note quad = world_quadrant [folded db(5)]
  have "position_is_in_rect ?p (get_qrects_from_qbounds (qbounds db) ! 1)"
    unfolding quad by (simp add: position_is_in_rect_def)
  from find_near_repeats [OF db(1-3) _ db(4) _ this far_west_distance [OF db(6,7)], where limit = 10 and
      distance = "Fin 17000000" and cb = collect_keys and c = "[]"]
  obtain hits where h: "find_near equator_libm True db collect_keys far_west (Fin 17000000) 10 [] =
      search_zones (\<lambda>z. report collect_keys 10 (hits z)) ?zs []"
    "\<And>z. rectangle2d_intersect (get_qrects_from_qbounds (qbounds db) ! 1) z \<Longrightarrow>
       \<exists>s. (s, Fin 16777778) \<in> set (hits z) \<and> slot_key_node s = Some 0 \<and> position s = ?p"
    by auto
  have "rectangle2d_intersect (get_qrects_from_qbounds (qbounds db) ! 1) (?zs ! 0)"
    "rectangle2d_intersect (get_qrects_from_qbounds (qbounds db) ! 1) (?zs ! 2)"
    unfolding quad far_west_zones [OF db(5,6)] by (simp_all add: rectangle2d_intersect_def)
  then have "Some 0 \<in> set (hit_keys (hits (?zs ! 0)))" "Some 0 \<in> set (hit_keys (hits (?zs ! 2)))"
    using h(2) by (force simp: image_iff)+
  then show ?thesis using h(1) db(4) by blast
qed

theorem find_near_reports_witness:
  "\<exists>db hits s. find_near equator_libm True db collect_keys far_west (Fin 17000000) 10 [] =
       search_zones (\<lambda>z. report collect_keys 10 (hits z)) (near_zones equator_libm db far_west (Fin 17000000)) [] \<and>
     (s, Fin 16777778) \<in> set (hits (near_zones equator_libm db far_west (Fin 17000000) ! 0)) \<and> slot_key_node s = Some 0"
proof -
  let ?p = "pos (Fin (195 / 4)) (Fin (9 / 4))"
  obtain db where db: "db_inv init_slab db" "measurable db" "unsplit db" "position_of db 0 = Some ?p"
    "qbounds db = world" "db_layer_type db = LAYER_TYPE_ELLIPSOIDAL" "db_accuracy db = ACCURACY_RHOMBOID"
    using search_sample by blast
  let ?zs = "near_zones equator_libm db far_west (Fin 17000000)"
  have "qheight (db_root db) \<le> 56" using qheight_unsplit [OF db(3)] by simp
  from find_near_reports [OF db(1,2) this, where limit = 10 and cb = collect_keys and c = "[]" and lib = equator_libm and
      p = far_west and distance = "Fin 17000000"]
  obtain hits where h: "find_near equator_libm True db collect_keys far_west (Fin 17000000) 10 [] =
      search_zones (\<lambda>z. report collect_keys 10 (hits z)) ?zs []"
    "\<And>z. hits_of db (layer_distance equator_libm db far_west) (\<lambda>x d. fle d (Fin 17000000)) z (hits z)"
    by auto
  have "position_is_in_rect ?p (?zs ! 0)"
    by (simp add: far_west_zones [OF db(5,6)] position_is_in_rect_def)
  then obtain s where "(s, Fin 16777778) \<in> set (hits (?zs ! 0))" "slot_key_node s = Some 0"
    using h(2) [of "?zs ! 0"] db(4) far_west_distance [OF db(6,7)] unfolding hits_of_def by fastforce
  then show ?thesis using h(1) by blast
qed

theorem find_in_rect_reports_witness:
  "\<exists>db hits s d. find_in_rect equator_libm True db collect_keys (\<lambda>ks _ _ _. Some (0, ks))
       (rect (pos (Fin 48) (Fin 2)) (pos (Fin 49) (Fin 3))) 10 (Fin 0) [] =
       search_zones (\<lambda>z. report_within collect_keys 10 (hits z)) [rect (pos (Fin 48) (Fin 2)) (pos (Fin 49) (Fin 3))] [] \<and>
     (s, d) \<in> set (hits (rect (pos (Fin 48) (Fin 2)) (pos (Fin 49) (Fin 3)))) \<and> slot_key_node s = Some 0"
proof -
  let ?p = "pos (Fin (195 / 4)) (Fin (9 / 4))" and ?r = "rect (pos (Fin 48) (Fin 2)) (pos (Fin 49) (Fin 3))"
  obtain db where db: "db_inv init_slab db" "measurable db" "unsplit db" "position_of db 0 = Some ?p"
    "qbounds db = world" "db_layer_type db = LAYER_TYPE_ELLIPSOIDAL"
    using search_sample by blast
  have zs: "rect_zones db ?r = [?r]"
    by (simp add: rect_zones_def db(5,6) world_def find_zones_def wrapped_edge_def twice_def f_numeral
      dimension_min_def dimension_max_def Let_def)
  have "qheight (db_root db) \<le> 56" using qheight_unsplit [OF db(3)] by simp
  from find_in_rect_reports [OF db(1,2) this, where limit = 10 and cb = collect_keys and c = "[]" and lib = equator_libm and
      r = ?r and epsilon = "Fin 0" and cluster_cb = "\<lambda>ks _ _ _. Some (0, ks)"]
  obtain hits where h: "find_in_rect equator_libm True db collect_keys (\<lambda>ks _ _ _. Some (0, ks)) ?r 10 (Fin 0) [] =
      search_zones (\<lambda>z. report_within collect_keys 10 (hits z)) [?r] []"
    "\<And>z. hits_of db (rect_distance equator_libm db (rect_center z)) (\<lambda>x d. position_is_in_rect x z) z (hits z)"
    unfolding zs by auto
  have r: "position_is_in_rect ?p ?r" by (simp add: position_is_in_rect_def)
  obtain d where "rect_distance equator_libm db (rect_center ?r) ?p = Some d"
    using measurable_distances(2) [OF db(2)] by blast
  then obtain s where "(s, d) \<in> set (hits ?r)" "slot_key_node s = Some 0"
    using h(2) [of ?r] db(4) r unfolding hits_of_def by metis
  then show ?thesis using h(1) by blast
qed

end
