(* ===== verification/Cluster_Search.thy ===== *)
theory Cluster_Search
  imports Search_Properties "HOL-Library.Sublist"
begin

text \<open>
  The search in a rectangle with clusters (\<open>pandb.c\<close>: find_in_rect with a positive epsilon): a quad node whose cell is narrower than
  epsilon and that holds more than a quarter of the records that may still be listed is reported as one cluster. The loop is shown to be a
  run over events, the slots of buckets and the clusters; the rest compares the events with the records of the layer.
\<close>

section \<open>Events\<close>

type_synonym event = "(slab_entry \<times> slot) + (nat \<times> rectangle2d)"

fun run_events ::
  "('x \<Rightarrow> slab_entry \<Rightarrow> slot \<Rightarrow> (int \<times> 'x) option) \<Rightarrow> (nat \<Rightarrow> rectangle2d \<Rightarrow> 'x \<Rightarrow> (int \<times> 'x) option) \<Rightarrow> event list \<Rightarrow> 'x \<Rightarrow>
   (int \<times> 'x) option" where
  "run_events visit on_cluster [] c = Some (0, c)"
| "run_events visit on_cluster (e # es) c =
     do {
       (ret, c') \<leftarrow> (case e of Inl (a, s) \<Rightarrow> visit c a s | Inr (m, q) \<Rightarrow> on_cluster m q c);
       (if ret \<noteq> 0 then Some (ret, c') else run_events visit on_cluster es c')
     }"

lemma run_events_append:
  "run_events visit oc (es @ es') c =
     do { (ret, c') \<leftarrow> run_events visit oc es c; (if ret \<noteq> 0 then Some (ret, c') else run_events visit oc es' c') }"
proof (induction es arbitrary: c)
  case (Cons e es)
  then show ?case by (cases "case e of Inl (a, s) \<Rightarrow> visit c a s | Inr (m, q) \<Rightarrow> oc m q c") (auto split: prod.split)
qed simp

lemma run_events_slots: "run_events visit oc (map Inl es) c = foreach_entries visit es c"
proof (induction es arbitrary: c)
  case (Cons e es)
  then show ?case by (cases e; cases "visit c (fst e) (snd e)") auto
qed simp

text \<open>
  The events of a quad node: the slots of the buckets and the clusters among its children, in their order, then the events of the
  other quad nodes, from the last. K says which children are reported as clusters.
\<close>

definition scanned :: "(nat \<Rightarrow> bool) \<Rightarrow> rectangle2d \<Rightarrow> (nat \<Rightarrow> node) \<Rightarrow> rectangle2d list \<Rightarrow> nat \<Rightarrow> event list" where
  "scanned K z nodes rects t =
     (if \<not> rectangle2d_intersect (rects ! t) z then []
      else
        (case nodes t of
           Bucket_Node b \<Rightarrow> map Inl (slab_list (bslab b))
         | Quad_Node m children \<Rightarrow> if K t then [Inr (m, rects ! t)] else []))"

definition entered :: "(nat \<Rightarrow> bool) \<Rightarrow> rectangle2d \<Rightarrow> (nat \<Rightarrow> node) \<Rightarrow> rectangle2d list \<Rightarrow> nat list \<Rightarrow> nat list" where
  "entered K z nodes rects ts = filter (\<lambda>t. \<not> K t) (met z nodes rects True ts)"

lemma entered_Cons:
  "entered K z nodes rects (t # ts) =
     (if rectangle2d_intersect (rects ! t) z \<and> is_quad (nodes t) \<and> \<not> K t then [t] else []) @ entered K z nodes rects ts"
  by (simp add: entered_def met_Cons)

primrec clumps :: "node \<Rightarrow> (nat \<Rightarrow> rectangle2d \<Rightarrow> bool) \<Rightarrow> rectangle2d \<Rightarrow> rectangle2d \<Rightarrow> event list \<Rightarrow> bool" where
  "clumps (Bucket_Node b) = (\<lambda>may z r es. es = map Inl (slab_list (bslab b)))"
| "clumps (Quad_Node sub_slots nodes) = (\<lambda>may z r es.
     \<exists>K gs. (\<forall>t < 4. K t \<longrightarrow> may (nslots (nodes t)) (get_qrects_from_qbounds r ! t)) \<and>
       es = concat (map (scanned K z nodes (get_qrects_from_qbounds r)) [0..<4]) @ concat gs \<and>
       list_all2 (\<lambda>t. clumps (nodes t) may z (get_qrects_from_qbounds r ! t)) (rev (entered K z nodes (get_qrects_from_qbounds r) [0..<4])) gs)"

lemma clumps_exist: "\<exists>es. clumps n may z r es"
proof (induction n arbitrary: r)
  case (Quad_Node sub_slots nodes)
  let ?rects = "get_qrects_from_qbounds r" and ?K = "\<lambda>_ :: nat. False"
  have "\<forall>t. \<exists>g. clumps (nodes t) may z (?rects ! t) g" using Quad_Node by blast
  then obtain g where g: "\<And>t. clumps (nodes t) may z (?rects ! t) (g t)" by metis
  show ?case
    unfolding clumps.simps
    by (intro exI [of _ "concat (map (scanned ?K z nodes ?rects) [0..<4]) @ concat (map g (rev (entered ?K z nodes ?rects [0..<4])))"]
        exI [of _ ?K] exI [of _ "map g (rev (entered ?K z nodes ?rects [0..<4]))"] conjI)
      (simp_all add: list_all2_map2 list_all2_same g)
qed simp

section \<open>The loop\<close>

lemma scan_children_events:
  assumes "\<And>t. t \<in> set ts \<Longrightarrow> all_tidy (nodes t)" "length st + length (entered K z nodes rects ts) \<le> SEARCH_STACK_ROOM"
    and "\<And>t m children. t \<in> set ts \<Longrightarrow> nodes t = Quad_Node m children \<Longrightarrow> clustered m (rects ! t) = K t"
  shows "case run_events visit oc (concat (map (scanned K z nodes rects) ts)) c of
      None \<Rightarrow> scan_children clustered oc visit z nodes rects ts st c = None
    | Some (ret, c') \<Rightarrow> \<exists>st'. scan_children clustered oc visit z nodes rects ts st c = Some (ret, st', c') \<and>
        (ret = 0 \<longrightarrow> st' = rev (map (\<lambda>t. (nodes t, rects ! t)) (entered K z nodes rects ts)) @ st)"
  using assms
proof (induction ts arbitrary: st c)
  case Nil
  then show ?case by (simp add: entered_def met_Nil)
next
  case (Cons t ts)
  have tidy: "\<And>u. u \<in> set ts \<Longrightarrow> all_tidy (nodes u)" using Cons.prems(1) by simp
  have cl: "\<And>u m children. u \<in> set ts \<Longrightarrow> nodes u = Quad_Node m children \<Longrightarrow> clustered m (rects ! u) = K u" using Cons.prems(3) by simp
  have IH: "length st + length (entered K z nodes rects ts) \<le> SEARCH_STACK_ROOM \<Longrightarrow>
      (case run_events visit oc (concat (map (scanned K z nodes rects) ts)) c of
         None \<Rightarrow> scan_children clustered oc visit z nodes rects ts st c = None
       | Some (ret, c') \<Rightarrow> \<exists>st'. scan_children clustered oc visit z nodes rects ts st c = Some (ret, st', c') \<and>
           (ret = 0 \<longrightarrow> st' = rev (map (\<lambda>t. (nodes t, rects ! t)) (entered K z nodes rects ts)) @ st))" for st c
    by (rule Cons.IH) (use tidy cl in blast)+
  show ?case
  proof (cases "rectangle2d_intersect (rects ! t) z")
    case False
    then have sc: "scanned K z nodes rects t = []" by (simp add: scanned_def)
    show ?thesis using IH Cons.prems(2) False by (simp add: entered_Cons sc cong: option.case_cong)
  next
    case meets: True
    show ?thesis
    proof (cases "nodes t")
      case (Bucket_Node b)
      have t: "slab_foreach visit (bslab b) c = foreach_entries visit (slab_list (bslab b)) c"
        using Cons.prems(1) [of t] by (intro tidy_list) (simp add: Bucket_Node)
      have sc: "scanned K z nodes rects t = map Inl (slab_list (bslab b))" using meets by (simp add: scanned_def Bucket_Node)
      have room: "length st + length (entered K z nodes rects ts) \<le> SEARCH_STACK_ROOM"
        using Cons.prems(2) by (simp add: entered_Cons Bucket_Node)
      show ?thesis
      proof (cases "foreach_entries visit (slab_list (bslab b)) c")
        case None
        then show ?thesis using meets by (simp add: entered_Cons Bucket_Node sc t run_events_append run_events_slots)
      next
        case (Some x)
        obtain ret c' where x: "x = (ret, c')" by (cases x)
        show ?thesis using IH [OF room, of c'] meets Some
          by (cases "ret = 0") (simp_all add: entered_Cons Bucket_Node sc t run_events_append run_events_slots x cong: option.case_cong)
      qed
    next
      case (Quad_Node m children)
      have k: "clustered m (rects ! t) = K t" using Cons.prems(3) [of t m children] Quad_Node by simp
      show ?thesis
      proof (cases "K t")
        case True
        have sc: "scanned K z nodes rects t = [Inr (m, rects ! t)]" using meets True by (simp add: scanned_def Quad_Node)
        have room: "length st + length (entered K z nodes rects ts) \<le> SEARCH_STACK_ROOM"
          using Cons.prems(2) by (simp add: entered_Cons True)
        show ?thesis
        proof (cases "oc m (rects ! t) c")
          case None
          then show ?thesis using meets k True by (simp add: entered_Cons Quad_Node sc)
        next
          case (Some x)
          obtain ret c' where x: "x = (ret, c')" by (cases x)
          show ?thesis using IH [OF room, of c'] meets Some k True
            by (cases "ret = 0") (simp_all add: entered_Cons Quad_Node sc x cong: option.case_cong)
        qed
      next
        case False
        have sc: "scanned K z nodes rects t = []" using False by (simp add: scanned_def Quad_Node)
        have room: "length ((nodes t, rects ! t) # st) + length (entered K z nodes rects ts) \<le> SEARCH_STACK_ROOM"
          using Cons.prems(2) meets False by (simp add: entered_Cons Quad_Node)
        then have p: "push_quad (nodes t, rects ! t) st = Some ((nodes t, rects ! t) # st)"
          by (simp add: push_quad_def c_assert_def)
        show ?thesis using IH [OF room, of c] meets p k False
          by (simp add: entered_Cons Quad_Node sc cong: option.case_cong)
      qed
    qed
  qed
qed

definition resume_clusters ::
  "('x \<Rightarrow> nat \<Rightarrow> rectangle2d \<Rightarrow> bool) \<Rightarrow> (nat \<Rightarrow> rectangle2d \<Rightarrow> 'x \<Rightarrow> (int \<times> 'x) option) \<Rightarrow>
   ('x \<Rightarrow> slab_entry \<Rightarrow> slot \<Rightarrow> (int \<times> 'x) option) \<Rightarrow> rectangle2d \<Rightarrow> quad_stack \<Rightarrow> 'x \<Rightarrow> (int \<times> 'x) option" where
  "resume_clusters clustered oc visit z st c =
     (case st of [] \<Rightarrow> Some (0, c) | (n, r) # rest \<Rightarrow> search_loop clustered oc visit z n r rest c)"

lemma pop_events_append:
  "pop_search next (run_events visit oc (es @ es') c) st =
   pop_search (\<lambda>st c. pop_search next (run_events visit oc es' c) st) (run_events visit oc es c) st"
  by (simp add: pop_search_def run_events_append split: option.splits bind_splits)

abbreviation may_cluster :: "('x \<Rightarrow> nat \<Rightarrow> rectangle2d \<Rightarrow> bool) \<Rightarrow> nat \<Rightarrow> rectangle2d \<Rightarrow> bool" where
  "may_cluster clustered \<equiv> (\<lambda>m q. \<exists>c. clustered c m q)"

lemma resume_events:
  fixes clustered :: "'x \<Rightarrow> nat \<Rightarrow> rectangle2d \<Rightarrow> bool"
  assumes "\<And>m q st (c :: 'x). (m, q) \<in> set qs \<Longrightarrow> length st \<le> room \<Longrightarrow>
      \<exists>es. clumps m (may_cluster clustered) z q es \<and>
        search_loop clustered oc visit z m q st c = pop_search (resume_clusters clustered oc visit z) (run_events visit oc es c) st"
    and "length qs + length st \<le> Suc room"
  shows "\<exists>gs. list_all2 (\<lambda>(m, q). clumps m (may_cluster clustered) z q) qs gs \<and>
    resume_clusters clustered oc visit z (qs @ st) c =
      pop_search (resume_clusters clustered oc visit z) (run_events visit oc (concat gs) c) st"
  using assms
proof (induction qs arbitrary: c)
  case Nil
  then show ?case by (simp add: pop_search_def)
next
  case (Cons x qs)
  obtain m q where x: "x = (m, q)" by (cases x)
  let ?next = "resume_clusters clustered oc visit z"
  obtain es where es: "clumps m (may_cluster clustered) z q es"
    "search_loop clustered oc visit z m q (qs @ st) c = pop_search ?next (run_events visit oc es c) (qs @ st)"
    using Cons.prems(1) [of m q "qs @ st" c] Cons.prems(2) by (auto simp: x)
  have head: "?next ((x # qs) @ st) c = pop_search ?next (run_events visit oc es c) (qs @ st)"
    using es(2) by (simp add: resume_clusters_def x)
  have IH: "\<exists>gs. list_all2 (\<lambda>(m, q). clumps m (may_cluster clustered) z q) qs gs \<and>
      ?next (qs @ st) c' = pop_search ?next (run_events visit oc (concat gs) c') st" for c'
    using Cons.IH Cons.prems by simp
  show ?case
  proof (cases "run_events visit oc es c")
    case None
    obtain gs where "list_all2 (\<lambda>(m, q). clumps m (may_cluster clustered) z q) qs gs" using IH by blast
    then show ?thesis using es(1) head None
      by (intro exI [of _ "es # gs"]) (simp add: x pop_search_def run_events_append)
  next
    case (Some y)
    obtain ret c' where y: "y = (ret, c')" by (cases y)
    obtain gs where "list_all2 (\<lambda>(m, q). clumps m (may_cluster clustered) z q) qs gs"
      "?next (qs @ st) c' = pop_search ?next (run_events visit oc (concat gs) c') st" using IH [of c'] by blast
    then show ?thesis using es(1) head Some
      by (intro exI [of _ "es # gs"]) (simp add: x y pop_search_def run_events_append)
  qed
qed

lemma search_loop_events:
  fixes clustered :: "'x \<Rightarrow> nat \<Rightarrow> rectangle2d \<Rightarrow> bool"
  shows "is_quad n \<Longrightarrow> all_tidy n \<Longrightarrow> length st + 3 * qheight n + 1 \<le> SEARCH_STACK_ROOM \<Longrightarrow>
   \<exists>es. clumps n (may_cluster clustered) z r es \<and>
     search_loop clustered oc visit z n r st c = pop_search (resume_clusters clustered oc visit z) (run_events visit oc es c) st"
proof (induction n arbitrary: r st c)
  case (Bucket_Node b)
  then show ?case by simp
next
  case (Quad_Node s nodes)
  let ?rects = "get_qrects_from_qbounds r" and ?next = "resume_clusters clustered oc visit z"
  define K where "K = (\<lambda>t. clustered c (nslots (nodes t)) (?rects ! t))"
  let ?quads = "entered K z nodes ?rects [0..<4]"
  let ?qs = "rev (map (\<lambda>t. (nodes t, ?rects ! t)) ?quads)"
  let ?here = "concat (map (scanned K z nodes ?rects) [0..<4])"
  have few: "length ?quads \<le> 4"
    unfolding entered_def met_def by (rule order_trans [OF length_filter_le], rule order_trans [OF length_filter_le]) simp
  have child: "\<And>t. t \<in> set [0..<4] \<Longrightarrow> all_tidy (nodes t)" using Quad_Node.prems(2) by simp
  have room: "length st + length ?quads \<le> SEARCH_STACK_ROOM" using few Quad_Node.prems(3) by simp
  have below: "\<exists>es. clumps m (may_cluster clustered) z q es \<and>
      search_loop clustered oc visit z m q st' c' = pop_search ?next (run_events visit oc es c') st'"
    if mem: "(m, q) \<in> set ?qs" and len: "length st' \<le> length st + 3" for m q st' c'
  proof -
    obtain t where t: "m = nodes t" "t < 4" "is_quad (nodes t)" using mem by (auto simp: entered_def met_def)
    have "length st' + 3 * qheight (nodes t) + 1 \<le> SEARCH_STACK_ROOM"
      using qheight_child [OF t(2), of nodes s] len Quad_Node.prems(3) by linarith
    then show ?thesis using Quad_Node.IH [of "nodes t"] t child [of t] by simp
  qed
  have after: "\<exists>gs. list_all2 (\<lambda>(m, q). clumps m (may_cluster clustered) z q) ?qs gs \<and>
      ?next (?qs @ st) c' = pop_search ?next (run_events visit oc (concat gs) c') st" for c'
    by (rule resume_events [where room = "length st + 3"]) (use below few in \<open>auto\<close>)
  have scan: "search_loop clustered oc visit z (Quad_Node s nodes) r st c =
      pop_search (\<lambda>st c. ?next (?qs @ st) c) (run_events visit oc ?here c) st"
    using scan_children_events [where ts = "[0..<4]" and nodes = nodes and K = K and z = z and rects = ?rects and st = st and
        clustered = "clustered c" and visit = visit and oc = oc and c = c, OF child room]
    by (subst search_loop.simps) (auto simp: K_def pop_search_def resume_clusters_def split: option.splits prod.splits list.splits)
  define c' where "c' = (case run_events visit oc ?here c of None \<Rightarrow> c | Some (_, x) \<Rightarrow> x)"
  obtain gs where gs: "list_all2 (\<lambda>(m, q). clumps m (may_cluster clustered) z q) ?qs gs"
    "?next (?qs @ st) c' = pop_search ?next (run_events visit oc (concat gs) c') st"
    using after by blast
  have "clumps (Quad_Node s nodes) (may_cluster clustered) z r (?here @ concat gs)"
    unfolding clumps.simps
    by (intro exI [of _ K] exI [of _ gs]) (use gs(1) in \<open>auto simp: K_def rev_map list_all2_map1\<close>)
  moreover have "search_loop clustered oc visit z (Quad_Node s nodes) r st c =
      pop_search ?next (run_events visit oc (?here @ concat gs) c) st"
    unfolding scan pop_events_append using gs(2)
    by (cases "run_events visit oc ?here c") (auto simp: pop_search_def c'_def)
  ultimately show ?case by blast
qed


section \<open>The slots and the clusters among the events\<close>

definition slots_of :: "event list \<Rightarrow> (slab_entry \<times> slot) list" where
  "slots_of es = concat (map (\<lambda>e. case e of Inl x \<Rightarrow> [x] | Inr y \<Rightarrow> []) es)"

lemma slots_of_simps [simp]:
  "slots_of [] = []" "slots_of (e # es) = (case e of Inl x \<Rightarrow> [x] | Inr y \<Rightarrow> []) @ slots_of es"
  "slots_of (es @ es') = slots_of es @ slots_of es'" "slots_of (map Inl xs) = xs"
  by (simp_all add: slots_of_def) (induction xs; simp)

lemma mem_slots_of [simp]: "x \<in> set (slots_of es) \<longleftrightarrow> Inl x \<in> set es"
proof (induction es)
  case (Cons e es)
  then show ?case by (cases e) auto
qed simp

text \<open>The nodes of a tree with their cells.\<close>

inductive node_part :: "node \<Rightarrow> rectangle2d \<Rightarrow> node \<Rightarrow> rectangle2d \<Rightarrow> bool" where
  part_refl: "node_part n r n r"
| part_child: "node_part (Quad_Node sub_slots nodes) r n q"
  if "t < 4" "node_part (nodes t) (get_qrects_from_qbounds r ! t) n q"

lemma subseq_scanned:
  "subseq (slots_of (concat (map (scanned K z nodes rects) ts))) (concat (map (\<lambda>t. walk (nodes t) z (rects ! t)) (met z nodes rects False ts)))"
proof (induction ts)
  case (Cons t ts)
  show ?case
  proof (cases "rectangle2d_intersect (rects ! t) z \<and> \<not> is_quad (nodes t)")
    case True
    then have "slots_of (scanned K z nodes rects t) = walk (nodes t) z (rects ! t)" by (cases "nodes t") (simp_all add: scanned_def)
    then show ?thesis using True list_emb_append_mono [OF subseq_order.refl Cons] by (simp add: met_Cons)
  next
    case False
    then have "slots_of (scanned K z nodes rects t) = []" by (cases "nodes t") (auto simp: scanned_def)
    then show ?thesis using False Cons by (auto simp: met_Cons)
  qed
qed (simp add: met_Nil)

lemma subseq_below:
  "list_all2 (\<lambda>t g. subseq (slots_of g) (w t)) (filter P ts) gs \<Longrightarrow> subseq (slots_of (concat gs)) (concat (map w ts))"
proof (induction ts arbitrary: gs)
  case (Cons t ts)
  show ?case
  proof (cases "P t")
    case True
    then obtain g hs where "gs = g # hs" "subseq (slots_of g) (w t)" "list_all2 (\<lambda>t g. subseq (slots_of g) (w t)) (filter P ts) hs"
      using Cons.prems by (auto simp: list_all2_Cons1)
    then show ?thesis using list_emb_append_mono [OF _ Cons.IH, of "slots_of g" "w t" hs] by simp
  next
    case False
    then show ?thesis using Cons by (simp add: list_emb_append2)
  qed
qed simp

lemma clumps_subseq: "clumps n may z r es \<Longrightarrow> subseq (slots_of es) (walk n z r)"
proof (induction n arbitrary: r es)
  case (Bucket_Node b)
  then show ?case by simp
next
  case (Quad_Node sub_slots nodes)
  let ?rects = "get_qrects_from_qbounds r" and ?w = "\<lambda>t. walk (nodes t) z (get_qrects_from_qbounds r ! t)"
  obtain K gs where k: "es = concat (map (scanned K z nodes ?rects) [0..<4]) @ concat gs"
    "list_all2 (\<lambda>t. clumps (nodes t) may z (?rects ! t)) (rev (entered K z nodes ?rects [0..<4])) gs"
    using Quad_Node.prems unfolding clumps.simps by blast
  have "list_all2 (\<lambda>t g. subseq (slots_of g) (?w t)) (rev (entered K z nodes ?rects [0..<4])) gs"
    by (rule list_all2_mono [OF k(2)]) (rule Quad_Node.IH, simp)
  then have "list_all2 (\<lambda>t g. subseq (slots_of g) (?w t)) (filter (\<lambda>t. \<not> K t) (rev (met z nodes ?rects True [0..<4]))) gs"
    by (simp add: entered_def rev_filter)
  from subseq_below [OF this] have "subseq (slots_of (concat gs)) (concat (map ?w (rev (met z nodes ?rects True [0..<4]))))" .
  moreover have "subseq (slots_of (concat (map (scanned K z nodes ?rects) [0..<4]))) (concat (map ?w (met z nodes ?rects False [0..<4])))"
    by (rule subseq_scanned)
  ultimately show ?case unfolding k(1) slots_of_simps(3) walk.simps map_append concat_append by (rule list_emb_append_mono [rotated])
qed

text \<open>What is not among the events is below a cluster.\<close>

lemma entered_mem: "t \<in> set (entered K z nodes rects ts) \<longleftrightarrow> t \<in> set ts \<and> rectangle2d_intersect (rects ! t) z \<and> is_quad (nodes t) \<and> \<not> K t"
  by (auto simp: entered_def met_def)

lemma clumps_cover:
  "clumps n may z r es \<Longrightarrow> x \<in> set (walk n z r) \<Longrightarrow>
   Inl x \<in> set es \<or> (\<exists>m q. Inr (nslots m, q) \<in> set es \<and> node_part n r m q \<and> is_quad m \<and> x \<in> set (walk m z q))"
proof (induction n arbitrary: r es)
  case (Bucket_Node b)
  then show ?case by simp
next
  case (Quad_Node sub_slots nodes)
  let ?rects = "get_qrects_from_qbounds r"
  obtain K gs where k: "es = concat (map (scanned K z nodes ?rects) [0..<4]) @ concat gs"
    "list_all2 (\<lambda>t. clumps (nodes t) may z (?rects ! t)) (rev (entered K z nodes ?rects [0..<4])) gs"
    using Quad_Node.prems(1) unfolding clumps.simps by blast
  obtain t where t: "t < 4" "rectangle2d_intersect (?rects ! t) z" "x \<in> set (walk (nodes t) z (?rects ! t))"
    using Quad_Node.prems(2) unfolding set_walk_Quad by blast
  have here: "set (scanned K z nodes ?rects t) \<subseteq> set es" using t(1) by (auto simp: k(1))
  consider (bucket) b where "nodes t = Bucket_Node b" | (cluster) "is_quad (nodes t)" "K t" | (entered) "is_quad (nodes t)" "\<not> K t"
    by (cases "nodes t") auto
  then show ?case
  proof cases
    case bucket
    then show ?thesis using t here by (auto simp: scanned_def)
  next
    case cluster
    then have "Inr (nslots (nodes t), ?rects ! t) \<in> set (scanned K z nodes ?rects t)"
      using t(2) by (cases "nodes t") (simp_all add: scanned_def)
    then show ?thesis using here t cluster(1) part_child [OF t(1) part_refl] by blast
  next
    case entered
    then have "t \<in> set (rev (entered K z nodes ?rects [0..<4]))" using t(1,2) by (simp add: entered_mem)
    then obtain g where g: "g \<in> set gs" "clumps (nodes t) may z (?rects ! t) g"
      using k(2) unfolding list_all2_conv_all_nth in_set_conv_nth by metis
    have "set g \<subseteq> set es" using g(1) by (auto simp: k(1))
    then show ?thesis using Quad_Node.IH [OF _ g(2) t(3)] part_child [OF t(1)] by blast
  qed
qed

lemma clumps_clusters:
  "clumps n may z r es \<Longrightarrow> Inr (k, q) \<in> set es \<Longrightarrow> may k q \<and> rectangle2d_intersect q z \<and> (\<exists>m. node_part n r m q \<and> is_quad m \<and> k = nslots m)"
proof (induction n arbitrary: r es)
  case (Bucket_Node b)
  then show ?case by auto
next
  case (Quad_Node sub_slots nodes)
  let ?rects = "get_qrects_from_qbounds r"
  obtain K gs where k: "\<forall>t < 4. K t \<longrightarrow> may (nslots (nodes t)) (?rects ! t)"
    "es = concat (map (scanned K z nodes ?rects) [0..<4]) @ concat gs"
    "list_all2 (\<lambda>t. clumps (nodes t) may z (?rects ! t)) (rev (entered K z nodes ?rects [0..<4])) gs"
    using Quad_Node.prems(1) unfolding clumps.simps by blast
  consider (here) t where "t < 4" "Inr (k, q) \<in> set (scanned K z nodes ?rects t)" | (below) g where "g \<in> set gs" "Inr (k, q) \<in> set g"
    using Quad_Node.prems(2) by (auto simp: k(2))
  then show ?case
  proof cases
    case here
    then have "is_quad (nodes t)" "K t" "k = nslots (nodes t)" "q = ?rects ! t" "rectangle2d_intersect q z"
      by (cases "nodes t"; auto simp: scanned_def split: if_splits)+
    then show ?thesis using k(1) here(1) part_child [OF here(1) part_refl] by blast
  next
    case below
    then obtain t where t: "t \<in> set (entered K z nodes ?rects [0..<4])" "clumps (nodes t) may z (?rects ! t) g"
      using k(3) unfolding list_all2_conv_all_nth in_set_conv_nth [of g] by (metis nth_mem set_rev)
    have "t < 4" using t(1) by (simp add: entered_mem)
    then show ?thesis using Quad_Node.IH [OF _ t(2) below(2)] part_child by blast
  qed
qed

section \<open>Parts of an index\<close>

lemma part_inside: "node_part n r m q \<Longrightarrow> rect_ok r \<Longrightarrow> position_is_in_rect x q \<Longrightarrow> position_is_in_rect x r"
  by (induction rule: node_part.induct) (use quadrant_inside qrects_ok in blast)+

lemma part_inv:
  "node_part n r m q \<Longrightarrow> rect_ok r \<Longrightarrow> node_inv n p r \<Longrightarrow> links h p n \<Longrightarrow>
   rect_ok q \<and> (\<exists>p'. node_inv m p' q \<and> links h p' m) \<and> placed m = {(k, x) \<in> placed n. position_is_in_rect x q}"
proof (induction arbitrary: p rule: node_part.induct)
  case (part_refl n r)
  have "position_is_in_rect x r" if "(k, x) \<in> placed n" for k x
    using that content_in_rect [OF part_refl(1,2)] unfolding mem_placed by blast
  then show ?case using part_refl by auto
next
  case (part_child t nodes r n q sub_slots)
  let ?r = "get_qrects_from_qbounds r ! t"
  have i: "rect_ok ?r" "node_inv (nodes t) (p @ [t]) ?r" "links h (p @ [t]) (nodes t)"
    using qrects_ok [OF part_child.prems(1) part_child.hyps(1)] part_child.prems(2,3) part_child.hyps(1) by (simp_all add: links_Quad)
  note IH = part_child.IH [OF i]
  have "t' = t" if "t' < 4" "(k, x) \<in> placed (nodes t')" "position_is_in_rect x q" for t' k x
  proof -
    have "node_inv (nodes t') (p @ [t']) (get_qrects_from_qbounds r ! t')" using part_child.prems(2) that(1) by simp
    then have t': "position_is_in_rect x (get_qrects_from_qbounds r ! t')"
      using that(2) content_in_rect [OF qrects_ok [OF part_child.prems(1) that(1)]] unfolding mem_placed by blast
    have "position_is_in_rect x ?r" by (rule part_inside [OF part_child.hyps(2) i(1) that(3)])
    then show ?thesis
      using quadrants_partition_iff [OF part_child.prems(1), of x] quadrant_inside [OF part_child.prems(1) that(1) t'] t' that(1)
        part_child.hyps(1) by blast
  qed
  then have "placed n = {(k, x) \<in> placed (Quad_Node sub_slots nodes). position_is_in_rect x q}"
    using IH part_child.hyps(1) unfolding placed_Quad by blast
  then show ?case using IH by blast
qed


section \<open>Events do not overlap\<close>

fun region :: "event \<Rightarrow> position2d set" where
  "region (Inl (a, s)) = {position s}"
| "region (Inr (m, q)) = {x. position_is_in_rect x q}"

definition apart_events :: "event \<Rightarrow> event \<Rightarrow> bool" where
  "apart_events e f = (isl e \<and> isl f \<or> region e \<inter> region f = {})"

lemma sorted_wrt_concat:
  "sorted_wrt (\<lambda>xs ys. \<forall>x \<in> set xs. \<forall>y \<in> set ys. P x y) xss \<Longrightarrow> \<forall>xs \<in> set xss. sorted_wrt P xs \<Longrightarrow> sorted_wrt P (concat xss)"
  by (induction xss) (auto simp: sorted_wrt_append)

lemma clumps_region:
  assumes "clumps n may z r es" "rect_ok r" "node_inv n p r" "links h p n" "e \<in> set es" "x \<in> region e"
  shows "position_is_in_rect x r"
proof (cases e)
  case (Inl y)
  obtain a s where y: "y = (a, s)" by (cases y)
  have "(a, s) \<in> set (walk n z r)" using list_emb_set [OF clumps_subseq [OF assms(1)], of "(a, s)"] assms(5) by (auto simp: Inl y)
  then show ?thesis using walk_sound [OF assms(3)] content_in_rect [OF assms(2,3)] assms(6) by (fastforce simp: Inl y)
next
  case (Inr y)
  obtain m q where y: "y = (m, q)" by (cases y)
  then show ?thesis using clumps_clusters [OF assms(1), of m q] part_inside [OF _ assms(2)] assms(5,6) by (auto simp: Inr)
qed

lemma clumps_apart:
  "clumps n may z r es \<Longrightarrow> rect_ok r \<Longrightarrow> node_inv n p r \<Longrightarrow> links h p n \<Longrightarrow> sorted_wrt apart_events es"
proof (induction n arbitrary: p r es)
  case (Bucket_Node b)
  then show ?case by (simp add: sorted_wrt_map apart_events_def sorted_wrt_true)
next
  case (Quad_Node sub_slots nodes)
  let ?rects = "get_qrects_from_qbounds r"
  obtain K gs where k: "\<forall>t < 4. K t \<longrightarrow> may (nslots (nodes t)) (?rects ! t)"
    "es = concat (map (scanned K z nodes ?rects) [0..<4]) @ concat gs"
    "list_all2 (\<lambda>t. clumps (nodes t) may z (?rects ! t)) (rev (entered K z nodes ?rects [0..<4])) gs"
    using Quad_Node.prems(1) unfolding clumps.simps by blast
  let ?ts = "rev (entered K z nodes ?rects [0..<4])"
  have c: "rect_ok (?rects ! t)" "node_inv (nodes t) (p @ [t]) (?rects ! t)" "links h (p @ [t]) (nodes t)" if "t < 4" for t
    using qrects_ok [OF Quad_Node.prems(2) that] Quad_Node.prems(3,4) that by (simp_all add: links_Quad)
  have far: "apart_events e f" if t: "t < 4" "u < 4" "t \<noteq> u" and e: "region e \<subseteq> {x. position_is_in_rect x (?rects ! t)}"
    and f: "region f \<subseteq> {x. position_is_in_rect x (?rects ! u)}" for t u e f
  proof -
    have "\<not> (position_is_in_rect x (?rects ! t) \<and> position_is_in_rect x (?rects ! u))" for x
      using t quadrants_partition_iff [OF Quad_Node.prems(2), of x] quadrant_inside [OF Quad_Node.prems(2) t(1), of x] by blast
    then show ?thesis using e f unfolding apart_events_def by blast
  qed
  have here: "region e \<subseteq> {x. position_is_in_rect x (?rects ! t)}" if "t < 4" "e \<in> set (scanned K z nodes ?rects t)" for t e
  proof (cases "nodes t")
    case (Bucket_Node b)
    then have "clumps (nodes t) may z (?rects ! t) (scanned K z nodes ?rects t)" using that(2) by (auto simp: scanned_def split: if_splits)
    then show ?thesis using clumps_region [OF _ c [OF that(1)] that(2)] by blast
  next
    case (Quad_Node m children)
    then show ?thesis using that(2) by (auto simp: scanned_def split: if_splits)
  qed
  have below: "region e \<subseteq> {x. position_is_in_rect x (?rects ! t)}" if "clumps (nodes t) may z (?rects ! t) g" "t < 4" "e \<in> set g" for t g e
    using clumps_region [OF that(1) c [OF that(2)] that(3)] by blast
  have ts: "distinct ?ts" "t \<in> set ?ts \<Longrightarrow> t < 4" for t by (auto simp: entered_def met_def)
  have one: "sorted_wrt apart_events (scanned K z nodes ?rects t)" for t
    by (cases "nodes t") (simp_all add: scanned_def sorted_wrt_map apart_events_def sorted_wrt_true)
  have "sorted_wrt (\<lambda>xs ys. \<forall>x \<in> set xs. \<forall>y \<in> set ys. apart_events x y) (map (scanned K z nodes ?rects) [0..<4])"
    unfolding sorted_wrt_map
  proof (rule sorted_wrt_mono_rel [OF _ sorted_wrt_upt], intro ballI)
    fix t u x y assume tu: "t \<in> set [0..<4]" "u \<in> set [0..<4]" "t < u"
      and xy: "x \<in> set (scanned K z nodes ?rects t)" "y \<in> set (scanned K z nodes ?rects u)"
    then have t: "t < 4" "u < 4" "t \<noteq> u" by auto
    show "apart_events x y"
      by (rule far [OF t here [OF t(1) xy(1)] here [OF t(2) xy(2)]])
  qed
  then have a: "sorted_wrt apart_events (concat (map (scanned K z nodes ?rects) [0..<4]))"
    by (rule sorted_wrt_concat) (use one in simp)
  have l: "length ?ts = length gs" by (rule list_all2_lengthD [OF k(3)])
  have g: "t \<in> set ?ts" "clumps (nodes t) may z (?rects ! t) (gs ! i)" "sorted_wrt apart_events (gs ! i)" if "i < length gs" "t = ?ts ! i" for i t
  proof -
    show t: "t \<in> set ?ts" unfolding that(2) using that(1) l by (intro nth_mem) simp
    show cl: "clumps (nodes t) may z (?rects ! t) (gs ! i)" unfolding that(2) by (rule list_all2_nthD2 [OF k(3) that(1)])
    note lt = ts(2) [OF t]
    show "sorted_wrt apart_events (gs ! i)"
      by (rule Quad_Node.IH [OF _ cl c(1) [OF lt] c(2) [OF lt] c(3) [OF lt]]) simp
  qed
  have "sorted_wrt (\<lambda>xs ys. \<forall>x \<in> set xs. \<forall>y \<in> set ys. apart_events x y) gs"
    unfolding sorted_wrt_iff_nth_less
  proof (intro allI impI ballI)
    fix i j x y assume ij: "i < j" "j < length gs" and xy: "x \<in> set (gs ! i)" "y \<in> set (gs ! j)"
    have i: "i < length gs" using ij by simp
    note gi = g [OF i refl] and gj = g [OF ij(2) refl]
    have ne: "?ts ! i \<noteq> ?ts ! j" using nth_eq_iff_index_eq [OF ts(1), of i j] ij l by simp
    show "apart_events x y"
      by (rule far [OF ts(2) [OF gi(1)] ts(2) [OF gj(1)] ne below [OF gi(2) ts(2) [OF gi(1)] xy(1)] below [OF gj(2) ts(2) [OF gj(1)] xy(2)]])
  qed
  then have b: "sorted_wrt apart_events (concat gs)"
    by (rule sorted_wrt_concat) (use g(3) in \<open>auto simp: in_set_conv_nth\<close>)
  have across: "apart_events x y" if x: "x \<in> set (scanned K z nodes ?rects t)" "t < 4" and y: "y \<in> set (gs ! i)" "i < length gs" for x y t i
  proof -
    note gi = g [OF y(2) refl]
    have "scanned K z nodes ?rects u = []" if "u \<in> set ?ts" for u
      using that by (cases "nodes u") (auto simp: entered_mem scanned_def)
    then have ne: "t \<noteq> ?ts ! i" using gi(1) x(1) by force
    show ?thesis by (rule far [OF x(2) ts(2) [OF gi(1)] ne here [OF x(2,1)] below [OF gi(2) ts(2) [OF gi(1)] y(1)]])
  qed
  have cross: "apart_events x y" if "x \<in> set (concat (map (scanned K z nodes ?rects) [0..<4]))" "y \<in> set (concat gs)" for x y
  proof -
    obtain t where "t < 4" "x \<in> set (scanned K z nodes ?rects t)" using \<open>x \<in> _\<close> by auto
    moreover obtain i where "i < length gs" "y \<in> set (gs ! i)" using \<open>y \<in> _\<close> by (auto simp: in_set_conv_nth [of _ gs])
    ultimately show ?thesis using across by blast
  qed
  show ?case unfolding k(2) sorted_wrt_append using a b cross by blast
qed

section \<open>What is found\<close>

datatype found = is_record: Record slot dimension | Cluster nat rectangle2d

definition found_of :: "(position2d \<Rightarrow> dimension option) \<Rightarrow> rectangle2d \<Rightarrow> event list \<Rightarrow> found list" where
  "found_of metric z es =
     concat (map (\<lambda>e. case e of
         Inl (a, s) \<Rightarrow> if position_is_in_rect (position s) z then [Record s (the (metric (position s)))] else []
       | Inr (m, q) \<Rightarrow> if position_is_in_rect (cluster_center q) q then [Cluster m q] else []) es)"

definition cluster_radius :: "pan_db \<Rightarrow> rectangle2d \<Rightarrow> dimension" where
  "cluster_radius db q =
     (let center = cluster_center q;
          distance = to_float (divd (addf (fabs (subf (latitude center) (latitude (edge0 q))))
                       (fabs (subf (longitude center) (longitude (edge0 q))))) (Fin 2))
      in if db_layer_type db = LAYER_TYPE_SPHERICAL \<or> db_layer_type db = LAYER_TYPE_ELLIPSOIDAL
         then geoidal_distance_to_meters distance else distance)"

text \<open>How the callbacks are called: a record that finds the limit used up stops the search, and so does a cluster that uses it up.\<close>

fun report_found :: "'c slot_cb \<Rightarrow> ('c \<Rightarrow> nat \<Rightarrow> rectangle2d \<Rightarrow> (int \<times> 'c) option) \<Rightarrow> nat \<Rightarrow> found list \<Rightarrow> 'c \<Rightarrow> (int \<times> 'c) option" where
  "report_found cb ccb limit [] c = Some (0, c)"
| "report_found cb ccb limit (Record s d # xs) c =
     (if limit = 0 then Some (1, c)
      else
        do {
          (ret, c') \<leftarrow> cb c s d;
          (if ret \<noteq> 0 then Some (ret, c') else report_found cb ccb (limit - 1) xs c')
        })"
| "report_found cb ccb limit (Cluster m q # xs) c =
     do {
       (ret, c') \<leftarrow> ccb c m q;
       (if ret \<noteq> 0 then Some (ret, c') else if limit \<le> 1 then Some (1, c') else report_found cb ccb (limit - 1) xs c')
     }"

abbreviation cluster_report :: "pan_db \<Rightarrow> 'c cluster_cb \<Rightarrow> 'c \<Rightarrow> nat \<Rightarrow> rectangle2d \<Rightarrow> (int \<times> 'c) option" where
  "cluster_report db cluster_cb \<equiv> (\<lambda>c m q. cluster_cb c (cluster_center q) (cluster_radius db q) (m mod 2 ^ 32))"

lemma cluster_context:
  "find_in_rect_cluster_context_cb db cluster_cb m q (c, limit) =
     (if \<not> position_is_in_rect (cluster_center q) q then Some (0, c, limit)
      else
        do {
          (ret, c') \<leftarrow> cluster_report db cluster_cb c m q;
          (if ret \<noteq> 0 then Some (ret, c', limit) else if limit \<le> 1 then Some (1, c', limit - 1) else Some (0, c', limit - 1))
        })"
  by (simp add: find_in_rect_cluster_context_cb_def cluster_radius_def Let_def)

lemma found_report:
  assumes "\<And>a s. Inl (a, s) \<in> set es \<Longrightarrow> slot_key_node s \<noteq> None" "\<And>x. rect_distance lib db p x \<noteq> None"
  shows "drop_limit (run_events (find_in_rect_context_cb lib db p z cb) (find_in_rect_cluster_context_cb db cluster_cb) es (c, limit)) =
    report_found cb (cluster_report db cluster_cb) limit (found_of (rect_distance lib db p) z es) c"
  using assms(1)
proof (induction es arbitrary: c limit)
  case Nil
  then show ?case by (simp add: found_of_def)
next
  case (Cons e es)
  let ?run = "run_events (find_in_rect_context_cb lib db p z cb) (find_in_rect_cluster_context_cb db cluster_cb) es"
  have IH: "drop_limit (?run (c', l)) =
      report_found cb (cluster_report db cluster_cb) l (found_of (rect_distance lib db p) z es) c'" for c' l
    by (rule Cons.IH) (use Cons.prems in \<open>meson list.set_intros(2)\<close>)
  show ?case
  proof (cases e)
    case (Inl x)
    obtain a s where e: "e = Inl (a, s)" using Inl by (cases x) simp
    obtain d where d: "rect_distance lib db p (position s) = Some d" using assms(2) by blast
    obtain k where k: "slot_key_node s = Some k" using Cons.prems [of a s] by (auto simp: e)
    show ?thesis
    proof (cases "position_is_in_rect (position s) z")
      case True
      then have "found_of (rect_distance lib db p) z (e # es) = Record s d # found_of (rect_distance lib db p) z es"
        by (simp add: found_of_def e d)
      then show ?thesis using IH True
        by (cases "cb c s d") (auto simp: e d k find_in_rect_context_cb_def [of lib db p z cb "(c, limit)" a s])
    next
      case False
      then have "found_of (rect_distance lib db p) z (e # es) = found_of (rect_distance lib db p) z es"
        by (simp add: found_of_def e)
      then show ?thesis using IH False by (simp add: e find_in_rect_context_cb_def [of lib db p z cb "(c, limit)" a s])
    qed
  next
    case (Inr y)
    obtain m q where e: "e = Inr (m, q)" using Inr by (cases y) simp
    show ?thesis
    proof (cases "position_is_in_rect (cluster_center q) q")
      case True
      then have "found_of (rect_distance lib db p) z (e # es) = Cluster m q # found_of (rect_distance lib db p) z es"
        by (simp add: found_of_def e)
      then show ?thesis using IH True
        by (cases "cluster_report db cluster_cb c m q") (auto simp: e cluster_context)
    next
      case False
      then have "found_of (rect_distance lib db p) z (e # es) = found_of (rect_distance lib db p) z es"
        by (simp add: found_of_def e)
      then show ?thesis using IH False by (simp add: e cluster_context)
    qed
  qed
qed

section \<open>The records of a zone\<close>

text \<open>
  A cell that may be a cluster: the cell of a quad node of the index, narrower than epsilon in both directions, with the number of
  records that are placed in it.
\<close>

definition narrow :: "dimension \<Rightarrow> rectangle2d \<Rightarrow> bool" where
  "narrow epsilon q =
     (flt (fabs (subf (latitude (edge1 q)) (latitude (edge0 q)))) epsilon \<and>
      flt (fabs (subf (longitude (edge1 q)) (longitude (edge0 q)))) epsilon)"

definition cluster_cell :: "pan_db \<Rightarrow> dimension \<Rightarrow> nat \<Rightarrow> rectangle2d \<Rightarrow> bool" where
  "cluster_cell db epsilon m q =
     ((\<exists>n. node_part (db_root db) (qbounds db) n q \<and> is_quad n) \<and> narrow epsilon q \<and>
      m = card {k. \<exists>x. position_of db k = Some x \<and> position_is_in_rect x q})"

definition record_keys :: "found list \<Rightarrow> nat option list" where
  "record_keys xs = concat (map (\<lambda>x. case x of Record s d \<Rightarrow> [slot_key_node s] | Cluster m q \<Rightarrow> []) xs)"

lemma record_keys_simps [simp]:
  "record_keys [] = []" "record_keys (Record s d # xs) = slot_key_node s # record_keys xs"
  "record_keys (Cluster m q # xs) = record_keys xs" "record_keys (xs @ ys) = record_keys xs @ record_keys ys"
  by (simp_all add: record_keys_def)

text \<open>Two clusters have no position in common, and no record that is listed is in a cluster.\<close>

fun extent :: "found \<Rightarrow> position2d set" where
  "extent (Record s d) = {position s}"
| "extent (Cluster m q) = {x. position_is_in_rect x q}"

definition apart :: "found \<Rightarrow> found \<Rightarrow> bool" where
  "apart x y = (is_record x \<and> is_record y \<or> extent x \<inter> extent y = {})"

text \<open>
  What a search with clusters finds in a zone: records that are placed in it, each at most once, and clusters whose cells meet it, all apart;
  every record placed in the zone is found, or is in a cell of a cluster, which is found unless its centre as computed is outside of it.
\<close>

definition clustered_hits :: "pan_db \<Rightarrow> (position2d \<Rightarrow> dimension option) \<Rightarrow> dimension \<Rightarrow> rectangle2d \<Rightarrow> found list \<Rightarrow> bool" where
  "clustered_hits db metric epsilon z xs =
     (distinct (record_keys xs) \<and> sorted_wrt apart xs \<and>
      (\<forall>s d. Record s d \<in> set xs \<longrightarrow> position_is_in_rect (position s) z \<and> metric (position s) = Some d \<and>
         (\<exists>k. slot_key_node s = Some k \<and> position_of db k = Some (position s))) \<and>
      (\<forall>m q. Cluster m q \<in> set xs \<longrightarrow> cluster_cell db epsilon m q \<and> rectangle2d_intersect q z) \<and>
      (\<forall>k x. position_of db k = Some x \<longrightarrow> position_is_in_rect x z \<longrightarrow>
         (\<exists>s d. Record s d \<in> set xs \<and> slot_key_node s = Some k) \<or>
         (\<exists>m q. cluster_cell db epsilon m q \<and> position_is_in_rect x q \<and>
            (position_is_in_rect (cluster_center q) q \<longrightarrow> Cluster m q \<in> set xs))))"

lemma part_cell:
  assumes inv: "db_inv exps db" and p: "node_part (db_root db) (qbounds db) n q" "is_quad n" and nar: "narrow epsilon q"
  shows "cluster_cell db epsilon (nslots n) q"
proof -
  have ix: "rect_ok (qbounds db)" "node_inv (db_root db) [] (qbounds db)" "links (nodes_of db) [] (db_root db)"
    using db_invD(4) [OF inv] by (simp_all add: index_inv_def)
  obtain p' where n: "node_inv n p' q" "links (nodes_of db) p' n"
    and pl: "placed n = {(k, x) \<in> placed (db_root db). position_is_in_rect x q}"
    using part_inv [OF p(1) ix] by blast
  have "keys n = {k. \<exists>x. position_of db k = Some x \<and> position_is_in_rect x q}"
    unfolding keys_def pl using position_of_placed [OF inv] by force
  then show ?thesis using nslots_card [OF n] p nar by (auto simp: cluster_cell_def)
qed

lemma found_keys_subseq: "subseq (record_keys (found_of metric z es)) (entry_keys (slots_of es))"
proof (induction es)
  case (Cons e es)
  then show ?case by (cases e) (auto simp: found_of_def split: prod.split)
qed (simp add: found_of_def)

lemma mem_found_of:
  "Record s d \<in> set (found_of metric z es) \<longleftrightarrow>
     (\<exists>a. Inl (a, s) \<in> set es) \<and> position_is_in_rect (position s) z \<and> d = the (metric (position s))"
  "Cluster m q \<in> set (found_of metric z es) \<longleftrightarrow> Inr (m, q) \<in> set es \<and> position_is_in_rect (cluster_center q) q"
  by (induction es) (auto simp: found_of_def split: sum.splits prod.splits)

lemma found_apart: "sorted_wrt apart_events es \<Longrightarrow> sorted_wrt apart (found_of metric z es)"
proof (induction es)
  case (Cons e es)
  have "apart x y" if x: "x \<in> set (found_of metric z [e])" and y: "y \<in> set (found_of metric z es)" for x y
  proof -
    obtain f where f: "f \<in> set es" "y \<in> set (found_of metric z [f])" using y by (auto simp: found_of_def)
    have "extent u \<subseteq> region g \<and> (isl g \<longrightarrow> is_record u)" if "u \<in> set (found_of metric z [g])" for u g
      using that by (cases g rule: region.cases) (auto simp: found_of_def split: if_splits)
    from this [OF x] this [OF f(2)] show ?thesis
      using Cons.prems f(1) unfolding apart_def apart_events_def by fastforce
  qed
  moreover have "found_of metric z (e # es) = found_of metric z [e] @ found_of metric z es" by (simp add: found_of_def)
  moreover have "sorted_wrt apart (found_of metric z [e])" by (cases e rule: region.cases) (simp_all add: found_of_def)
  ultimately show ?case using Cons by (auto simp: sorted_wrt_append)
qed (simp add: found_of_def)

lemma clumps_hits:
  assumes inv: "db_inv exps db" and metric: "\<And>x. metric x \<noteq> None"
    and c: "clumps (db_root db) may z (qbounds db) es" and may: "\<And>m q. may m q \<Longrightarrow> narrow epsilon q"
  shows "clustered_hits db metric epsilon z (found_of metric z es)" "\<And>a s. Inl (a, s) \<in> set es \<Longrightarrow> slot_key_node s \<noteq> None"
proof -
  let ?w = "walk (db_root db) z (qbounds db)" and ?xs = "found_of metric z es"
  note w = walk_records [OF inv, where z = z]
  have sub: "subseq (slots_of es) ?w" by (rule clumps_subseq [OF c])
  then have mem: "(a, s) \<in> set ?w" if "Inl (a, s) \<in> set es" for a s
    using list_emb_set [OF sub, of "(a, s)"] that by auto
  show "slot_key_node s \<noteq> None" if "Inl (a, s) \<in> set es" for a s using w(2) [OF mem [OF that]] by auto
  have "subseq (entry_keys (slots_of es)) (entry_keys ?w)" using sub by (rule subseq_map)
  then have "subseq (record_keys ?xs) (entry_keys ?w)" by (rule subseq_order.trans [OF found_keys_subseq])
  then have "distinct (record_keys ?xs)" using w(1) by (metis distinct_nthsI subseq_conv_nths)
  moreover have "sorted_wrt apart ?xs"
    by (rule found_apart [OF clumps_apart [OF c]]) (use db_invD(4) [OF inv] in \<open>auto simp: index_inv_def\<close>)
  moreover have "position_is_in_rect (position s) z \<and> metric (position s) = Some d \<and>
      (\<exists>k. slot_key_node s = Some k \<and> position_of db k = Some (position s))" if "Record s d \<in> set ?xs" for s d
    using that w(2) [OF mem] metric [of "position s"] unfolding mem_found_of by auto
  moreover have "cluster_cell db epsilon m q \<and> rectangle2d_intersect q z" if "Cluster m q \<in> set ?xs" for m q
    using that clumps_clusters [OF c] may part_cell [OF inv] unfolding mem_found_of by blast
  moreover have "(\<exists>s d. Record s d \<in> set ?xs \<and> slot_key_node s = Some k) \<or>
      (\<exists>m q. cluster_cell db epsilon m q \<and> position_is_in_rect x q \<and> (position_is_in_rect (cluster_center q) q \<longrightarrow> Cluster m q \<in> set ?xs))"
    if k: "position_of db k = Some x" "position_is_in_rect x z" for k x
  proof -
    obtain a s where s: "(a, s) \<in> set ?w" "slot_key_node s = Some k" "position s = x" using w(3) [OF k] by blast
    from clumps_cover [OF c s(1)] show ?thesis
    proof (elim disjE exE conjE)
      assume "Inl (a, s) \<in> set es"
      then show ?thesis using s(2,3) k(2) unfolding mem_found_of by blast
    next
      fix n q assume n: "Inr (nslots n, q) \<in> set es" "node_part (db_root db) (qbounds db) n q" "is_quad n" "(a, s) \<in> set (walk n z q)"
      have cell: "cluster_cell db epsilon (nslots n) q"
        by (rule part_cell [OF inv n(2,3)]) (use clumps_clusters [OF c n(1)] may in blast)
      have ix: "rect_ok (qbounds db)" "node_inv (db_root db) [] (qbounds db)" "links (nodes_of db) [] (db_root db)"
        using db_invD(4) [OF inv] by (simp_all add: index_inv_def)
      obtain p' where p': "rect_ok q" "node_inv n p' q" using part_inv [OF n(2) ix] by blast
      have "position_is_in_rect x q"
        using walk_sound [OF p'(2) n(4)] content_in_rect [OF p'] s(3) by blast
      then show ?thesis using cell n(1) unfolding mem_found_of by blast
    qed
  qed
  ultimately show "clustered_hits db metric epsilon z ?xs" unfolding clustered_hits_def by blast
qed

lemma zone_found:
  fixes c :: 'c
  assumes inv: "db_inv exps db" and db: "measurable db" "qheight (db_root db) \<le> 56"
  shows "\<exists>xs. clustered_hits db (rect_distance lib db (rect_center z)) epsilon z xs \<and>
    find_in_rect_in_zone lib db cb cluster_cb limit epsilon z c = report_found cb (cluster_report db cluster_cb) limit xs c"
proof -
  let ?oc = "find_in_rect_cluster_context_cb db cluster_cb" and ?visit = "find_in_rect_context_cb lib db (rect_center z) z cb"
  let ?metric = "rect_distance lib db (rect_center z)"
  have metric: "?metric x \<noteq> None" for x by (rule measurable_distances(2) [OF db(1)])
  have ix: "is_quad (db_root db)" "all_tidy (db_root db)"
    using db_invD(4) [OF inv] node_inv_all_tidy by (auto simp: index_inv_def)
  have room: "length ([] :: quad_stack) + 3 * qheight (db_root db) + 1 \<le> SEARCH_STACK_ROOM"
    using db(2) by (simp add: SEARCH_STACK_ROOM_def)
  obtain es where es: "clumps (db_root db) (may_cluster (is_cluster epsilon :: 'c \<times> nat \<Rightarrow> nat \<Rightarrow> rectangle2d \<Rightarrow> bool)) z (qbounds db) es"
    "search_loop (is_cluster epsilon) ?oc ?visit z (db_root db) (qbounds db) [] (c, limit) =
       pop_search (resume_clusters (is_cluster epsilon) ?oc ?visit z) (run_events ?visit ?oc es (c, limit)) []"
    using search_loop_events [OF ix, of "[]" "is_cluster epsilon" z "qbounds db" ?oc ?visit "(c, limit)", OF room] by blast
  have "pop_search (resume_clusters (is_cluster epsilon) ?oc ?visit z) r [] = r" for r
    by (auto simp: pop_search_def resume_clusters_def split: option.splits)
  then have run: "find_in_rect_in_zone lib db cb cluster_cb limit epsilon z c = drop_limit (run_events ?visit ?oc es (c, limit))"
    unfolding find_in_rect_in_zone_def es(2) drop_limit_bind by simp
  have narrow: "narrow epsilon q" if "may_cluster (is_cluster epsilon :: 'c \<times> nat \<Rightarrow> nat \<Rightarrow> rectangle2d \<Rightarrow> bool) m q" for m q
    using that by (auto simp: is_cluster_def narrow_def)
  note hits = clumps_hits [OF inv metric es(1) narrow]
  show ?thesis unfolding run
  proof (intro exI conjI)
    show "clustered_hits db ?metric epsilon z (found_of ?metric z es)" by (rule hits(1))
    show "drop_limit (run_events ?visit ?oc es (c, limit)) =
        report_found cb (cluster_report db cluster_cb) limit (found_of ?metric z es) c"
      by (rule found_report [OF hits(2) metric])
  qed
qed

end
