(* ===== verification/Search_Handlers.thy ===== *)
theory Search_Handlers
  imports Cluster_Search Record_Json
begin

text \<open>
  The workers' side of the three searches (\<open>domain_search.c\<close>: handle_op_search_nearby,
  handle_op_search_in_rect, handle_op_search_in_keys): the layer is looked up, the records that the index or the tree of
  keys finds are written into the reply. The theorems say which records an answer lists, when it is the overflow
  answer, and that a key search without a star finds nothing.
\<close>

section \<open>Searches in the index\<close>

record search_nearby_op =
  near_bare :: bare_op
  near_layer_name :: bytes
  near_position :: position2d
  near_radius :: dimension
  near_limit :: nat
  near_epsilon :: dimension
  near_with_properties :: bool
  near_with_links :: bool

record search_in_rect_op =
  rect_bare :: bare_op
  rect_layer_name :: bytes
  search_rect :: rectangle2d
  rect_limit :: nat
  rect_epsilon :: dimension
  rect_with_properties :: bool
  rect_with_links :: bool

text \<open>The context of the callbacks is the generator; the results of key_node_to_json are not looked at.\<close>

definition find_near_cb ::
  "memory \<Rightarrow> expirable slab \<Rightarrow> pan_db \<Rightarrow> bool \<Rightarrow> bool \<Rightarrow> yajl_gen \<Rightarrow> slot \<Rightarrow> dimension \<Rightarrow> (int \<times> yajl_gen) option" where
  "find_near_cb mem exps db with_properties with_links gen slot distance =
     do {
       key_node \<leftarrow> slot_key_node slot;
       (_, gen') \<leftarrow> key_node_to_json mem exps db key_node with_properties with_links
         (gen @ [Gen_Map_Open, gen_str ''distance'', Gen_Double distance]);
       Some (0, gen' @ [Gen_Map_Close])
     }"

definition find_in_rect_cb ::
  "memory \<Rightarrow> expirable slab \<Rightarrow> pan_db \<Rightarrow> bool \<Rightarrow> bool \<Rightarrow> yajl_gen \<Rightarrow> slot \<Rightarrow> dimension \<Rightarrow> (int \<times> yajl_gen) option" where
  "find_in_rect_cb mem exps db with_properties with_links gen slot distance =
     find_near_cb mem exps db with_properties with_links gen slot distance"

definition find_near_cluster_cb :: "yajl_gen \<Rightarrow> position2d \<Rightarrow> dimension \<Rightarrow> nat \<Rightarrow> (int \<times> yajl_gen) option" where
  "find_near_cluster_cb gen p radius children =
     Some (0, gen @
       [Gen_Map_Open, gen_str ''type'', gen_str ''cluster'', gen_str ''children'', Gen_Integer (int children),
        gen_str ''latitude'', Gen_Double (latitude p), gen_str ''longitude'', Gen_Double (longitude p),
        gen_str ''radius'', Gen_Double radius, Gen_Map_Close])"

definition find_in_rect_cluster_cb :: "yajl_gen \<Rightarrow> position2d \<Rightarrow> dimension \<Rightarrow> nat \<Rightarrow> (int \<times> yajl_gen) option" where
  "find_in_rect_cluster_cb gen p radius children = find_near_cluster_cb gen p radius children"

text \<open>A search that was stopped is answered with a new document without matches.\<close>

definition search_document :: "int \<Rightarrow> yajl_gen \<Rightarrow> yajl_gen" where
  "search_document ret gen =
     (if ret \<noteq> 0
      then [gen_str ''overflow'', Gen_Bool True, gen_str ''matches'', Gen_Array_Open, Gen_Array_Close]
      else gen @ [Gen_Array_Close])"

definition handle_op_search_nearby ::
  "libm \<Rightarrow> memory \<Rightarrow> db_defaults \<Rightarrow> search_nearby_op \<Rightarrow> http_context \<Rightarrow> (int \<times> http_context) option" where
  "handle_op_search_nearby lib mem cfg op ctx =
     do {
       (status, pdb, ctx1) \<leftarrow> get_pan_db_by_layer_name mem cfg (near_layer_name op) False ctx;
       (if status < 0 then Some (HTTP_NOTFOUND, ctx1)
        else if fake_req (near_bare op) then Some (0, ctx1)
        else if \<not> reply_mem mem then Some (HTTP_SERVUNAVAIL, ctx1)
        else
          do {
            l \<leftarrow> pdb;
            layer \<leftarrow> slab_contents (layers_slab ctx1) l;
            (ret, gen) \<leftarrow> find_near lib (stack_mem mem) (layer_db layer)
              (find_near_cb mem (expirables_slab ctx1) (layer_db layer) (near_with_properties op) (near_with_links op))
              (near_position op) (near_radius op) (near_limit op) [gen_str ''matches'', Gen_Array_Open];
            Some (send_reply mem OP_TYPE_SEARCH_NEARBY (near_bare op) (search_document ret gen) ctx1)
          })
     }"

definition handle_op_search_in_rect ::
  "libm \<Rightarrow> memory \<Rightarrow> db_defaults \<Rightarrow> search_in_rect_op \<Rightarrow> http_context \<Rightarrow> (int \<times> http_context) option" where
  "handle_op_search_in_rect lib mem cfg op ctx =
     do {
       (status, pdb, ctx1) \<leftarrow> get_pan_db_by_layer_name mem cfg (rect_layer_name op) False ctx;
       (if status < 0 then Some (HTTP_NOTFOUND, ctx1)
        else if fake_req (rect_bare op) then Some (0, ctx1)
        else if \<not> reply_mem mem then Some (HTTP_SERVUNAVAIL, ctx1)
        else
          do {
            l \<leftarrow> pdb;
            layer \<leftarrow> slab_contents (layers_slab ctx1) l;
            (ret, gen) \<leftarrow> find_in_rect lib (stack_mem mem) (layer_db layer)
              (find_in_rect_cb mem (expirables_slab ctx1) (layer_db layer) (rect_with_properties op) (rect_with_links op))
              find_in_rect_cluster_cb (search_rect op) (rect_limit op) (rect_epsilon op)
              [gen_str ''matches'', Gen_Array_Open];
            Some (send_reply mem OP_TYPE_SEARCH_IN_RECT (rect_bare op) (search_document ret gen) ctx1)
          })
     }"

section \<open>Search by key\<close>

record search_in_keys_op =
  keys_bare :: bare_op
  keys_layer_name :: bytes
  keys_pattern :: bytes
  keys_limit :: nat
  keys_with_properties :: bool
  keys_with_content :: bool
  keys_with_links :: bool

text \<open>
  The length of the pattern without its final zero and without a star, and whether there was a
  star. None: the result is empty. The zero is cut off in all keys made from C strings.
\<close>

definition key_pattern :: "bytes \<Rightarrow> (nat \<times> bool) option" where
  "key_pattern c_pattern =
     (let len = length c_pattern;
          pattern_len = (if len > 0 \<and> c_pattern ! (len - 1) = 0 then len - 1 else len)
      in if pattern_len = 0 then None
         else if c_pattern ! (pattern_len - 1) = chr CHR ''*'' then Some (pattern_len - 1, True)
         else Some (pattern_len, False))"

definition first_matching_nodes :: "key_store \<Rightarrow> bytes \<Rightarrow> bool \<Rightarrow> nat list" where
  "first_matching_nodes s pattern wildcard =
     (if pattern = [] then kn_tree s
      else if \<not> wildcard then
        (case rb_find (\<lambda>y. key_node_cmp pattern (key_at s y)) (kn_tree s) of
           None \<Rightarrow> []
         | Some a \<Rightarrow> dropWhile (\<lambda>y. y \<noteq> a) (kn_tree s))
      else rb_nfind (\<lambda>y. key_node_cmp pattern (key_at s y)) (kn_tree s))"

text \<open>The loop over the key nodes from the one found. The limit is a 64-bit counter that is decremented first.\<close>

fun search_keys ::
  "memory \<Rightarrow> expirable slab \<Rightarrow> pan_db \<Rightarrow> search_in_keys_op \<Rightarrow> bytes \<Rightarrow> bool \<Rightarrow> nat \<Rightarrow> nat list \<Rightarrow> yajl_gen \<Rightarrow> yajl_gen option" where
  "search_keys mem exps db op pattern wildcard limit [] gen = Some gen"
| "search_keys mem exps db op pattern wildcard limit (a # as) gen =
     do {
       found \<leftarrow> nodes_of db a;
       (if length pattern > 0 \<and>
           (length (kn_key found) < length pattern \<or> take (length pattern) (kn_key found) \<noteq> pattern)
        then Some gen
        else
          do {
            gen' \<leftarrow>
              (if length (kn_key found) > 1 \<and> (wildcard \<or> length (kn_key found) = length pattern) then
                 (if \<not> keys_with_content op then Some (gen @ [Gen_String (butlast (kn_key found))])
                  else
                    do {
                      (_, gen1) \<leftarrow> key_node_to_json mem exps db a (keys_with_properties op) (keys_with_links op)
                        (gen @ [Gen_Map_Open]);
                      Some (gen1 @ [Gen_Map_Close])
                    })
               else Some gen);
            (let limit' = (limit + (2 ^ 64 - 1)) mod 2 ^ 64
             in if \<not> wildcard \<or> limit' = 0 then Some gen'
                else search_keys mem exps db op pattern wildcard limit' as gen')
          })
     }"

definition handle_op_search_in_keys ::
  "memory \<Rightarrow> db_defaults \<Rightarrow> search_in_keys_op \<Rightarrow> http_context \<Rightarrow> (int \<times> http_context) option" where
  "handle_op_search_in_keys mem cfg op ctx =
     do {
       (status, pdb, ctx1) \<leftarrow> get_pan_db_by_layer_name mem cfg (keys_layer_name op) False ctx;
       (if status < 0 then Some (HTTP_NOTFOUND, ctx1)
        else if fake_req (keys_bare op) then Some (0, ctx1)
        else if \<not> reply_mem mem then Some (HTTP_SERVUNAVAIL, ctx1)
        else
          do {
            l \<leftarrow> pdb;
            layer \<leftarrow> slab_contents (layers_slab ctx1) l;
            (let gen = [gen_str (if keys_with_content op then ''matches'' else ''keys''), Gen_Array_Open]
             in do {
                  gen' \<leftarrow>
                    (case key_pattern (keys_pattern op) of
                       None \<Rightarrow> Some gen
                     | Some (pattern_len, wildcard) \<Rightarrow>
                         (let pattern = take pattern_len (keys_pattern op)
                          in search_keys mem (expirables_slab ctx1) (layer_db layer) op pattern wildcard (keys_limit op)
                               (first_matching_nodes (key_nodes (layer_db layer)) pattern wildcard) gen));
                  Some (send_reply mem OP_TYPE_SEARCH_IN_KEYS (keys_bare op) (gen' @ [Gen_Array_Close]) ctx1)
                })
          })
     }"

section \<open>Documents\<close>

text \<open>What is told of the record of node a, without or with the records it is linked to.\<close>

definition json_answer :: "expirable slab \<Rightarrow> pan_db \<Rightarrow> bool \<Rightarrow> bool \<Rightarrow> nat \<Rightarrow> yajl_gen \<Rightarrow> bool" where
  "json_answer exps db with_properties with_links a calls =
     (if with_links
      then \<exists>bs. calls = node_calls exps db with_properties a @ [gen_str ''$links'', Gen_Map_Open] @
               concat (map (link_calls exps db with_properties) bs) @ [Gen_Map_Close] \<and>
             distinct (a # bs) \<and> set (a # bs) = reachable db with_properties a
      else calls = node_calls exps db with_properties a)"

definition few_links :: "pan_db \<Rightarrow> bool \<Rightarrow> bool \<Rightarrow> bool" where
  "few_links db with_properties with_links =
     (with_links \<longrightarrow> (\<forall>a \<in> dom (nodes_of db). card (reachable db with_properties a) \<le> 256))"

lemma json_answer_law:
  assumes "plain_db exps db" "few_links db with_properties with_links" "good_memory mem" "a \<in> dom (nodes_of db)"
  shows "\<exists>calls. key_node_to_json mem exps db a with_properties with_links gen = Some (0, gen @ calls) \<and>
    json_answer exps db with_properties with_links a calls"
proof (cases with_links)
  case True
  have "card (reachable db with_properties a) \<le> 256" using assms(2,4) True by (simp add: few_links_def)
  from json_links_law [OF assms(1,4) good_memoryD(7,9) [OF assms(3)] this, of gen] show ?thesis
    using True unfolding json_answer_def by auto
next
  case False
  then show ?thesis
    using json1_no_links [OF assms(1,4), of mem with_properties gen] by (simp add: key_node_to_json_def json_answer_def)
qed

definition hit_document :: "expirable slab \<Rightarrow> pan_db \<Rightarrow> bool \<Rightarrow> bool \<Rightarrow> slot \<times> dimension \<Rightarrow> yajl_gen \<Rightarrow> bool" where
  "hit_document exps db with_properties with_links hit doc =
     (\<exists>a calls. slot_key_node (fst hit) = Some a \<and> json_answer exps db with_properties with_links a calls \<and>
        doc = [Gen_Map_Open, gen_str ''distance'', Gen_Double (snd hit)] @ calls @ [Gen_Map_Close])"

text \<open>Callbacks that add one document for every hit.\<close>

definition writes :: "yajl_gen slot_cb \<Rightarrow> (slot \<times> dimension \<Rightarrow> yajl_gen \<Rightarrow> bool) \<Rightarrow> hits \<Rightarrow> bool" where
  "writes cb P hs = (\<forall>(s, d) \<in> set hs. \<forall>gen. \<exists>doc. cb gen s d = Some (0, gen @ doc) \<and> P (s, d) doc)"

lemma writes_Cons:
  assumes "writes cb P ((s, d) # hs)"
  obtains doc where "cb gen s d = Some (0, gen @ doc)" "P (s, d) doc" "writes cb P hs"
proof -
  have "\<exists>doc. cb gen s d = Some (0, gen @ doc) \<and> P (s, d) doc" "writes cb P hs"
    using assms by (simp_all add: writes_def)
  then show thesis using that by blast
qed

lemma report_stops: "writes cb P hs \<Longrightarrow> 0 < limit \<Longrightarrow> limit \<le> length hs \<Longrightarrow> \<exists>gen'. report cb limit hs gen = Some (1, gen')"
proof (induction hs arbitrary: limit gen)
  case (Cons h hs)
  obtain s d where h: "h = (s, d)" by (cases h)
  obtain doc where "cb gen s d = Some (0, gen @ doc)" "writes cb P hs" by (rule writes_Cons [OF Cons.prems(1) [unfolded h], of gen])
  then show ?case using Cons.IH [of "limit - 1" "gen @ doc"] Cons.prems(2,3) by (cases "limit \<le> 1") (auto simp: h)
qed simp

lemma report_documents:
  "writes cb P hs \<Longrightarrow> length hs < limit \<Longrightarrow>
   \<exists>docs. report cb limit hs gen = Some (0, gen @ concat docs) \<and> list_all2 P hs docs"
proof (induction hs arbitrary: limit gen)
  case (Cons h hs)
  obtain s d where h: "h = (s, d)" by (cases h)
  obtain doc where doc: "cb gen s d = Some (0, gen @ doc)" "P (s, d) doc" "writes cb P hs"
    by (rule writes_Cons [OF Cons.prems(1) [unfolded h], of gen])
  have "length hs < limit - 1" using Cons.prems(2) by simp
  from Cons.IH [OF doc(3) this, of "gen @ doc"]
  obtain docs where "report cb (limit - 1) hs (gen @ doc) = Some (0, (gen @ doc) @ concat docs)" "list_all2 P hs docs" by blast
  then show ?case using doc(1,2) Cons.prems(2) by (intro exI [of _ "doc # docs"]) (auto simp: h)
qed simp

lemma within_stops: "writes cb P hs \<Longrightarrow> limit < length hs \<Longrightarrow> \<exists>gen'. report_within cb limit hs gen = Some (1, gen')"
proof (induction hs arbitrary: limit gen)
  case (Cons h hs)
  obtain s d where h: "h = (s, d)" by (cases h)
  obtain doc where "cb gen s d = Some (0, gen @ doc)" "writes cb P hs" by (rule writes_Cons [OF Cons.prems(1) [unfolded h], of gen])
  then show ?case using Cons.IH [of "limit - 1" "gen @ doc"] Cons.prems(2) by (cases limit) (auto simp: h)
qed simp

lemma within_documents:
  "writes cb P hs \<Longrightarrow> length hs \<le> limit \<Longrightarrow>
   \<exists>docs. report_within cb limit hs gen = Some (0, gen @ concat docs) \<and> list_all2 P hs docs"
proof (induction hs arbitrary: limit gen)
  case (Cons h hs)
  obtain s d where h: "h = (s, d)" by (cases h)
  obtain doc where doc: "cb gen s d = Some (0, gen @ doc)" "P (s, d) doc" "writes cb P hs"
    by (rule writes_Cons [OF Cons.prems(1) [unfolded h], of gen])
  have "length hs \<le> limit - 1" using Cons.prems(2) by simp
  from Cons.IH [OF doc(3) this, of "gen @ doc"]
  obtain docs where "report_within cb (limit - 1) hs (gen @ doc) = Some (0, (gen @ doc) @ concat docs)" "list_all2 P hs docs" by blast
  then show ?case using doc(1,2) Cons.prems(2) by (intro exI [of _ "doc # docs"]) (auto simp: h)
qed simp

lemma zones_documents:
  assumes "\<And>z gen. stops z \<Longrightarrow> \<exists>gen'. f z gen = Some (1, gen')"
    and "\<And>z gen. \<not> stops z \<Longrightarrow> \<exists>docs. f z gen = Some (0, gen @ concat docs) \<and> list_all2 P (hits z) docs"
  shows "\<exists>ret gen'. search_zones f zs gen = Some (ret, gen') \<and> (ret \<noteq> 0 \<longleftrightarrow> (\<exists>z \<in> set zs. stops z)) \<and>
    (ret = 0 \<longrightarrow> (\<exists>docs. gen' = gen @ concat docs \<and> list_all2 P (concat (map hits zs)) docs))"
proof (induction zs arbitrary: gen)
  case (Cons z zs)
  show ?case
  proof (cases "stops z")
    case True
    then obtain gen' where "f z gen = Some (1, gen')" using assms(1) by blast
    then show ?thesis using True by simp
  next
    case False
    then obtain docs where d: "f z gen = Some (0, gen @ concat docs)" "list_all2 P (hits z) docs" using assms(2) by blast
    obtain ret gen' where r: "search_zones f zs (gen @ concat docs) = Some (ret, gen')" "ret \<noteq> 0 \<longleftrightarrow> (\<exists>z \<in> set zs. stops z)"
      "ret = 0 \<longrightarrow> (\<exists>docs'. gen' = (gen @ concat docs) @ concat docs' \<and> list_all2 P (concat (map hits zs)) docs')"
      using Cons.IH [of "gen @ concat docs"] by blast
    have "\<exists>docs'. gen' = gen @ concat docs' \<and> list_all2 P (concat (map hits (z # zs))) docs'" if ret: "ret = 0"
    proof -
      obtain docs' where "gen' = (gen @ concat docs) @ concat docs'" "list_all2 P (concat (map hits zs)) docs'" using r(3) ret by blast
      then show ?thesis using d(2) by (intro exI [of _ "docs @ docs'"]) (simp add: list_all2_appendI)
    qed
    then show ?thesis using d(1) r(1,2) False by auto
  qed
qed simp

text \<open>The answer to a search: the hits of all zones, or the overflow document if a zone has too many.\<close>

definition search_answer ::
  "(slot \<times> dimension \<Rightarrow> yajl_gen \<Rightarrow> bool) \<Rightarrow> (rectangle2d \<Rightarrow> hits) \<Rightarrow> (nat \<Rightarrow> bool) \<Rightarrow> rectangle2d list \<Rightarrow> yajl_gen \<Rightarrow> bool" where
  "search_answer P hits too_many zs calls =
     (if \<exists>z \<in> set zs. too_many (length (hits z))
      then calls = [gen_str ''overflow'', Gen_Bool True, gen_str ''matches'', Gen_Array_Open, Gen_Array_Close]
      else \<exists>docs. list_all2 P (concat (map hits zs)) docs \<and>
             calls = [gen_str ''matches'', Gen_Array_Open] @ concat docs @ [Gen_Array_Close])"

lemma zones_answer:
  assumes "\<And>z gen. too_many (length (hits z)) \<Longrightarrow> \<exists>gen'. f z gen = Some (1, gen')"
    and "\<And>z gen. \<not> too_many (length (hits z)) \<Longrightarrow> \<exists>docs. f z gen = Some (0, gen @ concat docs) \<and> list_all2 P (hits z) docs"
  shows "\<exists>ret gen'. search_zones f zs [gen_str ''matches'', Gen_Array_Open] = Some (ret, gen') \<and>
    search_answer P hits too_many zs (search_document ret gen')"
proof -
  obtain ret gen' where r: "search_zones f zs [gen_str ''matches'', Gen_Array_Open] = Some (ret, gen')"
    "ret \<noteq> 0 \<longleftrightarrow> (\<exists>z \<in> set zs. too_many (length (hits z)))"
    "ret = 0 \<longrightarrow> (\<exists>docs. gen' = [gen_str ''matches'', Gen_Array_Open] @ concat docs \<and> list_all2 P (concat (map hits zs)) docs)"
    using zones_documents [where stops = "\<lambda>z. too_many (length (hits z))" and f = f and hits = hits and P = P and zs = zs
        and gen = "[gen_str ''matches'', Gen_Array_Open]", OF assms] by blast
  have "search_answer P hits too_many zs (search_document ret gen')"
  proof (cases "ret = 0")
    case True
    then obtain docs where "gen' = [gen_str ''matches'', Gen_Array_Open] @ concat docs" "list_all2 P (concat (map hits zs)) docs"
      using r(3) by blast
    then show ?thesis using True r(2) by (auto simp: search_answer_def search_document_def)
  next
    case False
    then show ?thesis using r(2) by (simp add: search_answer_def search_document_def)
  qed
  then show ?thesis using r(1) by blast
qed

section \<open>The handlers of the index\<close>

text \<open>What a layer must be for a search to be answered.\<close>

definition searchable :: "expirable slab \<Rightarrow> pan_db \<Rightarrow> bool \<Rightarrow> bool \<Rightarrow> bool" where
  "searchable exps db with_properties with_links =
     (plain_db exps db \<and> measurable db \<and> qheight (db_root db) \<le> 56 \<and> few_links db with_properties with_links)"

lemma hit_writes:
  assumes db: "searchable exps db with_properties with_links" and mem: "good_memory mem"
    and a: "slot_key_node s = Some a" "position_of db a = Some x"
  shows "\<exists>doc. find_near_cb mem exps db with_properties with_links gen s d = Some (0, gen @ doc) \<and>
    hit_document exps db with_properties with_links (s, d) doc"
proof -
  have pl: "plain_db exps db" "few_links db with_properties with_links" using db by (simp_all add: searchable_def)
  have "a \<in> dom (nodes_of db)" using a(2) by (auto simp: position_of_def split: bind_splits)
  from json_answer_law [OF pl mem this, of "gen @ [Gen_Map_Open, gen_str ''distance'', Gen_Double d]"]
  obtain calls where "key_node_to_json mem exps db a with_properties with_links
      (gen @ [Gen_Map_Open, gen_str ''distance'', Gen_Double d]) =
      Some (0, (gen @ [Gen_Map_Open, gen_str ''distance'', Gen_Double d]) @ calls)"
    "json_answer exps db with_properties with_links a calls" by blast
  then show ?thesis
    using a(1) by (intro exI [of _ "[Gen_Map_Open, gen_str ''distance'', Gen_Double d] @ calls @ [Gen_Map_Close]"])
      (auto simp: find_near_cb_def hit_document_def)
qed

lemma hits_write:
  assumes "searchable exps db with_properties with_links" "good_memory mem" "hits_of db metric Q z hs"
  shows "writes (find_near_cb mem exps db with_properties with_links) (hit_document exps db with_properties with_links) hs"
  unfolding writes_def
proof (intro ballI, clarify)
  fix s d gen assume "(s, d) \<in> set hs"
  then obtain a where "slot_key_node s = Some a" "position_of db a = Some (position s)"
    using assms(3) unfolding hits_of_def by blast
  from hit_writes [OF assms(1,2) this] show "\<exists>doc. find_near_cb mem exps db with_properties with_links gen s d = Some (0, gen @ doc) \<and>
      hit_document exps db with_properties with_links (s, d) doc" .
qed

text \<open>
  C15: a search around a position is answered, when the layer exists, with the documents of its hits, zone by zone, each with its
  distance and with the record as it is stored; if some zone has as many hits as the limit, with the overflow document and no
  matches. Nothing but the queue of replies is changed. An unknown layer is answered with 404.
\<close>

theorem search_nearby_answers:
  assumes "ctx_inv ctx" "good_memory mem" "near_limit op > 0" "\<not> fake_req (near_bare op)"
    and "\<forall>db. layers ctx (near_layer_name op) = Some db \<longrightarrow>
      searchable (expirables_slab ctx) db (near_with_properties op) (near_with_links op)"
  shows "\<exists>status ctx'. handle_op_search_nearby lib mem cfg op ctx = Some (status, ctx') \<and> ctx' = ctx\<lparr>published := published ctx'\<rparr> \<and>
    (case layers ctx (near_layer_name op) of
       None \<Rightarrow> status = HTTP_NOTFOUND \<and> ctx' = ctx
     | Some db \<Rightarrow> \<exists>hits calls.
         (\<forall>z. hits_of db (layer_distance lib db (near_position op)) (\<lambda>x d. fle d (near_radius op)) z (hits z)) \<and>
         search_answer (hit_document (expirables_slab ctx) db (near_with_properties op) (near_with_links op)) hits
           (\<lambda>n. n \<ge> near_limit op) (near_zones lib db (near_position op) (near_radius op)) calls \<and>
         answered mem OP_TYPE_SEARCH_NEARBY (near_bare op) calls status ctx ctx')"
proof (cases "layers ctx (near_layer_name op)")
  case None
  then show ?thesis using get_pan_db_none(1) [OF assms(1) None] by (simp add: handle_op_search_nearby_def)
next
  case (Some db)
  let ?exps = "expirables_slab ctx" and ?cb = "find_near_cb mem (expirables_slab ctx) db (near_with_properties op) (near_with_links op)"
  let ?P = "hit_document ?exps db (near_with_properties op) (near_with_links op)"
  let ?zs = "near_zones lib db (near_position op) (near_radius op)"
  have se: "searchable ?exps db (near_with_properties op) (near_with_links op)" using assms(5) Some by blast
  then have ok: "db_inv ?exps db" "measurable db" "qheight (db_root db) \<le> 56"
    using plain_dbD(1) by (auto simp: searchable_def)
  let ?hits = "near_hits lib db (near_position op) (near_radius op)"
  have hits: "hits_of db (layer_distance lib db (near_position op)) (\<lambda>x d. fle d (near_radius op)) z (?hits z)" for z
    unfolding near_hits_def by (rule measured_hits [OF ok(1) measurable_distances(1) [OF ok(2)]])
  note w = hits_write [OF se assms(2) hits]
  obtain ret gen' where r: "search_zones (\<lambda>z. report ?cb (near_limit op) (?hits z)) ?zs [gen_str ''matches'', Gen_Array_Open] = Some (ret, gen')"
    "search_answer ?P ?hits (\<lambda>n. n \<ge> near_limit op) ?zs (search_document ret gen')"
    using zones_answer [where f = "\<lambda>z. report ?cb (near_limit op) (?hits z)" and hits = ?hits and P = ?P and zs = ?zs and
        too_many = "\<lambda>n. n \<ge> near_limit op"] report_stops [OF w assms(3)] report_documents [OF w] by (meson not_le_imp_less)
  have f: "find_near lib True db ?cb (near_position op) (near_radius op) (near_limit op) [gen_str ''matches'', Gen_Array_Open] =
      Some (ret, gen')" unfolding find_near_walks [OF ok assms(3)] by (rule r(1))
  have s: "Some (send_reply mem OP_TYPE_SEARCH_NEARBY (near_bare op) (search_document ret gen') ctx) =
      handle_op_search_nearby lib mem cfg op ctx"
    using get_pan_db_law [OF assms(1) Some, of mem cfg False] f assms(4) good_memoryD(8,9) [OF assms(2)]
    by (auto simp: handle_op_search_nearby_def)
  obtain status ctx' where c: "handle_op_search_nearby lib mem cfg op ctx = Some (status, ctx')" unfolding s [symmetric] by (metis surj_pair)
  from answered_send [OF s [unfolded c] assms(4) good_memoryD(8) [OF assms(2)]] show ?thesis
    using c Some hits r(2) by (intro exI [of _ status] exI [of _ ctx'] conjI) auto
qed

section \<open>With clusters\<close>

text \<open>The document of a cluster tells how many records its cell has, modulo 2^32, its centre and its radius.\<close>

definition cluster_document :: "pan_db \<Rightarrow> nat \<Rightarrow> rectangle2d \<Rightarrow> yajl_gen" where
  "cluster_document db m q =
     [Gen_Map_Open, gen_str ''type'', gen_str ''cluster'', gen_str ''children'', Gen_Integer (int (m mod 2 ^ 32)),
      gen_str ''latitude'', Gen_Double (latitude (cluster_center q)), gen_str ''longitude'', Gen_Double (longitude (cluster_center q)),
      gen_str ''radius'', Gen_Double (cluster_radius db q), Gen_Map_Close]"

fun found_document :: "expirable slab \<Rightarrow> pan_db \<Rightarrow> bool \<Rightarrow> bool \<Rightarrow> found \<Rightarrow> yajl_gen \<Rightarrow> bool" where
  "found_document exps db with_properties with_links (Record s d) doc = hit_document exps db with_properties with_links (s, d) doc"
| "found_document exps db with_properties with_links (Cluster m q) doc = (doc = cluster_document db m q)"

lemma cluster_report_document:
  "find_in_rect_cluster_cb gen (cluster_center q) (cluster_radius db q) (m mod 4294967296) = Some (0, gen @ cluster_document db m q)"
  by (simp add: find_in_rect_cluster_cb_def find_near_cluster_cb_def cluster_document_def)

lemma found_documents:
  assumes "\<And>s d gen. Record s d \<in> set xs \<Longrightarrow> \<exists>doc. cb gen s d = Some (0, gen @ doc) \<and> found_document exps db wp wl (Record s d) doc"
  shows "\<exists>ret gen'. report_found cb (cluster_report db find_in_rect_cluster_cb) limit xs gen = Some (ret, gen') \<and>
    (ret \<noteq> 0 \<longrightarrow> limit \<le> length xs) \<and>
    (ret = 0 \<longrightarrow> length xs \<le> limit \<and> (\<exists>docs. gen' = gen @ concat docs \<and> list_all2 (found_document exps db wp wl) xs docs))"
  using assms
proof (induction xs arbitrary: limit gen)
  case (Cons x xs)
  let ?report = "report_found cb (cluster_report db find_in_rect_cluster_cb)"
  have IH: "\<exists>ret gen'. ?report l xs g = Some (ret, gen') \<and> (ret \<noteq> 0 \<longrightarrow> l \<le> length xs) \<and>
      (ret = 0 \<longrightarrow> length xs \<le> l \<and> (\<exists>docs. gen' = g @ concat docs \<and> list_all2 (found_document exps db wp wl) xs docs))" for l g
    by (rule Cons.IH) (use Cons.prems in \<open>meson list.set_intros(2)\<close>)
  have step: ?case if one: "\<exists>doc. ?report limit (x # xs) gen = ?report (limit - 1) xs (gen @ doc) \<and> found_document exps db wp wl x doc"
    and l: "0 < limit"
  proof -
    obtain doc where doc: "?report limit (x # xs) gen = ?report (limit - 1) xs (gen @ doc)" "found_document exps db wp wl x doc"
      using one by blast
    obtain ret gen' where r: "?report (limit - 1) xs (gen @ doc) = Some (ret, gen')" "ret \<noteq> 0 \<longrightarrow> limit - 1 \<le> length xs"
      "ret = 0 \<longrightarrow> length xs \<le> limit - 1 \<and> (\<exists>docs. gen' = (gen @ doc) @ concat docs \<and> list_all2 (found_document exps db wp wl) xs docs)"
      using IH by blast
    have "\<exists>docs. gen' = gen @ concat docs \<and> list_all2 (found_document exps db wp wl) (x # xs) docs" if zero: "ret = 0"
    proof -
      obtain docs where "gen' = (gen @ doc) @ concat docs" "list_all2 (found_document exps db wp wl) xs docs" using r(3) zero by blast
      then show ?thesis using doc(2) by (intro exI [of _ "doc # docs"]) simp
    qed
    then show ?case using doc(1) r l by auto
  qed
  show ?case
  proof (cases x)
    case (Record s d)
    show ?thesis
    proof (cases "limit = 0")
      case True
      then show ?thesis by (simp add: Record)
    next
      case False
      obtain doc where "cb gen s d = Some (0, gen @ doc)" "found_document exps db wp wl (Record s d) doc"
        using Cons.prems [of s d gen] by (auto simp: Record)
      then show ?thesis using False by (intro step exI [of _ doc]) (simp_all add: Record)
    qed
  next
    case (Cluster m q)
    show ?thesis
    proof (cases "limit \<le> 1")
      case True
      then show ?thesis by (simp add: Cluster cluster_report_document del: found_document.simps)
    next
      case False
      then show ?thesis by (intro step exI [of _ "cluster_document db m q"]) (simp_all add: Cluster cluster_report_document)
    qed
  qed
qed simp

text \<open>
  The answer to a search with clusters: what is found in the zones, at most as many as the limit in each; or the overflow document, when
  there are at least as many in one of them.
\<close>

definition clustered_answer ::
  "(found \<Rightarrow> yajl_gen \<Rightarrow> bool) \<Rightarrow> (rectangle2d \<Rightarrow> found list \<Rightarrow> bool) \<Rightarrow> nat \<Rightarrow> rectangle2d list \<Rightarrow> yajl_gen \<Rightarrow> bool" where
  "clustered_answer P found_in limit zs calls =
     (calls = [gen_str ''overflow'', Gen_Bool True, gen_str ''matches'', Gen_Array_Open, Gen_Array_Close] \<and>
        (\<exists>z \<in> set zs. \<exists>xs. found_in z xs \<and> limit \<le> length xs) \<or>
      (\<exists>xss docs. list_all2 (\<lambda>z xs. found_in z xs \<and> length xs \<le> limit) zs xss \<and> distinct (record_keys (concat xss)) \<and>
         list_all2 P (concat xss) docs \<and> calls = [gen_str ''matches'', Gen_Array_Open] @ concat docs @ [Gen_Array_Close]))"

lemma zones_found:
  assumes "\<And>z gen. \<exists>xs ret gen'. found_in z xs \<and> f z gen = Some (ret, gen') \<and> (ret \<noteq> 0 \<longrightarrow> limit \<le> length xs) \<and>
    (ret = 0 \<longrightarrow> length xs \<le> limit \<and> (\<exists>docs. gen' = gen @ concat docs \<and> list_all2 P xs docs))"
  shows "\<exists>ret gen'. search_zones f zs gen = Some (ret, gen') \<and>
    (ret \<noteq> 0 \<longrightarrow> (\<exists>z \<in> set zs. \<exists>xs. found_in z xs \<and> limit \<le> length xs)) \<and>
    (ret = 0 \<longrightarrow> (\<exists>xss docs. list_all2 (\<lambda>z xs. found_in z xs \<and> length xs \<le> limit) zs xss \<and> list_all2 P (concat xss) docs \<and>
       gen' = gen @ concat docs))"
proof (induction zs arbitrary: gen)
  case (Cons z zs)
  obtain xs ret gen1 where h: "found_in z xs" "f z gen = Some (ret, gen1)" "ret \<noteq> 0 \<longrightarrow> limit \<le> length xs"
    "ret = 0 \<longrightarrow> length xs \<le> limit \<and> (\<exists>docs. gen1 = gen @ concat docs \<and> list_all2 P xs docs)"
    using assms [of z gen] by blast
  show ?case
  proof (cases "ret = 0")
    case False
    then show ?thesis using h by auto
  next
    case True
    then obtain docs where d: "gen1 = gen @ concat docs" "list_all2 P xs docs" "length xs \<le> limit" using h(4) by blast
    obtain ret2 gen2 where r: "search_zones f zs gen1 = Some (ret2, gen2)"
      "ret2 \<noteq> 0 \<longrightarrow> (\<exists>z \<in> set zs. \<exists>xs. found_in z xs \<and> limit \<le> length xs)"
      "ret2 = 0 \<longrightarrow> (\<exists>xss docs. list_all2 (\<lambda>z xs. found_in z xs \<and> length xs \<le> limit) zs xss \<and> list_all2 P (concat xss) docs \<and>
         gen2 = gen1 @ concat docs)"
      using Cons.IH [of gen1] by blast
    have "\<exists>xss docs. list_all2 (\<lambda>z xs. found_in z xs \<and> length xs \<le> limit) (z # zs) xss \<and> list_all2 P (concat xss) docs \<and>
        gen2 = gen @ concat docs" if "ret2 = 0"
    proof -
      obtain xss docs2 where "list_all2 (\<lambda>z xs. found_in z xs \<and> length xs \<le> limit) zs xss" "list_all2 P (concat xss) docs2"
        "gen2 = gen1 @ concat docs2" using r(3) \<open>ret2 = 0\<close> by blast
      then show ?thesis using h(1) d
        by (intro exI [of _ "xs # xss"] exI [of _ "docs @ docs2"]) (simp add: list_all2_appendI)
    qed
    then show ?thesis using h(2) True r(1,2) by auto
  qed
qed simp

text \<open>Disjoint zones have disjoint records.\<close>

lemma zones_disjoint_Cons: "zones_disjoint (z # zs) \<Longrightarrow> zones_disjoint zs \<and> (\<forall>y \<in> set zs. separate z y)"
proof -
  assume d: "zones_disjoint (z # zs)"
  have "separate z (zs ! i)" if "i < length zs" for i
    using d [unfolded zones_disjoint_def, rule_format, of "Suc i" 0] that by (auto simp: separate_def)
  moreover have "zones_disjoint zs"
    unfolding zones_disjoint_def
  proof (intro allI impI)
    fix i j p assume "i < length zs" "j < i"
    then show "\<not> (position_is_in_rect p (zs ! i) \<and> position_is_in_rect p (zs ! j))"
      using d [unfolded zones_disjoint_def, rule_format, of "Suc i" "Suc j"] by simp
  qed
  ultimately show ?thesis by (auto simp: in_set_conv_nth)
qed

lemma mem_record_keys: "k \<in> set (record_keys xs) \<longleftrightarrow> (\<exists>s d. Record s d \<in> set xs \<and> slot_key_node s = k)"
  by (induction xs rule: list.induct) (auto simp: record_keys_def split: found.splits)

lemma zones_distinct:
  assumes "list_all2 (\<lambda>z xs. clustered_hits db (metric z) epsilon z xs) zs xss" "zones_disjoint zs"
  shows "distinct (record_keys (concat xss))"
  using assms
proof (induction zs arbitrary: xss)
  case (Cons z zs)
  obtain xs yss where x: "xss = xs # yss" "clustered_hits db (metric z) epsilon z xs"
    "list_all2 (\<lambda>z xs. clustered_hits db (metric z) epsilon z xs) zs yss"
    using Cons.prems(1) by (auto simp: list_all2_Cons1)
  note sep = zones_disjoint_Cons [OF Cons.prems(2)]
  have "k \<notin> set (record_keys (concat yss))" if k: "k \<in> set (record_keys xs)" for k
  proof
    assume "k \<in> set (record_keys (concat yss))"
    then obtain s d ys where s: "Record s d \<in> set ys" "ys \<in> set yss" "slot_key_node s = k" by (auto simp: mem_record_keys)
    obtain y where y: "y \<in> set zs" "clustered_hits db (metric y) epsilon y ys"
      using x(3) s(2) unfolding list_all2_conv_all_nth in_set_conv_nth by metis
    obtain u e where u: "Record u e \<in> set xs" "slot_key_node u = k" using k by (auto simp: mem_record_keys)
    obtain l where "slot_key_node u = Some l" "position_of db l = Some (position u)" "position_is_in_rect (position u) z"
      using x(2) u(1) unfolding clustered_hits_def by blast
    moreover obtain m where "slot_key_node s = Some m" "position_of db m = Some (position s)" "position_is_in_rect (position s) y"
      using y(2) s(1) unfolding clustered_hits_def by blast
    ultimately show False using s(3) u(2) sep y(1) by (auto simp: separate_def)
  qed
  moreover have "distinct (record_keys xs)" using x(2) by (simp add: clustered_hits_def)
  ultimately show ?case using Cons.IH [OF x(3)] sep x(1) by auto
qed simp

text \<open>The answer to a search in a rectangle, with clusters when epsilon is positive.\<close>

definition rect_answer :: "libm \<Rightarrow> expirable slab \<Rightarrow> pan_db \<Rightarrow> search_in_rect_op \<Rightarrow> yajl_gen \<Rightarrow> bool" where
  "rect_answer lib exps db op calls =
     (if flt (Fin 0) (rect_epsilon op)
      then clustered_answer (found_document exps db (rect_with_properties op) (rect_with_links op))
             (\<lambda>z. clustered_hits db (rect_distance lib db (rect_center z)) (rect_epsilon op) z)
             (rect_limit op) (rect_zones db (search_rect op)) calls
      else \<exists>hits. (\<forall>z. hits_of db (rect_distance lib db (rect_center z)) (\<lambda>x d. position_is_in_rect x z) z (hits z)) \<and>
             distinct (hit_keys (concat (map hits (rect_zones db (search_rect op))))) \<and>
             search_answer (hit_document exps db (rect_with_properties op) (rect_with_links op)) hits
               (\<lambda>n. n > rect_limit op) (rect_zones db (search_rect op)) calls)"

abbreviation rect_callback :: "memory \<Rightarrow> expirable slab \<Rightarrow> pan_db \<Rightarrow> search_in_rect_op \<Rightarrow> yajl_gen slot_cb" where
  "rect_callback mem exps db op \<equiv> find_near_cb mem exps db (rect_with_properties op) (rect_with_links op)"

lemma plain_rect_answer:
  assumes se: "searchable exps db (rect_with_properties op) (rect_with_links op)" and mem: "good_memory mem"
    and op: "rect_limit op > 0" "\<not> flt (Fin 0) (rect_epsilon op)"
  shows "\<exists>ret gen'. find_in_rect lib True db (rect_callback mem exps db op) find_in_rect_cluster_cb (search_rect op) (rect_limit op)
      (rect_epsilon op) [gen_str ''matches'', Gen_Array_Open] = Some (ret, gen') \<and> rect_answer lib exps db op (search_document ret gen')"
proof -
  let ?P = "hit_document exps db (rect_with_properties op) (rect_with_links op)" and ?cb = "rect_callback mem exps db op"
  let ?zs = "rect_zones db (search_rect op)" and ?hits = "rect_hits lib db"
  have ok: "db_inv exps db" "measurable db" "qheight (db_root db) \<le> 56" using se plain_dbD(1) by (auto simp: searchable_def)
  note hits = rect_hits_of [OF ok(1,2), where lib = lib]
  note w = hits_write [OF se mem hits]
  obtain ret gen' where r: "search_zones (\<lambda>z. report_within ?cb (rect_limit op) (?hits z)) ?zs [gen_str ''matches'', Gen_Array_Open] = Some (ret, gen')"
    "search_answer ?P ?hits (\<lambda>n. n > rect_limit op) ?zs (search_document ret gen')"
    using zones_answer [where f = "\<lambda>z. report_within ?cb (rect_limit op) (?hits z)" and hits = ?hits and P = ?P and zs = ?zs and
        too_many = "\<lambda>n. n > rect_limit op"] within_stops [OF w] within_documents [OF w] by (meson not_le_imp_less)
  have d: "distinct (hit_keys (concat (map ?hits ?zs)))"
    by (rule disjoint_hits [OF hits]) (use layer_zones(2) [OF ok(1), where r = "search_rect op"] in blast)
  have "rect_answer lib exps db op (search_document ret gen')" using hits d r(2) op(2) by (auto simp: rect_answer_def)
  then show ?thesis unfolding find_in_rect_walks [OF ok op] using r(1) by blast
qed

lemma clustered_rect_answer:
  assumes se: "searchable exps db (rect_with_properties op) (rect_with_links op)" and mem: "good_memory mem"
    and op: "rect_limit op > 0" "flt (Fin 0) (rect_epsilon op)"
  shows "\<exists>ret gen'. find_in_rect lib True db (rect_callback mem exps db op) find_in_rect_cluster_cb (search_rect op) (rect_limit op)
      (rect_epsilon op) [gen_str ''matches'', Gen_Array_Open] = Some (ret, gen') \<and> rect_answer lib exps db op (search_document ret gen')"
proof -
  let ?cb = "rect_callback mem exps db op" and ?zs = "rect_zones db (search_rect op)"
  let ?found = "\<lambda>z. clustered_hits db (rect_distance lib db (rect_center z)) (rect_epsilon op) z"
  let ?P = "found_document exps db (rect_with_properties op) (rect_with_links op)"
  let ?f = "find_in_rect_in_zone lib db ?cb find_in_rect_cluster_cb (rect_limit op) (rect_epsilon op)"
  have ok: "db_inv exps db" "measurable db" "qheight (db_root db) \<le> 56" using se plain_dbD(1) by (auto simp: searchable_def)
  note zs = layer_zones(2) [OF ok(1), where r = "search_rect op"]
  have zone: "\<exists>xs ret gen'. ?found z xs \<and> ?f z gen = Some (ret, gen') \<and> (ret \<noteq> 0 \<longrightarrow> rect_limit op \<le> length xs) \<and>
      (ret = 0 \<longrightarrow> length xs \<le> rect_limit op \<and> (\<exists>docs. gen' = gen @ concat docs \<and> list_all2 ?P xs docs))" for z gen
  proof -
    obtain xs where xs: "?found z xs"
      "?f z gen = report_found ?cb (cluster_report db find_in_rect_cluster_cb) (rect_limit op) xs gen"
      using zone_found [OF ok, where lib = lib and z = z and epsilon = "rect_epsilon op" and cb = ?cb and
          cluster_cb = find_in_rect_cluster_cb and limit = "rect_limit op" and c = gen] by blast
    have "\<exists>doc. ?cb g s d = Some (0, g @ doc) \<and> ?P (Record s d) doc" if s: "Record s d \<in> set xs" for s d g
    proof -
      obtain k where "slot_key_node s = Some k" "position_of db k = Some (position s)" using xs(1) s unfolding clustered_hits_def by blast
      from hit_writes [OF se mem this] show ?thesis by simp
    qed
    from found_documents [OF this, where limit = "rect_limit op" and gen = gen] show ?thesis using xs by (metis (no_types, lifting))
  qed
  obtain ret gen' where r: "search_zones ?f ?zs [gen_str ''matches'', Gen_Array_Open] = Some (ret, gen')"
    "ret \<noteq> 0 \<longrightarrow> (\<exists>z \<in> set ?zs. \<exists>xs. ?found z xs \<and> rect_limit op \<le> length xs)"
    "ret = 0 \<longrightarrow> (\<exists>xss docs. list_all2 (\<lambda>z xs. ?found z xs \<and> length xs \<le> rect_limit op) ?zs xss \<and> list_all2 ?P (concat xss) docs \<and>
       gen' = [gen_str ''matches'', Gen_Array_Open] @ concat docs)"
    using zones_found [of ?found ?f "rect_limit op" ?P ?zs "[gen_str ''matches'', Gen_Array_Open]", OF zone] by blast
  have "rect_answer lib exps db op (search_document ret gen')"
  proof (cases "ret = 0")
    case False
    then show ?thesis using r(2) op(2) by (simp add: rect_answer_def clustered_answer_def search_document_def)
  next
    case True
    then obtain xss docs where x: "list_all2 (\<lambda>z xs. ?found z xs \<and> length xs \<le> rect_limit op) ?zs xss" "list_all2 ?P (concat xss) docs"
      "gen' = [gen_str ''matches'', Gen_Array_Open] @ concat docs" using r(3) by blast
    have "list_all2 ?found ?zs xss" using x(1) by (rule list_all2_mono) simp
    then have "distinct (record_keys (concat xss))" by (rule zones_distinct) (use zs in blast)
    then show ?thesis using x True op(2) unfolding rect_answer_def clustered_answer_def search_document_def by auto
  qed
  moreover have "find_in_rect lib True db ?cb find_in_rect_cluster_cb (search_rect op) (rect_limit op) (rect_epsilon op)
      [gen_str ''matches'', Gen_Array_Open] = Some (ret, gen')"
    using r(1) zs op(1) by (simp add: find_in_rect_def c_assert_def)
  ultimately show ?thesis by blast
qed

text \<open>
  C14: a search in a rectangle. Without clusters, that is for an epsilon that is not positive, it is answered with exactly the records placed
  in its zones, each once, or, if some zone has more than the limit, not only as many, with the overflow document. With
  clusters the answer lists records that are placed in its zones, each once, and clusters; every record placed in a zone is listed, or it is in
  the cell of a quad node that is narrower than epsilon in both directions, and this cell is listed as a cluster with the number
  of its records, its centre and its radius (only if its centre as computed lies outside of it, it is left out); in each zone there are at most as many as the
  limit, and the answer is the overflow document only if some zone has as many or more. Nothing but the queue of replies is changed.
  An unknown layer is answered with 404. The layer must be searchable: keys that are C strings, no expiration at 0, at most 56
  levels of quad nodes and, with links, at most 256 records reachable from each record.
\<close>

theorem search_in_rect_answers:
  assumes "ctx_inv ctx" "good_memory mem" "rect_limit op > 0" "\<not> fake_req (rect_bare op)"
    and "\<forall>db. layers ctx (rect_layer_name op) = Some db \<longrightarrow>
      searchable (expirables_slab ctx) db (rect_with_properties op) (rect_with_links op)"
  shows "\<exists>status ctx'. handle_op_search_in_rect lib mem cfg op ctx = Some (status, ctx') \<and> ctx' = ctx\<lparr>published := published ctx'\<rparr> \<and>
    (case layers ctx (rect_layer_name op) of
       None \<Rightarrow> status = HTTP_NOTFOUND \<and> ctx' = ctx
     | Some db \<Rightarrow> \<exists>calls. rect_answer lib (expirables_slab ctx) db op calls \<and>
         answered mem OP_TYPE_SEARCH_IN_RECT (rect_bare op) calls status ctx ctx')"
proof (cases "layers ctx (rect_layer_name op)")
  case None
  then show ?thesis using get_pan_db_none(1) [OF assms(1) None] by (simp add: handle_op_search_in_rect_def)
next
  case (Some db)
  have se: "searchable (expirables_slab ctx) db (rect_with_properties op) (rect_with_links op)" using assms(5) Some by blast
  obtain ret gen' where f: "find_in_rect lib True db (rect_callback mem (expirables_slab ctx) db op) find_in_rect_cluster_cb (search_rect op)
      (rect_limit op) (rect_epsilon op) [gen_str ''matches'', Gen_Array_Open] = Some (ret, gen')"
    "rect_answer lib (expirables_slab ctx) db op (search_document ret gen')"
    using plain_rect_answer [OF se assms(2,3)] clustered_rect_answer [OF se assms(2,3)] by blast
  have cb: "find_in_rect_cb = find_near_cb" by (intro ext) (simp add: find_in_rect_cb_def)
  have s: "Some (send_reply mem OP_TYPE_SEARCH_IN_RECT (rect_bare op) (search_document ret gen') ctx) =
      handle_op_search_in_rect lib mem cfg op ctx"
    using get_pan_db_law [OF assms(1) Some, of mem cfg False] f(1) assms(4) good_memoryD(8,9) [OF assms(2)]
    by (auto simp: handle_op_search_in_rect_def cb)
  obtain status ctx' where c: "handle_op_search_in_rect lib mem cfg op ctx = Some (status, ctx')" unfolding s [symmetric] by (metis surj_pair)
  from answered_send [OF s [unfolded c] assms(4) good_memoryD(8) [OF assms(2)]] show ?thesis
    using c Some f(2) by (intro exI [of _ status] exI [of _ ctx'] conjI) auto
qed

section \<open>The search by key\<close>

lemma bytes_less_irrefl: "\<not> bytes_less x x"
  using key_node_cmp_less [of x x] key_node_cmp_eq [of x x] by simp

text \<open>The keys with a prefix follow each other in the order of the tree.\<close>

lemma prefix_not_less: "\<not> bytes_less (p @ y) p"
  by (induction p) auto

lemma prefix_convex: "\<not> bytes_less y p \<Longrightarrow> bytes_less y (p @ z) \<Longrightarrow> take (length p) y = p"
proof (induction p arbitrary: y)
  case (Cons a p)
  then show ?case by (cases y) auto
qed simp

definition has_prefix :: "bytes \<Rightarrow> bytes \<Rightarrow> bool" where
  "has_prefix p k = (take (length p) k = p)"

lemma has_prefixE:
  assumes "has_prefix p k"
  obtains z where "k = p @ z"
  using assms append_take_drop_id [of "length p" k] unfolding has_prefix_def by metis

lemma nfind_prefix:
  "kc.sorted (map key xs) \<Longrightarrow>
   takeWhile (\<lambda>a. has_prefix p (key a)) (rb_nfind (\<lambda>y. key_node_cmp p (key y)) xs) = filter (\<lambda>a. has_prefix p (key a)) xs"
proof (induction xs)
  case (Cons y ys)
  have rest: "kc.sorted (map key ys)" "\<And>x. x \<in> set ys \<Longrightarrow> bytes_less (key y) (key x)"
    using Cons.prems by (auto simp: kc.sorted_Cons key_node_cmp_less)
  show ?case
  proof (cases "bytes_less (key y) p")
    case True
    then have "\<not> key_node_cmp p (key y) \<le> 0" using key_node_cmp_greater [of p "key y"] by simp
    moreover have "\<not> has_prefix p (key y)"
      using True prefix_not_less by (auto elim: has_prefixE)
    ultimately show ?thesis using Cons.IH rest(1) by simp
  next
    case above: False
    then have first: "rb_nfind (\<lambda>y. key_node_cmp p (key y)) (y # ys) = y # ys"
      using key_node_cmp_greater [of p "key y"] by simp
    have later: "rb_nfind (\<lambda>y. key_node_cmp p (key y)) ys = ys"
    proof (cases ys)
      case (Cons x xs)
      have "bytes_less (key y) (key x)" using rest(2) Cons by simp
      then have "\<not> bytes_less (key x) p" using above bytes_less_trans by blast
      then show ?thesis using key_node_cmp_greater [of p "key x"] Cons by simp
    qed simp
    show ?thesis
    proof (cases "has_prefix p (key y)")
      case True
      then show ?thesis using Cons.IH rest(1) first later by simp
    next
      case False
      have "\<not> has_prefix p (key x)" if x: "x \<in> set ys" for x
      proof
        assume "has_prefix p (key x)"
        then obtain z where "key x = p @ z" by (rule has_prefixE)
        then show False using prefix_convex [OF above] rest(2) [OF x] False by (simp add: has_prefix_def)
      qed
      then show ?thesis using False first by (simp add: filter_False)
    qed
  qed
qed simp

text \<open>What the loop lists, a key or a document for each record.\<close>

definition key_document :: "expirable slab \<Rightarrow> pan_db \<Rightarrow> search_in_keys_op \<Rightarrow> nat \<Rightarrow> yajl_gen \<Rightarrow> bool" where
  "key_document exps db op a doc =
     (if keys_with_content op
      then \<exists>calls. json_answer exps db (keys_with_properties op) (keys_with_links op) a calls \<and>
             doc = [Gen_Map_Open] @ calls @ [Gen_Map_Close]
      else doc = [Gen_String (butlast (key_at (key_nodes db) a))])"

lemma decremented: "0 < n \<Longrightarrow> n < 2 ^ 64 \<Longrightarrow> (n + (2 ^ 64 - 1)) mod 2 ^ 64 = n - 1" for n :: nat
proof -
  assume n: "0 < n" "n < 2 ^ 64"
  then have "n + (2 ^ 64 - 1) = (n - 1) + 2 ^ 64" by simp
  then show ?thesis using n by (simp only: mod_add_self2) simp
qed

lemma search_keys_law:
  assumes db: "plain_db exps db" "few_links db (keys_with_properties op) (keys_with_links op)" and mem: "good_memory mem"
    and long: "\<And>k. node_of_key (key_nodes db) k \<noteq> None \<Longrightarrow> 1 < length k"
  shows "set as \<subseteq> set (kn_tree (key_nodes db)) \<Longrightarrow> 0 < limit \<Longrightarrow> limit < 2 ^ 64 \<Longrightarrow>
    \<exists>docs. search_keys mem exps db op p True limit as gen = Some (gen @ concat docs) \<and>
      list_all2 (key_document exps db op) (take limit (takeWhile (\<lambda>a. has_prefix p (key_at (key_nodes db) a)) as)) docs"
proof (induction as arbitrary: limit gen)
  case (Cons a as)
  note inv = plain_dbD(1) [OF db(1)]
  have a: "a \<in> dom (nodes_of db)" using Cons.prems(1) db_invD(3) [OF inv] by auto
  then obtain n where n: "nodes_of db a = Some n" by blast
  have key: "kn_key n = key_at (key_nodes db) a" using n by (simp add: key_at_def)
  have "node_of_key (key_nodes db) (kn_key n) = Some a"
    unfolding node_of_key_Some [OF db_invD(2) [OF inv]] using Cons.prems(1) key by simp
  then have len: "1 < length (kn_key n)" using long by simp
  let ?k = "key_at (key_nodes db) a" and ?ks = "takeWhile (\<lambda>a. has_prefix p (key_at (key_nodes db) a)) as"
  have pre: "0 < length p \<and> (length (kn_key n) < length p \<or> take (length p) (kn_key n) \<noteq> p) \<longleftrightarrow> \<not> has_prefix p ?k"
    by (auto simp: has_prefix_def key min_def dest: arg_cong [where f = length])
  show ?case
  proof (cases "has_prefix p ?k")
    case False
    then show ?thesis by (simp only: search_keys.simps n bind.bind_lunit if_True pre) simp
  next
    case True
    obtain doc where doc: "key_document exps db op a doc"
      "(if \<not> keys_with_content op then Some (gen @ [Gen_String (butlast (kn_key n))])
        else do {
          (_, gen1) \<leftarrow> key_node_to_json mem exps db a (keys_with_properties op) (keys_with_links op) (gen @ [Gen_Map_Open]);
          Some (gen1 @ [Gen_Map_Close])
        }) = Some (gen @ doc)"
    proof (cases "keys_with_content op")
      case content: True
      obtain calls where "key_node_to_json mem exps db a (keys_with_properties op) (keys_with_links op) (gen @ [Gen_Map_Open]) =
          Some (0, (gen @ [Gen_Map_Open]) @ calls)" "json_answer exps db (keys_with_properties op) (keys_with_links op) a calls"
        using json_answer_law [OF db mem a] by blast
      then show thesis using that [of "[Gen_Map_Open] @ calls @ [Gen_Map_Close]"] content by (simp add: key_document_def)
    qed (use that [of "[Gen_String (butlast (kn_key n))]"] in \<open>simp add: key_document_def key\<close>)
    have np: "\<not> (0 < length p \<and> (length (kn_key n) < length p \<or> take (length p) (kn_key n) \<noteq> p))"
      unfolding pre using True by simp
    have step: "search_keys mem exps db op p True limit (a # as) gen =
        (if limit - 1 = 0 then Some (gen @ doc) else search_keys mem exps db op p True (limit - 1) as (gen @ doc))"
      unfolding search_keys.simps n Option.bind.bind_lunit decremented [OF Cons.prems(2,3)] if_not_P [OF np]
      using doc(2) len by (simp add: Let_def)
    show ?thesis
    proof (cases "limit - 1 = 0")
      case stop: True
      then have "limit = 1" using Cons.prems(2) by simp
      then show ?thesis using step True doc(1) by (intro exI [of _ "[doc]"]) simp
    next
      case False
      obtain docs where d: "search_keys mem exps db op p True (limit - 1) as (gen @ doc) = Some ((gen @ doc) @ concat docs)"
        "list_all2 (key_document exps db op) (take (limit - 1) ?ks) docs"
      proof -
        have "set as \<subseteq> set (kn_tree (key_nodes db))" "0 < limit - 1" "limit - 1 < 2 ^ 64" using Cons.prems False by simp_all
        from Cons.IH [OF this, of "gen @ doc"] that show thesis by blast
      qed
      have "take limit (a # ?ks) = a # take (limit - 1) ?ks" using Cons.prems(2) by (cases limit) auto
      then show ?thesis using step d True doc(1) False by (intro exI [of _ "doc # docs"]) simp
    qed
  qed
qed simp

text \<open>A pattern as the parser makes it: a string that was not empty and its final zero.\<close>

lemma key_pattern_star: "key_pattern (p @ [chr CHR ''*'', 0]) = Some (length p, True)"
proof -
  have "(p @ [chr CHR ''*'', 0]) ! length p = chr CHR ''*''" by (simp add: nth_append)
  then show ?thesis by (simp add: key_pattern_def Let_def nth_append)
qed

lemma key_pattern_exact:
  assumes "p \<noteq> []" "last p \<noteq> chr CHR ''*''"
  shows "key_pattern (p @ [0]) = Some (length p, False)"
  using assms by (simp add: key_pattern_def Let_def nth_append last_conv_nth)

lemma star_nodes:
  assumes "store_inv s"
  shows "takeWhile (\<lambda>a. has_prefix p (key_at s a)) (first_matching_nodes s p True) = filter (\<lambda>a. has_prefix p (key_at s a)) (kn_tree s)"
proof (cases "p = []")
  case True
  then show ?thesis by (simp add: first_matching_nodes_def has_prefix_def)
next
  case False
  then have "first_matching_nodes s p True = rb_nfind (\<lambda>y. key_node_cmp p (key_at s y)) (kn_tree s)"
    by (simp add: first_matching_nodes_def)
  then show ?thesis using nfind_prefix [of "key_at s" "kn_tree s" p] assms unfolding store_inv_def by argo
qed

lemma nfind_subset: "set (rb_nfind c xs) \<subseteq> set xs"
  by (induction xs) auto

lemma exact_nodes:
  assumes "store_inv s" "p \<noteq> []" "0 \<notin> set p" "\<And>k. node_of_key s k \<noteq> None \<Longrightarrow> c_key k"
  shows "first_matching_nodes s p False = []"
proof -
  have "\<not> c_key p" using assms(3) by (auto simp: c_key_def)
  then have "node_of_key s p = None" using assms(4) by blast
  then show ?thesis using find_node [OF assms(1), of p] assms(2) by (simp add: first_matching_nodes_def)
qed

lemma search_in_keys_law:
  assumes "ctx_inv ctx" "good_memory mem" "0 < keys_limit op" "keys_limit op < 2 ^ 64" "\<not> fake_req (keys_bare op)"
    and "p \<noteq> []" "0 \<notin> set p" "keys_pattern op = p @ [0]"
    and "\<forall>db. layers ctx (keys_layer_name op) = Some db \<longrightarrow> plain_db (expirables_slab ctx) db \<and>
      few_links db (keys_with_properties op) (keys_with_links op) \<and> (\<forall>k. node_of_key (key_nodes db) k \<noteq> None \<longrightarrow> 1 < length k)"
  shows "\<exists>status ctx'. handle_op_search_in_keys mem cfg op ctx = Some (status, ctx') \<and> ctx' = ctx\<lparr>published := published ctx'\<rparr> \<and>
    (case layers ctx (keys_layer_name op) of
       None \<Rightarrow> status = HTTP_NOTFOUND \<and> ctx' = ctx
     | Some db \<Rightarrow> \<exists>docs.
         list_all2 (key_document (expirables_slab ctx) db op)
           (if last p = chr CHR ''*''
            then take (keys_limit op) (filter (\<lambda>a. has_prefix (butlast p) (key_at (key_nodes db) a)) (kn_tree (key_nodes db)))
            else []) docs \<and>
         answered mem OP_TYPE_SEARCH_IN_KEYS (keys_bare op)
           ([gen_str (if keys_with_content op then ''matches'' else ''keys''), Gen_Array_Open] @ concat docs @ [Gen_Array_Close])
           status ctx ctx')"
proof (cases "layers ctx (keys_layer_name op)")
  case None
  then show ?thesis using get_pan_db_none(1) [OF assms(1) None] by (simp add: handle_op_search_in_keys_def)
next
  case (Some db)
  let ?exps = "expirables_slab ctx" and ?s = "key_nodes db"
  let ?gen = "[gen_str (if keys_with_content op then ''matches'' else ''keys''), Gen_Array_Open]"
  have db: "plain_db ?exps db" "few_links db (keys_with_properties op) (keys_with_links op)"
    "\<And>k. node_of_key ?s k \<noteq> None \<Longrightarrow> 1 < length k" using assms(9) Some by blast+
  have st: "store_inv ?s" by (rule db_invD(2) [OF plain_dbD(1) [OF db(1)]])
  let ?as = "if last p = chr CHR ''*''
    then take (keys_limit op) (filter (\<lambda>a. has_prefix (butlast p) (key_at ?s a)) (kn_tree ?s)) else []"
  obtain docs where docs: "list_all2 (key_document ?exps db op) ?as docs"
    "(case key_pattern (keys_pattern op) of None \<Rightarrow> Some ?gen
      | Some (pattern_len, wildcard) \<Rightarrow>
          (let pattern = take pattern_len (keys_pattern op)
           in search_keys mem ?exps db op pattern wildcard (keys_limit op) (first_matching_nodes ?s pattern wildcard) ?gen)) =
     Some (?gen @ concat docs)"
  proof (cases "last p = chr CHR ''*''")
    case True
    then have pat: "keys_pattern op = butlast p @ [chr CHR ''*'', 0]"
      using assms(6,8) append_butlast_last_id [of p] by simp
    have sub: "set (first_matching_nodes ?s (butlast p) True) \<subseteq> set (kn_tree ?s)"
      unfolding first_matching_nodes_def by (auto dest: subsetD [OF nfind_subset])
    obtain docs where "search_keys mem ?exps db op (butlast p) True (keys_limit op) (first_matching_nodes ?s (butlast p) True) ?gen =
        Some (?gen @ concat docs)" "list_all2 (key_document ?exps db op) ?as docs"
      using search_keys_law [OF db(1,2) assms(2) _ sub assms(3,4), of "butlast p" ?gen] db(3)
      unfolding star_nodes [OF st] if_P [OF True] by blast
    then show thesis using that [of docs] unfolding pat key_pattern_star by simp
  next
    case False
    have "\<And>k. node_of_key ?s k \<noteq> None \<Longrightarrow> c_key k" using plain_dbD(2) [OF db(1)] by blast
    from exact_nodes [OF st assms(6,7) this] have "first_matching_nodes ?s p False = []" .
    then show thesis using that [of "[]"] False by (simp add: assms(8) key_pattern_exact [OF assms(6) False])
  qed
  have s: "Some (send_reply mem OP_TYPE_SEARCH_IN_KEYS (keys_bare op) (?gen @ concat docs @ [Gen_Array_Close]) ctx) =
      handle_op_search_in_keys mem cfg op ctx"
  proof -
    obtain a l where g: "get_pan_db_by_layer_name mem cfg (keys_layer_name op) False ctx = Some (0, Some a, ctx)"
      "slab_contents (layers_slab ctx) a = Some l" "layer_db l = db"
      using get_pan_db_law [OF assms(1) Some, of mem cfg False] by blast
    show ?thesis using docs(2) assms(5) good_memoryD(8) [OF assms(2)]
      by (cases "keys_with_content op"; cases "key_pattern (keys_pattern op)")
        (auto simp: handle_op_search_in_keys_def g Let_def simp del: concat_eq_Nil_conv Nil_eq_concat_conv)
  qed
  obtain status ctx' where c: "handle_op_search_in_keys mem cfg op ctx = Some (status, ctx')" unfolding s [symmetric] by (metis surj_pair)
  from answered_send [OF s [unfolded c] assms(5) good_memoryD(8) [OF assms(2)]] show ?thesis
    using c Some docs(1) by (intro exI [of _ status] exI [of _ ctx'] conjI) auto
qed

text \<open>
  C16: a key search whose pattern ends in a star lists, in the order of the keys, the records whose keys start
  with what is before the star, up to the limit; a search for a key itself, without a star, lists nothing, since the keys of the layer have a
  final zero that is cut off the pattern. Nothing but the queue of replies is changed, and an unknown layer is answered with 404.
\<close>

theorem search_in_keys_answers:
  assumes "ctx_inv ctx" "good_memory mem" "0 < keys_limit op" "keys_limit op < 2 ^ 64" "\<not> fake_req (keys_bare op)"
    and "p \<noteq> []" "0 \<notin> set p" "keys_pattern op = p @ [0]"
    and "\<forall>db. layers ctx (keys_layer_name op) = Some db \<longrightarrow> plain_db (expirables_slab ctx) db \<and>
      few_links db (keys_with_properties op) (keys_with_links op) \<and> (\<forall>k. node_of_key (key_nodes db) k \<noteq> None \<longrightarrow> 1 < length k)"
  shows "\<exists>status ctx'. handle_op_search_in_keys mem cfg op ctx = Some (status, ctx') \<and> ctx' = ctx\<lparr>published := published ctx'\<rparr> \<and>
    (case layers ctx (keys_layer_name op) of
       None \<Rightarrow> status = HTTP_NOTFOUND \<and> ctx' = ctx
     | Some db \<Rightarrow> \<exists>docs.
         list_all2 (key_document (expirables_slab ctx) db op)
           (if last p = chr CHR ''*''
            then take (keys_limit op) (filter (\<lambda>a. has_prefix (butlast p) (key_at (key_nodes db) a)) (kn_tree (key_nodes db)))
            else []) docs \<and>
         answered mem OP_TYPE_SEARCH_IN_KEYS (keys_bare op)
           ([gen_str (if keys_with_content op then ''matches'' else ''keys''), Gen_Array_Open] @ concat docs @ [Gen_Array_Close])
           status ctx ctx')"
  by (rule search_in_keys_law [OF assms])

section \<open>Witnesses\<close>

text \<open>A context with one layer that holds the record of the examples of theory Search_Properties.\<close>

lemma search_context:
  "\<exists>ctx db. ctx_inv ctx \<and> layers ctx sample_layer = Some db \<and> expirables_slab ctx = init_slab \<and> published ctx = [] \<and>
     searchable init_slab db True False \<and>
     position_of db 0 = Some (pos (Fin (195 / 4)) (Fin (9 / 4))) \<and> qbounds db = world \<and>
     db_layer_type db = LAYER_TYPE_ELLIPSOIDAL \<and> db_accuracy db = ACCURACY_RHOMBOID \<and>
     node_of_key (key_nodes db) sample_key = Some 0 \<and> (\<forall>k. node_of_key (key_nodes db) k \<noteq> None \<longrightarrow> k = sample_key)"
proof -
  obtain db where db: "db_inv init_slab db" "measurable db" "unsplit db" "position_of db 0 = Some (pos (Fin (195 / 4)) (Fin (9 / 4)))"
    "qbounds db = world" "db_layer_type db = LAYER_TYPE_ELLIPSOIDAL" "db_accuracy db = ACCURACY_RHOMBOID"
    "node_of_key (key_nodes db) = node_of_key (key_nodes sample_db)" "expires_of init_slab db = expires_of init_slab sample_db"
    "expirables db = []"
    using search_sample by blast
  have n: "layers (init_context 0) sample_layer = None" "sample_layer \<noteq> []"
    by (simp_all add: init_context_inv sample_layer_def bytes_of_def)
  obtain a ctx db0 where r: "register_new_layer sample_mem sample_cfg sample_layer (init_context 0) = Some (Some a, ctx)"
    "init_pan_db sample_cfg True = Some db0" "ctx_inv ctx" "layers ctx = (layers (init_context 0))(sample_layer \<mapsto> db0)"
    "expirables_slab ctx = expirables_slab (init_context 0)" "published ctx = published (init_context 0)"
    using register_new_layer_law [OF init_context_inv(1) n sample_mem_good(1-3), of sample_cfg] by blast
  then have e: "expirables_slab ctx = init_slab" "published ctx = []" by (simp_all add: init_context_def)
  have "layers ctx sample_layer = Some db0" by (simp add: r(4))
  then obtain c l where l: "slab_contents (layers_slab ctx) c = Some l" "layer_name l = sample_layer" "layer_db l = db0"
    unfolding layers_Some [OF r(3)] by blast
  have "expirables (layer_db l) = []" unfolding l(3) using r(2) by (auto simp: init_pan_db_def split: bind_splits)
  then have "exps_change (expirables_slab ctx) init_slab (set (expirables (layer_db l))) (set (expirables db))"
    by (intro exps_changeI) (simp_all add: init_slab_inv e db(10))
  from on_layer_law [OF r(3) l(1) _ db(1) this, of "\<lambda>exps _. Some (0, init_slab, db)" 0]
  obtain ctx' where c: "ctx_inv ctx'" "expirables_slab ctx' = init_slab" "layers ctx' = (layers ctx)(sample_layer \<mapsto> db)"
    "published ctx' = published ctx" unfolding l(2) by auto
  have k: "node_of_key (key_nodes db) k = (if k = sample_key then Some 0 else None)" for k
    unfolding db(8) by (simp add: node_of_key_def sample_db_def key_at_def empty_key_node_def)
  have "c_key sample_key" by (auto simp: c_key_def sample_key_def bytes_of_def)
  moreover have "expires_of init_slab sample_db a = None" for a
    by (simp add: expires_of_def sample_db_def empty_key_node_def split: if_splits)
  ultimately have "plain_db init_slab db" using db(1) by (simp add: plain_db_def k db(9))
  then have "searchable init_slab db True False"
    using db(2) qheight_unsplit [OF db(3)] by (simp add: searchable_def few_links_def)
  then show ?thesis using c e db(4-7) k by (intro exI [of _ ctx'] exI [of _ db]) auto
qed

definition nearby_sample :: search_nearby_op where
  "nearby_sample =
     \<lparr>near_bare = sample_op, near_layer_name = sample_layer, near_position = far_west, near_radius = Fin 17000000, near_limit = 10,
      near_epsilon = Fin (- 1), near_with_properties = True, near_with_links = False\<rparr>"

definition in_rect_sample :: search_in_rect_op where
  "in_rect_sample =
     \<lparr>rect_bare = sample_op, rect_layer_name = sample_layer, search_rect = rect (pos (Fin 48) (Fin 2)) (pos (Fin 49) (Fin 3)),
      rect_limit = 10, rect_epsilon = Fin (- 1), rect_with_properties = True, rect_with_links = False\<rparr>"

definition in_keys_sample :: "bytes \<Rightarrow> search_in_keys_op" where
  "in_keys_sample pattern =
     \<lparr>keys_bare = sample_op, keys_layer_name = sample_layer, keys_pattern = pattern, keys_limit = 10, keys_with_properties = True,
      keys_with_content = False, keys_with_links = False\<rparr>"

theorem search_nearby_answers_witness:
  "\<exists>ctx status ctx' db hits calls. handle_op_search_nearby equator_libm sample_mem sample_cfg nearby_sample ctx = Some (status, ctx') \<and>
     (\<exists>s. (s, Fin 16777778) \<in> set (hits (near_zones equator_libm db far_west (Fin 17000000) ! 0)) \<and> slot_key_node s = Some 0) \<and>
     search_answer (hit_document init_slab db True False) hits (\<lambda>n. n \<ge> 10)
       (near_zones equator_libm db far_west (Fin 17000000)) calls \<and>
     published ctx' = [\<lparr>reply_type = OP_TYPE_SEARCH_NEARBY, reply_req = 1, reply_tid = 1, json_gen = new_json_gen 1 @ calls\<rparr>]"
proof -
  obtain ctx db where c: "ctx_inv ctx" "layers ctx sample_layer = Some db" "expirables_slab ctx = init_slab" "published ctx = []"
    "searchable init_slab db True False" "position_of db 0 = Some (pos (Fin (195 / 4)) (Fin (9 / 4)))" "qbounds db = world"
    "db_layer_type db = LAYER_TYPE_ELLIPSOIDAL" "db_accuracy db = ACCURACY_RHOMBOID"
    using search_context by blast
  have op: "near_limit nearby_sample > 0" "\<not> fake_req (near_bare nearby_sample)"
    "\<forall>db. layers ctx (near_layer_name nearby_sample) = Some db \<longrightarrow>
      searchable (expirables_slab ctx) db (near_with_properties nearby_sample) (near_with_links nearby_sample)"
    using c(2,3,5) by (simp_all add: nearby_sample_def sample_op_def)
  let ?zs = "near_zones equator_libm db far_west (Fin 17000000)"
  from search_nearby_answers [OF c(1) sample_memory op, of equator_libm sample_cfg] obtain status ctx' hits calls where
    h: "handle_op_search_nearby equator_libm sample_mem sample_cfg nearby_sample ctx = Some (status, ctx')"
      "\<And>z. hits_of db (layer_distance equator_libm db far_west) (\<lambda>x d. fle d (Fin 17000000)) z (hits z)"
      "search_answer (hit_document init_slab db True False) hits (\<lambda>n. n \<ge> 10) ?zs calls"
      "answered sample_mem OP_TYPE_SEARCH_NEARBY sample_op calls status ctx ctx'"
    using c(2,3) by (auto simp: nearby_sample_def)
  have "position_is_in_rect (pos (Fin (195 / 4)) (Fin (9 / 4))) (?zs ! 0)"
    by (simp add: far_west_zones [OF c(7,8)] position_is_in_rect_def)
  then obtain s where "(s, Fin 16777778) \<in> set (hits (?zs ! 0))" "slot_key_node s = Some 0"
    using h(2) [of "?zs ! 0"] c(6) far_west_distance [OF c(8,9)] unfolding hits_of_def by fastforce
  moreover have "published ctx' = [\<lparr>reply_type = OP_TYPE_SEARCH_NEARBY, reply_req = 1, reply_tid = 1, json_gen = new_json_gen 1 @ calls\<rparr>]"
    using h(4) c(4) by (simp add: answered_def reply_op_def sample_op_def sample_mem_def)
  ultimately show ?thesis using h(1,3) by blast
qed

theorem search_in_rect_answers_witness:
  "\<exists>ctx status ctx' db hits calls. handle_op_search_in_rect equator_libm sample_mem sample_cfg in_rect_sample ctx = Some (status, ctx') \<and>
     (\<exists>s d. (s, d) \<in> set (hits (search_rect in_rect_sample)) \<and> slot_key_node s = Some 0) \<and>
     search_answer (hit_document init_slab db True False) hits (\<lambda>n. n > 10) (rect_zones db (search_rect in_rect_sample)) calls \<and>
     published ctx' = [\<lparr>reply_type = OP_TYPE_SEARCH_IN_RECT, reply_req = 1, reply_tid = 1, json_gen = new_json_gen 1 @ calls\<rparr>]"
proof -
  let ?p = "pos (Fin (195 / 4)) (Fin (9 / 4))" and ?r = "search_rect in_rect_sample"
  obtain ctx db where c: "ctx_inv ctx" "layers ctx sample_layer = Some db" "expirables_slab ctx = init_slab" "published ctx = []"
    "searchable init_slab db True False" "position_of db 0 = Some ?p"
    using search_context by blast
  have op: "rect_limit in_rect_sample > 0" "\<not> fake_req (rect_bare in_rect_sample)"
    "\<forall>db. layers ctx (rect_layer_name in_rect_sample) = Some db \<longrightarrow>
      searchable (expirables_slab ctx) db (rect_with_properties in_rect_sample) (rect_with_links in_rect_sample)"
    using c(2,3,5) by (simp_all add: in_rect_sample_def sample_op_def)
  from search_in_rect_answers [OF c(1) sample_memory op, of equator_libm sample_cfg] obtain status ctx' calls where
    a: "handle_op_search_in_rect equator_libm sample_mem sample_cfg in_rect_sample ctx = Some (status, ctx')"
      "rect_answer equator_libm init_slab db in_rect_sample calls"
      "answered sample_mem OP_TYPE_SEARCH_IN_RECT sample_op calls status ctx ctx'"
    using c(2,3) by (auto simp: in_rect_sample_def)
  then obtain hits where h:
      "\<And>z. hits_of db (rect_distance equator_libm db (rect_center z)) (\<lambda>x d. position_is_in_rect x z) z (hits z)"
      "search_answer (hit_document init_slab db True False) hits (\<lambda>n. n > 10) (rect_zones db ?r) calls"
    by (auto simp: rect_answer_def in_rect_sample_def)
  have r: "position_is_in_rect ?p ?r" by (simp add: in_rect_sample_def position_is_in_rect_def)
  have "measurable db" using c(5) by (simp add: searchable_def)
  then obtain d where "rect_distance equator_libm db (rect_center ?r) ?p = Some d"
    using measurable_distances(2) by blast
  then obtain s where "(s, d) \<in> set (hits ?r)" "slot_key_node s = Some 0"
    using h(1) [of ?r] c(6) r unfolding hits_of_def by metis
  moreover have "published ctx' = [\<lparr>reply_type = OP_TYPE_SEARCH_IN_RECT, reply_req = 1, reply_tid = 1, json_gen = new_json_gen 1 @ calls\<rparr>]"
    using a(3) c(4) by (simp add: answered_def reply_op_def sample_op_def sample_mem_def)
  ultimately show ?thesis using a(1) h(2) by blast
qed

text \<open>The record paris is found by par* and not by its key.\<close>

theorem search_in_keys_answers_witness:
  "\<exists>ctx db docs status ctx'. 0 \<in> set (filter (\<lambda>a. has_prefix (bytes_of ''par'') (key_at (key_nodes db) a)) (kn_tree (key_nodes db))) \<and>
     list_all2 (key_document init_slab db (in_keys_sample (bytes_of ''par*'' @ [0])))
       (take 10 (filter (\<lambda>a. has_prefix (bytes_of ''par'') (key_at (key_nodes db) a)) (kn_tree (key_nodes db)))) docs \<and>
     handle_op_search_in_keys sample_mem sample_cfg (in_keys_sample (bytes_of ''par*'' @ [0])) ctx = Some (status, ctx') \<and>
     published ctx' = [\<lparr>reply_type = OP_TYPE_SEARCH_IN_KEYS, reply_req = 1, reply_tid = 1,
       json_gen = new_json_gen 1 @ [gen_str ''keys'', Gen_Array_Open] @ concat docs @ [Gen_Array_Close]\<rparr>] \<and>
     (\<exists>status2 ctx2. handle_op_search_in_keys sample_mem sample_cfg (in_keys_sample sample_key) ctx = Some (status2, ctx2) \<and>
        published ctx2 = [\<lparr>reply_type = OP_TYPE_SEARCH_IN_KEYS, reply_req = 1, reply_tid = 1,
          json_gen = new_json_gen 1 @ [gen_str ''keys'', Gen_Array_Open, Gen_Array_Close]\<rparr>])"
proof -
  obtain ctx db where c: "ctx_inv ctx" "layers ctx sample_layer = Some db" "expirables_slab ctx = init_slab" "published ctx = []"
    "searchable init_slab db True False" "node_of_key (key_nodes db) sample_key = Some 0"
    "\<forall>k. node_of_key (key_nodes db) k \<noteq> None \<longrightarrow> k = sample_key"
    using search_context by blast
  have len: "1 < length sample_key" by (simp add: sample_key_def bytes_of_def)
  have op: "0 < keys_limit (in_keys_sample q)" "keys_limit (in_keys_sample q) < 2 ^ 64" "\<not> fake_req (keys_bare (in_keys_sample q))"
    "\<forall>db. layers ctx (keys_layer_name (in_keys_sample q)) = Some db \<longrightarrow> plain_db (expirables_slab ctx) db \<and>
      few_links db (keys_with_properties (in_keys_sample q)) (keys_with_links (in_keys_sample q)) \<and>
      (\<forall>k. node_of_key (key_nodes db) k \<noteq> None \<longrightarrow> 1 < length k)" for q
    using c(2,3,5,7) len by (auto simp: in_keys_sample_def sample_op_def searchable_def)
  have star: "bytes_of ''par*'' \<noteq> []" "0 \<notin> set (bytes_of ''par*'')" "last (bytes_of ''par*'') = chr CHR ''*''"
    "butlast (bytes_of ''par*'') = bytes_of ''par''" by (simp_all add: bytes_of_def)
  have key: "bytes_of ''paris'' \<noteq> []" "0 \<notin> set (bytes_of ''paris'')" "last (bytes_of ''paris'') \<noteq> chr CHR ''*''"
    by (simp_all add: bytes_of_def)
  have pat: "keys_pattern (in_keys_sample q) = q" for q by (simp add: in_keys_sample_def)
  obtain status ctx' docs where a: "handle_op_search_in_keys sample_mem sample_cfg (in_keys_sample (bytes_of ''par*'' @ [0])) ctx = Some (status, ctx')"
    "list_all2 (key_document init_slab db (in_keys_sample (bytes_of ''par*'' @ [0])))
       (take 10 (filter (\<lambda>a. has_prefix (bytes_of ''par'') (key_at (key_nodes db) a)) (kn_tree (key_nodes db)))) docs"
    "answered sample_mem OP_TYPE_SEARCH_IN_KEYS sample_op ([gen_str ''keys'', Gen_Array_Open] @ concat docs @ [Gen_Array_Close]) status ctx ctx'"
    using search_in_keys_answers [OF c(1) sample_memory op(1-3) star(1,2) pat op(4), of sample_cfg] c(2,3) star(3,4)
    by (auto simp: in_keys_sample_def)
  obtain status2 ctx2 where b: "handle_op_search_in_keys sample_mem sample_cfg (in_keys_sample sample_key) ctx = Some (status2, ctx2)"
    "answered sample_mem OP_TYPE_SEARCH_IN_KEYS sample_op [gen_str ''keys'', Gen_Array_Open, Gen_Array_Close] status2 ctx ctx2"
    using search_in_keys_answers [OF c(1) sample_memory op(1-3) key(1,2) pat op(4), of sample_cfg] c(2,3) key(3)
    unfolding sample_key_def by (auto simp: in_keys_sample_def)
  have inv: "db_inv init_slab db" using c(5) plain_dbD(1) unfolding searchable_def by blast
  have "0 \<in> set (kn_tree (key_nodes db))" "key_at (key_nodes db) 0 = sample_key"
    using c(6) unfolding node_of_key_Some [OF db_invD(2) [OF inv]] by simp_all
  then have "0 \<in> set (filter (\<lambda>a. has_prefix (bytes_of ''par'') (key_at (key_nodes db) a)) (kn_tree (key_nodes db)))"
    by (simp add: has_prefix_def sample_key_def bytes_of_def)
  moreover have "published ctx' = [\<lparr>reply_type = OP_TYPE_SEARCH_IN_KEYS, reply_req = 1, reply_tid = 1,
       json_gen = new_json_gen 1 @ [gen_str ''keys'', Gen_Array_Open] @ concat docs @ [Gen_Array_Close]\<rparr>]"
    "published ctx2 = [\<lparr>reply_type = OP_TYPE_SEARCH_IN_KEYS, reply_req = 1, reply_tid = 1,
       json_gen = new_json_gen 1 @ [gen_str ''keys'', Gen_Array_Open, Gen_Array_Close]\<rparr>]"
    using a(3) b(2) c(4) by (simp_all add: answered_def reply_op_def sample_op_def sample_mem_def)
  ultimately show ?thesis using a(1,2) b(1) by blast
qed

end
