(* ===== verification/Float_Text.thy ===== *)
theory Float_Text
  imports C_Strings Dimension_Eval
begin

text \<open>
  Floating-point numbers as text, in the C library: strtod, which the requests use to read coordinates, and
  printf with %f, which the rewriting of the journal uses to write them. strtod gives the
  number nearest to the decimal or hexadecimal text, in binary64; %f gives six digits after the point.
\<close>

section \<open>strtod\<close>

text \<open>The digits before and after a point: the number that they make, the number of digits after the point, and what follows.\<close>

definition scan_digits :: "nat \<Rightarrow> bytes \<Rightarrow> (nat \<times> nat \<times> bytes) option" where
  "scan_digits base s =
     (let (n, rest) = parse_digits base 0 s
      in case rest of
           c # cs \<Rightarrow>
             (if c = chr CHR ''.'' \<and> (is_digit base s \<or> is_digit base cs) then
                (let (m, rest') = parse_digits base n cs in Some (m, length cs - length rest', rest'))
              else if is_digit base s then Some (n, 0, rest) else None)
         | [] \<Rightarrow> if is_digit base s then Some (n, 0, rest) else None)"

text \<open>An exponent, after its letter; without digits there is none.\<close>

definition scan_exponent :: "char \<Rightarrow> bytes \<Rightarrow> int" where
  "scan_exponent letter s =
     (case s of
        [] \<Rightarrow> 0
      | c # cs \<Rightarrow>
          (if tolower c \<noteq> chr letter then 0
           else
             (case cs of
                [] \<Rightarrow> 0
              | d # ds \<Rightarrow>
                  (if d = chr CHR ''-'' then - int (fst (parse_digits 10 0 ds))
                   else int (fst (parse_digits 10 0 (if d = chr CHR ''+'' then ds else cs)))))))"

definition starts_with :: "string \<Rightarrow> bytes \<Rightarrow> bool" where
  "starts_with w s = (map tolower (take (length w) s) = bytes_of w)"

definition scan_magnitude :: "bytes \<Rightarrow> dimension option" where
  "scan_magnitude s =
     (if starts_with ''inf'' s then Some PInf
      else if starts_with ''nan'' s then Some NaN
      else
        (case (if starts_with ''0x'' s then scan_digits 16 (drop 2 s) else None) of
           Some (m, k, rest) \<Rightarrow> Some (f64 (of_nat m * 2 powi (scan_exponent CHR ''p'' rest - 4 * int k)))
         | None \<Rightarrow>
             (case scan_digits 10 s of
                Some (m, k, rest) \<Rightarrow> Some (f64 (of_nat m * 10 powi (scan_exponent CHR ''e'' rest - int k)))
              | None \<Rightarrow> None)))"

text \<open>The value, and whether the end pointer differs from the start.\<close>

definition strtod :: "bytes \<Rightarrow> dimension \<times> bool" where
  "strtod s =
     (let s1 = dropWhile isspace s;
          (neg, s2) = (case s1 of
             [] \<Rightarrow> (False, s1)
           | c # cs \<Rightarrow> if c = chr CHR ''-'' then (True, cs)
                       else if c = chr CHR ''+'' then (False, cs) else (False, s1))
      in case scan_magnitude s2 of
           None \<Rightarrow> (Fin 0, False)
         | Some d \<Rightarrow> (if neg then fneg d else d, True))"

section \<open>printf with %f\<close>

text \<open>The nearest multiple of a millionth, ties to even, with all its six digits.\<close>

definition print_micros :: "nat \<Rightarrow> bytes" where
  "print_micros n = dec_of (n div 1000000) @ [chr CHR ''.''] @ drop 1 (dec_of (1000000 + n mod 1000000))"

fun print_f :: "dimension \<Rightarrow> bytes" where
  "print_f (Fin x) =
     (if x < 0 then chr CHR ''-'' # print_micros (nat (round_even (- x * 1000000)))
      else print_micros (nat (round_even (x * 1000000))))"
| "print_f PInf = bytes_of ''inf''"
| "print_f MInf = bytes_of ''-inf''"
| "print_f NaN = bytes_of ''nan''"

section \<open>Reading what was printed\<close>


end
