(* ===== verification/Requests.thy ===== *)
theory Requests
  imports Keys Query_Parser Cqueue Float_Text Search_Handlers
begin

text \<open>
  How requests become operations (\<open>domain_records.c\<close>, \<open>domain_layers.c\<close>, \<open>domain_search.c\<close>,
  \<open>domain_system.c\<close>: handle_domain_records and so on, with their query callbacks): the path is taken apart, the options or
  the body are parsed, and an operation is put on the queue of the workers. The strings are
  those of the decoded URI, up to their terminating zero. The references to keys are not counted here (theory Keys).
  The theorems say that every operation that is queued is well formed, whatever the client sent, what a PUT
  makes of its body, and which requests fail an assertion.
\<close>

section \<open>Operations and the state they are queued in\<close>

datatype operation =
    Ping_Op bare_op
  | Layers_Create_Op bare_op bytes
  | Layers_Delete_Op bare_op bytes
  | Layers_Index_Op bare_op
  | Records_Put_Op records_put_op
  | Records_Get_Op records_get_op
  | Records_Delete_Op records_delete_op
  | Search_Nearby_Op search_nearby_op
  | Search_In_Rect_Op search_in_rect_op
  | Search_In_Keys_Op search_in_keys_op

text \<open>The part that all operations share.\<close>

fun bare :: "operation \<Rightarrow> bare_op" where
  "bare (Ping_Op b) = b"
| "bare (Layers_Create_Op b name) = b"
| "bare (Layers_Delete_Op b name) = b"
| "bare (Layers_Index_Op b) = b"
| "bare (Records_Put_Op op) = put_bare op"
| "bare (Records_Get_Op op) = get_bare op"
| "bare (Records_Delete_Op op) = delete_bare op"
| "bare (Search_Nearby_Op op) = near_bare op"
| "bare (Search_In_Rect_Op op) = rect_bare op"
| "bare (Search_In_Keys_Op op) = keys_bare op"

text \<open>The operations that change the database. The journal keeps their requests.\<close>

fun is_write :: "operation \<Rightarrow> bool" where
  "is_write (Layers_Create_Op b name) = True"
| "is_write (Layers_Delete_Op b name) = True"
| "is_write (Records_Put_Op op) = True"
| "is_write (Records_Delete_Op op) = True"
| "is_write op = False"

text \<open>What the main thread writes of the context of \<open>http_server.h\<close>: the transaction id, of 64 bits, and the queue.\<close>

record request_queue =
  rq_op_tid :: nat
  rq_cqueue :: "operation cqueue"

text \<open>A request: its address, its method as a number, and the input buffer.\<close>

record request =
  req_id :: nat
  req_type :: nat
  req_input :: bytes

definition EVHTTP_REQ_GET :: nat where "EVHTTP_REQ_GET = 1"
definition EVHTTP_REQ_POST :: nat where "EVHTTP_REQ_POST = 2"
definition EVHTTP_REQ_PUT :: nat where "EVHTTP_REQ_PUT = 8"
definition EVHTTP_REQ_DELETE :: nat where "EVHTTP_REQ_DELETE = 16"

lemmas request_methods = EVHTTP_REQ_GET_def EVHTTP_REQ_POST_def EVHTTP_REQ_PUT_def EVHTTP_REQ_DELETE_def

text \<open>
  The result of a handler: the HTTP status, 0 when the request was queued, whether it is to be written to the
  journal, and the new state.
\<close>

type_synonym domain_result = "(int \<times> bool \<times> request_queue) option"

definition next_tid :: "request_queue \<Rightarrow> request_queue" where
  "next_tid rq = rq\<lparr>rq_op_tid := (rq_op_tid rq + 1) mod 2 ^ 64\<rparr>"

definition bare_of :: "request \<Rightarrow> bool \<Rightarrow> request_queue \<Rightarrow> bare_op" where
  "bare_of req fake rq = \<lparr>op_req = req_id req, fake_req = fake, op_tid = rq_op_tid (next_tid rq)\<rparr>"

text \<open>The end of the handlers: the id was taken, the operation is pushed under the mutex of the queue.\<close>

definition queue_op :: "operation \<Rightarrow> bool \<Rightarrow> request_queue \<Rightarrow> domain_result" where
  "queue_op op write_to_log rq =
     do {
       (ret, q) \<leftarrow> push_cqueue (rq_cqueue rq) op;
       (if ret \<noteq> 0 then Some (HTTP_SERVUNAVAIL, False, rq\<lparr>rq_cqueue := q\<rparr>)
        else Some (0, write_to_log, rq\<lparr>rq_cqueue := q\<rparr>))
     }"

definition refuse :: "int \<Rightarrow> request_queue \<Rightarrow> domain_result" where
  "refuse status rq = Some (status, False, rq)"

text \<open>strchr: what is before the first such character and what is after it.\<close>

definition split_at :: "char \<Rightarrow> bytes \<Rightarrow> (bytes \<times> bytes) option" where
  "split_at c s = (if chr c \<in> set s then Some (until (\<lambda>d. d = chr c) s, drop (length (until (\<lambda>d. d = chr c) s) + 1) s) else None)"

text \<open>The contents of the key that new_key_from_c_string makes; the outer None is its assertion.\<close>

definition request_key :: "memory \<Rightarrow> bytes \<Rightarrow> bytes option option" where
  "request_key mem s =
     do {
       c_assert (s \<noteq> []);
       Some (if name_mem mem \<and> length s + 1 \<le> SIZE_MAX - sizeof_key then Some (s @ [0]) else None)
     }"

definition query_mem :: "memory \<Rightarrow> nat \<Rightarrow> alloc \<times> alloc" where
  "query_mem mem = (\<lambda>i. (map_mem mem, map_mem mem))"

definition strcasecmp_eq :: "bytes \<Rightarrow> string \<Rightarrow> bool" where
  "strcasecmp_eq s w = (map tolower s = map tolower (bytes_of w))"

section \<open>Layers and system\<close>

definition handle_domain_layers ::
  "memory \<Rightarrow> request \<Rightarrow> bytes \<Rightarrow> bool \<Rightarrow> request_queue \<Rightarrow> domain_result" where
  "handle_domain_layers mem req uri fake rq =
     (if req_type req = EVHTTP_REQ_GET then
        (if uri \<noteq> bytes_of ''index'' then refuse HTTP_NOTFOUND rq
         else queue_op (Layers_Index_Op (bare_of req fake rq)) False (next_tid rq))
      else if req_type req = EVHTTP_REQ_POST then
        (if uri = [] then refuse HTTP_NOTFOUND rq
         else do {
           key \<leftarrow> request_key mem uri;
           (case key of
              None \<Rightarrow> refuse HTTP_SERVUNAVAIL rq
            | Some name \<Rightarrow> queue_op (Layers_Create_Op (bare_of req fake rq) (butlast name)) True (next_tid rq))
         })
      else if req_type req = EVHTTP_REQ_DELETE then
        (if uri = [] then refuse HTTP_NOTFOUND rq
         else do {
           key \<leftarrow> request_key mem uri;
           (case key of
              None \<Rightarrow> refuse HTTP_SERVUNAVAIL rq
            | Some name \<Rightarrow> queue_op (Layers_Delete_Op (bare_of req fake rq) (butlast name)) True (next_tid rq))
         })
      else refuse HTTP_NOTFOUND rq)"

section \<open>Records\<close>

definition time_of_ulong :: "nat \<Rightarrow> int" where
  "time_of_ulong n = sint (of_nat n :: 64 word)"

definition store_property :: "alloc \<Rightarrow> slip_map option \<Rightarrow> bytes \<Rightarrow> bytes \<Rightarrow> (int \<times> slip_map option) option" where
  "store_property a mo key val =
     do {
       m \<leftarrow> (case mo of None \<Rightarrow> new_slip_map a PROPERTIES_DEFAULT_SLIP_MAP_BUFFER_SIZE | Some m \<Rightarrow> Some (Some m));
       (case m of
          None \<Rightarrow> Some (- 1, None)
        | Some m \<Rightarrow> do { (_, m') \<leftarrow> replace_entry_in_slip_map a m key val; Some (0, Some m') })
     }"

text \<open>The position: two numbers with a comma between them.\<close>

definition put_read_position :: "records_put_op \<Rightarrow> bytes \<Rightarrow> int \<times> records_put_op" where
  "put_read_position op value =
     (let svalue = skip_spaces (c_str value)
      in case split_at CHR '','' svalue of
           None \<Rightarrow> (- 1, op)
         | Some (lat, sep) \<Rightarrow>
             (let lon = skip_spaces sep
              in if lon = [] then (- 1, op)
                 else
                   (let (la, lat_ok) = strtod lat;
                        op1 = op\<lparr>put_position := (put_position op)\<lparr>latitude := to_float la\<rparr>\<rparr>
                    in if \<not> lat_ok then (- 1, op1)
                       else
                         (let (lo, lon_ok) = strtod lon;
                              op2 = op1\<lparr>put_position := (put_position op1)\<lparr>longitude := to_float lo\<rparr>\<rparr>
                          in if \<not> lon_ok then (- 1, op2) else (0, op2\<lparr>put_position_set := True\<rparr>)))))"

definition put_read_expiration :: "records_put_op \<Rightarrow> bytes \<Rightarrow> int \<times> records_put_op" where
  "put_read_expiration op value =
     (let svalue = skip_spaces (c_str value)
      in if svalue = [] then (0, op\<lparr>put_expires_at := 0\<rparr>)
         else (if has_number 10 svalue then 0 else - 1, op\<lparr>put_expires_at := time_of_ulong (strtoul 10 svalue)\<rparr>))"

definition records_put_opt_parse_cb ::
  "alloc \<Rightarrow> records_put_op \<Rightarrow> bytes \<Rightarrow> bytes \<Rightarrow> (int \<times> records_put_op) option" where
  "records_put_opt_parse_cb a op key value =
     (if binval_is_equal_to key ''_loc'' then Some (put_read_position op value)
      else if binval_is_equal_to key ''_expires_at'' then Some (put_read_expiration op value)
      else
        do {
          c_assert (length key > 0);
          (if hd key = INT_PROPERTY_COMMON_PREFIX then
             do {
               (ret, m) \<leftarrow> store_property a (put_special_properties op) key value;
               Some (ret, op\<lparr>put_special_properties := m\<rparr>)
             }
           else
             do {
               (ret, m) \<leftarrow> store_property a (put_properties_map op) key value;
               Some (ret, op\<lparr>put_properties_map := m\<rparr>)
             })
        })"

text \<open>The option of a GET.\<close>

definition records_opt_parse_cb :: "bool \<Rightarrow> bytes \<Rightarrow> bytes \<Rightarrow> (int \<times> bool) option" where
  "records_opt_parse_cb with_links key value =
     (let svalue = skip_spaces (c_str value)
      in if svalue = [] then Some (0, with_links)
         else if binval_is_equal_to key ''links'' then
           (if has_number 10 svalue then Some (0, strtol 10 svalue > 0) else Some (- 1, with_links))
         else Some (0, with_links))"

text \<open>
  The common start of the three methods: layer and key from the path. An empty layer name fails the assertion of
  new_key_from_c_string; this is before the check for an empty key.
\<close>

definition record_path ::
  "memory \<Rightarrow> bytes \<Rightarrow> request_queue \<Rightarrow> (bytes \<Rightarrow> bytes \<Rightarrow> domain_result) \<Rightarrow> domain_result" where
  "record_path mem uri rq f =
     (case split_at CHR ''/'' uri of
        None \<Rightarrow> refuse HTTP_NOTFOUND rq
      | Some (layer, sep) \<Rightarrow>
          do {
            name \<leftarrow> request_key mem layer;
            (case name of
               None \<Rightarrow> refuse HTTP_SERVUNAVAIL rq
             | Some name \<Rightarrow>
                 (if sep = [] then refuse HTTP_NOTFOUND rq
                  else
                    do {
                      key \<leftarrow> request_key mem sep;
                      (case key of
                         None \<Rightarrow> refuse HTTP_SERVUNAVAIL rq
                       | Some key \<Rightarrow> f (butlast name) key)
                    }))
          })"

definition handle_domain_records_get ::
  "memory \<Rightarrow> request \<Rightarrow> bytes \<Rightarrow> bytes option \<Rightarrow> bool \<Rightarrow> request_queue \<Rightarrow> domain_result" where
  "handle_domain_records_get mem req uri opts fake rq =
     record_path mem uri rq (\<lambda>layer key.
       do {
         (ret, with_links) \<leftarrow>
           (case opts of
              None \<Rightarrow> Some (0, False)
            | Some opts \<Rightarrow> query_parse (query_mem mem) (Some records_opt_parse_cb) opts False);
         (if ret \<noteq> 0 then refuse HTTP_BADREQUEST rq
          else queue_op (Records_Get_Op \<lparr>get_bare = bare_of req fake rq, get_layer_name = layer, get_key = key,
                                          get_with_links = with_links\<rparr>) False (next_tid rq))
       })"

definition empty_put_op :: "bare_op \<Rightarrow> bytes \<Rightarrow> bytes \<Rightarrow> records_put_op" where
  "empty_put_op b layer key =
     \<lparr>put_bare = b, put_layer_name = layer, put_key = key, put_position = pos (Fin (- 1)) (Fin (- 1)),
      put_properties_map = None, put_special_properties = None, put_position_set = False, put_expires_at = 0\<rparr>"

text \<open>The body: a zero is added to the input buffer, whose bytes are then taken as a C string.\<close>

definition handle_domain_records_put ::
  "memory \<Rightarrow> request \<Rightarrow> bytes \<Rightarrow> bool \<Rightarrow> request_queue \<Rightarrow> domain_result" where
  "handle_domain_records_put mem req uri fake rq =
     record_path mem uri rq (\<lambda>layer key.
       do {
         (ret, op) \<leftarrow> query_parse (query_mem mem) (Some (records_put_opt_parse_cb (map_mem mem)))
           (c_str (req_input req @ [0])) (empty_put_op (bare_of req fake rq) layer key);
         (if ret \<noteq> 0 then refuse HTTP_BADREQUEST (next_tid rq)
          else queue_op (Records_Put_Op op) True (next_tid rq))
       })"

definition handle_domain_records_delete ::
  "memory \<Rightarrow> request \<Rightarrow> bytes \<Rightarrow> bool \<Rightarrow> request_queue \<Rightarrow> domain_result" where
  "handle_domain_records_delete mem req uri fake rq =
     record_path mem uri rq (\<lambda>layer key.
       queue_op (Records_Delete_Op \<lparr>delete_bare = bare_of req fake rq, delete_layer_name = layer, delete_key = key\<rparr>)
         True (next_tid rq))"

definition handle_domain_records ::
  "memory \<Rightarrow> request \<Rightarrow> bytes \<Rightarrow> bytes option \<Rightarrow> bool \<Rightarrow> request_queue \<Rightarrow> domain_result" where
  "handle_domain_records mem req uri opts fake rq =
     (if req_type req = EVHTTP_REQ_GET then handle_domain_records_get mem req uri opts fake rq
      else if req_type req = EVHTTP_REQ_PUT then handle_domain_records_put mem req uri fake rq
      else if req_type req = EVHTTP_REQ_DELETE then handle_domain_records_delete mem req uri fake rq
      else refuse HTTP_NOTFOUND rq)"

section \<open>Searches\<close>

record search_options =
  so_radius :: dimension
  so_limit :: nat
  so_epsilon :: dimension
  so_with_properties :: bool
  so_with_content :: bool
  so_with_links :: bool

definition DEFAULT_SEARCH_LIMIT :: nat where
  "DEFAULT_SEARCH_LIMIT = 250"

definition default_options :: search_options where
  "default_options =
     \<lparr>so_radius = Fin 0, so_limit = DEFAULT_SEARCH_LIMIT, so_epsilon = Fin (- 1), so_with_properties = True,
      so_with_content = True, so_with_links = False\<rparr>"

definition search_opt_parse_cb :: "search_options \<Rightarrow> bytes \<Rightarrow> bytes \<Rightarrow> (int \<times> search_options) option" where
  "search_opt_parse_cb c key value =
     (let svalue = skip_spaces (c_str value)
      in if svalue = [] then Some (0, c)
         else if binval_is_equal_to key ''radius'' then
           (let (d, ok) = strtod svalue; radius = to_float d
            in if \<not> ok \<or> flt radius (Fin 0) then Some (- 1, c) else Some (0, c\<lparr>so_radius := radius\<rparr>))
         else if binval_is_equal_to key ''limit'' then
           (let limit = strtoul 10 svalue
            in if \<not> has_number 10 svalue \<or> limit = 0 then Some (- 1, c) else Some (0, c\<lparr>so_limit := limit\<rparr>))
         else if binval_is_equal_to key ''epsilon'' then
           (let (d, ok) = strtod svalue; epsilon = to_float d
            in if \<not> ok \<or> fle epsilon (Fin 0) then Some (- 1, c) else Some (0, c\<lparr>so_epsilon := epsilon\<rparr>))
         else if binval_is_equal_to key ''properties'' then
           (if \<not> has_number 10 svalue then Some (- 1, c) else Some (0, c\<lparr>so_with_properties := (strtoul 10 svalue \<noteq> 0)\<rparr>))
         else if binval_is_equal_to key ''content'' then
           (if \<not> has_number 10 svalue then Some (- 1, c) else Some (0, c\<lparr>so_with_content := (strtoul 10 svalue \<noteq> 0)\<rparr>))
         else if binval_is_equal_to key ''links'' then
           (if \<not> has_number 10 svalue then Some (- 1, c) else Some (0, c\<lparr>so_with_links := (strtol 10 svalue > 0)\<rparr>))
         else Some (0, c))"

text \<open>
  One number of a position or a rectangle, up to a comma: the number and what follows the comma without its leading spaces.
  None is the answer 400: no comma, nothing after it, or no number.
\<close>

definition read_coordinate :: "bytes \<Rightarrow> (dimension \<times> bytes) option" where
  "read_coordinate query =
     (case split_at CHR '','' query of
        None \<Rightarrow> None
      | Some (s, sep) \<Rightarrow>
          (let rest = skip_spaces sep; (d, ok) = strtod s
           in if rest = [] \<or> \<not> ok then None else Some (to_float d, rest)))"

definition read_last_coordinate :: "bytes \<Rightarrow> dimension option" where
  "read_last_coordinate query = (let (d, ok) = strtod query in if ok then Some (to_float d) else None)"

definition read_position :: "bytes \<Rightarrow> position2d option" where
  "read_position query =
     do {
       (la, rest) \<leftarrow> read_coordinate query;
       lo \<leftarrow> read_last_coordinate rest;
       Some (pos la lo)
     }"

definition read_rect :: "bytes \<Rightarrow> rectangle2d option" where
  "read_rect query =
     do {
       (la0, rest0) \<leftarrow> read_coordinate query;
       (lo0, rest1) \<leftarrow> read_coordinate rest0;
       (la1, rest2) \<leftarrow> read_coordinate rest1;
       lo1 \<leftarrow> read_last_coordinate rest2;
       Some (rect (pos la0 lo0) (pos la1 lo1))
     }"

definition search_nearby_request ::
  "request \<Rightarrow> bytes \<Rightarrow> search_options \<Rightarrow> bytes \<Rightarrow> bool \<Rightarrow> request_queue \<Rightarrow> domain_result" where
  "search_nearby_request req layer c query fake rq =
     (case read_position query of
        None \<Rightarrow> refuse HTTP_BADREQUEST (next_tid rq)
      | Some p \<Rightarrow>
          queue_op (Search_Nearby_Op
            \<lparr>near_bare = bare_of req fake rq, near_layer_name = layer, near_position = p, near_radius = so_radius c,
             near_limit = so_limit c, near_epsilon = so_epsilon c, near_with_properties = so_with_properties c,
             near_with_links = so_with_links c\<rparr>) False (next_tid rq))"

definition search_in_rect_request ::
  "request \<Rightarrow> bytes \<Rightarrow> search_options \<Rightarrow> bytes \<Rightarrow> bool \<Rightarrow> request_queue \<Rightarrow> domain_result" where
  "search_in_rect_request req layer c query fake rq =
     (case read_rect query of
        None \<Rightarrow> refuse HTTP_BADREQUEST (next_tid rq)
      | Some r \<Rightarrow>
          queue_op (Search_In_Rect_Op
            \<lparr>rect_bare = bare_of req fake rq, rect_layer_name = layer, search_rect = untangle_rect r,
             rect_limit = so_limit c, rect_epsilon = so_epsilon c, rect_with_properties = so_with_properties c,
             rect_with_links = so_with_links c\<rparr>) False (next_tid rq))"

definition search_in_keys_request ::
  "memory \<Rightarrow> request \<Rightarrow> bytes \<Rightarrow> search_options \<Rightarrow> bytes \<Rightarrow> bool \<Rightarrow> request_queue \<Rightarrow> domain_result" where
  "search_in_keys_request mem req layer c query fake rq =
     do {
       pattern \<leftarrow> request_key mem query;
       (case pattern of
          None \<Rightarrow> refuse HTTP_SERVUNAVAIL (next_tid rq)
        | Some pattern \<Rightarrow>
            queue_op (Search_In_Keys_Op
              \<lparr>keys_bare = bare_of req fake rq, keys_layer_name = layer, keys_pattern = pattern, keys_limit = so_limit c,
               keys_with_properties = so_with_properties c, keys_with_content = so_with_content c,
               keys_with_links = so_with_links c\<rparr>) False (next_tid rq))
     }"

definition handle_domain_search ::
  "memory \<Rightarrow> request \<Rightarrow> bytes \<Rightarrow> bytes option \<Rightarrow> bool \<Rightarrow> request_queue \<Rightarrow> domain_result" where
  "handle_domain_search mem req uri opts fake rq =
     (if req_type req \<noteq> EVHTTP_REQ_GET then refuse HTTP_NOTFOUND rq
      else
        (case split_at CHR ''/'' uri of
           None \<Rightarrow> refuse HTTP_NOTFOUND rq
         | Some (layer, sep) \<Rightarrow>
             (if layer = [] then refuse HTTP_SERVUNAVAIL rq
              else
                do {
                  name \<leftarrow> request_key mem layer;
                  (case (name, split_at CHR ''/'' sep) of
                     (None, _) \<Rightarrow> refuse HTTP_SERVUNAVAIL rq
                   | (Some name, None) \<Rightarrow> refuse HTTP_NOTFOUND rq
                   | (Some name, Some (search_type, query)) \<Rightarrow>
                       (if query = [] then refuse HTTP_NOTFOUND rq
                        else
                          do {
                            (ret, c) \<leftarrow>
                              (case opts of
                                 None \<Rightarrow> Some (0, default_options)
                               | Some opts \<Rightarrow> query_parse (query_mem mem) (Some search_opt_parse_cb) opts default_options);
                            (if ret \<noteq> 0 then refuse HTTP_BADREQUEST rq
                             else if strcasecmp_eq search_type ''nearby'' then
                               search_nearby_request req layer c query fake rq
                             else if strcasecmp_eq search_type ''in_rect'' then
                               search_in_rect_request req layer c query fake rq
                             else if strcasecmp_eq search_type ''keys'' then
                               search_in_keys_request mem req layer c query fake rq
                             else refuse HTTP_NOTFOUND rq)
                          }))
                })))"

text \<open>The part of handle_domain_system that queues an operation; shutdown and rewrite are not modelled here.\<close>

definition handle_domain_system_ping ::
  "request \<Rightarrow> bytes \<Rightarrow> bool \<Rightarrow> request_queue \<Rightarrow> domain_result option" where
  "handle_domain_system_ping req uri fake rq =
     (if strcasecmp_eq uri ''ping'' then Some (queue_op (Ping_Op (bare_of req fake rq)) False (next_tid rq)) else None)"

section \<open>Queued operations are well formed\<close>

definition layer_ok :: "bytes \<Rightarrow> bool" where
  "layer_ok name = (name \<noteq> [] \<and> 0 \<notin> set name)"

definition key_ok :: "bytes \<Rightarrow> bool" where
  "key_ok key = (\<exists>c. layer_ok c \<and> key = c @ [0])"

definition limit_ok :: "nat \<Rightarrow> bool" where
  "limit_ok n = (0 < n \<and> n < 2 ^ 64)"

fun op_ok :: "operation \<Rightarrow> bool" where
  "op_ok (Ping_Op b) = True"
| "op_ok (Layers_Create_Op b name) = layer_ok name"
| "op_ok (Layers_Delete_Op b name) = layer_ok name"
| "op_ok (Layers_Index_Op b) = True"
| "op_ok (Records_Put_Op op) = (put_op_ok op \<and> layer_ok (put_layer_name op) \<and> key_ok (put_key op))"
| "op_ok (Records_Get_Op op) = (layer_ok (get_layer_name op) \<and> key_ok (get_key op))"
| "op_ok (Records_Delete_Op op) = (layer_ok (delete_layer_name op) \<and> key_ok (delete_key op))"
| "op_ok (Search_Nearby_Op op) =
     (layer_ok (near_layer_name op) \<and> limit_ok (near_limit op) \<and> \<not> flt (near_radius op) (Fin 0))"
| "op_ok (Search_In_Rect_Op op) = (layer_ok (rect_layer_name op) \<and> limit_ok (rect_limit op))"
| "op_ok (Search_In_Keys_Op op) = (layer_ok (keys_layer_name op) \<and> limit_ok (keys_limit op) \<and> key_ok (keys_pattern op))"

text \<open>The operation that a call of a handler adds to the queue, if any.\<close>

definition adds_op :: "request \<Rightarrow> bool \<Rightarrow> request_queue \<Rightarrow> int \<times> bool \<times> request_queue \<Rightarrow> bool" where
  "adds_op req fake rq res =
     (case res of (status, write_to_log, rq') \<Rightarrow>
        cq_inv (rq_cqueue rq') \<and> cq_capacity (rq_cqueue rq') = cq_capacity (rq_cqueue rq) \<and>
        (if status = 0 then (\<exists>op. op_ok op \<and> bare op = bare_of req fake rq \<and> (write_to_log \<longleftrightarrow> is_write op) \<and>
           cq_list (rq_cqueue rq') = cq_list (rq_cqueue rq) @ [op])
         else \<not> write_to_log \<and> cq_list (rq_cqueue rq') = cq_list (rq_cqueue rq)))"

lemma statuses_not_0 [simp]: "HTTP_NOTFOUND \<noteq> 0" "HTTP_SERVUNAVAIL \<noteq> 0" "HTTP_BADREQUEST \<noteq> 0"
  by (simp_all add: HTTP_NOTFOUND_def HTTP_SERVUNAVAIL_def HTTP_BADREQUEST_def)

lemma next_tid_cqueue [simp]: "rq_cqueue (next_tid rq) = rq_cqueue rq"
  by (simp add: next_tid_def)

lemma refuse_adds: "refuse status rq1 = Some res \<Longrightarrow> status \<noteq> 0 \<Longrightarrow> rq_cqueue rq1 = rq_cqueue rq \<Longrightarrow> cq_inv (rq_cqueue rq) \<Longrightarrow>
    adds_op req fake rq res"
  by (auto simp: refuse_def adds_op_def)

lemma queue_op_adds:
  assumes "queue_op op w rq1 = Some res" "op_ok op \<and> (w \<longleftrightarrow> is_write op)" "bare op = bare_of req fake rq" "rq_cqueue rq1 = rq_cqueue rq" "cq_inv (rq_cqueue rq)"
  shows "adds_op req fake rq res"
proof (rule cq.push_cases [OF assms(5), of op])
  fix q' assume "push_cqueue (rq_cqueue rq) op = Some (0, q')" "cq_inv q'" "cq_list q' = cq_list (rq_cqueue rq) @ [op]"
    "cq_capacity q' = cq_capacity (rq_cqueue rq)"
  then show ?thesis using assms by (auto simp: queue_op_def adds_op_def)
next
  assume "push_cqueue (rq_cqueue rq) op = Some (- 1, rq_cqueue rq)"
  then show ?thesis using assms by (auto simp: queue_op_def adds_op_def)
qed

lemmas adds_intros = refuse_adds queue_op_adds

lemma request_key_Some:
  "request_key mem s = Some (Some key) \<Longrightarrow> 0 \<notin> set s \<Longrightarrow> key = s @ [0] \<and> layer_ok s \<and> layer_ok (butlast key) \<and> key_ok key"
  by (auto simp: request_key_def layer_ok_def key_ok_def bind_eq_Some_conv split: if_splits)

lemma split_at_Some:
  assumes "split_at c s = Some (a, b)"
  shows "s = a @ chr c # b" "chr c \<notin> set a"
proof -
  have c: "chr c \<in> set s" and a: "a = until (\<lambda>d. d = chr c) s" and b: "b = drop (length a + 1) s"
    using assms by (auto simp: split_at_def split: if_splits)
  have d: "s = a @ dropWhile (\<lambda>d. d \<noteq> chr c) s" by (simp add: a until_def)
  moreover have ne: "dropWhile (\<lambda>d. d \<noteq> chr c) s \<noteq> []" using c by simp
  moreover have "hd (dropWhile (\<lambda>d. d \<noteq> chr c) s) = chr c" using hd_dropWhile [OF ne] by simp
  ultimately obtain b' where s: "s = a @ chr c # b'" by (metis list.collapse)
  then have "b = b'" by (simp add: b)
  then show "s = a @ chr c # b" using s by simp
  show "chr c \<notin> set a" by (auto simp: a until_def dest: set_takeWhileD)
qed

lemma queue_key_adds:
  assumes "do {
      key \<leftarrow> request_key mem s;
      (case key of None \<Rightarrow> refuse HTTP_SERVUNAVAIL rq1 | Some name \<Rightarrow> queue_op (f name) w rq2)
    } = Some res"
    and "0 \<notin> set s" "cq_inv (rq_cqueue rq)" "rq_cqueue rq1 = rq_cqueue rq" "rq_cqueue rq2 = rq_cqueue rq"
    and "layer_ok s \<Longrightarrow> op_ok (f (s @ [0])) \<and> (w \<longleftrightarrow> is_write (f (s @ [0]))) \<and> bare (f (s @ [0])) = bare_of req fake rq"
  shows "adds_op req fake rq res"
proof -
  from assms(1) obtain key where key: "request_key mem s = Some key"
    "(case key of None \<Rightarrow> refuse HTTP_SERVUNAVAIL rq1 | Some name \<Rightarrow> queue_op (f name) w rq2) = Some res"
    by (auto simp: bind_eq_Some_conv)
  show ?thesis
  proof (cases key)
    case None
    then show ?thesis using key(2) assms(3,4) by (auto intro: refuse_adds)
  next
    case (Some name)
    then show ?thesis using key(2) request_key_Some [OF key(1) [unfolded Some] assms(2)] assms(3,5,6)
      by (auto intro: queue_op_adds)
  qed
qed

lemma handle_domain_layers_adds:
  assumes "handle_domain_layers mem req uri fake rq = Some res" "0 \<notin> set uri" "cq_inv (rq_cqueue rq)"
  shows "adds_op req fake rq res"
proof -
  note keys = queue_key_adds [OF _ assms(2,3) refl next_tid_cqueue, of mem _ True res req fake]
  have create: "adds_op req fake rq res"
    if "do { key \<leftarrow> request_key mem uri;
             (case key of None \<Rightarrow> refuse HTTP_SERVUNAVAIL rq
              | Some name \<Rightarrow> queue_op (Layers_Create_Op (bare_of req fake rq) (butlast name)) True (next_tid rq)) } = Some res"
    by (rule keys [OF that]) simp
  have delete: "adds_op req fake rq res"
    if "do { key \<leftarrow> request_key mem uri;
             (case key of None \<Rightarrow> refuse HTTP_SERVUNAVAIL rq
              | Some name \<Rightarrow> queue_op (Layers_Delete_Op (bare_of req fake rq) (butlast name)) True (next_tid rq)) } = Some res"
    by (rule keys [OF that]) simp
  have index: "adds_op req fake rq res" if "queue_op (Layers_Index_Op (bare_of req fake rq)) False (next_tid rq) = Some res"
    by (rule queue_op_adds [OF that]) (simp_all add: assms(3))
  have none: "adds_op req fake rq res" if "refuse HTTP_NOTFOUND rq = Some res"
    by (rule refuse_adds [OF that]) (simp_all add: assms(3))
  show ?thesis
    using assms(1) create delete index none by (simp add: handle_domain_layers_def split: if_splits)
qed

text \<open>What a callback keeps, the parser keeps.\<close>

lemma query_parse_loop_keeps:
  assumes "\<And>c k v r c'. I c \<Longrightarrow> cb c k v = Some (r, c') \<Longrightarrow> I c'"
  shows "query_parse_loop al (Some cb) i part key val c = Some (r, c') \<Longrightarrow> I c \<Longrightarrow> I c'"
proof (induction al "Some cb" i part key val c rule: query_parse_loop.induct)
  case (1 al i part key val c)
  note run = "1.prems"(1) [unfolded query_parse_loop.simps [of al _ i]]
  obtain p where p: "query_parse_part (fst (al i)) (snd (al i)) part key val = Some p" using run by (auto split: option.splits)
  obtain q key' val' nxt where q: "p = (q, key', val', nxt)" by (cases p)
  show ?case
  proof (cases "q = 0")
    case False
    then show ?thesis using run p q "1.prems"(2) by simp
  next
    case True
    obtain w where w: "cb c (bv_bytes key') (bv_bytes val') = Some w" using run p q True by (auto split: option.splits)
    obtain r1 c1 where r1: "w = (r1, c1)" by (cases w)
    have c1: "I c1" using assms [OF "1.prems"(2)] w r1 by blast
    show ?thesis
    proof (cases "r1 = 0 \<and> nxt \<noteq> None")
      case False
      then show ?thesis using run p q True w r1 c1 by (auto split: if_splits)
    next
      case more: True
      then obtain part' where n: "nxt = Some part'" by blast
      have step: "query_parse_loop al (Some cb) (i + 1) part' key' val' c1 = Some (r, c')"
        using run p q True w r1 more n by simp
      show ?thesis
        by (rule "1.hyps" [OF p _ _ _ _ _ _ _ n step c1]) (use q True w r1 more in auto)
    qed
  qed
qed

lemma query_parse_keeps:
  assumes run: "query_parse al (Some cb) query c = Some (r, c')" and c: "I c"
    and cb: "\<And>c k v r c'. I c \<Longrightarrow> cb c k v = Some (r, c') \<Longrightarrow> I c'"
  shows "I c'"
proof (cases "query = []")
  case True
  then show ?thesis using run c by (simp add: query_parse_def)
next
  case False
  then have "query_parse_loop al (Some cb) 0 query init_binval init_binval c = Some (r, c')" using run by (simp add: query_parse_def)
  from query_parse_loop_keeps [of I cb, OF cb this c] show ?thesis .
qed

subsection \<open>Properties of a PUT\<close>

lemma names_ok_None [simp]: "names_ok P None"
  by (simp add: names_ok_def)

lemma store_property_law:
  assumes "names_ok P mo" "P (hd key)" "slip_key key" "slip_val val"
  shows "\<exists>r mo'. store_property a mo key val = Some (r, mo') \<and> names_ok P mo' \<and>
    (a \<noteq> None \<longrightarrow> map_size mo + entry_size (key, val) \<le> 65535 \<longrightarrow>
       r = 0 \<and> mo' \<noteq> None \<and> prop_view mo' = (prop_view mo)(key \<mapsto> val) \<and> map_size mo' \<le> map_size mo + entry_size (key, val))"
proof (cases "mo = None \<and> a = None")
  case True
  then show ?thesis by (simp add: store_property_def PROPERTIES_DEFAULT_SLIP_MAP_BUFFER_SIZE_def)
next
  case some: False
  obtain m where m: "(case mo of None \<Rightarrow> new_slip_map a 32 | Some m \<Rightarrow> Some (Some m)) = Some (Some m)" "slip_map_inv m"
    "prop_view (Some m) = prop_view mo" "length m = map_size mo"
  proof (cases mo)
    case None
    then obtain m where "new_slip_map a 32 = Some (Some m)" "slip_map_inv m" "prop_view (Some m) = Map.empty" "length m = 24"
      using new_map_view [of a] some by blast
    then show ?thesis using that None by simp
  qed (use that assms(1) in \<open>simp add: names_ok_def\<close>)
  obtain r m' where r: "replace_entry_in_slip_map a m key val = Some (r, m')" "slip_map_inv m'"
    "prop_view (Some m') = (prop_view (Some m))(key := if r = 0 then Some val else None)"
    "length m' \<le> length m + entry_size (key, val)"
    "a \<noteq> None \<longrightarrow> length m + entry_size (key, val) \<le> 65535 \<longrightarrow> r = 0"
    by (rule replace_view [OF m(2) assms(3,4)])
  have "store_property a mo key val = Some (0, Some m')"
    by (simp add: store_property_def PROPERTIES_DEFAULT_SLIP_MAP_BUFFER_SIZE_def m(1) r(1) cong: option.case_cong)
  moreover have "names_ok P (Some m')"
    using r(2,3) m(3) assms(1,2) by (auto simp: names_ok_def split: if_splits)
  ultimately show ?thesis using r(3-5) m(3,4) by auto
qed

lemma store_property_keeps:
  assumes "store_property a mo key val = Some (r, mo')" "names_ok P mo" "P (hd key)" "key \<noteq> []"
  shows "names_ok P mo'"
proof (cases "slip_key key \<and> slip_val val")
  case True
  then show ?thesis using store_property_law [OF assms(2,3), of val a] assms(1) by auto
next
  case False
  then have "replace_entry_in_slip_map a m key val = None" for m
    using assms(4) by (auto simp: replace_entry_in_slip_map_def slip_key_def slip_val_def)
  then show ?thesis using assms(1)
    by (auto simp: store_property_def bind_eq_Some_conv split: option.splits)
qed

definition same_target :: "records_put_op \<Rightarrow> records_put_op \<Rightarrow> bool" where
  "same_target op op' = (put_bare op' = put_bare op \<and> put_layer_name op' = put_layer_name op \<and> put_key op' = put_key op)"

lemma put_cb_keeps:
  assumes "put_op_ok op \<and> same_target op0 op" "records_put_opt_parse_cb a op key value = Some (r, op')"
  shows "put_op_ok op' \<and> same_target op0 op'"
  using assms
  by (auto simp: records_put_opt_parse_cb_def put_read_position_def put_read_expiration_def put_op_ok_def same_target_def Let_def
      bind_eq_Some_conv dest: store_property_keeps split: if_splits option.splits prod.splits)

lemma record_path_adds:
  assumes "record_path mem uri rq f = Some res" "0 \<notin> set uri" "cq_inv (rq_cqueue rq)"
    and "\<And>layer key. layer_ok layer \<Longrightarrow> key_ok key \<Longrightarrow> f layer key = Some res \<Longrightarrow> adds_op req fake rq res"
  shows "adds_op req fake rq res"
proof (cases "split_at CHR ''/'' uri")
  case None
  then show ?thesis using assms(1,3) by (auto simp: record_path_def intro: adds_intros)
next
  case (Some p)
  obtain layer sep where u: "split_at CHR ''/'' uri = Some (layer, sep)" using Some by (cases p) simp
  have z: "0 \<notin> set layer" "0 \<notin> set sep" using split_at_Some(1) [OF u] assms(2) by auto
  note h = assms(1) [unfolded record_path_def u option.case prod.case]
  show ?thesis
  proof (cases "\<exists>name key. request_key mem layer = Some (Some name) \<and> sep \<noteq> [] \<and> request_key mem sep = Some (Some key)")
    case True
    then obtain name key where n: "request_key mem layer = Some (Some name)" "request_key mem sep = Some (Some key)" "sep \<noteq> []"
      by blast
    then have "f (butlast name) key = Some res" using h by simp
    then show ?thesis using assms(4) request_key_Some [OF n(1) z(1)] request_key_Some [OF n(2) z(2)] by blast
  next
    case False
    from h obtain x where x: "request_key mem layer = Some x" by (auto simp: bind_eq_Some_conv)
    have "\<exists>status. refuse status rq = Some res \<and> status \<noteq> 0"
      using h False x by (cases x; cases "request_key mem sep") (auto split: if_splits option.split_asm)
    then show ?thesis using assms(3) by (auto intro: adds_intros)
  qed
qed

lemma handle_domain_records_adds:
  assumes "handle_domain_records mem req uri opts fake rq = Some res" "0 \<notin> set uri" "cq_inv (rq_cqueue rq)"
  shows "adds_op req fake rq res"
proof -
  have put: "adds_op req fake rq res"
    if p: "layer_ok layer" "key_ok key"
      "do {
         (ret, op) \<leftarrow> query_parse (query_mem mem) (Some (records_put_opt_parse_cb (map_mem mem)))
           (c_str (req_input req @ [0])) (empty_put_op (bare_of req fake rq) layer key);
         (if ret \<noteq> 0 then refuse HTTP_BADREQUEST (next_tid rq)
          else queue_op (Records_Put_Op op) True (next_tid rq))
       } = Some res" for layer key
  proof -
    let ?op0 = "empty_put_op (bare_of req fake rq) layer key"
    obtain ret op where op: "query_parse (query_mem mem) (Some (records_put_opt_parse_cb (map_mem mem)))
           (c_str (req_input req @ [0])) ?op0 = Some (ret, op)"
      "(if ret \<noteq> 0 then refuse HTTP_BADREQUEST (next_tid rq) else queue_op (Records_Put_Op op) True (next_tid rq)) = Some res"
      using p(3) by (auto simp: bind_eq_Some_conv)
    have "put_op_ok ?op0 \<and> same_target ?op0 ?op0" by (simp add: empty_put_op_def put_op_ok_def same_target_def)
    from query_parse_keeps [OF op(1), where I = "\<lambda>op. put_op_ok op \<and> same_target ?op0 op", OF this put_cb_keeps]
    have "put_op_ok op \<and> same_target ?op0 op" .
    then have "op_ok (Records_Put_Op op)" "put_bare op = bare_of req fake rq"
      using p(1,2) by (simp_all add: same_target_def empty_put_op_def)
    then show ?thesis using op(2) assms(3) by (auto intro: adds_intros split: if_splits)
  qed
  have get: "adds_op req fake rq res"
    if "layer_ok layer" "key_ok key"
      "do {
         (ret, with_links) \<leftarrow>
           (case opts of
              None \<Rightarrow> Some (0, False)
            | Some opts \<Rightarrow> query_parse (query_mem mem) (Some records_opt_parse_cb) opts False);
         (if ret \<noteq> 0 then refuse HTTP_BADREQUEST rq
          else queue_op (Records_Get_Op \<lparr>get_bare = bare_of req fake rq, get_layer_name = layer, get_key = key,
                                          get_with_links = with_links\<rparr>) False (next_tid rq))
       } = Some res" for layer key
    using that assms(3) by (auto simp: bind_eq_Some_conv intro: adds_intros split: if_splits)
  have delete: "adds_op req fake rq res"
    if "layer_ok layer" "key_ok key"
      "queue_op (Records_Delete_Op \<lparr>delete_bare = bare_of req fake rq, delete_layer_name = layer, delete_key = key\<rparr>)
         True (next_tid rq) = Some res" for layer key
    using that(3) by (rule queue_op_adds) (use that assms(3) in simp_all)
  show ?thesis
    using assms(1) record_path_adds [OF _ assms(2,3) get] record_path_adds [OF _ assms(2,3) put]
      record_path_adds [OF _ assms(2,3) delete] refuse_adds [of HTTP_NOTFOUND rq res rq] assms(3)
    by (auto simp: handle_domain_records_def handle_domain_records_get_def handle_domain_records_put_def
        handle_domain_records_delete_def split: if_splits)
qed

subsection \<open>Searches\<close>

definition options_ok :: "search_options \<Rightarrow> bool" where
  "options_ok c = (limit_ok (so_limit c) \<and> \<not> flt (so_radius c) (Fin 0))"

lemma default_options_ok: "options_ok default_options"
  by (simp add: options_ok_def limit_ok_def default_options_def DEFAULT_SEARCH_LIMIT_def)

lemma strtoul_limit: "strtoul b s < 2 ^ 64"
proof -
  have "(SIZE_MAX + 1 - n) mod (SIZE_MAX + 1) < 2 ^ 64" for n
    by (rule less_le_trans [OF mod_less_divisor]) (simp_all add: SIZE_MAX_def)
  then show ?thesis by (auto simp: strtoul_def SIZE_MAX_def split: option.splits)
qed

lemma search_cb_keeps: "options_ok c \<Longrightarrow> search_opt_parse_cb c key value = Some (r, c') \<Longrightarrow> options_ok c'"
  using strtoul_limit [of 10 "skip_spaces (c_str value)"]
  by (auto simp: search_opt_parse_cb_def options_ok_def limit_ok_def Let_def split: if_splits prod.splits)

lemma handle_domain_search_adds:
  assumes "handle_domain_search mem req uri opts fake rq = Some res" "0 \<notin> set uri" "cq_inv (rq_cqueue rq)"
  shows "adds_op req fake rq res"
proof -
  have kinds: "adds_op req fake rq res"
    if c: "options_ok c" and l: "layer_ok layer" and q: "0 \<notin> set query"
      and r: "search_nearby_request req layer c query fake rq = Some res \<or>
        search_in_rect_request req layer c query fake rq = Some res \<or>
        search_in_keys_request mem req layer c query fake rq = Some res" for c layer query
  proof -
    have bad: "adds_op req fake rq res" if "refuse HTTP_BADREQUEST (next_tid rq) = Some res"
      by (rule refuse_adds [OF that]) (simp_all add: assms(3))
    have "adds_op req fake rq res" if "search_nearby_request req layer c query fake rq = Some res"
      using that bad c l assms(3)
      by (auto simp: search_nearby_request_def options_ok_def split: option.split_asm intro: queue_op_adds)
    moreover have "adds_op req fake rq res" if "search_in_rect_request req layer c query fake rq = Some res"
      using that bad c l assms(3)
      by (auto simp: search_in_rect_request_def options_ok_def split: option.split_asm intro: queue_op_adds)
    moreover have "adds_op req fake rq res" if "search_in_keys_request mem req layer c query fake rq = Some res"
      by (rule queue_key_adds [OF that [unfolded search_in_keys_request_def] q assms(3)])
        (use c l in \<open>auto simp: options_ok_def key_ok_def\<close>)
    ultimately show ?thesis using r by blast
  qed
  show ?thesis
  proof (cases "req_type req \<noteq> EVHTTP_REQ_GET \<or> split_at CHR ''/'' uri = None")
    case True
    then show ?thesis using assms by (auto simp: handle_domain_search_def intro: adds_intros split: if_splits)
  next
    case False
    then obtain layer sep where u: "split_at CHR ''/'' uri = Some (layer, sep)" "req_type req = EVHTTP_REQ_GET" by auto
    have z: "0 \<notin> set layer" "0 \<notin> set sep" using split_at_Some(1) [OF u(1)] assms(2) by auto
    note h = assms(1) [unfolded handle_domain_search_def, simplified u option.case prod.case]
    show ?thesis
    proof (cases "layer = [] \<or> request_key mem layer = Some None \<or> split_at CHR ''/'' sep = None")
      case True
      then show ?thesis using h assms(3) by (auto simp: bind_eq_Some_conv intro: adds_intros split: if_splits option.splits)
    next
      case False
      then obtain search_type query where s: "split_at CHR ''/'' sep = Some (search_type, query)" by auto
      have q: "0 \<notin> set query" using split_at_Some(1) [OF s] z(2) by auto
      from False h obtain name where n: "request_key mem layer = Some (Some name)"
        by (auto simp: bind_eq_Some_conv split: option.splits)
      have l: "layer_ok layer" using request_key_Some [OF n z(1)] by simp
      have c: "options_ok c"
        if "(case opts of None \<Rightarrow> Some (0, default_options)
             | Some opts \<Rightarrow> query_parse (query_mem mem) (Some search_opt_parse_cb) opts default_options) = Some (ret, c)" for ret c
        using that default_options_ok query_parse_keeps [where I = options_ok, OF _ default_options_ok search_cb_keeps]
        by (auto split: option.splits)
      show ?thesis
        using h False n s c kinds [OF _ l q] assms(3)
        by (auto simp: bind_eq_Some_conv intro: adds_intros split: if_splits)
    qed
  qed
qed

lemma handle_domain_system_ping_adds:
  "handle_domain_system_ping req uri fake rq = Some (Some res) \<Longrightarrow> cq_inv (rq_cqueue rq) \<Longrightarrow> adds_op req fake rq res"
  by (auto simp: handle_domain_system_ping_def intro: adds_intros split: if_splits)

section \<open>What a PUT makes of its body\<close>

definition read_loc :: "bytes \<Rightarrow> position2d option" where
  "read_loc value =
     (case split_at CHR '','' (skip_spaces (c_str value)) of
        None \<Rightarrow> None
      | Some (lat, sep) \<Rightarrow>
          (if skip_spaces sep \<noteq> [] \<and> snd (strtod lat) \<and> snd (strtod (skip_spaces sep))
           then Some (pos (to_float (fst (strtod lat))) (to_float (fst (strtod (skip_spaces sep))))) else None))"

definition read_expiration :: "bytes \<Rightarrow> int option" where
  "read_expiration value =
     (let svalue = skip_spaces (c_str value)
      in if svalue = [] then Some 0
         else if has_number 10 svalue then Some (time_of_ulong (strtoul 10 svalue)) else None)"

abbreviation is_loc :: "bytes \<Rightarrow> bool" where
  "is_loc k \<equiv> binval_is_equal_to k ''_loc''"

abbreviation is_expiration :: "bytes \<Rightarrow> bool" where
  "is_expiration k \<equiv> binval_is_equal_to k ''_expires_at''"

definition loc_values :: "(bytes \<times> bytes) list \<Rightarrow> bytes list" where
  "loc_values ps = map snd (filter (\<lambda>(k, v). is_loc k) ps)"

definition expiration_values :: "(bytes \<times> bytes) list \<Rightarrow> bytes list" where
  "expiration_values ps = map snd (filter (\<lambda>(k, v). is_expiration k) ps)"

definition special_pairs :: "(bytes \<times> bytes) list \<Rightarrow> (bytes \<times> bytes) list" where
  "special_pairs ps = filter (\<lambda>(k, v). \<not> is_loc k \<and> \<not> is_expiration k \<and> hd k = INT_PROPERTY_COMMON_PREFIX) ps"

definition plain_pairs :: "(bytes \<times> bytes) list \<Rightarrow> (bytes \<times> bytes) list" where
  "plain_pairs ps = filter (\<lambda>(k, v). \<not> is_loc k \<and> \<not> is_expiration k \<and> hd k \<noteq> INT_PROPERTY_COMMON_PREFIX) ps"

lemmas pair_kinds = loc_values_def expiration_values_def special_pairs_def plain_pairs_def

definition pair_valid :: "bytes \<times> bytes \<Rightarrow> bool" where
  "pair_valid p = (case p of (k, v) \<Rightarrow> (is_loc k \<longrightarrow> read_loc v \<noteq> None) \<and> (is_expiration k \<longrightarrow> read_expiration v \<noteq> None))"

text \<open>An operation that holds what the pairs say: the last one wins.\<close>

definition holds_pairs :: "(bytes \<times> bytes) list \<Rightarrow> records_put_op \<Rightarrow> bool" where
  "holds_pairs ps op =
     (prop_view (put_properties_map op) = map_of (rev (plain_pairs ps)) \<and>
      (put_properties_map op = None \<longleftrightarrow> plain_pairs ps = []) \<and>
      prop_view (put_special_properties op) = map_of (rev (special_pairs ps)) \<and>
      (put_special_properties op = None \<longleftrightarrow> special_pairs ps = []) \<and>
      (put_position_set op \<longleftrightarrow> loc_values ps \<noteq> []) \<and>
      (loc_values ps \<noteq> [] \<longrightarrow> read_loc (last (loc_values ps)) = Some (put_position op)) \<and>
      (if expiration_values ps = [] then put_expires_at op = 0
       else read_expiration (last (expiration_values ps)) = Some (put_expires_at op)))"

lemma pairs_snoc [simp]:
  "loc_values (ps @ [(k, v)]) = loc_values ps @ (if is_loc k then [v] else [])"
  "expiration_values (ps @ [(k, v)]) = expiration_values ps @ (if is_expiration k then [v] else [])"
  "special_pairs (ps @ [(k, v)]) = special_pairs ps @
     (if \<not> is_loc k \<and> \<not> is_expiration k \<and> hd k = INT_PROPERTY_COMMON_PREFIX then [(k, v)] else [])"
  "plain_pairs (ps @ [(k, v)]) = plain_pairs ps @
     (if \<not> is_loc k \<and> \<not> is_expiration k \<and> hd k \<noteq> INT_PROPERTY_COMMON_PREFIX then [(k, v)] else [])"
  by (simp_all add: pair_kinds)

definition sizes_of :: "(bytes \<times> bytes) list \<Rightarrow> nat" where
  "sizes_of ps = 24 + sum_list (map entry_size ps)"

definition within_sizes :: "(bytes \<times> bytes) list \<Rightarrow> records_put_op \<Rightarrow> bool" where
  "within_sizes ps op =
     (map_size (put_properties_map op) \<le> sizes_of (plain_pairs ps) \<and>
      map_size (put_special_properties op) \<le> sizes_of (special_pairs ps))"

lemma put_read_position_eq:
  "put_read_position op v =
     (case read_loc v of
        Some p \<Rightarrow> (0, op\<lparr>put_position := p, put_position_set := True\<rparr>)
      | None \<Rightarrow> (- 1, snd (put_read_position op v)))"
  by (auto simp: put_read_position_def read_loc_def Let_def split: option.splits prod.splits)

lemma put_read_expiration_eq:
  "put_read_expiration op v =
     (case read_expiration v of
        Some t \<Rightarrow> (0, op\<lparr>put_expires_at := t\<rparr>)
      | None \<Rightarrow> (- 1, snd (put_read_expiration op v)))"
  by (auto simp: put_read_expiration_def read_expiration_def Let_def)

lemma loc_not_expiration: "is_loc k \<Longrightarrow> \<not> is_expiration k"
  by (auto simp: binval_is_equal_to_def)

lemma put_cb_step:
  assumes op: "put_op_ok op" "holds_pairs ps op" "within_sizes ps op" and a: "a \<noteq> None"
    and kv: "slip_key k" "slip_val v"
    and room: "sizes_of (plain_pairs (ps @ [(k, v)])) \<le> 65535" "sizes_of (special_pairs (ps @ [(k, v)])) \<le> 65535"
  shows "\<exists>r op'. records_put_opt_parse_cb a op k v = Some (r, op') \<and> (r = 0 \<longleftrightarrow> pair_valid (k, v)) \<and>
    (r = 0 \<longrightarrow> put_op_ok op' \<and> holds_pairs (ps @ [(k, v)]) op' \<and> within_sizes (ps @ [(k, v)]) op')"
proof -
  consider (loc) "is_loc k" "\<not> is_expiration k" | (exp) "is_expiration k" "\<not> is_loc k"
    | (special) "\<not> is_loc k" "\<not> is_expiration k" "hd k = INT_PROPERTY_COMMON_PREFIX"
    | (plain) "\<not> is_loc k" "\<not> is_expiration k" "hd k \<noteq> INT_PROPERTY_COMMON_PREFIX"
    using loc_not_expiration by blast
  then show ?thesis
  proof cases
    case loc
    then have run: "records_put_opt_parse_cb a op k v = Some (put_read_position op v)"
      by (simp add: records_put_opt_parse_cb_def)
    show ?thesis
    proof (cases "read_loc v")
      case None
      then show ?thesis using run put_read_position_eq [of op v] loc by (cases "put_read_position op v") (simp add: pair_valid_def)
    next
      case (Some p)
      then show ?thesis using run put_read_position_eq [of op v] loc op
        by (simp add: pair_valid_def put_op_ok_def holds_pairs_def within_sizes_def split: if_splits)
    qed
  next
    case exp
    then have run: "records_put_opt_parse_cb a op k v = Some (put_read_expiration op v)"
      by (simp add: records_put_opt_parse_cb_def)
    show ?thesis
    proof (cases "read_expiration v")
      case None
      then show ?thesis using run put_read_expiration_eq [of op v] exp by (cases "put_read_expiration op v") (simp add: pair_valid_def)
    next
      case (Some p)
      then show ?thesis using run put_read_expiration_eq [of op v] exp op
        by (simp add: pair_valid_def put_op_ok_def holds_pairs_def within_sizes_def split: if_splits)
    qed
  next
    case special
    have sz: "sizes_of (special_pairs (ps @ [(k, v)])) = sizes_of (special_pairs ps) + entry_size (k, v)"
      "special_pairs (ps @ [(k, v)]) = special_pairs ps @ [(k, v)]"
      using special by (simp_all add: sizes_of_def)
    from op(1) have "names_ok (\<lambda>c. c = INT_PROPERTY_COMMON_PREFIX) (put_special_properties op)" by (simp add: put_op_ok_def)
    from store_property_law [OF this special(3) kv, of a] obtain r m where
      m: "store_property a (put_special_properties op) k v = Some (r, m)" "names_ok (\<lambda>c. c = INT_PROPERTY_COMMON_PREFIX) m"
      "a \<noteq> None \<longrightarrow> map_size (put_special_properties op) + entry_size (k, v) \<le> 65535 \<longrightarrow>
       r = 0 \<and> m \<noteq> None \<and> prop_view m = (prop_view (put_special_properties op))(k \<mapsto> v) \<and>
       map_size m \<le> map_size (put_special_properties op) + entry_size (k, v)" by (elim exE conjE) (rule that)
    have bound: "map_size (put_special_properties op) \<le> sizes_of (special_pairs ps)" using op(3) unfolding within_sizes_def by blast
    have fits: "map_size (put_special_properties op) + entry_size (k, v) \<le> 65535"
      using bound room(2) unfolding sz(1) by linarith
    have "records_put_opt_parse_cb a op k v = Some (r, op\<lparr>put_special_properties := m\<rparr>)"
      using special kv(1) m(1) by (auto simp: records_put_opt_parse_cb_def slip_key_def)
    moreover have "r = 0" "m \<noteq> None" "prop_view m = (prop_view (put_special_properties op))(k \<mapsto> v)"
      "map_size m \<le> map_size (put_special_properties op) + entry_size (k, v)" using m(3) [rule_format, OF a fits] by simp_all
    ultimately show ?thesis using m(2) special op sz
      by (simp add: pair_valid_def put_op_ok_def holds_pairs_def within_sizes_def)
  next
    case plain
    have sz: "sizes_of (plain_pairs (ps @ [(k, v)])) = sizes_of (plain_pairs ps) + entry_size (k, v)"
      "plain_pairs (ps @ [(k, v)]) = plain_pairs ps @ [(k, v)]"
      using plain by (simp_all add: sizes_of_def)
    from op(1) have "names_ok (\<lambda>c. c \<noteq> INT_PROPERTY_COMMON_PREFIX) (put_properties_map op)" by (simp add: put_op_ok_def)
    from store_property_law [OF this plain(3) kv, of a] obtain r m where
      m: "store_property a (put_properties_map op) k v = Some (r, m)" "names_ok (\<lambda>c. c \<noteq> INT_PROPERTY_COMMON_PREFIX) m"
      "a \<noteq> None \<longrightarrow> map_size (put_properties_map op) + entry_size (k, v) \<le> 65535 \<longrightarrow>
       r = 0 \<and> m \<noteq> None \<and> prop_view m = (prop_view (put_properties_map op))(k \<mapsto> v) \<and>
       map_size m \<le> map_size (put_properties_map op) + entry_size (k, v)" by (elim exE conjE) (rule that)
    have bound: "map_size (put_properties_map op) \<le> sizes_of (plain_pairs ps)" using op(3) unfolding within_sizes_def by blast
    have fits: "map_size (put_properties_map op) + entry_size (k, v) \<le> 65535"
      using bound room(1) unfolding sz(1) by linarith
    have "records_put_opt_parse_cb a op k v = Some (r, op\<lparr>put_properties_map := m\<rparr>)"
      using plain kv(1) m(1) by (auto simp: records_put_opt_parse_cb_def slip_key_def)
    moreover have "r = 0" "m \<noteq> None" "prop_view m = (prop_view (put_properties_map op))(k \<mapsto> v)"
      "map_size m \<le> map_size (put_properties_map op) + entry_size (k, v)" using m(3) [rule_format, OF a fits] by simp_all
    ultimately show ?thesis using m(2) plain op sz
      by (simp add: pair_valid_def put_op_ok_def holds_pairs_def within_sizes_def)
  qed
qed

lemma pairs_append [simp]:
  "special_pairs (ps @ qs) = special_pairs ps @ special_pairs qs" "plain_pairs (ps @ qs) = plain_pairs ps @ plain_pairs qs"
  by (simp_all add: pair_kinds)

lemma put_pairs_run:
  assumes "put_op_ok op" "holds_pairs ps op" "within_sizes ps op" and a: "a \<noteq> None"
    and "\<forall>(k, v) \<in> set qs. slip_key k \<and> slip_val v"
    and "sizes_of (plain_pairs (ps @ qs)) \<le> 65535" "sizes_of (special_pairs (ps @ qs)) \<le> 65535"
  shows "\<exists>r op'. run_pairs (Some (records_put_opt_parse_cb a)) ok qs op = Some (r, op') \<and>
    (r = 0 \<longleftrightarrow> ok \<and> (\<forall>p \<in> set qs. pair_valid p)) \<and>
    (r = 0 \<longrightarrow> put_op_ok op' \<and> holds_pairs (ps @ qs) op' \<and> same_target op op')"
  using assms
proof (induction qs arbitrary: ps op)
  case Nil
  then show ?case by (simp add: same_target_def)
next
  case (Cons p qs)
  obtain k v where p: "p = (k, v)" by (cases p)
  have kv: "slip_key k" "slip_val v" using Cons.prems(5) by (simp_all add: p)
  have app: "(ps @ [(k, v)]) @ qs = ps @ p # qs" by (simp add: p)
  have "sizes_of (plain_pairs ((ps @ [(k, v)]) @ qs)) \<le> 65535" "sizes_of (special_pairs ((ps @ [(k, v)]) @ qs)) \<le> 65535"
    unfolding app using Cons.prems(6,7) by blast+
  note room = this
  have "sizes_of (plain_pairs (ps @ [(k, v)])) \<le> sizes_of (plain_pairs ((ps @ [(k, v)]) @ qs))"
    "sizes_of (special_pairs (ps @ [(k, v)])) \<le> sizes_of (special_pairs ((ps @ [(k, v)]) @ qs))"
    unfolding pairs_append by (simp_all add: sizes_of_def)
  then have fits: "sizes_of (plain_pairs (ps @ [(k, v)])) \<le> 65535" "sizes_of (special_pairs (ps @ [(k, v)])) \<le> 65535"
    using room by linarith+
  from put_cb_step [OF Cons.prems(1-3) a kv fits] obtain r op1 where
    c: "records_put_opt_parse_cb a op k v = Some (r, op1)" "r = 0 \<longleftrightarrow> pair_valid (k, v)"
    "r = 0 \<longrightarrow> put_op_ok op1 \<and> holds_pairs (ps @ [(k, v)]) op1 \<and> within_sizes (ps @ [(k, v)]) op1" by blast
  show ?case
  proof (cases "r = 0")
    case False
    then show ?thesis using c(1,2) by (simp add: p)
  next
    case True
    have same: "same_target op op1" using put_cb_keeps [OF _ c(1), of op] Cons.prems(1) by (simp add: same_target_def)
    have op1: "put_op_ok op1" "holds_pairs (ps @ [(k, v)]) op1" "within_sizes (ps @ [(k, v)]) op1" using c(3) True by blast+
    have "\<forall>(k, v) \<in> set qs. slip_key k \<and> slip_val v" using Cons.prems(5) by simp
    from Cons.IH [OF op1 a this room] obtain r' op' where
      "run_pairs (Some (records_put_opt_parse_cb a)) ok qs op1 = Some (r', op')" "(r' = 0) = (ok \<and> (\<forall>p \<in> set qs. pair_valid p))"
      "r' = 0 \<longrightarrow> put_op_ok op' \<and> holds_pairs ((ps @ [(k, v)]) @ qs) op' \<and> same_target op1 op'" by blast
    then show ?thesis using c(1,2) True same unfolding app by (simp add: p same_target_def)
  qed
qed

definition body_pairs :: "bytes \<Rightarrow> (bytes \<times> bytes) list \<times> bool" where
  "body_pairs body = (if body = [] then ([], True) else ref_parse body)"

lemma put_body_run:
  assumes mem: "good_memory mem" and body: "length body < SIZE_MAX"
    and "\<forall>(k, v) \<in> set (fst (body_pairs body)). slip_key k \<and> slip_val v"
    and "sizes_of (plain_pairs (fst (body_pairs body))) \<le> 65535" "sizes_of (special_pairs (fst (body_pairs body))) \<le> 65535"
  shows "\<exists>r op. query_parse (query_mem mem) (Some (records_put_opt_parse_cb (map_mem mem))) body (empty_put_op b layer key) = Some (r, op) \<and>
    (r = 0 \<longleftrightarrow> snd (body_pairs body) \<and> (\<forall>p \<in> set (fst (body_pairs body)). pair_valid p)) \<and>
    (r = 0 \<longrightarrow> put_op_ok op \<and> holds_pairs (fst (body_pairs body)) op \<and> same_target (empty_put_op b layer key) op)"
proof -
  let ?op0 = "empty_put_op b layer key"
  have a: "map_mem mem \<noteq> None" using good_memoryD(6) [OF mem] .
  have "put_op_ok ?op0" "holds_pairs [] ?op0" "within_sizes [] ?op0"
    by (simp_all add: empty_put_op_def put_op_ok_def holds_pairs_def within_sizes_def sizes_of_def pair_kinds)
  from put_pairs_run [OF this a assms(3), of "snd (body_pairs body)"] assms(4,5)
  have "\<exists>r op. run_pairs (Some (records_put_opt_parse_cb (map_mem mem))) (snd (body_pairs body)) (fst (body_pairs body)) ?op0 = Some (r, op) \<and>
    (r = 0 \<longleftrightarrow> snd (body_pairs body) \<and> (\<forall>p \<in> set (fst (body_pairs body)). pair_valid p)) \<and>
    (r = 0 \<longrightarrow> put_op_ok op \<and> holds_pairs (fst (body_pairs body)) op \<and> same_target ?op0 op)" by simp
  moreover have "query_parse (query_mem mem) (Some (records_put_opt_parse_cb (map_mem mem))) body ?op0 =
      run_pairs (Some (records_put_opt_parse_cb (map_mem mem))) (snd (body_pairs body)) (fst (body_pairs body)) ?op0"
    using query_parse_loop_ref [OF _ qb_ok_init qb_ok_init body, of "query_mem mem" "Some (records_put_opt_parse_cb (map_mem mem))" 0 ?op0] a
    by (simp add: query_parse_def body_pairs_def query_mem_def)
  ultimately show ?thesis by simp
qed

text \<open>Paths with a layer and a key.\<close>

definition record_uri :: "bytes \<Rightarrow> bytes \<Rightarrow> bytes" where
  "record_uri layer key = layer @ chr CHR ''/'' # key"

definition plain_layer :: "bytes \<Rightarrow> bool" where
  "plain_layer layer = (layer_ok layer \<and> chr CHR ''/'' \<notin> set layer \<and> length layer \<le> 10000)"

lemma split_at_first: "chr c \<notin> set a \<Longrightarrow> split_at c (a @ chr c # b) = Some (a, b)"
proof -
  assume c: "chr c \<notin> set a"
  then have "until (\<lambda>d. d = chr c) (a @ chr c # b) = a" by (simp add: until_def takeWhile_append)
  then show ?thesis by (simp add: split_at_def)
qed

lemma request_key_ok: "name_mem mem \<Longrightarrow> layer_ok s \<Longrightarrow> length s \<le> 10000 \<Longrightarrow> request_key mem s = Some (Some (s @ [0]))"
  by (simp add: request_key_def layer_ok_def SIZE_MAX_def sizeof_key_def)

lemma record_path_ok:
  assumes "good_memory mem" "plain_layer layer" "layer_ok key" "length key \<le> 10000"
  shows "record_path mem (record_uri layer key) rq f = f layer (key @ [0])"
proof -
  have sp: "split_at CHR ''/'' (record_uri layer key) = Some (layer, key)"
    unfolding record_uri_def by (rule split_at_first) (use assms(2) in \<open>simp add: plain_layer_def\<close>)
  have "request_key mem layer = Some (Some (layer @ [0]))" "request_key mem key = Some (Some (key @ [0]))" "key \<noteq> []"
    using assms request_key_ok [OF good_memoryD(7) [OF assms(1)]] by (simp_all add: plain_layer_def layer_ok_def)
  then show ?thesis by (simp add: record_path_def sp)
qed

lemma queue_op_room:
  assumes "cq_inv (rq_cqueue rq)" "length (cq_list (rq_cqueue rq)) < cq_capacity (rq_cqueue rq)"
  shows "\<exists>q'. queue_op op w rq = Some (0, w, rq\<lparr>rq_cqueue := q'\<rparr>) \<and> cq_inv q' \<and> cq_list q' = cq_list (rq_cqueue rq) @ [op] \<and>
    cq_capacity q' = cq_capacity (rq_cqueue rq)"
  using cq.push_room [OF assms, of op] by (auto simp: queue_op_def)

lemma c_str_zero [simp]: "c_str (b @ [0]) = c_str b"
  unfolding c_str_def by (induction b) auto

section \<open>Properties\<close>

text \<open>
  C13: a PUT request for the record of a non-empty key of a non-empty layer, both of at most 10000 bytes and the layer without a slash, with enough
  memory, for bodies whose names are not empty, whose names and values are at most 65535 bytes each and whose two maps of properties, the last
  values by names, fit into 65535 bytes (others can stop the server: C38). When the body is a well-formed
  query whose positions and expirations can be read and the queue has room, exactly one operation is queued, for this
  layer and key, and it holds what the body says: the last value of every property, those whose name starts with
  an underscore apart, the last position and the last expiration. With a full queue such a request is answered with 503, and any
  other body with 400, and nothing is queued.
\<close>

theorem put_request_is_read:
  assumes "good_memory mem" "cq_inv (rq_cqueue rq)"
    and "plain_layer layer" "layer_ok key" "length key \<le> 10000" "req_type req = EVHTTP_REQ_PUT"
    and "length (c_str (req_input req)) < SIZE_MAX" "body_pairs (c_str (req_input req)) = (ps, well_formed)"
    and "\<forall>(k, v) \<in> set ps. slip_key k \<and> slip_val v"
    and "sizes_of (plain_pairs ps) \<le> 65535" "sizes_of (special_pairs ps) \<le> 65535"
  shows "if well_formed \<and> (\<forall>p \<in> set ps. pair_valid p)
    then (if length (cq_list (rq_cqueue rq)) < cq_capacity (rq_cqueue rq)
      then \<exists>op rq'. handle_domain_records mem req (record_uri layer key) opts fake rq = Some (0, True, rq') \<and>
        cq_list (rq_cqueue rq') = cq_list (rq_cqueue rq) @ [Records_Put_Op op] \<and> op_ok (Records_Put_Op op) \<and>
        put_layer_name op = layer \<and> put_key op = key @ [0] \<and> holds_pairs ps op
      else handle_domain_records mem req (record_uri layer key) opts fake rq = Some (HTTP_SERVUNAVAIL, False, next_tid rq))
    else handle_domain_records mem req (record_uri layer key) opts fake rq = Some (HTTP_BADREQUEST, False, next_tid rq)"
proof -
  let ?op0 = "empty_put_op (bare_of req fake rq) layer (key @ [0])"
  have ps: "fst (body_pairs (c_str (req_input req))) = ps" "snd (body_pairs (c_str (req_input req))) = well_formed"
    using assms(8) by simp_all
  obtain r op where q: "query_parse (query_mem mem) (Some (records_put_opt_parse_cb (map_mem mem))) (c_str (req_input req)) ?op0 = Some (r, op)"
    "r = 0 \<longleftrightarrow> well_formed \<and> (\<forall>p \<in> set ps. pair_valid p)"
    "r = 0 \<longrightarrow> put_op_ok op \<and> holds_pairs ps op \<and> same_target ?op0 op"
    using put_body_run [OF assms(1,7), unfolded ps, OF assms(9-11), of "bare_of req fake rq" layer "key @ [0]"] by blast
  have "EVHTTP_REQ_PUT \<noteq> EVHTTP_REQ_GET" by (simp add: request_methods)
  then have run: "handle_domain_records mem req (record_uri layer key) opts fake rq =
      (if r \<noteq> 0 then refuse HTTP_BADREQUEST (next_tid rq) else queue_op (Records_Put_Op op) True (next_tid rq))"
    using record_path_ok [OF assms(1,3-5)] q(1) assms(6)
    by (simp add: handle_domain_records_def handle_domain_records_put_def)
  show ?thesis
  proof (cases "r = 0")
    case False
    then have bad: "\<not> (well_formed \<and> (\<forall>p \<in> set ps. pair_valid p))" using q(2) by blast
    show ?thesis unfolding if_not_P [OF bad] using run False by (simp add: refuse_def)
  next
    case True
    have good: "well_formed \<and> (\<forall>p \<in> set ps. pair_valid p)" "holds_pairs ps op" using q(2,3) True by blast+
    show ?thesis
    proof (cases "length (cq_list (rq_cqueue rq)) < cq_capacity (rq_cqueue rq)")
      case False
      then have "push_cqueue (rq_cqueue rq) (Records_Put_Op op) = Some (- 1, rq_cqueue rq)"
        using cq.push_full [OF assms(2)] cq.bounded [OF assms(2)] by (simp add: order_antisym)
      then have "queue_op (Records_Put_Op op) True (next_tid rq) = Some (HTTP_SERVUNAVAIL, False, next_tid rq)"
        by (simp add: queue_op_def next_tid_def)
      then show ?thesis unfolding if_P [OF good(1)] if_not_P [OF False] run using True by simp
    next
      case free: True
      have room: "cq_inv (rq_cqueue (next_tid rq))" "length (cq_list (rq_cqueue (next_tid rq))) < cq_capacity (rq_cqueue (next_tid rq))"
        using assms(2) free by simp_all
      obtain q' where q': "queue_op (Records_Put_Op op) True (next_tid rq) = Some (0, True, (next_tid rq)\<lparr>rq_cqueue := q'\<rparr>)"
        "cq_list q' = cq_list (rq_cqueue (next_tid rq)) @ [Records_Put_Op op]"
        using queue_op_room [OF room, of "Records_Put_Op op" True] by blast
      have "put_layer_name op = layer" "put_key op = key @ [0]" "op_ok (Records_Put_Op op)"
        using q(3) True assms(3,4) by (auto simp: same_target_def empty_put_op_def plain_layer_def key_ok_def)
      moreover note good(2)
      moreover have "handle_domain_records mem req (record_uri layer key) opts fake rq = Some (0, True, (next_tid rq)\<lparr>rq_cqueue := q'\<rparr>)"
        unfolding run using True q'(1) by simp
      moreover have "cq_list (rq_cqueue ((next_tid rq)\<lparr>rq_cqueue := q'\<rparr>)) = cq_list (rq_cqueue rq) @ [Records_Put_Op op]"
        using q'(2) by simp
      ultimately show ?thesis unfolding if_P [OF good(1)] if_P [OF free] by blast
    qed
  qed
qed

text \<open>
  C38: requests that stop the server. new_key_from_c_string asserts that its string is not empty, so a record request
  whose layer name is empty fails this assertion; the callback of a PUT asserts that a name is not empty, and the property
  maps that names and values fit in 65535 bytes, so a body whose first name decodes to nothing, like that of an
  incomplete escape, or is too long, or has too long a value, fails one too.
\<close>

theorem record_requests_can_abort:
  assumes "good_memory mem"
    and "req_type req \<in> {EVHTTP_REQ_GET, EVHTTP_REQ_PUT, EVHTTP_REQ_DELETE} \<and> uri = record_uri [] rest \<or>
      req_type req = EVHTTP_REQ_PUT \<and> uri = record_uri layer key \<and> plain_layer layer \<and> layer_ok key \<and> length key \<le> 10000 \<and>
      length (c_str (req_input req)) < SIZE_MAX \<and> fst (body_pairs (c_str (req_input req))) = (k, v) # ps \<and>
      \<not> is_loc k \<and> \<not> is_expiration k \<and> \<not> (slip_key k \<and> slip_val v)"
  shows "handle_domain_records mem req uri opts fake rq = None"
  using assms(2)
proof (elim disjE conjE)
  assume m: "req_type req \<in> {EVHTTP_REQ_GET, EVHTTP_REQ_PUT, EVHTTP_REQ_DELETE}" and u: "uri = record_uri [] rest"
  have "split_at CHR ''/'' uri = Some ([], rest)"
    unfolding u record_uri_def by (rule split_at_first) simp
  then have "record_path mem uri rq f = None" for f by (simp add: record_path_def request_key_def)
  then show ?thesis using m
    by (auto simp: handle_domain_records_def handle_domain_records_get_def handle_domain_records_put_def handle_domain_records_delete_def)
next
  assume h: "req_type req = EVHTTP_REQ_PUT" "uri = record_uri layer key" "plain_layer layer" "layer_ok key" "length key \<le> 10000"
    "length (c_str (req_input req)) < SIZE_MAX" "fst (body_pairs (c_str (req_input req))) = (k, v) # ps"
    "\<not> is_loc k" "\<not> is_expiration k" "\<not> (slip_key k \<and> slip_val v)"
  let ?op0 = "empty_put_op (bare_of req fake rq) layer (key @ [0])"
  let ?body = "c_str (req_input req)"
  have a: "map_mem mem \<noteq> None" using good_memoryD(6) [OF assms(1)] .
  obtain m where m: "new_slip_map (map_mem mem) 32 = Some (Some m)" using new_map_view [OF a] by metis
  have rep: "replace_entry_in_slip_map (map_mem mem) m k v = None" if "k \<noteq> []"
    using that h(10) by (auto simp: replace_entry_in_slip_map_def slip_key_def slip_val_def)
  have cb: "records_put_opt_parse_cb (map_mem mem) ?op0 k v = None"
    using h(8,9) m rep
    by (cases "k = []") (auto simp: records_put_opt_parse_cb_def empty_put_op_def store_property_def PROPERTIES_DEFAULT_SLIP_MAP_BUFFER_SIZE_def)
  have ne: "?body \<noteq> []" using h(7) by (auto simp: body_pairs_def)
  then have ref: "fst (ref_parse ?body) = (k, v) # ps" using h(7) by (simp add: body_pairs_def)
  have "query_parse (query_mem mem) (Some (records_put_opt_parse_cb (map_mem mem))) ?body ?op0 = None"
    using query_parse_loop_ref [OF _ qb_ok_init qb_ok_init h(6), of "query_mem mem" "Some (records_put_opt_parse_cb (map_mem mem))" 0 ?op0]
      ne a cb ref by (simp add: query_parse_def query_mem_def)
  moreover have "EVHTTP_REQ_PUT \<noteq> EVHTTP_REQ_GET" by (simp add: request_methods)
  ultimately show ?thesis
    using h(1) record_path_ok [OF assms(1) h(3-5)]
    by (simp add: handle_domain_records_def handle_domain_records_put_def h(2))
qed

section \<open>Witnesses\<close>

lemma sample_numbers:
  "strtod [50] = (Fin 2, True)" "strtod [51] = (Fin 3, True)"
  by (simp_all add: strtod_def scan_magnitude_def starts_with_def bytes_of_def scan_digits_def digit_val_def is_digit_def
      isspace_def tolower_def scan_exponent_def f_numeral)

lemma sample_loc: "read_loc (bytes_of ''2,3'') = Some (pos (Fin 2) (Fin 3))"
proof -
  have "split_at CHR '','' (skip_spaces (c_str (bytes_of ''2,3''))) = Some ([50], [51])" "skip_spaces [51 :: byte] = [51]"
    by code_simp+
  then show ?thesis by (simp add: read_loc_def sample_numbers f_numeral)
qed

definition sample_body :: bytes where
  "sample_body = bytes_of ''n=x&_loc=2,3''"

definition sample_pairs :: "(bytes \<times> bytes) list" where
  "sample_pairs = [(bytes_of ''n'', bytes_of ''x''), (bytes_of ''_loc'', bytes_of ''2,3'')]"

lemma sample_body_pairs: "body_pairs (c_str sample_body) = (sample_pairs, True)"
  by (simp add: body_pairs_def sample_body_def sample_pairs_def bytes_of_def c_str_def ref_parse.simps until_def)

lemma sample_pairs_kinds:
  "loc_values sample_pairs = [bytes_of ''2,3'']" "expiration_values sample_pairs = []" "special_pairs sample_pairs = []"
  "plain_pairs sample_pairs = [(bytes_of ''n'', bytes_of ''x'')]"
  "\<not> is_expiration (bytes_of ''_loc'')" "\<not> is_loc (bytes_of ''n'')" "\<not> is_expiration (bytes_of ''n'')"
  by code_simp+

definition sample_request :: "bytes \<Rightarrow> request" where
  "sample_request body = \<lparr>req_id = 1, req_type = EVHTTP_REQ_PUT, req_input = body\<rparr>"

lemma empty_queue:
  obtains q :: "operation cqueue" where "init_cqueue True 16 8 = Inr q" "cq_inv q" "cq_list q = []" "cq_capacity q = 16"
proof -
  obtain q :: "operation cqueue" where q: "init_cqueue True 16 8 = Inr q" by (auto simp: init_cqueue_def SIZE_MAX_def)
  then show thesis using that init_cqueue_inv [OF q] by blast
qed

lemma sample_names: "plain_layer sample_layer" "layer_ok (bytes_of ''k'')"
  by (simp_all add: plain_layer_def layer_ok_def sample_layer_def bytes_of_def)

theorem put_request_is_read_witness:
  "\<exists>q op rq'. init_cqueue True 16 8 = Inr q \<and>
     handle_domain_records sample_mem (sample_request sample_body) (record_uri sample_layer (bytes_of ''k'')) None False
       \<lparr>rq_op_tid = 0, rq_cqueue = q\<rparr> = Some (0, True, rq') \<and>
     cq_list (rq_cqueue rq') = [Records_Put_Op op] \<and> put_position_set op \<and> put_position op = pos (Fin 2) (Fin 3) \<and>
     put_expires_at op = 0 \<and> prop_view (put_properties_map op) = [bytes_of ''n'' \<mapsto> bytes_of ''x'']"
proof -
  obtain q :: "operation cqueue" where q: "init_cqueue True 16 8 = Inr q" "cq_inv q" "cq_list q = []" "cq_capacity q = 16"
    by (rule empty_queue)
  let ?rq = "\<lparr>rq_op_tid = 0, rq_cqueue = q\<rparr>"
  have rq: "cq_inv (rq_cqueue ?rq)" "length (cq_list (rq_cqueue ?rq)) < cq_capacity (rq_cqueue ?rq)" using q by simp_all
  have body: "req_input (sample_request sample_body) = sample_body" "req_type (sample_request sample_body) = EVHTTP_REQ_PUT"
    by (simp_all add: sample_request_def)
  have len: "length (bytes_of ''k'') \<le> 10000" "length (c_str sample_body) < SIZE_MAX"
    by (simp_all add: sample_body_def bytes_of_def c_str_def SIZE_MAX_def)
  have kv: "\<forall>(k, v) \<in> set sample_pairs. slip_key k \<and> slip_val v"
    by (simp add: sample_pairs_def slip_key_def slip_val_def bytes_of_def)
  have sizes: "sizes_of (plain_pairs sample_pairs) \<le> 65535" "sizes_of (special_pairs sample_pairs) \<le> 65535"
    by (simp_all add: sample_pairs_kinds sizes_of_def entry_size_def)
  have valid: "True \<and> (\<forall>p \<in> set sample_pairs. pair_valid p)"
    using sample_pairs_kinds(5-7) sample_loc by (simp add: sample_pairs_def pair_valid_def)
  from put_request_is_read [OF sample_memory rq(1) sample_names len(1) body(2), unfolded body(1), OF len(2) sample_body_pairs kv sizes,
      of None False, unfolded if_P [OF valid] if_P [OF rq(2)]]
  obtain op rq' where "handle_domain_records sample_mem (sample_request sample_body) (record_uri sample_layer (bytes_of ''k'')) None False
       ?rq = Some (0, True, rq')"
    "cq_list (rq_cqueue rq') = cq_list (rq_cqueue ?rq) @ [Records_Put_Op op]" "holds_pairs sample_pairs op" by blast
  then show ?thesis using q(1,3) sample_loc
    by (intro exI [of _ q] exI [of _ op] exI [of _ rq']) (simp add: holds_pairs_def sample_pairs_kinds)
qed

theorem record_requests_can_abort_witness:
  "\<forall>rq. handle_domain_records sample_mem (sample_request (bytes_of ''%=x'')) (record_uri sample_layer (bytes_of ''k'')) None False rq = None \<and>
   handle_domain_records sample_mem (sample_request []) (record_uri [] (bytes_of ''k'')) None False rq = None"
proof (intro allI conjI)
  fix rq
  have body: "fst (body_pairs (c_str (bytes_of ''%=x''))) = [([], bytes_of ''x'')]"
    by (simp add: body_pairs_def bytes_of_def c_str_def ref_parse.simps until_def)
  show "handle_domain_records sample_mem (sample_request (bytes_of ''%=x'')) (record_uri sample_layer (bytes_of ''k'')) None False rq = None"
    by (rule record_requests_can_abort [OF sample_memory, where k = "[]" and v = "bytes_of ''x''" and ps = "[]"
          and layer = sample_layer and key = "bytes_of ''k''"], rule disjI2)
      (use sample_names body in \<open>simp add: sample_request_def binval_is_equal_to_def slip_key_def c_str_def bytes_of_def SIZE_MAX_def\<close>)
  show "handle_domain_records sample_mem (sample_request []) (record_uri [] (bytes_of ''k'')) None False rq = None"
    by (rule record_requests_can_abort [OF sample_memory], rule disjI1) (simp add: sample_request_def)
qed

end
