(* ===== verification/Public_Content.thy ===== *)
theory Public_Content
  imports Requests
begin

text \<open>
  Public content (\<open>public.c\<close>): a record can be served as a plain document, made of its properties $content and
  $content_type. The main thread answers these requests itself, under the read lock. The theorem says what is
  served, from the records of the database.
\<close>

section \<open>Operations\<close>

text \<open>What is sent to a client directly, without a worker: an error, a document that is not JSON, or the calls of a generator.\<close>

datatype http_reply =
    Send_Error int
  | Send_Content bytes bytes
  | Send_Json yajl_gen

definition INT_PROPERTY_CONTENT :: bytes where
  "INT_PROPERTY_CONTENT = bytes_of ''$content''"

definition INT_PROPERTY_CONTENT_TYPE :: bytes where
  "INT_PROPERTY_CONTENT_TYPE = bytes_of ''$content_type''"

definition MAX_CONTENT_TYPE_LENGTH :: nat where
  "MAX_CONTENT_TYPE_LENGTH = 100"

definition DEFAULT_CONTENT_TYPE_FOR_PUBLIC_DATA :: bytes where
  "DEFAULT_CONTENT_TYPE_FOR_PUBLIC_DATA = bytes_of ''text/plain''"

text \<open>The context of the callback: the two values, empty for a length of 0.\<close>

record public_context =
  pc_content :: bytes
  pc_content_type :: bytes

definition public_properties_cb :: "public_context \<Rightarrow> bytes \<Rightarrow> bytes \<Rightarrow> (int \<times> public_context) option" where
  "public_properties_cb c key value =
     (if key = INT_PROPERTY_CONTENT \<or> key = INT_PROPERTY_CONTENT_TYPE then
        (let c' = (if key = INT_PROPERTY_CONTENT then c\<lparr>pc_content := value\<rparr> else c\<lparr>pc_content_type := value\<rparr>)
         in Some (if length (pc_content c') > 0 \<and> length (pc_content_type c') > 0 then 1 else 0, c'))
      else Some (0, c))"

text \<open>The header is a C string.\<close>

definition content_reply :: "bool \<Rightarrow> public_context \<Rightarrow> http_reply" where
  "content_reply evb_mem c =
     (if pc_content c = [] then Send_Error HTTP_NOTFOUND
      else if length (pc_content_type c) > MAX_CONTENT_TYPE_LENGTH then Send_Error HTTP_BADREQUEST
      else if \<not> evb_mem then Send_Error HTTP_SERVUNAVAIL
      else Send_Content
        (if pc_content_type c = [] then DEFAULT_CONTENT_TYPE_FOR_PUBLIC_DATA else c_str (pc_content_type c))
        (pc_content c))"

text \<open>The result: what the function returns, which its caller does not look at, the answer, and the context.\<close>

definition handle_public_request ::
  "memory \<Rightarrow> db_defaults \<Rightarrow> bytes \<Rightarrow> request \<Rightarrow> http_context \<Rightarrow> (int \<times> http_reply \<times> http_context) option" where
  "handle_public_request mem cfg uri req ctx =
     (if req_type req \<noteq> EVHTTP_REQ_GET then Some (- 1, Send_Error 405, ctx)
      else
        (case split_at CHR ''/'' uri of
           None \<Rightarrow> Some (- 1, Send_Error HTTP_NOTFOUND, ctx)
         | Some (layer, sep) \<Rightarrow>
             do {
               name \<leftarrow> request_key mem layer;
               (case name of
                  None \<Rightarrow> Some (- 2, Send_Error HTTP_SERVUNAVAIL, ctx)
                | Some name \<Rightarrow>
                    (if sep = [] then Some (- 1, Send_Error HTTP_NOTFOUND, ctx)
                     else
                       do {
                         key \<leftarrow> request_key mem sep;
                         (case key of
                            None \<Rightarrow> Some (- 2, Send_Error HTTP_SERVUNAVAIL, ctx)
                          | Some key \<Rightarrow>
                              do {
                                (status, pdb, ctx1) \<leftarrow> get_pan_db_by_layer_name mem cfg (butlast name) False ctx;
                                (if status < 0 then Some (- 1, Send_Error HTTP_NOTFOUND, ctx1)
                                 else
                                   do {
                                     l \<leftarrow> pdb;
                                     layer \<leftarrow> slab_contents (layers_slab ctx1) l;
                                     (status', key_node, _) \<leftarrow> get_key_node_from_key None key False (key_nodes (layer_db layer));
                                     (case key_node of
                                        None \<Rightarrow> Some (- 1, Send_Error HTTP_NOTFOUND, ctx1)
                                      | Some a \<Rightarrow>
                                          (if status' \<le> 0 then Some (- 1, Send_Error HTTP_NOTFOUND, ctx1)
                                           else
                                             do {
                                               n \<leftarrow> nodes_of (layer_db layer) a;
                                               c \<leftarrow> slip_map_foreach public_properties_cb (kn_properties n)
                                                 \<lparr>pc_content = [], pc_content_type = []\<rparr>;
                                               Some (- 1, content_reply (reply_mem mem) c, ctx1)
                                             }))
                                   })
                              })
                       }))
             }))"

section \<open>Reading the two properties\<close>

definition value_in :: "properties \<Rightarrow> bytes \<Rightarrow> bytes" where
  "value_in p key = (case binding p key of None \<Rightarrow> [] | Some v \<Rightarrow> v)"

lemma public_keys [simp]: "INT_PROPERTY_CONTENT \<noteq> INT_PROPERTY_CONTENT_TYPE" "INT_PROPERTY_CONTENT_TYPE \<noteq> INT_PROPERTY_CONTENT"
  by (simp_all add: INT_PROPERTY_CONTENT_def INT_PROPERTY_CONTENT_TYPE_def bytes_of_def)

lemma public_foreach:
  assumes "distinct (map fst es)" "pc_content c \<noteq> [] \<longrightarrow> INT_PROPERTY_CONTENT \<notin> fst ` set es"
    and "pc_content_type c \<noteq> [] \<longrightarrow> INT_PROPERTY_CONTENT_TYPE \<notin> fst ` set es"
  shows "foreach_list public_properties_cb es c = Some
    \<lparr>pc_content = (case map_of es INT_PROPERTY_CONTENT of None \<Rightarrow> pc_content c | Some v \<Rightarrow> v),
     pc_content_type = (case map_of es INT_PROPERTY_CONTENT_TYPE of None \<Rightarrow> pc_content_type c | Some v \<Rightarrow> v)\<rparr>"
  using assms
proof (induction es arbitrary: c)
  case (Cons e es)
  obtain k v where e: "e = (k, v)" by (cases e)
  have k: "k \<notin> fst ` set es" "distinct (map fst es)" using Cons.prems(1) by (auto simp: e)
  have none: "map_of es k = None" using k(1) by (simp add: map_of_eq_None_iff)
  have cb: "public_properties_cb c k v =
      (if k = INT_PROPERTY_CONTENT then Some (if v \<noteq> [] \<and> pc_content_type c \<noteq> [] then 1 else 0, c\<lparr>pc_content := v\<rparr>)
       else if k = INT_PROPERTY_CONTENT_TYPE then Some (if v \<noteq> [] \<and> pc_content c \<noteq> [] then 1 else 0, c\<lparr>pc_content_type := v\<rparr>)
       else Some (0, c))"
    by (simp add: public_properties_cb_def Let_def conj_commute)
  consider (content) "k = INT_PROPERTY_CONTENT" | (ty) "k = INT_PROPERTY_CONTENT_TYPE"
    | (other) "k \<noteq> INT_PROPERTY_CONTENT" "k \<noteq> INT_PROPERTY_CONTENT_TYPE" by blast
  then show ?case
  proof cases
    case content
    let ?c = "c\<lparr>pc_content := v\<rparr>"
    show ?thesis
    proof (cases "v \<noteq> [] \<and> pc_content_type c \<noteq> []")
      case True
      then have "map_of es INT_PROPERTY_CONTENT_TYPE = None" using Cons.prems(3) by (auto simp: e map_of_eq_None_iff)
      then show ?thesis using True content none cb by (simp add: e cong: option.case_cong)
    next
      case False
      have "foreach_list public_properties_cb es ?c = Some
          \<lparr>pc_content = (case map_of es INT_PROPERTY_CONTENT of None \<Rightarrow> pc_content ?c | Some v \<Rightarrow> v),
           pc_content_type = (case map_of es INT_PROPERTY_CONTENT_TYPE of None \<Rightarrow> pc_content_type ?c | Some v \<Rightarrow> v)\<rparr>"
        by (rule Cons.IH) (use k content Cons.prems(3) in \<open>auto simp: e\<close>)
      then show ?thesis using False content none cb by (auto simp: e cong: option.case_cong)
    qed
  next
    case ty
    let ?c = "c\<lparr>pc_content_type := v\<rparr>"
    show ?thesis
    proof (cases "v \<noteq> [] \<and> pc_content c \<noteq> []")
      case True
      then have "map_of es INT_PROPERTY_CONTENT = None" using Cons.prems(2) by (auto simp: e map_of_eq_None_iff)
      then show ?thesis using True ty none cb by (simp add: e cong: option.case_cong)
    next
      case False
      have "foreach_list public_properties_cb es ?c = Some
          \<lparr>pc_content = (case map_of es INT_PROPERTY_CONTENT of None \<Rightarrow> pc_content ?c | Some v \<Rightarrow> v),
           pc_content_type = (case map_of es INT_PROPERTY_CONTENT_TYPE of None \<Rightarrow> pc_content_type ?c | Some v \<Rightarrow> v)\<rparr>"
        by (rule Cons.IH) (use k ty Cons.prems(2) in \<open>auto simp: e\<close>)
      then show ?thesis using False ty none cb by (auto simp: e cong: option.case_cong)
    qed
  next
    case other
    then show ?thesis using Cons.IH [OF k(2), of c] Cons.prems(2,3) by (simp add: e cb)
  qed
qed simp

lemma public_properties:
  assumes "maps_inv mo"
  shows "slip_map_foreach public_properties_cb mo \<lparr>pc_content = [], pc_content_type = []\<rparr> = Some
    \<lparr>pc_content = value_in (view mo) INT_PROPERTY_CONTENT, pc_content_type = value_in (view mo) INT_PROPERTY_CONTENT_TYPE\<rparr>"
proof (cases mo)
  case None
  then show ?thesis by (simp add: slip_map_foreach_def value_in_def binding_def)
next
  case (Some m)
  then obtain es where es: "distinct (map fst es)" "prop_view (Some m) = map_of es"
    "\<And>cb (c :: public_context). slip_map_foreach cb (Some m) c = foreach_list cb es c"
    using foreach_entries_view [of m] assms by (metis maps_inv_simps(2))
  show ?thesis unfolding Some es(3)
    by (subst public_foreach [OF es(1)]) (simp_all add: value_in_def binding_def es(2) split: option.split)
qed

lemma public_request_ok:
  assumes inv: "ctx_inv ctx" and mem: "good_memory mem" and names: "plain_layer layer" "layer_ok key" "length key \<le> 10000"
    and req: "req_type req = EVHTTP_REQ_GET"
  shows "handle_public_request mem cfg (record_uri layer key) req ctx =
    (case layers ctx layer of
       None \<Rightarrow> Some (- 1, Send_Error HTTP_NOTFOUND, ctx)
     | Some db \<Rightarrow>
         (case node_of_key (key_nodes db) (key @ [0]) of
            None \<Rightarrow> Some (- 1, Send_Error HTTP_NOTFOUND, ctx)
          | Some a \<Rightarrow> Some (- 1, content_reply True
              \<lparr>pc_content = value_in (view (properties_of db a)) INT_PROPERTY_CONTENT,
               pc_content_type = value_in (view (properties_of db a)) INT_PROPERTY_CONTENT_TYPE\<rparr>, ctx)))"
proof -
  have sp: "split_at CHR ''/'' (record_uri layer key) = Some (layer, key)"
    unfolding record_uri_def by (rule split_at_first) (use names(1) in \<open>simp add: plain_layer_def\<close>)
  have k: "request_key mem layer = Some (Some (layer @ [0]))" "request_key mem key = Some (Some (key @ [0]))" "key \<noteq> []"
    using names request_key_ok [OF good_memoryD(7) [OF mem]] by (simp_all add: plain_layer_def layer_ok_def)
  note start = handle_public_request_def req sp k
  show ?thesis
  proof (cases "layers ctx layer")
    case None
    then show ?thesis using get_pan_db_none(1) [OF inv None, of mem cfg] by (simp add: start)
  next
    case (Some db)
    obtain l lay where g: "get_pan_db_by_layer_name mem cfg layer False ctx = Some (0, Some l, ctx)"
      "slab_contents (layers_slab ctx) l = Some lay" "layer_db lay = db"
      using get_pan_db_law [OF inv Some] by blast
    have d: "db_inv (expirables_slab ctx) db" using g(2,3) ctx_invD(4) [OF inv] by blast
    note st = db_invD(2) [OF d]
    show ?thesis
    proof (cases "node_of_key (key_nodes db) (key @ [0])")
      case None
      then show ?thesis using g get_missing(1) [OF st None, of None] Some by (simp add: start)
    next
      case a: (Some a)
      obtain n where n: "nodes_of db a = Some n"
        using a node_of_key_node [OF d a] by blast
      have m: "maps_inv (kn_properties n)" using db_invD(6) [OF d n] by (cases "kn_properties n") auto
      moreover have "properties_of db a = kn_properties n" using n by (simp add: properties_of_def)
      note m = m this
      show ?thesis
        using g get_existing [OF st a, of None False] Some a n public_properties [OF m(1)] m(2) good_memoryD(8) [OF mem]
        by (simp add: start)
    qed
  qed
qed

section \<open>Properties\<close>

text \<open>
  C20: a GET of public content is answered with the $content of the record and its $content_type, text/plain when there
  is none; with 404 when the layer or the record does not exist or has no content, and with 400 when the content
  type is longer than 100 bytes. Nothing in the database changes.
\<close>

theorem public_request_serves_content:
  assumes "ctx_inv ctx" "good_memory mem" "plain_layer layer" "layer_ok key" "length key \<le> 10000"
    and "req_type req = EVHTTP_REQ_GET"
  shows "\<exists>ret reply. handle_public_request mem cfg (record_uri layer key) req ctx = Some (ret, reply, ctx) \<and>
    reply =
      (case (do { m \<leftarrow> records_of ctx layer; m (key @ [0]) }) of
         None \<Rightarrow> Send_Error HTTP_NOTFOUND
       | Some r \<Rightarrow>
           (let content = value_in (rec_properties r) INT_PROPERTY_CONTENT;
                content_type = value_in (rec_properties r) INT_PROPERTY_CONTENT_TYPE
            in if content = [] then Send_Error HTTP_NOTFOUND
               else if length content_type > 100 then Send_Error HTTP_BADREQUEST
               else Send_Content (if content_type = [] then bytes_of ''text/plain'' else c_str content_type) content))"
proof (cases "layers ctx layer")
  case None
  then show ?thesis using public_request_ok [OF assms, of cfg] by (simp add: records_of_def)
next
  case (Some db)
  show ?thesis
  proof (cases "node_of_key (key_nodes db) (key @ [0])")
    case None
    then show ?thesis using public_request_ok [OF assms, of cfg] Some by (simp add: records_of_def record_of_def)
  next
    case a: (Some a)
    then show ?thesis using public_request_ok [OF assms, of cfg] Some
      by (simp add: records_of_def record_of_def record_at_def content_reply_def MAX_CONTENT_TYPE_LENGTH_def
          DEFAULT_CONTENT_TYPE_FOR_PUBLIC_DATA_def Let_def)
  qed
qed

section \<open>Witness\<close>

text \<open>A database with one record, that has one property.\<close>

lemma single_entry:
  assumes "distinct (map fst es)" "map_of es = [k \<mapsto> v]"
  shows "es = [(k, v)]"
proof -
  have "fst ` set es = {k}" using dom_map_of_conv_image_fst [of es] assms(2) by simp
  moreover have "card (fst ` set es) = length es" using distinct_card [OF assms(1)] by simp
  ultimately have "length es = 1" by simp
  then obtain e where "es = [e]" by (auto simp: length_Suc_conv)
  then show ?thesis using assms(2) by (cases e) (auto simp: fun_eq_iff split: if_splits)
qed

lemma one_property_record:
  assumes kv: "slip_key k" "slip_val v" "hd k \<noteq> INT_PROPERTY_COMMON_PREFIX" and size: "entry_size (k, v) \<le> 60000"
  obtains ctx r where "ctx_inv ctx" "records_of ctx = [sample_layer \<mapsto> [sample_key \<mapsto> r]]" "rec_properties r = Some [k \<mapsto> v]"
    "rec_position r = None" "rec_expires r = None"
proof -
  from store_property_law [OF names_ok_None, of "\<lambda>c. c \<noteq> INT_PROPERTY_COMMON_PREFIX", OF kv(3,1,2), of "Some 0"]
  obtain r mo where mo: "names_ok (\<lambda>c. c \<noteq> INT_PROPERTY_COMMON_PREFIX) mo" "mo \<noteq> None" "prop_view mo = [k \<mapsto> v]"
    using size by auto
  define op where "op = (empty_put_op sample_op sample_layer sample_key)\<lparr>put_properties_map := mo\<rparr>"
  have op: "put_op_ok op" using mo(1) by (simp add: op_def empty_put_op_def put_op_ok_def)
  obtain a ctx where c: "register_new_layer sample_mem sample_cfg sample_layer (init_context 0) = Some (Some a, ctx)" "ctx_inv ctx"
    "records_of ctx = [sample_layer \<mapsto> Map.empty]" "now ctx = 0" by (rule sample_context)
  obtain db where db: "layers ctx sample_layer = Some db" "record_of (expirables_slab ctx) db = Map.empty"
    using fun_cong [OF c(3), of sample_layer] by (auto simp: records_of_def)
  have l: "layers ctx (put_layer_name op) = Some db" using db(1) by (simp add: op_def empty_put_op_def)
  have small: "movable db (put_key op)"
    using fun_cong [OF db(2), of "put_key op"] by (simp add: movable_def record_of_def split: option.split)
  from put_law [OF c(2) sample_memory op l small, of sample_cfg] obtain status ctx' where
    p: "ctx_inv ctx'" "put_effect op db ctx ctx'" by blast
  from p(2) obtain es r where e: "lists_entries (put_special_properties op) es"
    "records_of ctx' = (records_of ctx)(put_layer_name op \<mapsto> (record_of (expirables_slab ctx) db)(put_key op \<mapsto> r))"
    "put_room op db \<longrightarrow> r = put_spec op (qbounds db) es (old_record (record_of (expirables_slab ctx) db (put_key op)))"
    unfolding put_effect_def by blast
  have es: "es = []" using e(1) by (simp add: op_def empty_put_op_def lists_entries_def)
  have node: "node_of_key (key_nodes db) sample_key = None" using fun_cong [OF db(2), of sample_key] by (simp add: record_of_def)
  have "put_room op db"
    unfolding put_room_def
  proof (intro allI impI)
    fix es fs assume a: "lists_entries (put_special_properties op) es" "lists_entries (put_properties_map op) fs"
    have "es = []" using a(1) by (simp add: op_def empty_put_op_def lists_entries_def)
    moreover have "distinct (map fst fs)" "prop_view mo = map_of fs" using a(2) by (simp_all add: op_def lists_entries_def)
    then have "fs = [(k, v)]" by (intro single_entry) (simp_all only: mo(3) [symmetric])
    ultimately show "map_size (stored_map db (put_key op)) + room_needed es fs \<le> 65535"
      using size node by (simp add: room_needed_def op_def empty_put_op_def stored_map_def)
  qed
  then have "r = put_spec op (qbounds db) [] no_record" using e(3) es db(2) by (simp add: old_record_def)
  moreover have "view mo = Some [k \<mapsto> v]" using mo(2,3) by (cases mo) simp_all
  ultimately have "rec_properties r = Some [k \<mapsto> v]" "rec_position r = None" "rec_expires r = None"
    by (simp_all add: put_spec_def op_def empty_put_op_def updated_properties_def no_record_def merge_properties_def accepted_position_def)
  moreover have "records_of ctx' = [sample_layer \<mapsto> [sample_key \<mapsto> r]]"
    using e(2) c(3) db(2) by (simp add: op_def empty_put_op_def)
  ultimately show thesis using that p(1) by blast
qed

theorem public_request_serves_content_witness:
  "\<exists>ctx ret. handle_public_request sample_mem sample_cfg (record_uri sample_layer (bytes_of ''paris''))
      (sample_request [] \<lparr>req_type := EVHTTP_REQ_GET\<rparr>) ctx = Some (ret, Send_Content (bytes_of ''text/plain'') (bytes_of ''hello''), ctx)"
proof -
  have kv: "slip_key INT_PROPERTY_CONTENT" "slip_val (bytes_of ''hello'')" "hd INT_PROPERTY_CONTENT \<noteq> INT_PROPERTY_COMMON_PREFIX"
    "entry_size (INT_PROPERTY_CONTENT, bytes_of ''hello'') \<le> 60000"
    by (simp_all add: slip_key_def slip_val_def INT_PROPERTY_CONTENT_def bytes_of_def INT_PROPERTY_COMMON_PREFIX_def entry_size_def)
  obtain ctx r where c: "ctx_inv ctx" "records_of ctx = [sample_layer \<mapsto> [sample_key \<mapsto> r]]"
    "rec_properties r = Some [INT_PROPERTY_CONTENT \<mapsto> bytes_of ''hello'']"
    by (rule one_property_record [OF kv])
  have names: "plain_layer sample_layer" "layer_ok (bytes_of ''paris'')" "length (bytes_of ''paris'') \<le> 10000"
    "req_type (sample_request [] \<lparr>req_type := EVHTTP_REQ_GET\<rparr>) = EVHTTP_REQ_GET" "bytes_of ''paris'' @ [0] = sample_key"
    using sample_names(1) by (simp_all add: layer_ok_def sample_key_def bytes_of_def)
  have v: "value_in (rec_properties r) INT_PROPERTY_CONTENT = bytes_of ''hello''" "value_in (rec_properties r) INT_PROPERTY_CONTENT_TYPE = []"
    "bytes_of ''hello'' \<noteq> []"
    by (simp_all add: value_in_def binding_def c(3)) (simp add: bytes_of_def)
  have sel: "do { m \<leftarrow> records_of ctx sample_layer; m sample_key } = Some r" by (simp add: c(2))
  note pub = public_request_serves_content [OF c(1) sample_memory names(1-4), of sample_cfg, unfolded names(5) sel option.case]
  obtain ret reply where h: "handle_public_request sample_mem sample_cfg (record_uri sample_layer (bytes_of ''paris''))
      (sample_request [] \<lparr>req_type := EVHTTP_REQ_GET\<rparr>) ctx = Some (ret, reply, ctx)"
    "reply = (let content = value_in (rec_properties r) INT_PROPERTY_CONTENT;
                content_type = value_in (rec_properties r) INT_PROPERTY_CONTENT_TYPE
            in if content = [] then Send_Error HTTP_NOTFOUND
               else if length content_type > 100 then Send_Error HTTP_BADREQUEST
               else Send_Content (if content_type = [] then bytes_of ''text/plain'' else c_str content_type) content)"
    using pub by (elim exE conjE) (rule that)
  have "reply = Send_Content (bytes_of ''text/plain'') (bytes_of ''hello'')" unfolding h(2) v Let_def using v(3) by simp
  then show ?thesis using h(1) by (intro exI [of _ ctx] exI [of _ ret]) (simp only:)
qed

end
