(* ===== verification/Server.thy ===== *)
theory Server
  imports Db_Log Public_Content
begin

text \<open>
  The server around the operations (\<open>http_server.c\<close>, \<open>domain_system.c\<close>, \<open>handle_consumer_ops.c\<close>, and
  evhttp_decode_uri of libevent's \<open>http.c\<close>): dispatching a request, the work of a worker thread, the replies
  that the main thread sends, requests that are replayed, the expiration timer, and the start of a journal rewrite. The state
  is what the threads share; threads, sockets and timers themselves are the callers of these functions.
\<close>

section \<open>State\<close>

text \<open>The C library's mathematics, the allocator and the defaults for layers.\<close>

record environment =
  env_libm :: libm
  env_memory :: memory
  env_defaults :: db_defaults

text \<open>
  The context of \<open>http_server.h\<close> with the journal of the application: the database with its queue of replies, the
  queue of operations, the flag that stops the workers, the journal with what the system answers to its writes, what
  was sent to clients, whether the event loop was told to end, and the rewriting process (-1 for none) with the
  journal offset at its start.
\<close>

record server =
  srv_ctx :: http_context
  srv_rq :: request_queue
  srv_should_exit :: bool
  srv_log :: db_log
  srv_writes :: write_answers
  srv_sent :: "(nat \<times> http_reply) list"
  srv_loopexit :: bool
  srv_rewrite_process :: int
  srv_offset_before_fork :: int

text \<open>What fork and lseek return.\<close>

record os_answers =
  os_fork :: int
  os_offset :: int

section \<open>URIs\<close>

definition encoded_api_base_uri :: bytes where "encoded_api_base_uri = bytes_of ''/api/1.0/''"
definition encoded_public_base_uri :: bytes where "encoded_public_base_uri = bytes_of ''/public/''"
definition MAX_URI_LEN :: nat where "MAX_URI_LEN = 10000"

text \<open>libevent: a plus is a space only behind the first question mark; an incomplete escape stays as it is.\<close>

fun evhttp_decode_uri :: "bool \<Rightarrow> bytes \<Rightarrow> bytes" where
  "evhttp_decode_uri decode_plus [] = []"
| "evhttp_decode_uri decode_plus (c # cs) =
     (if c = chr CHR ''?'' then c # evhttp_decode_uri True cs
      else if c = chr CHR ''+'' \<and> decode_plus then chr CHR '' '' # evhttp_decode_uri decode_plus cs
      else
        (case cs of
           a # b # cs' \<Rightarrow>
             (if c = chr CHR ''%'' \<and> is_digit 16 [a] \<and> is_digit 16 [b]
              then word_of_int (strtol 16 [a, b]) # evhttp_decode_uri decode_plus cs'
              else c # evhttp_decode_uri decode_plus cs)
         | _ \<Rightarrow> c # evhttp_decode_uri decode_plus cs))"

text \<open>The path and the options, NULL when there are none.\<close>

definition extract_opts :: "bytes \<Rightarrow> bytes \<times> bytes option" where
  "extract_opts decoded_uri =
     (case split_at CHR ''?'' decoded_uri of
        None \<Rightarrow> (decoded_uri, None)
      | Some (path, opts) \<Rightarrow> (path, if opts = [] then None else Some opts))"

definition json_ext :: string where "json_ext = ''.json''"

text \<open>
  The domain and the part of the URI for its handler. Without a slash this part starts one byte behind the zero that
  ends the domain, which is in the middle of the extension: it is what follows its dot.
\<close>

definition api_parts :: "bytes \<Rightarrow> (bytes \<times> bytes) option" where
  "api_parts path =
     (if length path \<le> length json_ext \<or> length path > MAX_URI_LEN \<or>
         \<not> strcasecmp_eq (drop (length path - length json_ext) path) json_ext then None
      else
        (let uri = take (length path - length json_ext) path
         in Some (case split_at CHR ''/'' uri of
              Some (domain, uri_part) \<Rightarrow> (domain, uri_part)
            | None \<Rightarrow> (uri, drop (length path - length json_ext + 1) path))))"

section \<open>Domains\<close>

type_synonym server_result = "(int \<times> bool \<times> server) option"

definition on_queue :: "(request_queue \<Rightarrow> domain_result) \<Rightarrow> server \<Rightarrow> server_result" where
  "on_queue f srv = do { (status, w, rq) \<leftarrow> f (srv_rq srv); Some (status, w, srv\<lparr>srv_rq := rq\<rparr>) }"

definition HTTP_NOCONTENT :: int where "HTTP_NOCONTENT = 204"
definition HTTP_NOTMODIFIED :: int where "HTTP_NOTMODIFIED = 304"

text \<open>
  Starting a rewrite of the journal, in the parent. The workers are stopped while the journal is flushed and the process forks;
  when it cannot fork, they are not started again. The new process is the subject of the theory on journal rewriting.
\<close>

definition handle_special_op_system_rewrite ::
  "environment \<Rightarrow> os_answers \<Rightarrow> bare_op \<Rightarrow> server \<Rightarrow> server_result" where
  "handle_special_op_system_rewrite env os op srv =
     (if fake_req op \<or> \<not> dl_open (srv_log srv) then Some (HTTP_NOCONTENT, False, srv)
      else if srv_rewrite_process srv \<noteq> - 1 then Some (HTTP_NOTMODIFIED, False, srv)
      else
        do {
          (_, db, as) \<leftarrow> flush_db_log (srv_writes srv) True (srv_log srv);
          (let srv1 = srv\<lparr>srv_should_exit := True, srv_log := db, srv_writes := as\<rparr>
           in if os_fork os = - 1 then Some (HTTP_SERVUNAVAIL, False, srv1)
              else
                (let (status, ctx) = send_reply (env_memory env) OP_TYPE_SYSTEM_REWRITE op
                       [gen_str ''rewrite'', gen_str ''started''] (srv_ctx srv1)
                 in Some (status, False,
                      srv1\<lparr>srv_should_exit := False, srv_rewrite_process := os_fork os,
                           srv_offset_before_fork := os_offset os, srv_ctx := ctx\<rparr>)))
        })"

text \<open>shutdown answers at once, without the transaction id, and ends the event loop after a delay.\<close>

definition handle_domain_system ::
  "environment \<Rightarrow> os_answers \<Rightarrow> request \<Rightarrow> bytes \<Rightarrow> bool \<Rightarrow> server \<Rightarrow> server_result" where
  "handle_domain_system env os req uri fake srv =
     (case handle_domain_system_ping req uri fake (srv_rq srv) of
        Some res \<Rightarrow> on_queue (\<lambda>_. res) srv
      | None \<Rightarrow>
          (if req_type req = EVHTTP_REQ_POST \<and> strcasecmp_eq uri ''shutdown'' then
             Some (0, False,
               srv\<lparr>srv_rewrite_process := - 1, srv_loopexit := True,
                   srv_sent := srv_sent srv @
                     (if reply_mem (env_memory env)
                      then [(req_id req, Send_Json [Gen_Map_Open, gen_str ''status'', gen_str ''ok'', Gen_Map_Close])] else [])\<rparr>)
           else if req_type req = EVHTTP_REQ_POST \<and> strcasecmp_eq uri ''rewrite'' then
             handle_special_op_system_rewrite env os (bare_of req fake (srv_rq srv)) (srv\<lparr>srv_rq := next_tid (srv_rq srv)\<rparr>)
           else Some (HTTP_NOTFOUND, False, srv)))"

text \<open>The table of domains, in its order; None for a name that is not in it.\<close>

definition domain_handler ::
  "environment \<Rightarrow> os_answers \<Rightarrow> bytes \<Rightarrow> (request \<Rightarrow> bytes \<Rightarrow> bytes option \<Rightarrow> bool \<Rightarrow> server \<Rightarrow> server_result) option" where
  "domain_handler env os domain =
     (if strcasecmp_eq domain ''records'' then
        Some (\<lambda>req uri opts fake. on_queue (handle_domain_records (env_memory env) req uri opts fake))
      else if strcasecmp_eq domain ''search'' then
        Some (\<lambda>req uri opts fake. on_queue (handle_domain_search (env_memory env) req uri opts fake))
      else if strcasecmp_eq domain ''layers'' then
        Some (\<lambda>req uri opts fake. on_queue (handle_domain_layers (env_memory env) req uri fake))
      else if strcasecmp_eq domain ''system'' then
        Some (\<lambda>req uri opts fake. handle_domain_system env os req uri fake)
      else None)"

section \<open>Requests\<close>

definition send_error :: "request \<Rightarrow> bool \<Rightarrow> int \<Rightarrow> server \<Rightarrow> server" where
  "send_error req fake status srv =
     (if fake then srv else srv\<lparr>srv_sent := srv_sent srv @ [(req_id req, Send_Error status)]\<rparr>)"

text \<open>The input buffer after the handler: a PUT of a record has added a zero to it.\<close>

definition input_after :: "bytes \<Rightarrow> request \<Rightarrow> bytes" where
  "input_after domain req =
     (if strcasecmp_eq domain ''records'' \<and> req_type req = EVHTTP_REQ_PUT then req_input req @ [0] else req_input req)"

text \<open>There is memory for the journal's buffers; no slaves are connected (replication is not modelled).\<close>

definition log_request :: "nat \<Rightarrow> bytes \<Rightarrow> bytes \<Rightarrow> server \<Rightarrow> server option" where
  "log_request verb uri input srv =
     do {
       (_, db, _, as) \<leftarrow> add_to_db_log (srv_writes srv) True True
         \<lparr>lc_now = now (srv_ctx srv), lc_active_slaves = None\<rparr> verb uri input True (srv_log srv);
       Some (srv\<lparr>srv_log := db, srv_writes := as\<rparr>)
     }"

definition process_api_request ::
  "environment \<Rightarrow> os_answers \<Rightarrow> bytes \<Rightarrow> request \<Rightarrow> bool \<Rightarrow> server \<Rightarrow> (int \<times> server) option" where
  "process_api_request env os uri req fake srv =
     (let decoded_uri = c_str (evhttp_decode_uri False (drop (length encoded_api_base_uri) uri));
          (path, opts) = extract_opts decoded_uri
      in case api_parts path of
           None \<Rightarrow> Some (- 1, send_error req fake HTTP_NOTFOUND srv)
         | Some (domain, uri_part) \<Rightarrow>
             (case domain_handler env os domain of
                None \<Rightarrow> Some (- 1, send_error req fake HTTP_NOTFOUND srv)
              | Some handler \<Rightarrow>
                  do {
                    (ret, write_to_log, srv') \<leftarrow> handler req uri_part opts fake srv;
                    (if ret \<noteq> 0 then Some (- 1, send_error req fake ret srv')
                     else if \<not> fake \<and> write_to_log then
                       do { srv'' \<leftarrow> log_request (req_type req) uri (input_after domain req) srv'; Some (0, srv'') }
                     else Some (0, srv'))
                  }))"

definition process_public_request ::
  "environment \<Rightarrow> bytes \<Rightarrow> request \<Rightarrow> server \<Rightarrow> (int \<times> server) option" where
  "process_public_request env uri req srv =
     (let (path, opts) = extract_opts (c_str (evhttp_decode_uri False (drop (length encoded_public_base_uri) uri)))
      in do {
           (ret, reply, ctx) \<leftarrow> handle_public_request (env_memory env) (env_defaults env) path req (srv_ctx srv);
           Some (ret, srv\<lparr>srv_ctx := ctx, srv_sent := srv_sent srv @ [(req_id req, reply)]\<rparr>)
         })"

definition process_request ::
  "environment \<Rightarrow> os_answers \<Rightarrow> bytes \<Rightarrow> request \<Rightarrow> bool \<Rightarrow> server \<Rightarrow> (int \<times> server) option" where
  "process_request env os uri req fake srv =
     (if take (length encoded_api_base_uri) uri = encoded_api_base_uri then process_api_request env os uri req fake srv
      else if take (length encoded_public_base_uri) uri = encoded_public_base_uri then
        do { c_assert (\<not> fake); process_public_request env uri req srv }
      else Some (- 1, send_error req fake HTTP_NOTFOUND srv))"

section \<open>Workers\<close>

definition handle_op_system_ping :: "memory \<Rightarrow> bare_op \<Rightarrow> http_context \<Rightarrow> (int \<times> http_context) option" where
  "handle_op_system_ping mem op ctx =
     Some (send_reply mem OP_TYPE_SYSTEM_PING op [gen_str ''pong'', gen_str ''pong''] ctx)"

fun run_op :: "environment \<Rightarrow> operation \<Rightarrow> http_context \<Rightarrow> (int \<times> http_context) option" where
  "run_op env (Ping_Op b) ctx = handle_op_system_ping (env_memory env) b ctx"
| "run_op env (Layers_Create_Op b name) ctx = handle_op_layers_create (env_memory env) (env_defaults env) b name ctx"
| "run_op env (Layers_Delete_Op b name) ctx = handle_op_layers_delete (env_memory env) b name ctx"
| "run_op env (Layers_Index_Op b) ctx = handle_op_layers_index (env_memory env) b ctx"
| "run_op env (Records_Put_Op op) ctx = handle_op_records_put (env_memory env) (env_defaults env) op ctx"
| "run_op env (Records_Get_Op op) ctx = handle_op_records_get (env_memory env) (env_defaults env) op ctx"
| "run_op env (Records_Delete_Op op) ctx = handle_op_records_delete (env_memory env) (env_defaults env) op ctx"
| "run_op env (Search_Nearby_Op op) ctx =
     handle_op_search_nearby (env_libm env) (env_memory env) (env_defaults env) op ctx"
| "run_op env (Search_In_Rect_Op op) ctx =
     handle_op_search_in_rect (env_libm env) (env_memory env) (env_defaults env) op ctx"
| "run_op env (Search_In_Keys_Op op) ctx = handle_op_search_in_keys (env_memory env) (env_defaults env) op ctx"

text \<open>An operation that fails is answered with an error, when it came from a client.\<close>

definition finish_op :: "memory \<Rightarrow> operation \<Rightarrow> int \<Rightarrow> http_context \<Rightarrow> http_context" where
  "finish_op mem op ret ctx =
     (if ret \<noteq> 0 \<and> \<not> fake_req (bare op)
      then snd (send_reply mem OP_TYPE_ERROR (bare op) [gen_str ''error'', gen_str ''error''] ctx) else ctx)"

definition execute_op :: "environment \<Rightarrow> operation \<Rightarrow> http_context \<Rightarrow> http_context option" where
  "execute_op env op ctx =
     do { (ret, ctx') \<leftarrow> run_op env op ctx; Some (finish_op (env_memory env) op ret ctx') }"

text \<open>
  A worker: what it does under the mutex of the queue, and then, without the mutex, with the operation that it took. An
  operation without a request is taken and dropped.
\<close>

datatype taken = Exit | Wait | Took operation

definition take_op :: "bool \<Rightarrow> request_queue \<Rightarrow> (taken \<times> request_queue) option" where
  "take_op should_exit rq =
     (if should_exit then Some (Exit, rq)
      else
        do {
          (op, q) \<leftarrow> shift_cqueue (rq_cqueue rq);
          Some (case op of
              None \<Rightarrow> Wait
            | Some op \<Rightarrow> if op_req (bare op) \<noteq> 0 then Took op else Wait, rq\<lparr>rq_cqueue := q\<rparr>)
        })"

definition worker_do_work :: "environment \<Rightarrow> server \<Rightarrow> (taken \<times> server) option" where
  "worker_do_work env srv =
     do {
       (t, rq) \<leftarrow> take_op (srv_should_exit srv) (srv_rq srv);
       (case t of
          Took op \<Rightarrow> do { ctx \<leftarrow> execute_op env op (srv_ctx srv); Some (t, srv\<lparr>srv_rq := rq, srv_ctx := ctx\<rparr>) }
        | _ \<Rightarrow> Some (t, srv\<lparr>srv_rq := rq\<rparr>))
     }"

section \<open>Replies\<close>

text \<open>The main thread sends the replies in the order in which they were published. evb_mem: evbuffer_new succeeds.\<close>

definition consumer_reply :: "bool \<Rightarrow> op_reply \<Rightarrow> nat \<times> http_reply" where
  "consumer_reply evb_mem r =
     (reply_req r,
      if reply_type r = OP_TYPE_ERROR then Send_Error HTTP_NOTFOUND
      else if reply_type r = OP_TYPE_NONE \<or> \<not> evb_mem then Send_Error (- 1)
      else Send_Json (json_gen r @ [Gen_Map_Close]))"

definition consumer_cb :: "bool \<Rightarrow> server \<Rightarrow> server" where
  "consumer_cb evb_mem srv =
     srv\<lparr>srv_ctx := (srv_ctx srv)\<lparr>published := []\<rparr>,
         srv_sent := srv_sent srv @ map (consumer_reply evb_mem) (published (srv_ctx srv))\<rparr>"

section \<open>Timers and replayed requests\<close>

definition flush_log_db :: "server \<Rightarrow> server option" where
  "flush_log_db srv =
     do {
       (_, db, as) \<leftarrow> flush_db_log (srv_writes srv) True (srv_log srv);
       Some (srv\<lparr>srv_log := db, srv_writes := as\<rparr>)
     }"

text \<open>time gives t, or -1. SPREAD_EXPIRATION is 0: one purge of all layers per second.\<close>

definition expiration_cron :: "environment \<Rightarrow> int \<Rightarrow> server \<Rightarrow> server option" where
  "expiration_cron env t srv =
     (let ctx = (srv_ctx srv)\<lparr>now := t\<rparr>
      in if t = - 1 then Some (srv\<lparr>srv_ctx := ctx\<rparr>)
         else
           do {
             (_, ctx') \<leftarrow> purge_expired_keys (env_memory env) ctx;
             Some (srv\<lparr>srv_ctx := ctx'\<rparr>)
           })"

text \<open>
  fake_request: the request is processed until that succeeds, and then, in the main thread, a worker's step is made. Its
  address is that of a local variable, which is not 0. Between two attempts nothing else changes the state when
  there are no workers yet, which is the case when the journal is replayed.
\<close>

definition fake_req_at :: nat where "fake_req_at = 1"

partial_function (option) process_until ::
  "environment \<Rightarrow> os_answers \<Rightarrow> bytes \<Rightarrow> request \<Rightarrow> server \<Rightarrow> server option" where
  "process_until env os uri req srv =
     do {
       (ret, srv') \<leftarrow> process_request env os uri req True srv;
       (if ret = 0 then Some srv' else process_until env os uri req srv')
     }"

definition fake_request ::
  "environment \<Rightarrow> os_answers \<Rightarrow> nat \<Rightarrow> bytes \<Rightarrow> bytes \<Rightarrow> bool \<Rightarrow> bool \<Rightarrow> server \<Rightarrow> server option" where
  "fake_request env os verb uri body in_main_thread add_to_journal srv =
     (let req = \<lparr>req_id = fake_req_at, req_type = verb, req_input = body\<rparr>
      in do {
           srv1 \<leftarrow> (if add_to_journal then log_request verb uri body srv else Some srv);
           srv2 \<leftarrow> process_until env os uri req srv1;
           (if \<not> in_main_thread then Some srv2
            else
              do {
                (t, srv3) \<leftarrow> worker_do_work env srv2;
                (if t = Wait then None else Some srv3)
              })
         })"

section \<open>URIs without escapes\<close>

definition plain_uri :: "bytes \<Rightarrow> bool" where
  "plain_uri s = (set s \<inter> {0, chr CHR ''%'', chr CHR ''?'', chr CHR ''+''} = {})"

lemma decode_plain: "plain_uri s \<Longrightarrow> evhttp_decode_uri p s = s"
proof (induction s arbitrary: p)
  case (Cons c cs)
  then have c: "c \<noteq> chr CHR ''?''" "c \<noteq> chr CHR ''+''" "c \<noteq> chr CHR ''%''" and "plain_uri cs" by (auto simp: plain_uri_def)
  then have "evhttp_decode_uri p cs = cs" using Cons.IH by blast
  then show ?case unfolding evhttp_decode_uri.simps(2) using c by (simp only: if_False split: list.split) simp
qed simp

lemma c_str_id: "0 \<notin> set s \<Longrightarrow> c_str s = s"
  by (induction s) (auto simp: c_str_def)

lemma plain_parts: "plain_uri s \<Longrightarrow> extract_opts (c_str (evhttp_decode_uri False s)) = (s, None)"
  by (simp add: decode_plain c_str_id extract_opts_def split_at_def plain_uri_def)

end
