(* ===== verification/Server_Runs.thy ===== *)
theory Server_Runs
  imports Server
begin

text \<open>
  Runs of the server: the main thread takes requests, the workers take operations from the queue and execute them,
  timers fire and replies are sent, in any order. The lemmas say what a request can do to the shared state;
  the theorem that every accepted operation is executed once, in the order of arrival when there is one worker.
\<close>

section \<open>What a request changes\<close>

abbreviation srv_queue :: "server \<Rightarrow> operation cqueue" where
  "srv_queue srv \<equiv> rq_cqueue (srv_rq srv)"

definition extends_queue :: "request \<Rightarrow> bool \<Rightarrow> server \<Rightarrow> server \<Rightarrow> bool" where
  "extends_queue req fake srv srv' =
     (cq_inv (srv_queue srv') \<and> cq_capacity (srv_queue srv') = cq_capacity (srv_queue srv) \<and>
      (\<exists>ps. srv_ctx srv' = (srv_ctx srv)\<lparr>published := ps\<rparr>) \<and>
      (\<exists>ops. cq_list (srv_queue srv') = cq_list (srv_queue srv) @ ops \<and> length ops \<le> 1 \<and>
         (\<forall>op \<in> set ops. op_ok op \<and> op_req (bare op) = req_id req \<and> fake_req (bare op) = fake)))"

lemma same_queue:
  assumes "cq_inv (srv_queue srv)" "srv_queue srv' = srv_queue srv" "srv_ctx srv' = (srv_ctx srv)\<lparr>published := ps\<rparr>"
  shows "extends_queue req fake srv srv'"
  using assms unfolding extends_queue_def by auto

lemma same_context: "ctx = ctx\<lparr>published := published ctx\<rparr>" for ctx :: http_context
  by simp

lemma same_context_ex: "\<exists>ps. ctx = ctx\<lparr>published := ps\<rparr>" for ctx :: http_context
  using same_context by blast

lemma on_queue_extends:
  assumes "on_queue f srv = Some (status, w, srv')" "\<And>res. f (srv_rq srv) = Some res \<Longrightarrow> adds_op req fake (srv_rq srv) res"
  shows "extends_queue req fake srv srv' \<and> srv' = srv\<lparr>srv_rq := srv_rq srv'\<rparr>"
proof -
  obtain rq where rq: "f (srv_rq srv) = Some (status, w, rq)" "srv' = srv\<lparr>srv_rq := rq\<rparr>"
    using assms(1) by (auto simp: on_queue_def bind_eq_Some_conv)
  note a = assms(2) [OF rq(1), unfolded adds_op_def prod.case]
  have "\<exists>ops. cq_list (rq_cqueue rq) = cq_list (srv_queue srv) @ ops \<and> length ops \<le> 1 \<and>
         (\<forall>op \<in> set ops. op_ok op \<and> op_req (bare op) = req_id req \<and> fake_req (bare op) = fake)"
  proof (cases "status = 0")
    case True
    then obtain op where "op_ok op" "bare op = bare_of req fake (srv_rq srv)" "cq_list (rq_cqueue rq) = cq_list (srv_queue srv) @ [op]"
      using a by auto
    then show ?thesis by (intro exI [of _ "[op]"]) (simp add: bare_of_def)
  next
    case False
    then show ?thesis using a by simp
  qed
  moreover have "\<exists>ps. srv_ctx srv = (srv_ctx srv)\<lparr>published := ps\<rparr>" using same_context by blast
  ultimately show ?thesis using a rq(2) unfolding extends_queue_def by auto
qed

lemma send_reply_published: "send_reply mem ty op calls ctx = (status, ctx') \<Longrightarrow> \<exists>ps. ctx' = ctx\<lparr>published := ps\<rparr>"
  by (auto simp: send_reply_def split: prod.splits)

lemma rewrite_extends:
  assumes "handle_special_op_system_rewrite env os op srv = Some (status, w, srv')" "cq_inv (srv_queue srv)"
  shows "extends_queue req fake srv srv' \<and> \<not> w"
proof -
  have "srv_queue srv' = srv_queue srv \<and> (\<exists>ps. srv_ctx srv' = (srv_ctx srv)\<lparr>published := ps\<rparr>) \<and> \<not> w"
    using assms(1)
    by (auto simp: handle_special_op_system_rewrite_def bind_eq_Some_conv Let_def dest: send_reply_published
        intro: same_context_ex split: if_splits prod.splits)
  then show ?thesis using same_queue [OF assms(2)] by blast
qed

lemma handle_domain_system_extends:
  assumes "handle_domain_system env os req uri fake srv = Some (status, w, srv')" "cq_inv (srv_queue srv)"
  shows "extends_queue req fake srv srv'"
proof (cases "handle_domain_system_ping req uri fake (srv_rq srv)")
  case (Some res)
  then have "on_queue (\<lambda>_. res) srv = Some (status, w, srv')" using assms(1) by (simp add: handle_domain_system_def)
  moreover have "adds_op req fake (srv_rq srv) r" if "res = Some r" for r
    using handle_domain_system_ping_adds Some that assms(2) by blast
  ultimately show ?thesis using on_queue_extends [of "\<lambda>_. res"] by blast
next
  case None
  let ?srv = "srv\<lparr>srv_rq := next_tid (srv_rq srv)\<rparr>"
  have rw: "extends_queue req fake srv srv'" if "handle_special_op_system_rewrite env os (bare_of req fake (srv_rq srv)) ?srv = Some (status, w, srv')"
  proof -
    from rewrite_extends [OF that, of req fake] assms(2) have "extends_queue req fake ?srv srv'" by simp
    then show ?thesis unfolding extends_queue_def by simp
  qed
  have same: "extends_queue req fake srv srv'" if "srv_queue srv' = srv_queue srv" "srv_ctx srv' = srv_ctx srv"
    using same_queue [OF assms(2) that(1), of "published (srv_ctx srv)"] that(2) by simp
  show ?thesis using assms(1) None rw same by (auto simp: handle_domain_system_def split: if_splits)
qed

lemma api_parts_sets:
  assumes "api_parts path = Some (domain, uri_part)"
  shows "set uri_part \<subseteq> set path"
proof -
  let ?n = "length path - length json_ext"
  have u: "(domain, uri_part) = (case split_at CHR ''/'' (take ?n path) of
      Some (d, u) \<Rightarrow> (d, u) | None \<Rightarrow> (take ?n path, drop (?n + 1) path))"
    using assms by (auto simp: api_parts_def Let_def split: if_splits)
  show ?thesis
  proof (cases "split_at CHR ''/'' (take ?n path)")
    case None
    then show ?thesis using u by (auto dest: in_set_dropD)
  next
    case (Some p)
    obtain d v where p: "p = (d, v)" by (cases p)
    have "set v \<subseteq> set (take ?n path)" using split_at_Some(1) [OF Some [unfolded p]] by auto
    then show ?thesis using u Some p set_take_subset [of ?n path] by auto
  qed
qed

lemma c_str_no_zero: "0 \<notin> set (c_str s)"
  by (auto simp: c_str_def dest: set_takeWhileD)

lemma extract_opts_set:
  assumes "extract_opts s = (path, opts)"
  shows "set path \<subseteq> set s"
proof (cases "split_at CHR ''?'' s")
  case None
  then show ?thesis using assms by (simp add: extract_opts_def)
next
  case (Some p)
  obtain a b where p: "p = (a, b)" by (cases p)
  have "s = a @ chr CHR ''?'' # b" using split_at_Some(1) [OF Some [unfolded p]] .
  then show ?thesis using assms Some p by (auto simp: extract_opts_def)
qed

lemma domain_extends:
  assumes "domain_handler env os domain = Some handler" "handler req uri opts fake srv = Some (status, w, srv')"
    and "0 \<notin> set uri" "cq_inv (srv_queue srv)"
  shows "extends_queue req fake srv srv'"
  using assms(1,2) handle_domain_system_extends [OF _ assms(4), of env os req uri fake status w srv']
    on_queue_extends [of _ srv status w srv' req fake]
    handle_domain_records_adds [OF _ assms(3,4)] handle_domain_search_adds [OF _ assms(3,4)] handle_domain_layers_adds [OF _ assms(3,4)]
  by (auto simp: domain_handler_def split: if_splits)

lemma send_error_extends: "extends_queue req fake srv srv' \<Longrightarrow> extends_queue req fake srv (send_error req' fake' status srv')"
  by (simp add: extends_queue_def send_error_def)

lemma log_request_extends: "log_request verb uri input srv' = Some srv'' \<Longrightarrow> extends_queue req fake srv srv' \<Longrightarrow> extends_queue req fake srv srv''"
  by (auto simp: log_request_def extends_queue_def bind_eq_Some_conv)

lemma process_api_request_extends:
  assumes "process_api_request env os uri req fake srv = Some (ret, srv')" "cq_inv (srv_queue srv)"
  shows "extends_queue req fake srv srv'"
proof -
  obtain path opts where p: "extract_opts (c_str (evhttp_decode_uri False (drop (length encoded_api_base_uri) uri))) = (path, opts)"
    by fastforce
  have z: "0 \<notin> set path" using extract_opts_set [OF p] c_str_no_zero by blast
  have refl: "extends_queue req fake srv srv" using same_queue [OF assms(2) refl same_context] .
  note run = assms(1) [unfolded process_api_request_def Let_def p prod.case]
  show ?thesis
  proof (cases "api_parts path")
    case None
    then show ?thesis using run send_error_extends [OF refl] by auto
  next
    case (Some d)
    obtain domain uri_part where d: "d = (domain, uri_part)" by (cases d)
    have z': "0 \<notin> set uri_part" using api_parts_sets [OF Some [unfolded d]] z by blast
    show ?thesis
    proof (cases "domain_handler env os domain")
      case None
      then show ?thesis using run Some d send_error_extends [OF refl] by auto
    next
      case h: (Some handler)
      then obtain status w srv1 where s: "handler req uri_part opts fake srv = Some (status, w, srv1)"
        using run Some d by (auto simp: bind_eq_Some_conv)
      have e: "extends_queue req fake srv srv1" by (rule domain_extends [OF h s z' assms(2)])
      then show ?thesis using run Some d h s
        by (auto simp: bind_eq_Some_conv split: if_splits intro: send_error_extends log_request_extends)
    qed
  qed
qed

lemma get_pan_db_keeps: "get_pan_db_by_layer_name mem cfg name False ctx = Some (status, p, ctx') \<Longrightarrow> ctx' = ctx"
  by (auto simp: get_pan_db_by_layer_name_def bind_eq_Some_conv split: option.splits)

lemma handle_public_request_keeps: "handle_public_request mem cfg uri req ctx = Some (ret, reply, ctx') \<Longrightarrow> ctx' = ctx"
proof (cases "\<exists>layer sep. split_at CHR ''/'' uri = Some (layer, sep) \<and> req_type req = EVHTTP_REQ_GET")
  case False
  assume "handle_public_request mem cfg uri req ctx = Some (ret, reply, ctx')"
  then show ?thesis using False by (auto simp: handle_public_request_def split: if_splits option.split_asm)
next
  case True
  assume h: "handle_public_request mem cfg uri req ctx = Some (ret, reply, ctx')"
  from True obtain layer sep where u: "split_at CHR ''/'' uri = Some (layer, sep)" "req_type req = EVHTTP_REQ_GET" by blast
  note run = h [unfolded handle_public_request_def u option.case prod.case, simplified]
  from run obtain x where x: "request_key mem layer = Some x" by (auto simp: bind_eq_Some_conv)
  show ?thesis
  proof (cases "x = None \<or> sep = [] \<or> request_key mem sep = Some None")
    case True
    then show ?thesis using run x by (cases x) (auto split: if_splits)
  next
    case False
    then obtain name where n: "x = Some name" by (cases x) auto
    obtain key where k: "request_key mem sep = Some (Some key)"
      using run x n False by (auto simp: bind_eq_Some_conv split: option.split_asm)
    obtain status pdb ctx1 where g: "get_pan_db_by_layer_name mem cfg (butlast name) False ctx = Some (status, pdb, ctx1)"
      using run x n k False by (auto simp: bind_eq_Some_conv)
    then have "ctx1 = ctx" by (rule get_pan_db_keeps)
    then show ?thesis using run x n k g False
      by (auto simp: bind_eq_Some_conv split: if_splits option.split_asm)
  qed
qed

lemma process_request_extends:
  assumes "process_request env os uri req fake srv = Some (ret, srv')" "cq_inv (srv_queue srv)"
  shows "extends_queue req fake srv srv'"
proof -
  have refl: "extends_queue req fake srv srv" using same_queue [OF assms(2) refl same_context] .
  have pub: "extends_queue req fake srv srv'" if "process_public_request env uri req srv = Some (ret, srv')"
    using that refl
    by (auto simp: process_public_request_def extends_queue_def bind_eq_Some_conv Let_def dest!: handle_public_request_keeps split: prod.splits)
  show ?thesis
    using assms process_api_request_extends pub send_error_extends [OF refl]
    by (auto simp: process_request_def bind_eq_Some_conv split: if_splits)
qed

section \<open>Steps\<close>

text \<open>
  The server with its workers, each idle or with the operation it took, and, for the statements, what happened so far: the
  operations that were accepted and those that were executed, in order, the requests for operations that write
  (method, URI and body), whether the timer ever found an expired record, and what the calls of time returned.
\<close>

record system =
  sys_server :: server
  sys_workers :: "operation option list"
  sys_accepted :: "operation list"
  sys_executed :: "operation list"
  sys_writes :: "(nat \<times> bytes \<times> bytes) list"
  sys_purged :: bool
  sys_clocks :: "int list"

definition newly_queued :: "server \<Rightarrow> server \<Rightarrow> operation list" where
  "newly_queued srv srv' = drop (length (cq_list (srv_queue srv))) (cq_list (srv_queue srv'))"

text \<open>
  One step. A request of a client has an address, and its URI is a C string. A rewrite waits for the workers to finish (stop_workers); the mutex of
  the queue makes taking an operation one step, and the lock of the layers makes its execution one.
\<close>

inductive system_step :: "environment \<Rightarrow> os_answers \<Rightarrow> system \<Rightarrow> system \<Rightarrow> bool" for env os where
  Request: "process_request env os uri req False (sys_server s) = Some (ret, srv') \<Longrightarrow> req_id req \<noteq> 0 \<Longrightarrow> 0 \<notin> set uri \<Longrightarrow>
    (srv_rewrite_process srv' = srv_rewrite_process (sys_server s) \<or> srv_rewrite_process srv' = - 1) \<and>
      srv_should_exit srv' = srv_should_exit (sys_server s) \<or> set (sys_workers s) \<subseteq> {None} \<Longrightarrow>
    system_step env os s
      (s\<lparr>sys_server := srv', sys_accepted := sys_accepted s @ newly_queued (sys_server s) srv',
         sys_writes := sys_writes s @ map (\<lambda>_. (req_type req, uri, req_input req)) (filter is_write (newly_queued (sys_server s) srv'))\<rparr>)"
| Take: "w < length (sys_workers s) \<Longrightarrow> sys_workers s ! w = None \<Longrightarrow>
    take_op (srv_should_exit (sys_server s)) (srv_rq (sys_server s)) = Some (Took op, rq) \<Longrightarrow>
    system_step env os s
      (s\<lparr>sys_server := (sys_server s)\<lparr>srv_rq := rq\<rparr>, sys_workers := (sys_workers s)[w := Some op]\<rparr>)"
| Execute: "w < length (sys_workers s) \<Longrightarrow> sys_workers s ! w = Some op \<Longrightarrow>
    execute_op env op (srv_ctx (sys_server s)) = Some ctx \<Longrightarrow>
    system_step env os s
      (s\<lparr>sys_server := (sys_server s)\<lparr>srv_ctx := ctx\<rparr>, sys_workers := (sys_workers s)[w := None],
         sys_executed := sys_executed s @ [op]\<rparr>)"
| Cron: "expiration_cron env t (sys_server s) = Some srv' \<Longrightarrow>
    system_step env os s
      (s\<lparr>sys_server := srv',
         sys_purged := (sys_purged s \<or> has_expired_keys ((srv_ctx (sys_server s))\<lparr>now := t\<rparr>) \<noteq> Some False),
         sys_clocks := sys_clocks s @ [t]\<rparr>)"
| Flush: "flush_log_db (sys_server s) = Some srv' \<Longrightarrow> system_step env os s (s\<lparr>sys_server := srv'\<rparr>)"
| Reply: "system_step env os s (s\<lparr>sys_server := consumer_cb evb_mem (sys_server s)\<rparr>)"

inductive_cases system_stepE: "system_step env os s s'"

definition fresh_server :: "int \<Rightarrow> db_log \<Rightarrow> write_answers \<Rightarrow> operation cqueue \<Rightarrow> server" where
  "fresh_server t journal as q =
     \<lparr>srv_ctx = init_context t, srv_rq = \<lparr>rq_op_tid = 0, rq_cqueue = q\<rparr>, srv_should_exit = False, srv_log = journal,
      srv_writes = as, srv_sent = [], srv_loopexit = False, srv_rewrite_process = - 1, srv_offset_before_fork = - 1\<rparr>"

definition start_system :: "nat \<Rightarrow> server \<Rightarrow> system" where
  "start_system nb_workers srv =
     \<lparr>sys_server = srv, sys_workers = replicate nb_workers None, sys_accepted = [], sys_executed = [],
      sys_writes = [], sys_purged = False, sys_clocks = [now (srv_ctx srv)]\<rparr>"

inductive runs :: "environment \<Rightarrow> os_answers \<Rightarrow> system \<Rightarrow> system \<Rightarrow> bool" for env os where
  runs_refl: "runs env os s s"
| runs_step: "runs env os s s' \<Longrightarrow> system_step env os s' s'' \<Longrightarrow> runs env os s s''"

section \<open>Nothing is lost\<close>

definition in_hands :: "system \<Rightarrow> operation list" where
  "in_hands s = concat (map (\<lambda>w. case w of None \<Rightarrow> [] | Some op \<Rightarrow> [op]) (sys_workers s))"

definition pending_ok :: "operation \<Rightarrow> bool" where
  "pending_ok op = (op_ok op \<and> op_req (bare op) \<noteq> 0 \<and> \<not> fake_req (bare op))"

definition sys_inv :: "system \<Rightarrow> bool" where
  "sys_inv s =
     (cq_inv (srv_queue (sys_server s)) \<and>
      (\<forall>op \<in> set (sys_accepted s). pending_ok op) \<and>
      mset (sys_accepted s) = mset (sys_executed s) + mset (in_hands s) + mset (cq_list (srv_queue (sys_server s))) \<and>
      (length (sys_workers s) = 1 \<longrightarrow> sys_accepted s = sys_executed s @ in_hands s @ cq_list (srv_queue (sys_server s))))"

lemma in_hands_update:
  assumes "w < length (sys_workers s)"
  obtains xs ys where "in_hands s = xs @ (case sys_workers s ! w of None \<Rightarrow> [] | Some op \<Rightarrow> [op]) @ ys"
    "\<And>x. in_hands (s\<lparr>sys_workers := (sys_workers s)[w := x]\<rparr>) = xs @ (case x of None \<Rightarrow> [] | Some op \<Rightarrow> [op]) @ ys"
    "length (sys_workers s) = 1 \<Longrightarrow> xs = [] \<and> ys = []"
proof -
  let ?f = "\<lambda>w. case w of None \<Rightarrow> [] | Some op \<Rightarrow> [op]"
  let ?xs = "concat (map ?f (take w (sys_workers s)))" and ?ys = "concat (map ?f (drop (Suc w) (sys_workers s)))"
  have "in_hands s = ?xs @ ?f (sys_workers s ! w) @ ?ys"
    unfolding in_hands_def by (subst id_take_nth_drop [OF assms]) simp
  moreover have "in_hands (s\<lparr>sys_workers := (sys_workers s)[w := x]\<rparr>) = ?xs @ ?f x @ ?ys" for x
    unfolding in_hands_def by (simp add: upd_conv_take_nth_drop [OF assms])
  moreover have "?xs = [] \<and> ?ys = []" if "length (sys_workers s) = 1" using assms that by simp
  ultimately show thesis by (rule that)
qed

lemma queue_unchanged:
  assumes "sys_inv s" "srv_queue srv' = srv_queue (sys_server s)"
  shows "sys_inv (s\<lparr>sys_server := srv'\<rparr>)" "sys_inv (s\<lparr>sys_server := srv', sys_purged := p, sys_clocks := cs\<rparr>)"
  using assms by (simp_all add: sys_inv_def in_hands_def)

lemma take_op_Took:
  assumes "take_op e rq = Some (Took op, rq')" "cq_inv (rq_cqueue rq)"
  shows "\<not> e \<and> cq_inv (rq_cqueue rq') \<and> cq_list (rq_cqueue rq) = op # cq_list (rq_cqueue rq') \<and>
    cq_capacity (rq_cqueue rq') = cq_capacity (rq_cqueue rq) \<and> rq_op_tid rq' = rq_op_tid rq"
  using cq.shift_cases [OF assms(2)] assms(1)
  by (cases rule: cq.shift_cases [OF assms(2)]) (auto simp: take_op_def split: if_splits)

lemma system_step_inv:
  assumes "system_step env os s s'" "sys_inv s"
  shows "sys_inv s' \<and> length (sys_workers s') = length (sys_workers s)"
  using assms(1)
proof (cases rule: system_step.cases)
  case (Request uri req ret srv')
  have inv: "cq_inv (srv_queue (sys_server s))" using assms(2) by (simp add: sys_inv_def)
  from process_request_extends [OF Request(2) inv] obtain ops where
    ops: "cq_inv (srv_queue srv')" "cq_list (srv_queue srv') = cq_list (srv_queue (sys_server s)) @ ops"
    "\<forall>op \<in> set ops. pending_ok op"
    using Request(3) unfolding extends_queue_def pending_ok_def by auto
  have "newly_queued (sys_server s) srv' = ops" using ops(2) by (simp add: newly_queued_def)
  then show ?thesis using assms(2) ops unfolding Request(1) sys_inv_def by (auto simp: in_hands_def)
next
  case (Take w op rq)
  have inv: "cq_inv (srv_queue (sys_server s))" using assms(2) by (simp add: sys_inv_def)
  note t = take_op_Took [OF Take(4) inv]
  obtain xs ys where h: "in_hands s = xs @ (case sys_workers s ! w of None \<Rightarrow> [] | Some op \<Rightarrow> [op]) @ ys"
    "in_hands (s\<lparr>sys_workers := (sys_workers s)[w := Some op]\<rparr>) = xs @ [op] @ ys" "length (sys_workers s) = 1 \<Longrightarrow> xs = [] \<and> ys = []"
    by (rule in_hands_update [OF Take(2)]) (metis option.simps(5))
  have "in_hands s' = xs @ [op] @ ys" using h(2) unfolding Take(1) by (simp add: in_hands_def)
  then show ?thesis using assms(2) t h(1,3) Take(3) unfolding sys_inv_def by (auto simp: Take(1))
next
  case (Execute w op ctx)
  obtain xs ys where h: "in_hands s = xs @ (case sys_workers s ! w of None \<Rightarrow> [] | Some op \<Rightarrow> [op]) @ ys"
    "in_hands (s\<lparr>sys_workers := (sys_workers s)[w := None]\<rparr>) = xs @ [] @ ys" "length (sys_workers s) = 1 \<Longrightarrow> xs = [] \<and> ys = []"
    by (rule in_hands_update [OF Execute(2)]) (metis option.simps(4))
  have "in_hands s' = xs @ ys" using h(2) unfolding Execute(1) by (simp add: in_hands_def)
  then show ?thesis using assms(2) h(1,3) Execute(3) unfolding sys_inv_def by (auto simp: Execute(1))
next
  case (Cron t srv')
  have "srv_queue srv' = srv_queue (sys_server s)"
    using Cron(2) by (auto simp: expiration_cron_def Let_def bind_eq_Some_conv split: if_splits)
  then show ?thesis using queue_unchanged [OF assms(2)] Cron(1) by simp
next
  case (Flush srv')
  have "srv_queue srv' = srv_queue (sys_server s)" using Flush(2) by (auto simp: flush_log_db_def bind_eq_Some_conv)
  then show ?thesis using queue_unchanged [OF assms(2)] Flush(1) by simp
next
  case (Reply evb_mem)
  then show ?thesis using queue_unchanged [OF assms(2)] by (simp add: consumer_cb_def)
qed

lemma start_system_inv:
  assumes "cq_inv (srv_queue srv)" "cq_list (srv_queue srv) = []"
  shows "sys_inv (start_system n srv)"
proof -
  have "concat (map (\<lambda>w. case w of None \<Rightarrow> [] | Some op \<Rightarrow> [op]) (replicate n None)) = []" for n by (induction n) auto
  then show ?thesis using assms by (simp add: sys_inv_def start_system_def in_hands_def)
qed

lemma runs_inv: "runs env os s s' \<Longrightarrow> sys_inv s \<Longrightarrow> sys_inv s' \<and> length (sys_workers s') = length (sys_workers s)"
  by (induction rule: runs.induct) (auto dest: system_step_inv)

section \<open>Properties\<close>

text \<open>
  C4: no accepted operation is lost or executed twice. However the requests, the workers, the timers and the replies
  interleave, the operations that were accepted are those that were executed, those that workers hold and those in the
  queue; all of them are well formed; and a single worker executes them in the order in which they were accepted.
\<close>

theorem operations_executed_once:
  assumes "runs env os (start_system nb_workers (fresh_server t journal as q)) s" "init_cqueue malloc_ok n sz = Inr q"
  shows "mset (sys_accepted s) = mset (sys_executed s) + mset (in_hands s) + mset (cq_list (srv_queue (sys_server s))) \<and>
    (\<forall>op \<in> set (sys_accepted s). op_ok op) \<and>
    (nb_workers = 1 \<longrightarrow> sys_accepted s = sys_executed s @ in_hands s @ cq_list (srv_queue (sys_server s)))"
proof -
  have "sys_inv (start_system nb_workers (fresh_server t journal as q))"
    by (rule start_system_inv) (simp_all add: fresh_server_def init_cqueue_inv [OF assms(2)])
  from runs_inv [OF assms(1) this] show ?thesis by (simp add: sys_inv_def pending_ok_def start_system_def)
qed

section \<open>Witness\<close>

definition ping_uri :: bytes where "ping_uri = bytes_of ''/api/1.0/system/ping.json''"

definition sample_env :: "libm \<Rightarrow> environment" where
  "sample_env m = \<lparr>env_libm = m, env_memory = sample_mem, env_defaults = sample_cfg\<rparr>"

lemma ping_path: "drop (length encoded_api_base_uri) ping_uri = bytes_of ''system/ping.json''"
  "take (length encoded_api_base_uri) ping_uri = encoded_api_base_uri" "0 \<notin> set ping_uri" "plain_uri (bytes_of ''system/ping.json'')"
  by (simp_all add: ping_uri_def encoded_api_base_uri_def bytes_of_def plain_uri_def)

lemma ping_parts:
  "api_parts (bytes_of ''system/ping.json'') = Some (bytes_of ''system'', bytes_of ''ping'')"
  by (simp add: api_parts_def json_ext_def bytes_of_def MAX_URI_LEN_def strcasecmp_eq_def tolower_def split_at_def until_def Let_def)

lemma ping_domain:
  "\<not> strcasecmp_eq (bytes_of ''system'') ''records''" "\<not> strcasecmp_eq (bytes_of ''system'') ''search''"
  "\<not> strcasecmp_eq (bytes_of ''system'') ''layers''" "strcasecmp_eq (bytes_of ''system'') ''system''"
  "strcasecmp_eq (bytes_of ''ping'') ''ping''"
  by (simp_all add: strcasecmp_eq_def bytes_of_def tolower_def)

lemma ping_request:
  assumes "queue_op (Ping_Op (bare_of req fake (srv_rq srv))) False (next_tid (srv_rq srv)) = Some (0, False, rq)"
  shows "process_request env os ping_uri req fake srv = Some (0, srv\<lparr>srv_rq := rq\<rparr>)"
  using assms by (simp add: process_request_def process_api_request_def ping_path ping_parts ping_domain plain_parts domain_handler_def handle_domain_system_def
      handle_domain_system_ping_def on_queue_def)

theorem operations_executed_once_witness:
  "\<forall>m os t journal as. \<exists>q s b. init_cqueue True 16 8 = Inr q \<and>
     runs (sample_env m) os (start_system 1 (fresh_server t journal as q)) s \<and>
     sys_accepted s = [Ping_Op b] \<and> sys_executed s = [Ping_Op b] \<and>
     mset (sys_accepted s) = mset (sys_executed s) + mset (in_hands s) + mset (cq_list (srv_queue (sys_server s)))"
proof (intro allI)
  fix m os t journal as
  obtain q :: "operation cqueue" where q: "init_cqueue True 16 8 = Inr q" "cq_inv q" "cq_list q = []" "cq_capacity q = 16"
    by (rule empty_queue)
  let ?s0 = "start_system 1 (fresh_server t journal as q)" and ?req = "\<lparr>req_id = 1, req_type = EVHTTP_REQ_GET, req_input = []\<rparr>"
  let ?rq = "srv_rq (sys_server ?s0)" and ?b = "bare_of ?req False (srv_rq (fresh_server t journal as q))"
  have inv: "cq_inv (rq_cqueue (next_tid ?rq))" "length (cq_list (rq_cqueue (next_tid ?rq))) < cq_capacity (rq_cqueue (next_tid ?rq))"
    by (simp_all add: start_system_def fresh_server_def next_tid_def q)
  obtain q' where q': "queue_op (Ping_Op ?b) False (next_tid ?rq) = Some (0, False, (next_tid ?rq)\<lparr>rq_cqueue := q'\<rparr>)"
    "cq_inv q'" "cq_list q' = [Ping_Op ?b]"
    using queue_op_room [OF inv, of "Ping_Op ?b" False] q(3) by (auto simp: start_system_def fresh_server_def next_tid_def)
  let ?srv1 = "(fresh_server t journal as q)\<lparr>srv_rq := (next_tid ?rq)\<lparr>rq_cqueue := q'\<rparr>\<rparr>"
  have "process_request (sample_env m) os ping_uri ?req False (sys_server ?s0) = Some (0, ?srv1)"
    using ping_request [of ?req False "fresh_server t journal as q"] q'(1) by (simp add: start_system_def)
  note step1 = system_step.Request [OF this]
  have new: "newly_queued (sys_server ?s0) ?srv1 = [Ping_Op ?b]"
    using q'(3) q(3) by (simp add: newly_queued_def start_system_def fresh_server_def)
  define s1 where "s1 = ?s0\<lparr>sys_server := ?srv1, sys_accepted := [Ping_Op ?b]\<rparr>"
  have s1: "system_step (sample_env m) os ?s0 s1"
    using step1 new ping_path(3) by (simp add: s1_def start_system_def fresh_server_def)
  obtain q2 where sh: "shift_cqueue q' = Some (Some (Ping_Op ?b), q2)" "cq_list q2 = []"
    by (cases rule: cq.shift_cases [OF q'(2)]) (use q'(3) in auto)
  define s2 where "s2 = s1\<lparr>sys_server := (sys_server s1)\<lparr>srv_rq := (srv_rq (sys_server s1))\<lparr>rq_cqueue := q2\<rparr>\<rparr>, sys_workers := [Some (Ping_Op ?b)]\<rparr>"
  have s2: "system_step (sample_env m) os s1 s2"
    using system_step.Take [of 0 s1 "Ping_Op ?b" "(srv_rq (sys_server s1))\<lparr>rq_cqueue := q2\<rparr>" "sample_env m" os] sh(1)
    by (simp add: s2_def s1_def start_system_def fresh_server_def take_op_def bare_of_def)
  have "execute_op (sample_env m) (Ping_Op ?b) (srv_ctx (sys_server s2)) \<noteq> None"
    by (simp add: execute_op_def handle_op_system_ping_def split: prod.splits)
  then obtain ctx where e: "execute_op (sample_env m) (Ping_Op ?b) (srv_ctx (sys_server s2)) = Some ctx" by blast
  define s3 where "s3 = s2\<lparr>sys_server := (sys_server s2)\<lparr>srv_ctx := ctx\<rparr>, sys_workers := [None], sys_executed := [Ping_Op ?b]\<rparr>"
  have s3: "system_step (sample_env m) os s2 s3"
    using system_step.Execute [of 0 s2 "Ping_Op ?b" "sample_env m" ctx os] e by (simp add: s3_def s2_def s1_def start_system_def)
  have run: "runs (sample_env m) os ?s0 s3" using runs_step [OF runs_step [OF runs_step [OF runs_refl s1] s2] s3] .
  have "mset (sys_accepted s3) = mset (sys_executed s3) + mset (in_hands s3) + mset (cq_list (srv_queue (sys_server s3)))"
    using operations_executed_once [OF run q(1)] by blast
  then show "\<exists>q s b. init_cqueue True 16 8 = Inr q \<and>
     runs (sample_env m) os (start_system 1 (fresh_server t journal as q)) s \<and>
     sys_accepted s = [Ping_Op b] \<and> sys_executed s = [Ping_Op b] \<and>
     mset (sys_accepted s) = mset (sys_executed s) + mset (in_hands s) + mset (cq_list (srv_queue (sys_server s)))"
    using q(1) run by (intro exI [of _ q] exI [of _ s3] exI [of _ ?b]) (simp add: s3_def s2_def s1_def)
qed
end
