(* ===== verification/Replayed_Ops.thy ===== *)
theory Replayed_Ops
  imports Server_Runs
begin

text \<open>
  The journal and the database together: a server that is started again on the journal of an earlier one has the
  same database. This holds for a single worker; the lemmas say that a replayed request makes the same operation, that the
  operations that write do not depend on who asked for them or on the replies, and that the others change nothing.
\<close>

section \<open>Operations without their requester\<close>

definition fake_bare :: bare_op where
  "fake_bare = \<lparr>op_req = fake_req_at, fake_req = True, op_tid = 0\<rparr>"

fun rebare :: "bare_op \<Rightarrow> operation \<Rightarrow> operation" where
  "rebare b (Ping_Op _) = Ping_Op b"
| "rebare b (Layers_Create_Op _ name) = Layers_Create_Op b name"
| "rebare b (Layers_Delete_Op _ name) = Layers_Delete_Op b name"
| "rebare b (Layers_Index_Op _) = Layers_Index_Op b"
| "rebare b (Records_Put_Op op) = Records_Put_Op (op\<lparr>put_bare := b\<rparr>)"
| "rebare b (Records_Get_Op op) = Records_Get_Op (op\<lparr>get_bare := b\<rparr>)"
| "rebare b (Records_Delete_Op op) = Records_Delete_Op (op\<lparr>delete_bare := b\<rparr>)"
| "rebare b (Search_Nearby_Op op) = Search_Nearby_Op (op\<lparr>near_bare := b\<rparr>)"
| "rebare b (Search_In_Rect_Op op) = Search_In_Rect_Op (op\<lparr>rect_bare := b\<rparr>)"
| "rebare b (Search_In_Keys_Op op) = Search_In_Keys_Op (op\<lparr>keys_bare := b\<rparr>)"

text \<open>The database: the context without the time and the replies that wait; and with others.\<close>

definition with_clock :: "int \<Rightarrow> op_reply list \<Rightarrow> http_context \<Rightarrow> http_context" where
  "with_clock t ps ctx = ctx\<lparr>now := t, published := ps\<rparr>"

definition db_of :: "http_context \<Rightarrow> http_context" where
  "db_of ctx = with_clock 0 [] ctx"

lemma with_clock_simps [simp]:
  "layers_slab (with_clock t ps ctx) = layers_slab ctx" "nb_layers (with_clock t ps ctx) = nb_layers ctx"
  "expirables_slab (with_clock t ps ctx) = expirables_slab ctx" "with_clock t ps (with_clock t' ps' ctx) = with_clock t ps ctx"
  "with_clock t ps (ctx\<lparr>published := ps'\<rparr>) = with_clock t ps ctx" "with_clock t ps (ctx\<lparr>now := t'\<rparr>) = with_clock t ps ctx"
  "now (with_clock t ps ctx) = t" "published (with_clock t ps ctx) = ps"
  by (simp_all add: with_clock_def)

lemma with_clock_update [simp]:
  "with_clock t ps (ctx\<lparr>layers_slab := sl\<rparr>) = (with_clock t ps ctx)\<lparr>layers_slab := sl\<rparr>"
  "with_clock t ps (ctx\<lparr>nb_layers := n\<rparr>) = (with_clock t ps ctx)\<lparr>nb_layers := n\<rparr>"
  "with_clock t ps (ctx\<lparr>expirables_slab := exps\<rparr>) = (with_clock t ps ctx)\<lparr>expirables_slab := exps\<rparr>"
  by (simp_all add: with_clock_def)

lemma db_of_simps [simp]:
  "db_of (with_clock t ps ctx) = db_of ctx" "with_clock t ps (db_of ctx) = with_clock t ps ctx"
  "db_of (db_of ctx) = db_of ctx" "db_of (ctx\<lparr>published := ps\<rparr>) = db_of ctx" "db_of (ctx\<lparr>now := t\<rparr>) = db_of ctx"
  by (simp_all add: db_of_def)

lemma same_db: "db_of ctx = db_of ctx' \<Longrightarrow> ctx' = with_clock (now ctx') (published ctx') ctx"
  by (cases ctx, cases ctx') (simp add: db_of_def with_clock_def)

lemma find_layer_with_clock [simp]: "find_layer name (with_clock t ps ctx) = find_layer name ctx"
  by (simp add: find_layer_def)

lemma register_with_clock:
  "register_new_layer mem cfg name ctx = Some (l, ctx') \<Longrightarrow> register_new_layer mem cfg name (with_clock t ps ctx) = Some (l, with_clock t ps ctx')"
proof -
  assume r: "register_new_layer mem cfg name ctx = Some (l, ctx')"
  show ?thesis
  proof (cases "name = [] \<or> \<not> name_mem mem")
    case True
    then show ?thesis using r by (auto simp: register_new_layer_def split: if_splits)
  next
    case False
    then obtain db a sl where "init_pan_db cfg (node_mem mem) = Some db"
      "add_entry_to_slab (layer_chunk mem (layers_slab ctx)) \<lparr>layer_name = name, layer_db = db\<rparr> (layers_slab ctx) = Some (a, sl)"
      using r by (auto simp: register_new_layer_def bind_eq_Some_conv)
    then show ?thesis using r False by (cases a) (auto simp: register_new_layer_def)
  qed
qed

lemma get_pan_db_with_clock:
  "get_pan_db_by_layer_name mem cfg name create ctx = Some (status, l, ctx') \<Longrightarrow>
   get_pan_db_by_layer_name mem cfg name create (with_clock t ps ctx) = Some (status, l, with_clock t ps ctx')"
proof -
  assume g: "get_pan_db_by_layer_name mem cfg name create ctx = Some (status, l, ctx')"
  then obtain found where f: "find_layer name ctx = Some found" by (auto simp: get_pan_db_by_layer_name_def bind_eq_Some_conv)
  show ?thesis
  proof (cases "found = None \<and> create")
    case False
    then show ?thesis using g f by (cases found) (auto simp: get_pan_db_by_layer_name_def)
  next
    case True
    then obtain r ctx1 where r: "register_new_layer mem cfg name ctx = Some (r, ctx1)"
      using g f by (auto simp: get_pan_db_by_layer_name_def bind_eq_Some_conv)
    then show ?thesis using g f True register_with_clock [OF r] by (cases r) (auto simp: get_pan_db_by_layer_name_def)
  qed
qed

lemma send_reply_fake [simp]: "fake_req b \<Longrightarrow> send_reply mem ty b calls ctx = (0, ctx)"
  by (simp add: send_reply_def reply_op_def)

lemma send_reply_with_clock: "send_reply mem ty op calls ctx = (status, ctx') \<Longrightarrow> with_clock t ps ctx' = with_clock t ps ctx"
  using send_reply_published by fastforce

lemma create_with_clock:
  assumes "handle_op_layers_create mem cfg op name ctx = Some (r, ctx')" "fake_req b"
  shows "\<exists>r'. handle_op_layers_create mem cfg b name (with_clock t ps ctx) = Some (r', with_clock t ps ctx')"
proof -
  obtain status l ctx1 where g: "get_pan_db_by_layer_name mem cfg name True ctx = Some (status, l, ctx1)"
    using assms by (auto simp: handle_op_layers_create_def bind_eq_Some_conv)
  then have "l \<noteq> None \<or> status < 0" "with_clock t ps ctx' = with_clock t ps ctx1"
    using assms by (auto simp: handle_op_layers_create_def bind_eq_Some_conv dest!: send_reply_with_clock)
  then show ?thesis using get_pan_db_with_clock [OF g] assms(2) by (auto simp: handle_op_layers_create_def)
qed

lemma delete_layer_with_clock:
  assumes "delete_layer_by_layer_name name ctx = Some (status, ctx')"
  shows "delete_layer_by_layer_name name (with_clock t ps ctx) = Some (status, with_clock t ps ctx')"
proof -
  obtain found where f: "find_layer name ctx = Some found" using assms by (auto simp: delete_layer_by_layer_name_def bind_eq_Some_conv)
  show ?thesis
  proof (cases found)
    case None
    then show ?thesis using assms f by (auto simp: delete_layer_by_layer_name_def)
  next
    case (Some a)
    then obtain layer exps ret sl where "slab_contents (layers_slab ctx) a = Some layer"
      "free_pan_db (expirables_slab ctx) (layer_db layer) = Some exps" "nb_layers ctx > 0"
      "remove_entry_from_slab a (layers_slab ctx) = Some (ret, sl)"
      using assms f by (cases a) (auto simp: delete_layer_by_layer_name_def bind_eq_Some_conv)
    then show ?thesis using assms f Some by (cases a) (auto simp: delete_layer_by_layer_name_def)
  qed
qed

lemma delete_with_clock:
  assumes "handle_op_layers_delete mem op name ctx = Some (r, ctx')" "fake_req b"
  shows "\<exists>r'. handle_op_layers_delete mem b name (with_clock t ps ctx) = Some (r', with_clock t ps ctx')"
proof -
  obtain status ctx1 where d: "delete_layer_by_layer_name name ctx = Some (status, ctx1)"
    using assms by (auto simp: handle_op_layers_delete_def bind_eq_Some_conv)
  have "with_clock t ps ctx' = with_clock t ps ctx1"
    using assms d by (auto simp: handle_op_layers_delete_def split: if_splits dest!: send_reply_with_clock)
  then show ?thesis using delete_layer_with_clock [OF d] assms(2) by (simp add: handle_op_layers_delete_def)
qed

lemma on_layer_with_clock: "on_layer f l ctx = Some (r, ctx') \<Longrightarrow> on_layer f l (with_clock t ps ctx) = Some (r, with_clock t ps ctx')"
  by (auto simp: on_layer_def bind_eq_Some_conv)

lemma record_op_with_clock:
  assumes "handle_record_op mem cfg name f ty op d ctx = Some (r, ctx')" "fake_req b"
  shows "\<exists>r'. handle_record_op mem cfg name f ty b d (with_clock t ps ctx) = Some (r', with_clock t ps ctx')"
proof -
  obtain status l ctx1 where g: "get_pan_db_by_layer_name mem cfg name False ctx = Some (status, l, ctx1)"
    using assms by (auto simp: handle_record_op_def bind_eq_Some_conv)
  note g' = get_pan_db_with_clock [OF g]
  show ?thesis
  proof (cases "status < 0")
    case True
    then show ?thesis using assms g g' by (auto simp: handle_record_op_def)
  next
    case False
    then obtain a ret ctx2 where o: "l = Some a" "on_layer f a ctx1 = Some (ret, ctx2)"
      using assms g by (auto simp: handle_record_op_def bind_eq_Some_conv)
    have "with_clock t ps ctx' = with_clock t ps ctx2"
      using assms g o False by (auto simp: handle_record_op_def split: if_splits dest!: send_reply_with_clock)
    then show ?thesis using g' on_layer_with_clock [OF o(2)] o(1) False assms(2) by (auto simp: handle_record_op_def)
  qed
qed

lemma put_record_rebare [simp]: "put_record mem (op\<lparr>put_bare := b\<rparr>) = put_record mem op"
proof -
  have "put_slot mem (op\<lparr>put_bare := b\<rparr>) = put_slot mem op" by (intro ext) (simp add: put_slot_def cong: if_cong)
  moreover have "put_node_properties mem (op\<lparr>put_bare := b\<rparr>) = put_node_properties mem op"
    by (intro ext) (simp add: put_node_properties_def)
  moreover have "put_expires_at (op\<lparr>put_bare := b\<rparr>) = put_expires_at op" "put_key (op\<lparr>put_bare := b\<rparr>) = put_key op" by simp_all
  ultimately show ?thesis by (intro ext) (simp only: put_record_def)
qed

text \<open>What an operation that writes does to the database; what the others do.\<close>

lemma run_write:
  assumes "is_write op" "run_op env op ctx = Some (r, ctx')" "fake_req b"
  shows "execute_op env (rebare b op) (with_clock t ps ctx) = Some (with_clock t ps ctx')"
proof -
  have "\<exists>r'. run_op env (rebare b op) (with_clock t ps ctx) = Some (r', with_clock t ps ctx')"
    using assms by (cases op) (auto dest: create_with_clock delete_with_clock record_op_with_clock simp: handle_op_records_put_def handle_op_records_delete_def)
  moreover have "fake_req (bare (rebare b op))" using assms(3) by (cases op) simp_all
  ultimately show ?thesis by (auto simp: execute_op_def finish_op_def)
qed

lemma run_read:
  assumes "\<not> is_write op" "run_op env op ctx = Some (r, ctx')"
  shows "\<exists>ps. ctx' = ctx\<lparr>published := ps\<rparr>"
proof (cases op)
  case (Ping_Op b)
  then show ?thesis using assms(2) by (auto simp: handle_op_system_ping_def dest: send_reply_published)
next
  case (Layers_Index_Op b)
  then show ?thesis using assms(2)
    by (auto simp: handle_op_layers_index_def bind_eq_Some_conv intro: same_context_ex dest!: send_reply_published split: if_splits)
next
  case (Records_Get_Op op)
  then show ?thesis using assms(2)
    by (auto simp: handle_op_records_get_def bind_eq_Some_conv dest!: send_reply_published get_pan_db_keeps intro: same_context_ex split: if_splits option.split_asm)
next
  case (Search_Nearby_Op op)
  then show ?thesis using assms(2)
    by (auto simp: handle_op_search_nearby_def bind_eq_Some_conv Let_def dest!: send_reply_published get_pan_db_keeps intro: same_context_ex split: if_splits option.split_asm)
next
  case (Search_In_Rect_Op op)
  then show ?thesis using assms(2)
    by (auto simp: handle_op_search_in_rect_def bind_eq_Some_conv Let_def dest!: send_reply_published get_pan_db_keeps intro: same_context_ex split: if_splits option.split_asm)
next
  case (Search_In_Keys_Op op)
  then show ?thesis using assms(2)
    by (auto simp: handle_op_search_in_keys_def bind_eq_Some_conv Let_def dest!: send_reply_published get_pan_db_keeps intro: same_context_ex split: if_splits option.split_asm)
qed (use assms(1) in simp_all)

lemma finish_published: "\<exists>ps. finish_op mem op ret ctx = ctx\<lparr>published := ps\<rparr>"
  using send_reply_published [of mem OP_TYPE_ERROR "bare op" "[gen_str ''error'', gen_str ''error'']" ctx]
  by (cases "send_reply mem OP_TYPE_ERROR (bare op) [gen_str ''error'', gen_str ''error''] ctx")
    (auto simp: finish_op_def intro: same_context_ex)

lemma finish_with_clock [simp]:
  "with_clock t ps (finish_op mem op ret ctx) = with_clock t ps ctx" "now (finish_op mem op ret ctx) = now ctx"
  using finish_published [of mem op ret ctx] by auto

lemma execute_write:
  "is_write op \<Longrightarrow> execute_op env op ctx = Some ctx' \<Longrightarrow> fake_req b \<Longrightarrow> execute_op env (rebare b op) (with_clock t ps ctx) = Some (with_clock t ps ctx')"
  by (auto simp: execute_op_def [of env op ctx] bind_eq_Some_conv dest: run_write)

lemma execute_read: "\<not> is_write op \<Longrightarrow> execute_op env op ctx = Some ctx' \<Longrightarrow> with_clock t ps ctx' = with_clock t ps ctx \<and> now ctx' = now ctx"
  by (auto simp: execute_op_def bind_eq_Some_conv dest!: run_read)

section \<open>Executing in a row\<close>

fun execute_ops :: "environment \<Rightarrow> operation list \<Rightarrow> http_context \<Rightarrow> http_context option" where
  "execute_ops env [] ctx = Some ctx"
| "execute_ops env (op # ops) ctx = do { ctx' \<leftarrow> execute_op env op ctx; execute_ops env ops ctx' }"

lemma execute_ops_append: "execute_ops env (xs @ ys) ctx = do { ctx' \<leftarrow> execute_ops env xs ctx; execute_ops env ys ctx' }"
proof (induction xs arbitrary: ctx)
  case (Cons x xs)
  then show ?case by (cases "execute_op env x ctx") simp_all
qed simp

text \<open>The operations that write, as the journal will ask for them.\<close>

definition writes_of :: "operation list \<Rightarrow> operation list" where
  "writes_of ops = map (rebare fake_bare) (filter is_write ops)"

lemma writes_of_simps [simp]:
  "writes_of [] = []" "writes_of (xs @ ys) = writes_of xs @ writes_of ys"
  "writes_of [op] = (if is_write op then [rebare fake_bare op] else [])"
  by (simp_all add: writes_of_def)

end
