(* ===== verification/Replayed_Requests.thy ===== *)
theory Replayed_Requests
  imports Replayed_Ops
begin

text \<open>
  Requests that are made twice: a request that was accepted for a change of the database asks for the same change when it is
  made again, by another client or from the journal. Only the requester and the transaction id of the operation differ.
\<close>

section \<open>The same request again\<close>

definition twin :: "request \<Rightarrow> request \<Rightarrow> bool" where
  "twin req req2 = (req_type req2 = req_type req \<and> c_str (req_input req2) = c_str (req_input req))"

text \<open>Whoever makes the request again, the handler f queues this operation for it.\<close>

definition asks_for :: "(request \<Rightarrow> bool \<Rightarrow> request_queue \<Rightarrow> domain_result) \<Rightarrow> request \<Rightarrow> operation \<Rightarrow> bool" where
  "asks_for f req op =
     (is_write op \<and> req_type req < 2 ^ 31 \<and>
      (\<forall>req2 fake2 rq2. twin req req2 \<longrightarrow> f req2 fake2 rq2 = queue_op (rebare (bare_of req2 fake2 rq2) op) True (next_tid rq2)))"

lemma queue_op_accepted:
  assumes "queue_op op w rq = Some (0, w', rq')" "cq_inv (rq_cqueue rq)"
  shows "w' = w \<and> cq_list (rq_cqueue rq') = cq_list (rq_cqueue rq) @ [op]"
proof (rule cq.push_cases [OF assms(2), of op])
  fix q' assume "push_cqueue (rq_cqueue rq) op = Some (0, q')" "cq_list q' = cq_list (rq_cqueue rq) @ [op]"
  then show ?thesis using assms(1) by (auto simp: queue_op_def)
next
  assume "push_cqueue (rq_cqueue rq) op = Some (- 1, rq_cqueue rq)"
  then show ?thesis using assms(1) by (auto simp: queue_op_def)
qed

lemma asks_forI:
  assumes "queue_op op True (next_tid rq) = Some (0, w, rq')" "cq_inv (rq_cqueue rq)" "is_write op" "req_type req < 2 ^ 31"
    and "\<And>req2 fake2 rq2. twin req req2 \<Longrightarrow> f req2 fake2 rq2 = queue_op (rebare (bare_of req2 fake2 rq2) op) True (next_tid rq2)"
  shows "\<exists>op. asks_for f req op \<and> cq_list (rq_cqueue rq') = cq_list (rq_cqueue rq) @ [op]"
  using queue_op_accepted [OF assms(1)] assms(2-5) by (intro exI [of _ op]) (simp add: asks_for_def)

lemma layers_again:
  assumes "handle_domain_layers mem req uri fake rq = Some (0, True, rq')" "cq_inv (rq_cqueue rq)"
  shows "\<exists>op. asks_for (\<lambda>req. handle_domain_layers mem req uri) req op \<and> cq_list (rq_cqueue rq') = cq_list (rq_cqueue rq) @ [op]"
proof -
  have get: "req_type req \<noteq> EVHTTP_REQ_GET"
    using assms queue_op_accepted [of "Layers_Index_Op (bare_of req fake rq)" False "next_tid rq" True rq']
    by (auto simp: handle_domain_layers_def refuse_def split: if_splits)
  then obtain name where n: "uri \<noteq> []" "request_key mem uri = Some (Some name)"
    using assms(1) by (auto simp: handle_domain_layers_def refuse_def bind_eq_Some_conv split: if_splits option.split_asm)
  show ?thesis
  proof (cases "req_type req = EVHTTP_REQ_POST")
    case True
    then have "queue_op (Layers_Create_Op (bare_of req fake rq) (butlast name)) True (next_tid rq) = Some (0, True, rq')"
      using assms(1) n get by (simp add: handle_domain_layers_def)
    then show ?thesis using assms(2) by (rule asks_forI) (use n get True in \<open>simp_all add: twin_def handle_domain_layers_def EVHTTP_REQ_POST_def\<close>)
  next
    case False
    then have d: "req_type req = EVHTTP_REQ_DELETE"
      using assms(1) get by (auto simp: handle_domain_layers_def refuse_def split: if_splits)
    then have "queue_op (Layers_Delete_Op (bare_of req fake rq) (butlast name)) True (next_tid rq) = Some (0, True, rq')"
      using assms(1) n get False by (simp add: handle_domain_layers_def)
    then show ?thesis using assms(2) by (rule asks_forI) (use n get False d in \<open>simp_all add: twin_def handle_domain_layers_def EVHTTP_REQ_DELETE_def\<close>)
  qed
qed

section \<open>Records\<close>

lemma query_parse_loop_map:
  assumes "\<And>c k v. cb (g c) k v = map_option (map_prod id g) (cb c k v)"
  shows "query_parse_loop al (Some cb) i part key val (g c) = map_option (map_prod id g) (query_parse_loop al (Some cb) i part key val c)"
proof (induction "length part" arbitrary: i part key val c rule: less_induct)
  case less
  show ?case
  proof (cases "query_parse_part (fst (al i)) (snd (al i)) part key val")
    case None
    then show ?thesis by (simp add: query_parse_loop.simps)
  next
    case (Some p)
    obtain r key' val' nxt where p: "p = (r, key', val', nxt)" by (cases p)
    note q = Some [unfolded p]
    show ?thesis
    proof (cases "r = 0 \<and> cb c (bv_bytes key') (bv_bytes val') \<noteq> None")
      case False
      then show ?thesis using q assms [of c]
        by (cases "cb c (bv_bytes key') (bv_bytes val')") (auto simp: query_parse_loop.simps)
    next
      case True
      then obtain r' c' where c: "r = 0" "cb c (bv_bytes key') (bv_bytes val') = Some (r', c')" by auto
      have g: "cb (g c) (bv_bytes key') (bv_bytes val') = Some (r', g c')" using assms [of c] c(2) by simp
      show ?thesis
      proof (cases nxt)
        case None
        then show ?thesis using q c g by (simp add: query_parse_loop.simps)
      next
        case n: (Some part')
        have "length part' < length part" by (rule query_parse_part_shorter [OF q [unfolded n]])
        from less [OF this] show ?thesis using q c g n by (subst (1 2) query_parse_loop.simps) simp
      qed
    qed
  qed
qed

lemma query_parse_map:
  assumes "\<And>c k v. cb (g c) k v = map_option (map_prod id g) (cb c k v)"
  shows "query_parse al (Some cb) query (g c) = map_option (map_prod id g) (query_parse al (Some cb) query c)"
  by (simp add: query_parse_def query_parse_loop_map [of cb g, OF assms])

abbreviation set_put_bare :: "bare_op \<Rightarrow> records_put_op \<Rightarrow> records_put_op" where
  "set_put_bare b op \<equiv> op\<lparr>put_bare := b\<rparr>"

lemma put_cb_map:
  "records_put_opt_parse_cb a (set_put_bare b op) k v = map_option (map_prod id (set_put_bare b)) (records_put_opt_parse_cb a op k v)"
proof (cases "binval_is_equal_to k ''_loc'' \<or> binval_is_equal_to k ''_expires_at''")
  case True
  then show ?thesis
    by (auto simp: records_put_opt_parse_cb_def put_read_position_def put_read_expiration_def Let_def
        split: option.split prod.split)
next
  case False
  then show ?thesis
    by (cases "length k > 0"; cases "hd k = INT_PROPERTY_COMMON_PREFIX";
        cases "store_property a (put_special_properties op) k v"; cases "store_property a (put_properties_map op) k v")
      (auto simp: records_put_opt_parse_cb_def)
qed

lemma record_path_accepted:
  assumes "record_path mem uri rq f = Some (0, w, rq')"
  obtains layer key where "f layer key = Some (0, w, rq')" "\<And>rq2 f2. record_path mem uri rq2 f2 = f2 layer key"
proof -
  obtain layer sep where s: "split_at CHR ''/'' uri = Some (layer, sep)"
    using assms by (auto simp: record_path_def refuse_def split: option.split_asm)
  then obtain name where n: "request_key mem layer = Some (Some name)" "sep \<noteq> []"
    using assms by (auto simp: record_path_def refuse_def bind_eq_Some_conv split: option.split_asm if_splits)
  then obtain key where "request_key mem sep = Some (Some key)"
    using assms s by (auto simp: record_path_def refuse_def bind_eq_Some_conv split: option.split_asm if_splits)
  then show thesis using that [of "butlast name" key] assms s n by (simp add: record_path_def)
qed

lemma records_again:
  assumes "handle_domain_records mem req uri opts fake rq = Some (0, True, rq')" "cq_inv (rq_cqueue rq)"
  shows "\<exists>op. asks_for (\<lambda>req. handle_domain_records mem req uri opts) req op \<and> cq_list (rq_cqueue rq') = cq_list (rq_cqueue rq) @ [op]"
proof -
  have neq: "EVHTTP_REQ_DELETE \<noteq> EVHTTP_REQ_PUT" "EVHTTP_REQ_DELETE \<noteq> EVHTTP_REQ_GET" "EVHTTP_REQ_PUT \<noteq> EVHTTP_REQ_GET"
    by (simp_all add: EVHTTP_REQ_DELETE_def EVHTTP_REQ_PUT_def EVHTTP_REQ_GET_def)
  consider (get) "req_type req = EVHTTP_REQ_GET" | (put) "req_type req = EVHTTP_REQ_PUT" | (delete) "req_type req = EVHTTP_REQ_DELETE"
    using assms(1) by (auto simp: handle_domain_records_def refuse_def split: if_splits)
  then show ?thesis
  proof cases
    case get
    obtain layer key where f: "do {
         (ret, with_links) \<leftarrow>
           (case opts of
              None \<Rightarrow> Some (0, False)
            | Some opts \<Rightarrow> query_parse (query_mem mem) (Some records_opt_parse_cb) opts False);
         (if ret \<noteq> 0 then refuse HTTP_BADREQUEST rq
          else queue_op (Records_Get_Op \<lparr>get_bare = bare_of req fake rq, get_layer_name = layer, get_key = key,
                                          get_with_links = with_links\<rparr>) False (next_tid rq))
       } = Some (0, True, rq')"
      by (rule record_path_accepted) (use assms(1) get in \<open>auto simp: handle_domain_records_def handle_domain_records_get_def\<close>)
    then show ?thesis using assms(2) by (auto simp: bind_eq_Some_conv refuse_def split: if_splits dest!: queue_op_accepted)
  next
    case put
    obtain layer key where f: "do {
         (ret, op) \<leftarrow> query_parse (query_mem mem) (Some (records_put_opt_parse_cb (map_mem mem)))
           (c_str (req_input req @ [0])) (empty_put_op (bare_of req fake rq) layer key);
         (if ret \<noteq> 0 then refuse HTTP_BADREQUEST (next_tid rq)
          else queue_op (Records_Put_Op op) True (next_tid rq))
       } = Some (0, True, rq')" and path: "\<And>rq2 f2. record_path mem uri rq2 f2 = f2 layer key"
      by (rule record_path_accepted [of mem uri rq _ True rq']) (use assms(1) put neq in \<open>auto simp: handle_domain_records_def handle_domain_records_put_def\<close>)
    then obtain op where op: "query_parse (query_mem mem) (Some (records_put_opt_parse_cb (map_mem mem)))
           (c_str (req_input req)) (empty_put_op (bare_of req fake rq) layer key) = Some (0, op)"
      "queue_op (Records_Put_Op op) True (next_tid rq) = Some (0, True, rq')"
      by (auto simp: bind_eq_Some_conv refuse_def split: if_splits)
    show ?thesis
    proof (rule asks_forI [OF op(2) assms(2)])
      fix req2 fake2 rq2 assume t: "twin req req2"
      note again = query_parse_map [of "records_put_opt_parse_cb (map_mem mem)" "set_put_bare (bare_of req2 fake2 rq2)", OF put_cb_map,
        of "query_mem mem" "c_str (req_input req)" "empty_put_op (bare_of req fake rq) layer key"]
      have "empty_put_op (bare_of req2 fake2 rq2) layer key = set_put_bare (bare_of req2 fake2 rq2) (empty_put_op (bare_of req fake rq) layer key)"
        by (simp add: empty_put_op_def)
      with again have "query_parse (query_mem mem) (Some (records_put_opt_parse_cb (map_mem mem))) (c_str (req_input req))
          (empty_put_op (bare_of req2 fake2 rq2) layer key) = Some (0, set_put_bare (bare_of req2 fake2 rq2) op)"
        using op(1) by simp
      then show "handle_domain_records mem req2 uri opts fake2 rq2 =
          queue_op (rebare (bare_of req2 fake2 rq2) (Records_Put_Op op)) True (next_tid rq2)"
        using t op(1) put neq
        by (simp add: twin_def handle_domain_records_def handle_domain_records_put_def path)
    qed (simp_all add: put EVHTTP_REQ_PUT_def)
  next
    case delete
    obtain layer key where f: "queue_op (Records_Delete_Op \<lparr>delete_bare = bare_of req fake rq, delete_layer_name = layer, delete_key = key\<rparr>)
         True (next_tid rq) = Some (0, True, rq')" and path: "\<And>rq2 f2. record_path mem uri rq2 f2 = f2 layer key"
      by (rule record_path_accepted [of mem uri rq _ True rq']) (use assms(1) delete neq in \<open>auto simp: handle_domain_records_def handle_domain_records_delete_def\<close>)
    show ?thesis
      by (rule asks_forI [OF f assms(2)])
        (use delete neq in \<open>simp_all add: twin_def handle_domain_records_def handle_domain_records_delete_def path EVHTTP_REQ_DELETE_def\<close>)
  qed
qed

end
