(* ===== verification/Journal_Replay.thy ===== *)
theory Journal_Replay
  imports Replayed_Requests
begin

text \<open>
  The journal and the database together: a server that is started again on the journal of an earlier one has the
  same database. What a request adds to the journal, what the journal of a run holds, and what a replay of it does.
\<close>

section \<open>What a request adds to the journal\<close>

definition journal_state :: "server \<Rightarrow> bool \<times> bytes \<times> int" where
  "journal_state srv = (dl_open (srv_log srv), dl_file (srv_log srv) @ dl_log_buffer (srv_log srv), dl_last_ts (srv_log srv))"

text \<open>Nothing to be journalled, and nothing journalled.\<close>

definition quiet :: "server \<Rightarrow> server \<Rightarrow> bool" where
  "quiet srv srv' = (filter is_write (newly_queued srv srv') = [] \<and> journal_state srv' = journal_state srv)"

text \<open>The request of this verb, URI and body queues the operation whenever it is made again.\<close>

definition makes :: "environment \<Rightarrow> nat \<times> bytes \<times> bytes \<Rightarrow> operation \<Rightarrow> bool" where
  "makes env = (\<lambda>(verb, uri, body) op. is_write op \<and> verb < 2 ^ 31 \<and>
     (\<forall>os req2 srv2. req_type req2 = verb \<and> c_str (req_input req2) = c_str body \<longrightarrow>
        process_request env os uri req2 True srv2 =
          do {
            (status, w, rq) \<leftarrow> queue_op (rebare (bare_of req2 True (srv_rq srv2)) op) True (next_tid (srv_rq srv2));
            Some (if status \<noteq> 0 then - 1 else 0, srv2\<lparr>srv_rq := rq\<rparr>)
          }))"

definition journals :: "environment \<Rightarrow> bytes \<Rightarrow> request \<Rightarrow> server \<Rightarrow> server \<Rightarrow> bool" where
  "journals env uri req srv srv' =
     (uri \<noteq> [] \<and> (\<exists>op input srv1. newly_queued srv srv' = [op] \<and> is_write op \<and> makes env (req_type req, uri, req_input req) op \<and>
        log_request (req_type req) uri input srv1 = Some srv' \<and> srv_log srv1 = srv_log srv \<and> srv_ctx srv1 = srv_ctx srv \<and>
        c_str (strip_nul input) = c_str (req_input req) \<and> length (strip_nul input) \<le> length (req_input req) \<and>
        length input \<le> length (req_input req) + 1))"

lemma adds_quiet:
  assumes "on_queue f srv = Some (status, False, srv')" "\<And>res. f (srv_rq srv) = Some res \<Longrightarrow> adds_op req fake (srv_rq srv) res"
  shows "quiet srv srv'"
proof -
  obtain rq where rq: "f (srv_rq srv) = Some (status, False, rq)" "srv' = srv\<lparr>srv_rq := rq\<rparr>"
    using assms(1) by (auto simp: on_queue_def bind_eq_Some_conv)
  then show ?thesis using assms(2) [OF rq(1)]
    by (auto simp: quiet_def journal_state_def newly_queued_def adds_op_def split: if_splits)
qed

lemma queue_op_False: "queue_op op False rq = Some (status, w, rq') \<Longrightarrow> \<not> w"
  by (auto simp: queue_op_def bind_eq_Some_conv split: if_splits)

lemma queue_op_read [simp]: "queue_op op False rq \<noteq> Some (status, True, rq')"
  using queue_op_False by blast

lemma search_not_logged: "handle_domain_search mem req uri opts fake rq = Some (status, w, rq') \<Longrightarrow> \<not> w"
  by (auto simp: handle_domain_search_def search_nearby_request_def search_in_rect_request_def search_in_keys_request_def
      refuse_def bind_eq_Some_conv split: if_splits option.split_asm)

lemma ping_not_logged: "handle_domain_system_ping req uri fake rq = Some (Some (status, w, rq')) \<Longrightarrow> \<not> w"
  by (auto simp: handle_domain_system_ping_def dest: queue_op_False split: if_splits)

lemma rewrite_quiet:
  assumes "handle_special_op_system_rewrite env os op srv = Some (status, w, srv')"
  shows "quiet srv srv' \<and> \<not> w"
  using assms
  by (auto simp: handle_special_op_system_rewrite_def quiet_def journal_state_def newly_queued_def bind_eq_Some_conv Let_def
      dest!: flush_db_log_keeps split: if_splits prod.split_asm)

lemma system_quiet:
  assumes "handle_domain_system env os req uri fake srv = Some (status, w, srv')" "cq_inv (srv_queue srv)"
  shows "quiet srv srv' \<and> \<not> w"
proof (cases "handle_domain_system_ping req uri fake (srv_rq srv)")
  case (Some res)
  then have r: "on_queue (\<lambda>_. res) srv = Some (status, w, srv')" using assms(1) by (simp add: handle_domain_system_def)
  then have w: "\<not> w" using Some ping_not_logged [of req uri fake "srv_rq srv" status w]
    by (cases res) (auto simp: on_queue_def bind_eq_Some_conv)
  have "adds_op req fake (srv_rq srv) r" if "res = Some r" for r
    using handle_domain_system_ping_adds Some that assms(2) by blast
  then show ?thesis using r w adds_quiet [of "\<lambda>_. res" srv status srv' req fake] by simp
next
  case None
  let ?srv = "srv\<lparr>srv_rq := next_tid (srv_rq srv)\<rparr>"
  have "quiet srv srv' \<and> \<not> w" if "handle_special_op_system_rewrite env os (bare_of req fake (srv_rq srv)) ?srv = Some (status, w, srv')"
    using rewrite_quiet [OF that] by (simp add: quiet_def journal_state_def newly_queued_def)
  then show ?thesis using assms(1) None
    by (auto simp: handle_domain_system_def quiet_def journal_state_def newly_queued_def split: if_splits)
qed

lemma send_error_quiet: "quiet srv srv' \<Longrightarrow> quiet srv (send_error req fake status srv')"
  by (simp add: send_error_def quiet_def newly_queued_def journal_state_def)

lemma makesI:
  assumes "take (length encoded_api_base_uri) uri = encoded_api_base_uri"
    and "extract_opts (c_str (evhttp_decode_uri False (drop (length encoded_api_base_uri) uri))) = (path, opts)"
    and "api_parts path = Some (domain, uri_part)"
    and "\<And>os. domain_handler env os domain = Some (\<lambda>req uri opts fake. on_queue (F req uri opts fake))"
    and "asks_for (\<lambda>req. F req uri_part opts) req op"
  shows "makes env (req_type req, uri, req_input req) op"
  unfolding makes_def prod.case
proof (intro conjI allI impI)
  show "is_write op" "req_type req < 2 ^ 31" using assms(5) by (simp_all add: asks_for_def)
  fix os and req2 :: request and srv2 :: server assume "req_type req2 = req_type req \<and> c_str (req_input req2) = c_str (req_input req)"
  then have f: "F req2 uri_part opts True (srv_rq srv2) =
      queue_op (rebare (bare_of req2 True (srv_rq srv2)) op) True (next_tid (srv_rq srv2))"
    using assms(5) by (simp add: asks_for_def twin_def)
  show "process_request env os uri req2 True srv2 =
      do {
        (status, w, rq) \<leftarrow> queue_op (rebare (bare_of req2 True (srv_rq srv2)) op) True (next_tid (srv_rq srv2));
        Some (if status \<noteq> 0 then - 1 else 0, srv2\<lparr>srv_rq := rq\<rparr>)
      }"
    by (cases "queue_op (rebare (bare_of req2 True (srv_rq srv2)) op) True (next_tid (srv_rq srv2))")
      (auto simp: process_request_def process_api_request_def assms(1-4) f on_queue_def send_error_def)
qed

lemma on_queue_accepted:
  assumes "on_queue f srv = Some (0, True, srv1)"
  obtains rq where "f (srv_rq srv) = Some (0, True, rq)" "srv1 = srv\<lparr>srv_rq := rq\<rparr>"
  using assms by (auto simp: on_queue_def bind_eq_Some_conv)

text \<open>The handlers that ask for an entry of the journal are those of records and layers.\<close>

lemma domain_cases:
  assumes "domain_handler env os domain = Some handler"
  obtains (records) "strcasecmp_eq domain ''records''"
      "\<And>os. domain_handler env os domain = Some (\<lambda>req uri opts fake. on_queue (handle_domain_records (env_memory env) req uri opts fake))"
  | (layers) "\<not> strcasecmp_eq domain ''records''"
      "\<And>os. domain_handler env os domain = Some (\<lambda>req uri opts fake. on_queue (handle_domain_layers (env_memory env) req uri fake))"
  | (search) "handler = (\<lambda>req uri opts fake. on_queue (handle_domain_search (env_memory env) req uri opts fake))"
  | (system) "handler = (\<lambda>req uri opts fake. handle_domain_system env os req uri fake)"
  using assms by (auto simp: domain_handler_def split: if_splits)

lemma handler_effect:
  assumes "domain_handler env os domain = Some handler" "handler req uri_part opts False srv = Some (status, w, srv1)"
    and "0 \<notin> set uri_part" "cq_inv (srv_queue srv)"
  shows "(\<not> w \<or> status \<noteq> 0) \<and> quiet srv srv1 \<or>
    w \<and> status = 0 \<and> srv1 = srv\<lparr>srv_rq := srv_rq srv1\<rparr> \<and>
    (\<exists>F op. (\<forall>os. domain_handler env os domain = Some (\<lambda>req uri opts fake. on_queue (F req uri opts fake))) \<and>
       asks_for (\<lambda>req. F req uri_part opts) req op \<and> newly_queued srv srv1 = [op])"
  using assms(1)
proof (cases rule: domain_cases)
  case records
  have h: "on_queue (handle_domain_records (env_memory env) req uri_part opts False) srv = Some (status, w, srv1)"
  proof -
    have "handler = (\<lambda>req uri opts fake. on_queue (handle_domain_records (env_memory env) req uri opts fake))" using assms(1) records(2) [of os] by simp
    then show ?thesis using assms(2) by (simp only:)
  qed
  note adds = handle_domain_records_adds [OF _ assms(3,4), of "env_memory env" req opts False]
  show ?thesis
  proof (cases "w \<and> status = 0")
    case True
    then obtain rq where rq: "handle_domain_records (env_memory env) req uri_part opts False (srv_rq srv) = Some (0, True, rq)"
      "srv1 = srv\<lparr>srv_rq := rq\<rparr>" using h by (auto elim: on_queue_accepted)
    from records_again [OF rq(1)] assms(4) obtain op where
      "asks_for (\<lambda>req. handle_domain_records (env_memory env) req uri_part opts) req op" "newly_queued srv srv1 = [op]"
      using rq(2) by (auto simp: newly_queued_def)
    then show ?thesis using True rq(2) records(2) by auto
  next
    case False
    then have "\<not> w" using h adds by (auto simp: on_queue_def bind_eq_Some_conv adds_op_def split: if_splits)
    then show ?thesis using adds_quiet [OF _ adds] h by simp
  qed
next
  case layers
  have h: "on_queue (handle_domain_layers (env_memory env) req uri_part False) srv = Some (status, w, srv1)"
  proof -
    have "handler = (\<lambda>req uri opts fake. on_queue (handle_domain_layers (env_memory env) req uri fake))" using assms(1) layers(2) [of os] by simp
    then show ?thesis using assms(2) by (simp only:)
  qed
  note adds = handle_domain_layers_adds [OF _ assms(3,4), of "env_memory env" req False]
  show ?thesis
  proof (cases "w \<and> status = 0")
    case True
    then obtain rq where rq: "handle_domain_layers (env_memory env) req uri_part False (srv_rq srv) = Some (0, True, rq)"
      "srv1 = srv\<lparr>srv_rq := rq\<rparr>" using h by (auto elim: on_queue_accepted)
    from layers_again [OF rq(1)] assms(4) obtain op where
      "asks_for (\<lambda>req. handle_domain_layers (env_memory env) req uri_part) req op" "newly_queued srv srv1 = [op]"
      using rq(2) by (auto simp: newly_queued_def)
    then show ?thesis using True rq(2) layers(2) by (intro disjI2 conjI exI [of _ "\<lambda>req uri opts. handle_domain_layers (env_memory env) req uri"]) auto
  next
    case False
    then have "\<not> w" using h adds by (auto simp: on_queue_def bind_eq_Some_conv adds_op_def split: if_splits)
    then show ?thesis using adds_quiet [OF _ adds] h by simp
  qed
next
  case search
  have h: "on_queue (handle_domain_search (env_memory env) req uri_part opts False) srv = Some (status, w, srv1)"
    using assms(2) search by simp
  then have "\<not> w" by (auto simp: on_queue_def bind_eq_Some_conv dest: search_not_logged)
  then show ?thesis using h adds_quiet [OF _ handle_domain_search_adds [OF _ assms(3,4)]] by auto
next
  case system
  then show ?thesis using assms(2,4) system_quiet [of env os req uri_part False srv status w srv1] by simp
qed

lemma c_str_strip_nul [simp]: "c_str (strip_nul b) = c_str b"
proof (cases "b \<noteq> [] \<and> last b = 0")
  case True
  then have "b = strip_nul b @ [0]" using append_butlast_last_id [of b] by (simp add: strip_nul_def)
  then show ?thesis using c_str_zero [of "strip_nul b"] by simp
qed (auto simp: strip_nul_def)

lemma strip_nul_zero [simp]: "strip_nul (b @ [0]) = b"
  by (simp add: strip_nul_def)

lemma strip_nul_length: "length (strip_nul b) \<le> length b"
  by (simp add: strip_nul_def)

lemma input_after_strip:
  "c_str (strip_nul (input_after domain req)) = c_str (req_input req)"
  "length (strip_nul (input_after domain req)) \<le> length (req_input req)"
  "length (input_after domain req) \<le> length (req_input req) + 1"
  by (simp_all add: input_after_def strip_nul_length)

lemma log_request_newly: "log_request verb uri input srv1 = Some srv' \<Longrightarrow> newly_queued srv srv' = newly_queued srv srv1"
  by (auto simp: log_request_def newly_queued_def bind_eq_Some_conv)

lemma process_request_journal:
  assumes "process_request env os uri req False srv = Some (ret, srv')" "cq_inv (srv_queue srv)"
  shows "quiet srv srv' \<or> journals env uri req srv srv'"
proof -
  have refl: "quiet srv srv" by (simp add: quiet_def newly_queued_def)
  have api: "quiet srv srv' \<or> journals env uri req srv srv'"
    if base: "take (length encoded_api_base_uri) uri = encoded_api_base_uri"
      and run: "process_api_request env os uri req False srv = Some (ret, srv')"
  proof -
    obtain path opts where p: "extract_opts (c_str (evhttp_decode_uri False (drop (length encoded_api_base_uri) uri))) = (path, opts)"
      by fastforce
    have z: "0 \<notin> set path" using extract_opts_set [OF p] c_str_no_zero by blast
    note run = run [unfolded process_api_request_def Let_def p prod.case]
    show ?thesis
    proof (cases "api_parts path = None \<or> (\<exists>domain uri_part. api_parts path = Some (domain, uri_part) \<and> domain_handler env os domain = None)")
      case True
      then show ?thesis using run send_error_quiet [OF refl] by auto
    next
      case False
      then obtain domain uri_part where d0: "api_parts path = Some (domain, uri_part)" "domain_handler env os domain \<noteq> None"
        by (cases "api_parts path") auto
      then obtain handler where d: "api_parts path = Some (domain, uri_part)" "domain_handler env os domain = Some handler" by blast
      have z': "0 \<notin> set uri_part" using api_parts_sets [OF d(1)] z by blast
      obtain status w srv1 where s: "handler req uri_part opts False srv = Some (status, w, srv1)"
        and rest: "(if status \<noteq> 0 then Some (- 1, send_error req False status srv1)
                    else if \<not> False \<and> w then
                      do { srv'' \<leftarrow> log_request (req_type req) uri (input_after domain req) srv1; Some (0, srv'') }
                    else Some (0, srv1)) = Some (ret, srv')"
        using run d by (auto simp: bind_eq_Some_conv)
      show ?thesis
      proof (cases "w \<and> status = 0")
        case False
        then have "quiet srv srv1" using handler_effect [OF d(2) s z' assms(2)] by blast
        then show ?thesis using rest False send_error_quiet by (auto split: if_splits)
      next
        case True
        then obtain F op where f: "srv1 = srv\<lparr>srv_rq := srv_rq srv1\<rparr>"
          "\<And>os. domain_handler env os domain = Some (\<lambda>req uri opts fake. on_queue (F req uri opts fake))"
          "asks_for (\<lambda>req. F req uri_part opts) req op" "newly_queued srv srv1 = [op]"
          using handler_effect [OF d(2) s z' assms(2)] by blast
        have l: "log_request (req_type req) uri (input_after domain req) srv1 = Some srv'"
          using rest True by (auto simp: bind_eq_Some_conv)
        have "makes env (req_type req, uri, req_input req) op" by (rule makesI [OF base p d(1) f(2,3)])
        moreover have "srv_log srv1 = srv_log srv \<and> srv_ctx srv1 = srv_ctx srv" by (subst (1 2) f(1)) simp
        moreover have "uri \<noteq> []" using base by (auto simp: encoded_api_base_uri_def bytes_of_def)
        moreover have "is_write op" using f(3) by (simp add: asks_for_def)
        ultimately show ?thesis using l log_request_newly [OF l, of srv] f(4) input_after_strip [of domain req]
          unfolding journals_def by metis
      qed
    qed
  qed
  have pub: "quiet srv srv'" if "process_public_request env uri req srv = Some (ret, srv')"
    using that by (auto simp: process_public_request_def quiet_def newly_queued_def journal_state_def bind_eq_Some_conv Let_def split: prod.splits)
  show ?thesis
    using assms(1) api pub send_error_quiet [OF refl] by (auto simp: process_request_def bind_eq_Some_conv split: if_splits)
qed

section \<open>What the journal of a run holds\<close>

definition is_stamp :: "item \<Rightarrow> bool" where
  "is_stamp i = (case i of Stamp ts \<Rightarrow> True | Request verb uri body \<Rightarrow> False)"

text \<open>An entry repeats the request, up to bytes behind the first zero of the body.\<close>

definition entry_for :: "nat \<times> bytes \<times> bytes \<Rightarrow> item \<Rightarrow> bool" where
  "entry_for = (\<lambda>(verb, uri, body) i. \<exists>body'. i = Request verb uri body' \<and> c_str body' = c_str body \<and> length body' \<le> length body)"

definition journalled :: "nat \<times> bytes \<times> bytes \<Rightarrow> bool" where
  "journalled = (\<lambda>(verb, uri, body). length uri \<le> DB_LOG_MAX_URI_LEN \<and> length body < DB_LOG_MAX_BODY_LEN)"

definition journal_holds :: "system \<Rightarrow> item list \<Rightarrow> bool" where
  "journal_holds s items =
     (fst (journal_state (sys_server s)) \<and> fst (snd (journal_state (sys_server s))) = enc_items items \<and>
      list_all2 entry_for (sys_writes s) (filter (\<lambda>i. \<not> is_stamp i) items) \<and>
      (\<forall>ts. Stamp ts \<in> set items \<longrightarrow> (\<exists>t \<in> set (sys_clocks s). ts = nat (start_of_minute t))))"

definition journal_inv :: "environment \<Rightarrow> system \<Rightarrow> bool" where
  "journal_inv env s =
     (\<not> sys_purged s \<longrightarrow>
        list_all2 (makes env) (sys_writes s) (filter is_write (sys_accepted s)) \<and>
        now (srv_ctx (sys_server s)) \<in> set (sys_clocks s) \<and>
        (\<forall>(verb, uri, body) \<in> set (sys_writes s). uri \<noteq> [] \<and> 0 \<notin> set uri) \<and>
        ((\<forall>w \<in> set (sys_writes s). journalled w) \<longrightarrow> (\<exists>items. journal_holds s items)))"

lemma log_request_items:
  assumes "log_request verb uri input srv1 = Some srv'" "fst (journal_state srv1)" "length uri \<le> DB_LOG_MAX_URI_LEN" "length input \<le> DB_LOG_MAX_BODY_LEN"
  obtains stamps where "fst (journal_state srv')"
    "fst (snd (journal_state srv')) = fst (snd (journal_state srv1)) @ enc_items (stamps @ [Request verb uri (strip_nul input)])"
    "stamps = [] \<or> stamps = [Stamp (nat (start_of_minute (now (srv_ctx srv1))))]"
proof -
  obtain r db sent as where a: "add_to_db_log (srv_writes srv1) True True \<lparr>lc_now = now (srv_ctx srv1), lc_active_slaves = None\<rparr>
      verb uri input True (srv_log srv1) = Some (r, db, sent, as)" "srv' = srv1\<lparr>srv_log := db, srv_writes := as\<rparr>"
    using assms(1) by (auto simp: log_request_def bind_eq_Some_conv)
  have "dl_open (srv_log srv1)" using assms(2) by (simp add: journal_state_def)
  note items = add_to_db_log_items [OF a(1) this]
  define stamps where "stamps = (if start_of_minute (now (srv_ctx srv1)) > dl_last_ts (srv_log srv1)
    then [Stamp (nat (start_of_minute (now (srv_ctx srv1))))] else [])"
  have "logged_items (dl_last_ts (srv_log srv1)) [(\<lparr>lc_now = now (srv_ctx srv1), lc_active_slaves = None\<rparr>, verb, uri, input, True)] =
      stamps @ [Request verb uri (strip_nul input)]"
    using assms(3,4) by (simp add: stamps_def DB_LOG_MAX_URI_LEN_def DB_LOG_MAX_BODY_LEN_def)
  then show thesis using that [of stamps] items a(2) by (simp add: journal_state_def stamps_def)
qed

lemma get_pan_db_now: "get_pan_db_by_layer_name mem cfg name create ctx = Some (status, l, ctx') \<Longrightarrow> now ctx' = now ctx"
  by (auto simp: get_pan_db_by_layer_name_def bind_eq_Some_conv split: if_splits option.split_asm dest!: register_keeps)

lemma send_reply_now: "send_reply mem ty op calls ctx = (status, ctx') \<Longrightarrow> now ctx' = now ctx"
  using send_reply_published by fastforce

lemma record_op_now: "handle_record_op mem cfg name f ty op d ctx = Some (r, ctx') \<Longrightarrow> now ctx' = now ctx"
  by (auto simp: handle_record_op_def on_layer_def bind_eq_Some_conv split: if_splits dest!: get_pan_db_now send_reply_now)

lemma delete_layer_now: "delete_layer_by_layer_name name ctx = Some (status, ctx') \<Longrightarrow> now ctx' = now ctx"
  by (auto simp: delete_layer_by_layer_name_def bind_eq_Some_conv split: if_splits option.split_asm)

lemma execute_now:
  assumes "execute_op env op ctx = Some ctx'"
  shows "now ctx' = now ctx"
proof (cases "is_write op")
  case False
  then show ?thesis using execute_read assms by blast
next
  case True
  obtain r ctx1 where "run_op env op ctx = Some (r, ctx1)" "ctx' = finish_op (env_memory env) op r ctx1"
    using assms by (auto simp: execute_op_def bind_eq_Some_conv)
  moreover from this(1) True have "now ctx1 = now ctx"
    by (cases op) (auto simp: handle_op_layers_create_def handle_op_layers_delete_def handle_op_records_put_def
        handle_op_records_delete_def bind_eq_Some_conv split: if_splits
        dest!: get_pan_db_now send_reply_now record_op_now delete_layer_now)
  ultimately show ?thesis by simp
qed

lemma quiet_keeps:
  assumes "quiet (sys_server s) srv'" "extends_queue req fake (sys_server s) srv'" "journal_inv env s"
  shows "journal_inv env (s\<lparr>sys_server := srv', sys_accepted := sys_accepted s @ newly_queued (sys_server s) srv'\<rparr>)"
proof -
  have "now (srv_ctx srv') = now (srv_ctx (sys_server s))" using assms(2) by (auto simp: extends_queue_def)
  then show ?thesis using assms(1,3) by (simp add: journal_inv_def journal_holds_def quiet_def)
qed

lemma journals_keeps:
  assumes "journals env uri req (sys_server s) srv'" "journal_inv env s" "0 \<notin> set uri"
  shows "journal_inv env (s\<lparr>sys_server := srv', sys_accepted := sys_accepted s @ newly_queued (sys_server s) srv',
    sys_writes := sys_writes s @ map (\<lambda>_. (req_type req, uri, req_input req)) (filter is_write (newly_queued (sys_server s) srv'))\<rparr>)"
    (is "journal_inv env ?s")
proof -
  obtain op input srv1 where j: "uri \<noteq> []" "newly_queued (sys_server s) srv' = [op]" "is_write op"
    "makes env (req_type req, uri, req_input req) op" "log_request (req_type req) uri input srv1 = Some srv'"
    "srv_log srv1 = srv_log (sys_server s)" "srv_ctx srv1 = srv_ctx (sys_server s)" "c_str (strip_nul input) = c_str (req_input req)"
    "length (strip_nul input) \<le> length (req_input req)" "length input \<le> length (req_input req) + 1"
    using assms(1) unfolding journals_def by blast
  have state: "journal_state srv1 = journal_state (sys_server s)" using j(6) by (simp add: journal_state_def)
  have ctx: "srv_ctx srv' = srv_ctx srv1" using j(5) by (auto simp: log_request_def bind_eq_Some_conv)
  have "\<exists>items. journal_holds ?s items"
    if np: "\<not> sys_purged s" and all: "\<forall>w \<in> set (sys_writes s @ [(req_type req, uri, req_input req)]). journalled w"
  proof -
    obtain items where i: "journal_holds s items" using assms(2) np all by (auto simp: journal_inv_def)
    have clock: "now (srv_ctx (sys_server s)) \<in> set (sys_clocks s)" using assms(2) np by (simp add: journal_inv_def)
    have len: "length uri \<le> DB_LOG_MAX_URI_LEN" "length input \<le> DB_LOG_MAX_BODY_LEN" using all j(10) by (auto simp: journalled_def)
    have open1: "fst (journal_state srv1)" using i state by (simp add: journal_holds_def)
    obtain stamps where st: "fst (journal_state srv')"
      "fst (snd (journal_state srv')) = fst (snd (journal_state srv1)) @ enc_items (stamps @ [Request (req_type req) uri (strip_nul input)])"
      "stamps = [] \<or> stamps = [Stamp (nat (start_of_minute (now (srv_ctx srv1))))]"
      by (rule log_request_items [OF j(5) open1 len])
    have "journal_holds ?s (items @ stamps @ [Request (req_type req) uri (strip_nul input)])"
      using i st j(2,3,7-9) state clock
      by (auto simp: journal_holds_def is_stamp_def entry_for_def intro!: list_all2_appendI)
    then show ?thesis by blast
  qed
  then show ?thesis using assms(2,3) j(1-4,7) ctx by (auto simp: journal_inv_def intro: list_all2_appendI)
qed

lemma step_journal:
  assumes "system_step env os s s'" "sys_inv s" "journal_inv env s"
  shows "journal_inv env s'"
  using assms(1)
proof (cases rule: system_step.cases)
  case (Request uri req ret srv')
  have inv: "cq_inv (srv_queue (sys_server s))" using assms(2) by (simp add: sys_inv_def)
  have ext: "extends_queue req False (sys_server s) srv'" by (rule process_request_extends [OF Request(2) inv])
  from process_request_journal [OF Request(2) inv] show ?thesis
  proof
    assume q: "quiet (sys_server s) srv'"
    then have "filter is_write (newly_queued (sys_server s) srv') = []" by (simp add: quiet_def)
    then show ?thesis using quiet_keeps [OF q ext assms(3)] unfolding Request(1) by simp
  next
    assume "journals env uri req (sys_server s) srv'"
    then show ?thesis unfolding Request(1) by (rule journals_keeps [OF _ assms(3) Request(4)])
  qed
next
  case (Take w op rq)
  then show ?thesis using assms(3) by (simp add: journal_inv_def journal_holds_def journal_state_def)
next
  case (Execute w op ctx)
  then show ?thesis using assms(3) execute_now [OF Execute(4)] by (simp add: journal_inv_def journal_holds_def journal_state_def)
next
  case (Cron t srv')
  have "now (srv_ctx srv') = t \<and> srv_log srv' = srv_log (sys_server s)"
    if "has_expired_keys ((srv_ctx (sys_server s))\<lparr>now := t\<rparr>) = Some False"
    using Cron(2) that by (auto simp: expiration_cron_def Let_def purge_expired_keys_def bind_eq_Some_conv split: if_splits)
  then show ?thesis using assms(3) unfolding Cron(1) by (auto simp: journal_inv_def journal_holds_def journal_state_def)
next
  case (Flush srv')
  then show ?thesis using assms(3)
    by (auto simp: journal_inv_def journal_holds_def journal_state_def flush_log_db_def bind_eq_Some_conv dest!: flush_db_log_keeps)
next
  case (Reply evb_mem)
  then show ?thesis using assms(3) by (simp add: journal_inv_def journal_holds_def journal_state_def consumer_cb_def)
qed

section \<open>The database follows the operations that write\<close>

definition db_follows :: "environment \<Rightarrow> system \<Rightarrow> bool" where
  "db_follows env s =
     (\<not> sys_purged s \<longrightarrow> execute_ops env (writes_of (sys_executed s)) (db_of (init_context 0)) = Some (db_of (srv_ctx (sys_server s))))"

lemma execute_follows:
  assumes "execute_ops env (writes_of ops) c = Some (db_of ctx)" "execute_op env op ctx = Some ctx'"
  shows "execute_ops env (writes_of (ops @ [op])) c = Some (db_of ctx')"
  using assms execute_write [of op env ctx ctx' fake_bare 0 "[]", folded db_of_def]
    execute_read [of op env ctx ctx' 0 "[]", folded db_of_def]
  by (cases "is_write op") (auto simp: execute_ops_append fake_bare_def)

lemma cron_db_of:
  assumes "expiration_cron env t srv = Some srv'" "has_expired_keys ((srv_ctx srv)\<lparr>now := t\<rparr>) = Some False"
  shows "db_of (srv_ctx srv') = db_of (srv_ctx srv)"
  using assms by (auto simp: expiration_cron_def Let_def purge_expired_keys_def bind_eq_Some_conv split: if_splits)

lemma step_follows:
  assumes "system_step env os s s'" "sys_inv s" "db_follows env s"
  shows "db_follows env s'"
  using assms(1)
proof (cases rule: system_step.cases)
  case (Request uri req ret srv')
  have "cq_inv (srv_queue (sys_server s))" using assms(2) by (simp add: sys_inv_def)
  from process_request_extends [OF Request(2) this] have "db_of (srv_ctx srv') = db_of (srv_ctx (sys_server s))"
    by (auto simp: extends_queue_def)
  then show ?thesis using assms(3) by (simp add: db_follows_def Request(1))
next
  case (Execute w op ctx)
  then show ?thesis using assms(3) execute_follows by (auto simp: db_follows_def)
next
  case (Cron t srv')
  then show ?thesis using assms(3) cron_db_of by (auto simp: db_follows_def)
next
  case (Flush srv')
  then show ?thesis using assms(3) by (auto simp: db_follows_def flush_log_db_def bind_eq_Some_conv)
next
  case (Take w op rq)
  then show ?thesis using assms(3) by (simp add: db_follows_def)
next
  case (Reply evb_mem)
  then show ?thesis using assms(3) by (simp add: db_follows_def consumer_cb_def)
qed

lemma runs_follows: "runs env os s s' \<Longrightarrow> sys_inv s \<Longrightarrow> db_follows env s \<Longrightarrow> db_follows env s'"
  by (induction rule: runs.induct) (auto dest: step_follows runs_inv)

lemma runs_journal: "runs env os s s' \<Longrightarrow> sys_inv s \<Longrightarrow> journal_inv env s \<Longrightarrow> journal_inv env s'"
  by (induction rule: runs.induct) (auto dest: step_journal runs_inv)

section \<open>Replaying\<close>

text \<open>The handler that replay_log calls; None once a request stopped the server.\<close>

definition replay_handler :: "environment \<Rightarrow> os_answers \<Rightarrow> server option handler" where
  "replay_handler env os = (\<lambda>srv verb uri body. do { srv \<leftarrow> srv; fake_request env os (nat verb) uri body True False srv })"

text \<open>A server that waits for requests.\<close>

definition idle :: "server \<Rightarrow> bool" where
  "idle srv = (cq_inv (srv_queue srv) \<and> cq_list (srv_queue srv) = [] \<and> cq_capacity (srv_queue srv) > 0 \<and> \<not> srv_should_exit srv)"

lemma rebare_rebare [simp]: "rebare b (rebare b' op) = rebare b op"
  by (cases op) simp_all

lemma is_write_rebare [simp]: "is_write (rebare b op) = is_write op"
  by (cases op) simp_all

lemma bare_rebare [simp]: "bare (rebare b op) = b"
  by (cases op) simp_all

lemma replay_entry:
  assumes "makes env w op" "entry_for w i" "idle srv"
    and "execute_op env (rebare fake_bare op) (db_of (srv_ctx srv)) = Some c"
  shows "\<exists>srv'. apply_item (replay_handler env os) i (Some srv) = Some srv' \<and> idle srv' \<and> db_of (srv_ctx srv') = db_of c"
proof -
  obtain verb uri body where w: "w = (verb, uri, body)" by (cases w)
  obtain body' where i: "i = Request verb uri body'" "c_str body' = c_str body" using assms(2) w by (auto simp: entry_for_def)
  let ?req = "\<lparr>req_id = fake_req_at, req_type = verb, req_input = body'\<rparr>"
  let ?b = "bare_of ?req True (srv_rq srv)"
  have wr: "is_write op" using assms(1) w by (simp add: makes_def)
  have q: "cq_inv (rq_cqueue (next_tid (srv_rq srv)))" "cq_list (rq_cqueue (next_tid (srv_rq srv))) = []"
    "length (cq_list (rq_cqueue (next_tid (srv_rq srv)))) < cq_capacity (rq_cqueue (next_tid (srv_rq srv)))"
    using assms(3) by (simp_all add: idle_def)
  obtain q' where q': "queue_op (rebare ?b op) True (next_tid (srv_rq srv)) = Some (0, True, (next_tid (srv_rq srv))\<lparr>rq_cqueue := q'\<rparr>)"
    "cq_inv q'" "cq_list q' = [rebare ?b op]" "cq_capacity q' = cq_capacity (srv_queue srv)"
    using queue_op_room [OF q(1,3), of "rebare ?b op" True] q(2) by auto
  let ?srv1 = "srv\<lparr>srv_rq := (next_tid (srv_rq srv))\<lparr>rq_cqueue := q'\<rparr>\<rparr>"
  have "process_request env os uri ?req True srv = Some (0, ?srv1)"
    using assms(1) i(2) q'(1) by (simp add: makes_def w)
  then have until: "process_until env os uri ?req srv = Some ?srv1" by (subst process_until.simps) simp
  obtain q2 where sh: "shift_cqueue q' = Some (Some (rebare ?b op), q2)" "cq_inv q2" "cq_list q2 = []" "cq_capacity q2 = cq_capacity q'"
    by (cases rule: cq.shift_cases [OF q'(2)]) (use q'(3) in auto)
  have take: "take_op (srv_should_exit ?srv1) (srv_rq ?srv1) = Some (Took (rebare ?b op), (srv_rq ?srv1)\<lparr>rq_cqueue := q2\<rparr>)"
    using sh(1) assms(3) by (simp add: take_op_def idle_def bare_of_def fake_req_at_def)
  have ctx: "srv_ctx srv = with_clock (now (srv_ctx srv)) (published (srv_ctx srv)) (db_of (srv_ctx srv))"
    by (rule same_db) simp
  have ex: "execute_op env (rebare ?b op) (srv_ctx srv) = Some (with_clock (now (srv_ctx srv)) (published (srv_ctx srv)) c)"
    by (subst ctx) (use execute_write [of "rebare fake_bare op" env "db_of (srv_ctx srv)" c ?b] assms(4) wr in \<open>simp add: bare_of_def\<close>)
  let ?srv2 = "?srv1\<lparr>srv_rq := (srv_rq ?srv1)\<lparr>rq_cqueue := q2\<rparr>, srv_ctx := with_clock (now (srv_ctx srv)) (published (srv_ctx srv)) c\<rparr>"
  have "worker_do_work env ?srv1 = Some (Took (rebare ?b op), ?srv2)"
    unfolding worker_do_work_def take using ex by simp
  then have "apply_item (replay_handler env os) i (Some srv) = Some ?srv2"
    using until by (simp add: i(1) replay_handler_def fake_request_def)
  moreover have "idle ?srv2" using sh q'(4) assms(3) by (simp add: idle_def)
  ultimately show ?thesis by (intro exI [of _ ?srv2]) simp
qed

lemma execute_write_db:
  assumes "is_write op" "execute_op env (rebare fake_bare op) (db_of ctx) = Some c"
  shows "db_of c = c"
  using execute_write [of "rebare fake_bare op" env "db_of ctx" c fake_bare 0 "[]", folded db_of_def] assms by (simp add: fake_bare_def)

lemma replay_entries:
  assumes "list_all2 (makes env) ws ops" "list_all2 entry_for ws (filter (\<lambda>i. \<not> is_stamp i) items)" "idle srv"
    and "execute_ops env (map (rebare fake_bare) ops) (db_of (srv_ctx srv)) = Some (db_of c)"
  shows "\<exists>srv'. fold (apply_item (replay_handler env os)) items (Some srv) = Some srv' \<and> idle srv' \<and> db_of (srv_ctx srv') = db_of c"
  using assms
proof (induction items arbitrary: ws ops srv)
  case Nil
  then show ?case by simp
next
  case (Cons i items)
  show ?case
  proof (cases "is_stamp i")
    case True
    then have "apply_item (replay_handler env os) i (Some srv) = Some srv" by (cases i) (simp_all add: is_stamp_def)
    then show ?thesis using Cons.IH [OF Cons.prems(1) _ Cons.prems(3,4)] Cons.prems(2) True by simp
  next
    case False
    then obtain w ws' where w: "ws = w # ws'" "entry_for w i" "list_all2 entry_for ws' (filter (\<lambda>i. \<not> is_stamp i) items)"
      using Cons.prems(2) by (auto simp: list_all2_Cons2)
    then obtain op ops' where o: "ops = op # ops'" "makes env w op" "list_all2 (makes env) ws' ops'"
      using Cons.prems(1) by (auto simp: list_all2_Cons1)
    obtain c1 where c1: "execute_op env (rebare fake_bare op) (db_of (srv_ctx srv)) = Some c1"
      "execute_ops env (map (rebare fake_bare) ops') c1 = Some (db_of c)"
      using Cons.prems(4) o(1) by (auto simp: bind_eq_Some_conv)
    obtain srv1 where s1: "apply_item (replay_handler env os) i (Some srv) = Some srv1" "idle srv1" "db_of (srv_ctx srv1) = db_of c1"
      using replay_entry [OF o(2) w(2) Cons.prems(3) c1(1)] by blast
    have "is_write op" using o(2) by (cases w) (simp add: makes_def)
    then have "db_of c1 = c1" using execute_write_db c1(1) by blast
    then have "execute_ops env (map (rebare fake_bare) ops') (db_of (srv_ctx srv1)) = Some (db_of c)" using s1(3) c1(2) by simp
    from Cons.IH [OF o(3) w(3) s1(2) this] show ?thesis using s1(1) by simp
  qed
qed

lemma list_all2_right: "list_all2 P xs ys \<Longrightarrow> y \<in> set ys \<Longrightarrow> \<exists>x \<in> set xs. P x y"
  by (induction rule: list_all2_induct) auto

lemma list_all2_left: "list_all2 P xs ys \<Longrightarrow> x \<in> set xs \<Longrightarrow> \<exists>y \<in> set ys. P x y"
  by (induction rule: list_all2_induct) auto

lemma start_of_minute_range: "60 \<le> t \<Longrightarrow> t < 2 ^ 62 \<Longrightarrow> 0 < nat (start_of_minute t) \<and> int (nat (start_of_minute t)) \<le> LONG_MAX"
proof -
  assume t: "60 \<le> t" "t < 2 ^ 62"
  then have "t < 4611686018427387904" "start_of_minute t = t - t mod 60" by (simp_all add: start_of_minute_def DB_LOG_TIMESTAMP_GRANULARITY_def)
  moreover have "t mod 60 < 60" "0 \<le> t mod 60" by simp_all
  ultimately have "0 < start_of_minute t \<and> start_of_minute t \<le> 9223372036854775807" using t by linarith
  then show ?thesis by (simp add: LONG_MAX_def)
qed

text \<open>The entries that a replay can read, from the requests that wrote them.\<close>

definition readable :: "nat \<Rightarrow> nat \<times> bytes \<times> bytes \<Rightarrow> bool" where
  "readable R = (\<lambda>(verb, uri, body). length uri \<le> min R 10000 \<and> length body \<le> min R 99999)"

lemma entries_ok:
  assumes "journal_inv env s" "\<not> sys_purged s" "journal_holds s items" "\<forall>t \<in> set (sys_clocks s). 60 \<le> t \<and> t < 2 ^ 62"
    and "\<forall>w \<in> set (sys_writes s). readable R w"
  shows "\<forall>i \<in> set items. item_ok R i"
proof
  have uris: "\<forall>(verb, uri, body) \<in> set (sys_writes s). uri \<noteq> [] \<and> 0 \<notin> set uri" using assms(1,2) by (simp add: journal_inv_def)
  have made: "list_all2 (makes env) (sys_writes s) (filter is_write (sys_accepted s))" using assms(1,2) by (simp add: journal_inv_def)
  have all2: "list_all2 entry_for (sys_writes s) (filter (\<lambda>i. \<not> is_stamp i) items)" using assms(3) by (simp add: journal_holds_def)
  fix i assume mem: "i \<in> set items"
  show "item_ok R i"
  proof (cases i)
    case (Stamp ts)
    then show ?thesis using mem assms(3,4) start_of_minute_range by (auto simp: journal_holds_def)
  next
    case (Request verb uri body)
    then have req: "i \<in> set (filter (\<lambda>i. \<not> is_stamp i) items)" using mem by (simp add: is_stamp_def)
    obtain w where w: "w \<in> set (sys_writes s)" "entry_for w i" using list_all2_right [OF all2 req] by (rule bexE)
    obtain body0 where w0: "w = (verb, uri, body0)" "length body \<le> length body0" using w(2) Request by (cases w) (auto simp: entry_for_def)
    from list_all2_left [OF made w(1)] obtain op where "makes env w op" by (rule bexE)
    then have "verb < 2 ^ 31" using w0(1) by (simp add: makes_def)
    then show ?thesis using bspec [OF uris w(1)] bspec [OF assms(5) w(1)] Request w0 by (simp add: readable_def)
  qed
qed

text \<open>A replay executes the operations of the requests, in the order in which these were accepted.\<close>

lemma replay_journal:
  assumes "journal_inv env s" "\<not> sys_purged s" "dl_log_buffer (srv_log (sys_server s)) = []"
    and "\<forall>t \<in> set (sys_clocks s). 60 \<le> t \<and> t < 2 ^ 62" "\<forall>w \<in> set (sys_writes s). readable R w"
    and "2 \<le> R" "reads_up_to R ev_read" "length (dl_file (srv_log (sys_server s))) < 2 ^ 62" "idle new"
    and "execute_ops env (map (rebare fake_bare) (filter is_write (sys_accepted s))) (db_of (srv_ctx new)) = Some (db_of c)"
  shows "\<exists>k srv. replay_log ev_read (replay_handler env os) junk (Some (dl_file (srv_log (sys_server s)))) (Some new) = Some (0, k, Some srv) \<and>
    db_of (srv_ctx srv) = db_of c"
proof -
  have "\<forall>w \<in> set (sys_writes s). journalled w"
    using assms(5) by (auto simp: readable_def journalled_def DB_LOG_MAX_URI_LEN_def DB_LOG_MAX_BODY_LEN_def)
  then obtain items where i: "journal_holds s items" using assms(1,2) by (auto simp: journal_inv_def)
  have contents: "dl_file (srv_log (sys_server s)) = enc_items items" using i assms(3) by (simp add: journal_holds_def journal_state_def)
  note ok = entries_ok [OF assms(1,2) i assms(4,5)]
  have "list_all2 (makes env) (sys_writes s) (filter is_write (sys_accepted s))" using assms(1,2) by (simp add: journal_inv_def)
  moreover have "list_all2 entry_for (sys_writes s) (filter (\<lambda>i. \<not> is_stamp i) items)" using i by (simp add: journal_holds_def)
  ultimately have "\<exists>srv. fold (apply_item (replay_handler env os)) items (Some new) = Some srv \<and> idle srv \<and> db_of (srv_ctx srv) = db_of c"
    using assms(9,10) by (intro replay_entries)
  then obtain srv where srv: "fold (apply_item (replay_handler env os)) items (Some new) = Some srv" "db_of (srv_ctx srv) = db_of c" by blast
  have "at_text (init_buffered_read (enc_items items)) (enc_items items)"
    using assms(8) contents by (auto simp: at_text_def intro!: br_ok_init) (simp add: LONG_MAX_def)
  then have "replay_loop ev_read (replay_handler env os) junk 0 (init_buffered_read (enc_items items)) (Some new) = Some (1, 0 + length items, Some srv)"
    unfolding srv(1) [symmetric] by (rule journal_reader.replay_items [OF journal_reader_file [OF assms(6,7)] _ ok])
  then show ?thesis using srv(2) contents by (intro exI [of _ "length items"] exI [of _ srv]) (simp add: replay_log_def)
qed

lemma start_journal_inv: "journal_inv env (start_system n (fresh_server t (fresh_log fsync_period buffer_size) as q))"
  by (auto simp: journal_inv_def start_system_def fresh_server_def journal_holds_def journal_state_def fresh_log_def init_context_def
      intro!: exI [of _ "[]"])

lemma idle_fresh: "init_cqueue malloc_ok n sz = Inr q \<Longrightarrow> 0 < cq_capacity q \<Longrightarrow> idle (fresh_server t journal as q)"
  using init_cqueue_inv [of malloc_ok n sz q] by (simp add: idle_def fresh_server_def)

text \<open>
  C1: a restart restores the database. When a server with one worker has executed everything it accepted, its journal is
  flushed and no record has expired, a new server that replays the journal has the same database, byte for byte: layers,
  records, positions, properties and expirations. This holds for requests within what the journal keeps and reads back at
  once: URIs of up to 10000 and bodies of less than 100000 bytes, and of no more than evbuffer_read moves in one call.
\<close>

theorem restart_restores_database:
  assumes "runs env os (start_system 1 (fresh_server t (fresh_log fsync_period buffer_size) as q)) s" "init_cqueue malloc_ok n sz = Inr q"
    and "in_hands s = []" "cq_list (srv_queue (sys_server s)) = []" "dl_log_buffer (srv_log (sys_server s)) = []" "\<not> sys_purged s"
    and "\<forall>t \<in> set (sys_clocks s). 60 \<le> t \<and> t < 2 ^ 62"
    and "\<forall>w \<in> set (sys_writes s). readable R w"
    and "2 \<le> R" "reads_up_to R ev_read" "length (dl_file (srv_log (sys_server s))) < 2 ^ 62"
    and "init_cqueue malloc_ok' n' sz' = Inr q'" "0 < cq_capacity q'"
  shows "\<exists>k srv. replay_log ev_read (replay_handler env os') junk (Some (dl_file (srv_log (sys_server s))))
      (Some (fresh_server t' journal as' q')) = Some (0, k, Some srv) \<and> db_of (srv_ctx srv) = db_of (srv_ctx (sys_server s))"
proof -
  let ?s0 = "start_system 1 (fresh_server t (fresh_log fsync_period buffer_size) as q)" and ?new = "fresh_server t' journal as' q'"
  have inv0: "sys_inv ?s0" by (rule start_system_inv) (simp_all add: fresh_server_def init_cqueue_inv [OF assms(2)])
  have j: "journal_inv env s" by (rule runs_journal [OF assms(1) inv0 start_journal_inv])
  have "db_follows env ?s0" by (simp add: db_follows_def start_system_def fresh_server_def init_context_def db_of_def with_clock_def)
  then have f: "db_follows env s" by (rule runs_follows [OF assms(1) inv0])
  have "sys_executed s = sys_accepted s"
    using runs_inv [OF assms(1) inv0] assms(3,4) by (simp add: sys_inv_def start_system_def)
  then have "execute_ops env (map (rebare fake_bare) (filter is_write (sys_accepted s))) (db_of (srv_ctx ?new)) = Some (db_of (srv_ctx (sys_server s)))"
    using f assms(6) by (simp add: db_follows_def writes_of_def fresh_server_def init_context_def db_of_def with_clock_def)
  from replay_journal [OF j assms(6,5,7,8-11) idle_fresh [OF assms(12,13)] this] show ?thesis .
qed

end
