(* ===== verification/Database.thy ===== *)
theory Database
  imports Journal_Replay Cells
begin

text \<open>
  The database as a whole. An abstract database gives every layer its records and every record its place: the
  position and the expiration. The theorems say that executing any sequence of operations that write is what the
  abstract operations do, without a fault as long as the abstract database stays within the limits of the slabs, and
  that a server can always finish what it accepted.
\<close>

section \<open>The abstract database\<close>

type_synonym place = "position2d option \<times> int option"
type_synonym places = "bytes \<Rightarrow> (bytes \<Rightarrow> place option) option"

definition world_bounds :: rectangle2d where
  "world_bounds = rect (pos (Fin (- 90)) (Fin (- 180))) (pos (Fin 90) (Fin 180))"

definition put_place :: "records_put_op \<Rightarrow> place option \<Rightarrow> place" where
  "put_place op old =
     (if put_position_set op \<and> position_is_in_rect (put_position op) world_bounds then Some (put_position op)
      else (case old of None \<Rightarrow> None | Some (p, e) \<Rightarrow> p),
      if put_expires_at op \<noteq> 0 then Some (put_expires_at op) else None)"

fun spec_write :: "operation \<Rightarrow> places \<Rightarrow> places" where
  "spec_write (Layers_Create_Op b name) P = (if P name = None then P(name \<mapsto> Map.empty) else P)"
| "spec_write (Layers_Delete_Op b name) P = P(name := None)"
| "spec_write (Records_Put_Op op) P =
     (case P (put_layer_name op) of
        None \<Rightarrow> P
      | Some m \<Rightarrow> P(put_layer_name op \<mapsto> m(put_key op \<mapsto> put_place op (m (put_key op)))))"
| "spec_write (Records_Delete_Op op) P =
     (case P (delete_layer_name op) of None \<Rightarrow> P | Some m \<Rightarrow> P(delete_layer_name op \<mapsto> m(delete_key op := None)))"
| "spec_write op P = P"

text \<open>
  The limits: fewer than 64 layers, and in each layer fewer than 64 records in any cell that is too small to be split, for
  the accuracy acc of the configuration, or more than 14 levels deep. How many records there are otherwise does not matter.
\<close>

definition crowd :: "(bytes \<Rightarrow> place option) \<Rightarrow> rectangle2d \<Rightarrow> bytes set" where
  "crowd m r = {k. \<exists>p e. m k = Some (Some p, e) \<and> position_is_in_rect p r}"

definition uncrowded :: "dimension \<Rightarrow> nat \<Rightarrow> (bytes \<Rightarrow> place option) \<Rightarrow> bool" where
  "uncrowded acc n m = (\<forall>p. fine_cell acc acc world_bounds p \<longrightarrow> card (crowd m (cell world_bounds p)) < n)"

definition within_limits :: "dimension \<Rightarrow> places \<Rightarrow> bool" where
  "within_limits acc P = (card (dom P) < 64 \<and> (\<forall>name m. P name = Some m \<longrightarrow> uncrowded acc 64 m))"

section \<open>Abstraction\<close>

definition place_of :: "stored_record \<Rightarrow> place" where
  "place_of r = (rec_position r, rec_expires r)"

definition places_of :: "http_context \<Rightarrow> places" where
  "places_of ctx name = map_option (\<lambda>m key. map_option place_of (m key)) (records_of ctx name)"

definition db_places :: "expirable slab \<Rightarrow> pan_db \<Rightarrow> bytes \<Rightarrow> place option" where
  "db_places exps db key = map_option place_of (record_of exps db key)"

definition world_db :: "dimension \<Rightarrow> pan_db \<Rightarrow> bool" where
  "world_db acc db = (qbounds db = world_bounds \<and> latitude_accuracy db = acc \<and> longitude_accuracy db = acc \<and> buckets_bounded db)"

definition world_inv :: "dimension \<Rightarrow> http_context \<Rightarrow> bool" where
  "world_inv acc ctx = (ctx_inv ctx \<and> (\<forall>name db. layers ctx name = Some db \<longrightarrow> world_db acc db))"

abbreviation accuracy_of :: "environment \<Rightarrow> dimension" where
  "accuracy_of env \<equiv> dimension_accuracy (env_defaults env)"

lemma places_of_layers: "places_of ctx name = map_option (db_places (expirables_slab ctx)) (layers ctx name)"
  by (cases "layers ctx name") (simp_all add: places_of_def records_of_def db_places_def fun_eq_iff)

lemma places_upd: "records_of ctx' = (records_of ctx)(name \<mapsto> m) \<Longrightarrow> places_of ctx' = (places_of ctx)(name \<mapsto> \<lambda>key. map_option place_of (m key))"
  by (auto simp: places_of_def fun_eq_iff)

lemma init_world: "init_pan_db cfg True = Some db \<Longrightarrow> world_db (dimension_accuracy cfg) db"
  by (auto simp: init_pan_db_def new_quad_node_def world_bounds_def world_db_def buckets_bounded_def init_bucket_def BUCKET_SIZE_def bind_eq_Some_conv)

lemma empty_places: "init_pan_db cfg True = Some db \<Longrightarrow> db_places exps db = Map.empty"
  using no_records [of cfg db exps] by (simp add: db_places_def fun_eq_iff)

lemma layers_card:
  assumes "ctx_inv ctx"
  shows "card (dom (layers ctx)) = nb_layers ctx"
proof -
  let ?s = "slab_contents (layers_slab ctx)"
  have "dom (layers ctx) = (\<lambda>a. layer_name (the (?s a))) ` dom ?s"
  proof (intro set_eqI iffI)
    fix n assume "n \<in> dom (layers ctx)"
    then obtain a l where "?s a = Some l" "layer_name l = n" using layers_Some [OF assms] by blast
    then show "n \<in> (\<lambda>a. layer_name (the (?s a))) ` dom ?s" by (intro image_eqI [of _ _ a]) auto
  next
    fix n assume "n \<in> (\<lambda>a. layer_name (the (?s a))) ` dom ?s"
    then show "n \<in> dom (layers ctx)" using layers_Some [OF assms] by fastforce
  qed
  moreover have "inj_on (\<lambda>a. layer_name (the (?s a))) (dom ?s)"
  proof (rule inj_onI)
    fix a b assume "a \<in> dom ?s" "b \<in> dom ?s" "layer_name (the (?s a)) = layer_name (the (?s b))"
    then obtain l m where "?s a = Some l" "?s b = Some m" "layer_name l = layer_name m" by auto
    then show "a = b" using ctx_invD(5) [OF assms, of a l b m] by blast
  qed
  ultimately show ?thesis using ctx_invD(3) [OF assms] by (simp add: card_image)
qed

lemma within_limitsD:
  assumes "within_limits acc (places_of ctx)" "world_inv acc ctx"
  shows "nb_layers ctx < 64" "layers ctx name = Some db \<Longrightarrow> movable db key"
proof -
  have inv: "ctx_inv ctx" using assms(2) by (simp add: world_inv_def)
  have "dom (places_of ctx) = dom (layers ctx)" by (auto simp: places_of_layers)
  then show "nb_layers ctx < 64" using assms layers_card [OF inv] by (simp add: within_limits_def)
  assume l: "layers ctx name = Some db"
  then have d: "db_inv (expirables_slab ctx) db" "world_db acc db"
    using ctx_invD(4) [OF inv] assms(2) unfolding layers_Some [OF inv] world_inv_def by blast+
  have "crowd (db_places (expirables_slab ctx) db) r = placed_in (record_of (expirables_slab ctx) db) r" for r
    by (auto simp: crowd_def placed_in_def db_places_def place_of_def)
  moreover have "uncrowded acc 64 (db_places (expirables_slab ctx) db)"
    using assms(1) places_of_layers [of ctx name] l by (simp add: within_limits_def)
  ultimately show "movable db key"
    using d(2) by (intro uncrowded_small(2) [OF d(1)]) (simp_all add: uncrowded_def world_db_def)
qed

section \<open>One operation\<close>

lemma create_keeps:
  assumes "handle_op_layers_create mem cfg op name ctx = Some (r, ctx')"
  shows "expirables_slab ctx' = expirables_slab ctx"
proof -
  have "expirables_slab ctx1 = expirables_slab ctx" if "get_pan_db_by_layer_name mem cfg name True ctx = Some (status, l, ctx1)" for status l ctx1
    using that by (auto simp: get_pan_db_by_layer_name_def register_new_layer_def bind_eq_Some_conv
        split: if_splits option.split_asm prod.split_asm)
  moreover have "expirables_slab ctx2 = expirables_slab ctx1" if "send_reply mem ty op calls ctx1 = (status, ctx2)" for ty calls ctx1 status ctx2
    using send_reply_published [OF that] by auto
  ultimately show ?thesis using assms by (auto simp: handle_op_layers_create_def bind_eq_Some_conv)
qed

lemma create_step:
  assumes "world_inv (accuracy_of env) ctx" "good_memory (env_memory env)" "layer_ok name"
  shows "\<exists>r ctx'. run_op env (Layers_Create_Op b name) ctx = Some (r, ctx') \<and> world_inv (accuracy_of env) ctx' \<and>
    places_of ctx' = spec_write (Layers_Create_Op b name) (places_of ctx)"
proof -
  have mem: "good_malloc (layer_chunk (env_memory env))" "node_mem (env_memory env)" "name_mem (env_memory env)"
    using assms(2) by (simp_all add: good_memory_def)
  obtain r ctx' db where c: "handle_op_layers_create (env_memory env) (env_defaults env) b name ctx = Some (r, ctx')" "ctx_inv ctx'"
    "init_pan_db (env_defaults env) True = Some db"
    "layers ctx' = (if name \<noteq> [] \<and> layers ctx name = None then (layers ctx)(name \<mapsto> db) else layers ctx)"
    using layers_create_law [OF _ mem, of ctx "env_defaults env" b name] assms(1) by (auto simp: world_inv_def)
  have "world_inv (accuracy_of env) ctx'" using c(2,4) init_world [OF c(3)] assms(1) by (auto simp: world_inv_def split: if_splits)
  moreover have "places_of ctx' = spec_write (Layers_Create_Op b name) (places_of ctx)"
    using c(4) create_keeps [OF c(1)] empty_places [OF c(3)] assms(3) by (auto simp: places_of_layers fun_eq_iff layer_ok_def)
  ultimately show ?thesis using c(1) by auto
qed

lemma delete_step:
  assumes "world_inv acc ctx" "within_limits acc (places_of ctx)"
  shows "\<exists>r ctx'. run_op env (Layers_Delete_Op b name) ctx = Some (r, ctx') \<and> world_inv acc ctx' \<and>
    places_of ctx' = spec_write (Layers_Delete_Op b name) (places_of ctx)"
proof -
  have inv: "ctx_inv ctx" using assms(1) by (simp add: world_inv_def)
  obtain r ctx' where d: "handle_op_layers_delete (env_memory env) b name ctx = Some (r, ctx')" "ctx_inv ctx'"
    "layers ctx' = (layers ctx)(name := None)" "layers ctx name = None \<longrightarrow> r = HTTP_NOTFOUND \<and> ctx' = ctx"
    "\<forall>n d. n \<noteq> name \<longrightarrow> layers ctx n = Some d \<longrightarrow> expires_of (expirables_slab ctx') d = expires_of (expirables_slab ctx) d"
    using layers_delete_law [OF inv within_limitsD(1) [OF assms(2,1)], of "env_memory env" b name] by (elim exE conjE) (rule that)
  have "world_inv acc ctx'" using d(2,3) assms(1) by (auto simp: world_inv_def split: if_splits)
  moreover have "places_of ctx' n = spec_write (Layers_Delete_Op b name) (places_of ctx) n" for n
  proof (cases "n = name \<or> layers ctx n = None")
    case True
    then show ?thesis using d(3) by (auto simp: places_of_layers)
  next
    case False
    then obtain db where db: "layers ctx n = Some db" by blast
    then have "expires_of (expirables_slab ctx') db = expires_of (expirables_slab ctx) db" using d(5) False by blast
    then have "record_at (expirables_slab ctx') db = record_at (expirables_slab ctx) db" by (intro ext) (simp add: record_at_def)
    then have "record_of (expirables_slab ctx') db = record_of (expirables_slab ctx) db" by (intro ext) (simp add: record_of_def)
    then show ?thesis using d(3) db False by (simp add: places_of_layers db_places_def fun_eq_iff)
  qed
  ultimately show ?thesis using d(1) by auto
qed

lemma record_step:
  assumes "world_inv acc ctx" "ctx_inv ctx'" "layers ctx name = Some db" "layers ctx' = (layers ctx)(name \<mapsto> db')"
    "same_db db db'" "buckets_bounded db \<longrightarrow> buckets_bounded db'"
  shows "world_inv acc ctx'"
  using assms by (auto simp: world_inv_def world_db_def same_db_def split: if_splits)

lemma put_step:
  assumes "world_inv acc ctx" "within_limits acc (places_of ctx)" "good_memory (env_memory env)" "put_op_ok op"
  shows "\<exists>r ctx'. run_op env (Records_Put_Op op) ctx = Some (r, ctx') \<and> world_inv acc ctx' \<and>
    places_of ctx' = spec_write (Records_Put_Op op) (places_of ctx)"
proof -
  have inv: "ctx_inv ctx" using assms(1) by (simp add: world_inv_def)
  show ?thesis
  proof (cases "layers ctx (put_layer_name op)")
    case None
    then have "handle_op_records_put (env_memory env) (env_defaults env) op ctx = Some (HTTP_NOTFOUND, ctx)"
      unfolding handle_op_records_put_def by (rule record_op_no_layer [OF inv])
    then show ?thesis using assms(1) None by (simp add: places_of_layers)
  next
    case (Some db)
    have qb: "qbounds db = world_bounds" using assms(1) Some by (simp add: world_inv_def world_db_def)
    obtain status ctx' where p: "handle_op_records_put (env_memory env) (env_defaults env) op ctx = Some (status, ctx')" "ctx_inv ctx'"
      "put_effect op db ctx ctx'" "\<exists>db'. layers ctx' = (layers ctx)(put_layer_name op \<mapsto> db') \<and> same_db db db' \<and> (buckets_bounded db \<longrightarrow> buckets_bounded db')"
      using put_law [OF inv assms(3,4) Some within_limitsD(2) [OF assms(2,1) Some], of "env_defaults env"] by blast
    from p(3) obtain es r where r: "records_of ctx' = (records_of ctx)(put_layer_name op \<mapsto> (record_of (expirables_slab ctx) db)(put_key op \<mapsto> r))"
      "same_place r (put_spec op (qbounds db) es (old_record (record_of (expirables_slab ctx) db (put_key op))))"
      unfolding put_effect_def by blast
    have "place_of r = put_place op (db_places (expirables_slab ctx) db (put_key op))"
      using r(2) by (cases "record_of (expirables_slab ctx) db (put_key op)")
        (simp_all add: same_place_def put_spec_def place_of_def put_place_def accepted_position_def qb old_record_def no_record_def db_places_def)
    then have "places_of ctx' = spec_write (Records_Put_Op op) (places_of ctx)"
      using places_upd [OF r(1)] Some by (auto simp: places_of_layers db_places_def fun_eq_iff)
    moreover have "world_inv acc ctx'" using p(4) record_step [OF assms(1) p(2) Some] by blast
    ultimately show ?thesis using p(1) by auto
  qed
qed

lemma delete_record_step:
  assumes "world_inv acc ctx" "within_limits acc (places_of ctx)" "good_memory (env_memory env)"
  shows "\<exists>r ctx'. run_op env (Records_Delete_Op op) ctx = Some (r, ctx') \<and> world_inv acc ctx' \<and>
    places_of ctx' = spec_write (Records_Delete_Op op) (places_of ctx)"
proof -
  have inv: "ctx_inv ctx" using assms(1) by (simp add: world_inv_def)
  show ?thesis
  proof (cases "layers ctx (delete_layer_name op)")
    case None
    then have "handle_op_records_delete (env_memory env) (env_defaults env) op ctx = Some (HTTP_NOTFOUND, ctx)"
      unfolding handle_op_records_delete_def by (rule record_op_no_layer [OF inv])
    then show ?thesis using assms(1) None by (simp add: places_of_layers)
  next
    case (Some db)
    obtain status ctx' where p: "handle_op_records_delete (env_memory env) (env_defaults env) op ctx = Some (status, ctx')" "ctx_inv ctx'"
      "records_of ctx' = (records_of ctx)(delete_layer_name op \<mapsto> (record_of (expirables_slab ctx) db)(delete_key op := None))"
      "\<exists>db'. layers ctx' = (layers ctx)(delete_layer_name op \<mapsto> db') \<and> same_db db db' \<and> (buckets_bounded db \<longrightarrow> buckets_bounded db')"
      using delete_law [OF inv assms(3) Some within_limitsD(2) [OF assms(2,1) Some], of "env_defaults env"] by blast
    have "places_of ctx' = spec_write (Records_Delete_Op op) (places_of ctx)"
      using places_upd [OF p(3)] Some by (auto simp: places_of_layers db_places_def fun_eq_iff)
    moreover have "world_inv acc ctx'" using p(4) record_step [OF assms(1) p(2) Some] by blast
    ultimately show ?thesis using p(1) by auto
  qed
qed

lemma world_inv_published [simp]: "world_inv acc (ctx\<lparr>published := ps\<rparr>) = world_inv acc ctx"
  by (simp add: world_inv_def)

lemma places_of_published [simp]: "places_of (ctx\<lparr>published := ps\<rparr>) = places_of ctx"
  by (simp add: fun_eq_iff places_of_def)

lemma execute_run:
  assumes "run_op env op ctx = Some (r, ctx1)" "world_inv acc ctx1" "places_of ctx1 = P"
  shows "\<exists>ctx'. execute_op env op ctx = Some ctx' \<and> world_inv acc ctx' \<and> places_of ctx' = P"
proof -
  obtain ps where "finish_op (env_memory env) op r ctx1 = ctx1\<lparr>published := ps\<rparr>" using finish_published by blast
  then show ?thesis using assms by (simp add: execute_op_def)
qed

lemma write_step:
  assumes "world_inv (accuracy_of env) ctx" "within_limits (accuracy_of env) (places_of ctx)" "good_memory (env_memory env)" "op_ok op" "is_write op"
  shows "\<exists>ctx'. execute_op env op ctx = Some ctx' \<and> world_inv (accuracy_of env) ctx' \<and> places_of ctx' = spec_write op (places_of ctx)"
proof -
  have "\<exists>r ctx'. run_op env op ctx = Some (r, ctx') \<and> world_inv (accuracy_of env) ctx' \<and> places_of ctx' = spec_write op (places_of ctx)"
  proof (cases op)
    case (Records_Put_Op op)
    then show ?thesis using put_step [OF assms(1-3)] assms(4) by simp
  next
    case (Records_Delete_Op op)
    then show ?thesis using delete_record_step [OF assms(1-3)] by simp
  next
    case (Layers_Create_Op b name)
    then show ?thesis using create_step [OF assms(1,3)] assms(4) by simp
  next
    case (Layers_Delete_Op b name)
    then show ?thesis using delete_step [OF assms(1,2)] by simp
  qed (use assms(5) in simp_all)
  then show ?thesis using execute_run by blast
qed

section \<open>Operations that read\<close>

text \<open>Well-formed operations give records keys that are non-empty C strings and no expiration at 0.\<close>

definition plain_places :: "places \<Rightarrow> bool" where
  "plain_places P = (\<forall>name m k p e. P name = Some m \<longrightarrow> m k = Some (p, e) \<longrightarrow> key_ok k \<and> e \<noteq> Some 0)"

lemma spec_write_plain: "plain_places P \<Longrightarrow> op_ok op \<Longrightarrow> plain_places (spec_write op P)"
  by (cases op) (auto simp: plain_places_def put_place_def split: option.splits if_splits)

lemma key_okD: "key_ok k \<Longrightarrow> c_key k \<and> 1 < length k"
  by (auto simp: key_ok_def layer_ok_def c_key_def)

lemma plain_layer_db:
  assumes "ctx_inv ctx" "plain_places (places_of ctx)" "layers ctx name = Some db"
  shows "plain_db (expirables_slab ctx) db" "\<And>k. node_of_key (key_nodes db) k \<noteq> None \<Longrightarrow> 1 < length k"
proof -
  have inv: "db_inv (expirables_slab ctx) db" using assms(3) ctx_invD(4) [OF assms(1)] unfolding layers_Some [OF assms(1)] by blast
  have r: "key_ok k \<and> rec_expires r \<noteq> Some 0" if "record_of (expirables_slab ctx) db k = Some r" for k r
  proof -
    have "places_of ctx name = Some (db_places (expirables_slab ctx) db)" using assms(3) by (simp add: places_of_layers)
    moreover have "db_places (expirables_slab ctx) db k = Some (rec_position r, rec_expires r)" using that by (simp add: db_places_def place_of_def)
    ultimately show ?thesis using assms(2) unfolding plain_places_def by blast
  qed
  then show "plain_db (expirables_slab ctx) db" using key_okD by (auto simp: plain_db_iff [OF inv] plain_records_def)
  show "1 < length k" if "node_of_key (key_nodes db) k \<noteq> None" for k
    using that r key_okD by (auto simp: record_of_def)
qed

text \<open>
  The operations whose handlers cannot fault within the limits: those that write, pings, the list of the layers, and GETs and searches of
  keys without links.
\<close>

fun simple_op :: "operation \<Rightarrow> bool" where
  "simple_op (Ping_Op b) = True"
| "simple_op (Layers_Index_Op b) = True"
| "simple_op (Records_Get_Op op) = (\<not> get_with_links op)"
| "simple_op (Search_In_Keys_Op op) = (\<not> keys_with_links op)"
| "simple_op op = is_write op"

lemma simple_write: "is_write op \<Longrightarrow> simple_op op"
  by (cases op) simp_all

lemma read_step:
  assumes "ctx_inv ctx" "plain_places (places_of ctx)" "good_memory (env_memory env)" "op_ok op" "simple_op op" "\<not> is_write op"
  shows "\<exists>r ctx'. run_op env op ctx = Some (r, ctx') \<and> ctx' = ctx\<lparr>published := published ctx'\<rparr>"
proof (cases op)
  case (Ping_Op b)
  then show ?thesis by (simp add: handle_op_system_ping_def send_reply_def Let_def split: prod.split)
next
  case (Layers_Index_Op b)
  then show ?thesis using layers_index_law [OF assms(1)] by simp
next
  case (Records_Get_Op op)
  then have "\<not> get_with_links op" using assms(5) by simp
  then show ?thesis
    using records_get_law [OF assms(1,3), of op "env_defaults env"] plain_layer_db(1) [OF assms(1,2)] Records_Get_Op by auto
next
  case (Search_In_Keys_Op op)
  then have op: "\<not> keys_with_links op" "limit_ok (keys_limit op)" "key_ok (keys_pattern op)" using assms(4,5) by simp_all
  show ?thesis
  proof (cases "fake_req (keys_bare op)")
    case True
    have "\<exists>r. run_op env (Search_In_Keys_Op op) ctx = Some (r, ctx)"
    proof (cases "layers ctx (keys_layer_name op)")
      case None
      then show ?thesis using get_pan_db_none(1) [OF assms(1) None] by (simp add: handle_op_search_in_keys_def)
    next
      case (Some db)
      then show ?thesis using get_pan_db_law [OF assms(1) Some, of "env_memory env" "env_defaults env" False] True
        by (auto simp: handle_op_search_in_keys_def)
    qed
    then show ?thesis using Search_In_Keys_Op by auto
  next
    case False
    obtain p where p: "layer_ok p" "keys_pattern op = p @ [0]" using op(3) unfolding key_ok_def by blast
    have "\<forall>db. layers ctx (keys_layer_name op) = Some db \<longrightarrow> plain_db (expirables_slab ctx) db \<and>
        few_links db (keys_with_properties op) (keys_with_links op) \<and> (\<forall>k. node_of_key (key_nodes db) k \<noteq> None \<longrightarrow> 1 < length k)"
      using plain_layer_db [OF assms(1,2)] op(1) by (simp add: few_links_def)
    then show ?thesis
      using search_in_keys_law [OF assms(1,3) _ _ False _ _ p(2), of "env_defaults env"] op(2) p(1) Search_In_Keys_Op
      by (auto simp: limit_ok_def layer_ok_def)
  qed
qed (use assms(5,6) in simp_all)

lemma spec_read: "\<not> is_write op \<Longrightarrow> spec_write op P = P"
  by (cases op) simp_all

lemma execute_step:
  assumes "world_inv (accuracy_of env) ctx" "within_limits (accuracy_of env) (places_of ctx)" "good_memory (env_memory env)" "op_ok op" "simple_op op"
    and "plain_places (places_of ctx)"
  shows "\<exists>ctx'. execute_op env op ctx = Some ctx' \<and> world_inv (accuracy_of env) ctx' \<and> places_of ctx' = spec_write op (places_of ctx)"
proof (cases "is_write op")
  case True
  then show ?thesis using write_step [OF assms(1-4)] by simp
next
  case False
  have "ctx_inv ctx" using assms(1) by (simp add: world_inv_def)
  then obtain r ctx' where c: "run_op env op ctx = Some (r, ctx')" "ctx' = ctx\<lparr>published := published ctx'\<rparr>"
    using read_step [OF _ assms(6,3,4,5) False] by blast
  have "world_inv (accuracy_of env) ctx'" "places_of ctx' = spec_write op (places_of ctx)"
    using assms(1) spec_read [OF False] by (subst c(2), simp)+
  then show ?thesis by (rule execute_run [OF c(1)])
qed

section \<open>Many operations\<close>

text \<open>There is room for n more operations.\<close>

definition with_place :: "(bytes \<Rightarrow> place option) \<Rightarrow> bytes set" where
  "with_place m = {k. \<exists>p e. m k = Some (Some p, e)}"

definition cells_room :: "dimension \<Rightarrow> nat \<Rightarrow> (bytes \<Rightarrow> place option) \<Rightarrow> bool" where
  "cells_room acc n m =
     (finite (with_place m) \<and> (\<forall>p. fine_cell acc acc world_bounds p \<longrightarrow> card (crowd m (cell world_bounds p)) + n \<le> 64))"

definition room :: "dimension \<Rightarrow> nat \<Rightarrow> places \<Rightarrow> bool" where
  "room acc n P = (finite (dom P) \<and> card (dom P) + n \<le> 64 \<and> (\<forall>name m. P name = Some m \<longrightarrow> cells_room acc n m))"

lemma room_limits: "room acc (Suc n) P \<Longrightarrow> within_limits acc P"
  by (fastforce simp: room_def within_limits_def cells_room_def uncrowded_def)

lemma crowd_with_place: "crowd m r \<subseteq> with_place m"
  by (auto simp: crowd_def with_place_def)

lemma crowd_put: "crowd (m(k \<mapsto> x)) r \<subseteq> insert k (crowd m r)" "crowd (m(k := None)) r \<subseteq> crowd m r"
  by (auto simp: crowd_def)

lemma with_place_put: "with_place (m(k \<mapsto> x)) \<subseteq> insert k (with_place m)" "with_place (m(k := None)) \<subseteq> with_place m"
  by (auto simp: with_place_def)

lemma cells_room_Suc: "cells_room acc (Suc n) m \<Longrightarrow> cells_room acc n m"
  by (fastforce simp: cells_room_def)

lemma cells_room_empty: "n \<le> 64 \<Longrightarrow> cells_room acc n Map.empty"
  by (simp add: cells_room_def with_place_def crowd_def)

lemma cells_room_one:
  assumes "cells_room acc (Suc n) m" "with_place m' \<subseteq> insert k (with_place m)" "\<And>r. crowd m' r \<subseteq> insert k (crowd m r)"
  shows "cells_room acc n m'"
  unfolding cells_room_def
proof (intro conjI allI impI)
  have fin: "finite (with_place m)" using assms(1) by (simp add: cells_room_def)
  then show "finite (with_place m')" using assms(2) by (meson finite.insertI finite_subset)
  fix p assume "fine_cell acc acc world_bounds p"
  then have c: "card (crowd m (cell world_bounds p)) + Suc n \<le> 64" using assms(1) by (simp add: cells_room_def)
  have f: "finite (crowd m (cell world_bounds p))" using fin crowd_with_place by (rule rev_finite_subset)
  then have "card (crowd m' (cell world_bounds p)) \<le> card (insert k (crowd m (cell world_bounds p)))"
    using assms(3) by (intro card_mono) simp_all
  also have "\<dots> \<le> Suc (card (crowd m (cell world_bounds p)))" using f by (simp add: card_insert_if)
  finally show "card (crowd m' (cell world_bounds p)) + n \<le> 64" using c by simp
qed

lemma room_upd:
  assumes "room acc (Suc n) P" "cells_room acc n m'"
  shows "room acc n (P(name \<mapsto> m'))"
proof -
  have f: "finite (dom P)" "card (dom P) + Suc n \<le> 64" using assms(1) by (simp_all add: room_def)
  have "card (dom (P(name \<mapsto> m'))) \<le> Suc (card (dom P))" using f(1) by (simp add: card_insert_if)
  moreover have "cells_room acc n m" if "(P(name \<mapsto> m')) k = Some m" for k m
    using that assms cells_room_Suc unfolding room_def by (cases "k = name") auto
  ultimately show ?thesis using f unfolding room_def by simp
qed

lemma room_mono: "room acc (Suc n) P \<Longrightarrow> room acc n P"
  using cells_room_Suc by (fastforce simp: room_def)

lemma room_remove: "room acc (Suc n) P \<Longrightarrow> room acc n (P(name := None))"
proof -
  assume r: "room acc (Suc n) P"
  have "card (dom (P(name := None))) \<le> card (dom P)" using r by (auto simp: room_def intro: card_mono)
  then show ?thesis using r cells_room_Suc by (fastforce simp: room_def split: if_splits)
qed

lemma room_record:
  assumes "room acc (Suc n) P" "P name = Some m" "with_place m' \<subseteq> insert k (with_place m)" "\<And>r. crowd m' r \<subseteq> insert k (crowd m r)"
  shows "room acc n (P(name \<mapsto> m'))"
proof (rule room_upd [OF assms(1)])
  have "cells_room acc (Suc n) m" using assms(1,2) unfolding room_def by blast
  then show "cells_room acc n m'" by (rule cells_room_one [OF _ assms(3,4)])
qed

lemma spec_write_room:
  assumes "room acc (Suc n) P"
  shows "room acc n (spec_write op P)"
proof (cases op)
  case (Layers_Create_Op b name)
  have "cells_room acc n Map.empty" using assms by (intro cells_room_empty) (simp add: room_def)
  then show ?thesis using Layers_Create_Op room_upd [OF assms] room_mono [OF assms] by simp
next
  case (Layers_Delete_Op b name)
  then show ?thesis using room_remove [OF assms] by simp
next
  case (Records_Put_Op op)
  then show ?thesis using room_record [OF assms _ with_place_put(1) crowd_put(1)] room_mono [OF assms] by (simp split: option.split)
next
  case (Records_Delete_Op op)
  have "room acc n (P(name \<mapsto> m(k := None)))" if "P name = Some m" for name m k
    by (rule room_record [OF assms that, of _ "[]"]) (use with_place_put(2) crowd_put(2) in blast)+
  then show ?thesis using room_mono [OF assms] Records_Delete_Op by (simp split: option.split)
qed (use room_mono [OF assms] in simp_all)

lemma execute_many:
  assumes "world_inv (accuracy_of env) ctx" "good_memory (env_memory env)" "\<forall>op \<in> set ops. op_ok op \<and> is_write op"
    and "\<forall>n < length ops. within_limits (accuracy_of env) (fold spec_write (take n ops) (places_of ctx))"
  shows "\<exists>ctx'. execute_ops env ops ctx = Some ctx' \<and> world_inv (accuracy_of env) ctx' \<and> places_of ctx' = fold spec_write ops (places_of ctx)"
  using assms
proof (induction ops arbitrary: ctx)
  case (Cons op ops)
  have "within_limits (accuracy_of env) (places_of ctx)" using Cons.prems(4) by fastforce
  then obtain ctx1 where c: "execute_op env op ctx = Some ctx1" "world_inv (accuracy_of env) ctx1" "places_of ctx1 = spec_write op (places_of ctx)"
    using write_step [OF Cons.prems(1) _ Cons.prems(2)] Cons.prems(3) by auto
  have "\<forall>n < length ops. within_limits (accuracy_of env) (fold spec_write (take n ops) (places_of ctx1))"
  proof (intro allI impI)
    fix n assume "n < length ops"
    then show "within_limits (accuracy_of env) (fold spec_write (take n ops) (places_of ctx1))"
      using spec [OF Cons.prems(4), of "Suc n"] c(3) by simp
  qed
  from Cons.IH [OF c(2) Cons.prems(2) _ this] Cons.prems(3) show ?case using c(1,3) by simp
qed simp

lemma init_world_inv: "world_inv acc (init_context t)" "places_of (init_context t) = Map.empty"
  by (simp_all add: world_inv_def init_context_inv places_of_layers fun_eq_iff)

section \<open>Draining\<close>

lemma runs_trans:
  assumes "runs env os s s'" "runs env os s' s''"
  shows "runs env os s s''"
  using assms(2,1) by (induction rule: runs.induct) (auto intro: runs.intros)

definition pending :: "system \<Rightarrow> operation list" where
  "pending s = in_hands s @ cq_list (srv_queue (sys_server s))"

definition can_drain :: "environment \<Rightarrow> system \<Rightarrow> bool" where
  "can_drain env s =
     (sys_inv s \<and> sys_workers s \<noteq> [] \<and> \<not> srv_should_exit (sys_server s) \<and> good_memory (env_memory env) \<and>
      world_inv (accuracy_of env) (srv_ctx (sys_server s)) \<and> (\<forall>op \<in> set (sys_accepted s). simple_op op) \<and>
      plain_places (places_of (srv_ctx (sys_server s))) \<and> room (accuracy_of env) (length (pending s)) (places_of (srv_ctx (sys_server s))))"

text \<open>An operation in the queue has two steps before it, one in the hands of a worker has one.\<close>

definition left_to_do :: "system \<Rightarrow> nat" where
  "left_to_do s = 2 * length (cq_list (srv_queue (sys_server s))) + length (in_hands s)"

text \<open>While something is pending, a worker can take or execute an operation.\<close>

lemma worker_progress:
  assumes "can_drain env s" "pending s \<noteq> []"
  shows "\<exists>s'. system_step env os s s' \<and> can_drain env s' \<and> sys_accepted s' = sys_accepted s \<and>
    left_to_do s' < left_to_do s"
proof (cases "in_hands s = []")
  case False
  then obtain w op where w: "w < length (sys_workers s)" "sys_workers s ! w = Some op"
    by (auto simp: in_hands_def in_set_conv_nth split: option.splits)
  obtain xs ys where h: "in_hands s = xs @ (case sys_workers s ! w of None \<Rightarrow> [] | Some op \<Rightarrow> [op]) @ ys"
    "in_hands (s\<lparr>sys_workers := (sys_workers s)[w := None]\<rparr>) = xs @ [] @ ys"
    by (rule in_hands_update [OF w(1)]) (metis option.simps(4))
  have inv: "sys_inv s" using assms(1) by (simp add: can_drain_def)
  have "op \<in> set (in_hands s)" using h(1) w(2) by simp
  then have "op \<in> set (sys_accepted s)" using inv
    by (metis (no_types, lifting) sys_inv_def Un_iff set_mset_mset set_mset_union)
  then have op: "op_ok op" "simple_op op" using inv assms(1) by (auto simp: sys_inv_def pending_ok_def can_drain_def)
  obtain n where n: "length (pending s) = Suc n" using assms(2) by (cases "pending s") auto
  have r: "room (accuracy_of env) (Suc n) (places_of (srv_ctx (sys_server s)))" using assms(1) n by (simp add: can_drain_def)
  obtain ctx where c: "execute_op env op (srv_ctx (sys_server s)) = Some ctx" "world_inv (accuracy_of env) ctx"
    "places_of ctx = spec_write op (places_of (srv_ctx (sys_server s)))"
    using execute_step [OF _ room_limits [OF r] _ op] assms(1) by (auto simp: can_drain_def)
  note step = system_step.Execute [OF w c(1), of os]
  let ?s = "s\<lparr>sys_server := (sys_server s)\<lparr>srv_ctx := ctx\<rparr>, sys_workers := (sys_workers s)[w := None], sys_executed := sys_executed s @ [op]\<rparr>"
  have hands: "in_hands ?s = xs @ ys" using h(2) by (simp add: in_hands_def)
  have "length (pending ?s) = n" using n h(1) hands w(2) by (simp add: pending_def)
  then have "can_drain env ?s"
    using assms(1) system_step_inv [OF step inv] c(2,3) spec_write_room [OF r, of op] spec_write_plain [OF _ op(1)] by (auto simp: can_drain_def)
  then show ?thesis using step hands h(1) w(2) by (intro exI [of _ ?s]) (simp add: left_to_do_def)
next
  case True
  then have idle: "\<forall>w < length (sys_workers s). sys_workers s ! w = None"
    by (auto simp: in_hands_def split: option.splits dest!: nth_mem)
  have inv: "sys_inv s" "cq_inv (srv_queue (sys_server s))" "sys_workers s \<noteq> []" using assms(1) by (simp_all add: can_drain_def sys_inv_def)
  obtain op rest where q: "cq_list (srv_queue (sys_server s)) = op # rest" using True assms(2) by (cases "cq_list (srv_queue (sys_server s))") (auto simp: pending_def)
  have "op \<in> set (sys_accepted s)" using inv(1) q by (auto simp: sys_inv_def simp flip: set_mset_mset)
  then have req: "op_req (bare op) \<noteq> 0" using inv(1) by (auto simp: sys_inv_def pending_ok_def)
  obtain q' where sh: "shift_cqueue (srv_queue (sys_server s)) = Some (Some op, q')" "cq_list q' = rest"
    by (cases rule: cq.shift_cases [OF inv(2)]) (use q in auto)
  let ?rq = "(srv_rq (sys_server s))\<lparr>rq_cqueue := q'\<rparr>"
  have w: "0 < length (sys_workers s)" using inv(3) by simp
  have take: "take_op (srv_should_exit (sys_server s)) (srv_rq (sys_server s)) = Some (Took op, ?rq)"
    using sh(1) req assms(1) by (simp add: take_op_def can_drain_def)
  have "sys_workers s ! 0 = None" using idle w by blast
  let ?s = "s\<lparr>sys_server := (sys_server s)\<lparr>srv_rq := ?rq\<rparr>, sys_workers := (sys_workers s)[0 := Some op]\<rparr>"
  have st: "system_step env os s ?s" by (rule system_step.Take [OF w \<open>sys_workers s ! 0 = None\<close> take])
  have hands: "in_hands ?s = [op]"
  proof -
    obtain xs ys where h: "in_hands s = xs @ (case sys_workers s ! 0 of None \<Rightarrow> [] | Some op \<Rightarrow> [op]) @ ys"
      "in_hands (s\<lparr>sys_workers := (sys_workers s)[0 := Some op]\<rparr>) = xs @ [op] @ ys"
      by (rule in_hands_update [OF w]) (metis option.simps(5))
    then show ?thesis using True by (simp add: in_hands_def)
  qed
  have "can_drain env ?s" using assms(1) system_step_inv [OF st inv(1)] q sh(2) hands True by (auto simp: can_drain_def pending_def)
  then show ?thesis using st hands q sh(2) True by (intro exI [of _ ?s]) (simp add: left_to_do_def)
qed

lemma draining_run:
  assumes "can_drain env s"
  shows "\<exists>s'. runs env os s s' \<and> pending s' = [] \<and> sys_accepted s' = sys_accepted s \<and> mset (sys_executed s') = mset (sys_accepted s)"
  using assms
proof (induction "left_to_do s" arbitrary: s rule: less_induct)
  case less
  show ?case
  proof (cases "pending s = []")
    case True
    then show ?thesis using less.prems runs_refl [of env os s] by (auto simp: can_drain_def sys_inv_def pending_def)
  next
    case False
    obtain s1 where s1: "system_step env os s s1" "can_drain env s1" "sys_accepted s1 = sys_accepted s" "left_to_do s1 < left_to_do s"
      using worker_progress [OF less.prems False, of os] by blast
    obtain s' where s': "runs env os s1 s'" "pending s' = []" "sys_accepted s' = sys_accepted s1" "mset (sys_executed s') = mset (sys_accepted s1)"
      using less.hyps [OF s1(4,2)] by blast
    have "runs env os s s'" by (rule runs_trans [OF runs_step [OF runs_refl s1(1)] s'(1)])
    then show ?thesis using s' s1(3) by (intro exI [of _ s']) simp
  qed
qed

section \<open>Properties\<close>

text \<open>
  C3: the database refines the abstract one in its layers, the keys, positions and expirations of its records, not in their properties. With
  enough memory, whatever well-formed operations that write are executed on an empty database, none of them faults, and
  afterwards they are those that the abstract operations give, as long as before each operation the abstract database
  is within its limits: fewer than 64 layers, and in each layer fewer than 64 records in any cell that is too small to be split
  or more than 14 levels deep (beyond these a slab can lose track of its elements).
\<close>

theorem database_refines_places:
  assumes "good_memory (env_memory env)" "\<forall>op \<in> set ops. op_ok op \<and> is_write op"
    and "\<forall>n < length ops. within_limits (accuracy_of env) (fold spec_write (take n ops) Map.empty)"
  shows "\<exists>ctx. execute_ops env ops (init_context t) = Some ctx \<and> ctx_inv ctx \<and> places_of ctx = fold spec_write ops Map.empty"
proof -
  from execute_many [OF init_world_inv(1) assms(1,2), of t] assms(3) show ?thesis
    unfolding init_world_inv(2) by (auto simp: world_inv_def)
qed

lemma put_place_rebare [simp]: "put_place (set_put_bare b op) = put_place op"
  by (intro ext) (simp add: put_place_def cong: if_cong)

lemma spec_rebare [simp]: "spec_write (rebare b op) P = spec_write op P"
  by (cases op) (simp_all split: option.split)

lemma spec_rebare_fun [simp]: "spec_write (rebare b op) = spec_write op"
  by (rule ext) (rule spec_rebare)

lemma spec_writes_of: "fold spec_write (writes_of ops) P = fold spec_write (filter is_write ops) P"
  by (induction ops arbitrary: P) (simp_all add: writes_of_def)

lemma op_ok_rebare [simp]: "op_ok (rebare b op) = op_ok op"
  by (cases op) (simp_all add: put_op_ok_def)

text \<open>
  C2: what a server with one worker serves. Once it has executed everything it accepted, with enough memory and with no record expired, its
  layers and the keys, positions and expirations of its records (not their properties) are those that the accepted operations
  give in the order of their requests, as long as the abstract database stays within its limits: at every prefix of the accepted
  operations that write, fewer than 64 layers, and in each layer fewer than 64 records in any cell that is too small to be split or more
  than 14 levels deep.
\<close>

theorem server_refines_places:
  assumes "runs env os (start_system 1 (fresh_server t journal as q)) s" "init_cqueue malloc_ok n sz = Inr q"
    and "pending s = []" "\<not> sys_purged s" "good_memory (env_memory env)"
    and "\<forall>n. within_limits (accuracy_of env) (fold spec_write (take n (filter is_write (sys_accepted s))) Map.empty)"
  shows "places_of (srv_ctx (sys_server s)) = fold spec_write (filter is_write (sys_accepted s)) Map.empty"
proof -
  let ?s0 = "start_system 1 (fresh_server t journal as q)" and ?ops = "writes_of (sys_accepted s)"
  have inv0: "sys_inv ?s0" by (rule start_system_inv) (simp_all add: fresh_server_def init_cqueue_inv [OF assms(2)])
  note inv = runs_inv [OF assms(1) inv0]
  have "db_follows env ?s0" by (simp add: db_follows_def start_system_def fresh_server_def init_context_def db_of_def with_clock_def)
  then have f: "db_follows env s" by (rule runs_follows [OF assms(1) inv0])
  have all: "sys_executed s = sys_accepted s" using inv assms(3) by (simp add: sys_inv_def start_system_def pending_def)
  then have ex: "execute_ops env ?ops (init_context 0) = Some (db_of (srv_ctx (sys_server s)))"
    using f assms(4) by (simp add: db_follows_def init_context_def db_of_def with_clock_def)
  have ok: "\<forall>op \<in> set ?ops. op_ok op \<and> is_write op"
  proof
    fix op assume "op \<in> set ?ops"
    then obtain op0 where o: "op = rebare fake_bare op0" "op0 \<in> set (sys_accepted s)" "is_write op0" by (auto simp: writes_of_def)
    then have "op_ok op0" using inv by (simp add: sys_inv_def pending_ok_def)
    then show "op_ok op \<and> is_write op" using o(1,3) by simp
  qed
  have lim: "\<forall>n < length ?ops. within_limits (accuracy_of env) (fold spec_write (take n ?ops) (places_of (init_context 0)))"
  proof (intro allI impI)
    fix n
    have "fold spec_write (take n ?ops) P = fold spec_write (take n (filter is_write (sys_accepted s))) P" for P
      unfolding writes_of_def take_map fold_map by (simp add: comp_def)
    then show "within_limits (accuracy_of env) (fold spec_write (take n ?ops) (places_of (init_context 0)))"
      using assms(6) by (simp add: init_world_inv(2))
  qed
  have "places_of (db_of (srv_ctx (sys_server s))) = fold spec_write ?ops Map.empty"
    using execute_many [OF init_world_inv(1) assms(5) ok lim] ex init_world_inv(2) by auto
  moreover have "places_of (db_of ctx) = places_of ctx" for ctx
    by (simp add: fun_eq_iff places_of_layers layers_def db_of_def)
  ultimately show ?thesis by (simp add: spec_writes_of)
qed


end
