(* ===== verification/Restart_Runs.thy ===== *)
theory Restart_Runs
  imports Database
begin

text \<open>
  Runs of a server whose clients create and delete layers, with the journal that they leave: the witnesses of the theorems
  on restarts and on the database, and a run with two workers after which the journal and the database disagree.
\<close>

section \<open>Requests for layers\<close>

definition layers_uri :: "bytes \<Rightarrow> bytes" where
  "layers_uri name = encoded_api_base_uri @ bytes_of ''layers/'' @ name @ bytes_of ''.json''"

definition plain_name :: "bytes \<Rightarrow> bool" where
  "plain_name name = (plain_uri name \<and> name \<noteq> [] \<and> length name \<le> 9000)"

lemma plain_uri_append [simp]: "plain_uri (a @ b) = (plain_uri a \<and> plain_uri b)"
  by (auto simp: plain_uri_def)

lemma layers_uri_facts:
  assumes "plain_name name"
  shows "take (length encoded_api_base_uri) (layers_uri name) = encoded_api_base_uri" "0 \<notin> set (layers_uri name)"
    "extract_opts (c_str (evhttp_decode_uri False (drop (length encoded_api_base_uri) (layers_uri name)))) =
       (bytes_of ''layers/'' @ name @ bytes_of ''.json'', None)"
    "api_parts (bytes_of ''layers/'' @ name @ bytes_of ''.json'') = Some (bytes_of ''layers'', name)"
    "length (layers_uri name) \<le> 9100"
proof -
  have fixed: "plain_uri (bytes_of ''layers/'')" "plain_uri (bytes_of ''.json'')" "plain_uri encoded_api_base_uri"
    by (simp_all add: plain_uri_def bytes_of_def encoded_api_base_uri_def)
  then show "take (length encoded_api_base_uri) (layers_uri name) = encoded_api_base_uri" "0 \<notin> set (layers_uri name)"
    "extract_opts (c_str (evhttp_decode_uri False (drop (length encoded_api_base_uri) (layers_uri name)))) =
       (bytes_of ''layers/'' @ name @ bytes_of ''.json'', None)"
    using assms by (auto simp: layers_uri_def plain_name_def plain_parts) (auto simp: plain_uri_def)
  show "length (layers_uri name) \<le> 9100"
    using assms by (simp add: layers_uri_def plain_name_def bytes_of_def encoded_api_base_uri_def)
  let ?path = "bytes_of ''layers/'' @ name @ bytes_of ''.json''"
  have len: "length (bytes_of ''layers/'') = 7" "length (bytes_of ''.json'') = 5" "length json_ext = 5" by (simp_all add: bytes_of_def json_ext_def)
  have ext: "drop (length ?path - length json_ext) ?path = bytes_of ''.json''" "take (length ?path - length json_ext) ?path = bytes_of ''layers/'' @ name"
    using len by simp_all
  have split: "split_at CHR ''/'' (bytes_of ''layers/'' @ name) = Some (bytes_of ''layers'', name)"
  proof -
    have eq: "bytes_of ''layers/'' @ name = bytes_of ''layers'' @ chr CHR ''/'' # name" by (simp add: bytes_of_def)
    show ?thesis unfolding eq by (rule split_at_first) (simp add: bytes_of_def)
  qed
  have "strcasecmp_eq (bytes_of ''.json'') json_ext" by (simp add: strcasecmp_eq_def json_ext_def)
  moreover have "length json_ext < length ?path" "length ?path \<le> MAX_URI_LEN" using assms len by (simp_all add: plain_name_def MAX_URI_LEN_def)
  ultimately show "api_parts ?path = Some (bytes_of ''layers'', name)"
    unfolding api_parts_def ext Let_def split by simp
qed

lemma layers_domain:
  "domain_handler env os (bytes_of ''layers'') = Some (\<lambda>req uri opts fake. on_queue (handle_domain_layers (env_memory env) req uri fake))"
  by (simp add: domain_handler_def strcasecmp_eq_def bytes_of_def tolower_def)

definition layer_op :: "nat \<Rightarrow> bare_op \<Rightarrow> bytes \<Rightarrow> operation" where
  "layer_op verb b name = (if verb = EVHTTP_REQ_POST then Layers_Create_Op b name else Layers_Delete_Op b name)"

lemma handle_layers_request:
  assumes "good_memory mem" "plain_name name" "req_type req = EVHTTP_REQ_POST \<or> req_type req = EVHTTP_REQ_DELETE"
  shows "handle_domain_layers mem req name fake rq = queue_op (layer_op (req_type req) (bare_of req fake rq) name) True (next_tid rq)"
proof -
  have "request_key mem name = Some (Some (name @ [0]))"
    using assms(1,2) by (simp add: request_key_def good_memory_def plain_name_def SIZE_MAX_def sizeof_key_def)
  then show ?thesis using assms(2,3)
    by (auto simp: handle_domain_layers_def layer_op_def plain_name_def EVHTTP_REQ_GET_def EVHTTP_REQ_POST_def EVHTTP_REQ_DELETE_def)
qed

text \<open>A request for a layer with room in the queue: its operation is queued and the request goes to the journal.\<close>

lemma layers_request:
  assumes "good_memory (env_memory env)" "plain_name name" "req_type req = EVHTTP_REQ_POST \<or> req_type req = EVHTTP_REQ_DELETE"
    and "cq_inv (srv_queue srv)" "length (cq_list (srv_queue srv)) < cq_capacity (srv_queue srv)"
  obtains q where "cq_inv q" "cq_capacity q = cq_capacity (srv_queue srv)"
    "cq_list q = cq_list (srv_queue srv) @ [layer_op (req_type req) (bare_of req False (srv_rq srv)) name]"
    "process_request env os (layers_uri name) req False srv =
       do { srv' \<leftarrow> log_request (req_type req) (layers_uri name) (req_input req) (srv\<lparr>srv_rq := (next_tid (srv_rq srv))\<lparr>rq_cqueue := q\<rparr>\<rparr>);
            Some (0, srv') }"
proof -
  let ?op = "layer_op (req_type req) (bare_of req False (srv_rq srv)) name"
  have room: "cq_inv (rq_cqueue (next_tid (srv_rq srv)))"
    "length (cq_list (rq_cqueue (next_tid (srv_rq srv)))) < cq_capacity (rq_cqueue (next_tid (srv_rq srv)))" using assms(4,5) by simp_all
  obtain q where q: "queue_op ?op True (next_tid (srv_rq srv)) = Some (0, True, (next_tid (srv_rq srv))\<lparr>rq_cqueue := q\<rparr>)"
    "cq_inv q" "cq_list q = cq_list (srv_queue srv) @ [?op]" "cq_capacity q = cq_capacity (srv_queue srv)"
    using queue_op_room [OF room, of ?op True] by auto
  have "input_after (bytes_of ''layers'') req = req_input req" by (simp add: input_after_def strcasecmp_eq_def bytes_of_def)
  then show thesis using that [of q] q layers_uri_facts [OF assms(2)]
    by (simp add: process_request_def process_api_request_def layers_domain on_queue_def handle_layers_request [OF assms(1-3)])
qed

text \<open>With an fsync period of 0 a request without a body is written at once.\<close>

definition entry_bytes :: "server \<Rightarrow> nat \<Rightarrow> bytes \<Rightarrow> bytes" where
  "entry_bytes srv verb uri =
     enc_items (logged_items (dl_last_ts (srv_log srv)) [(\<lparr>lc_now = now (srv_ctx srv), lc_active_slaves = None\<rparr>, verb, uri, [], True)])"

definition synced_log :: "db_log \<Rightarrow> bool" where
  "synced_log db = (dl_open db \<and> dl_fsync_period db = 0 \<and> dl_log_buffer db = [])"

lemma log_request_written:
  assumes log: "synced_log (srv_log srv)" and len: "length uri \<le> 10000"
    and as: "srv_writes srv = (int (length (entry_bytes srv verb uri)), e) # as"
  shows "log_request verb uri [] srv = Some (srv\<lparr>srv_log := (srv_log srv)\<lparr>dl_file := dl_file (srv_log srv) @ entry_bytes srv verb uri,
      dl_last_ts := max (start_of_minute (now (srv_ctx srv))) (dl_last_ts (srv_log srv))\<rparr>, srv_writes := as\<rparr>)"
proof -
  let ?db = "srv_log srv" and ?ts = "start_of_minute (now (srv_ctx srv))" and ?e = "entry_bytes srv verb uri"
  define db2 where "db2 = ?db\<lparr>dl_last_ts := max ?ts (dl_last_ts ?db), dl_log_buffer := ?e\<rparr>"
  have rec: "log_record verb uri None 0 = enc_item (Request verb uri [])" by (simp add: log_record_def)
  have e: "?e = (if ?ts > dl_last_ts ?db then enc_item (Stamp (nat ?ts)) else []) @ enc_item (Request verb uri [])"
    using len by (simp add: entry_bytes_def strip_nul_def Let_def)
  have ne: "?e \<noteq> []" by (simp add: e cookie_head_def bytes_of_def)
  have "add_to_db_log (srv_writes srv) True True \<lparr>lc_now = now (srv_ctx srv), lc_active_slaves = None\<rparr> verb uri [] True ?db =
      flush_if_needed (srv_writes srv) db2 []"
    using log len by (auto simp: add_to_db_log_def synced_log_def DB_LOG_MAX_URI_LEN_def Let_def rec db2_def e add_ts_to_ev_log_buffer_def)
  also have "\<dots> = Some (0, db2\<lparr>dl_log_buffer := [], dl_file := dl_file ?db @ ?e\<rparr>, [], as)"
    using log ne as by (simp add: flush_if_needed_def flush_db_log_def db2_def synced_log_def flush_loop.simps Let_def)
  finally show ?thesis using log by (simp add: log_request_def db2_def synced_log_def)
qed

section \<open>What such a run looks like\<close>

text \<open>The operations are given without their requesters; all requests come within the second minute.\<close>

record view_of_run =
  v_workers :: "operation option list"
  v_queue :: "operation list"
  v_accepted :: "operation list"
  v_executed :: "operation list"
  v_writes :: "(nat \<times> bytes \<times> bytes) list"
  v_file :: bytes
  v_last_ts :: int
  v_answers :: write_answers

abbreviation bared :: "operation list \<Rightarrow> operation list" where
  "bared \<equiv> map (rebare fake_bare)"

definition looks :: "environment \<Rightarrow> system \<Rightarrow> view_of_run \<Rightarrow> bool" where
  "looks env s v =
     (sys_inv s \<and> map (map_option (rebare fake_bare)) (sys_workers s) = v_workers v \<and>
      bared (cq_list (srv_queue (sys_server s))) = v_queue v \<and> cq_capacity (srv_queue (sys_server s)) = 16 \<and>
      bared (sys_accepted s) = v_accepted v \<and> bared (sys_executed s) = v_executed v \<and> sys_writes s = v_writes v \<and>
      synced_log (srv_log (sys_server s)) \<and> dl_file (srv_log (sys_server s)) = v_file v \<and>
      dl_last_ts (srv_log (sys_server s)) = v_last_ts v \<and> srv_writes (sys_server s) = v_answers v \<and>
      \<not> sys_purged s \<and> sys_clocks s = [100] \<and> now (srv_ctx (sys_server s)) = 100 \<and> \<not> srv_should_exit (sys_server s) \<and>
      world_inv (accuracy_of env) (srv_ctx (sys_server s)) \<and> places_of (srv_ctx (sys_server s)) = fold spec_write (v_executed v) Map.empty)"

definition entry_at :: "int \<Rightarrow> nat \<Rightarrow> bytes \<Rightarrow> bytes" where
  "entry_at ts verb uri = enc_items ((if 60 > ts then [Stamp 60] else []) @ [Request verb uri []])"

lemma minute_100: "start_of_minute 100 = 60"
  by (simp add: start_of_minute_def DB_LOG_TIMESTAMP_GRANULARITY_def)

lemma entry_bytes_at: "now (srv_ctx srv) = 100 \<Longrightarrow> length uri \<le> 10000 \<Longrightarrow> entry_bytes srv verb uri = entry_at (dl_last_ts (srv_log srv)) verb uri"
  by (simp add: entry_bytes_def entry_at_def minute_100 strip_nul_def Let_def)

lemma rebare_layer_op [simp]: "rebare b (layer_op verb b' name) = layer_op verb b name"
  by (simp add: layer_op_def)

lemma is_write_layer_op [simp]: "is_write (layer_op verb b name)"
  by (simp add: layer_op_def)

lemma looks_start:
  assumes "init_cqueue malloc_ok 16 sz = Inr q" "cq_capacity q = 16"
  shows "looks env (start_system n (fresh_server 100 (fresh_log 0 1000) as q))
    \<lparr>v_workers = replicate n None, v_queue = [], v_accepted = [], v_executed = [], v_writes = [], v_file = [], v_last_ts = - 1, v_answers = as\<rparr>"
proof -
  have "sys_inv (start_system n (fresh_server 100 (fresh_log 0 1000) as q))"
    by (rule start_system_inv) (simp_all add: fresh_server_def init_cqueue_inv [OF assms(1)])
  then show ?thesis using assms(2) init_cqueue_inv [OF assms(1)] init_world_inv(1) [of "accuracy_of env" 100] init_world_inv(2) [of 100]
    by (simp add: looks_def start_system_def fresh_server_def fresh_log_def synced_log_def)
      (simp add: init_context_def)
qed

lemma looks_workers:
  assumes "looks env s v"
  shows "length (v_workers v) = length (sys_workers s)"
    "w < length (v_workers v) \<Longrightarrow> v_workers v ! w = map_option (rebare fake_bare) (sys_workers s ! w)"
proof -
  have m: "v_workers v = map (map_option (rebare fake_bare)) (sys_workers s)" using assms by (simp add: looks_def)
  then show "length (v_workers v) = length (sys_workers s)" by simp
  show "v_workers v ! w = map_option (rebare fake_bare) (sys_workers s ! w)" if "w < length (v_workers v)" using m that by simp
qed

definition verb_ok :: "nat \<Rightarrow> bool" where
  "verb_ok verb = (verb = EVHTTP_REQ_POST \<or> verb = EVHTTP_REQ_DELETE)"

lemma looks_request:
  assumes "looks env s v" "good_memory (env_memory env)" "plain_name name" "verb_ok verb" "length (v_queue v) < 16"
    and "v_answers v = (int (length (entry_at (v_last_ts v) verb (layers_uri name))), e) # as"
  shows "\<exists>s'. system_step env os s s' \<and> looks env s' (v\<lparr>v_queue := v_queue v @ [layer_op verb fake_bare name],
    v_accepted := v_accepted v @ [layer_op verb fake_bare name], v_writes := v_writes v @ [(verb, layers_uri name, [])],
    v_file := v_file v @ entry_at (v_last_ts v) verb (layers_uri name), v_last_ts := max 60 (v_last_ts v), v_answers := as\<rparr>)"
proof -
  let ?srv = "sys_server s" and ?req = "\<lparr>req_id = 1, req_type = verb, req_input = []\<rparr>" and ?uri = "layers_uri name"
  have l: "sys_inv s" "cq_inv (srv_queue ?srv)" "synced_log (srv_log ?srv)" "now (srv_ctx ?srv) = 100"
    "length (cq_list (srv_queue ?srv)) < cq_capacity (srv_queue ?srv)"
    using assms(1,5) unfolding looks_def sys_inv_def by (auto dest: arg_cong [of _ _ length])
  have v: "req_type ?req = EVHTTP_REQ_POST \<or> req_type ?req = EVHTTP_REQ_DELETE" using assms(4) by (simp add: verb_ok_def)
  let ?b = "bare_of ?req False (srv_rq ?srv)"
  obtain q where q: "cq_inv q" "cq_capacity q = cq_capacity (srv_queue ?srv)"
    "cq_list q = cq_list (srv_queue ?srv) @ [layer_op verb ?b name]"
    "process_request env os ?uri ?req False ?srv =
       do { srv' \<leftarrow> log_request verb ?uri [] (?srv\<lparr>srv_rq := (next_tid (srv_rq ?srv))\<lparr>rq_cqueue := q\<rparr>\<rparr>); Some (0, srv') }"
    using layers_request [OF assms(2,3) v l(2,5), of os] by auto
  let ?srv1 = "?srv\<lparr>srv_rq := (next_tid (srv_rq ?srv))\<lparr>rq_cqueue := q\<rparr>\<rparr>"
  have uri: "length ?uri \<le> 10000" "0 \<notin> set ?uri" using layers_uri_facts(2,5) [OF assms(3)] by simp_all
  have e: "entry_bytes ?srv1 verb ?uri = entry_at (v_last_ts v) verb ?uri"
    using entry_bytes_at [of ?srv1 ?uri verb] l(4) uri(1) assms(1) by (simp add: looks_def)
  have "srv_writes ?srv1 = (int (length (entry_bytes ?srv1 verb ?uri)), e) # as" using e assms(1,6) by (simp add: looks_def)
  from log_request_written [OF _ uri(1) this] l(3,4) e
  have log: "log_request verb ?uri [] ?srv1 = Some (?srv1\<lparr>srv_log := (srv_log ?srv)\<lparr>dl_file := dl_file (srv_log ?srv) @ entry_at (v_last_ts v) verb ?uri,
      dl_last_ts := max 60 (dl_last_ts (srv_log ?srv))\<rparr>, srv_writes := as\<rparr>)" (is "_ = Some ?srv2") by (simp add: minute_100)
  then have run: "process_request env os ?uri ?req False ?srv = Some (0, ?srv2)" using q(4) by simp
  have new: "newly_queued ?srv ?srv2 = [layer_op verb ?b name]" using q(3) by (simp add: newly_queued_def)
  note step = system_step.Request [OF run _ uri(2), simplified new, simplified]
  note inv = system_step_inv [OF step l(1)]
  show ?thesis
    by (rule exI, rule conjI, rule step) (use assms(1) q inv l(3) in \<open>simp add: looks_def synced_log_def\<close>)
qed

lemma looks_take:
  assumes "looks env s v" "v_queue v = op # ops" "w < length (v_workers v)" "v_workers v ! w = None"
  shows "\<exists>s'. system_step env os s s' \<and> looks env s' (v\<lparr>v_queue := ops, v_workers := (v_workers v)[w := Some op]\<rparr>)"
proof -
  let ?srv = "sys_server s"
  have l: "sys_inv s" "cq_inv (srv_queue ?srv)" "bared (cq_list (srv_queue ?srv)) = op # ops" "w < length (sys_workers s)"
    "\<not> srv_should_exit ?srv"
    using assms(1-3) looks_workers(1) [OF assms(1)] by (simp_all add: looks_def sys_inv_def)
  have idle: "sys_workers s ! w = None" using assms(4) looks_workers(2) [OF assms(1,3)] by simp
  obtain op1 ops1 where q: "cq_list (srv_queue ?srv) = op1 # ops1" "rebare fake_bare op1 = op" "bared ops1 = ops"
    using l(3) by auto
  have "op1 \<in> set (sys_accepted s)" using l(1) q(1) by (auto simp: sys_inv_def simp flip: set_mset_mset)
  then have req: "op_req (bare op1) \<noteq> 0" using l(1) by (auto simp: sys_inv_def pending_ok_def)
  obtain q' where sh: "shift_cqueue (srv_queue ?srv) = Some (Some op1, q')" "cq_list q' = ops1" "cq_capacity q' = cq_capacity (srv_queue ?srv)"
    by (cases rule: cq.shift_cases [OF l(2)]) (use q in auto)
  let ?rq = "(srv_rq ?srv)\<lparr>rq_cqueue := q'\<rparr>"
  have take: "take_op (srv_should_exit ?srv) (srv_rq ?srv) = Some (Took op1, ?rq)" using sh(1) req l(5) by (simp add: take_op_def)
  have step: "system_step env os s (s\<lparr>sys_server := ?srv\<lparr>srv_rq := ?rq\<rparr>, sys_workers := (sys_workers s)[w := Some op1]\<rparr>)"
    by (rule system_step.Take [OF l(4) idle take])
  show ?thesis
    by (rule exI, rule conjI, rule step)
      (use assms(1) q(2,3) sh(2,3) system_step_inv [OF step l(1)] in \<open>simp add: looks_def map_update\<close>)
qed

lemma looks_execute:
  assumes "looks env s v" "w < length (v_workers v)" "v_workers v ! w = Some op" "good_memory (env_memory env)" "is_write op"
    and "within_limits (accuracy_of env) (fold spec_write (v_executed v) Map.empty)"
  shows "\<exists>s'. system_step env os s s' \<and> looks env s' (v\<lparr>v_executed := v_executed v @ [op], v_workers := (v_workers v)[w := None]\<rparr>)"
proof -
  let ?srv = "sys_server s"
  have l: "sys_inv s" "w < length (sys_workers s)" using assms(1,2) looks_workers(1) [OF assms(1)] by (simp_all add: looks_def)
  obtain op1 where busy: "sys_workers s ! w = Some op1" "rebare fake_bare op1 = op"
    using assms(3) looks_workers(2) [OF assms(1,2)] by auto
  have "op1 \<in> set (in_hands s)" using l(2) busy(1) nth_mem [OF l(2)] by (auto simp: in_hands_def intro!: bexI [of _ "sys_workers s ! w"])
  then have "op1 \<in> set (sys_accepted s)" using l(1) by (metis (no_types, lifting) sys_inv_def Un_iff set_mset_mset set_mset_union)
  then have "op_ok op1" using l(1) by (auto simp: sys_inv_def pending_ok_def)
  moreover have "is_write op1" using assms(5) busy(2) by fastforce
  ultimately obtain ctx where c: "execute_op env op1 (srv_ctx ?srv) = Some ctx" "world_inv (accuracy_of env) ctx"
    "places_of ctx = spec_write op1 (places_of (srv_ctx ?srv))"
    using write_step [of env "srv_ctx ?srv" op1] assms(1,4,6) by (auto simp: looks_def)
  note step = system_step.Execute [OF l(2) busy(1) c(1), of os]
  have spec: "spec_write op = spec_write op1" unfolding busy(2) [symmetric] by simp
  show ?thesis
    by (rule exI, rule conjI, rule step)
      (use assms(1) busy(2) c(2,3) spec execute_now [OF c(1)] system_step_inv [OF step l(1)] in \<open>simp add: looks_def map_update\<close>)
qed

section \<open>Reaching a state\<close>

definition reaches :: "environment \<Rightarrow> os_answers \<Rightarrow> system \<Rightarrow> view_of_run \<Rightarrow> bool" where
  "reaches env os s0 v = (\<exists>s. runs env os s0 s \<and> looks env s v)"

lemma reaches_step:
  assumes "reaches env os s0 v" "\<And>s. looks env s v \<Longrightarrow> \<exists>s'. system_step env os s s' \<and> looks env s' v'"
  shows "reaches env os s0 v'"
  using assms unfolding reaches_def by (meson runs_step)

lemma reaches_request:
  assumes "reaches env os s0 v" "good_memory (env_memory env)" "plain_name name" "verb_ok verb" "length (v_queue v) < 16"
    and "v_answers v = (int (length (entry_at (v_last_ts v) verb (layers_uri name))), e) # as"
  shows "reaches env os s0 (v\<lparr>v_queue := v_queue v @ [layer_op verb fake_bare name],
    v_accepted := v_accepted v @ [layer_op verb fake_bare name], v_writes := v_writes v @ [(verb, layers_uri name, [])],
    v_file := v_file v @ entry_at (v_last_ts v) verb (layers_uri name), v_last_ts := max 60 (v_last_ts v), v_answers := as\<rparr>)"
  using assms(1) by (rule reaches_step) (rule looks_request [OF _ assms(2-6)])

lemma reaches_take:
  assumes "reaches env os s0 v" "v_queue v = op # ops" "w < length (v_workers v)" "v_workers v ! w = None"
  shows "reaches env os s0 (v\<lparr>v_queue := ops, v_workers := (v_workers v)[w := Some op]\<rparr>)"
  using assms(1) by (rule reaches_step) (rule looks_take [OF _ assms(2-4)])

lemma reaches_execute:
  assumes "reaches env os s0 v" "w < length (v_workers v)" "v_workers v ! w = Some op" "good_memory (env_memory env)" "is_write op"
    and "within_limits (accuracy_of env) (fold spec_write (v_executed v) Map.empty)"
  shows "reaches env os s0 (v\<lparr>v_executed := v_executed v @ [op], v_workers := (v_workers v)[w := None]\<rparr>)"
  using assms(1) by (rule reaches_step) (rule looks_execute [OF _ assms(2-6)])

lemma room_fold: "room acc (n + length ops) P \<Longrightarrow> room acc n (fold spec_write ops P)"
  by (induction ops arbitrary: P) (simp_all add: spec_write_room)

text \<open>Fewer than 64 operations cannot exceed the limits.\<close>

lemma few_ops_limits:
  assumes "length ops < 64"
  shows "within_limits acc (fold spec_write ops Map.empty)"
proof -
  have "room acc (1 + length ops) Map.empty" using assms by (simp add: room_def)
  then show ?thesis using room_limits [of acc 0] room_fold [of acc 1 ops] by simp
qed

abbreviation sample_uri :: bytes where
  "sample_uri \<equiv> layers_uri sample_layer"

abbreviation create_op :: operation where
  "create_op \<equiv> Layers_Create_Op fake_bare sample_layer"

abbreviation drop_op :: operation where
  "drop_op \<equiv> Layers_Delete_Op fake_bare sample_layer"

abbreviation create_entry :: bytes where
  "create_entry \<equiv> entry_at (- 1) EVHTTP_REQ_POST sample_uri"

abbreviation drop_entry :: bytes where
  "drop_entry \<equiv> entry_at 60 EVHTTP_REQ_DELETE sample_uri"

lemma sample_plain: "plain_name sample_layer"
  by (simp add: plain_name_def plain_uri_def sample_layer_def bytes_of_def)

lemma sample_layer_ops: "layer_op EVHTTP_REQ_POST fake_bare sample_layer = create_op" "layer_op EVHTTP_REQ_DELETE fake_bare sample_layer = drop_op"
  "verb_ok EVHTTP_REQ_POST" "verb_ok EVHTTP_REQ_DELETE"
  by (simp_all add: layer_op_def verb_ok_def EVHTTP_REQ_POST_def EVHTTP_REQ_DELETE_def)

text \<open>One worker, one layer.\<close>

lemma one_accepted:
  assumes "init_cqueue True 16 8 = Inr q" "cq_capacity q = 16" "good_memory (env_memory env)"
  shows "reaches env os (start_system 1 (fresh_server 100 (fresh_log 0 1000) [(int (length create_entry), EAGAIN)] q))
    \<lparr>v_workers = [None], v_queue = [create_op], v_accepted = [create_op], v_executed = [], v_writes = [(EVHTTP_REQ_POST, sample_uri, [])],
     v_file = create_entry, v_last_ts = 60, v_answers = []\<rparr>"
proof -
  let ?s0 = "start_system 1 (fresh_server 100 (fresh_log 0 1000) [(int (length create_entry), EAGAIN)] q)"
  have "reaches env os ?s0 \<lparr>v_workers = replicate 1 None, v_queue = [], v_accepted = [], v_executed = [], v_writes = [], v_file = [],
      v_last_ts = - 1, v_answers = [(int (length create_entry), EAGAIN)]\<rparr>"
    using looks_start [OF assms(1,2)] runs_refl unfolding reaches_def by blast
  from reaches_request [OF this assms(3) sample_plain sample_layer_ops(3)] show ?thesis by (simp add: sample_layer_ops)
qed

lemma one_executed:
  assumes "init_cqueue True 16 8 = Inr q" "cq_capacity q = 16" "good_memory (env_memory env)"
  shows "reaches env os (start_system 1 (fresh_server 100 (fresh_log 0 1000) [(int (length create_entry), EAGAIN)] q))
    \<lparr>v_workers = [None], v_queue = [], v_accepted = [create_op], v_executed = [create_op], v_writes = [(EVHTTP_REQ_POST, sample_uri, [])],
     v_file = create_entry, v_last_ts = 60, v_answers = []\<rparr>"
proof -
  note taken = reaches_take [OF one_accepted [OF assms, of os], of create_op "[]" 0, simplified]
  from reaches_execute [OF this, of 0 create_op] few_ops_limits [of "[]"] assms(3) show ?thesis by simp
qed

text \<open>Two workers: the layer is created and deleted, but the second operation is executed first.\<close>

lemma two_executed:
  assumes "init_cqueue True 16 8 = Inr q" "cq_capacity q = 16" "good_memory (env_memory env)"
  shows "reaches env os (start_system 2 (fresh_server 100 (fresh_log 0 1000) [(int (length create_entry), EAGAIN), (int (length drop_entry), EAGAIN)] q))
    \<lparr>v_workers = [None, None], v_queue = [], v_accepted = [create_op, drop_op], v_executed = [drop_op, create_op],
     v_writes = [(EVHTTP_REQ_POST, sample_uri, []), (EVHTTP_REQ_DELETE, sample_uri, [])],
     v_file = create_entry @ drop_entry, v_last_ts = 60, v_answers = []\<rparr>"
proof -
  let ?s0 = "start_system 2 (fresh_server 100 (fresh_log 0 1000) [(int (length create_entry), EAGAIN), (int (length drop_entry), EAGAIN)] q)"
  let ?v = "\<lambda>workers queue executed. \<lparr>v_workers = workers, v_queue = queue, v_accepted = [create_op, drop_op], v_executed = executed,
     v_writes = [(EVHTTP_REQ_POST, sample_uri, []), (EVHTTP_REQ_DELETE, sample_uri, [])],
     v_file = create_entry @ drop_entry, v_last_ts = 60, v_answers = []\<rparr>"
  have "reaches env os ?s0 \<lparr>v_workers = [None, None], v_queue = [], v_accepted = [], v_executed = [], v_writes = [], v_file = [],
      v_last_ts = - 1, v_answers = [(int (length create_entry), EAGAIN), (int (length drop_entry), EAGAIN)]\<rparr>"
    using looks_start [OF assms(1,2), of env 2] runs_refl unfolding reaches_def by (simp add: numeral_2_eq_2) blast
  from reaches_request [OF this assms(3) sample_plain sample_layer_ops(3)]
  have "reaches env os ?s0 \<lparr>v_workers = [None, None], v_queue = [create_op], v_accepted = [create_op], v_executed = [],
      v_writes = [(EVHTTP_REQ_POST, sample_uri, [])], v_file = create_entry,
      v_last_ts = 60, v_answers = [(int (length drop_entry), EAGAIN)]\<rparr>" by (simp add: sample_layer_ops)
  from reaches_request [OF this assms(3) sample_plain sample_layer_ops(4)]
  have "reaches env os ?s0 (?v [None, None] [create_op, drop_op] [])" by (simp add: sample_layer_ops)
  from reaches_take [OF this, of create_op "[drop_op]" 0] have "reaches env os ?s0 (?v [Some create_op, None] [drop_op] [])" by simp
  from reaches_take [OF this, of drop_op "[]" 1] have "reaches env os ?s0 (?v [Some create_op, Some drop_op] [] [])" by simp
  from reaches_execute [OF this, of 1 drop_op] have "reaches env os ?s0 (?v [Some create_op, None] [] [drop_op])"
    using few_ops_limits [of "[]"] assms(3) by simp
  from reaches_execute [OF this, of 0 create_op] show ?thesis using few_ops_limits [of "[drop_op]"] assms(3) by simp
qed

lemma entry_length: "verb < 2 ^ 31 \<Longrightarrow> length uri \<le> 10000 \<Longrightarrow> length (entry_at ts verb uri) \<le> 10100"
proof -
  assume a: "verb < 2 ^ 31" "length uri \<le> 10000"
  have "length (hex_of verb) \<le> 8" using a(1) by (intro digits_of_length) simp_all
  moreover have "length (hex_of (length uri)) \<le> 8" using a(2) by (intro digits_of_length) simp_all
  moreover have "length (hex_of 60) \<le> 8" "length (hex_of 0) \<le> 8" by (intro digits_of_length; simp)+
  ultimately show ?thesis using a(2) by (simp add: entry_at_def cookie_head_def cookie_tail_def bytes_of_def)
qed

lemma sample_files: "length create_entry < 2 ^ 62" "length (create_entry @ drop_entry) < 2 ^ 62"
proof -
  have "length sample_uri \<le> 10000" using layers_uri_facts(5) [OF sample_plain] by simp
  from entry_length [OF _ this, of EVHTTP_REQ_POST "- 1"] entry_length [OF _ this, of EVHTTP_REQ_DELETE 60]
  have "length create_entry \<le> 10100" "length drop_entry \<le> 10100" by (simp_all add: EVHTTP_REQ_POST_def EVHTTP_REQ_DELETE_def)
  then show "length create_entry < 2 ^ 62" "length (create_entry @ drop_entry) < 2 ^ 62" by simp_all
qed

lemma sample_readable: "readable 4096 (verb, sample_uri, [])"
  by (simp add: readable_def layers_uri_def encoded_api_base_uri_def sample_layer_def bytes_of_def)

section \<open>Properties\<close>

lemma execute_ops_db:
  assumes "\<forall>op \<in> set ops. is_write op" "execute_ops env (bared ops) (db_of ctx) = Some c"
  shows "db_of c = c"
  using assms
proof (induction ops arbitrary: ctx)
  case (Cons op ops)
  obtain c1 where c1: "execute_op env (rebare fake_bare op) (db_of ctx) = Some c1" "execute_ops env (bared ops) c1 = Some c"
    using Cons.prems(2) by (auto simp: bind_eq_Some_conv)
  have "db_of c1 = c1" by (rule execute_write_db [OF _ c1(1)]) (use Cons.prems(1) in simp)
  then show ?case using Cons.IH [of c1] Cons.prems(1) c1(2) by simp
qed auto

lemma fresh_db: "db_of (srv_ctx (fresh_server t journal as q)) = init_context 0" "db_of (init_context 0) = init_context 0"
  by (simp_all add: fresh_server_def init_context_def db_of_def with_clock_def)

lemma places_of_db [simp]: "places_of (db_of ctx) = places_of ctx"
  by (simp add: fun_eq_iff places_of_layers layers_def db_of_def)

lemma sample_env_memory: "good_memory (env_memory (sample_env m))"
  by (simp add: sample_env_def sample_memory)

text \<open>
  C34: with more than one worker the journal and the database can disagree. A client creates a layer and deletes it, both
  requests are accepted and journalled, the second worker executes the deletion before the first executes the
  creation: the server serves the layer, and a server started on the journal does not have it.
\<close>

theorem journal_order_can_differ:
  "\<exists>q as s k srv. init_cqueue True 16 8 = Inr q \<and>
     runs (sample_env m) os (start_system 2 (fresh_server 100 (fresh_log 0 1000) as q)) s \<and>
     pending s = [] \<and> \<not> sys_purged s \<and> dl_log_buffer (srv_log (sys_server s)) = [] \<and>
     sys_writes s = [(EVHTTP_REQ_POST, sample_uri, []), (EVHTTP_REQ_DELETE, sample_uri, [])] \<and>
     places_of (srv_ctx (sys_server s)) = [sample_layer \<mapsto> Map.empty] \<and>
     replay_log (evbuffer_read 4096) (replay_handler (sample_env m) os') junk (Some (dl_file (srv_log (sys_server s))))
       (Some (fresh_server t journal as' q)) = Some (0, k, Some srv) \<and>
     places_of (srv_ctx srv) = Map.empty"
proof -
  let ?env = "sample_env m" and ?as = "[(int (length create_entry), EAGAIN), (int (length drop_entry), EAGAIN)]"
  obtain q :: "operation cqueue" where q: "init_cqueue True 16 8 = Inr q" "cq_inv q" "cq_list q = []" "cq_capacity q = 16"
    by (rule empty_queue)
  let ?s0 = "start_system 2 (fresh_server 100 (fresh_log 0 1000) ?as q)" and ?new = "fresh_server t journal as' q"
  obtain s where s: "runs ?env os ?s0 s" "looks (sample_env m) s \<lparr>v_workers = [None, None], v_queue = [], v_accepted = [create_op, drop_op],
     v_executed = [drop_op, create_op], v_writes = [(EVHTTP_REQ_POST, sample_uri, []), (EVHTTP_REQ_DELETE, sample_uri, [])],
     v_file = create_entry @ drop_entry, v_last_ts = 60, v_answers = []\<rparr>"
    using two_executed [OF q(1,4) sample_env_memory] unfolding reaches_def by blast
  have inv0: "sys_inv ?s0" by (rule start_system_inv) (simp_all add: fresh_server_def init_cqueue_inv [OF q(1)])
  have j: "journal_inv ?env s" by (rule runs_journal [OF s(1) inv0 start_journal_inv])
  have view: "\<not> sys_purged s" "dl_log_buffer (srv_log (sys_server s)) = []" "sys_clocks s = [100]"
    "sys_writes s = [(EVHTTP_REQ_POST, sample_uri, []), (EVHTTP_REQ_DELETE, sample_uri, [])]"
    "dl_file (srv_log (sys_server s)) = create_entry @ drop_entry" "bared (sys_accepted s) = [create_op, drop_op]"
    "places_of (srv_ctx (sys_server s)) = [sample_layer \<mapsto> Map.empty]" "pending s = []"
    using s(2) by (auto simp: looks_def synced_log_def pending_def in_hands_def)
  have "filter is_write (sys_accepted s) = sys_accepted s"
    using view(6) by (auto simp: map_eq_Cons_conv dest!: arg_cong [of _ _ is_write])
  then have writes: "bared (filter is_write (sys_accepted s)) = [create_op, drop_op]" using view(6) by simp
  have "\<forall>op \<in> set [create_op, drop_op]. op_ok op \<and> is_write op" using sample_plain
    by (auto simp: layer_ok_def plain_name_def plain_uri_def)
  moreover have "\<forall>n < length [create_op, drop_op]. within_limits (accuracy_of (sample_env m)) (fold spec_write (take n [create_op, drop_op]) (places_of (init_context 0)))"
    using few_ops_limits [of "take n [create_op, drop_op]" for n] by (simp only: init_world_inv(2)) simp
  ultimately obtain c where c: "execute_ops ?env [create_op, drop_op] (init_context 0) = Some c"
    "places_of c = fold spec_write [create_op, drop_op] Map.empty"
    using execute_many [OF init_world_inv(1) sample_env_memory, of "[create_op, drop_op]" m 0] init_world_inv(2) by auto
  have "db_of c = c"
    using execute_ops_db [of "[create_op, drop_op]" ?env "init_context 0" c] c(1) fresh_db(2) by (simp add: fake_bare_def)
  then have "execute_ops ?env (bared (filter is_write (sys_accepted s))) (db_of (srv_ctx ?new)) = Some (db_of c)"
    using writes c(1) fresh_db(1) by simp
  from replay_journal [OF j view(1,2) _ _ _ evbuffer_read_reads [of 4096] _ idle_fresh [OF q(1)] this, where os = os' and junk = junk]
  obtain k srv where "replay_log (evbuffer_read 4096) (replay_handler ?env os') junk (Some (dl_file (srv_log (sys_server s)))) (Some ?new) = Some (0, k, Some srv)"
    "db_of (srv_ctx srv) = db_of c"
    using view(3-5) q(4) sample_files(2) sample_readable by auto
  moreover have "places_of (srv_ctx srv) = Map.empty" if "db_of (srv_ctx srv) = db_of c"
    using arg_cong [OF that, of places_of] c(2) by simp
  ultimately show ?thesis using q(1) s(1) view by blast
qed

section \<open>Witnesses\<close>

lemma one_layer_run:
  obtains q s where "init_cqueue True 16 8 = Inr q" "cq_capacity q = 16"
    "runs (sample_env m) os (start_system 1 (fresh_server 100 (fresh_log 0 1000) [(int (length create_entry), EAGAIN)] q)) s"
    "looks (sample_env m) s \<lparr>v_workers = [None], v_queue = [], v_accepted = [create_op], v_executed = [create_op],
       v_writes = [(EVHTTP_REQ_POST, sample_uri, [])], v_file = create_entry, v_last_ts = 60, v_answers = []\<rparr>"
proof -
  obtain q :: "operation cqueue" where q: "init_cqueue True 16 8 = Inr q" "cq_inv q" "cq_list q = []" "cq_capacity q = 16"
    by (rule empty_queue)
  from one_executed [OF q(1,4) sample_env_memory] show thesis using that q(1,4) unfolding reaches_def by blast
qed

theorem restart_restores_database_witness:
  "\<forall>m os os' junk t journal as'. \<exists>q as s k srv. init_cqueue True 16 8 = Inr q \<and>
     runs (sample_env m) os (start_system 1 (fresh_server 100 (fresh_log 0 1000) as q)) s \<and>
     places_of (srv_ctx (sys_server s)) = [sample_layer \<mapsto> Map.empty] \<and>
     replay_log (evbuffer_read 4096) (replay_handler (sample_env m) os') junk (Some (dl_file (srv_log (sys_server s))))
       (Some (fresh_server t journal as' q)) = Some (0, k, Some srv) \<and> db_of (srv_ctx srv) = db_of (srv_ctx (sys_server s))"
proof (intro allI)
  fix m os os' junk t journal as'
  obtain q s where s: "init_cqueue True 16 8 = Inr q" "cq_capacity q = 16"
    "runs (sample_env m) os (start_system 1 (fresh_server 100 (fresh_log 0 1000) [(int (length create_entry), EAGAIN)] q)) s"
    "looks (sample_env m) s \<lparr>v_workers = [None], v_queue = [], v_accepted = [create_op], v_executed = [create_op],
       v_writes = [(EVHTTP_REQ_POST, sample_uri, [])], v_file = create_entry, v_last_ts = 60, v_answers = []\<rparr>"
    by (rule one_layer_run)
  have view: "in_hands s = []" "cq_list (srv_queue (sys_server s)) = []" "dl_log_buffer (srv_log (sys_server s)) = []" "\<not> sys_purged s"
    "sys_clocks s = [100]" "sys_writes s = [(EVHTTP_REQ_POST, sample_uri, [])]" "dl_file (srv_log (sys_server s)) = create_entry"
    "places_of (srv_ctx (sys_server s)) = [sample_layer \<mapsto> Map.empty]"
    using s(4) by (auto simp: looks_def synced_log_def in_hands_def)
  have "\<exists>k srv. replay_log (evbuffer_read 4096) (replay_handler (sample_env m) os') junk (Some (dl_file (srv_log (sys_server s))))
       (Some (fresh_server t journal as' q)) = Some (0, k, Some srv) \<and> db_of (srv_ctx srv) = db_of (srv_ctx (sys_server s))"
    using restart_restores_database [OF s(3,1) view(1-4) _ _ _ evbuffer_read_reads [of 4096] _ s(1)] s(2) view(5-7)
      sample_files(1) sample_readable by simp
  then show "\<exists>q as s k srv. init_cqueue True 16 8 = Inr q \<and>
     runs (sample_env m) os (start_system 1 (fresh_server 100 (fresh_log 0 1000) as q)) s \<and>
     places_of (srv_ctx (sys_server s)) = [sample_layer \<mapsto> Map.empty] \<and>
     replay_log (evbuffer_read 4096) (replay_handler (sample_env m) os') junk (Some (dl_file (srv_log (sys_server s))))
       (Some (fresh_server t journal as' q)) = Some (0, k, Some srv) \<and> db_of (srv_ctx srv) = db_of (srv_ctx (sys_server s))"
    using s(1,3) view(8) by blast
qed

theorem server_refines_places_witness:
  "\<forall>m os. \<exists>q as s. init_cqueue True 16 8 = Inr q \<and>
     runs (sample_env m) os (start_system 1 (fresh_server 100 (fresh_log 0 1000) as q)) s \<and> sys_accepted s \<noteq> [] \<and>
     places_of (srv_ctx (sys_server s)) = fold spec_write (filter is_write (sys_accepted s)) Map.empty"
proof (intro allI)
  fix m os
  obtain q s where s: "init_cqueue True 16 8 = Inr q" "cq_capacity q = 16"
    "runs (sample_env m) os (start_system 1 (fresh_server 100 (fresh_log 0 1000) [(int (length create_entry), EAGAIN)] q)) s"
    "looks (sample_env m) s \<lparr>v_workers = [None], v_queue = [], v_accepted = [create_op], v_executed = [create_op],
       v_writes = [(EVHTTP_REQ_POST, sample_uri, [])], v_file = create_entry, v_last_ts = 60, v_answers = []\<rparr>"
    by (rule one_layer_run)
  have view: "pending s = []" "\<not> sys_purged s" "length (sys_accepted s) = 1"
    using s(4) by (auto simp: looks_def pending_def in_hands_def dest: arg_cong [of _ _ length])
  have "\<forall>n. within_limits (accuracy_of (sample_env m)) (fold spec_write (take n (filter is_write (sys_accepted s))) Map.empty)"
  proof
    fix n
    have "length (filter is_write (sys_accepted s)) \<le> 1" using view(3) length_filter_le [of is_write "sys_accepted s"] by simp
    then show "within_limits (accuracy_of (sample_env m)) (fold spec_write (take n (filter is_write (sys_accepted s))) Map.empty)" by (intro few_ops_limits) simp
  qed
  from server_refines_places [OF s(3,1) view(1,2) sample_env_memory this]
  show "\<exists>q as s. init_cqueue True 16 8 = Inr q \<and>
     runs (sample_env m) os (start_system 1 (fresh_server 100 (fresh_log 0 1000) as q)) s \<and> sys_accepted s \<noteq> [] \<and>
     places_of (srv_ctx (sys_server s)) = fold spec_write (filter is_write (sys_accepted s)) Map.empty"
    using s(1,3) view(3) by (intro exI [of _ q] exI [of _ "[(int (length create_entry), EAGAIN)]"] exI [of _ s]) auto
qed


text \<open>A layer with two records, one of which is deleted again; the other moves.\<close>

abbreviation sample_put :: "bytes \<Rightarrow> rat \<Rightarrow> operation" where
  "sample_put key x \<equiv> Records_Put_Op ((empty_put_op fake_bare sample_layer (key @ [0]))\<lparr>put_position := pos (Fin x) (Fin 3), put_position_set := True\<rparr>)"

abbreviation sample_ops :: "operation list" where
  "sample_ops \<equiv> [create_op, sample_put (bytes_of ''a'') 1, sample_put (bytes_of ''b'') 2,
     Records_Delete_Op \<lparr>delete_bare = fake_bare, delete_layer_name = sample_layer, delete_key = bytes_of ''b'' @ [0]\<rparr>,
     sample_put (bytes_of ''a'') 7]"

lemma sample_ops_ok: "\<forall>op \<in> set sample_ops. op_ok op \<and> is_write op"
proof -
  have "layer_ok sample_layer" using sample_plain by (auto simp: layer_ok_def plain_name_def plain_uri_def)
  moreover have "key_ok (bytes_of ''a'' @ [0])" "key_ok (bytes_of ''b'' @ [0])" by (auto simp: key_ok_def layer_ok_def bytes_of_def)
  ultimately show ?thesis by (simp add: empty_put_op_def put_op_ok_def)
qed

lemma sample_positions: "position_is_in_rect (pos (Fin x) (Fin 3)) world_bounds = (- 90 \<le> x \<and> x < 90)"
  by (simp add: position_is_in_rect_def world_bounds_def)

theorem database_refines_places_witness:
  "\<forall>m t. \<exists>ctx. execute_ops (sample_env m) sample_ops (init_context t) = Some ctx \<and>
     places_of ctx sample_layer = Some [bytes_of ''a'' @ [0] \<mapsto> (Some (pos (Fin 7) (Fin 3)), None)]"
proof (intro allI)
  fix m t
  have lim: "\<forall>n < length sample_ops. within_limits (accuracy_of (sample_env m)) (fold spec_write (take n sample_ops) Map.empty)"
    by (intro allI impI few_ops_limits) simp
  obtain ctx where "execute_ops (sample_env m) sample_ops (init_context t) = Some ctx" "places_of ctx = fold spec_write sample_ops Map.empty"
    using database_refines_places [OF sample_env_memory sample_ops_ok lim] by blast
  moreover have "fold spec_write sample_ops Map.empty sample_layer = Some [bytes_of ''a'' @ [0] \<mapsto> (Some (pos (Fin 7) (Fin 3)), None)]"
    by (simp add: empty_put_op_def put_place_def sample_positions bytes_of_def)
  ultimately show "\<exists>ctx. execute_ops (sample_env m) sample_ops (init_context t) = Some ctx \<and>
     places_of ctx sample_layer = Some [bytes_of ''a'' @ [0] \<mapsto> (Some (pos (Fin 7) (Fin 3)), None)]" by simp
qed

end
