(* ===== verification/Journal_Rewrite.thy ===== *)
theory Journal_Rewrite
  imports Server_Runs Float_Text
begin

text \<open>
  Rewriting the journal (\<open>domain_system.c\<close>: rewrite_child, rebuild_journal and its callbacks, copy_data_between_fds): a child process
  writes a new journal with one request for every layer and every record. The theorems say which entries it holds
  when everything could be written, and that errors are not noticed: the new journal then replaces the old one although it
  is incomplete.
\<close>

section \<open>Writing\<close>

text \<open>
  evbuffer_write of libevent: with an empty buffer write is not called, the result is -1 and errno is what an earlier
  call left. As in the theory Db_Log the answers are a list, of results with errno; of the answer to a write of nothing
  only errno counts. None is a list that ran out.
\<close>

definition evbuffer_write :: "int \<times> errno \<Rightarrow> bytes \<Rightarrow> int \<times> errno" where
  "evbuffer_write answer buf = (if buf = [] then - 1 else fst answer, snd answer)"

definition again :: "errno \<Rightarrow> bool" where
  "again e = (e = EINTR \<or> e = EAGAIN)"

text \<open>The loop of flush_log_buffer.\<close>

fun flush_tmp_loop :: "write_answers \<Rightarrow> nat \<Rightarrow> bytes \<Rightarrow> bytes \<Rightarrow> (int \<times> bytes \<times> bytes \<times> write_answers) option" where
  "flush_tmp_loop [] to_write buf file = None"
| "flush_tmp_loop (a # as) to_write buf file =
     (case evbuffer_write a buf of
        (written, e) \<Rightarrow>
          (if written < 0 then
             (if \<not> again e then Some (- 1, buf, file, as)
              else if to_write > 0 then flush_tmp_loop as to_write buf file
              else Some (0, buf, file, as))
           else if written = 0 then Some (0, buf, file, as)
           else if int to_write < written then None
           else
             (let n = nat written
              in if to_write - n > 0 then flush_tmp_loop as (to_write - n) (drop n buf) (file @ take n buf)
                 else Some (0, drop n buf, file @ take n buf, as))))"

declare flush_tmp_loop.simps [simp del]

definition flush_log_buffer :: "write_answers \<Rightarrow> bytes \<Rightarrow> bytes \<Rightarrow> (int \<times> bytes \<times> bytes \<times> write_answers) option" where
  "flush_log_buffer as buf file = flush_tmp_loop as (length buf) buf file"

section \<open>The entries\<close>

definition TMP_LOG_BUFFER_SIZE :: nat where
  "TMP_LOG_BUFFER_SIZE = 65536"

text \<open>
  What the child process gets from its surroundings: the time, and memory, for the strings that
  are encoded, for each of their characters, and for the buffers of a layer and of a record.
\<close>

record surroundings =
  su_time :: int
  su_grow :: "bytes \<Rightarrow> alloc"
  su_append :: "bytes \<Rightarrow> nat \<Rightarrow> alloc"
  su_layer :: "bytes \<Rightarrow> bool"
  su_record :: "bytes \<Rightarrow> bool"

definition encode_into :: "surroundings \<Rightarrow> binval \<Rightarrow> bytes \<Rightarrow> (int \<times> binval) option" where
  "encode_into su target s = uri_encode_binval (su_grow su s) (su_append su s) target s"

text \<open>The body buffer, whether nothing was added yet, and the buffer for encoded strings.\<close>

definition rebuild_journal_property_cb ::
  "surroundings \<Rightarrow> bytes \<times> bool \<times> binval \<Rightarrow> bytes \<Rightarrow> bytes \<Rightarrow> (int \<times> bytes \<times> bool \<times> binval) option" where
  "rebuild_journal_property_cb su c key value =
     (case c of (body, first, enc) \<Rightarrow>
        (let body1 = (if first then body else body @ [ampersand])
         in do {
              (r, enc1) \<leftarrow> encode_into su enc key;
              (if r \<noteq> 0 then Some (- 1, body1, False, enc1)
               else
                 (let body2 = body1 @ bv_bytes enc1 @ [eq_sign]
                  in do {
                       (r, enc2) \<leftarrow> encode_into su enc1 value;
                       (if r \<noteq> 0 then Some (- 1, body2, False, enc2)
                        else Some (0, body2 @ bv_bytes enc2, False, enc2))
                     }))
            }))"

text \<open>A pair of the body whose text needs no encoding.\<close>

definition add_pair :: "string \<Rightarrow> bytes \<Rightarrow> bytes \<times> bool \<times> binval \<Rightarrow> bytes \<times> bool \<times> binval" where
  "add_pair name value c =
     (case c of (body, first, enc) \<Rightarrow>
        ((if first then body else body @ [ampersand]) @ bytes_of name @ [eq_sign] @ value, False, enc))"

definition print_position :: "position2d \<Rightarrow> bytes" where
  "print_position p = print_f (latitude p) @ [chr CHR '',''] @ print_f (longitude p)"

definition print_time :: "int \<Rightarrow> bytes" where
  "print_time ts = dec_of (nat (ts mod 2 ^ 64))"

definition record_body :: "surroundings \<Rightarrow> expirable slab \<Rightarrow> pan_db \<Rightarrow> key_node \<Rightarrow> binval \<Rightarrow> (bytes \<times> binval) option" where
  "record_body su exps db n enc =
     do {
       c1 \<leftarrow> slip_map_foreach (rebuild_journal_property_cb su) (kn_properties n) ([], True, enc);
       c2 \<leftarrow> (case kn_slot n of
               None \<Rightarrow> Some c1
             | Some (p, e) \<Rightarrow> do { slot \<leftarrow> content (db_root db) p e; Some (add_pair ''_loc'' (print_position (position slot)) c1) });
       (body, first, enc1) \<leftarrow> (case kn_expirable n of
               None \<Rightarrow> Some c2
             | Some e \<Rightarrow> do { x \<leftarrow> slab_contents exps e; Some (add_pair ''_expires_at'' (print_time (exp_ts x)) c2) });
       Some (body, enc1)
     }"

text \<open>
  rebuild_journal_record_cb. The context: the buffer for encoded strings, the log buffer, the file and the answers of write.
  The key goes into the URI as it is. A failed flush is not noticed.
\<close>

type_synonym record_context = "binval \<times> bytes \<times> bytes \<times> write_answers"

definition rebuild_journal_record_cb ::
  "surroundings \<Rightarrow> binval \<Rightarrow> expirable slab \<Rightarrow> pan_db \<Rightarrow> record_context \<Rightarrow> nat \<Rightarrow> (int \<times> record_context) option" where
  "rebuild_journal_record_cb su encoded_layer_name exps db c a =
     (case c of (enc, buf, file, as) \<Rightarrow>
        do {
          n \<leftarrow> nodes_of db a;
          name \<leftarrow> bv_val encoded_layer_name;
          (let uri_len = length encoded_api_base_uri + 8 + bv_size encoded_layer_name + 1 + (length (kn_key n) - 1) + 5;
               buf1 = buf @ cookie_head @ hex_of EVHTTP_REQ_PUT @ [space] @ hex_of uri_len @ [colon] @ encoded_api_base_uri @
                 bytes_of ''records/'' @ c_str name @ bytes_of ''/'' @ c_str (kn_key n) @ bytes_of ''.json'' @ [space]
           in if \<not> su_record su (kn_key n) then Some (- 1, enc, buf1, file, as)
              else
                do {
                  (body, enc1) \<leftarrow> record_body su exps db n enc;
                  (let buf2 = buf1 @ hex_of (length body) @ [colon] @ body @ cookie_tail
                   in if length buf2 > TMP_LOG_BUFFER_SIZE then
                        do {
                          (_, buf3, file', as') \<leftarrow> flush_log_buffer as buf2 file;
                          Some (0, enc1, buf3, file', as')
                        }
                      else Some (0, enc1, buf2, file, as))
                })
        })"

text \<open>rebuild_journal_layer_cb. The context: whether the time stamp was written, the file and the answers.\<close>

type_synonym layer_context = "bool \<times> bytes \<times> write_answers"

definition rebuild_journal_layer_cb ::
  "surroundings \<Rightarrow> expirable slab \<Rightarrow> layer_context \<Rightarrow> slab_entry \<Rightarrow> layer \<Rightarrow> (int \<times> layer_context) option" where
  "rebuild_journal_layer_cb su exps c a layer =
     (case c of (ts_written, file, as) \<Rightarrow>
        do {
          c_assert (layer_name layer \<noteq> []);
          (if \<not> su_layer su (layer_name layer) then Some (- 1, c)
           else
             (let stamped = (\<not> ts_written \<and> su_time su \<noteq> - 1);
                  buf = (if stamped then add_ts_to_ev_log_buffer [] (su_time su) else []) @ cookie_head;
                  ts_written' = (ts_written \<or> stamped)
              in do {
                   (r, encoded) \<leftarrow> encode_into su init_binval (layer_name layer);
                   (if r \<noteq> 0 then Some (- 1, ts_written', file, as)
                    else
                      do {
                        name \<leftarrow> bv_val encoded;
                        (let uri_len = length encoded_api_base_uri + 7 + bv_size encoded + 5;
                             buf1 = buf @ hex_of EVHTTP_REQ_POST @ [space] @ hex_of uri_len @ [colon] @ encoded_api_base_uri @
                               bytes_of ''layers/'' @ c_str name @ bytes_of ''.json'' @ [space] @ hex_of 0 @ [colon] @ cookie_tail
                         in do {
                              (r, enc1, buf2, file1, as1) \<leftarrow>
                                key_nodes_foreach (rebuild_journal_record_cb su encoded exps (layer_db layer)) (key_nodes (layer_db layer))
                                  (init_binval, buf1, file, as);
                              (if r \<noteq> 0 then Some (- 1, ts_written', file1, as1)
                               else
                                 do {
                                   (r, _, file2, as2) \<leftarrow> flush_log_buffer as1 buf2 file1;
                                   Some (r, ts_written', file2, as2)
                                 })
                            })
                      })
                 }))
        })"

text \<open>rebuild_journal: the result of the walk over the layers is not looked at. The new journal starts empty.\<close>

definition rebuild_journal :: "surroundings \<Rightarrow> http_context \<Rightarrow> write_answers \<Rightarrow> (int \<times> bytes \<times> write_answers) option" where
  "rebuild_journal su ctx as =
     do {
       (_, _, file, as') \<leftarrow> slab_foreach (rebuild_journal_layer_cb su (expirables_slab ctx)) (layers_slab ctx) (False, [], as);
       Some (0, file, as')
     }"

section \<open>The recent entries\<close>

text \<open>
  copy_data_between_fds: the answers of evbuffer_read are a list; a negative one, an error, ends the copy like the end of the file. The
  inner loop differs from flush_log_buffer in that a write of nothing is an error.
\<close>

fun write_chunk :: "write_answers \<Rightarrow> nat \<Rightarrow> bytes \<Rightarrow> bytes \<Rightarrow> (int \<times> bytes \<times> write_answers) option" where
  "write_chunk [] to_write buf target = None"
| "write_chunk (a # as) to_write buf target =
     (case evbuffer_write a buf of
        (written, e) \<Rightarrow>
          (if written < 0 then
             (if \<not> again e then Some (- 1, target, as)
              else if to_write > 0 then write_chunk as to_write buf target
              else Some (0, target, as))
           else if written = 0 then Some (- 1, target, as)
           else if int to_write < written then None
           else
             (let n = nat written
              in if to_write - n > 0 then write_chunk as (to_write - n) (drop n buf) (target @ take n buf)
                 else Some (0, target @ take n buf, as))))"

declare write_chunk.simps [simp del]

fun copy_data_between_fds :: "int list \<Rightarrow> write_answers \<Rightarrow> bytes \<Rightarrow> bytes \<Rightarrow> (int \<times> bytes \<times> write_answers) option" where
  "copy_data_between_fds [] as source target = None"
| "copy_data_between_fds (n # reads) as source target =
     (if n \<le> 0 then Some (0, target, as)
      else
        do {
          (r, target', as') \<leftarrow> write_chunk as (nat n) (take (nat n) source) target;
          (if r \<noteq> 0 then Some (- 1, target', as') else copy_data_between_fds reads as' (drop (nat n) source) target')
        })"

text \<open>
  system_rewrite_after_fork_cb, when the child process has ended with 0. The temporary file is an argument. None is a failed assertion, or
  the exit when the end of the journal cannot be found again. Without the temporary file the copy goes to no file and its renaming fails.
\<close>

record fork_answers =
  fa_name_mem :: bool
  fa_seek_ok :: bool
  fa_open_ok :: bool
  fa_reads :: "int list"
  fa_writes :: write_answers
  fa_seek_end_ok :: bool
  fa_slaves_loading :: bool
  fa_rename_ok :: bool

definition system_rewrite_after_fork_cb :: "fork_answers \<Rightarrow> bytes \<Rightarrow> server \<Rightarrow> (int \<times> server) option" where
  "system_rewrite_after_fork_cb fa tmp srv =
     (let srv1 = srv\<lparr>srv_rewrite_process := - 1\<rparr>;
          recent = drop (nat (srv_offset_before_fork srv)) (dl_file (srv_log srv))
      in if \<not> fa_name_mem fa then Some (- 1, srv1)
         else
           do {
             c_assert (srv_offset_before_fork srv \<noteq> - 1);
             (if \<not> fa_seek_ok fa then Some (- 1, srv1)
              else if \<not> fa_open_ok fa then
                (case fa_reads fa of
                   [] \<Rightarrow> None
                 | n # _ \<Rightarrow> if n > 0 \<or> fa_seek_end_ok fa then Some (- 1, srv1) else None)
              else
                do {
                  (r, tmp', _) \<leftarrow> copy_data_between_fds (fa_reads fa) (fa_writes fa) recent tmp;
                  (if r \<noteq> 0 then Some (- 1, srv1)
                   else if \<not> fa_seek_end_ok fa then None
                   else if fa_slaves_loading fa \<or> \<not> fa_rename_ok fa then Some (- 1, srv1)
                   else Some (0, srv1\<lparr>srv_log := (srv_log srv1)\<lparr>dl_file := tmp'\<rparr>\<rparr>))
                })
           })"

section \<open>Flushing\<close>

text \<open>Writes that succeed, maybe in part, or are interrupted.\<close>

definition writes_ok :: "write_answers \<Rightarrow> bool" where
  "writes_ok as = (\<forall>(w, e) \<in> set as. w > 0 \<or> w < 0 \<and> again e)"

lemma writes_ok_Cons [simp]: "writes_ok ((w, e) # as) = ((w > 0 \<or> w < 0 \<and> again e) \<and> writes_ok as)" "writes_ok []"
  by (auto simp: writes_ok_def)

lemma flush_loop_ok:
  assumes "buf \<noteq> []" "writes_ok as" "flush_tmp_loop as (length buf) buf file = Some (r, buf', file', as')"
  shows "r = 0 \<and> buf' = [] \<and> file' = file @ buf \<and> set as' \<subseteq> set as"
  using assms
proof (induction as arbitrary: buf "file")
  case Nil
  then show ?case by (simp add: flush_tmp_loop.simps)
next
  case (Cons a as)
  obtain w e where a: "a = (w, e)" by (cases a)
  note run = Cons.prems(3) [unfolded a flush_tmp_loop.simps evbuffer_write_def, simplified]
  show ?case
  proof (cases "w < 0")
    case True
    then have "flush_tmp_loop as (length buf) buf file = Some (r, buf', file', as')" using run Cons.prems(1,2) a by simp
    from Cons.IH [OF Cons.prems(1) _ this] Cons.prems(2) a show ?thesis by auto
  next
    case False
    then have w: "0 < w" "w \<le> int (length buf)" using run Cons.prems(1,2) a by (auto split: if_splits)
    show ?thesis
    proof (cases "length buf - nat w > 0")
      case True
      then have "flush_tmp_loop as (length (drop (nat w) buf)) (drop (nat w) buf) (file @ take (nat w) buf) = Some (r, buf', file', as')"
        using run w Cons.prems(1) by (simp add: Let_def split: if_splits)
      from Cons.IH [OF _ _ this] Cons.prems(2) a True show ?thesis by auto
    next
      case False
      then have "length buf \<le> nat w" by simp
      then show ?thesis using run w Cons.prems(1) a by (auto simp: Let_def split: if_splits)
    qed
  qed
qed

lemma flush_ok:
  assumes "buf \<noteq> []" "writes_ok as" "flush_log_buffer as buf file = Some (r, buf', file', as')"
  shows "r = 0 \<and> buf' = [] \<and> file' = file @ buf \<and> set as' \<subseteq> set as"
  using flush_loop_ok [OF assms(1,2)] assms(3) by (simp add: flush_log_buffer_def)

lemma flush_all: "buf \<noteq> [] \<Longrightarrow> flush_log_buffer ((int (length buf), e) # as) buf file = Some (0, [], file @ buf, as)"
  by (simp add: flush_log_buffer_def flush_tmp_loop.simps evbuffer_write_def)

lemma flush_nothing: "flush_log_buffer ((w, e) # as) [] file = Some (if again e then 0 else - 1, [], file, as)"
  by (simp add: flush_log_buffer_def flush_tmp_loop.simps evbuffer_write_def)

lemma flush_error: "w < 0 \<Longrightarrow> \<not> again e \<Longrightarrow> flush_log_buffer ((w, e) # as) buf file = Some (- 1, buf, file, as)"
  by (simp add: flush_log_buffer_def flush_tmp_loop.simps evbuffer_write_def)

section \<open>The text of the entries\<close>

lemma encode_pairs_snoc:
  "encode_pairs (ps @ [(k, v)]) = encode_pairs ps @ (if ps = [] then [] else [ampersand]) @ encode_str k @ [eq_sign] @ encode_str v"
  by (induction ps rule: encode_pairs.induct) simp_all

text \<open>Characters that the encoder leaves as they are.\<close>

definition unescaped :: "bytes \<Rightarrow> bool" where
  "unescaped s = (\<forall>c \<in> set s. uri_chars ! unat c \<noteq> 0)"

lemma unescaped_encode: "unescaped s \<Longrightarrow> encode_str s = s"
  by (induction s) (simp_all add: unescaped_def encode_str_def encode_char_def)

lemma unescaped_append [simp]: "unescaped (a @ b) = (unescaped a \<and> unescaped b)" "unescaped (c # b) = (uri_chars ! unat c \<noteq> 0 \<and> unescaped b)"
  by (auto simp: unescaped_def)

lemma unescaped_digit_chars: "\<forall>d \<in> set [0..<10]. uri_chars ! unat (digit_char d) \<noteq> 0"
  by code_simp

lemma unescaped_digits: "unescaped (dec_of n)"
  using digits_of_digits [of 10 _ n] unescaped_digit_chars by (fastforce simp: unescaped_def)

lemma unescaped_drop: "unescaped s \<Longrightarrow> unescaped (drop n s)"
  by (auto simp: unescaped_def dest: in_set_dropD)

lemma unescaped_literals:
  "unescaped (bytes_of ''inf'')" "unescaped (bytes_of ''-inf'')" "unescaped (bytes_of ''nan'')" "unescaped (bytes_of ''_loc'')"
  "unescaped (bytes_of ''_expires_at'')" "uri_chars ! 44 = 1" "uri_chars ! 45 = 1" "uri_chars ! 46 = 1" "unescaped []"
  by code_simp+

lemma unescaped_micros: "unescaped (print_micros n)"
  by (simp add: print_micros_def unescaped_digits unescaped_drop unescaped_literals)

lemma unescaped_print_f: "unescaped (print_f d)"
  by (cases d) (simp_all add: unescaped_micros unescaped_literals)

lemma unescaped_print_position: "unescaped (print_position p)"
  by (simp add: print_position_def unescaped_print_f unescaped_literals)

text \<open>What a pair adds to the body.\<close>

definition body_state :: "(bytes \<times> bytes) list \<Rightarrow> bytes \<times> bool \<times> binval \<Rightarrow> bool" where
  "body_state ps c = (case c of (body, first, enc) \<Rightarrow> body = encode_pairs ps \<and> first = (ps = []) \<and> bv_ok enc)"

lemma add_pair_state:
  "body_state ps c \<Longrightarrow> unescaped (bytes_of name) \<Longrightarrow> unescaped value \<Longrightarrow> body_state (ps @ [(bytes_of name, value)]) (add_pair name value c)"
  by (cases c) (simp add: body_state_def add_pair_def encode_pairs_snoc unescaped_encode)

definition good_surroundings :: "surroundings \<Rightarrow> bool" where
  "good_surroundings su =
     ((\<forall>s. su_grow su s \<noteq> None) \<and> (\<forall>s i. su_append su s i \<noteq> None) \<and> (\<forall>s. su_layer su s) \<and> (\<forall>s. su_record su s) \<and>
      (su_time su = - 1 \<or> 0 \<le> su_time su \<and> su_time su < 2 ^ 62))"

lemma encode_into_ok:
  assumes "good_surroundings su" "bv_ok enc" "length s < 2 ^ 60" "s \<noteq> [] \<or> bv_val enc \<noteq> None"
  obtains enc1 where "encode_into su enc s = Some (0, enc1)" "bv_ok enc1" "bv_val enc1 \<noteq> None" "bv_bytes enc1 = encode_str s"
proof -
  have "3 * length s + 3 < SIZE_MAX" using assms(3) by (simp add: SIZE_MAX_def)
  with uri_encode_binval_spec [of "su_grow su s" "su_append su s" enc s] assms(1,2,4) that show thesis
    by (auto simp: good_surroundings_def encode_into_def)
qed

lemma property_cb_state:
  assumes "good_surroundings su" "body_state ps c" "k \<noteq> []" "length k < 2 ^ 60" "length v < 2 ^ 60"
  obtains c' where "rebuild_journal_property_cb su c k v = Some (0, c')" "body_state (ps @ [(k, v)]) c'"
proof -
  obtain body first enc where c: "c = (body, first, enc)" by (cases c)
  have b: "body = encode_pairs ps" "first = (ps = [])" "bv_ok enc" using assms(2) by (simp_all add: c body_state_def)
  obtain enc1 where e1: "encode_into su enc k = Some (0, enc1)" "bv_ok enc1" "bv_val enc1 \<noteq> None" "bv_bytes enc1 = encode_str k"
    using encode_into_ok [OF assms(1) b(3) assms(4)] assms(3) by blast
  obtain enc2 where e2: "encode_into su enc1 v = Some (0, enc2)" "bv_ok enc2" "bv_bytes enc2 = encode_str v"
    using encode_into_ok [OF assms(1) e1(2) assms(5)] e1(3) by blast
  show thesis
    by (rule that [of "(encode_pairs (ps @ [(k, v)]), False, enc2)"])
      (use b e1 e2 in \<open>simp_all add: c rebuild_journal_property_cb_def body_state_def encode_pairs_snoc\<close>)
qed

lemma properties_state:
  assumes "good_surroundings su" "\<forall>(k, v) \<in> set es. k \<noteq> [] \<and> length k < 2 ^ 60 \<and> length v < 2 ^ 60" "body_state ps c"
  shows "\<exists>c'. foreach_list (rebuild_journal_property_cb su) es c = Some c' \<and> body_state (ps @ es) c'"
  using assms(2,3)
proof (induction es arbitrary: ps c)
  case (Cons e es)
  obtain k v where e: "e = (k, v)" by (cases e)
  obtain c1 where c1: "rebuild_journal_property_cb su c k v = Some (0, c1)" "body_state (ps @ [(k, v)]) c1"
    using property_cb_state [OF assms(1) Cons.prems(2), of k v] Cons.prems(1) e by auto
  from Cons.IH [OF _ c1(2)] Cons.prems(1) c1(1) show ?case by (simp add: e)
qed simp

section \<open>The entries of a database\<close>

definition rewrite_pairs :: "(bytes \<times> bytes) list \<Rightarrow> position2d option \<Rightarrow> int option \<Rightarrow> (bytes \<times> bytes) list" where
  "rewrite_pairs es p t =
     es @ (case p of None \<Rightarrow> [] | Some p \<Rightarrow> [(bytes_of ''_loc'', print_position p)]) @
       (case t of None \<Rightarrow> [] | Some t \<Rightarrow> [(bytes_of ''_expires_at'', print_time t)])"

definition entries_at :: "pan_db \<Rightarrow> nat \<Rightarrow> (bytes \<times> bytes) list" where
  "entries_at db a = (case map_entries (properties_of db a) of None \<Rightarrow> [] | Some es \<Rightarrow> es)"

definition body_at :: "expirable slab \<Rightarrow> pan_db \<Rightarrow> nat \<Rightarrow> bytes" where
  "body_at exps db a = encode_pairs (rewrite_pairs (entries_at db a) (position_of db a) (expires_of exps db a))"

lemma db_slot_content:
  assumes "db_inv exps db" "nodes_of db a = Some n" "kn_slot n = Some (p, e)"
  obtains slot where "content (db_root db) p e = Some slot" "position_of db a = Some (position slot)"
proof -
  have "links (nodes_of db) [] (db_root db)" using db_invD(4) [OF assms(1)] by (simp add: index_inv_def)
  moreover have "a \<in> keys (db_root db)" using db_invD(5) [OF assms(1,2)] assms(3) by simp
  ultimately obtain kn q e' slot where "nodes_of db a = Some kn" "kn_slot kn = Some ([] @ q, e')" "content (db_root db) q e' = Some slot"
    using links_keys by blast
  then have "content (db_root db) p e = Some slot" using assms(2,3) by simp
  then show thesis using that assms(2,3) by (simp add: position_of_def)
qed

lemma db_expirable:
  assumes "db_inv exps db" "nodes_of db a = Some n" "kn_expirable n = Some e"
  obtains x where "slab_contents exps e = Some x" "expires_of exps db a = Some (exp_ts x)"
proof -
  have x: "exp_inv exps (nodes_of db) (expirables db)" using db_invD(7) [OF assms(1)] .
  then have "e \<in> set (expirables db)" using assms(2,3) unfolding exp_inv_def by blast
  then obtain x where "slab_contents exps e = Some x" using x by (auto simp: exp_inv_def exp_tree_inv_def)
  then show thesis using that assms(2,3) by (simp add: expires_of_def)
qed

lemma db_entries:
  assumes "db_inv exps db" "nodes_of db a = Some n"
  shows "lists_entries (properties_of db a) (entries_at db a)" "\<forall>(k, v) \<in> set (entries_at db a). slip_key k \<and> slip_val v"
    "slip_map_foreach cb (kn_properties n) (c :: 'b) = foreach_list cb (entries_at db a) c"
proof -
  have p: "properties_of db a = kn_properties n" by (simp add: properties_of_def assms(2))
  have "lists_entries (properties_of db a) (entries_at db a) \<and> (\<forall>(k, v) \<in> set (entries_at db a). slip_key k \<and> slip_val v) \<and>
    slip_map_foreach cb (kn_properties n) c = foreach_list cb (entries_at db a) c"
  proof (cases "kn_properties n")
    case None
    then show ?thesis by (simp add: p entries_at_def lists_entries_def slip_map_foreach_def)
  next
    case (Some m)
    then have m: "slip_map_inv m" using db_invD(6) [OF assms] by blast
    obtain es where es: "distinct (map fst es)" "prop_view (Some m) = map_of es"
      "\<And>cb (c :: 'b). slip_map_foreach cb (Some m) c = foreach_list cb es c"
      "\<And>k v. (k, v) \<in> set es \<Longrightarrow> slip_key k \<and> slip_val v" "map_entries (Some m) = Some es"
      using foreach_entries_view [OF m, where 'c = 'b] by blast
    then have "entries_at db a = es" using Some by (simp add: p entries_at_def)
    then show ?thesis using Some es by (auto simp: p lists_entries_def)
  qed
  then show "lists_entries (properties_of db a) (entries_at db a)" "\<forall>(k, v) \<in> set (entries_at db a). slip_key k \<and> slip_val v"
    "slip_map_foreach cb (kn_properties n) c = foreach_list cb (entries_at db a) c" by blast+
qed

lemma record_body_ok:
  assumes su: "good_surroundings su" and db: "db_inv exps db" "nodes_of db a = Some n" and enc: "bv_ok enc"
  shows "\<exists>enc1. record_body su exps db n enc = Some (body_at exps db a, enc1) \<and> bv_ok enc1"
proof -
  let ?es = "entries_at db a"
  have "body_state [] ([], True, enc)" using enc by (simp add: body_state_def)
  moreover have "\<forall>(k, v) \<in> set ?es. k \<noteq> [] \<and> length k < 2 ^ 60 \<and> length v < 2 ^ 60"
    using db_entries(2) [OF db] by (fastforce simp: slip_key_def slip_val_def)
  ultimately obtain c1 where c1: "slip_map_foreach (rebuild_journal_property_cb su) (kn_properties n) ([], True, enc) = Some c1" "body_state ?es c1"
    using properties_state [OF su, of ?es "[]" "([], True, enc)"] unfolding db_entries(3) [OF db] by auto
  define ps where "ps = ?es @ (case position_of db a of None \<Rightarrow> [] | Some p \<Rightarrow> [(bytes_of ''_loc'', print_position p)])"
  have "\<exists>c2. (case kn_slot n of None \<Rightarrow> Some c1
      | Some (p, e) \<Rightarrow> do { slot \<leftarrow> content (db_root db) p e; Some (add_pair ''_loc'' (print_position (position slot)) c1) }) = Some c2 \<and> body_state ps c2"
  proof (cases "kn_slot n")
    case None
    then show ?thesis using c1(2) db(2) by (simp add: ps_def position_of_def)
  next
    case (Some s)
    obtain p e where s: "s = (p, e)" by (cases s)
    obtain slot where "content (db_root db) p e = Some slot" "position_of db a = Some (position slot)"
      by (rule db_slot_content [OF db Some [unfolded s]])
    then show ?thesis using Some s add_pair_state [OF c1(2) unescaped_literals(4) unescaped_print_position]
      by (simp add: ps_def)
  qed
  then obtain c2 where c2: "(case kn_slot n of None \<Rightarrow> Some c1
      | Some (p, e) \<Rightarrow> do { slot \<leftarrow> content (db_root db) p e; Some (add_pair ''_loc'' (print_position (position slot)) c1) }) = Some c2" "body_state ps c2"
    by blast
  have "\<exists>c3. (case kn_expirable n of None \<Rightarrow> Some c2
      | Some e \<Rightarrow> do { x \<leftarrow> slab_contents exps e; Some (add_pair ''_expires_at'' (print_time (exp_ts x)) c2) }) = Some c3 \<and>
      body_state (rewrite_pairs ?es (position_of db a) (expires_of exps db a)) c3"
  proof (cases "kn_expirable n")
    case None
    then show ?thesis using c2(2) db(2) by (simp add: ps_def rewrite_pairs_def expires_of_def)
  next
    case (Some e)
    obtain x where "slab_contents exps e = Some x" "expires_of exps db a = Some (exp_ts x)" by (rule db_expirable [OF db Some])
    then show ?thesis using Some add_pair_state [OF c2(2) unescaped_literals(5), of "print_time (exp_ts x)"] unescaped_digits
      by (simp add: ps_def rewrite_pairs_def print_time_def)
  qed
  then obtain body first enc1 where "(case kn_expirable n of None \<Rightarrow> Some c2
      | Some e \<Rightarrow> do { x \<leftarrow> slab_contents exps e; Some (add_pair ''_expires_at'' (print_time (exp_ts x)) c2) }) = Some (body, first, enc1)"
      "body_state (rewrite_pairs ?es (position_of db a) (expires_of exps db a)) (body, first, enc1)" by auto
  then show ?thesis using c1(1) c2(1) by (simp add: record_body_def body_at_def body_state_def)
qed

section \<open>The encoded name of a layer as a C string\<close>

definition zero_ended :: "binval \<Rightarrow> bool" where
  "zero_ended e = (\<exists>v. bv_val e = Some v \<and> bv_size e < length v \<and> v ! bv_size e = 0)"

lemma copy_zero_ended: "copy_to_binval b str = Some (r, b') \<Longrightarrow> zero_ended b'"
proof -
  assume c: "copy_to_binval b str = Some (r, b')"
  let ?n = "size_add (bv_size b) (length str)"
  obtain v where v: "bv_size b + length str < length v"
    "b' = b\<lparr>bv_val := Some (write_at (write_at v (bv_size b) str) ?n [0]), bv_size := ?n\<rparr>"
    using c by (auto simp: copy_to_binval_def bind_eq_Some_conv Let_def)
  have "?n \<le> bv_size b + length str" by (simp add: size_add_def)
  then have n: "?n < length (write_at v (bv_size b) str)" using v(1) by (simp add: write_at_length)
  have "write_at w n [0] ! n = 0 \<and> n < length (write_at w n [0])" if "n < length w" for w :: bytes and n
    using that by (simp add: write_at_def nth_append)
  then show ?thesis using v(2) n by (simp add: zero_ended_def)
qed

lemma append_zero_ended: "append_to_binval a b str = Some (0, b') \<Longrightarrow> zero_ended b'"
  by (auto simp: append_to_binval_def Let_def dest: copy_zero_ended split: if_splits option.splits)

lemma encode_loop_zero_ended:
  assumes "\<forall>i. al i \<noteq> None" "bv_ok e" "bv_val e \<noteq> None" "bv_size e + 3 * length s < SIZE_MAX" "encode_loop al i s e = Some e'" "zero_ended e \<or> s \<noteq> []"
  shows "zero_ended e'"
  using assms(2-)
proof (induction s arbitrary: i e)
  case (Cons c s)
  have "bv_size e + length (encode_char c) < SIZE_MAX"
    using Cons.prems(3) encode_char_length(1) [of c] by simp
  then obtain e1 where e1: "append_to_binval (al i) e (encode_char c) = Some (0, e1)" "bv_ok e1" "bv_val e1 \<noteq> None"
    "bv_size e1 = bv_size e + length (encode_char c)"
    using append_to_binval_spec [of e "encode_char c" "al i"] Cons.prems assms(1) encode_char_length(2) [of c] by auto
  have "bv_size e1 + 3 * length s < SIZE_MAX"
    using Cons.prems(3) encode_char_length(1) [of c] e1(4) by simp
  moreover have "encode_loop al (i + 1) s e1 = Some e'" using Cons.prems(4) e1(1) by simp
  ultimately show ?case using Cons.IH e1(2,3) append_zero_ended [OF e1(1)] by blast
qed simp

lemma c_str_until_zero: "0 \<notin> set s \<Longrightarrow> c_str (s @ 0 # r) = s"
  unfolding c_str_def by (induction s) auto

lemma c_str_zero_ended: "zero_ended e \<Longrightarrow> 0 \<notin> set (bv_bytes e) \<Longrightarrow> bv_val e = Some v \<Longrightarrow> c_str v = bv_bytes e \<and> bv_size e = length (bv_bytes e)"
proof -
  assume a: "zero_ended e" "0 \<notin> set (bv_bytes e)" "bv_val e = Some v"
  then have v: "bv_size e < length v" "v ! bv_size e = 0" "bv_bytes e = take (bv_size e) v" by (auto simp: zero_ended_def bv_bytes_def)
  have eq: "v = bv_bytes e @ 0 # drop (Suc (bv_size e)) v" using id_take_nth_drop [OF v(1)] unfolding v(2,3) .
  have "c_str v = c_str (bv_bytes e @ 0 # drop (Suc (bv_size e)) v)" by (rule arg_cong [OF eq])
  also have "\<dots> = bv_bytes e" by (rule c_str_until_zero [OF a(2)])
  finally show ?thesis using v(1,3) by simp
qed

lemma encode_char_no_zero: "0 \<notin> set (encode_char c)"
proof -
  have "\<forall>d \<in> set [0..<16]. digit_char d \<noteq> 0" by code_simp
  moreover have "unat c div 16 < 16" by (rule unat_div_16)
  ultimately have "digit_char (unat c div 16) \<noteq> 0" "digit_char (unat c mod 16) \<noteq> 0" by simp_all
  moreover have "uri_chars ! 0 = 0" by code_simp
  ultimately show ?thesis by (auto simp: encode_char_def hexbuf_def)
qed

lemma encode_str_no_zero: "0 \<notin> set (encode_str s)"
  using encode_char_no_zero by (auto simp: encode_str_def)

lemma encode_name_ok:
  assumes "good_surroundings su" "s \<noteq> []" "length s < 2 ^ 60"
  obtains enc v where "encode_into su init_binval s = Some (0, enc)" "bv_val enc = Some v" "c_str v = encode_str s" "bv_size enc = length (encode_str s)"
proof -
  let ?w = "length s * 3 div 2"
  have mem: "\<forall>i. su_append su s i \<noteq> None" using assms(1) by (simp add: good_surroundings_def)
  have "su_grow su s \<noteq> None" using assms(1) by (simp add: good_surroundings_def)
  then obtain junk where junk: "su_grow su s = Some junk" by blast
  have small: "3 * length s + 3 < SIZE_MAX" using assms(3) by (simp add: SIZE_MAX_def)
  obtain enc where enc: "encode_into su init_binval s = Some (0, enc)" "bv_val enc \<noteq> None" "bv_bytes enc = encode_str s"
    using encode_into_ok [OF assms(1) init_binval_ok(1) assms(3)] assms(2) by blast
  let ?e1 = "init_binval\<lparr>bv_size := 0, bv_val := Some (realloc_bytes junk None (?w + 1)), bv_max_size := ?w\<rparr>"
  have "length s * 3 mod (SIZE_MAX + 1) = length s * 3" "size_add ?w 1 = ?w + 1" using small by (simp_all add: size_add_small)
  then have loop: "encode_loop (su_append su s) 0 s ?e1 = Some enc"
    using enc(1) junk assms(2) by (auto simp: encode_into_def uri_encode_binval_def init_binval_def Let_def bind_eq_Some_conv)
  have "bv_ok ?e1" using small by (simp add: bv_ok_def realloc_bytes_def init_binval_def)
  then have "zero_ended enc" using encode_loop_zero_ended [OF mem _ _ _ loop] small assms(2) by simp
  moreover obtain v where v: "bv_val enc = Some v" using enc(2) by auto
  ultimately have "c_str v = encode_str s \<and> bv_size enc = length (encode_str s)"
    using c_str_zero_ended [of enc v] encode_str_no_zero enc(3) by simp
  then show thesis using that enc(1) v by blast
qed

section \<open>The new journal as a list of entries\<close>

definition layer_item :: "bytes \<Rightarrow> item" where
  "layer_item name = Request EVHTTP_REQ_POST (encoded_api_base_uri @ bytes_of ''layers/'' @ encode_str name @ bytes_of ''.json'') []"

definition rewritten_uri :: "bytes \<Rightarrow> bytes \<Rightarrow> bytes" where
  "rewritten_uri name key =
     encoded_api_base_uri @ bytes_of ''records/'' @ encode_str name @ bytes_of ''/'' @ c_str key @ bytes_of ''.json''"

definition record_item :: "bytes \<Rightarrow> expirable slab \<Rightarrow> pan_db \<Rightarrow> nat \<Rightarrow> item" where
  "record_item name exps db a = Request EVHTTP_REQ_PUT (rewritten_uri name (key_at (key_nodes db) a)) (body_at exps db a)"

definition record_items :: "expirable slab \<Rightarrow> layer \<Rightarrow> item list" where
  "record_items exps l = map (record_item (layer_name l) exps (layer_db l)) (kn_tree (key_nodes (layer_db l)))"

text \<open>For each layer what is put into its buffer at once, the time stamp before the first, and then the records one by one.\<close>

fun dumps :: "int \<Rightarrow> bool \<Rightarrow> expirable slab \<Rightarrow> layer list \<Rightarrow> (item list \<times> item list) list" where
  "dumps t ts_written exps [] = []"
| "dumps t ts_written exps (l # ls) =
     ((if \<not> ts_written \<and> t \<noteq> - 1 then [Stamp (nat t)] else []) @ [layer_item (layer_name l)], record_items exps l) #
     dumps t (ts_written \<or> t \<noteq> - 1) exps ls"

text \<open>The walks with their buffers, over entries.\<close>

fun dump_records :: "item list \<Rightarrow> bytes \<Rightarrow> bytes \<Rightarrow> write_answers \<Rightarrow> (bytes \<times> bytes \<times> write_answers) option" where
  "dump_records [] buf file as = Some (buf, file, as)"
| "dump_records (i # is) buf file as =
     (if length (buf @ enc_item i) > TMP_LOG_BUFFER_SIZE then
        do {
          (_, buf', file', as') \<leftarrow> flush_log_buffer as (buf @ enc_item i) file;
          dump_records is buf' file' as'
        }
      else dump_records is (buf @ enc_item i) file as)"

definition dump_layer :: "item list \<times> item list \<Rightarrow> bytes \<Rightarrow> write_answers \<Rightarrow> (int \<times> bytes \<times> write_answers) option" where
  "dump_layer d file as =
     do {
       (buf, file', as') \<leftarrow> dump_records (snd d) (enc_items (fst d)) file as;
       (r, _, file'', as'') \<leftarrow> flush_log_buffer as' buf file';
       Some (r, file'', as'')
     }"

fun dump_layers :: "(item list \<times> item list) list \<Rightarrow> bytes \<Rightarrow> write_answers \<Rightarrow> (int \<times> bytes \<times> write_answers) option" where
  "dump_layers [] file as = Some (0, file, as)"
| "dump_layers (d # ds) file as =
     do {
       (r, file', as') \<leftarrow> dump_layer d file as;
       (if r \<noteq> 0 then Some (r, file', as') else dump_layers ds file' as')
     }"

text \<open>Keys have their terminating zero and no other, names are C strings of a size that memory can hold.\<close>

definition writable_db :: "pan_db \<Rightarrow> bool" where
  "writable_db db = (\<forall>a \<in> set (kn_tree (key_nodes db)). key_ok (key_at (key_nodes db) a))"

definition writable :: "http_context \<Rightarrow> bool" where
  "writable ctx =
     (\<forall>a l. slab_contents (layers_slab ctx) a = Some l \<longrightarrow> length (layer_name l) < 2 ^ 60 \<and> writable_db (layer_db l))"

lemma record_cb_item:
  assumes su: "good_surroundings su" and db: "db_inv exps db" "nodes_of db a = Some n" and key: "key_ok (kn_key n)" and enc: "bv_ok enc"
    and name: "bv_val encoded = Some v" "c_str v = encode_str name" "bv_size encoded = length (encode_str name)"
  shows "\<exists>enc1. bv_ok enc1 \<and> (\<forall>buf file as. rebuild_journal_record_cb su encoded exps db (enc, buf, file, as) a =
     (let buf2 = buf @ enc_item (record_item name exps db a)
      in if length buf2 > TMP_LOG_BUFFER_SIZE then
           do { (_, buf3, file', as') \<leftarrow> flush_log_buffer as buf2 file; Some (0, enc1, buf3, file', as') }
         else Some (0, enc1, buf2, file, as)))"
proof -
  obtain k where k: "layer_ok k" "kn_key n = k @ [0]" using key by (auto simp: key_ok_def)
  then have c: "c_str (kn_key n) = k" using c_str_until_zero [of k "[]"] by (simp add: layer_ok_def)
  have at: "key_at (key_nodes db) a = kn_key n" using db(2) by (simp add: key_at_def)
  have len: "length encoded_api_base_uri + 8 + bv_size encoded + 1 + (length (kn_key n) - 1) + 5 = length (rewritten_uri name (kn_key n))"
    using c by (simp add: rewritten_uri_def k(2) name(3))
  obtain enc1 where b: "record_body su exps db n enc = Some (body_at exps db a, enc1)" "bv_ok enc1"
    using record_body_ok [OF su db enc] by blast
  have rec: "su_record su (kn_key n)" using su by (simp add: good_surroundings_def)
  have uri: "rewritten_uri name (kn_key n) = encoded_api_base_uri @ bytes_of ''records/'' @ encode_str name @ bytes_of ''/'' @ k @ bytes_of ''.json''"
    by (simp add: rewritten_uri_def c)
  show ?thesis
    by (intro exI [of _ enc1] conjI allI b(2))
      (simp only: rebuild_journal_record_cb_def prod.case db(2) name(1,2) bind.bind_lunit len rec not_True_eq_False if_False b(1) Let_def
        record_item_def at enc_item.simps uri c append_assoc)
qed

lemma records_walk:
  assumes su: "good_surroundings su" and db: "db_inv exps db"
    and name: "bv_val encoded = Some v" "c_str v = encode_str name" "bv_size encoded = length (encode_str name)"
    and nodes: "\<forall>a \<in> set nodes. nodes_of db a \<noteq> None \<and> key_ok (key_at (key_nodes db) a)" and enc: "bv_ok enc"
  shows "\<exists>enc'. key_nodes_walk (rebuild_journal_record_cb su encoded exps db) nodes (enc, buf, file, as) =
    map_option (\<lambda>(buf', file', as'). (0, enc', buf', file', as')) (dump_records (map (record_item name exps db) nodes) buf file as)"
  using nodes enc
proof (induction nodes arbitrary: enc buf "file" as)
  case (Cons a nodes)
  obtain n where n: "nodes_of db a = Some n" using Cons.prems(1) by auto
  then have "key_ok (kn_key n)" using Cons.prems(1) by (simp add: key_at_def)
  from record_cb_item [OF su db n this Cons.prems(2) name] obtain enc1 where e: "bv_ok enc1"
    "\<And>buf file as. rebuild_journal_record_cb su encoded exps db (enc, buf, file, as) a =
     (let buf2 = buf @ enc_item (record_item name exps db a)
      in if length buf2 > TMP_LOG_BUFFER_SIZE then
           do { (_, buf3, file', as') \<leftarrow> flush_log_buffer as buf2 file; Some (0, enc1, buf3, file', as') }
         else Some (0, enc1, buf2, file, as))" by blast
  have nodes: "\<forall>a \<in> set nodes. nodes_of db a \<noteq> None \<and> key_ok (key_at (key_nodes db) a)" using Cons.prems(1) by simp
  let ?buf2 = "buf @ enc_item (record_item name exps db a)"
  show ?case
  proof (cases "length ?buf2 > TMP_LOG_BUFFER_SIZE")
    case False
    then show ?thesis using Cons.IH [OF nodes e(1), of ?buf2 "file" as] by (simp add: e(2) Let_def)
  next
    case True
    show ?thesis
    proof (cases "flush_log_buffer as ?buf2 file")
      case None
      then show ?thesis using True by (simp add: e(2) Let_def)
    next
      case (Some f)
      obtain r buf3 file' as' where f: "f = (r, buf3, file', as')" by (cases f)
      show ?thesis using Cons.IH [OF nodes e(1), of buf3 file' as'] True Some f by (simp add: e(2) Let_def)
    qed
  qed
qed simp

lemma layer_cb_dump:
  assumes su: "good_surroundings su" and db: "db_inv exps (layer_db l)" "layer_name l \<noteq> []" "length (layer_name l) < 2 ^ 60" "writable_db (layer_db l)"
  shows "rebuild_journal_layer_cb su exps (ts_written, file, as) a l =
    map_option (\<lambda>(r, file', as'). (r, ts_written \<or> su_time su \<noteq> - 1, file', as')) (dump_layer (hd (dumps (su_time su) ts_written exps [l])) file as)"
proof -
  let ?name = "layer_name l" and ?db = "layer_db l"
  obtain enc v where enc: "encode_into su init_binval ?name = Some (0, enc)" "bv_val enc = Some v" "c_str v = encode_str ?name"
    "bv_size enc = length (encode_str ?name)" by (rule encode_name_ok [OF su db(2,3)])
  define stamp where "stamp = (if \<not> ts_written \<and> su_time su \<noteq> - 1 then add_ts_to_ev_log_buffer [] (su_time su) else [])"
  have stamp: "stamp = enc_items (if \<not> ts_written \<and> su_time su \<noteq> - 1 then [Stamp (nat (su_time su))] else [])"
    by (simp add: stamp_def add_ts_to_ev_log_buffer_def)
  define uri where "uri = encoded_api_base_uri @ bytes_of ''layers/'' @ encode_str ?name @ bytes_of ''.json''"
  have len: "length encoded_api_base_uri + 7 + bv_size enc + 5 = length uri" by (simp add: uri_def enc(4))
  have head: "(stamp @ cookie_head) @ hex_of EVHTTP_REQ_POST @ [space] @ hex_of (length uri) @ [colon] @ encoded_api_base_uri @
      bytes_of ''layers/'' @ c_str v @ bytes_of ''.json'' @ [space] @ hex_of 0 @ [colon] @ cookie_tail =
      enc_items (fst (hd (dumps (su_time su) ts_written exps [l])))"
    by (simp add: stamp layer_item_def uri_def enc(3))
  have nodes: "\<forall>a \<in> set (kn_tree (key_nodes ?db)). nodes_of ?db a \<noteq> None \<and> key_ok (key_at (key_nodes ?db) a)"
    using db_invD(3) [OF db(1)] db(4) by (auto simp: writable_db_def)
  obtain enc' where w: "key_nodes_walk (rebuild_journal_record_cb su enc exps ?db) (kn_tree (key_nodes ?db))
      (init_binval, enc_items (fst (hd (dumps (su_time su) ts_written exps [l]))), file, as) =
    map_option (\<lambda>(buf', file', as'). (0, enc', buf', file', as'))
      (dump_records (record_items exps l) (enc_items (fst (hd (dumps (su_time su) ts_written exps [l])))) file as)"
    using records_walk [OF su db(1) enc(2-4) nodes init_binval_ok(1)] unfolding record_items_def by blast
  have mem: "su_layer su ?name" using su by (simp add: good_surroundings_def)
  have written: "(ts_written \<or> \<not> ts_written \<and> su_time su \<noteq> - 1) = (ts_written \<or> su_time su \<noteq> - 1)" by blast
  have run: "rebuild_journal_layer_cb su exps (ts_written, file, as) a l =
    do {
      (r, enc1, buf2, file1, as1) \<leftarrow> map_option (\<lambda>(buf', file', as'). (0 :: int, enc', buf', file', as'))
        (dump_records (record_items exps l) (enc_items (fst (hd (dumps (su_time su) ts_written exps [l])))) file as);
      (if r \<noteq> 0 then Some (- 1, ts_written \<or> su_time su \<noteq> - 1, file1, as1)
       else do { (r, _, file2, as2) \<leftarrow> flush_log_buffer as1 buf2 file1; Some (r, ts_written \<or> su_time su \<noteq> - 1, file2, as2) })
    }"
    unfolding rebuild_journal_layer_cb_def prod.case Let_def key_nodes_foreach_def stamp_def [symmetric]
    by (simp only: c_assert_True db(2) mem enc(1,2) bind.bind_lunit prod.case simp_thms if_False if_True len head w written not_True_eq_False)
  show ?thesis
  proof (cases "dump_records (record_items exps l) (enc_items (fst (hd (dumps (su_time su) ts_written exps [l])))) file as")
    case None
    then show ?thesis unfolding run dump_layer_def by simp
  next
    case (Some x)
    obtain buf file1 as1 where x: "x = (buf, file1, as1)" by (cases x)
    show ?thesis
      using Some unfolding run dump_layer_def x by (cases "flush_log_buffer as1 buf file1") (auto split: prod.split)
  qed
qed

lemma layers_walk:
  assumes su: "good_surroundings su"
    and ls: "\<forall>(a, l) \<in> set ls. db_inv exps (layer_db l) \<and> layer_name l \<noteq> [] \<and> length (layer_name l) < 2 ^ 60 \<and> writable_db (layer_db l)"
  shows "map_option (\<lambda>(r, w, file', as'). (r, file', as')) (foreach_entries (rebuild_journal_layer_cb su exps) ls (ts_written, file, as)) =
    dump_layers (dumps (su_time su) ts_written exps (map snd ls)) file as"
  using ls
proof (induction ls arbitrary: ts_written "file" as)
  case (Cons e ls)
  obtain a l where e: "e = (a, l)" by (cases e)
  have l: "db_inv exps (layer_db l)" "layer_name l \<noteq> []" "length (layer_name l) < 2 ^ 60" "writable_db (layer_db l)"
    using Cons.prems e by auto
  note step = layer_cb_dump [OF su l, of ts_written "file" as a]
  define d where "d = hd (dumps (su_time su) ts_written exps [l])"
  have ds: "dumps (su_time su) ts_written exps (map snd (e # ls)) = d # dumps (su_time su) (ts_written \<or> su_time su \<noteq> - 1) exps (map snd ls)"
    by (simp add: e d_def)
  note step = step [folded d_def]
  show ?case
  proof (cases "dump_layer d file as")
    case None
    then show ?thesis unfolding ds using step by (simp add: e)
  next
    case (Some x)
    obtain r file1 as1 where x: "x = (r, file1, as1)" by (cases x)
    show ?thesis
      using Cons.IH [of "ts_written \<or> su_time su \<noteq> - 1" file1 as1] Cons.prems Some step x
      unfolding ds by (simp add: e)
  qed
qed simp

definition journal_dumps :: "surroundings \<Rightarrow> http_context \<Rightarrow> (item list \<times> item list) list" where
  "journal_dumps su ctx = dumps (su_time su) False (expirables_slab ctx) (map snd (slab_list (layers_slab ctx)))"

lemma rebuild_journal_dumps:
  assumes "good_surroundings su" "ctx_inv ctx" "writable ctx"
  shows "rebuild_journal su ctx as = map_option (\<lambda>(r, file, as'). (0, file, as')) (dump_layers (journal_dumps su ctx) [] as)"
proof -
  note i = ctx_invD [OF assms(2)]
  have mem: "(a, l) \<in> set (slab_list (layers_slab ctx)) \<Longrightarrow> slab_contents (layers_slab ctx) a = Some l" for a l
    using tidy_list(1) [OF i(1)] unfolding slab_entries_def by blast
  have "\<forall>(a, l) \<in> set (slab_list (layers_slab ctx)). db_inv (expirables_slab ctx) (layer_db l) \<and> layer_name l \<noteq> [] \<and>
      length (layer_name l) < 2 ^ 60 \<and> writable_db (layer_db l)"
    using mem i(4) assms(3) unfolding writable_def by blast
  from layers_walk [OF assms(1) this, of False "[]" as]
  have w: "map_option (\<lambda>(r, w, file', as'). (r, file', as')) (slab_foreach (rebuild_journal_layer_cb su (expirables_slab ctx)) (layers_slab ctx) (False, [], as)) =
    dump_layers (journal_dumps su ctx) [] as"
    by (simp add: journal_dumps_def tidy_list(2) [OF i(1)])
  show ?thesis
    unfolding w [symmetric] rebuild_journal_def
    by (cases "slab_foreach (rebuild_journal_layer_cb su (expirables_slab ctx)) (layers_slab ctx) (False, [], as)") (auto split: prod.split)
qed

section \<open>What reaches the file\<close>

text \<open>The bytes left in the buffer of a layer after its last record.\<close>

fun chunk_left :: "nat \<Rightarrow> item list \<Rightarrow> nat" where
  "chunk_left n [] = n"
| "chunk_left n (i # is) =
     chunk_left (if n + length (enc_item i) > TMP_LOG_BUFFER_SIZE then 0 else n + length (enc_item i)) is"

definition left_over :: "item list \<times> item list \<Rightarrow> nat" where
  "left_over d = chunk_left (length (enc_items (fst d))) (snd d)"

abbreviation items_of :: "(item list \<times> item list) list \<Rightarrow> item list" where
  "items_of ds \<equiv> concat (map (\<lambda>d. fst d @ snd d) ds)"

lemma writes_ok_subset: "writes_ok as \<Longrightarrow> set as' \<subseteq> set as \<Longrightarrow> writes_ok as'"
  by (auto simp: writes_ok_def)

lemma dump_records_ok:
  assumes "writes_ok as" "dump_records xs buf file as = Some (buf', file', as')"
  shows "file' @ buf' = file @ buf @ enc_items xs \<and> length buf' = chunk_left (length buf) xs \<and> set as' \<subseteq> set as"
  using assms
proof (induction xs arbitrary: buf "file" as)
  case (Cons i xs)
  show ?case
  proof (cases "length (buf @ enc_item i) > TMP_LOG_BUFFER_SIZE")
    case False
    then show ?thesis using Cons.IH [OF Cons.prems(1), of "buf @ enc_item i" "file"] Cons.prems(2) by simp
  next
    case True
    then obtain r b f as1 where f: "flush_log_buffer as (buf @ enc_item i) file = Some (r, b, f, as1)"
      "dump_records xs b f as1 = Some (buf', file', as')"
      using Cons.prems(2) by (auto simp: bind_eq_Some_conv)
    have ne: "buf @ enc_item i \<noteq> []" using True by auto
    note ok = flush_ok [OF ne Cons.prems(1) f(1)]
    have "writes_ok as1" using writes_ok_subset [OF Cons.prems(1)] ok by blast
    from Cons.IH [OF this f(2)] ok True show ?thesis by auto
  qed
qed simp

lemma dump_layer_ok:
  assumes "writes_ok as" "dump_layer d file as = Some (r, file', as')"
  shows "file' = file @ enc_items (fst d @ snd d) \<and> (left_over d > 0 \<longrightarrow> r = 0) \<and>
    (left_over d = 0 \<longrightarrow> (\<forall>(w, e) \<in> set as. \<not> again e) \<longrightarrow> r = - 1) \<and> set as' \<subseteq> set as"
proof -
  obtain buf1 file1 as1 b where d: "dump_records (snd d) (enc_items (fst d)) file as = Some (buf1, file1, as1)"
    "flush_log_buffer as1 buf1 file1 = Some (r, b, file', as')"
    using assms(2) by (auto simp: dump_layer_def bind_eq_Some_conv)
  note ok = dump_records_ok [OF assms(1) d(1)]
  have as1: "writes_ok as1" using writes_ok_subset [OF assms(1)] ok by blast
  show ?thesis
  proof (cases "buf1 = []")
    case False
    then show ?thesis using flush_ok [OF False as1 d(2)] ok by (auto simp: left_over_def)
  next
    case True
    obtain w e as2 where a: "as1 = (w, e) # as2"
      using d(2) by (cases as1) (auto simp: flush_log_buffer_def flush_tmp_loop.simps(1))
    have "r = (if again e then 0 else - 1) \<and> file' = file1 \<and> as' = as2" using d(2) by (simp add: True a flush_nothing split: if_splits)
    moreover have "(w, e) \<in> set as" "set as2 \<subseteq> set as" using ok a by auto
    ultimately show ?thesis using ok True by (auto simp: left_over_def)
  qed
qed

lemma dump_layers_all:
  assumes "writes_ok as" "\<forall>d \<in> set ds. left_over d > 0" "dump_layers ds file as = Some (r, file', as')"
  shows "r = 0 \<and> file' = file @ enc_items (items_of ds)"
  using assms
proof (induction ds arbitrary: "file" as)
  case (Cons d ds)
  obtain r1 file1 as1 where d: "dump_layer d file as = Some (r1, file1, as1)"
    "(if r1 \<noteq> 0 then Some (r1, file1, as1) else dump_layers ds file1 as1) = Some (r, file', as')"
    using Cons.prems(3) by (auto simp: bind_eq_Some_conv)
  note ok = dump_layer_ok [OF Cons.prems(1) d(1)]
  then have "r1 = 0" "writes_ok as1" using Cons.prems(1,2) writes_ok_subset by auto
  then show ?case using Cons.IH [of as1 file1] Cons.prems(2) d(2) ok by simp
qed simp

lemma dump_layers_stop:
  assumes "writes_ok as" "\<forall>(w, e) \<in> set as. \<not> again e" "\<forall>d \<in> set pre. left_over d > 0" "left_over d = 0"
    and "dump_layers (pre @ d # post) file as = Some (r, file', as')"
  shows "r = - 1 \<and> file' = file @ enc_items (items_of (pre @ [d]))"
  using assms
proof (induction pre arbitrary: "file" as)
  case Nil
  then show ?case using dump_layer_ok [OF Nil.prems(1), of d "file"] by (auto simp: bind_eq_Some_conv split: if_splits)
next
  case (Cons d0 pre)
  obtain r1 file1 as1 where d: "dump_layer d0 file as = Some (r1, file1, as1)"
    "(if r1 \<noteq> 0 then Some (r1, file1, as1) else dump_layers (pre @ d # post) file1 as1) = Some (r, file', as')"
    using Cons.prems(5) by (auto simp: bind_eq_Some_conv)
  note ok = dump_layer_ok [OF Cons.prems(1) d(1)]
  then have "r1 = 0" "writes_ok as1" "\<forall>(w, e) \<in> set as1. \<not> again e" using Cons.prems(1-3) writes_ok_subset by auto
  then show ?case using Cons.IH [of as1 file1] Cons.prems(3,4) d(2) ok by simp
qed

text \<open>Enough answers exist, all of them successes or all of them failures.\<close>

definition successes :: "write_answers \<Rightarrow> bool" where
  "successes as = (\<forall>(w, e) \<in> set as. w > 0 \<and> e = EOTHER)"

lemma successes_simps [simp]: "successes []" "successes ((w, e) # as) = (w > 0 \<and> e = EOTHER \<and> successes as)"
  "successes (as @ bs) = (successes as \<and> successes bs)"
  by (auto simp: successes_def)

lemma successes_ok: "successes as \<Longrightarrow> writes_ok as \<and> (\<forall>(w, e) \<in> set as. \<not> again e)"
  by (auto simp: successes_def writes_ok_def again_def)

lemma flush_total: "\<exists>as0 r b f. successes as0 \<and> (\<forall>as. flush_log_buffer (as0 @ as) buf file = Some (r, b, f, as))"
proof (cases "buf = []")
  case True
  then show ?thesis by (intro exI [of _ "[(1, EOTHER)]"]) (simp add: flush_nothing)
next
  case False
  then show ?thesis by (intro exI [of _ "[(int (length buf), EOTHER)]"]) (simp add: flush_all)
qed

lemma dump_records_total: "\<exists>as0 b f. successes as0 \<and> (\<forall>as. dump_records xs buf file (as0 @ as) = Some (b, f, as))"
proof (induction xs arbitrary: buf "file")
  case Nil
  show ?case by (intro exI [of _ "[]"] exI [of _ buf] exI [of _ "file"]) simp
next
  case (Cons i xs)
  show ?case
  proof (cases "length (buf @ enc_item i) > TMP_LOG_BUFFER_SIZE")
    case False
    then show ?thesis using Cons.IH [of "buf @ enc_item i" "file"] by simp
  next
    case True
    then have ne: "buf @ enc_item i \<noteq> []" by auto
    obtain as0 b f where "successes as0" "\<forall>as. dump_records xs [] (file @ buf @ enc_item i) (as0 @ as) = Some (b, f, as)"
      using Cons.IH by blast
    then show ?thesis using True flush_all [OF ne, of EOTHER]
      by (intro exI [of _ "(int (length (buf @ enc_item i)), EOTHER) # as0"] exI [of _ b] exI [of _ f]) (use ne in simp)
  qed
qed

lemma dump_layer_total: "\<exists>as0 r f. successes as0 \<and> (\<forall>as. dump_layer d file (as0 @ as) = Some (r, f, as))"
proof -
  obtain as0 b f where r: "successes as0" "\<forall>as. dump_records (snd d) (enc_items (fst d)) file (as0 @ as) = Some (b, f, as)"
    using dump_records_total by blast
  obtain as1 r b1 f1 where w: "successes as1" "\<forall>as. flush_log_buffer (as1 @ as) b f = Some (r, b1, f1, as)"
    using flush_total by blast
  show ?thesis using r w by (intro exI [of _ "as0 @ as1"] exI [of _ r] exI [of _ f1]) (simp add: dump_layer_def)
qed

lemma dump_layers_total: "\<exists>as0 r f. successes as0 \<and> (\<forall>as. dump_layers ds file (as0 @ as) = Some (r, f, as))"
proof (induction ds arbitrary: "file")
  case Nil
  show ?case by (intro exI [of _ "[]"] exI [of _ 0] exI [of _ "file"]) simp
next
  case (Cons d ds)
  obtain as0 r f where d: "successes as0" "\<forall>as. dump_layer d file (as0 @ as) = Some (r, f, as)" using dump_layer_total by blast
  show ?case
  proof (cases "r = 0")
    case False
    then show ?thesis using d by (intro exI [of _ as0] exI [of _ r] exI [of _ f]) simp
  next
    case True
    obtain as1 r1 f1 where "successes as1" "\<forall>as. dump_layers ds f (as1 @ as) = Some (r1, f1, as)" using Cons.IH by blast
    then show ?thesis using d True by (intro exI [of _ "as0 @ as1"] exI [of _ r1] exI [of _ f1]) simp
  qed
qed

abbreviation write_error :: "int \<times> errno" where
  "write_error \<equiv> (- 1, EOTHER)"

lemma flush_write_error: "flush_log_buffer (write_error # as) buf file = Some (- 1, buf, file, as)"
  by (rule flush_error) (simp_all add: again_def)

lemma dump_records_error: "\<exists>n b. \<forall>as. dump_records xs buf file (replicate n write_error @ as) = Some (b, file, as)"
proof (induction xs arbitrary: buf)
  case Nil
  show ?case by (intro exI [of _ 0]) simp
next
  case (Cons i xs)
  obtain n b where n: "\<forall>as. dump_records xs (buf @ enc_item i) file (replicate n write_error @ as) = Some (b, file, as)" using Cons.IH by blast
  show ?case
  proof (cases "length (buf @ enc_item i) > TMP_LOG_BUFFER_SIZE")
    case False
    then show ?thesis using n by (intro exI [of _ n] exI [of _ b]) simp
  next
    case True
    then show ?thesis using n by (intro exI [of _ "Suc n"] exI [of _ b]) (simp add: flush_write_error)
  qed
qed

lemma dump_layer_error: "\<exists>n. dump_layer d file (replicate n write_error) = Some (- 1, file, [])"
proof -
  obtain n b where "\<forall>as. dump_records (snd d) (enc_items (fst d)) file (replicate n write_error @ as) = Some (b, file, as)"
    using dump_records_error by blast
  then have "dump_records (snd d) (enc_items (fst d)) file (replicate (n + 1) write_error) = Some (b, file, [write_error])"
    by (simp add: replicate_append_same [symmetric])
  then show ?thesis by (intro exI [of _ "n + 1"]) (simp add: dump_layer_def flush_write_error del: replicate.simps)
qed

text \<open>The copy: what was read is written, or the result is -1; it is written when no write fails.\<close>

lemma write_chunk_result:
  assumes "buf \<noteq> []" "write_chunk as (length buf) buf target = Some (r, target', as')"
  shows "(if r = 0 then target' = target @ buf else r = - 1) \<and> (writes_ok as \<longrightarrow> r = 0 \<and> writes_ok as')"
  using assms
proof (induction as arbitrary: buf target)
  case Nil
  then show ?case by (simp add: write_chunk.simps)
next
  case (Cons a as)
  obtain w e where a: "a = (w, e)" by (cases a)
  note run = Cons.prems(2) [unfolded a write_chunk.simps evbuffer_write_def, simplified]
  consider (again) "w < 0" "again e" | (failed) "w < 0" "\<not> again e" | (nothing) "w = 0" | (some) "0 < w" by linarith
  then show ?case
  proof cases
    case again
    then have "write_chunk as (length buf) buf target = Some (r, target', as')" using run Cons.prems(1) by simp
    from Cons.IH [OF Cons.prems(1) this] show ?thesis by (simp add: a)
  next
    case some
    then have w: "w \<le> int (length buf)" using run Cons.prems(1) by (auto split: if_splits)
    show ?thesis
    proof (cases "length buf - nat w > 0")
      case True
      then have "write_chunk as (length (drop (nat w) buf)) (drop (nat w) buf) (target @ take (nat w) buf) = Some (r, target', as')"
        using run w some Cons.prems(1) by (simp add: Let_def split: if_splits)
      from Cons.IH [OF _ this] True show ?thesis by (auto simp: a split: if_splits)
    next
      case False
      then have "length buf \<le> nat w" by simp
      then show ?thesis using run w some Cons.prems(1) by (auto simp: Let_def a split: if_splits)
    qed
  qed (use run Cons.prems(1) in \<open>auto simp: a split: if_splits\<close>)
qed

lemma copy_result:
  assumes "\<forall>n \<in> set ns. n > 0" "end_read \<le> 0" "sum_list ns \<le> int (length source)"
    and "copy_data_between_fds (ns @ [end_read]) as source target = Some (r, target', as')"
  shows "(if r = 0 then target' = target @ take (nat (sum_list ns)) source else r = - 1) \<and> (writes_ok as \<longrightarrow> r = 0)"
  using assms
proof (induction ns arbitrary: as source target)
  case Nil
  then show ?case by simp
next
  case (Cons n ns)
  have rest: "0 \<le> sum_list ns" using Cons.prems(1) by (intro sum_list_nonneg) auto
  then have n: "0 < n" "n \<le> int (length source)" using Cons.prems(1,3) by auto
  then have chunk: "take (nat n) source \<noteq> []" "length (take (nat n) source) = nat n" by auto
  obtain r1 t1 as1 where w: "write_chunk as (nat n) (take (nat n) source) target = Some (r1, t1, as1)"
    "(if r1 \<noteq> 0 then Some (- 1, t1, as1) else copy_data_between_fds (ns @ [end_read]) as1 (drop (nat n) source) t1) = Some (r, target', as')"
    using Cons.prems(4) n by (auto simp: bind_eq_Some_conv)
  note ok = write_chunk_result [OF chunk(1), of as target, unfolded chunk(2), OF w(1)]
  show ?case
  proof (cases "r1 = 0")
    case False
    then show ?thesis using ok w(2) by auto
  next
    case True
    have "sum_list ns \<le> int (length (drop (nat n) source))" using Cons.prems(3) n by simp
    moreover have "copy_data_between_fds (ns @ [end_read]) as1 (drop (nat n) source) t1 = Some (r, target', as')" using w(2) True by simp
    ultimately have ih: "(if r = 0 then target' = t1 @ take (nat (sum_list ns)) (drop (nat n) source) else r = - 1) \<and> (writes_ok as1 \<longrightarrow> r = 0)"
      using Cons.IH [of "drop (nat n) source" as1 t1] Cons.prems(1,2) by simp
    have "nat (sum_list (n # ns)) = nat n + nat (sum_list ns)" using n(1) rest by simp
    then have "take (nat (sum_list (n # ns))) source = take (nat n) source @ take (nat (sum_list ns)) (drop (nat n) source)"
      by (simp add: take_add)
    then show ?thesis using ih ok True by (simp split: if_splits)
  qed
qed

definition calls_succeed :: "fork_answers \<Rightarrow> bool" where
  "calls_succeed fa = (fa_name_mem fa \<and> fa_seek_ok fa \<and> fa_open_ok fa \<and> fa_seek_end_ok fa \<and> \<not> fa_slaves_loading fa \<and> fa_rename_ok fa)"

lemma after_fork_cases:
  assumes "system_rewrite_after_fork_cb fa tmp srv = Some (ret, srv')"
  shows "ret = - 1 \<and> srv' = srv\<lparr>srv_rewrite_process := - 1\<rparr> \<and> (calls_succeed fa \<longrightarrow>
      (\<exists>r tmp' as. copy_data_between_fds (fa_reads fa) (fa_writes fa) (drop (nat (srv_offset_before_fork srv)) (dl_file (srv_log srv))) tmp = Some (r, tmp', as) \<and> r \<noteq> 0)) \<or>
    (\<exists>tmp' as. copy_data_between_fds (fa_reads fa) (fa_writes fa) (drop (nat (srv_offset_before_fork srv)) (dl_file (srv_log srv))) tmp = Some (0, tmp', as) \<and>
       ret = 0 \<and> calls_succeed fa \<and> srv' = srv\<lparr>srv_rewrite_process := - 1, srv_log := (srv_log srv)\<lparr>dl_file := tmp'\<rparr>\<rparr>)"
proof (cases "fa_name_mem fa \<and> fa_seek_ok fa")
  case False
  then show ?thesis using assms by (auto simp: calls_succeed_def system_rewrite_after_fork_cb_def Let_def bind_eq_Some_conv split: if_split_asm)
next
  case True
  note run = assms [unfolded system_rewrite_after_fork_cb_def Let_def]
  show ?thesis
  proof (cases "fa_open_ok fa")
    case False
    then show ?thesis using run True by (cases "fa_reads fa") (auto simp: calls_succeed_def bind_eq_Some_conv split: if_split_asm)
  next
    case opened: True
    then obtain r t as where c: "copy_data_between_fds (fa_reads fa) (fa_writes fa) (drop (nat (srv_offset_before_fork srv)) (dl_file (srv_log srv))) tmp = Some (r, t, as)"
      using run True by (auto simp: bind_eq_Some_conv)
    then show ?thesis using run True opened by (auto simp: calls_succeed_def bind_eq_Some_conv split: if_split_asm)
  qed
qed

section \<open>Properties\<close>

definition journal_items :: "surroundings \<Rightarrow> http_context \<Rightarrow> item list" where
  "journal_items su ctx = items_of (journal_dumps su ctx)"

text \<open>
  C7: the new journal. When the writes succeed, whatever their partial and interrupted calls, and no buffer happens to be empty after the last
  record of a layer, it holds one request for every layer, followed by one for each of its records, and nothing else; and
  the rewrite ends.
\<close>

theorem rewrite_writes_database:
  assumes "good_surroundings su" "ctx_inv ctx" "writable ctx" "\<forall>d \<in> set (journal_dumps su ctx). left_over d > 0"
  shows "(\<exists>as. writes_ok as \<and> rebuild_journal su ctx as = Some (0, enc_items (journal_items su ctx), [])) \<and>
    (\<forall>as r file as'. writes_ok as \<longrightarrow> rebuild_journal su ctx as = Some (r, file, as') \<longrightarrow> r = 0 \<and> file = enc_items (journal_items su ctx))"
proof -
  have eq: "rebuild_journal su ctx as = map_option (\<lambda>(r, file, as'). (0, file, as')) (dump_layers (journal_dumps su ctx) [] as)" for as
    by (rule rebuild_journal_dumps [OF assms(1-3)])
  have all: "r = 0 \<and> file = enc_items (journal_items su ctx)" if "writes_ok as" "rebuild_journal su ctx as = Some (r, file, as')" for as r "file" as'
    using that dump_layers_all [OF that(1) assms(4), of "[]"] by (auto simp: eq journal_items_def)
  obtain as0 r f where t: "successes as0" "\<forall>as. dump_layers (journal_dumps su ctx) [] (as0 @ as) = Some (r, f, as)"
    using dump_layers_total by blast
  then have "rebuild_journal su ctx as0 = Some (0, f, [])" using spec [OF t(2), of "[]"] by (simp add: eq)
  moreover have ok: "writes_ok as0" using successes_ok [OF t(1)] by blast
  ultimately show ?thesis using all by blast
qed

text \<open>
  C35: a rewrite loses layers when the buffer of a layer is flushed after its last record: the flush at the end of the layer then writes nothing,
  takes that for an error, and the layers behind it are left out although every write succeeded and the result is 0.
\<close>

theorem rewrite_can_lose_layers:
  assumes "good_surroundings su" "ctx_inv ctx" "writable ctx"
    and "journal_dumps su ctx = pre @ d # post" "\<forall>d \<in> set pre. left_over d > 0" "left_over d = 0"
  shows "\<exists>as. (\<forall>(w, e) \<in> set as. w > 0) \<and> rebuild_journal su ctx as = Some (0, enc_items (items_of (pre @ [d])), [])"
proof -
  obtain as0 r f where t: "successes as0" "\<forall>as. dump_layers (journal_dumps su ctx) [] (as0 @ as) = Some (r, f, as)"
    using dump_layers_total by blast
  then have run: "dump_layers (pre @ d # post) [] as0 = Some (r, f, [])" using spec [OF t(2), of "[]"] assms(4) by simp
  have ok: "writes_ok as0" "\<forall>(w, e) \<in> set as0. \<not> again e" using successes_ok [OF t(1)] by blast+
  have "f = enc_items (items_of (pre @ [d]))" using dump_layers_stop [OF ok assms(5,6) run] by simp
  moreover have "\<forall>(w, e) \<in> set as0. w > 0" using t(1) by (auto simp: successes_def)
  ultimately show ?thesis using run assms(4) rebuild_journal_dumps [OF assms(1-3), of as0] by (intro exI [of _ as0]) simp
qed

text \<open>
  C36: a rewrite does not notice errors. When no write succeeds, the result is 0 and the new journal, which then replaces
  the old one, is empty.
\<close>

theorem rewrite_ignores_errors:
  assumes "good_surroundings su" "ctx_inv ctx" "writable ctx"
  shows "\<exists>n. rebuild_journal su ctx (replicate n write_error) = Some (0, [], [])"
proof (cases "journal_dumps su ctx")
  case Nil
  then show ?thesis using rebuild_journal_dumps [OF assms, of "[]"] by (intro exI [of _ 0]) simp
next
  case (Cons d ds)
  obtain n where "dump_layer d [] (replicate n write_error) = Some (- 1, [], [])" using dump_layer_error by blast
  then show ?thesis using rebuild_journal_dumps [OF assms, of "replicate n write_error"] Cons by (intro exI [of _ n]) simp
qed

text \<open>
  C8: the end of a rewrite, once the child process has written the entries of the database and the journal has grown by
  the recent entries since the fork. Let the reads of the copy deliver the sizes ns before one of them reports the end of the file or an
  error, which the code does not tell apart. Then the new journal holds the entries of the database followed by the bytes of
  the recent entries that were read, hence by all of them when the reads delivered all of them; or the result is -1 and the journal
  is the old one. The result is 0 only if renaming and all calls around it succeed and no slave is loading, and it is 0 if moreover no write fails. In
  either case another rewrite can be started. When a read error cuts the copy short the result is 0, too, and the rest of the recent entries is lost.
\<close>

theorem rewrite_keeps_recent_entries:
  assumes "system_rewrite_after_fork_cb fa (enc_items items) srv = Some (ret, srv')"
    and "dl_file (srv_log srv) = before @ enc_items recent" "srv_offset_before_fork srv = int (length before)"
    and "fa_reads fa = ns @ [end_read]" "\<forall>n \<in> set ns. n > 0" "end_read \<le> 0" "sum_list ns \<le> int (length (enc_items recent))"
  shows "srv' = srv\<lparr>srv_rewrite_process := - 1, srv_log :=
      (if ret = 0 then (srv_log srv)\<lparr>dl_file := enc_items items @ take (nat (sum_list ns)) (enc_items recent)\<rparr> else srv_log srv)\<rparr> \<and>
    (sum_list ns = int (length (enc_items recent)) \<longrightarrow> ret = 0 \<longrightarrow> dl_file (srv_log srv') = enc_items (items @ recent)) \<and>
    (ret = 0 \<longrightarrow> calls_succeed fa) \<and> (calls_succeed fa \<and> writes_ok (fa_writes fa) \<longrightarrow> ret = 0) \<and> ret \<in> {0, - 1}"
proof -
  have rec: "drop (nat (srv_offset_before_fork srv)) (dl_file (srv_log srv)) = enc_items recent" using assms(2,3) by simp
  have copy: "(if r = 0 then t = enc_items items @ take (nat (sum_list ns)) (enc_items recent) else r = - 1) \<and> (writes_ok (fa_writes fa) \<longrightarrow> r = 0)"
    if "copy_data_between_fds (ns @ [end_read]) (fa_writes fa) (enc_items recent) (enc_items items) = Some (r, t, as)" for r t as
    by (rule copy_result [OF assms(5-7) that])
  from after_fork_cases [OF assms(1), unfolded rec assms(4)] show ?thesis
  proof (elim disjE conjE exE)
    assume s: "ret = - 1" "srv' = srv\<lparr>srv_rewrite_process := - 1\<rparr>" and r: "calls_succeed fa \<longrightarrow>
      (\<exists>r tmp' as. copy_data_between_fds (ns @ [end_read]) (fa_writes fa) (enc_items recent) (enc_items items) = Some (r, tmp', as) \<and> r \<noteq> 0)"
    have failed: "\<not> (calls_succeed fa \<and> writes_ok (fa_writes fa))" using r copy by blast
    have ret: "ret \<noteq> 0" "ret \<in> {0, - 1}" using s(1) by simp_all
    have "srv' = srv\<lparr>srv_rewrite_process := - 1, srv_log := srv_log srv\<rparr>" unfolding s(2) by (cases srv) simp
    with failed ret show ?thesis unfolding if_not_P [OF ret(1)] by blast
  next
    fix tmp' as assume c: "copy_data_between_fds (ns @ [end_read]) (fa_writes fa) (enc_items recent) (enc_items items) = Some (0, tmp', as)"
      and s: "ret = 0" "calls_succeed fa" "srv' = srv\<lparr>srv_rewrite_process := - 1, srv_log := (srv_log srv)\<lparr>dl_file := tmp'\<rparr>\<rparr>"
    from copy [OF c] s show ?thesis by simp
  qed
qed

end
