(* ===== verification/Rewrite_Samples.thy ===== *)
theory Rewrite_Samples
  imports Journal_Rewrite
begin

section \<open>Witnesses\<close>

lemma add_property_record:
  assumes inv: "ctx_inv ctx" and new: "layers ctx name = None" "name \<noteq> []"
    and kv: "slip_key k" "slip_val v" "hd k \<noteq> INT_PROPERTY_COMMON_PREFIX" and size: "entry_size (k, v) \<le> 60000"
  obtains ctx' r where "ctx_inv ctx'" "records_of ctx' = (records_of ctx)(name \<mapsto> [sample_key \<mapsto> r])" "rec_properties r = Some [k \<mapsto> v]"
    "rec_position r = None" "rec_expires r = None"
proof -
  from store_property_law [OF names_ok_None, of "\<lambda>c. c \<noteq> INT_PROPERTY_COMMON_PREFIX", OF kv(3,1,2), of "Some 0"]
  obtain r mo where mo: "names_ok (\<lambda>c. c \<noteq> INT_PROPERTY_COMMON_PREFIX) mo" "mo \<noteq> None" "prop_view mo = [k \<mapsto> v]"
    using size by auto
  define op where "op = (empty_put_op sample_op name sample_key)\<lparr>put_properties_map := mo\<rparr>"
  have op: "put_op_ok op" using mo(1) by (simp add: op_def empty_put_op_def put_op_ok_def)
  obtain a ctx1 db where c: "register_new_layer sample_mem sample_cfg name ctx = Some (Some a, ctx1)"
    "init_pan_db sample_cfg True = Some db" "ctx_inv ctx1" "layers ctx1 = (layers ctx)(name \<mapsto> db)"
    and exps: "expirables_slab ctx1 = expirables_slab ctx"
    using register_new_layer_law [OF inv new sample_mem_good(1-3), of sample_cfg] by blast
  have recs: "records_of ctx1 = (records_of ctx)(name \<mapsto> Map.empty)"
    by (auto simp: fun_eq_iff records_of_def c(4) exps no_records [OF c(2)])
  have db: "record_of (expirables_slab ctx1) db = Map.empty" by (simp add: fun_eq_iff no_records [OF c(2)])
  have l: "layers ctx1 (put_layer_name op) = Some db" by (simp add: op_def empty_put_op_def c(4))
  have small: "movable db (put_key op)"
    using fun_cong [OF db, of "put_key op"] by (simp add: movable_def record_of_def split: option.split)
  from put_law [OF c(3) sample_memory op l small, of sample_cfg] obtain status ctx' where
    p: "ctx_inv ctx'" "put_effect op db ctx1 ctx'" by blast
  from p(2) obtain es r where e: "lists_entries (put_special_properties op) es"
    "records_of ctx' = (records_of ctx1)(put_layer_name op \<mapsto> (record_of (expirables_slab ctx1) db)(put_key op \<mapsto> r))"
    "put_room op db \<longrightarrow> r = put_spec op (qbounds db) es (old_record (record_of (expirables_slab ctx1) db (put_key op)))"
    unfolding put_effect_def by blast
  have es: "es = []" using e(1) by (simp add: op_def empty_put_op_def lists_entries_def)
  have node: "node_of_key (key_nodes db) sample_key = None" using fun_cong [OF db, of sample_key] by (simp add: record_of_def)
  have "put_room op db"
    unfolding put_room_def
  proof (intro allI impI)
    fix es fs assume a: "lists_entries (put_special_properties op) es" "lists_entries (put_properties_map op) fs"
    have "es = []" using a(1) by (simp add: op_def empty_put_op_def lists_entries_def)
    moreover have "distinct (map fst fs)" "prop_view mo = map_of fs" using a(2) by (simp_all add: op_def lists_entries_def)
    then have "fs = [(k, v)]" by (intro single_entry) (simp_all only: mo(3) [symmetric])
    ultimately show "map_size (stored_map db (put_key op)) + room_needed es fs \<le> 65535"
      using size node by (simp add: room_needed_def op_def empty_put_op_def stored_map_def)
  qed
  then have "r = put_spec op (qbounds db) [] no_record" using e(3) es db by (simp add: old_record_def)
  moreover have "view mo = Some [k \<mapsto> v]" using mo(2,3) by (cases mo) simp_all
  ultimately have "rec_properties r = Some [k \<mapsto> v]" "rec_position r = None" "rec_expires r = None"
    by (simp_all add: put_spec_def op_def empty_put_op_def updated_properties_def no_record_def merge_properties_def accepted_position_def)
  moreover have "records_of ctx' = (records_of ctx)(name \<mapsto> [sample_key \<mapsto> r])"
    using e(2) recs db by (simp add: op_def empty_put_op_def)
  ultimately show thesis using that p(1) by blast
qed

definition sample_surroundings :: surroundings where
  "sample_surroundings = \<lparr>su_time = 120, su_grow = (\<lambda>_. Some 0), su_append = (\<lambda>_ _. Some 0), su_layer = (\<lambda>_. True), su_record = (\<lambda>_. True)\<rparr>"

lemma sample_surroundings_good: "good_surroundings sample_surroundings"
  by (simp add: sample_surroundings_def good_surroundings_def)

text \<open>A layer with the key paris only, whose record has one property.\<close>

definition one_record :: "bytes \<Rightarrow> bytes \<Rightarrow> (bytes \<Rightarrow> stored_record option) \<Rightarrow> bool" where
  "one_record k v m = (\<exists>r. m = [sample_key \<mapsto> r] \<and> rec_properties r = Some [k \<mapsto> v] \<and> rec_position r = None \<and> rec_expires r = None)"

lemma singleton_list: "distinct xs \<Longrightarrow> set xs = {a} \<Longrightarrow> xs = [a]"
  by (cases xs; cases "tl xs") auto

lemma one_record_layer:
  assumes "db_inv exps db" "one_record k v (record_of exps db)"
  obtains a where "kn_tree (key_nodes db) = [a]" "key_at (key_nodes db) a = sample_key" "body_at exps db a = encode_pairs [(k, v)]"
proof -
  obtain r where r: "record_of exps db = [sample_key \<mapsto> r]" "rec_properties r = Some [k \<mapsto> v]" "rec_position r = None" "rec_expires r = None"
    using assms(2) unfolding one_record_def by blast
  note s = db_invD(2) [OF assms(1)]
  have dom: "node_of_key (key_nodes db) key \<noteq> None \<longleftrightarrow> key = sample_key" for key
    using fun_cong [OF r(1), of key] by (auto simp: record_of_def split: if_splits)
  then obtain a where a: "node_of_key (key_nodes db) sample_key = Some a" by blast
  have all: "b = a" if "b \<in> set (kn_tree (key_nodes db))" for b
  proof -
    have "node_of_key (key_nodes db) (key_at (key_nodes db) b) = Some b" using node_of_key_Some [OF s] that by blast
    then show "b = a" using dom [of "key_at (key_nodes db) b"] a by simp
  qed
  have mem: "a \<in> set (kn_tree (key_nodes db))" "key_at (key_nodes db) a = sample_key" using a node_of_key_Some [OF s] by blast+
  have "distinct (map (key_at (key_nodes db)) (kn_tree (key_nodes db)))" using s kc.sorted_distinct unfolding store_inv_def by blast
  then have "distinct (kn_tree (key_nodes db))" by (simp add: distinct_map)
  moreover have "set (kn_tree (key_nodes db)) = {a}" using all mem(1) by blast
  ultimately have tree: "kn_tree (key_nodes db) = [a]" by (rule singleton_list)
  have at: "record_at exps db a = r" using fun_cong [OF r(1), of sample_key] a by (simp add: record_of_def)
  then have p: "position_of db a = None" "expires_of exps db a = None" "view (properties_of db a) = Some [k \<mapsto> v]"
    using r(2-4) by (auto simp: record_at_def)
  obtain n where n: "nodes_of db a = Some n" using mem(1) db_invD(3) [OF assms(1)] by blast
  have "lists_entries (properties_of db a) (entries_at db a)" by (rule db_entries(1) [OF assms(1) n])
  moreover have "prop_view (properties_of db a) = [k \<mapsto> v]" using p(3) by (cases "properties_of db a") simp_all
  ultimately have "entries_at db a = [(k, v)]" by (intro single_entry) (simp_all add: lists_entries_def)
  then have "body_at exps db a = encode_pairs [(k, v)]" by (simp add: body_at_def rewrite_pairs_def p)
  then show thesis using that tree mem(2) by blast
qed

lemma layer_names:
  assumes "ctx_inv ctx"
  shows "distinct (map (layer_name \<circ> snd) (slab_list (layers_slab ctx)))"
    "set (map (layer_name \<circ> snd) (slab_list (layers_slab ctx))) = dom (records_of ctx)"
    "(a, l) \<in> set (slab_list (layers_slab ctx)) \<Longrightarrow> records_of ctx (layer_name l) = Some (record_of (expirables_slab ctx) (layer_db l)) \<and>
      db_inv (expirables_slab ctx) (layer_db l)"
proof -
  note i = ctx_invD [OF assms]
  have e: "distinct (map fst (slab_list (layers_slab ctx)))"
    "(a, l) \<in> set (slab_list (layers_slab ctx)) \<longleftrightarrow> slab_contents (layers_slab ctx) a = Some l" for a l
    using tidy_list(1) [OF i(1)] unfolding slab_entries_def by blast+
  have "inj_on (layer_name \<circ> snd) (set (slab_list (layers_slab ctx)))"
  proof (rule inj_onI)
    fix x y assume xy: "x \<in> set (slab_list (layers_slab ctx))" "y \<in> set (slab_list (layers_slab ctx))" "(layer_name \<circ> snd) x = (layer_name \<circ> snd) y"
    obtain a l b m where p: "x = (a, l)" "y = (b, m)" by (cases x, cases y)
    then have c: "slab_contents (layers_slab ctx) a = Some l" "slab_contents (layers_slab ctx) b = Some m" using xy e(2) by blast+
    then have "a = b" using i(5) [OF c] xy(3) p by auto
    then show "x = y" using c p by simp
  qed
  then show "distinct (map (layer_name \<circ> snd) (slab_list (layers_slab ctx)))" using e(1) by (simp add: distinct_map)
  have names: "records_of ctx n \<noteq> None \<longleftrightarrow> (\<exists>a l. (a, l) \<in> set (slab_list (layers_slab ctx)) \<and> layer_name l = n)" for n
    using layers_Some [OF assms, of n] e(2) by (auto simp: records_of_def)
  show "set (map (layer_name \<circ> snd) (slab_list (layers_slab ctx))) = dom (records_of ctx)"
  proof (rule set_eqI)
    fix n
    have "n \<in> set (map (layer_name \<circ> snd) (slab_list (layers_slab ctx))) \<longleftrightarrow> (\<exists>a l. (a, l) \<in> set (slab_list (layers_slab ctx)) \<and> layer_name l = n)"
      by (force simp: image_iff)
    then show "n \<in> set (map (layer_name \<circ> snd) (slab_list (layers_slab ctx))) \<longleftrightarrow> n \<in> dom (records_of ctx)"
      using names [of n] by (simp add: domIff)
  qed
  assume "(a, l) \<in> set (slab_list (layers_slab ctx))"
  then have c: "slab_contents (layers_slab ctx) a = Some l" using e(2) by blast
  then have "layers ctx (layer_name l) = Some (layer_db l)" unfolding layers_Some [OF assms] by blast
  then show "records_of ctx (layer_name l) = Some (record_of (expirables_slab ctx) (layer_db l)) \<and> db_inv (expirables_slab ctx) (layer_db l)"
    using i(4) [OF c] by (simp add: records_of_def)
qed

lemma encode_str_length: "length (encode_str s) \<le> 3 * length s"
proof (induction s)
  case (Cons c s)
  then show ?case using encode_char_length(1) [of c] by (simp add: encode_str_def)
qed (simp add: encode_str_def)

lemma enc_request_length:
  assumes "verb < 2 ^ 31" "length uri \<le> 100000" "length body \<le> 100000"
  shows "0 < length (enc_item (Request verb uri body))" "length (enc_item (Request verb uri body)) \<le> 40 + length uri + length body"
    "length body \<le> length (enc_item (Request verb uri body))"
proof -
  have "length (hex_of verb) \<le> 8" "length (hex_of (length uri)) \<le> 8" "length (hex_of (length body)) \<le> 8"
    using assms by (intro digits_of_length; simp)+
  then show "0 < length (enc_item (Request verb uri body))" "length (enc_item (Request verb uri body)) \<le> 40 + length uri + length body"
    "length body \<le> length (enc_item (Request verb uri body))"
    by (simp_all add: cookie_head_def cookie_tail_def bytes_of_def)
qed

lemma head_length:
  assumes "length (encode_str name) \<le> 60"
  shows "length (enc_items [Stamp 120, layer_item name]) \<le> 200"
proof -
  have "length (hex_of 120) \<le> 8" by (intro digits_of_length) simp_all
  moreover have "length (encoded_api_base_uri @ bytes_of ''layers/'' @ encode_str name @ bytes_of ''.json'') \<le> 100"
    using assms by (simp add: encoded_api_base_uri_def)
  then have "length (enc_item (layer_item name)) \<le> 140"
    using enc_request_length(2) [of EVHTTP_REQ_POST "encoded_api_base_uri @ bytes_of ''layers/'' @ encode_str name @ bytes_of ''.json''" "[]"]
    unfolding layer_item_def by (simp add: EVHTTP_REQ_POST_def)
  ultimately show ?thesis by (simp add: cookie_head_def cookie_tail_def bytes_of_def del: enc_item.simps(2))
qed

lemma sample_key_c: "c_str sample_key = bytes_of ''paris''" "key_ok sample_key"
  by (simp_all add: sample_key_def c_str_def bytes_of_def key_ok_def layer_ok_def)

lemma one_record_items:
  assumes "one_record k v (record_of exps (layer_db l))" "db_inv exps (layer_db l)"
  shows "record_items exps l = [Request EVHTTP_REQ_PUT (rewritten_uri (layer_name l) sample_key) (encode_pairs [(k, v)])]" "writable_db (layer_db l)"
proof -
  obtain a where "kn_tree (key_nodes (layer_db l)) = [a]" "key_at (key_nodes (layer_db l)) a = sample_key"
    "body_at exps (layer_db l) a = encode_pairs [(k, v)]" by (rule one_record_layer [OF assms(2,1)])
  then show "record_items exps l = [Request EVHTTP_REQ_PUT (rewritten_uri (layer_name l) sample_key) (encode_pairs [(k, v)])]" "writable_db (layer_db l)"
    using sample_key_c(2) by (simp_all add: record_items_def record_item_def writable_db_def)
qed

lemma one_records_writable:
  assumes "ctx_inv ctx" "\<forall>name m. records_of ctx name = Some m \<longrightarrow> one_record k v m \<and> length name < 2 ^ 60"
  shows "writable ctx"
  unfolding writable_def
proof (intro allI impI)
  fix a l assume "slab_contents (layers_slab ctx) a = Some l"
  then have "(a, l) \<in> set (slab_list (layers_slab ctx))"
    using tidy_list(1) [OF ctx_invD(1) [OF assms(1)]] unfolding slab_entries_def by blast
  from layer_names(3) [OF assms(1) this] assms(2) show "length (layer_name l) < 2 ^ 60 \<and> writable_db (layer_db l)"
    using one_record_items(2) by blast
qed

text \<open>A database with one layer and one record, and its new journal.\<close>

lemma one_record_journal:
  assumes "ctx_inv ctx" "records_of ctx = [name \<mapsto> m]" "one_record k v m"
  shows "journal_dumps sample_surroundings ctx =
    [([Stamp 120, layer_item name], [Request EVHTTP_REQ_PUT (rewritten_uri name sample_key) (encode_pairs [(k, v)])])]"
proof -
  note n = layer_names [OF assms(1)]
  have "map (layer_name \<circ> snd) (slab_list (layers_slab ctx)) = [name]"
    by (rule singleton_list [OF n(1)]) (simp only: n(2), simp add: assms(2))
  then obtain a l where l: "slab_list (layers_slab ctx) = [(a, l)]" "layer_name l = name" by auto
  then have "one_record k v (record_of (expirables_slab ctx) (layer_db l))" "db_inv (expirables_slab ctx) (layer_db l)"
    using n(3) [of a l] assms(2,3) by auto
  from one_record_items(1) [OF this] l show ?thesis by (simp add: journal_dumps_def sample_surroundings_def)
qed

theorem rewrite_writes_database_witness:
  "\<exists>ctx as. ctx_inv ctx \<and> records_of ctx sample_layer \<noteq> None \<and> writes_ok as \<and>
     rebuild_journal sample_surroundings ctx as = Some (0, enc_items
       [Stamp 120, Request EVHTTP_REQ_POST (bytes_of ''/api/1.0/layers/restaurants.json'') [],
        Request EVHTTP_REQ_PUT (bytes_of ''/api/1.0/records/restaurants/paris.json'') (bytes_of ''n=a%20b'')], [])"
proof -
  have kv: "slip_key (bytes_of ''n'')" "slip_val (bytes_of ''a b'')" "hd (bytes_of ''n'') \<noteq> INT_PROPERTY_COMMON_PREFIX"
    "entry_size (bytes_of ''n'', bytes_of ''a b'') \<le> 60000"
    by (simp_all add: slip_key_def slip_val_def bytes_of_def INT_PROPERTY_COMMON_PREFIX_def entry_size_def)
  have new: "layers (init_context 0) sample_layer = None" "sample_layer \<noteq> []"
    by (simp_all add: init_context_inv sample_layer_def bytes_of_def)
  obtain ctx r where c: "ctx_inv ctx" "records_of ctx = (records_of (init_context 0))(sample_layer \<mapsto> [sample_key \<mapsto> r])"
    "rec_properties r = Some [bytes_of ''n'' \<mapsto> bytes_of ''a b'']" "rec_position r = None" "rec_expires r = None"
    by (rule add_property_record [OF init_context_inv(1) new kv])
  have recs: "records_of ctx = [sample_layer \<mapsto> [sample_key \<mapsto> r]]" using c(2) by (auto simp: fun_eq_iff records_of_def init_context_inv)
  have one: "one_record (bytes_of ''n'') (bytes_of ''a b'') [sample_key \<mapsto> r]" unfolding one_record_def using c(3-5) by blast
  note d = one_record_journal [OF c(1) recs one]
  have items: "items_of (journal_dumps sample_surroundings ctx) =
      [Stamp 120, Request EVHTTP_REQ_POST (bytes_of ''/api/1.0/layers/restaurants.json'') [],
        Request EVHTTP_REQ_PUT (bytes_of ''/api/1.0/records/restaurants/paris.json'') (bytes_of ''n=a%20b'')]"
    unfolding d by (simp add: layer_item_def rewritten_uri_def sample_key_c sample_layer_def encoded_api_base_uri_def bytes_of_def
        encode_str_def encode_char_def hexbuf_def uri_chars_def digit_char_def)
  have w: "writable ctx" using one_records_writable [OF c(1), of "bytes_of ''n''" "bytes_of ''a b''"] one recs
    by (simp add: sample_layer_def bytes_of_def)
  have "length (rewritten_uri sample_layer sample_key) \<le> 100" "length (encode_pairs [(bytes_of ''n'', bytes_of ''a b'')]) \<le> 100"
    "length (encode_str sample_layer) \<le> 60"
    using encode_str_length [of "bytes_of ''n''"] encode_str_length [of "bytes_of ''a b''"] encode_str_length [of sample_layer]
    by (simp_all add: rewritten_uri_def sample_key_c sample_layer_def encoded_api_base_uri_def)
  then have "left_over ([Stamp 120, layer_item sample_layer],
      [Request EVHTTP_REQ_PUT (rewritten_uri sample_layer sample_key) (encode_pairs [(bytes_of ''n'', bytes_of ''a b'')])]) > 0"
    using enc_request_length [of EVHTTP_REQ_PUT "rewritten_uri sample_layer sample_key" "encode_pairs [(bytes_of ''n'', bytes_of ''a b'')]"]
      head_length [of sample_layer] by (simp add: left_over_def TMP_LOG_BUFFER_SIZE_def EVHTTP_REQ_PUT_def)
  then have left: "\<forall>d \<in> set (journal_dumps sample_surroundings ctx). left_over d > 0" unfolding d by simp
  obtain as where "writes_ok as" "rebuild_journal sample_surroundings ctx as = Some (0, enc_items (journal_items sample_surroundings ctx), [])"
    using rewrite_writes_database [OF sample_surroundings_good c(1) w left] by blast
  then show ?thesis unfolding journal_items_def items using c(1) recs by (intro exI [of _ ctx] exI [of _ as]) simp
qed

theorem rewrite_ignores_errors_witness:
  "\<exists>n ctx. ctx_inv ctx \<and> records_of ctx = [sample_layer \<mapsto> Map.empty] \<and>
     rebuild_journal sample_surroundings ctx (replicate n write_error) = Some (0, [], [])"
proof -
  obtain a ctx where c: "register_new_layer sample_mem sample_cfg sample_layer (init_context 0) = Some (Some a, ctx)" "ctx_inv ctx"
    "records_of ctx = [sample_layer \<mapsto> Map.empty]" by (rule sample_context)
  note n = layer_names [OF c(2)]
  have "writable ctx"
    unfolding writable_def
  proof (intro allI impI)
    fix a l assume "slab_contents (layers_slab ctx) a = Some l"
    then have "(a, l) \<in> set (slab_list (layers_slab ctx))"
      using tidy_list(1) [OF ctx_invD(1) [OF c(2)]] unfolding slab_entries_def by blast
    from n(3) [OF this] have l: "layer_name l = sample_layer" "record_of (expirables_slab ctx) (layer_db l) = Map.empty" "db_inv (expirables_slab ctx) (layer_db l)"
      unfolding c(3) by (auto split: if_splits)
    have "a \<notin> set (kn_tree (key_nodes (layer_db l)))" for a
      using node_of_key_Some [OF db_invD(2) [OF l(3)], of "key_at (key_nodes (layer_db l)) a" a]
        fun_cong [OF l(2), of "key_at (key_nodes (layer_db l)) a"] by (auto simp: record_of_def)
    then have "writable_db (layer_db l)" unfolding writable_db_def by blast
    then show "length (layer_name l) < 2 ^ 60 \<and> writable_db (layer_db l)" using l(1) by (simp add: sample_layer_def)
  qed
  from rewrite_ignores_errors [OF sample_surroundings_good c(2) this] c(2,3) show ?thesis by blast
qed

text \<open>Two layers, each with a record whose value takes 90000 characters: whichever is written first, the other is lost.\<close>

lemma encode_zeros: "length (encode_str (replicate n 0)) = 3 * n"
proof -
  have "uri_chars ! 0 = 0" by code_simp
  then show ?thesis by (induction n) (simp_all add: encode_str_def encode_char_def hexbuf_def)
qed

theorem rewrite_can_lose_layers_witness:
  "\<exists>ctx as items. ctx_inv ctx \<and> dom (records_of ctx) = {sample_layer, bytes_of ''b''} \<and> (\<forall>(w, e) \<in> set as. w > 0) \<and>
     rebuild_journal sample_surroundings ctx as = Some (0, enc_items items, []) \<and> length items < length (journal_items sample_surroundings ctx)"
proof -
  let ?k = "bytes_of ''n''" and ?v = "replicate 30000 0 :: bytes"
  have kv: "slip_key ?k" "slip_val ?v" "hd ?k \<noteq> INT_PROPERTY_COMMON_PREFIX" "entry_size (?k, ?v) \<le> 60000"
    by (simp_all add: slip_key_def slip_val_def bytes_of_def INT_PROPERTY_COMMON_PREFIX_def entry_size_def)
  have new: "layers (init_context 0) sample_layer = None" "sample_layer \<noteq> []"
    by (simp_all add: init_context_inv sample_layer_def bytes_of_def)
  obtain ctx1 r1 where c1: "ctx_inv ctx1" "records_of ctx1 = (records_of (init_context 0))(sample_layer \<mapsto> [sample_key \<mapsto> r1])"
    "rec_properties r1 = Some [?k \<mapsto> ?v]" "rec_position r1 = None" "rec_expires r1 = None"
    by (rule add_property_record [OF init_context_inv(1) new kv])
  have names: "sample_layer \<noteq> bytes_of ''b''" by (simp add: sample_layer_def bytes_of_def)
  have recs1: "records_of ctx1 = [sample_layer \<mapsto> [sample_key \<mapsto> r1]]" using c1(2) by (auto simp: fun_eq_iff records_of_def init_context_inv)
  have new2: "layers ctx1 (bytes_of ''b'') = None" "bytes_of ''b'' \<noteq> []"
    using names fun_cong [OF recs1, of "bytes_of ''b''"] by (simp add: records_of_def, simp add: bytes_of_def)
  obtain ctx r2 where c: "ctx_inv ctx" "records_of ctx = (records_of ctx1)(bytes_of ''b'' \<mapsto> [sample_key \<mapsto> r2])"
    "rec_properties r2 = Some [?k \<mapsto> ?v]" "rec_position r2 = None" "rec_expires r2 = None"
    by (rule add_property_record [OF c1(1) new2 kv])
  have one: "one_record ?k ?v m \<and> length name < 2 ^ 60" if "records_of ctx name = Some m" for name m
  proof -
    have "m = [sample_key \<mapsto> r1] \<or> m = [sample_key \<mapsto> r2]" "name = sample_layer \<or> name = bytes_of ''b''"
      using that unfolding c(2) recs1 by (auto split: if_splits)
    moreover have "one_record ?k ?v [sample_key \<mapsto> r1]" "one_record ?k ?v [sample_key \<mapsto> r2]"
      unfolding one_record_def using c1(3-5) c(3-5) by blast+
    ultimately show ?thesis by (auto simp: sample_layer_def)
  qed
  have dom: "dom (records_of ctx) = {sample_layer, bytes_of ''b''}" unfolding c(2) recs1 by auto
  note n = layer_names [OF c(1)]
  have w: "writable ctx" using one_records_writable [OF c(1), of ?k ?v] one by blast
  have "length (slab_list (layers_slab ctx)) = 2"
    using distinct_card [OF n(1)] names unfolding n(2) dom by simp
  then obtain a1 l1 a2 l2 where ls: "slab_list (layers_slab ctx) = [(a1, l1), (a2, l2)]"
    by (auto simp: length_Suc_conv numeral_2_eq_2)
  have items: "record_items (expirables_slab ctx) l = [Request EVHTTP_REQ_PUT (rewritten_uri (layer_name l) sample_key) (encode_pairs [(?k, ?v)])]"
    if "(a, l) \<in> set (slab_list (layers_slab ctx))" for a l
    using one_record_items(1) n(3) [OF that] one by blast
  let ?d1 = "([Stamp 120, layer_item (layer_name l1)], record_items (expirables_slab ctx) l1)"
  let ?d2 = "([layer_item (layer_name l2)], record_items (expirables_slab ctx) l2)"
  have d: "journal_dumps sample_surroundings ctx = [] @ ?d1 # [?d2]"
    by (simp add: journal_dumps_def ls sample_surroundings_def)
  have "90000 \<le> length (encode_pairs [(?k, ?v)])" by (simp add: encode_zeros)
  then have "left_over ?d1 = 0" using items [of a1 l1] by (simp add: ls left_over_def TMP_LOG_BUFFER_SIZE_def)
  then obtain as where "\<forall>(w, e) \<in> set as. w > 0" "rebuild_journal sample_surroundings ctx as = Some (0, enc_items (items_of ([] @ [?d1])), [])"
    using rewrite_can_lose_layers [OF sample_surroundings_good c(1) w d] by auto
  moreover have "length (items_of ([] @ [?d1])) < length (journal_items sample_surroundings ctx)" unfolding journal_items_def d by simp
  ultimately show ?thesis using c(1) dom by blast
qed

text \<open>The new journal holds one entry, and the old one has grown by another since the fork: it is read in two parts, and a write is interrupted.\<close>

definition grown_server :: server where
  "grown_server = (fresh_server 0 (fresh_log 0 1000) [] \<lparr>cells = [None, None], cqueue_end = 1, first_element = None, last_element = None\<rparr>)
     \<lparr>srv_log := (fresh_log 0 1000)\<lparr>dl_file := enc_items [Stamp 60] @ enc_items [Stamp 61]\<rparr>,
      srv_offset_before_fork := int (length (enc_items [Stamp 60])), srv_rewrite_process := 7\<rparr>"

definition sample_fork_answers :: fork_answers where
  "sample_fork_answers =
     (let n = int (length (enc_items [Stamp 61])) - 1
      in \<lparr>fa_name_mem = True, fa_seek_ok = True, fa_open_ok = True, fa_reads = [1, n, 0],
          fa_writes = [(- 1, EINTR), (1, EOTHER), (n, EOTHER)], fa_seek_end_ok = True, fa_slaves_loading = False, fa_rename_ok = True\<rparr>)"

theorem rewrite_keeps_recent_entries_witness:
  "\<exists>srv. system_rewrite_after_fork_cb sample_fork_answers (enc_items [Stamp 60]) grown_server = Some (0, srv) \<and>
     dl_file (srv_log srv) = enc_items [Stamp 60, Stamp 61] \<and> srv_rewrite_process srv = - 1"
proof -
  let ?e = "enc_items [Stamp 61]"
  obtain x y xs where e: "?e = x # y # xs" by (simp add: enc_items_def cookie_head_def bytes_of_def)
  have log: "dl_file (srv_log grown_server) = enc_items [Stamp 60] @ ?e" "srv_offset_before_fork grown_server = int (length (enc_items [Stamp 60]))"
    by (simp_all add: grown_server_def)
  have reads: "fa_reads sample_fork_answers = [1, int (length ?e) - 1] @ [0]" by (simp add: sample_fork_answers_def Let_def)
  have ns: "\<forall>n \<in> set [1, int (length ?e) - 1]. 0 < n" "(0::int) \<le> 0" "sum_list [1, int (length ?e) - 1] \<le> int (length ?e)"
    "sum_list [1, int (length ?e) - 1] = int (length ?e)" by (simp_all add: e)
  have "writes_ok (fa_writes sample_fork_answers)" by (simp add: sample_fork_answers_def Let_def e again_def)
  moreover have "\<exists>ret srv. system_rewrite_after_fork_cb sample_fork_answers (enc_items [Stamp 60]) grown_server = Some (ret, srv)"
    unfolding system_rewrite_after_fork_cb_def log
    by (simp add: sample_fork_answers_def Let_def e write_chunk.simps evbuffer_write_def again_def bind_eq_Some_conv c_assert_def)
  then obtain ret srv where run: "system_rewrite_after_fork_cb sample_fork_answers (enc_items [Stamp 60]) grown_server = Some (ret, srv)" by blast
  moreover have "calls_succeed sample_fork_answers" by (simp add: calls_succeed_def sample_fork_answers_def Let_def)
  moreover note rewrite_keeps_recent_entries [OF run log reads ns(1-3)]
  ultimately have "ret = 0" "dl_file (srv_log srv) = enc_items ([Stamp 60] @ [Stamp 61])" "srv_rewrite_process srv = - 1" using ns(4) by auto
  then show ?thesis using run by auto
qed

end
