(* ===== verification/Spec2Isabelle.thy ===== *)
theory Spec2Isabelle
  imports Cqueue Pnt_Stack Slip_Map C_Strings Utils Query_Parser Db_Log Slab Dimension Geometry
    Keys Ordered_Tree Key_Nodes Slab_Tidy Pan_Db Index_Add Index_Remove Expirables Layer_Db Layer_Properties
    Replies Layers Purge Slip_Map_Room Record_Properties Records Record_Handlers Cells Record_Json
    Dimension_Eval Distances Index_Search Search_Properties Search_Handlers Float_Text Requests Public_Content
    Server Server_Runs Replayed_Ops Replayed_Requests Journal_Replay Database Restart_Runs
    Journal_Rewrite Rewrite_Samples
begin

text \<open>
  A verification library for Pincaster, an in-memory database of geographical records with an HTTP interface. The
  program is the C code under src/src/; file names below are of that directory.

  \<^bold>\<open>The program.\<close> The main thread takes HTTP requests (http_server.c, process_request), finds the handler of the domain
  (domain_records.c, domain_layers.c, domain_search.c, domain_system.c, public.c for content), which reads the request and pushes an operation
  on a bounded queue (cqueue.c); a request that changes the database is then appended to the journal (db_log.c). Worker
  threads take operations from the queue and execute them on the layers. A layer (http_server.h, pandb.h) is a
  slab entry (slab.c) with a name and a database: key nodes, one for each record, in a search tree (key_nodes.c), and a tree
  of quad nodes and buckets over the positions (pandb.c). A record has a reference-counted key (keys.c), a packed
  buffer of properties (slipmap.c), maybe a slot in a bucket and maybe an expirable (expirables.c), which a timer purges.
  An answer is a document (yajl) that goes back to the main thread (handle_consumer_ops.c). At the start the journal is
  replayed: each entry is a request of its own, executed at once.

  \<^bold>\<open>Faults.\<close> A failed assertion, an access outside a buffer or to freed memory, and a loop that does not end are the
  value None, so that every statement of the form f x = Some y also says that there is no fault. The program's own
  error codes are values inside the Some. Memory allocation is an argument, and so is every answer of the operating system.

  \<^bold>\<open>The theories, from below.\<close>

  \<^item> Pincaster_Prelude, C_Strings: bytes, checked reads and writes, lists, faults; character classes, strtol, strtoul, printf of integers.
  \<^item> Cqueue (cqueue.c), Pnt_Stack (stack.c), Slab and Slab_Tidy (slab.c), Slip_Map and Slip_Map_Room (slipmap.c), Keys (keys.c): the
    containers. Each has its operations on the concrete cells, bytes, chunks or reference counts, its invariant, the
    interface as a locale with an interpretation, and a refinement to lists, sets of entries or finite maps.
  \<^item> Utils (utils.c), Query_Parser (query_parser.c): growing buffers, buffered reading, the parser of
    request bodies against a reference parser, encoding and decoding.
  \<^item> Db_Log (db_log.c): writing the journal, partial and interrupted writes, replaying it.
  \<^item> Dimension, Dimension_Eval, Float_Text: numbers as the program has them. A Dimension is a float: an exact rational, an infinity or not
    a number, with rounding after each operation in the format that C gives it; text of floats with strtod and %f.
  \<^item> Geometry, Distances (pandb.c, utils.c): rectangles, quadrants, zones, distances. The functions of the C mathematical library are
    an argument (libm).
  \<^item> Ordered_Tree: the search trees of ext/tree.h as the list of their nodes in order. Key_Nodes (key_nodes.c), Expirables (expirables.c).
  \<^item> Pan_Db, Index_Add, Index_Remove, Layer_Db, Layer_Properties (pandb.c): the index and the database of a layer; that adding and
    removing, with splits and merges, keep the invariant and change the position of one record only.
  \<^item> Replies, Layers (domain_layers.c), Purge (expirables.c), Record_Properties, Records, Record_Handlers, Record_Json (domain_records.c, utils.c), Cells,
    Index_Search, Search_Properties, Search_Handlers (pandb.c, domain_search.c): what the workers do, each handler with all its branches.
  \<^item> Requests: how records, layers, searches and pings are read from URIs, options and bodies. Public_Content (public.c).
  \<^item> Server (http_server.c, domain_system.c, handle_consumer_ops.c): dispatch, the worker's loop body, timers, replayed requests. Server_Runs: the steps of
    the main thread, the workers, the timers and the replies as an inductive relation, in any order.
  \<^item> Replayed_Ops, Replayed_Requests, Journal_Replay, Database, Restart_Runs: the journal and the database together.
  \<^item> Journal_Rewrite, Rewrite_Samples (domain_system.c): rewriting the journal, from the walks over layers, records and properties in the child
    process to the copy of the recent entries and the renaming.

  \<^bold>\<open>What is shown.\<close> The invariant of the whole context (ctx_inv, built from the invariants of slabs, layers, key nodes, index and
  expirables) is kept by every operation that a worker executes. Over it, records_of and layers give the abstract
  database, and each handler is the operation on finite maps that the documentation promises, within the bounds below: creating and deleting layers,
  storing, reading, deleting and purging records, the three searches, public content. The theories Server_Runs to
  Database lift this to runs: accepted operations are executed once; with one worker the layers, positions and expirations are those
  that the abstract operations give in the order of the requests; accepted writes and reads without links can be finished; and a restart on
  the journal gives the same database. A rewritten journal holds what the database holds. A group of theorems states what the code does where it
  does not do what it means to: lost journal entries and properties, faults, repeated hits, an order
  of execution that differs from the journal.

  \<^bold>\<open>Bounds.\<close> A layer is only found again as long as the slab of layers has a single chunk, fewer than 64 layers; and
  removing a slot is right as long as its bucket has a single chunk: the statements on handlers that remove a position ask that the
  bucket of the record (movable), or every bucket (small_buckets), has fewer than 64 slots. A bucket at depth d holds at most 49 + d slots unless its cell is too
  small to be split, so that only the buckets of such cells, or of cells more than 14 levels deep, can get that full; the statements on
  the whole database (within_limits, room) ask for fewer than 64 layers and for fewer than 64 records in each of these cells, by their
  positions (theory Cells). The stack of a search holds 170 entries
  without overflowing; the statements on searches ask for an index of at most 56 levels, each of which leaves at most three nodes on the stack.
  The stack of linked records holds 256 entries before it moves. There is no fuel: a loop that might not end is a partial
  function whose None is not returning, and the theorems prove that it returns. A property map has at most 65535 bytes. The journal keeps URIs of up to 10000 and bodies of
  up to 100000 bytes, and reads back only what one call of evbuffer_read moves, the parameter R of the statements on replays.

  \<^bold>\<open>What is not modelled.\<close> Replication (replication_master.c, replication_slave.c), start-up, configuration and logging (app.c,
  app_config.c, parser.c, log.c): input and output around sockets and files. libevent, yajl and ext/tree.h are third-party code: of libevent the decoding of URIs
  is modelled, of yajl the calls that the program makes. Threads, mutexes and condition variables are the atomicity of the steps in
  Server_Runs; signals, HTTP headers and the life of sockets are left out. Opening, locking and closing files, and how the child process of a rewrite ends, are
  left out too.
\<close>

end
